(* ===== verification/Gino_Prelude.thy ===== *)
theory Gino_Prelude
  imports Main "HOL-Library.Word" "HOL-Library.Multiset"
begin

text \<open>
  Shared vocabulary of the development: the machine integers the C++ sources use, the failures
  a C++ program can run into, and generic lemmas on words, lists and multisets that several
  components need.
\<close>

section \<open>Machine integers\<close>

type_synonym u8 = "8 word"
type_synonym u16 = "16 word"
type_synonym u32 = "32 word"
type_synonym u64 = "64 word"

text \<open>
  \<open>int32_t\<close> and \<open>uint32_t\<close> share the type \<open>u32\<close>: a word is read unsigned with \<open>unat\<close>
  and signed with \<open>sint\<close>. C++'s usual arithmetic conversions turn a comparison of the two
  into an unsigned one, which is the order \<open>\<le>\<close> of \<open>u32\<close>.
\<close>

type_synonym i32 = "32 word"
type_synonym i64 = "64 word"

section \<open>Failures\<close>

text \<open>
  A failed \<open>assert\<close>, a call of \<open>abort\<close>, an exception of the library (\<open>at\<close> on a missing key,
  \<open>std::stoi\<close> on bad input) and undefined behaviour end the run; the model returns them as values.
\<close>

datatype cpp_error = AssertionFailed | Aborted | OutOfRange | InvalidArgument | UndefinedBehaviour

type_synonym 'a result = "cpp_error + 'a"

section \<open>Words\<close>

lemma word_ge_one_iff: "1 \<le> (w :: 'a::len word) \<longleftrightarrow> w \<noteq> 0"
  by (simp add: linorder_not_less [symmetric])

lemma u32_unat_bound: "unat (w :: u32) < 2 ^ 32"
  using unsigned_less [of w] by simp

lemma u32_sint_alt:
  "sint (w :: u32) = (if unat w < 2 ^ 31 then int (unat w) else int (unat w) - 2 ^ 32)"
proof -
  define x where "x = uint w"
  have b: "x < 2 ^ 32" "0 \<le> x"
    using uint_bounded [of w] by (simp_all add: x_def)
  have u: "int (unat w) = x" by (simp add: x_def)
  have s: "sint w = (x + 2 ^ 31) mod 2 ^ 32 - 2 ^ 31"
    using int_word_sint [where 'a = 32, of x] by (simp add: x_def)
  have m: "(x + 2 ^ 31) mod 2 ^ 32 = (if x < 2 ^ 31 then x + 2 ^ 31 else x - 2 ^ 31)"
  proof (cases "x < 2 ^ 31")
    case True
    with b show ?thesis by (simp add: mod_pos_pos_trivial)
  next
    case False
    have "(x + 2 ^ 31) mod 2 ^ 32 = ((x - 2 ^ 31) + 2 ^ 32) mod 2 ^ 32"
      by (simp add: add.commute)
    also have "\<dots> = x - 2 ^ 31"
      using b False by (subst mod_add_self2) (simp add: mod_pos_pos_trivial)
    finally show ?thesis using False by simp
  qed
  have c: "unat w < 2 ^ 31 \<longleftrightarrow> x < 2 ^ 31"
    unfolding u [symmetric] by (simp only: of_nat_less_iff [symmetric, where 'a = int]) simp
  show ?thesis unfolding s m u c by simp
qed

lemma u32_sint_nonneg_iff: "0 \<le> sint (w :: u32) \<longleftrightarrow> unat w < 2 ^ 31"
proof -
  have "m < 2 ^ 32 \<Longrightarrow> 0 \<le> (if m < 2 ^ 31 then int m else int m - 2 ^ 32) \<longleftrightarrow> m < 2 ^ 31" for m
    by simp
  then show ?thesis unfolding u32_sint_alt using u32_unat_bound by blast
qed

lemma u32_sint_eq_unat: "0 \<le> sint (w :: u32) \<Longrightarrow> sint w = int (unat w)"
  unfolding u32_sint_nonneg_iff by (subst u32_sint_alt) (simp only: if_True)

lemma u32_sint_less_one_iff: "sint (w :: u32) < 1 \<longleftrightarrow> w = 0 \<or> 2 ^ 31 \<le> unat w"
proof -
  have "m < 2 ^ 32 \<Longrightarrow>
      (if m < 2 ^ 31 then int m else int m - 2 ^ 32) < 1 \<longleftrightarrow> m = 0 \<or> 2 ^ 31 \<le> m" for m
    by simp
  then show ?thesis
    unfolding u32_sint_alt unat_0_iff [symmetric] using u32_unat_bound by blast
qed

lemma sum_list_word_remove1:
  "x \<in> set xs \<Longrightarrow> sum_list (remove1 x xs) = sum_list xs - (x :: 'a::len word)"
  by (induction xs) (auto simp: algebra_simps)

lemma u32_unat_of_nat: "n < 2 ^ 32 \<Longrightarrow> unat (of_nat n :: u32) = n"
  by (simp add: unat_of_nat)

lemma u64_unat_of_nat: "n < 2 ^ 64 \<Longrightarrow> unat (of_nat n :: u64) = n"
  by (simp add: unat_of_nat)

section \<open>Lists\<close>

lemma nth_append_new: "i < Suc (length xs) \<Longrightarrow> (xs @ [x]) ! i = (if i < length xs then xs ! i else x)"
  by (auto simp: nth_append)

lemma nth_update_False: "xs[b := False] ! i \<Longrightarrow> i < length xs \<Longrightarrow> xs ! i"
  by (cases "i = b") auto

lemma distinct_nth_take: "distinct xs \<Longrightarrow> k < length xs \<Longrightarrow> xs ! k \<notin> set (take k xs)"
  by (auto simp: in_set_conv_nth nth_eq_iff_index_eq)

text \<open>Two numbers of a window of length \<open>n\<close> with the same remainder are equal.\<close>

lemma window_mod_unique:
  assumes "d \<le> x" "x < d + n" "d \<le> y" "y < d + n" "x mod n = y mod (n :: nat)"
  shows "x = y"
  using assms
proof (induction x y rule: linorder_wlog)
  case (le x y)
  then have "n dvd y - x" by (metis mod_eq_dvd_iff_nat)
  moreover have "y - x < n" using le by linarith
  ultimately have "y - x = 0" by (meson nat_dvd_not_less not_gr_zero)
  with le show ?case by simp
next
  case (sym x y)
  then show ?case by simp
qed

end
