(* ===== verification/Cpp_Strings.thy ===== *)
theory Cpp_Strings
  imports Gino_Prelude
begin

text \<open>
  The conversions between strings and integers of the C and C++ library that the program uses:
  \<open>atoi\<close> (environment variable of the runtime), \<open>std::to_string\<close> and \<open>std::stoi\<close> (metadata written by the
  planner and read by the parallelizer).
\<close>

text \<open>
  \<open>atoi\<close> of the C library: white space, an optional sign, then digits up to the first
  character that is none; 0 when there is no digit.
\<close>

definition is_space :: "char \<Rightarrow> bool" where
  "is_space c \<longleftrightarrow> of_char c \<in> {9, 10, 11, 12, 13, 32 :: nat}"

definition is_digit :: "char \<Rightarrow> bool" where
  "is_digit c \<longleftrightarrow> 48 \<le> (of_char c :: nat) \<and> (of_char c :: nat) \<le> 57"

definition atoi_digits :: "string \<Rightarrow> int" where
  "atoi_digits s = foldl (\<lambda>n c. 10 * n + (of_char c - 48)) 0 (takeWhile is_digit s)"

definition atoi :: "string \<Rightarrow> int" where
  "atoi s =
     (case dropWhile is_space s of
        [] \<Rightarrow> 0
      | c # cs \<Rightarrow> if c = CHR ''-'' then - atoi_digits cs
                  else if c = CHR ''+'' then atoi_digits cs
                  else atoi_digits (c # cs))"

text \<open>
  \<open>std::stoi\<close>: like \<open>atoi\<close>, but it throws when there is no digit and when the number does not fit
  in an \<open>int\<close>.
\<close>

definition stoi_range :: "int \<Rightarrow> int result" where
  "stoi_range i = (if - (2 ^ 31) \<le> i \<and> i < 2 ^ 31 then Inr i else Inl OutOfRange)"

definition stoi_digits :: "bool \<Rightarrow> string \<Rightarrow> int result" where
  "stoi_digits neg s =
     (if takeWhile is_digit s = [] then Inl InvalidArgument
      else stoi_range (if neg then - atoi_digits s else atoi_digits s))"

definition stoi :: "string \<Rightarrow> int result" where
  "stoi s =
     (case dropWhile is_space s of
        [] \<Rightarrow> Inl InvalidArgument
      | c # cs \<Rightarrow> if c = CHR ''-'' then stoi_digits True cs
                  else if c = CHR ''+'' then stoi_digits False cs
                  else stoi_digits False (c # cs))"

text \<open>\<open>std::to_string\<close> of an unsigned integer.\<close>

definition digit_char :: "nat \<Rightarrow> char" where
  "digit_char d = char_of (48 + d)"

fun std_to_string :: "nat \<Rightarrow> string" where
  "std_to_string n =
     (if n < 10 then [digit_char n] else std_to_string (n div 10) @ [digit_char (n mod 10)])"

declare std_to_string.simps [simp del]

section \<open>Round trip\<close>

lemma of_char_digit_char [simp]: "d < 10 \<Longrightarrow> of_char (digit_char d) = (48 + d :: nat)"
  by (simp add: digit_char_def)

lemma is_digit_digit_char [simp]: "d < 10 \<Longrightarrow> is_digit (digit_char d)"
  by (simp add: is_digit_def)

lemma std_to_string_digits: "\<forall>c \<in> set (std_to_string n). is_digit c"
proof (induction n rule: std_to_string.induct)
  case (1 n)
  then show ?case by (subst std_to_string.simps) auto
qed

lemma std_to_string_nonempty: "std_to_string n \<noteq> []"
  by (subst std_to_string.simps) simp

lemma takeWhile_all: "\<forall>c \<in> set s. P c \<Longrightarrow> takeWhile P s = s"
  by (simp add: takeWhile_eq_all_conv)

lemma of_char_int: "(of_char c :: int) = int (of_char c)"
  by (simp only: of_nat_of_char)

lemma atoi_digits_to_string: "atoi_digits (std_to_string n) = int n"
proof (induction n rule: std_to_string.induct)
  case (1 n)
  have eq: "atoi_digits s = foldl (\<lambda>n c. 10 * n + (of_char c - 48)) 0 s" if "\<forall>c \<in> set s. is_digit c" for s
    using that by (simp add: atoi_digits_def takeWhile_all)
  have d: "(of_char (digit_char k) :: int) = 48 + int k" if "k < 10" for k
    unfolding of_char_int using that by simp
  show ?case
  proof (cases "n < 10")
    case True
    then show ?thesis using eq [OF std_to_string_digits [of n]] d [of n]
      by (simp add: std_to_string.simps [of n])
  next
    case False
    have "atoi_digits (std_to_string n) = 10 * atoi_digits (std_to_string (n div 10)) + int (n mod 10)"
      using False eq [OF std_to_string_digits [of n]] eq [OF std_to_string_digits [of "n div 10"]]
        d [of "n mod 10"]
      by (simp add: std_to_string.simps [of n])
    also have "\<dots> = int n" unfolding 1 [OF False] by (simp add: zdiv_int zmod_int)
    finally show ?thesis .
  qed
qed

lemma digit_not_space_or_sign:
  "is_digit c \<Longrightarrow> \<not> is_space c \<and> c \<noteq> CHR ''-'' \<and> c \<noteq> CHR ''+''"
  by (auto simp: is_digit_def is_space_def)

lemma stoi_to_string:
  assumes "n < 2 ^ 31"
  shows "stoi (std_to_string n) = Inr (int n)"
proof -
  obtain c cs where s: "std_to_string n = c # cs"
    using std_to_string_nonempty by (cases "std_to_string n") auto
  then have c: "is_digit c" using std_to_string_digits [of n] by simp
  with digit_not_space_or_sign have "dropWhile is_space (c # cs) = c # cs" by simp
  with c s have "stoi (std_to_string n) = stoi_digits False (std_to_string n)"
    using digit_not_space_or_sign by (auto simp: stoi_def)
  moreover have "takeWhile is_digit (std_to_string n) \<noteq> []" using s c by simp
  ultimately show ?thesis using assms by (simp add: stoi_digits_def stoi_range_def atoi_digits_to_string)
qed

end
