(* ===== verification/Runtime_Cores.thy ===== *)
theory Runtime_Cores
  imports Cpp_Strings
begin

text \<open>
  The core accounting of the runtime (\<open>src/core/runtime/Parallelizer_utils.cpp\<close>, class
  \<open>NoelleRuntime\<close>): how many cores the machine has, how a dispatcher reserves some of them and
  gives them back. Every operation holds \<open>spinLock\<close> (or only reads one integer), so it is one
  atomic transformation of the runtime state.
\<close>

section \<open>The runtime object\<close>

text \<open>
  One \<open>DOALL_args_t\<close>. Function and environment pointers are addresses; \<open>endLock\<close> is \<open>True\<close>
  while the spin lock is held.
\<close>

record DOALL_args_t =
  parallelizedLoop :: nat
  env :: nat
  coreID :: i64
  numCores :: i64
  chunkSize :: i64
  endLock :: bool

text \<open>
  The runtime. \<open>doallMemory\<close> holds the argument blocks themselves, so the position of a block is
  its address: blocks are never moved or freed. \<open>NOELLE_idleCores\<close> is an \<open>int32_t\<close>.
\<close>

record NoelleRuntime =
  doallMemorySizes :: "u32 list"
  doallMemoryAvailability :: "bool list"
  doallMemory :: "DOALL_args_t list list"
  NOELLE_idleCores :: i32
  maxCores :: u32

section \<open>Number of cores\<close>

text \<open>
  \<open>getMaximumNumberOfCores\<close>. The first argument is the static variable \<open>cores\<close>, the other
  two are the environment variable \<open>NOELLE_CORES\<close> and \<open>std::thread::hardware_concurrency()\<close>.
  The result is the value returned and the new value of the static variable.
\<close>

definition getMaximumNumberOfCores ::
    "i32 \<Rightarrow> string option \<Rightarrow> u32 \<Rightarrow> u32 \<times> i32" where
  "getMaximumNumberOfCores cores envVar hardware_concurrency =
     (let cores' =
        (if cores = 0
         then (case envVar of
                 None \<Rightarrow> hardware_concurrency div 2
               | Some v \<Rightarrow> word_of_int (atoi v))
         else cores)
      in (cores', cores'))"

text \<open>The constructor: every core is idle and no argument block exists.\<close>

definition NoelleRuntime_new :: "string option \<Rightarrow> u32 \<Rightarrow> NoelleRuntime" where
  "NoelleRuntime_new envVar hardware_concurrency =
     (let m = fst (getMaximumNumberOfCores 0 envVar hardware_concurrency)
      in \<lparr>doallMemorySizes = [], doallMemoryAvailability = [], doallMemory = [],
          NOELLE_idleCores = m, maxCores = m\<rparr>)"

section \<open>Reserving and releasing\<close>

text \<open>
  \<open>reserveCores\<close>. \<open>NOELLE_idleCores >= coresRequested\<close> compares an \<open>int32_t\<close> with a
  \<open>uint32_t\<close>: the comparison is unsigned, and so is the type of the conditional expression.
\<close>

definition reserveCores :: "u32 \<Rightarrow> NoelleRuntime \<Rightarrow> u32 \<times> NoelleRuntime" where
  "reserveCores coresRequested rt =
     (let n = (if NOELLE_idleCores rt \<ge> coresRequested then coresRequested
               else NOELLE_idleCores rt);
          n = (if n < 1 then 1 else n)
      in (n, rt\<lparr>NOELLE_idleCores := NOELLE_idleCores rt - n\<rparr>))"

definition releaseCores :: "u32 \<Rightarrow> NoelleRuntime \<Rightarrow> NoelleRuntime result" where
  "releaseCores coresReleased rt =
     (if coresReleased > 0
      then Inr (rt\<lparr>NOELLE_idleCores := NOELLE_idleCores rt + coresReleased\<rparr>)
      else Inl AssertionFailed)"

text \<open>\<open>getAvailableCores\<close> copies the counter into an \<open>int32_t\<close>: this comparison is signed.\<close>

definition getAvailableCores :: "NoelleRuntime \<Rightarrow> u32" where
  "getAvailableCores rt =
     (if sint (NOELLE_idleCores rt) < 1 then 1 else NOELLE_idleCores rt)"

definition NOELLE_getAvailableCores :: "NoelleRuntime \<Rightarrow> u32" where
  "NOELLE_getAvailableCores rt = getAvailableCores rt"

section \<open>Interleaved dispatchers\<close>

text \<open>
  Dispatchers of any number of threads reserve and release cores in any order. \<open>outstanding\<close>
  lists the grants that have not been given back.
\<close>

record core_state =
  runtime :: NoelleRuntime
  outstanding :: "u32 list"

inductive core_step :: "core_state \<Rightarrow> core_state \<Rightarrow> bool" where
  reserve: "reserveCores req (runtime s) = (n, rt') \<Longrightarrow>
     core_step s (s\<lparr>runtime := rt', outstanding := n # outstanding s\<rparr>)"
| release: "n \<in> set (outstanding s) \<Longrightarrow> releaseCores n (runtime s) = Inr rt' \<Longrightarrow>
     core_step s (s\<lparr>runtime := rt', outstanding := remove1 n (outstanding s)\<rparr>)"

inductive core_reachable :: "NoelleRuntime \<Rightarrow> core_state \<Rightarrow> bool" for rt0 where
  start: "core_reachable rt0 \<lparr>runtime = rt0, outstanding = []\<rparr>"
| step: "core_reachable rt0 s \<Longrightarrow> core_step s t \<Longrightarrow> core_reachable rt0 t"

inductive_cases core_stepE: "core_step s t"

section \<open>The ledger contract\<close>

text \<open>
  What the dispatchers rely on: a reservation moves at least one core out of the idle count, a
  release moves them back. The lemma \<open>reserve_then_release\<close> is proved from the contract alone.
\<close>

locale core_ledger =
  fixes reserve :: "u32 \<Rightarrow> 's \<Rightarrow> u32 \<times> 's"
    and release :: "u32 \<Rightarrow> 's \<Rightarrow> 's result"
    and idle :: "'s \<Rightarrow> u32"
  assumes reserve_idle: "reserve r s = (n, s') \<Longrightarrow> idle s' = idle s - n"
    and reserve_pos: "reserve r s = (n, s') \<Longrightarrow> n \<noteq> 0"
    and release_idle: "release n s = Inr s' \<Longrightarrow> idle s' = idle s + n"
    and release_total: "n \<noteq> 0 \<Longrightarrow> \<exists>s'. release n s = Inr s'"
begin

lemma reserve_then_release:
  assumes "reserve r s = (n, s1)" and "idle s2 = idle s1"
  shows "\<exists>s3. release n s2 = Inr s3 \<and> idle s3 = idle s"
proof -
  from assms(1) have "n \<noteq> 0" by (rule reserve_pos)
  then obtain s3 where s3: "release n s2 = Inr s3"
    using release_total by blast
  then have "idle s3 = idle s2 + n" by (rule release_idle)
  with assms(2) reserve_idle [OF assms(1)] have "idle s3 = idle s" by simp
  with s3 show ?thesis by blast
qed

end

interpretation ledger: core_ledger reserveCores releaseCores NOELLE_idleCores
  by unfold_locales
    (auto simp: reserveCores_def releaseCores_def Let_def word_gt_0 split: if_splits)

section \<open>Properties\<close>

lemma reserveCores_idle_only:
  "reserveCores req rt = (n, rt') \<Longrightarrow>
     doallMemorySizes rt' = doallMemorySizes rt \<and>
     doallMemoryAvailability rt' = doallMemoryAvailability rt \<and>
     doallMemory rt' = doallMemory rt \<and> maxCores rt' = maxCores rt"
  by (auto simp: reserveCores_def Let_def)

lemma reserveCores_negative:
  assumes "sint (NOELLE_idleCores rt) < 0" and "unat req < 2 ^ 31" and "req \<noteq> 0"
  shows "fst (reserveCores req rt) = req"
proof -
  have "\<not> unat (NOELLE_idleCores rt) < 2 ^ 31"
    using assms(1) u32_sint_nonneg_iff by (metis not_less)
  then have "req \<le> NOELLE_idleCores rt"
    using assms(2) by (simp add: word_le_nat_alt)
  then show ?thesis using assms(3) by (simp add: reserveCores_def Let_def)
qed

lemma reserveCores_unsigned:
  "unat (fst (reserveCores req rt)) = max 1 (min (unat req) (unat (NOELLE_idleCores rt)))"
  by (auto simp: reserveCores_def Let_def word_le_nat_alt max_def min_def
      unat_0_iff [symmetric] simp del: unat_0_iff)

text \<open>
  as long as the idle counter has not gone negative, \<open>reserveCores\<close> grants the request
  capped by the idle cores, and one core when none is idle or none is asked for.
\<close>

theorem reserveCores_grant:
  assumes "0 \<le> sint (NOELLE_idleCores rt)"
  shows "int (unat (fst (reserveCores req rt))) =
           max 1 (min (int (unat req)) (sint (NOELLE_idleCores rt)))"
proof -
  from assms have "sint (NOELLE_idleCores rt) = int (unat (NOELLE_idleCores rt))"
    by (rule u32_sint_eq_unat)
  then show ?thesis
    unfolding reserveCores_unsigned by (simp only: of_nat_max of_nat_min of_nat_1)
qed

theorem reserveCores_grant_witness:
  "int (unat (fst (reserveCores 8 (NoelleRuntime_new (Some ''6'') 0)))) = 6"
proof -
  have i: "NOELLE_idleCores (NoelleRuntime_new (Some ''6'') 0) = 6"
    by (simp add: NoelleRuntime_new_def getMaximumNumberOfCores_def atoi_def atoi_digits_def
        is_space_def is_digit_def of_char_def)
  have "0 \<le> sint (NOELLE_idleCores (NoelleRuntime_new (Some ''6'') 0))"
    unfolding i by simp
  from reserveCores_grant [OF this, of 8] show ?thesis unfolding i by simp
qed

text \<open>
  C30: whatever the interleaving of reservations and releases, the idle counter and the cores
  handed out add up to the initial counter (modulo \<open>2 ^ 32\<close>); when everything has been given
  back the counter is what it was.
\<close>

theorem core_conservation:
  assumes "core_reachable rt0 s"
  shows "NOELLE_idleCores (runtime s) + sum_list (outstanding s) = NOELLE_idleCores rt0"
  using assms
proof (induction rule: core_reachable.induct)
  case start
  show ?case by simp
next
  case (step s t)
  from step.hyps(2) step.IH show ?case
    by (auto elim!: core_stepE dest!: ledger.reserve_idle ledger.release_idle
        simp: sum_list_word_remove1)
qed

theorem core_conservation_witness:
  "\<exists>s. core_reachable (NoelleRuntime_new None 8) s \<and> outstanding s = [3] \<and>
       NOELLE_idleCores (runtime s) + sum_list (outstanding s) = 4"
proof -
  let ?rt = "NoelleRuntime_new None 8"
  have i: "NOELLE_idleCores ?rt = 4"
    by (simp add: NoelleRuntime_new_def getMaximumNumberOfCores_def)
  have r: "reserveCores 3 ?rt = (3, ?rt\<lparr>NOELLE_idleCores := 1\<rparr>)"
    using i by (simp add: reserveCores_def Let_def)
  let ?s = "\<lparr>runtime = ?rt\<lparr>NOELLE_idleCores := 1\<rparr>, outstanding = [3]\<rparr>"
  have "core_reachable ?rt ?s"
    using core_reachable.step [OF core_reachable.start
        core_step.reserve [of 3 "\<lparr>runtime = ?rt, outstanding = []\<rparr>", simplified, OF r]]
    by simp
  with core_conservation [OF this] i show ?thesis by (metis core_state.select_convs(2))
qed

text \<open>
  When the counter is zero the next dispatcher is still granted one core, which takes the
  counter to \<open>-1\<close>; from there the unsigned comparison of \<open>reserveCores\<close> grants any request in
  full although \<open>getAvailableCores\<close> reports a single core, so \<open>m + 1 + r\<close> cores of a machine
  with \<open>m\<close> cores can be in use.
\<close>

theorem reserveCores_overcommits:
  assumes "NOELLE_idleCores rt = m" and "m \<noteq> 0" and "r \<noteq> 0" and "unat r < 2 ^ 31"
  shows "\<exists>s. core_reachable rt s \<and> getAvailableCores (runtime s) = 1 \<and>
             fst (reserveCores r (runtime s)) = r \<and> outstanding s = [1, m]"
proof -
  let ?rt1 = "rt\<lparr>NOELLE_idleCores := 0\<rparr>"
  let ?rt2 = "rt\<lparr>NOELLE_idleCores := - 1\<rparr>"
  have r1: "reserveCores m rt = (m, ?rt1)" and r2: "reserveCores 1 ?rt1 = (1, ?rt2)"
    using assms(1,2) by (simp_all add: reserveCores_def Let_def)
  have "core_reachable rt \<lparr>runtime = ?rt1, outstanding = [m]\<rparr>"
    using core_reachable.step [OF core_reachable.start
        core_step.reserve [of m "\<lparr>runtime = rt, outstanding = []\<rparr>", simplified, OF r1]]
    by simp
  from core_reachable.step [OF this
      core_step.reserve [of 1 "\<lparr>runtime = ?rt1, outstanding = [m]\<rparr>", simplified, OF r2]]
  have "core_reachable rt \<lparr>runtime = ?rt2, outstanding = [1, m]\<rparr>" by simp
  moreover have "fst (reserveCores r ?rt2) = r"
    using assms(3,4) by (intro reserveCores_negative) simp_all
  moreover have "getAvailableCores ?rt2 = 1"
    by (simp add: getAvailableCores_def)
  ultimately show ?thesis by (metis core_state.select_convs(1,2))
qed

theorem reserveCores_overcommits_witness:
  "\<exists>s. core_reachable (NoelleRuntime_new None 8) s \<and> getAvailableCores (runtime s) = 1 \<and>
       fst (reserveCores 4 (runtime s)) = 4 \<and> outstanding s = [1, 4]"
  by (rule reserveCores_overcommits)
    (simp_all add: NoelleRuntime_new_def getMaximumNumberOfCores_def)

end
