(* ===== verification/Fork_Join.thy ===== *)
theory Fork_Join
  imports Gino_Prelude
begin

text \<open>
  The fork/join protocol the three dispatchers of \<open>Parallelizer_utils.cpp\<close> share: for each worker
  fill in its argument block and submit it to the thread pool, run one task on the dispatcher's own
  core (not DSWP), then take every end lock once. A trampoline runs the task and releases the end
  lock of its block. The thread pool (VIRGIL) is not part of the repository: it is modelled by what
  it promises, a submitted task is run once, by some thread, at some later time.
\<close>

section \<open>The protocol as a step relation\<close>

datatype fj_pc = Submit nat | Join nat | Joined

text \<open>
  \<open>workers\<close> is the number of tasks submitted, \<open>prepare i\<close> what the dispatcher writes into block
  \<open>i\<close>, \<open>invoke\<close> the call the trampoline makes from a block, \<open>own\<close> the call the dispatcher makes
  itself, and the last two read and write the block's end lock.
\<close>

record ('a, 'v) fj_ops =
  workers :: nat
  prepare :: "nat \<Rightarrow> 'a \<Rightarrow> 'a"
  invoke :: "'a \<Rightarrow> 'v"
  own :: "'v option"
  getLock :: "'a \<Rightarrow> bool"
  setLock :: "bool \<Rightarrow> 'a \<Rightarrow> 'a"

text \<open>
  \<open>pending\<close> are the submitted tasks, \<open>running\<close> those whose trampoline has called the loop but not
  yet released the end lock, \<open>log\<close> the calls of the parallelized loop so far.
\<close>

record ('a, 'v) fj_state =
  pc :: fj_pc
  args :: "'a list"
  pending :: "nat list"
  running :: "nat list"
  log :: "'v list"

definition fj_init :: "'a list \<Rightarrow> ('a, 'v) fj_state" where
  "fj_init as = \<lparr>pc = Submit 0, args = as, pending = [], running = [], log = []\<rparr>"

inductive fj_step :: "('a, 'v) fj_ops \<Rightarrow> ('a, 'v) fj_state \<Rightarrow> ('a, 'v) fj_state \<Rightarrow> bool"
  for ops where
  submit: "pc s = Submit i \<Longrightarrow> i < workers ops \<Longrightarrow> i < length (args s) \<Longrightarrow>
     fj_step ops s (s\<lparr>args := (args s)[i := prepare ops i (args s ! i)],
                      pending := i # pending s, pc := Submit (Suc i)\<rparr>)"
| run_own: "pc s = Submit i \<Longrightarrow> \<not> i < workers ops \<Longrightarrow>
     fj_step ops s (s\<lparr>log := (case own ops of None \<Rightarrow> log s | Some v \<Rightarrow> v # log s),
                      pc := Join 0\<rparr>)"
| start: "i \<in> set (pending s) \<Longrightarrow>
     fj_step ops s (s\<lparr>pending := remove1 i (pending s), running := i # running s,
                      log := invoke ops (args s ! i) # log s\<rparr>)"
| finish: "i \<in> set (running s) \<Longrightarrow>
     fj_step ops s (s\<lparr>running := remove1 i (running s),
                      args := (args s)[i := setLock ops False (args s ! i)]\<rparr>)"
| join: "pc s = Join i \<Longrightarrow> i < workers ops \<Longrightarrow> \<not> getLock ops (args s ! i) \<Longrightarrow>
     fj_step ops s (s\<lparr>args := (args s)[i := setLock ops True (args s ! i)],
                      pc := Join (Suc i)\<rparr>)"
| joined: "pc s = Join i \<Longrightarrow> \<not> i < workers ops \<Longrightarrow> fj_step ops s (s\<lparr>pc := Joined\<rparr>)"

section \<open>What the state looks like on the way\<close>

definition submitted :: "('a, 'v) fj_ops \<Rightarrow> ('a, 'v) fj_state \<Rightarrow> nat" where
  "submitted ops s = (case pc s of Submit i \<Rightarrow> i | _ \<Rightarrow> workers ops)"

definition collected :: "('a, 'v) fj_ops \<Rightarrow> ('a, 'v) fj_state \<Rightarrow> nat" where
  "collected ops s = (case pc s of Submit _ \<Rightarrow> 0 | Join i \<Rightarrow> i | Joined \<Rightarrow> workers ops)"

definition own_calls :: "('a, 'v) fj_ops \<Rightarrow> ('a, 'v) fj_state \<Rightarrow> 'v multiset" where
  "own_calls ops s = (case pc s of Submit _ \<Rightarrow> {#} | _ \<Rightarrow> (case own ops of None \<Rightarrow> {#} | Some v \<Rightarrow> {#v#}))"

text \<open>The block of worker \<open>i\<close>, given its content \<open>a\<close> before the dispatch.\<close>

definition block_of :: "('a, 'v) fj_ops \<Rightarrow> ('a, 'v) fj_state \<Rightarrow> nat \<Rightarrow> 'a \<Rightarrow> 'a" where
  "block_of ops s i a =
     (if submitted ops s \<le> i then a
      else if i \<in> set (pending s) \<union> set (running s) then prepare ops i a
      else if collected ops s \<le> i then setLock ops False (prepare ops i a)
      else setLock ops True (setLock ops False (prepare ops i a)))"

definition fj_inv :: "('a, 'v) fj_ops \<Rightarrow> 'a list \<Rightarrow> ('a, 'v) fj_state \<Rightarrow> bool" where
  "fj_inv ops as s \<longleftrightarrow>
     submitted ops s \<le> workers ops \<and> collected ops s \<le> workers ops \<and>
     distinct (pending s @ running s) \<and>
     set (pending s) \<union> set (running s) \<subseteq> {collected ops s..<submitted ops s} \<and>
     length (args s) = length as \<and>
     (\<forall>i < length as. args s ! i = block_of ops s i (as ! i)) \<and>
     mset (log s) = own_calls ops s +
       image_mset (\<lambda>i. invoke ops (prepare ops i (as ! i)))
         (mset_set ({..<submitted ops s} - set (pending s)))"

text \<open>Every step makes this number smaller.\<close>

definition fj_measure :: "('a, 'v) fj_ops \<Rightarrow> ('a, 'v) fj_state \<Rightarrow> nat" where
  "fj_measure ops s =
     (case pc s of Submit i \<Rightarrow> 3 * (workers ops - i) + workers ops + 2
      | Join i \<Rightarrow> (workers ops - i) + 1 | Joined \<Rightarrow> 0)
     + 2 * length (pending s) + length (running s)"

lemma submitted_frame [simp]:
  "submitted ops (s\<lparr>args := a\<rparr>) = submitted ops s"
  "submitted ops (s\<lparr>pending := p\<rparr>) = submitted ops s"
  "submitted ops (s\<lparr>running := p\<rparr>) = submitted ops s"
  "submitted ops (s\<lparr>log := l\<rparr>) = submitted ops s"
  by (simp_all add: submitted_def)

lemma collected_frame [simp]:
  "collected ops (s\<lparr>args := a\<rparr>) = collected ops s"
  "collected ops (s\<lparr>pending := p\<rparr>) = collected ops s"
  "collected ops (s\<lparr>running := p\<rparr>) = collected ops s"
  "collected ops (s\<lparr>log := l\<rparr>) = collected ops s"
  by (simp_all add: collected_def)

lemma own_calls_frame [simp]:
  "own_calls ops (s\<lparr>args := a\<rparr>) = own_calls ops s"
  "own_calls ops (s\<lparr>pending := p\<rparr>) = own_calls ops s"
  "own_calls ops (s\<lparr>running := p\<rparr>) = own_calls ops s"
  "own_calls ops (s\<lparr>log := l\<rparr>) = own_calls ops s"
  by (simp_all add: own_calls_def)

section \<open>The contract of the blocks\<close>

text \<open>
  A block that is \<open>ready\<close> for worker \<open>i\<close> has its end lock held once it is prepared and makes the
  \<open>expected\<close> call; after the join it is ready again.
\<close>

locale fork_join =
  fixes ops :: "('a, 'v) fj_ops" and ready :: "nat \<Rightarrow> 'a \<Rightarrow> bool" and expected :: "nat \<Rightarrow> 'v"
  assumes get_set: "getLock ops (setLock ops b a) = b"
    and prepared_locked: "ready i a \<Longrightarrow> getLock ops (prepare ops i a)"
    and prepared_call: "ready i a \<Longrightarrow> invoke ops (prepare ops i a) = expected i"
    and ready_again: "ready i a \<Longrightarrow> ready i (setLock ops True (setLock ops False (prepare ops i a)))"
begin

lemma fj_inv_init: "fj_inv ops as (fj_init as)"
  by (simp add: fj_inv_def fj_init_def submitted_def collected_def block_of_def own_calls_def)

lemma fj_inv_submit:
  assumes inv: "fj_inv ops as s" and pc: "pc s = Submit i" "i < workers ops"
    and w: "workers ops \<le> length as"
  shows "fj_inv ops as (s\<lparr>args := (args s)[i := prepare ops i (args s ! i)],
           pending := i # pending s, pc := Submit (Suc i)\<rparr>)" (is "fj_inv ops as ?t")
proof -
  have st: "submitted ops ?t = Suc i" "collected ops ?t = 0" "submitted ops s = i"
    "collected ops s = 0" "own_calls ops ?t = {#}" "own_calls ops s = {#}"
    using pc by (simp_all add: submitted_def collected_def own_calls_def)
  have sub: "set (pending s) \<subseteq> {0..<i}" "set (running s) \<subseteq> {0..<i}"
    using inv by (simp_all add: fj_inv_def st)
  have calls: "{..<Suc i} - set (pending ?t) = {..<i} - set (pending s)"
    by (auto simp: less_Suc_eq)
  have blocks: "args ?t ! j = block_of ops ?t j (as ! j)" if "j < length as" for j
  proof -
    have old: "args s ! j = block_of ops s j (as ! j)" and len: "length (args s) = length as"
      using inv that by (simp_all add: fj_inv_def)
    show ?thesis
    proof (cases "j = i")
      case True
      with old have "args s ! i = as ! i" by (simp add: block_of_def st)
      then show ?thesis using len that True unfolding block_of_def st by simp
    next
      case False
      then show ?thesis using len that old unfolding block_of_def st by (simp add: less_Suc_eq_le)
    qed
  qed
  have dist: "distinct (pending ?t @ running ?t)" and len: "length (args ?t) = length as"
    using inv sub by (auto simp: fj_inv_def)
  have rng: "set (pending ?t) \<union> set (running ?t) \<subseteq> {0..<Suc i}"
    using sub by auto
  have "mset (log s) = image_mset (\<lambda>i. invoke ops (prepare ops i (as ! i)))
      (mset_set ({..<i} - set (pending s)))"
    using inv by (simp add: fj_inv_def st)
  then show ?thesis
    unfolding fj_inv_def st calls using pc(2) blocks dist len rng by simp
qed

lemma fj_inv_own:
  assumes "fj_inv ops as s" and "pc s = Submit i" and "\<not> i < workers ops"
  shows "fj_inv ops as (s\<lparr>log := (case own ops of None \<Rightarrow> log s | Some v \<Rightarrow> v # log s),
           pc := Join 0\<rparr>)"
proof -
  from assms have "i = workers ops" by (simp add: fj_inv_def submitted_def)
  with assms show ?thesis
    by (auto simp: fj_inv_def block_of_def submitted_def collected_def own_calls_def
        split: option.splits)
qed

lemma fj_inv_start:
  assumes inv: "fj_inv ops as s" and w: "workers ops \<le> length as" and i: "i \<in> set (pending s)"
  shows "fj_inv ops as (s\<lparr>pending := remove1 i (pending s), running := i # running s,
           log := invoke ops (args s ! i) # log s\<rparr>)" (is "fj_inv ops as ?t")
proof -
  have d: "distinct (pending s)" and i2: "i < submitted ops s" and w2: "submitted ops s \<le> workers ops"
    using inv i by (auto simp: fj_inv_def)
  have "args s ! i = prepare ops i (as ! i)"
    using inv w w2 i i2 by (simp add: fj_inv_def block_of_def)
  moreover have "{..<submitted ops s} - set (remove1 i (pending s))
      = insert i ({..<submitted ops s} - set (pending s))"
    using d i i2 by auto
  moreover have "\<forall>j < length as. block_of ops ?t j (as ! j) = block_of ops s j (as ! j)"
    using d i by (auto simp: block_of_def)
  ultimately show ?thesis
    using inv i d by (auto simp: fj_inv_def)
qed

lemma fj_inv_finish:
  assumes inv: "fj_inv ops as s" and w: "workers ops \<le> length as" and i: "i \<in> set (running s)"
  shows "fj_inv ops as (s\<lparr>running := remove1 i (running s),
           args := (args s)[i := setLock ops False (args s ! i)]\<rparr>)" (is "fj_inv ops as ?t")
proof -
  have d: "distinct (running s)" "i \<notin> set (pending s)" and i2: "i < submitted ops s" "collected ops s \<le> i"
    using inv i by (auto simp: fj_inv_def)
  have "args ?t ! j = block_of ops ?t j (as ! j)" if "j < length as" for j
    using inv that d i i2 w by (cases "j = i") (auto simp: fj_inv_def block_of_def)
  then show ?thesis
    using inv i d by (auto simp: fj_inv_def)
qed

lemma fj_inv_join:
  assumes inv: "fj_inv ops as s" and w: "workers ops \<le> length as"
    and ready: "\<forall>j < workers ops. ready j (as ! j)"
    and pc: "pc s = Join i" "i < workers ops" and free: "\<not> getLock ops (args s ! i)"
  shows "fj_inv ops as (s\<lparr>args := (args s)[i := setLock ops True (args s ! i)],
           pc := Join (Suc i)\<rparr>)" (is "fj_inv ops as ?t")
proof -
  have "i \<notin> set (pending s) \<union> set (running s)"
  proof
    assume "i \<in> set (pending s) \<union> set (running s)"
    then have "args s ! i = prepare ops i (as ! i)"
      using inv w pc by (simp add: fj_inv_def block_of_def submitted_def)
    with free ready pc(2) show False by (simp add: prepared_locked)
  qed
  moreover from this have later: "set (pending s) \<union> set (running s) \<subseteq> {Suc i..<workers ops}"
    using inv pc by (auto simp: fj_inv_def submitted_def collected_def Suc_le_eq le_less)
  moreover have "args ?t ! j = block_of ops ?t j (as ! j)" if "j < length as" for j
    using inv pc that calculation w
    by (cases "j = i") (auto simp: fj_inv_def block_of_def submitted_def collected_def Suc_le_eq)
  ultimately show ?thesis
    using inv pc by (auto simp: fj_inv_def submitted_def collected_def own_calls_def)
qed

lemma fj_inv_joined:
  assumes "fj_inv ops as s" and "pc s = Join i" and "\<not> i < workers ops"
  shows "fj_inv ops as (s\<lparr>pc := Joined\<rparr>)"
proof -
  from assms have "i = workers ops" by (simp add: fj_inv_def collected_def)
  with assms show ?thesis
    by (auto simp: fj_inv_def block_of_def submitted_def collected_def own_calls_def)
qed

lemma fj_inv_step:
  assumes inv: "fj_inv ops as s" and w: "workers ops \<le> length as"
    and ready: "\<forall>j < workers ops. ready j (as ! j)" and step: "fj_step ops s t"
  shows "fj_inv ops as t"
  using step
proof cases
  case (submit i) with fj_inv_submit [OF inv _ _ w] show ?thesis by simp
next
  case (run_own i) with fj_inv_own [OF inv] show ?thesis by simp
next
  case (start i) with fj_inv_start [OF inv w] show ?thesis by simp
next
  case (finish i) with fj_inv_finish [OF inv w] show ?thesis by simp
next
  case (join i) with fj_inv_join [OF inv w ready] show ?thesis by simp
next
  case (joined i) with fj_inv_joined [OF inv] show ?thesis by simp
qed

lemma fj_inv_reachable:
  assumes "(fj_step ops)\<^sup>*\<^sup>* (fj_init as) s" and "workers ops \<le> length as"
    and "\<forall>j < workers ops. ready j (as ! j)"
  shows "fj_inv ops as s"
  using assms(1)
proof induction
  case base
  show ?case by (rule fj_inv_init)
next
  case (step t u)
  from step.IH assms(2,3) step.hyps(2) show ?case by (rule fj_inv_step)
qed

text \<open>Not stuck: whenever the dispatcher has not joined, some thread can move.\<close>

lemma fj_progress:
  assumes reach: "(fj_step ops)\<^sup>*\<^sup>* (fj_init as) s" and w: "workers ops \<le> length as"
    and ready: "\<forall>j < workers ops. ready j (as ! j)" and pc: "pc s \<noteq> Joined"
  shows "\<exists>t. fj_step ops s t"
proof -
  have inv: "fj_inv ops as s" by (rule fj_inv_reachable [OF reach w ready])
  show ?thesis
  proof (cases "pc s")
    case (Submit i)
    have "length (args s) = length as" using inv by (simp add: fj_inv_def)
    with w have "i < workers ops \<Longrightarrow> i < length (args s)" by simp
    with Submit show ?thesis
      using fj_step.submit [of s i ops] fj_step.run_own [of s i ops] by blast
  next
    case (Join i)
    show ?thesis
    proof (cases "i < workers ops \<and> i \<notin> set (pending s) \<union> set (running s)")
      case True
      then have "args s ! i = setLock ops False (prepare ops i (as ! i))"
        using inv w Join by (simp add: fj_inv_def block_of_def submitted_def collected_def)
      then have "\<not> getLock ops (args s ! i)" by (simp add: get_set)
      with True Join show ?thesis by (blast intro: fj_step.join)
    next
      case False
      with Join show ?thesis by (blast intro: fj_step.start fj_step.finish fj_step.joined)
    qed
  next
    case Joined
    with pc show ?thesis by simp
  qed
qed

text \<open>
  At the join every worker was called exactly once with its own block, the dispatcher's own call
  was made once, and every block is ready for the next dispatch.
\<close>

lemma fj_joined:
  assumes reach: "(fj_step ops)\<^sup>*\<^sup>* (fj_init as) s" and w: "workers ops \<le> length as"
    and ready: "\<forall>j < workers ops. ready j (as ! j)" and pc: "pc s = Joined"
  shows "mset (log s) = (case own ops of None \<Rightarrow> {#} | Some v \<Rightarrow> {#v#}) +
           image_mset expected (mset_set {..<workers ops})"
    and "length (args s) = length as"
    and "\<forall>j < workers ops. ready j (args s ! j) "
    and "\<forall>j. workers ops \<le> j \<longrightarrow> j < length as \<longrightarrow> args s ! j = as ! j"
proof -
  have inv: "fj_inv ops as s" by (rule fj_inv_reachable [OF reach w ready])
  have st: "submitted ops s = workers ops" "collected ops s = workers ops"
    using pc by (simp_all add: submitted_def collected_def)
  have empty: "pending s = []" "running s = []"
    using inv by (auto simp: fj_inv_def st)
  have "image_mset (\<lambda>i. invoke ops (prepare ops i (as ! i))) (mset_set {..<workers ops})
      = image_mset expected (mset_set {..<workers ops})"
    using ready by (intro image_mset_cong) (auto simp: prepared_call)
  then show "mset (log s) = (case own ops of None \<Rightarrow> {#} | Some v \<Rightarrow> {#v#}) +
      image_mset expected (mset_set {..<workers ops})"
    using inv pc by (simp add: fj_inv_def st empty own_calls_def)
  show "length (args s) = length as" using inv by (simp add: fj_inv_def)
  show "\<forall>j < workers ops. ready j (args s ! j)"
    using inv w ready by (auto simp: fj_inv_def block_of_def st empty intro: ready_again)
  show "\<forall>j. workers ops \<le> j \<longrightarrow> j < length as \<longrightarrow> args s ! j = as ! j"
    using inv by (simp add: fj_inv_def block_of_def st)
qed

end

section \<open>Every execution is finite\<close>

lemma length_remove1_Suc: "x \<in> set xs \<Longrightarrow> length xs = Suc (length (remove1 x xs))"
  by (induction xs) auto

lemma fj_step_measure: "fj_step ops s t \<Longrightarrow> fj_measure ops t < fj_measure ops s"
  by (induction rule: fj_step.induct)
    (auto simp: fj_measure_def length_remove1_Suc simp del: length_remove1 split: fj_pc.splits)

lemma fj_steps_measure:
  "(fj_step ops ^^ k) s t \<Longrightarrow> fj_measure ops t + k \<le> fj_measure ops s"
proof (induction k arbitrary: t)
  case (Suc k)
  then obtain u where "(fj_step ops ^^ k) s u" "fj_step ops u t" by auto
  with Suc.IH [of u] fj_step_measure [of ops u t] show ?case by simp
qed simp

lemma fj_bound:
  assumes "(fj_step ops ^^ k) (fj_init as) s"
  shows "k \<le> 4 * workers ops + 2"
  using fj_steps_measure [OF assms] by (simp add: fj_measure_def fj_init_def)

end
