(* ===== verification/Runtime_Doall.thy ===== *)
theory Runtime_Doall
  imports Runtime_Cores Fork_Join
begin

text \<open>
  The DOALL dispatcher of \<open>Parallelizer_utils.cpp\<close>: the pool of argument blocks
  (\<open>getDOALLArgs\<close>, \<open>releaseDOALLArgs\<close>), the trampoline, the dispatcher itself, and the system of
  any number of dispatchers running at the same time.
\<close>

section \<open>The pool of argument blocks\<close>

text \<open>
  The first loop of \<open>getDOALLArgs\<close>: the first block that is available and large enough.
\<close>

definition findDOALLBlock :: "u32 \<Rightarrow> NoelleRuntime \<Rightarrow> nat option" where
  "findDOALLBlock cores rt =
     find (\<lambda>i. doallMemoryAvailability rt ! i \<and> doallMemorySizes rt ! i \<ge> cores)
       [0..<length (doallMemoryAvailability rt)]"

text \<open>
  A fresh block: \<open>posix_memalign\<close> leaves the content \<open>junk\<close>, the last loop numbers the cores and
  takes every end lock.
\<close>

definition newDOALLBlock :: "(nat \<Rightarrow> DOALL_args_t) \<Rightarrow> u32 \<Rightarrow> DOALL_args_t list" where
  "newDOALLBlock junk cores =
     map (\<lambda>i. (junk i)\<lparr>coreID := of_nat i, endLock := True\<rparr>) [0..<unat cores]"

text \<open>The result is the address of the block, its index as \<open>uint32_t\<close>, and the new runtime.\<close>

definition getDOALLArgs ::
    "(nat \<Rightarrow> DOALL_args_t) \<Rightarrow> u32 \<Rightarrow> NoelleRuntime \<Rightarrow> nat \<times> u32 \<times> NoelleRuntime" where
  "getDOALLArgs junk cores rt =
     (case findDOALLBlock cores rt of
        Some i \<Rightarrow>
          (i, of_nat i,
           rt\<lparr>doallMemoryAvailability := (doallMemoryAvailability rt)[i := False]\<rparr>)
      | None \<Rightarrow>
          (length (doallMemory rt), of_nat (length (doallMemoryAvailability rt)),
           rt\<lparr>doallMemorySizes := doallMemorySizes rt @ [cores],
              doallMemoryAvailability := doallMemoryAvailability rt @ [False],
              doallMemory := doallMemory rt @ [newDOALLBlock junk cores]\<rparr>))"

definition releaseDOALLArgs :: "u32 \<Rightarrow> NoelleRuntime \<Rightarrow> NoelleRuntime result" where
  "releaseDOALLArgs index rt =
     (if unat index < length (doallMemoryAvailability rt)
      then Inr (rt\<lparr>doallMemoryAvailability :=
                    (doallMemoryAvailability rt)[unat index := True]\<rparr>)
      else Inl UndefinedBehaviour)"

section \<open>One dispatch\<close>

text \<open>A call of a parallelized loop: function, environment, core, number of cores, chunk size.\<close>

type_synonym doall_call = "nat \<times> nat \<times> i64 \<times> i64 \<times> i64"

text \<open>\<open>NOELLE_DOALLTrampoline\<close>: the call it makes, and the block once the end lock is released.\<close>

definition NOELLE_DOALLTrampoline :: "DOALL_args_t \<Rightarrow> doall_call \<times> DOALL_args_t" where
  "NOELLE_DOALLTrampoline a =
     ((parallelizedLoop a, env a, coreID a, numCores a, chunkSize a), a\<lparr>endLock := False\<rparr>)"

text \<open>
  The prologue of \<open>NOELLE_DOALLDispatcher\<close>: reserve the cores (the \<open>int64_t\<close> argument is
  narrowed to \<open>uint32_t\<close>) and fetch a block with one entry per worker.
\<close>

definition doall_begin ::
    "(nat \<Rightarrow> DOALL_args_t) \<Rightarrow> i64 \<Rightarrow> NoelleRuntime \<Rightarrow> u32 \<times> nat \<times> u32 \<times> NoelleRuntime" where
  "doall_begin junk maxNumberOfCores rt =
     (let (n, rt) = reserveCores (ucast maxNumberOfCores) rt;
          (block, index, rt) = getDOALLArgs junk (n - 1) rt
      in (n, block, index, rt))"

text \<open>
  Its fork/join part: \<open>n - 1\<close> workers, the last core's share on the dispatcher's own thread.
\<close>

definition doall_ops :: "nat \<Rightarrow> nat \<Rightarrow> i64 \<Rightarrow> u32 \<Rightarrow> (DOALL_args_t, doall_call) fj_ops" where
  "doall_ops loop e chunk n =
     \<lparr>workers = unat (n - 1),
      prepare = (\<lambda>i a. a\<lparr>parallelizedLoop := loop, env := e, numCores := ucast n,
                         chunkSize := chunk\<rparr>),
      invoke = (\<lambda>a. fst (NOELLE_DOALLTrampoline a)),
      own = Some (loop, e, ucast (n - 1), ucast n, chunk),
      getLock = endLock,
      setLock = (\<lambda>b a. if b then a\<lparr>endLock := True\<rparr> else snd (NOELLE_DOALLTrampoline a))\<rparr>"

text \<open>Its epilogue: give back the cores, then the block.\<close>

definition doall_end :: "u32 \<Rightarrow> u32 \<Rightarrow> NoelleRuntime \<Rightarrow> NoelleRuntime result" where
  "doall_end n index rt =
     (case releaseCores n rt of Inl e \<Rightarrow> Inl e | Inr rt \<Rightarrow> releaseDOALLArgs index rt)"

section \<open>Dispatchers running at the same time\<close>

text \<open>
  An active dispatch: what it was granted, its block, the protocol it runs and how far it got.
  \<open>args (d_fj d)\<close> is the content of its block in the runtime's memory.
\<close>

record doall_dispatch =
  d_granted :: u32
  d_block :: nat
  d_index :: u32
  d_ops :: "(DOALL_args_t, doall_call) fj_ops"
  d_fj :: "(DOALL_args_t, doall_call) fj_state"

record doall_sys =
  sys_rt :: NoelleRuntime
  active :: "doall_dispatch list"
  finished :: "doall_dispatch list"

text \<open>
  The steps: a thread calls the dispatcher; a thread of some active dispatch moves; a dispatch that
  has joined returns. A call reserves its cores under one lock and gets its block under another, and a
  return gives them back so; as the counter and the blocks are apart, one step stands for the two. The runtime is bounded to fewer than \<open>2 ^ 32\<close> blocks, the range of the
  \<open>uint32_t\<close> index.
\<close>

inductive doall_step :: "doall_sys \<Rightarrow> doall_sys \<Rightarrow> bool" where
  call: "doall_begin junk m (sys_rt s) = (n, b, i, rt') \<Longrightarrow>
     length (doallMemory (sys_rt s)) < 2 ^ 32 - 1 \<Longrightarrow>
     doall_step s (s\<lparr>sys_rt := rt',
       active := \<lparr>d_granted = n, d_block = b, d_index = i,
                  d_ops = doall_ops loop e chunk n,
                  d_fj = fj_init (doallMemory rt' ! b)\<rparr> # active s\<rparr>)"
| work: "k < length (active s) \<Longrightarrow> d = active s ! k \<Longrightarrow> fj_step (d_ops d) (d_fj d) f \<Longrightarrow>
     doall_step s (s\<lparr>sys_rt := (sys_rt s)\<lparr>doallMemory := (doallMemory (sys_rt s))[d_block d := args f]\<rparr>,
       active := (active s)[k := d\<lparr>d_fj := f\<rparr>]\<rparr>)"
| return: "k < length (active s) \<Longrightarrow> d = active s ! k \<Longrightarrow> pc (d_fj d) = Joined \<Longrightarrow>
     doall_end (d_granted d) (d_index d) (sys_rt s) = Inr rt' \<Longrightarrow>
     doall_step s (s\<lparr>sys_rt := rt', active := take k (active s) @ drop (Suc k) (active s),
       finished := d # finished s\<rparr>)"

definition doall_start :: "NoelleRuntime \<Rightarrow> doall_sys" where
  "doall_start rt0 = \<lparr>sys_rt = rt0, active = [], finished = []\<rparr>"

section \<open>The blocks keep the fork/join contract\<close>

definition doall_ready :: "nat \<Rightarrow> DOALL_args_t \<Rightarrow> bool" where
  "doall_ready i a \<longleftrightarrow> endLock a \<and> coreID a = of_nat i"

definition doall_expected :: "nat \<Rightarrow> nat \<Rightarrow> i64 \<Rightarrow> u32 \<Rightarrow> nat \<Rightarrow> doall_call" where
  "doall_expected loop e chunk n i = (loop, e, of_nat i, ucast n, chunk)"

interpretation doall_fj: fork_join "doall_ops loop e chunk n" doall_ready
    "doall_expected loop e chunk n" for loop e chunk n
  by unfold_locales
    (auto simp: doall_ops_def doall_ready_def doall_expected_def NOELLE_DOALLTrampoline_def)

section \<open>The pool invariant\<close>

definition pool_ok :: "NoelleRuntime \<Rightarrow> bool" where
  "pool_ok r \<longleftrightarrow>
     length (doallMemorySizes r) = length (doallMemory r) \<and>
     length (doallMemoryAvailability r) = length (doallMemory r) \<and>
     (\<forall>i < length (doallMemory r). length (doallMemory r ! i) = unat (doallMemorySizes r ! i)) \<and>
     (\<forall>i < length (doallMemory r). doallMemoryAvailability r ! i \<longrightarrow>
        (\<forall>j < length (doallMemory r ! i). doall_ready j (doallMemory r ! i ! j)))"

lemma findDOALLBlock_Some:
  assumes "findDOALLBlock c r = Some i" and "pool_ok r"
  shows "i < length (doallMemory r)" and "doallMemoryAvailability r ! i"
    and "unat c \<le> length (doallMemory r ! i)"
  using assms by (auto simp: findDOALLBlock_def find_Some_iff pool_ok_def word_le_nat_alt)

lemma newDOALLBlock_ready:
  "length (newDOALLBlock junk c) = unat c"
  "j < unat c \<Longrightarrow> doall_ready j (newDOALLBlock junk c ! j)"
  by (simp_all add: newDOALLBlock_def doall_ready_def)

lemma getDOALLArgs_pool_ok:
  assumes "pool_ok r" and "getDOALLArgs junk c r = (b, i, r')"
  shows "pool_ok r'"
proof (cases "findDOALLBlock c r")
  case None
  with assms show ?thesis
    by (auto simp: getDOALLArgs_def pool_ok_def nth_append_new newDOALLBlock_ready)
next
  case (Some k)
  with assms show ?thesis
    by (auto simp: getDOALLArgs_def pool_ok_def dest!: nth_update_False)
qed

lemma getDOALLArgs_frame:
  assumes "pool_ok r" and "getDOALLArgs junk c r = (b, i, r')"
    and "k < length (doallMemory r)" and "\<not> doallMemoryAvailability r ! k"
  shows "k < length (doallMemory r')" and "\<not> doallMemoryAvailability r' ! k"
    and "doallMemory r' ! k = doallMemory r ! k" and "k \<noteq> b"
  using assms findDOALLBlock_Some [of c r b]
  by (auto simp: getDOALLArgs_def pool_ok_def nth_append nth_list_update
      split: option.splits if_splits)

lemma getDOALLArgs_facts:
  assumes "pool_ok r" and "length (doallMemory r) < 2 ^ 32 - 1"
    and "getDOALLArgs junk c r = (b, i, r')"
  shows "b < length (doallMemory r')" and "unat i = b" and "\<not> doallMemoryAvailability r' ! b"
    and "unat c \<le> length (doallMemory r' ! b)"
    and "\<forall>j < length (doallMemory r' ! b). doall_ready j (doallMemory r' ! b ! j)"
    and "NOELLE_idleCores r' = NOELLE_idleCores r"
    and "length (doallMemory r') \<le> Suc (length (doallMemory r))"
  using assms findDOALLBlock_Some [of c r b]
  by (auto simp: getDOALLArgs_def pool_ok_def newDOALLBlock_ready u32_unat_of_nat nth_append
      split: option.splits)

section \<open>The system invariant\<close>

text \<open>
  What holds of an active dispatch: it owns a block that is in use, whose content is the one its
  protocol has produced from ready entries.
\<close>

definition dispatch_ok :: "NoelleRuntime \<Rightarrow> doall_dispatch \<Rightarrow> bool" where
  "dispatch_ok r d \<longleftrightarrow>
     d_block d < length (doallMemory r) \<and> unat (d_index d) = d_block d \<and>
     \<not> doallMemoryAvailability r ! d_block d \<and>
     doallMemory r ! d_block d = args (d_fj d) \<and> d_granted d \<noteq> 0 \<and>
     (\<exists>loop e chunk as.
        d_ops d = doall_ops loop e chunk (d_granted d) \<and>
        (fj_step (d_ops d))\<^sup>*\<^sup>* (fj_init as) (d_fj d) \<and>
        workers (d_ops d) \<le> length as \<and> (\<forall>j < length as. doall_ready j (as ! j)))"

text \<open>A dispatch that has returned called the loop once per core, all with the same arguments.\<close>

definition dispatch_complete :: "doall_dispatch \<Rightarrow> bool" where
  "dispatch_complete d \<longleftrightarrow>
     (\<exists>loop e chunk. mset (log (d_fj d)) =
        image_mset (\<lambda>i. (loop, e, of_nat i, ucast (d_granted d), chunk))
          (mset_set {..<unat (d_granted d)}))"

definition doall_inv :: "NoelleRuntime \<Rightarrow> doall_sys \<Rightarrow> bool" where
  "doall_inv rt0 s \<longleftrightarrow>
     pool_ok (sys_rt s) \<and> length (doallMemory (sys_rt s)) < 2 ^ 32 \<and>
     (\<forall>d \<in> set (active s). dispatch_ok (sys_rt s) d) \<and>
     distinct (map d_block (active s)) \<and>
     NOELLE_idleCores (sys_rt s) + sum_list (map d_granted (active s)) = NOELLE_idleCores rt0 \<and>
     (\<forall>d \<in> set (finished s). dispatch_complete d)"

lemma pool_ok_idle [simp]: "pool_ok (r\<lparr>NOELLE_idleCores := n\<rparr>) = pool_ok r"
  by (simp add: pool_ok_def)

lemma reserveCores_pool:
  assumes "reserveCores c r = (n, r')"
  shows "pool_ok r' = pool_ok r" and "doallMemory r' = doallMemory r"
    and "doallMemoryAvailability r' = doallMemoryAvailability r"
  using assms by (auto simp: reserveCores_def Let_def)

lemma dispatch_ok_frame:
  assumes "dispatch_ok r d" and "d_block d < length (doallMemory r')"
    and "\<not> doallMemoryAvailability r' ! d_block d"
    and "doallMemory r' ! d_block d = doallMemory r ! d_block d"
  shows "dispatch_ok r' d"
  using assms by (simp add: dispatch_ok_def)

lemma doall_inv_call:
  assumes inv: "doall_inv rt0 s" and b: "doall_begin junk m (sys_rt s) = (n, b, i, r')"
    and len: "length (doallMemory (sys_rt s)) < 2 ^ 32 - 1"
  shows "doall_inv rt0 (s\<lparr>sys_rt := r',
       active := \<lparr>d_granted = n, d_block = b, d_index = i,
                  d_ops = doall_ops loop e chunk n,
                  d_fj = fj_init (doallMemory r' ! b)\<rparr> # active s\<rparr>)"
proof -
  obtain r1 where r1: "reserveCores (ucast m) (sys_rt s) = (n, r1)"
    and g: "getDOALLArgs junk (n - 1) r1 = (b, i, r')"
    using b by (auto simp: doall_begin_def Let_def split: prod.splits)
  have ok: "pool_ok r1" and len1: "length (doallMemory r1) < 2 ^ 32 - 1"
    using inv len reserveCores_pool [OF r1] by (simp_all add: doall_inv_def)
  note facts = getDOALLArgs_facts [OF ok len1 g]
  have act: "dispatch_ok r' d \<and> d_block d \<noteq> b" if "d \<in> set (active s)" for d
  proof -
    have "dispatch_ok (sys_rt s) d" using inv that by (simp add: doall_inv_def)
    then have "d_block d < length (doallMemory r1)" "\<not> doallMemoryAvailability r1 ! d_block d"
      "dispatch_ok r1 d"
      using reserveCores_pool [OF r1] by (auto simp: dispatch_ok_def)
    with getDOALLArgs_frame [OF ok g] show ?thesis by (blast intro: dispatch_ok_frame)
  qed
  have new: "dispatch_ok r' \<lparr>d_granted = n, d_block = b, d_index = i,
      d_ops = doall_ops loop e chunk n, d_fj = fj_init (doallMemory r' ! b)\<rparr>"
    using facts ledger.reserve_pos [OF r1]
    by (auto simp: dispatch_ok_def fj_init_def doall_ops_def)
  have "pool_ok r'" by (rule getDOALLArgs_pool_ok [OF ok g])
  moreover have "length (doallMemory r') < 2 ^ 32" using facts(7) len1 by simp
  moreover have "NOELLE_idleCores (sys_rt s) = n + NOELLE_idleCores r'"
    using facts(6) ledger.reserve_idle [OF r1] by simp
  ultimately show ?thesis
    using inv act new by (auto simp: doall_inv_def algebra_simps)
qed

lemma dispatch_okE:
  assumes "dispatch_ok r d"
  obtains loop e chunk as where "d_ops d = doall_ops loop e chunk (d_granted d)"
    and "(fj_step (doall_ops loop e chunk (d_granted d)))\<^sup>*\<^sup>* (fj_init as) (d_fj d)"
    and "workers (doall_ops loop e chunk (d_granted d)) \<le> length as"
    and "\<forall>j < length as. doall_ready j (as ! j)"
    and "length (args (d_fj d)) = length as"
proof -
  from assms obtain loop e chunk as where o: "d_ops d = doall_ops loop e chunk (d_granted d)"
    and r: "(fj_step (d_ops d))\<^sup>*\<^sup>* (fj_init as) (d_fj d)"
    and w: "workers (d_ops d) \<le> length as" and q: "\<forall>j < length as. doall_ready j (as ! j)"
    by (auto simp: dispatch_ok_def)
  have "fj_inv (doall_ops loop e chunk (d_granted d)) as (d_fj d)"
    by (rule doall_fj.fj_inv_reachable) (use r w q o in auto)
  then have "length (args (d_fj d)) = length as" by (simp add: fj_inv_def)
  with o r w q that show ?thesis by auto
qed

lemma pool_ok_busy_update:
  assumes "pool_ok r" and "\<not> doallMemoryAvailability r ! b"
    and "b < length (doallMemory r)" and "length as = length (doallMemory r ! b)"
  shows "pool_ok (r\<lparr>doallMemory := (doallMemory r)[b := as]\<rparr>)"
  using assms by (auto simp: pool_ok_def nth_list_update)

lemma doall_inv_work:
  assumes inv: "doall_inv rt0 s" and k: "k < length (active s)" and d: "d = active s ! k"
    and step: "fj_step (d_ops d) (d_fj d) f"
  shows "doall_inv rt0 (s\<lparr>sys_rt := (sys_rt s)\<lparr>doallMemory :=
           (doallMemory (sys_rt s))[d_block d := args f]\<rparr>,
       active := (active s)[k := d\<lparr>d_fj := f\<rparr>]\<rparr>)"
proof -
  let ?r = "(sys_rt s)\<lparr>doallMemory := (doallMemory (sys_rt s))[d_block d := args f]\<rparr>"
  let ?d = "d\<lparr>d_fj := f\<rparr>"
  have dok: "dispatch_ok (sys_rt s) d" using inv k d by (simp add: doall_inv_def)
  then obtain loop e chunk as where o: "d_ops d = doall_ops loop e chunk (d_granted d)"
    and r: "(fj_step (doall_ops loop e chunk (d_granted d)))\<^sup>*\<^sup>* (fj_init as) (d_fj d)"
    and w: "workers (doall_ops loop e chunk (d_granted d)) \<le> length as"
    and q: "\<forall>j < length as. doall_ready j (as ! j)"
    and len: "length (args (d_fj d)) = length as"
    by (rule dispatch_okE)
  have r': "(fj_step (doall_ops loop e chunk (d_granted d)))\<^sup>*\<^sup>* (fj_init as) f"
    using r step unfolding o by (rule rtranclp.rtrancl_into_rtrancl)
  have "fj_inv (doall_ops loop e chunk (d_granted d)) as f"
    by (rule doall_fj.fj_inv_reachable) (use r' w q in auto)
  then have lenf: "length (args f) = length (doallMemory (sys_rt s) ! d_block d)"
    using dok len by (simp add: fj_inv_def dispatch_ok_def)
  have "dispatch_ok ?r ?d"
    using dok o r' w q unfolding dispatch_ok_def
    by (auto simp del: fun_upd_apply intro!: exI [of _ loop] exI [of _ e] exI [of _ chunk] exI [of _ as])
  moreover have "dispatch_ok ?r c" if "c \<in> set (active s)" "d_block c \<noteq> d_block d" for c
    using inv that by (auto simp: doall_inv_def intro!: dispatch_ok_frame [of "sys_rt s" c ?r]
        simp: dispatch_ok_def)
  moreover have "c = ?d \<or> c \<in> set (active s) \<and> d_block c \<noteq> d_block d"
    if "c \<in> set ((active s)[k := ?d])" for c
  proof -
    from that obtain j where j: "j < length (active s)" "c = (active s)[k := ?d] ! j"
      by (metis in_set_conv_nth length_list_update)
    moreover have "d_block (active s ! j) \<noteq> d_block d" if "j \<noteq> k"
      using inv j(1) k that d nth_eq_iff_index_eq [of "map d_block (active s)" j k]
      by (auto simp: doall_inv_def)
    ultimately show ?thesis by (cases "j = k") auto
  qed
  moreover have "map d_block ((active s)[k := ?d]) = map d_block (active s)"
    "map d_granted ((active s)[k := ?d]) = map d_granted (active s)"
    using k d by (auto simp: map_update intro!: list_update_same_conv [THEN iffD2])
  moreover have "pool_ok ?r"
    using inv dok lenf by (intro pool_ok_busy_update) (auto simp: doall_inv_def dispatch_ok_def)
  ultimately show ?thesis
    using inv by (auto simp: doall_inv_def)
qed

lemma doall_end_facts:
  assumes "doall_end n i r = Inr r'" and "unat i < length (doallMemoryAvailability r)"
  shows "r' = r\<lparr>NOELLE_idleCores := NOELLE_idleCores r + n,
                 doallMemoryAvailability := (doallMemoryAvailability r)[unat i := True]\<rparr>"
  using assms by (auto simp: doall_end_def releaseCores_def releaseDOALLArgs_def split: if_splits)

lemma all_calls:
  fixes n :: u32
  assumes "n \<noteq> 0"
  shows "add_mset (loop, e, ucast (n - 1), ucast n, chunk)
      (image_mset (doall_expected loop e chunk n) (mset_set {..<unat (n - 1)}))
    = image_mset (\<lambda>i. (loop, e, of_nat i :: i64, ucast n, chunk)) (mset_set {..<unat n})"
proof -
  have n: "unat n = Suc (unat (n - 1))"
    using assms by (simp add: unat_minus_one unat_gt_0)
  have "(ucast (n - 1) :: i64) = of_nat (unat (n - 1))"
    by simp
  then show ?thesis
    unfolding n by (simp add: lessThan_Suc doall_expected_def [abs_def])
qed

lemma dispatch_complete_joined:
  assumes d: "dispatch_ok r d" and pc: "pc (d_fj d) = Joined"
  shows "dispatch_complete d \<and>
    (\<forall>j < length (doallMemory r ! d_block d). doall_ready j (doallMemory r ! d_block d ! j))"
proof -
  from d obtain loop e chunk as where o: "d_ops d = doall_ops loop e chunk (d_granted d)"
    and r: "(fj_step (doall_ops loop e chunk (d_granted d)))\<^sup>*\<^sup>* (fj_init as) (d_fj d)"
    and w: "workers (doall_ops loop e chunk (d_granted d)) \<le> length as"
    and q: "\<forall>j < length as. doall_ready j (as ! j)"
    by (rule dispatch_okE)
  have q': "\<forall>j < workers (doall_ops loop e chunk (d_granted d)). doall_ready j (as ! j)"
    using q w by simp
  note j = doall_fj.fj_joined [OF r w q' pc]
  have "mset (log (d_fj d)) = image_mset (\<lambda>i. (loop, e, of_nat i, ucast (d_granted d), chunk))
      (mset_set {..<unat (d_granted d)})"
    using j(1) d all_calls [of "d_granted d" loop e chunk]
    by (simp add: doall_ops_def dispatch_ok_def)
  moreover have "doall_ready k (args (d_fj d) ! k)" if "k < length as" for k
    using j(3,4) q that by (cases "k < workers (doall_ops loop e chunk (d_granted d))") auto
  ultimately show ?thesis
    using d j(2) by (auto simp: dispatch_complete_def dispatch_ok_def)
qed

lemma pool_ok_release:
  assumes "pool_ok r" and "\<forall>j < length (doallMemory r ! b). doall_ready j (doallMemory r ! b ! j)"
    and "b < length (doallMemory r)"
  shows "pool_ok (r\<lparr>doallMemoryAvailability := (doallMemoryAvailability r)[b := True]\<rparr>)"
  using assms by (auto simp: pool_ok_def nth_list_update)

lemma doall_inv_return:
  assumes inv: "doall_inv rt0 s" and k: "k < length (active s)" and d: "d = active s ! k"
    and pc: "pc (d_fj d) = Joined" and e: "doall_end (d_granted d) (d_index d) (sys_rt s) = Inr r'"
  shows "doall_inv rt0 (s\<lparr>sys_rt := r', active := take k (active s) @ drop (Suc k) (active s),
       finished := d # finished s\<rparr>)"
proof -
  let ?rest = "take k (active s) @ drop (Suc k) (active s)"
  have act: "active s = take k (active s) @ d # drop (Suc k) (active s)"
    using k d by (simp add: id_take_nth_drop)
  have in_act: "set (active s) = insert d (set ?rest)"
    by (subst act) auto
  have "distinct (map d_block (take k (active s) @ d # drop (Suc k) (active s)))"
    using inv act by (simp add: doall_inv_def)
  then have dist1: "distinct (map d_block ?rest)" and "d_block d \<notin> d_block ` set ?rest"
    by auto
  then have dist: "distinct (map d_block ?rest)" "\<forall>c \<in> set ?rest. d_block c \<noteq> d_block d"
    by (metis, metis image_eqI)
  have sum: "sum_list (map d_granted (active s)) = d_granted d + sum_list (map d_granted ?rest)"
    by (subst act) (simp add: algebra_simps)
  have dok: "dispatch_ok (sys_rt s) d" using inv k d by (simp add: doall_inv_def)
  have ok: "pool_ok (sys_rt s)" using inv by (simp add: doall_inv_def)
  have r': "r' = (sys_rt s)\<lparr>NOELLE_idleCores := NOELLE_idleCores (sys_rt s) + d_granted d,
      doallMemoryAvailability := (doallMemoryAvailability (sys_rt s))[d_block d := True]\<rparr>"
    using doall_end_facts [OF e] dok ok by (simp add: dispatch_ok_def pool_ok_def)
  note fin = dispatch_complete_joined [OF dok pc]
  have "pool_ok ((sys_rt s)\<lparr>doallMemoryAvailability :=
      (doallMemoryAvailability (sys_rt s))[d_block d := True]\<rparr>)"
    using fin dok ok by (intro pool_ok_release) (auto simp: dispatch_ok_def)
  then have "pool_ok r'" unfolding r' by (simp add: pool_ok_def)
  moreover have "dispatch_ok r' c" if "c \<in> set ?rest" for c
  proof -
    have "dispatch_ok (sys_rt s) c" "d_block c \<noteq> d_block d"
      using inv in_act that dist(2) by (auto simp: doall_inv_def)
    then show ?thesis
      by (intro dispatch_ok_frame [of "sys_rt s" c r']) (auto simp: r' dispatch_ok_def)
  qed
  ultimately show ?thesis
    using inv fin dist(1) sum in_act
    by (auto simp: doall_inv_def r' algebra_simps)
qed

lemma doall_inv_step: "doall_step s t \<Longrightarrow> doall_inv rt0 s \<Longrightarrow> doall_inv rt0 t"
  by (induction rule: doall_step.induct)
    (blast intro: doall_inv_call doall_inv_work doall_inv_return)+

lemma doall_inv_reachable:
  assumes "doall_step\<^sup>*\<^sup>* (doall_start (NoelleRuntime_new cores hw)) s"
  shows "doall_inv (NoelleRuntime_new cores hw) s"
  using assms
proof induction
  case base
  show ?case
    by (simp add: doall_inv_def doall_start_def pool_ok_def NoelleRuntime_new_def Let_def)
next
  case (step t u)
  then show ?case by (blast intro: doall_inv_step)
qed

text \<open>
  \<open>getDOALLArgs\<close> hands out a block with at least as many entries as asked for, which was free
  or is new, whose entries are numbered from 0 and all have their end lock held; the index it
  returns is the block's position, and the idle counter is untouched.
\<close>

theorem getDOALLArgs_block:
  assumes "pool_ok r" and "length (doallMemory r) < 2 ^ 32 - 1"
    and "getDOALLArgs junk c r = (b, i, r')"
  shows "b < length (doallMemory r') \<and> unat i = b \<and> \<not> doallMemoryAvailability r' ! b \<and>
     unat c \<le> length (doallMemory r' ! b) \<and>
     (\<forall>j < length (doallMemory r' ! b).
        endLock (doallMemory r' ! b ! j) \<and> coreID (doallMemory r' ! b ! j) = of_nat j) \<and>
     NOELLE_idleCores r' = NOELLE_idleCores r"
proof (cases "findDOALLBlock c r")
  case None
  with assms show ?thesis
    by (auto simp: getDOALLArgs_def pool_ok_def newDOALLBlock_def u32_unat_of_nat nth_append)
next
  case (Some k)
  note k = findDOALLBlock_Some [OF Some assms(1)]
  from assms Some k show ?thesis
    by (auto simp: getDOALLArgs_def pool_ok_def doall_ready_def u32_unat_of_nat)
qed

definition blank_args :: DOALL_args_t where
  "blank_args = \<lparr>parallelizedLoop = 0, env = 0, coreID = 0, numCores = 0, chunkSize = 0,
                 endLock = False\<rparr>"

theorem getDOALLArgs_block_witness:
  "\<exists>b i r'. getDOALLArgs (\<lambda>_. blank_args) 3 (NoelleRuntime_new None 8) = (b, i, r') \<and>
     unat i = b \<and> 3 \<le> length (doallMemory r' ! b) \<and> \<not> doallMemoryAvailability r' ! b"
proof -
  let ?r = "NoelleRuntime_new None 8"
  have ok: "pool_ok ?r" and len: "length (doallMemory ?r) < 2 ^ 32 - 1"
    by (simp_all add: pool_ok_def NoelleRuntime_new_def Let_def)
  obtain b i r' where g: "getDOALLArgs (\<lambda>_. blank_args) 3 ?r = (b, i, r')"
    by (metis prod_cases3)
  from getDOALLArgs_block [OF ok len g] g show ?thesis by simp
qed

text \<open>
  C31: however many dispatchers run at the same time and however their threads interleave, no two of
  them share an argument block, every block in use is marked as such, and the idle cores plus the
  cores granted are the cores of the machine.
\<close>

theorem doall_exclusive_blocks:
  assumes "doall_step\<^sup>*\<^sup>* (doall_start (NoelleRuntime_new cores hw)) s"
  shows "distinct (map d_block (active s)) \<and>
     (\<forall>d \<in> set (active s). \<not> doallMemoryAvailability (sys_rt s) ! d_block d) \<and>
     NOELLE_idleCores (sys_rt s) + sum_list (map d_granted (active s)) =
       maxCores (NoelleRuntime_new cores hw)"
proof -
  have "NOELLE_idleCores (NoelleRuntime_new cores hw) = maxCores (NoelleRuntime_new cores hw)"
    by (simp add: NoelleRuntime_new_def Let_def)
  with doall_inv_reachable [OF assms] show ?thesis
    by (auto simp: doall_inv_def dispatch_ok_def)
qed

text \<open>
  C14: a dispatch that has returned called the parallelized loop exactly once for each core number
  from 0 to the number of granted cores, always with that number of cores and the same environment
  and chunk size.
\<close>

theorem doall_dispatch_calls:
  assumes "doall_step\<^sup>*\<^sup>* (doall_start (NoelleRuntime_new cores hw)) s" and "d \<in> set (finished s)"
  shows "\<exists>loop e chunk. mset (log (d_fj d)) =
     image_mset (\<lambda>i. (loop, e, of_nat i, ucast (d_granted d), chunk))
       (mset_set {..<unat (d_granted d)})"
  using doall_inv_reachable [OF assms(1)] assms(2)
  by (auto simp: doall_inv_def dispatch_complete_def)

text \<open>
  C32: no dispatch is ever stuck: as long as it has not joined one of its threads can move, and once
  it has joined it can return; it joins after at most \<open>4 * (n - 1) + 2\<close> moves for \<open>n\<close> granted cores.
\<close>

theorem doall_dispatch_progress:
  assumes "doall_step\<^sup>*\<^sup>* (doall_start (NoelleRuntime_new cores hw)) s" and "d \<in> set (active s)"
  shows "((\<exists>f. fj_step (d_ops d) (d_fj d) f) \<or>
      pc (d_fj d) = Joined \<and> (\<exists>r. doall_end (d_granted d) (d_index d) (sys_rt s) = Inr r)) \<and>
    (\<forall>k as f. (fj_step (d_ops d) ^^ k) (fj_init as) f \<longrightarrow> k \<le> 4 * (unat (d_granted d) - 1) + 2)"
proof -
  have d: "dispatch_ok (sys_rt s) d" and p: "pool_ok (sys_rt s)"
    using doall_inv_reachable [OF assms(1)] assms(2) by (auto simp: doall_inv_def)
  from d obtain loop e chunk as where o: "d_ops d = doall_ops loop e chunk (d_granted d)"
    and r: "(fj_step (doall_ops loop e chunk (d_granted d)))\<^sup>*\<^sup>* (fj_init as) (d_fj d)"
    and w: "workers (doall_ops loop e chunk (d_granted d)) \<le> length as"
    and q: "\<forall>j < length as. doall_ready j (as ! j)"
    by (rule dispatch_okE)
  have "\<exists>f. fj_step (d_ops d) (d_fj d) f" if "pc (d_fj d) \<noteq> Joined"
    unfolding o by (rule doall_fj.fj_progress [OF r w _ that]) (use q w in auto)
  moreover have "\<exists>r. doall_end (d_granted d) (d_index d) (sys_rt s) = Inr r"
    using d p by (simp add: doall_end_def releaseCores_def releaseDOALLArgs_def dispatch_ok_def
        pool_ok_def word_gt_0)
  moreover have "workers (d_ops d) = unat (d_granted d) - 1"
    using d unfolding o by (simp add: doall_ops_def unat_minus_one dispatch_ok_def)
  ultimately show ?thesis using fj_bound by metis
qed

section \<open>A run of the system\<close>

text \<open>Two cores: one dispatch is called, its worker runs, it joins and returns.\<close>

lemma doall_example:
  "\<exists>s d. doall_step\<^sup>*\<^sup>* (doall_start (NoelleRuntime_new None 4)) s \<and> active s = [d] \<and>
     d_granted d = 2 \<and> pc (d_fj d) = Submit 0"
proof -
  let ?r = "NoelleRuntime_new None 4"
  obtain n b i r' where beg: "doall_begin (\<lambda>_. blank_args) 2 ?r = (n, b, i, r')"
    by (metis prod_cases4)
  then have n: "n = 2"
    by (simp add: doall_begin_def Let_def reserveCores_def NoelleRuntime_new_def
        getMaximumNumberOfCores_def split: prod.splits)
  have "doall_step\<^sup>*\<^sup>* (doall_start ?r) (doall_start ?r\<lparr>sys_rt := r', active :=
      \<lparr>d_granted = n, d_block = b, d_index = i, d_ops = doall_ops 7 9 8 n,
       d_fj = fj_init (doallMemory r' ! b)\<rparr> # active (doall_start ?r)\<rparr>)"
    by (rule r_into_rtranclp, rule doall_step.call [OF _ _])
      (use beg in \<open>simp_all add: doall_start_def NoelleRuntime_new_def Let_def\<close>)
  then show ?thesis using n by (fastforce simp: doall_start_def fj_init_def)
qed

theorem doall_exclusive_blocks_witness:
  "\<exists>(s :: doall_sys) d. active s = [d] \<and> d_granted d = 2 \<and>
     \<not> doallMemoryAvailability (sys_rt s) ! d_block d \<and> NOELLE_idleCores (sys_rt s) = 0"
proof -
  obtain s d where s: "doall_step\<^sup>*\<^sup>* (doall_start (NoelleRuntime_new None 4)) s" "active s = [d]"
    "d_granted d = 2"
    using doall_example by blast
  have "maxCores (NoelleRuntime_new None 4) = 2"
    by (simp add: NoelleRuntime_new_def getMaximumNumberOfCores_def)
  with doall_exclusive_blocks [OF s(1)] s show ?thesis
    by (intro exI [of _ s] exI [of _ d]) auto
qed

theorem doall_dispatch_progress_witness:
  "\<exists>(s :: doall_sys) d f. active s = [d] \<and> d_granted d = 2 \<and> fj_step (d_ops d) (d_fj d) f"
proof -
  obtain s d where s: "doall_step\<^sup>*\<^sup>* (doall_start (NoelleRuntime_new None 4)) s" "active s = [d]"
    "d_granted d = 2" "pc (d_fj d) = Submit 0"
    using doall_example by blast
  then have "d \<in> set (active s)" by simp
  from doall_dispatch_progress [OF s(1) this] s obtain f where "fj_step (d_ops d) (d_fj d) f"
    by auto
  with s show ?thesis by blast
qed

text \<open>One core: a dispatch that runs its only task itself and returns.\<close>

lemma doall_example_finished:
  "\<exists>s d. doall_step\<^sup>*\<^sup>* (doall_start (NoelleRuntime_new None 2)) s \<and> finished s = [d] \<and>
     d_granted d = 1 \<and> log (d_fj d) = [(7, 9, 0, 1, 8)]"
proof -
  let ?r = "NoelleRuntime_new None 2" and ?o = "doall_ops 7 9 8 1"
  obtain n b i r' where beg: "doall_begin (\<lambda>_. blank_args) 1 ?r = (n, b, i, r')"
    by (metis prod_cases4)
  then have n: "n = 1" and b: "b = 0" and i: "i = 0" and av: "doallMemoryAvailability r' = [False]"
    by (auto simp: doall_begin_def Let_def reserveCores_def NoelleRuntime_new_def
        getMaximumNumberOfCores_def getDOALLArgs_def findDOALLBlock_def split: prod.splits)
  let ?f0 = "fj_init (doallMemory r' ! b) :: (DOALL_args_t, doall_call) fj_state"
  let ?d = "\<lambda>f. \<lparr>d_granted = n, d_block = b, d_index = i, d_ops = ?o, d_fj = f\<rparr>"
  let ?s0 = "\<lparr>sys_rt = r', active = [?d ?f0], finished = []\<rparr>"
  let ?f1 = "?f0\<lparr>log := (case own ?o of None \<Rightarrow> log ?f0 | Some v \<Rightarrow> v # log ?f0), pc := Join 0\<rparr>"
  let ?f2 = "?f1\<lparr>pc := Joined\<rparr>"
  let ?m = "\<lambda>r f. r\<lparr>doallMemory := (doallMemory r)[b := args f]\<rparr>"
  have "doall_step (doall_start ?r) ?s0"
    using doall_step.call [of "\<lambda>_. blank_args" 1 "doall_start ?r" n b i r' 7 9 8] beg n
    by (simp add: doall_start_def NoelleRuntime_new_def Let_def)
  moreover have "doall_step ?s0 \<lparr>sys_rt = ?m r' ?f1, active = [?d ?f1], finished = []\<rparr>"
    (is "doall_step _ ?s1")
    using doall_step.work [of 0 ?s0 "?d ?f0" ?f1] fj_step.run_own [of ?f0 0 ?o]
    by (simp add: fj_init_def doall_ops_def)
  moreover have "doall_step ?s1 \<lparr>sys_rt = ?m (?m r' ?f1) ?f2, active = [?d ?f2], finished = []\<rparr>"
    (is "doall_step _ ?s2")
    using doall_step.work [of 0 ?s1 "?d ?f1" ?f2] fj_step.joined [of ?f1 0 ?o]
    by (simp add: doall_ops_def)
  moreover obtain r3 where "doall_end n i (sys_rt ?s2) = Inr r3"
    by (auto simp: doall_end_def releaseCores_def releaseDOALLArgs_def n i av)
  then have "doall_step ?s2 \<lparr>sys_rt = r3, active = [], finished = [?d ?f2]\<rparr>"
    (is "doall_step _ ?s3")
    using doall_step.return [of 0 ?s2 "?d ?f2" r3] by simp
  ultimately have "doall_step\<^sup>*\<^sup>* (doall_start ?r) ?s3"
    by (meson rtranclp.rtrancl_into_rtrancl rtranclp.rtrancl_refl)
  moreover have "log ?f2 = [(7, 9, 0, 1, 8)]" by (simp add: doall_ops_def fj_init_def)
  ultimately show ?thesis using n
    by (intro exI [of _ ?s3] exI [of _ "?d ?f2"]) simp
qed

theorem doall_dispatch_calls_witness:
  "\<exists>(s :: doall_sys) d loop e chunk. finished s = [d] \<and> mset (log (d_fj d)) = {#(loop, e, 0, 1, chunk)#}"
proof -
  obtain s d where s: "doall_step\<^sup>*\<^sup>* (doall_start (NoelleRuntime_new None 2)) s"
    "finished s = [d]" "d_granted d = 1"
    using doall_example_finished by blast
  have "d \<in> set (finished s)" using s by simp
  from doall_dispatch_calls [OF s(1) this] obtain loop e chunk
    where c: "mset (log (d_fj d)) =
      image_mset (\<lambda>i. (loop, e, of_nat i, ucast (d_granted d), chunk))
        (mset_set {..<unat (d_granted d)})"
    by blast
  have "mset (log (d_fj d)) = {#(loop, e, 0, 1, chunk)#}"
    unfolding c s(3) by (simp add: lessThan_Suc)
  with s(2) show ?thesis by blast
qed

end
