(* ===== verification/Runtime_Helix.thy ===== *)
theory Runtime_Helix
  imports Runtime_Cores Fork_Join
begin

text \<open>
  The HELIX dispatcher of \<open>Parallelizer_utils.cpp\<close>: how it lays out and initialises the locks of
  the sequential segments, which past and future array each core gets, the fork/join part, and what
  the waits and signals that \<open>HELIX_synchronization.cpp\<close> injects in the loop body then guarantee.
\<close>

section \<open>Lock memory\<close>

text \<open>
  Spin locks at their addresses: \<open>True\<close> is held. \<open>HELIX_wait\<close> returns \<open>None\<close> while it spins; to
  spin on an address that holds no lock is modelled as spinning for ever.
\<close>

type_synonym lock_memory = "u64 \<rightharpoonup> bool"

definition HELIX_wait :: "u64 \<Rightarrow> lock_memory \<Rightarrow> lock_memory option" where
  "HELIX_wait ss m = (if m ss = Some False then Some (m(ss \<mapsto> True)) else None)"

definition HELIX_signal :: "u64 \<Rightarrow> lock_memory \<Rightarrow> lock_memory" where
  "HELIX_signal ss m = m(ss \<mapsto> False)"

definition CACHE_LINE_SIZE :: nat where
  "CACHE_LINE_SIZE = 64"

text \<open>The address of array \<open>i\<close>; \<open>ssArraySize\<close> is an \<open>int64_t\<close>, the sum is taken in \<open>uint64_t\<close>.\<close>

definition ssArraySize :: "i64 \<Rightarrow> i64" where
  "ssArraySize numOfsequentialSegments = of_nat CACHE_LINE_SIZE * numOfsequentialSegments"

definition ssArrayAt :: "u64 \<Rightarrow> i64 \<Rightarrow> nat \<Rightarrow> u64" where
  "ssArrayAt ssArrays numOfsequentialSegments i =
     ssArrays + of_nat i * ssArraySize numOfsequentialSegments"

text \<open>
  \<open>getPointerOfSequentialSegment\<close>, the address the generated code computes from the array it is
  given; \<open>cacheLineBytes\<close> is what NOELLE's \<open>Architecture\<close> reports at compile time.
\<close>

definition getPointerOfSequentialSegment :: "nat \<Rightarrow> u64 \<Rightarrow> nat \<Rightarrow> u64" where
  "getPointerOfSequentialSegment cacheLineBytes ssArray ssID =
     of_nat (ssID * cacheLineBytes) + ssArray"

text \<open>The initialisation of the arrays: every lock is free in array 0 and held in the others.\<close>

definition helix_init_locks :: "u64 \<Rightarrow> nat \<Rightarrow> nat \<Rightarrow> lock_memory" where
  "helix_init_locks ssArrays numOfsequentialSegments numOfSSArrays =
     fold (\<lambda>i. fold (\<lambda>lockID m.
         m(ssArrayAt ssArrays (of_nat numOfsequentialSegments) i + of_nat (lockID * CACHE_LINE_SIZE)
             \<mapsto> 0 < i))
       [0..<numOfsequentialSegments]) [0..<numOfSSArrays] Map.empty"

section \<open>The dispatcher\<close>

record NOELLE_HELIX_args_t =
  h_parallelizedLoop :: nat
  h_env :: nat
  h_loopCarriedArray :: nat
  h_ssArrayPast :: u64
  h_ssArrayFuture :: u64
  h_coreID :: u64
  h_numCores :: u64
  h_loopIsOverFlag :: nat
  h_endLock :: bool

text \<open>A call of a parallelized loop.\<close>

record helix_call =
  c_loop :: nat
  c_env :: nat
  c_loopCarriedArray :: nat
  c_past :: u64
  c_future :: u64
  c_core :: u64
  c_numCores :: u64
  c_flag :: nat

definition NOELLE_HELIXTrampoline ::
    "NOELLE_HELIX_args_t \<Rightarrow> helix_call \<times> NOELLE_HELIX_args_t" where
  "NOELLE_HELIXTrampoline a =
     (\<lparr>c_loop = h_parallelizedLoop a, c_env = h_env a,
       c_loopCarriedArray = h_loopCarriedArray a, c_past = h_ssArrayPast a,
       c_future = h_ssArrayFuture a, c_core = h_coreID a, c_numCores = h_numCores a,
       c_flag = h_loopIsOverFlag a\<rparr>, a\<lparr>h_endLock := False\<rparr>)"

text \<open>
  What the dispatcher has after its prologue: the cores granted, the number of arrays, their
  address and the lock memory. \<open>posix_memalign\<close> is the argument \<open>memalign\<close>: it returns the null
  address 0 when there is no memory.
\<close>

record helix_setup =
  hs_numCores :: u32
  hs_numOfSSArrays :: u32
  hs_ssArrays :: u64
  hs_locks :: lock_memory

definition helix_begin ::
    "(u64 \<Rightarrow> u64) \<Rightarrow> nat \<Rightarrow> nat \<Rightarrow> i64 \<Rightarrow> i64 \<Rightarrow> bool \<Rightarrow> NoelleRuntime \<Rightarrow>
     (helix_setup \<times> NoelleRuntime) result" where
  "helix_begin memalign loop e maxNumberOfCores numOfsequentialSegments LIO rt =
     (if loop = 0 then Inl AssertionFailed
      else if e = 0 then Inl AssertionFailed
      else if \<not> 1 < sint maxNumberOfCores then Inl AssertionFailed
      else let (n, rt) = reserveCores (ucast maxNumberOfCores) rt in
        if \<not> 1 \<le> n then Inl AssertionFailed
        else let numOfSSArrays = (if \<not> LIO then 1 else n) in
          if 0 < sint numOfsequentialSegments then
            let ssArrays = memalign (ssArraySize numOfsequentialSegments * ucast numOfSSArrays) in
            if ssArrays = 0 then Inl Aborted
            else Inr (\<lparr>hs_numCores = n, hs_numOfSSArrays = numOfSSArrays, hs_ssArrays = ssArrays,
                       hs_locks = helix_init_locks ssArrays (unat numOfsequentialSegments)
                                    (unat numOfSSArrays)\<rparr>, rt)
          else Inr (\<lparr>hs_numCores = n, hs_numOfSSArrays = numOfSSArrays, hs_ssArrays = 0,
                     hs_locks = Map.empty\<rparr>, rt))"

text \<open>
  The fork/join part. The blocks are freshly allocated, so each one is written completely, its end
  lock initialised and taken. The dispatcher's own core is the last one and signals array 0.
\<close>

definition helix_ops ::
    "nat \<Rightarrow> nat \<Rightarrow> nat \<Rightarrow> nat \<Rightarrow> i64 \<Rightarrow> helix_setup \<Rightarrow> (NOELLE_HELIX_args_t, helix_call) fj_ops" where
  "helix_ops loop e loopCarriedArray flag segments h =
     (let n = hs_numCores h; arrays = hs_numOfSSArrays h; base = hs_ssArrays h in
      \<lparr>workers = unat (n - 1),
       prepare = (\<lambda>i _.
         let pastID = i mod unat arrays; futureID = (i + 1) mod unat arrays in
         \<lparr>h_parallelizedLoop = loop, h_env = e, h_loopCarriedArray = loopCarriedArray,
          h_ssArrayPast = ssArrayAt base segments pastID,
          h_ssArrayFuture = ssArrayAt base segments futureID,
          h_coreID = of_nat i, h_numCores = ucast n, h_loopIsOverFlag = flag, h_endLock = True\<rparr>),
       invoke = (\<lambda>a. fst (NOELLE_HELIXTrampoline a)),
       own = Some
         (let pastID = unat (n - 1) mod unat arrays in
          \<lparr>c_loop = loop, c_env = e, c_loopCarriedArray = loopCarriedArray,
           c_past = ssArrayAt base segments pastID, c_future = base,
           c_core = ucast (n - 1), c_numCores = ucast n, c_flag = flag\<rparr>),
       getLock = h_endLock,
       setLock = (\<lambda>b a. if b then a\<lparr>h_endLock := True\<rparr> else snd (NOELLE_HELIXTrampoline a))\<rparr>)"

definition helix_end :: "helix_setup \<Rightarrow> NoelleRuntime \<Rightarrow> (u32 \<times> NoelleRuntime) result" where
  "helix_end h rt =
     (case releaseCores (hs_numCores h) rt of
        Inl e \<Rightarrow> Inl e
      | Inr rt \<Rightarrow> Inr (hs_numCores h, rt))"

text \<open>The two entry points differ in the last argument only.\<close>

definition NOELLE_HELIX_dispatcher_sequentialSegments ::
    "(u64 \<Rightarrow> u64) \<Rightarrow> nat \<Rightarrow> nat \<Rightarrow> i64 \<Rightarrow> i64 \<Rightarrow> NoelleRuntime \<Rightarrow>
     (helix_setup \<times> NoelleRuntime) result" where
  "NOELLE_HELIX_dispatcher_sequentialSegments memalign loop e cores segments =
     helix_begin memalign loop e cores segments True"

definition NOELLE_HELIX_dispatcher_criticalSections ::
    "(u64 \<Rightarrow> u64) \<Rightarrow> nat \<Rightarrow> nat \<Rightarrow> i64 \<Rightarrow> i64 \<Rightarrow> NoelleRuntime \<Rightarrow>
     (helix_setup \<times> NoelleRuntime) result" where
  "NOELLE_HELIX_dispatcher_criticalSections memalign loop e cores segments =
     helix_begin memalign loop e cores segments False"

section \<open>Fork and join\<close>

text \<open>The call core \<open>i\<close> is expected to get.\<close>

definition helix_expected ::
    "nat \<Rightarrow> nat \<Rightarrow> nat \<Rightarrow> nat \<Rightarrow> i64 \<Rightarrow> helix_setup \<Rightarrow> nat \<Rightarrow> helix_call" where
  "helix_expected loop e loopCarriedArray flag segments h i =
     \<lparr>c_loop = loop, c_env = e, c_loopCarriedArray = loopCarriedArray,
      c_past = ssArrayAt (hs_ssArrays h) segments (i mod unat (hs_numOfSSArrays h)),
      c_future = ssArrayAt (hs_ssArrays h) segments ((i + 1) mod unat (hs_numOfSSArrays h)),
      c_core = of_nat i, c_numCores = ucast (hs_numCores h), c_flag = flag\<rparr>"

interpretation helix_fj: fork_join "helix_ops loop e lca flag segments h" "\<lambda>_ _. True"
    "helix_expected loop e lca flag segments h" for loop e lca flag segments h
  by unfold_locales
    (auto simp: helix_ops_def Let_def helix_expected_def NOELLE_HELIXTrampoline_def)

lemma helix_begin_facts:
  assumes "helix_begin memalign loop e m segments LIO rt = Inr (h, rt')"
  shows "hs_numCores h \<noteq> 0" and "hs_numOfSSArrays h = (if LIO then hs_numCores h else 1)"
    and "reserveCores (ucast m) rt = (hs_numCores h, rt')"
    and "0 < sint segments \<Longrightarrow> hs_ssArrays h \<noteq> 0 \<and>
      hs_locks h = helix_init_locks (hs_ssArrays h) (unat segments) (unat (hs_numOfSSArrays h))"
  using assms by (auto simp: helix_begin_def Let_def word_ge_one_iff split: if_splits prod.splits)

lemma helix_own:
  assumes "hs_numCores h \<noteq> 0" and "hs_numOfSSArrays h = (if LIO then hs_numCores h else 1)"
  shows "own (helix_ops loop e lca flag segments h) =
    Some (helix_expected loop e lca flag segments h (unat (hs_numCores h - 1)))"
proof -
  have n: "unat (hs_numCores h - 1) + 1 = unat (hs_numCores h)"
    using assms(1) by (simp add: unat_minus_one unat_gt_0)
  have z: "(unat (hs_numCores h - 1) + 1) mod unat (hs_numOfSSArrays h) = 0"
    unfolding n assms(2) by simp
  show ?thesis
    unfolding helix_expected_def z by (simp add: helix_ops_def Let_def ssArrayAt_def)
qed

text \<open>
  Once the HELIX dispatcher has joined, the loop was called exactly once for each granted core,
  and with locks in order (\<open>LIO\<close>) core \<open>i\<close> waits on array \<open>i\<close> and signals array \<open>i + 1\<close>, the last
  core closing the ring on array 0; without, all cores share array 0.
\<close>

theorem helix_dispatch_calls:
  assumes b: "helix_begin memalign loop e m segments LIO rt = Inr (h, rt')"
    and run: "(fj_step (helix_ops loop e lca flag segments h))\<^sup>*\<^sup>*
      (fj_init (replicate (unat (hs_numCores h - 1)) junk)) f"
    and j: "pc f = Joined"
  shows "mset (log f) =
    image_mset (\<lambda>i. \<lparr>c_loop = loop, c_env = e, c_loopCarriedArray = lca,
       c_past = ssArrayAt (hs_ssArrays h) segments (if LIO then i else 0),
       c_future = ssArrayAt (hs_ssArrays h) segments
         (if LIO then (i + 1) mod unat (hs_numCores h) else 0),
       c_core = of_nat i, c_numCores = ucast (hs_numCores h), c_flag = flag\<rparr>)
      (mset_set {..<unat (hs_numCores h)})"
proof -
  let ?n = "unat (hs_numCores h)"
  have nz: "hs_numCores h \<noteq> 0" and arr: "hs_numOfSSArrays h = (if LIO then hs_numCores h else 1)"
    using helix_begin_facts [OF b] by blast+
  have n: "?n = Suc (unat (hs_numCores h - 1))"
    using nz by (simp add: unat_minus_one unat_gt_0)
  have w: "workers (helix_ops loop e lca flag segments h) = unat (hs_numCores h - 1)"
    by (simp add: helix_ops_def Let_def)
  have "mset (log f) = {#helix_expected loop e lca flag segments h (unat (hs_numCores h - 1))#} +
      image_mset (helix_expected loop e lca flag segments h)
        (mset_set {..<unat (hs_numCores h - 1)})"
    using helix_fj.fj_joined(1) [OF run _ _ j] helix_own [OF nz arr] w by simp
  also have "\<dots> = image_mset (helix_expected loop e lca flag segments h) (mset_set {..<?n})"
    unfolding n lessThan_Suc by simp
  also have "\<dots> = image_mset (\<lambda>i. \<lparr>c_loop = loop, c_env = e, c_loopCarriedArray = lca,
       c_past = ssArrayAt (hs_ssArrays h) segments (if LIO then i else 0),
       c_future = ssArrayAt (hs_ssArrays h) segments (if LIO then (i + 1) mod ?n else 0),
       c_core = of_nat i, c_numCores = ucast (hs_numCores h), c_flag = flag\<rparr>) (mset_set {..<?n})"
    by (rule image_mset_cong) (simp add: helix_expected_def arr)
  finally show ?thesis .
qed

section \<open>The addresses of the locks\<close>

lemma ssLock_address:
  "getPointerOfSequentialSegment CACHE_LINE_SIZE (ssArrayAt base (of_nat S) a) s =
     base + of_nat (CACHE_LINE_SIZE * (a * S + s))"
  by (simp add: getPointerOfSequentialSegment_def ssArrayAt_def ssArraySize_def algebra_simps)

text \<open>All locks of \<open>n\<close> arrays of \<open>S\<close> segments have different addresses if they fit in memory.\<close>

definition locks_fit :: "nat \<Rightarrow> nat \<Rightarrow> bool" where
  "locks_fit n S \<longleftrightarrow> CACHE_LINE_SIZE * (n * S) < 2 ^ 64"

lemma lock_index_bound: "a < n \<Longrightarrow> s < S \<Longrightarrow> a * S + s < n * (S :: nat)"
  by (metis (no_types, lifting) add_less_cancel_left less_le_trans mult_Suc_right mult.commute
      mult_le_mono2 Suc_leI add.commute)

lemma lock_index_inj:
  assumes "s < S" and "s' < S" and "a * S + s = a' * S + (s' :: nat)"
  shows "a = a' \<and> s = s'"
proof -
  have "(a * S + s) div S = (a' * S + s') div S" "(a * S + s) mod S = (a' * S + s') mod S"
    using assms(3) by simp_all
  with assms(1,2) show ?thesis by simp
qed

lemma locks_fit_index:
  assumes "locks_fit n S" and "i < n * S"
  shows "CACHE_LINE_SIZE * i < 2 ^ 64"
proof -
  have "CACHE_LINE_SIZE * i < CACHE_LINE_SIZE * (n * S)"
    using assms(2) by (simp add: CACHE_LINE_SIZE_def)
  then show ?thesis using assms(1) unfolding locks_fit_def by (rule less_trans)
qed

lemma ssLock_inj:
  assumes fit: "locks_fit n S" and "a < n" "a' < n" "s < S" "s' < S"
    and eq: "getPointerOfSequentialSegment CACHE_LINE_SIZE (ssArrayAt base (of_nat S) a) s =
      getPointerOfSequentialSegment CACHE_LINE_SIZE (ssArrayAt base (of_nat S) a') s'"
  shows "a = a' \<and> s = s'"
proof -
  have b: "a * S + s < n * S" "a' * S + s' < n * S"
    using assms by (auto intro: lock_index_bound)
  have "(of_nat (CACHE_LINE_SIZE * (a * S + s)) :: u64) = of_nat (CACHE_LINE_SIZE * (a' * S + s'))"
    using eq unfolding ssLock_address by simp
  moreover have "CACHE_LINE_SIZE * (a * S + s) < 2 ^ 64" "CACHE_LINE_SIZE * (a' * S + s') < 2 ^ 64"
    using b [THEN locks_fit_index [OF fit]] by simp_all
  ultimately have "CACHE_LINE_SIZE * (a * S + s) = CACHE_LINE_SIZE * (a' * S + s')"
    by (metis u64_unat_of_nat)
  then have "a * S + s = a' * S + s'" by (simp add: CACHE_LINE_SIZE_def)
  with assms(4,5) show ?thesis by (rule lock_index_inj)
qed

lemma fold_update_lookup:
  assumes "x \<in> set xs" and "inj_on f (set xs)"
  shows "fold (\<lambda>x m. m(f x \<mapsto> g x)) xs m (f x) = Some (g x)"
  using assms
proof (induction xs arbitrary: m)
  case (Cons y ys)
  have frame: "f x \<notin> f ` set zs \<Longrightarrow> fold (\<lambda>x m. m(f x \<mapsto> g x)) zs m (f x) = m (f x)" for zs m
    by (induction zs arbitrary: m) auto
  show ?case
  proof (cases "x \<in> set ys")
    case True
    with Cons show ?thesis by simp
  next
    case False
    with Cons.prems have "x = y" "f x \<notin> f ` set ys"
      by (auto simp: inj_on_def)
    then show ?thesis
      using frame [of ys "m(f y \<mapsto> g y)"] by (simp del: fun_upd_apply) simp
  qed
qed simp

lemma fold_fold_product:
  "fold (\<lambda>i. fold (h i) ls) is m = fold (\<lambda>(i, l). h i l) (List.product is ls) m"
proof (induction "is" arbitrary: m)
  case (Cons i "is")
  have "fold (\<lambda>(i, l). h i l) (map (Pair i) ls) m = fold (h i) ls m" for m
    by (induction ls arbitrary: m) auto
  with Cons show ?case by simp
qed simp

lemma helix_init_locks_lookup:
  assumes fit: "locks_fit n S" and "a < n" and "s < S"
  shows "helix_init_locks base S n
    (getPointerOfSequentialSegment CACHE_LINE_SIZE (ssArrayAt base (of_nat S) a) s) = Some (0 < a)"
proof -
  let ?f = "\<lambda>(i, s). getPointerOfSequentialSegment CACHE_LINE_SIZE (ssArrayAt base (of_nat S) i) s"
  have "helix_init_locks base S n =
      fold (\<lambda>x m. m(?f x \<mapsto> 0 < fst x)) (List.product [0..<n] [0..<S]) Map.empty"
    unfolding helix_init_locks_def fold_fold_product
    by (simp add: getPointerOfSequentialSegment_def add.commute case_prod_beta')
  moreover have "inj_on ?f (set (List.product [0..<n] [0..<S]))"
    using ssLock_inj [OF fit] by (auto simp: inj_on_def)
  moreover have "(a, s) \<in> set (List.product [0..<n] [0..<S])"
    using assms by simp
  ultimately show ?thesis
    using fold_update_lookup [of "(a, s)" _ ?f "\<lambda>x. 0 < fst x" Map.empty] by simp
qed

text \<open>A dispatch without workers makes its own call and joins.\<close>

lemma fj_alone:
  assumes "workers ops = 0" and "own ops = Some v"
  shows "\<exists>f. (fj_step ops)\<^sup>*\<^sup>* (fj_init []) f \<and> pc f = Joined \<and> log f = [v]"
proof -
  let ?f1 = "(fj_init [])\<lparr>log := [v], pc := Join 0\<rparr>"
  have "fj_step ops (fj_init []) ?f1"
    using fj_step.run_own [of "fj_init []" 0 ops] assms by (simp add: fj_init_def)
  moreover have "fj_step ops ?f1 (?f1\<lparr>pc := Joined\<rparr>)"
    using fj_step.joined [of ?f1 0 ops] assms by simp
  ultimately have "(fj_step ops)\<^sup>*\<^sup>* (fj_init []) (?f1\<lparr>pc := Joined\<rparr>)"
    by (meson r_into_rtranclp rtranclp.rtrancl_into_rtrancl)
  then show ?thesis by (intro exI [of _ "?f1\<lparr>pc := Joined\<rparr>"]) simp
qed

theorem helix_dispatch_calls_witness:
  "\<exists>(f :: (NOELLE_HELIX_args_t, helix_call) fj_state) c.
     pc f = Joined \<and> mset (log f) = {#c#} \<and> c_past c = 64 \<and> c_future c = 64 \<and> c_core c = 0"
proof -
  let ?rt = "NoelleRuntime_new None 2"
  have idle: "NOELLE_idleCores ?rt = 1"
    by (simp add: NoelleRuntime_new_def getMaximumNumberOfCores_def)
  moreover have "\<not> (2 :: u32) \<le> 1" by (simp add: word_le_nat_alt)
  ultimately obtain h rt' where b: "helix_begin (\<lambda>_. 64) 1 1 2 3 True ?rt = Inr (h, rt')"
    and h: "hs_numCores h = 1" "hs_ssArrays h = 64"
    by (auto simp: helix_begin_def reserveCores_def Let_def)
  let ?o = "helix_ops 1 1 0 0 3 h"
  have w: "workers ?o = 0" using h by (simp add: helix_ops_def Let_def)
  from fj_alone [OF w helix_own [OF helix_begin_facts(1,2) [OF b]]]
  obtain f where f: "(fj_step ?o)\<^sup>*\<^sup>* (fj_init []) f" "pc f = Joined"
    by blast
  let ?c = "\<lparr>c_loop = 1, c_env = 1, c_loopCarriedArray = 0, c_past = 64,
      c_future = 64, c_core = 0, c_numCores = 1, c_flag = 0\<rparr>"
  have run: "(fj_step ?o)\<^sup>*\<^sup>* (fj_init (replicate (unat (hs_numCores h - 1)) undefined)) f"
    using f(1) h(1) by simp
  have "mset (log f) = {#?c#}"
    unfolding helix_dispatch_calls [OF b run f(2)] h by (simp add: lessThan_Suc ssArrayAt_def h)
  moreover have "c_past ?c = 64 \<and> c_future ?c = 64 \<and> c_core ?c = 0" by simp
  ultimately show ?thesis using f(2) by blast
qed

end
