(* ===== verification/Helix_Synchronize.thy ===== *)
theory Helix_Synchronize
  imports Gino_Prelude
begin

text \<open>
  How HELIX adds waits and signals to the task (\<open>helix/src/HELIX_synchronization.cpp\<close>): a variable
  \<open>ssState\<close> for each sequential segment, a wait at each of its entries that runs once in an iteration,
  signals at its exits, the flag that tells the other cores that the loop is over, and what a core
  executes in an iteration afterwards.
\<close>

section \<open>The code\<close>

text \<open>
  A block is the list of its instructions; PHI nodes come first and the terminator last.
  \<open>LoadState s\<close> and \<open>WaitIfUnset s\<close> are what \<open>injectWait\<close> puts before an instruction: the load of
  \<open>ssState\<close>, then the comparison, the branch and the block that waits and sets \<open>ssState\<close>. Nothing but
  signals is ever put between the two. \<open>CheckLoopIsOver ss\<close> is the load of the flag, the branch and the
  block that signals the segments \<open>ss\<close> and jumps to the exit of the task. The blocks that these
  branches split are kept together.
\<close>

datatype sync_inst = PhiInst nat | OrigInst nat | ResetState nat | LoadState nat | WaitIfUnset nat
  | SignalCall nat | SetLoopIsOver | CheckLoopIsOver "nat list"

type_synonym sync_code = "nat \<Rightarrow> sync_inst list"

fun isPhiInst :: "sync_inst \<Rightarrow> bool" where
  "isPhiInst (PhiInst i) = True"
| "isPhiInst I = False"

fun isOrigInst :: "sync_inst \<Rightarrow> bool" where
  "isOrigInst (OrigInst i) = True"
| "isOrigInst I = False"

fun splitsBlock :: "sync_inst \<Rightarrow> bool" where
  "splitsBlock (WaitIfUnset s) = True"
| "splitsBlock (CheckLoopIsOver ss) = True"
| "splitsBlock I = False"

text \<open>
  \<open>isIncludedBB b split\<close> is what the loop structure, computed before the blocks are split, answers for
  the block \<open>b\<close> (\<open>split = False\<close>) or a block split off it.
\<close>

record sync_loop =
  loopHeaderBB :: nat
  loopExitBBs :: "nat list"
  lastBBs :: "nat list"
  lastIterationExecutionBlock :: "nat option"
  successorBBs :: "nat \<Rightarrow> nat list"
  endsInBranch :: "nat \<Rightarrow> bool"
  parentOf :: "nat \<Rightarrow> nat"
  isIncludedBB :: "nat \<Rightarrow> bool \<Rightarrow> bool"

record sync_segment =
  ssID :: nat
  ssSCCs :: "nat list"
  ssEntries :: "nat list"
  ssExits :: "nat list"

definition firstNonPHI :: "sync_inst list \<Rightarrow> sync_inst" where
  "firstNonPHI xs = hd (dropWhile isPhiInst xs)"

definition insertBefore :: "sync_inst \<Rightarrow> sync_inst list \<Rightarrow> sync_inst list \<Rightarrow> sync_inst list" where
  "insertBefore f new xs = takeWhile (\<lambda>I. I \<noteq> f) xs @ new @ dropWhile (\<lambda>I. I \<noteq> f) xs"

definition insertAfter :: "sync_inst \<Rightarrow> sync_inst list \<Rightarrow> sync_inst list \<Rightarrow> sync_inst list" where
  "insertAfter f new xs =
     (case dropWhile (\<lambda>I. I \<noteq> f) xs of [] \<Rightarrow> xs | I # ys \<Rightarrow> takeWhile (\<lambda>I. I \<noteq> f) xs @ I # new @ ys)"

section \<open>Waits, signals and the flag\<close>

text \<open>A point is a block and an instruction of it.\<close>

definition injectWait :: "nat \<Rightarrow> nat \<times> sync_inst \<Rightarrow> sync_code \<Rightarrow> sync_code" where
  "injectWait s p code =
     code(fst p := insertBefore (snd p) [LoadState s, WaitIfUnset s] (code (fst p)))"

definition signalAtStart :: "nat \<Rightarrow> nat \<Rightarrow> sync_code \<Rightarrow> sync_code" where
  "signalAtStart s b code = code(b := insertBefore (firstNonPHI (code b)) [SignalCall s] (code b))"

definition injectSignal :: "sync_loop \<Rightarrow> nat \<Rightarrow> nat \<times> sync_inst \<Rightarrow> sync_code \<Rightarrow> sync_code" where
  "injectSignal G s p code =
     (let b = fst p; f = snd p; terminator = last (code b) in
      if \<not> (f = terminator \<and> endsInBranch G b) \<or> length (successorBBs G b) = 1
      then code(b := (if f = terminator then insertBefore f [SignalCall s] (code b)
                      else insertAfter f [SignalCall s] (code b)))
      else fold (signalAtStart s) (successorBBs G b) code)"

definition injectExitFlagSet :: "nat \<times> sync_inst \<Rightarrow> sync_code \<Rightarrow> sync_code" where
  "injectExitFlagSet p code = code(fst p := insertBefore (snd p) [SetLoopIsOver] (code (fst p)))"

definition injectExitFlagCheck :: "nat list \<Rightarrow> nat \<times> sync_inst \<Rightarrow> sync_code \<Rightarrow> sync_code" where
  "injectExitFlagCheck sss p code =
     code(fst p := insertBefore (snd p) [CheckLoopIsOver sss] (code (fst p)))"

section \<open>A segment\<close>

definition preambleSegment :: "nat option \<Rightarrow> sync_segment list \<Rightarrow> sync_segment option" where
  "preambleSegment preambleSCC sss =
     find (\<lambda>ss. list_ex (\<lambda>scc. preambleSCC = Some scc) (ssSCCs ss)) sss"

text \<open>The wait and the signal at the end of the task, for a block that leaves it.\<close>

definition synchronizeLastBlock :: "sync_loop \<Rightarrow> sync_segment list \<Rightarrow> nat \<Rightarrow> sync_code \<Rightarrow> sync_code" where
  "synchronizeLastBlock G sss b code =
     (let terminator = last (code b) in
      fold (\<lambda>ss code. injectSignal G (ssID ss) (b, terminator)
              (injectWait (ssID ss) (b, firstNonPHI (code b)) code)) sss code)"

definition waitInLastIteration :: "sync_segment list \<Rightarrow> nat \<Rightarrow> sync_code \<Rightarrow> sync_code" where
  "waitInLastIteration sss b code =
     fold (\<lambda>ss code. injectWait (ssID ss) (b, firstNonPHI (code b)) code) sss code"

text \<open>The points to signal at: an exit, or the start of each block it branches to.\<close>

definition pointsOfExit :: "sync_loop \<Rightarrow> sync_code \<Rightarrow> nat \<Rightarrow> (nat \<times> sync_inst) list" where
  "pointsOfExit G code i =
     (let b = parentOf G i in
      if last (code b) \<noteq> OrigInst i \<or> length (successorBBs G b) = 1 then [(b, OrigInst i)]
      else map (\<lambda>c. (c, firstNonPHI (code c))) (successorBBs G b))"

definition exitPoints :: "sync_loop \<Rightarrow> bool \<Rightarrow> sync_segment \<Rightarrow> sync_code \<Rightarrow> (nat \<times> sync_inst) list" where
  "exitPoints G prologue ss code =
     remdups (concat (map (pointsOfExit G code) (ssExits ss)) @
              (if prologue then map (\<lambda>b. (b, firstNonPHI (code b))) (loopExitBBs G) else []))"

text \<open>Whether the block an instruction is in now belongs to the loop structure.\<close>

definition isIncludedInst :: "sync_loop \<Rightarrow> sync_code \<Rightarrow> nat \<times> sync_inst \<Rightarrow> bool" where
  "isIncludedInst G code p =
     isIncludedBB G (fst p) (list_ex splitsBlock (takeWhile (\<lambda>I. I \<noteq> snd p) (code (fst p))))"

definition signalExit :: "sync_loop \<Rightarrow> bool \<Rightarrow> nat \<Rightarrow> nat \<times> sync_inst \<Rightarrow> sync_code \<Rightarrow> sync_code" where
  "signalExit G prologue s p code =
     (let code = injectSignal G s p code in
      if prologue \<and> \<not> isIncludedInst G code p then injectExitFlagSet p code else code)"

definition resetState :: "sync_loop \<Rightarrow> nat \<Rightarrow> sync_code \<Rightarrow> sync_code" where
  "resetState G s code =
     (let h = loopHeaderBB G in code(h := insertBefore (firstNonPHI (code h)) [ResetState s] (code h)))"

definition waitAtEntries :: "sync_loop \<Rightarrow> sync_segment \<Rightarrow> sync_code \<Rightarrow> sync_code" where
  "waitAtEntries G ss code =
     fold (\<lambda>e. injectWait (ssID ss) (parentOf G e, OrigInst e)) (ssEntries ss) code"

definition synchronizeSegment ::
    "sync_loop \<Rightarrow> sync_segment list \<Rightarrow> nat option \<Rightarrow> sync_segment \<Rightarrow> sync_code \<Rightarrow> sync_code" where
  "synchronizeSegment G sss preamble ss code =
     (let prologue = (preamble = Some (ssID ss));
          firstLoopInst = (loopHeaderBB G, firstNonPHI (code (loopHeaderBB G)));
          code = resetState G (ssID ss) code;
          code = (if prologue
                  then injectExitFlagCheck (map ssID sss) firstLoopInst (injectWait (ssID ss) firstLoopInst code)
                  else waitAtEntries G ss code)
      in fold (signalExit G prologue (ssID ss)) (exitPoints G prologue ss code) code)"

section \<open>The task\<close>

text \<open>The number of a segment is its position in the list (\<open>identified_segment\<close> of \<open>Helix_Identify\<close>).\<close>

definition addSynchronizations ::
    "sync_loop \<Rightarrow> sync_segment list \<Rightarrow> nat option \<Rightarrow> sync_code \<Rightarrow> sync_code" where
  "addSynchronizations G sss preambleSCC code =
     (if sss = [] then code
      else
        let preamble = map_option ssID (preambleSegment preambleSCC sss);
            code = fold (synchronizeLastBlock G sss) (lastBBs G) code;
            code = (case lastIterationExecutionBlock G of
                      None \<Rightarrow> code
                    | Some b \<Rightarrow> waitInLastIteration sss b code)
        in fold (synchronizeSegment G sss preamble) sss code)"

section \<open>An iteration\<close>

text \<open>
  What a core does as it goes through the code of some blocks. The first argument is what it finds in
  the flag, the second the \<open>ssState\<close> variables.
\<close>

datatype sync_event = Executed nat | Waited nat | Signaled nat | LoopIsOver | LeftAtCheck

fun runSync :: "bool \<Rightarrow> (nat \<Rightarrow> bool) \<Rightarrow> sync_inst list \<Rightarrow> sync_event list" where
  "runSync over st [] = []"
| "runSync over st (PhiInst i # Is) = runSync over st Is"
| "runSync over st (OrigInst i # Is) = Executed i # runSync over st Is"
| "runSync over st (ResetState s # Is) = runSync over (st(s := False)) Is"
| "runSync over st (LoadState s # Is) = runSync over st Is"
| "runSync over st (WaitIfUnset s # Is) =
     (if st s then runSync over st Is else Waited s # runSync over (st(s := True)) Is)"
| "runSync over st (SignalCall s # Is) = Signaled s # runSync over st Is"
| "runSync over st (SetLoopIsOver # Is) = LoopIsOver # runSync over st Is"
| "runSync over st (CheckLoopIsOver ss # Is) =
     (if over then map Signaled ss @ [LeftAtCheck] else runSync over st Is)"

definition runBlocks :: "bool \<Rightarrow> (nat \<Rightarrow> bool) \<Rightarrow> sync_code \<Rightarrow> nat list \<Rightarrow> sync_event list" where
  "runBlocks over st code bs = runSync over st (concat (map code bs))"

end
