(* ===== verification/Helix_Segments.thy ===== *)
theory Helix_Segments
  imports Gino_Prelude
begin

text \<open>
  The sequential segments of HELIX (\<open>helix/src/HELIX_sequentialSegment.cpp\<close>,
  \<open>HELIX_sequentialSegments.cpp\<close>): which sets of components need a segment, what can run before and
  after an instruction within an iteration, and the frontier of instructions at which a task waits
  for a segment and signals that it is done with it.
\<close>

section \<open>The loop\<close>

text \<open>
  What LLVM and NOELLE know of a loop: the instructions of each block in order, the neighbours of an
  instruction among those that are not debug information, the first and last instructions of the
  neighbouring blocks, and for each instruction whether its innermost loop is the one parallelized.
  \<open>skippable\<close> holds of PHI nodes, debug intrinsics and lifetime markers.
\<close>

record seg_loop =
  blocks :: "nat list list"
  prevInst :: "nat \<Rightarrow> nat option"
  nextInst :: "nat \<Rightarrow> nat option"
  predecessorTerminators :: "nat \<Rightarrow> nat list"
  successorFirsts :: "nat \<Rightarrow> nat list"
  inRootLoop :: "nat \<Rightarrow> bool"
  isPHI :: "nat \<Rightarrow> bool"
  skippable :: "nat \<Rightarrow> bool"
  firstNonPHIOrDbgOrLifetime :: "nat \<Rightarrow> nat"
  dominates :: "nat \<Rightarrow> nat \<Rightarrow> bool"
  returnsFromFunction :: "nat list"

section \<open>Reachability within an iteration\<close>

text \<open>
  The three functions given to the data-flow engine by \<open>computeReachabilityFromInstructions\<close>;
  \<open>headerFirst\<close> is the first instruction of the header.
\<close>

definition computeGEN :: "nat \<Rightarrow> nat set" where
  "computeGEN i = {i}"

definition computeOUT :: "nat \<Rightarrow> nat \<Rightarrow> nat \<Rightarrow> nat set \<Rightarrow> (nat \<Rightarrow> nat set) \<Rightarrow> nat set" where
  "computeOUT headerFirst inst succ OUT IN = (if succ = headerFirst then OUT else OUT \<union> IN succ)"

definition computeIN :: "nat \<Rightarrow> nat set \<Rightarrow> nat set \<Rightarrow> nat set" where
  "computeIN inst genI outI = outI \<union> genI"

text \<open>\<open>computeBeforeInstructionMap\<close>, as a function of the result \<open>OUT\<close> of the data-flow analysis.\<close>

definition loopInstructions :: "seg_loop \<Rightarrow> nat list" where
  "loopInstructions L = concat (blocks L)"

definition beforeInstructions :: "seg_loop \<Rightarrow> (nat \<Rightarrow> nat set) \<Rightarrow> nat \<Rightarrow> nat set" where
  "beforeInstructions L OUT j =
     fold (\<lambda>i before. if j \<in> OUT i \<and> i \<noteq> j \<and> j \<in> set (loopInstructions L) then insert i before else before)
       (loopInstructions L) {}"

section \<open>The frontier\<close>

definition checkIfBeforeEntryFrontier :: "seg_loop \<Rightarrow> (nat \<Rightarrow> nat set) \<Rightarrow> nat set \<Rightarrow> nat \<Rightarrow> bool" where
  "checkIfBeforeEntryFrontier L OUT ss inst \<longleftrightarrow> beforeInstructions L OUT inst \<inter> ss - {inst} = {}"

definition checkIfAfterExitFrontier :: "(nat \<Rightarrow> nat set) \<Rightarrow> nat set \<Rightarrow> nat \<Rightarrow> bool" where
  "checkIfAfterExitFrontier OUT ss inst \<longleftrightarrow> OUT inst \<inter> ss - {inst} = {}"

definition isDominatedByOtherEntry :: "seg_loop \<Rightarrow> nat set \<Rightarrow> nat \<Rightarrow> bool" where
  "isDominatedByOtherEntry L entries inst \<longleftrightarrow> (\<exists>entry \<in> entries. dominates L entry inst)"

definition isReachableFromOtherExit :: "seg_loop \<Rightarrow> (nat \<Rightarrow> nat set) \<Rightarrow> nat set \<Rightarrow> nat \<Rightarrow> bool" where
  "isReachableFromOtherExit L OUT exits inst \<longleftrightarrow> beforeInstructions L OUT inst \<inter> exits \<noteq> {}"

definition getFrontierInstructionThatDoesNotSplitPHIs :: "seg_loop \<Rightarrow> nat \<Rightarrow> nat" where
  "getFrontierInstructionThatDoesNotSplitPHIs L inst =
     (if skippable L inst then firstNonPHIOrDbgOrLifetime L inst else inst)"

text \<open>The neighbours a traversal goes on to.\<close>

definition stepBack :: "seg_loop \<Rightarrow> nat \<Rightarrow> nat list" where
  "stepBack L i = (case prevInst L i of Some p \<Rightarrow> [p] | None \<Rightarrow> predecessorTerminators L i)"

definition stepForward :: "seg_loop \<Rightarrow> nat \<Rightarrow> nat list" where
  "stepForward L i = (case nextInst L i of Some n \<Rightarrow> [n] | None \<Rightarrow> successorFirsts L i)"

text \<open>
  The two traversals have the same shape: take an instruction from the queue, skip it if it was
  visited, add its frontier point if it is accepted, go on to its neighbours otherwise. \<open>fuel\<close> bounds
  the number of instructions taken; \<open>None\<close> is running out of it.
\<close>

fun frontierTraversal ::
    "(nat set \<Rightarrow> nat \<Rightarrow> bool) \<Rightarrow> (nat \<Rightarrow> nat list) \<Rightarrow> (nat \<Rightarrow> nat) \<Rightarrow> nat \<Rightarrow> nat list \<Rightarrow> nat set \<Rightarrow>
     nat set \<Rightarrow> nat set option" where
  "frontierTraversal accept neighbours point fuel [] visited frontier = Some frontier"
| "frontierTraversal accept neighbours point 0 (i # queue) visited frontier = None"
| "frontierTraversal accept neighbours point (Suc fuel) (i # queue) visited frontier =
     (if i \<in> visited then frontierTraversal accept neighbours point fuel queue visited frontier
      else if accept frontier i
      then frontierTraversal accept neighbours point fuel queue (insert i visited) (insert (point i) frontier)
      else frontierTraversal accept neighbours point fuel (queue @ neighbours i) (insert i visited) frontier)"

definition acceptEntry :: "seg_loop \<Rightarrow> (nat \<Rightarrow> nat set) \<Rightarrow> nat set \<Rightarrow> nat set \<Rightarrow> nat \<Rightarrow> bool" where
  "acceptEntry L OUT ss entries i \<longleftrightarrow>
     inRootLoop L i \<and> checkIfBeforeEntryFrontier L OUT ss i \<and> \<not> isDominatedByOtherEntry L entries i"

definition acceptExit :: "seg_loop \<Rightarrow> (nat \<Rightarrow> nat set) \<Rightarrow> nat set \<Rightarrow> nat set \<Rightarrow> nat \<Rightarrow> bool" where
  "acceptExit L OUT ss exits i \<longleftrightarrow>
     inRootLoop L i \<and> checkIfAfterExitFrontier OUT ss i \<and> \<not> isReachableFromOtherExit L OUT exits i"

text \<open>The instructions, one per block, that neither reach the segment nor are reached from it.\<close>

definition unreachableToAndFromSS :: "seg_loop \<Rightarrow> (nat \<Rightarrow> nat set) \<Rightarrow> nat set \<Rightarrow> nat \<Rightarrow> bool" where
  "unreachableToAndFromSS L OUT ss i \<longleftrightarrow>
     i \<notin> ss \<and> checkIfBeforeEntryFrontier L OUT ss i \<and> checkIfAfterExitFrontier OUT ss i"

definition extendFrontier ::
    "seg_loop \<Rightarrow> (nat \<Rightarrow> nat set) \<Rightarrow> nat \<Rightarrow> nat set \<times> nat set \<Rightarrow> nat set \<times> nat set" where
  "extendFrontier L OUT i = (\<lambda>(entries, exits).
     let p = getFrontierInstructionThatDoesNotSplitPHIs L i in
     (if \<not> isDominatedByOtherEntry L entries p then insert p entries else entries,
      if \<not> isReachableFromOtherExit L OUT exits p then insert p exits else exits))"

text \<open>
  \<open>determineEntryAndExitFrontier\<close>. The hash sets it iterates over are lists here, in the order of the
  iteration: the segment's instructions and the unreachable instructions.
\<close>

definition determineEntryAndExitFrontier ::
    "seg_loop \<Rightarrow> (nat \<Rightarrow> nat set) \<Rightarrow> nat list \<Rightarrow> nat list \<Rightarrow> nat \<Rightarrow> (nat set \<times> nat set) option" where
  "determineEntryAndExitFrontier L OUT ssInstructions unreachable fuel =
     (let ss = set ssInstructions; point = getFrontierInstructionThatDoesNotSplitPHIs L in
      case frontierTraversal (acceptEntry L OUT ss) (stepBack L) point fuel ssInstructions {} {} of
        None \<Rightarrow> None
      | Some entries \<Rightarrow>
          (case frontierTraversal (acceptExit L OUT ss) (stepForward L) point fuel ssInstructions {} {} of
             None \<Rightarrow> None
           | Some exits \<Rightarrow> Some (fold (extendFrontier L OUT) unreachable (entries, exits))))"

section \<open>A segment\<close>

text \<open>
  The constructor of \<open>SequentialSegment\<close>: PHI nodes are excluded, the instructions that return from the
  function are exits too, and both frontiers must not be empty.
\<close>

definition SequentialSegment_new ::
    "seg_loop \<Rightarrow> (nat \<Rightarrow> nat set) \<Rightarrow> nat list \<Rightarrow> nat list \<Rightarrow> nat \<Rightarrow> (nat set \<times> nat set) result option" where
  "SequentialSegment_new L OUT instructions unreachable fuel =
     (case determineEntryAndExitFrontier L OUT (filter (\<lambda>i. \<not> isPHI L i) instructions) unreachable fuel of
        None \<Rightarrow> None
      | Some (entries, exits) \<Rightarrow>
          let exits = exits \<union> set (returnsFromFunction L) in
          Some (if entries = {} then Inl AssertionFailed
                else if exits = {} then Inl AssertionFailed
                else Inr (entries, exits)))"

end
