(* ===== verification/Segment_Coverage.thy ===== *)
theory Segment_Coverage
  imports Helix_Segments
begin

text \<open>
  The waits and signals of a sequential segment cut every iteration in the right place: on each path
  from the header to an instruction of the segment a wait comes first, no instruction of the segment
  follows a signal, and the two traversals that compute the frontiers end.
\<close>

section \<open>The data-flow facts the frontier rests on\<close>

text \<open>
  A solution of the data-flow equations of \<open>computeReachabilityFromInstructions\<close>, and the least one,
  which the engine computes by growing the sets from empty ones.
\<close>

definition flowIN :: "(nat \<Rightarrow> nat set) \<Rightarrow> nat \<Rightarrow> nat set" where
  "flowIN OUT i = computeIN i (computeGEN i) (OUT i)"

definition flowSolution :: "seg_loop \<Rightarrow> nat \<Rightarrow> (nat \<Rightarrow> nat set) \<Rightarrow> bool" where
  "flowSolution L h OUT \<longleftrightarrow>
     (\<forall>i. OUT i = fold (\<lambda>s out. computeOUT h i s out (flowIN OUT)) (stepForward L i) {})"

definition leastFlowSolution :: "seg_loop \<Rightarrow> nat \<Rightarrow> (nat \<Rightarrow> nat set) \<Rightarrow> bool" where
  "leastFlowSolution L h OUT \<longleftrightarrow>
     flowSolution L h OUT \<and> (\<forall>OUT'. flowSolution L h OUT' \<longrightarrow> (\<forall>i. OUT i \<subseteq> OUT' i))"

lemma fold_computeOUT:
  "fold (\<lambda>s out. computeOUT h i s out IN) ss X = X \<union> (\<Union>s \<in> {s \<in> set ss. s \<noteq> h}. IN s)"
  by (induction ss arbitrary: X) (auto simp: computeOUT_def)

lemma flowSolution_iff:
  "flowSolution L h OUT \<longleftrightarrow>
     (\<forall>i. OUT i = (\<Union>s \<in> {s \<in> set (stepForward L i). s \<noteq> h}. insert s (OUT s)))"
  by (simp add: flowSolution_def fold_computeOUT flowIN_def computeIN_def computeGEN_def)

lemma flowSolution_step:
  assumes "flowSolution L h OUT" "j \<in> set (stepForward L i)" "j \<noteq> h"
  shows "j \<in> OUT i" and "OUT j \<subseteq> OUT i"
proof -
  have eq: "OUT i = (\<Union>s \<in> {s \<in> set (stepForward L i). s \<noteq> h}. insert s (OUT s))"
    using assms(1) unfolding flowSolution_iff by blast
  show "j \<in> OUT i" "OUT j \<subseteq> OUT i" using assms(2,3) by (subst eq; blast)+
qed

lemma flowSolution_stop:
  assumes "flowSolution L h OUT" "stepForward L i = []"
  shows "OUT i = {}"
proof -
  have "OUT i = (\<Union>s \<in> {s \<in> set (stepForward L i). s \<noteq> h}. insert s (OUT s))"
    using assms(1) unfolding flowSolution_iff by blast
  then show ?thesis unfolding assms(2) by simp
qed

lemma flowSolution_remove_header:
  assumes "flowSolution L h OUT"
  shows "flowSolution L h (\<lambda>i. OUT i - {h})"
  unfolding flowSolution_iff
proof
  fix i
  have "OUT i = (\<Union>s \<in> {s \<in> set (stepForward L i). s \<noteq> h}. insert s (OUT s))"
    using assms unfolding flowSolution_iff by blast
  then show "OUT i - {h} = (\<Union>s \<in> {s \<in> set (stepForward L i). s \<noteq> h}. insert s (OUT s - {h}))"
    by auto
qed

lemma header_not_reached:
  assumes "leastFlowSolution L h OUT"
  shows "h \<notin> OUT i"
  using assms flowSolution_remove_header unfolding leastFlowSolution_def by blast

lemma mem_beforeInstructions:
  "i \<in> beforeInstructions L OUT j \<longleftrightarrow>
     i \<in> set (loopInstructions L) \<and> j \<in> set (loopInstructions L) \<and> i \<noteq> j \<and> j \<in> OUT i"
proof -
  have "i \<in> fold (\<lambda>i before. if j \<in> OUT i \<and> i \<noteq> j \<and> j \<in> S then insert i before else before) xs X
      \<longleftrightarrow> i \<in> X \<or> i \<in> set xs \<and> j \<in> S \<and> i \<noteq> j \<and> j \<in> OUT i" for xs X S
    by (induction xs arbitrary: X) auto
  then show ?thesis by (auto simp: beforeInstructions_def)
qed

section \<open>The traversal\<close>

text \<open>
  What a finished traversal leaves: a set of visited instructions that contains the queue and, for
  each instruction it did not accept, its neighbours.
\<close>

definition accepted_in ::
    "(nat set \<Rightarrow> nat \<Rightarrow> bool) \<Rightarrow> nat set \<Rightarrow> nat \<Rightarrow> bool" where
  "accepted_in accept F i \<longleftrightarrow> (\<exists>F' \<subseteq> F. accept F' i)"

definition refused_in ::
    "(nat set \<Rightarrow> nat \<Rightarrow> bool) \<Rightarrow> nat set \<Rightarrow> nat \<Rightarrow> bool" where
  "refused_in accept F i \<longleftrightarrow> (\<exists>F' \<subseteq> F. \<not> accept F' i)"

definition traversed ::
    "(nat set \<Rightarrow> nat \<Rightarrow> bool) \<Rightarrow> (nat \<Rightarrow> nat list) \<Rightarrow> (nat \<Rightarrow> nat) \<Rightarrow> nat set \<Rightarrow> nat set \<Rightarrow> nat \<Rightarrow> bool" where
  "traversed accept neighbours point V F i \<longleftrightarrow>
     accepted_in accept F i \<and> point i \<in> F \<or> refused_in accept F i \<and> set (neighbours i) \<subseteq> V"

lemma frontierTraversal_grows:
  "frontierTraversal accept neighbours point fuel queue V F = Some R \<Longrightarrow> F \<subseteq> R"
  by (induction accept neighbours point fuel queue V F rule: frontierTraversal.induct)
     (auto split: if_splits)

lemma frontierTraversal_visits:
  assumes "frontierTraversal accept neighbours point fuel queue V F = Some R"
  shows "\<exists>W. V \<subseteq> W \<and> set queue \<subseteq> W \<and> (\<forall>i \<in> W - V. traversed accept neighbours point W R i)"
  using assms
proof (induction accept neighbours point fuel queue V F rule: frontierTraversal.induct)
  case (1 accept neighbours point fuel visited frontier)
  then show ?case by (intro exI[of _ visited]) simp
next
  case (2 accept neighbours point i queue visited frontier)
  then show ?case by simp
next
  case (3 accept neighbours point fuel i queue visited frontier)
  consider (seen) "i \<in> visited" | (acc) "i \<notin> visited" "accept frontier i"
    | (ref) "i \<notin> visited" "\<not> accept frontier i" by blast
  then show ?case
  proof cases
    case seen
    with 3 show ?thesis by auto
  next
    case acc
    have run: "frontierTraversal accept neighbours point fuel queue (insert i visited)
        (insert (point i) frontier) = Some R" using 3(4) acc by simp
    then obtain W where W: "insert i visited \<subseteq> W" "set queue \<subseteq> W"
      "\<forall>j \<in> W - insert i visited. traversed accept neighbours point W R j"
      using 3(2)[OF acc] by blast
    have "traversed accept neighbours point W R i"
      using frontierTraversal_grows[OF run] acc(2) unfolding traversed_def accepted_in_def by auto
    with W show ?thesis by (intro exI[of _ W]) auto
  next
    case ref
    have run: "frontierTraversal accept neighbours point fuel (queue @ neighbours i)
        (insert i visited) frontier = Some R" using 3(4) ref by simp
    then obtain W where W: "insert i visited \<subseteq> W" "set (queue @ neighbours i) \<subseteq> W"
      "\<forall>j \<in> W - insert i visited. traversed accept neighbours point W R j"
      using 3(3)[OF ref] by blast
    have "traversed accept neighbours point W R i"
      using frontierTraversal_grows[OF run] ref(2) W(2) unfolding traversed_def refused_in_def by auto
    with W show ?thesis by (intro exI[of _ W]) auto
  qed
qed

lemma frontierTraversal_points:
  assumes "frontierTraversal accept neighbours point fuel queue V F = Some R"
  shows "\<forall>p \<in> R - F. \<exists>i. accepted_in accept R i \<and> p = point i"
  using assms
proof (induction accept neighbours point fuel queue V F rule: frontierTraversal.induct)
  case (3 accept neighbours point fuel i queue visited frontier)
  show ?case
  proof (cases "i \<in> visited \<or> \<not> accept frontier i")
    case True
    with 3 show ?thesis by (auto split: if_splits)
  next
    case False
    then have run: "frontierTraversal accept neighbours point fuel queue (insert i visited)
        (insert (point i) frontier) = Some R" using 3(4) by simp
    have "accepted_in accept R i"
      using frontierTraversal_grows[OF run] False unfolding accepted_in_def by auto
    moreover have "\<forall>p \<in> R - insert (point i) frontier. \<exists>i. accepted_in accept R i \<and> p = point i"
      using 3(2) False run by blast
    ultimately show ?thesis by blast
  qed
qed simp_all

section \<open>A wait before the segment on every path\<close>

text \<open>
  The facts about LLVM's CFG that the frontier relies on: the two neighbour relations describe the
  same edges, the loop's instructions are those \<open>loopInstructions\<close> lists, nothing in the loop but the
  header's first instruction dominates it, the instructions a frontier must not split come first in
  their block (\<open>leadsTo\<close> goes through them one by one), and a block that returns has no successor.
\<close>

inductive leadsTo :: "seg_loop \<Rightarrow> nat \<Rightarrow> nat \<Rightarrow> nat \<Rightarrow> bool" for L h where
  "stepForward L i = [n] \<Longrightarrow> n \<noteq> h \<Longrightarrow> \<not> skippable L n \<Longrightarrow> leadsTo L h i n"
| "stepForward L i = [n] \<Longrightarrow> n \<noteq> h \<Longrightarrow> skippable L n \<Longrightarrow> leadsTo L h n p \<Longrightarrow> leadsTo L h i p"

definition loopCFG :: "seg_loop \<Rightarrow> nat \<Rightarrow> bool" where
  "loopCFG L h \<longleftrightarrow>
     (\<forall>j \<in> set (loopInstructions L). \<forall>i \<in> set (stepBack L j). j \<in> set (stepForward L i)) \<and>
     inRootLoop L h \<and>
     (\<forall>i. inRootLoop L i \<longrightarrow>
        i \<in> set (loopInstructions L) \<and>
        getFrontierInstructionThatDoesNotSplitPHIs L i \<in> set (loopInstructions L)) \<and>
     (\<forall>e \<in> set (loopInstructions L). dominates L e h \<longrightarrow> e = h) \<and>
     (\<forall>i \<in> set (loopInstructions L). skippable L i \<longrightarrow> leadsTo L h i (firstNonPHIOrDbgOrLifetime L i)) \<and>
     (\<forall>i \<in> set (returnsFromFunction L). stepForward L i = [])"

fun cfgPath :: "seg_loop \<Rightarrow> nat list \<Rightarrow> bool" where
  "cfgPath L (i # j # path) \<longleftrightarrow> i \<in> set (stepBack L j) \<and> cfgPath L (j # path)"
| "cfgPath L path \<longleftrightarrow> True"

text \<open>A path of one iteration: it starts at the header's first instruction and does not come back to it.\<close>

definition iterationPath :: "seg_loop \<Rightarrow> nat \<Rightarrow> nat list \<Rightarrow> bool" where
  "iterationPath L h path \<longleftrightarrow>
     path \<noteq> [] \<and> hd path = h \<and> h \<notin> set (tl path) \<and> set path \<subseteq> set (loopInstructions L) \<and> cfgPath L path"

lemma cfgPath_nth:
  "cfgPath L path \<Longrightarrow> Suc k < length path \<Longrightarrow> path ! k \<in> set (stepBack L (path ! Suc k))"
proof (induction L path arbitrary: k rule: cfgPath.induct)
  case (1 L i j path)
  then show ?case by (cases k) auto
qed simp_all

lemma iterationPath_forward:
  assumes "loopCFG L h" "iterationPath L h path" "Suc k < length path"
  shows "path ! Suc k \<in> set (stepForward L (path ! k))" and "path ! Suc k \<noteq> h"
proof -
  have "path ! Suc k \<in> set (loopInstructions L)"
    using assms(2,3) nth_mem[OF assms(3)] unfolding iterationPath_def by blast
  moreover have "path ! k \<in> set (stepBack L (path ! Suc k))"
    using assms(2,3) by (intro cfgPath_nth) (auto simp: iterationPath_def)
  ultimately show "path ! Suc k \<in> set (stepForward L (path ! k))"
    using assms(1) unfolding loopCFG_def by blast
  have "path ! Suc k = tl path ! k" using assms(3) by (simp add: nth_tl)
  then have "path ! Suc k \<in> set (tl path)" using assms(3) by (simp add: nth_mem)
  then show "path ! Suc k \<noteq> h" using assms(2) unfolding iterationPath_def by metis
qed

lemma iterationPath_reaches:
  assumes "loopCFG L h" "flowSolution L h OUT" "iterationPath L h path" "k < m" "m < length path"
  shows "path ! m \<in> OUT (path ! k)"
  using assms(4)
proof (induction k rule: strict_inc_induct)
  case (base k)
  then show ?case
    using flowSolution_step(1)[OF assms(2) iterationPath_forward[OF assms(1,3)]] assms(5) by simp
next
  case (step k)
  then have "Suc k < length path" using assms(5) by simp
  then show ?case
    using flowSolution_step(2)[OF assms(2) iterationPath_forward[OF assms(1,3)]] step.IH by blast
qed

lemma leadsTo_on_path:
  assumes "leadsTo L h i p" "loopCFG L h" "iterationPath L h path"
    and "skippable L i" "path ! k = i" "k < length path" "\<not> skippable L (last path)"
  shows "\<exists>m. k < m \<and> m < length path \<and> path ! m = p \<and> (\<forall>l. k \<le> l \<and> l < m \<longrightarrow> skippable L (path ! l))"
proof -
  have further: "Suc k < length path" if "k < length path" "skippable L (path ! k)" for k
  proof (rule ccontr)
    assume "\<not> Suc k < length path"
    then have "k = length path - 1" using that(1) by simp
    moreover have "path \<noteq> []" using that(1) by auto
    ultimately show False using assms(7) that(2) by (simp add: last_conv_nth)
  qed
  show ?thesis
    using assms(1,4-6)
  proof (induction arbitrary: k rule: leadsTo.induct)
    case (1 i n)
    then have lt: "Suc k < length path" using further by simp
    have "path ! Suc k = n" using iterationPath_forward(1)[OF assms(2,3) lt] 1 by simp
    moreover have "skippable L (path ! l)" if "k \<le> l \<and> l < Suc k" for l
      using that 1 by (metis le_SucE le_antisym less_Suc_eq_le)
    ultimately show ?case using lt by (intro exI[of _ "Suc k"]) auto
  next
    case (2 i n p)
    then have lt: "Suc k < length path" using further by simp
    have n: "path ! Suc k = n" using iterationPath_forward(1)[OF assms(2,3) lt] 2 by simp
    obtain m where m: "Suc k < m" "m < length path" "path ! m = p"
      "\<forall>l. Suc k \<le> l \<and> l < m \<longrightarrow> skippable L (path ! l)"
      using "2.IH"[OF 2(3) n lt] by blast
    have "skippable L (path ! l)" if "k \<le> l \<and> l < m" for l
      using that m(4) 2 by (metis le_neq_implies_less Suc_leI)
    then show ?case using m by (intro exI[of _ m]) auto
  qed
qed

lemma skippable_run_reaches_point:
  assumes "loopCFG L h" "iterationPath L h path" "k < length path" "\<not> skippable L (last path)"
  shows "\<exists>m. k \<le> m \<and> m < length path \<and>
             path ! m = getFrontierInstructionThatDoesNotSplitPHIs L (path ! k) \<and>
             (\<forall>l. k \<le> l \<and> l < m \<longrightarrow> skippable L (path ! l))"
proof (cases "skippable L (path ! k)")
  case False
  then show ?thesis using assms(3)
    by (intro exI[of _ k]) (auto simp: getFrontierInstructionThatDoesNotSplitPHIs_def)
next
  case True
  have "path ! k \<in> set (loopInstructions L)"
    using assms(2,3) nth_mem unfolding iterationPath_def by blast
  then have "leadsTo L h (path ! k) (firstNonPHIOrDbgOrLifetime L (path ! k))"
    using assms(1) True unfolding loopCFG_def by blast
  from leadsTo_on_path[OF this assms(1,2) True refl assms(3,4)] True show ?thesis
    by (auto simp: getFrontierInstructionThatDoesNotSplitPHIs_def intro: less_imp_le)
qed

lemma leadsTo_OUT:
  assumes "leadsTo L h i p" "flowSolution L h OUT"
  shows "OUT p \<subseteq> OUT i"
  using assms(1)
proof induction
  case (1 i n)
  then show ?case using flowSolution_step(2)[OF assms(2)] by simp
next
  case (2 i n p)
  then show ?case using flowSolution_step(2)[OF assms(2), of n i] by auto
qed

text \<open>
  Going back along a path from a visited instruction either meets an accepted one or arrives at the
  header, which is then visited and was not accepted.
\<close>

lemma path_meets_accepted:
  assumes "cfgPath L path" "path \<noteq> []" "last path \<in> W"
    and "\<forall>i \<in> W. traversed accept (stepBack L) point W R i"
  shows "(\<exists>k < length path. accepted_in accept R (path ! k) \<and> point (path ! k) \<in> R) \<or>
         refused_in accept R (hd path) \<and> hd path \<in> W"
proof (rule ccontr)
  assume none: "\<not> ?thesis"
  have refused: "refused_in accept R (path ! k) \<and> set (stepBack L (path ! k)) \<subseteq> W"
    if "k < length path" "path ! k \<in> W" for k
    using assms(4) none that unfolding traversed_def by blast
  have "path ! k \<in> W" if "k \<le> length path - 1" for k
    using that
  proof (induction rule: inc_induct)
    case base
    then show ?case using assms(2,3) by (simp add: last_conv_nth)
  next
    case (step k)
    have lt: "Suc k < length path" using step(2) by simp
    then have "path ! k \<in> set (stepBack L (path ! Suc k))" by (rule cfgPath_nth[OF assms(1)])
    then show ?case using refused[OF lt step(3)] by blast
  qed
  then have "path ! 0 \<in> W" by simp
  then show False using refused[of 0] none assms(2) by (simp add: hd_conv_nth)
qed

text \<open>The header's first instruction is accepted unless it is an entry already.\<close>

lemma header_accepted:
  assumes "loopCFG L h" "leastFlowSolution L h OUT" "F \<subseteq> set (loopInstructions L)"
    and "\<not> acceptEntry L OUT ss F h"
  shows "h \<in> F"
proof -
  have "beforeInstructions L OUT h = {}"
    using header_not_reached[OF assms(2)] by (auto simp: mem_beforeInstructions)
  then have "isDominatedByOtherEntry L F h"
    using assms(1,4) by (simp add: acceptEntry_def checkIfBeforeEntryFrontier_def loopCFG_def)
  then show ?thesis
    using assms(1,3) unfolding isDominatedByOtherEntry_def loopCFG_def by blast
qed

lemma acceptEntry_unaffected:
  assumes "loopCFG L h" "flowSolution L h OUT" "iterationPath L h path" "k < length path"
    and "checkIfBeforeEntryFrontier L OUT ss (path ! k)" "m < k" "path ! m \<noteq> path ! k"
  shows "path ! m \<notin> ss"
proof -
  have "path ! m \<in> set (loopInstructions L)" "path ! k \<in> set (loopInstructions L)"
    using assms(3,4,6) nth_mem[of m path] nth_mem[of k path] unfolding iterationPath_def by auto
  then have "path ! m \<in> beforeInstructions L OUT (path ! k)"
    using iterationPath_reaches[OF assms(1-3,6,4)] assms(7) by (simp add: mem_beforeInstructions)
  then show ?thesis using assms(5,7) unfolding checkIfBeforeEntryFrontier_def by blast
qed

lemma entry_before_segment:
  assumes cfg: "loopCFG L h" and flow: "leastFlowSolution L h OUT"
    and path: "iterationPath L h path"
    and last: "last path \<in> ss" and ss: "\<forall>i \<in> ss. \<not> skippable L i"
    and sub: "R \<subseteq> set (loopInstructions L)"
    and point: "point = getFrontierInstructionThatDoesNotSplitPHIs L"
    and ex: "\<exists>k < length path. accepted_in (acceptEntry L OUT ss) R (path ! k) \<and> point (path ! k) \<in> R"
  shows "\<exists>k < length path. path ! k \<in> R \<and> (\<forall>m < k. path ! m \<notin> ss)"
proof -
  define Q where "Q k \<longleftrightarrow> k < length path \<and> checkIfBeforeEntryFrontier L OUT ss (path ! k) \<and>
    point (path ! k) \<in> R" for k
  obtain k0 where "Q k0" using ex unfolding Q_def accepted_in_def acceptEntry_def by blast
  define k where "k = (LEAST k. Q k)"
  have Qk: "Q k" using LeastI[of Q, OF \<open>Q k0\<close>] by (simp add: k_def)
  have distinct: "path ! m \<noteq> path ! k" if "m < k" for m
  proof
    assume "path ! m = path ! k"
    then have "Q m" using Qk that unfolding Q_def by simp
    then show False using not_less_Least that unfolding k_def by blast
  qed
  have solution: "flowSolution L h OUT" using flow by (simp add: leastFlowSolution_def)
  have before: "\<forall>m < k. path ! m \<notin> ss"
    using acceptEntry_unaffected[OF cfg solution path] Qk distinct unfolding Q_def by blast
  have "\<not> skippable L (last path)" using last ss by blast
  then obtain m where m: "k \<le> m" "m < length path" "path ! m = point (path ! k)"
    "\<forall>l. k \<le> l \<and> l < m \<longrightarrow> skippable L (path ! l)"
    using skippable_run_reaches_point[OF cfg path] Qk unfolding Q_def point by blast
  have "\<forall>l < m. path ! l \<notin> ss" using before m(4) ss by (meson not_le)
  then show ?thesis using m Qk unfolding Q_def by auto
qed

lemma extend_frontier_grows:
  "fold (extendFrontier L OUT) unreachable (R, S) = (entries, exits) \<Longrightarrow>
     R \<subseteq> entries \<and> S \<subseteq> exits \<and>
     exits \<subseteq> S \<union> getFrontierInstructionThatDoesNotSplitPHIs L ` set unreachable"
proof (induction unreachable arbitrary: R S)
  case (Cons i unreachable)
  obtain R' S' where RS: "extendFrontier L OUT i (R, S) = (R', S')" by force
  then have "R \<subseteq> R'" "S \<subseteq> S'" "S' \<subseteq> insert (getFrontierInstructionThatDoesNotSplitPHIs L i) S"
    by (auto simp: extendFrontier_def Let_def split: if_splits)
  then show ?case using Cons.IH[of R' S'] Cons.prems RS by auto
qed simp

text \<open>The parts of a constructed segment.\<close>

definition nonPHIs :: "seg_loop \<Rightarrow> nat list \<Rightarrow> nat list" where
  "nonPHIs L instructions = filter (\<lambda>i. \<not> isPHI L i) instructions"

lemma SequentialSegment_new_parts:
  assumes "SequentialSegment_new L OUT instructions unreachable fuel = Some (Inr (entries, exits))"
  obtains R S where
    "frontierTraversal (acceptEntry L OUT (set (nonPHIs L instructions))) (stepBack L)
       (getFrontierInstructionThatDoesNotSplitPHIs L) fuel (nonPHIs L instructions) {} {} = Some R"
    "frontierTraversal (acceptExit L OUT (set (nonPHIs L instructions))) (stepForward L)
       (getFrontierInstructionThatDoesNotSplitPHIs L) fuel (nonPHIs L instructions) {} {} = Some S"
    "R \<subseteq> entries"
    "exits \<subseteq> S \<union> getFrontierInstructionThatDoesNotSplitPHIs L ` set unreachable \<union> set (returnsFromFunction L)"
proof -
  obtain E X where EX: "determineEntryAndExitFrontier L OUT (nonPHIs L instructions) unreachable fuel = Some (E, X)"
    "entries = E" "exits = X \<union> set (returnsFromFunction L)"
    using assms by (auto simp: SequentialSegment_new_def nonPHIs_def Let_def split: option.splits if_splits)
  then obtain R S where
    R: "frontierTraversal (acceptEntry L OUT (set (nonPHIs L instructions))) (stepBack L)
       (getFrontierInstructionThatDoesNotSplitPHIs L) fuel (nonPHIs L instructions) {} {} = Some R" and
    S: "frontierTraversal (acceptExit L OUT (set (nonPHIs L instructions))) (stepForward L)
       (getFrontierInstructionThatDoesNotSplitPHIs L) fuel (nonPHIs L instructions) {} {} = Some S" and
    fold: "fold (extendFrontier L OUT) unreachable (R, S) = (E, X)"
    by (auto simp: determineEntryAndExitFrontier_def Let_def split: option.splits)
  show thesis
    using that[OF R S] extend_frontier_grows[OF fold] EX(2,3) by auto
qed

lemma frontier_entries_in_loop:
  assumes "loopCFG L h"
    and "frontierTraversal (acceptEntry L OUT ss) (stepBack L)
       (getFrontierInstructionThatDoesNotSplitPHIs L) fuel queue {} {} = Some R"
  shows "R \<subseteq> set (loopInstructions L)"
proof
  fix p assume "p \<in> R"
  then obtain i where "accepted_in (acceptEntry L OUT ss) R i"
    "p = getFrontierInstructionThatDoesNotSplitPHIs L i"
    using frontierTraversal_points[OF assms(2)] by auto
  then show "p \<in> set (loopInstructions L)"
    using assms(1) unfolding accepted_in_def acceptEntry_def loopCFG_def by blast
qed

lemma iterationPath_starts: "iterationPath L h path \<Longrightarrow> path \<noteq> [] \<and> path ! 0 = h"
  by (auto simp: iterationPath_def hd_conv_nth)

text \<open>
  HELIX waits for a sequential segment before it: on every path of an iteration, from the header to
  an instruction of the segment that is not a PHI node, there is an entry of the segment, where the
  wait is placed, and no instruction of the segment comes before it.
\<close>
lemma segment_waits_first:
  assumes "loopCFG L h" and "leastFlowSolution L h OUT"
    and "SequentialSegment_new L OUT instructions unreachable fuel = Some (Inr (entries, exits))"
    and "\<forall>i \<in> set (nonPHIs L instructions). \<not> skippable L i"
    and "iterationPath L h path" and "last path \<in> set (nonPHIs L instructions)"
  shows "\<exists>k < length path. path ! k \<in> entries \<and> (\<forall>m < k. path ! m \<notin> set (nonPHIs L instructions))"
proof -
  let ?ss = "set (nonPHIs L instructions)"
  let ?point = "getFrontierInstructionThatDoesNotSplitPHIs L"
  obtain R where R: "frontierTraversal (acceptEntry L OUT ?ss) (stepBack L) ?point fuel
      (nonPHIs L instructions) {} {} = Some R" and sub: "R \<subseteq> entries"
    using SequentialSegment_new_parts[OF assms(3)] by metis
  obtain W where W: "?ss \<subseteq> W" "\<forall>i \<in> W. traversed (acceptEntry L OUT ?ss) (stepBack L) ?point W R i"
    using frontierTraversal_visits[OF R] by auto
  note inloop = frontier_entries_in_loop[OF assms(1) R]
  note h = iterationPath_starts[OF assms(5)]
  have cfgp: "cfgPath L path" using assms(5) by (simp add: iterationPath_def)
  have lastW: "last path \<in> W" using assms(6) W(1) by blast
  consider "\<exists>k < length path. accepted_in (acceptEntry L OUT ?ss) R (path ! k) \<and> ?point (path ! k) \<in> R"
    | "refused_in (acceptEntry L OUT ?ss) R (hd path)"
    using path_meets_accepted[OF cfgp _ lastW W(2)] h by blast
  then have "\<exists>k < length path. path ! k \<in> R \<and> (\<forall>m < k. path ! m \<notin> ?ss)"
  proof cases
    case 1
    show ?thesis by (rule entry_before_segment[OF assms(1,2,5,6,4) inloop refl 1])
  next
    case 2
    then obtain F where F: "F \<subseteq> R" "\<not> acceptEntry L OUT ?ss F h"
      using h unfolding refused_in_def by (metis hd_conv_nth)
    then have "h \<in> R" using header_accepted[OF assms(1,2) _ F(2)] inloop by blast
    then show ?thesis using h by (intro exI[of _ 0]) auto
  qed
  then show ?thesis using sub by blast
qed

section \<open>No segment after a signal\<close>

lemma point_after_exit:
  assumes "loopCFG L h" "flowSolution L h OUT" "i \<in> set (loopInstructions L)"
    and "checkIfAfterExitFrontier OUT ss i" "\<forall>i \<in> ss. \<not> skippable L i \<and> \<not> isPHI L i"
  shows "OUT (getFrontierInstructionThatDoesNotSplitPHIs L i) \<inter> ss
      \<subseteq> {getFrontierInstructionThatDoesNotSplitPHIs L i}"
proof (cases "skippable L i")
  case True
  then have "OUT (firstNonPHIOrDbgOrLifetime L i) \<subseteq> OUT i"
    using leadsTo_OUT assms(1-3) unfolding loopCFG_def by blast
  then have "OUT (firstNonPHIOrDbgOrLifetime L i) \<inter> ss \<subseteq> {i}"
    using assms(4) unfolding checkIfAfterExitFrontier_def by blast
  then show ?thesis
    using True assms(5) by (auto simp: getFrontierInstructionThatDoesNotSplitPHIs_def)
qed (use assms(4) in \<open>auto simp: checkIfAfterExitFrontier_def getFrontierInstructionThatDoesNotSplitPHIs_def\<close>)

lemma exit_ends_segment:
  assumes "loopCFG L h" and "leastFlowSolution L h OUT"
    and "SequentialSegment_new L OUT instructions unreachable fuel = Some (Inr (entries, exits))"
    and "\<forall>i \<in> set (nonPHIs L instructions). \<not> skippable L i"
    and "\<forall>i \<in> set unreachable. i \<in> set (loopInstructions L) \<and>
           unreachableToAndFromSS L OUT (set (nonPHIs L instructions)) i"
    and "e \<in> exits"
  shows "OUT e \<inter> set (nonPHIs L instructions) \<subseteq> {e}"
proof -
  let ?ss = "set (nonPHIs L instructions)"
  let ?point = "getFrontierInstructionThatDoesNotSplitPHIs L"
  obtain S where S: "frontierTraversal (acceptExit L OUT ?ss) (stepForward L) ?point fuel
      (nonPHIs L instructions) {} {} = Some S"
    and sub: "exits \<subseteq> S \<union> ?point ` set unreachable \<union> set (returnsFromFunction L)"
    using SequentialSegment_new_parts[OF assms(3)] by metis
  have solution: "flowSolution L h OUT" using assms(2) by (simp add: leastFlowSolution_def)
  have ss: "\<forall>i \<in> ?ss. \<not> skippable L i \<and> \<not> isPHI L i" using assms(4) by (simp add: nonPHIs_def)
  have at_point: ?thesis
    if "i \<in> set (loopInstructions L)" "checkIfAfterExitFrontier OUT ?ss i" "e = ?point i" for i
    using point_after_exit[OF assms(1) solution that(1,2) ss] that(3) by simp
  consider "e \<in> S" | i where "i \<in> set unreachable" "e = ?point i" | "e \<in> set (returnsFromFunction L)"
    using sub assms(6) by blast
  then show ?thesis
  proof cases
    case 1
    then obtain i where "accepted_in (acceptExit L OUT ?ss) S i" "e = ?point i"
      using frontierTraversal_points[OF S] by auto
    then have "inRootLoop L i" "checkIfAfterExitFrontier OUT ?ss i"
      unfolding accepted_in_def acceptExit_def by blast+
    moreover from this have "i \<in> set (loopInstructions L)" using assms(1) by (simp add: loopCFG_def)
    ultimately show ?thesis using at_point \<open>e = ?point i\<close> by blast
  next
    case 2
    then have "i \<in> set (loopInstructions L)" "checkIfAfterExitFrontier OUT ?ss i"
      using assms(5) by (auto simp: unreachableToAndFromSS_def)
    then show ?thesis by (rule at_point) (rule 2(2))
  next
    case 3
    then have "stepForward L e = []" using assms(1) unfolding loopCFG_def by blast
    then have "OUT e = {}" by (rule flowSolution_stop[OF solution])
    then show ?thesis by simp
  qed
qed

text \<open>
  C9: HELIX signals a sequential segment only when it is over: after an exit of the segment, where the
  signal is placed, no other instruction of the segment can run in the same iteration.
\<close>
theorem segment_signals_last:
  assumes "loopCFG L h" and "leastFlowSolution L h OUT"
    and "SequentialSegment_new L OUT instructions unreachable fuel = Some (Inr (entries, exits))"
    and "\<forall>i \<in> set (nonPHIs L instructions). \<not> skippable L i"
    and "\<forall>i \<in> set unreachable. i \<in> set (loopInstructions L) \<and>
           unreachableToAndFromSS L OUT (set (nonPHIs L instructions)) i"
    and "e \<in> exits"
  shows "OUT e \<inter> set (nonPHIs L instructions) \<subseteq> {e}"
  by (rule exit_ends_segment[OF assms])

section \<open>The traversals end\<close>

lemma frontierTraversal_ends:
  assumes "finite U" "\<forall>i \<in> U. set (neighbours i) \<subseteq> U" "set queue \<subseteq> U"
    and "length queue + (\<Sum>i \<in> U - V. length (neighbours i)) \<le> fuel"
  shows "frontierTraversal accept neighbours point fuel queue V F \<noteq> None"
  using assms
proof (induction accept neighbours point fuel queue V F rule: frontierTraversal.induct)
  case (3 accept neighbours point fuel i queue V F)
  show ?case
  proof (cases "i \<in> V")
    case False
    then have "U - V = insert i (U - insert i V)" using 3(6) by auto
    then have "(\<Sum>i \<in> U - V. length (neighbours i)) =
        length (neighbours i) + (\<Sum>i \<in> U - insert i V. length (neighbours i))"
      using 3(4) by (metis Diff_iff finite_Diff insertI1 sum.insert)
    then show ?thesis using 3 False by auto
  qed (use 3 in auto)
qed simp_all

lemma frontier_fuel:
  assumes "set instructions \<subseteq> set U" "\<forall>i \<in> set U. set (neighbours i) \<subseteq> set U"
    and "length instructions + (\<Sum>i \<in> set U. length (neighbours i)) \<le> fuel"
  shows "\<exists>R. frontierTraversal accept neighbours point fuel (nonPHIs L instructions) {} {} = Some R"
proof -
  have "set (nonPHIs L instructions) \<subseteq> set U" using assms(1) by (auto simp: nonPHIs_def)
  moreover have "length (nonPHIs L instructions) \<le> length instructions" by (simp add: nonPHIs_def)
  ultimately show ?thesis
    using frontierTraversal_ends[of "set U" neighbours "nonPHIs L instructions" "{}" fuel accept point "{}"]
      assms(2,3) by auto
qed

text \<open>
  The construction of a sequential segment ends: when \<open>U\<close> lists instructions that contain the
  segment and are closed under predecessors and successors, as the instructions of a function are, the
  two traversals take at most one step for each instruction of the segment and each edge.
\<close>
theorem segment_construction_ends:
  assumes "set instructions \<subseteq> set U"
    and "\<forall>i \<in> set U. set (stepBack L i) \<subseteq> set U \<and> set (stepForward L i) \<subseteq> set U"
    and "length instructions + (\<Sum>i \<in> set U. length (stepBack L i)) \<le> fuel"
    and "length instructions + (\<Sum>i \<in> set U. length (stepForward L i)) \<le> fuel"
  shows "SequentialSegment_new L OUT instructions unreachable fuel \<noteq> None"
proof -
  let ?point = "getFrontierInstructionThatDoesNotSplitPHIs L"
  obtain R where R: "frontierTraversal (acceptEntry L OUT (set (nonPHIs L instructions))) (stepBack L) ?point
      fuel (nonPHIs L instructions) {} {} = Some R"
    using frontier_fuel[OF assms(1) _ assms(3)] assms(2) by blast
  obtain S where S: "frontierTraversal (acceptExit L OUT (set (nonPHIs L instructions))) (stepForward L) ?point
      fuel (nonPHIs L instructions) {} {} = Some S"
    using frontier_fuel[OF assms(1) _ assms(4)] assms(2) by blast
  show ?thesis using R S
    by (simp add: SequentialSegment_new_def determineEntryAndExitFrontier_def nonPHIs_def Let_def
        split: prod.splits)
qed

section \<open>A loop with a conditional update\<close>

text \<open>
  The loop \<open>do { t = load p; if (t < x) store p; } while (..)\<close>: the header loads (0) and branches (1)
  to the block of the store (2), which jumps (3) to the latch, or to the latch directly; the latch
  (4) goes on to the header or to the exit (5). Instruction 6 ends the preheader.
\<close>

definition updateLoop :: seg_loop where
  "updateLoop = \<lparr>
     blocks = [[0, 1], [2, 3], [4]],
     prevInst = (\<lambda>i. if i = 1 then Some 0 else if i = 3 then Some 2 else None),
     nextInst = (\<lambda>i. if i = 0 then Some 1 else if i = 2 then Some 3 else None),
     predecessorTerminators = (\<lambda>i. if i = 0 then [6, 4] else if i = 2 then [1] else if i = 4 then [1, 3]
                                   else if i = 5 then [4] else []),
     successorFirsts = (\<lambda>i. if i = 1 then [2, 4] else if i = 3 then [4] else if i = 4 then [0, 5]
                            else if i = 6 then [0] else []),
     inRootLoop = (\<lambda>i. i \<le> 4),
     isPHI = (\<lambda>i. False),
     skippable = (\<lambda>i. False),
     firstNonPHIOrDbgOrLifetime = (\<lambda>i. i),
     dominates = (\<lambda>i j. i = 0 \<and> j \<le> 5 \<or> i = 1 \<and> 1 \<le> j \<and> j \<le> 5 \<or> i = 2 \<and> (j = 2 \<or> j = 3) \<or>
                        i = 3 \<and> j = 3 \<or> i = 4 \<and> (j = 4 \<or> j = 5) \<or> i = 6),
     returnsFromFunction = []\<rparr>"

definition updateOUT :: "nat \<Rightarrow> nat set" where
  "updateOUT i = (if i = 0 then {1, 2, 3, 4, 5} else if i = 1 then {2, 3, 4, 5} else if i = 2 then {3, 4, 5}
                  else if i = 3 then {4, 5} else if i = 4 then {5} else {})"

lemma updateOUT_least: "leastFlowSolution updateLoop 0 updateOUT"
proof -
  have "flowSolution updateLoop 0 updateOUT"
    by (auto simp: flowSolution_iff updateOUT_def updateLoop_def stepForward_def)
  moreover have "updateOUT i \<subseteq> OUT i" if sol: "flowSolution updateLoop 0 OUT" for OUT i
  proof -
    note step = flowSolution_step[OF sol]
    have "5 \<in> OUT 4" "4 \<in> OUT 3" "OUT 4 \<subseteq> OUT 3" "3 \<in> OUT 2" "OUT 3 \<subseteq> OUT 2"
      "2 \<in> OUT 1" "OUT 2 \<subseteq> OUT 1" "1 \<in> OUT 0" "OUT 1 \<subseteq> OUT 0"
      by (rule step; simp add: updateLoop_def stepForward_def)+
    then show ?thesis by (auto simp: updateOUT_def)
  qed
  ultimately show ?thesis unfolding leastFlowSolution_def by blast
qed

lemma updateLoop_cfg: "loopCFG updateLoop 0"
  by (auto simp: loopCFG_def updateLoop_def loopInstructions_def stepBack_def stepForward_def
      getFrontierInstructionThatDoesNotSplitPHIs_def)

lemma updateLoop_segment:
  "SequentialSegment_new updateLoop updateOUT [0, 2] [] 12 = Some (Inr ({0}, {2}))"
  "SequentialSegment_new updateLoop updateOUT [2, 0] [] 12 = Some (Inr ({0}, {2}))"
  by code_simp+

lemma updateLoop_unreachable:
  "filter (unreachableToAndFromSS updateLoop updateOUT {0, 2}) (map hd (blocks updateLoop)) = []"
  by (simp add: updateLoop_def unreachableToAndFromSS_def checkIfBeforeEntryFrontier_def
      beforeInstructions_def loopInstructions_def updateOUT_def)

text \<open>
  The exits can miss a path. In the loop above, with the load and the store in one segment and
  whichever comes first in the set of its instructions, the only exit is the store: the latch is not
  one because the store reaches it. The iteration that does not store waits for the segment at the
  load and goes on to the next iteration without a signal.
\<close>
lemma segment_exit_missed:
  "loopCFG updateLoop 0 \<and> leastFlowSolution updateLoop 0 updateOUT \<and>
   filter (unreachableToAndFromSS updateLoop updateOUT {0, 2}) (map hd (blocks updateLoop)) = [] \<and>
   SequentialSegment_new updateLoop updateOUT [0, 2] [] 12 = Some (Inr ({0}, {2})) \<and>
   SequentialSegment_new updateLoop updateOUT [2, 0] [] 12 = Some (Inr ({0}, {2})) \<and>
   iterationPath updateLoop 0 [0, 1, 4] \<and> 0 \<in> set (stepForward updateLoop 4) \<and>
   set [0, 1, 4] \<inter> {2 :: nat} = {}"
proof -
  have "iterationPath updateLoop 0 [0, 1, 4]" "0 \<in> set (stepForward updateLoop 4)"
    by (simp_all add: iterationPath_def updateLoop_def loopInstructions_def stepBack_def stepForward_def)
  then show ?thesis
    using updateLoop_cfg updateOUT_least updateLoop_segment updateLoop_unreachable
    by simp
qed

lemma segment_signals_last_witness:
  "updateOUT 2 \<inter> {0, 2} \<subseteq> {2}"
  using segment_signals_last[OF updateLoop_cfg updateOUT_least updateLoop_segment(1), of 2]
  by (simp add: updateLoop_def nonPHIs_def)

lemma segment_construction_ends_witness:
  "SequentialSegment_new updateLoop updateOUT [0, 2] [] 12 \<noteq> None"
  by (rule segment_construction_ends[of _ "[0, 1, 2, 3, 4, 5, 6]"])
    (simp_all add: updateLoop_def stepBack_def stepForward_def)

end
