(* ===== verification/Helix_Identify.thy ===== *)
theory Helix_Identify
  imports Segment_Coverage
begin

text \<open>
  Which components of the task get a sequential segment (\<open>helix/src/HELIX_sequentialSegments.cpp\<close>), the
  sequential prologue (\<open>HELIX_prologue.cpp\<close>) and the check of \<open>synchronizeTask\<close> that gives up on a
  segment as long as the loop (\<open>HELIX_parallelization.cpp\<close>).
\<close>

section \<open>From components of the task to components of the original loop\<close>

text \<open>The kinds of component the code tells apart; every other one is \<open>OtherSCC\<close>.\<close>

datatype sccKind = LoopCarriedUnknownSCC | UnknownClosedFormSCC | OtherSCC

text \<open>
  \<open>std::unordered_map::insert\<close> keeps the value of a key that is present.
\<close>

definition insertAbsent :: "'a \<Rightarrow> 'b \<Rightarrow> ('a \<Rightarrow> 'b option) \<Rightarrow> 'a \<Rightarrow> 'b option" where
  "insertAbsent k v m = (if m k = None then m(k \<mapsto> v) else m)"

text \<open>
  The loop over the spills: the component of the spilled value in the original loop and the component
  of its first store in the task.
\<close>

fun mapSpills ::
    "(nat option \<times> nat option) list \<Rightarrow> nat set \<Rightarrow> (nat \<Rightarrow> nat option) \<Rightarrow> (nat set \<times> (nat \<Rightarrow> nat option)) result" where
  "mapSpills [] spillSCCs m = Inr (spillSCCs, m)"
| "mapSpills ((Some originalSpillSCC, Some clonedSpillSCC) # spills) spillSCCs m =
     mapSpills spills (insert originalSpillSCC spillSCCs) (insertAbsent clonedSpillSCC originalSpillSCC m)"
| "mapSpills (spill # spills) spillSCCs m = Inl AssertionFailed"

text \<open>The first instruction of the component that has a clone within the loop of the task.\<close>

fun anyClonedInstInLoop :: "(nat \<Rightarrow> nat option) \<Rightarrow> (nat \<Rightarrow> bool) \<Rightarrow> nat list \<Rightarrow> nat option" where
  "anyClonedInstInLoop clone isIncluded [] = None"
| "anyClonedInstInLoop clone isIncluded (i # is) =
     (case clone i of
        None \<Rightarrow> anyClonedInstInLoop clone isIncluded is
      | Some c \<Rightarrow> if isIncluded c then Some c else anyClonedInstInLoop clone isIncluded is)"

text \<open>The component of the task that contains it: there must be exactly one.\<close>

fun singleMappingSCC :: "(nat \<Rightarrow> nat \<Rightarrow> bool) \<Rightarrow> nat \<Rightarrow> nat list \<Rightarrow> nat option \<Rightarrow> nat result" where
  "singleMappingSCC isInternal c [] None = Inl AssertionFailed"
| "singleMappingSCC isInternal c [] (Some single) = Inr single"
| "singleMappingSCC isInternal c (taskSCC # taskSCCs) single =
     (if \<not> isInternal taskSCC c then singleMappingSCC isInternal c taskSCCs single
      else if single \<noteq> None then Inl AssertionFailed
      else singleMappingSCC isInternal c taskSCCs (Some taskSCC))"

fun mapOriginalSCCs ::
    "(nat \<Rightarrow> nat option) \<Rightarrow> (nat \<Rightarrow> bool) \<Rightarrow> (nat \<Rightarrow> nat list) \<Rightarrow> (nat \<Rightarrow> nat \<Rightarrow> bool) \<Rightarrow> nat list \<Rightarrow> nat set \<Rightarrow>
     nat list \<Rightarrow> (nat \<Rightarrow> nat option) \<Rightarrow> (nat \<Rightarrow> nat option) result" where
  "mapOriginalSCCs clone isIncluded internals isInternal taskSCCs spillSCCs [] m = Inr m"
| "mapOriginalSCCs clone isIncluded internals isInternal taskSCCs spillSCCs (originalSCC # originals) m =
     (if originalSCC \<in> spillSCCs
      then mapOriginalSCCs clone isIncluded internals isInternal taskSCCs spillSCCs originals m
      else case anyClonedInstInLoop clone isIncluded (internals originalSCC) of
        None \<Rightarrow> mapOriginalSCCs clone isIncluded internals isInternal taskSCCs spillSCCs originals m
      | Some c \<Rightarrow>
          (case singleMappingSCC isInternal c taskSCCs None of
             Inl e \<Rightarrow> Inl e
           | Inr taskSCC \<Rightarrow>
               mapOriginalSCCs clone isIncluded internals isInternal taskSCCs spillSCCs originals
                 (insertAbsent taskSCC originalSCC m)))"

section \<open>The segments\<close>

text \<open>Whether the component has to run sequentially, as the innermost loop decides it.\<close>

definition sccRequiresSS ::
    "bool \<Rightarrow> nat set \<Rightarrow> (nat \<Rightarrow> sccKind) \<Rightarrow> (nat \<Rightarrow> sccKind) \<Rightarrow> (nat \<Rightarrow> nat option) \<Rightarrow> nat \<Rightarrow> bool" where
  "sccRequiresSS wasOriginalLoopIVGoverned depsSCCs taskKind originalKind m scc =
     (let kind = (case m scc of None \<Rightarrow> taskKind scc | Some originalSCC \<Rightarrow> originalKind originalSCC) in
      if wasOriginalLoopIVGoverned \<and> scc \<notin> depsSCCs then False
      else kind = LoopCarriedUnknownSCC \<or> kind = UnknownClosedFormSCC)"

fun requireSS :: "(nat \<Rightarrow> bool) \<Rightarrow> nat list \<Rightarrow> bool" where
  "requireSS sccRequires [] = False"
| "requireSS sccRequires (scc # sccs) = (if sccRequires scc then True else requireSS sccRequires sccs)"

record segment =
  segment_ID :: nat
  segment_sccs :: "nat list"
  segment_entries :: "nat set"
  segment_exits :: "nat set"

text \<open>
  The loop over the depth-ordered sets of the partition. \<open>new\<close> is the constructor, applied to a set;
  \<open>None\<close> is its running out of fuel.
\<close>

fun allocateSegments ::
    "(nat list \<Rightarrow> (nat set \<times> nat set) result option) \<Rightarrow> (nat list \<Rightarrow> bool) \<Rightarrow> nat \<Rightarrow> nat list list \<Rightarrow>
     segment list result option" where
  "allocateSegments new require ssID [] = Some (Inr [])"
| "allocateSegments new require ssID (sccs # sets) =
     (if \<not> require sccs then allocateSegments new require ssID sets
      else case new sccs of
        None \<Rightarrow> None
      | Some (Inl e) \<Rightarrow> Some (Inl e)
      | Some (Inr (entries, exits)) \<Rightarrow>
          (case allocateSegments new require (Suc ssID) sets of
             Some (Inr sss) \<Rightarrow> Some (Inr (\<lparr>segment_ID = ssID, segment_sccs = sccs,
                                           segment_entries = entries, segment_exits = exits\<rparr> # sss))
           | r \<Rightarrow> r))"

text \<open>\<open>getInstructions\<close>, and the constructor applied to a set of components.\<close>

definition getInstructions :: "(nat \<Rightarrow> nat list) \<Rightarrow> nat list \<Rightarrow> nat list" where
  "getInstructions internalsOf sccs = remdups (concat (map internalsOf sccs))"

definition newSegment ::
    "seg_loop \<Rightarrow> (nat \<Rightarrow> nat set) \<Rightarrow> (nat \<Rightarrow> nat list) \<Rightarrow> nat \<Rightarrow> nat list \<Rightarrow> (nat set \<times> nat set) result option" where
  "newSegment L OUT internalsOf fuel sccs =
     (let instructions = getInstructions internalsOf sccs in
      SequentialSegment_new L OUT instructions
        (filter (unreachableToAndFromSS L OUT (set (filter (\<lambda>i. \<not> isPHI L i) instructions))) (map hd (blocks L)))
        fuel)"

text \<open>
  \<open>identifySequentialSegments\<close>. What the SCC managers of the two loops, the task and the partitioner
  answer is in the record.
\<close>

record helix_sccs =
  spills :: "(nat option \<times> nat option) list"
  originalSCCs :: "nat list"
  taskSCCs :: "nat list"
  internalsOfOriginal :: "nat \<Rightarrow> nat list"
  internalsOfTask :: "nat \<Rightarrow> nat list"
  getCloneOfOriginalInstruction :: "nat \<Rightarrow> nat option"
  originalKind :: "nat \<Rightarrow> sccKind"
  taskKind :: "nat \<Rightarrow> sccKind"
  wasOriginalLoopIVGoverned :: bool
  depsSCCs :: "nat set"
  depthOrderedSets :: "nat list list"

definition taskToOriginalFunctionSCCMap :: "helix_sccs \<Rightarrow> seg_loop \<Rightarrow> (nat \<Rightarrow> nat option) result" where
  "taskToOriginalFunctionSCCMap H L =
     (case mapSpills (spills H) {} (\<lambda>_. None) of
        Inl e \<Rightarrow> Inl e
      | Inr (spillSCCs, m) \<Rightarrow>
          mapOriginalSCCs (getCloneOfOriginalInstruction H) (\<lambda>c. c \<in> set (loopInstructions L))
            (internalsOfOriginal H) (\<lambda>scc c. c \<in> set (internalsOfTask H scc)) (taskSCCs H) spillSCCs
            (originalSCCs H) m)"

definition identifySequentialSegments ::
    "helix_sccs \<Rightarrow> seg_loop \<Rightarrow> (nat \<Rightarrow> nat set) \<Rightarrow> nat \<Rightarrow> segment list result option" where
  "identifySequentialSegments H L OUT fuel =
     (case taskToOriginalFunctionSCCMap H L of
        Inl e \<Rightarrow> Some (Inl e)
      | Inr m \<Rightarrow>
          allocateSegments (newSegment L OUT (internalsOfTask H) fuel)
            (requireSS (sccRequiresSS (wasOriginalLoopIVGoverned H) (depsSCCs H) (taskKind H) (originalKind H) m))
            0 (depthOrderedSets H))"

section \<open>The prologue\<close>

text \<open>
  \<open>getTheSequentialSCCThatCreatesTheSequentialPrologue\<close>: the source component of the SCCDAG, when it
  has to run sequentially and contains an exit of the loop.
\<close>

definition getTheSequentialSCCThatCreatesTheSequentialPrologue ::
    "nat list \<Rightarrow> (nat \<Rightarrow> sccKind) \<Rightarrow> (nat \<Rightarrow> nat list) \<Rightarrow> (nat \<Rightarrow> bool) \<Rightarrow> nat option result" where
  "getTheSequentialSCCThatCreatesTheSequentialPrologue topLevelSCCs kindOf internalsOf isALoopExit =
     (case topLevelSCCs of
        [] \<Rightarrow> Inr None
      | [preambleSCC] \<Rightarrow>
          Inr (if kindOf preambleSCC = LoopCarriedUnknownSCC \<and> list_ex isALoopExit (internalsOf preambleSCC)
               then Some preambleSCC else None)
      | _ \<Rightarrow> Inl AssertionFailed)"

definition doesHaveASequentialPrologue ::
    "bool \<Rightarrow> nat list \<Rightarrow> (nat \<Rightarrow> sccKind) \<Rightarrow> (nat \<Rightarrow> nat list) \<Rightarrow> (nat \<Rightarrow> bool) \<Rightarrow> bool result" where
  "doesHaveASequentialPrologue hasLoopGoverningIV topLevelSCCs kindOf internalsOf isALoopExit =
     (if \<not> hasLoopGoverningIV then Inr True
      else case getTheSequentialSCCThatCreatesTheSequentialPrologue topLevelSCCs kindOf internalsOf isALoopExit of
        Inl e \<Rightarrow> Inl e
      | Inr seqSCC \<Rightarrow> Inr (seqSCC \<noteq> None))"

section \<open>Giving up\<close>

text \<open>
  The check of \<open>synchronizeTask\<close>, on the blocks of the entries of each segment: both flags are computed
  from the entries.
\<close>

definition segmentRejects :: "nat \<Rightarrow> nat set \<Rightarrow> nat set \<Rightarrow> bool" where
  "segmentRejects loopHeader loopLatches entryBlocks \<longleftrightarrow>
     (let entryAtHeader = (\<exists>b \<in> entryBlocks. b = loopHeader);
          exitAtLatch = (\<exists>b \<in> entryBlocks. b \<in> loopLatches)
      in entryAtHeader \<and> exitAtLatch)"

fun worthParallelizing :: "bool \<Rightarrow> nat \<Rightarrow> nat set \<Rightarrow> (nat \<Rightarrow> nat) \<Rightarrow> segment list \<Rightarrow> bool" where
  "worthParallelizing True loopHeader loopLatches getParent sss = True"
| "worthParallelizing False loopHeader loopLatches getParent [] = True"
| "worthParallelizing False loopHeader loopLatches getParent (ss # sss) =
     (if \<not> segmentRejects loopHeader loopLatches (getParent ` segment_entries ss)
      then worthParallelizing False loopHeader loopLatches getParent sss
      else False)"

text \<open>
  A segment from the header to the latch of a loop with two blocks or more is not rejected: its exits
  are not looked at. In a loop of one block every segment is, however short.
\<close>

lemma spanning_segment_kept:
  "SequentialSegment_new updateLoop updateOUT [0, 4] [] 12 = Some (Inr ({0}, {4})) \<and>
   worthParallelizing False 0 {2} (\<lambda>i. if i \<le> 1 then 0 else if i \<le> 3 then 1 else 2)
     [\<lparr>segment_ID = 0, segment_sccs = [0], segment_entries = {0}, segment_exits = {4}\<rparr>]"
  by code_simp

lemma one_block_loop_rejected:
  assumes "segment_entries ss \<noteq> {}" "\<forall>i. getParent i = header"
  shows "\<not> worthParallelizing False header {header} getParent (ss # sss)"
  using assms by (auto simp: segmentRejects_def)

section \<open>What is identified\<close>

lemma allocateSegments_spec:
  "allocateSegments new require ssID sets = Some (Inr sss) \<Longrightarrow>
     map segment_ID sss = [ssID..<ssID + length sss] \<and>
     map segment_sccs sss = filter require sets \<and>
     (\<forall>s \<in> set sss. new (segment_sccs s) = Some (Inr (segment_entries s, segment_exits s)))"
proof (induction sets arbitrary: ssID sss)
  case (Cons sccs sets)
  show ?case
  proof (cases "require sccs")
    case False
    with Cons show ?thesis by simp
  next
    case True
    with Cons.prems obtain entries exits sss' where new: "new sccs = Some (Inr (entries, exits))"
      and rest: "allocateSegments new require (Suc ssID) sets = Some (Inr sss')"
      and sss: "sss = \<lparr>segment_ID = ssID, segment_sccs = sccs, segment_entries = entries,
                      segment_exits = exits\<rparr> # sss'"
      by (auto split: option.splits sum.splits prod.splits)
    show ?thesis using Cons.IH[OF rest] new True sss by (simp add: upt_conv_Cons del: upt_Suc)
  qed
qed simp

lemma requireSS_iff: "requireSS sccRequires sccs \<longleftrightarrow> (\<exists>scc \<in> set sccs. sccRequires scc)"
  by (induction sccs) auto

lemma identified_segment:
  assumes "identifySequentialSegments H L OUT fuel = Some (Inr sss)"
    and "taskToOriginalFunctionSCCMap H L = Inr m"
    and "sccs \<in> set (depthOrderedSets H)" and "scc \<in> set sccs"
    and "sccRequiresSS (wasOriginalLoopIVGoverned H) (depsSCCs H) (taskKind H) (originalKind H) m scc"
  shows "\<exists>k < length sss. segment_ID (sss ! k) = k \<and>
           newSegment L OUT (internalsOfTask H) fuel sccs
             = Some (Inr (segment_entries (sss ! k), segment_exits (sss ! k)))"
proof -
  let ?require = "requireSS (sccRequiresSS (wasOriginalLoopIVGoverned H) (depsSCCs H) (taskKind H) (originalKind H) m)"
  have "allocateSegments (newSegment L OUT (internalsOfTask H) fuel) ?require 0 (depthOrderedSets H) = Some (Inr sss)"
    using assms(1,2) by (simp add: identifySequentialSegments_def)
  note spec = allocateSegments_spec[OF this]
  have "?require sccs" using assms(4,5) requireSS_iff by blast
  then have "sccs \<in> set (map segment_sccs sss)" using spec assms(3) by simp
  then obtain k where k: "k < length sss" "segment_sccs (sss ! k) = sccs" by (auto simp: in_set_conv_nth)
  moreover have "segment_ID (sss ! k) = k"
    using spec k(1) by (metis add_0 nth_map nth_upt)
  moreover have "newSegment L OUT (internalsOfTask H) fuel (segment_sccs (sss ! k))
      = Some (Inr (segment_entries (sss ! k), segment_exits (sss ! k)))"
    using spec nth_mem[OF k(1)] by blast
  ultimately show ?thesis by auto
qed

text \<open>
  C4: sequential code waits. When the analysis says that a component of the task has to run in order
  (through the component of the original loop it comes from, when there is one), the segments contain
  one, numbered by its position in the list, such that on every path of an iteration to an instruction
  of the component that is not a PHI node there is an entry of that segment, where the wait is placed,
  with no instruction of the segment before it.
\<close>
theorem sequential_code_waits:
  assumes "loopCFG L h" and "leastFlowSolution L h OUT"
    and "identifySequentialSegments H L OUT fuel = Some (Inr sss)"
    and "taskToOriginalFunctionSCCMap H L = Inr m"
    and "sccs \<in> set (depthOrderedSets H)" and "scc \<in> set sccs"
    and "sccRequiresSS (wasOriginalLoopIVGoverned H) (depsSCCs H) (taskKind H) (originalKind H) m scc"
    and "\<forall>i \<in> set (nonPHIs L (getInstructions (internalsOfTask H) sccs)). \<not> skippable L i"
    and "iterationPath L h path"
    and "last path \<in> set (internalsOfTask H scc)" and "\<not> isPHI L (last path)"
  shows "\<exists>k < length sss. segment_ID (sss ! k) = k \<and>
           (\<exists>n < length path. path ! n \<in> segment_entries (sss ! k) \<and>
              (\<forall>m < n. path ! m \<notin> set (nonPHIs L (getInstructions (internalsOfTask H) sccs))))"
proof -
  obtain k where k: "k < length sss" "segment_ID (sss ! k) = k"
    and new: "newSegment L OUT (internalsOfTask H) fuel sccs
      = Some (Inr (segment_entries (sss ! k), segment_exits (sss ! k)))"
    using identified_segment[OF assms(3-7)] by blast
  have "last path \<in> set (nonPHIs L (getInstructions (internalsOfTask H) sccs))"
    using assms(6,10,11) by (auto simp: nonPHIs_def getInstructions_def)
  from segment_waits_first[OF assms(1,2) new[unfolded newSegment_def Let_def] assms(8,9) this]
  show ?thesis using k by blast
qed

text \<open>The task of \<open>updateLoop\<close>: the load and the store are one component, the control flow another.\<close>

definition updateSCCs :: helix_sccs where
  "updateSCCs = \<lparr>
     spills = [], originalSCCs = [10, 11], taskSCCs = [20, 21],
     internalsOfOriginal = (\<lambda>scc. if scc = 10 then [100, 102] else [101, 103, 104]),
     internalsOfTask = (\<lambda>scc. if scc = 20 then [0, 2] else [1, 3, 4]),
     getCloneOfOriginalInstruction = (\<lambda>i. Some (i - 100)),
     originalKind = (\<lambda>scc. if scc = 10 then LoopCarriedUnknownSCC else OtherSCC),
     taskKind = (\<lambda>scc. OtherSCC),
     wasOriginalLoopIVGoverned = True,
     depsSCCs = {20},
     depthOrderedSets = [[21], [20]]\<rparr>"

lemma updateSCCs_map:
  "taskToOriginalFunctionSCCMap updateSCCs updateLoop = Inr [20 \<mapsto> 10, 21 \<mapsto> 11]"
  by (simp add: taskToOriginalFunctionSCCMap_def updateSCCs_def insertAbsent_def updateLoop_def
      loopInstructions_def)

lemma updateLoop_isPHI: "\<not> isPHI updateLoop i"
  by (simp add: updateLoop_def)

lemma updateSCCs_segments:
  "identifySequentialSegments updateSCCs updateLoop updateOUT 12 =
     Some (Inr [\<lparr>segment_ID = 0, segment_sccs = [20], segment_entries = {0}, segment_exits = {2}\<rparr>])"
proof -
  have "newSegment updateLoop updateOUT (internalsOfTask updateSCCs) 12 [20] = Some (Inr ({0}, {2}))"
    using updateLoop_unreachable updateLoop_segment(1)
    by (simp add: newSegment_def getInstructions_def updateSCCs_def updateLoop_isPHI)
  then show ?thesis
    by (simp add: identifySequentialSegments_def updateSCCs_map)
       (simp add: updateSCCs_def sccRequiresSS_def)
qed

lemma sequential_code_waits_witness:
  "\<exists>k < Suc 0. \<exists>n < Suc (Suc (Suc 0)). [0, 1, 2] ! n \<in> {0 :: nat} \<and> (\<forall>m < n. [0, 1, 2] ! m \<notin> {0, 2 :: nat})"
  using sequential_code_waits[OF updateLoop_cfg updateOUT_least updateSCCs_segments updateSCCs_map,
      of "[20]" 20 "[0, 1, 2]"]
  by (simp add: updateSCCs_def sccRequiresSS_def getInstructions_def nonPHIs_def iterationPath_def
      updateLoop_def loopInstructions_def stepBack_def)

end
