(* ===== verification/Helix_Sync_Correct.thy ===== *)
theory Helix_Sync_Correct
  imports Helix_Synchronize Helix_Identify "HOL-Library.Sublist"
begin

text \<open>
  What the waits and signals do when a core goes through an iteration: one wait for each segment before
  anything the segment contains, signals behind it, and how a core leaves the loop.
\<close>

section \<open>Order in a list\<close>

definition precedes :: "'a \<Rightarrow> 'a \<Rightarrow> 'a list \<Rightarrow> bool" where
  "precedes x y xs \<longleftrightarrow> (y \<in> set xs \<longrightarrow> x \<in> set (takeWhile (\<lambda>z. z \<noteq> y) xs))"

lemma takeWhile_neq_absent: "y \<notin> set xs \<Longrightarrow> takeWhile (\<lambda>z. z \<noteq> y) (xs @ ys) = xs @ takeWhile (\<lambda>z. z \<noteq> y) ys"
  by (induction xs) auto

lemma takeWhile_neq_present: "y \<in> set xs \<Longrightarrow> takeWhile (\<lambda>z. z \<noteq> y) (xs @ ys) = takeWhile (\<lambda>z. z \<noteq> y) xs"
  by (induction xs) auto

lemma precedes_absent [simp]: "y \<notin> set xs \<Longrightarrow> precedes x y xs"
  by (simp add: precedes_def)

lemma precedes_appendI: "precedes x y xs \<Longrightarrow> precedes x y ys \<Longrightarrow> precedes x y (xs @ ys)"
  by (cases "y \<in> set xs") (auto simp: precedes_def takeWhile_neq_present takeWhile_neq_absent)

lemma precedes_behind: "x \<in> set xs \<Longrightarrow> y \<notin> set xs \<Longrightarrow> precedes x y (xs @ ys)"
  by (simp add: precedes_def takeWhile_neq_absent)

lemma precedes_concat: "(\<And>xs. xs \<in> set xss \<Longrightarrow> precedes x y xs) \<Longrightarrow> precedes x y (concat xss)"
  by (induction xss) (auto intro: precedes_appendI)

lemma precedesD: "precedes x y (xs @ y # ys) \<Longrightarrow> x \<in> set xs \<or> y \<in> set xs"
  by (cases "y \<in> set xs") (auto simp: precedes_def takeWhile_neq_absent)

lemma precedes_first: "precedes x y (xs @ y # ys) \<Longrightarrow> x \<noteq> y \<Longrightarrow> x \<in> set xs"
  by (cases "y \<in> set xs") (auto simp: precedes_def takeWhile_neq_absent takeWhile_neq_present dest: set_takeWhileD)

lemma precedes_trans: "precedes x y xs \<Longrightarrow> precedes y z xs \<Longrightarrow> precedes x z xs"
proof (cases "z \<in> set xs")
  case True
  assume xy: "precedes x y xs" and yz: "precedes y z xs"
  define us where "us = takeWhile (\<lambda>w. w \<noteq> z) xs"
  have "y \<in> set us" using yz True by (simp add: precedes_def us_def)
  moreover have "xs = us @ dropWhile (\<lambda>w. w \<noteq> z) xs" by (simp add: us_def)
  ultimately have "takeWhile (\<lambda>w. w \<noteq> y) xs = takeWhile (\<lambda>w. w \<noteq> y) us" "y \<in> set xs"
    by (metis takeWhile_neq_present, metis Un_iff set_append)
  then have "x \<in> set us" using xy by (auto simp: precedes_def dest: set_takeWhileD)
  then show ?thesis using True by (simp add: precedes_def us_def)
qed simp

lemma split_at: "x \<in> set xs \<Longrightarrow> xs = takeWhile (\<lambda>z. z \<noteq> x) xs @ x # tl (dropWhile (\<lambda>z. z \<noteq> x) xs)"
  by (induction xs) auto

section \<open>Insertions\<close>

text \<open>A list that grows by elements of a set, never at its end.\<close>

inductive grows :: "'a set \<Rightarrow> 'a list \<Rightarrow> 'a list \<Rightarrow> bool" for S where
  same: "grows S xs xs"
| insert_one: "grows S xs (us @ vs) \<Longrightarrow> vs \<noteq> [] \<Longrightarrow> x \<in> S \<Longrightarrow> grows S xs (us @ x # vs)"

lemma grows_trans: "grows S ys zs \<Longrightarrow> grows S xs ys \<Longrightarrow> grows S xs zs"
  by (induction rule: grows.induct) (auto intro: grows.insert_one)

lemma grows_mono: "grows S xs ys \<Longrightarrow> S \<subseteq> T \<Longrightarrow> grows T xs ys"
  by (induction rule: grows.induct) (auto intro: grows.same grows.insert_one)

lemma grows_insert: "vs \<noteq> [] \<Longrightarrow> set new \<subseteq> S \<Longrightarrow> grows S (us @ vs) (us @ new @ vs)"
proof (induction new rule: rev_induct)
  case (snoc x new)
  have "grows S (us @ vs) ((us @ new) @ x # vs)" using snoc by (intro grows.insert_one) auto
  then show ?case by simp
qed (simp add: grows.same)

lemma grows_set: "grows S xs ys \<Longrightarrow> set xs \<subseteq> set ys \<and> set ys \<subseteq> set xs \<union> S"
  by (induction rule: grows.induct) auto

lemma grows_last: "grows S xs ys \<Longrightarrow> last ys = last xs \<and> (ys = [] \<longleftrightarrow> xs = [])"
  by (induction rule: grows.induct) auto

lemma grows_precedes: "grows S xs ys \<Longrightarrow> y \<notin> S \<Longrightarrow> precedes x y xs \<Longrightarrow> precedes x y ys"
proof (induction rule: grows.induct)
  case (insert_one xs us vs z)
  then have "precedes x y (us @ vs)" "z \<noteq> y" by auto
  then show ?case
    by (cases "y \<in> set us") (auto simp: precedes_def takeWhile_neq_present takeWhile_neq_absent)
qed

lemma grows_count: "grows S xs ys \<Longrightarrow> y \<notin> S \<Longrightarrow> count_list ys y = count_list xs y"
  by (induction rule: grows.induct) auto

lemma grows_filter: "grows S xs ys \<Longrightarrow> \<forall>x \<in> S. \<not> P x \<Longrightarrow> filter P ys = filter P xs"
  by (induction rule: grows.induct) auto

text \<open>The same for the code of all blocks.\<close>

definition codeGrows :: "(nat \<Rightarrow> sync_inst set) \<Rightarrow> sync_code \<Rightarrow> sync_code \<Rightarrow> bool" where
  "codeGrows S code code' \<longleftrightarrow> (\<forall>b. grows (S b) (code b) (code' b))"

lemma codeGrows_refl [simp]: "codeGrows S code code" by (simp add: codeGrows_def grows.same)

lemma codeGrows_trans [trans]: "codeGrows S code code' \<Longrightarrow> codeGrows S code' code'' \<Longrightarrow> codeGrows S code code''"
  by (auto simp: codeGrows_def intro: grows_trans)

lemma codeGrows_mono: "codeGrows S code code' \<Longrightarrow> (\<And>b. S b \<subseteq> T b) \<Longrightarrow> codeGrows T code code'"
  by (auto simp: codeGrows_def intro: grows_mono)

lemma codeGrows_upd: "grows (S b) (code b) xs \<Longrightarrow> codeGrows S code (code(b := xs))"
  by (simp add: codeGrows_def grows.same)

lemma codeGrows_fold:
  assumes "\<And>x code. x \<in> set xs \<Longrightarrow> Q code \<Longrightarrow> codeGrows S code (f x code)"
    and "\<And>code code'. Q code \<Longrightarrow> codeGrows S code code' \<Longrightarrow> Q code'" and "Q code"
  shows "codeGrows S code (fold f xs code)"
  using assms(1,3)
proof (induction xs arbitrary: code)
  case (Cons x xs)
  then have "codeGrows S code (f x code)" by simp
  moreover from this have "codeGrows S (f x code) (fold f xs (f x code))"
    using Cons assms(2) by (intro Cons.IH) auto
  ultimately show ?case by (auto intro: codeGrows_trans)
qed simp

section \<open>The code that is put in\<close>

text \<open>Every block has a terminator, and the entries and exits of the segments are in their blocks.\<close>

definition terminated :: "sync_code \<Rightarrow> bool" where
  "terminated code \<longleftrightarrow> (\<forall>b. code b \<noteq> [] \<and> \<not> isPhiInst (last (code b)))"

definition placed :: "sync_loop \<Rightarrow> sync_segment list \<Rightarrow> sync_code \<Rightarrow> bool" where
  "placed G sss code \<longleftrightarrow>
     (\<forall>ss \<in> set sss. \<forall>i \<in> set (ssEntries ss) \<union> set (ssExits ss). OrigInst i \<in> set (code (parentOf G i)))"

lemma terminated_grows: "terminated code \<Longrightarrow> codeGrows S code code' \<Longrightarrow> terminated code'"
  unfolding terminated_def codeGrows_def using grows_last by metis

lemma placed_grows: "placed G sss code \<Longrightarrow> codeGrows S code code' \<Longrightarrow> placed G sss code'"
  unfolding placed_def codeGrows_def using grows_set by (metis subsetD)

lemma point_grows: "codeGrows S code code' \<Longrightarrow> I \<in> set (code b) \<Longrightarrow> I \<in> set (code' b)"
  unfolding codeGrows_def using grows_set by (metis subsetD)

lemma firstNonPHI_split:
  assumes "terminated code"
  shows "\<exists>vs. code b = takeWhile isPhiInst (code b) @ firstNonPHI (code b) # vs \<and> \<not> isPhiInst (firstNonPHI (code b)) \<and>
    takeWhile (\<lambda>I. I \<noteq> firstNonPHI (code b)) (code b) = takeWhile isPhiInst (code b)"
proof -
  obtain I vs where drop: "dropWhile isPhiInst (code b) = I # vs"
    using assms by (metis terminated_def dropWhile_eq_Nil_conv last_in_set neq_Nil_conv)
  then have I: "\<not> isPhiInst I" using hd_dropWhile [of isPhiInst "code b"] by simp
  have eq: "code b = takeWhile isPhiInst (code b) @ I # vs" by (metis drop takeWhile_dropWhile_id)
  have "I \<notin> set (takeWhile isPhiInst (code b))" using I by (auto dest: set_takeWhileD)
  then have "takeWhile (\<lambda>J. J \<noteq> I) (code b) = takeWhile isPhiInst (code b)"
    by (subst eq) (simp add: takeWhile_neq_absent)
  moreover have "firstNonPHI (code b) = I" by (simp add: firstNonPHI_def drop)
  ultimately show ?thesis using I eq by blast
qed

lemma firstNonPHI_mem: "terminated code \<Longrightarrow> firstNonPHI (code b) \<in> set (code b)"
  using firstNonPHI_split by (metis in_set_conv_decomp)

lemma insertBefore_grows: "f \<in> set xs \<Longrightarrow> set new \<subseteq> S \<Longrightarrow> grows S xs (insertBefore f new xs)"
  unfolding insertBefore_def
  by (subst (1) takeWhile_dropWhile_id [of "\<lambda>I. I \<noteq> f" xs, symmetric], rule grows_insert)
    (auto simp: dropWhile_eq_Nil_conv)

lemma insertAfter_grows:
  assumes "f \<in> set xs" "f \<noteq> last xs" "set new \<subseteq> S"
  shows "grows S xs (insertAfter f new xs)"
proof -
  let ?us = "takeWhile (\<lambda>I. I \<noteq> f) xs" and ?vs = "tl (dropWhile (\<lambda>I. I \<noteq> f) xs)"
  have xs: "xs = ?us @ f # ?vs" by (rule split_at [OF assms(1)])
  have "?vs \<noteq> []" using assms(2) xs by (metis last_snoc)
  from grows_insert [OF this assms(3), of "?us @ [f]"]
  have "grows S xs (?us @ f # new @ ?vs)" using xs by simp
  moreover have "dropWhile (\<lambda>I. I \<noteq> f) xs = f # ?vs"
    by (metis xs append_same_eq takeWhile_dropWhile_id same_append_eq)
  ultimately show ?thesis unfolding insertAfter_def by (metis list.simps(5))
qed

lemma injectWait_grows:
  "snd p \<in> set (code (fst p)) \<Longrightarrow>
   codeGrows (\<lambda>b. if b = fst p then {LoadState s, WaitIfUnset s} else {}) code (injectWait s p code)"
  unfolding injectWait_def by (rule codeGrows_upd) (simp add: insertBefore_grows)

lemma signalAtStart_grows: "terminated code \<Longrightarrow> codeGrows (\<lambda>b. {SignalCall s}) code (signalAtStart s b code)"
  unfolding signalAtStart_def by (rule codeGrows_upd) (simp add: insertBefore_grows firstNonPHI_mem)

lemma injectSignal_grows:
  assumes "terminated code" "snd p \<in> set (code (fst p))"
  shows "codeGrows (\<lambda>b. {SignalCall s}) code (injectSignal G s p code)"
proof -
  have "codeGrows (\<lambda>b. {SignalCall s}) code (fold (signalAtStart s) bs code)" for bs
    by (rule codeGrows_fold [where Q = terminated]) (use assms(1) signalAtStart_grows terminated_grows in blast)+
  moreover have "codeGrows (\<lambda>b. {SignalCall s}) code (code(fst p := insertAfter (snd p) [SignalCall s] (code (fst p))))"
    if "snd p \<noteq> last (code (fst p))"
    by (rule codeGrows_upd, rule insertAfter_grows) (use assms(2) that in auto)
  moreover have "codeGrows (\<lambda>b. {SignalCall s}) code (code(fst p := insertBefore (snd p) [SignalCall s] (code (fst p))))"
    by (rule codeGrows_upd, rule insertBefore_grows) (use assms(2) in auto)
  ultimately show ?thesis unfolding injectSignal_def Let_def by (simp only: split: if_split) blast
qed

lemma signalExit_grows:
  assumes "terminated code" "snd p \<in> set (code (fst p))"
  shows "codeGrows (\<lambda>b. {SignalCall s} \<union> (if prologue then {SetLoopIsOver} else {})) code
    (signalExit G prologue s p code)"
proof -
  let ?S = "\<lambda>b :: nat. {SignalCall s} \<union> (if prologue then {SetLoopIsOver} else {})"
  note g = injectSignal_grows [OF assms, of s G]
  have signal: "codeGrows ?S code (injectSignal G s p code)" by (rule codeGrows_mono [OF g]) simp
  have "prologue \<Longrightarrow> codeGrows ?S (injectSignal G s p code) (injectExitFlagSet p (injectSignal G s p code))"
    unfolding injectExitFlagSet_def
    by (rule codeGrows_upd, rule insertBefore_grows) (use point_grows [OF g assms(2)] in auto)
  then have set: "prologue \<Longrightarrow> codeGrows ?S code (injectExitFlagSet p (injectSignal G s p code))"
    using codeGrows_trans [OF signal] by blast
  show ?thesis
  proof (cases "prologue \<and> \<not> isIncludedInst G (injectSignal G s p code) p")
    case True
    then show ?thesis using set by (simp add: signalExit_def Let_def insert_commute)
  next
    case False
    then have "signalExit G prologue s p code = injectSignal G s p code" by (auto simp: signalExit_def Let_def)
    then show ?thesis using signal by simp
  qed
qed

lemma resetState_grows:
  "terminated code \<Longrightarrow>
   codeGrows (\<lambda>b. if b = loopHeaderBB G then {ResetState s} else {}) code (resetState G s code)"
  unfolding resetState_def Let_def by (rule codeGrows_upd) (simp add: insertBefore_grows firstNonPHI_mem)

section \<open>The segments one after the other\<close>

definition flagInserts :: "sync_segment list \<Rightarrow> bool \<Rightarrow> sync_inst set" where
  "flagInserts sss prologue = (if prologue then {SetLoopIsOver, CheckLoopIsOver (map ssID sss)} else {})"

definition segmentInserts ::
    "sync_loop \<Rightarrow> sync_segment list \<Rightarrow> nat option \<Rightarrow> nat \<Rightarrow> nat \<Rightarrow> sync_inst set" where
  "segmentInserts G sss preamble s b =
     {LoadState s, WaitIfUnset s, SignalCall s} \<union> flagInserts sss (preamble = Some s) \<union>
     (if b = loopHeaderBB G then {ResetState s} else {})"

definition leavingBlocks :: "sync_loop \<Rightarrow> nat set" where
  "leavingBlocks G = set (lastBBs G) \<union> set_option (lastIterationExecutionBlock G)"

definition leavingInserts :: "nat set \<Rightarrow> nat \<Rightarrow> sync_inst set" where
  "leavingInserts B b = (if b \<in> B then range LoadState \<union> range WaitIfUnset \<union> range SignalCall else {})"

text \<open>A block that goes on to one block only, or does not end in a branch: a signal at its end stays in it.\<close>

definition jumps :: "sync_loop \<Rightarrow> nat \<Rightarrow> bool" where
  "jumps G b \<longleftrightarrow> endsInBranch G b \<longrightarrow> length (successorBBs G b) = 1"

lemma pointsOfExit_mem:
  assumes "terminated code" "OrigInst i \<in> set (code (parentOf G i))" "p \<in> set (pointsOfExit G code i)"
  shows "snd p \<in> set (code (fst p))"
  using assms by (auto simp: pointsOfExit_def Let_def firstNonPHI_mem split: if_splits)

lemma exitPoints_mem:
  assumes "terminated code" "placed G sss code" "ss \<in> set sss" "p \<in> set (exitPoints G prologue ss code)"
  shows "snd p \<in> set (code (fst p))"
proof -
  consider i where "i \<in> set (ssExits ss)" "p \<in> set (pointsOfExit G code i)"
    | b where "p = (b, firstNonPHI (code b))"
    using assms(4) by (auto simp: exitPoints_def split: if_splits)
  then show ?thesis
  proof cases
    case 1
    then have "OrigInst i \<in> set (code (parentOf G i))" using assms(2,3) by (simp add: placed_def)
    with 1 show ?thesis using pointsOfExit_mem [OF assms(1)] by blast
  next
    case 2
    then show ?thesis using firstNonPHI_mem [OF assms(1)] by simp
  qed
qed

lemma signalExits_grows:
  assumes "terminated code" "\<forall>p \<in> set ps. snd p \<in> set (code (fst p))"
  shows "codeGrows (\<lambda>b. {SignalCall s} \<union> (if prologue then {SetLoopIsOver} else {})) code (fold (signalExit G prologue s) ps code)"
proof (rule codeGrows_fold [where Q = "\<lambda>c. terminated c \<and> (\<forall>p \<in> set ps. snd p \<in> set (c (fst p)))"])
  show "codeGrows (\<lambda>b. {SignalCall s} \<union> (if prologue then {SetLoopIsOver} else {})) c (signalExit G prologue s p c)"
    if "p \<in> set ps" "terminated c \<and> (\<forall>p \<in> set ps. snd p \<in> set (c (fst p)))" for p c
    using signalExit_grows that by simp
  show "terminated c' \<and> (\<forall>p \<in> set ps. snd p \<in> set (c' (fst p)))"
    if "terminated c \<and> (\<forall>p \<in> set ps. snd p \<in> set (c (fst p)))" "codeGrows (\<lambda>b. {SignalCall s} \<union> (if prologue then {SetLoopIsOver} else {})) c c'" for c c'
    using that terminated_grows point_grows by blast
qed (use assms in simp)

lemma waitAtEntries_grows:
  assumes "placed G sss code" "ss \<in> set sss"
  shows "codeGrows (\<lambda>b. {LoadState (ssID ss), WaitIfUnset (ssID ss)}) code (waitAtEntries G ss code)"
  unfolding waitAtEntries_def
proof (rule codeGrows_fold [where Q = "placed G sss"])
  show "codeGrows (\<lambda>b. {LoadState (ssID ss), WaitIfUnset (ssID ss)}) c (injectWait (ssID ss) (parentOf G e, OrigInst e) c)"
    if "e \<in> set (ssEntries ss)" "placed G sss c" for e c
    by (rule codeGrows_mono [OF injectWait_grows]) (use that assms(2) in \<open>auto simp: placed_def\<close>)
qed (use assms(1) placed_grows in blast)+

text \<open>The three steps of a segment: its variable, its waits, its signals.\<close>

definition withWaits :: "sync_loop \<Rightarrow> sync_segment list \<Rightarrow> bool \<Rightarrow> sync_segment \<Rightarrow> sync_code \<Rightarrow> sync_code" where
  "withWaits G sss prologue ss code =
     (let f = (loopHeaderBB G, firstNonPHI (code (loopHeaderBB G)));
          code = resetState G (ssID ss) code
      in if prologue then injectExitFlagCheck (map ssID sss) f (injectWait (ssID ss) f code)
         else waitAtEntries G ss code)"

lemma synchronizeSegment_eq:
  "synchronizeSegment G sss preamble ss code =
     (let prologue = (preamble = Some (ssID ss)); code = withWaits G sss prologue ss code
      in fold (signalExit G prologue (ssID ss)) (exitPoints G prologue ss code) code)"
  by (simp add: synchronizeSegment_def withWaits_def Let_def)

lemma withWaits_grows_strict:
  assumes "terminated code" "placed G sss code" "ss \<in> set sss"
  shows "codeGrows (\<lambda>b. segmentInserts G sss preamble (ssID ss) b - {SignalCall (ssID ss)}) code (withWaits G sss (preamble = Some (ssID ss)) ss code)"
proof -
  let ?S = "\<lambda>b. segmentInserts G sss preamble (ssID ss) b - {SignalCall (ssID ss)}" and ?h = "loopHeaderBB G"
  let ?f = "(?h, firstNonPHI (code ?h))" and ?c = "resetState G (ssID ss) code"
  have reset: "codeGrows ?S code ?c"
    by (rule codeGrows_mono [OF resetState_grows [OF assms(1)]]) (auto simp: segmentInserts_def)
  have f: "snd ?f \<in> set (?c (fst ?f))" using point_grows [OF reset firstNonPHI_mem [OF assms(1)]] by simp
  have wait: "codeGrows ?S ?c (injectWait (ssID ss) ?f ?c)"
    by (rule codeGrows_mono [OF injectWait_grows [where p = ?f and code = ?c, OF f]]) (auto simp: segmentInserts_def)
  have "preamble = Some (ssID ss) \<Longrightarrow> codeGrows ?S (injectWait (ssID ss) ?f ?c) (injectExitFlagCheck (map ssID sss) ?f (injectWait (ssID ss) ?f ?c))"
    unfolding injectExitFlagCheck_def
    by (rule codeGrows_upd, rule insertBefore_grows) (use point_grows [OF wait f] in \<open>auto simp: segmentInserts_def flagInserts_def\<close>)
  then have "preamble = Some (ssID ss) \<Longrightarrow> codeGrows ?S ?c (injectExitFlagCheck (map ssID sss) ?f (injectWait (ssID ss) ?f ?c))"
    using codeGrows_trans [OF wait] by blast
  moreover have "codeGrows ?S ?c (waitAtEntries G ss ?c)"
    by (rule codeGrows_mono [OF waitAtEntries_grows [OF placed_grows [OF assms(2) reset] assms(3)]])
      (auto simp: segmentInserts_def)
  ultimately show ?thesis
    unfolding withWaits_def Let_def using codeGrows_trans [OF reset] by (simp only: split: if_split) blast
qed

lemma withWaits_grows:
  assumes "terminated code" "placed G sss code" "ss \<in> set sss"
  shows "codeGrows (segmentInserts G sss preamble (ssID ss)) code
    (withWaits G sss (preamble = Some (ssID ss)) ss code)"
  by (rule codeGrows_mono [OF withWaits_grows_strict [OF assms]]) auto

lemma synchronizeSegment_grows:
  assumes "terminated code" "placed G sss code" "ss \<in> set sss"
  shows "codeGrows (segmentInserts G sss preamble (ssID ss)) code (synchronizeSegment G sss preamble ss code)"
proof -
  let ?p = "preamble = Some (ssID ss)"
  let ?c = "withWaits G sss ?p ss code"
  note w = withWaits_grows [OF assms, of preamble]
  have "\<forall>p \<in> set (exitPoints G ?p ss ?c). snd p \<in> set (?c (fst p))"
    using exitPoints_mem [OF terminated_grows [OF assms(1) w] placed_grows [OF assms(2) w] assms(3)] by blast
  from signalExits_grows [OF terminated_grows [OF assms(1) w] this]
  have "codeGrows (segmentInserts G sss preamble (ssID ss)) ?c (fold (signalExit G ?p (ssID ss)) (exitPoints G ?p ss ?c) ?c)"
    by (rule codeGrows_mono) (auto simp: segmentInserts_def flagInserts_def)
  then show ?thesis unfolding synchronizeSegment_eq Let_def by (rule codeGrows_trans [OF w])
qed

lemma synchronizeSegments_grows:
  assumes "terminated code" "placed G sss code" "set ts \<subseteq> set sss"
  shows "codeGrows (\<lambda>b. \<Union>t \<in> set ts. segmentInserts G sss preamble (ssID t) b) code
    (fold (synchronizeSegment G sss preamble) ts code)"
proof (rule codeGrows_fold [where Q = "\<lambda>c. terminated c \<and> placed G sss c"])
  show "codeGrows (\<lambda>b. \<Union>t \<in> set ts. segmentInserts G sss preamble (ssID t) b) c (synchronizeSegment G sss preamble t c)"
    if "t \<in> set ts" "terminated c \<and> placed G sss c" for t c
    by (rule codeGrows_mono [OF synchronizeSegment_grows]) (use that assms(3) in auto)
qed (use assms terminated_grows placed_grows in blast)+

section \<open>The blocks that leave the loop\<close>

definition synchronizeLeaving :: "sync_loop \<Rightarrow> sync_segment list \<Rightarrow> sync_code \<Rightarrow> sync_code" where
  "synchronizeLeaving G sss code =
     (let code = fold (synchronizeLastBlock G sss) (lastBBs G) code
      in case lastIterationExecutionBlock G of None \<Rightarrow> code | Some b \<Rightarrow> waitInLastIteration sss b code)"

lemma addSynchronizations_eq:
  "sss \<noteq> [] \<Longrightarrow> addSynchronizations G sss preambleSCC code =
     fold (synchronizeSegment G sss (map_option ssID (preambleSegment preambleSCC sss))) sss
       (synchronizeLeaving G sss code)"
  by (simp add: addSynchronizations_def synchronizeLeaving_def Let_def)

lemma leavingInserts_mono: "B \<subseteq> C \<Longrightarrow> leavingInserts B b \<subseteq> leavingInserts C b"
  by (auto simp: leavingInserts_def)

lemma waitAtStart_grows:
  "terminated code \<Longrightarrow> codeGrows (leavingInserts {b}) code (injectWait s (b, firstNonPHI (code b)) code)"
  by (rule codeGrows_mono [OF injectWait_grows]) (auto simp: leavingInserts_def firstNonPHI_mem)

lemma waitInLastIteration_grows:
  "terminated code \<Longrightarrow> codeGrows (leavingInserts {b}) code (waitInLastIteration sss b code)"
  unfolding waitInLastIteration_def
  by (rule codeGrows_fold [where Q = terminated]) (use waitAtStart_grows terminated_grows in blast)+

lemma injectSignal_here:
  assumes "snd p \<in> set (code (fst p))" "snd p \<noteq> last (code (fst p)) \<or> jumps G (fst p)"
  shows "injectSignal G s p code =
      code(fst p := (if snd p = last (code (fst p)) then insertBefore (snd p) [SignalCall s] (code (fst p))
                     else insertAfter (snd p) [SignalCall s] (code (fst p))))"
    and "codeGrows (\<lambda>b. if b = fst p then {SignalCall s} else {}) code (injectSignal G s p code)"
proof -
  show eq: "injectSignal G s p code =
      code(fst p := (if snd p = last (code (fst p)) then insertBefore (snd p) [SignalCall s] (code (fst p))
                     else insertAfter (snd p) [SignalCall s] (code (fst p))))"
    unfolding injectSignal_def Let_def by (rule if_P) (use assms(2) in \<open>auto simp: jumps_def\<close>)
  show "codeGrows (\<lambda>b. if b = fst p then {SignalCall s} else {}) code (injectSignal G s p code)"
    unfolding eq using insertBefore_grows [OF assms(1)] insertAfter_grows [OF assms(1)]
    by (intro codeGrows_upd) (cases "snd p = last (code (fst p))", simp_all only: if_P if_not_P refl set_simps simp_thms subset_refl)
qed

lemma synchronizeLastBlock_step:
  assumes "terminated code" "last (code b) = t" "jumps G b"
  shows "codeGrows (leavingInserts {b}) code (injectSignal G s (b, t) (injectWait s (b, firstNonPHI (code b)) code))"
proof -
  note wait = waitAtStart_grows [OF assms(1), of b s]
  let ?c = "injectWait s (b, firstNonPHI (code b)) code"
  have "t \<in> set (code b)" using assms by (auto simp: terminated_def)
  then have "t \<in> set (?c b)" using point_grows [OF wait] by blast
  then have "codeGrows (\<lambda>b'. if b' = b then {SignalCall s} else {}) ?c (injectSignal G s (b, t) ?c)"
    using injectSignal_here(2) [of "(b, t)" ?c G s] assms(3) by simp
  then have "codeGrows (leavingInserts {b}) ?c (injectSignal G s (b, t) ?c)"
    by (rule codeGrows_mono) (simp add: leavingInserts_def)
  then show ?thesis by (rule codeGrows_trans [OF wait])
qed

lemma synchronizeLastBlock_grows:
  assumes "terminated code" "jumps G b"
  shows "codeGrows (leavingInserts {b}) code (synchronizeLastBlock G sss b code)"
  unfolding synchronizeLastBlock_def Let_def
proof (rule codeGrows_fold [where Q = "\<lambda>c. terminated c \<and> last (c b) = last (code b)"])
  show "terminated c' \<and> last (c' b) = last (code b)"
    if "terminated c \<and> last (c b) = last (code b)" "codeGrows (leavingInserts {b}) c c'" for c c'
    using that terminated_grows grows_last unfolding codeGrows_def by metis
qed (use assms synchronizeLastBlock_step in auto)

lemma synchronizeLeaving_grows:
  assumes "terminated code" "\<forall>b \<in> set (lastBBs G). jumps G b"
  shows "codeGrows (leavingInserts (leavingBlocks G)) code (synchronizeLeaving G sss code)"
proof -
  let ?S = "leavingInserts (leavingBlocks G)"
  have last: "codeGrows ?S code (fold (synchronizeLastBlock G sss) (lastBBs G) code)"
  proof (rule codeGrows_fold [where Q = terminated])
    show "codeGrows ?S c (synchronizeLastBlock G sss b c)" if "b \<in> set (lastBBs G)" "terminated c" for b c
      by (rule codeGrows_mono [OF synchronizeLastBlock_grows [OF that(2)] leavingInserts_mono])
        (use that(1) assms(2) in \<open>simp_all add: leavingBlocks_def\<close>)
  qed (use assms terminated_grows in blast)+
  have "codeGrows ?S c (waitInLastIteration sss b c)" if "lastIterationExecutionBlock G = Some b" "terminated c" for b c
    by (rule codeGrows_mono [OF waitInLastIteration_grows [OF that(2)] leavingInserts_mono])
      (use that(1) in \<open>simp add: leavingBlocks_def\<close>)
  then show ?thesis
    using last terminated_grows [OF assms(1) last] codeGrows_trans
    by (auto simp: synchronizeLeaving_def Let_def split: option.split)
qed

section \<open>One segment among the others\<close>

text \<open>
  The task before synchronization: blocks of PHI nodes and instructions, each instruction in its block;
  segments with different numbers; the header is none of the blocks behind the loop, and those go on
  to one block only.
\<close>

definition sync_ok :: "sync_loop \<Rightarrow> sync_segment list \<Rightarrow> sync_code \<Rightarrow> bool" where
  "sync_ok G sss code \<longleftrightarrow>
     (\<forall>b. \<forall>I \<in> set (code b). isPhiInst I \<or> isOrigInst I) \<and> (\<forall>b. distinct (code b)) \<and> terminated code \<and> placed G sss code \<and>
     (\<forall>b i. OrigInst i \<in> set (code b) \<longrightarrow> b = parentOf G i) \<and>
     distinct (map ssID sss) \<and> loopHeaderBB G \<notin> leavingBlocks G \<and>
     (\<forall>b \<in> set (lastBBs G) \<union> set (loopExitBBs G). jumps G b)"

text \<open>What the rest of the transformation puts in, before and after a segment is synchronized.\<close>

definition foreignInserts :: "nat option \<Rightarrow> nat \<Rightarrow> sync_inst set" where
  "foreignInserts preamble s =
     {I. \<not> isPhiInst I \<and> \<not> isOrigInst I \<and> I \<notin> {ResetState s, LoadState s, WaitIfUnset s, SignalCall s} \<and>
         (preamble = Some s \<longrightarrow> I \<noteq> SetLoopIsOver \<and> (\<forall>ss. I \<noteq> CheckLoopIsOver ss))}"

definition insertsBefore :: "sync_loop \<Rightarrow> nat option \<Rightarrow> nat \<Rightarrow> nat \<Rightarrow> sync_inst set" where
  "insertsBefore G preamble s b =
     foreignInserts preamble s \<union> (if b \<in> leavingBlocks G then {LoadState s, WaitIfUnset s, SignalCall s} else {})"

lemma segmentInserts_foreign:
  "t \<noteq> s \<Longrightarrow> segmentInserts G sss preamble t b \<subseteq> foreignInserts preamble s"
  by (auto simp: segmentInserts_def flagInserts_def foreignInserts_def)

lemma leavingInserts_foreign: "leavingInserts (leavingBlocks G) b \<subseteq> insertsBefore G preamble s b"
  by (auto simp: leavingInserts_def insertsBefore_def foreignInserts_def)

lemma stages:
  assumes "sync_ok G sss code" "ss \<in> set sss" "preamble = map_option ssID (preambleSegment preambleSCC sss)"
  obtains pre post code1 where "sss = pre @ ss # post" "terminated code1" "placed G sss code1"
    "codeGrows (insertsBefore G preamble (ssID ss)) code code1"
    "addSynchronizations G sss preambleSCC code =
       fold (synchronizeSegment G sss preamble) post (synchronizeSegment G sss preamble ss code1)"
    "codeGrows (\<lambda>b. foreignInserts preamble (ssID ss)) (synchronizeSegment G sss preamble ss code1)
       (addSynchronizations G sss preambleSCC code)"
proof -
  obtain pre post where sss: "sss = pre @ ss # post" using assms(2) by (metis split_list)
  have ok: "terminated code" "placed G sss code" "distinct (map ssID sss)"
    "\<forall>b \<in> set (lastBBs G). jumps G b"
    using assms(1) by (simp_all add: sync_ok_def)
  have other: "ssID t \<noteq> ssID ss" if "t \<in> set pre \<union> set post" for t
    using ok(3) that by (auto simp: sss) (metis image_eqI)+
  define c0 where "c0 = synchronizeLeaving G sss code"
  define c1 where "c1 = fold (synchronizeSegment G sss preamble) pre c0"
  note leaving = synchronizeLeaving_grows [OF ok(1,4), of sss, folded c0_def]
  note t0 = terminated_grows [OF ok(1) leaving] and p0 = placed_grows [OF ok(2) leaving]
  have g1: "codeGrows (\<lambda>b. \<Union>t \<in> set pre. segmentInserts G sss preamble (ssID t) b) c0 c1"
    unfolding c1_def by (rule synchronizeSegments_grows [OF t0 p0]) (auto simp: sss)
  note t1 = terminated_grows [OF t0 g1] and p1 = placed_grows [OF p0 g1]
  note g2 = synchronizeSegment_grows [OF t1 p1 assms(2), of preamble]
  have "codeGrows (\<lambda>b. \<Union>t \<in> set post. segmentInserts G sss preamble (ssID t) b)
      (synchronizeSegment G sss preamble ss c1)
      (fold (synchronizeSegment G sss preamble) post (synchronizeSegment G sss preamble ss c1))"
    by (rule synchronizeSegments_grows [OF terminated_grows [OF t1 g2] placed_grows [OF p1 g2]]) (auto simp: sss)
  moreover have eq: "addSynchronizations G sss preambleSCC code =
      fold (synchronizeSegment G sss preamble) post (synchronizeSegment G sss preamble ss c1)"
    using addSynchronizations_eq [of sss G preambleSCC code]
    by (simp add: assms(3) [symmetric] c0_def [symmetric] c1_def) (simp add: sss)
  ultimately have "codeGrows (\<lambda>b. \<Union>t \<in> set post. segmentInserts G sss preamble (ssID t) b)
      (synchronizeSegment G sss preamble ss c1) (addSynchronizations G sss preambleSCC code)" by simp
  then have after: "codeGrows (\<lambda>b. foreignInserts preamble (ssID ss)) (synchronizeSegment G sss preamble ss c1)
      (addSynchronizations G sss preambleSCC code)"
    by (rule codeGrows_mono, intro UN_least segmentInserts_foreign) (use other in auto)
  have "codeGrows (insertsBefore G preamble (ssID ss)) code c0"
    by (rule codeGrows_mono [OF leaving leavingInserts_foreign])
  moreover have "codeGrows (insertsBefore G preamble (ssID ss)) c0 c1"
    by (rule codeGrows_mono [OF g1], intro UN_least subset_trans [OF segmentInserts_foreign])
      (use other in \<open>auto simp: insertsBefore_def\<close>)
  ultimately have "codeGrows (insertsBefore G preamble (ssID ss)) code c1" by (rule codeGrows_trans)
  from that [OF sss t1 p1 this eq after] show ?thesis .
qed

lemma stage:
  assumes "sync_ok G sss code" "ss \<in> set sss" "preamble = map_option ssID (preambleSegment preambleSCC sss)"
  obtains code1 where "terminated code1" "placed G sss code1"
    "codeGrows (insertsBefore G preamble (ssID ss)) code code1"
    "codeGrows (\<lambda>b. foreignInserts preamble (ssID ss)) (synchronizeSegment G sss preamble ss code1)
       (addSynchronizations G sss preambleSCC code)"
  using stages [OF assms] by metis

section \<open>One wait before everything else\<close>

lemma takeWhile_split: "f \<notin> set us \<Longrightarrow> takeWhile (\<lambda>I. I \<noteq> f) (us @ f # vs) = us \<and> dropWhile (\<lambda>I. I \<noteq> f) (us @ f # vs) = f # vs"
  by (induction us) auto

lemma insertBefore_split: "f \<notin> set us \<Longrightarrow> insertBefore f new (us @ f # vs) = us @ new @ f # vs"
  by (simp add: insertBefore_def takeWhile_split)

lemma precedes_insertBefore:
  assumes "precedes x f xs" "precedes x y xs" "f \<in> set xs" "x \<notin> set new" "f \<noteq> x"
  shows "precedes x y (insertBefore f new xs)"
proof -
  obtain us vs where xs: "xs = us @ f # vs" "f \<notin> set us" using assms(3) by (metis split_list_first)
  have x: "x \<in> set us" using assms(1,5) xs by (auto simp: precedes_def takeWhile_split)
  have "precedes x y (us @ new @ f # vs)"
  proof (cases "y \<in> set us")
    case True
    then show ?thesis using assms(2) xs(1) by (simp add: precedes_def takeWhile_neq_present)
  next
    case False
    then show ?thesis by (rule precedes_behind [OF x])
  qed
  then show ?thesis by (simp add: xs insertBefore_split)
qed

lemma insertBefore_precedes:
  assumes "f \<in> set xs" "y \<in> set new" "f \<notin> set new"
  shows "precedes y f (insertBefore f new xs)"
proof -
  obtain us vs where xs: "xs = us @ f # vs" "f \<notin> set us" using assms(1) by (metis split_list_first)
  have "takeWhile (\<lambda>I. I \<noteq> f) ((us @ new) @ f # vs) = us @ new"
    using takeWhile_split [of f "us @ new" vs] xs(2) assms(3) by simp
  then show ?thesis using assms(2) by (simp add: precedes_def xs insertBefore_split)
qed

lemma resetState_header:
  assumes "terminated code" "ResetState s \<notin> set (code (loopHeaderBB G))"
  shows "\<exists>us vs. code (loopHeaderBB G) = us @ firstNonPHI (code (loopHeaderBB G)) # vs \<and> (\<forall>I \<in> set us. isPhiInst I) \<and>
    \<not> isPhiInst (firstNonPHI (code (loopHeaderBB G))) \<and>
    resetState G s code (loopHeaderBB G) = us @ ResetState s # firstNonPHI (code (loopHeaderBB G)) # vs"
proof -
  obtain vs where vs: "code (loopHeaderBB G) =
      takeWhile isPhiInst (code (loopHeaderBB G)) @ firstNonPHI (code (loopHeaderBB G)) # vs"
    "\<not> isPhiInst (firstNonPHI (code (loopHeaderBB G)))"
    using firstNonPHI_split [OF assms(1)] by blast
  define us where "us = takeWhile isPhiInst (code (loopHeaderBB G))"
  have us: "\<forall>I \<in> set us. isPhiInst I" by (auto simp: us_def dest: set_takeWhileD)
  then have absent: "firstNonPHI (code (loopHeaderBB G)) \<notin> set us" using vs(2) by blast
  note eq = vs(1) [folded us_def]
  have "insertBefore (firstNonPHI (code (loopHeaderBB G))) [ResetState s] (code (loopHeaderBB G)) =
      us @ ResetState s # firstNonPHI (code (loopHeaderBB G)) # vs"
    by (subst (2) eq, subst insertBefore_split [OF absent]) simp
  then have "resetState G s code (loopHeaderBB G) = us @ ResetState s # firstNonPHI (code (loopHeaderBB G)) # vs"
    unfolding resetState_def Let_def fun_upd_same .
  with eq us vs(2) show ?thesis by blast
qed

lemma waitAtEntries_header:
  assumes "placed G sss code" "ss \<in> set sss"
    and "precedes (ResetState (ssID ss)) (WaitIfUnset (ssID ss)) (code (loopHeaderBB G))"
    and "\<forall>i. precedes (ResetState (ssID ss)) (OrigInst i) (code (loopHeaderBB G))"
  shows "precedes (ResetState (ssID ss)) (WaitIfUnset (ssID ss)) (waitAtEntries G ss code (loopHeaderBB G))"
proof -
  let ?s = "ssID ss" and ?h = "loopHeaderBB G"
  have "precedes (ResetState ?s) (WaitIfUnset ?s) (fold (\<lambda>e. injectWait ?s (parentOf G e, OrigInst e)) es code ?h)"
    if "set es \<subseteq> set (ssEntries ss)" for es
    using that assms(1,3,4)
  proof (induction es arbitrary: code)
    case (Cons e es)
    let ?c = "injectWait ?s (parentOf G e, OrigInst e) code"
    have e: "OrigInst e \<in> set (code (parentOf G e))" using Cons.prems(1,2) assms(2) by (simp add: placed_def)
    have g: "codeGrows (\<lambda>b. {LoadState ?s, WaitIfUnset ?s}) code ?c"
      by (rule codeGrows_mono [OF injectWait_grows]) (use e in auto)
    have "precedes (ResetState ?s) (OrigInst i) (?c ?h)" for i
      using g Cons.prems(4) grows_precedes unfolding codeGrows_def by fastforce
    moreover have "precedes (ResetState ?s) (WaitIfUnset ?s) (?c ?h)"
    proof (cases "parentOf G e = ?h")
      case True
      then show ?thesis
        using precedes_insertBefore [of _ "OrigInst e"] Cons.prems(3,4) e by (simp add: injectWait_def)
    qed (use Cons.prems(3) in \<open>simp add: injectWait_def\<close>)
    ultimately have "precedes (ResetState ?s) (WaitIfUnset ?s)
        (fold (\<lambda>e. injectWait ?s (parentOf G e, OrigInst e)) es ?c ?h)"
      using Cons.IH Cons.prems(1) placed_grows [OF Cons.prems(2) g] by simp
    then show ?case by simp
  qed simp
  then show ?thesis unfolding waitAtEntries_def by simp
qed

lemma waitAtEntries_entry:
  assumes "placed G sss code" "ss \<in> set sss" "e \<in> set (ssEntries ss)"
  shows "precedes (WaitIfUnset (ssID ss)) (OrigInst e) (waitAtEntries G ss code (parentOf G e))"
proof -
  let ?f = "\<lambda>e. injectWait (ssID ss) (parentOf G e, OrigInst e)"
  obtain before after where es: "ssEntries ss = before @ e # after" using assms(3) by (metis split_list)
  have grow: "codeGrows (\<lambda>b. {LoadState (ssID ss), WaitIfUnset (ssID ss)}) c (fold ?f es c)"
    if "placed G sss c" "set es \<subseteq> set (ssEntries ss)" for c es
    using waitAtEntries_grows [of G "[ss\<lparr>ssEntries := es\<rparr>]" c "ss\<lparr>ssEntries := es\<rparr>"] that assms(2)
    by (auto simp: waitAtEntries_def placed_def)
  let ?c = "fold ?f before code"
  have p: "placed G sss ?c" by (rule placed_grows [OF assms(1) grow [OF assms(1)]]) (auto simp: es)
  then have e: "OrigInst e \<in> set (?c (parentOf G e))" using assms(2,3) by (simp add: placed_def)
  have "precedes (WaitIfUnset (ssID ss)) (OrigInst e) (?f e ?c (parentOf G e))"
    using insertBefore_precedes [OF e] by (simp add: injectWait_def)
  moreover have "placed G sss (?f e ?c)"
    using placed_grows [OF p grow [OF p, of "[e]"]] by (simp add: es)
  then have "codeGrows (\<lambda>b. {LoadState (ssID ss), WaitIfUnset (ssID ss)}) (?f e ?c) (fold ?f after (?f e ?c))"
    by (rule grow) (auto simp: es)
  ultimately have "precedes (WaitIfUnset (ssID ss)) (OrigInst e) (fold ?f after (?f e ?c) (parentOf G e))"
    using grows_precedes unfolding codeGrows_def by fastforce
  then show ?thesis by (simp add: waitAtEntries_def es)
qed

text \<open>The start of the header once the prologue waits and checks there.\<close>

lemma prologue_header:
  assumes "terminated code"
    "\<forall>I \<in> {ResetState (ssID ss), LoadState (ssID ss), WaitIfUnset (ssID ss)}. I \<notin> set (code (loopHeaderBB G))"
  shows "\<exists>us vs. code (loopHeaderBB G) = us @ vs \<and> (\<forall>I \<in> set us. isPhiInst I) \<and> vs \<noteq> [] \<and>
    withWaits G sss True ss code (loopHeaderBB G) =
      us @ [ResetState (ssID ss), LoadState (ssID ss), WaitIfUnset (ssID ss), CheckLoopIsOver (map ssID sss)] @ vs"
proof -
  let ?h = "loopHeaderBB G" and ?s = "ssID ss"
  let ?f = "firstNonPHI (code ?h)"
  obtain us vs where h: "code ?h = us @ ?f # vs" "\<forall>I \<in> set us. isPhiInst I" "\<not> isPhiInst ?f"
    "resetState G ?s code ?h = us @ ResetState ?s # ?f # vs"
    using resetState_header [OF assms(1)] assms(2) by blast
  have "?f \<in> set (code ?h)" using firstNonPHI_mem [OF assms(1)] .
  then have f: "?f \<notin> set (us @ [ResetState ?s])" using h(2,3) assms(2) by auto
  have other: "?f \<noteq> LoadState ?s" "?f \<noteq> WaitIfUnset ?s" using firstNonPHI_mem [OF assms(1)] assms(2) by (metis insertCI)+
  have "insertBefore ?f [LoadState ?s, WaitIfUnset ?s] ((us @ [ResetState ?s]) @ ?f # vs) =
      (us @ [ResetState ?s]) @ [LoadState ?s, WaitIfUnset ?s] @ ?f # vs"
    by (rule insertBefore_split [OF f])
  moreover have "insertBefore ?f [CheckLoopIsOver (map ssID sss)]
      ((us @ [ResetState ?s, LoadState ?s, WaitIfUnset ?s]) @ ?f # vs) =
      (us @ [ResetState ?s, LoadState ?s, WaitIfUnset ?s]) @ [CheckLoopIsOver (map ssID sss)] @ ?f # vs"
    by (rule insertBefore_split) (use f other in auto)
  ultimately have "withWaits G sss True ss code ?h =
      us @ [ResetState ?s, LoadState ?s, WaitIfUnset ?s, CheckLoopIsOver (map ssID sss)] @ ?f # vs"
    by (simp add: withWaits_def Let_def injectExitFlagCheck_def injectWait_def h(4))
  with h(1,2) show ?thesis by blast
qed

lemma count_absent: "x \<notin> set xs \<Longrightarrow> count_list xs x = 0"
  by simp

lemma withWaits_header:
  assumes "terminated code" "placed G sss code" "ss \<in> set sss"
    "\<forall>I \<in> {ResetState (ssID ss), LoadState (ssID ss), WaitIfUnset (ssID ss)}. I \<notin> set (code (loopHeaderBB G))"
  shows "count_list (withWaits G sss prologue ss code (loopHeaderBB G)) (ResetState (ssID ss)) = 1"
    and "precedes (ResetState (ssID ss)) (WaitIfUnset (ssID ss)) (withWaits G sss prologue ss code (loopHeaderBB G))"
proof -
  let ?s = "ssID ss" and ?h = "loopHeaderBB G"
  have "count_list (withWaits G sss prologue ss code ?h) (ResetState ?s) = 1 \<and>
      precedes (ResetState ?s) (WaitIfUnset ?s) (withWaits G sss prologue ss code ?h)"
  proof (cases prologue)
    case True
    obtain us vs where h: "code ?h = us @ vs" "withWaits G sss True ss code ?h =
        us @ [ResetState ?s, LoadState ?s, WaitIfUnset ?s, CheckLoopIsOver (map ssID sss)] @ vs"
      using prologue_header [OF assms(1,4)] by blast
    have "ResetState ?s \<notin> set us \<union> set vs" "WaitIfUnset ?s \<notin> set us" using assms(4) h(1) by auto
    then show ?thesis using True by (simp add: h(2) precedes_def takeWhile_neq_absent)
  next
    case False
    let ?c = "resetState G ?s code"
    obtain us vs where h: "code ?h = us @ firstNonPHI (code ?h) # vs" "\<forall>I \<in> set us. isPhiInst I"
      "?c ?h = us @ ResetState ?s # firstNonPHI (code ?h) # vs"
      using resetState_header [OF assms(1)] assms(4) by blast
    have p: "placed G sss ?c" by (rule placed_grows [OF assms(2) resetState_grows [OF assms(1)]])
    have count: "count_list (?c ?h) (ResetState ?s) = 1"
    proof -
      have "ResetState ?s \<notin> set (us @ firstNonPHI (code ?h) # vs)" using assms(4) h(1) by simp
      then show ?thesis by (auto simp: h(3))
    qed
    have orig: "\<forall>i. precedes (ResetState ?s) (OrigInst i) (?c ?h)"
    proof
      fix i
      have "OrigInst i \<notin> set us" using h(2) by (metis isPhiInst.simps(2))
      then show "precedes (ResetState ?s) (OrigInst i) (?c ?h)"
        using precedes_behind [of "ResetState ?s" "us @ [ResetState ?s]" "OrigInst i" "firstNonPHI (code ?h) # vs"]
        by (simp add: h(3))
    qed
    have "WaitIfUnset ?s \<notin> set (us @ firstNonPHI (code ?h) # vs)" using assms(4) h(1) by simp
    then have "precedes (ResetState ?s) (WaitIfUnset ?s) (?c ?h)" by (simp add: h(3))
    note waitAtEntries_header [OF p assms(3) this orig]
    moreover have "count_list (waitAtEntries G ss ?c ?h) (ResetState ?s) = count_list (?c ?h) (ResetState ?s)"
      using waitAtEntries_grows [OF p assms(3)] unfolding codeGrows_def by (intro grows_count) auto
    ultimately show ?thesis using False count by (simp add: withWaits_def Let_def)
  qed
  then show "count_list (withWaits G sss prologue ss code ?h) (ResetState ?s) = 1"
    and "precedes (ResetState ?s) (WaitIfUnset ?s) (withWaits G sss prologue ss code ?h)" by simp_all
qed

text \<open>A segment in the finished task: its variable, its waits and, for the prologue, the check of the flag.\<close>

lemma stage_header:
  assumes "sync_ok G sss code" "codeGrows (insertsBefore G preamble s) code code1"
  shows "\<forall>I \<in> {ResetState s, LoadState s, WaitIfUnset s}. I \<notin> set (code1 (loopHeaderBB G))"
    and "ResetState s \<notin> set (code1 b)"
    and "preamble = Some s \<Longrightarrow> CheckLoopIsOver ids \<notin> set (code1 b) \<and> SetLoopIsOver \<notin> set (code1 b)"
proof -
  have sub: "set (code1 b) \<subseteq> set (code b) \<union> insertsBefore G preamble s b" for b
    using assms(2) grows_set unfolding codeGrows_def by blast
  have plain: "I \<notin> set (code b)" if "\<not> isPhiInst I" "\<not> isOrigInst I" for I b
    using assms(1) that unfolding sync_ok_def by blast
  have "loopHeaderBB G \<notin> leavingBlocks G" using assms(1) by (simp add: sync_ok_def)
  then show "\<forall>I \<in> {ResetState s, LoadState s, WaitIfUnset s}. I \<notin> set (code1 (loopHeaderBB G))"
    using sub [of "loopHeaderBB G"] plain by (auto simp: insertsBefore_def foreignInserts_def)
  show "ResetState s \<notin> set (code1 b)"
    using sub [of b] plain [of "ResetState s" b] by (auto simp: insertsBefore_def foreignInserts_def split: if_splits)
  show "CheckLoopIsOver ids \<notin> set (code1 b) \<and> SetLoopIsOver \<notin> set (code1 b)" if "preamble = Some s"
    using sub [of b] plain [of SetLoopIsOver b] plain [of "CheckLoopIsOver ids" b] that
    by (auto simp: insertsBefore_def foreignInserts_def split: if_splits)
qed

lemma waits_final:
  assumes "sync_ok G sss code" "ss \<in> set sss" "preamble = map_option ssID (preambleSegment preambleSCC sss)"
  defines "C \<equiv> addSynchronizations G sss preambleSCC code"
  shows "count_list (C (loopHeaderBB G)) (ResetState (ssID ss)) = 1"
    and "precedes (ResetState (ssID ss)) (WaitIfUnset (ssID ss)) (C (loopHeaderBB G))"
    and "b \<noteq> loopHeaderBB G \<Longrightarrow> ResetState (ssID ss) \<notin> set (C b)"
    and "preamble \<noteq> Some (ssID ss) \<Longrightarrow> e \<in> set (ssEntries ss) \<Longrightarrow>
      precedes (WaitIfUnset (ssID ss)) (OrigInst e) (C (parentOf G e))"
    and "preamble = Some (ssID ss) \<Longrightarrow> precedes (WaitIfUnset (ssID ss)) (CheckLoopIsOver (map ssID sss)) (C (loopHeaderBB G))"
    and "preamble = Some (ssID ss) \<Longrightarrow> precedes (CheckLoopIsOver (map ssID sss)) (OrigInst i) (C (loopHeaderBB G))"
    and "preamble = Some (ssID ss) \<Longrightarrow> CheckLoopIsOver (map ssID sss) \<in> set (C (loopHeaderBB G))"
proof -
  let ?s = "ssID ss" and ?h = "loopHeaderBB G" and ?p = "preamble = Some (ssID ss)"
  obtain code1 where code1: "terminated code1" "placed G sss code1" "codeGrows (insertsBefore G preamble ?s) code code1"
    "codeGrows (\<lambda>b. foreignInserts preamble ?s) (synchronizeSegment G sss preamble ss code1) C"
    using stage [OF assms(1-3)] unfolding C_def by blast
  let ?w = "withWaits G sss ?p ss code1"
  note w = withWaits_grows [OF code1(1,2) assms(2), of preamble]
  have "\<forall>p \<in> set (exitPoints G ?p ss ?w). snd p \<in> set (?w (fst p))"
    using exitPoints_mem [OF terminated_grows [OF code1(1) w] placed_grows [OF code1(2) w] assms(2)] by blast
  from signalExits_grows [OF terminated_grows [OF code1(1) w] this, of ?s ?p G]
  have "codeGrows (\<lambda>b. {SignalCall ?s} \<union> (if ?p then {SetLoopIsOver} else {})) ?w (synchronizeSegment G sss preamble ss code1)"
    by (simp add: synchronizeSegment_eq Let_def)
  then have "codeGrows (\<lambda>b. foreignInserts preamble ?s \<union> {SignalCall ?s, SetLoopIsOver}) ?w C"
    by (intro codeGrows_trans [OF codeGrows_mono codeGrows_mono [OF code1(4)]]) (auto split: if_splits)
  then have after: "grows (foreignInserts preamble ?s \<union> {SignalCall ?s, SetLoopIsOver}) (?w b) (C b)" for b
    by (simp add: codeGrows_def)
  note header = stage_header(1) [OF assms(1) code1(3)]
  have keep: "precedes x y (C b)" if "y \<in> {WaitIfUnset ?s, OrigInst i}" "precedes x y (?w b)" for x y i b
    by (rule grows_precedes [OF after _ that(2)]) (use that(1) in \<open>auto simp: foreignInserts_def\<close>)
  show "count_list (C ?h) (ResetState ?s) = 1"
    using withWaits_header(1) [OF code1(1,2) assms(2) header, of ?p] grows_count [OF after, of "ResetState ?s"]
    by (simp add: foreignInserts_def)
  show "precedes (ResetState ?s) (WaitIfUnset ?s) (C ?h)"
    using keep withWaits_header(2) [OF code1(1,2) assms(2) header, of ?p] by blast
  show "ResetState ?s \<notin> set (C b)" if "b \<noteq> ?h"
  proof -
    have "ResetState ?s \<notin> set (?w b)"
      using grows_set [of "segmentInserts G sss preamble ?s b" "code1 b" "?w b"] w that stage_header(2) [OF assms(1) code1(3)]
      unfolding codeGrows_def by (auto simp: segmentInserts_def flagInserts_def split: if_splits)
    then show ?thesis
      using grows_set [OF after [of b]] by (auto simp: foreignInserts_def)
  qed
  show "precedes (WaitIfUnset ?s) (OrigInst e) (C (parentOf G e))" if "preamble \<noteq> Some ?s" "e \<in> set (ssEntries ss)"
  proof -
    have "placed G sss (resetState G ?s code1)" by (rule placed_grows [OF code1(2) resetState_grows [OF code1(1)]])
    from waitAtEntries_entry [OF this assms(2) that(2)] that(1)
    have "precedes (WaitIfUnset ?s) (OrigInst e) (?w (parentOf G e))" by (simp add: withWaits_def Let_def)
    then show ?thesis using keep by blast
  qed
  show "precedes (WaitIfUnset ?s) (CheckLoopIsOver (map ssID sss)) (C ?h)"
    and "precedes (CheckLoopIsOver (map ssID sss)) (OrigInst i) (C ?h)"
    and "CheckLoopIsOver (map ssID sss) \<in> set (C ?h)" if prologue: ?p
  proof -
    let ?check = "CheckLoopIsOver (map ssID sss)"
    have w: "withWaits G sss True ss code1 = ?w" using prologue by simp
    obtain us vs where h: "code1 ?h = us @ vs" "\<forall>I \<in> set us. isPhiInst I"
      "?w ?h = us @ [ResetState ?s, LoadState ?s, WaitIfUnset ?s, ?check] @ vs"
      using prologue_header [OF code1(1) header, of sss, unfolded w] by (elim exE conjE)
    have "?check \<notin> set us" using h(2) by auto
    then have "precedes (WaitIfUnset ?s) ?check (?w ?h)"
      using precedes_behind [of "WaitIfUnset ?s" "us @ [ResetState ?s, LoadState ?s, WaitIfUnset ?s]" ?check "?check # vs"]
      by (simp add: h(3))
    then show "precedes (WaitIfUnset ?s) ?check (C ?h)"
      using prologue grows_precedes [OF after] by (simp add: foreignInserts_def)
    have "OrigInst i \<notin> set us" using h(2) by (metis isPhiInst.simps(2))
    then have "precedes ?check (OrigInst i) (?w ?h)"
      using precedes_behind [of ?check "us @ [ResetState ?s, LoadState ?s, WaitIfUnset ?s, ?check]" "OrigInst i" vs]
      by (simp add: h(3))
    then show "precedes ?check (OrigInst i) (C ?h)" using keep by blast
    show "?check \<in> set (C ?h)" using grows_set [OF after [of ?h]] h(3) by auto
  qed
qed

section \<open>What a core does in an iteration\<close>

fun stateAfter :: "(nat \<Rightarrow> bool) \<Rightarrow> sync_inst \<Rightarrow> (nat \<Rightarrow> bool)" where
  "stateAfter st (ResetState s) = st(s := False)"
| "stateAfter st (WaitIfUnset s) = st(s := True)"
| "stateAfter st I = st"

lemma stateAfter_wait: "st s \<Longrightarrow> st(s := True) = st"
  by (simp add: fun_upd_idem)

lemma runSync_append: "runSync False st (xs @ ys) = runSync False st xs @ runSync False (fold (\<lambda>I st. stateAfter st I) xs st) ys"
proof (induction xs arbitrary: st)
  case (Cons I xs)
  show ?case by (cases I) (simp_all add: Cons.IH stateAfter_wait del: fun_upd_apply)
qed simp

text \<open>With the variable set no wait happens; with the variable unset the first one does.\<close>

lemma count_waits:
  "ResetState s \<notin> set xs \<Longrightarrow>
   count_list (runSync False st xs) (Waited s) = (if \<not> st s \<and> WaitIfUnset s \<in> set xs then 1 else 0)"
proof (induction xs arbitrary: st)
  case (Cons I xs)
  then show ?case by (cases I) auto
qed simp

lemma no_wait_no_event: "WaitIfUnset s \<notin> set xs \<Longrightarrow> Waited s \<notin> set (runSync False st xs)"
proof (induction xs arbitrary: st)
  case (Cons I xs)
  then show ?case by (cases I) auto
qed simp

text \<open>An event of an iteration comes from an instruction of the code.\<close>

lemma executed_from:
  "runSync False st T = xs @ Executed i # ys \<Longrightarrow> \<exists>A B. T = A @ OrigInst i # B \<and> xs = runSync False st A"
proof (induction T arbitrary: st xs)
  case (Cons I T)
  have step: ?case
    if head: "runSync False st [I] = es" and rest: "\<exists>us. xs = es @ us \<and> runSync False (stateAfter st I) T = us @ Executed i # ys" for es
  proof -
    obtain us where us: "xs = es @ us" "runSync False (stateAfter st I) T = us @ Executed i # ys" using rest by blast
    from Cons.IH [OF us(2)] obtain A B where "T = A @ OrigInst i # B" "us = runSync False (stateAfter st I) A" by blast
    then have "I # T = (I # A) @ OrigInst i # B" "xs = runSync False st (I # A)"
      using us(1) head runSync_append [of st "[I]" A] by simp_all
    then show ?thesis by blast
  qed
  show ?case
  proof (cases "\<exists>j. I = OrigInst j \<and> xs = []")
    case True
    then have "I # T = [] @ OrigInst i # T" "xs = runSync False st []" using Cons.prems by auto
    then show ?thesis by blast
  next
    case False
    define es where "es = runSync False st [I]"
    have "runSync False st (I # T) = es @ runSync False (stateAfter st I) T"
      using runSync_append [of st "[I]" T] by (simp add: es_def)
    moreover from this have "\<exists>us. xs = es @ us \<and> runSync False (stateAfter st I) T = us @ Executed i # ys"
      using Cons.prems False by (cases I) (auto simp: es_def Cons_eq_append_conv split: if_splits)
    ultimately show ?thesis using step [OF es_def [symmetric]] by blast
  qed
qed simp

lemma signaled_from:
  "Signaled s \<in> set (runSync False st T) \<Longrightarrow> SignalCall s \<in> set T"
proof (induction T arbitrary: st)
  case (Cons I T)
  then show ?case by (cases I) (auto split: if_splits)
qed simp

lemma signal_happens: "SignalCall s \<in> set T \<Longrightarrow> Signaled s \<in> set (runSync False st T)"
proof (induction T arbitrary: st)
  case (Cons I T)
  then show ?case by (cases I) auto
qed simp

text \<open>A path through an iteration starts at the header and does not come back to it.\<close>

definition iterationBlocks :: "sync_loop \<Rightarrow> nat list \<Rightarrow> bool" where
  "iterationBlocks G p \<longleftrightarrow> p \<noteq> [] \<and> hd p = loopHeaderBB G \<and> loopHeaderBB G \<notin> set (tl p)"

text \<open>The variable is reset once, before the first wait.\<close>

lemma iteration_resets:
  assumes "sync_ok G sss code" "ss \<in> set sss" "iterationBlocks G p"
  shows "\<exists>us vs. concat (map (addSynchronizations G sss preambleSCC code) p) = us @ ResetState (ssID ss) # vs \<and>
    ResetState (ssID ss) \<notin> set us \<union> set vs \<and> WaitIfUnset (ssID ss) \<notin> set us"
proof -
  let ?C = "addSynchronizations G sss preambleSCC code" and ?s = "ssID ss"
  note w = waits_final [OF assms(1,2) refl, where preambleSCC = preambleSCC]
  obtain bs where p: "p = loopHeaderBB G # bs" "loopHeaderBB G \<notin> set bs"
    using assms(3) by (cases p) (auto simp: iterationBlocks_def)
  have "ResetState ?s \<in> set (?C (loopHeaderBB G))" using w(1) by (metis count_absent zero_neq_one)
  then obtain us vs where h: "?C (loopHeaderBB G) = us @ ResetState ?s # vs" "ResetState ?s \<notin> set us"
    by (metis split_list_first)
  have "ResetState ?s \<notin> set vs" using w(1) h by (simp add: count_list_0_iff)
  moreover have "ResetState ?s \<notin> set (concat (map ?C bs))"
  proof
    assume "ResetState ?s \<in> set (concat (map ?C bs))"
    then obtain b where "b \<in> set bs" "ResetState ?s \<in> set (?C b)" by auto
    then show False using w(3) [of b] p(2) by blast
  qed
  moreover have "WaitIfUnset ?s \<notin> set us"
  proof
    assume "WaitIfUnset ?s \<in> set us"
    then have "takeWhile (\<lambda>I. I \<noteq> WaitIfUnset ?s) (?C (loopHeaderBB G)) = takeWhile (\<lambda>I. I \<noteq> WaitIfUnset ?s) us"
      by (simp add: h(1) takeWhile_neq_present)
    then have "ResetState ?s \<in> set (takeWhile (\<lambda>I. I \<noteq> WaitIfUnset ?s) us)"
      using w(2) \<open>WaitIfUnset ?s \<in> set us\<close> h(1) by (simp add: precedes_def)
    then show False using h(2) by (auto dest: set_takeWhileD)
  qed
  ultimately show ?thesis using h by (intro exI [of _ us] exI [of _ "vs @ concat (map ?C bs)"]) (simp add: p(1))
qed

lemma waited_count:
  assumes "T = us @ ResetState s # vs" "ResetState s \<notin> set us \<union> set vs" "WaitIfUnset s \<notin> set us"
  shows "count_list (runSync False st T) (Waited s) = (if WaitIfUnset s \<in> set T then 1 else 0)"
proof -
  have "count_list (runSync False st us) (Waited s) = 0" using no_wait_no_event [OF assms(3)] by simp
  moreover have "runSync False st T = runSync False st us @
      runSync False ((fold (\<lambda>I st. stateAfter st I) us st)(s := False)) vs"
    by (simp add: assms(1) runSync_append)
  ultimately show ?thesis using count_waits [of s vs] assms by simp
qed

lemma waited_before:
  assumes "T = us @ ResetState s # vs" "ResetState s \<notin> set us \<union> set vs" "WaitIfUnset s \<notin> set us"
    and "T = A @ B" "WaitIfUnset s \<in> set A"
  shows "Waited s \<in> set (runSync False st A)"
proof -
  obtain ws where A: "A = us @ ResetState s # ws"
  proof -
    have "us @ ResetState s # vs = A @ B" using assms(1,4) by simp
    then obtain ws where "us = A @ ws \<and> ws @ ResetState s # vs = B \<or> us @ ws = A \<and> ResetState s # vs = ws @ B"
      by (metis append_eq_append_conv2)
    then show ?thesis using that assms(3,5) by (cases ws) auto
  qed
  then have "ResetState s \<notin> set ws" using assms(1,2,4) by auto
  then have "count_list (runSync False st A) (Waited s) = (if WaitIfUnset s \<in> set A then 1 else 0)"
    using assms(2,3) A by (intro waited_count [of A us s ws]) auto
  then show ?thesis using assms(5) by (metis count_absent zero_neq_one)
qed

text \<open>A wait in the code before an instruction is a wait before the instruction is executed.\<close>

lemma waited_event:
  assumes "sync_ok G sss code" "ss \<in> set sss" "iterationBlocks G p"
    and "concat (map (addSynchronizations G sss preambleSCC code) p) = A @ B" "WaitIfUnset (ssID ss) \<in> set A"
  shows "Waited (ssID ss) \<in> set (runSync False st A)"
  using iteration_resets [OF assms(1-3), of preambleSCC] waited_before assms(4,5) by blast

lemma codeGrows_set: "codeGrows S code code' \<Longrightarrow> set (code' b) \<subseteq> set (code b) \<union> S b"
  using grows_set [of "S b" "code b" "code' b"] by (simp add: codeGrows_def)

lemma addSynchronizations_grows:
  assumes "sync_ok G sss code"
  shows "codeGrows (\<lambda>b. leavingInserts (leavingBlocks G) b \<union>
      (\<Union>t \<in> set sss. segmentInserts G sss (map_option ssID (preambleSegment preambleSCC sss)) (ssID t) b))
      code (addSynchronizations G sss preambleSCC code)"
proof (cases "sss = []")
  case True
  then show ?thesis by (simp add: addSynchronizations_def)
next
  case False
  have ok: "terminated code" "placed G sss code" "\<forall>b \<in> set (lastBBs G). jumps G b"
    using assms(1) by (simp_all add: sync_ok_def)
  note leaving = synchronizeLeaving_grows [OF ok(1,3), of sss]
  show ?thesis
    unfolding addSynchronizations_eq [OF False]
    by (rule codeGrows_trans [OF codeGrows_mono [OF leaving] codeGrows_mono [OF synchronizeSegments_grows
          [OF terminated_grows [OF ok(1) leaving] placed_grows [OF ok(2) leaving] subset_refl]]]) auto
qed

lemma original_place:
  assumes "sync_ok G sss code" "OrigInst i \<in> set (addSynchronizations G sss preambleSCC code b)"
  shows "OrigInst i \<in> set (code b)"
  using subsetD [OF codeGrows_set [OF addSynchronizations_grows [OF assms(1)]] assms(2)]
proof (elim UnE UN_E)
  show ?thesis if "OrigInst i \<in> leavingInserts (leavingBlocks G) b"
    using that by (auto simp: leavingInserts_def split: if_splits)
  show ?thesis if "OrigInst i \<in> segmentInserts G sss (map_option ssID (preambleSegment preambleSCC sss)) (ssID t) b" for t
    using that unfolding segmentInserts_def flagInserts_def by (simp only: Un_iff split: if_splits) simp_all
qed

lemma check_argument:
  assumes "sync_ok G sss code" "CheckLoopIsOver ids \<in> set (addSynchronizations G sss preambleSCC code b)"
  shows "ids = map ssID sss"
  using subsetD [OF codeGrows_set [OF addSynchronizations_grows [OF assms(1)]] assms(2)]
proof (elim UnE UN_E)
  show ?thesis if "CheckLoopIsOver ids \<in> set (code b)"
    using that assms(1) unfolding sync_ok_def by (metis isOrigInst.simps(8) isPhiInst.simps(8))
  show ?thesis if "CheckLoopIsOver ids \<in> leavingInserts (leavingBlocks G) b"
    using that by (auto simp: leavingInserts_def split: if_splits)
  show ?thesis if "CheckLoopIsOver ids \<in> segmentInserts G sss (map_option ssID (preambleSegment preambleSCC sss)) (ssID t) b" for t
    using that unfolding segmentInserts_def flagInserts_def by (simp only: Un_iff split: if_splits) simp_all
qed

lemma wait_precedes:
  assumes "sync_ok G sss code" "ss \<in> set sss" "iterationBlocks G p"
    and "concat (map (addSynchronizations G sss preambleSCC code) p) = A @ OrigInst i # B"
    and "if map_option ssID (preambleSegment preambleSCC sss) = Some (ssID ss) then parentOf G i = loopHeaderBB G
         else i \<in> set (ssEntries ss)"
  shows "WaitIfUnset (ssID ss) \<in> set A"
proof -
  let ?C = "addSynchronizations G sss preambleSCC code" and ?s = "ssID ss"
  have "precedes (WaitIfUnset ?s) (OrigInst i) (?C b)" for b
  proof (cases "OrigInst i \<in> set (?C b)")
    case True
    have b: "b = parentOf G i" using original_place [OF assms(1) True] assms(1) by (simp add: sync_ok_def)
    note w = waits_final [OF assms(1,2) refl, where preambleSCC = preambleSCC]
    show ?thesis
    proof (cases "map_option ssID (preambleSegment preambleSCC sss) = Some ?s")
      case prologue: True
      then have "b = loopHeaderBB G" using assms(5) unfolding b by (simp only: if_True)
      then show ?thesis using precedes_trans [OF w(5) [OF prologue] w(6) [OF prologue]] by (simp only:)
    next
      case False
      then have "i \<in> set (ssEntries ss)" using assms(5) by (simp only: if_False)
      then show ?thesis unfolding b by (rule w(4) [OF False])
    qed
  qed simp
  then have "precedes (WaitIfUnset ?s) (OrigInst i) (A @ OrigInst i # B)"
    unfolding assms(4) [symmetric] by (intro precedes_concat) auto
  then show ?thesis by (rule precedes_first) simp
qed

text \<open>
  A core waits for a segment at most once in an iteration, whatever the state of the variables when
  the iteration starts, and has waited when it reaches an entry of the segment; for the sequential
  prologue, when it reaches any instruction of the header.
\<close>

theorem helix_waits_once:
  assumes "sync_ok G sss code" and "ss \<in> set sss" and "iterationBlocks G p"
    and "C = addSynchronizations G sss preambleSCC code"
  shows "count_list (runBlocks False st C p) (Waited (ssID ss)) \<le> 1 \<and>
    (\<forall>xs i ys. runBlocks False st C p = xs @ Executed i # ys \<longrightarrow>
       (if map_option ssID (preambleSegment preambleSCC sss) = Some (ssID ss) then parentOf G i = loopHeaderBB G
        else i \<in> set (ssEntries ss)) \<longrightarrow> Waited (ssID ss) \<in> set xs)"
proof (intro conjI allI impI)
  obtain us vs where "concat (map C p) = us @ ResetState (ssID ss) # vs"
    "ResetState (ssID ss) \<notin> set us \<union> set vs" "WaitIfUnset (ssID ss) \<notin> set us"
    using iteration_resets [OF assms(1-3)] assms(4) by blast
  from waited_count [OF this, of st] show "count_list (runBlocks False st C p) (Waited (ssID ss)) \<le> 1"
    by (simp add: runBlocks_def)
  fix xs i ys
  assume ev: "runBlocks False st C p = xs @ Executed i # ys"
    and place: "if map_option ssID (preambleSegment preambleSCC sss) = Some (ssID ss) then parentOf G i = loopHeaderBB G
        else i \<in> set (ssEntries ss)"
  then obtain A B where T: "concat (map C p) = A @ OrigInst i # B" "xs = runSync False st A"
    using executed_from unfolding runBlocks_def by blast
  show "Waited (ssID ss) \<in> set xs"
    unfolding T(2) by (rule waited_event [OF assms(1-3)])
      (use T(1) wait_precedes [OF assms(1-3) _ place] assms(4) in auto)
qed

section \<open>Leaving the loop\<close>

lemma grows_subseq: "grows S xs ys \<Longrightarrow> subseq xs ys"
proof (induction rule: grows.induct)
  case (insert_one xs us vs x)
  have "subseq (us @ vs) (us @ x # vs)" by (intro list_emb_append_mono) auto
  with insert_one.IH show ?case by (rule subseq_order.order_trans)
qed simp

lemma codeGrows_subseq: "codeGrows S code code' \<Longrightarrow> subseq xs (code b) \<Longrightarrow> subseq xs (code' b)"
  unfolding codeGrows_def by (meson grows_subseq subseq_order.order_trans)

lemma original_last:
  assumes "sync_ok G sss code"
  shows "isOrigInst (last (code b))"
proof -
  have "code b \<noteq> []" "\<not> isPhiInst (last (code b))" "\<forall>I \<in> set (code b). isPhiInst I \<or> isOrigInst I"
    using assms by (auto simp: sync_ok_def terminated_def)
  then show ?thesis using last_in_set by blast
qed

text \<open>The block of a segment in turn: wait at the start, signal at the end.\<close>

lemma lastBlock_step:
  assumes "terminated code" "last (code b) = t" "jumps G b" "isOrigInst t"
  shows "subseq [WaitIfUnset s, SignalCall s]
    (injectSignal G s (b, t) (injectWait s (b, firstNonPHI (code b)) code) b)"
proof -
  define f where "f = firstNonPHI (code b)"
  define us where "us = takeWhile isPhiInst (code b)"
  obtain vs where vs: "code b = us @ f # vs" "\<not> isPhiInst f"
    using firstNonPHI_split [OF assms(1), of b] unfolding us_def f_def by blast
  have phi: "\<forall>I \<in> set us. isPhiInst I" by (auto simp: us_def dest: set_takeWhileD)
  define c where "c = injectWait s (b, f) code"
  have "f \<notin> set us" using phi vs(2) by blast
  then have c: "c b = us @ [LoadState s, WaitIfUnset s] @ f # vs"
    using insertBefore_split [of f us "[LoadState s, WaitIfUnset s]" vs] vs(1) by (simp add: c_def injectWait_def)
  have t: "t \<in> set (f # vs)" "last (c b) = t" using assms(2) vs(1) c last_in_set [of "f # vs"] by auto
  obtain ws zs where w: "f # vs = ws @ t # zs" "t \<notin> set ws" using split_list_first [OF t(1)] by blast
  have "t \<notin> set us" using phi assms(4) by (metis isOrigInst.simps(2) isPhiInst.elims(2))
  then have "t \<notin> set (us @ [LoadState s, WaitIfUnset s] @ ws)" using w(2) assms(4) by auto
  from insertBefore_split [OF this, of "[SignalCall s]" zs]
  have "insertBefore t [SignalCall s] (c b) = us @ [LoadState s, WaitIfUnset s] @ ws @ [SignalCall s] @ t # zs"
    by (simp add: c w(1))
  moreover have "injectSignal G s (b, t) c b = insertBefore t [SignalCall s] (c b)"
  proof -
    have "t \<in> set (c b)" using t(1) c by auto
    then show ?thesis using injectSignal_here(1) [of "(b, t)" c G s] t(2) assms(3) by simp
  qed
  moreover have "subseq [WaitIfUnset s, SignalCall s] ((us @ [LoadState s, WaitIfUnset s]) @ (ws @ [SignalCall s] @ t # zs))"
    using list_emb_append_mono [of "(=)" "[WaitIfUnset s]" "us @ [LoadState s, WaitIfUnset s]" "[SignalCall s]"
        "ws @ [SignalCall s] @ t # zs"] by (simp add: subseq_singleton_left)
  ultimately show ?thesis by (simp add: c_def f_def)
qed

lemma synchronizeLastBlock_code:
  assumes "terminated code" "isOrigInst (last (code b))" "jumps G b" "ss \<in> set sss"
  shows "subseq [WaitIfUnset (ssID ss), SignalCall (ssID ss)] (synchronizeLastBlock G sss b code b)"
proof -
  let ?t = "last (code b)"
  let ?f = "\<lambda>ss code. injectSignal G (ssID ss) (b, ?t) (injectWait (ssID ss) (b, firstNonPHI (code b)) code)"
  obtain pre post where sss: "sss = pre @ ss # post" using assms(4) by (metis split_list)
  have fold: "codeGrows (leavingInserts {b}) c (fold ?f ts c)" if "terminated c \<and> last (c b) = ?t" for c ts
  proof (rule codeGrows_fold [where Q = "\<lambda>c. terminated c \<and> last (c b) = ?t"])
    show "terminated c' \<and> last (c' b) = ?t"
      if "terminated c \<and> last (c b) = ?t" "codeGrows (leavingInserts {b}) c c'" for c c'
      using that terminated_grows grows_last unfolding codeGrows_def by metis
  qed (use that assms(3) synchronizeLastBlock_step in auto)
  have keep: "terminated c' \<and> last (c' b) = ?t"
    if "terminated c \<and> last (c b) = ?t" "codeGrows (leavingInserts {b}) c c'" for c c'
    using that terminated_grows grows_last unfolding codeGrows_def by metis
  define c where "c = fold ?f pre code"
  have c: "terminated c \<and> last (c b) = ?t" unfolding c_def by (rule keep [OF _ fold]) (use assms(1) in simp_all)
  have "subseq [WaitIfUnset (ssID ss), SignalCall (ssID ss)] (?f ss c b)"
    by (rule lastBlock_step) (use c assms(2,3) in auto)
  moreover have "terminated (?f ss c) \<and> last (?f ss c b) = ?t"
    by (rule keep [OF c synchronizeLastBlock_step]) (use c assms(3) in auto)
  ultimately have "subseq [WaitIfUnset (ssID ss), SignalCall (ssID ss)] (fold ?f post (?f ss c) b)"
    using codeGrows_subseq [OF fold] by blast
  then show ?thesis by (simp add: synchronizeLastBlock_def Let_def sss c_def)
qed

lemma lastBlock_final:
  assumes "sync_ok G sss code" "ss \<in> set sss" "b \<in> set (lastBBs G)"
  shows "subseq [WaitIfUnset (ssID ss), SignalCall (ssID ss)] (addSynchronizations G sss preambleSCC code b)"
proof -
  let ?S = "leavingInserts (leavingBlocks G)"
  have ok: "terminated code" "placed G sss code" "\<forall>b \<in> set (lastBBs G). jumps G b"
    using assms(1) by (simp_all add: sync_ok_def)
  obtain pre post where bs: "lastBBs G = pre @ b # post" using assms(3) by (metis split_list)
  have fold: "codeGrows ?S c (fold (synchronizeLastBlock G sss) bs c)" if "terminated c" "set bs \<subseteq> set (lastBBs G)" for c bs
  proof (rule codeGrows_fold [where Q = terminated])
    show "codeGrows ?S c (synchronizeLastBlock G sss b c)" if "b \<in> set bs" "terminated c" for b c
      by (rule codeGrows_mono [OF synchronizeLastBlock_grows leavingInserts_mono])
        (use that ok(3) \<open>set bs \<subseteq> _\<close> in \<open>auto simp: leavingBlocks_def\<close>)
  qed (use that(1) terminated_grows in blast)+
  define c where "c = fold (synchronizeLastBlock G sss) pre code"
  have g: "codeGrows ?S code c" unfolding c_def by (rule fold [OF ok(1)]) (simp add: bs subset_iff)
  note t = terminated_grows [OF ok(1) g]
  have "last (c b) = last (code b)" using g grows_last unfolding codeGrows_def by metis
  then have "isOrigInst (last (c b))" using original_last [OF assms(1)] by simp
  from synchronizeLastBlock_code [OF t this _ assms(2)] ok(3) assms(3)
  have 1: "subseq [WaitIfUnset (ssID ss), SignalCall (ssID ss)] (synchronizeLastBlock G sss b c b)" by blast
  have t1: "terminated (synchronizeLastBlock G sss b c)"
    by (rule terminated_grows [OF t synchronizeLastBlock_grows [OF t]]) (use ok(3) assms(3) in blast)
  define c2 where "c2 = fold (synchronizeLastBlock G sss) post (synchronizeLastBlock G sss b c)"
  have g2: "codeGrows ?S (synchronizeLastBlock G sss b c) c2"
    unfolding c2_def by (rule fold [OF t1]) (simp add: bs subset_iff)
  have 2: "subseq [WaitIfUnset (ssID ss), SignalCall (ssID ss)] (c2 b)" by (rule codeGrows_subseq [OF g2 1])
  have c2: "fold (synchronizeLastBlock G sss) (lastBBs G) code = c2" by (simp add: bs c2_def c_def)
  have "codeGrows (leavingInserts {x}) c2 (waitInLastIteration sss x c2)" for x
    by (rule waitInLastIteration_grows [OF terminated_grows [OF t1 g2]])
  from codeGrows_subseq [OF this 2]
  have 3: "subseq [WaitIfUnset (ssID ss), SignalCall (ssID ss)] (synchronizeLeaving G sss code b)"
    using 2 by (simp add: synchronizeLeaving_def Let_def c2 split: option.split)
  note leaving = synchronizeLeaving_grows [OF ok(1,3), of sss]
  have "sss \<noteq> []" using assms(2) by auto
  then show ?thesis
    using codeGrows_subseq [OF synchronizeSegments_grows [OF terminated_grows [OF ok(1) leaving]
        placed_grows [OF ok(2) leaving] subset_refl] 3] by (simp add: addSynchronizations_eq)
qed

lemma leaving_waits:
  assumes "sync_ok G sss code" and "ss \<in> set sss" and "iterationBlocks G p" and "last p \<in> set (lastBBs G)"
    and "C = addSynchronizations G sss preambleSCC code"
  shows "count_list (runBlocks False st C p) (Waited (ssID ss)) = 1 \<and>
    (\<exists>xs ys. runBlocks False st C p = xs @ ys \<and> Waited (ssID ss) \<in> set xs \<and> Signaled (ssID ss) \<in> set ys)"
proof
  let ?s = "ssID ss"
  obtain q b where p: "p = q @ [b]" using assms(3) by (metis iterationBlocks_def rev_exhaust)
  then have "concat (map C p) = concat (map C q) @ C (last p)" by simp
  moreover have "subseq [WaitIfUnset ?s, SignalCall ?s] (C (last p))"
    unfolding assms(5) by (rule lastBlock_final [OF assms(1,2,4)])
  ultimately have "subseq [WaitIfUnset ?s, SignalCall ?s] (concat (map C p))"
    by (simp add: list_emb_append2)
  then obtain A B where T: "concat (map C p) = A @ WaitIfUnset ?s # B" "subseq [SignalCall ?s] B"
    by (auto dest: list_emb_ConsD)
  obtain us vs where reset: "concat (map C p) = us @ ResetState ?s # vs"
    "ResetState ?s \<notin> set us \<union> set vs" "WaitIfUnset ?s \<notin> set us"
    using iteration_resets [OF assms(1-3)] assms(5) by blast
  from waited_count [OF reset, of st] T(1)
  show "count_list (runBlocks False st C p) (Waited ?s) = 1" by (simp add: runBlocks_def)
  have split: "concat (map C p) = (A @ [WaitIfUnset ?s]) @ B" using T(1) by simp
  have "Waited ?s \<in> set (runSync False st (A @ [WaitIfUnset ?s]))"
    by (rule waited_before [OF reset split]) simp
  moreover have "Signaled ?s \<in> set (runSync False st' B)" for st'
    using T(2) signal_happens by (simp add: subseq_singleton_left)
  moreover have "runBlocks False st C p = runSync False st (A @ [WaitIfUnset ?s]) @
      runSync False (fold (\<lambda>I st. stateAfter st I) (A @ [WaitIfUnset ?s]) st) B"
    unfolding runBlocks_def split by (rule runSync_append)
  ultimately show "\<exists>xs ys. runBlocks False st C p = xs @ ys \<and> Waited ?s \<in> set xs \<and> Signaled ?s \<in> set ys"
    by blast
qed

text \<open>
  C24: a core that leaves the loop has waited exactly once for every segment in its last iteration, and
  signals every segment afterwards.
\<close>

theorem helix_leaves:
  assumes "sync_ok G sss code" and "ss \<in> set sss" and "iterationBlocks G p" and "last p \<in> set (lastBBs G)"
    and "C = addSynchronizations G sss preambleSCC code"
  shows "count_list (runBlocks False st C p) (Waited (ssID ss)) = 1 \<and>
    (\<exists>xs ys. runBlocks False st C p = xs @ ys \<and> Waited (ssID ss) \<in> set xs \<and> Signaled (ssID ss) \<in> set ys)"
  by (rule leaving_waits [OF assms])

section \<open>When the loop is over\<close>

lemma run_until_check:
  "\<forall>x. CheckLoopIsOver x \<notin> set A \<Longrightarrow>
   runSync True st (A @ CheckLoopIsOver ids # B) = runSync False st A @ map Signaled ids @ [LeftAtCheck]"
proof (induction A arbitrary: st)
  case (Cons I A)
  then show ?case by (cases I) (auto simp del: fun_upd_apply)
qed simp

lemma no_instruction_no_event: "\<forall>i. OrigInst i \<notin> set A \<Longrightarrow> Executed i \<notin> set (runSync False st A)"
proof (induction A arbitrary: st)
  case (Cons I A)
  then show ?case by (cases I) auto
qed simp

text \<open>
  C25: a core that finds the flag set waits for the sequential prologue, executes no instruction of the
  iteration, signals all segments, so that the next core gets through, and leaves.
\<close>

theorem helix_over_stops:
  assumes "sync_ok G sss code" and "ss \<in> set sss" and "preambleSegment preambleSCC sss = Some ss"
    and "iterationBlocks G p" and "C = addSynchronizations G sss preambleSCC code"
  shows "\<exists>xs. runBlocks True st C p = xs @ map Signaled (map ssID sss) @ [LeftAtCheck] \<and>
    Waited (ssID ss) \<in> set xs \<and> (\<forall>i. Executed i \<notin> set xs)"
proof -
  let ?h = "loopHeaderBB G" and ?check = "CheckLoopIsOver (map ssID sss)"
  have prologue: "map_option ssID (preambleSegment preambleSCC sss) = Some (ssID ss)" using assms(3) by simp
  note w = waits_final [OF assms(1,2) refl, where preambleSCC = preambleSCC, folded assms(5)]
  have "?check \<in> set (C ?h)" by (rule w(7) [OF prologue])
  then obtain A B where h: "C ?h = A @ ?check # B" "?check \<notin> set A" using split_list_first by metis
  have "WaitIfUnset (ssID ss) \<in> set A"
    by (rule precedes_first [OF w(5) [OF prologue, unfolded h(1)]]) simp
  have other: "\<forall>x. CheckLoopIsOver x \<notin> set A"
  proof (intro allI notI)
    fix x
    assume x: "CheckLoopIsOver x \<in> set A"
    then have "x = map ssID sss" using check_argument [OF assms(1)] assms(5) h(1) by (metis Un_iff set_append)
    then show False using x h(2) by simp
  qed
  have orig: "\<forall>i. OrigInst i \<notin> set A"
  proof (intro allI notI)
    fix i
    assume "OrigInst i \<in> set A"
    then have "?check \<in> set (takeWhile (\<lambda>I. I \<noteq> OrigInst i) A)"
      using w(6) [OF prologue, of i] unfolding h(1) by (simp add: precedes_def takeWhile_neq_present)
    then show False using h(2) by (auto dest: set_takeWhileD)
  qed
  obtain bs where p: "p = ?h # bs" using assms(4) by (cases p) (auto simp: iterationBlocks_def)
  have T: "concat (map C p) = A @ ?check # B @ concat (map C bs)" by (simp add: p h(1))
  have "runBlocks True st C p = runSync False st A @ map Signaled (map ssID sss) @ [LeftAtCheck]"
    unfolding runBlocks_def T by (rule run_until_check [OF other])
  moreover have "Waited (ssID ss) \<in> set (runSync False st A)"
    by (rule waited_event [OF assms(1,2,4)]) (use T assms(5) \<open>WaitIfUnset (ssID ss) \<in> set A\<close> in auto)
  moreover have "\<forall>i. Executed i \<notin> set (runSync False st A)" using no_instruction_no_event [OF orig] by blast
  ultimately show ?thesis by blast
qed

section \<open>A latch that ends a segment\<close>

lemma insertAfter_split: "f \<notin> set us \<Longrightarrow> insertAfter f new (us @ f # vs) = us @ f # new @ vs"
  by (simp add: insertAfter_def takeWhile_split)

lemma insertAfter_precedes:
  assumes "f \<in> set xs" "precedes f y xs" "z \<noteq> y" "f \<noteq> y"
  shows "precedes z y (insertAfter f [z] xs)"
proof -
  obtain us vs where xs: "xs = us @ f # vs" "f \<notin> set us" using assms(1) by (metis split_list_first)
  have "y \<notin> set us"
  proof
    assume "y \<in> set us"
    then have "f \<in> set (takeWhile (\<lambda>z. z \<noteq> y) us)" using assms(2) by (simp add: xs(1) precedes_def takeWhile_neq_present)
    then show False using xs(2) by (auto dest: set_takeWhileD)
  qed
  then have "precedes z y ((us @ [f, z]) @ vs)" by (intro precedes_behind) (use assms(3,4) in auto)
  then show ?thesis by (simp add: xs insertAfter_split)
qed

lemma codeGrows_precedes: "codeGrows S code code' \<Longrightarrow> y \<notin> S b \<Longrightarrow> precedes x y (code b) \<Longrightarrow> precedes x y (code' b)"
  using grows_precedes unfolding codeGrows_def by metis

lemma waitAtEntries_prefix:
  assumes "placed G sss code" "ss \<in> set sss" "code (loopHeaderBB G) = us @ I # vs" "\<not> isOrigInst I"
    "\<forall>J \<in> set us. isPhiInst J"
  shows "\<exists>vs. waitAtEntries G ss code (loopHeaderBB G) = us @ I # vs"
proof -
  let ?s = "ssID ss" and ?h = "loopHeaderBB G"
  have "\<exists>vs. fold (\<lambda>e. injectWait ?s (parentOf G e, OrigInst e)) es code ?h = us @ I # vs"
    if "set es \<subseteq> set (ssEntries ss)" for es
    using that assms(1,3)
  proof (induction es arbitrary: code vs)
    case (Cons e es)
    let ?c = "injectWait ?s (parentOf G e, OrigInst e) code"
    have e: "OrigInst e \<in> set (code (parentOf G e))" using Cons.prems(1,2) assms(2) by (simp add: placed_def)
    have g: "codeGrows (\<lambda>b. {LoadState ?s, WaitIfUnset ?s}) code ?c"
      by (rule codeGrows_mono [OF injectWait_grows]) (use e in auto)
    have "\<exists>vs. ?c ?h = us @ I # vs"
    proof (cases "parentOf G e = ?h")
      case True
      have "OrigInst e \<notin> set us" using assms(5) by (metis isPhiInst.simps(2))
      moreover have "OrigInst e \<noteq> I" using assms(4) by auto
      ultimately show ?thesis
        using Cons.prems(3) by (simp add: injectWait_def True insertBefore_def takeWhile_neq_absent)
    qed (use Cons.prems(3) in \<open>simp add: injectWait_def\<close>)
    then obtain vs' where "?c ?h = us @ I # vs'" by blast
    from Cons.IH [OF _ placed_grows [OF Cons.prems(2) g] this] Cons.prems(1) show ?case by simp
  qed simp
  then show ?thesis by (simp add: waitAtEntries_def)
qed

lemma withWaits_prefix:
  assumes "terminated code" "placed G sss code" "ss \<in> set sss"
    "\<forall>I \<in> {ResetState (ssID ss), LoadState (ssID ss), WaitIfUnset (ssID ss)}. I \<notin> set (code (loopHeaderBB G))"
  shows "\<exists>us vs. withWaits G sss prologue ss code (loopHeaderBB G) = us @ ResetState (ssID ss) # vs \<and>
    (\<forall>I \<in> set us. isPhiInst I)"
proof (cases prologue)
  case True
  from prologue_header [OF assms(1,4), of sss] True show ?thesis by auto
next
  case False
  let ?c = "resetState G (ssID ss) code"
  obtain us vs where h: "?c (loopHeaderBB G) = us @ ResetState (ssID ss) # vs" "\<forall>I \<in> set us. isPhiInst I"
    using resetState_header [OF assms(1)] assms(4) by blast
  have "placed G sss ?c" by (rule placed_grows [OF assms(2) resetState_grows [OF assms(1)]])
  from waitAtEntries_prefix [OF this assms(3) h(1) _ h(2)] False h(2) show ?thesis
    by (auto simp: withWaits_def Let_def)
qed

lemma firstNonPHI_prefix: "\<forall>J \<in> set us. isPhiInst J \<Longrightarrow> \<not> isPhiInst I \<Longrightarrow> firstNonPHI (us @ I # vs) = I"
  by (simp add: firstNonPHI_def dropWhile_append)

lemma latch_signal:
  assumes "sync_ok G sss code" "ss \<in> set sss" "x \<in> set (ssExits ss)"
    and "last (code (parentOf G x)) = OrigInst x" "length (successorBBs G (parentOf G x)) \<noteq> 1"
    and "loopHeaderBB G \<in> set (successorBBs G (parentOf G x))"
    and "y = WaitIfUnset (ssID ss) \<or> y = OrigInst i"
  shows "precedes (SignalCall (ssID ss)) y (addSynchronizations G sss preambleSCC code (loopHeaderBB G))"
proof -
  let ?s = "ssID ss" and ?h = "loopHeaderBB G"
  define preamble where "preamble = map_option ssID (preambleSegment preambleSCC sss)"
  define prologue where "prologue = (preamble = Some ?s)"
  obtain code1 where code1: "terminated code1" "placed G sss code1" "codeGrows (insertsBefore G preamble ?s) code code1"
    "codeGrows (\<lambda>b. foreignInserts preamble ?s) (synchronizeSegment G sss preamble ss code1)
       (addSynchronizations G sss preambleSCC code)"
    using stage [OF assms(1,2) preamble_def] by blast
  note header = stage_header(1) [OF assms(1) code1(3)]
  define w where "w = withWaits G sss prologue ss code1"
  have g: "codeGrows (segmentInserts G sss preamble ?s) code1 w"
    using withWaits_grows [OF code1(1,2) assms(2), of preamble] by (simp add: w_def prologue_def)
  note tw = terminated_grows [OF code1(1) g] and pw = placed_grows [OF code1(2) g]
  obtain us vs where wh: "w ?h = us @ ResetState ?s # vs" "\<forall>I \<in> set us. isPhiInst I"
    using withWaits_prefix [OF code1(1,2) assms(2) header] unfolding w_def by blast
  define points where "points = exitPoints G prologue ss w"
  have "last (w (parentOf G x)) = OrigInst x"
    using assms(4) grows_last code1(3) g unfolding codeGrows_def by metis
  then have "(?h, ResetState ?s) \<in> set (pointsOfExit G w x)"
    using assms(5,6) firstNonPHI_prefix [OF wh(2), of "ResetState ?s" vs] wh(1)
    by (auto simp: pointsOfExit_def Let_def image_iff intro!: bexI [of _ ?h])
  then have "(?h, ResetState ?s) \<in> set points" using assms(3) by (auto simp: points_def exitPoints_def)
  then obtain pre post where points: "points = pre @ (?h, ResetState ?s) # post" by (metis split_list)
  let ?S = "{SignalCall ?s} \<union> (if prologue then {SetLoopIsOver} else {})"
  have in_w: "\<forall>p \<in> set points. snd p \<in> set (w (fst p))"
    unfolding points_def using exitPoints_mem [OF tw pw assms(2)] by blast
  define c where "c = fold (signalExit G prologue ?s) pre w"
  have gc: "codeGrows (\<lambda>b. ?S) w c" unfolding c_def by (rule signalExits_grows [OF tw]) (use in_w points in auto)
  note tc = terminated_grows [OF tw gc]
  have in_c: "\<forall>p \<in> set points. snd p \<in> set (c (fst p))" using in_w point_grows [OF gc] by blast
  have y: "y \<notin> ?S" "y \<notin> foreignInserts preamble ?s" using assms(7) by (auto simp: foreignInserts_def)
  have "precedes (ResetState ?s) y (w ?h)"
  proof (cases "y = WaitIfUnset ?s")
    case True
    then show ?thesis using withWaits_header(2) [OF code1(1,2) assms(2) header] by (simp add: w_def)
  next
    case False
    then have "y \<notin> set us" using assms(7) wh(2) by auto
    then show ?thesis using precedes_behind [of "ResetState ?s" "us @ [ResetState ?s]" y vs] assms(7) by (auto simp: wh(1))
  qed
  then have reset: "precedes (ResetState ?s) y (c ?h)" by (rule codeGrows_precedes [OF gc y(1)])
  have mem: "ResetState ?s \<in> set (c ?h)" using in_c points by auto
  have "last (c ?h) = last (code ?h)"
    using grows_last code1(3) g gc unfolding codeGrows_def by metis
  then have notlast: "ResetState ?s \<noteq> last (c ?h)" using original_last [OF assms(1), of ?h]
    by (metis isOrigInst.simps(3))
  have "injectSignal G ?s (?h, ResetState ?s) c ?h = insertAfter (ResetState ?s) [SignalCall ?s] (c ?h)"
    using injectSignal_here(1) [of "(?h, ResetState ?s)" c G ?s] mem notlast by simp
  then have 1: "precedes (SignalCall ?s) y (injectSignal G ?s (?h, ResetState ?s) c ?h)"
    using insertAfter_precedes [OF mem reset] assms(7) by auto
  have g1: "codeGrows (\<lambda>b. ?S) (injectSignal G ?s (?h, ResetState ?s) c) (signalExit G prologue ?s (?h, ResetState ?s) c)"
  proof -
    have "ResetState ?s \<in> set (injectSignal G ?s (?h, ResetState ?s) c ?h)"
      using point_grows [OF injectSignal_grows [OF tc] mem] mem by simp
    then have "codeGrows (\<lambda>b. {SetLoopIsOver}) (injectSignal G ?s (?h, ResetState ?s) c)
        (injectExitFlagSet (?h, ResetState ?s) (injectSignal G ?s (?h, ResetState ?s) c))"
      unfolding injectExitFlagSet_def by (intro codeGrows_upd insertBefore_grows) auto
    then show ?thesis
      by (cases "prologue \<and> \<not> isIncludedInst G (injectSignal G ?s (?h, ResetState ?s) c) (?h, ResetState ?s)")
        (auto simp: signalExit_def Let_def elim: codeGrows_mono)
  qed
  have 2: "precedes (SignalCall ?s) y (signalExit G prologue ?s (?h, ResetState ?s) c ?h)"
    by (rule codeGrows_precedes [OF g1 y(1) 1])
  note g2 = signalExit_grows [of c "(?h, ResetState ?s)" ?s prologue G, OF tc]
  have "codeGrows (\<lambda>b. ?S) (signalExit G prologue ?s (?h, ResetState ?s) c)
      (fold (signalExit G prologue ?s) post (signalExit G prologue ?s (?h, ResetState ?s) c))"
    by (rule signalExits_grows) (use terminated_grows [OF tc g2] point_grows [OF g2] in_c mem points in auto)
  from codeGrows_precedes [OF this y(1) 2] have "precedes (SignalCall ?s) y (fold (signalExit G prologue ?s) points w ?h)"
    by (simp add: points c_def)
  then have "precedes (SignalCall ?s) y (synchronizeSegment G sss preamble ss code1 ?h)"
    by (simp add: synchronizeSegment_eq Let_def points_def w_def prologue_def)
  then show ?thesis by (rule codeGrows_precedes [OF code1(4) y(2)])
qed

text \<open>
  C28: if a segment ends with a branch of a latch, which has several successors, its signal is put at the
  start of the header: every iteration, the first one included, signals the segment before it waits for
  it and before it executes anything, so the next iteration does not wait for this one.
\<close>

theorem helix_latch_signals_early:
  assumes "sync_ok G sss code" and "ss \<in> set sss" and "x \<in> set (ssExits ss)"
    and "last (code (parentOf G x)) = OrigInst x" and "length (successorBBs G (parentOf G x)) \<noteq> 1"
    and "loopHeaderBB G \<in> set (successorBBs G (parentOf G x))" and "iterationBlocks G p"
    and "C = addSynchronizations G sss preambleSCC code"
  shows "\<exists>xs ys. runBlocks False st C p = xs @ Signaled (ssID ss) # ys \<and> Waited (ssID ss) \<notin> set xs \<and>
    (\<forall>i. Executed i \<notin> set xs)"
proof -
  let ?s = "ssID ss" and ?h = "loopHeaderBB G"
  note early = latch_signal [OF assms(1-6), of _ _ preambleSCC, folded assms(8)]
  obtain i where "last (code ?h) = OrigInst i"
    using original_last [OF assms(1), of ?h] by (metis isOrigInst.elims(2))
  moreover have "last (C ?h) = last (code ?h)" "C ?h \<noteq> []"
  proof -
    note g = addSynchronizations_grows [OF assms(1), of preambleSCC, folded assms(8)]
    have "code ?h \<noteq> []" using assms(1) by (simp add: sync_ok_def terminated_def)
    then show "last (C ?h) = last (code ?h)" "C ?h \<noteq> []" using g grows_last unfolding codeGrows_def by metis+
  qed
  ultimately have "OrigInst i \<in> set (C ?h)" using last_in_set by metis
  then have "SignalCall ?s \<in> set (C ?h)" using early [of "OrigInst i" i] by (auto simp: precedes_def dest: set_takeWhileD)
  then obtain A B where h: "C ?h = A @ SignalCall ?s # B" "SignalCall ?s \<notin> set A" using split_list_first by metis
  have absent: "y \<notin> set A" if "y = WaitIfUnset ?s \<or> y = OrigInst j" for y j
  proof
    assume "y \<in> set A"
    then have "SignalCall ?s \<in> set (takeWhile (\<lambda>I. I \<noteq> y) A)"
      using early [OF that] unfolding h(1) by (simp add: precedes_def takeWhile_neq_present)
    then show False using h(2) by (auto dest: set_takeWhileD)
  qed
  obtain bs where p: "p = ?h # bs" using assms(7) by (cases p) (auto simp: iterationBlocks_def)
  have "concat (map C p) = A @ SignalCall ?s # B @ concat (map C bs)" by (simp add: p h(1))
  then have "runBlocks False st C p = runSync False st A @ Signaled ?s #
      runSync False (fold (\<lambda>I st. stateAfter st I) A st) (B @ concat (map C bs))"
    by (simp add: runBlocks_def runSync_append del: fun_upd_apply)
  moreover have "Waited ?s \<notin> set (runSync False st A)" by (rule no_wait_no_event) (use absent in blast)
  moreover have "\<forall>i. Executed i \<notin> set (runSync False st A)" using no_instruction_no_event absent by blast
  ultimately show ?thesis by blast
qed

section \<open>A loop with a conditional update\<close>

text \<open>
  The loop \<open>updateLoop\<close> of \<open>Segment_Coverage\<close>, with a segment from the load (0) to the given exits: the
  store (2), or the branch of the latch (4).
\<close>

definition update_sync :: sync_loop where
  "update_sync = \<lparr>loopHeaderBB = 0, loopExitBBs = [3], lastBBs = [3], lastIterationExecutionBlock = None,
     successorBBs = (\<lambda>b. if b = 0 then [1, 2] else if b = 1 then [2] else if b = 2 then [0, 3] else []),
     endsInBranch = (\<lambda>b. b < 3), parentOf = (\<lambda>i. if i \<le> 1 then 0 else if i \<le> 3 then 1 else i - 2),
     isIncludedBB = (\<lambda>b split. b < 3 \<and> \<not> split)\<rparr>"

definition update_code :: sync_code where
  "update_code b = (if b = 0 then [OrigInst 0, OrigInst 1] else if b = 1 then [OrigInst 2, OrigInst 3]
     else [OrigInst (b + 2)])"

definition update_segment :: "nat list \<Rightarrow> sync_segment" where
  "update_segment exits = \<lparr>ssID = 0, ssSCCs = [7], ssEntries = [0], ssExits = exits\<rparr>"

lemma update_sync_ok:
  assumes "set exits \<subseteq> {2, 4}"
  shows "sync_ok update_sync [update_segment exits] update_code"
proof -
  have "placed update_sync [update_segment exits] update_code"
    using assms by (auto simp: placed_def update_sync_def update_code_def update_segment_def)
  then show ?thesis
    by (auto simp: sync_ok_def terminated_def update_sync_def update_code_def update_segment_def leavingBlocks_def jumps_def)
qed

lemma update_paths: "iterationBlocks update_sync [0, 1, 2]" "iterationBlocks update_sync [0, 2, 3]"
  by (simp_all add: iterationBlocks_def update_sync_def)

abbreviation update_result :: "nat list \<Rightarrow> nat option \<Rightarrow> sync_code" where
  "update_result exits preamble \<equiv> addSynchronizations update_sync [update_segment exits] preamble update_code"

lemma split_execution: "Executed i \<in> set ev \<Longrightarrow> ev = takeWhile (\<lambda>e. e \<noteq> Executed i) ev @ Executed i # tl (dropWhile (\<lambda>e. e \<noteq> Executed i) ev)"
  by (rule split_at)

theorem helix_waits_once_witness:
  "count_list (runBlocks False (\<lambda>s. True) (update_result [2] None) [0, 1, 2]) (Waited 0) \<le> 1 \<and>
   Waited 0 \<in> set (takeWhile (\<lambda>e. e \<noteq> Executed 0) (runBlocks False (\<lambda>s. True) (update_result [2] None) [0, 1, 2]))"
proof -
  let ?ev = "runBlocks False (\<lambda>s. True) (update_result [2] None) [0, 1, 2]"
  have "Executed 0 \<in> set ?ev" by code_simp
  from split_execution [OF this]
  have ev: "?ev = takeWhile (\<lambda>e. e \<noteq> Executed 0) ?ev @ Executed 0 # tl (dropWhile (\<lambda>e. e \<noteq> Executed 0) ?ev)" .
  have "map_option ssID (preambleSegment None [update_segment [2]]) \<noteq> Some 0" "0 \<in> set (ssEntries (update_segment [2]))"
    "ssID (update_segment [2]) = 0" by (simp_all add: preambleSegment_def update_segment_def)
  with helix_waits_once [OF update_sync_ok _ update_paths(1) refl, of "[2]" "update_segment [2]" "\<lambda>s. True" None] ev
  show ?thesis by (metis (no_types, lifting) empty_subsetI insertI1 insert_subset list.set(1,2) list.set_intros(1))
qed

theorem helix_leaves_witness:
  "count_list (runBlocks False (\<lambda>s. True) (update_result [2] None) [0, 2, 3]) (Waited 0) = 1"
  using helix_leaves [OF update_sync_ok _ update_paths(2) _ refl, of "[2]" "update_segment [2]" "\<lambda>s. True" None]
  by (simp add: update_segment_def) (simp add: update_sync_def)

theorem helix_over_stops_witness:
  "\<exists>xs. runBlocks True (\<lambda>s. True) (update_result [2] (Some 7)) [0, 1, 2] = xs @ [Signaled 0, LeftAtCheck]"
proof -
  have "preambleSegment (Some 7) [update_segment [2]] = Some (update_segment [2])"
    by (simp add: preambleSegment_def update_segment_def)
  from helix_over_stops [OF update_sync_ok _ this update_paths(1) refl, of "\<lambda>s. True"]
  show ?thesis by (auto simp: update_segment_def)
qed

text \<open>With the branch of the latch as the exit, the first thing an iteration does is to signal.\<close>

theorem helix_latch_signals_early_witness:
  "\<exists>xs ys. runBlocks False (\<lambda>s. False) (update_result [4] None) [0, 1, 2] = xs @ Signaled 0 # ys \<and>
     Waited 0 \<notin> set xs \<and> Executed 0 \<notin> set xs"
proof -
  have "\<exists>xs ys. runBlocks False (\<lambda>s. False) (update_result [4] None) [0, 1, 2] = xs @ Signaled (ssID (update_segment [4])) # ys \<and>
      Waited (ssID (update_segment [4])) \<notin> set xs \<and> (\<forall>i. Executed i \<notin> set xs)"
    by (rule helix_latch_signals_early [OF update_sync_ok _ _ _ _ _ update_paths(1) refl, of _ _ 4])
      (simp_all add: update_segment_def update_sync_def update_code_def)
  then show ?thesis by (auto simp: update_segment_def)
qed

end
