(* ===== verification/Helix_Ring.thy ===== *)
theory Helix_Ring
  imports Runtime_Helix Helix_Sync_Correct
begin

text \<open>
  The cores of a HELIX loop. Core \<open>c\<close> of \<open>n\<close> executes the iterations \<open>c\<close>, \<open>c + n\<close>, \<open>c + 2 n\<close>, ... one
  instruction at a time, in any interleaving with the others: the code \<open>addSynchronizations\<close> leaves in the
  task, on the locks the dispatcher lays out. Stores are seen by the other cores in the order they happen.
\<close>

section \<open>Executions\<close>

text \<open>\<open>left\<close>: the core found the flag set and is on its way out.\<close>

record helix_core =
  iter :: nat
  rest :: "sync_inst list"
  ssState :: "nat \<Rightarrow> bool"
  left :: bool

text \<open>\<open>trace\<close> is the history of the events, each with its iteration.\<close>

record helix_ring =
  locks :: lock_memory
  loopIsOver :: bool
  cores :: "helix_core list"
  trace :: "(nat \<times> sync_event) list"

abbreviation ss_lock :: "u64 \<Rightarrow> nat \<Rightarrow> u64" where
  "ss_lock \<equiv> getPointerOfSequentialSegment CACHE_LINE_SIZE"

text \<open>
  One instruction other than the check of the flag: the \<open>ssState\<close> variables, the locks and the flag
  afterwards and what is observed. \<open>None\<close> while the core spins.
\<close>

fun runInst ::
    "helix_call \<Rightarrow> sync_inst \<Rightarrow> (nat \<Rightarrow> bool) \<Rightarrow> lock_memory \<Rightarrow> bool \<Rightarrow>
     ((nat \<Rightarrow> bool) \<times> lock_memory \<times> bool \<times> sync_event list) option" where
  "runInst call (PhiInst i) st m over = Some (st, m, over, [])"
| "runInst call (OrigInst i) st m over = Some (st, m, over, [Executed i])"
| "runInst call (ResetState s) st m over = Some (st(s := False), m, over, [])"
| "runInst call (LoadState s) st m over = Some (st, m, over, [])"
| "runInst call (WaitIfUnset s) st m over =
     (if st s then Some (st, m, over, [])
      else case HELIX_wait (ss_lock (c_past call) s) m of
             None \<Rightarrow> None
           | Some m \<Rightarrow> Some (st(s := True), m, over, [Waited s]))"
| "runInst call (SignalCall s) st m over =
     Some (st, HELIX_signal (ss_lock (c_future call) s) m, over, [Signaled s])"
| "runInst call SetLoopIsOver st m over = Some (st, m, True, [LoopIsOver])"
| "runInst call (CheckLoopIsOver ids) st m over = None"

text \<open>
  The loop completes \<open>N\<close> iterations; \<open>body i\<close> is the code of the blocks on the path through iteration
  \<open>i\<close>, from iteration \<open>N\<close> on a path that leaves. \<open>calls c\<close> is the call core \<open>c\<close> got.
\<close>

inductive helix_step ::
    "nat \<Rightarrow> (nat \<Rightarrow> sync_inst list) \<Rightarrow> (nat \<Rightarrow> helix_call) \<Rightarrow> helix_ring \<Rightarrow> helix_ring \<Rightarrow> bool"
  for N body calls where
  instruction: "c < length (cores s) \<Longrightarrow> cores s ! c = k \<Longrightarrow> rest k = I # Is \<Longrightarrow>
     runInst (calls c) I (ssState k) (locks s) (loopIsOver s) = Some (st, m, over, ev) \<Longrightarrow>
     helix_step N body calls s
       (s\<lparr>locks := m, loopIsOver := over, cores := (cores s)[c := k\<lparr>rest := Is, ssState := st\<rparr>],
          trace := trace s @ map (Pair (iter k)) ev\<rparr>)"
| check: "c < length (cores s) \<Longrightarrow> cores s ! c = k \<Longrightarrow> rest k = CheckLoopIsOver ids # Is \<Longrightarrow>
     helix_step N body calls s
       (s\<lparr>cores := (cores s)[c := if loopIsOver s then k\<lparr>rest := map SignalCall ids, left := True\<rparr>
                                 else k\<lparr>rest := Is\<rparr>]\<rparr>)"
| iterate: "c < length (cores s) \<Longrightarrow> cores s ! c = k \<Longrightarrow> rest k = [] \<Longrightarrow> \<not> left k \<Longrightarrow> iter k < N \<Longrightarrow>
     helix_step N body calls s
       (s\<lparr>cores := (cores s)[c := k\<lparr>iter := iter k + length (cores s),
                                    rest := body (iter k + length (cores s))\<rparr>]\<rparr>)"

text \<open>The variables \<open>ssState\<close> are not initialised.\<close>

definition helix_start :: "nat \<Rightarrow> (nat \<Rightarrow> sync_inst list) \<Rightarrow> (nat \<Rightarrow> nat \<Rightarrow> bool) \<Rightarrow> lock_memory \<Rightarrow> helix_ring" where
  "helix_start n body junk m =
     \<lparr>locks = m, loopIsOver = False,
      cores = map (\<lambda>c. \<lparr>iter = c, rest = body c, ssState = junk c, left = False\<rparr>) [0..<n], trace = []\<rparr>"

definition eventsOf :: "helix_ring \<Rightarrow> nat \<Rightarrow> sync_event list" where
  "eventsOf s i = map snd (filter (\<lambda>e. fst e = i) (trace s))"

section \<open>What one core has to do\<close>

definition syncsOf :: "nat \<Rightarrow> sync_event list \<Rightarrow> sync_event list" where
  "syncsOf s ev = filter (\<lambda>e. e = Waited s \<or> e = Signaled s) ev"

definition noCheck :: "sync_inst list \<Rightarrow> bool" where
  "noCheck Is \<longleftrightarrow> (\<forall>ids. CheckLoopIsOver ids \<notin> set Is)"

definition segmentsBelow :: "nat \<Rightarrow> sync_inst list \<Rightarrow> bool" where
  "segmentsBelow S Is \<longleftrightarrow> (\<forall>s. WaitIfUnset s \<in> set Is \<or> SignalCall s \<in> set Is \<longrightarrow> s < S)"

text \<open>
  Each of the \<open>N\<close> iterations waits once for every segment and then signals it once; the leaving ones wait
  once and signal afterwards. With a sequential prologue \<open>p\<close>, an iteration waits for it and checks the flag
  before anything else, and the iteration that leaves the loop sets the flag before it signals \<open>p\<close>.
\<close>

definition iterations_ok ::
    "nat \<Rightarrow> nat \<Rightarrow> nat \<Rightarrow> nat option \<Rightarrow> (nat \<Rightarrow> sync_inst list) \<Rightarrow> bool" where
  "iterations_ok n N S preamble body \<longleftrightarrow>
     (\<forall>i < N + n. segmentsBelow S (body i)) \<and>
     (\<forall>i < N. \<forall>st. LoopIsOver \<notin> set (runSync False st (body i)) \<and>
        (\<forall>s < S. syncsOf s (runSync False st (body i)) = [Waited s, Signaled s])) \<and>
     (\<forall>i < N + n. i = N \<or> N < i \<and> preamble = None \<longrightarrow>
        (\<forall>st. \<forall>s < S. \<exists>k. syncsOf s (runSync False st (body i)) = Waited s # replicate (Suc k) (Signaled s))) \<and>
     (case preamble of
        None \<Rightarrow> \<forall>i < N + n. noCheck (body i)
      | Some p \<Rightarrow> p < S \<and> (\<forall>st. precedes LoopIsOver (Signaled p) (runSync False st (body N))) \<and>
          (\<forall>i < N + n. \<exists>A B. body i = A @ CheckLoopIsOver [0..<S] # B \<and> noCheck A \<and> noCheck B \<and>
             (\<forall>st. runSync False st A = [Waited p])))"

text \<open>The events of a whole iteration.\<close>

definition complete ::
    "nat \<Rightarrow> nat \<Rightarrow> nat option \<Rightarrow> (nat \<Rightarrow> sync_inst list) \<Rightarrow> nat \<Rightarrow> sync_event list \<Rightarrow> bool" where
  "complete N S preamble body i E \<longleftrightarrow>
     (case preamble of
        Some p \<Rightarrow> if N < i then E = Waited p # map Signaled [0..<S] else \<exists>st. E = runSync False st (body i)
      | None \<Rightarrow> \<exists>st. E = runSync False st (body i))"

text \<open>Up to which iteration a segment keeps its order: behind \<open>N\<close> only the prologue is waited for.\<close>

definition lastOrdered :: "nat \<Rightarrow> nat \<Rightarrow> nat option \<Rightarrow> nat \<Rightarrow> nat" where
  "lastOrdered n N preamble s = (case preamble of Some p \<Rightarrow> if s = p then N + n - 1 else N | None \<Rightarrow> N + n - 1)"

lemma complete_shape:
  assumes "iterations_ok n N S preamble body" "complete N S preamble body i E" "i < N + n" "s < S"
  shows "i < N \<Longrightarrow> syncsOf s E = [Waited s, Signaled s]"
    and "i \<le> lastOrdered n N preamble s \<Longrightarrow> \<exists>k. syncsOf s E = Waited s # replicate (Suc k) (Signaled s)"
    and "lastOrdered n N preamble s < i \<Longrightarrow> Waited s \<notin> set E"
proof -
  show "syncsOf s E = [Waited s, Signaled s]" if "i < N"
    using assms that by (auto simp: iterations_ok_def complete_def split: option.splits if_splits)
  have over: "syncsOf s (Waited s # map Signaled [0..<S]) = Waited s # replicate (Suc 0) (Signaled s)"
  proof -
    have "[0..<S] = [0..<s] @ s # [Suc s..<S]"
      using assms(4) by (metis less_imp_le_nat plus_nat.add_0 upt_add_eq_append upt_conv_Cons zero_le le_add_diff_inverse)
    then show ?thesis by (auto simp: syncsOf_def filter_empty_conv)
  qed
  show "\<exists>k. syncsOf s E = Waited s # replicate (Suc k) (Signaled s)" if "i \<le> lastOrdered n N preamble s"
  proof (cases "preamble \<noteq> None \<and> N < i")
    case True
    then obtain p where p: "preamble = Some p" "N < i" by auto
    then have "s = p" using that by (simp add: lastOrdered_def split: if_splits)
    then have "E = Waited s # map Signaled [0..<S]" using assms(2) p by (simp add: complete_def)
    then show ?thesis using over by blast
  next
    case False
    then obtain st where E: "E = runSync False st (body i)"
      using assms(2) by (auto simp: complete_def split: option.splits if_splits)
    consider "i < N" | "i = N \<or> N < i \<and> preamble = None" using False by force
    then show ?thesis
    proof cases
      case 1
      then show ?thesis using assms(1,4) E by (intro exI [of _ 0]) (simp add: iterations_ok_def)
    next
      case 2
      then show ?thesis using assms(1,3,4) E unfolding iterations_ok_def by blast
    qed
  qed
  show "Waited s \<notin> set E" if "lastOrdered n N preamble s < i"
    using that assms(2,3) by (auto simp: lastOrdered_def complete_def split: option.splits if_splits)
qed

text \<open>What has happened so far in an iteration, of which there is more to come.\<close>

lemma complete_exists: "\<exists>F. complete N S preamble body i F"
  by (cases preamble; cases "N < i") (auto simp: complete_def)

lemma prefix_cases:
  "xs @ ys = a # replicate k b \<Longrightarrow> xs = [] \<or> (\<exists>j. xs = a # replicate j b)"
proof (induction k arbitrary: xs ys)
  case 0
  then show ?case by (cases xs) auto
next
  case (Suc k)
  show ?case
  proof (cases ys rule: rev_cases)
    case Nil
    then have "xs = a # replicate (Suc k) b" using Suc.prems by simp
    then show ?thesis by blast
  next
    case (snoc zs z)
    then have "xs @ zs = a # replicate k b" using Suc.prems by (simp add: replicate_append_same [symmetric])
    then show ?thesis by (rule Suc.IH)
  qed
qed

lemma pair_prefix: "xs @ ys = [a, b] \<Longrightarrow> b \<in> set xs \<Longrightarrow> a \<noteq> b \<Longrightarrow> ys = []"
  by (auto simp: append_eq_Cons_conv)

lemma syncsOf_append: "syncsOf s (xs @ ys) = syncsOf s xs @ syncsOf s ys"
  by (simp add: syncsOf_def)

lemma syncsOf_mem [simp]:
  "Waited s \<in> set (syncsOf s E) \<longleftrightarrow> Waited s \<in> set E" "Signaled s \<in> set (syncsOf s E) \<longleftrightarrow> Signaled s \<in> set E"
  by (simp_all add: syncsOf_def)

lemma partial_shape:
  assumes "iterations_ok n N S preamble body" "complete N S preamble body i (E @ F)" "i < N + n" "s < S"
    and "i \<le> lastOrdered n N preamble s"
  shows "Signaled s \<in> set E \<Longrightarrow> Waited s \<in> set E"
    and "Waited s \<in> set E \<Longrightarrow> Waited s \<notin> set F"
    and "Waited s \<notin> set E \<Longrightarrow> Signaled s \<notin> set E"
    and "i < N \<Longrightarrow> Signaled s \<in> set E \<Longrightarrow> Signaled s \<notin> set F"
proof -
  obtain k where k: "syncsOf s E @ syncsOf s F = Waited s # replicate (Suc k) (Signaled s)"
    using complete_shape(2) [OF assms] by (auto simp: syncsOf_append)
  from prefix_cases [OF k] consider "syncsOf s E = []" | j where "syncsOf s E = Waited s # replicate j (Signaled s)" by blast
  note cases = this
  show W: "Waited s \<in> set E" if "Signaled s \<in> set E"
    using cases by cases (use that in \<open>metis list.set_intros(1) syncsOf_mem empty_iff list.set(1)\<close>)+
  then show "Signaled s \<notin> set E" if "Waited s \<notin> set E" using that by blast
  show "Waited s \<notin> set F" if w: "Waited s \<in> set E"
  proof -
    obtain j where j: "syncsOf s E = Waited s # replicate j (Signaled s)"
      using prefix_cases [OF k] w by (metis syncsOf_mem(1) empty_iff list.set(1))
    then have "set (syncsOf s F) \<subseteq> {Signaled s}"
      using k by (metis append_Cons list.inject set_append set_replicate_Suc Un_upper2)
    moreover have "Waited s \<notin> {Signaled s}" by simp
    ultimately have "Waited s \<notin> set (syncsOf s F)" by (meson subsetD)
    then show ?thesis by simp
  qed
  show "Signaled s \<notin> set F" if "i < N" "Signaled s \<in> set E"
  proof -
    have "syncsOf s E @ syncsOf s F = [Waited s, Signaled s]"
      using complete_shape(1) [OF assms(1-4) that(1)] by (simp add: syncsOf_append)
    moreover have "Signaled s \<in> set (syncsOf s E)" using that(2) by simp
    ultimately have "syncsOf s F = []" by (rule pair_prefix) simp
    then show ?thesis using syncsOf_mem(2) [of s F] by simp
  qed
qed

lemma complete_syncs:
  assumes "iterations_ok n N S preamble body" "complete N S preamble body i E" "i < N + n" "s < S"
    and "i \<le> lastOrdered n N preamble s"
  shows "Waited s \<in> set E" "Signaled s \<in> set E"
proof -
  from complete_shape(2) [OF assms] obtain k where "syncsOf s E = Waited s # replicate (Suc k) (Signaled s)" by blast
  then have "Waited s \<in> set (syncsOf s E)" "Signaled s \<in> set (syncsOf s E)" by simp_all
  then show "Waited s \<in> set E" "Signaled s \<in> set E" by simp_all
qed

lemma not_waited_for:
  assumes "iterations_ok n N S preamble body" "complete N S preamble body i (E @ F)" "i < N + n" "s < S"
    and "Waited s \<in> set F"
  shows "i \<le> lastOrdered n N preamble s"
  using complete_shape(3) [OF assms(1-4)] assms(5) by (metis Un_iff not_le set_append)

section \<open>A core within its iteration\<close>

text \<open>
  What is left of the code adds up to a whole iteration; before the check of the flag a core has at most
  waited for the prologue, behind it no check follows.
\<close>

definition core_ok ::
    "nat \<Rightarrow> nat \<Rightarrow> nat option \<Rightarrow> (nat \<Rightarrow> sync_inst list) \<Rightarrow> helix_core \<Rightarrow> sync_event list \<Rightarrow> bool" where
  "core_ok N S preamble body k E \<longleftrightarrow>
     segmentsBelow S (rest k) \<and>
     (\<not> left k \<longrightarrow> (\<exists>st. E @ runSync False (ssState k) (rest k) = runSync False st (body (iter k)))) \<and>
     (case preamble of
        None \<Rightarrow> \<not> left k \<and> noCheck (rest k)
      | Some p \<Rightarrow>
          (\<not> left k \<and> (\<exists>A B. rest k = A @ CheckLoopIsOver [0..<S] # B \<and> noCheck A \<and> noCheck B \<and>
             E @ runSync False (ssState k) A = [Waited p])) \<or>
          (\<not> left k \<and> noCheck (rest k) \<and> iter k \<le> N \<and> Waited p \<in> set E) \<or>
          (left k \<and> N < iter k \<and> (\<exists>j \<le> S. rest k = map SignalCall [j..<S] \<and> E = Waited p # map Signaled [0..<j])))"

lemma core_ok_start:
  assumes "iterations_ok n N S preamble body" "i < N + n"
  shows "core_ok N S preamble body \<lparr>iter = i, rest = body i, ssState = st, left = False\<rparr> []"
proof (cases preamble)
  case None
  then have "segmentsBelow S (body i)" "noCheck (body i)" using assms by (simp_all add: iterations_ok_def)
  then show ?thesis using None by (auto simp: core_ok_def)
next
  case (Some p)
  then have "segmentsBelow S (body i)"
    "\<exists>A B. body i = A @ CheckLoopIsOver [0..<S] # B \<and> noCheck A \<and> noCheck B \<and> (\<forall>st. runSync False st A = [Waited p])"
    using assms by (simp_all add: iterations_ok_def)
  then obtain A B where "segmentsBelow S (body i)" "body i = A @ CheckLoopIsOver [0..<S] # B" "noCheck A" "noCheck B"
    "runSync False st A = [Waited p]" by blast
  then show ?thesis unfolding core_ok_def Some option.case helix_core.simps append_Nil
    by (intro conjI impI exI [of _ st] disjI1 exI [of _ A] exI [of _ B]) simp_all
qed

lemma core_ok_partial:
  assumes "core_ok N S preamble body k E"
  shows "\<exists>F. complete N S preamble body (iter k) (E @ F)"
proof (cases "left k")
  case True
  then obtain p j where p: "preamble = Some p" "N < iter k" "j \<le> S" "E = Waited p # map Signaled [0..<j]"
    using assms by (auto simp: core_ok_def split: option.splits)
  have "E @ map Signaled [j..<S] = Waited p # map Signaled [0..<S]"
    using upt_add_eq_append [of 0 j "S - j"] p(3,4) by (simp flip: map_append)
  then show ?thesis using p(1,2) by (auto simp: complete_def)
next
  case False
  then obtain st where st: "E @ runSync False (ssState k) (rest k) = runSync False st (body (iter k))"
    using assms by (auto simp: core_ok_def)
  show ?thesis
  proof (cases "preamble \<noteq> None \<and> N < iter k")
    case True
    then obtain p where p: "preamble = Some p" "N < iter k" by auto
    then obtain A where "E @ runSync False (ssState k) A = [Waited p]"
      using assms False by (auto simp: core_ok_def)
    then have "(E @ runSync False (ssState k) A) @ map Signaled [0..<S] = Waited p # map Signaled [0..<S]"
      by (simp only: append_Cons append_Nil)
    then show ?thesis using p by (intro exI [of _ "runSync False (ssState k) A @ map Signaled [0..<S]"]) (simp add: complete_def)
  next
    case False
    then show ?thesis using st by (auto simp: complete_def split: option.splits)
  qed
qed

lemma core_ok_finished:
  assumes "core_ok N S preamble body k E" "rest k = []"
  shows "complete N S preamble body (iter k) E"
proof (cases "left k")
  case True
  then show ?thesis using assms by (auto simp: core_ok_def complete_def split: option.splits)
next
  case False
  then show ?thesis using assms by (auto simp: core_ok_def complete_def split: option.splits)
qed

lemma runInst_events:
  "runInst call I st m over = Some (st', m', over', ev) \<Longrightarrow> runSync False st (I # Is) = ev @ runSync False st' Is"
  by (cases I) (auto split: if_splits option.splits simp del: fun_upd_apply)

lemma runInst_check [simp]: "runInst call I st m over = Some r \<Longrightarrow> I \<noteq> CheckLoopIsOver ids"
  by auto

lemma core_ok_instruction:
  assumes "core_ok N S preamble body k E" "rest k = I # Is"
    and "runInst call I (ssState k) m over = Some (st, m', over', ev)"
  shows "core_ok N S preamble body (k\<lparr>rest := Is, ssState := st\<rparr>) (E @ ev)"
proof -
  let ?k = "k\<lparr>rest := Is, ssState := st\<rparr>"
  note events = runInst_events [OF assms(3)]
  have below: "segmentsBelow S Is" using assms(1,2) by (simp add: core_ok_def segmentsBelow_def)
  have all: "\<exists>st0. (E @ ev) @ runSync False st Is = runSync False st0 (body (iter k))" if "\<not> left k"
    using assms(1,2) that events by (simp add: core_ok_def)
  show ?thesis
  proof (cases preamble)
    case None
    then show ?thesis using assms(1,2) below all by (simp add: core_ok_def noCheck_def)
  next
    case (Some p)
    from assms(1) Some consider
        A B where "\<not> left k" "rest k = A @ CheckLoopIsOver [0..<S] # B" "noCheck A" "noCheck B"
          "E @ runSync False (ssState k) A = [Waited p]"
      | "\<not> left k" "noCheck (rest k)" "iter k \<le> N" "Waited p \<in> set E"
      | j where "left k" "N < iter k" "j \<le> S" "rest k = map SignalCall [j..<S]" "E = Waited p # map Signaled [0..<j]"
      by (auto simp: core_ok_def)
    then show ?thesis
    proof cases
      case 1
      have "I \<noteq> CheckLoopIsOver [0..<S]" by (rule runInst_check [OF assms(3)])
      then obtain A' where A: "A = I # A'" "Is = A' @ CheckLoopIsOver [0..<S] # B"
        using 1(2) assms(2) by (cases A) auto
      have "noCheck A'" "(E @ ev) @ runSync False st A' = [Waited p]"
        using 1(3,5) events by (auto simp: A(1) noCheck_def)
      then show ?thesis using 1(1,4) below all [OF 1(1)] A(2) Some unfolding core_ok_def by auto
    next
      case 2
      then show ?thesis using assms(2) below all [OF 2(1)] Some by (simp add: core_ok_def noCheck_def)
    next
      case 3
      then have "j < S" using assms(2) by (cases "j < S") auto
      then have j: "j < S" "I = SignalCall j" "Is = map SignalCall [Suc j..<S]"
        using assms(2) 3(4) by (simp_all add: upt_conv_Cons)
      then have "ev = [Signaled j]" using assms(3) by simp
      then show ?thesis using 3 j below Some unfolding core_ok_def
        by (simp, intro disjI2 exI [of _ "Suc j"]) simp
    qed
  qed
qed

lemma core_ok_check:
  assumes "core_ok N S preamble body k E" "rest k = CheckLoopIsOver ids # Is"
  obtains p where "preamble = Some p" "E = [Waited p]" "ids = [0..<S]" "noCheck Is" "\<not> left k"
proof (cases preamble)
  case None
  then show ?thesis using assms by (auto simp: core_ok_def noCheck_def)
next
  case (Some p)
  from assms Some consider
      A B where "\<not> left k" "rest k = A @ CheckLoopIsOver [0..<S] # B" "noCheck A" "noCheck B"
        "E @ runSync False (ssState k) A = [Waited p]"
    | "noCheck (rest k)" | j where "rest k = map SignalCall [j..<S]"
    by (auto simp: core_ok_def)
  then show ?thesis
  proof cases
    case 1
    then have "A = []" using assms(2) by (cases A) (auto simp: noCheck_def)
    then show ?thesis using 1 assms(2) Some that by simp
  next
    case 2
    then show ?thesis using assms(2) by (auto simp: noCheck_def)
  next
    case 3
    then show ?thesis using assms(2) by (auto simp: Cons_eq_map_conv)
  qed
qed

lemma core_ok_passed:
  assumes "core_ok N S preamble body k E" "rest k = CheckLoopIsOver ids # Is" "iter k \<le> N"
  shows "core_ok N S preamble body (k\<lparr>rest := Is\<rparr>) E"
proof -
  obtain p where p: "preamble = Some p" "E = [Waited p]" "noCheck Is" "\<not> left k"
    using core_ok_check [OF assms(1,2)] by blast
  then show ?thesis using assms by (simp add: core_ok_def segmentsBelow_def)
qed

lemma core_ok_leaves:
  assumes "core_ok N S preamble body k E" "rest k = CheckLoopIsOver ids # Is" "N < iter k"
  shows "core_ok N S preamble body (k\<lparr>rest := map SignalCall ids, left := True\<rparr>) E"
proof -
  obtain p where p: "preamble = Some p" "E = [Waited p]" "ids = [0..<S]"
    using core_ok_check [OF assms(1,2)] by blast
  then show ?thesis using assms(3) by (auto simp: core_ok_def segmentsBelow_def intro!: exI [of _ 0])
qed

section \<open>The cores together\<close>

text \<open>Earlier iterations of a core are complete, later ones have not begun.\<close>

definition cores_ok ::
    "nat \<Rightarrow> nat \<Rightarrow> nat \<Rightarrow> nat option \<Rightarrow> (nat \<Rightarrow> sync_inst list) \<Rightarrow> helix_ring \<Rightarrow> bool" where
  "cores_ok n N S preamble body s \<longleftrightarrow>
     0 < n \<and> length (cores s) = n \<and>
     (\<forall>c < n. iter (cores s ! c) mod n = c \<and> iter (cores s ! c) < N + n \<and>
        core_ok N S preamble body (cores s ! c) (eventsOf s (iter (cores s ! c)))) \<and>
     (\<forall>i. (i < iter (cores s ! (i mod n)) \<longrightarrow> complete N S preamble body i (eventsOf s i)) \<and>
          (iter (cores s ! (i mod n)) < i \<longrightarrow> eventsOf s i = [])) \<and>
     (preamble \<noteq> None \<longrightarrow> (loopIsOver s \<longleftrightarrow> LoopIsOver \<in> set (eventsOf s N)))"

text \<open>The iteration in which core \<open>c\<close> will next wait for the segment.\<close>

definition upcoming :: "nat \<Rightarrow> helix_ring \<Rightarrow> nat \<Rightarrow> nat \<Rightarrow> nat" where
  "upcoming n s x c =
     iter (cores s ! c) + (if Waited x \<in> set (eventsOf s (iter (cores s ! c))) then n else 0)"

text \<open>
  An iteration waits for a segment after the one before has signaled it, and a lock is free when the
  core that waits on it may go on.
\<close>

definition segment_ok :: "nat \<Rightarrow> nat \<Rightarrow> nat option \<Rightarrow> (nat \<Rightarrow> helix_call) \<Rightarrow> nat \<Rightarrow> helix_ring \<Rightarrow> bool" where
  "segment_ok n N preamble calls x s \<longleftrightarrow>
     (\<forall>i. 0 < i \<and> i \<le> lastOrdered n N preamble x \<and> Waited x \<in> set (eventsOf s i) \<longrightarrow>
        Signaled x \<in> set (eventsOf s (i - 1))) \<and>
     (\<forall>c < n. upcoming n s x c \<le> lastOrdered n N preamble x \<longrightarrow>
        locks s (ss_lock (c_past (calls c)) x) =
          Some (\<not> (upcoming n s x c = 0 \<or> Signaled x \<in> set (eventsOf s (upcoming n s x c - 1)))))"

text \<open>What the dispatcher's choice of arrays has to provide.\<close>

definition ring_layout :: "nat \<Rightarrow> nat \<Rightarrow> (nat \<Rightarrow> helix_call) \<Rightarrow> bool" where
  "ring_layout n S calls \<longleftrightarrow> 0 < n \<and>
     (\<forall>c < n. c_future (calls c) = c_past (calls ((c + 1) mod n))) \<and>
     (\<forall>c < n. \<forall>c' < n. \<forall>s < S. \<forall>s' < S.
        ss_lock (c_past (calls c)) s = ss_lock (c_past (calls c')) s' \<longrightarrow> c = c' \<and> s = s')"

lemma ring_layoutD:
  assumes "ring_layout n S calls"
  shows "0 < n" and "c < n \<Longrightarrow> c_future (calls c) = c_past (calls ((c + 1) mod n))"
    and "c < n \<Longrightarrow> c' < n \<Longrightarrow> s < S \<Longrightarrow> s' < S \<Longrightarrow>
      ss_lock (c_past (calls c)) s = ss_lock (c_past (calls c')) s' \<Longrightarrow> c = c' \<and> s = s'"
  using assms unfolding ring_layout_def by blast+

lemma cores_okD:
  assumes "cores_ok n N S preamble body s"
  shows "0 < n" and "length (cores s) = n" and "c < n \<Longrightarrow> iter (cores s ! c) mod n = c"
    and "c < n \<Longrightarrow> iter (cores s ! c) < N + n"
    and "c < n \<Longrightarrow> core_ok N S preamble body (cores s ! c) (eventsOf s (iter (cores s ! c)))"
    and "i < iter (cores s ! (i mod n)) \<Longrightarrow> complete N S preamble body i (eventsOf s i)"
    and "iter (cores s ! (i mod n)) < i \<Longrightarrow> eventsOf s i = []"
    and "preamble \<noteq> None \<Longrightarrow> loopIsOver s \<longleftrightarrow> LoopIsOver \<in> set (eventsOf s N)"
  using assms unfolding cores_ok_def by blast+

lemma cores_partial:
  assumes "cores_ok n N S preamble body s"
  shows "\<exists>F. complete N S preamble body i (eventsOf s i @ F)"
proof -
  note ok = cores_okD [OF assms]
  let ?k = "cores s ! (i mod n)"
  consider "i < iter ?k" | "i = iter ?k" | "iter ?k < i" by linarith
  then show ?thesis
  proof cases
    case 1
    then show ?thesis using ok(6) by (metis append_Nil2)
  next
    case 2
    have "i mod n < n" using ok(1) by simp
    from core_ok_partial [OF ok(5) [OF this]] show ?thesis using 2 by simp
  next
    case 3
    then show ?thesis using ok(7) complete_exists by simp
  qed
qed

lemma lastOrdered_bound: "0 < n \<Longrightarrow> N \<le> lastOrdered n N preamble x \<and> lastOrdered n N preamble x < N + n"
  by (auto simp: lastOrdered_def split: option.splits)

text \<open>Whoever waits has seen every earlier iteration wait and signal.\<close>

lemma signaled_before:
  assumes "iterations_ok n N S preamble body" "cores_ok n N S preamble body s"
    and "segment_ok n N preamble calls x s" "x < S" "j \<le> lastOrdered n N preamble x"
    and "Waited x \<in> set (eventsOf s j)" "i < j"
  shows "Signaled x \<in> set (eventsOf s i) \<and> Waited x \<in> set (eventsOf s i)"
  using assms(5-7)
proof (induction j)
  case (Suc j)
  note n = cores_okD(1) [OF assms(2)]
  have sig: "Signaled x \<in> set (eventsOf s j)" using assms(3) Suc.prems unfolding segment_ok_def by fastforce
  obtain F where F: "complete N S preamble body j (eventsOf s j @ F)" using cores_partial [OF assms(2)] by blast
  have "j \<le> lastOrdered n N preamble x" "j < N + n" using Suc.prems(1) lastOrdered_bound [OF n, of N preamble x] by auto
  from partial_shape(1) [OF assms(1) F this(2) assms(4) this(1) sig] have "Waited x \<in> set (eventsOf s j)" .
  then show ?case using Suc.IH Suc.prems sig by (cases "i = j") auto
qed simp

section \<open>Every step keeps the cores in order\<close>

lemma eventsOf_append [simp]:
  "eventsOf (s\<lparr>locks := m, loopIsOver := over, cores := ks, trace := trace s @ map (Pair i) ev\<rparr>) j =
     eventsOf s j @ (if i = j then ev else [])"
  by (simp add: eventsOf_def filter_map o_def)

lemma eventsOf_cores [simp]: "eventsOf (s\<lparr>cores := ks\<rparr>) j = eventsOf s j"
  by (simp add: eventsOf_def)

lemma flag_after_wait:
  assumes "iterations_ok n N S (Some p) body" "cores_ok n N S (Some p) body s" "LoopIsOver \<in> set (eventsOf s N)"
  shows "Waited p \<in> set (eventsOf s N)"
proof -
  note ok = cores_okD [OF assms(2)]
  let ?k = "cores s ! (N mod n)"
  have c: "N mod n < n" and p: "p < S" using ok(1) assms(1) by (simp_all add: iterations_ok_def)
  consider "N < iter ?k" | "iter ?k = N" | "iter ?k < N" by linarith
  then show ?thesis
  proof cases
    case 1
    have "N < N + n" "N \<le> lastOrdered n N (Some p) p" using ok(1) lastOrdered_bound [OF ok(1)] by simp_all
    from complete_syncs(1) [OF assms(1) ok(6) [OF 1] this(1) p this(2)] show ?thesis .
  next
    case 2
    from ok(5) [OF c] 2 consider A where "eventsOf s N @ runSync False (ssState ?k) A = [Waited p]" | "Waited p \<in> set (eventsOf s N)"
      by (auto simp: core_ok_def)
    then show ?thesis
    proof cases
      case 1
      then have "set (eventsOf s N) \<subseteq> {Waited p}" by (metis Un_upper1 list.simps(15) list.set(1) set_append)
      then show ?thesis using assms(3) by auto
    qed
  next
    case 3
    then show ?thesis using ok(7) [OF 3] assms(3) by simp
  qed
qed

lemma signal_after_flag:
  assumes "iterations_ok n N S (Some p) body" "cores_ok n N S (Some p) body s" "Signaled p \<in> set (eventsOf s N)"
  shows "LoopIsOver \<in> set (eventsOf s N)"
proof -
  obtain F st where "eventsOf s N @ F = runSync False st (body N)"
    using cores_partial [OF assms(2), of N] by (auto simp: complete_def)
  moreover have "precedes LoopIsOver (Signaled p) (runSync False st (body N))" using assms(1) by (simp add: iterations_ok_def)
  ultimately have "precedes LoopIsOver (Signaled p) (eventsOf s N @ F)" by simp
  then have "LoopIsOver \<in> set (takeWhile (\<lambda>z. z \<noteq> Signaled p) (eventsOf s N))"
    using assms(3) by (simp add: precedes_def takeWhile_neq_present)
  then show ?thesis by (auto dest: set_takeWhileD)
qed

text \<open>A core finds the flag set exactly when the loop is over for it.\<close>

lemma check_right:
  assumes "iterations_ok n N S preamble body" "cores_ok n N S preamble body s"
    and "\<forall>x < S. segment_ok n N preamble calls x s" "c < n" "rest (cores s ! c) = CheckLoopIsOver ids # Is"
  shows "loopIsOver s \<longleftrightarrow> N < iter (cores s ! c)"
proof -
  let ?k = "cores s ! c"
  note ok = cores_okD [OF assms(2)]
  obtain p where p: "preamble = Some p" "eventsOf s (iter ?k) = [Waited p]"
    using core_ok_check [OF ok(5) [OF assms(4)] assms(5)] by metis
  have pS: "p < S" using assms(1) p(1) by (simp add: iterations_ok_def)
  have over: "loopIsOver s \<longleftrightarrow> LoopIsOver \<in> set (eventsOf s N)" using ok(8) p(1) by simp
  have last: "lastOrdered n N preamble p = N + n - 1" using p(1) by (simp add: lastOrdered_def)
  note before = signaled_before [OF assms(1,2) assms(3) [rule_format, OF pS] pS]
  show ?thesis
  proof
    assume "loopIsOver s"
    then have flag: "LoopIsOver \<in> set (eventsOf s N)" using over by simp
    have wait: "Waited p \<in> set (eventsOf s N)" using flag_after_wait [of n N S p body s] assms(1,2) p(1) flag by simp
    show "N < iter ?k"
    proof (rule ccontr)
      assume "\<not> N < iter ?k"
      then consider "iter ?k = N" | "iter ?k < N" by linarith
      then show False
      proof cases
        case 1
        then show ?thesis using flag p(2) by simp
      next
        case 2
        have "N \<le> lastOrdered n N preamble p" using lastOrdered_bound [OF ok(1)] by simp
        from before [OF this wait 2] p(2) show ?thesis by simp
      qed
    qed
  next
    assume N: "N < iter ?k"
    have "iter ?k \<le> lastOrdered n N preamble p" using ok(4) [OF assms(4)] last by simp
    from before [OF this _ N] p(2) have "Signaled p \<in> set (eventsOf s N)" by simp
    then show "loopIsOver s" using signal_after_flag [of n N S p body s] assms(1,2) p(1) over by simp
  qed
qed

lemma no_flag_elsewhere:
  assumes "iterations_ok n N S (Some p) body" "complete N S (Some p) body i E" "LoopIsOver \<in> set E" "i < N + n"
  shows "i = N"
  using assms by (auto simp: iterations_ok_def complete_def split: if_splits) (metis nat_neq_iff)

lemma runInst_flag:
  "runInst call I st m over = Some (st', m', over', ev) \<Longrightarrow> over' \<longleftrightarrow> over \<or> LoopIsOver \<in> set ev"
  by (cases I) (auto split: if_splits option.splits)

lemma cores_ok_instruction:
  assumes "iterations_ok n N S preamble body" "cores_ok n N S preamble body s" "c < n" "cores s ! c = k" "rest k = I # Is"
    and "runInst (calls c) I (ssState k) (locks s) (loopIsOver s) = Some (st, m, over, ev)"
  shows "cores_ok n N S preamble body (s\<lparr>locks := m, loopIsOver := over, cores := (cores s)[c := k\<lparr>rest := Is, ssState := st\<rparr>],
    trace := trace s @ map (Pair (iter k)) ev\<rparr>)" (is "cores_ok n N S preamble body ?t")
proof -
  note ok = cores_okD [OF assms(2)]
  have c: "iter k mod n = c" "iter k < N + n" using ok(3,4) [OF assms(3)] assms(4) by simp_all
  have new: "core_ok N S preamble body (k\<lparr>rest := Is, ssState := st\<rparr>) (eventsOf s (iter k) @ ev)"
    using core_ok_instruction [OF _ assms(5,6)] ok(5) [OF assms(3)] assms(4) by simp
  have cores: "cores ?t ! d = (if d = c then k\<lparr>rest := Is, ssState := st\<rparr> else cores s ! d)" if "d < n" for d
    using that ok(2) by (simp add: nth_list_update)
  have iter: "iter (cores ?t ! d) = iter (cores s ! d)" if "d < n" for d
    using cores [OF that] assms(4) by simp
  have events: "eventsOf ?t i = eventsOf s i @ (if iter k = i then ev else [])" for i by (rule eventsOf_append)
  have flag: "loopIsOver ?t \<longleftrightarrow> LoopIsOver \<in> set (eventsOf ?t N)" if prologue: "preamble \<noteq> None"
  proof -
    obtain p where p: "preamble = Some p" using prologue by blast
    obtain F where F: "complete N S preamble body (iter k) ((eventsOf s (iter k) @ ev) @ F)"
      using core_ok_partial [OF new] by auto
    have "LoopIsOver \<in> set ev \<Longrightarrow> iter k = N"
      using no_flag_elsewhere [of n N S p body "iter k"] assms(1) F c(2) unfolding p by auto
    then show ?thesis using runInst_flag [OF assms(6)] ok(8) [OF prologue] unfolding events by auto
  qed
  show ?thesis unfolding cores_ok_def
  proof (intro conjI allI impI)
    show "core_ok N S preamble body (cores ?t ! d) (eventsOf ?t (iter (cores ?t ! d)))" if "d < n" for d
    proof (cases "d = c")
      case True
      then show ?thesis using new cores [OF that] events [of "iter k"] by simp
    next
      case False
      then have "iter k \<noteq> iter (cores s ! d)" using ok(3) [OF that] c(1) by auto
      then show ?thesis using False cores [OF that] ok(5) [OF that] events by simp
    qed
    fix i
    have i: "i mod n < n" using ok(1) by simp
    show "complete N S preamble body i (eventsOf ?t i)" if "i < iter (cores ?t ! (i mod n))"
    proof -
      have "i < iter (cores s ! (i mod n))" using that iter [OF i] by simp
      moreover from this have "iter k \<noteq> i" using c(1) assms(4) by auto
      ultimately show ?thesis using ok(6) events by simp
    qed
    show "eventsOf ?t i = []" if "iter (cores ?t ! (i mod n)) < i"
    proof -
      have "iter (cores s ! (i mod n)) < i" using that iter [OF i] by simp
      moreover from this have "iter k \<noteq> i" using c(1) assms(4) by auto
      ultimately show ?thesis using ok(7) events by simp
    qed
  qed (use ok iter flag in auto)
qed

lemma cores_ok_replace:
  assumes "cores_ok n N S preamble body s" "c < n" "cores s ! c = k" "iter k' = iter k"
    and "core_ok N S preamble body k' (eventsOf s (iter k))"
  shows "cores_ok n N S preamble body (s\<lparr>cores := (cores s)[c := k']\<rparr>)"
proof -
  note ok = cores_okD [OF assms(1)]
  have iter: "iter ((cores s)[c := k'] ! d) = iter (cores s ! d)" if "d < n" for d
    using that ok(2) assms(2-4) by (auto simp: nth_list_update)
  have i: "i mod n < n" for i using ok(1) by simp
  show ?thesis
    using ok iter assms i unfolding cores_ok_def by (auto simp: nth_list_update)
qed

text \<open>Numbers with the same remainder are apart.\<close>

lemma mod_gap: "i < j \<Longrightarrow> j mod n = i mod n \<Longrightarrow> i + n \<le> (j :: nat)"
proof (rule ccontr)
  assume "i < j" "j mod n = i mod n" "\<not> i + n \<le> j"
  then have "n dvd j - i" "0 < j - i" "j - i < n" by (simp_all add: mod_eq_dvd_iff_nat)
  then show False using nat_dvd_not_less by blast
qed

lemma mod_Suc_cancel: "Suc j mod n = Suc i mod n \<Longrightarrow> j mod n = i mod (n :: nat)"
proof (induction j i rule: linorder_wlog)
  case (le j i)
  then have "n dvd Suc i - Suc j" by (metis Suc_le_mono mod_eq_dvd_iff_nat)
  then show ?case using le(1) by (simp add: mod_eq_dvd_iff_nat [symmetric] eq_commute)
next
  case (sym j i)
  then show ?case by simp
qed

lemma cores_ok_iterate:
  assumes "iterations_ok n N S preamble body" "cores_ok n N S preamble body s" "c < n" "cores s ! c = k"
    and "rest k = []" "\<not> left k" "iter k < N"
  shows "cores_ok n N S preamble body (s\<lparr>cores := (cores s)[c := k\<lparr>iter := iter k + n, rest := body (iter k + n)\<rparr>]\<rparr>)"
    (is "cores_ok n N S preamble body ?t")
proof -
  note ok = cores_okD [OF assms(2)]
  have c: "iter k mod n = c" using ok(3) [OF assms(3)] assms(4) by simp
  have finished: "complete N S preamble body (iter k) (eventsOf s (iter k))"
    using core_ok_finished [OF _ assms(5)] ok(5) [OF assms(3)] assms(4) by simp
  have fresh: "eventsOf s (iter k + n) = []" using ok(7) [of "iter k + n"] ok(1) c assms(4) by simp
  have new: "core_ok N S preamble body (k\<lparr>iter := iter k + n, rest := body (iter k + n)\<rparr>) []"
    using core_ok_start [OF assms(1), of "iter k + n" "ssState k"] assms(6,7) by (cases k) simp
  have cores: "cores ?t ! d = (if d = c then k\<lparr>iter := iter k + n, rest := body (iter k + n)\<rparr> else cores s ! d)" if "d < n" for d
    using that ok(2) by (simp add: nth_list_update)
  show ?thesis unfolding cores_ok_def
  proof (intro conjI allI impI)
    show "iter (cores ?t ! d) mod n = d" "iter (cores ?t ! d) < N + n"
      "core_ok N S preamble body (cores ?t ! d) (eventsOf ?t (iter (cores ?t ! d)))" if "d < n" for d
      using that cores [OF that] ok(3-5) c assms(7) new fresh by auto
    fix i
    have i: "i mod n < n" using ok(1) by simp
    show "complete N S preamble body i (eventsOf ?t i)" if lt: "i < iter (cores ?t ! (i mod n))"
    proof (cases "i mod n = c")
      case True
      then have "i \<le> iter k"
      proof -
        have "i < iter k + n" using lt cores [OF i] True by simp
        moreover have "i mod n = iter k mod n" using True c by simp
        ultimately show ?thesis using mod_gap [of "iter k" i n] by linarith
      qed
      then show ?thesis using finished ok(6) [of i] True assms(4) by (cases "i = iter k") auto
    next
      case False
      then show ?thesis using lt cores [OF i] ok(6) by simp
    qed
    show "eventsOf ?t i = []" if gt: "iter (cores ?t ! (i mod n)) < i"
    proof (cases "i mod n = c")
      case True
      then show ?thesis using gt cores [OF i] ok(7) [of i] assms(4) by simp
    next
      case False
      then show ?thesis using gt cores [OF i] ok(7) by simp
    qed
  qed (use ok in auto)
qed

section \<open>Every step keeps the segments in order\<close>

lemma segment_ok_frame:
  assumes "segment_ok n N preamble calls x s"
    and "\<And>i. Waited x \<in> set (eventsOf t i) \<longleftrightarrow> Waited x \<in> set (eventsOf s i)"
    and "\<And>i. Signaled x \<in> set (eventsOf t i) \<longleftrightarrow> Signaled x \<in> set (eventsOf s i)"
    and "\<And>c. c < n \<Longrightarrow> upcoming n t x c = upcoming n s x c"
    and "\<And>c. c < n \<Longrightarrow> locks t (ss_lock (c_past (calls c)) x) = locks s (ss_lock (c_past (calls c)) x)"
  shows "segment_ok n N preamble calls x t"
  using assms unfolding segment_ok_def by simp

lemma upcoming_mod: "cores_ok n N S preamble body s \<Longrightarrow> c < n \<Longrightarrow> upcoming n s x c mod n = c"
  by (simp add: cores_ok_def upcoming_def)

lemma segment_ok_iterate:
  assumes "iterations_ok n N S preamble body" "cores_ok n N S preamble body s" "c < n" "cores s ! c = k"
    and "rest k = []" "iter k < N" "x < S" "segment_ok n N preamble calls x s"
  shows "segment_ok n N preamble calls x (s\<lparr>cores := (cores s)[c := k\<lparr>iter := iter k + n, rest := body (iter k + n)\<rparr>]\<rparr>)"
proof (rule segment_ok_frame [OF assms(8)])
  note ok = cores_okD [OF assms(2)]
  fix d assume d: "d < n"
  let ?t = "s\<lparr>cores := (cores s)[c := k\<lparr>iter := iter k + n, rest := body (iter k + n)\<rparr>]\<rparr>"
  have "complete N S preamble body (iter k) (eventsOf s (iter k))"
    using core_ok_finished [OF _ assms(5)] ok(5) [OF assms(3)] assms(4) by simp
  moreover have "iter k < N + n" "iter k \<le> lastOrdered n N preamble x"
    using assms(6) lastOrdered_bound [OF ok(1), of N preamble x] by simp_all
  ultimately have "Waited x \<in> set (eventsOf s (iter k))" using complete_syncs(1) [OF assms(1) _ _ assms(7)] by blast
  moreover have "iter k mod n = c" using ok(3) [OF assms(3)] assms(4) by simp
  then have "eventsOf s (iter k + n) = []" using ok(7) [of "iter k + n"] ok(1) assms(4) by simp
  ultimately show "upcoming n ?t x d = upcoming n s x d"
    using d ok(2) assms(3,4) by (auto simp: upcoming_def nth_list_update)
qed simp_all

lemma segment_ok_wait:
  assumes "iterations_ok n N S preamble body" "cores_ok n N S preamble body s" "ring_layout n S calls"
    and "segment_ok n N preamble calls x s" "x < S" "c < n" "iter (cores s ! c) = i" "i \<le> lastOrdered n N preamble x"
    and "Waited x \<notin> set (eventsOf s i)" "locks s (ss_lock (c_past (calls c)) x) = Some False"
    and events: "\<And>j. eventsOf t j = eventsOf s j @ (if i = j then [Waited x] else [])"
    and iters: "\<And>d. d < n \<Longrightarrow> iter (cores t ! d) = iter (cores s ! d)"
    and lock: "locks t = (locks s)(ss_lock (c_past (calls c)) x \<mapsto> True)"
  shows "segment_ok n N preamble calls x t"
proof -
  note ok = cores_okD [OF assms(2)] and lay = ring_layoutD [OF assms(3)]
  have order: "\<And>j. 0 < j \<Longrightarrow> j \<le> lastOrdered n N preamble x \<Longrightarrow> Waited x \<in> set (eventsOf s j) \<Longrightarrow> Signaled x \<in> set (eventsOf s (j - 1))"
    and free: "\<And>d. d < n \<Longrightarrow> upcoming n s x d \<le> lastOrdered n N preamble x \<Longrightarrow> locks s (ss_lock (c_past (calls d)) x) =
          Some (\<not> (upcoming n s x d = 0 \<or> Signaled x \<in> set (eventsOf s (upcoming n s x d - 1))))"
    using assms(4) unfolding segment_ok_def by blast+
  have up: "upcoming n s x c = i" using assms(7,9) by (simp add: upcoming_def)
  have sig: "i = 0 \<or> Signaled x \<in> set (eventsOf s (i - 1))" using free [OF assms(6)] assms(8,10) up by simp
  have up': "upcoming n t x d = (if d = c then i + n else upcoming n s x d)" if "d < n" for d
  proof (cases "d = c")
    case True
    then show ?thesis using iters [OF that] assms(7) events [of i] by (simp add: upcoming_def)
  next
    case False
    then have "i \<noteq> iter (cores s ! d)" using ok(3) [OF that] ok(3) [OF assms(6)] assms(7) by auto
    then show ?thesis using False iters [OF that] events [of "iter (cores s ! d)"] by (simp add: upcoming_def)
  qed
  show ?thesis unfolding segment_ok_def
  proof (intro conjI allI impI)
    fix j assume "0 < j \<and> j \<le> lastOrdered n N preamble x \<and> Waited x \<in> set (eventsOf t j)"
    then show "Signaled x \<in> set (eventsOf t (j - 1))" using order [of j] sig events by (cases "j = i") auto
  next
    fix d assume d: "d < n" and le: "upcoming n t x d \<le> lastOrdered n N preamble x"
    show "locks t (ss_lock (c_past (calls d)) x) =
        Some (\<not> (upcoming n t x d = 0 \<or> Signaled x \<in> set (eventsOf t (upcoming n t x d - 1))))"
    proof (cases "d = c")
      case True
      have i: "i + n \<le> lastOrdered n N preamble x" using le up' [OF d] True by simp
      have "Signaled x \<notin> set (eventsOf s (i + n - 1))"
      proof
        assume s: "Signaled x \<in> set (eventsOf s (i + n - 1))"
        obtain F where F: "complete N S preamble body (i + n - 1) (eventsOf s (i + n - 1) @ F)"
          using cores_partial [OF assms(2)] by blast
        have b: "i + n - 1 < N + n" "i + n - 1 \<le> lastOrdered n N preamble x"
          using i lastOrdered_bound [OF ok(1), of N preamble x] by linarith+
        have w: "Waited x \<in> set (eventsOf s (i + n - 1))" by (rule partial_shape(1) [OF assms(1) F b(1) assms(5) b(2) s])
        show False
        proof (cases "n = 1")
          case True
          then show ?thesis using w assms(9) by simp
        next
          case False
          then have "i < i + n - 1" using ok(1) by linarith
          from signaled_before [OF assms(1,2,4,5) b(2) w this] show ?thesis using assms(9) by simp
        qed
      qed
      then show ?thesis using True up' [OF d] events ok(1) lock by simp
    next
      case False
      then have "ss_lock (c_past (calls d)) x \<noteq> ss_lock (c_past (calls c)) x" using lay(3) [OF d assms(6,5,5)] by blast
      then show ?thesis using False up' [OF d] events free [OF d] le lock by simp
    qed
  qed
qed

lemma segment_ok_signal:
  assumes "iterations_ok n N S preamble body" "cores_ok n N S preamble body s" "ring_layout n S calls"
    and "segment_ok n N preamble calls x s" "x < S" "c < n" "iter (cores s ! c) = i"
    and "i < N \<Longrightarrow> Signaled x \<notin> set (eventsOf s i)"
    and events: "\<And>j. eventsOf t j = eventsOf s j @ (if i = j then [Signaled x] else [])"
    and iters: "\<And>d. d < n \<Longrightarrow> iter (cores t ! d) = iter (cores s ! d)"
    and lock: "locks t = (locks s)(ss_lock (c_future (calls c)) x \<mapsto> False)"
  shows "segment_ok n N preamble calls x t"
proof -
  note ok = cores_okD [OF assms(2)] and lay = ring_layoutD [OF assms(3)]
  let ?c = "(c + 1) mod n"
  have c': "?c < n" using ok(1) by simp
  have fut: "c_future (calls c) = c_past (calls ?c)" by (rule lay(2) [OF assms(6)])
  have order: "\<And>j. 0 < j \<Longrightarrow> j \<le> lastOrdered n N preamble x \<Longrightarrow> Waited x \<in> set (eventsOf s j) \<Longrightarrow> Signaled x \<in> set (eventsOf s (j - 1))"
    and free: "\<And>d. d < n \<Longrightarrow> upcoming n s x d \<le> lastOrdered n N preamble x \<Longrightarrow> locks s (ss_lock (c_past (calls d)) x) =
          Some (\<not> (upcoming n s x d = 0 \<or> Signaled x \<in> set (eventsOf s (upcoming n s x d - 1))))"
    using assms(4) unfolding segment_ok_def by blast+
  have up': "upcoming n t x d = upcoming n s x d" if "d < n" for d
    using iters [OF that] events by (simp add: upcoming_def)
  have i: "i mod n = c" "i < N + n" using ok(3,4) [OF assms(6)] assms(7) by simp_all
  have next_core: "upcoming n s x ?c = 0 \<or> Signaled x \<in> set (eventsOf t (upcoming n s x ?c - 1))"
    if le: "upcoming n s x ?c \<le> lastOrdered n N preamble x"
  proof (cases "upcoming n s x ?c")
    case (Suc j)
    have "Suc j mod n = Suc i mod n"
      using upcoming_mod [OF assms(2) c', of x] Suc i(1) by (metis Suc_eq_plus1 mod_Suc_eq)
    then have j: "j mod n = i mod n" by (rule mod_Suc_cancel)
    have jN: "Suc j < N + n" using le Suc lastOrdered_bound [OF ok(1), of N preamble x] by simp
    consider "j = i" | "j < i" | "i < j" by linarith
    then have "Signaled x \<in> set (eventsOf t j)"
    proof cases
      case 1
      then show ?thesis using events by simp
    next
      case 2
      have "complete N S preamble body j (eventsOf s j)" using ok(6) [of j] j i(1) assms(7) 2 by simp
      moreover have "j < N"
        using 2 mod_gap [of j i n] j i(2) by linarith
      moreover from this have "j \<le> lastOrdered n N preamble x" using lastOrdered_bound [OF ok(1), of N preamble x] by simp
      ultimately show ?thesis using complete_syncs(2) [OF assms(1) _ _ assms(5), of j "eventsOf s j"] events by simp
    next
      case 3
      have gap: "i + n \<le> j" using mod_gap [OF 3 j] .
      let ?m = "Suc j - n"
      have m: "Suc i \<le> ?m" "?m \<le> lastOrdered n N preamble x" "?m < N" using gap jN le Suc by linarith+
      have "Waited x \<in> set (eventsOf s ?m)"
      proof (cases "Waited x \<in> set (eventsOf s (iter (cores s ! ?c)))")
        case True
        then have "?m = iter (cores s ! ?c)" using Suc by (simp add: upcoming_def)
        then show ?thesis using True by simp
      next
        case False
        then have "Suc j = iter (cores s ! ?c)" using Suc by (simp add: upcoming_def)
        moreover have "?m mod n = Suc j mod n" using gap by (simp add: le_mod_geq)
        ultimately have "?m < iter (cores s ! (?m mod n))" using ok(1) ok(3) [OF c'] by simp
        then have "complete N S preamble body ?m (eventsOf s ?m)" by (rule ok(6))
        from complete_syncs(1) [OF assms(1) this _ assms(5) m(2)] m(3) show ?thesis by simp
      qed
      from signaled_before [OF assms(1,2,4,5) m(2) this, of i] m(1) have "Signaled x \<in> set (eventsOf s i)" by simp
      moreover have "i < N" using m by simp
      ultimately show ?thesis using assms(8) by simp
    qed
    then show ?thesis using Suc by simp
  qed simp
  show ?thesis unfolding segment_ok_def
  proof (intro conjI allI impI)
    fix j assume "0 < j \<and> j \<le> lastOrdered n N preamble x \<and> Waited x \<in> set (eventsOf t j)"
    then show "Signaled x \<in> set (eventsOf t (j - 1))" using order [of j] events by auto
  next
    fix d assume d: "d < n" and le: "upcoming n t x d \<le> lastOrdered n N preamble x"
    show "locks t (ss_lock (c_past (calls d)) x) =
        Some (\<not> (upcoming n t x d = 0 \<or> Signaled x \<in> set (eventsOf t (upcoming n t x d - 1))))"
    proof (cases "d = ?c")
      case True
      then show ?thesis using next_core le up' [OF d] lock fut by simp
    next
      case False
      then have "ss_lock (c_past (calls d)) x \<noteq> ss_lock (c_past (calls ?c)) x" using lay(3) [OF d c' assms(5,5)] by blast
      moreover have "upcoming n s x d = 0 \<or> upcoming n s x d - 1 \<noteq> i"
      proof (rule ccontr)
        assume "\<not> ?thesis"
        then have "upcoming n s x d = i + 1" by auto
        then show False using upcoming_mod [OF assms(2) d, of x] False i(1) by (metis mod_add_left_eq)
      qed
      ultimately show ?thesis using up' [OF d] events free [OF d] le lock fut by auto
    qed
  qed
qed

definition ring_ok ::
    "nat \<Rightarrow> nat \<Rightarrow> nat \<Rightarrow> nat option \<Rightarrow> (nat \<Rightarrow> sync_inst list) \<Rightarrow> (nat \<Rightarrow> helix_call) \<Rightarrow> helix_ring \<Rightarrow> bool" where
  "ring_ok n N S preamble body calls s \<longleftrightarrow>
     cores_ok n N S preamble body s \<and> (\<forall>x < S. segment_ok n N preamble calls x s)"

text \<open>An event a core is about to cause belongs to its iteration.\<close>

lemma next_event:
  assumes "core_ok N S preamble body k E" "rest k = I # Is"
    and "runInst call I (ssState k) m over = Some (st, m', over', ev)"
  shows "\<exists>F. complete N S preamble body (iter k) (E @ ev @ F)"
  using core_ok_partial [OF core_ok_instruction [OF assms]] by simp

lemma segment_ok_instruction:
  assumes "iterations_ok n N S preamble body" "ring_ok n N S preamble body calls s" "ring_layout n S calls"
    and "c < n" "cores s ! c = k" "rest k = I # Is" "x < S"
    and run: "runInst (calls c) I (ssState k) (locks s) (loopIsOver s) = Some (st, m, over, ev)"
  shows "segment_ok n N preamble calls x (s\<lparr>locks := m, loopIsOver := over, cores := (cores s)[c := k\<lparr>rest := Is, ssState := st\<rparr>],
    trace := trace s @ map (Pair (iter k)) ev\<rparr>)" (is "segment_ok n N preamble calls x ?t")
proof -
  have cok: "cores_ok n N S preamble body s" and seg: "segment_ok n N preamble calls x s"
    using assms(2,7) by (simp_all add: ring_ok_def)
  note ok = cores_okD [OF cok] and lay = ring_layoutD [OF assms(3)]
  have core: "core_ok N S preamble body k (eventsOf s (iter k))" "iter k < N + n" using ok(4,5) [OF assms(4)] assms(5) by simp_all
  have iters: "iter (cores ?t ! d) = iter (cores s ! d)" if "d < n" for d
    using that ok(2) assms(4,5) by (auto simp: nth_list_update)
  obtain F where F: "complete N S preamble body (iter k) (eventsOf s (iter k) @ ev @ F)"
    using next_event [OF core(1) assms(6) run] by blast
  have below: "y < S" if "I = WaitIfUnset y \<or> I = SignalCall y" for y
    using that core(1) assms(6) by (auto simp: core_ok_def segmentsBelow_def)
  consider (wait) "I = WaitIfUnset x" "ev = [Waited x]" "locks s (ss_lock (c_past (calls c)) x) = Some False"
        "m = (locks s)(ss_lock (c_past (calls c)) x \<mapsto> True)"
    | (signal) "I = SignalCall x" "ev = [Signaled x]" "m = (locks s)(ss_lock (c_future (calls c)) x \<mapsto> False)"
    | (other) "Waited x \<notin> set ev" "Signaled x \<notin> set ev"
        "m = locks s \<or> (\<exists>y < S. \<exists>a. y \<noteq> x \<and> (m = (locks s)(ss_lock (c_past (calls c)) y \<mapsto> a) \<or>
           m = (locks s)(ss_lock (c_future (calls c)) y \<mapsto> a)))"
  proof (cases I)
    case (WaitIfUnset y)
    show thesis
    proof (cases "ssState k y")
      case True
      then show ?thesis using other run WaitIfUnset by simp
    next
      case False
      then have "ev = [Waited y]" "locks s (ss_lock (c_past (calls c)) y) = Some False"
        "m = (locks s)(ss_lock (c_past (calls c)) y \<mapsto> True)"
        using run WaitIfUnset by (auto simp: HELIX_wait_def split: option.splits if_splits)
      then show ?thesis using wait other WaitIfUnset below [of y] by (cases "y = x") auto
    qed
  next
    case (SignalCall y)
    then have "ev = [Signaled y]" "m = (locks s)(ss_lock (c_future (calls c)) y \<mapsto> False)"
      using run by (simp_all add: HELIX_signal_def)
    then show ?thesis using signal other SignalCall below [of y] by (cases "y = x") auto
  qed (use run other in auto)
  then show ?thesis
  proof cases
    case wait
    have le: "iter k \<le> lastOrdered n N preamble x"
      by (rule not_waited_for [OF assms(1) F core(2) assms(7)]) (simp add: wait(2))
    have new: "Waited x \<notin> set (eventsOf s (iter k))"
      using partial_shape(2) [OF assms(1) F core(2) assms(7) le] wait(2) by auto
    show ?thesis
    proof (rule segment_ok_wait [OF assms(1) cok assms(3) seg assms(7,4) _ le new wait(3)])
      show "eventsOf ?t j = eventsOf s j @ (if iter k = j then [Waited x] else [])" for j
        unfolding wait(2) [symmetric] by (rule eventsOf_append)
      show "locks ?t = (locks s)(ss_lock (c_past (calls c)) x \<mapsto> True)" by (simp add: wait(4))
    qed (use iters assms(5) in auto)
  next
    case signal
    have new: "Signaled x \<notin> set (eventsOf s (iter k))" if "iter k < N"
    proof -
      have "iter k \<le> lastOrdered n N preamble x" using that lastOrdered_bound [OF ok(1), of N preamble x] by simp
      from partial_shape(4) [OF assms(1) F core(2) assms(7) this that] show ?thesis using signal(2) by auto
    qed
    show ?thesis
    proof (rule segment_ok_signal [OF assms(1) cok assms(3) seg assms(7,4) _ new])
      show "eventsOf ?t j = eventsOf s j @ (if iter k = j then [Signaled x] else [])" for j
        unfolding signal(2) [symmetric] by (rule eventsOf_append)
      show "locks ?t = (locks s)(ss_lock (c_future (calls c)) x \<mapsto> False)" by (simp add: signal(3))
    qed (use iters assms(5) in auto)
  next
    case other
    show ?thesis
    proof (rule segment_ok_frame [OF seg])
      fix d assume d: "d < n"
      show "upcoming n ?t x d = upcoming n s x d" using iters [OF d] other(1) by (simp add: upcoming_def)
      have c': "(c + 1) mod n < n" using lay(1) by simp
      have "ss_lock (c_past (calls d)) x \<noteq> ss_lock (c_past (calls c)) y"
        "ss_lock (c_past (calls d)) x \<noteq> ss_lock (c_future (calls c)) y" if "y < S" "y \<noteq> x" for y
        using lay(3) [OF d assms(4,7) that(1)] lay(3) [OF d c' assms(7) that(1)] lay(2) [OF assms(4)] that(2) by auto
      then show "locks ?t (ss_lock (c_past (calls d)) x) = locks s (ss_lock (c_past (calls d)) x)"
        using other(3) by auto
    qed (use other in auto)
  qed
qed

lemma ring_ok_step:
  assumes "helix_step N body calls s t" "iterations_ok n N S preamble body" "ring_layout n S calls"
    and "ring_ok n N S preamble body calls s"
  shows "ring_ok n N S preamble body calls t"
proof -
  have cok: "cores_ok n N S preamble body s" and seg: "\<forall>x < S. segment_ok n N preamble calls x s"
    using assms(4) by (simp_all add: ring_ok_def)
  note ok = cores_okD [OF cok]
  from assms(1) show ?thesis
  proof cases
    case (instruction c k I Is st m over ev)
    then show ?thesis unfolding ring_ok_def
      using cores_ok_instruction [OF assms(2) cok] segment_ok_instruction [OF assms(2,4,3)] ok(2) by simp
  next
    case (check c k ids Is)
    let ?k = "if loopIsOver s then k\<lparr>rest := map SignalCall ids, left := True\<rparr> else k\<lparr>rest := Is\<rparr>"
    have c: "c < n" using check(2) ok(2) by simp
    have "core_ok N S preamble body k (eventsOf s (iter k))" using ok(5) [OF c] check(3) by simp
    moreover have "loopIsOver s \<longleftrightarrow> N < iter k" using check_right [OF assms(2) cok seg c] check(3,4) by simp
    ultimately have "core_ok N S preamble body ?k (eventsOf s (iter k))"
      using core_ok_passed core_ok_leaves check(4) by (simp add: not_less)
    from cores_ok_replace [OF cok c check(3) _ this] have "cores_ok n N S preamble body t" using check(1) by simp
    moreover have "segment_ok n N preamble calls x t" if "x < S" for x
      by (rule segment_ok_frame [OF seg [rule_format, OF that]])
        (use check(1-3) c ok(2) in \<open>auto simp: upcoming_def nth_list_update\<close>)
    ultimately show ?thesis by (simp add: ring_ok_def)
  next
    case (iterate c k)
    then show ?thesis unfolding ring_ok_def
      using cores_ok_iterate [OF assms(2) cok] segment_ok_iterate [OF assms(2) cok] seg ok(2) by simp
  qed
qed

text \<open>The locks of array 0 are free, the others held, at the start.\<close>

definition fresh_locks :: "nat \<Rightarrow> nat \<Rightarrow> (nat \<Rightarrow> helix_call) \<Rightarrow> lock_memory \<Rightarrow> bool" where
  "fresh_locks n S calls m \<longleftrightarrow>
     (\<forall>c < n. \<forall>ss < S. m (ss_lock (c_past (calls c)) ss) = Some (0 < c))"

lemma ring_ok_start:
  assumes "iterations_ok n N S preamble body" "0 < n" "fresh_locks n S calls m"
  shows "ring_ok n N S preamble body calls (helix_start n body junk m)"
proof -
  have events: "eventsOf (helix_start n body junk m) i = []" for i by (simp add: eventsOf_def helix_start_def)
  have core: "cores (helix_start n body junk m) ! c = \<lparr>iter = c, rest = body c, ssState = junk c, left = False\<rparr>" if "c < n" for c
    using that by (simp add: helix_start_def)
  have "cores_ok n N S preamble body (helix_start n body junk m)"
    unfolding cores_ok_def events
  proof (intro conjI allI impI)
    show "core_ok N S preamble body (cores (helix_start n body junk m) ! c) []" if "c < n" for c
      unfolding core [OF that] by (rule core_ok_start [OF assms(1)]) (use that in simp)
    show "complete N S preamble body i []" if "i < iter (cores (helix_start n body junk m) ! (i mod n))" for i
      using that core [of "i mod n"] assms(2) mod_less_eq_dividend [of i n] by simp
  qed (use core assms(2) in \<open>simp_all add: helix_start_def\<close>)
  moreover have "segment_ok n N preamble calls x (helix_start n body junk m)" if "x < S" for x
    unfolding segment_ok_def upcoming_def events using assms(3) that
    by (auto simp: helix_start_def fresh_locks_def)
  ultimately show ?thesis by (simp add: ring_ok_def)
qed

lemma ring_reachable:
  assumes "(helix_step N body calls)\<^sup>*\<^sup>* (helix_start n body junk m) s"
    and "iterations_ok n N S preamble body" "ring_layout n S calls" "fresh_locks n S calls m"
  shows "ring_ok n N S preamble body calls s"
  using assms(1)
proof induction
  case base
  show ?case using ring_ok_start [OF assms(2) _ assms(4)] ring_layoutD(1) [OF assms(3)] by blast
next
  case (step s t)
  from ring_ok_step [OF step.hyps(2) assms(2,3) step.IH] show ?case .
qed

section \<open>Iterations in order\<close>

lemma eventsOf_mem: "e \<in> set (eventsOf s i) \<longleftrightarrow> (i, e) \<in> set (trace s)"
  by (force simp: eventsOf_def)

lemma step_trace:
  assumes "helix_step N body calls s t"
  obtains i ev where "trace t = trace s @ map (Pair i) ev" "length ev \<le> 1"
  using assms
proof cases
  case (instruction c k I Is st m over ev)
  have "length ev \<le> 1" using instruction(5) by (cases I) (auto split: if_splits option.splits)
  then show ?thesis using that instruction(1) by simp
qed (use that [of 0 "[]"] in auto)

lemma trace_in_order:
  assumes "(helix_step N body calls)\<^sup>*\<^sup>* (helix_start n body junk m) s"
    and "iterations_ok n N S preamble body" "ring_layout n S calls" "fresh_locks n S calls m"
    and "x < S" "j \<le> lastOrdered n N preamble x" "i < j" "trace s = us @ (j, Waited x) # vs"
  shows "(i, Signaled x) \<in> set us"
  using assms(1,8)
proof (induction arbitrary: vs)
  case base
  then show ?case by (simp add: helix_start_def)
next
  case (step s t)
  obtain i' ev where ev: "trace t = trace s @ map (Pair i') ev" "length ev \<le> 1" using step_trace [OF step.hyps(2)] .
  show ?case
  proof (cases "vs = []")
    case False
    then obtain vs' v where "vs = vs' @ [v]" by (metis rev_exhaust)
    then have "(us @ (j, Waited x) # vs') @ [v] = trace s @ map (Pair i') ev" using step.prems ev(1) by simp
    then consider "trace s = us @ (j, Waited x) # vs' @ [v]" | "trace s = us @ (j, Waited x) # vs'"
      using ev(2) by (cases ev) auto
    then show ?thesis using step.IH by cases auto
  next
    case True
    have reach: "(helix_step N body calls)\<^sup>*\<^sup>* (helix_start n body junk m) t" using step.hyps by (rule rtranclp.rtrancl_into_rtrancl)
    note ok = ring_reachable [OF reach assms(2-4), unfolded ring_ok_def]
    have "Waited x \<in> set (eventsOf t j)" using step.prems by (simp add: eventsOf_mem)
    from signaled_before [OF assms(2) conjunct1 [OF ok] conjunct2 [OF ok, rule_format, OF assms(5)] assms(5,6) this assms(7)]
    have "(i, Signaled x) \<in> set (trace t)" by (simp add: eventsOf_mem)
    then show ?thesis using step.prems True by simp
  qed
qed

text \<open>Instructions that are executed behind the wait for a segment and before its first signal.\<close>

definition guardedBy :: "nat \<Rightarrow> nat set \<Rightarrow> sync_inst list \<Rightarrow> bool" where
  "guardedBy s X Is \<longleftrightarrow>
     (\<forall>st xs a ys. a \<in> X \<and> runSync False st Is = xs @ Executed a # ys \<longrightarrow> Waited s \<in> set xs \<and> Signaled s \<notin> set xs)"

lemma guarded_in_trace:
  assumes "cores_ok n N S preamble body s" "i \<le> N" "guardedBy x X (body i)" "a \<in> X"
    and "trace s = us @ (i, Executed a) # vs"
  shows "(i, Waited x) \<in> set us \<and> (i, Signaled x) \<notin> set us"
proof -
  let ?of = "\<lambda>xs. map snd (filter (\<lambda>e. fst e = i) xs)"
  obtain F where F: "complete N S preamble body i (eventsOf s i @ F)" using cores_partial [OF assms(1)] by blast
  then obtain st where "eventsOf s i @ F = runSync False st (body i)"
    using assms(2) by (auto simp: complete_def split: option.splits)
  moreover have "eventsOf s i = ?of us @ Executed a # ?of vs" by (simp add: eventsOf_def assms(5))
  ultimately have "runSync False st (body i) = ?of us @ Executed a # (?of vs @ F)" by simp
  then have "Waited x \<in> set (?of us) \<and> Signaled x \<notin> set (?of us)" using assms(3,4) unfolding guardedBy_def by blast
  then show ?thesis by force
qed

lemma guarded_in_order:
  assumes "(helix_step N body calls)\<^sup>*\<^sup>* (helix_start n body junk m) s"
    and "iterations_ok n N S preamble body" "ring_layout n S calls" "fresh_locks n S calls m"
    and "x < S" "i < j" "j \<le> N" "guardedBy x X (body i)" "guardedBy x X (body j)" "a \<in> X" "b \<in> X"
    and "trace s = us @ (j, Executed b) # vs"
  shows "(i, Executed a) \<notin> set vs"
proof
  assume "(i, Executed a) \<in> set vs"
  then obtain vs1 vs2 where vs: "vs = vs1 @ (i, Executed a) # vs2" by (metis split_list)
  have cok: "cores_ok n N S preamble body s" using ring_reachable [OF assms(1-4)] by (simp add: ring_ok_def)
  have "(j, Waited x) \<in> set us" using guarded_in_trace [OF cok assms(7,9,11,12)] by simp
  then obtain us1 us2 where us: "us = us1 @ (j, Waited x) # us2" by (metis split_list)
  have "j \<le> lastOrdered n N preamble x" using assms(7) lastOrdered_bound [OF cores_okD(1) [OF cok], of N preamble x] by simp
  moreover have "trace s = us1 @ (j, Waited x) # (us2 @ (j, Executed b) # vs)" using assms(12) us by simp
  ultimately have "(i, Signaled x) \<in> set us1" using trace_in_order [OF assms(1-5) _ assms(6)] by blast
  moreover have "trace s = (us @ (j, Executed b) # vs1) @ (i, Executed a) # vs2" using assms(12) vs by simp
  from guarded_in_trace [OF cok _ assms(8,10) this] assms(6,7) have "(i, Signaled x) \<notin> set us" by simp
  ultimately show False using us by simp
qed

section \<open>The ring ends\<close>

definition finished :: "nat \<Rightarrow> helix_core \<Rightarrow> bool" where
  "finished N k \<longleftrightarrow> rest k = [] \<and> (left k \<or> N \<le> iter k)"

lemma finished_iter: "core_ok N S preamble body k E \<Longrightarrow> finished N k \<Longrightarrow> N \<le> iter k"
  by (auto simp: finished_def core_ok_def split: option.splits)

text \<open>The unfinished core with the smallest iteration can move.\<close>

lemma smallest_moves:
  assumes "iterations_ok n N S preamble body" "ring_ok n N S preamble body calls s" "ring_layout n S calls"
    and "c < n" "\<not> finished N (cores s ! c)"
    and "\<forall>d < n. \<not> finished N (cores s ! d) \<longrightarrow> iter (cores s ! c) \<le> iter (cores s ! d)"
  shows "\<exists>t. helix_step N body calls s t"
proof -
  let ?k = "cores s ! c"
  have cok: "cores_ok n N S preamble body s" and segs: "\<forall>x < S. segment_ok n N preamble calls x s"
    using assms(2) by (simp_all add: ring_ok_def)
  note ok = cores_okD [OF cok]
  have c: "c < length (cores s)" using assms(4) ok(2) by simp
  note core = ok(5) [OF assms(4)]
  show ?thesis
  proof (cases "rest ?k")
    case Nil
    then show ?thesis using assms(5) helix_step.iterate [OF c refl Nil] by (auto simp: finished_def not_le)
  next
    case (Cons I Is)
    show ?thesis
    proof (cases "runInst (calls c) I (ssState ?k) (locks s) (loopIsOver s)")
      case (Some r)
      then show ?thesis using helix_step.instruction [OF c refl Cons] by (cases r) blast
    next
      case None
      then consider ids where "I = CheckLoopIsOver ids"
        | x where "I = WaitIfUnset x" "\<not> ssState ?k x" "locks s (ss_lock (c_past (calls c)) x) \<noteq> Some False"
        by (cases I) (auto simp: HELIX_wait_def split: if_splits)
      then show ?thesis
      proof cases
        case 1
        then show ?thesis using helix_step.check [OF c refl] Cons by blast
      next
        case 2
        let ?i = "iter ?k"
        have x: "x < S" using core Cons 2(1) by (simp add: core_ok_def segmentsBelow_def)
        have "runInst (calls c) I (ssState ?k) (\<lambda>a. Some False) (loopIsOver s) =
            Some ((ssState ?k)(x := True), (\<lambda>a. Some False)(ss_lock (c_past (calls c)) x \<mapsto> True), loopIsOver s, [Waited x])"
          using 2 by (simp add: HELIX_wait_def)
        from next_event [OF core Cons this] obtain F where
          F: "complete N S preamble body ?i (eventsOf s ?i @ [Waited x] @ F)" by blast
        have iN: "?i < N + n" using ok(4) [OF assms(4)] .
        have le: "?i \<le> lastOrdered n N preamble x" by (rule not_waited_for [OF assms(1) F iN x]) simp
        have "Waited x \<notin> set (eventsOf s ?i)" using partial_shape(2) [OF assms(1) F iN x le] by auto
        then have "upcoming n s x c = ?i" by (simp add: upcoming_def)
        then have blocked: "?i \<noteq> 0" "Signaled x \<notin> set (eventsOf s (?i - 1))"
          using segs x assms(4) le 2(3) unfolding segment_ok_def by fastforce+
        let ?j = "?i - 1" and ?d = "(?i - 1) mod n"
        have d: "?d < n" using ok(1) by simp
        have incomplete: "\<not> complete N S preamble body ?j (eventsOf s ?j)"
        proof
          assume "complete N S preamble body ?j (eventsOf s ?j)"
          moreover have "?j < N + n" "?j \<le> lastOrdered n N preamble x" using iN le by simp_all
          ultimately show False using complete_syncs(2) [OF assms(1) _ _ x] blocked(2) by blast
        qed
        have "\<not> finished N (cores s ! ?d) \<and> iter (cores s ! ?d) < ?i"
        proof -
          consider "?j < iter (cores s ! ?d)" | "iter (cores s ! ?d) = ?j" | "iter (cores s ! ?d) < ?j" by linarith
          then show ?thesis
          proof cases
            case 1
            then show ?thesis using ok(6) incomplete by simp
          next
            case 2
            then have "rest (cores s ! ?d) \<noteq> []" using core_ok_finished [OF ok(5) [OF d]] incomplete by auto
            then show ?thesis using 2 blocked(1) by (simp add: finished_def)
          next
            case 3
            then have "iter (cores s ! ?d) + n \<le> ?j" using mod_gap [OF 3] ok(3) [OF d] by simp
            then have "iter (cores s ! ?d) < N" using iN blocked(1) by linarith
            then show ?thesis using 3 finished_iter [OF ok(5) [OF d]] by force
          qed
        qed
        then show ?thesis using assms(6) d by force
      qed
    qed
  qed
qed

lemma ring_progress:
  assumes "iterations_ok n N S preamble body" "ring_ok n N S preamble body calls s" "ring_layout n S calls"
    and "c < n" "\<not> finished N (cores s ! c)"
  shows "\<exists>t. helix_step N body calls s t"
proof -
  obtain d where "d < n \<and> \<not> finished N (cores s ! d)"
    "\<forall>e. e < n \<and> \<not> finished N (cores s ! e) \<longrightarrow> iter (cores s ! d) \<le> iter (cores s ! e)"
    using ex_has_least_nat [of "\<lambda>e. e < n \<and> \<not> finished N (cores s ! e)" c "\<lambda>e. iter (cores s ! e)"] assms(4,5) by blast
  then show ?thesis using smallest_moves [OF assms(1-3)] by blast
qed

lemma ring_complete:
  assumes "cores_ok n N S preamble body s" "\<forall>c < n. finished N (cores s ! c)" "i \<le> N"
  shows "\<exists>st. eventsOf s i = runSync False st (body i)"
proof -
  note ok = cores_okD [OF assms(1)]
  let ?k = "cores s ! (i mod n)"
  have c: "i mod n < n" using ok(1) by simp
  have "N \<le> iter ?k" using finished_iter [OF ok(5) [OF c]] assms(2) c by blast
  then consider "i < iter ?k" | "i = iter ?k" using assms(3) by linarith
  then have "complete N S preamble body i (eventsOf s i)"
  proof cases
    case 2
    then show ?thesis using core_ok_finished [OF ok(5) [OF c]] assms(2) c by (simp add: finished_def)
  qed (rule ok(6))
  then show ?thesis using assms(3) by (auto simp: complete_def split: option.splits)
qed

text \<open>What is left to do of an iteration.\<close>

definition stepsLeft :: "nat \<Rightarrow> nat \<Rightarrow> (nat \<Rightarrow> sync_inst list) \<Rightarrow> helix_ring \<Rightarrow> nat \<Rightarrow> nat" where
  "stepsLeft n S body s i =
     (let k = cores s ! (i mod n) in
      if iter k < i then Suc (length (body i))
      else if iter k = i then length (rest k) + (if left k then 0 else S) else 0)"

lemma sum_decreases:
  "finite A \<Longrightarrow> a \<in> A \<Longrightarrow> f a < g a \<Longrightarrow> (\<And>i. i \<in> A \<Longrightarrow> i \<noteq> a \<Longrightarrow> f i = g i) \<Longrightarrow> sum f A < sum g (A :: nat set)"
  for f g :: "nat \<Rightarrow> nat"
  by (rule sum_strict_mono_ex1, assumption) (metis less_imp_le order_refl, blast)

lemma sum_moves:
  fixes f g :: "nat \<Rightarrow> nat"
  assumes "finite A" "a \<in> A" "b \<in> A" "a \<noteq> b" "f a + f b < g a + g b" "\<And>i. i \<in> A \<Longrightarrow> i \<noteq> a \<Longrightarrow> i \<noteq> b \<Longrightarrow> f i = g i"
  shows "sum f A < sum g A"
proof -
  have "sum h A = h a + (h b + sum h (A - {a} - {b}))" for h :: "nat \<Rightarrow> nat"
    using assms(1-4) by (simp add: sum.remove [of A a] sum.remove [of "A - {a}" b])
  moreover have "sum f (A - {a} - {b}) = sum g (A - {a} - {b})" by (rule sum.cong) (use assms(6) in auto)
  ultimately show ?thesis using assms(5) by simp
qed

lemma step_decreases:
  assumes "helix_step N body calls s t" "cores_ok n N S preamble body s"
  shows "(\<Sum>i < N + n. stepsLeft n S body t i) < (\<Sum>i < N + n. stepsLeft n S body s i)"
proof -
  note ok = cores_okD [OF assms(2)]
  have within: "(\<Sum>i < N + n. stepsLeft n S body t i) < (\<Sum>i < N + n. stepsLeft n S body s i)"
    if c: "c < n" and t: "cores t = (cores s)[c := k]" and k: "iter k = iter (cores s ! c)"
      and less: "length (rest k) + (if left k then 0 else S) <
        length (rest (cores s ! c)) + (if left (cores s ! c) then 0 else S)" for c k
  proof (rule sum_decreases [where a = "iter k"])
    show "iter k \<in> {..<N + n}" using k ok(4) [OF c] by simp
    have mod: "iter k mod n = c" using k ok(3) [OF c] by simp
    show "stepsLeft n S body t (iter k) < stepsLeft n S body s (iter k)"
      unfolding stepsLeft_def mod t Let_def using less c k ok(2) by simp
    show "stepsLeft n S body t i = stepsLeft n S body s i" if "i \<noteq> iter k" for i
      using that c k ok(2) by (cases "i mod n = c") (auto simp: stepsLeft_def t)
  qed simp
  from assms(1) show ?thesis
  proof cases
    case (instruction c k I Is st m over ev)
    show ?thesis by (rule within [of c "k\<lparr>rest := Is, ssState := st\<rparr>"]) (use instruction ok(2) in auto)
  next
    case (check c k ids Is)
    have c: "c < n" using check(2) ok(2) by simp
    obtain p where "ids = [0..<S]" "\<not> left k" using core_ok_check [OF ok(5) [OF c]] check(3,4) by metis
    then show ?thesis
      by (intro within [of c "if loopIsOver s then k\<lparr>rest := map SignalCall ids, left := True\<rparr> else k\<lparr>rest := Is\<rparr>"])
        (use check c in auto)
  next
    case (iterate c k)
    have c: "c < n" using iterate(2) ok(2) by simp
    have mod: "iter k mod n = c" using ok(3) [OF c] iterate(3) by simp
    show ?thesis
    proof (rule sum_moves [where a = "iter k" and b = "iter k + n"])
      show "iter k \<in> {..<N + n}" "iter k + n \<in> {..<N + n}" "iter k \<noteq> iter k + n" using iterate(6) ok(1) by simp_all
      show "stepsLeft n S body t (iter k) + stepsLeft n S body t (iter k + n) <
          stepsLeft n S body s (iter k) + stepsLeft n S body s (iter k + n)"
        using iterate c ok(1,2) by (simp add: stepsLeft_def mod)
      fix i assume i: "i \<noteq> iter k" "i \<noteq> iter k + n"
      show "stepsLeft n S body t i = stepsLeft n S body s i"
      proof (cases "i mod n = c")
        case True
        have "iter k + n < i" if "iter k < i" using mod_gap [OF that, of n] True mod i(2) by simp
        then show ?thesis using True i iterate c ok(2) by (auto simp: stepsLeft_def)
      next
        case False
        then show ?thesis using iterate c ok(2) by (simp add: stepsLeft_def)
      qed
    qed simp
  qed
qed

lemma ring_bound:
  assumes "(helix_step N body calls ^^ k) (helix_start n body junk m) s"
    and "iterations_ok n N S preamble body" "ring_layout n S calls" "fresh_locks n S calls m"
  shows "k + (\<Sum>i < N + n. stepsLeft n S body s i) \<le> (\<Sum>i < N + n. length (body i)) + N + n * S"
  using assms(1)
proof (induction k arbitrary: s)
  case 0
  note n = ring_layoutD(1) [OF assms(3)]
  have "stepsLeft n S body s i = length (body i) + (if i < n then S else 1)" for i
  proof -
    have "i mod n < n" using n by simp
    then have "cores s ! (i mod n) = \<lparr>iter = i mod n, rest = body (i mod n), ssState = junk (i mod n), left = False\<rparr>"
      using 0 by (auto simp: helix_start_def)
    moreover have "i mod n < i \<longleftrightarrow> \<not> i < n" using n by (metis mod_less mod_less_divisor not_less order_less_le_trans less_irrefl)
    moreover have "i < n \<Longrightarrow> i mod n = i" by simp
    ultimately show ?thesis by (auto simp: stepsLeft_def)
  qed
  then have "(\<Sum>i < N + n. stepsLeft n S body s i) = (\<Sum>i < N + n. length (body i)) + (\<Sum>i < N + n. if i < n then S else 1)"
    by (simp add: sum.distrib)
  also have "(\<Sum>i < N + n. if i < n then S else 1) = n * S + N"
  proof -
    have "{..<N + n} = {..<n} \<union> {n..<N + n}" "{..<n} \<inter> {n..<N + n} = {}" by auto
    then have "(\<Sum>i < N + n. if i < n then S else 1) = (\<Sum>i < n. if i < n then S else 1) + (\<Sum>i \<in> {n..<N + n}. if i < n then S else 1)"
      by (metis finite_atLeastLessThan finite_lessThan sum.union_disjoint)
    then show ?thesis by simp
  qed
  finally show ?case by simp
next
  case (Suc k)
  then obtain s' where s': "(helix_step N body calls ^^ k) (helix_start n body junk m) s'" "helix_step N body calls s' s" by auto
  have "cores_ok n N S preamble body s'"
    using ring_reachable [OF relpowp_imp_rtranclp [OF s'(1)] assms(2-4)] by (simp add: ring_ok_def)
  from step_decreases [OF s'(2) this] Suc.IH [OF s'(1)] show ?case by simp
qed

end
