(* ===== verification/Helix_Sync_Segments.thy ===== *)
theory Helix_Sync_Segments
  imports Helix_Sync_Correct
begin

text \<open>
  The frontiers of a segment and the code that is put there, together: in every iteration the
  instructions of a segment are executed between the wait for it and its first signal.
\<close>

section \<open>Where the signals of a segment are\<close>

text \<open>Behind an exit, or directly before an exit that ends its block.\<close>

definition signalsAtExits :: "nat set \<Rightarrow> nat \<Rightarrow> sync_inst list \<Rightarrow> bool" where
  "signalsAtExits X s xs \<longleftrightarrow>
     (\<forall>us vs. xs = us @ SignalCall s # vs \<longrightarrow>
        (\<exists>x \<in> X. OrigInst x \<in> set us \<or> filter isOrigInst vs = [OrigInst x]))"

lemma signalsAtExits_none: "SignalCall s \<notin> set xs \<Longrightarrow> signalsAtExits X s xs"
  by (auto simp: signalsAtExits_def)

lemma signalsAtExits_insert:
  assumes "signalsAtExits X s (us @ vs)" "\<not> isOrigInst z"
    and "z = SignalCall s \<Longrightarrow> \<exists>x \<in> X. OrigInst x \<in> set us \<or> filter isOrigInst vs = [OrigInst x]"
  shows "signalsAtExits X s (us @ z # vs)"
  unfolding signalsAtExits_def
proof (intro allI impI)
  fix us' vs'
  assume eq: "us @ z # vs = us' @ SignalCall s # vs'"
  consider "us' = us" "z = SignalCall s" "vs' = vs"
    | ws where "us = us' @ SignalCall s # ws" "vs' = ws @ z # vs"
    | ws where "us' = us @ z # ws" "vs = ws @ SignalCall s # vs'"
    using eq by (auto simp: append_eq_append_conv2 append_eq_Cons_conv Cons_eq_append_conv)
  then show "\<exists>x \<in> X. OrigInst x \<in> set us' \<or> filter isOrigInst vs' = [OrigInst x]"
  proof cases
    case 1
    then show ?thesis using assms(3) by simp
  next
    case 2
    then have "us @ vs = us' @ SignalCall s # (ws @ vs)" by simp
    with assms(1) have "\<exists>x \<in> X. OrigInst x \<in> set us' \<or> filter isOrigInst (ws @ vs) = [OrigInst x]"
      unfolding signalsAtExits_def by blast
    then show ?thesis using 2(2) assms(2) by simp
  next
    case 3
    then have "us @ vs = (us @ ws) @ SignalCall s # vs'" by simp
    with assms(1) have "\<exists>x \<in> X. OrigInst x \<in> set (us @ ws) \<or> filter isOrigInst vs' = [OrigInst x]"
      unfolding signalsAtExits_def by blast
    then show ?thesis using 3(1) by auto
  qed
qed

lemma signalsAtExits_grows:
  "grows S xs ys \<Longrightarrow> \<forall>z \<in> S. \<not> isOrigInst z \<and> z \<noteq> SignalCall s \<Longrightarrow> signalsAtExits X s xs \<Longrightarrow> signalsAtExits X s ys"
  by (induction rule: grows.induct) (auto intro: signalsAtExits_insert)

lemma codeGrows_exits:
  "codeGrows S code code' \<Longrightarrow> \<forall>z \<in> S b. \<not> isOrigInst z \<and> z \<noteq> SignalCall s \<Longrightarrow> signalsAtExits X s (code b) \<Longrightarrow>
   signalsAtExits X s (code' b)"
  unfolding codeGrows_def using signalsAtExits_grows by metis

lemma codeGrows_last: "codeGrows S code code' \<Longrightarrow> last (code' b) = last (code b)"
  unfolding codeGrows_def using grows_last by metis

lemma codeGrows_orig:
  "codeGrows S code code' \<Longrightarrow> \<forall>z \<in> S b. \<not> isOrigInst z \<Longrightarrow> filter isOrigInst (code' b) = filter isOrigInst (code b)"
  unfolding codeGrows_def using grows_filter by metis

text \<open>An exit within its block, or at the end of a block that goes on to one block only.\<close>

definition plainExit :: "sync_loop \<Rightarrow> sync_code \<Rightarrow> nat \<Rightarrow> bool" where
  "plainExit G code x \<longleftrightarrow> last (code (parentOf G x)) \<noteq> OrigInst x \<or> length (successorBBs G (parentOf G x)) = 1"

text \<open>
  Exits whose signals stay where they are put: a plain one, or a branch none of whose successors is the
  header, and each successor jumps on or has an instruction before its terminator.
\<close>

definition exitKept :: "sync_loop \<Rightarrow> sync_code \<Rightarrow> nat \<Rightarrow> bool" where
  "exitKept G code x \<longleftrightarrow> plainExit G code x \<or>
     (\<forall>c \<in> set (successorBBs G (parentOf G x)).
        c \<noteq> loopHeaderBB G \<and> (jumps G c \<or> firstNonPHI (code c) \<noteq> last (code c)))"

text \<open>The blocks a conditional exit branches to.\<close>

definition behindExits :: "sync_loop \<Rightarrow> sync_code \<Rightarrow> sync_segment \<Rightarrow> nat set" where
  "behindExits G code ss =
     (\<Union>x \<in> {x \<in> set (ssExits ss). \<not> plainExit G code x}. set (successorBBs G (parentOf G x)))"

lemma firstNonPHI_not_last:
  assumes "terminated code" "codeGrows S code code'" "last (code b) \<notin> S b" "firstNonPHI (code b) \<noteq> last (code b)"
  shows "firstNonPHI (code' b) \<noteq> last (code' b)"
proof
  let ?f = "firstNonPHI (code b)" and ?t = "last (code b)"
  obtain vs where f: "code b = takeWhile isPhiInst (code b) @ ?f # vs" "\<not> isPhiInst ?f"
    using firstNonPHI_split [OF assms(1), of b] by blast
  have t: "\<not> isPhiInst ?t" using assms(1) by (simp add: terminated_def)
  have "?t \<notin> set (takeWhile isPhiInst (code b) @ [?f])" using t assms(4) by (auto dest: set_takeWhileD)
  then have "precedes ?f ?t ((takeWhile isPhiInst (code b) @ [?f]) @ vs)" by (intro precedes_behind) auto
  then have "precedes ?f ?t (code b)" using f(1) by simp
  then have order: "precedes ?f ?t (code' b)" by (rule codeGrows_precedes [OF assms(2,3)])
  have last: "last (code' b) = ?t" using codeGrows_last [OF assms(2)] .
  assume "firstNonPHI (code' b) = last (code' b)"
  then have first: "firstNonPHI (code' b) = ?t" using last by simp
  have "?t \<in> set (code' b)" using terminated_grows [OF assms(1,2)] last unfolding terminated_def by (metis last_in_set)
  then have "?f \<in> set (takeWhile (\<lambda>I. I \<noteq> ?t) (code' b))" using order by (simp add: precedes_def)
  also have "takeWhile (\<lambda>I. I \<noteq> ?t) (code' b) = takeWhile isPhiInst (code' b)"
    using firstNonPHI_split [OF terminated_grows [OF assms(1,2)], of b] first by metis
  finally show False using f(2) by (auto dest: set_takeWhileD)
qed

lemma exitPoints_kept:
  assumes "terminated w" "placed G sss w" "ss \<in> set sss" "\<forall>x \<in> set (ssExits ss). exitKept G w x"
    and "\<forall>b \<in> set (loopExitBBs G). jumps G b" "q \<in> set (exitPoints G prologue ss w)"
  shows "snd q \<in> set (w (fst q)) \<and> (snd q \<noteq> last (w (fst q)) \<or> jumps G (fst q)) \<and>
    ((\<exists>x \<in> set (ssExits ss). q = (parentOf G x, OrigInst x) \<and> plainExit G w x) \<or>
     fst q \<in> set (loopExitBBs G) \<or> fst q \<in> behindExits G w ss \<and> fst q \<noteq> loopHeaderBB G)"
proof -
  have "snd q \<in> set (w (fst q))" by (rule exitPoints_mem [OF assms(1-3,6)])
  moreover consider x where "x \<in> set (ssExits ss)" "q \<in> set (pointsOfExit G w x)" "plainExit G w x"
    | x where "x \<in> set (ssExits ss)" "q \<in> set (pointsOfExit G w x)" "\<not> plainExit G w x"
    | "fst q \<in> set (loopExitBBs G)"
    using assms(6) by (auto simp: exitPoints_def split: if_splits)
  then have "(snd q \<noteq> last (w (fst q)) \<or> jumps G (fst q)) \<and>
    ((\<exists>x \<in> set (ssExits ss). q = (parentOf G x, OrigInst x) \<and> plainExit G w x) \<or>
     fst q \<in> set (loopExitBBs G) \<or> fst q \<in> behindExits G w ss \<and> fst q \<noteq> loopHeaderBB G)"
  proof cases
    case 1
    then have "q = (parentOf G x, OrigInst x)" by (simp add: pointsOfExit_def plainExit_def Let_def)
    then show ?thesis using 1 by (auto simp: plainExit_def jumps_def)
  next
    case 2
    then obtain c where c: "c \<in> set (successorBBs G (parentOf G x))" "q = (c, firstNonPHI (w c))"
      by (auto simp: pointsOfExit_def plainExit_def Let_def)
    then have "c \<noteq> loopHeaderBB G \<and> (jumps G c \<or> firstNonPHI (w c) \<noteq> last (w c))"
      using assms(4) 2(1,3) unfolding exitKept_def by blast
    moreover have "c \<in> behindExits G w ss" using 2 c(1) by (auto simp: behindExits_def)
    ultimately show ?thesis using c(2) by auto
  qed (use assms(5) in blast)
  ultimately show ?thesis by blast
qed

lemma signal_at_exit:
  assumes "OrigInst x \<in> set (code (parentOf G x))" "plainExit G code x" "x \<in> X"
    and "distinct (filter isOrigInst (code (parentOf G x)))" "signalsAtExits X s (code b)"
  shows "signalsAtExits X s (injectSignal G s (parentOf G x, OrigInst x) code b)"
proof -
  let ?b = "parentOf G x" and ?f = "OrigInst x"
  have eq: "injectSignal G s (?b, ?f) code = code(?b := (if ?f = last (code ?b) then insertBefore ?f [SignalCall s] (code ?b)
      else insertAfter ?f [SignalCall s] (code ?b)))"
    using injectSignal_here(1) [of "(?b, ?f)" code G s] assms(1,2) by (auto simp: plainExit_def jumps_def)
  obtain us vs where xs: "code ?b = us @ ?f # vs" "?f \<notin> set us" using split_list_first [OF assms(1)] by blast
  show ?thesis
  proof (cases "b = ?b")
    case b: True
    have exits: "signalsAtExits X s (us @ ?f # vs)" using assms(5) unfolding b xs(1) .
    show ?thesis
    proof (cases "?f = last (code ?b)")
      case last: True
      have "vs = []"
      proof (rule ccontr)
        assume "vs \<noteq> []"
        then have "?f \<in> set vs" using last unfolding xs(1) by (metis last.simps last_appendR last_in_set list.distinct(1))
        moreover have "distinct (filter isOrigInst (us @ ?f # vs))" using assms(4) unfolding xs(1) .
        ultimately show False by simp
      qed
      have "signalsAtExits X s (us @ SignalCall s # ?f # vs)"
        by (rule signalsAtExits_insert [OF exits]) (use assms(3) \<open>vs = []\<close> in auto)
      moreover have "insertBefore ?f [SignalCall s] (code ?b) = us @ SignalCall s # ?f # vs"
        unfolding xs(1) insertBefore_split [OF xs(2)] by simp
      ultimately show ?thesis unfolding eq b fun_upd_same if_P [OF last] by simp
    next
      case False
      have "signalsAtExits X s ((us @ [?f]) @ SignalCall s # vs)"
        by (rule signalsAtExits_insert) (use assms(3) exits in auto)
      moreover have "insertAfter ?f [SignalCall s] (code ?b) = (us @ [?f]) @ SignalCall s # vs"
        unfolding xs(1) insertAfter_split [OF xs(2)] by simp
      ultimately show ?thesis unfolding eq b fun_upd_same if_not_P [OF False] by simp
    qed
  next
    case False
    then show ?thesis using assms(5) by (simp add: eq)
  qed
qed

lemma signalExit_exits:
  assumes "OrigInst x \<in> set (code (parentOf G x))" "plainExit G code x" "x \<in> X"
    and "distinct (filter isOrigInst (code (parentOf G x)))" "signalsAtExits X s (code b)"
  shows "signalsAtExits X s (signalExit G prologue s (parentOf G x, OrigInst x) code b)"
proof -
  let ?p = "(parentOf G x, OrigInst x)" and ?c = "injectSignal G s (parentOf G x, OrigInst x) code"
  note 1 = signal_at_exit [OF assms]
  have "codeGrows (\<lambda>b. if b = parentOf G x then {SignalCall s} else {}) code ?c"
    using injectSignal_here(2) [of ?p code G s] assms(1,2) by (auto simp: plainExit_def jumps_def)
  from point_grows [OF this assms(1)] have "codeGrows (\<lambda>b. {SetLoopIsOver}) ?c (injectExitFlagSet ?p ?c)"
    unfolding injectExitFlagSet_def by (intro codeGrows_upd insertBefore_grows) simp_all
  from codeGrows_exits [OF this _ 1] have "signalsAtExits X s (injectExitFlagSet ?p ?c b)" by simp
  then show ?thesis using 1 by (simp add: signalExit_def Let_def)
qed

lemma signalExit_elsewhere:
  assumes "snd p \<in> set (code (fst p))" "snd p \<noteq> last (code (fst p)) \<or> jumps G (fst p)" "b \<noteq> fst p"
  shows "signalExit G prologue s p code b = code b"
  using injectSignal_here(1) [of p code G s, OF assms(1,2)] assms(3)
  by (auto simp: signalExit_def Let_def injectExitFlagSet_def)

text \<open>What the signals of a segment keep, and what follows for the blocks of the loop.\<close>

lemma signalExits_exits:
  assumes "terminated code" "\<forall>p \<in> set ps. snd p \<in> set (code (fst p))"
    and "\<forall>b. distinct (filter isOrigInst (code b))"
    and "\<forall>p \<in> set ps. (\<exists>x \<in> X. p = (parentOf G x, OrigInst x) \<and> plainExit G code x) \<or> fst p \<in> E \<and> (snd p \<noteq> last (code (fst p)) \<or> jumps G (fst p))"
    and "b \<notin> E" "signalsAtExits X s (code b)"
  shows "signalsAtExits X s (fold (signalExit G prologue s) ps code b)"
  using assms
proof (induction ps arbitrary: code)
  case (Cons p ps)
  let ?c = "signalExit G prologue s p code"
  have p: "snd p \<in> set (code (fst p))" using Cons.prems(2) by simp
  note g = signalExit_grows [OF Cons.prems(1) p, of s prologue G]
  have eq: "filter isOrigInst (?c b) = filter isOrigInst (code b)" "last (?c b) = last (code b)" for b
    by (rule codeGrows_orig [OF g], simp) (rule codeGrows_last [OF g])
  have "signalsAtExits X s (?c b)"
  proof (cases "\<exists>x \<in> X. p = (parentOf G x, OrigInst x) \<and> plainExit G code x")
    case True
    then obtain x where x: "x \<in> X" "p = (parentOf G x, OrigInst x)" "plainExit G code x" by blast
    have "OrigInst x \<in> set (code (parentOf G x))" using p x(2) by simp
    from signalExit_exits [OF this x(3,1) spec [OF Cons.prems(3)] Cons.prems(6)] show ?thesis by (simp add: x(2))
  next
    case False
    then have "fst p \<in> E" "snd p \<noteq> last (code (fst p)) \<or> jumps G (fst p)" using Cons.prems(4) by auto
    then have "?c b = code b" using signalExit_elsewhere [of p code G b, OF p] Cons.prems(5) by metis
    then show ?thesis using Cons.prems(6) by simp
  qed
  moreover have "\<forall>q \<in> set ps. snd q \<in> set (?c (fst q))" using Cons.prems(2) point_grows [OF g] by simp
  moreover have "\<forall>q \<in> set ps. (\<exists>x \<in> X. q = (parentOf G x, OrigInst x) \<and> plainExit G ?c x) \<or>
      fst q \<in> E \<and> (snd q \<noteq> last (?c (fst q)) \<or> jumps G (fst q))"
    using Cons.prems(4) by (auto simp: plainExit_def eq(2))
  ultimately show ?case
    using Cons.IH [OF terminated_grows [OF Cons.prems(1) g]] Cons.prems(3,5) by (simp add: eq(1))
qed simp

lemma signals_final:
  assumes "sync_ok G sss code" "ss \<in> set sss" "\<forall>x \<in> set (ssExits ss). exitKept G code x"
    and "b \<notin> leavingBlocks G \<union> set (loopExitBBs G) \<union> behindExits G code ss"
  shows "signalsAtExits (set (ssExits ss)) (ssID ss) (addSynchronizations G sss preambleSCC code b)"
proof -
  let ?s = "ssID ss"
  define preamble where "preamble = map_option ssID (preambleSegment preambleSCC sss)"
  define prologue where "prologue = (preamble = Some ?s)"
  obtain code1 where code1: "terminated code1" "placed G sss code1" "codeGrows (insertsBefore G preamble ?s) code code1"
    "codeGrows (\<lambda>b. foreignInserts preamble ?s) (synchronizeSegment G sss preamble ss code1)
       (addSynchronizations G sss preambleSCC code)"
    using stage [OF assms(1,2) preamble_def] by blast
  define w where "w = withWaits G sss prologue ss code1"
  have g: "codeGrows (\<lambda>b. segmentInserts G sss preamble ?s b - {SignalCall ?s}) code1 w"
    using withWaits_grows_strict [OF code1(1,2) assms(2), of preamble] by (simp add: w_def prologue_def)
  note tw = terminated_grows [OF code1(1) g] and pw = placed_grows [OF code1(2) g]
  have "SignalCall ?s \<notin> set (code b)" using assms(1) unfolding sync_ok_def by (metis isOrigInst.simps(6) isPhiInst.simps(6))
  moreover have "SignalCall ?s \<notin> insertsBefore G preamble ?s b"
    using assms(4) by (simp add: insertsBefore_def foreignInserts_def)
  ultimately have "SignalCall ?s \<notin> set (w b)" using codeGrows_set [OF code1(3), of b] codeGrows_set [OF g, of b] by blast
  note none = signalsAtExits_none [OF this, of "set (ssExits ss)"]
  have last: "last (w b) = last (code b)" for b
    using codeGrows_last [OF code1(3)] codeGrows_last [OF g] by simp
  have orig: "filter isOrigInst (w b) = filter isOrigInst (code b)" for b
  proof -
    have "filter isOrigInst (w b) = filter isOrigInst (code1 b)"
      by (rule codeGrows_orig [OF g]) (auto simp: segmentInserts_def flagInserts_def split: if_splits)
    also have "\<dots> = filter isOrigInst (code b)"
      by (rule codeGrows_orig [OF code1(3)]) (auto simp: insertsBefore_def foreignInserts_def split: if_splits)
    finally show ?thesis .
  qed
  have plain: "plainExit G w x \<longleftrightarrow> plainExit G code x" for x using last by (simp add: plainExit_def)
  then have behind: "behindExits G w ss = behindExits G code ss" by (simp add: behindExits_def)
  have gw: "codeGrows (\<lambda>b. {I. \<not> isOrigInst I}) code w"
    by (rule codeGrows_trans [OF codeGrows_mono [OF code1(3)] codeGrows_mono [OF g]])
      (auto simp: insertsBefore_def foreignInserts_def segmentInserts_def flagInserts_def split: if_splits)
  have "firstNonPHI (w c) \<noteq> last (w c)" if "firstNonPHI (code c) \<noteq> last (code c)" for c
    by (rule firstNonPHI_not_last [OF _ gw _ that]) (use assms(1) original_last [OF assms(1)] in \<open>simp_all add: sync_ok_def\<close>)
  then have kept: "\<forall>x \<in> set (ssExits ss). exitKept G w x"
    using assms(3) unfolding exitKept_def plain by blast
  note points = exitPoints_kept [OF tw pw assms(2) kept, where prologue = prologue]
  have exits: "\<forall>b \<in> set (loopExitBBs G). jumps G b" using assms(1) by (simp add: sync_ok_def)
  have "signalsAtExits (set (ssExits ss)) ?s (fold (signalExit G prologue ?s) (exitPoints G prologue ss w) w b)"
  proof (rule signalExits_exits [OF tw _ _ _ _ none])
    show "\<forall>p \<in> set (exitPoints G prologue ss w). snd p \<in> set (w (fst p))"
      using exitPoints_mem [OF tw pw assms(2)] by blast
    show "\<forall>b. distinct (filter isOrigInst (w b))" using assms(1) by (simp add: orig sync_ok_def)
    show "b \<notin> set (loopExitBBs G) \<union> behindExits G w ss" using assms(4) behind by simp
    show "\<forall>p \<in> set (exitPoints G prologue ss w).
        (\<exists>x \<in> set (ssExits ss). p = (parentOf G x, OrigInst x) \<and> plainExit G w x) \<or>
        fst p \<in> set (loopExitBBs G) \<union> behindExits G w ss \<and> (snd p \<noteq> last (w (fst p)) \<or> jumps G (fst p))"
      using points [OF exits] by blast
  qed
  then have "signalsAtExits (set (ssExits ss)) ?s (synchronizeSegment G sss preamble ss code1 b)"
    by (simp add: synchronizeSegment_eq Let_def w_def prologue_def)
  from codeGrows_exits [OF code1(4) _ this] show ?thesis by (simp add: foreignInserts_def)
qed

section \<open>The instructions of a segment\<close>

text \<open>The numbers of the PHI nodes and instructions on a path: the path as \<open>Segment_Coverage\<close> sees it.\<close>

fun numbersOf :: "sync_inst list \<Rightarrow> nat list" where
  "numbersOf [] = []"
| "numbersOf (PhiInst i # Is) = i # numbersOf Is"
| "numbersOf (OrigInst i # Is) = i # numbersOf Is"
| "numbersOf (I # Is) = numbersOf Is"

lemma numbersOf_append: "numbersOf (xs @ ys) = numbersOf xs @ numbersOf ys"
  by (induction xs rule: numbersOf.induct) auto

lemma numbersOf_filter: "numbersOf xs = numbersOf (filter (\<lambda>I. isPhiInst I \<or> isOrigInst I) xs)"
  by (induction xs rule: numbersOf.induct) auto

lemma numbersOf_mem: "e \<in> set (numbersOf xs) \<longleftrightarrow> PhiInst e \<in> set xs \<or> OrigInst e \<in> set xs"
  by (induction xs rule: numbersOf.induct) auto

lemma numbersOf_blocks:
  assumes "\<And>b. filter (\<lambda>I. isPhiInst I \<or> isOrigInst I) (C b) = filter (\<lambda>I. isPhiInst I \<or> isOrigInst I) (code b)"
  shows "numbersOf (concat (map C p)) = numbersOf (concat (map code p))"
proof (induction p)
  case (Cons b p)
  have "numbersOf (C b) = numbersOf (code b)" using numbersOf_filter [of "C b"] numbersOf_filter [of "code b"] assms by metis
  with Cons show ?case by (simp add: numbersOf_append)
qed simp

lemma synchronized_numbers:
  assumes "sync_ok G sss code"
  shows "numbersOf (concat (map (addSynchronizations G sss preambleSCC code) p)) = numbersOf (concat (map code p))"
proof (rule numbersOf_blocks)
  fix b
  note g = addSynchronizations_grows [OF assms, of preambleSCC]
  show "filter (\<lambda>I. isPhiInst I \<or> isOrigInst I) (addSynchronizations G sss preambleSCC code b) =
      filter (\<lambda>I. isPhiInst I \<or> isOrigInst I) (code b)"
    by (rule grows_filter [OF spec [OF g [unfolded codeGrows_def]]])
      (auto simp: leavingInserts_def segmentInserts_def flagInserts_def split: if_splits)
qed

lemma concat_split:
  "concat (map C p) = A @ x # B \<Longrightarrow>
   \<exists>q b r us vs. p = q @ b # r \<and> C b = us @ x # vs \<and> A = concat (map C q) @ us \<and> B = vs @ concat (map C r)"
proof (induction p arbitrary: A)
  case (Cons b p)
  then have "C b @ concat (map C p) = A @ x # B" by simp
  then consider us where "C b = A @ x # us" "B = us @ concat (map C p)"
    | us where "A = C b @ us" "concat (map C p) = us @ x # B"
    by (auto simp: append_eq_append_conv2 append_eq_Cons_conv Cons_eq_append_conv)
  then show ?case
  proof cases
    case 1
    then have "b # p = [] @ b # p \<and> C b = A @ x # us \<and> A = concat (map C []) @ A \<and> B = us @ concat (map C p)" by simp
    then show ?thesis by blast
  next
    case 2
    from Cons.IH [OF 2(2)] obtain q b' r us' vs where
      "p = q @ b' # r" "C b' = us' @ x # vs" "us = concat (map C q) @ us'" "B = vs @ concat (map C r)" by blast
    then have "b # p = (b # q) @ b' # r \<and> C b' = us' @ x # vs \<and> A = concat (map C (b # q)) @ us' \<and>
        B = vs @ concat (map C r)" using 2(1) by simp
    then show ?thesis by blast
  qed
qed simp

lemma cfgPath_append: "cfgPath L (xs @ ys) \<Longrightarrow> cfgPath L xs"
  by (induction L xs rule: cfgPath.induct) (auto simp: neq_Nil_conv)

lemma iterationPath_prefix: "iterationPath L h (xs @ ys) \<Longrightarrow> xs \<noteq> [] \<Longrightarrow> iterationPath L h xs"
  by (auto simp: iterationPath_def dest: cfgPath_append)

text \<open>
  A segment with the entries and exits \<open>Helix_Segments\<close> computes for its instructions. An exit does not
  reach itself within an iteration: its innermost loop is the one that is parallelized.
\<close>

definition segmentOf :: "seg_loop \<Rightarrow> nat \<Rightarrow> (nat \<Rightarrow> nat set) \<Rightarrow> nat list \<Rightarrow> sync_segment \<Rightarrow> bool" where
  "segmentOf L h OUT instructions ss \<longleftrightarrow>
     loopCFG L h \<and> leastFlowSolution L h OUT \<and> (\<forall>i \<in> set (nonPHIs L instructions). \<not> skippable L i) \<and>
     (\<exists>unreachable fuel.
        SequentialSegment_new L OUT instructions unreachable fuel = Some (Inr (set (ssEntries ss), set (ssExits ss))) \<and>
        (\<forall>i \<in> set unreachable. i \<in> set (loopInstructions L) \<and>
           unreachableToAndFromSS L OUT (set (nonPHIs L instructions)) i)) \<and>
     (\<forall>x \<in> set (ssExits ss). x \<notin> OUT x)"

text \<open>
  The loop of the task: PHI nodes are no other instructions, and no exit is a branch to the header
  (\<open>helix_latch_signals_early\<close> says what happens then).
\<close>

definition guarded_ok :: "sync_loop \<Rightarrow> sync_segment list \<Rightarrow> sync_code \<Rightarrow> sync_segment \<Rightarrow> bool" where
  "guarded_ok G sss code ss \<longleftrightarrow>
     sync_ok G sss code \<and> ss \<in> set sss \<and> (\<forall>x \<in> set (ssExits ss). exitKept G code x) \<and>
     (\<forall>b b' i. PhiInst i \<in> set (code b) \<longrightarrow> OrigInst i \<notin> set (code b'))"

text \<open>The blocks behind an exit that is a branch, in both views of the loop.\<close>

definition branchesAgree :: "sync_loop \<Rightarrow> seg_loop \<Rightarrow> sync_code \<Rightarrow> sync_segment \<Rightarrow> bool" where
  "branchesAgree G L code ss \<longleftrightarrow>
     (\<forall>x \<in> set (ssExits ss). \<not> plainExit G code x \<longrightarrow>
        (\<forall>c \<in> set (successorBBs G (parentOf G x)). hd (numbersOf (code c)) \<in> set (stepForward L x)))"

text \<open>What follows the start of a block behind an exit is reached from the exit.\<close>

lemma block_numbers: "sync_ok G sss code \<Longrightarrow> numbersOf (code b) \<noteq> []"
proof -
  assume ok: "sync_ok G sss code"
  then have "code b \<noteq> []" by (simp add: sync_ok_def terminated_def)
  moreover obtain e where "last (code b) = OrigInst e" using original_last [OF ok, of b] by (metis isOrigInst.elims(2))
  ultimately have "OrigInst e \<in> set (code b)" using last_in_set by metis
  then show ?thesis using numbersOf_mem by (metis empty_iff list.set(1))
qed

lemma behind_branch:
  assumes "sync_ok G sss code" "loopCFG L h" "flowSolution L h OUT" "iterationBlocks G p"
    and "iterationPath L h (numbersOf (concat (map code p)))" "p = q @ b # r" "b \<noteq> loopHeaderBB G"
    and "numbersOf (concat (map code p)) = ns @ i # ms" "length (numbersOf (concat (map code q))) \<le> length ns"
    and "hd (numbersOf (code b)) \<in> set (stepForward L x)"
  shows "i \<in> OUT x"
proof -
  let ?path = "numbersOf (concat (map code p))" and ?m = "length (numbersOf (concat (map code q)))"
  let ?y = "hd (numbersOf (code b))"
  have path: "?path = numbersOf (concat (map code q)) @ numbersOf (code b) @ numbersOf (concat (map code r))"
    by (simp add: assms(6) numbersOf_append)
  have m: "?m < length ?path" "?path ! ?m = ?y"
    using block_numbers [OF assms(1), of b] by (simp_all add: path nth_append hd_conv_nth)
  have "q \<noteq> []" using assms(4,6,7) by (auto simp: iterationBlocks_def)
  then obtain b' q' where "q = b' # q'" by (cases q) auto
  then have "0 < ?m" using block_numbers [OF assms(1), of b'] by (simp add: numbersOf_append)
  then have "?y \<in> set (tl ?path)" using m by (metis Nitpick.size_list_simp(2) Suc_pred length_tl less_Suc_eq_0_disj list.size(3) not_less_eq nth_mem nth_tl)
  then have "?y \<noteq> h" using assms(5) by (auto simp: iterationPath_def)
  note step = flowSolution_step [OF assms(3,10) this]
  have i: "?path ! length ns = i" "length ns < length ?path" by (simp_all add: assms(8))
  show ?thesis
  proof (cases "?m = length ns")
    case True
    then show ?thesis using i m step(1) by simp
  next
    case False
    then have "?m < length ns" using assms(9) by simp
    from iterationPath_reaches [OF assms(2,3,5) this i(2)] show ?thesis using i(1) m(2) step(2) by auto
  qed
qed

lemma guarded_wait:
  assumes "guarded_ok G sss code ss" "segmentOf L h OUT instructions ss" "iterationBlocks G p"
    and "iterationPath L h (numbersOf (concat (map code p)))" "i \<in> set (nonPHIs L instructions)"
    and T: "concat (map (addSynchronizations G sss preambleSCC code) p) = A @ OrigInst i # B"
  shows "WaitIfUnset (ssID ss) \<in> set A"
proof -
  let ?C = "addSynchronizations G sss preambleSCC code" and ?s = "ssID ss"
  let ?pre = "map_option ssID (preambleSegment preambleSCC sss)"
  have ok: "sync_ok G sss code" "ss \<in> set sss" using assms(1) by (simp_all add: guarded_ok_def)
  show ?thesis
  proof (cases "?pre = Some ?s")
    case True
    obtain q b r us vs where split: "p = q @ b # r" "?C b = us @ OrigInst i # vs" "A = concat (map ?C q) @ us"
      using concat_split [OF T] by blast
    note w = waits_final [OF ok refl, where preambleSCC = preambleSCC]
    show ?thesis
    proof (cases q)
      case Nil
      then have "b = loopHeaderBB G" using assms(3) split(1) by (simp add: iterationBlocks_def)
      then have "precedes (WaitIfUnset ?s) (OrigInst i) (us @ OrigInst i # vs)"
        using precedes_trans [OF w(5) [OF True] w(6) [OF True]] split(2) by metis
      from precedes_first [OF this] show ?thesis using split(3) by simp
    next
      case (Cons c q')
      then have "c = loopHeaderBB G" using assms(3) split(1) by (simp add: iterationBlocks_def)
      moreover have "WaitIfUnset ?s \<in> set (?C (loopHeaderBB G))"
        using w(5,7) [OF True] by (auto simp: precedes_def dest: set_takeWhileD)
      ultimately show ?thesis using split(3) Cons by simp
    qed
  next
    case False
    have path: "iterationPath L h ((numbersOf A @ [i]) @ numbersOf B)"
      using assms(4) synchronized_numbers [OF ok(1), of preambleSCC p] T by (simp add: numbersOf_append)
    have prefix: "iterationPath L h (numbersOf A @ [i])" by (rule iterationPath_prefix [OF path]) simp
    obtain unreachable fuel where seg:
      "SequentialSegment_new L OUT instructions unreachable fuel = Some (Inr (set (ssEntries ss), set (ssExits ss)))"
      and L: "loopCFG L h" "leastFlowSolution L h OUT" "\<forall>i \<in> set (nonPHIs L instructions). \<not> skippable L i"
      using assms(2) unfolding segmentOf_def by blast
    obtain k where "k < length (numbersOf A @ [i])" "(numbersOf A @ [i]) ! k \<in> set (ssEntries ss)"
      using segment_waits_first [OF L(1,2) seg L(3) prefix] assms(5) by auto
    then have "\<exists>e \<in> set (numbersOf A @ [i]). e \<in> set (ssEntries ss)" using nth_mem by blast
    then obtain e where e: "e \<in> set (ssEntries ss)" "e \<in> set (numbersOf A) \<or> e = i" by auto
    note before = wait_precedes [OF ok assms(3), where preambleSCC = preambleSCC]
    show ?thesis
    proof (cases "e = i")
      case True
      show ?thesis by (rule before [OF T]) (use e(1) True in \<open>simp only: False if_False\<close>)
    next
      case other: False
      have "OrigInst e \<in> set (code (parentOf G e))" using ok e(1) by (auto simp: sync_ok_def placed_def)
      then have "PhiInst e \<notin> set (code b)" for b using assms(1) unfolding guarded_ok_def by blast
      moreover have "filter isPhiInst (?C b) = filter isPhiInst (code b)" for b
        by (rule grows_filter [OF spec [OF addSynchronizations_grows [OF ok(1), unfolded codeGrows_def]]])
          (auto simp: leavingInserts_def segmentInserts_def flagInserts_def split: if_splits)
      ultimately have no_phi: "PhiInst e \<notin> set (?C b)" for b
        by (metis (no_types, lifting) filter_set isPhiInst.simps(1) mem_Collect_eq set_filter)
      have "PhiInst e \<notin> set A"
      proof
        assume "PhiInst e \<in> set A"
        then have "PhiInst e \<in> set (concat (map ?C p))" unfolding T by simp
        then show False using no_phi by auto
      qed
      then have "OrigInst e \<in> set A" using e(2) other numbersOf_mem by blast
      then obtain A1 A2 where A: "A = A1 @ OrigInst e # A2" by (metis split_list)
      have "WaitIfUnset ?s \<in> set A1"
        by (rule before [of A1 e "A2 @ OrigInst i # B"]) (use T A e(1) in \<open>simp_all only: False if_False append.assoc append_Cons\<close>)
      then show ?thesis using A by simp
    qed
  qed
qed

lemma guarded_signal:
  assumes "guarded_ok G sss code ss" "segmentOf L h OUT instructions ss" "branchesAgree G L code ss" "iterationBlocks G p"
    and "iterationPath L h (numbersOf (concat (map code p)))" "i \<in> set (nonPHIs L instructions)"
    and "set p \<inter> (leavingBlocks G \<union> set (loopExitBBs G)) = {}" "last (code (parentOf G i)) \<noteq> OrigInst i"
    and T: "concat (map (addSynchronizations G sss preambleSCC code) p) = A @ OrigInst i # B"
  shows "SignalCall (ssID ss) \<notin> set A"
proof
  let ?C = "addSynchronizations G sss preambleSCC code" and ?s = "ssID ss"
  have ok: "sync_ok G sss code" "ss \<in> set sss" "\<forall>x \<in> set (ssExits ss). exitKept G code x"
    using assms(1) by (simp_all add: guarded_ok_def)
  obtain unreachable fuel where seg:
    "SequentialSegment_new L OUT instructions unreachable fuel = Some (Inr (set (ssEntries ss), set (ssExits ss)))"
    and L: "loopCFG L h" "leastFlowSolution L h OUT" "\<forall>i \<in> set (nonPHIs L instructions). \<not> skippable L i"
      "\<forall>i \<in> set unreachable. i \<in> set (loopInstructions L) \<and>
         unreachableToAndFromSS L OUT (set (nonPHIs L instructions)) i" "\<forall>x \<in> set (ssExits ss). x \<notin> OUT x"
    using assms(2) unfolding segmentOf_def by blast
  have flow: "flowSolution L h OUT" using L(2) by (simp add: leastFlowSolution_def)
  have reached: False if "x \<in> set (ssExits ss)" "i \<in> OUT x" for x
  proof -
    have "i = x" using exit_ends_segment [OF L(1,2) seg L(3,4) that(1)] that(2) assms(6) by blast
    then show False using that L(5) by blast
  qed
  assume "SignalCall ?s \<in> set A"
  then obtain A1 A2 where A: "A = A1 @ SignalCall ?s # A2" by (metis split_list)
  have "concat (map ?C p) = A1 @ SignalCall ?s # (A2 @ OrigInst i # B)" using T A by simp
  from concat_split [OF this] obtain q b r us vs where split: "p = q @ b # r" "?C b = us @ SignalCall ?s # vs"
    "A1 = concat (map ?C q) @ us" "A2 @ OrigInst i # B = vs @ concat (map ?C r)" by blast
  have numbers: "numbersOf (concat (map code p)) = numbersOf A @ i # numbersOf B"
    using synchronized_numbers [OF ok(1), of preambleSCC p] T by (simp add: numbersOf_append)
  show False
  proof (cases "b \<in> behindExits G code ss")
    case True
    then obtain x where x: "x \<in> set (ssExits ss)" "\<not> plainExit G code x" "b \<in> set (successorBBs G (parentOf G x))"
      by (auto simp: behindExits_def)
    have "b \<noteq> loopHeaderBB G" using ok(3) x unfolding exitKept_def by blast
    moreover have "length (numbersOf (concat (map code q))) \<le> length (numbersOf A)"
      using synchronized_numbers [OF ok(1), of preambleSCC q] by (simp add: A split(3) numbersOf_append)
    moreover have "hd (numbersOf (code b)) \<in> set (stepForward L x)" using assms(3) x unfolding branchesAgree_def by blast
    ultimately show False
      using behind_branch [OF ok(1) L(1) flow assms(4,5) split(1) _ numbers] reached [OF x(1)] by blast
  next
    case False
    have "b \<notin> leavingBlocks G \<union> set (loopExitBBs G) \<union> behindExits G code ss" using assms(7) split(1) False by auto
    from signals_final [OF ok this, of preambleSCC] split(2)
    obtain x where x: "x \<in> set (ssExits ss)" "OrigInst x \<in> set us \<or> filter isOrigInst vs = [OrigInst x]"
      unfolding signalsAtExits_def by blast
    have "OrigInst x \<in> set A"
    proof (cases "OrigInst x \<in> set us")
      case True
      then show ?thesis using A split(3) by simp
    next
      case False
      then have vs: "filter isOrigInst vs = [OrigInst x]" using x(2) by simp
      from split(4) consider ws where "vs = A2 @ OrigInst i # ws" | ws where "A2 = vs @ ws"
        by (auto simp: append_eq_append_conv2 Cons_eq_append_conv append_eq_Cons_conv)
      then show ?thesis
      proof cases
        case 1
        then have "filter isOrigInst A2 @ OrigInst i # filter isOrigInst ws = [OrigInst x]" using vs by simp
        then have "i = x" "filter isOrigInst ws = []" by (simp_all add: append_eq_Cons_conv)
        have orig: "filter isOrigInst (?C b) = filter isOrigInst (code b)"
          by (rule codeGrows_orig [OF addSynchronizations_grows [OF ok(1)]])
            (auto simp: leavingInserts_def segmentInserts_def flagInserts_def split: if_splits)
        have "last (filter isOrigInst (?C b)) = OrigInst x" using split(2) vs by simp
        moreover have "last (filter isOrigInst (code b)) = last (code b)"
        proof -
          have "code b \<noteq> []" using ok(1) by (simp add: sync_ok_def terminated_def)
          then obtain ys where "code b = ys @ [last (code b)]" by (metis append_butlast_last_id)
          then show ?thesis using original_last [OF ok(1), of b] by (metis filter.simps filter_append last_snoc)
        qed
        ultimately have "last (code b) = OrigInst i" using orig \<open>i = x\<close> by simp
        moreover have "OrigInst i \<in> set (?C b)" using split(2) 1 by simp
        then have "b = parentOf G i" using original_place [OF ok(1)] ok(1) by (simp add: sync_ok_def)
        ultimately show ?thesis using assms(8) by simp
      next
        case 2
        have "OrigInst x \<in> set vs" using arg_cong [OF vs, of set] by auto
        then show ?thesis using A 2 by simp
      qed
    qed
    then obtain A3 A4 where A': "A = A3 @ OrigInst x # A4" by (metis split_list)
    have path: "iterationPath L h (numbersOf A3 @ x # numbersOf A4 @ i # numbersOf B)"
      using assms(5) unfolding numbers A' by (simp add: numbersOf_append)
    have "(numbersOf A3 @ x # numbersOf A4 @ i # numbersOf B) ! (length (numbersOf A3) + Suc (length (numbersOf A4)))
        \<in> OUT ((numbersOf A3 @ x # numbersOf A4 @ i # numbersOf B) ! length (numbersOf A3))"
      by (rule iterationPath_reaches [OF L(1) flow path]) simp_all
    then have "i \<in> OUT x" by (simp add: nth_append)
    then show False by (rule reached [OF x(1)])
  qed
qed

lemma segment_guarded:
  assumes "guarded_ok G sss code ss" "segmentOf L h OUT instructions ss" "branchesAgree G L code ss"
    and "iterationBlocks G p" "iterationPath L h (numbersOf (concat (map code p)))"
    and "set p \<inter> (leavingBlocks G \<union> set (loopExitBBs G)) = {}"
    and "i \<in> set (nonPHIs L instructions)" "last (code (parentOf G i)) \<noteq> OrigInst i"
    and "runBlocks False st (addSynchronizations G sss preambleSCC code) p = xs @ Executed i # ys"
  shows "Waited (ssID ss) \<in> set xs \<and> Signaled (ssID ss) \<notin> set xs"
proof -
  obtain A B where T: "concat (map (addSynchronizations G sss preambleSCC code) p) = A @ OrigInst i # B"
    "xs = runSync False st A" using executed_from assms(9) unfolding runBlocks_def by blast
  have ok: "sync_ok G sss code" "ss \<in> set sss" using assms(1) by (simp_all add: guarded_ok_def)
  have "Waited (ssID ss) \<in> set xs"
    unfolding T(2) by (rule waited_event [OF ok assms(4) T(1) guarded_wait [OF assms(1,2,4,5,7) T(1)]])
  moreover have "Signaled (ssID ss) \<notin> set xs"
    unfolding T(2) using guarded_signal [OF assms(1-5,7,6,8) T(1)] signaled_from by blast
  ultimately show ?thesis by blast
qed

text \<open>
  C2: on every path from the header through the loop, a whole iteration or the beginning of one that
  leaves, when an instruction of a segment is executed (PHI nodes and the branches that end blocks apart)
  the core has waited for the segment, once on the path, and has not signaled it yet; from the computation
  of the frontiers to the code with the calls in place. Left out are a segment with an exit that is a branch
  to the header, which is signaled too early (\<open>helix_latch_signals_early\<close>), or to a block that is nothing
  but another branch, and one with an exit in an inner loop, which is signaled every time around.
\<close>

theorem helix_segment_guarded:
  assumes "guarded_ok G sss code ss" and "segmentOf L h OUT instructions ss" and "branchesAgree G L code ss"
    and "iterationBlocks G p" and "iterationPath L h (numbersOf (concat (map code p)))"
    and "set p \<inter> (leavingBlocks G \<union> set (loopExitBBs G)) = {}"
    and "i \<in> set (nonPHIs L instructions)" and "last (code (parentOf G i)) \<noteq> OrigInst i"
    and "runBlocks False st (addSynchronizations G sss preambleSCC code) p = xs @ Executed i # ys"
  shows "count_list (xs @ Executed i # ys) (Waited (ssID ss)) \<le> 1 \<and> Waited (ssID ss) \<in> set xs \<and>
    Signaled (ssID ss) \<notin> set xs"
proof -
  have ok: "sync_ok G sss code" "ss \<in> set sss" using assms(1) by (simp_all add: guarded_ok_def)
  show ?thesis
    using segment_guarded [OF assms] helix_waits_once [OF ok assms(4) refl, of st preambleSCC] unfolding assms(9) by blast
qed

text \<open>The store of \<open>updateLoop\<close>, in an iteration that executes it.\<close>

theorem helix_segment_guarded_witness:
  "Waited 0 \<in> set (takeWhile (\<lambda>e. e \<noteq> Executed 2) (runBlocks False (\<lambda>s. True) (update_result [2] None) [0, 1, 2])) \<and>
   Signaled 0 \<notin> set (takeWhile (\<lambda>e. e \<noteq> Executed 2) (runBlocks False (\<lambda>s. True) (update_result [2] None) [0, 1, 2]))"
proof -
  let ?ev = "runBlocks False (\<lambda>s. True) (update_result [2] None) [0, 1, 2]"
  have "Executed 2 \<in> set ?ev" by code_simp
  from split_execution [OF this]
  have ev: "?ev = takeWhile (\<lambda>e. e \<noteq> Executed 2) ?ev @ Executed 2 # tl (dropWhile (\<lambda>e. e \<noteq> Executed 2) ?ev)" .
  have ok: "guarded_ok update_sync [update_segment [2]] update_code (update_segment [2])"
    using update_sync_ok [of "[2]"]
    by (auto simp: guarded_ok_def exitKept_def plainExit_def update_segment_def update_sync_def update_code_def split: if_splits)
  have edges: "branchesAgree update_sync updateLoop update_code (update_segment [2])"
    by (auto simp: branchesAgree_def plainExit_def update_segment_def update_sync_def update_code_def)
  have seg: "segmentOf updateLoop 0 updateOUT [0, 2] (update_segment [2])"
    unfolding segmentOf_def using updateLoop_cfg updateOUT_least updateLoop_segment(1)
    by (intro conjI exI [of _ "[]"] exI [of _ 12]) (auto simp: update_segment_def updateLoop_def updateOUT_def)
  have path: "iterationPath updateLoop 0 (numbersOf (concat (map update_code [0, 1, 2])))"
    by (simp add: update_code_def iterationPath_def updateLoop_def loopInstructions_def stepBack_def)
  have mem: "2 \<in> set (nonPHIs updateLoop [0, 2])" by (simp add: nonPHIs_def updateLoop_def)
  have "set [0, 1, 2] \<inter> (leavingBlocks update_sync \<union> set (loopExitBBs update_sync)) = {}"
    "last (update_code (parentOf update_sync 2)) \<noteq> OrigInst 2"
    by (simp_all add: leavingBlocks_def update_sync_def update_code_def)
  from helix_segment_guarded [OF ok seg edges update_paths(1) path this(1) mem this(2) ev] show ?thesis by (simp add: update_segment_def)
qed

end
