(* ===== verification/Helix_Ring_Code.thy ===== *)
theory Helix_Ring_Code
  imports Helix_Ring Helix_Sync_Segments
begin

text \<open>
  The code \<open>addSynchronizations\<close> leaves in the task, run by all the cores of a HELIX loop: the order of
  the iterations in a segment, and why the cores never wait for ever.
\<close>

section \<open>The header with the check of the flag\<close>

text \<open>
  Up to the check there are only PHI nodes, resets and the wait for the prologue.
\<close>

definition checked :: "nat \<Rightarrow> nat list \<Rightarrow> sync_inst list \<Rightarrow> bool" where
  "checked p ids xs \<longleftrightarrow>
     (\<exists>us vs. xs = us @ CheckLoopIsOver ids # vs \<and> noCheck us \<and> noCheck vs \<and>
        (\<forall>I \<in> set us. isPhiInst I \<or> (\<exists>s. I = ResetState s) \<or> I = LoadState p \<or> I = WaitIfUnset p) \<and>
        count_list us (WaitIfUnset p) = 1 \<and> precedes (ResetState p) (WaitIfUnset p) us)"

lemma insertBefore_front: "f \<in> set us \<Longrightarrow> insertBefore f new (us @ ys) = insertBefore f new us @ ys"
  by (simp add: insertBefore_def)

lemma insertBefore_back: "f \<notin> set us \<Longrightarrow> insertBefore f new (us @ ys) = us @ insertBefore f new ys"
  by (induction us) (auto simp: insertBefore_def)

lemma insertAfter_back: "f \<notin> set us \<Longrightarrow> insertAfter f new (us @ ys) = us @ insertAfter f new ys"
proof -
  assume "f \<notin> set us"
  then have eq: "dropWhile (\<lambda>I. I \<noteq> f) (us @ ys) = dropWhile (\<lambda>I. I \<noteq> f) ys"
    "takeWhile (\<lambda>I. I \<noteq> f) (us @ ys) = us @ takeWhile (\<lambda>I. I \<noteq> f) ys"
    by (induction us) auto
  show ?thesis unfolding insertAfter_def eq by (simp add: list.case_distrib [of "\<lambda>zs. us @ zs"] cong: list.case_cong)
qed

lemma insertBefore_set: "set (insertBefore f new xs) \<subseteq> set xs \<union> set new"
  by (auto simp: insertBefore_def dest: set_takeWhileD set_dropWhileD)

lemma insertAfter_set: "set (insertAfter f new xs) \<subseteq> set xs \<union> set new"
proof (cases "dropWhile (\<lambda>I. I \<noteq> f) xs")
  case (Cons I ys)
  then have "set (I # ys) \<subseteq> set xs" by (metis set_dropWhileD subsetI)
  then show ?thesis using Cons by (auto simp: insertAfter_def dest: set_takeWhileD)
next
  case Nil
  then have "insertAfter f new xs = xs" unfolding insertAfter_def by (simp only: list.simps)
  then show ?thesis by simp
qed

lemma noCheck_insert:
  "noCheck new \<Longrightarrow> noCheck xs \<Longrightarrow> noCheck (insertBefore f new xs)"
  "noCheck new \<Longrightarrow> noCheck xs \<Longrightarrow> noCheck (insertAfter f new xs)"
  unfolding noCheck_def using insertBefore_set insertAfter_set by fast+

text \<open>Behind the check anything may be put in before or after an instruction of the program.\<close>

lemma checked_insert:
  assumes "checked p ids xs" "isOrigInst f" "noCheck new"
  shows "checked p ids (insertBefore f new xs)" "checked p ids (insertAfter f new xs)"
proof -
  obtain us vs where xs: "xs = (us @ [CheckLoopIsOver ids]) @ vs" "noCheck us" "noCheck vs"
    "\<forall>I \<in> set us. isPhiInst I \<or> (\<exists>s. I = ResetState s) \<or> I = LoadState p \<or> I = WaitIfUnset p"
    "count_list us (WaitIfUnset p) = 1" "precedes (ResetState p) (WaitIfUnset p) us"
    using assms(1) by (auto simp: checked_def)
  have "f \<notin> set (us @ [CheckLoopIsOver ids])" using assms(2) xs(4) by (cases f) fastforce+
  from insertBefore_back [OF this] insertAfter_back [OF this]
  have eq: "insertBefore f new xs = us @ CheckLoopIsOver ids # insertBefore f new vs"
    "insertAfter f new xs = us @ CheckLoopIsOver ids # insertAfter f new vs" by (simp_all add: xs(1))
  show "checked p ids (insertBefore f new xs)" "checked p ids (insertAfter f new xs)"
    unfolding checked_def using eq xs(2-6) noCheck_insert [OF assms(3) xs(3)] by blast+
qed

lemma checked_reset:
  assumes "checked p ids (code (loopHeaderBB G))" "s \<noteq> p"
  shows "checked p ids (resetState G s code (loopHeaderBB G))"
proof -
  let ?h = "loopHeaderBB G"
  obtain us vs where xs: "code ?h = us @ CheckLoopIsOver ids # vs" "noCheck us" "noCheck vs"
    "\<forall>I \<in> set us. isPhiInst I \<or> (\<exists>s. I = ResetState s) \<or> I = LoadState p \<or> I = WaitIfUnset p"
    "count_list us (WaitIfUnset p) = 1" "precedes (ResetState p) (WaitIfUnset p) us"
    using assms(1) by (auto simp: checked_def)
  let ?f = "firstNonPHI (code ?h)"
  have "WaitIfUnset p \<in> set us" using xs(5) by (metis count_absent zero_neq_one)
  then have "\<exists>x \<in> set us. \<not> isPhiInst x" by force
  then have "dropWhile isPhiInst us \<noteq> []" by (simp add: dropWhile_eq_Nil_conv)
  then have "?f = hd (dropWhile isPhiInst us)" "hd (dropWhile isPhiInst us) \<in> set us"
    using hd_in_set [of "dropWhile isPhiInst us", THEN set_dropWhileD]
    by (auto simp: firstNonPHI_def xs(1) dropWhile_append)
  then have f: "?f \<in> set us" by simp
  let ?us = "insertBefore ?f [ResetState s] us"
  have eq: "resetState G s code ?h = ?us @ CheckLoopIsOver ids # vs"
    using insertBefore_front [OF f] by (simp add: resetState_def Let_def xs(1))
  have grows: "grows {ResetState s} us ?us" using insertBefore_grows [OF f] by simp
  have "noCheck ?us" by (rule noCheck_insert(1)) (use xs(2) in \<open>simp_all add: noCheck_def\<close>)
  moreover have "\<forall>I \<in> set ?us. isPhiInst I \<or> (\<exists>s. I = ResetState s) \<or> I = LoadState p \<or> I = WaitIfUnset p"
    using grows_set [OF grows] xs(4) by blast
  moreover have "count_list ?us (WaitIfUnset p) = 1" using grows_count [OF grows] xs(5) by simp
  moreover have "precedes (ResetState p) (WaitIfUnset p) ?us" using grows_precedes [OF grows _ xs(6)] by simp
  ultimately show ?thesis unfolding checked_def using eq xs(3) by blast
qed

lemma checked_wait:
  assumes "checked p ids (code (loopHeaderBB G))"
  shows "checked p ids (injectWait s (b, OrigInst e) code (loopHeaderBB G))"
  using assms checked_insert(1) [OF assms, of "OrigInst e" "[LoadState s, WaitIfUnset s]"]
  by (cases "b = loopHeaderBB G") (auto simp: injectWait_def noCheck_def)

lemma checked_waits:
  assumes "checked p ids (code (loopHeaderBB G))"
  shows "checked p ids (waitAtEntries G ss code (loopHeaderBB G))"
proof -
  have "checked p ids (fold (\<lambda>e. injectWait (ssID ss) (parentOf G e, OrigInst e)) es code (loopHeaderBB G))" for es
    using assms by (induction es arbitrary: code) (auto intro: checked_wait)
  then show ?thesis by (simp add: waitAtEntries_def)
qed

lemma checked_signal:
  assumes "checked p ids (code (loopHeaderBB G))" "snd q \<in> set (code (fst q))"
    and "snd q \<noteq> last (code (fst q)) \<or> jumps G (fst q)" "fst q = loopHeaderBB G \<Longrightarrow> isOrigInst (snd q)"
  shows "checked p ids (signalExit G prologue s q code (loopHeaderBB G))"
proof -
  let ?h = "loopHeaderBB G" and ?c = "injectSignal G s q code"
  note here = injectSignal_here(1) [of q code G s, OF assms(2,3)]
  have signal: "checked p ids (?c ?h)"
  proof (cases "fst q = ?h")
    case True
    then show ?thesis using checked_insert [OF assms(1) assms(4) [OF True], of "[SignalCall s]"]
      unfolding here by (auto simp: noCheck_def)
  next
    case False
    then show ?thesis using assms(1) unfolding here by simp
  qed
  have "checked p ids (injectExitFlagSet q ?c ?h)"
  proof (cases "fst q = ?h")
    case True
    then show ?thesis using checked_insert(1) [OF signal assms(4) [OF True], of "[SetLoopIsOver]"]
      by (simp add: injectExitFlagSet_def noCheck_def)
  next
    case False
    then show ?thesis using signal by (simp add: injectExitFlagSet_def)
  qed
  then show ?thesis using signal by (simp add: signalExit_def Let_def)
qed

lemma checked_signals:
  assumes "checked p ids (code (loopHeaderBB G))" "terminated code"
    and "\<forall>q \<in> set qs. snd q \<in> set (code (fst q)) \<and> (snd q \<noteq> last (code (fst q)) \<or> jumps G (fst q)) \<and>
      (fst q = loopHeaderBB G \<longrightarrow> isOrigInst (snd q))"
  shows "checked p ids (fold (signalExit G prologue s) qs code (loopHeaderBB G))"
  using assms
proof (induction qs arbitrary: code)
  case (Cons q qs)
  let ?c = "signalExit G prologue s q code"
  have q: "snd q \<in> set (code (fst q))" using Cons.prems(3) by simp
  note g = signalExit_grows [OF Cons.prems(2) q, of s prologue G]
  have "checked p ids (?c (loopHeaderBB G))" by (rule checked_signal) (use Cons.prems in auto)
  moreover have "\<forall>q \<in> set qs. snd q \<in> set (?c (fst q)) \<and> (snd q \<noteq> last (?c (fst q)) \<or> jumps G (fst q)) \<and>
      (fst q = loopHeaderBB G \<longrightarrow> isOrigInst (snd q))"
    using Cons.prems(3) point_grows [OF g] codeGrows_last [OF g] by simp
  ultimately show ?case using Cons.IH [OF _ terminated_grows [OF Cons.prems(2) g]] by simp
qed simp

lemma kept_grows:
  assumes "sync_ok G sss code" "codeGrows S code c" "\<forall>b. \<forall>I \<in> S b. \<not> isOrigInst I" "exitKept G code x"
  shows "exitKept G c x"
proof -
  have "firstNonPHI (c b) \<noteq> last (c b)" if "firstNonPHI (code b) \<noteq> last (code b)" for b
    by (rule firstNonPHI_not_last [OF _ assms(2) _ that])
      (use assms(1,3) original_last [OF assms(1), of b] in \<open>auto simp: sync_ok_def\<close>)
  then show ?thesis using assms(4) codeGrows_last [OF assms(2)] unfolding exitKept_def plainExit_def by metis
qed

text \<open>The exits of all segments leave the header alone.\<close>

definition headerKept :: "sync_loop \<Rightarrow> sync_segment list \<Rightarrow> sync_code \<Rightarrow> bool" where
  "headerKept G sss code \<longleftrightarrow>
     loopHeaderBB G \<notin> set (loopExitBBs G) \<and> (\<forall>ss \<in> set sss. \<forall>x \<in> set (ssExits ss). exitKept G code x)"

lemma checked_exits:
  assumes "sync_ok G sss code" "headerKept G sss code" "codeGrows S code w" "\<forall>b. \<forall>I \<in> S b. \<not> isOrigInst I"
    and "ss \<in> set sss" "checked p ids (w (loopHeaderBB G))"
  shows "checked p ids (fold (signalExit G prologue (ssID ss)) (exitPoints G prologue ss w) w (loopHeaderBB G))"
proof (rule checked_signals [of p ids w G, OF assms(6)])
  have ok: "terminated code" "placed G sss code" "\<forall>b \<in> set (loopExitBBs G). jumps G b"
    using assms(1) by (simp_all add: sync_ok_def)
  show tw: "terminated w" by (rule terminated_grows [OF ok(1) assms(3)])
  have pw: "placed G sss w" by (rule placed_grows [OF ok(2) assms(3)])
  have "\<forall>x \<in> set (ssExits ss). exitKept G w x"
    using assms(2,5) kept_grows [OF assms(1,3,4)] unfolding headerKept_def by blast
  note kept = exitPoints_kept [OF tw pw assms(5) this ok(3), where prologue = prologue]
  have "loopHeaderBB G \<notin> set (loopExitBBs G)" using assms(2) by (simp add: headerKept_def)
  then show "\<forall>q \<in> set (exitPoints G prologue ss w). snd q \<in> set (w (fst q)) \<and>
      (snd q \<noteq> last (w (fst q)) \<or> jumps G (fst q)) \<and> (fst q = loopHeaderBB G \<longrightarrow> isOrigInst (snd q))"
    using kept by fastforce
qed

lemma checked_segment:
  assumes "sync_ok G sss code" "headerKept G sss code" "codeGrows S code c" "\<forall>b. \<forall>I \<in> S b. \<not> isOrigInst I"
    and "ss \<in> set sss" "ssID ss \<noteq> p" "preamble = Some p" "checked p ids (c (loopHeaderBB G))"
  shows "checked p ids (synchronizeSegment G sss preamble ss c (loopHeaderBB G))"
proof -
  have t: "terminated c" "placed G sss c"
    using assms(1) terminated_grows [OF _ assms(3)] placed_grows [OF _ assms(3)] by (simp_all add: sync_ok_def)
  let ?w = "withWaits G sss (preamble = Some (ssID ss)) ss c"
  have "checked p ids (?w (loopHeaderBB G))"
    using checked_waits [of p ids "resetState G (ssID ss) c" G ss] checked_reset [of p ids c G "ssID ss", OF assms(8,6)] assms(6,7)
    by (simp add: withWaits_def Let_def)
  moreover have "codeGrows (\<lambda>b. S b \<union> segmentInserts G sss preamble (ssID ss) b) code ?w"
    by (rule codeGrows_trans [OF codeGrows_mono [OF assms(3)] codeGrows_mono [OF withWaits_grows [OF t assms(5)]]]) auto
  moreover have "\<forall>b. \<forall>I \<in> S b \<union> segmentInserts G sss preamble (ssID ss) b. \<not> isOrigInst I"
    using assms(4) by (auto simp: segmentInserts_def flagInserts_def split: if_splits)
  ultimately show ?thesis
    using checked_exits [OF assms(1,2) _ _ assms(5)] by (simp add: synchronizeSegment_eq Let_def)
qed

lemma header_checked:
  assumes "sync_ok G sss code" "headerKept G sss code" "ss \<in> set sss" "preambleSegment preambleSCC sss = Some ss"
  shows "checked (ssID ss) (map ssID sss) (addSynchronizations G sss preambleSCC code (loopHeaderBB G))"
    and "b \<noteq> loopHeaderBB G \<Longrightarrow> noCheck (addSynchronizations G sss preambleSCC code b)"
proof -
  let ?h = "loopHeaderBB G" and ?p = "ssID ss" and ?ids = "map ssID sss"
  define preamble where "preamble = map_option ssID (preambleSegment preambleSCC sss)"
  have pre: "preamble = Some ?p" by (simp add: preamble_def assms(4))
  obtain before after code1 where sss: "sss = before @ ss # after" and code1: "terminated code1" "placed G sss code1"
    "codeGrows (insertsBefore G preamble ?p) code code1"
    "addSynchronizations G sss preambleSCC code =
       fold (synchronizeSegment G sss preamble) after (synchronizeSegment G sss preamble ss code1)"
    "codeGrows (\<lambda>b. foreignInserts preamble ?p) (synchronizeSegment G sss preamble ss code1) (addSynchronizations G sss preambleSCC code)"
    using stages [OF assms(1,3) preamble_def] by blast
  note none = stage_header [OF assms(1) code1(3)]
  have no1: "noCheck (code1 b)" for b using none(3) [OF pre] by (simp add: noCheck_def)
  obtain us vs where h: "code1 ?h = us @ vs" "\<forall>I \<in> set us. isPhiInst I"
    "withWaits G sss True ss code1 ?h = us @ [ResetState ?p, LoadState ?p, WaitIfUnset ?p, CheckLoopIsOver ?ids] @ vs"
    using prologue_header [OF code1(1) none(1), of sss] by blast
  let ?w = "withWaits G sss True ss code1"
  have front: "WaitIfUnset ?p \<notin> set us" using h(2) by auto
  have "checked ?p ?ids (?w ?h)" unfolding checked_def
  proof (intro exI conjI)
    show "?w ?h = (us @ [ResetState ?p, LoadState ?p, WaitIfUnset ?p]) @ CheckLoopIsOver ?ids # vs" by (simp add: h(3))
    show "noCheck (us @ [ResetState ?p, LoadState ?p, WaitIfUnset ?p])" "noCheck vs"
      using no1 [of ?h] by (auto simp: h(1) noCheck_def)
    show "count_list (us @ [ResetState ?p, LoadState ?p, WaitIfUnset ?p]) (WaitIfUnset ?p) = 1" using front by simp
    show "precedes (ResetState ?p) (WaitIfUnset ?p) (us @ [ResetState ?p, LoadState ?p, WaitIfUnset ?p])"
      using front by (simp add: precedes_def takeWhile_neq_absent)
  qed (use h(2) in auto)
  let ?S0 = "insertsBefore G preamble ?p"
  let ?S1 = "\<lambda>b. ?S0 b \<union> segmentInserts G sss preamble ?p b"
  have noOrig: "\<forall>b. \<forall>I \<in> ?S1 b. \<not> isOrigInst I"
    by (auto simp: insertsBefore_def foreignInserts_def segmentInserts_def flagInserts_def split: if_splits)
  have gw: "codeGrows ?S1 code ?w"
    using withWaits_grows [OF code1(1,2) assms(3), of preamble] pre
    by (intro codeGrows_trans [OF codeGrows_mono [OF code1(3)] codeGrows_mono [of _ code1]]) auto
  have seg: "checked ?p ?ids (synchronizeSegment G sss preamble ss code1 ?h)"
    using checked_exits [OF assms(1,2) gw noOrig assms(3) \<open>checked ?p ?ids (?w ?h)\<close>] pre
    by (simp add: synchronizeSegment_eq Let_def)
  have gs: "codeGrows ?S1 code (synchronizeSegment G sss preamble ss code1)"
    using synchronizeSegment_grows [OF code1(1,2) assms(3), of preamble]
    by (intro codeGrows_trans [OF codeGrows_mono [OF code1(3)] codeGrows_mono [of _ code1]]) auto
  have rest: "checked ?p ?ids (fold (synchronizeSegment G sss preamble) ts c ?h)"
    if "codeGrows (\<lambda>b. {I. \<not> isOrigInst I}) code c" "checked ?p ?ids (c ?h)" "set ts \<subseteq> set sss" "?p \<notin> ssID ` set ts" for ts c
    using that
  proof (induction ts arbitrary: c)
    case (Cons t ts)
    have tc: "terminated c" "placed G sss c"
      using assms(1) terminated_grows [OF _ Cons.prems(1)] placed_grows [OF _ Cons.prems(1)] by (simp_all add: sync_ok_def)
    have "checked ?p ?ids (synchronizeSegment G sss preamble t c ?h)"
      by (rule checked_segment [OF assms(1,2) Cons.prems(1)]) (use Cons.prems pre in auto)
    moreover have "codeGrows (\<lambda>b. {I. \<not> isOrigInst I}) code (synchronizeSegment G sss preamble t c)"
      by (rule codeGrows_trans [OF Cons.prems(1) codeGrows_mono [OF synchronizeSegment_grows [OF tc]]])
        (use Cons.prems(3) in \<open>auto simp: segmentInserts_def flagInserts_def split: if_splits\<close>)
    ultimately show ?case using Cons by simp
  qed simp
  have "distinct (map ssID sss)" using assms(1) by (simp add: sync_ok_def)
  then have "?p \<notin> ssID ` set after" by (simp add: sss)
  moreover have "codeGrows (\<lambda>b. {I. \<not> isOrigInst I}) code (synchronizeSegment G sss preamble ss code1)"
    by (rule codeGrows_mono [OF gs]) (use noOrig in auto)
  moreover have "set after \<subseteq> set sss" by (auto simp: sss)
  ultimately show "checked ?p ?ids (addSynchronizations G sss preambleSCC code ?h)"
    unfolding code1(4) using rest [of "synchronizeSegment G sss preamble ss code1" after] seg sss by simp
  show "noCheck (addSynchronizations G sss preambleSCC code b)" if "b \<noteq> ?h"
  proof -
    have "?w b = code1 b"
      using that by (simp add: withWaits_def Let_def injectExitFlagCheck_def injectWait_def resetState_def)
    then have w: "noCheck (?w b)" using no1 by simp
    have "codeGrows (\<lambda>b. {SignalCall ?p, SetLoopIsOver} \<union> foreignInserts preamble ?p) ?w (addSynchronizations G sss preambleSCC code)"
    proof (rule codeGrows_trans [OF codeGrows_mono codeGrows_mono [OF code1(5)]])
      have tw: "terminated ?w" "placed G sss ?w"
        using terminated_grows [OF _ gw] placed_grows [OF _ gw] assms(1) by (simp_all add: sync_ok_def)
      have "\<forall>q \<in> set (exitPoints G True ss ?w). snd q \<in> set (?w (fst q))" using exitPoints_mem [OF tw assms(3)] by blast
      from signalExits_grows [OF tw(1) this, of ?p True G]
      show "codeGrows (\<lambda>b. {SignalCall ?p} \<union> (if True then {SetLoopIsOver} else {})) ?w (synchronizeSegment G sss preamble ss code1)"
        using pre by (simp add: synchronizeSegment_eq Let_def)
    qed auto
    from codeGrows_set [OF this, of b] w pre show ?thesis by (auto simp: noCheck_def foreignInserts_def)
  qed
qed

section \<open>Only segments of the loop are waited for and signaled\<close>

definition onlySegments :: "nat set \<Rightarrow> sync_code \<Rightarrow> bool" where
  "onlySegments ids code \<longleftrightarrow>
     (\<forall>b s. WaitIfUnset s \<in> set (code b) \<or> SignalCall s \<in> set (code b) \<longrightarrow> s \<in> ids)"

lemma onlySegments_upd:
  "onlySegments ids code \<Longrightarrow> set xs \<subseteq> set (code b) \<union> new \<Longrightarrow>
   (\<forall>s. WaitIfUnset s \<in> new \<or> SignalCall s \<in> new \<longrightarrow> s \<in> ids) \<Longrightarrow> onlySegments ids (code(b := xs))"
  unfolding onlySegments_def by auto

lemma onlySegments_before:
  "onlySegments ids code \<Longrightarrow> (\<forall>s. WaitIfUnset s \<in> set new \<or> SignalCall s \<in> set new \<longrightarrow> s \<in> ids) \<Longrightarrow>
   onlySegments ids (code(b := insertBefore f new (code b)))"
  by (rule onlySegments_upd [OF _ insertBefore_set])

lemma fold_keeps: "P c \<Longrightarrow> (\<And>x c. x \<in> set xs \<Longrightarrow> P c \<Longrightarrow> P (f x c)) \<Longrightarrow> P (fold f xs c)"
  by (induction xs arbitrary: c) auto

lemma onlySegments_wait: "s \<in> ids \<Longrightarrow> onlySegments ids code \<Longrightarrow> onlySegments ids (injectWait s p code)"
  unfolding injectWait_def by (rule onlySegments_before) auto

lemma onlySegments_signal:
  assumes "s \<in> ids" "onlySegments ids code"
  shows "onlySegments ids (injectSignal G s p code)"
proof -
  have start: "onlySegments ids (signalAtStart s b c)" if "onlySegments ids c" for b c
    unfolding signalAtStart_def by (rule onlySegments_before [OF that]) (use assms(1) in auto)
  have "onlySegments ids (fold (signalAtStart s) bs code)" for bs
    by (rule fold_keeps [where P = "onlySegments ids", OF assms(2)]) (rule start)
  moreover have "onlySegments ids (code(fst p := insertAfter f [SignalCall s] (code (fst p))))" for f
    by (rule onlySegments_upd [OF assms(2) insertAfter_set]) (use assms(1) in auto)
  moreover have "onlySegments ids (code(fst p := insertBefore f [SignalCall s] (code (fst p))))" for f
    by (rule onlySegments_before [OF assms(2)]) (use assms(1) in auto)
  ultimately show ?thesis by (simp add: injectSignal_def Let_def)
qed

lemma onlySegments_exit:
  assumes "s \<in> ids" "onlySegments ids code"
  shows "onlySegments ids (signalExit G prologue s p code)"
proof -
  let ?c = "injectSignal G s p code"
  have c: "onlySegments ids ?c" by (rule onlySegments_signal [OF assms])
  moreover have "onlySegments ids (injectExitFlagSet p ?c)"
    unfolding injectExitFlagSet_def by (rule onlySegments_before [OF c]) simp
  ultimately show ?thesis by (simp only: signalExit_def Let_def split: if_split) simp
qed

lemma onlySegments_segment:
  assumes "ssID ss \<in> ids" "onlySegments ids code"
  shows "onlySegments ids (synchronizeSegment G sss preamble ss code)"
proof -
  let ?c = "resetState G (ssID ss) code"
  have reset: "onlySegments ids ?c"
    unfolding resetState_def Let_def by (rule onlySegments_before [OF assms(2)]) simp
  have entries: "onlySegments ids (waitAtEntries G ss ?c)"
    unfolding waitAtEntries_def by (rule fold_keeps [where P = "onlySegments ids", OF reset]) (rule onlySegments_wait [OF assms(1)])
  have check: "onlySegments ids (injectExitFlagCheck l f (injectWait (ssID ss) f ?c))" for l f
    unfolding injectExitFlagCheck_def by (rule onlySegments_before [OF onlySegments_wait [OF assms(1) reset]]) simp
  have "onlySegments ids (withWaits G sss prologue ss code)" for prologue
    using entries check by (simp only: withWaits_def Let_def split: if_split) simp
  then have "onlySegments ids (fold (signalExit G prologue (ssID ss)) ps (withWaits G sss prologue ss code))" for prologue ps
    by (intro fold_keeps [where P = "onlySegments ids"] onlySegments_exit [OF assms(1)])
  then show ?thesis by (simp only: synchronizeSegment_eq Let_def)
qed

lemma onlySegments_final:
  assumes "onlySegments (ssID ` set sss) code"
  shows "onlySegments (ssID ` set sss) (addSynchronizations G sss preambleSCC code)"
proof (cases "sss = []")
  case True
  then show ?thesis using assms by (simp add: addSynchronizations_def)
next
  case False
  let ?P = "onlySegments (ssID ` set sss)"
  note keeps = fold_keeps [where P = ?P]
  have last: "?P (synchronizeLastBlock G sss b c)" if "?P c" for b c
    unfolding synchronizeLastBlock_def Let_def
    by (rule keeps [OF that]) (rule onlySegments_signal, simp, rule onlySegments_wait, simp_all)
  have wait: "?P (waitInLastIteration sss b c)" if "?P c" for b c
    unfolding waitInLastIteration_def by (rule keeps [OF that]) (rule onlySegments_wait, simp_all)
  have "?P (fold (synchronizeLastBlock G sss) (lastBBs G) code)" by (rule keeps [OF assms]) (rule last)
  then have "?P (synchronizeLeaving G sss code)" by (simp add: synchronizeLeaving_def Let_def wait split: option.split)
  then show ?thesis
    unfolding addSynchronizations_eq [OF False] by (rule keeps) (rule onlySegments_segment, simp_all)
qed

section \<open>The iterations of the task\<close>

text \<open>
  The path through iteration \<open>i\<close> starts at the header, and from iteration \<open>N\<close> on it ends in one of the last
  blocks of the task. The segments are numbered from 0.
\<close>

definition taskPaths ::
    "sync_loop \<Rightarrow> sync_segment list \<Rightarrow> sync_code \<Rightarrow> nat \<Rightarrow> nat \<Rightarrow> (nat \<Rightarrow> nat list) \<Rightarrow> bool" where
  "taskPaths G sss code n N path \<longleftrightarrow>
     sync_ok G sss code \<and> headerKept G sss code \<and> map ssID sss = [0..<length sss] \<and>
     (\<forall>i < N + n. iterationBlocks G (path i) \<and> (N \<le> i \<longrightarrow> last (path i) \<in> set (lastBBs G)))"

definition taskCode ::
    "sync_loop \<Rightarrow> sync_segment list \<Rightarrow> nat option \<Rightarrow> sync_code \<Rightarrow> (nat \<Rightarrow> nat list) \<Rightarrow> nat \<Rightarrow> sync_inst list" where
  "taskCode G sss preambleSCC code path i = concat (map (addSynchronizations G sss preambleSCC code) (path i))"

text \<open>
  What the entries and exits of the segments have to achieve on every path, and may not, as
  \<open>Segment_Coverage\<close> and \<open>Helix_Sync_Correct\<close> show: an iteration that goes on waits for every segment and
  then signals it once; a core that leaves does not signal before it waits, and sets the flag before it signals
  the sequential prologue.
\<close>

definition balanced :: "nat \<Rightarrow> nat \<Rightarrow> nat \<Rightarrow> nat option \<Rightarrow> (nat \<Rightarrow> sync_inst list) \<Rightarrow> bool" where
  "balanced n N S prologue body \<longleftrightarrow>
     (\<forall>i < N. \<forall>st. LoopIsOver \<notin> set (runSync False st (body i)) \<and>
        (\<forall>s < S. syncsOf s (runSync False st (body i)) = [Waited s, Signaled s])) \<and>
     (\<forall>i < N + n. i = N \<or> N < i \<and> prologue = None \<longrightarrow>
        (\<forall>st. \<forall>s < S. precedes (Waited s) (Signaled s) (runSync False st (body i)))) \<and>
     (\<forall>p. prologue = Some p \<longrightarrow> (\<forall>st. precedes LoopIsOver (Signaled p) (runSync False st (body N))))"

abbreviation prologueOf :: "sync_segment list \<Rightarrow> nat option \<Rightarrow> nat option" where
  "prologueOf sss preambleSCC \<equiv> map_option ssID (preambleSegment preambleSCC sss)"

lemma leaving_shape:
  assumes "count_list ev (Waited s) = 1" "precedes (Waited s) (Signaled s) ev" "Signaled s \<in> set ev"
  shows "\<exists>k. syncsOf s ev = Waited s # replicate (Suc k) (Signaled s)"
proof -
  have "Waited s \<in> set ev" using assms(1) by (metis count_absent zero_neq_one)
  then obtain us vs where ev: "ev = us @ Waited s # vs" "Waited s \<notin> set us" by (metis split_list_first)
  then have vs: "Waited s \<notin> set vs" using assms(1) by (auto simp: count_list_0_iff)
  have us: "Signaled s \<notin> set us"
  proof
    assume "Signaled s \<in> set us"
    then have "Waited s \<in> set (takeWhile (\<lambda>e. e \<noteq> Signaled s) us)"
      using assms(2,3) by (simp add: precedes_def ev(1) takeWhile_neq_present)
    then show False using ev(2) by (auto dest: set_takeWhileD)
  qed
  then have "syncsOf s us = []" using ev(2) by (auto simp: syncsOf_def filter_empty_conv)
  moreover have "\<forall>e \<in> set (syncsOf s vs). e = Signaled s" using vs by (auto simp: syncsOf_def)
  then have "syncsOf s vs = replicate (length (syncsOf s vs)) (Signaled s)" by (metis replicate_eqI)
  moreover have "Signaled s \<in> set (syncsOf s vs)" using assms(3) us by (simp add: ev(1))
  then obtain k where "length (syncsOf s vs) = Suc k" by (cases "syncsOf s vs") auto
  ultimately have "syncsOf s ev = Waited s # replicate (Suc k) (Signaled s)" by (simp add: ev(1) syncsOf_append syncsOf_def)
  then show ?thesis by blast
qed

lemma quiet_run:
  assumes "\<forall>I \<in> set Is. isPhiInst I \<or> (\<exists>s. I = ResetState s) \<or> (\<exists>s. I = LoadState s)"
  shows "runSync False st Is = []"
    and "fold (\<lambda>I st. stateAfter st I) Is st p = (st p \<and> ResetState p \<notin> set Is)"
proof -
  show "runSync False st Is = []" using assms
  proof (induction Is arbitrary: st)
    case (Cons I Is)
    then show ?case by (cases I) auto
  qed simp
  show "fold (\<lambda>I st. stateAfter st I) Is st p = (st p \<and> ResetState p \<notin> set Is)" using assms
  proof (induction Is arbitrary: st)
    case (Cons I Is)
    have "fold (\<lambda>I st. stateAfter st I) Is (stateAfter st I) p = (stateAfter st I p \<and> ResetState p \<notin> set Is)"
      by (rule Cons.IH) (use Cons.prems in simp)
    then show ?case using Cons.prems by (cases I) auto
  qed simp
qed

lemma prologue_run:
  assumes "\<forall>I \<in> set us. isPhiInst I \<or> (\<exists>s. I = ResetState s) \<or> I = LoadState p \<or> I = WaitIfUnset p"
    and "count_list us (WaitIfUnset p) = 1" "precedes (ResetState p) (WaitIfUnset p) us"
  shows "runSync False st us = [Waited p]"
proof -
  have "WaitIfUnset p \<in> set us" using assms(2) by (metis count_absent zero_neq_one)
  then obtain a b where us: "us = a @ WaitIfUnset p # b" "WaitIfUnset p \<notin> set a" by (metis split_list_first)
  then have b: "WaitIfUnset p \<notin> set b" using assms(2) by (auto simp: count_list_0_iff)
  have quiet: "\<forall>I \<in> set a. isPhiInst I \<or> (\<exists>s. I = ResetState s) \<or> (\<exists>s. I = LoadState s)"
    "\<forall>I \<in> set b. isPhiInst I \<or> (\<exists>s. I = ResetState s) \<or> (\<exists>s. I = LoadState s)"
    using assms(1) us b by auto
  have "ResetState p \<in> set a" using assms(3) unfolding us(1) by (rule precedes_first) simp
  then show ?thesis using quiet_run [OF quiet(1)] quiet_run(1) [OF quiet(2)] by (simp add: us(1) runSync_append)
qed

lemma task_iterations:
  assumes "taskPaths G sss code n N path" "balanced n N (length sss) (prologueOf sss preambleSCC) (taskCode G sss preambleSCC code path)"
    and "0 < n"
  shows "iterations_ok n N (length sss) (prologueOf sss preambleSCC) (taskCode G sss preambleSCC code path)"
proof -
  let ?body = "taskCode G sss preambleSCC code path" and ?C = "addSynchronizations G sss preambleSCC code"
  let ?S = "length sss"
  have ok: "sync_ok G sss code" "headerKept G sss code" and ids: "map ssID sss = [0..<?S]"
    and paths: "\<And>i. i < N + n \<Longrightarrow> iterationBlocks G (path i)"
      "\<And>i. i < N + n \<Longrightarrow> N \<le> i \<Longrightarrow> last (path i) \<in> set (lastBBs G)"
    using assms(1) by (simp_all add: taskPaths_def)
  have "ssID ` set sss = {..<?S}" using ids by (metis atLeast_upt set_map)
  moreover have "onlySegments (ssID ` set sss) code"
    using ok(1) unfolding onlySegments_def sync_ok_def by (metis isOrigInst.simps(5,6) isPhiInst.simps(5,6))
  ultimately have only: "onlySegments {..<?S} ?C" using onlySegments_final by metis
  have below: "segmentsBelow ?S (?body i)" for i
    using only by (auto simp: segmentsBelow_def taskCode_def onlySegments_def)
  have leaves: "\<exists>k. syncsOf s (runSync False st (?body i)) = Waited s # replicate (Suc k) (Signaled s)"
    if "i < N + n" "i = N \<or> N < i \<and> prologueOf sss preambleSCC = None" "s < ?S" for i s st
  proof -
    have id: "s = ssID (sss ! s)" "sss ! s \<in> set sss" using ids that(3) by (metis nth_map nth_upt plus_nat.add_0 length_map diff_zero, simp)
    have "last (path i) \<in> set (lastBBs G)" using paths(2) that(1,2) by auto
    note leave = leaving_waits [OF ok(1) id(2) paths(1) [OF that(1)] this refl, of st preambleSCC, folded id(1)]
    show ?thesis
    proof (rule leaving_shape)
      show "count_list (runSync False st (?body i)) (Waited s) = 1" "Signaled s \<in> set (runSync False st (?body i))"
        using leave by (auto simp: runBlocks_def taskCode_def)
      show "precedes (Waited s) (Signaled s) (runSync False st (?body i))" using assms(2) that unfolding balanced_def by blast
    qed
  qed
  show ?thesis
  proof (cases "preambleSegment preambleSCC sss")
    case None
    have "noCheck (?C b)" for b
    proof -
      have "CheckLoopIsOver l \<notin> set (code b)" for l
        using ok(1) unfolding sync_ok_def by (metis isOrigInst.simps(8) isPhiInst.simps(8))
      then show ?thesis
        using codeGrows_set [OF addSynchronizations_grows [OF ok(1), of preambleSCC], of b] None
        by (auto simp: noCheck_def leavingInserts_def segmentInserts_def flagInserts_def split: if_splits)
    qed
    then have "noCheck (?body i)" for i by (auto simp: noCheck_def taskCode_def)
    then show ?thesis using assms(2) below leaves None unfolding iterations_ok_def balanced_def by simp
  next
    case (Some ss)
    have "ss \<in> set sss" using Some unfolding preambleSegment_def by (metis find_Some_iff nth_mem)
    note header = header_checked [OF ok this Some]
    have p: "ssID ss < ?S" using \<open>ss \<in> set sss\<close> \<open>ssID ` set sss = {..<?S}\<close> by blast
    have "\<exists>A B. ?body i = A @ CheckLoopIsOver [0..<?S] # B \<and> noCheck A \<and> noCheck B \<and> (\<forall>st. runSync False st A = [Waited (ssID ss)])"
      if i: "i < N + n" for i
    proof -
      obtain bs where path: "path i = loopHeaderBB G # bs" "loopHeaderBB G \<notin> set bs"
        using paths(1) [OF i] by (cases "path i") (auto simp: iterationBlocks_def)
      obtain us vs where us: "?C (loopHeaderBB G) = us @ CheckLoopIsOver [0..<?S] # vs" "noCheck us" "noCheck vs"
        "\<forall>I \<in> set us. isPhiInst I \<or> (\<exists>s. I = ResetState s) \<or> I = LoadState (ssID ss) \<or> I = WaitIfUnset (ssID ss)"
        "count_list us (WaitIfUnset (ssID ss)) = 1" "precedes (ResetState (ssID ss)) (WaitIfUnset (ssID ss)) us"
        using header(1) unfolding checked_def ids by blast
      have "CheckLoopIsOver l \<notin> set (?C b)" if "b \<in> set bs" for l b
        using header(2) [of b] path(2) that by (metis noCheck_def)
      then have "noCheck (vs @ concat (map ?C bs))" using us(3) by (simp add: noCheck_def)
      moreover have "?body i = us @ CheckLoopIsOver [0..<?S] # (vs @ concat (map ?C bs))"
        by (simp add: taskCode_def path(1) us(1))
      ultimately show ?thesis using us(2) prologue_run [OF us(4-6)] by blast
    qed
    then show ?thesis using assms(2) below leaves Some p unfolding iterations_ok_def balanced_def by auto
  qed
qed

section \<open>The dispatcher provides the layout\<close>

lemma helix_expected_fields:
  "c_past (helix_expected loop e lca flag segments h i) =
     ssArrayAt (hs_ssArrays h) segments (i mod unat (hs_numOfSSArrays h))"
  "c_future (helix_expected loop e lca flag segments h i) =
     ssArrayAt (hs_ssArrays h) segments ((i + 1) mod unat (hs_numOfSSArrays h))"
  by (simp_all add: helix_expected_def)

lemma helix_ring_layout:
  assumes b: "helix_begin memalign loop e m segments True rt = Inr (h, rt')"
    and fit: "locks_fit (unat (hs_numCores h)) (unat segments)"
  shows "ring_layout (unat (hs_numCores h)) (unat segments) (helix_expected loop e lca flag segments h)"
proof -
  have n: "0 < unat (hs_numCores h)" and arr: "hs_numOfSSArrays h = hs_numCores h"
    using helix_begin_facts(1,2) [OF b] by (simp_all add: unat_gt_0)
  show ?thesis
    unfolding ring_layout_def
    using n ssLock_inj [OF fit, where base = "hs_ssArrays h"]
    by (simp add: helix_expected_fields arr)
qed

lemma helix_fresh_locks:
  assumes b: "helix_begin memalign loop e m segments True rt = Inr (h, rt')"
    and fit: "locks_fit (unat (hs_numCores h)) (unat segments)" and pos: "0 < sint segments"
  shows "fresh_locks (unat (hs_numCores h)) (unat segments)
    (helix_expected loop e lca flag segments h) (hs_locks h)"
proof -
  have arr: "hs_numOfSSArrays h = hs_numCores h" using helix_begin_facts(2) [OF b] by simp
  have l: "hs_locks h = helix_init_locks (hs_ssArrays h) (unat segments) (unat (hs_numCores h))"
    using helix_begin_facts(4) [OF b pos] arr by simp
  show ?thesis
    unfolding fresh_locks_def
    using helix_init_locks_lookup [OF fit, where base = "hs_ssArrays h"]
    by (simp add: helix_expected_fields arr l)
qed

text \<open>The cores after a dispatch.\<close>

lemma dispatched:
  assumes "NOELLE_HELIX_dispatcher_sequentialSegments memalign loop e m segments rt = Inr (h, rt')"
    and "0 < sint segments" and "locks_fit (unat (hs_numCores h)) (unat segments)"
  shows "ring_layout (unat (hs_numCores h)) (unat segments) (helix_expected loop e lca flag segments h)"
    and "fresh_locks (unat (hs_numCores h)) (unat segments) (helix_expected loop e lca flag segments h) (hs_locks h)"
proof -
  note b = assms(1) [unfolded NOELLE_HELIX_dispatcher_sequentialSegments_def]
  show "ring_layout (unat (hs_numCores h)) (unat segments) (helix_expected loop e lca flag segments h)"
    by (rule helix_ring_layout [OF b assms(3)])
  show "fresh_locks (unat (hs_numCores h)) (unat segments) (helix_expected loop e lca flag segments h) (hs_locks h)"
    by (rule helix_fresh_locks [OF b assms(3,2)])
qed

text \<open>An iteration before the last one is in a segment once, between its wait and its signal.\<close>

lemma section_once:
  assumes "iterations_ok n N S preamble body" "cores_ok n N S preamble body s" "i < N" "x < S"
    and "trace s = us @ vs" "(i, Signaled x) \<in> set us"
  shows "(i, Waited x) \<in> set us \<and> (i, Waited x) \<notin> set vs \<and> (i, Signaled x) \<notin> set vs"
proof -
  let ?of = "\<lambda>xs. map snd (filter (\<lambda>e. fst e = i) xs)"
  have mem: "e \<in> set (?of xs) \<longleftrightarrow> (i, e) \<in> set xs" for e xs by force
  obtain F where "complete N S preamble body i (eventsOf s i @ F)" using cores_partial [OF assms(2)] by blast
  then have F: "complete N S preamble body i (?of us @ (?of vs @ F))" by (simp add: eventsOf_def assms(5))
  have n: "i < N + n" "i \<le> lastOrdered n N preamble x"
    using assms(3) lastOrdered_bound [OF cores_okD(1) [OF assms(2)], of N preamble x] by simp_all
  note shape = partial_shape [OF assms(1) F n(1) assms(4) n(2)]
  have s: "Signaled x \<in> set (?of us)" using assms(6) unfolding mem .
  note w = shape(1) [OF s]
  have "Waited x \<notin> set (?of vs)" using shape(2) [OF w] unfolding set_append by blast
  moreover have "Signaled x \<notin> set (?of vs)" using shape(4) [OF assms(3) s] unfolding set_append by blast
  ultimately show ?thesis using w unfolding mem by blast
qed

section \<open>Properties\<close>

text \<open>
  C8: the code \<open>addSynchronizations\<close> leaves in the task, on the locks of the dispatcher: in any interleaving
  of the cores, an iteration waits for a segment only when all the earlier ones have been in it, waited and
  signaled, and none of them will wait for it or signal it any more. Up to the iteration that leaves the
  loop the segments are so executed one iteration after the other, in iteration order. Of the code the
  theorem asks that the paths taken through it wait and signal as \<open>balanced\<close> says.
\<close>

theorem helix_segments_in_order:
  assumes "NOELLE_HELIX_dispatcher_sequentialSegments memalign loop e m segments rt = Inr (h, rt')"
    and "0 < sint segments" and "locks_fit (unat (hs_numCores h)) (unat segments)"
    and "n = unat (hs_numCores h)" and "unat segments = length sss" and "taskPaths G sss code n N path"
    and "body = taskCode G sss preambleSCC code path"
    and "balanced n N (length sss) (map_option ssID (preambleSegment preambleSCC sss)) body"
    and "(helix_step N body (helix_expected loop e lca flag segments h))\<^sup>*\<^sup>* (helix_start n body junk (hs_locks h)) s"
    and "x < length sss" and "i < j" and "j \<le> N" and "trace s = us @ (j, Waited x) # vs"
  shows "{(i, Waited x), (i, Signaled x)} \<subseteq> set us \<and> (i, Waited x) \<notin> set vs \<and> (i, Signaled x) \<notin> set vs"
proof -
  note d = dispatched [OF assms(1-3), folded assms(4), unfolded assms(5)]
  note it = task_iterations [OF assms(6) assms(8) [unfolded assms(7)] ring_layoutD(1) [OF d(1)], folded assms(7)]
  have ok: "cores_ok n N (length sss) (prologueOf sss preambleSCC) body s"
    using ring_reachable [OF assms(9) it d] by (simp add: ring_ok_def)
  have "j \<le> lastOrdered n N (prologueOf sss preambleSCC) x"
    using assms(12) lastOrdered_bound [OF cores_okD(1) [OF ok], of N "prologueOf sss preambleSCC" x] by simp
  then have "(i, Signaled x) \<in> set us" using trace_in_order [OF assms(9) it d assms(10) _ assms(11,13)] by blast
  then show ?thesis using section_once [OF it ok _ assms(10,13)] assms(11,12) by simp
qed

text \<open>
  C21: the cores never wait for ever. Every run has at most as many moves as the iterations have instructions,
  with one more to go on to the next iteration and, for each core, a signal for every segment on its way out;
  and a run that cannot go on is over: the cores are done, the code of every iteration up to the one that
  leaves the loop has been executed to its end, and all those before it have waited for every segment and
  signaled it, once.
\<close>

theorem helix_ring_terminates:
  assumes "NOELLE_HELIX_dispatcher_sequentialSegments memalign loop e m segments rt = Inr (h, rt')"
    and "0 < sint segments" and "locks_fit (unat (hs_numCores h)) (unat segments)"
    and "n = unat (hs_numCores h)" and "unat segments = length sss" and "taskPaths G sss code n N path"
    and "body = taskCode G sss preambleSCC code path"
    and "balanced n N (length sss) (map_option ssID (preambleSegment preambleSCC sss)) body"
    and "(helix_step N body (helix_expected loop e lca flag segments h) ^^ k) (helix_start n body junk (hs_locks h)) s"
  shows "k \<le> (\<Sum>i < N + n. length (body i)) + N + n * length sss \<and>
    ((\<exists>t. helix_step N body (helix_expected loop e lca flag segments h) s t) \<or>
     (\<forall>c < n. finished N (cores s ! c)) \<and> (\<forall>i \<le> N. \<exists>st. eventsOf s i = runSync False st (body i)) \<and>
     (\<forall>i < N. \<forall>x < length sss. syncsOf x (eventsOf s i) = [Waited x, Signaled x]))"
proof -
  note d = dispatched [OF assms(1-3), folded assms(4), unfolded assms(5)]
  note it = task_iterations [OF assms(6) assms(8) [unfolded assms(7)] ring_layoutD(1) [OF d(1)], folded assms(7)]
  note ok = ring_reachable [OF relpowp_imp_rtranclp [OF assms(9)] it d]
  have cok: "cores_ok n N (length sss) (prologueOf sss preambleSCC) body s" using ok by (simp add: ring_ok_def)
  have "k \<le> (\<Sum>i < N + n. length (body i)) + N + n * length sss" using ring_bound [OF assms(9) it d] by simp
  moreover have "\<forall>c < n. finished N (cores s ! c)"
    if "\<nexists>t. helix_step N body (helix_expected loop e lca flag segments h) s t"
    using ring_progress [OF it ok d(1)] that by blast
  moreover have "\<forall>i \<le> N. \<exists>st. eventsOf s i = runSync False st (body i)" if "\<forall>c < n. finished N (cores s ! c)"
    using ring_complete [OF cok that] by blast
  moreover have "\<forall>i < N. \<forall>x < length sss. syncsOf x (eventsOf s i) = [Waited x, Signaled x]"
    if "\<forall>i \<le> N. \<exists>st. eventsOf s i = runSync False st (body i)"
    using that it unfolding iterations_ok_def by (metis less_imp_le_nat)
  ultimately show ?thesis by blast
qed


text \<open>
  C22: the instructions of a segment, which the transformation may not run out of order, are executed in
  iteration order: from the computation of the entries and exits of the segment, over the waits and signals
  put into the task, to the cores and their locks. For two instructions of a segment, one of an earlier
  iteration and one of a later, none of which leaves the loop, the earlier iteration does not execute
  the one after the later iteration has executed the other. What a segment may not look like is said
  with \<open>helix_segment_guarded\<close>.
\<close>

theorem helix_segment_in_iteration_order:
  assumes "NOELLE_HELIX_dispatcher_sequentialSegments memalign loop e m segments rt = Inr (h, rt')"
    and "0 < sint segments" and "locks_fit (unat (hs_numCores h)) (unat segments)"
    and "n = unat (hs_numCores h)" and "unat segments = length sss" and "taskPaths G sss code n N path"
    and "body = taskCode G sss preambleSCC code path"
    and "balanced n N (length sss) (map_option ssID (preambleSegment preambleSCC sss)) body"
    and "(helix_step N body (helix_expected loop e lca flag segments h))\<^sup>*\<^sup>* (helix_start n body junk (hs_locks h)) s"
    and "guarded_ok G sss code ss" and "segmentOf L header OUT instructions ss" and "branchesAgree G L code ss"
    and "\<forall>i < N. iterationPath L header (numbersOf (concat (map code (path i)))) \<and>
      set (path i) \<inter> (leavingBlocks G \<union> set (loopExitBBs G)) = {}"
    and "\<forall>a \<in> {a, b}. a \<in> set (nonPHIs L instructions) \<and> last (code (parentOf G a)) \<noteq> OrigInst a"
    and "i < j" and "j < N" and "trace s = us @ (j, Executed b) # vs"
  shows "(i, Executed a) \<notin> set vs"
proof -
  note d = dispatched [OF assms(1-3), folded assms(4), unfolded assms(5)]
  note it = task_iterations [OF assms(6) assms(8) [unfolded assms(7)] ring_layoutD(1) [OF d(1)], folded assms(7)]
  have guarded: "guardedBy (ssID ss) {a, b} (body i)" if "i < N" for i
    unfolding guardedBy_def assms(7) taskCode_def runBlocks_def [symmetric]
    using segment_guarded [OF assms(10-12)] assms(6,13,14) that unfolding taskPaths_def by (meson trans_less_add1)
  have "ss \<in> set sss" using assms(10) by (simp add: guarded_ok_def)
  then have "ssID ss \<in> set (map ssID sss)" by simp
  also have "map ssID sss = [0..<length sss]" using assms(6) by (simp add: taskPaths_def)
  finally have ss: "ssID ss < length sss" by simp
  have "j \<le> N" "i < N" using assms(15,16) by simp_all
  show ?thesis
    by (rule guarded_in_order [OF assms(9) it d ss assms(15) \<open>j \<le> N\<close> guarded [OF \<open>i < N\<close>] guarded [OF assms(16)] _ _ assms(17)])
      simp_all
qed

section \<open>A task\<close>

text \<open>A run that cannot go on exists.\<close>

lemma maximal_run:
  assumes "iterations_ok n N S preamble body" "ring_layout n S calls" "fresh_locks n S calls m"
  obtains k s where "(helix_step N body calls ^^ k) (helix_start n body junk m) s" "\<nexists>t. helix_step N body calls s t"
proof -
  let ?P = "\<lambda>k. \<exists>s. (helix_step N body calls ^^ k) (helix_start n body junk m) s"
  have "?P 0" by simp
  moreover have "\<forall>k. ?P k \<longrightarrow> k \<le> (\<Sum>i < N + n. length (body i)) + N + n * S"
    using ring_bound [OF _ assms] by (meson add_leD1 le_trans le_add1)
  ultimately have greatest: "?P (Greatest ?P)" "\<And>k. ?P k \<Longrightarrow> k \<le> Greatest ?P"
    using GreatestI_nat [of ?P 0] Greatest_le_nat [of ?P] by blast+
  from greatest(1) obtain s where s: "(helix_step N body calls ^^ Greatest ?P) (helix_start n body junk m) s" by blast
  have "\<not> helix_step N body calls s t" for t
    using greatest(2) [of "Suc (Greatest ?P)"] s by auto
  with s that show ?thesis by blast
qed

text \<open>\<open>updateLoop\<close> with its segment as the sequential prologue: two iterations on two cores.\<close>

definition ring_path :: "nat \<Rightarrow> nat list" where
  "ring_path i = (if i < 2 then [0, 1, 2] else [0, 2, 3])"

definition ring_body :: "nat \<Rightarrow> sync_inst list" where
  "ring_body = taskCode update_sync [update_segment [2]] (Some 7) update_code ring_path"

lemma ring_blocks:
  "addSynchronizations update_sync [update_segment [2]] (Some 7) update_code 0 =
     [ResetState 0, LoadState 0, WaitIfUnset 0, CheckLoopIsOver [0], OrigInst 0, OrigInst 1]"
  "addSynchronizations update_sync [update_segment [2]] (Some 7) update_code 1 = [OrigInst 2, SignalCall 0, OrigInst 3]"
  "addSynchronizations update_sync [update_segment [2]] (Some 7) update_code 2 = [OrigInst 4]"
  "addSynchronizations update_sync [update_segment [2]] (Some 7) update_code 3 =
     [SetLoopIsOver, LoadState 0, SignalCall 0, WaitIfUnset 0, SignalCall 0, OrigInst 5]"
  by code_simp+

lemma ring_bodies:
  "i < 2 \<Longrightarrow> ring_body i = [ResetState 0, LoadState 0, WaitIfUnset 0, CheckLoopIsOver [0], OrigInst 0, OrigInst 1,
     OrigInst 2, SignalCall 0, OrigInst 3, OrigInst 4]"
  "2 \<le> i \<Longrightarrow> ring_body i = [ResetState 0, LoadState 0, WaitIfUnset 0, CheckLoopIsOver [0], OrigInst 0, OrigInst 1,
     OrigInst 4, SetLoopIsOver, LoadState 0, SignalCall 0, WaitIfUnset 0, SignalCall 0, OrigInst 5]"
  by (simp_all add: ring_body_def taskCode_def ring_path_def ring_blocks [unfolded One_nat_def])

lemma ring_prologue: "preambleSegment (Some 7) [update_segment [2]] = Some (update_segment [2])"
  by (simp add: preambleSegment_def update_segment_def)

lemma ring_task:
  shows "taskPaths update_sync [update_segment [2]] update_code 2 2 ring_path"
    and "balanced 2 2 1 (Some 0) ring_body"
proof -
  have "headerKept update_sync [update_segment [2]] update_code"
    by (auto simp: headerKept_def exitKept_def plainExit_def update_sync_def update_code_def
        update_segment_def)
  then show "taskPaths update_sync [update_segment [2]] update_code 2 2 ring_path"
    using update_sync_ok [of "[2]"] by (auto simp: taskPaths_def iterationBlocks_def ring_path_def update_sync_def update_segment_def)
  show "balanced 2 2 1 (Some 0) ring_body"
    unfolding balanced_def by (auto simp: ring_bodies syncsOf_def precedes_def)
qed

text \<open>Everything the two cores do.\<close>

lemma ring_example:
  obtains h rt' k s where
    "NOELLE_HELIX_dispatcher_sequentialSegments (\<lambda>_. 64) 1 1 2 1 (NoelleRuntime_new None 8) = Inr (h, rt')"
    "hs_numCores h = 2"
    "(helix_step 2 ring_body (helix_expected 1 1 0 0 1 h) ^^ k) (helix_start 2 ring_body (\<lambda>c x. True) (hs_locks h)) s"
    "\<nexists>t. helix_step 2 ring_body (helix_expected 1 1 0 0 1 h) s t"
    "\<forall>i \<le> 2. \<exists>st. eventsOf s i = runSync False st (ring_body i)"
    "eventsOf s 3 = [Waited 0, Signaled 0]"
proof -
  have idle: "NOELLE_idleCores (NoelleRuntime_new None 8) = 4"
    by (simp add: NoelleRuntime_new_def getMaximumNumberOfCores_def)
  then obtain h rt' where b: "NOELLE_HELIX_dispatcher_sequentialSegments (\<lambda>_. 64) 1 1 2 1 (NoelleRuntime_new None 8) = Inr (h, rt')"
    and n: "hs_numCores h = 2"
    by (auto simp: NOELLE_HELIX_dispatcher_sequentialSegments_def helix_begin_def reserveCores_def Let_def)
  have fit: "locks_fit (unat (hs_numCores h)) (unat (1 :: 64 word))" by (simp add: n locks_fit_def CACHE_LINE_SIZE_def)
  have lay: "ring_layout 2 1 (helix_expected 1 1 0 0 1 h)" "fresh_locks 2 1 (helix_expected 1 1 0 0 1 h) (hs_locks h)"
    using dispatched [OF b _ fit] by (simp_all add: n)
  have it: "iterations_ok 2 2 1 (Some 0) ring_body"
    using task_iterations [OF ring_task(1), of "Some 7"] ring_task(2)
    by (simp add: ring_prologue ring_body_def [symmetric]) (simp add: update_segment_def)
  from maximal_run [OF it lay] obtain k s where
    s: "(helix_step 2 ring_body (helix_expected 1 1 0 0 1 h) ^^ k) (helix_start 2 ring_body (\<lambda>c x. True) (hs_locks h)) s"
    and stuck: "\<nexists>t. helix_step 2 ring_body (helix_expected 1 1 0 0 1 h) s t" by metis
  note ok = ring_reachable [OF relpowp_imp_rtranclp [OF s] it lay]
  then have cok: "cores_ok 2 2 1 (Some 0) ring_body s" by (simp add: ring_ok_def)
  have fin: "\<forall>c < 2. finished 2 (cores s ! c)" using ring_progress [OF it ok lay(1)] stuck by blast
  note core = cores_okD(5) [OF cok, of 1]
  have "2 \<le> iter (cores s ! 1)" "iter (cores s ! 1) mod 2 = 1" "iter (cores s ! 1) < 4"
    using finished_iter [OF core] fin cores_okD(3,4) [OF cok, of 1] by simp_all
  then have "iter (cores s ! 1) = 3" by presburger
  then have "complete 2 1 (Some 0) ring_body 3 (eventsOf s 3)"
    using core_ok_finished [OF core] fin by (simp add: finished_def)
  then have "eventsOf s 3 = [Waited 0, Signaled 0]" by (simp add: complete_def)
  then show ?thesis using that [OF b n s stuck] ring_complete [OF cok fin] by blast
qed

lemma in_events: "ev \<in> set (eventsOf s i) \<Longrightarrow> \<exists>us vs. trace s = us @ (i, ev) # vs"
  by (metis (no_types, lifting) eventsOf_mem split_list)

abbreviation ring_run :: "helix_setup \<Rightarrow> helix_ring \<Rightarrow> bool" where
  "ring_run h s \<equiv> (helix_step 2 ring_body (helix_expected 1 1 0 0 1 h))\<^sup>*\<^sup>* (helix_start 2 ring_body (\<lambda>c x. True) (hs_locks h)) s"

lemma ring_facts:
  "unat (1 :: 64 word) = length [update_segment [2]]"
  "balanced 2 2 (length [update_segment [2]]) (map_option ssID (preambleSegment (Some 7) [update_segment [2]])) ring_body"
  "balanced 2 2 (length [update_segment [2]]) (Some (ssID (update_segment [2]))) ring_body"
  using ring_task(2) by (simp_all add: ring_prologue) (simp_all add: update_segment_def)

lemma ring_fit: "hs_numCores h = 2 \<Longrightarrow> locks_fit (unat (hs_numCores h)) (unat (1 :: 64 word)) \<and> 2 = unat (hs_numCores h)"
  by (simp add: locks_fit_def CACHE_LINE_SIZE_def)

theorem helix_segments_in_order_witness:
  "\<exists>h s us vs. ring_run h s \<and> trace s = us @ (1, Waited 0) # vs \<and> (0, Signaled 0) \<in> set us \<and> (0, Signaled 0) \<notin> set vs"
proof -
  obtain h rt' k s where ex: "NOELLE_HELIX_dispatcher_sequentialSegments (\<lambda>_. 64) 1 1 2 1 (NoelleRuntime_new None 8) = Inr (h, rt')"
    "hs_numCores h = 2"
    "(helix_step 2 ring_body (helix_expected 1 1 0 0 1 h) ^^ k) (helix_start 2 ring_body (\<lambda>c x. True) (hs_locks h)) s"
    "\<exists>st. eventsOf s 1 = runSync False st (ring_body 1)"
    by (rule ring_example) auto
  note run = relpowp_imp_rtranclp [OF ex(3)]
  have "Waited 0 \<in> set (eventsOf s 1)" using ex(4) by (auto simp: ring_bodies)
  from in_events [OF this] obtain us vs where tr: "trace s = us @ (1, Waited 0) # vs" by blast
  have fit: "locks_fit (unat (hs_numCores h)) (unat (1 :: 64 word))" "2 = unat (hs_numCores h)" using ring_fit [OF ex(2)] by auto
  from helix_segments_in_order [OF ex(1) _ fit ring_facts(1) ring_task(1) ring_body_def ring_facts(2) run _ _ _ tr, of 0]
  have "(0, Signaled 0) \<in> set us \<and> (0, Signaled 0) \<notin> set vs" by simp
  with run tr show ?thesis by blast
qed

theorem helix_ring_terminates_witness:
  "\<exists>h k s. (helix_step 2 ring_body (helix_expected 1 1 0 0 1 h) ^^ k) (helix_start 2 ring_body (\<lambda>c x. True) (hs_locks h)) s \<and>
     k \<le> 50 \<and> syncsOf 0 (eventsOf s 1) = [Waited 0, Signaled 0]"
proof -
  obtain h rt' k s where ex: "NOELLE_HELIX_dispatcher_sequentialSegments (\<lambda>_. 64) 1 1 2 1 (NoelleRuntime_new None 8) = Inr (h, rt')"
    "hs_numCores h = 2"
    "(helix_step 2 ring_body (helix_expected 1 1 0 0 1 h) ^^ k) (helix_start 2 ring_body (\<lambda>c x. True) (hs_locks h)) s"
    "\<nexists>t. helix_step 2 ring_body (helix_expected 1 1 0 0 1 h) s t"
    by (rule ring_example) auto
  have fit: "locks_fit (unat (hs_numCores h)) (unat (1 :: 64 word))" "2 = unat (hs_numCores h)" using ring_fit [OF ex(2)] by auto
  note bound = helix_ring_terminates [OF ex(1) _ fit ring_facts(1) ring_task(1) ring_body_def ring_facts(2) ex(3)]
  have size: "(\<Sum>i < 2 + 2. length (ring_body i)) + 2 + 2 * length [update_segment [2]] = 50"
  proof -
    have four: "{..<2 + 2} = {0, 1, 2, 3 :: nat}" by auto
    show ?thesis unfolding four by (simp add: ring_bodies)
  qed
  from bound [unfolded size] ex(4) have "k \<le> 50" "\<forall>i < 2. \<forall>x < 1. syncsOf x (eventsOf s i) = [Waited x, Signaled x]" by auto
  then have "k \<le> 50 \<and> syncsOf 0 (eventsOf s 1) = [Waited 0, Signaled 0]" by simp
  with ex(3) show ?thesis by blast
qed


theorem helix_segment_in_iteration_order_witness:
  "\<exists>h s us vs. ring_run h s \<and> trace s = us @ (1, Executed 2) # vs \<and> (0, Executed 2) \<in> set us \<and> (0, Executed 2) \<notin> set vs"
proof -
  obtain h rt' k s where ex: "NOELLE_HELIX_dispatcher_sequentialSegments (\<lambda>_. 64) 1 1 2 1 (NoelleRuntime_new None 8) = Inr (h, rt')"
    "hs_numCores h = 2"
    "(helix_step 2 ring_body (helix_expected 1 1 0 0 1 h) ^^ k) (helix_start 2 ring_body (\<lambda>c x. True) (hs_locks h)) s"
    "\<forall>i \<le> 2. \<exists>st. eventsOf s i = runSync False st (ring_body i)"
    by (rule ring_example) auto
  note run = relpowp_imp_rtranclp [OF ex(3)]
  have executed: "Executed 2 \<in> set (eventsOf s i)" if "i < 2" for i using spec [OF ex(4), of i] that by (auto simp: ring_bodies)
  from in_events [OF executed [of 1]] obtain us vs where tr: "trace s = us @ (1, Executed 2) # vs" by auto
  have fit: "locks_fit (unat (hs_numCores h)) (unat (1 :: 64 word))" "2 = unat (hs_numCores h)" using ring_fit [OF ex(2)] by auto
  have ok: "guarded_ok update_sync [update_segment [2]] update_code (update_segment [2])"
    using update_sync_ok [of "[2]"]
    by (auto simp: guarded_ok_def exitKept_def plainExit_def update_segment_def update_sync_def update_code_def split: if_splits)
  have edges: "branchesAgree update_sync updateLoop update_code (update_segment [2])"
    by (auto simp: branchesAgree_def plainExit_def update_segment_def update_sync_def update_code_def)
  have seg: "segmentOf updateLoop 0 updateOUT [0, 2] (update_segment [2])"
    unfolding segmentOf_def using updateLoop_cfg updateOUT_least updateLoop_segment(1)
    by (intro conjI exI [of _ "[]"] exI [of _ 12]) (auto simp: update_segment_def updateLoop_def updateOUT_def)
  have path: "\<forall>i < 2. iterationPath updateLoop 0 (numbersOf (concat (map update_code (ring_path i)))) \<and>
      set (ring_path i) \<inter> (leavingBlocks update_sync \<union> set (loopExitBBs update_sync)) = {}"
    by (simp add: ring_path_def update_code_def iterationPath_def updateLoop_def loopInstructions_def stepBack_def
        leavingBlocks_def update_sync_def)
  have mem: "\<forall>a \<in> {2, 2}. a \<in> set (nonPHIs updateLoop [0, 2]) \<and> last (update_code (parentOf update_sync a)) \<noteq> OrigInst a"
    by (simp add: nonPHIs_def updateLoop_def update_code_def update_sync_def)
  from helix_segment_in_iteration_order [OF ex(1) _ fit ring_facts(1) ring_task(1) ring_body_def ring_facts(2) run ok seg edges path mem _ _ tr, of 0]
  have "(0, Executed 2) \<notin> set vs" by simp
  moreover have "(0, Executed 2) \<in> set (trace s)" using executed [of 0] by (simp add: eventsOf_mem)
  ultimately have "(0, Executed 2) \<in> set us" using tr by simp
  with run tr \<open>(0, Executed 2) \<notin> set vs\<close> show ?thesis by blast
qed

end
