(* ===== verification/Runtime_Dswp.thy ===== *)
theory Runtime_Dswp
  imports Runtime_Cores Fork_Join
begin

text \<open>
  The DSWP dispatcher of \<open>Parallelizer_utils.cpp\<close>: it allocates the communication queues by
  element size, submits one task per stage, waits for all of them and deletes the queues. The
  queues themselves (\<open>ThreadSafeLockFreeQueue\<close>) belong to VIRGIL; only their element type matters
  here.
\<close>

section \<open>The queues\<close>

datatype queue_type = Queue_int8 | Queue_int16 | Queue_int32 | Queue_int64

definition newQueue :: "i64 \<Rightarrow> queue_type result" where
  "newQueue sz =
     (if sz = 1 then Inr Queue_int8
      else if sz = 8 then Inr Queue_int8
      else if sz = 16 then Inr Queue_int16
      else if sz = 32 then Inr Queue_int32
      else if sz = 64 then Inr Queue_int64
      else Inl Aborted)"

text \<open>The allocation loop over \<open>queueSizes\<close>.\<close>

fun newQueues :: "i64 list \<Rightarrow> queue_type list result" where
  "newQueues [] = Inr []"
| "newQueues (sz # sizes) =
     (case newQueue sz of
        Inl e \<Rightarrow> Inl e
      | Inr q \<Rightarrow> (case newQueues sizes of Inl e \<Rightarrow> Inl e | Inr qs \<Rightarrow> Inr (q # qs)))"

text \<open>
  The second switch: the type whose destructor the \<open>delete\<close> runs, \<open>None\<close> if no case matches and
  the queue leaks. The result of the loop pairs each deleted queue with that type.
\<close>

definition deleteQueue :: "i64 \<Rightarrow> queue_type option" where
  "deleteQueue sz =
     (if sz = 1 then Some Queue_int8
      else if sz = 8 then Some Queue_int8
      else if sz = 16 then Some Queue_int16
      else if sz = 32 then Some Queue_int32
      else if sz = 64 then Some Queue_int64
      else None)"

definition deleteQueues :: "i64 list \<Rightarrow> (nat \<times> queue_type) list" where
  "deleteQueues sizes =
     concat (map (\<lambda>i. case deleteQueue (sizes ! i) of None \<Rightarrow> [] | Some t \<Rightarrow> [(i, t)])
       [0..<length sizes])"

section \<open>The dispatcher\<close>

record NOELLE_DSWP_args_t =
  s_funcToInvoke :: nat
  s_env :: nat
  s_localQueues :: nat
  s_endLock :: bool

type_synonym stage_call = "nat \<times> nat \<times> nat"

definition NOELLE_DSWPTrampoline :: "NOELLE_DSWP_args_t \<Rightarrow> stage_call \<times> NOELLE_DSWP_args_t" where
  "NOELLE_DSWPTrampoline a =
     ((s_funcToInvoke a, s_env a, s_localQueues a), a\<lparr>s_endLock := False\<rparr>)"

text \<open>Up to the submission: the cores, then the queues.\<close>

definition dswp_begin ::
    "i64 list \<Rightarrow> i64 \<Rightarrow> NoelleRuntime \<Rightarrow> (u32 \<times> queue_type list \<times> NoelleRuntime) result" where
  "dswp_begin queueSizes numberOfStages rt =
     (let (n, rt) = reserveCores (ucast numberOfStages) rt in
      if \<not> 1 \<le> n then Inl AssertionFailed
      else case newQueues queueSizes of Inl e \<Rightarrow> Inl e | Inr qs \<Rightarrow> Inr (n, qs, rt))"

text \<open>
  One task per stage; \<open>stages\<close> are the function pointers, \<open>queues\<close> the address of the array of
  queues. The dispatcher runs no stage itself.
\<close>

definition dswp_ops :: "nat list \<Rightarrow> nat \<Rightarrow> nat \<Rightarrow> (NOELLE_DSWP_args_t, stage_call) fj_ops" where
  "dswp_ops stages e queues =
     \<lparr>workers = length stages,
      prepare = (\<lambda>i _. \<lparr>s_funcToInvoke = stages ! i, s_env = e, s_localQueues = queues,
                         s_endLock = True\<rparr>),
      invoke = (\<lambda>a. fst (NOELLE_DSWPTrampoline a)),
      own = None,
      getLock = s_endLock,
      setLock = (\<lambda>b a. if b then a\<lparr>s_endLock := True\<rparr> else snd (NOELLE_DSWPTrampoline a))\<rparr>"

text \<open>
  After the join: the cores go back, the queues are deleted; \<open>numberOfThreadsUsed\<close> is the number of
  stages, whatever number of cores was granted.
\<close>

definition dswp_end ::
    "u32 \<Rightarrow> i64 list \<Rightarrow> i64 \<Rightarrow> NoelleRuntime \<Rightarrow>
     (u32 \<times> (nat \<times> queue_type) list \<times> NoelleRuntime) result" where
  "dswp_end n queueSizes numberOfStages rt =
     (case releaseCores n rt of
        Inl e \<Rightarrow> Inl e
      | Inr rt \<Rightarrow> Inr (ucast numberOfStages, deleteQueues queueSizes, rt))"

interpretation dswp_fj: fork_join "dswp_ops stages e queues" "\<lambda>_ _. True"
    "\<lambda>i. (stages ! i, e, queues)" for stages e queues
  by unfold_locales (auto simp: dswp_ops_def NOELLE_DSWPTrampoline_def)

section \<open>Properties\<close>

lemma newQueue_deleteQueue: "newQueue sz = Inr t \<Longrightarrow> deleteQueue sz = Some t"
  by (auto simp: newQueue_def deleteQueue_def split: if_splits)

lemma newQueues_types:
  "newQueues sizes = Inr qs \<Longrightarrow> length qs = length sizes \<and>
     (\<forall>i < length sizes. newQueue (sizes ! i) = Inr (qs ! i))"
  by (induction sizes arbitrary: qs) (auto simp: nth_Cons' split: sum.splits)

lemma newQueues_error:
  "(\<exists>qs. newQueues sizes = Inr qs) \<longleftrightarrow> set sizes \<subseteq> {1, 8, 16, 32, 64}"
  by (induction sizes) (auto simp: newQueue_def split: sum.splits if_splits)

lemma concat_singletons: "\<forall>i \<in> set is. f i = [g i] \<Longrightarrow> concat (map f is) = map g is"
  by (induction "is") auto

text \<open>
  The dispatcher gets past the allocation exactly when every queue size is 1, 8, 16, 32 or 64;
  then every queue is deleted exactly once and as the type it was allocated with, and the idle
  counter is back to what it was before.
\<close>

theorem dswp_queues_and_cores:
  "((\<exists>n qs rt'. dswp_begin sizes k rt = Inr (n, qs, rt')) \<longleftrightarrow> set sizes \<subseteq> {1, 8, 16, 32, 64}) \<and>
   (\<forall>n qs rt' rt2. dswp_begin sizes k rt = Inr (n, qs, rt') \<longrightarrow>
      NOELLE_idleCores rt2 = NOELLE_idleCores rt' \<longrightarrow>
      (\<exists>rt3. dswp_end n sizes k rt2 = Inr (ucast k, zip [0..<length sizes] qs, rt3) \<and>
         length qs = length sizes \<and> NOELLE_idleCores rt3 = NOELLE_idleCores rt))"
proof -
  obtain m rt1 where r: "reserveCores (ucast k) rt = (m, rt1)" by fastforce
  have m: "1 \<le> m" using ledger.reserve_pos [OF r] by (simp add: word_ge_one_iff)
  have b: "dswp_begin sizes k rt =
      (case newQueues sizes of Inl e \<Rightarrow> Inl e | Inr qs \<Rightarrow> Inr (m, qs, rt1))"
    using m by (simp add: dswp_begin_def r)
  have "(\<exists>n qs rt'. dswp_begin sizes k rt = Inr (n, qs, rt')) \<longleftrightarrow> set sizes \<subseteq> {1, 8, 16, 32, 64}"
    unfolding newQueues_error [symmetric] b by (auto split: sum.splits)
  moreover have "\<exists>rt3. dswp_end n sizes k rt2 = Inr (ucast k, zip [0..<length sizes] qs, rt3) \<and>
      length qs = length sizes \<and> NOELLE_idleCores rt3 = NOELLE_idleCores rt"
    if beg: "dswp_begin sizes k rt = Inr (n, qs, rt')"
      and idle: "NOELLE_idleCores rt2 = NOELLE_idleCores rt'" for n qs rt' rt2
  proof -
    from beg have q: "newQueues sizes = Inr qs" "n = m" "rt' = rt1" by (auto simp: b split: sum.splits)
    note t = newQueues_types [OF q(1)]
    have "deleteQueues sizes = map (\<lambda>i. (i, qs ! i)) [0..<length sizes]"
      unfolding deleteQueues_def by (rule concat_singletons) (use t newQueue_deleteQueue in auto)
    also have "\<dots> = zip [0..<length sizes] qs"
      using t by (intro nth_equalityI) auto
    finally have d: "deleteQueues sizes = zip [0..<length sizes] qs" .
    obtain rt3 where "releaseCores n rt2 = Inr rt3" "NOELLE_idleCores rt3 = NOELLE_idleCores rt"
      using ledger.reserve_then_release [OF r, of rt2] idle q by auto
    then show ?thesis using d t by (simp add: dswp_end_def)
  qed
  ultimately show ?thesis by blast
qed

theorem dswp_queues_and_cores_witness:
  "\<exists>n qs rt' rt3. dswp_begin [64, 1] 3 (NoelleRuntime_new None 8) = Inr (n, qs, rt') \<and>
     dswp_end n [64, 1] 3 rt' = Inr (3, [(0, Queue_int64), (1, Queue_int8)], rt3)"
proof -
  let ?rt = "NoelleRuntime_new None 8"
  obtain n qs rt' where b: "dswp_begin [64, 1] 3 ?rt = Inr (n, qs, rt')"
    using conjunct1 [OF dswp_queues_and_cores [of "[64, 1]" 3 ?rt]] by auto
  then have qs: "qs = [Queue_int64, Queue_int8]"
    by (auto simp: dswp_begin_def newQueue_def split: prod.splits if_splits)
  from conjunct2 [OF dswp_queues_and_cores [of "[64, 1]" 3 ?rt]] b obtain rt3
    where "dswp_end n [64, 1] 3 rt' = Inr (ucast (3 :: i64), zip [0..<length [64, 1 :: i64]] qs, rt3)"
    by blast
  with b qs show ?thesis by (simp add: upt_rec)
qed

text \<open>
  When the DSWP dispatcher has joined, every stage function was called exactly once, with the
  environment and the array of queues; until then some thread can always move, and it joins after
  at most four moves per stage and two more.
\<close>

theorem dswp_dispatch_calls:
  assumes run: "(fj_step (dswp_ops stages e queues) ^^ k)
      (fj_init (replicate (length stages) junk)) f"
  shows "k \<le> 4 * length stages + 2 \<and>
    ((\<exists>g. fj_step (dswp_ops stages e queues) f g) \<or>
     mset (log f) = image_mset (\<lambda>s. (s, e, queues)) (mset stages))"
proof -
  let ?o = "dswp_ops stages e queues" and ?as = "replicate (length stages) junk"
  have r: "(fj_step ?o)\<^sup>*\<^sup>* (fj_init ?as) f" using run by (rule relpowp_imp_rtranclp)
  have w: "workers ?o = length stages" and own: "own ?o = None" by (simp_all add: dswp_ops_def)
  have "k \<le> 4 * length stages + 2" using fj_bound [OF run] w by simp
  moreover have "\<exists>g. fj_step ?o f g" if "pc f \<noteq> Joined"
    using dswp_fj.fj_progress [OF r _ _ that] w by simp
  moreover have "mset (log f) = image_mset (\<lambda>s. (s, e, queues)) (mset stages)" if "pc f = Joined"
  proof -
    have "mset (log f) = image_mset (\<lambda>i. (stages ! i, e, queues)) (mset_set {..<length stages})"
      using dswp_fj.fj_joined(1) [OF r _ _ that] w own by simp
    also have "\<dots> = mset (map (\<lambda>i. (stages ! i, e, queues)) [0..<length stages])"
      unfolding mset_map mset_upt lessThan_atLeast0 ..
    also have "map (\<lambda>i. (stages ! i, e, queues)) [0..<length stages] =
        map (\<lambda>s. (s, e, queues)) (map ((!) stages) [0..<length stages])"
      by simp
    finally show ?thesis unfolding map_nth by simp
  qed
  ultimately show ?thesis by blast
qed

theorem dswp_dispatch_calls_witness:
  "\<exists>g. fj_step (dswp_ops [5, 6] 1 2) (fj_init (replicate 2 undefined)) g"
proof -
  have "(fj_step (dswp_ops [5, 6] 1 2) ^^ 0) (fj_init (replicate (length [5, 6 :: nat]) undefined))
      (fj_init (replicate 2 undefined))"
    by (simp add: numeral_2_eq_2)
  from dswp_dispatch_calls [OF this] show ?thesis by (simp add: fj_init_def)
qed

end
