(* ===== verification/Loop_Tree.thy ===== *)
theory Loop_Tree
  imports Gino_Prelude
begin

text \<open>
  The loop nesting tree (\<open>LoopTree\<close> and \<open>LoopForest\<close> of NOELLE) as the planner, the time estimator
  and the parallelizer see it: a node is a loop and the loops nested directly in it. NOELLE's
  traversals are arguments of the code's model; the interface here is what they promise.
\<close>

datatype 'l loop_tree = LoopTree (getLoop: 'l) (getChildren: "'l loop_tree list")

fun loops :: "'l loop_tree \<Rightarrow> 'l list" where
  "loops (LoopTree l cs) = l # concat (map loops cs)"

fun subtrees :: "'l loop_tree \<Rightarrow> 'l loop_tree list" where
  "subtrees (LoopTree l cs) = LoopTree l cs # concat (map subtrees cs)"

text \<open>Pairs of a loop and a loop nested in it, at any depth.\<close>

fun nested :: "'l loop_tree \<Rightarrow> ('l \<times> 'l) set" where
  "nested (LoopTree l cs) = {l} \<times> set (concat (map loops cs)) \<union> (\<Union>c \<in> set cs. nested c)"

text \<open>A set of loops of the tree none of which is nested in another one.\<close>

definition unnested :: "'l loop_tree \<Rightarrow> 'l set \<Rightarrow> bool" where
  "unnested t S \<longleftrightarrow> S \<subseteq> set (loops t) \<and> (\<forall>(a, b) \<in> nested t. \<not> (a \<in> S \<and> b \<in> S))"

lemma getLoop_in_loops [simp]: "getLoop t \<in> set (loops t)"
  by (cases t) simp

lemma loops_subtrees: "loops t = map getLoop (subtrees t)"
  by (induction t) (simp add: map_concat comp_def cong: map_cong)

lemma subtrees_self [simp]: "t \<in> set (subtrees t)"
  by (cases t) simp

lemma subtrees_trans: "u \<in> set (subtrees t) \<Longrightarrow> v \<in> set (subtrees u) \<Longrightarrow> v \<in> set (subtrees t)"
  by (induction t) auto

lemma child_subtree: "c \<in> set (getChildren u) \<Longrightarrow> c \<in> set (subtrees u)"
  by (cases u) (auto intro!: bexI [of _ c])

lemma nested_in_loops: "(a, b) \<in> nested t \<Longrightarrow> a \<in> set (loops t) \<and> b \<in> set (loops t)"
  by (induction t) auto

section \<open>Traversals\<close>

text \<open>
  What \<open>visitPostOrder\<close> promises: it visits exactly the nodes of the tree, once each, children
  before their parent.
\<close>

definition children_first :: "'l loop_tree list \<Rightarrow> bool" where
  "children_first us \<longleftrightarrow>
     (\<forall>i < length us. \<forall>c \<in> set (getChildren (us ! i)). c \<in> set (take i us))"

locale post_order =
  fixes visit :: "'l loop_tree \<Rightarrow> 'l loop_tree list"
  assumes visit_nodes: "mset (visit t) = mset (subtrees t)"
    and visit_children: "children_first (visit t)"

fun postorder :: "'l loop_tree \<Rightarrow> 'l loop_tree list" where
  "postorder (LoopTree l cs) = concat (map postorder cs) @ [LoopTree l cs]"

lemma postorder_nodes: "mset (postorder t) = mset (subtrees t)"
proof (induction t)
  case (LoopTree l cs)
  then have "mset (concat (map postorder cs)) = mset (concat (map subtrees cs))"
    by (induction cs) auto
  then show ?case by simp
qed

lemma children_first_append:
  assumes "children_first us" and "children_first vs"
  shows "children_first (us @ vs)"
  using assms unfolding children_first_def
  by (auto simp: nth_append)

lemma children_first_concat:
  "\<forall>us \<in> set uss. children_first us \<Longrightarrow> children_first (concat uss)"
  by (induction uss) (auto intro: children_first_append simp: children_first_def [of "[]"])

lemma children_first_snoc:
  assumes "children_first us" and "set (getChildren t) \<subseteq> set us"
  shows "children_first (us @ [t])"
  using assms unfolding children_first_def by (auto simp: nth_append less_Suc_eq)

lemma postorder_children: "children_first (postorder t)"
proof (induction t)
  case (LoopTree l cs)
  have "c \<in> set (postorder c)" for c :: "'a loop_tree" by (cases c) simp
  then have "set cs \<subseteq> set (concat (map postorder cs))" by auto
  moreover have "children_first (concat (map postorder cs))"
    using LoopTree by (auto intro!: children_first_concat)
  ultimately show ?case by (simp add: children_first_snoc)
qed

interpretation post: post_order postorder
  by unfold_locales (rule postorder_nodes, rule postorder_children)

end
