(* ===== verification/Loop_Savings.thy ===== *)
theory Loop_Savings
  imports Loop_Tree
begin

text \<open>
  \<open>Planner::evaluateSavings\<close> (\<open>parallelization_planner/src/LoopEvaluation.cpp\<close>): the most time any
  combination of loops of a tree can save, computed bottom up, and what it is compared to the best
  choice of loops.
\<close>

section \<open>The code\<close>

text \<open>
  \<open>maxTimeSaved[l]\<close> reads 0 when \<open>l\<close> has no entry (the entry \<open>operator[]\<close> then makes is 0, too).
\<close>

definition savedAt :: "('l \<rightharpoonup> u64) \<Rightarrow> 'l \<Rightarrow> u64" where
  "savedAt m l = (case m l of None \<Rightarrow> 0 | Some v \<Rightarrow> v)"

text \<open>The loop over the children.\<close>

fun childrenSaved ::
    "('l \<Rightarrow> bool result) \<Rightarrow> ('l \<rightharpoonup> u64) \<Rightarrow> 'l loop_tree list \<Rightarrow> u64 \<Rightarrow> u64 result" where
  "childrenSaved considerLoop m [] acc = Inr acc"
| "childrenSaved considerLoop m (c # cs) acc =
     (case considerLoop (getLoop c) of
        Inl e \<Rightarrow> Inl e
      | Inr b \<Rightarrow>
          childrenSaved considerLoop m cs (if b then acc + savedAt m (getLoop c) else acc))"

text \<open>The lambda \<open>f\<close> applied to one node.\<close>

definition visitSavings ::
    "('l \<rightharpoonup> u64) \<Rightarrow> ('l \<Rightarrow> bool result) \<Rightarrow> 'l loop_tree \<Rightarrow> ('l \<rightharpoonup> u64) \<Rightarrow> ('l \<rightharpoonup> u64) result" where
  "visitSavings timeSaved considerLoop n m =
     (case considerLoop (getLoop n) of
        Inl e \<Rightarrow> Inl e
      | Inr b \<Rightarrow>
          if \<not> b then Inr m
          else case timeSaved (getLoop n) of
                 None \<Rightarrow> Inl AssertionFailed
               | Some loopSaved \<Rightarrow>
                   (case childrenSaved considerLoop m (getChildren n) 0 of
                      Inl e \<Rightarrow> Inl e
                    | Inr maxChildrenSaved \<Rightarrow>
                        Inr (m(getLoop n \<mapsto> max maxChildrenSaved loopSaved))))"

fun visitAll ::
    "('n \<Rightarrow> 's \<Rightarrow> 's result) \<Rightarrow> 'n list \<Rightarrow> 's \<Rightarrow> 's result" where
  "visitAll f [] s = Inr s"
| "visitAll f (n # ns) s = (case f n s of Inl e \<Rightarrow> Inl e | Inr s \<Rightarrow> visitAll f ns s)"

text \<open>The second overload, for one choice of \<open>considerLoop\<close>.\<close>

definition evaluateSavingsFor ::
    "('l loop_tree \<Rightarrow> 'l loop_tree list) \<Rightarrow> 'l loop_tree \<Rightarrow> ('l \<rightharpoonup> u64) \<Rightarrow>
     ('l \<Rightarrow> bool result) \<Rightarrow> u64 result" where
  "evaluateSavingsFor visitPostOrder t timeSaved considerLoop =
     (case visitAll (visitSavings timeSaved considerLoop) (visitPostOrder t) Map.empty of
        Inl e \<Rightarrow> Inl e
      | Inr m \<Rightarrow> Inr (savedAt m (getLoop t)))"

definition considerAll :: "'l \<Rightarrow> bool result" where
  "considerAll l = Inr True"

definition considerDOALLOnly :: "('l \<rightharpoonup> bool) \<Rightarrow> 'l \<Rightarrow> bool result" where
  "considerDOALLOnly doallLoops l =
     (case doallLoops l of None \<Rightarrow> Inl OutOfRange | Some b \<Rightarrow> if b then Inr True else Inr False)"

definition evaluateSavings ::
    "('l loop_tree \<Rightarrow> 'l loop_tree list) \<Rightarrow> 'l loop_tree \<Rightarrow> ('l \<rightharpoonup> u64) \<Rightarrow> ('l \<rightharpoonup> bool) \<Rightarrow>
     (u64 \<times> u64) result" where
  "evaluateSavings visitPostOrder t timeSaved doallLoops =
     (case evaluateSavingsFor visitPostOrder t timeSaved considerAll of
        Inl e \<Rightarrow> Inl e
      | Inr rootLoopMaxTimeSaved \<Rightarrow>
          (case evaluateSavingsFor visitPostOrder t timeSaved (considerDOALLOnly doallLoops) of
             Inl e \<Rightarrow> Inl e
           | Inr rootLoopMaxTimeSavedWithDOALL \<Rightarrow>
               Inr (rootLoopMaxTimeSaved, rootLoopMaxTimeSavedWithDOALL)))"

section \<open>The value computed, by recursion on the tree\<close>

text \<open>A loop that is not considered cuts off everything nested in it.\<close>

fun bestSaved :: "('l \<Rightarrow> bool) \<Rightarrow> ('l \<Rightarrow> nat) \<Rightarrow> 'l loop_tree \<Rightarrow> nat" where
  "bestSaved P w (LoopTree l cs) =
     (if P l then max (sum_list (map (bestSaved P w) cs)) (w l) else 0)"

text \<open>\<open>m\<close> holds the right value of every considered node in \<open>us\<close>.\<close>

definition saved_ok :: "('l \<Rightarrow> bool) \<Rightarrow> ('l \<Rightarrow> nat) \<Rightarrow> 'l loop_tree list \<Rightarrow> ('l \<rightharpoonup> u64) \<Rightarrow> bool" where
  "saved_ok P w us m \<longleftrightarrow>
     (\<forall>u \<in> set us. P (getLoop u) \<longrightarrow> m (getLoop u) = Some (of_nat (bestSaved P w u))) \<and>
     dom m = getLoop ` {u \<in> set us. P (getLoop u)}"

lemma childrenSaved_sum:
  assumes "\<forall>c \<in> set cs. considerLoop (getLoop c) = Inr (P (getLoop c))"
    and "\<forall>c \<in> set cs. P (getLoop c) \<longrightarrow> m (getLoop c) = Some (of_nat (bestSaved P w c))"
  shows "childrenSaved considerLoop m cs acc =
     Inr (acc + of_nat (sum_list (map (bestSaved P w) cs)))"
  using assms
proof (induction cs arbitrary: acc)
  case (Cons c cs)
  have "\<not> P (getLoop c) \<Longrightarrow> bestSaved P w c = 0" by (cases c) simp
  with Cons show ?case by (auto simp: savedAt_def add.assoc)
qed simp

lemma visitAll_append:
  "visitAll f (xs @ ys) s = (case visitAll f xs s of Inl e \<Rightarrow> Inl e | Inr s \<Rightarrow> visitAll f ys s)"
  by (induction xs arbitrary: s) (auto split: sum.splits)

lemma max_of_nat_u64:
  "a < 2 ^ 64 \<Longrightarrow> b < 2 ^ 64 \<Longrightarrow> max (of_nat a) (of_nat b :: u64) = of_nat (max a b)"
  by (simp add: max_def word_le_nat_alt u64_unat_of_nat)

text \<open>No sum of the savings of the tree overflows.\<close>

definition fits :: "('l \<Rightarrow> nat) \<Rightarrow> 'l loop_tree \<Rightarrow> bool" where
  "fits w t \<longleftrightarrow> sum_list (map w (loops t)) < 2 ^ 64"

lemma bestSaved_le_sum: "bestSaved P w t \<le> sum_list (map w (loops t))"
proof (induction t)
  case (LoopTree l cs)
  then have "sum_list (map (bestSaved P w) cs) \<le> sum_list (map (\<lambda>c. sum_list (map w (loops c))) cs)"
    by (intro sum_list_mono) auto
  also have "\<dots> = sum_list (map w (concat (map loops cs)))"
    by (induction cs) auto
  finally show ?case by simp
qed

lemma sum_bestSaved_le:
  "sum_list (map (bestSaved P w) cs) \<le> sum_list (map w (concat (map loops cs)))"
  by (induction cs) (auto intro: add_mono bestSaved_le_sum)

lemma fits_subtree: "fits w t \<Longrightarrow> u \<in> set (subtrees t) \<Longrightarrow> fits w u"
proof (induction t)
  case (LoopTree l cs)
  show ?case
  proof (cases "u = LoopTree l cs")
    case False
    with LoopTree.prems obtain c where c: "c \<in> set cs" "u \<in> set (subtrees c)" by auto
    have "sum_list (map w (loops c)) \<le> sum_list (map w (concat (map loops cs)))"
      using c(1) by (induction cs) auto
    with LoopTree c show ?thesis by (auto simp: fits_def)
  qed (use LoopTree in simp)
qed

lemma visitSavings_step:
  assumes m: "saved_ok P w us m" and c: "considerLoop (getLoop n) = Inr (P (getLoop n))"
    "\<forall>c \<in> set (getChildren n). considerLoop (getLoop c) = Inr (P (getLoop c))"
    and ch: "set (getChildren n) \<subseteq> set us" and w: "timeSaved (getLoop n) = Some (of_nat (w (getLoop n)))"
    and fit: "fits w n" and new: "getLoop n \<notin> getLoop ` set us"
  shows "\<exists>m'. visitSavings timeSaved considerLoop n m = Inr m' \<and> saved_ok P w (us @ [n]) m'"
proof (cases "P (getLoop n)")
  case False
  with m c show ?thesis by (auto simp: visitSavings_def saved_ok_def)
next
  case True
  obtain l cs where n: "n = LoopTree l cs" by (cases n)
  have kids: "childrenSaved considerLoop m cs 0 = Inr (of_nat (sum_list (map (bestSaved P w) cs)))"
    using childrenSaved_sum [of cs considerLoop P m w 0] c(2) ch m
    by (auto simp: n saved_ok_def)
  have "sum_list (map (bestSaved P w) cs) < 2 ^ 64" "w l < 2 ^ 64"
    using fit sum_bestSaved_le [of P w cs] by (auto simp: fits_def n)
  then have "max (of_nat (sum_list (map (bestSaved P w) cs))) (of_nat (w l)) =
      (of_nat (bestSaved P w n) :: u64)"
    using True n by (simp add: max_of_nat_u64)
  then have "visitSavings timeSaved considerLoop n m = Inr (m(l \<mapsto> of_nat (bestSaved P w n)))"
    using True c(1) w kids by (simp add: visitSavings_def n)
  moreover have "saved_ok P w (us @ [n]) (m(l \<mapsto> of_nat (bestSaved P w n)))"
  proof -
    have "getLoop ` {u \<in> set (us @ [n]). P (getLoop u)} =
        insert l (getLoop ` {u \<in> set us. P (getLoop u)})"
    proof -
      have "{u \<in> set (us @ [n]). P (getLoop u)} = insert n {u \<in> set us. P (getLoop u)}"
        using True by auto
      then show ?thesis by (simp add: n)
    qed
    then show ?thesis using m new n by (auto simp: saved_ok_def)
  qed
  ultimately show ?thesis by blast
qed

context post_order
begin

lemma visit_all_ok:
  assumes c: "\<forall>l \<in> set (loops t). considerLoop l = Inr (P l)"
    and w: "\<forall>l \<in> set (loops t). timeSaved l = Some (of_nat (w l))"
    and fit: "fits w t" and dist: "distinct (loops t)" and k: "k \<le> length (visit t)"
  shows "\<exists>m. visitAll (visitSavings timeSaved considerLoop) (take k (visit t)) Map.empty = Inr m \<and>
     saved_ok P w (take k (visit t)) m"
  using k
proof (induction k)
  case 0
  show ?case by (simp add: saved_ok_def)
next
  case (Suc k)
  then obtain m where m: "visitAll (visitSavings timeSaved considerLoop) (take k (visit t)) Map.empty = Inr m"
    "saved_ok P w (take k (visit t)) m" by auto
  let ?n = "visit t ! k"
  have k: "k < length (visit t)" using Suc.prems by simp
  have nodes: "set (visit t) = set (subtrees t)" using visit_nodes by (rule mset_eq_setD)
  then have n: "?n \<in> set (subtrees t)" using k nth_mem by blast
  have in_loops: "getLoop u \<in> set (loops t)" if "u \<in> set (subtrees t)" for u
    using that by (simp add: loops_subtrees)
  have "mset (map getLoop (visit t)) = mset (loops t)"
    unfolding loops_subtrees by (simp add: visit_nodes)
  then have "distinct (map getLoop (visit t))" using dist by (metis mset_eq_imp_distinct_iff)
  then have "map getLoop (visit t) ! k \<notin> set (take k (map getLoop (visit t)))"
    by (rule distinct_nth_take) (simp add: k)
  then have new: "getLoop ?n \<notin> getLoop ` set (take k (visit t))"
    using k by (simp add: take_map)
  have kids: "set (getChildren ?n) \<subseteq> set (take k (visit t))"
    using visit_children [of t] k by (auto simp: children_first_def)
  have "\<forall>u \<in> set (getChildren ?n). considerLoop (getLoop u) = Inr (P (getLoop u))"
    using c in_loops subtrees_trans [OF n child_subtree] by blast
  from visitSavings_step [OF m(2) _ this kids _ fits_subtree [OF fit n] new]
  obtain m' where "visitSavings timeSaved considerLoop ?n m = Inr m'"
    "saved_ok P w (take k (visit t) @ [?n]) m'"
    using c w in_loops [OF n] by blast
  with m(1) k show ?case by (auto simp: take_Suc_conv_app_nth visitAll_append)
qed

lemma evaluateSavingsFor_best:
  assumes "\<forall>l \<in> set (loops t). considerLoop l = Inr (P l)"
    and "\<forall>l \<in> set (loops t). timeSaved l = Some (of_nat (w l))"
    and "fits w t" and "distinct (loops t)"
  shows "evaluateSavingsFor visit t timeSaved considerLoop = Inr (of_nat (bestSaved P w t))"
proof -
  obtain m where m: "visitAll (visitSavings timeSaved considerLoop) (visit t) Map.empty = Inr m"
    "saved_ok P w (visit t) m"
    using visit_all_ok [OF assms order_refl] by auto
  have t: "t \<in> set (visit t)" using mset_eq_setD [OF visit_nodes [of t]] by simp
  have "savedAt m (getLoop t) = of_nat (bestSaved P w t)"
  proof (cases "P (getLoop t)")
    case True
    with m(2) t show ?thesis by (simp add: savedAt_def saved_ok_def)
  next
    case False
    then have "getLoop t \<notin> dom m" using m(2) by (auto simp: saved_ok_def)
    moreover have "bestSaved P w t = 0" using False by (cases t) simp
    ultimately show ?thesis by (simp add: savedAt_def domIff)
  qed
  with m(1) show ?thesis by (simp add: evaluateSavingsFor_def)
qed

end

section \<open>The best choice of loops\<close>

text \<open>Every set of unnested loops saves at most \<open>bestSaved\<close>, and one of them saves that much.\<close>

lemma independent_child:
  assumes "unnested (LoopTree l cs) S" and "c \<in> set cs"
  shows "unnested c (S \<inter> set (loops c))"
proof -
  have "nested c \<subseteq> nested (LoopTree l cs)" using assms(2) by auto
  with assms(1) show ?thesis unfolding unnested_def by blast
qed

lemma children_apart:
  assumes "distinct (loops (LoopTree l cs))" and "c \<in> set cs" "d \<in> set cs"
    and "x \<in> set (loops c)" "x \<in> set (loops d)"
  shows "c = d"
proof (rule ccontr)
  assume "c \<noteq> d"
  with assms(2,3) obtain as bs ds where "cs = as @ c # bs @ d # ds \<or> cs = as @ d # bs @ c # ds"
    by (metis append_Cons append_assoc in_set_conv_decomp_first set_ConsD split_list
        in_set_conv_decomp Un_iff set_append)
  with assms(1,4,5) show False by auto
qed

lemma sum_children:
  assumes "distinct (concat (map loops cs))" and "S \<subseteq> set (concat (map loops cs))"
  shows "sum w S = sum_list (map (\<lambda>c. sum w (S \<inter> set (loops c))) cs)"
  using assms
proof (induction cs arbitrary: S)
  case (Cons c cs)
  let ?A = "set (loops c)" and ?B = "set (concat (map loops cs))"
  have fin: "finite S" using Cons.prems(2) by (rule finite_subset) simp
  have disj: "?A \<inter> ?B = {}" using Cons.prems(1) by auto
  have "S = (S \<inter> ?A) \<union> (S \<inter> ?B)" using Cons.prems(2) by auto
  then have "sum w S = sum w (S \<inter> ?A) + sum w (S \<inter> ?B)"
    using fin disj by (metis (no_types, lifting) Int_assoc Int_empty_right Int_left_commute
        finite_Int sum.union_disjoint)
  also have "sum w (S \<inter> ?B) = sum_list (map (\<lambda>d. sum w ((S \<inter> ?B) \<inter> set (loops d))) cs)"
    using Cons.prems(1) by (intro Cons.IH) auto
  also have "map (\<lambda>d. sum w ((S \<inter> ?B) \<inter> set (loops d))) cs = map (\<lambda>d. sum w (S \<inter> set (loops d))) cs"
    by (rule map_cong [OF refl], rule arg_cong [of _ _ "sum w"]) auto
  finally show ?case by simp
qed simp

lemma independent_le_best:
  assumes "unnested t S" and "distinct (loops t)"
  shows "sum w S \<le> bestSaved (\<lambda>_. True) w t"
  using assms
proof (induction t arbitrary: S)
  case (LoopTree l cs)
  show ?case
  proof (cases "l \<in> S")
    case True
    with LoopTree.prems(1) have "S = {l}" by (auto simp: unnested_def)
    then show ?thesis by simp
  next
    case False
    then have sub: "S \<subseteq> set (concat (map loops cs))"
      using LoopTree.prems(1) by (auto simp: unnested_def)
    have "sum w S = sum_list (map (\<lambda>c. sum w (S \<inter> set (loops c))) cs)"
      using LoopTree.prems(2) sub by (intro sum_children) auto
    also have "\<dots> \<le> sum_list (map (bestSaved (\<lambda>_. True) w) cs)"
    proof (rule sum_list_mono)
      fix c assume c: "c \<in> set cs"
      have "distinct (loops c)"
        using LoopTree.prems(2) c by (simp add: distinct_concat_iff)
      then show "sum w (S \<inter> set (loops c)) \<le> bestSaved (\<lambda>_. True) w c"
        by (intro LoopTree.IH [OF c independent_child [OF LoopTree.prems(1) c]])
    qed
    finally show ?thesis by simp
  qed
qed

lemma independent_Union:
  assumes "\<forall>c \<in> set cs. unnested c (f c)" and "distinct (loops (LoopTree l cs))"
    and "distinct cs"
  shows "unnested (LoopTree l cs) (\<Union>c \<in> set cs. f c)"
proof -
  have sub: "f c \<subseteq> set (loops c)" if "c \<in> set cs" for c
    using assms(1) that by (simp add: unnested_def)
  note apart = children_apart [OF assms(2)]
  have "\<not> (a \<in> (\<Union>c \<in> set cs. f c) \<and> b \<in> (\<Union>c \<in> set cs. f c))"
    if ab: "(a, b) \<in> nested (LoopTree l cs)" for a b
  proof
    assume in_f: "a \<in> (\<Union>c \<in> set cs. f c) \<and> b \<in> (\<Union>c \<in> set cs. f c)"
    then have "a \<noteq> l" using sub assms(2) by auto
    with ab obtain c where c: "c \<in> set cs" "(a, b) \<in> nested c" by auto
    with nested_in_loops have "a \<in> set (loops c)" "b \<in> set (loops c)" by fast+
    with in_f apart c(1) sub have "a \<in> f c" "b \<in> f c" by blast+
    with assms(1) c show False by (auto simp: unnested_def)
  qed
  moreover have "(\<Union>c \<in> set cs. f c) \<subseteq> set (loops (LoopTree l cs))" using sub by auto
  ultimately show ?thesis unfolding unnested_def by blast
qed

lemma distinct_children: "distinct (loops (LoopTree l cs)) \<Longrightarrow> distinct cs"
proof -
  assume "distinct (loops (LoopTree l cs))"
  then have "distinct (concat (map loops cs))" by simp
  then show "distinct cs"
  proof (induction cs)
    case (Cons c cs)
    then have "set (loops c) \<inter> (\<Union>d \<in> set cs. set (loops d)) = {}" by simp
    then have "getLoop c \<notin> (\<Union>d \<in> set cs. set (loops d))" using getLoop_in_loops [of c] by blast
    then have "c \<notin> set cs" using getLoop_in_loops by blast
    with Cons show ?case by simp
  qed simp
qed

lemma best_is_independent:
  assumes "distinct (loops t)"
  shows "\<exists>S. unnested t S \<and> sum w S = bestSaved (\<lambda>_. True) w t"
  using assms
proof (induction t)
  case (LoopTree l cs)
  have dc: "distinct (loops c)" if "c \<in> set cs" for c
    using LoopTree.prems that by (simp add: distinct_concat_iff)
  have "\<forall>c \<in> set cs. \<exists>S. unnested c S \<and> sum w S = bestSaved (\<lambda>_. True) w c"
    using LoopTree.IH dc by blast
  then obtain f where f: "\<forall>c \<in> set cs. unnested c (f c) \<and> sum w (f c) = bestSaved (\<lambda>_. True) w c"
    by metis
  let ?U = "\<Union>c \<in> set cs. f c"
  have ind: "unnested (LoopTree l cs) ?U"
    using independent_Union [OF _ LoopTree.prems distinct_children [OF LoopTree.prems]] f by blast
  have sub: "?U \<subseteq> set (concat (map loops cs))" using f by (fastforce simp: unnested_def)
  have part: "?U \<inter> set (loops c) = f c" if c: "c \<in> set cs" for c
  proof -
    have "x \<in> f c" if "x \<in> f d" "d \<in> set cs" "x \<in> set (loops c)" for x d
    proof -
      have "x \<in> set (loops d)" using f that unfolding unnested_def by blast
      with children_apart [OF LoopTree.prems that(2) c] that have "d = c" by blast
      with that show ?thesis by simp
    qed
    moreover have "f c \<subseteq> set (loops c)" using f c by (simp add: unnested_def)
    ultimately show ?thesis using c by blast
  qed
  have "sum w ?U = sum_list (map (\<lambda>c. sum w (?U \<inter> set (loops c))) cs)"
    using LoopTree.prems sub by (intro sum_children) auto
  also have "\<dots> = sum_list (map (bestSaved (\<lambda>_. True) w) cs)"
    using part f by (intro arg_cong [of _ _ sum_list] map_cong) auto
  finally have U: "sum w ?U = sum_list (map (bestSaved (\<lambda>_. True) w) cs)" .
  have one: "unnested (LoopTree l cs) {l}"
    using LoopTree.prems by (auto simp: unnested_def dest: nested_in_loops)
  show ?case
  proof (cases "sum_list (map (bestSaved (\<lambda>_. True) w) cs) \<le> w l")
    case True
    then have "sum w {l} = bestSaved (\<lambda>_. True) w (LoopTree l cs)" by simp
    with one show ?thesis by blast
  next
    case False
    then have "sum w ?U = bestSaved (\<lambda>_. True) w (LoopTree l cs)" using U by simp
    with ind show ?thesis by blast
  qed
qed

section \<open>Properties\<close>

lemma evaluateSavings_value:
  assumes "post_order visit" and "distinct (loops t)" and "fits w t"
    and "\<forall>l \<in> set (loops t). timeSaved l = Some (of_nat (w l)) \<and> doallLoops l = Some (d l)"
  shows "evaluateSavings visit t timeSaved doallLoops =
    Inr (of_nat (bestSaved (\<lambda>_. True) w t), of_nat (bestSaved d w t))"
proof -
  have "evaluateSavingsFor visit t timeSaved considerAll =
      Inr (of_nat (bestSaved (\<lambda>_. True) w t))"
    using assms by (intro post_order.evaluateSavingsFor_best) (auto simp: considerAll_def)
  moreover have "evaluateSavingsFor visit t timeSaved (considerDOALLOnly doallLoops) =
      Inr (of_nat (bestSaved d w t))"
    using assms by (intro post_order.evaluateSavingsFor_best) (auto simp: considerDOALLOnly_def)
  ultimately show ?thesis by (simp add: evaluateSavings_def)
qed

text \<open>
  C27: if the savings of the loops of a tree do not overflow together, \<open>evaluateSavings\<close> finds the
  best combination: its first result is the sum of the savings of some set of loops none of which
  is nested in another, and no such set saves more.
\<close>

theorem evaluateSavings_optimal:
  assumes "post_order visit" and "distinct (loops t)" and "sum_list (map w (loops t)) < 2 ^ 64"
    and "\<forall>l \<in> set (loops t). timeSaved l = Some (of_nat (w l)) \<and> doallLoops l = Some (d l)"
  shows "\<exists>best doall. evaluateSavings visit t timeSaved doallLoops = Inr (of_nat best, doall) \<and>
    (\<exists>S. unnested t S \<and> sum w S = best) \<and> (\<forall>S. unnested t S \<longrightarrow> sum w S \<le> best)"
  using evaluateSavings_value [OF assms(1,2) _ assms(4)] assms(2,3)
    best_is_independent [OF assms(2), of w] independent_le_best [OF _ assms(2), of _ w]
  by (auto simp: fits_def)

definition two_loops :: "nat loop_tree" where
  "two_loops = LoopTree 0 [LoopTree 1 [], LoopTree 2 []]"

theorem evaluateSavings_optimal_witness:
  "\<exists>best doall. evaluateSavings postorder two_loops [0 \<mapsto> 5, 1 \<mapsto> 4, 2 \<mapsto> 3]
       [0 \<mapsto> True, 1 \<mapsto> True, 2 \<mapsto> False] = Inr (of_nat best, doall) \<and>
     (\<exists>S. unnested two_loops S \<and> sum (\<lambda>l. 5 - l) S = best)"
proof -
  have v: "\<forall>l \<in> set (loops two_loops). [0 \<mapsto> 5, 1 \<mapsto> 4, 2 \<mapsto> 3] l = Some (of_nat (5 - l) :: u64) \<and>
      [0 \<mapsto> True, 1 \<mapsto> True, 2 \<mapsto> False] l = Some (l < 2)"
    by (simp add: two_loops_def)
  have d: "distinct (loops two_loops)" and s: "sum_list (map (\<lambda>l. 5 - l) (loops two_loops)) < 2 ^ 64"
    by (simp_all add: two_loops_def)
  from evaluateSavings_optimal [OF post.post_order_axioms d s v] show ?thesis by blast
qed

text \<open>
  The second result is not the best that DOALL loops alone can save, as its comment says: a
  loop that is not DOALL hides the DOALL loops nested in it. Here the inner loop is DOALL and saves
  7 by itself, but the result is 0.
\<close>

theorem evaluateSavings_doall_hidden:
  "evaluateSavings postorder (LoopTree 0 [LoopTree (1 :: nat) []])
       [0 \<mapsto> 5, 1 \<mapsto> 7] [0 \<mapsto> False, 1 \<mapsto> True] = Inr (7, 0) \<and>
     unnested (LoopTree 0 [LoopTree 1 []]) {1 :: nat}"
proof -
  let ?t = "LoopTree 0 [LoopTree (1 :: nat) []]" and ?w = "\<lambda>l :: nat. if l = 0 then 5 else 7 :: nat"
  have "evaluateSavings postorder ?t [0 \<mapsto> 5, 1 \<mapsto> 7] [0 \<mapsto> False, 1 \<mapsto> True] =
     Inr (of_nat (bestSaved (\<lambda>_. True) ?w ?t), of_nat (bestSaved (\<lambda>l. l = 1) ?w ?t))"
    by (intro evaluateSavings_value post.post_order_axioms) (auto simp: fits_def)
  then show ?thesis by (simp add: unnested_def)
qed

end
