(* ===== verification/Cpp_Double.thy ===== *)
theory Cpp_Double
  imports Gino_Prelude "HOL-Library.Log_Nat"
begin

text \<open>
  The type \<open>double\<close> of C++ as the planner and the heuristics use it: IEEE 754 binary64 values, each
  operation rounding the exact result to the nearest value, ties to even. The two zeros are one
  value here: the sources never divide by a result that could be a negative zero.
\<close>

section \<open>Powers of two and the binary exponent\<close>

definition pow2q :: "int \<Rightarrow> rat" where
  "pow2q k = (if 0 \<le> k then 2 ^ nat k else 1 / 2 ^ nat (- k))"

lemma pow2q_pos [simp]: "0 < pow2q k"
  by (simp add: pow2q_def)

lemma pow2q_nonzero [simp]: "pow2q k \<noteq> 0"
  using pow2q_pos [of k] by linarith

lemma pow2q_0 [simp]: "pow2q 0 = 1"
  by (simp add: pow2q_def)

lemma pow2q_of_nat: "pow2q (int n) = 2 ^ n"
  by (simp add: pow2q_def)

lemma pow2q_powr: "pow2q k = 2 powi k"
  by (simp add: pow2q_def power_int_def power_inverse inverse_eq_divide power_divide)

lemma pow2q_add: "pow2q (j + k) = pow2q j * pow2q k"
  by (simp add: pow2q_powr power_int_add)

lemma pow2q_diff: "pow2q (j - k) = pow2q j / pow2q k"
  by (simp add: pow2q_powr power_int_diff)

lemma pow2q_mono: "j \<le> k \<Longrightarrow> pow2q j \<le> pow2q k"
  by (simp add: pow2q_powr power_int_increasing)

lemma pow2q_mult_nat: "pow2q k * 2 ^ n = pow2q (k + int n)"
  by (simp add: pow2q_add pow2q_of_nat)

text \<open>The exponent \<open>k\<close> with \<open>2^k \<le> x < 2^(k+1)\<close> of a positive rational.\<close>

definition binary_exponent :: "rat \<Rightarrow> int" where
  "binary_exponent x =
     (let (n, d) = quotient_of x; k = bitlen n - bitlen d
      in if pow2q k \<le> x then k else k - 1)"

lemma bitlen_pow2q: "0 < n \<Longrightarrow> pow2q (bitlen n - 1) \<le> of_int n \<and> of_int n < pow2q (bitlen n)"
proof -
  assume n: "0 < n"
  have b: "1 \<le> bitlen n" using n bitlen_eq_zero_iff [of n] bitlen_nonneg [of n] by linarith
  note bb = bitlen_bounds [OF n]
  have "pow2q (bitlen n - 1) = of_int (2 ^ nat (bitlen n - 1))"
    "pow2q (bitlen n) = of_int (2 ^ nat (bitlen n))"
    using b by (simp_all add: pow2q_def)
  with bb show ?thesis by (simp only: of_int_le_iff of_int_less_iff)
qed

lemma binary_exponent_bounds:
  assumes x: "0 < x"
  shows "pow2q (binary_exponent x) \<le> x" and "x < pow2q (binary_exponent x + 1)"
proof -
  obtain n d where q: "quotient_of x = (n, d)" by fastforce
  have d: "0 < d" and xe: "x = of_int n / of_int d"
    using quotient_of_denom_pos [OF q] quotient_of_div [OF q] by auto
  have n: "0 < n" using x d by (simp add: xe zero_less_divide_iff)
  let ?k = "bitlen n - bitlen d"
  have "of_int n < pow2q (bitlen n)" "pow2q (bitlen d - 1) \<le> of_int d"
    "pow2q (bitlen n - 1) \<le> of_int n" "of_int d < pow2q (bitlen d)"
    using bitlen_pow2q n d by auto
  note b = this
  have up: "x < pow2q (bitlen n - (bitlen d - 1))"
    unfolding xe pow2q_diff [of "bitlen n" "bitlen d - 1"]
    by (rule frac_less) (use b n in auto)
  have lo: "pow2q (bitlen n - 1 - bitlen d) < x"
    unfolding xe pow2q_diff [of "bitlen n - 1" "bitlen d"]
    by (rule frac_less2) (use b d in auto)
  have e: "bitlen n - (bitlen d - 1) = ?k + 1" "bitlen n - 1 - bitlen d = ?k - 1" by auto
  show "pow2q (binary_exponent x) \<le> x" "x < pow2q (binary_exponent x + 1)"
    using up lo unfolding e binary_exponent_def Let_def q
    by (auto simp: not_le less_imp_le)
qed

lemma binary_exponent_less:
  assumes "0 < x" and "binary_exponent x < k"
  shows "x < pow2q k"
proof -
  have "x < pow2q (binary_exponent x + 1)" by (rule binary_exponent_bounds(2) [OF assms(1)])
  also have "\<dots> \<le> pow2q k" by (rule pow2q_mono) (use assms(2) in simp)
  finally show ?thesis .
qed

lemma binary_exponent_mono:
  assumes "0 < x" and "x \<le> y"
  shows "binary_exponent x \<le> binary_exponent y"
proof (rule ccontr)
  assume "\<not> binary_exponent x \<le> binary_exponent y"
  then have "y < pow2q (binary_exponent x)"
    by (intro binary_exponent_less) (use assms in auto)
  with binary_exponent_bounds(1) [OF assms(1)] assms(2) show False by simp
qed

section \<open>Rounding\<close>

text \<open>To the nearest integer, ties to even.\<close>

definition round_even :: "rat \<Rightarrow> int" where
  "round_even x =
     (let f = \<lfloor>x\<rfloor>; r = x - of_int f
      in if r < 1 / 2 then f else if 1 / 2 < r then f + 1 else if even f then f else f + 1)"

lemma round_even_of_int [simp]: "round_even (of_int k) = k"
  by (simp add: round_even_def)

lemma round_even_bounds: "\<lfloor>x\<rfloor> \<le> round_even x" "round_even x \<le> \<lfloor>x\<rfloor> + 1"
  by (auto simp: round_even_def Let_def)

lemma round_even_mono:
  assumes "x \<le> y"
  shows "round_even x \<le> round_even y"
proof (cases "\<lfloor>x\<rfloor> = \<lfloor>y\<rfloor>")
  case True
  with assms show ?thesis by (auto simp: round_even_def Let_def)
next
  case False
  with assms have "\<lfloor>x\<rfloor> < \<lfloor>y\<rfloor>" using floor_mono [OF assms] by simp
  with round_even_bounds [of x] round_even_bounds [of y] show ?thesis by linarith
qed

datatype double = Finite rat | PInf | NInf | NaN

text \<open>The unit in the last place of a positive rational: 53 bits, down to the subnormals.\<close>

definition ulp :: "rat \<Rightarrow> rat" where
  "ulp x = pow2q (max (-1074) (binary_exponent x - 52))"

definition round_pos :: "rat \<Rightarrow> rat" where
  "round_pos x = of_int (round_even (x / ulp x)) * ulp x"

definition round_double :: "rat \<Rightarrow> double" where
  "round_double x =
     (if x = 0 then Finite 0
      else if 0 < x then (if round_pos x < pow2q 1024 then Finite (round_pos x) else PInf)
      else (if round_pos (- x) < pow2q 1024 then Finite (- round_pos (- x)) else NInf))"

lemma ulp_pos [simp]: "0 < ulp x"
  by (simp add: ulp_def)

lemma round_pos_nonneg: "0 < x \<Longrightarrow> 0 \<le> round_pos x"
proof -
  assume "0 < x"
  then have "0 \<le> \<lfloor>x / ulp x\<rfloor>" by (simp add: less_imp_le)
  with round_even_bounds(1) [of "x / ulp x"] have "0 \<le> round_even (x / ulp x)" by linarith
  then show ?thesis by (simp add: round_pos_def less_imp_le)
qed

lemma round_even_scaled_le:
  assumes "x \<le> of_int k * u" and "0 < u"
  shows "of_int (round_even (x / u)) * u \<le> of_int k * u"
proof -
  have "x / u \<le> of_int k" using assms by (simp add: divide_le_eq)
  from round_even_mono [OF this] have "round_even (x / u) \<le> k" by simp
  with assms(2) show ?thesis by simp
qed

lemma round_even_scaled_ge:
  assumes "of_int k * u \<le> x" and "0 < u"
  shows "of_int k * u \<le> of_int (round_even (x / u)) * u"
proof -
  have "of_int k \<le> x / u" using assms by (simp add: le_divide_eq)
  from round_even_mono [OF this] have "k \<le> round_even (x / u)" by simp
  with assms(2) show ?thesis by simp
qed

text \<open>A power of two that is not below the unit is a multiple of it.\<close>

lemma pow2q_multiple: "j \<le> k \<Longrightarrow> pow2q k = of_int (2 ^ nat (k - j)) * pow2q j"
  using pow2q_add [of "k - j" j] by (simp add: pow2q_def [of "k - j"])

lemma round_pos_mono:
  assumes "0 < x" and "x \<le> y"
  shows "round_pos x \<le> round_pos y"
proof (cases "ulp x = ulp y")
  case True
  then show ?thesis
    using assms round_even_mono [of "x / ulp y" "y / ulp y"]
    by (simp add: round_pos_def divide_right_mono less_imp_le)
next
  case False
  let ?b = "binary_exponent y"
  have lt: "binary_exponent x < ?b" and b: "-1074 < ?b - 52"
  proof -
    have "max (-1074) (binary_exponent x - 52) \<noteq> max (-1074) (?b - 52)"
      using False unfolding ulp_def by metis
    with binary_exponent_mono [OF assms] show "binary_exponent x < ?b" "-1074 < ?b - 52"
      by linarith+
  qed
  have "max (-1074) (binary_exponent x - 52) \<le> ?b" "max (-1074) (?b - 52) \<le> ?b"
    using lt b by auto
  from pow2q_multiple [OF this(1)] pow2q_multiple [OF this(2)]
  obtain k k' where k: "pow2q ?b = of_int k * ulp x" "pow2q ?b = of_int k' * ulp y"
    unfolding ulp_def by blast
  have "x \<le> pow2q ?b" using binary_exponent_less [OF assms(1) lt] by simp
  then have "round_pos x \<le> pow2q ?b"
    unfolding round_pos_def k(1) by (rule round_even_scaled_le) simp
  moreover have "pow2q ?b \<le> y" using binary_exponent_bounds(1) assms by simp
  then have "pow2q ?b \<le> round_pos y"
    unfolding round_pos_def k(2) by (rule round_even_scaled_ge) simp
  ultimately show ?thesis by simp
qed

lemma round_pos_int:
  assumes "0 < x" and "x = of_int m" and "m < 2 ^ 53"
  shows "round_pos x = x"
proof -
  have "x < pow2q 53" using assms by (simp add: pow2q_def)
  have e: "binary_exponent x < 53"
  proof (rule ccontr)
    assume "\<not> binary_exponent x < 53"
    then have "pow2q 53 \<le> pow2q (binary_exponent x)" by (intro pow2q_mono) simp
    with binary_exponent_bounds(1) [OF assms(1)] \<open>x < pow2q 53\<close> show False by simp
  qed
  let ?q = "max (-1074) (binary_exponent x - 52)"
  have "x / pow2q ?q = x * pow2q (- ?q)" using pow2q_diff [of 0 ?q] by simp
  also have "\<dots> = of_int (m * 2 ^ nat (- ?q))" using e assms(2) by (simp add: pow2q_def)
  finally have "x / ulp x = of_int (m * 2 ^ nat (- ?q))" by (simp only: ulp_def)
  then have "of_int (round_even (x / ulp x)) = x / ulp x" by (simp only: round_even_of_int)
  moreover have "ulp x \<noteq> 0" using ulp_pos [of x] by linarith
  ultimately show ?thesis unfolding round_pos_def by simp
qed

section \<open>Order, conversions and arithmetic\<close>

text \<open>Comparisons with \<open>NaN\<close> are false.\<close>

fun dless :: "double \<Rightarrow> double \<Rightarrow> bool" where
  "dless (Finite x) (Finite y) = (x < y)"
| "dless NInf (Finite y) = True"
| "dless NInf PInf = True"
| "dless (Finite x) PInf = True"
| "dless _ _ = False"

fun dle :: "double \<Rightarrow> double \<Rightarrow> bool" where
  "dle (Finite x) (Finite y) = (x \<le> y)"
| "dle NaN y = False"
| "dle x NaN = False"
| "dle NInf y = True"
| "dle x PInf = True"
| "dle _ _ = False"

text \<open>The conversions of integers and literals.\<close>

definition double_of_nat :: "nat \<Rightarrow> double" where
  "double_of_nat n = round_double (of_nat n)"

definition double_of_u64 :: "u64 \<Rightarrow> double" where
  "double_of_u64 w = double_of_nat (unat w)"

text \<open>
  The conversion to \<open>uint64_t\<close> drops the fraction; it is undefined for \<open>NaN\<close>, the infinities and
  values outside the range.
\<close>

fun u64_of_double :: "double \<Rightarrow> u64 result" where
  "u64_of_double (Finite x) =
     (if -1 < x \<and> x < 2 ^ 64 then Inr (of_nat (nat \<lfloor>x\<rfloor>)) else Inl UndefinedBehaviour)"
| "u64_of_double _ = Inl UndefinedBehaviour"

fun dneg :: "double \<Rightarrow> double" where
  "dneg (Finite x) = Finite (- x)"
| "dneg PInf = NInf"
| "dneg NInf = PInf"
| "dneg NaN = NaN"

fun dadd :: "double \<Rightarrow> double \<Rightarrow> double" where
  "dadd (Finite x) (Finite y) = round_double (x + y)"
| "dadd NaN y = NaN"
| "dadd x NaN = NaN"
| "dadd PInf NInf = NaN"
| "dadd NInf PInf = NaN"
| "dadd (Finite x) y = y"
| "dadd x y = x"

definition dsub :: "double \<Rightarrow> double \<Rightarrow> double" where
  "dsub x y = dadd x (dneg y)"

definition infinity :: "bool \<Rightarrow> double" where
  "infinity pos = (if pos then PInf else NInf)"

fun dpositive :: "double \<Rightarrow> bool" where
  "dpositive (Finite x) = (0 < x)"
| "dpositive PInf = True"
| "dpositive _ = False"

fun dmul :: "double \<Rightarrow> double \<Rightarrow> double" where
  "dmul NaN y = NaN"
| "dmul x NaN = NaN"
| "dmul (Finite x) (Finite y) = round_double (x * y)"
| "dmul (Finite x) y = (if x = 0 then NaN else infinity ((0 < x) = dpositive y))"
| "dmul x (Finite y) = (if y = 0 then NaN else infinity ((0 < y) = dpositive x))"
| "dmul x y = infinity (dpositive x = dpositive y)"

text \<open>A zero divisor counts as positive.\<close>

fun ddiv :: "double \<Rightarrow> double \<Rightarrow> double" where
  "ddiv NaN y = NaN"
| "ddiv x NaN = NaN"
| "ddiv (Finite x) (Finite y) =
     (if y = 0 then (if x = 0 then NaN else infinity (0 < x)) else round_double (x / y))"
| "ddiv (Finite x) y = Finite 0"
| "ddiv x (Finite y) = infinity (dpositive x = (0 \<le> y))"
| "ddiv x y = NaN"

section \<open>Laws\<close>

lemma round_double_nonneg:
  assumes "0 \<le> x"
  shows "round_double x = PInf \<or> (\<exists>y. round_double x = Finite y \<and> 0 \<le> y)"
  using assms round_pos_nonneg [of x] by (cases "x = 0") (auto simp: round_double_def)

lemma round_double_mono:
  assumes "0 \<le> x" and "x \<le> y"
  shows "dle (round_double x) (round_double y)"
proof (cases "x = 0")
  case True
  with round_double_nonneg [of y] assms show ?thesis by (auto simp: round_double_def)
next
  case False
  with assms have "round_pos x \<le> round_pos y" by (intro round_pos_mono) auto
  with False assms show ?thesis by (auto simp: round_double_def)
qed

lemma round_double_int:
  assumes "0 \<le> m" and "m < 2 ^ 53"
  shows "round_double (of_int m) = Finite (of_int m)"
proof (cases "m = 0")
  case True
  then show ?thesis by (simp add: round_double_def)
next
  case False
  with assms have "round_pos (of_int m) = of_int m" by (intro round_pos_int) auto
  moreover have "(of_int m :: rat) < pow2q 1024"
  proof -
    have "m < 2 ^ 1024" using assms(2) by (rule less_le_trans) simp
    then have "(of_int m :: rat) < of_int (2 ^ 1024)" by (simp only: of_int_less_iff)
    then show ?thesis by (simp add: pow2q_def)
  qed
  ultimately show ?thesis using False assms by (simp add: round_double_def)
qed

lemma double_of_nat_exact: "n < 2 ^ 53 \<Longrightarrow> double_of_nat n = Finite (of_nat n)"
  using round_double_int [of "int n"] by (simp add: double_of_nat_def)

lemma dle_dless_trans: "dle x y \<Longrightarrow> dless y z \<Longrightarrow> dless x z"
  by (cases x; cases y; cases z) auto

lemma dle_trans: "dle x y \<Longrightarrow> dle y z \<Longrightarrow> dle x z"
  by (cases x; cases y; cases z) auto

lemma dle_refl: "x \<noteq> NaN \<Longrightarrow> dle x x"
  by (cases x) auto

definition nonneg :: "double \<Rightarrow> bool" where
  "nonneg x \<longleftrightarrow> dle (Finite 0) x"

lemma nonneg_round: "0 \<le> x \<Longrightarrow> nonneg (round_double x)"
  using round_double_nonneg [of x] by (auto simp: nonneg_def)

lemma nonneg_of_nat [simp]: "nonneg (double_of_nat n)"
  unfolding double_of_nat_def by (rule nonneg_round) simp

lemma double_of_nat_mono: "m \<le> n \<Longrightarrow> dle (double_of_nat m) (double_of_nat n)"
  unfolding double_of_nat_def by (rule round_double_mono) simp_all

lemma nonneg_cases:
  assumes "nonneg x"
  obtains r where "x = Finite r" "0 \<le> r" | "x = PInf"
  using assms by (cases x) (auto simp: nonneg_def)

lemma ddiv_nonneg: "nonneg x \<Longrightarrow> 0 < c \<Longrightarrow> nonneg (ddiv x (Finite c))"
  by (erule nonneg_cases) (simp_all add: nonneg_round, simp add: nonneg_def infinity_def)

lemma dmul_nonneg: "nonneg x \<Longrightarrow> 0 < c \<Longrightarrow> nonneg (dmul x (Finite c))"
  by (erule nonneg_cases) (simp_all add: nonneg_round, simp add: nonneg_def infinity_def)

lemma dle_PInf: "nonneg x \<Longrightarrow> dle x PInf"
  by (cases x) (auto simp: nonneg_def)

lemma nonneg_dle: "nonneg x \<Longrightarrow> dle x y \<Longrightarrow> nonneg y"
  unfolding nonneg_def by (rule dle_trans)

lemma ddiv_mono:
  assumes x: "nonneg x" and le: "dle x y" and c: "0 < c"
  shows "dle (ddiv x (Finite c)) (ddiv y (Finite c))"
proof (rule nonneg_cases [OF nonneg_dle [OF x le]])
  fix s assume 1: "y = Finite s" "0 \<le> s"
  then obtain r where r: "x = Finite r" "0 \<le> r" using x le by (cases x) (auto simp: nonneg_def)
  then have "dle (round_double (r / c)) (round_double (s / c))"
    using 1 le c by (intro round_double_mono) (simp_all add: divide_right_mono)
  then show ?thesis using 1 r c by simp
next
  assume "y = PInf"
  then show ?thesis using dle_PInf [OF ddiv_nonneg [OF x c]] c by (simp add: infinity_def)
qed

lemma dmul_mono:
  assumes x: "nonneg x" and le: "dle x y" and c: "0 < c"
  shows "dle (dmul x (Finite c)) (dmul y (Finite c))"
proof (rule nonneg_cases [OF nonneg_dle [OF x le]])
  fix s assume 1: "y = Finite s" "0 \<le> s"
  then obtain r where r: "x = Finite r" "0 \<le> r" using x le by (cases x) (auto simp: nonneg_def)
  then have "dle (round_double (r * c)) (round_double (s * c))"
    using 1 le c by (intro round_double_mono) (simp_all add: mult_right_mono)
  then show ?thesis using 1 r c by simp
next
  assume "y = PInf"
  then show ?thesis using dle_PInf [OF dmul_nonneg [OF x c]] c by (simp add: infinity_def)
qed

text \<open>Rounding stays below a power of two, and at most doubles a number that is not tiny.\<close>

lemma ulp_exponent_le: "0 < x \<Longrightarrow> x \<le> pow2q k \<Longrightarrow> -1074 \<le> k \<Longrightarrow> max (-1074) (binary_exponent x - 52) \<le> k"
proof -
  assume x: "0 < x" "x \<le> pow2q k" and k: "-1074 \<le> k"
  have "binary_exponent x \<le> k"
  proof (rule ccontr)
    assume "\<not> binary_exponent x \<le> k"
    then have "pow2q (k + 1) \<le> pow2q (binary_exponent x)" by (intro pow2q_mono) simp
    also have "\<dots> \<le> pow2q k" using binary_exponent_bounds(1) [OF x(1)] x(2) by simp
    finally show False using pow2q_pos [of k] by (simp add: pow2q_add pow2q_def [of 1])
  qed
  with k show ?thesis by simp
qed

lemma round_pos_le_pow2:
  assumes "0 < x" and "x \<le> pow2q k" and "-1074 \<le> k"
  shows "round_pos x \<le> pow2q k"
proof -
  from pow2q_multiple [OF ulp_exponent_le [OF assms]] obtain m where m: "pow2q k = of_int m * ulp x"
    unfolding ulp_def by blast
  from assms(2) show ?thesis unfolding round_pos_def m by (rule round_even_scaled_le) simp
qed

lemma round_pos_double:
  assumes "0 < x" and "pow2q (-1000) \<le> x"
  shows "round_pos x \<le> 2 * x"
proof -
  let ?e = "binary_exponent x"
  have "-1074 \<le> ?e + 1"
  proof (rule ccontr)
    assume "\<not> -1074 \<le> ?e + 1"
    then have "x < pow2q (-1000)" by (intro binary_exponent_less assms(1)) simp
    with assms(2) show False by simp
  qed
  then have "round_pos x \<le> pow2q (?e + 1)"
    using binary_exponent_bounds(2) [OF assms(1)] by (intro round_pos_le_pow2 assms(1)) auto
  also have "\<dots> = 2 * pow2q ?e" by (simp add: pow2q_add pow2q_def [of 1])
  finally show ?thesis using binary_exponent_bounds(1) [OF assms(1)] by simp
qed

lemma round_double_finite:
  assumes "0 \<le> x" and "x \<le> pow2q k" and "0 \<le> k" "k < 1024"
  shows "\<exists>r. round_double x = Finite r \<and> 0 \<le> r \<and> r \<le> pow2q k"
proof (cases "x = 0")
  case True
  then show ?thesis by (simp add: round_double_def less_imp_le)
next
  case False
  with assms have x: "0 < x" and "round_pos x \<le> pow2q k" by (auto intro: round_pos_le_pow2)
  moreover have "pow2q k < pow2q 1024"
  proof -
    have "pow2q k < 2 * pow2q k" by simp
    also have "\<dots> = pow2q (k + 1)" by (simp add: pow2q_add pow2q_def [of 1])
    also have "\<dots> \<le> pow2q 1024" by (rule pow2q_mono) (use assms(4) in simp)
    finally show ?thesis .
  qed
  ultimately show ?thesis using round_pos_nonneg [OF x] by (auto simp: round_double_def)
qed

lemma double_of_u64_pos:
  assumes "w \<noteq> 0"
  shows "\<exists>r. double_of_u64 w = Finite r \<and> 1 \<le> r"
proof -
  have "unat w \<noteq> 0" using assms by (simp add: unat_eq_zero)
  have "unat w \<le> 2 ^ 64" using unsigned_less [of w, where 'a = nat] by simp
  then have "(of_nat (unat w) :: rat) \<le> of_nat (2 ^ 64)" by (simp only: of_nat_le_iff)
  then have "of_nat (unat w) \<le> pow2q 64" by (simp add: pow2q_def)
  from round_double_finite [OF of_nat_0_le_iff this] obtain r where r: "double_of_u64 w = Finite r"
    unfolding double_of_u64_def double_of_nat_def by auto
  have "dle (double_of_nat 1) (double_of_nat (unat w))"
    using \<open>unat w \<noteq> 0\<close> by (intro double_of_nat_mono) simp
  then have "1 \<le> r" using r double_of_nat_exact [of 1] unfolding double_of_u64_def by simp
  with r show ?thesis by blast
qed

end
