(* ===== verification/Std_Sort.thy ===== *)
theory Std_Sort
  imports Gino_Prelude
begin

text \<open>
  The interface of \<open>std::sort\<close>: for a strict weak order it permutes the range so that no element is
  less than an earlier one; which of two equivalent elements comes first is not specified.
\<close>

definition strict_weak :: "('a \<Rightarrow> 'a \<Rightarrow> bool) \<Rightarrow> bool" where
  "strict_weak lt \<longleftrightarrow>
     (\<forall>x. \<not> lt x x) \<and> (\<forall>x y z. lt x y \<longrightarrow> lt y z \<longrightarrow> lt x z) \<and>
     (\<forall>x y z. lt x z \<longrightarrow> lt x y \<or> lt y z)"

locale std_sort =
  fixes sort :: "('a \<Rightarrow> 'a \<Rightarrow> bool) \<Rightarrow> 'a list \<Rightarrow> 'a list"
  assumes sort_permutes: "strict_weak lt \<Longrightarrow> mset (sort lt xs) = mset xs"
    and sort_sorts: "strict_weak lt \<Longrightarrow> sorted_wrt (\<lambda>x y. \<not> lt y x) (sort lt xs)"
begin

lemma sort_set: "strict_weak lt \<Longrightarrow> set (sort lt xs) = set xs"
  using sort_permutes by (rule mset_eq_setD)

lemma sort_distinct: "strict_weak lt \<Longrightarrow> distinct (sort lt xs) = distinct xs"
  using sort_permutes by (rule mset_eq_imp_distinct_iff)

text \<open>A least element that is strictly below all the others comes first.\<close>

lemma sort_hd:
  assumes "strict_weak lt" and "x \<in> set xs" and "\<forall>y \<in> set xs. y \<noteq> x \<longrightarrow> lt x y"
  shows "hd (sort lt xs) = x"
proof -
  from assms(1,2) have "x \<in> set (sort lt xs)" by (simp add: sort_set)
  then obtain z zs where z: "sort lt xs = z # zs" by (cases "sort lt xs") auto
  with assms(1) have "z \<in> set xs" using sort_set by (metis list.set_intros(1))
  moreover have "z \<noteq> x \<Longrightarrow> x \<in> set zs" using \<open>x \<in> set (sort lt xs)\<close> z by simp
  ultimately show ?thesis using z assms(3) sort_sorts [OF assms(1), of xs] by auto
qed

end

text \<open>One sort that keeps the contract: insertion into a sorted list.\<close>

fun insert_by :: "('a \<Rightarrow> 'a \<Rightarrow> bool) \<Rightarrow> 'a \<Rightarrow> 'a list \<Rightarrow> 'a list" where
  "insert_by lt x [] = [x]"
| "insert_by lt x (y # ys) = (if lt y x then y # insert_by lt x ys else x # y # ys)"

definition insertion_sort :: "('a \<Rightarrow> 'a \<Rightarrow> bool) \<Rightarrow> 'a list \<Rightarrow> 'a list" where
  "insertion_sort lt xs = foldr (insert_by lt) xs []"

lemma insert_by_mset: "mset (insert_by lt x ys) = {#x#} + mset ys"
  by (induction ys) auto

lemma insert_by_set: "set (insert_by lt x ys) = insert x (set ys)"
  by (induction ys) auto

lemma insert_by_sorted:
  assumes w: "strict_weak lt" and "sorted_wrt (\<lambda>x y. \<not> lt y x) ys"
  shows "sorted_wrt (\<lambda>x y. \<not> lt y x) (insert_by lt x ys)"
  using assms(2)
proof (induction ys)
  case (Cons y ys)
  show ?case
  proof (cases "lt y x")
    case True
    then have "\<not> lt x y" using w unfolding strict_weak_def by blast
    with Cons True show ?thesis by (auto simp: insert_by_set)
  next
    case False
    have "\<not> lt z x" if "z \<in> set ys" for z
    proof
      assume "lt z x"
      then have "lt z y \<or> lt y x" using w unfolding strict_weak_def by blast
      with False that Cons.prems show False by auto
    qed
    with False Cons show ?thesis by auto
  qed
qed simp

lemma insertion_sort_mset: "mset (insertion_sort lt xs) = mset xs"
  by (induction xs) (simp_all add: insertion_sort_def insert_by_mset)

lemma insertion_sort_sorted:
  "strict_weak lt \<Longrightarrow> sorted_wrt (\<lambda>x y. \<not> lt y x) (insertion_sort lt xs)"
  by (induction xs) (simp_all add: insertion_sort_def insert_by_sorted)

interpretation insertion: std_sort insertion_sort
  by unfold_locales (simp_all add: insertion_sort_mset insertion_sort_sorted)

end
