(* ===== verification/Planner.thy ===== *)
theory Planner
  imports Loop_Savings Cpp_Double Cpp_Strings Std_Sort
begin

text \<open>
  The planner (\<open>parallelization_planner/src\<close>): which loops are worth parallelizing, how much time
  each one saves, and the order in which the parallelizer will try them.
\<close>

section \<open>What the planner is given\<close>

text \<open>
  The profile of the program (\<open>Hot\<close> of NOELLE) and the other services of NOELLE and of DOALL the
  planner asks: \<open>'l\<close> are loops, \<open>'s\<close> strongly connected components.
\<close>

record ('l, 's) hot =
  isAvailable :: bool
  hasBeenExecuted :: "'l \<Rightarrow> bool"
  getIterations :: "'l \<Rightarrow> u64"
  instsPerInvocation :: "'l \<Rightarrow> double"
  itersPerInvocation :: "'l \<Rightarrow> double"
  instsPerIteration :: "'l \<Rightarrow> double"
  coverage :: "'l \<Rightarrow> double"
  totalInsts :: u64
  totalInstsOf :: "'s \<Rightarrow> u64"

text \<open>
  \<open>sccsThatBlockDOALL\<close> and \<open>canDOALL\<close> are \<open>DOALL::getSCCsThatBlockDOALLToBeApplicable\<close> and
  \<open>DOALL::canBeAppliedToLoop\<close>; \<open>pointerOrder\<close> is the order in which a \<open>std::map\<close> keyed by the
  loops' addresses enumerates them.
\<close>

record ('l, 's) planner_env =
  profiles :: "('l, 's) hot"
  hasID :: "'l \<Rightarrow> bool"
  nestingLevel :: "'l \<Rightarrow> u32"
  sccsThatBlockDOALL :: "'l \<Rightarrow> 's list"
  canDOALL :: "'l \<Rightarrow> bool"
  pointerOrder :: "'l list \<Rightarrow> 'l list"
  visitPreOrder :: "'l loop_tree \<Rightarrow> 'l list"
  visitPostOrder :: "'l loop_tree \<Rightarrow> 'l loop_tree list"
  stdSort :: "('l \<Rightarrow> 'l \<Rightarrow> bool) \<Rightarrow> 'l list \<Rightarrow> 'l list"
  filterOutLoops :: "('l \<Rightarrow> bool) \<Rightarrow> 'l loop_tree list \<Rightarrow> 'l loop_tree list"

section \<open>Loops not worth parallelizing\<close>

text \<open>The lambda \<open>filter\<close>: \<open>True\<close> removes the loop.\<close>

definition notWorth :: "('l, 's) planner_env \<Rightarrow> 'l \<Rightarrow> bool result" where
  "notWorth E ls =
     (if \<not> hasID E ls then Inl AssertionFailed
      else if getIterations (profiles E) ls = 0 then Inr True
      else if dless (instsPerInvocation (profiles E) ls) (double_of_nat 2000) then Inr True
      else if dless (itersPerInvocation (profiles E) ls) (double_of_nat 12) then Inr True
      else let hotness = dmul (coverage (profiles E) ls) (double_of_nat 100) in
        if dless hotness (Finite 0) then Inr True
        else Inr False)"

definition removeLoopsNotWorthParallelizing ::
    "bool \<Rightarrow> ('l, 's) planner_env \<Rightarrow> 'l loop_tree list \<Rightarrow> 'l loop_tree list result" where
  "removeLoopsNotWorthParallelizing force E forest =
     (if force then Inr forest
      else if \<exists>ls \<in> set (concat (map loops forest)). \<not> hasID E ls then Inl AssertionFailed
      else Inr (filterOutLoops E (\<lambda>ls. notWorth E ls = Inr True) forest))"

section \<open>The timing model\<close>

definition getTimeSpentInCriticalPathPerIteration :: "('l, 's) planner_env \<Rightarrow> 'l \<Rightarrow> u64" where
  "getTimeSpentInCriticalPathPerIteration E ls =
     (if \<not> isAvailable (profiles E) then 0
      else foldl (\<lambda>biggest scc. if totalInstsOf (profiles E) scc > biggest
                                 then totalInstsOf (profiles E) scc else biggest)
             0 (sccsThatBlockDOALL E ls))"

text \<open>The arithmetic of \<open>getTimeSavedByParallelizingLoop\<close>.\<close>

definition timeSavedFormula :: "double \<Rightarrow> u64 \<Rightarrow> u64 \<Rightarrow> u64 result" where
  "timeSavedFormula perIteration seq iterations =
     (let biggest = (if perIteration \<noteq> Finite 0
                     then ddiv (double_of_u64 seq) (double_of_u64 iterations) else Finite 0)
      in if \<not> dle biggest perIteration then Inl AssertionFailed
         else u64_of_double (dmul (dsub perIteration biggest) (double_of_u64 iterations)))"

definition getTimeSavedByParallelizingLoop :: "('l, 's) planner_env \<Rightarrow> 'l \<Rightarrow> u64 result" where
  "getTimeSavedByParallelizingLoop E ls =
     (if \<not> hasBeenExecuted (profiles E) ls then Inr 0
      else timeSavedFormula (instsPerIteration (profiles E) ls)
             (getTimeSpentInCriticalPathPerIteration E ls) (getIterations (profiles E) ls))"

section \<open>The order of the loops of one tree\<close>

text \<open>The maps \<open>timeSavedLoops\<close> and \<open>doallLoops\<close>, filled in by the pre-order visit.\<close>

fun savingsOfLoops ::
    "('l, 's) planner_env \<Rightarrow> 'l list \<Rightarrow> ('l \<rightharpoonup> u64) \<times> ('l \<rightharpoonup> bool) \<Rightarrow>
     (('l \<rightharpoonup> u64) \<times> ('l \<rightharpoonup> bool)) result" where
  "savingsOfLoops E [] (t, d) = Inr (t, d)"
| "savingsOfLoops E (ls # lss) (t, d) =
     (case getTimeSavedByParallelizingLoop E ls of
        Inl e \<Rightarrow> Inl e
      | Inr saved \<Rightarrow> savingsOfLoops E lss (t(ls \<mapsto> saved), d(ls \<mapsto> canDOALL E ls)))"

definition savedTimeTotal :: "u64 \<Rightarrow> u64 \<Rightarrow> double" where
  "savedTimeTotal saved tot =
     dmul (ddiv (double_of_u64 saved) (double_of_u64 tot)) (double_of_nat 100)"

text \<open>The filtering loop over the map.\<close>

fun selectLoops ::
    "bool \<Rightarrow> ('l, 's) planner_env \<Rightarrow> ('l \<rightharpoonup> u64) \<Rightarrow> 'l list \<Rightarrow> 'l list result" where
  "selectLoops force E t [] = Inr []"
| "selectLoops force E t (ls # lss) =
     (if \<not> hasID E ls then Inl AssertionFailed
      else case selectLoops force E t lss of
             Inl e \<Rightarrow> Inl e
           | Inr rest \<Rightarrow>
               if \<not> force \<and>
                  dless (savedTimeTotal (savedAt t ls) (totalInsts (profiles E))) (double_of_nat 2)
               then Inr rest else Inr (ls # rest))"

definition compareOperator ::
    "('l \<rightharpoonup> u64) \<Rightarrow> ('l \<Rightarrow> u32) \<Rightarrow> 'l \<Rightarrow> 'l \<Rightarrow> bool" where
  "compareOperator t nesting l1 l2 =
     (let s1 = savedAt t l1; s2 = savedAt t l2 in
      if s1 \<noteq> s2 then s1 > s2 else nesting l1 < nesting l2)"

text \<open>
  The result: the loops in order, the two maximal savings (which stay 0 when no loop is selected),
  and the \<open>gino.doall\<close> metadata.
\<close>

record 'l selection =
  selected :: "'l list"
  maxTimeSaved :: u64
  maxTimeSavedWithDOALLOnly :: u64
  doallMetadata :: "'l \<rightharpoonup> bool"

definition selectTheOrderOfLoopsToParallelize ::
    "bool \<Rightarrow> ('l, 's) planner_env \<Rightarrow> 'l loop_tree \<Rightarrow> 'l selection result" where
  "selectTheOrderOfLoopsToParallelize force E tree =
     (case savingsOfLoops E (visitPreOrder E tree) (Map.empty, Map.empty) of
        Inl e \<Rightarrow> Inl e
      | Inr (t, d) \<Rightarrow>
          (case selectLoops force E t (pointerOrder E (visitPreOrder E tree)) of
             Inl e \<Rightarrow> Inl e
           | Inr [] \<Rightarrow> Inr \<lparr>selected = [], maxTimeSaved = 0, maxTimeSavedWithDOALLOnly = 0,
                             doallMetadata = d\<rparr>
           | Inr sel \<Rightarrow>
               (case evaluateSavings (visitPostOrder E) tree t d of
                  Inl e \<Rightarrow> Inl e
                | Inr (a, b) \<Rightarrow>
                    Inr \<lparr>selected = stdSort E (compareOperator t (nestingLevel E)) sel,
                         maxTimeSaved = a, maxTimeSavedWithDOALLOnly = b, doallMetadata = d\<rparr>)))"

section \<open>The pass\<close>

text \<open>
  \<open>loopOrder\<close> is the metadata \<open>noelle.parallelizer.looporder\<close>; \<open>orderIndex\<close> is the \<open>uint32_t\<close>
  counter.
\<close>

record 'l planner_state =
  orderIndex :: u32
  loopOrder :: "'l \<rightharpoonup> string"
  doallOf :: "'l \<rightharpoonup> bool"
  programMaxTimeSaved :: u64
  programMaxTimeSavedWithDOALLOnly :: u64
  modified :: bool

definition planner_init :: "'l planner_state" where
  "planner_init = \<lparr>orderIndex = 0, loopOrder = Map.empty, doallOf = Map.empty,
     programMaxTimeSaved = 0, programMaxTimeSavedWithDOALLOnly = 0, modified = False\<rparr>"

fun attachOrder :: "'l list \<Rightarrow> 'l planner_state \<Rightarrow> 'l planner_state" where
  "attachOrder [] s = s"
| "attachOrder (ls # lss) s =
     attachOrder lss
       (s\<lparr>orderIndex := orderIndex s + 1,
          loopOrder := (loopOrder s)(ls \<mapsto> std_to_string (unat (orderIndex s))),
          modified := True\<rparr>)"

fun planTrees ::
    "bool \<Rightarrow> ('l, 's) planner_env \<Rightarrow> 'l loop_tree list \<Rightarrow> 'l planner_state \<Rightarrow>
     'l planner_state result" where
  "planTrees force E [] s = Inr s"
| "planTrees force E (tree # trees) s =
     (case selectTheOrderOfLoopsToParallelize force E tree of
        Inl e \<Rightarrow> Inl e
      | Inr r \<Rightarrow>
          planTrees force E trees
            (attachOrder (selected r)
              (s\<lparr>doallOf := doallOf s ++ doallMetadata r,
                 programMaxTimeSaved := programMaxTimeSaved s + maxTimeSaved r,
                 programMaxTimeSavedWithDOALLOnly :=
                   programMaxTimeSavedWithDOALLOnly s + maxTimeSavedWithDOALLOnly r\<rparr>)))"

definition planner_runOnModule ::
    "bool \<Rightarrow> ('l, 's) planner_env \<Rightarrow> 'l loop_tree list \<Rightarrow> 'l planner_state result" where
  "planner_runOnModule force E forest =
     (if length (concat (map loops forest)) = 0 then Inr planner_init
      else case (if \<not> force then removeLoopsNotWorthParallelizing force E forest else Inr forest) of
             Inl e \<Rightarrow> Inl e
           | Inr forest \<Rightarrow> planTrees force E forest planner_init)"

section \<open>The timing model never fails\<close>

text \<open>
  C39: if the average number of instructions per iteration is the quotient of two profile counters
  below \<open>2 ^ 53\<close>, as NOELLE computes it, and the sequential components do not execute more
  instructions than the loop, then the assertion of the timing model holds in spite of the rounding
  and the conversion to \<open>uint64_t\<close> is defined.
\<close>

theorem timeSavedFormula_defined:
  assumes T: "unat insts < 2 ^ 53" and I: "0 < unat iterations" "unat iterations < 2 ^ 53"
    and seq: "seq \<le> insts"
  shows "\<exists>v. timeSavedFormula (ddiv (double_of_u64 insts) (double_of_u64 iterations)) seq iterations = Inr v"
proof -
  define tn where "tn = unat insts"
  define kn where "kn = unat iterations"
  define sn where "sn = unat seq"
  let ?T = "of_nat tn :: rat" and ?I = "of_nat kn :: rat" and ?s = "of_nat sn :: rat"
  have le: "sn \<le> tn" using seq by (simp add: word_le_nat_alt sn_def tn_def)
  have bnd: "tn < 2 ^ 53" "0 < kn" "kn < 2 ^ 53" using T I by (simp_all add: tn_def kn_def)
  have d: "double_of_u64 insts = Finite ?T" "double_of_u64 iterations = Finite ?I"
    "double_of_u64 seq = Finite ?s"
    unfolding double_of_u64_def tn_def [symmetric] kn_def [symmetric] sn_def [symmetric]
    by (rule double_of_nat_exact, use bnd le in linarith)+
  have pos: "0 < ?I" using bnd(2) by (simp only: of_nat_0_less_iff)
  show ?thesis
  proof (cases "tn = 0")
    case True
    then show ?thesis using le pos
      by (simp add: timeSavedFormula_def d dsub_def round_double_def)
  next
    case False
    let ?y = "?T / ?I" and ?x = "?s / ?I"
    have y: "0 < ?y" and x: "0 \<le> ?x" "?x \<le> ?y"
      using False pos le by (simp_all add: divide_right_mono)
    have big: "pow2q (-1000) \<le> ?y"
    proof -
      have "(1 :: rat) / 2 ^ 53 \<le> 1 / ?I"
      proof (rule frac_le)
        have "?I \<le> of_nat (2 ^ 53)" using bnd(3) by (simp only: of_nat_le_iff)
        then show "?I \<le> 2 ^ 53" by simp
      qed (use pos in auto)
      also have "\<dots> \<le> ?y" using False by (intro divide_right_mono) (auto simp: Suc_le_eq)
      finally have "pow2q (-53) \<le> ?y" by (simp add: pow2q_def)
      moreover have "pow2q (-1000) \<le> pow2q (-53)" by (rule pow2q_mono) simp
      ultimately show ?thesis by simp
    qed
    have yT: "?y \<le> pow2q 53"
    proof -
      have "?y \<le> ?T" using bnd(2) by (simp add: divide_le_eq mult_le_cancel_left1)
      also have "?T \<le> of_nat (2 ^ 53)" using bnd(1) by (simp only: of_nat_le_iff)
      finally show ?thesis by (simp add: pow2q_def)
    qed
    obtain p where p: "round_double ?y = Finite p" "0 \<le> p"
      using round_double_finite [OF _ yT] y by auto
    obtain b where b: "round_double ?x = Finite b" "0 \<le> b"
      using round_double_finite [OF x(1) order_trans [OF x(2) yT]] by auto
    have bp: "b \<le> p" using round_double_mono [OF x] p b by simp
    have pround: "p = round_pos ?y" using p(1) y False bnd(2) by (auto simp: round_double_def split: if_splits)
    have p2: "p \<le> 2 * ?y" unfolding pround by (rule round_pos_double [OF y big])
    let ?z = "2 * ?y"
    have z: "0 < ?z" "pow2q (-1000) \<le> ?z" "?z \<le> pow2q 54"
      using y big yT pow2q_add [of 53 1] by (simp_all add: pow2q_def [of 1])
    obtain r where r: "round_double ?z = Finite r"
      using round_double_finite [OF _ z(3)] z(1) by auto
    have "r = round_pos ?z" using r z(1) False bnd(2) by (auto simp: round_double_def split: if_splits)
    then have r2: "r \<le> 4 * ?y" using round_pos_double [OF z(1,2)] by simp
    have "0 \<le> p - b" "p - b \<le> ?z" using bp p2 b(2) by auto
    from round_double_mono [OF this] round_double_nonneg [OF this(1)] r
    obtain q where q: "round_double (p - b) = Finite q" "0 \<le> q" "q \<le> r" by auto
    have "q * ?I \<le> 4 * ?y * ?I" using q(3) r2 pos by (intro mult_right_mono) auto
    also have "\<dots> = 4 * ?T" using pos by simp
    also have "\<dots> \<le> 4 * of_nat (2 ^ 53)" using bnd(1) by (simp only: of_nat_le_iff mult_le_cancel_left_pos zero_less_numeral less_imp_le)
    also have "\<dots> = pow2q 55" by (simp add: pow2q_def)
    finally have "q * ?I \<le> pow2q 55" .
    with q(2) pos obtain w where w: "round_double (q * ?I) = Finite w" "0 \<le> w" "w \<le> pow2q 55"
      using round_double_finite [of "q * ?I" 55] by auto
    have "w < 2 ^ 64" using w(3) by (simp add: pow2q_def)
    then have "u64_of_double (Finite w) = Inr (of_nat (nat \<lfloor>w\<rfloor>))" using w(2) by simp
    moreover have "p \<noteq> 0 \<or> b = 0" using bp b(2) by auto
    ultimately show ?thesis
      using pos p b q w bp by (auto simp: timeSavedFormula_def d dsub_def)
  qed
qed

theorem timeSavedFormula_defined_witness:
  "\<exists>v. timeSavedFormula (ddiv (double_of_u64 1000) (double_of_u64 7)) 300 7 = Inr v"
  using timeSavedFormula_defined [of 1000 7 300] by (simp add: word_le_nat_alt)

section \<open>The selection\<close>

text \<open>The time a loop saves, and whether that is enough.\<close>

definition savesOf :: "('l, 's) planner_env \<Rightarrow> 'l \<Rightarrow> u64" where
  "savesOf E ls = (case getTimeSavedByParallelizingLoop E ls of Inl _ \<Rightarrow> 0 | Inr v \<Rightarrow> v)"

definition enough :: "bool \<Rightarrow> ('l, 's) planner_env \<Rightarrow> 'l \<Rightarrow> bool" where
  "enough force E ls \<longleftrightarrow> force \<or>
     \<not> dless (savedTimeTotal (savesOf E ls) (totalInsts (profiles E))) (double_of_nat 2)"

text \<open>Loop \<open>a\<close> has to come before loop \<open>b\<close>.\<close>

definition before :: "('l, 's) planner_env \<Rightarrow> 'l \<Rightarrow> 'l \<Rightarrow> bool" where
  "before E a b \<longleftrightarrow> savesOf E b < savesOf E a \<or>
     savesOf E a = savesOf E b \<and> nestingLevel E a < nestingLevel E b"

text \<open>The environment keeps the promises of the library and of NOELLE.\<close>

definition env_ok :: "('l, 's) planner_env \<Rightarrow> bool" where
  "env_ok E \<longleftrightarrow> std_sort (stdSort E) \<and> (\<forall>t. mset (visitPreOrder E t) = mset (loops t)) \<and>
     (\<forall>lss. mset (pointerOrder E lss) = mset lss) \<and>
     (\<forall>P f. mset (concat (map loops (filterOutLoops E P f))) =
        mset (filter (\<lambda>ls. \<not> P ls) (concat (map loops f))))"

lemma compareOperator_strict: "strict_weak (compareOperator t nesting)"
  unfolding strict_weak_def compareOperator_def Let_def
  by (auto split: if_splits)

lemma savingsOfLoops_saves:
  "savingsOfLoops E lss (t, d) = Inr (t', d') \<Longrightarrow>
     (\<forall>ls. ls \<in> set lss \<longrightarrow> t' ls = Some (savesOf E ls) \<and> d' ls = Some (canDOALL E ls)) \<and>
     (\<forall>ls. ls \<notin> set lss \<longrightarrow> t' ls = t ls \<and> d' ls = d ls)"
proof (induction lss arbitrary: t d)
  case (Cons x lss)
  obtain v where v: "getTimeSavedByParallelizingLoop E x = Inr v"
    "savingsOfLoops E lss (t(x \<mapsto> v), d(x \<mapsto> canDOALL E x)) = Inr (t', d')"
    using Cons.prems by (cases "getTimeSavedByParallelizingLoop E x") simp_all
  have x: "savesOf E x = v" by (simp add: savesOf_def v(1))
  note ih = Cons.IH [OF v(2)]
  have "t' ls = Some (savesOf E ls) \<and> d' ls = Some (canDOALL E ls)" if "ls \<in> set (x # lss)" for ls
    using ih that x by (cases "ls \<in> set lss") simp_all
  moreover have "t' ls = t ls \<and> d' ls = d ls" if "ls \<notin> set (x # lss)" for ls
    using ih that by simp
  ultimately show ?case by blast
qed simp

lemma selectLoops_filter:
  "\<forall>ls \<in> set lss. t ls = Some (savesOf E ls) \<Longrightarrow> selectLoops force E t lss = Inr sel \<Longrightarrow>
     sel = filter (enough force E) lss"
proof (induction lss arbitrary: sel)
  case (Cons x lss)
  then obtain rest where "selectLoops force E t lss = Inr rest"
    by (auto split: sum.splits if_splits)
  with Cons show ?case by (auto simp: enough_def savedAt_def split: if_splits)
qed simp

lemma compareOperator_before:
  "t a = Some (savesOf E a) \<Longrightarrow> t b = Some (savesOf E b) \<Longrightarrow>
     compareOperator t (nestingLevel E) a b = before E a b"
  by (auto simp: compareOperator_def before_def savedAt_def Let_def)

lemma select_facts:
  assumes ok: "env_ok E" and sel: "selectTheOrderOfLoopsToParallelize force E tree = Inr r"
  shows "mset (selected r) = mset (filter (enough force E) (loops tree))"
    and "sorted_wrt (\<lambda>a b. \<not> before E b a) (selected r)"
proof -
  let ?pre = "visitPreOrder E tree"
  obtain t d where td: "savingsOfLoops E ?pre (Map.empty, Map.empty) = Inr (t, d)"
    using sel by (cases "savingsOfLoops E ?pre (Map.empty, Map.empty)")
      (auto simp: selectTheOrderOfLoopsToParallelize_def)
  have pre: "mset ?pre = mset (loops tree)" and ptr: "mset (pointerOrder E ?pre) = mset ?pre"
    and srt: "std_sort (stdSort E)"
    using ok by (simp_all add: env_ok_def)
  have t: "\<forall>ls \<in> set (pointerOrder E ?pre). t ls = Some (savesOf E ls)"
    using savingsOfLoops_saves [OF td] mset_eq_setD [OF ptr] by simp
  obtain l where l: "selectLoops force E t (pointerOrder E ?pre) = Inr l"
    using sel td by (auto simp: selectTheOrderOfLoopsToParallelize_def split: sum.splits)
  have lf: "l = filter (enough force E) (pointerOrder E ?pre)" by (rule selectLoops_filter [OF t l])
  then have lm: "mset l = mset (filter (enough force E) (loops tree))" by (simp add: pre ptr)
  let ?cmp = "compareOperator t (nestingLevel E)"
  have "mset (selected r) = mset l \<and> sorted_wrt (\<lambda>a b. \<not> before E b a) (selected r)"
  proof (cases l)
    case Nil
    then show ?thesis using sel td l by (auto simp: selectTheOrderOfLoopsToParallelize_def)
  next
    case (Cons x xs)
    then have r: "selected r = stdSort E ?cmp l"
      using sel td l by (auto simp: selectTheOrderOfLoopsToParallelize_def split: sum.splits)
    have m: "mset (stdSort E ?cmp l) = mset l"
      by (rule std_sort.sort_permutes [OF srt compareOperator_strict])
    have "sorted_wrt (\<lambda>a b. \<not> ?cmp b a) (stdSort E ?cmp l)"
      by (rule std_sort.sort_sorts [OF srt compareOperator_strict])
    moreover have "t a = Some (savesOf E a)" if "a \<in> set (stdSort E ?cmp l)" for a
      using that mset_eq_setD [OF m] lf t by auto
    ultimately have "sorted_wrt (\<lambda>a b. \<not> before E b a) (stdSort E ?cmp l)"
      by (metis (mono_tags, lifting) compareOperator_before sorted_wrt_mono_rel)
    with m r show ?thesis by simp
  qed
  with lm show "mset (selected r) = mset (filter (enough force E) (loops tree))"
    "sorted_wrt (\<lambda>a b. \<not> before E b a) (selected r)" by simp_all
qed

text \<open>The metadata written so far describe the list \<open>plan\<close>.\<close>

definition plan_meta :: "'l list \<Rightarrow> 'l \<rightharpoonup> string" where
  "plan_meta plan = map_of (zip plan (map std_to_string [0..<length plan]))"

definition describes :: "'l planner_state \<Rightarrow> 'l list \<Rightarrow> bool" where
  "describes s plan \<longleftrightarrow> orderIndex s = of_nat (length plan) \<and> loopOrder s = plan_meta plan \<and>
     (modified s \<longleftrightarrow> plan \<noteq> [])"

lemma plan_meta_snoc:
  assumes "x \<notin> set plan"
  shows "plan_meta (plan @ [x]) = (plan_meta plan)(x \<mapsto> std_to_string (length plan))"
proof -
  have x: "map_of (zip plan (map std_to_string [0..<length plan])) x = None"
    using assms by (simp add: map_of_zip_is_None)
  have "map_of (zip (plan @ [x]) (map std_to_string [0..<length (plan @ [x])])) =
      [x \<mapsto> std_to_string (length plan)] ++ plan_meta plan"
    by (simp add: plan_meta_def)
  also have "\<dots> = (plan_meta plan)(x \<mapsto> std_to_string (length plan))"
    using x by (subst map_add_comm) (auto simp: plan_meta_def)
  finally show ?thesis by (simp add: plan_meta_def)
qed

lemma attachOrder_describes:
  assumes "describes s plan" and "distinct (plan @ lss)" and "length (plan @ lss) < 2 ^ 32"
  shows "describes (attachOrder lss s) (plan @ lss)"
  using assms
proof (induction lss arbitrary: s plan)
  case (Cons x lss)
  let ?s = "s\<lparr>orderIndex := orderIndex s + 1,
      loopOrder := (loopOrder s)(x \<mapsto> std_to_string (unat (orderIndex s))), modified := True\<rparr>"
  have "unat (orderIndex s) = length plan"
    using Cons.prems(1,3) by (simp add: describes_def u32_unat_of_nat)
  then have "describes ?s (plan @ [x])"
    using Cons.prems(1,2) by (simp add: describes_def plan_meta_snoc)
  then have "describes (attachOrder lss ?s) ((plan @ [x]) @ lss)"
    by (rule Cons.IH) (use Cons.prems in auto)
  then show ?case by simp
qed simp

lemma planTrees_describes:
  assumes ok: "env_ok E" and run: "planTrees force E trees s0 = Inr s" and d0: "describes s0 plan0"
    and dist: "distinct (plan0 @ concat (map loops trees))"
    and len: "length (plan0 @ concat (map loops trees)) < 2 ^ 32"
  shows "\<exists>plan. describes s (plan0 @ plan) \<and> distinct plan \<and>
    set plan = {l \<in> set (concat (map loops trees)). enough force E l} \<and>
    (\<forall>tree \<in> set trees. sorted_wrt (\<lambda>a b. \<not> before E b a) (filter (\<lambda>l. l \<in> set (loops tree)) plan))"
  using run d0 dist len
proof (induction trees arbitrary: s0 plan0)
  case Nil
  then show ?case by (intro exI [of _ "[]"]) simp
next
  case (Cons tree trees)
  obtain r where r: "selectTheOrderOfLoopsToParallelize force E tree = Inr r"
    using Cons.prems(1) by (cases "selectTheOrderOfLoopsToParallelize force E tree") simp_all
  let ?s1 = "s0\<lparr>doallOf := doallOf s0 ++ doallMetadata r,
      programMaxTimeSaved := programMaxTimeSaved s0 + maxTimeSaved r,
      programMaxTimeSavedWithDOALLOnly :=
        programMaxTimeSavedWithDOALLOnly s0 + maxTimeSavedWithDOALLOnly r\<rparr>"
  have run: "planTrees force E trees (attachOrder (selected r) ?s1) = Inr s"
    using Cons.prems(1) r by simp
  note sel = select_facts [OF ok r]
  have set_sel: "set (selected r) = {l \<in> set (loops tree). enough force E l}"
    using mset_eq_setD [OF sel(1)] by simp
  have dist_sel: "distinct (selected r)"
    using mset_eq_imp_distinct_iff [OF sel(1)] Cons.prems(3) by simp
  have len_sel: "length (selected r) \<le> length (loops tree)"
    using mset_eq_length [OF sel(1)] by simp
  have "describes ?s1 plan0" using Cons.prems(2) by (simp add: describes_def)
  then have now: "describes (attachOrder (selected r) ?s1) (plan0 @ selected r)"
    by (rule attachOrder_describes) (use Cons.prems(3,4) dist_sel set_sel len_sel in auto)
  have D: "distinct ((plan0 @ selected r) @ concat (map loops trees))"
    using Cons.prems(3) dist_sel by (simp add: set_sel) blast
  have L: "length ((plan0 @ selected r) @ concat (map loops trees)) < 2 ^ 32"
    using Cons.prems(4) len_sel by simp
  from Cons.IH [OF run now D L] obtain plan where plan:
    "describes s ((plan0 @ selected r) @ plan)" "distinct plan"
    "set plan = {l \<in> set (concat (map loops trees)). enough force E l}"
    "\<forall>t \<in> set trees. sorted_wrt (\<lambda>a b. \<not> before E b a) (filter (\<lambda>l. l \<in> set (loops t)) plan)"
    by blast
  have disj: "set (loops tree) \<inter> set (concat (map loops trees)) = {}"
    using Cons.prems(3) by auto
  have here: "filter (\<lambda>l. l \<in> set (loops tree)) (selected r @ plan) = selected r"
  proof -
    have "filter (\<lambda>l. l \<in> set (loops tree)) (selected r) = selected r"
      using set_sel by (simp add: filter_id_conv)
    moreover have "filter (\<lambda>l. l \<in> set (loops tree)) plan = []"
      using plan(3) disj by (auto simp: filter_empty_conv)
    ultimately show ?thesis by simp
  qed
  have there: "filter (\<lambda>l. l \<in> set (loops t)) (selected r @ plan) = filter (\<lambda>l. l \<in> set (loops t)) plan"
    if "t \<in> set trees" for t
    using set_sel disj that by (auto simp: filter_empty_conv)
  have "distinct (selected r @ plan)"
    using dist_sel plan(2,3) set_sel disj by auto
  moreover have "set (selected r @ plan) = {l \<in> set (concat (map loops (tree # trees))). enough force E l}"
    using set_sel plan(3) by auto
  moreover have "sorted_wrt (\<lambda>a b. \<not> before E b a) (filter (\<lambda>l. l \<in> set (loops t)) (selected r @ plan))"
    if "t \<in> set (tree # trees)" for t
    using that here there sel(2) plan(4) by auto
  ultimately show ?case using plan(1) by (intro exI [of _ "selected r @ plan"]) simp
qed

section \<open>Properties of the plan\<close>

text \<open>
  C15: the plan contains exactly the loops that pass the profile filter and save at least 2% of the
  program (all loops, when forced), each once; they are numbered 0, 1, 2, ... without gaps across
  all trees, and within a tree a loop that saves more, or as much at a smaller nesting level, is
  never numbered after one that has to wait.
\<close>

theorem planner_plan:
  assumes ok: "env_ok E" and run: "planner_runOnModule force E forest = Inr s"
    and dist: "distinct (concat (map loops forest))"
    and len: "length (concat (map loops forest)) < 2 ^ 32"
  shows "\<exists>plan kept. distinct plan \<and> loopOrder s = plan_meta plan \<and> (modified s \<longleftrightarrow> plan \<noteq> []) \<and>
    set plan = {l \<in> set (concat (map loops forest)).
                  (force \<or> notWorth E l = Inr False) \<and> enough force E l} \<and>
    removeLoopsNotWorthParallelizing force E forest = Inr kept \<and>
    (\<forall>tree \<in> set kept. sorted_wrt (\<lambda>a b. \<not> before E b a) (filter (\<lambda>l. l \<in> set (loops tree)) plan))"
proof (cases "concat (map loops forest) = []")
  case True
  have "forest = []"
  proof (cases forest)
    case (Cons t ts)
    with True have "loops t = []" by simp
    with getLoop_in_loops [of t] show ?thesis by simp
  qed
  then have kept: "\<exists>kept. removeLoopsNotWorthParallelizing force E forest = Inr kept"
    by (simp add: removeLoopsNotWorthParallelizing_def)
  have "s = planner_init" using run True by (auto simp: planner_runOnModule_def)
  with True kept show ?thesis by (auto simp: planner_init_def plan_meta_def intro!: exI [of _ "[]"])
next
  case False
  obtain kept where kept: "removeLoopsNotWorthParallelizing force E forest = Inr kept"
    and trees: "planTrees force E kept planner_init = Inr s"
    using run False
    by (auto simp: planner_runOnModule_def removeLoopsNotWorthParallelizing_def split: if_splits)
  let ?f = "\<lambda>l. force \<or> notWorth E l \<noteq> Inr True"
  have m: "mset (concat (map loops kept)) = mset (filter ?f (concat (map loops forest)))"
    using ok kept by (auto simp: env_ok_def removeLoopsNotWorthParallelizing_def split: if_splits)
  have "notWorth E l \<noteq> Inr True \<longleftrightarrow> notWorth E l = Inr False"
    if "\<not> force" "l \<in> set (concat (map loops forest))" for l
  proof -
    have "hasID E l" using kept that by (auto simp: removeLoopsNotWorthParallelizing_def split: if_splits)
    then show ?thesis by (auto simp: notWorth_def Let_def)
  qed
  then have in_kept: "set (concat (map loops kept)) =
      {l \<in> set (concat (map loops forest)). force \<or> notWorth E l = Inr False}"
    unfolding mset_eq_setD [OF m] by auto
  have "distinct (concat (map loops kept))"
    using mset_eq_imp_distinct_iff [OF m] distinct_filter [OF dist] by blast
  moreover have "length (concat (map loops kept)) < 2 ^ 32"
    using mset_eq_length [OF m] length_filter_le [of ?f "concat (map loops forest)"] len by linarith
  moreover have "describes planner_init []"
    by (simp add: describes_def planner_init_def plan_meta_def)
  ultimately obtain plan where plan: "describes s plan" "distinct plan"
    "set plan = {l \<in> set (concat (map loops kept)). enough force E l}"
    "\<forall>tree \<in> set kept. sorted_wrt (\<lambda>a b. \<not> before E b a) (filter (\<lambda>l. l \<in> set (loops tree)) plan)"
    using planTrees_describes [OF ok trees, of "[]"] by auto
  show ?thesis
    by (rule exI [of _ plan], rule exI [of _ kept])
      (use plan kept in_kept in \<open>auto simp: describes_def\<close>)
qed

lemma savedTimeTotal_mono:
  assumes "v \<le> w" and "tot \<noteq> 0"
  shows "dle (savedTimeTotal v tot) (savedTimeTotal w tot)"
proof -
  obtain c where c: "double_of_u64 tot = Finite c" "0 < c"
    using double_of_u64_pos [OF assms(2)] by force
  have "dle (double_of_u64 v) (double_of_u64 w)"
    using assms(1) by (simp add: double_of_u64_def double_of_nat_mono word_le_nat_alt)
  moreover have "nonneg (double_of_u64 v)" by (simp add: double_of_u64_def)
  ultimately show ?thesis
    using c double_of_nat_exact [of 100]
    by (auto simp: savedTimeTotal_def intro!: dmul_mono ddiv_mono ddiv_nonneg)
qed

text \<open>
  the 2% rule never drops a loop and keeps one that saves less: in spite of the rounding of the
  ratio, if a loop passes, every loop that saves at least as much passes.
\<close>

theorem enough_monotone:
  assumes "enough force E a" and "savesOf E a \<le> savesOf E b"
  shows "enough force E b"
proof (cases "totalInsts (profiles E) = 0")
  case True
  have zero: "double_of_u64 0 = Finite 0"
    using double_of_nat_exact [of 0] by (simp add: double_of_u64_def)
  have "savedTimeTotal w 0 = NaN \<or> savedTimeTotal w 0 = PInf" for w
  proof (cases "w = 0")
    case True
    then show ?thesis by (simp add: savedTimeTotal_def zero)
  next
    case False
    then obtain r where "double_of_u64 w = Finite r" "1 \<le> r" using double_of_u64_pos by blast
    then show ?thesis using double_of_nat_exact [of 100]
      by (simp add: savedTimeTotal_def zero infinity_def)
  qed
  then have "\<not> dless (savedTimeTotal w 0) x" for w x
    by (metis dless.simps(6,7) dless.simps)
  with True show ?thesis by (simp add: enough_def)
next
  case False
  then have "dle (savedTimeTotal (savesOf E a) (totalInsts (profiles E)))
      (savedTimeTotal (savesOf E b) (totalInsts (profiles E)))"
    by (rule savedTimeTotal_mono [OF assms(2)])
  with assms(1) show ?thesis by (auto simp: enough_def dest: dle_dless_trans)
qed

section \<open>An example program\<close>

fun prune :: "('l \<Rightarrow> bool) \<Rightarrow> 'l loop_tree \<Rightarrow> 'l loop_tree list" where
  "prune P (LoopTree l cs) =
     (let kept = concat (map (prune P) cs) in if P l then kept else [LoopTree l kept])"

lemma prune_loops:
  "mset (concat (map loops (prune P t))) = mset (filter (\<lambda>l. \<not> P l) (loops t))"
proof (induction t)
  case (LoopTree l cs)
  then have "mset (concat (map loops (concat (map (prune P) cs)))) =
      mset (filter (\<lambda>l. \<not> P l) (concat (map loops cs)))"
    by (induction cs) simp_all
  then show ?case by (simp add: Let_def)
qed

lemma prune_forest:
  "mset (concat (map loops (concat (map (prune P) ts)))) =
     mset (filter (\<lambda>l. \<not> P l) (concat (map loops ts)))"
  by (induction ts) (simp_all add: prune_loops)

text \<open>Two nested loops, each of which could save all of the 200 instructions of the program.\<close>

definition example_profile :: "(nat, nat) hot" where
  "example_profile = \<lparr>isAvailable = True, hasBeenExecuted = (\<lambda>l. True), getIterations = (\<lambda>l. 20),
     instsPerInvocation = (\<lambda>l. Finite 5000), itersPerInvocation = (\<lambda>l. Finite 20),
     instsPerIteration = (\<lambda>l. Finite 10), coverage = (\<lambda>l. Finite 1), totalInsts = 200,
     totalInstsOf = (\<lambda>s. 0)\<rparr>"

definition example_env :: "(nat, nat) planner_env" where
  "example_env = \<lparr>profiles = example_profile, hasID = (\<lambda>l. True), nestingLevel = (\<lambda>l. of_nat (l + 1)),
     sccsThatBlockDOALL = (\<lambda>l. []), canDOALL = (\<lambda>l. True), pointerOrder = rev,
     visitPreOrder = loops, visitPostOrder = postorder, stdSort = insertion_sort,
     filterOutLoops = (\<lambda>P f. concat (map (prune P) f))\<rparr>"

lemma example_env_ok: "env_ok example_env"
  by (simp add: env_ok_def example_env_def prune_forest insertion.std_sort_axioms)

lemma example_saves: "getTimeSavedByParallelizingLoop example_env l = Inr 200"
  using double_of_nat_exact [of 20] double_of_nat_exact [of 0] round_double_int [of 0]
    round_double_int [of 10] round_double_int [of 200]
  by (simp add: getTimeSavedByParallelizingLoop_def example_env_def example_profile_def
      timeSavedFormula_def dsub_def double_of_u64_def getTimeSpentInCriticalPathPerIteration_def)

lemma example_enough: "enough False example_env l"
proof -
  have "savedTimeTotal 200 200 = Finite 100"
    using double_of_nat_exact [of 200] double_of_nat_exact [of 100] round_double_int [of 1]
      round_double_int [of 100]
    by (simp add: savedTimeTotal_def double_of_u64_def)
  moreover have "totalInsts (profiles example_env) = 200"
    by (simp add: example_env_def example_profile_def)
  ultimately show ?thesis using double_of_nat_exact [of 2]
    by (simp add: enough_def savesOf_def example_saves)
qed

lemma example_worth: "notWorth example_env l = Inr False"
  using double_of_nat_exact [of 2000] double_of_nat_exact [of 12] double_of_nat_exact [of 100]
    round_double_int [of 100]
  by (simp add: notWorth_def example_env_def example_profile_def)

lemma example_run:
  "\<exists>s. planner_runOnModule False example_env [LoopTree 0 [LoopTree 1 []]] = Inr s"
proof -
  let ?t = "LoopTree 0 [LoopTree (1 :: nat) []]"
  let ?m = "[0 \<mapsto> 200, 1 \<mapsto> 200] :: nat \<rightharpoonup> u64" and ?d = "[0 \<mapsto> True, 1 \<mapsto> True] :: nat \<rightharpoonup> bool"
  have td: "savingsOfLoops example_env [0, 1] (Map.empty, Map.empty) = Inr (?m, ?d)"
    by (simp add: example_saves) (simp add: example_env_def)
  have tot: "totalInsts (profiles example_env) = 200" and ids: "hasID example_env l" for l
    by (simp_all add: example_env_def example_profile_def)
  have "\<not> dless (savedTimeTotal 200 200) (double_of_nat 2)"
    using example_enough [of 0] by (simp add: enough_def savesOf_def example_saves tot)
  then have sel: "selectLoops False example_env ?m [1, 0] = Inr [1, 0]"
    by (simp add: ids savedAt_def tot)
  have "evaluateSavings postorder ?t ?m ?d = Inr (of_nat (bestSaved (\<lambda>_. True) (\<lambda>_. 200) ?t),
      of_nat (bestSaved (\<lambda>_. True) (\<lambda>_. 200) ?t))"
    by (intro evaluateSavings_value post.post_order_axioms) (auto simp: fits_def)
  with td sel obtain r where r: "selectTheOrderOfLoopsToParallelize False example_env ?t = Inr r"
    by (simp add: selectTheOrderOfLoopsToParallelize_def example_env_def)
  have "filterOutLoops example_env (\<lambda>ls. notWorth example_env ls = Inr True) [?t] = [?t]"
    unfolding example_worth by (simp add: example_env_def Let_def)
  then have "removeLoopsNotWorthParallelizing False example_env [?t] = Inr [?t]"
    by (simp add: removeLoopsNotWorthParallelizing_def ids)
  with r show ?thesis by (simp add: planner_runOnModule_def)
qed

theorem planner_plan_witness:
  "\<exists>s plan. planner_runOnModule False example_env [LoopTree 0 [LoopTree 1 []]] = Inr s \<and>
     distinct plan \<and> set plan = {0, 1} \<and> loopOrder s = plan_meta plan"
proof -
  let ?f = "[LoopTree 0 [LoopTree (1 :: nat) []]]"
  obtain s where s: "planner_runOnModule False example_env ?f = Inr s" using example_run by blast
  have d: "distinct (concat (map loops ?f))" and l: "length (concat (map loops ?f)) < 2 ^ 32"
    by simp_all
  from planner_plan [OF example_env_ok s d l] obtain plan where
    "distinct plan" "loopOrder s = plan_meta plan"
    "set plan = {l \<in> set (concat (map loops ?f)). (False \<or> notWorth example_env l = Inr False) \<and>
       enough False example_env l}"
    by blast
  moreover have "{l \<in> set (concat (map loops ?f)). (False \<or> notWorth example_env l = Inr False) \<and>
       enough False example_env l} = {0, 1}"
    by (auto simp: example_enough example_worth)
  ultimately show ?thesis using s by blast
qed

theorem enough_monotone_witness: "enough False example_env 1"
proof (rule enough_monotone)
  show "enough False example_env 0" by (rule example_enough)
  show "savesOf example_env 0 \<le> savesOf example_env 1" by (simp add: savesOf_def example_saves)
qed

end
