(* ===== verification/Time_Saved.thy ===== *)
theory Time_Saved
  imports Planner
begin

text \<open>
  The tool \<open>time_saved\<close> (\<open>src/tools/time_saved/src\<close>), which estimates what parallelizing a program
  can save. It has its own copies of the planner's timing model, loop selector and evaluation; they
  differ in what they skip: no loop is filtered out, a loop counts as DOALL when its sequential
  components take no time, and only loops that were iterated save time.
\<close>

section \<open>The code\<close>

definition ts_getTimeSpentInCriticalPathPerIteration :: "('l, 's) planner_env \<Rightarrow> 'l \<Rightarrow> u64" where
  "ts_getTimeSpentInCriticalPathPerIteration E ls =
     (if \<not> isAvailable (profiles E) then 0
      else foldl (\<lambda>biggest scc. if totalInstsOf (profiles E) scc > biggest
                                 then totalInstsOf (profiles E) scc else biggest)
             0 (sccsThatBlockDOALL E ls))"

definition ts_getTimeSavedByParallelizingLoop :: "('l, 's) planner_env \<Rightarrow> 'l \<Rightarrow> u64 result" where
  "ts_getTimeSavedByParallelizingLoop E ls =
     (let seq = ts_getTimeSpentInCriticalPathPerIteration E ls;
          perIteration = instsPerIteration (profiles E) ls;
          biggest = ddiv (double_of_u64 seq) (double_of_u64 (getIterations (profiles E) ls))
      in if \<not> dle biggest perIteration then Inl AssertionFailed
         else u64_of_double (dmul (dsub perIteration biggest)
                               (double_of_u64 (getIterations (profiles E) ls))))"

definition ts_saved :: "('l, 's) planner_env \<Rightarrow> 'l \<Rightarrow> u64 result" where
  "ts_saved E ls =
     (if getIterations (profiles E) ls > 0 then ts_getTimeSavedByParallelizingLoop E ls else Inr 0)"

definition ts_doall :: "('l, 's) planner_env \<Rightarrow> 'l \<Rightarrow> bool" where
  "ts_doall E ls \<longleftrightarrow> ts_getTimeSpentInCriticalPathPerIteration E ls = 0"

text \<open>The lambda \<open>selector\<close> over the pre-order visit.\<close>

fun ts_savingsOfLoops ::
    "('l, 's) planner_env \<Rightarrow> 'l list \<Rightarrow> ('l \<rightharpoonup> u64) \<times> ('l \<rightharpoonup> bool) \<Rightarrow>
     (('l \<rightharpoonup> u64) \<times> ('l \<rightharpoonup> bool)) result" where
  "ts_savingsOfLoops E [] (t, d) = Inr (t, d)"
| "ts_savingsOfLoops E (ls # lss) (t, d) =
     (case ts_saved E ls of
        Inl e \<Rightarrow> Inl e
      | Inr saved \<Rightarrow> ts_savingsOfLoops E lss (t(ls \<mapsto> saved), d(ls \<mapsto> ts_doall E ls)))"

fun ts_selectLoops :: "('l, 's) planner_env \<Rightarrow> 'l list \<Rightarrow> 'l list result" where
  "ts_selectLoops E [] = Inr []"
| "ts_selectLoops E (ls # lss) =
     (if \<not> hasID E ls then Inl AssertionFailed
      else case ts_selectLoops E lss of Inl e \<Rightarrow> Inl e | Inr rest \<Rightarrow> Inr (ls # rest))"

definition ts_selectTheOrderOfLoopsToParallelize ::
    "('l, 's) planner_env \<Rightarrow> 'l loop_tree \<Rightarrow> ('l list \<times> u64 \<times> u64) result" where
  "ts_selectTheOrderOfLoopsToParallelize E tree =
     (case ts_savingsOfLoops E (visitPreOrder E tree) (Map.empty, Map.empty) of
        Inl e \<Rightarrow> Inl e
      | Inr (t, d) \<Rightarrow>
          (case ts_selectLoops E (pointerOrder E (visitPreOrder E tree)) of
             Inl e \<Rightarrow> Inl e
           | Inr [] \<Rightarrow> Inr ([], 0, 0)
           | Inr sel \<Rightarrow>
               (case evaluateSavings (visitPostOrder E) tree t d of
                  Inl e \<Rightarrow> Inl e
                | Inr (a, b) \<Rightarrow> Inr (stdSort E (compareOperator t (nestingLevel E)) sel, a, b))))"

text \<open>The pass: the two totals over all trees.\<close>

fun ts_sumTrees :: "('l, 's) planner_env \<Rightarrow> 'l loop_tree list \<Rightarrow> u64 \<times> u64 \<Rightarrow> (u64 \<times> u64) result" where
  "ts_sumTrees E [] (a, b) = Inr (a, b)"
| "ts_sumTrees E (tree # trees) (a, b) =
     (case ts_selectTheOrderOfLoopsToParallelize E tree of
        Inl e \<Rightarrow> Inl e
      | Inr (_, x, y) \<Rightarrow> ts_sumTrees E trees (a + x, b + y))"

definition ts_runOnModule :: "('l, 's) planner_env \<Rightarrow> 'l loop_tree list \<Rightarrow> (u64 \<times> u64) result" where
  "ts_runOnModule E forest =
     (if length (concat (map loops forest)) = 0 then Inr (0, 0) else ts_sumTrees E forest (0, 0))"

section \<open>Properties\<close>

lemma ts_savingsOfLoops_value:
  "\<forall>ls \<in> set lss. ts_saved E ls = Inr (of_nat (w ls)) \<Longrightarrow>
     \<exists>t' d'. ts_savingsOfLoops E lss (t, d) = Inr (t', d') \<and>
       (\<forall>ls. ls \<in> set lss \<longrightarrow> t' ls = Some (of_nat (w ls)) \<and> d' ls = Some (ts_doall E ls)) \<and>
       (\<forall>ls. ls \<notin> set lss \<longrightarrow> t' ls = t ls \<and> d' ls = d ls)"
proof (induction lss arbitrary: t d)
  case (Cons x lss)
  then have "\<forall>ls \<in> set lss. ts_saved E ls = Inr (of_nat (w ls))" by simp
  from Cons.IH [OF this, of "t(x \<mapsto> of_nat (w x))" "d(x \<mapsto> ts_doall E x)"]
  obtain t' d' where run: "ts_savingsOfLoops E lss (t(x \<mapsto> of_nat (w x)), d(x \<mapsto> ts_doall E x)) = Inr (t', d')"
    and new: "\<forall>ls. ls \<in> set lss \<longrightarrow> t' ls = Some (of_nat (w ls)) \<and> d' ls = Some (ts_doall E ls)"
    and old: "\<forall>ls. ls \<notin> set lss \<longrightarrow> t' ls = (t(x \<mapsto> of_nat (w x))) ls \<and> d' ls = (d(x \<mapsto> ts_doall E x)) ls"
    by blast
  have "ts_savingsOfLoops E (x # lss) (t, d) = Inr (t', d')" using Cons.prems run by simp
  moreover have "t' ls = Some (of_nat (w ls)) \<and> d' ls = Some (ts_doall E ls)" if "ls \<in> set (x # lss)" for ls
    using new old that by (cases "ls \<in> set lss") simp_all
  moreover have "t' ls = t ls \<and> d' ls = d ls" if "ls \<notin> set (x # lss)" for ls
    using old that by simp
  ultimately show ?case by blast
qed simp

lemma ts_selectLoops_all: "\<forall>ls \<in> set lss. hasID E ls \<Longrightarrow> ts_selectLoops E lss = Inr lss"
  by (induction lss) auto

lemma ts_select_value:
  assumes ok: "env_ok E" "post_order (visitPostOrder E)" and dist: "distinct (loops t)" and fit: "fits w t"
    and v: "\<forall>ls \<in> set (loops t). ts_saved E ls = Inr (of_nat (w ls)) \<and> hasID E ls"
  shows "\<exists>l. ts_selectTheOrderOfLoopsToParallelize E t =
    Inr (l, of_nat (bestSaved (\<lambda>_. True) w t), of_nat (bestSaved (ts_doall E) w t))"
proof -
  let ?pre = "visitPreOrder E t" and ?ptr = "pointerOrder E (visitPreOrder E t)"
  have pre: "set ?pre = set (loops t)" and ptr: "set ?ptr = set (loops t)"
  proof -
    have "mset ?pre = mset (loops t)" "mset ?ptr = mset ?pre" using ok(1) by (simp_all add: env_ok_def)
    then show "set ?pre = set (loops t)" "set ?ptr = set (loops t)" by (metis mset_eq_setD)+
  qed
  have v': "\<forall>ls \<in> set ?pre. ts_saved E ls = Inr (of_nat (w ls))" using v pre by simp
  from ts_savingsOfLoops_value [OF v', of Map.empty Map.empty]
  obtain ts d where td: "ts_savingsOfLoops E ?pre (Map.empty, Map.empty) = Inr (ts, d)"
    "\<forall>ls. ls \<in> set ?pre \<longrightarrow> ts ls = Some (of_nat (w ls)) \<and> d ls = Some (ts_doall E ls)"
    by blast
  have "ts_selectLoops E ?ptr = Inr ?ptr" using v by (intro ts_selectLoops_all) (simp add: ptr)
  moreover have "?ptr \<noteq> []" using ptr getLoop_in_loops [of t] by (metis empty_iff list.set(1))
  moreover have "evaluateSavings (visitPostOrder E) t ts d =
      Inr (of_nat (bestSaved (\<lambda>_. True) w t), of_nat (bestSaved (ts_doall E) w t))"
    using td(2) pre by (intro evaluateSavings_value ok(2) dist fit) blast
  ultimately show ?thesis
    using td(1) by (cases ?ptr) (simp_all add: ts_selectTheOrderOfLoopsToParallelize_def)
qed

lemma ts_sumTrees_value:
  assumes ok: "env_ok E" "post_order (visitPostOrder E)"
    and v: "\<forall>ls \<in> set (concat (map loops trees)). ts_saved E ls = Inr (of_nat (w ls)) \<and> hasID E ls"
    and d: "\<forall>t \<in> set trees. distinct (loops t) \<and> fits w t"
  shows "ts_sumTrees E trees (a, b) =
    Inr (a + of_nat (sum_list (map (bestSaved (\<lambda>_. True) w) trees)),
         b + of_nat (sum_list (map (bestSaved (ts_doall E) w) trees)))"
  using v d
proof (induction trees arbitrary: a b)
  case (Cons t trees)
  obtain l where "ts_selectTheOrderOfLoopsToParallelize E t =
    Inr (l, of_nat (bestSaved (\<lambda>_. True) w t), of_nat (bestSaved (ts_doall E) w t))"
    using ts_select_value [OF ok, of t w] Cons.prems by auto
  with Cons show ?case by (simp add: add.assoc)
qed simp

text \<open>
  When the savings of all loops fit together in 64 bits, the tool's first total is the sum over
  the trees of the best each tree can save, and each of these is reached by some set of loops of the
  tree none of which is nested in another.
\<close>

theorem ts_total_optimal:
  assumes "env_ok E" and "post_order (visitPostOrder E)"
    and "distinct (concat (map loops forest))" and "sum_list (map w (concat (map loops forest))) < 2 ^ 64"
    and "\<forall>ls \<in> set (concat (map loops forest)). ts_saved E ls = Inr (of_nat (w ls)) \<and> hasID E ls"
  shows "\<exists>best doall. ts_runOnModule E forest = Inr (of_nat (sum_list (map best forest)), doall) \<and>
    (\<forall>t \<in> set forest. (\<exists>S. unnested t S \<and> sum w S = best t) \<and>
       (\<forall>S. unnested t S \<longrightarrow> sum w S \<le> best t))"
proof -
  have fit: "fits w t" and dist: "distinct (loops t)" if t: "t \<in> set forest" for t
  proof -
    have "sum_list (map w (loops t)) \<le> sum_list (map w (concat (map loops forest)))"
      using t by (induction forest) auto
    with assms(4) show "fits w t" by (simp add: fits_def)
    show "distinct (loops t)" using assms(3) t by (simp add: distinct_concat_iff)
  qed
  have "ts_runOnModule E forest = Inr (of_nat (sum_list (map (bestSaved (\<lambda>_. True) w) forest)),
      of_nat (sum_list (map (bestSaved (ts_doall E) w) forest)))"
  proof (cases forest)
    case Nil
    then show ?thesis by (simp add: ts_runOnModule_def)
  next
    case (Cons t ts)
    have "loops t \<noteq> []" by (cases t) simp
    then have "ts_runOnModule E forest = ts_sumTrees E forest (0, 0)"
      using Cons by (simp add: ts_runOnModule_def)
    with ts_sumTrees_value [OF assms(1,2,5)] fit dist show ?thesis by simp
  qed
  moreover have "(\<exists>S. unnested t S \<and> sum w S = bestSaved (\<lambda>_. True) w t) \<and>
      (\<forall>S. unnested t S \<longrightarrow> sum w S \<le> bestSaved (\<lambda>_. True) w t)" if "t \<in> set forest" for t
    using best_is_independent [OF dist [OF that], of w] independent_le_best [OF _ dist [OF that]]
    by blast
  ultimately show ?thesis by blast
qed

lemma ts_example_saved: "ts_saved example_env l = Inr 200"
  using double_of_nat_exact [of 20] double_of_nat_exact [of 0] round_double_int [of 0]
    round_double_int [of 10] round_double_int [of 200]
  by (simp add: ts_saved_def ts_getTimeSavedByParallelizingLoop_def example_env_def example_profile_def
      dsub_def double_of_u64_def ts_getTimeSpentInCriticalPathPerIteration_def word_gt_0)

theorem ts_total_optimal_witness:
  "\<exists>best doall. ts_runOnModule example_env [LoopTree 0 [LoopTree (1 :: nat) []]] = Inr (of_nat best, doall) \<and>
     (\<exists>S. unnested (LoopTree 0 [LoopTree (1 :: nat) []]) S \<and> (\<Sum>l \<in> S. 200) = best)"
proof -
  let ?f = "[LoopTree 0 [LoopTree (1 :: nat) []]]"
  have v: "\<forall>ls \<in> set (concat (map loops ?f)). ts_saved example_env ls = Inr (of_nat 200) \<and>
      hasID example_env ls"
    by (simp add: ts_example_saved) (simp add: example_env_def)
  have p: "post_order (visitPostOrder example_env)"
    using post.post_order_axioms by (simp add: example_env_def)
  have d: "distinct (concat (map loops ?f))"
    and s: "sum_list (map (\<lambda>_. 200) (concat (map loops ?f))) < (2 :: nat) ^ 64" by simp_all
  from ts_total_optimal [OF example_env_ok p d s v] obtain best doall where
    r: "ts_runOnModule example_env ?f = Inr (of_nat (sum_list (map best ?f)), doall)"
    and b: "\<forall>t \<in> set ?f. (\<exists>S. unnested t S \<and> (\<Sum>l \<in> S. 200) = best t)"
    by blast
  have "sum_list (map best ?f) = best (hd ?f)" by simp
  moreover have "\<exists>S. unnested (hd ?f) S \<and> (\<Sum>l \<in> S. 200) = best (hd ?f)" using b by simp
  ultimately show ?thesis using r by (intro exI [of _ "best (hd ?f)"] exI [of _ doall]) simp
qed

text \<open>
  For a loop that was executed, with a positive iteration count and average, the tool and the
  planner agree on the time the loop saves.
\<close>

theorem ts_saved_eq_planner:
  assumes "hasBeenExecuted (profiles E) ls" and "0 < getIterations (profiles E) ls"
    and "instsPerIteration (profiles E) ls \<noteq> Finite 0"
  shows "ts_saved E ls = getTimeSavedByParallelizingLoop E ls"
  using assms
  by (simp add: ts_saved_def ts_getTimeSavedByParallelizingLoop_def getTimeSavedByParallelizingLoop_def
      timeSavedFormula_def Let_def ts_getTimeSpentInCriticalPathPerIteration_def
      getTimeSpentInCriticalPathPerIteration_def)

theorem ts_saved_eq_planner_witness:
  "ts_saved example_env 1 = getTimeSavedByParallelizingLoop example_env 1"
  by (rule ts_saved_eq_planner) (simp_all add: example_env_def example_profile_def word_gt_0)

end
