(* ===== verification/Parallelizer.thy ===== *)
theory Parallelizer
  imports Planner Runtime_Dswp
begin

text \<open>
  The parallelizer (\<open>parallelizer/src\<close>): it reads the order the planner wrote in the metadata, tries
  the loops one after the other, skips a loop whose code an earlier one has changed, and gives each
  loop to the first technique that applies.
\<close>

section \<open>The queues of the runtime\<close>

text \<open>
  \<open>collectThreadPoolHelperFunctionsAndTypes\<close>. \<open>getFunction\<close> looks a function of the module up by name.
\<close>

definition pushers :: "string list" where
  "pushers = [''queuePush8'', ''queuePush16'', ''queuePush32'', ''queuePush64'']"

definition poppers :: "string list" where
  "poppers = [''queuePop8'', ''queuePop16'', ''queuePop32'', ''queuePop64'']"

fun collectFunctions :: "(string \<Rightarrow> 'f option) \<Rightarrow> string list \<Rightarrow> 'f list result" where
  "collectFunctions getFunction [] = Inr []"
| "collectFunctions getFunction (name # names) =
     (case getFunction name of
        None \<Rightarrow> Inl Aborted
      | Some f \<Rightarrow> (case collectFunctions getFunction names of Inl e \<Rightarrow> Inl e | Inr fs \<Rightarrow> Inr (f # fs)))"

record ('f, 't) queues =
  queuePushes :: "'f list"
  queuePops :: "'f list"
  queueTypes :: "'t list"
  queueSizeToIndex :: "int \<rightharpoonup> nat"
  queueElementTypes :: "nat list"

text \<open>The element types are given by their width in bits.\<close>

definition collectThreadPoolHelperFunctionsAndTypes ::
    "(string \<Rightarrow> 'f option) \<Rightarrow> ('f \<Rightarrow> 't) \<Rightarrow> ('f, 't) queues result" where
  "collectThreadPoolHelperFunctionsAndTypes getFunction firstArgType =
     (case collectFunctions getFunction pushers of
        Inl e \<Rightarrow> Inl e
      | Inr pushes \<Rightarrow>
          (case collectFunctions getFunction poppers of
             Inl e \<Rightarrow> Inl e
           | Inr pops \<Rightarrow>
               Inr \<lparr>queuePushes = pushes, queuePops = pops, queueTypes = map firstArgType pushes,
                    queueSizeToIndex = [1 \<mapsto> 0, 8 \<mapsto> 0, 16 \<mapsto> 1, 32 \<mapsto> 2, 64 \<mapsto> 3],
                    queueElementTypes = [8, 16, 32, 64]\<rparr>))"

section \<open>One loop\<close>

datatype technique_id = DOALL_ID | HELIX_ID | DSWP_ID

text \<open>
  A technique, as \<open>parallelizeLoop\<close> uses it: \<open>'p\<close> is the program. \<open>enabled\<close> is the conjunction of
  the global and the per-loop switch; the pointers a technique leaves behind may be null (\<open>None\<close>).
\<close>

record ('l, 'p, 'v) technique =
  enabled :: "'l \<Rightarrow> bool"
  canBeAppliedToLoop :: "'l \<Rightarrow> 'p \<Rightarrow> bool"
  applyTo :: "'l \<Rightarrow> 'p \<Rightarrow> bool \<times> 'p"
  envArray :: "'p \<Rightarrow> 'v option"
  entryPoint :: "'p \<Rightarrow> 'v option"
  exitPoint :: "'p \<Rightarrow> 'v option"
  indexOfEnvironmentVariable :: "'p \<Rightarrow> int \<Rightarrow> int"
  minimumNumberOfIdleCores :: "'p \<Rightarrow> nat"

record ('l, 'p, 'v) par_tools =
  techniqueOf :: "technique_id \<Rightarrow> ('l, 'p, 'v) technique"
  exitBlockID :: "'l \<Rightarrow> int"
  linkLoop :: "'l \<Rightarrow> 'v \<Rightarrow> 'v \<Rightarrow> 'v \<Rightarrow> int \<Rightarrow> nat \<Rightarrow> 'p \<Rightarrow> 'p"

definition applicable :: "('l, 'p, 'v) par_tools \<Rightarrow> 'l \<Rightarrow> 'p \<Rightarrow> technique_id \<Rightarrow> bool" where
  "applicable T ls p i \<longleftrightarrow>
     enabled (techniqueOf T i) ls \<and> canBeAppliedToLoop (techniqueOf T i) ls p"

text \<open>What follows the choice: apply the technique and link the new code into the function.\<close>

definition applyTechnique ::
    "('l, 'p, 'v) par_tools \<Rightarrow> ('l, 'p, 'v) technique \<Rightarrow> 'l \<Rightarrow> 'p \<Rightarrow> (bool \<times> 'p) result" where
  "applyTechnique T t ls p =
     (let (codeModified, p) = applyTo t ls p in
      if \<not> codeModified then Inr (False, p)
      else case envArray t p of
             None \<Rightarrow> Inl AssertionFailed
           | Some a \<Rightarrow>
               (case (entryPoint t p, exitPoint t p) of
                  (Some entry, Some exit) \<Rightarrow>
                    Inr (True, linkLoop T ls entry exit a
                      (if 0 \<le> exitBlockID T ls
                       then indexOfEnvironmentVariable t p (exitBlockID T ls) else -1)
                      (minimumNumberOfIdleCores t p) p)
                | _ \<Rightarrow> Inl AssertionFailed))"

text \<open>\<open>parallelizeLoop\<close>: the loop over the techniques ends at the first applicable one.\<close>

definition parallelizeLoop :: "('l, 'p, 'v) par_tools \<Rightarrow> 'l \<Rightarrow> 'p \<Rightarrow> (bool \<times> 'p) result" where
  "parallelizeLoop T ls p =
     (case find (applicable T ls p) [DOALL_ID, HELIX_ID, DSWP_ID] of
        None \<Rightarrow> Inr (False, p)
      | Some i \<Rightarrow> applyTechnique T (techniqueOf T i) ls p)"

section \<open>The order of the loops\<close>

text \<open>A \<open>std::map\<close> with \<open>uint32_t\<close> keys: the pairs in ascending order; \<open>operator[]=\<close> overwrites.\<close>

fun map_set :: "u32 \<Rightarrow> 'v \<Rightarrow> (u32 \<times> 'v) list \<Rightarrow> (u32 \<times> 'v) list" where
  "map_set k v [] = [(k, v)]"
| "map_set k v ((k', v') # m) =
     (if k < k' then (k, v) # (k', v') # m
      else if k = k' then (k, v) # m
      else (k', v') # map_set k v m)"

definition isSelected :: "int list \<Rightarrow> int list \<Rightarrow> int \<Rightarrow> bool" where
  "isSelected WL BL i =
     (if WL \<noteq> [] then i \<in> set WL
      else if BL \<noteq> [] then i \<notin> set BL
      else True)"

text \<open>The lambda \<open>selector\<close> over the pre-order visits; \<open>order\<close> is \<open>noelle.parallelizer.looporder\<close>.\<close>

fun collectOrder ::
    "('l \<rightharpoonup> string) \<Rightarrow> int list \<Rightarrow> int list \<Rightarrow> 'l list \<Rightarrow> (u32 \<times> 'l) list \<Rightarrow>
     (u32 \<times> 'l) list result" where
  "collectOrder order WL BL [] m = Inr m"
| "collectOrder order WL BL (ls # lss) m =
     (case order ls of
        None \<Rightarrow> collectOrder order WL BL lss m
      | Some s \<Rightarrow>
          (case stoi s of
             Inl e \<Rightarrow> Inl e
           | Inr i \<Rightarrow>
               if \<not> isSelected WL BL i then collectOrder order WL BL lss m
               else collectOrder order WL BL lss (map_set (word_of_int i) ls m)))"

section \<open>All loops\<close>

record ('l, 'p, 'b) par_state =
  program :: 'p
  modifiedBBs :: "'b \<Rightarrow> bool"
  parallelized :: "'l list"

text \<open>
  The main loop. \<open>blocks\<close> are the basic blocks of a loop, \<open>identified\<close> says whether the loop has an
  ID; \<open>parallelized\<close> lists the loops changed so far, the last one first.
\<close>

fun tryLoops ::
    "('l \<Rightarrow> 'p \<Rightarrow> (bool \<times> 'p) result) \<Rightarrow> ('l \<Rightarrow> 'b list) \<Rightarrow> ('l \<Rightarrow> bool) \<Rightarrow> 'l list \<Rightarrow>
     ('l, 'p, 'b) par_state \<Rightarrow> ('l, 'p, 'b) par_state result" where
  "tryLoops parallelize blocks identified [] s = Inr s"
| "tryLoops parallelize blocks identified (ls # lss) s =
     (if list_ex (modifiedBBs s) (blocks ls)
      then tryLoops parallelize blocks identified lss s
      else case parallelize ls (program s) of
             Inl e \<Rightarrow> Inl e
           | Inr (loopIsParallelized, p) \<Rightarrow>
               if \<not> loopIsParallelized
               then tryLoops parallelize blocks identified lss (s\<lparr>program := p\<rparr>)
               else if \<not> identified ls then Inl AssertionFailed
               else tryLoops parallelize blocks identified lss
                      (s\<lparr>program := p, modifiedBBs := (\<lambda>b. b \<in> set (blocks ls) \<or> modifiedBBs s b),
                         parallelized := ls # parallelized s\<rparr>))"

definition parallelizeLoops ::
    "(string \<Rightarrow> 'f option) \<Rightarrow> ('f \<Rightarrow> 't) \<Rightarrow> ('l, 'p, 'v) par_tools \<Rightarrow> ('l loop_tree \<Rightarrow> 'l list) \<Rightarrow> ('l \<rightharpoonup> string) \<Rightarrow> int list \<Rightarrow> int list \<Rightarrow>
     ('l \<Rightarrow> 'b list) \<Rightarrow> ('l \<Rightarrow> bool) \<Rightarrow> 'l loop_tree list \<Rightarrow> 'p \<Rightarrow> ('l, 'p, 'b) par_state result" where
  "parallelizeLoops getFunction firstArgType T visit order WL BL blocks identified forest p =
     (let s0 = \<lparr>program = p, modifiedBBs = (\<lambda>_. False), parallelized = []\<rparr> in
      case collectThreadPoolHelperFunctionsAndTypes getFunction firstArgType of Inl e \<Rightarrow> Inl e
      | Inr _ \<Rightarrow>
      if length (concat (map loops forest)) = 0 then Inr s0
      else case collectOrder order WL BL (concat (map visit forest)) [] of
             Inl e \<Rightarrow> Inl e
           | Inr m \<Rightarrow> tryLoops (parallelizeLoop T) blocks identified (map snd m) s0)"

section \<open>Queue sizes\<close>

definition bits_of :: "queue_type \<Rightarrow> nat" where
  "bits_of t = (case t of Queue_int8 \<Rightarrow> 8 | Queue_int16 \<Rightarrow> 16 | Queue_int32 \<Rightarrow> 32 | Queue_int64 \<Rightarrow> 64)"

lemma collectFunctions_length:
  "collectFunctions getFunction names = Inr fs \<Longrightarrow> length fs = length names"
  by (induction names arbitrary: fs) (auto split: option.splits sum.splits)

lemma sint_eq_numeral: "sint (w :: i64) = sint (v :: i64) \<longleftrightarrow> w = v"
  by (metis signed_word_eqI)

text \<open>
  the compiler and the runtime agree on the queue sizes: the runtime can allocate a queue for a
  size exactly when the compiler has an entry for it, and then the entry names an existing push and
  pop function and an element type of the width the runtime allocates.
\<close>

theorem queue_sizes_agree:
  assumes "collectThreadPoolHelperFunctionsAndTypes getFunction firstArgType = Inr q"
  shows "case newQueue sz of
      Inl _ \<Rightarrow> queueSizeToIndex q (sint sz) = None
    | Inr t \<Rightarrow> (\<exists>i. queueSizeToIndex q (sint sz) = Some i \<and> i < length (queuePushes q) \<and>
        i < length (queuePops q) \<and> queueElementTypes q ! i = bits_of t)"
proof -
  have q: "queueSizeToIndex q = [1 \<mapsto> 0, 8 \<mapsto> 0, 16 \<mapsto> 1, 32 \<mapsto> 2, 64 \<mapsto> 3]"
    "queueElementTypes q = [8, 16, 32, 64]" "length (queuePushes q) = 4" "length (queuePops q) = 4"
  proof -
    obtain f g where fg: "collectFunctions getFunction pushers = Inr f"
      "collectFunctions getFunction poppers = Inr g"
      and "q = \<lparr>queuePushes = f, queuePops = g, queueTypes = map firstArgType f,
         queueSizeToIndex = [1 \<mapsto> 0, 8 \<mapsto> 0, 16 \<mapsto> 1, 32 \<mapsto> 2, 64 \<mapsto> 3],
         queueElementTypes = [8, 16, 32, 64]\<rparr>"
      using assms unfolding collectThreadPoolHelperFunctionsAndTypes_def by (auto split: sum.splits)
    moreover have "length f = 4" "length g = 4"
      using collectFunctions_length [OF fg(1)] collectFunctions_length [OF fg(2)]
      by (simp_all add: pushers_def poppers_def)
    ultimately show "queueSizeToIndex q = [1 \<mapsto> 0, 8 \<mapsto> 0, 16 \<mapsto> 1, 32 \<mapsto> 2, 64 \<mapsto> 3]"
      "queueElementTypes q = [8, 16, 32, 64]" "length (queuePushes q) = 4" "length (queuePops q) = 4"
      by simp_all
  qed
  have s: "sint sz = 1 \<longleftrightarrow> sz = 1" "sint sz = 8 \<longleftrightarrow> sz = 8" "sint sz = 16 \<longleftrightarrow> sz = 16"
    "sint sz = 32 \<longleftrightarrow> sz = 32" "sint sz = 64 \<longleftrightarrow> sz = 64"
    using sint_eq_numeral [of sz 1] sint_eq_numeral [of sz 8] sint_eq_numeral [of sz 16]
      sint_eq_numeral [of sz 32] sint_eq_numeral [of sz 64] by simp_all
  show ?thesis by (simp add: newQueue_def q s bits_of_def)
qed

theorem queue_sizes_agree_witness:
  "\<exists>q i. collectThreadPoolHelperFunctionsAndTypes Some (\<lambda>f. f) = Inr q \<and>
     queueSizeToIndex q 32 = Some i \<and> queueElementTypes q ! i = 32"
proof -
  obtain q where q: "collectThreadPoolHelperFunctionsAndTypes Some (\<lambda>f :: string. f) = Inr q"
    by (simp add: collectThreadPoolHelperFunctionsAndTypes_def pushers_def poppers_def)
  have n: "newQueue 32 = Inr Queue_int32" by (simp add: newQueue_def)
  have "sint (32 :: i64) = 32" by simp
  with queue_sizes_agree [OF q, of 32] obtain i
    where "queueSizeToIndex q 32 = Some i" "queueElementTypes q ! i = 32"
    unfolding n by (auto simp: bits_of_def)
  with q show ?thesis by blast
qed

section \<open>The technique used\<close>

text \<open>
  DOALL is preferred to HELIX and HELIX to DSWP: a loop is changed by at most one technique, the
  first applicable one, and a loop to which none applies leaves the program as it is.
\<close>

theorem technique_priority:
  assumes "parallelizeLoop T ls p = Inr (b, p')"
  shows "((\<forall>i. \<not> applicable T ls p i) \<and> \<not> b \<and> p' = p) \<or>
    (\<exists>i q. applicable T ls p i \<and> applyTo (techniqueOf T i) ls p = (b, q) \<and> (b \<or> p' = q) \<and>
       (i = HELIX_ID \<longrightarrow> \<not> applicable T ls p DOALL_ID) \<and>
       (i = DSWP_ID \<longrightarrow> \<not> applicable T ls p DOALL_ID \<and> \<not> applicable T ls p HELIX_ID) \<and>
       (b \<longrightarrow> (\<exists>entry exit a n. envArray (techniqueOf T i) q = Some a \<and>
          entryPoint (techniqueOf T i) q = Some entry \<and> exitPoint (techniqueOf T i) q = Some exit \<and>
          p' = linkLoop T ls entry exit a n (minimumNumberOfIdleCores (techniqueOf T i) q) q)))"
proof (cases "find (applicable T ls p) [DOALL_ID, HELIX_ID, DSWP_ID]")
  case None
  then have "\<not> applicable T ls p i" for i by (cases i) (auto split: if_splits)
  with None assms show ?thesis by (simp add: parallelizeLoop_def)
next
  case (Some i)
  let ?t = "techniqueOf T i"
  have app: "applicable T ls p i" "i = HELIX_ID \<longrightarrow> \<not> applicable T ls p DOALL_ID"
    "i = DSWP_ID \<longrightarrow> \<not> applicable T ls p DOALL_ID \<and> \<not> applicable T ls p HELIX_ID"
    using Some by (auto split: if_splits)
  have run: "applyTechnique T ?t ls p = Inr (b, p')"
    using assms Some by (simp add: parallelizeLoop_def)
  obtain c q where cq: "applyTo ?t ls p = (c, q)" by fastforce
  have "b = c \<and> (b \<or> p' = q) \<and> (b \<longrightarrow> (\<exists>entry exit a n. envArray ?t q = Some a \<and>
      entryPoint ?t q = Some entry \<and> exitPoint ?t q = Some exit \<and>
      p' = linkLoop T ls entry exit a n (minimumNumberOfIdleCores ?t q) q))"
    using run cq by (auto simp: applyTechnique_def split: if_splits option.splits)
  with app cq show ?thesis by blast
qed

definition example_tools :: "(nat, nat, nat) par_tools" where
  "example_tools = \<lparr>
     techniqueOf = (\<lambda>i. \<lparr>enabled = (\<lambda>l. True), canBeAppliedToLoop = (\<lambda>l p. i \<noteq> DOALL_ID \<and> l < 2),
       applyTo = (\<lambda>l p. (True, p + 1)), envArray = Some, entryPoint = Some, exitPoint = Some,
       indexOfEnvironmentVariable = (\<lambda>p i. i), minimumNumberOfIdleCores = (\<lambda>p. 2)\<rparr>),
     exitBlockID = (\<lambda>l. 0), linkLoop = (\<lambda>l entry exit a i n p. p + 10 + n)\<rparr>"

lemma example_parallelizeLoop:
  "parallelizeLoop example_tools l p = Inr (if l < 2 then (True, p + 13) else (False, p))"
  by (simp add: parallelizeLoop_def applicable_def example_tools_def applyTechnique_def)

theorem technique_priority_witness:
  "\<exists>i. i \<noteq> DOALL_ID \<and> applicable example_tools 0 5 i \<and>
     applyTo (techniqueOf example_tools i) 0 5 = (True, 6)"
proof -
  have run: "parallelizeLoop example_tools 0 5 = Inr (True, 18)" by (simp add: example_parallelizeLoop)
  from technique_priority [OF run] obtain i q where "applicable example_tools 0 5 i"
    "applyTo (techniqueOf example_tools i) 0 5 = (True, q)"
    by blast
  then show ?thesis by (intro exI [of _ i]) (auto simp: applicable_def example_tools_def)
qed

section \<open>No code is parallelized twice\<close>

text \<open>The marked blocks are those of the loops parallelized so far, which do not overlap.\<close>

definition par_inv :: "('l \<Rightarrow> 'b list) \<Rightarrow> ('l, 'p, 'b) par_state \<Rightarrow> bool" where
  "par_inv blocks s \<longleftrightarrow>
     (\<forall>b. modifiedBBs s b \<longleftrightarrow> (\<exists>l \<in> set (parallelized s). b \<in> set (blocks l))) \<and>
     sorted_wrt (\<lambda>a b. set (blocks a) \<inter> set (blocks b) = {}) (parallelized s)"

lemma tryLoops_inv:
  assumes "tryLoops parallelize blocks identified lss s = Inr s'" and "par_inv blocks s"
  shows "par_inv blocks s' \<and> set (parallelized s) \<subseteq> set (parallelized s') \<and>
    set (parallelized s') \<subseteq> set (parallelized s) \<union> set lss \<and>
    (\<forall>l \<in> set lss. l \<in> set (parallelized s') \<or> list_ex (modifiedBBs s') (blocks l) \<or>
       (\<exists>p p'. parallelize l p = Inr (False, p')))"
  using assms
proof (induction lss arbitrary: s)
  case (Cons l lss)
  show ?case
  proof (cases "list_ex (modifiedBBs s) (blocks l)")
    case True
    then have "tryLoops parallelize blocks identified lss s = Inr s'" using Cons.prems(1) by simp
    note ih = Cons.IH [OF this Cons.prems(2)]
    moreover have "list_ex (modifiedBBs s') (blocks l)"
      using True ih Cons.prems(2) by (fastforce simp: list_ex_iff par_inv_def)
    ultimately show ?thesis by auto
  next
    case False
    then obtain b p where bp: "parallelize l (program s) = Inr (b, p)"
      using Cons.prems(1) by (cases "parallelize l (program s)") auto
    show ?thesis
    proof (cases b)
      case True
      let ?s = "s\<lparr>program := p, modifiedBBs := (\<lambda>b. b \<in> set (blocks l) \<or> modifiedBBs s b),
          parallelized := l # parallelized s\<rparr>"
      have run: "tryLoops parallelize blocks identified lss ?s = Inr s'"
        using Cons.prems(1) False bp True by (simp split: if_splits)
      have "set (blocks l) \<inter> set (blocks k) = {}" if "k \<in> set (parallelized s)" for k
        using False that Cons.prems(2) by (auto simp: list_ex_iff par_inv_def)
      then have "par_inv blocks ?s" using Cons.prems(2) by (auto simp: par_inv_def)
      from Cons.IH [OF run this] show ?thesis by auto
    next
      case nb: False
      have run: "tryLoops parallelize blocks identified lss (s\<lparr>program := p\<rparr>) = Inr s'"
        using Cons.prems(1) False bp nb by simp
      have "par_inv blocks (s\<lparr>program := p\<rparr>)" using Cons.prems(2) by (simp add: par_inv_def)
      from Cons.IH [OF run this] bp nb show ?thesis by auto
    qed
  qed
qed simp

lemma map_set_keys:
  "sorted_wrt (<) (map fst m) \<Longrightarrow>
     sorted_wrt (<) (map fst (map_set k v m)) \<and>
     set (map_set k v m) = insert (k, v) {(a, b). (a, b) \<in> set m \<and> a \<noteq> k}"
proof (induction k v m rule: map_set.induct)
  case (2 k v k' v' m)
  consider "k < k'" | "k = k'" | "k' < k" by (rule linorder_cases)
  then show ?case
  proof cases
    case 1
    with 2 show ?thesis by force
  next
    case 2
    with "2.prems" show ?thesis by force
  next
    case 3
    then have "\<not> k < k'" "k \<noteq> k'" by auto
    with 2 3 show ?thesis by force
  qed
qed simp

lemma collectOrder_selected:
  assumes "collectOrder order WL BL lss m = Inr m'" and "sorted_wrt (<) (map fst m)"
    and "\<forall>(k, l) \<in> set m. \<exists>s i. order l = Some s \<and> stoi s = Inr i \<and> isSelected WL BL i \<and> k = word_of_int i"
  shows "sorted_wrt (<) (map fst m') \<and>
    (\<forall>(k, l) \<in> set m'. \<exists>s i. order l = Some s \<and> stoi s = Inr i \<and> isSelected WL BL i \<and> k = word_of_int i)"
  using assms
proof (induction lss arbitrary: m)
  case (Cons l lss)
  consider "order l = None"
    | s i where "order l = Some s" "stoi s = Inr i" "\<not> isSelected WL BL i"
    | s i where "order l = Some s" "stoi s = Inr i" "isSelected WL BL i"
    using Cons.prems(1) by (cases "order l") (auto split: sum.splits)
  then show ?case
  proof cases
    case 1
    with Cons show ?thesis by simp
  next
    case (2 s i)
    with Cons show ?thesis by simp
  next
    case (3 s i)
    have ok: "sorted_wrt (<) (map fst (map_set (word_of_int i) l m))"
      "\<forall>(k, l) \<in> set (map_set (word_of_int i) l m).
         \<exists>s i. order l = Some s \<and> stoi s = Inr i \<and> isSelected WL BL i \<and> k = word_of_int i"
      using map_set_keys [OF Cons.prems(2), of "word_of_int i" l] Cons.prems(3) 3 by auto
    from 3 Cons.prems(1) have "collectOrder order WL BL lss (map_set (word_of_int i) l m) = Inr m'"
      by simp
    from Cons.IH [OF this ok] show ?thesis .
  qed
qed simp

text \<open>
  C16: the loops that get parallelized share no basic block, so no code is parallelized twice; each
  of them was selected by its index; and a selected loop is left sequential only if it overlaps a
  parallelized loop or no technique changed it.
\<close>

theorem parallelized_disjoint:
  assumes "parallelizeLoops getFunction firstArgType T visit order WL BL blocks identified forest p = Inr s"
  shows "sorted_wrt (\<lambda>a b. set (blocks a) \<inter> set (blocks b) = {}) (parallelized s) \<and>
    (\<forall>l \<in> set (parallelized s). \<exists>str i. order l = Some str \<and> stoi str = Inr i \<and> isSelected WL BL i) \<and>
    (concat (map loops forest) \<noteq> [] \<longrightarrow>
     (\<exists>m. collectOrder order WL BL (concat (map visit forest)) [] = Inr m \<and>
       (\<forall>l \<in> set (map snd m). l \<in> set (parallelized s) \<or>
          (\<exists>k \<in> set (parallelized s). set (blocks k) \<inter> set (blocks l) \<noteq> {}) \<or>
          (\<exists>q q'. parallelizeLoop T l q = Inr (False, q')))))"
proof (cases "concat (map loops forest) = []")
  case True
  then show ?thesis using assms by (auto simp: parallelizeLoops_def Let_def split: sum.splits)
next
  case False
  let ?s0 = "\<lparr>program = p, modifiedBBs = (\<lambda>_. False), parallelized = []\<rparr>"
  have len: "(length (concat (map loops forest)) = 0) = False" using False by (simp only: length_0_conv)
  have "(case collectOrder order WL BL (concat (map visit forest)) [] of Inl e \<Rightarrow> Inl e
      | Inr m \<Rightarrow> tryLoops (parallelizeLoop T) blocks identified (map snd m) ?s0) = Inr s"
    using assms unfolding parallelizeLoops_def Let_def len if_False
    by (cases "collectThreadPoolHelperFunctionsAndTypes getFunction firstArgType") simp_all
  then obtain m where m: "collectOrder order WL BL (concat (map visit forest)) [] = Inr m"
    and run: "tryLoops (parallelizeLoop T) blocks identified (map snd m) ?s0 = Inr s"
    by (cases "collectOrder order WL BL (concat (map visit forest)) []") simp_all
  have "par_inv blocks ?s0" by (simp add: par_inv_def)
  note inv = tryLoops_inv [OF run this]
  have sel: "\<forall>(k, l) \<in> set m. \<exists>str i. order l = Some str \<and> stoi str = Inr i \<and> isSelected WL BL i"
    using collectOrder_selected [OF m] by fastforce
  have "\<exists>k \<in> set (parallelized s). set (blocks k) \<inter> set (blocks l) \<noteq> {}"
    if "list_ex (modifiedBBs s) (blocks l)" for l
    using that inv by (auto simp: list_ex_iff par_inv_def)
  with inv sel m show ?thesis by (fastforce simp: par_inv_def)
qed

theorem parallelized_disjoint_witness:
  "\<exists>s. parallelizeLoops Some (\<lambda>f. f) example_tools loops [0 \<mapsto> std_to_string 0, 1 \<mapsto> std_to_string 1] [] []
       (\<lambda>l :: nat. if l = 0 then [7, 8] else [8 :: nat]) (\<lambda>l. True) [LoopTree 0 [LoopTree 1 []]] 5 = Inr s \<and>
     parallelized s = [0] \<and> program s = 18 \<and>
     sorted_wrt (\<lambda>a b. set (if a = 0 then [7, 8] else [8 :: nat]) \<inter> set (if b = 0 then [7, 8] else [8]) = {})
       (parallelized s)"
proof -
  let ?b = "\<lambda>l :: nat. if l = 0 then [7, 8] else [8 :: nat]"
  have n: "stoi (std_to_string 0) = Inr 0" "stoi (std_to_string (Suc 0)) = Inr 1"
    using stoi_to_string [of 0] stoi_to_string [of 1] by simp_all
  obtain q where q: "collectThreadPoolHelperFunctionsAndTypes Some (\<lambda>f :: string. f) = Inr q"
    by (simp add: collectThreadPoolHelperFunctionsAndTypes_def pushers_def poppers_def)
  obtain s where s: "parallelizeLoops Some (\<lambda>f. f) example_tools loops [0 \<mapsto> std_to_string 0, 1 \<mapsto> std_to_string 1] [] []
      ?b (\<lambda>l. True) [LoopTree 0 [LoopTree 1 []]] 5 = Inr s" "parallelized s = [0]" "program s = 18"
    by (simp add: parallelizeLoops_def q n isSelected_def example_parallelizeLoop)
  from conjunct1 [OF parallelized_disjoint [OF s(1)]] s show ?thesis by blast
qed

section \<open>The plan is read back\<close>

lemma plan_meta_nth: "distinct plan \<Longrightarrow> i < length plan \<Longrightarrow> plan_meta plan (plan ! i) = Some (std_to_string i)"
  by (simp add: plan_meta_def map_of_zip_nth)

lemma plan_meta_None: "l \<notin> set plan \<Longrightarrow> plan_meta plan l = None"
  by (simp add: plan_meta_def map_of_zip_is_None)

text \<open>\<open>m\<close> holds the loops of the plan that have been visited, under their numbers.\<close>

definition reads_plan :: "'l list \<Rightarrow> 'l set \<Rightarrow> (u32 \<times> 'l) list \<Rightarrow> bool" where
  "reads_plan plan V m \<longleftrightarrow> sorted_wrt (<) (map fst m) \<and>
     set m = {(of_nat i, plan ! i) | i. i < length plan \<and> plan ! i \<in> V}"

lemma u32_of_nat_eq: "i < 2 ^ 32 \<Longrightarrow> j < 2 ^ 32 \<Longrightarrow> (of_nat i :: u32) = of_nat j \<longleftrightarrow> i = j"
  by (metis u32_unat_of_nat)

lemma collectOrder_plan:
  assumes d: "distinct plan" and len: "length plan < 2 ^ 31" and m: "reads_plan plan V m"
  shows "\<exists>m'. collectOrder (plan_meta plan) [] [] lss m = Inr m' \<and> reads_plan plan (V \<union> set lss) m'"
  using m
proof (induction lss arbitrary: m V)
  case (Cons l lss)
  show ?case
  proof (cases "l \<in> set plan")
    case True
    then obtain i where i: "i < length plan" "plan ! i = l" by (auto simp: in_set_conv_nth)
    have "plan_meta plan l = Some (std_to_string i)" using plan_meta_nth [OF d i(1)] i(2) by simp
    moreover have "stoi (std_to_string i) = Inr (int i)" using i len by (intro stoi_to_string) simp
    moreover have "reads_plan plan (insert l V) (map_set (of_nat i) l m)"
    proof -
      have "{(a, b). (a, b) \<in> set m \<and> a \<noteq> of_nat i} =
          {(of_nat j, plan ! j) | j. j < length plan \<and> plan ! j \<in> V \<and> j \<noteq> i}"
        using Cons.prems i(1) len u32_of_nat_eq [of _ i] unfolding reads_plan_def by fastforce
      then have "set (map_set (of_nat i) l m) =
          {(of_nat j, plan ! j) | j. j < length plan \<and> plan ! j \<in> insert l V}"
        using map_set_keys [of m "of_nat i" l] Cons.prems i d
        by (auto simp: reads_plan_def nth_eq_iff_index_eq)
      then show ?thesis
        using map_set_keys [of m "of_nat i" l] Cons.prems by (simp add: reads_plan_def)
    qed
    from Cons.IH [OF this] calculation show ?thesis by (simp add: isSelected_def)
  next
    case False
    then have "reads_plan plan (insert l V) m"
      using Cons.prems by (auto simp: reads_plan_def)
    from Cons.IH [OF this] False show ?thesis by (simp add: plan_meta_None)
  qed
qed simp

lemma sorted_keys_unique:
  assumes "sorted_wrt (<) (map fst m)" and "sorted_wrt (<) (map fst m')" and "set m = set (m' :: ('k::linorder \<times> 'v) list)"
  shows "m = m'"
proof (rule map_sorted_distinct_set_unique)
  show "inj_on fst (set m \<union> set m')"
    using assms by (metis Un_absorb strict_sorted_imp_sorted distinct_map strict_sorted_iff)
  show "sorted (map fst m)" "sorted (map fst m')" "distinct (map fst m)" "distinct (map fst m')"
    using assms(1,2) by (auto simp: strict_sorted_iff)
qed (rule assms(3))

text \<open>
  C40: reading the metadata back, without a white or a black list, gives exactly the planner's order:
  the loops of the plan under the numbers 0, 1, 2, ..., whatever the order in which the trees are
  visited.
\<close>

theorem plan_read_back:
  assumes "distinct plan" and "length plan < 2 ^ 31" and "set plan \<subseteq> set lss"
  shows "collectOrder (plan_meta plan) [] [] lss [] = Inr (zip (map of_nat [0..<length plan]) plan)"
proof -
  have "reads_plan plan {} ([] :: (u32 \<times> 'a) list)" by (simp add: reads_plan_def)
  from collectOrder_plan [OF assms(1,2) this]
  obtain m where m: "collectOrder (plan_meta plan) [] [] lss [] = Inr m" "reads_plan plan (set lss) m"
    by auto
  let ?z = "zip (map of_nat [0..<length plan]) plan :: (u32 \<times> 'a) list"
  have "sorted_wrt (\<lambda>i j. (of_nat i :: u32) < of_nat j) [0..<length plan]"
    using assms(2) by (intro sorted_wrt_mono_rel [OF _ sorted_wrt_upt])
      (auto simp: word_less_nat_alt u32_unat_of_nat)
  then have "sorted_wrt (<) (map fst ?z)" by (simp add: sorted_wrt_map)
  moreover have "?z = map (\<lambda>i. (of_nat i, plan ! i)) [0..<length plan]"
    by (rule nth_equalityI) auto
  then have "set ?z = {(of_nat i, plan ! i) | i. i < length plan}" by auto
  moreover have "plan ! i \<in> set lss" if "i < length plan" for i
    using assms(3) that by auto
  ultimately have "m = ?z"
    using m(2) by (intro sorted_keys_unique) (auto simp: reads_plan_def)
  with m(1) show ?thesis by simp
qed

theorem plan_read_back_witness:
  "collectOrder (plan_meta [5, 3 :: nat]) [] [] [1, 3, 5] [] = Inr [(0, 5), (1, 3)]"
  using plan_read_back [of "[5, 3 :: nat]" "[1, 3, 5]"] by (simp add: upt_rec)

end
