(* ===== verification/Invocation_Latency.thy ===== *)
theory Invocation_Latency
  imports Gino_Prelude
begin

text \<open>
  \<open>InvocationLatency\<close> (\<open>heuristics/src/InvocationLatency.cpp\<close>): the estimated time of a partition of
  the components of a loop into pipeline stages. The class caches costs, clonable parents and
  incoming values per component; the lemmas show that the caches do not change any result.
\<close>

section \<open>What it is given and what it keeps\<close>

text \<open>
  \<open>'c\<close> are components, \<open>'v\<close> values. \<open>edgesViaClones\<close> and \<open>parentsViaClones\<close> are the two results of
  \<open>SCCDAGAttrs::computeSCCDAGWhenSCCsAreIgnored\<close>: the edges of a component, each with the component
  it leads to and the values of its sub-edges, and its parents. \<open>inPointerOrder\<close> enumerates a
  \<open>std::set\<close> of components. The code passes the attributes and the predicate on what can be
  rematerialized with every call; here they are the same for all the calls on one object, as they are where
  \<open>PartitionCostAnalysis.cpp\<close> uses it.
\<close>

record ('c, 'v) il_env =
  totalInstructions :: "'c \<Rightarrow> u64"
  rematerializable :: "'c \<Rightarrow> bool"
  edgesViaClones :: "'c \<Rightarrow> ('c \<times> 'v list) list"
  parentsViaClones :: "'c \<Rightarrow> 'c list"
  inPointerOrder :: "'c set \<Rightarrow> 'c list"

record ('c, 'v) il_state =
  sccToCost :: "'c \<rightharpoonup> u64"
  incomingExternals :: "'c \<rightharpoonup> 'v set"
  clonableParents :: "'c \<rightharpoonup> 'c set"

definition il_new :: "('c, 'v) il_state" where
  "il_new = \<lparr>sccToCost = Map.empty, incomingExternals = Map.empty, clonableParents = Map.empty\<rparr>"

section \<open>The cached queries\<close>

definition latencyOfSCC :: "('c, 'v) il_env \<Rightarrow> 'c \<Rightarrow> ('c, 'v) il_state \<Rightarrow> u64 \<times> ('c, 'v) il_state" where
  "latencyOfSCC E scc s =
     (case sccToCost s scc of
        Some cost \<Rightarrow> (cost, s)
      | None \<Rightarrow> let cost = totalInstructions E scc
                in (cost, s\<lparr>sccToCost := (sccToCost s)(scc \<mapsto> cost)\<rparr>))"

text \<open>The loops over the edges and over the parents.\<close>

definition externalsOf :: "('c, 'v) il_env \<Rightarrow> 'c \<Rightarrow> 'v set" where
  "externalsOf E scc =
     foldl (\<lambda>vs (parent, dsts). if rematerializable E parent then vs else vs \<union> set dsts)
       {} (edgesViaClones E scc)"

definition parentsOf :: "('c, 'v) il_env \<Rightarrow> 'c \<Rightarrow> 'c set" where
  "parentsOf E scc =
     foldl (\<lambda>ps parent. if rematerializable E parent then insert parent ps else ps)
       {} (parentsViaClones E scc)"

definition memoizeExternals ::
    "('c, 'v) il_env \<Rightarrow> 'c \<Rightarrow> ('c, 'v) il_state \<Rightarrow> 'v set \<times> ('c, 'v) il_state" where
  "memoizeExternals E scc s =
     (case incomingExternals s scc of
        Some vs \<Rightarrow> (vs, s)
      | None \<Rightarrow> let vs = externalsOf E scc
                in (vs, s\<lparr>incomingExternals := (incomingExternals s)(scc \<mapsto> vs)\<rparr>))"

definition memoizeParents ::
    "('c, 'v) il_env \<Rightarrow> 'c \<Rightarrow> ('c, 'v) il_state \<Rightarrow> 'c set \<times> ('c, 'v) il_state" where
  "memoizeParents E scc s =
     (case clonableParents s scc of
        Some ps \<Rightarrow> (ps, s)
      | None \<Rightarrow> let ps = parentsOf E scc
                in (ps, s\<lparr>clonableParents := (clonableParents s)(scc \<mapsto> ps)\<rparr>))"

text \<open>One instruction: PHI nodes, address computations and casts are free.\<close>

definition latencyOfInstruction :: "bool \<Rightarrow> bool \<Rightarrow> bool \<Rightarrow> u64 \<Rightarrow> u64" where
  "latencyOfInstruction isPHI isGEP isCast totalInstructionsOfInst =
     (if isPHI \<or> isGEP \<or> isCast then 0 else totalInstructionsOfInst)"

definition queueLatency :: "'v \<Rightarrow> u64" where
  "queueLatency queueVal = 100"

section \<open>The cost of a partition\<close>

text \<open>The first inner loop: the components of a set and the parents to clone with them.\<close>

fun addParents ::
    "('c, 'v) il_env \<Rightarrow> 'c list \<Rightarrow> 'c set \<Rightarrow> ('c, 'v) il_state \<Rightarrow> 'c set \<times> ('c, 'v) il_state" where
  "addParents E [] sub s = (sub, s)"
| "addParents E (scc # sccs) sub s =
     (let (ps, s) = memoizeParents E scc s in addParents E sccs (sub \<union> ps) s)"

text \<open>The second: incoming values and internal cost.\<close>

fun addCosts ::
    "('c, 'v) il_env \<Rightarrow> 'c list \<Rightarrow> 'v set \<Rightarrow> u64 \<Rightarrow> ('c, 'v) il_state \<Rightarrow>
     'v set \<times> u64 \<times> ('c, 'v) il_state" where
  "addCosts E [] qs cost s = (qs, cost, s)"
| "addCosts E (scc # sccs) qs cost s =
     (let (vs, s) = memoizeExternals E scc s; (c, s) = latencyOfSCC E scc s
      in addCosts E sccs (qs \<union> vs) (cost + c) s)"

fun latencyLoop ::
    "('c, 'v) il_env \<Rightarrow> 'c set list \<Rightarrow> u64 \<Rightarrow> 'v set \<Rightarrow> ('c, 'v) il_state \<Rightarrow>
     u64 \<times> 'v set \<times> ('c, 'v) il_state" where
  "latencyLoop E [] maxInternalCost qs s = (maxInternalCost, qs, s)"
| "latencyLoop E (sccs # sets) maxInternalCost qs s =
     (let (sub, s) = addParents E (inPointerOrder E sccs) sccs s;
          (qs, internalCost, s) = addCosts E (inPointerOrder E sub) qs 0 s
      in latencyLoop E sets
           (if internalCost > maxInternalCost then internalCost else maxInternalCost) qs s)"

definition latencyPerInvocation ::
    "('c, 'v) il_env \<Rightarrow> 'c set list \<Rightarrow> ('c, 'v) il_state \<Rightarrow> u64 \<times> ('c, 'v) il_state" where
  "latencyPerInvocation E sets s =
     (let (maxInternalCost, queueValues, s) = latencyLoop E sets 0 {} s
      in (maxInternalCost + (\<Sum>v \<in> queueValues. queueLatency v), s))"

section \<open>The same without caches\<close>

definition withParents :: "('c, 'v) il_env \<Rightarrow> 'c set \<Rightarrow> 'c set" where
  "withParents E sccs = sccs \<union> (\<Union>scc \<in> sccs. parentsOf E scc)"

definition internalCost :: "('c, 'v) il_env \<Rightarrow> 'c set \<Rightarrow> u64" where
  "internalCost E sccs = (\<Sum>scc \<in> withParents E sccs. totalInstructions E scc)"

text \<open>
  The largest internal cost of a set of the partition plus 100 for each value that enters some set
  from a component that is not cloned.
\<close>

definition partitionCost :: "('c, 'v) il_env \<Rightarrow> 'c set list \<Rightarrow> u64" where
  "partitionCost E sets =
     foldl max 0 (map (internalCost E) sets) +
     100 * of_nat (card (\<Union>sccs \<in> set sets. \<Union>scc \<in> withParents E sccs. externalsOf E scc))"

definition env_orders :: "('c, 'v) il_env \<Rightarrow> bool" where
  "env_orders E \<longleftrightarrow> (\<forall>S. finite S \<longrightarrow> distinct (inPointerOrder E S) \<and> set (inPointerOrder E S) = S)"

text \<open>Every cached entry is what would be computed now.\<close>

definition caches_ok :: "('c, 'v) il_env \<Rightarrow> ('c, 'v) il_state \<Rightarrow> bool" where
  "caches_ok E s \<longleftrightarrow>
     (\<forall>scc c. sccToCost s scc = Some c \<longrightarrow> c = totalInstructions E scc) \<and>
     (\<forall>scc vs. incomingExternals s scc = Some vs \<longrightarrow> vs = externalsOf E scc) \<and>
     (\<forall>scc ps. clonableParents s scc = Some ps \<longrightarrow> ps = parentsOf E scc)"

lemma caches_ok_new: "caches_ok E il_new"
  by (simp add: caches_ok_def il_new_def)

lemma latencyOfSCC_value:
  "caches_ok E s \<Longrightarrow> latencyOfSCC E scc s = (c, s') \<Longrightarrow> c = totalInstructions E scc \<and> caches_ok E s'"
  by (auto simp: latencyOfSCC_def caches_ok_def Let_def split: option.splits if_splits)

lemma memoizeExternals_value:
  "caches_ok E s \<Longrightarrow> memoizeExternals E scc s = (vs, s') \<Longrightarrow> vs = externalsOf E scc \<and> caches_ok E s'"
  by (auto simp: memoizeExternals_def caches_ok_def Let_def split: option.splits if_splits)

lemma memoizeParents_value:
  "caches_ok E s \<Longrightarrow> memoizeParents E scc s = (ps, s') \<Longrightarrow> ps = parentsOf E scc \<and> caches_ok E s'"
  by (auto simp: memoizeParents_def caches_ok_def Let_def split: option.splits if_splits)

lemma addParents_value:
  "caches_ok E s \<Longrightarrow> addParents E sccs sub s = (r, s') \<Longrightarrow>
     r = sub \<union> (\<Union>scc \<in> set sccs. parentsOf E scc) \<and> caches_ok E s'"
proof (induction sccs arbitrary: sub s)
  case (Cons scc sccs)
  obtain ps s1 where p: "memoizeParents E scc s = (ps, s1)" by fastforce
  note v = memoizeParents_value [OF Cons.prems(1) p]
  have "addParents E sccs (sub \<union> ps) s1 = (r, s')" using Cons.prems(2) p by simp
  from Cons.IH [OF conjunct2 [OF v] this] v show ?case by auto
qed simp

lemma addCosts_value:
  "caches_ok E s \<Longrightarrow> addCosts E sccs qs cost s = (r, c, s') \<Longrightarrow>
     r = qs \<union> (\<Union>scc \<in> set sccs. externalsOf E scc) \<and>
     c = cost + sum_list (map (totalInstructions E) sccs) \<and> caches_ok E s'"
proof (induction sccs arbitrary: qs cost s)
  case (Cons scc sccs)
  obtain vs s1 where p: "memoizeExternals E scc s = (vs, s1)" by fastforce
  note v = memoizeExternals_value [OF Cons.prems(1) p]
  obtain l s2 where q: "latencyOfSCC E scc s1 = (l, s2)" by fastforce
  note w = latencyOfSCC_value [OF conjunct2 [OF v] q]
  have "addCosts E sccs (qs \<union> vs) (cost + l) s2 = (r, c, s')" using Cons.prems(2) p q by simp
  from Cons.IH [OF conjunct2 [OF w] this] v w show ?case by (auto simp: add.assoc)
qed simp

lemma externalsOf_step: "finite (foldl (\<lambda>vs (p, ds). if f p then vs else vs \<union> set ds) V es) = finite V"
proof (induction es arbitrary: V)
  case (Cons e es)
  obtain p ds where "e = (p, ds)" by fastforce
  then show ?case by (simp add: Cons.IH)
qed simp

lemma finite_externalsOf [simp]: "finite (externalsOf E scc)"
  by (simp add: externalsOf_def externalsOf_step)

lemma parentsOf_step: "finite (foldl (\<lambda>ps p. if f p then insert p ps else ps) V es) = finite V"
  by (induction es arbitrary: V) simp_all

lemma finite_parentsOf [simp]: "finite (parentsOf E scc)"
  by (simp add: parentsOf_def parentsOf_step)

lemma finite_withParents: "finite sccs \<Longrightarrow> finite (withParents E sccs)"
  by (simp add: withParents_def)

lemma if_max: "(if m < c then c else m) = max m (c :: u64)"
  by (auto simp: max_def)

lemma latencyLoop_value:
  assumes "env_orders E" and "caches_ok E s" and "\<forall>S \<in> set sets. finite S"
    and "latencyLoop E sets m qs s = (c, r, s')"
  shows "c = foldl max m (map (internalCost E) sets) \<and>
    r = qs \<union> (\<Union>sccs \<in> set sets. \<Union>scc \<in> withParents E sccs. externalsOf E scc) \<and> caches_ok E s'"
  using assms(2-)
proof (induction sets arbitrary: m qs s)
  case (Cons sccs sets)
  have fin: "finite sccs" using Cons.prems by simp
  obtain sub s1 where p: "addParents E (inPointerOrder E sccs) sccs s = (sub, s1)" by fastforce
  have v: "sub = withParents E sccs" "caches_ok E s1"
    using addParents_value [OF Cons.prems(1) p] assms(1) fin by (simp_all add: env_orders_def withParents_def)
  obtain q1 c1 s2 where q: "addCosts E (inPointerOrder E sub) qs 0 s1 = (q1, c1, s2)" by (metis prod_cases3)
  have ord: "set (inPointerOrder E sub) = sub" "distinct (inPointerOrder E sub)"
    using assms(1) finite_withParents [OF fin, of E] unfolding v(1) env_orders_def by blast+
  have w: "q1 = qs \<union> (\<Union>scc \<in> withParents E sccs. externalsOf E scc)" "c1 = internalCost E sccs" "caches_ok E s2"
    using addCosts_value [OF v(2) q] ord v(1)
    by (simp_all add: internalCost_def sum_list_distinct_conv_sum_set)
  have run: "latencyLoop E sets (max m c1) q1 s2 = (c, r, s')"
    using Cons.prems(3) p q by (simp add: if_max)
  have "\<forall>S \<in> set sets. finite S" using Cons.prems(2) by simp
  from Cons.IH [OF w(3) this run] w(1,2) show ?case by (simp add: Un_assoc)
qed simp

lemma latencyPerInvocation_cached:
  assumes "env_orders E" and "caches_ok E s" and "\<forall>S \<in> set sets. finite S"
  shows "\<exists>s'. latencyPerInvocation E sets s = (partitionCost E sets, s') \<and> caches_ok E s'"
proof -
  obtain c r s' where l: "latencyLoop E sets 0 {} s = (c, r, s')" by (metis prod_cases3)
  from latencyLoop_value [OF assms l] l show ?thesis
    by (auto simp: latencyPerInvocation_def partitionCost_def queueLatency_def)
qed

text \<open>The state after a sequence of queries.\<close>

definition afterQueries :: "('c, 'v) il_env \<Rightarrow> 'c set list list \<Rightarrow> ('c, 'v) il_state" where
  "afterQueries E queries = fold (\<lambda>sets s. snd (latencyPerInvocation E sets s)) queries il_new"

lemma afterQueries_caches_ok:
  assumes "env_orders E" and "\<forall>sets \<in> set queries. \<forall>S \<in> set sets. finite S" and "caches_ok E s"
  shows "caches_ok E (fold (\<lambda>sets s. snd (latencyPerInvocation E sets s)) queries s)"
  using assms(2,3)
proof (induction queries arbitrary: s)
  case (Cons sets queries)
  have "\<forall>S \<in> set sets. finite S" using Cons.prems(1) by simp
  from latencyPerInvocation_cached [OF assms(1) Cons.prems(2) this]
  have "caches_ok E (snd (latencyPerInvocation E sets s))" by auto
  then show ?case using Cons by simp
qed simp

text \<open>
  C33: the caches never change a result: whatever partitions were costed before on the same
  \<open>InvocationLatency\<close>, \<open>latencyPerInvocation\<close> returns the cost of the partition as computed from
  scratch, the largest internal cost of a set (its components and the parents cloned with them, each
  counted once) plus 100 for each distinct value received from a component that is not cloned.
\<close>

theorem latencyPerInvocation_cost:
  assumes "env_orders E" and "\<forall>query \<in> set queries. \<forall>S \<in> set query. finite S"
    and "\<forall>S \<in> set sets. finite S"
  shows "fst (latencyPerInvocation E sets (afterQueries E queries)) = partitionCost E sets"
proof -
  have "caches_ok E (afterQueries E queries)"
    unfolding afterQueries_def by (rule afterQueries_caches_ok [OF assms(1,2) caches_ok_new])
  from latencyPerInvocation_cached [OF assms(1) this assms(3)] show ?thesis by auto
qed

definition three_sccs :: "(nat, nat) il_env" where
  "three_sccs = \<lparr>totalInstructions = (\<lambda>c. of_nat (10 * c)), rematerializable = (\<lambda>c. c = 1),
     edgesViaClones = (\<lambda>c. if c = 3 then [(1, [7]), (2, [8, 9])] else []),
     parentsViaClones = (\<lambda>c. if c = 3 then [1, 2] else []), inPointerOrder = sorted_list_of_set\<rparr>"

theorem latencyPerInvocation_cost_witness:
  "fst (latencyPerInvocation three_sccs [{2}, {3}] (afterQueries three_sccs [[{1}, {2}], [{3}]])) = 240"
proof -
  have ext: "externalsOf three_sccs 2 = {}" "externalsOf three_sccs 3 = {8, 9}" "externalsOf three_sccs 1 = {}"
    "parentsOf three_sccs 2 = {}" "parentsOf three_sccs 3 = {1}"
    by (auto simp: externalsOf_def parentsOf_def three_sccs_def)
  then have "withParents three_sccs {2} = {2}" "withParents three_sccs {3} = {1, 3}" by (auto simp: withParents_def)
  then have "partitionCost three_sccs [{2}, {3}] = 240"
    using ext by (simp add: partitionCost_def internalCost_def) (simp add: three_sccs_def)
  moreover have "env_orders three_sccs" by (simp add: env_orders_def three_sccs_def)
  ultimately show ?thesis
    using latencyPerInvocation_cost [of three_sccs "[[{1}, {2}], [{3}]]" "[{2}, {3}]"] by simp
qed

end
