(* ===== verification/Partition_Heuristic.thy ===== *)
theory Partition_Heuristic
  imports Invocation_Latency
begin

text \<open>
  How DSWP's partition of a loop is coarsened (\<open>heuristics/src\<close>: \<open>Heuristics.cpp\<close>,
  \<open>PartitionCostAnalysis.cpp\<close>, \<open>MinMaxSizePartitionAnalysis.cpp\<close>,
  \<open>SmallestSizePartitionAnalysis.cpp\<close>): look at every edge between two sets, pick the merge whose
  result is cheapest, merge, and start again until there are at most as many sets as threads.
\<close>

section \<open>The partitioner\<close>

text \<open>
  The services of NOELLE's \<open>SCCDAGPartitioner\<close>: \<open>'g\<close> is the partition, \<open>'s\<close> its sets (pointers),
  \<open>'c\<close> the components in them.
\<close>

record ('g, 's, 'c) partitioner =
  getSets :: "'g \<Rightarrow> 's list"
  getRoots :: "'g \<Rightarrow> 's list"
  getChildrenOf :: "'g \<Rightarrow> 's \<Rightarrow> 's list"
  numNodes :: "'g \<Rightarrow> nat"
  sccsOf :: "'g \<Rightarrow> 's \<Rightarrow> 'c list"
  numInternalNodes :: "'c \<Rightarrow> u64"
  getCycleIntroducedByMerging :: "'g \<Rightarrow> 's \<Rightarrow> 's \<Rightarrow> 's list"
  mergeSetsAndCollapse :: "'s list \<Rightarrow> 'g \<Rightarrow> 'g"

record ('s, 'c, 'v) pca =
  sccToInstructionCountMap :: "'c \<rightharpoonup> u64"
  totalInstructionCount :: u64
  costIfAllSetsRunOnSeparateCores :: u64
  minSetsToMerge :: "'s list"
  savedCostByMerging :: u64
  costOfMergedSet :: u64
  numInstructionsInSetsBeingMerged :: u64
  latencies :: "('c, 'v) il_state"

definition UINT64_MAX :: u64 where
  "UINT64_MAX = - 1"

text \<open>
  The constructor. \<open>insert\<close> keeps the first entry of a component. The fields of the candidate are not
  initialised; \<open>junk\<close> is what they hold.
\<close>

definition countInstructions ::
    "('g, 's, 'c) partitioner \<Rightarrow> 'c list \<Rightarrow> ('c \<rightharpoonup> u64) \<times> u64 \<Rightarrow> ('c \<rightharpoonup> u64) \<times> u64" where
  "countInstructions P =
     fold (\<lambda>scc (m, total).
       ((case m scc of None \<Rightarrow> m(scc \<mapsto> numInternalNodes P scc) | Some _ \<Rightarrow> m),
        total + numInternalNodes P scc))"

definition pca_new ::
    "('g, 's, 'c) partitioner \<Rightarrow> ('c, 'v) il_env \<Rightarrow> 'g \<Rightarrow> ('s, 'c, 'v) pca \<Rightarrow> ('c, 'v) il_state \<Rightarrow>
     ('s, 'c, 'v) pca" where
  "pca_new P E g junk il =
     (let (m, total) = countInstructions P (concat (map (sccsOf P g) (getSets P g))) (Map.empty, 0);
          (cost, il) = latencyPerInvocation E (map (\<lambda>s. set (sccsOf P g s)) (getSets P g)) il
      in junk\<lparr>sccToInstructionCountMap := m, totalInstructionCount := total,
              costIfAllSetsRunOnSeparateCores := cost, minSetsToMerge := [], latencies := il\<rparr>)"

definition resetCandidateSubsetInfo :: "('s, 'c, 'v) pca \<Rightarrow> ('s, 'c, 'v) pca" where
  "resetCandidateSubsetInfo a =
     a\<lparr>minSetsToMerge := [], savedCostByMerging := 0, costOfMergedSet := UINT64_MAX,
       numInstructionsInSetsBeingMerged := UINT64_MAX\<rparr>"

section \<open>One candidate\<close>

text \<open>The loop that adds up the instructions of the sets, with \<open>at\<close>.\<close>

fun instructionsOf :: "('c \<rightharpoonup> u64) \<Rightarrow> 'c list \<Rightarrow> u64 \<Rightarrow> u64 result" where
  "instructionsOf m [] n = Inr n"
| "instructionsOf m (scc # sccs) n =
     (case m scc of None \<Rightarrow> Inl OutOfRange | Some k \<Rightarrow> instructionsOf m sccs (n + k))"

text \<open>\<open>MinMaxSizePartitionAnalysis::checkIfShouldMerge\<close>.\<close>

definition checkIfShouldMerge ::
    "('g, 's, 'c) partitioner \<Rightarrow> ('c, 'v) il_env \<Rightarrow> int \<Rightarrow> 'g \<Rightarrow> 's \<Rightarrow> 's \<Rightarrow> ('s, 'c, 'v) pca \<Rightarrow>
     ('s, 'c, 'v) pca result" where
  "checkIfShouldMerge P E numCores g sA sB a =
     (if int (numNodes P g) \<le> numCores then Inr a
      else let setsInMerge = getCycleIntroducedByMerging P g sA sB;
               sccs = concat (map (sccsOf P g) setsInMerge) in
        case instructionsOf (sccToInstructionCountMap a) sccs 0 of
          Inl e \<Rightarrow> Inl e
        | Inr instCountOfMerge \<Rightarrow>
            let (costOnceMerged, il) = latencyPerInvocation E [set sccs] (latencies a);
                a = a\<lparr>latencies := il\<rparr> in
            if costOnceMerged > costOfMergedSet a then Inr a
            else if costOnceMerged = costOfMergedSet a
                    \<and> instCountOfMerge > numInstructionsInSetsBeingMerged a then Inr a
            else Inr (a\<lparr>minSetsToMerge := setsInMerge, costOfMergedSet := costOnceMerged,
                        numInstructionsInSetsBeingMerged := instCountOfMerge\<rparr>))"

text \<open>\<open>SmallestSizePartitionAnalysis::checkIfShouldMerge\<close> is not implemented: it returns at once.\<close>

definition smallest_checkIfShouldMerge :: "'s \<Rightarrow> 's \<Rightarrow> ('s, 'c, 'v) pca \<Rightarrow> ('s, 'c, 'v) pca result" where
  "smallest_checkIfShouldMerge sA sB a = Inr a"

section \<open>All candidates\<close>

text \<open>
  \<open>traverseAllPartitionSubsets\<close>, for any check: the loop over the children of a set, then the work
  list. \<open>fuel\<close> bounds the number of sets taken from the queue; \<open>None\<close> is running out of it.
\<close>

fun visitChildren ::
    "('s \<Rightarrow> 's \<Rightarrow> 'a \<Rightarrow> 'a result) \<Rightarrow> 's \<Rightarrow> 's list \<Rightarrow> 's list \<Rightarrow> 's set \<Rightarrow> 'a \<Rightarrow>
     ('s list \<times> 's set \<times> 'a) result" where
  "visitChildren check sub [] queue checked a = Inr (queue, checked, a)"
| "visitChildren check sub (child # children) queue checked a =
     (case check sub child a of
        Inl e \<Rightarrow> Inl e
      | Inr a \<Rightarrow>
          if child \<in> checked then visitChildren check sub children queue checked a
          else visitChildren check sub children (queue @ [child]) (insert child checked) a)"

fun traverseLoop ::
    "('s \<Rightarrow> 's \<Rightarrow> 'a \<Rightarrow> 'a result) \<Rightarrow> ('s \<Rightarrow> 's list) \<Rightarrow> nat \<Rightarrow> 's list \<Rightarrow> 's set \<Rightarrow> 'a \<Rightarrow>
     'a result option" where
  "traverseLoop check children fuel [] checked a = Some (Inr a)"
| "traverseLoop check children 0 (sub # queue) checked a = None"
| "traverseLoop check children (Suc fuel) (sub # queue) checked a =
     (case visitChildren check sub (children sub) queue checked a of
        Inl e \<Rightarrow> Some (Inl e)
      | Inr (queue, checked, a) \<Rightarrow> traverseLoop check children fuel queue checked a)"

definition traverseAllPartitionSubsets ::
    "('s \<Rightarrow> 's \<Rightarrow> 'a \<Rightarrow> 'a result) \<Rightarrow> ('g, 's, 'c) partitioner \<Rightarrow> nat \<Rightarrow> 'g \<Rightarrow> 'a \<Rightarrow> 'a result option" where
  "traverseAllPartitionSubsets check P fuel g a =
     traverseLoop check (getChildrenOf P g) fuel (getRoots P g) (set (getRoots P g)) a"

definition mergeCandidateSubsets ::
    "('g, 's, 'c) partitioner \<Rightarrow> ('c, 'v) il_env \<Rightarrow> 'g \<Rightarrow> ('s, 'c, 'v) pca \<Rightarrow>
     bool \<times> 'g \<times> ('s, 'c, 'v) pca" where
  "mergeCandidateSubsets P E g a =
     (if minSetsToMerge a = [] then (False, g, a)
      else let g = mergeSetsAndCollapse P (minSetsToMerge a) g;
               (cost, il) = latencyPerInvocation E (map (\<lambda>s. set (sccsOf P g s)) (getSets P g)) (latencies a)
           in (True, g, a\<lparr>costIfAllSetsRunOnSeparateCores := cost, latencies := il\<rparr>))"

text \<open>The \<open>do\<close> loop of the merges, for any check; \<open>fuel\<close> bounds its rounds.\<close>

fun mergeLoop ::
    "('g \<Rightarrow> 's \<Rightarrow> 's \<Rightarrow> ('s, 'c, 'v) pca \<Rightarrow> ('s, 'c, 'v) pca result) \<Rightarrow> ('g, 's, 'c) partitioner \<Rightarrow>
     ('c, 'v) il_env \<Rightarrow> nat \<Rightarrow> 'g \<Rightarrow> ('s, 'c, 'v) pca \<Rightarrow> ('g \<times> ('s, 'c, 'v) pca) result option" where
  "mergeLoop check P E 0 g a = None"
| "mergeLoop check P E (Suc fuel) g a =
     (case traverseAllPartitionSubsets (check g) P (numNodes P g) g (resetCandidateSubsetInfo a) of
        None \<Rightarrow> None
      | Some (Inl e) \<Rightarrow> Some (Inl e)
      | Some (Inr a) \<Rightarrow>
          let (modified, g, a) = mergeCandidateSubsets P E g a
          in if modified then mergeLoop check P E fuel g a else Some (Inr (g, a)))"

definition minMaxMergePartition ::
    "('g, 's, 'c) partitioner \<Rightarrow> ('c, 'v) il_env \<Rightarrow> u64 \<Rightarrow> ('s, 'c, 'v) pca \<Rightarrow> ('c, 'v) il_state \<Rightarrow> 'g \<Rightarrow>
     ('g \<times> ('s, 'c, 'v) pca) result option" where
  "minMaxMergePartition P E numThreads junk il g =
     mergeLoop (checkIfShouldMerge P E (sint (ucast numThreads :: i32))) P E (Suc (numNodes P g)) g
       (pca_new P E g junk il)"

definition smallestSizeMergePartition ::
    "('g, 's, 'c) partitioner \<Rightarrow> ('c, 'v) il_env \<Rightarrow> u64 \<Rightarrow> ('s, 'c, 'v) pca \<Rightarrow> ('c, 'v) il_state \<Rightarrow> 'g \<Rightarrow>
     ('g \<times> ('s, 'c, 'v) pca) result option" where
  "smallestSizeMergePartition P E numThreads junk il g =
     mergeLoop (\<lambda>g. smallest_checkIfShouldMerge) P E (Suc (numNodes P g)) g (pca_new P E g junk il)"

definition adjustParallelizationPartitionForDSWP ::
    "('g, 's, 'c) partitioner \<Rightarrow> ('c, 'v) il_env \<Rightarrow> u64 \<Rightarrow> ('s, 'c, 'v) pca \<Rightarrow> ('c, 'v) il_state \<Rightarrow> 'g \<Rightarrow>
     ('g \<times> ('s, 'c, 'v) pca) result option" where
  "adjustParallelizationPartitionForDSWP P E numThreads junk il g =
     minMaxMergePartition P E numThreads junk il g"

section \<open>The traversal visits every edge once\<close>

text \<open>The edges the work list has looked at, in order, when no check fails.\<close>

fun edgesOf :: "('s \<Rightarrow> 's list) \<Rightarrow> 's list \<Rightarrow> ('s \<times> 's) list" where
  "edgesOf children subs = concat (map (\<lambda>s. map (Pair s) (children s)) subs)"

fun checkAll :: "('s \<Rightarrow> 's \<Rightarrow> 'a \<Rightarrow> 'a result) \<Rightarrow> ('s \<times> 's) list \<Rightarrow> 'a \<Rightarrow> 'a result" where
  "checkAll check [] a = Inr a"
| "checkAll check ((x, y) # es) a =
     (case check x y a of Inl e \<Rightarrow> Inl e | Inr a \<Rightarrow> checkAll check es a)"

lemma checkAll_append:
  "checkAll check (es @ fs) a = (case checkAll check es a of Inl e \<Rightarrow> Inl e | Inr a \<Rightarrow> checkAll check fs a)"
  by (induction es arbitrary: a) (auto split: sum.splits)

text \<open>The new sets among the children, in order, without repetition.\<close>

fun newOnes :: "'s list \<Rightarrow> 's set \<Rightarrow> 's list" where
  "newOnes [] checked = []"
| "newOnes (c # cs) checked =
     (if c \<in> checked then newOnes cs checked else c # newOnes cs (insert c checked))"

lemma newOnes_set: "set (newOnes cs checked) = set cs - checked"
  by (induction cs arbitrary: checked) auto

lemma newOnes_distinct: "distinct (newOnes cs checked)"
  by (induction cs arbitrary: checked) (auto simp: newOnes_set)

lemma visitChildren_value:
  "visitChildren check sub cs queue checked a =
     (case checkAll check (map (Pair sub) cs) a of
        Inl e \<Rightarrow> Inl e
      | Inr a \<Rightarrow> Inr (queue @ newOnes cs checked, checked \<union> set cs, a))"
proof (induction cs arbitrary: queue checked a)
  case (Cons c cs)
  then show ?case by (cases "check sub c a") (auto simp: insert_absorb split: sum.splits)
qed simp

text \<open>
  The work list takes sets in an order that does not depend on the check: first what is queued, then
  everything found on the way, each set once.
\<close>

lemma traverseLoop_order:
  assumes "finite N" and "\<forall>x \<in> N. set (children x) \<subseteq> N"
    and "distinct queue" and "set queue \<subseteq> checked" and "checked \<subseteq> N"
    and "length queue + card (N - checked) \<le> fuel"
  shows "\<exists>order. distinct order \<and> set queue \<subseteq> set order \<and> set order \<subseteq> N \<and>
    set order \<inter> checked = set queue \<and>
    (\<forall>x \<in> set order. set (children x) \<subseteq> checked \<union> set order) \<and>
    set order \<subseteq> {x. \<exists>r \<in> set queue. (r, x) \<in> {(u, v). v \<in> set (children u)}\<^sup>*} \<and>
    (\<forall>check (a :: 'acc). traverseLoop check children fuel queue checked a = Some (checkAll check (edgesOf children order) a))"
  using assms(3-)
proof (induction fuel arbitrary: queue checked)
  case 0
  then show ?case by (intro exI [of _ "[]"]) simp
next
  case (Suc fuel)
  show ?case
  proof (cases queue)
    case Nil
    then show ?thesis by (intro exI [of _ "[]"]) simp
  next
    case (Cons sub rest)
    let ?new = "newOnes (children sub) checked" and ?checked = "checked \<union> set (children sub)"
    let ?R = "{(u, v). v \<in> set (children u)}"
    have subN: "sub \<in> N" using Suc.prems Cons by auto
    have new: "set ?new = set (children sub) - checked" by (rule newOnes_set)
    have d: "distinct (rest @ ?new)"
      using Suc.prems Cons new newOnes_distinct [of "children sub" checked] by auto
    have le: "set (rest @ ?new) \<subseteq> ?checked" "?checked \<subseteq> N"
      using Suc.prems Cons new subN assms(2) by auto
    have "N - checked = (N - ?checked) \<union> set ?new"
      using new subN assms(2) by auto
    moreover have "(N - ?checked) \<inter> set ?new = {}" using new by auto
    ultimately have "card (N - checked) = card (N - ?checked) + length ?new"
      using card_Un_disjoint [of "N - ?checked" "set ?new"] assms(1)
        distinct_card [OF newOnes_distinct [of "children sub" checked]] by simp
    then have f: "length (rest @ ?new) + card (N - ?checked) \<le> fuel" using Suc.prems(4) Cons by simp
    obtain order where o: "distinct order" "set (rest @ ?new) \<subseteq> set order" "set order \<subseteq> N"
        "set order \<inter> ?checked = set (rest @ ?new)"
        "\<forall>x \<in> set order. set (children x) \<subseteq> ?checked \<union> set order"
        "set order \<subseteq> {x. \<exists>r \<in> set (rest @ ?new). (r, x) \<in> ?R\<^sup>*}"
        "\<forall>check (a :: 'acc). traverseLoop check children fuel (rest @ ?new) ?checked a =
           Some (checkAll check (edgesOf children order) a)"
      using Suc.IH [OF d le f] by (elim exE conjE) (rule that)
    have notin: "sub \<notin> set order"
      using o(4) Suc.prems(1,2) Cons new by auto
    have reach: "set (sub # order) \<subseteq> {x. \<exists>r \<in> set queue. (r, x) \<in> ?R\<^sup>*}"
    proof
      fix x
      assume "x \<in> set (sub # order)"
      then consider "x = sub" | "x \<in> set order" by auto
      then show "x \<in> {x. \<exists>r \<in> set queue. (r, x) \<in> ?R\<^sup>*}"
      proof cases
        case 2
        then obtain r where r: "r \<in> set (rest @ ?new)" "(r, x) \<in> ?R\<^sup>*" using o(6) by auto
        show ?thesis
        proof (cases "r \<in> set rest")
          case False
          then have "(sub, r) \<in> ?R" using r(1) new by simp
          then have "(sub, x) \<in> ?R\<^sup>*" using r(2) by (rule converse_rtrancl_into_rtrancl)
          then show ?thesis unfolding Cons by (intro CollectI bexI [of _ sub]) simp_all
        next
          case True
          with r(2) show ?thesis unfolding Cons by (intro CollectI bexI [of _ r]) simp_all
        qed
      next
        case 1
        then show ?thesis unfolding Cons by (intro CollectI bexI [of _ sub]) simp_all
      qed
    qed
    have run: "traverseLoop check children (Suc fuel) queue checked a =
        Some (checkAll check (edgesOf children (sub # order)) a)" for check and a :: 'acc
      using o(7) Cons by (simp add: visitChildren_value checkAll_append split: sum.splits)
    have closed: "\<forall>x \<in> set (sub # order). set (children x) \<subseteq> checked \<union> set (sub # order)"
    proof
      fix x
      assume "x \<in> set (sub # order)"
      then consider "x = sub" | "x \<in> set order" by auto
      then have "set (children x) \<subseteq> ?checked \<union> set order" using o(5) by cases auto
      moreover have "set (children sub) \<subseteq> checked \<union> set order" using o(2) new by auto
      ultimately show "set (children x) \<subseteq> checked \<union> set (sub # order)" by auto
    qed
    have inter: "set (sub # order) \<inter> checked = set queue"
    proof -
      have "set order \<inter> checked = set (rest @ ?new) \<inter> checked" using o(4) by blast
      also have "\<dots> = set rest" using new Suc.prems(2) Cons by auto
      finally show ?thesis using Cons Suc.prems(2) by auto
    qed
    have sub: "set queue \<subseteq> set (sub # order)" using o(2) Cons by auto
    have "distinct (sub # order)" "set (sub # order) \<subseteq> N" using o(1,3) notin subN by auto
    with sub inter closed reach run show ?thesis
      by (intro exI [of _ "sub # order"] conjI allI) assumption+
  qed
qed

text \<open>The sets reachable from the roots, and the edges between them.\<close>

definition reachableSets :: "('g, 's, 'c) partitioner \<Rightarrow> 'g \<Rightarrow> 's set" where
  "reachableSets P g = {(u, v). v \<in> set (getChildrenOf P g u)}\<^sup>* `` set (getRoots P g)"

definition reachableEdges :: "('g, 's, 'c) partitioner \<Rightarrow> 'g \<Rightarrow> ('s \<times> 's) set" where
  "reachableEdges P g = {(x, y). x \<in> reachableSets P g \<and> y \<in> set (getChildrenOf P g x)}"

text \<open>What the code relies on in a partition: its roots and children are sets of it, as many as \<open>numNodes\<close>.\<close>

definition graph_ok :: "('g, 's, 'c) partitioner \<Rightarrow> 'g \<Rightarrow> bool" where
  "graph_ok P g \<longleftrightarrow> distinct (getRoots P g) \<and> distinct (getSets P g) \<and> numNodes P g = length (getSets P g) \<and>
     set (getRoots P g) \<subseteq> set (getSets P g) \<and>
     (\<forall>x \<in> set (getSets P g). set (getChildrenOf P g x) \<subseteq> set (getSets P g))"

lemma reachable_closed:
  assumes "R `` S \<subseteq> S" and "Q \<subseteq> S"
  shows "R\<^sup>* `` Q \<subseteq> S"
proof
  fix x
  assume "x \<in> R\<^sup>* `` Q"
  then obtain q where "(q, x) \<in> R\<^sup>*" "q \<in> Q" by auto
  then show "x \<in> S" using assms by (induction rule: rtrancl_induct) auto
qed

lemma reachableSets_sub: "graph_ok P g \<Longrightarrow> reachableSets P g \<subseteq> set (getSets P g)"
  unfolding reachableSets_def by (rule reachable_closed) (auto simp: graph_ok_def)

text \<open>With as much fuel as there are sets the traversal runs the check on each reachable edge.\<close>

lemma traverse_value:
  assumes "graph_ok P g"
  shows "\<exists>es. set es = reachableEdges P g \<and>
    traverseAllPartitionSubsets check P (numNodes P g) g a = Some (checkAll check es a)"
proof -
  let ?N = "set (getSets P g)" and ?Q = "set (getRoots P g)"
  let ?R = "{(u, v). v \<in> set (getChildrenOf P g u)}"
  have ok: "\<forall>x \<in> ?N. set (getChildrenOf P g x) \<subseteq> ?N" "distinct (getRoots P g)" "?Q \<subseteq> ?N"
    using assms by (auto simp: graph_ok_def)
  have n: "card ?N = numNodes P g" using assms by (simp add: graph_ok_def distinct_card)
  have "length (getRoots P g) = card ?Q" using ok(2) by (simp add: distinct_card)
  then have "length (getRoots P g) + card (?N - ?Q) = numNodes P g"
    using card_Diff_subset [OF _ ok(3)] card_mono [OF _ ok(3)] n by simp
  then have f: "length (getRoots P g) + card (?N - ?Q) \<le> numNodes P g" by simp
  obtain order where o: "?Q \<subseteq> set order" "\<forall>x \<in> set order. set (getChildrenOf P g x) \<subseteq> ?Q \<union> set order"
      "set order \<subseteq> {x. \<exists>r \<in> ?Q. (r, x) \<in> ?R\<^sup>*}"
      "\<forall>check (a :: 'd). traverseLoop check (getChildrenOf P g) (numNodes P g) (getRoots P g) ?Q a =
         Some (checkAll check (edgesOf (getChildrenOf P g) order) a)"
    using traverseLoop_order [OF _ ok(1,2) _ ok(3) f] by (simp only: finite_set subset_refl) blast
  have "?R `` set order \<subseteq> set order" using o(1,2) by auto
  from reachable_closed [OF this o(1)] o(3) have "set order = reachableSets P g"
    unfolding reachableSets_def by auto
  then have "set (edgesOf (getChildrenOf P g) order) = reachableEdges P g"
    by (auto simp: reachableEdges_def)
  with o(4) show ?thesis unfolding traverseAllPartitionSubsets_def by blast
qed

section \<open>The candidate is the cheapest merge\<close>

definition mergeCost :: "('g, 's, 'c) partitioner \<Rightarrow> ('c, 'v) il_env \<Rightarrow> 'g \<Rightarrow> 's \<times> 's \<Rightarrow> u64" where
  "mergeCost P E g e =
     partitionCost E [set (concat (map (sccsOf P g) (getCycleIntroducedByMerging P g (fst e) (snd e))))]"

definition mergeSize :: "('g, 's, 'c) partitioner \<Rightarrow> ('c \<rightharpoonup> u64) \<Rightarrow> 'g \<Rightarrow> 's \<times> 's \<Rightarrow> u64" where
  "mergeSize P m g e =
     sum_list (map (the \<circ> m) (concat (map (sccsOf P g) (getCycleIntroducedByMerging P g (fst e) (snd e)))))"

text \<open>The order of the two tests: cheaper, or as cheap and no larger.\<close>

definition noWorse :: "u64 \<times> u64 \<Rightarrow> u64 \<times> u64 \<Rightarrow> bool" where
  "noWorse p q \<longleftrightarrow> fst p < fst q \<or> fst p = fst q \<and> snd p \<le> snd q"

lemma noWorse_refl: "noWorse p p"
  by (simp add: noWorse_def)

lemma noWorse_trans: "noWorse p q \<Longrightarrow> noWorse q r \<Longrightarrow> noWorse p r"
  by (auto simp: noWorse_def)

lemma noWorse_linear: "\<not> noWorse p q \<Longrightarrow> noWorse q p"
  by (auto simp: noWorse_def)

lemma noWorse_max: "noWorse p (UINT64_MAX, UINT64_MAX)"
  using word_n1_ge [of "fst p"] word_n1_ge [of "snd p"]
  by (auto simp: noWorse_def UINT64_MAX_def intro: order.not_eq_order_implies_strict)

lemma instructionsOf_known:
  "set sccs \<subseteq> dom m \<Longrightarrow> instructionsOf m sccs n = Inr (n + sum_list (map (the \<circ> m) sccs))"
  by (induction sccs arbitrary: n) (auto simp: add.assoc split: option.splits)

lemma checkIfShouldMerge_value:
  assumes "numCores < int (numNodes P g)" and "env_orders E" and "caches_ok E (latencies a)"
    and "set (concat (map (sccsOf P g) (getCycleIntroducedByMerging P g x y))) \<subseteq> dom (sccToInstructionCountMap a)"
  shows "\<exists>il. caches_ok E il \<and> checkIfShouldMerge P E numCores g x y a =
    Inr (if noWorse (mergeCost P E g (x, y), mergeSize P (sccToInstructionCountMap a) g (x, y))
              (costOfMergedSet a, numInstructionsInSetsBeingMerged a)
         then a\<lparr>latencies := il, minSetsToMerge := getCycleIntroducedByMerging P g x y,
                costOfMergedSet := mergeCost P E g (x, y),
                numInstructionsInSetsBeingMerged := mergeSize P (sccToInstructionCountMap a) g (x, y)\<rparr>
         else a\<lparr>latencies := il\<rparr>)"
proof -
  let ?sccs = "concat (map (sccsOf P g) (getCycleIntroducedByMerging P g x y))"
  obtain il where il: "latencyPerInvocation E [set ?sccs] (latencies a) = (partitionCost E [set ?sccs], il)"
      "caches_ok E il"
  proof -
    have "\<exists>il. latencyPerInvocation E [set ?sccs] (latencies a) = (partitionCost E [set ?sccs], il) \<and> caches_ok E il"
      by (rule latencyPerInvocation_cached [OF assms(2,3)]) simp
    then show ?thesis using that by blast
  qed
  have n: "\<not> int (numNodes P g) \<le> numCores" using assms(1) by simp
  have "checkIfShouldMerge P E numCores g x y a =
    Inr (if noWorse (mergeCost P E g (x, y), mergeSize P (sccToInstructionCountMap a) g (x, y))
              (costOfMergedSet a, numInstructionsInSetsBeingMerged a)
         then a\<lparr>latencies := il, minSetsToMerge := getCycleIntroducedByMerging P g x y,
                costOfMergedSet := mergeCost P E g (x, y),
                numInstructionsInSetsBeingMerged := mergeSize P (sccToInstructionCountMap a) g (x, y)\<rparr>
         else a\<lparr>latencies := il\<rparr>)"
    unfolding checkIfShouldMerge_def if_not_P [OF n] Let_def instructionsOf_known [OF assms(4)] il(1)
    by (auto simp: noWorse_def mergeCost_def mergeSize_def)
  with il(2) show ?thesis by blast
qed

text \<open>What the traversal has recorded after the edges \<open>D\<close>: the best of their merges.\<close>

definition mergeKey ::
    "('g, 's, 'c) partitioner \<Rightarrow> ('c, 'v) il_env \<Rightarrow> ('c \<rightharpoonup> u64) \<Rightarrow> 'g \<Rightarrow> 's \<times> 's \<Rightarrow> u64 \<times> u64" where
  "mergeKey P E m g e = (mergeCost P E g e, mergeSize P m g e)"

definition records ::
    "('g, 's, 'c) partitioner \<Rightarrow> ('c, 'v) il_env \<Rightarrow> 'g \<Rightarrow> ('s, 'c, 'v) pca \<Rightarrow> 's \<times> 's \<Rightarrow> bool" where
  "records P E g a e \<longleftrightarrow>
     minSetsToMerge a = getCycleIntroducedByMerging P g (fst e) (snd e) \<and>
     (costOfMergedSet a, numInstructionsInSetsBeingMerged a) =
       mergeKey P E (sccToInstructionCountMap a) g e"

definition best ::
    "('g, 's, 'c) partitioner \<Rightarrow> ('c, 'v) il_env \<Rightarrow> 'g \<Rightarrow> ('s \<times> 's) set \<Rightarrow> ('s, 'c, 'v) pca \<Rightarrow> bool" where
  "best P E g D a \<longleftrightarrow>
     (if D = {} then minSetsToMerge a = [] \<and>
        (costOfMergedSet a, numInstructionsInSetsBeingMerged a) = (UINT64_MAX, UINT64_MAX)
      else \<exists>e \<in> D. records P E g a e \<and>
        (\<forall>f \<in> D. noWorse (mergeKey P E (sccToInstructionCountMap a) g e)
                   (mergeKey P E (sccToInstructionCountMap a) g f)))"

definition known :: "('g, 's, 'c) partitioner \<Rightarrow> ('c \<rightharpoonup> u64) \<Rightarrow> 'g \<Rightarrow> ('s \<times> 's) set \<Rightarrow> bool" where
  "known P m g D \<longleftrightarrow>
     (\<forall>e \<in> D. \<forall>s \<in> set (getCycleIntroducedByMerging P g (fst e) (snd e)). set (sccsOf P g s) \<subseteq> dom m)"

lemma best_noWorse:
  assumes "best P E g D a" and "f \<in> D"
  shows "noWorse (costOfMergedSet a, numInstructionsInSetsBeingMerged a)
           (mergeKey P E (sccToInstructionCountMap a) g f)"
proof -
  have "D \<noteq> {}" using assms(2) by auto
  with assms show ?thesis unfolding best_def records_def by (simp only: if_not_P) metis
qed

lemma best_step:
  assumes "best P E g D a" and "numCores < int (numNodes P g)" and "env_orders E"
    and "caches_ok E (latencies a)" and "known P (sccToInstructionCountMap a) g {(x, y)}"
  shows "\<exists>a'. checkIfShouldMerge P E numCores g x y a = Inr a' \<and> best P E g (insert (x, y) D) a' \<and>
    caches_ok E (latencies a') \<and> sccToInstructionCountMap a' = sccToInstructionCountMap a"
proof -
  let ?m = "sccToInstructionCountMap a"
  let ?k = "mergeKey P E ?m g"
  have dom: "set (concat (map (sccsOf P g) (getCycleIntroducedByMerging P g x y))) \<subseteq> dom ?m"
    using assms(5) by (auto simp: known_def)
  obtain il where il: "caches_ok E il" "checkIfShouldMerge P E numCores g x y a =
      Inr (if noWorse (?k (x, y)) (costOfMergedSet a, numInstructionsInSetsBeingMerged a)
           then a\<lparr>latencies := il, minSetsToMerge := getCycleIntroducedByMerging P g x y,
                  costOfMergedSet := mergeCost P E g (x, y),
                  numInstructionsInSetsBeingMerged := mergeSize P ?m g (x, y)\<rparr>
           else a\<lparr>latencies := il\<rparr>)"
    using checkIfShouldMerge_value [OF assms(2-4) dom] unfolding mergeKey_def by blast
  show ?thesis
  proof (cases "noWorse (?k (x, y)) (costOfMergedSet a, numInstructionsInSetsBeingMerged a)")
    case True
    have "noWorse (?k (x, y)) (?k f)" if "f \<in> D" for f
      using noWorse_trans [OF True best_noWorse [OF assms(1) that]] .
    then have "best P E g (insert (x, y) D) (a\<lparr>latencies := il, minSetsToMerge := getCycleIntroducedByMerging P g x y,
                  costOfMergedSet := mergeCost P E g (x, y),
                  numInstructionsInSetsBeingMerged := mergeSize P ?m g (x, y)\<rparr>)"
      unfolding best_def records_def by (simp add: mergeKey_def noWorse_refl)
    with il True show ?thesis by simp
  next
    case False
    have ne: "D \<noteq> {}"
    proof
      assume "D = {}"
      with assms(1) False noWorse_max show False by (simp add: best_def)
    qed
    obtain e where e: "e \<in> D" "records P E g a e" "\<forall>f \<in> D. noWorse (?k e) (?k f)"
      using assms(1) unfolding best_def if_not_P [OF ne] by blast
    have "noWorse (?k e) (?k (x, y))"
      using noWorse_linear [OF False] e(2) by (simp add: records_def)
    with e have "best P E g (insert (x, y) D) (a\<lparr>latencies := il\<rparr>)"
      unfolding best_def if_not_P [OF insert_not_empty]
      by (intro bexI [of _ e]) (simp_all add: records_def)
    with il False show ?thesis by simp
  qed
qed

lemma best_checkAll:
  assumes "best P E g D a" and "numCores < int (numNodes P g)" and "env_orders E"
    and "caches_ok E (latencies a)" and "known P (sccToInstructionCountMap a) g (set es)"
  shows "\<exists>a'. checkAll (checkIfShouldMerge P E numCores g) es a = Inr a' \<and> best P E g (D \<union> set es) a' \<and>
    caches_ok E (latencies a') \<and> sccToInstructionCountMap a' = sccToInstructionCountMap a"
  using assms(1,4,5)
proof (induction es arbitrary: a D)
  case (Cons e es)
  obtain x y where e: "e = (x, y)" by fastforce
  have k: "known P (sccToInstructionCountMap a) g {(x, y)}" "known P (sccToInstructionCountMap a) g (set es)"
    using Cons.prems(3) e by (auto simp: known_def)
  obtain b where b: "checkIfShouldMerge P E numCores g x y a = Inr b" "best P E g (insert (x, y) D) b"
      "caches_ok E (latencies b)" "sccToInstructionCountMap b = sccToInstructionCountMap a"
    using best_step [OF Cons.prems(1) assms(2,3) Cons.prems(2) k(1)] by blast
  have k2: "known P (sccToInstructionCountMap b) g (set es)" using k(2) unfolding b(4) .
  have un: "insert (x, y) D \<union> set es = D \<union> set (e # es)" unfolding e by simp
  have run: "checkAll (checkIfShouldMerge P E numCores g) (e # es) a =
      checkAll (checkIfShouldMerge P E numCores g) es b" unfolding e checkAll.simps b(1) sum.case ..
  show ?case using Cons.IH [OF b(2,3) k2] unfolding un run b(4) .
qed simp

lemma checkAll_few:
  "int (numNodes P g) \<le> numCores \<Longrightarrow> checkAll (checkIfShouldMerge P E numCores g) es a = Inr a"
  by (induction es) (auto simp: checkIfShouldMerge_def)

text \<open>One round of the \<open>do\<close> loop before the merge.\<close>

lemma round_value:
  assumes "graph_ok P g" and "env_orders E" and "caches_ok E (latencies a)"
    and "known P (sccToInstructionCountMap a) g (reachableEdges P g)"
  shows "\<exists>a'. traverseAllPartitionSubsets (checkIfShouldMerge P E numCores g) P (numNodes P g) g
      (resetCandidateSubsetInfo a) = Some (Inr a') \<and>
    best P E g (if numCores < int (numNodes P g) then reachableEdges P g else {}) a' \<and>
    caches_ok E (latencies a') \<and> sccToInstructionCountMap a' = sccToInstructionCountMap a"
proof -
  let ?a = "resetCandidateSubsetInfo a"
  have keep: "latencies ?a = latencies a" "sccToInstructionCountMap ?a = sccToInstructionCountMap a"
      "best P E g {} ?a"
    by (simp_all add: resetCandidateSubsetInfo_def best_def)
  obtain es where es: "set es = reachableEdges P g"
      "traverseAllPartitionSubsets (checkIfShouldMerge P E numCores g) P (numNodes P g) g ?a =
         Some (checkAll (checkIfShouldMerge P E numCores g) es ?a)"
    using traverse_value [OF assms(1), of "checkIfShouldMerge P E numCores g" ?a]
    by (elim exE conjE) (rule that)
  show ?thesis
  proof (cases "numCores < int (numNodes P g)")
    case True
    have "known P (sccToInstructionCountMap ?a) g (set es)" "caches_ok E (latencies ?a)"
      using assms(3,4) keep es(1) by simp_all
    from best_checkAll [OF keep(3) True assms(2) this(2,1)] es keep True show ?thesis by simp
  next
    case False
    then have "int (numNodes P g) \<le> numCores" by simp
    note few = checkAll_few [OF this]
    show ?thesis using es keep assms(3) False by (simp add: few)
  qed
qed

text \<open>
  After a round the candidate is a best merge: with more sets than cores and an edge to merge
  along, the sets to merge are those of a reachable edge whose merged cost is least among all
  reachable edges, and whose instruction count is least among those; otherwise there is none. The
  walk ends within as many steps as there are sets and no \<open>at\<close> throws.
\<close>

theorem minMax_candidate:
  assumes "graph_ok P g" and "env_orders E" and "caches_ok E (latencies a)"
    and "known P (sccToInstructionCountMap a) g (reachableEdges P g)"
  shows "\<exists>a'. traverseAllPartitionSubsets (checkIfShouldMerge P E numCores g) P (numNodes P g) g
      (resetCandidateSubsetInfo a) = Some (Inr a') \<and>
    (if numCores < int (numNodes P g) \<and> reachableEdges P g \<noteq> {}
     then \<exists>e \<in> reachableEdges P g.
       minSetsToMerge a' = getCycleIntroducedByMerging P g (fst e) (snd e) \<and>
       costOfMergedSet a' = mergeCost P E g e \<and>
       (\<forall>f \<in> reachableEdges P g. mergeCost P E g e \<le> mergeCost P E g f) \<and>
       (\<forall>f \<in> {f \<in> reachableEdges P g. mergeCost P E g f = mergeCost P E g e}.
          mergeSize P (sccToInstructionCountMap a) g e \<le> mergeSize P (sccToInstructionCountMap a) g f)
     else minSetsToMerge a' = [])"
proof -
  let ?D = "if numCores < int (numNodes P g) then reachableEdges P g else {}"
  obtain a' where a': "traverseAllPartitionSubsets (checkIfShouldMerge P E numCores g) P (numNodes P g) g
      (resetCandidateSubsetInfo a) = Some (Inr a')" "best P E g ?D a'"
      "sccToInstructionCountMap a' = sccToInstructionCountMap a"
    using round_value [OF assms, of numCores] by blast
  show ?thesis
  proof (cases "numCores < int (numNodes P g) \<and> reachableEdges P g \<noteq> {}")
    case True
    then have D: "?D = reachableEdges P g" "reachableEdges P g \<noteq> {}" by simp_all
    obtain e where e: "e \<in> reachableEdges P g" "records P E g a' e"
        "\<forall>f \<in> reachableEdges P g. noWorse (mergeKey P E (sccToInstructionCountMap a) g e)
           (mergeKey P E (sccToInstructionCountMap a) g f)"
      using a'(2) unfolding D(1) best_def if_not_P [OF D(2)] a'(3) by blast
    have least: "mergeCost P E g e \<le> mergeCost P E g f" if "f \<in> reachableEdges P g" for f
      using e(3) that by (auto simp: noWorse_def mergeKey_def)
    have least2: "mergeSize P (sccToInstructionCountMap a) g e \<le> mergeSize P (sccToInstructionCountMap a) g f"
      if "f \<in> {f \<in> reachableEdges P g. mergeCost P E g f = mergeCost P E g e}" for f
      using e(3) that by (auto simp: noWorse_def mergeKey_def)
    have "minSetsToMerge a' = getCycleIntroducedByMerging P g (fst e) (snd e)" "costOfMergedSet a' = mergeCost P E g e"
      using e(2) by (simp_all add: records_def mergeKey_def)
    with least least2 e(1) show ?thesis unfolding if_P [OF True]
      by (intro exI [of _ a'] conjI a'(1) bexI [of _ e] ballI) simp_all
  next
    case False
    then have "?D = {}" by auto
    with a' False show ?thesis by (auto simp: best_def)
  qed
qed

section \<open>The merges end\<close>

text \<open>
  What the code relies on in the partitioner: on the partitions \<open>G\<close> it can produce, the cycle closed by
  merging along an edge is a nonempty list of sets, and collapsing it gives another partition, of the
  same components, with fewer sets.
\<close>

definition partitioner_ok :: "('g, 's, 'c) partitioner \<Rightarrow> 'c set \<Rightarrow> ('g \<Rightarrow> bool) \<Rightarrow> bool" where
  "partitioner_ok P C G \<longleftrightarrow>
     (\<forall>g. G g \<longrightarrow> graph_ok P g \<and> (\<forall>s \<in> set (getSets P g). set (sccsOf P g s) \<subseteq> C) \<and>
        (\<Union>s \<in> set (getSets P g). set (sccsOf P g s)) = C \<and>
        (\<forall>x \<in> set (getSets P g). \<forall>y \<in> set (getChildrenOf P g x).
           getCycleIntroducedByMerging P g x y \<noteq> [] \<and>
           set (getCycleIntroducedByMerging P g x y) \<subseteq> set (getSets P g) \<and>
           G (mergeSetsAndCollapse P (getCycleIntroducedByMerging P g x y) g) \<and>
           numNodes P (mergeSetsAndCollapse P (getCycleIntroducedByMerging P g x y) g) < numNodes P g))"

lemma partitioner_ok_graph: "partitioner_ok P C G \<Longrightarrow> G g \<Longrightarrow> graph_ok P g"
  unfolding partitioner_ok_def by blast

lemma partitioner_ok_known:
  assumes "partitioner_ok P C G" and "G g" and "C \<subseteq> dom m"
  shows "known P m g (reachableEdges P g)"
  unfolding known_def
proof (intro ballI)
  fix e s
  assume e: "e \<in> reachableEdges P g" and s: "s \<in> set (getCycleIntroducedByMerging P g (fst e) (snd e))"
  have "fst e \<in> set (getSets P g)" "snd e \<in> set (getChildrenOf P g (fst e))"
    using e reachableSets_sub [OF partitioner_ok_graph [OF assms(1,2)]] by (auto simp: reachableEdges_def)
  then have "s \<in> set (getSets P g)" using assms(1,2) s unfolding partitioner_ok_def by blast
  then show "set (sccsOf P g s) \<subseteq> dom m" using assms unfolding partitioner_ok_def by blast
qed

lemma partitioner_ok_merge:
  assumes "partitioner_ok P C G" and "G g" and "(x, y) \<in> reachableEdges P g"
  shows "getCycleIntroducedByMerging P g x y \<noteq> [] \<and>
    G (mergeSetsAndCollapse P (getCycleIntroducedByMerging P g x y) g) \<and>
    numNodes P (mergeSetsAndCollapse P (getCycleIntroducedByMerging P g x y) g) < numNodes P g"
proof -
  have "x \<in> set (getSets P g)" "y \<in> set (getChildrenOf P g x)"
    using assms(3) reachableSets_sub [OF partitioner_ok_graph [OF assms(1,2)]] by (auto simp: reachableEdges_def)
  with assms(1,2) show ?thesis unfolding partitioner_ok_def by blast
qed

lemma mergeLoop_value:
  assumes "partitioner_ok P C G" and "env_orders E" and "G g" and "C \<subseteq> dom (sccToInstructionCountMap a)"
    and "caches_ok E (latencies a)" and "numNodes P g < fuel"
  shows "\<exists>g' a'. mergeLoop (checkIfShouldMerge P E numCores) P E fuel g a = Some (Inr (g', a')) \<and> G g' \<and> numNodes P g' \<le> numNodes P g \<and>
    (int (numNodes P g') \<le> numCores \<or> reachableEdges P g' = {})"
  using assms(3-)
proof (induction fuel arbitrary: g a)
  case (Suc fuel)
  let ?D = "if numCores < int (numNodes P g) then reachableEdges P g else {}"
  obtain b where b: "traverseAllPartitionSubsets (checkIfShouldMerge P E numCores g) P (numNodes P g) g
      (resetCandidateSubsetInfo a) = Some (Inr b)" "best P E g ?D b" "caches_ok E (latencies b)"
      "sccToInstructionCountMap b = sccToInstructionCountMap a"
    using round_value [OF partitioner_ok_graph [OF assms(1) Suc.prems(1)] assms(2) Suc.prems(3)
      partitioner_ok_known [OF assms(1) Suc.prems(1,2)], of numCores] by blast
  show ?case
  proof (cases "?D = {}")
    case True
    then have "minSetsToMerge b = []" "int (numNodes P g) \<le> numCores \<or> reachableEdges P g = {}"
      using b(2) by (auto simp: best_def split: if_splits)
    with b(1) Suc.prems(1) show ?thesis by (simp add: mergeCandidateSubsets_def)
  next
    case False
    obtain e where e: "e \<in> ?D" "records P E g b e"
      using b(2) unfolding best_def if_not_P [OF False] by blast
    obtain x y where xy: "e = (x, y)" by fastforce
    let ?c = "getCycleIntroducedByMerging P g x y"
    let ?g = "mergeSetsAndCollapse P ?c g"
    have "(x, y) \<in> reachableEdges P g" using e(1) xy by (auto split: if_splits)
    note mg = partitioner_ok_merge [OF assms(1) Suc.prems(1) this]
    have c1: "minSetsToMerge b = ?c" using e(2) by (simp add: records_def xy)
    have "minSetsToMerge b \<noteq> []" unfolding c1 using mg by (rule conjunct1)
    note c = c1 this
    have ne: "?c \<noteq> []" using mg by (rule conjunct1)
    obtain cost il where il: "latencyPerInvocation E (map (\<lambda>s. set (sccsOf P ?g s)) (getSets P ?g)) (latencies b) =
        (cost, il)" "caches_ok E il"
    proof -
      have "\<forall>S \<in> set (map (\<lambda>s. set (sccsOf P ?g s)) (getSets P ?g)). finite S" by auto
      from latencyPerInvocation_cached [OF assms(2) b(3) this] show ?thesis using that by blast
    qed
    let ?a = "b\<lparr>costIfAllSetsRunOnSeparateCores := cost, latencies := il\<rparr>"
    have merge: "mergeCandidateSubsets P E g b = (True, ?g, ?a)"
      using il(1) c1 ne by (simp add: mergeCandidateSubsets_def Let_def)
    have run: "mergeLoop (checkIfShouldMerge P E numCores) P E (Suc fuel) g a = mergeLoop (checkIfShouldMerge P E numCores) P E fuel ?g ?a"
      unfolding mergeLoop.simps b(1) option.case sum.case merge by simp
    have p: "G ?g" "C \<subseteq> dom (sccToInstructionCountMap ?a)" "caches_ok E (latencies ?a)" "numNodes P ?g < fuel"
      using mg Suc.prems(2,4) b(4) il(2) by simp_all
    from Suc.IH [OF p] obtain g' a' where "mergeLoop (checkIfShouldMerge P E numCores) P E fuel ?g ?a = Some (Inr (g', a'))"
        "G g'" "numNodes P g' \<le> numNodes P ?g" "int (numNodes P g') \<le> numCores \<or> reachableEdges P g' = {}"
      by blast
    moreover have "numNodes P g' \<le> numNodes P g" using mg calculation(3) by simp
    ultimately show ?thesis unfolding run by blast
  qed
qed simp

lemma countInstructions_dom:
  "dom (fst (countInstructions P sccs (m, t))) = dom m \<union> set sccs"
proof (induction sccs arbitrary: m t)
  case (Cons c sccs)
  have "countInstructions P (c # sccs) (m, t) = countInstructions P sccs
      ((case m c of None \<Rightarrow> m(c \<mapsto> numInternalNodes P c) | Some _ \<Rightarrow> m), t + numInternalNodes P c)"
    by (simp add: countInstructions_def)
  then show ?case by (auto simp: Cons.IH split: option.splits)
qed (simp add: countInstructions_def)

lemma pca_new_value:
  assumes "env_orders E" and "caches_ok E il"
  shows "dom (sccToInstructionCountMap (pca_new P E g junk il)) = (\<Union>s \<in> set (getSets P g). set (sccsOf P g s)) \<and>
    caches_ok E (latencies (pca_new P E g junk il))"
proof -
  let ?sccs = "concat (map (sccsOf P g) (getSets P g))"
  obtain m t where mt: "countInstructions P ?sccs (Map.empty, 0) = (m, t)" by fastforce
  have "\<forall>S \<in> set (map (\<lambda>s. set (sccsOf P g s)) (getSets P g)). finite S" by auto
  from latencyPerInvocation_cached [OF assms this] obtain cost il' where
    "latencyPerInvocation E (map (\<lambda>s. set (sccsOf P g s)) (getSets P g)) il = (cost, il')" "caches_ok E il'"
    by blast
  then show ?thesis using countInstructions_dom [of P ?sccs Map.empty 0] mt by (simp add: pca_new_def)
qed

text \<open>
  C26: coarsening a DSWP partition always ends, within one round per set and one more, without an
  exception; it ends in a partition the partitioner can produce, with no more sets than before, that
  has at most as many sets as threads or no edge left to merge along.
\<close>

theorem minMaxMergePartition_ends:
  assumes "partitioner_ok P C G" and "env_orders E" and "caches_ok E il" and "G g" and "numThreads < 2 ^ 31"
  shows "\<exists>g' a'. adjustParallelizationPartitionForDSWP P E numThreads junk il g = Some (Inr (g', a')) \<and>
    G g' \<and> numNodes P g' \<le> numNodes P g \<and>
    (numNodes P g' \<le> unat numThreads \<or> reachableEdges P g' = {})"
proof -
  have cores: "sint (ucast numThreads :: i32) = int (unat numThreads)"
  proof -
    have b: "unat numThreads < 2 ^ 31" using assms(5) by (simp add: word_less_nat_alt)
    have "unat (ucast numThreads :: u32) = unat numThreads"
      using b by (simp add: unsigned_ucast_eq take_bit_nat_eq_self)
    with b show ?thesis by (simp only: u32_sint_alt if_True)
  qed
  note new = pca_new_value [OF assms(2,3), of P g junk]
  have "(\<Union>s \<in> set (getSets P g). set (sccsOf P g s)) = C"
    using assms(1,4) unfolding partitioner_ok_def by blast
  with new have "C \<subseteq> dom (sccToInstructionCountMap (pca_new P E g junk il))"
    "caches_ok E (latencies (pca_new P E g junk il))" by simp_all
  from mergeLoop_value [OF assms(1,2,4) this lessI, of "int (unat numThreads)"] show ?thesis
    unfolding adjustParallelizationPartitionForDSWP_def minMaxMergePartition_def cores by (simp only: of_nat_le_iff)
qed

section \<open>A pipeline of three components\<close>

fun nextIn :: "nat list list \<Rightarrow> nat list \<Rightarrow> nat list list" where
  "nextIn (s # t # ss) x = (if s = x then [t] else nextIn (t # ss) x)"
| "nextIn ss x = []"

fun joinIn :: "nat list list \<Rightarrow> nat list list \<Rightarrow> nat list list" where
  "joinIn xs (s # t # ss) = (if xs = [s, t] then (s @ t) # ss else s # joinIn xs (t # ss))"
| "joinIn xs ss = ss"

definition chain :: "(nat list list, nat list, nat) partitioner" where
  "chain = \<lparr>getSets = (\<lambda>g. g), getRoots = take 1, getChildrenOf = nextIn, numNodes = length,
     sccsOf = (\<lambda>g s. s), numInternalNodes = of_nat, getCycleIntroducedByMerging = (\<lambda>g x y. [x, y]),
     mergeSetsAndCollapse = joinIn\<rparr>"

definition chains :: "nat list list \<Rightarrow> bool" where
  "chains g \<longleftrightarrow> g \<in> {[[1], [2], [3]], [[1, 2], [3]], [[1], [2, 3]], [[1, 2, 3]]}"

definition no_candidate :: "(nat list, nat, nat) pca" where
  "no_candidate = \<lparr>sccToInstructionCountMap = [1 \<mapsto> 1, 2 \<mapsto> 2, 3 \<mapsto> 3], totalInstructionCount = 6,
     costIfAllSetsRunOnSeparateCores = 0, minSetsToMerge = [], savedCostByMerging = 0, costOfMergedSet = 0,
     numInstructionsInSetsBeingMerged = 0, latencies = il_new\<rparr>"

lemma chain_ok: "partitioner_ok chain {1, 2, 3} chains"
  by (auto simp: partitioner_ok_def graph_ok_def chains_def chain_def)

lemma three_sccs_orders: "env_orders three_sccs"
  by (simp add: env_orders_def three_sccs_def)

lemma chain_edges: "reachableEdges chain [[1], [2], [3]] = {([1], [2]), ([2], [3])}"
proof -
  let ?g = "[[1], [2], [3]] :: nat list list"
  let ?R = "{(u, v). v \<in> set (getChildrenOf chain ?g u)}"
  have e: "?R = {([1], [2]), ([2], [3])}" by (auto simp: chain_def split: if_splits)
  have "reachableSets chain ?g = {[1], [2], [3]}"
  proof
    show "reachableSets chain ?g \<subseteq> {[1], [2], [3]}"
      unfolding reachableSets_def e by (rule reachable_closed) (auto simp: chain_def)
    have r: "([1], [2]) \<in> ?R" "([2], [3]) \<in> ?R" unfolding e by simp_all
    note r_into_rtrancl [OF r(1)] rtrancl_into_rtrancl [OF r_into_rtrancl [OF r(1)] r(2)]
    then show "{[1], [2], [3]} \<subseteq> reachableSets chain ?g"
      unfolding reachableSets_def by (auto simp: chain_def)
  qed
  then have "reachableEdges chain ?g = {(x, y). x \<in> {[1], [2], [3]} \<and> y \<in> set (getChildrenOf chain ?g x)}"
    unfolding reachableEdges_def by (rule arg_cong)
  also have "\<dots> = (\<Union>x \<in> {[1], [2], [3]}. Pair x ` set (getChildrenOf chain ?g x))" by blast
  also have "\<dots> = {([1], [2]), ([2], [3])}" by (simp add: chain_def insert_commute)
  finally show ?thesis .
qed

lemma three_sccs_costs:
  "partitionCost three_sccs [{1, 2}] = 30" "partitionCost three_sccs [{2, 3}] = 260"
proof -
  have ext: "externalsOf three_sccs 2 = {}" "externalsOf three_sccs 3 = {8, 9}" "externalsOf three_sccs 1 = {}"
    "parentsOf three_sccs 1 = {}" "parentsOf three_sccs 2 = {}" "parentsOf three_sccs 3 = {1}"
    by (auto simp: externalsOf_def parentsOf_def three_sccs_def)
  then have w: "withParents three_sccs {1, 2} = {1, 2}" "withParents three_sccs {2, 3} = {1, 2, 3}"
    by (auto simp: withParents_def)
  show "partitionCost three_sccs [{1, 2}] = 30" "partitionCost three_sccs [{2, 3}] = 260"
    using ext w by (simp_all add: partitionCost_def internalCost_def) (simp_all add: three_sccs_def)
qed

theorem minMax_candidate_witness:
  "\<exists>a'. traverseAllPartitionSubsets (checkIfShouldMerge chain three_sccs 2 [[1], [2], [3]]) chain 3
       [[1], [2], [3]] (resetCandidateSubsetInfo no_candidate) = Some (Inr a') \<and> minSetsToMerge a' = [[1], [2]]"
proof -
  let ?g = "[[1], [2], [3]] :: nat list list"
  have n: "numNodes chain ?g = 3" by (simp add: chain_def)
  have G: "chains ?g" by (simp add: chains_def)
  have pre: "graph_ok chain ?g" "env_orders three_sccs" "caches_ok three_sccs (latencies no_candidate)"
      "known chain (sccToInstructionCountMap no_candidate) ?g (reachableEdges chain ?g)"
    using partitioner_ok_graph [OF chain_ok G] three_sccs_orders caches_ok_new [of three_sccs]
      partitioner_ok_known [OF chain_ok G, of "sccToInstructionCountMap no_candidate"]
    by (simp_all add: no_candidate_def)
  have cost: "mergeCost chain three_sccs ?g ([1], [2]) = 30" "mergeCost chain three_sccs ?g ([2], [3]) = 260"
    using three_sccs_costs by (simp_all add: mergeCost_def chain_def)
  have c: "2 < int 3 \<and> {([1], [2]), ([2], [3 :: nat])} \<noteq> {}" by simp
  from minMax_candidate [OF pre, of 2, unfolded n chain_edges if_P [OF c]] obtain a' e where
    a': "traverseAllPartitionSubsets (checkIfShouldMerge chain three_sccs 2 ?g) chain 3 ?g
        (resetCandidateSubsetInfo no_candidate) = Some (Inr a')"
      "e \<in> {([1], [2]), ([2], [3])}"
      "minSetsToMerge a' = getCycleIntroducedByMerging chain ?g (fst e) (snd e)"
      "\<forall>f \<in> {([1], [2]), ([2], [3])}. mergeCost chain three_sccs ?g e \<le> mergeCost chain three_sccs ?g f"
    by (elim exE conjE bexE) (rule that)
  have "e = ([1], [2])"
  proof (rule ccontr)
    assume "e \<noteq> ([1], [2])"
    then have "e = ([2], [3])" using a'(2) by simp
    with a'(4) cost show False by simp
  qed
  then have "minSetsToMerge a' = [[1], [2]]" using a'(3) by (simp add: chain_def)
  with a'(1) show ?thesis by blast
qed

theorem minMaxMergePartition_ends_witness:
  "\<exists>g' a'. adjustParallelizationPartitionForDSWP chain three_sccs 2 no_candidate il_new [[1], [2], [3]] =
       Some (Inr (g', a')) \<and> length g' \<le> 3 \<and> (length g' \<le> 2 \<or> reachableEdges chain g' = {})"
  using minMaxMergePartition_ends [OF chain_ok three_sccs_orders caches_ok_new [of three_sccs],
      of "[[1], [2], [3]]" 2 no_candidate]
  by (auto simp: chains_def chain_def)

end
