(* ===== verification/Doall_Chunking.thy ===== *)
theory Doall_Chunking
  imports Gino_Prelude "HOL-Library.Signed_Division"
begin

text \<open>
  The code DOALL generates for a task (\<open>doall/src/DOALL_chunking.cpp\<close>,
  \<open>DOALL_lastIteration.cpp\<close>): the loop is rewired so that a task executes chunks of consecutive
  iterations and skips those of the other tasks. The generator returns expressions of the task;
  the second half of the theory gives them a meaning and runs the rewired loop.
\<close>

section \<open>The intermediate representation\<close>

text \<open>
  PHI nodes of the loop header, and the expressions the generator builds. A \<open>Value\<close> is the clone in
  the task of a value of the original program that the loop does not change. All operations are on
  64 bits but those that name their width; \<open>ExitCmp x\<close> is the loop's exit comparison applied to \<open>x\<close>.
\<close>

datatype phi = ChunkPHI | IterCounter | HeaderPHI nat

datatype ir =
    TaskInstanceID | NumTaskInstances | ChunkSizeArg
  | Value nat | Phi phi | Const u64
  | Add ir ir | Sub ir ir | Mul ir ir | SRem ir ir
  | SExt nat ir | Trunc nat ir | AddW nat ir ir
  | Select ir ir ir | ICmpEQ ir ir | ICmpNE ir ir | AndI ir ir
  | ExitCmp ir

text \<open>
  NOELLE's utilities for induction variables: the values a chunk PHI receives from the preheader and
  the latch, the scaling of a step, the offset of a start value, the value an induction variable
  receives from the latch once chunked, and the value compared one iteration ago.
\<close>

record iv_utility =
  chunkPHIStart :: ir
  chunkPHINext :: ir
  scaleInductionVariableStep :: "ir \<Rightarrow> ir \<Rightarrow> ir"
  offsetIVPHI :: "ir \<Rightarrow> ir \<Rightarrow> ir"
  chunkInductionVariablePHI :: "ir \<Rightarrow> ir \<Rightarrow> ir \<Rightarrow> ir"
  valueAnIterationAgo :: "ir \<Rightarrow> ir \<Rightarrow> ir"
  previousComparedValue :: "ir \<Rightarrow> ir \<Rightarrow> ir"
  determineLastIterationValue :: "ir \<Rightarrow> bool \<Rightarrow> ir \<Rightarrow> ir"

section \<open>The loop to parallelize\<close>

record iv_info =
  ivPHI :: nat
  ivStartValue :: ir
  ivStepValue :: ir
  ivUpdate :: ir
  ivInstructions :: "nat list"

text \<open>A periodic variable: its PHI with the incoming values and blocks, and the width of its type.\<close>

record periodic =
  pvPHI :: nat
  pvIncoming :: "(ir \<times> nat) list"
  pvInitial :: ir
  pvPeriod :: ir
  pvStep :: ir
  pvWidth :: nat

record reduction =
  redPHI :: nat
  redNodes :: "nat list"

record doall_loop =
  ivs :: "iv_info list"
  governing :: iv_info
  comparedValue :: ir
  periodics :: "periodic list"
  reductions :: "reduction list"
  preheaderBlock :: nat
  latchBlock :: nat
  header :: "nat list"
  cmpInst :: nat
  brInst :: nat
  derivation :: "nat list"
  exitConditionInst :: "nat option"
  isLoopInvariant :: "nat \<Rightarrow> bool"
  isLoopIteration :: "nat \<Rightarrow> bool"
  isInstruction :: "ir \<Rightarrow> bool"
  incomingOfPHI :: "nat \<Rightarrow> ir option"
  instructionOf :: "ir \<Rightarrow> nat"
  liveOuts :: "(nat \<times> reduction option) list"

section \<open>Induction variables\<close>

text \<open>\<open>original_start + original_step_size * task_instance_id * chunk_size\<close>.\<close>

definition offsetStartValue :: "iv_utility \<Rightarrow> iv_info \<Rightarrow> ir" where
  "offsetStartValue U iv =
     offsetIVPHI U (ivStartValue iv)
       (scaleInductionVariableStep U (ivStepValue iv) (Mul TaskInstanceID ChunkSizeArg))"

text \<open>\<open>original_step_size * (num_task_instances - 1) * chunk_size\<close>.\<close>

definition chunkStepSize :: "iv_utility \<Rightarrow> iv_info \<Rightarrow> ir" where
  "chunkStepSize U iv =
     scaleInductionVariableStep U (ivStepValue iv)
       (Mul (Sub NumTaskInstances (Const 1)) ChunkSizeArg)"

definition chunkedIVValue :: "iv_utility \<Rightarrow> iv_info \<Rightarrow> ir" where
  "chunkedIVValue U iv = chunkInductionVariablePHI U (ivUpdate iv) (chunkPHINext U) (chunkStepSize U iv)"

section \<open>Periodic variables\<close>

text \<open>\<open>cast<SelectInst>(v)->getCondition()\<close>.\<close>

fun getCondition :: "ir \<Rightarrow> ir result" where
  "getCondition (Select c x y) = Inr c"
| "getCondition v = Inl AssertionFailed"

text \<open>Which incoming value comes from the loop.\<close>

definition loopBlockOf :: "periodic \<Rightarrow> nat result" where
  "loopBlockOf pv =
     (if length (pvIncoming pv) \<noteq> 2 then Inl AssertionFailed
      else if fst (pvIncoming pv ! 0) = pvInitial pv then Inr 1
      else if fst (pvIncoming pv ! 1) = pvInitial pv then Inr 0
      else Inl AssertionFailed)"

text \<open>The condition under which a chunk is complete, as read from the chunk PHI.\<close>

definition isChunkCompleted :: "iv_utility \<Rightarrow> doall_loop \<Rightarrow> periodic \<Rightarrow> ir result" where
  "isChunkCompleted U L pv =
     (case loopBlockOf pv of
        Inl e \<Rightarrow> Inl e
      | Inr k \<Rightarrow>
          let (loopValue, block) = pvIncoming pv ! k in
          if \<not> isInstruction L loopValue then Inl AssertionFailed
          else if block = preheaderBlock L then getCondition (chunkPHIStart U)
          else if block = latchBlock L then getCondition (chunkPHINext U)
          else Inl AssertionFailed)"

text \<open>The absolute iteration counter: its values from the preheader and from the latch.\<close>

definition iterCounterStart :: ir where
  "iterCounterStart = Mul TaskInstanceID ChunkSizeArg"

definition iterCounterNext :: "ir \<Rightarrow> ir" where
  "iterCounterNext completed =
     (let iterIncrement = Add (Phi IterCounter) (Const 1);
          chunkStep = Mul (Sub NumTaskInstances (Const 1)) ChunkSizeArg
      in Select completed (Add iterIncrement chunkStep) iterIncrement)"

definition pvCurr :: "periodic \<Rightarrow> ir" where
  "pvCurr pv =
     (let w = pvWidth pv;
          pvIter = SRem (Phi IterCounter) (SExt w (pvPeriod pv));
          pvStepXpvIter = Mul (SExt w (pvStep pv)) pvIter
      in AddW w (Trunc w pvStepXpvIter) (pvInitial pv))"

text \<open>
  The loop over the periodic variables: the value the counter receives from the latch, once it
  exists, and what replaces each PHI.
\<close>

fun rewirePeriodic ::
    "iv_utility \<Rightarrow> doall_loop \<Rightarrow> periodic list \<Rightarrow> ir option \<Rightarrow> (nat \<rightharpoonup> ir) \<Rightarrow>
     (ir option \<times> (nat \<rightharpoonup> ir)) result" where
  "rewirePeriodic U L [] counter repl = Inr (counter, repl)"
| "rewirePeriodic U L (pv # pvs) counter repl =
     (case isChunkCompleted U L pv of
        Inl e \<Rightarrow> Inl e
      | Inr completed \<Rightarrow>
          rewirePeriodic U L pvs
            (case counter of None \<Rightarrow> Some (iterCounterNext completed) | Some c \<Rightarrow> Some c)
            (repl(pvPHI pv \<mapsto> pvCurr pv)))"

section \<open>The exit condition\<close>

text \<open>
  The derivation of the value compared against is moved to the entry of the task; a PHI in it is
  replaced by its first incoming value.
\<close>

fun hoistDerivation :: "doall_loop \<Rightarrow> nat list \<Rightarrow> nat list result" where
  "hoistDerivation L [] = Inr []"
| "hoistDerivation L (i # is) =
     (if \<not> isLoopInvariant L i then Inl AssertionFailed
      else case hoistDerivation L is of
          Inl e \<Rightarrow> Inl e
        | Inr moved \<Rightarrow>
            Inr (case incomingOfPHI L i of
                None \<Rightarrow> i # moved
              | Some v \<Rightarrow> if isInstruction L v then instructionOf L v # moved else moved))"

definition hoistExitCondition :: "doall_loop \<Rightarrow> nat list result" where
  "hoistExitCondition L =
     (case exitConditionInst L of
        None \<Rightarrow> Inr []
      | Some i \<Rightarrow>
          (case hoistDerivation L (derivation L) of Inl e \<Rightarrow> Inl e | Inr moved \<Rightarrow> Inr (moved @ [i])))"

section \<open>Instructions that may execute too often\<close>

text \<open>The instructions of the new header: clones, and those that were injected.\<close>

datatype hinst = Clone nat | ChunkInst | IterCounterInst | PeriodicInst nat

definition headerClone :: "doall_loop \<Rightarrow> hinst list" where
  "headerClone L =
     ChunkInst # (if periodics L = [] then [] else [IterCounterInst]) @
     map (\<lambda>pv. PeriodicInst (pvPHI pv)) (periodics L) @ map Clone (header L)"

definition reducibleHeaderPHIsWithHeaderLogic :: "doall_loop \<Rightarrow> nat list" where
  "reducibleHeaderPHIsWithHeaderLogic L =
     map redPHI (filter (\<lambda>r. \<exists>i \<in> set (redNodes r). i \<in> set (header L)) (reductions L))"

definition repeatableInstructions :: "doall_loop \<Rightarrow> hinst set" where
  "repeatableInstructions L =
     Clone ` (\<Union>iv \<in> set (ivs L). set (ivInstructions iv)) \<union>
     {Clone (cmpInst L), Clone (brInst L), ChunkInst} \<union>
     Clone ` (\<Union>r \<in> set (reductions L). {i \<in> set (redNodes r). i \<in> set (header L)}) \<union>
     Clone ` {i \<in> set (header L). isLoopIteration L i \<and> isLoopInvariant L i}"

definition requiresConditionBeforeEnteringHeader :: "doall_loop \<Rightarrow> bool" where
  "requiresConditionBeforeEnteringHeader L \<longleftrightarrow>
     (\<exists>i \<in> set (headerClone L). i \<notin> repeatableInstructions L)"

section \<open>Guards\<close>

text \<open>
  Without guards: the reductions with code in the header must drop what the last execution of the
  header added when that execution was one too many.
\<close>

definition headerPHIsAndProducers :: "doall_loop \<Rightarrow> (nat \<times> nat) list" where
  "headerPHIsAndProducers L =
     concat (map (\<lambda>(producer, red).
       case red of
         None \<Rightarrow> []
       | Some r \<Rightarrow> if redPHI r \<in> set (reducibleHeaderPHIsWithHeaderLogic L)
                   then [(redPHI r, producer)] else []) (liveOuts L))"

definition skipLastHeader :: "iv_utility \<Rightarrow> doall_loop \<Rightarrow> ir" where
  "skipLastHeader U L =
     (let phi = Phi (HeaderPHI (ivPHI (governing L)));
          prev = valueAnIterationAgo U phi (ivStepValue (governing L))
      in AndI (ICmpNE phi (ivStartValue (governing L))) (ExitCmp prev))"

definition exitSelectsOf :: "iv_utility \<Rightarrow> doall_loop \<Rightarrow> (nat \<times> ir) list" where
  "exitSelectsOf U L =
     map (\<lambda>(headerPHI, producer).
       (producer, Select (skipLastHeader U L) (Phi (HeaderPHI headerPHI)) (Value producer)))
       (headerPHIsAndProducers L)"

text \<open>With guards: leave before the header when the previous iteration was not executed.\<close>

definition latchGuardOf :: "iv_utility \<Rightarrow> doall_loop \<Rightarrow> ir" where
  "latchGuardOf U L =
     ExitCmp (previousComparedValue U (chunkedIVValue U (governing L)) (ivStepValue (governing L)))"

definition preheaderGuardOf :: "iv_utility \<Rightarrow> doall_loop \<Rightarrow> ir" where
  "preheaderGuardOf U L =
     (let offsetStart = offsetStartValue U (governing L);
          prev = valueAnIterationAgo U offsetStart (ivStepValue (governing L))
      in AndI (ICmpNE offsetStart (ivStartValue (governing L))) (ExitCmp prev))"

section \<open>The rewired task\<close>

record task_code =
  fromEntry :: "phi \<rightharpoonup> ir"
  fromLatch :: "phi \<rightharpoonup> ir"
  replacedPHIs :: "nat \<rightharpoonup> ir"
  hoisted :: "nat list"
  preheaderGuard :: "ir option"
  latchGuard :: "ir option"
  exitSelects :: "(nat \<times> ir) list"

definition ivPHIs :: "(iv_info \<Rightarrow> ir) \<Rightarrow> iv_info list \<Rightarrow> phi \<rightharpoonup> ir" where
  "ivPHIs f is = map_of (map (\<lambda>iv. (HeaderPHI (ivPHI iv), f iv)) is)"

definition rewireLoopToIterateChunks :: "iv_utility \<Rightarrow> doall_loop \<Rightarrow> task_code result" where
  "rewireLoopToIterateChunks U L =
     (case rewirePeriodic U L (periodics L) None Map.empty of
        Inl e \<Rightarrow> Inl e
      | Inr (counter, repl) \<Rightarrow>
          (case hoistExitCondition L of
             Inl e \<Rightarrow> Inl e
           | Inr moved \<Rightarrow>
               let guard = requiresConditionBeforeEnteringHeader L in
               Inr \<lparr>fromEntry = (ivPHIs (offsetStartValue U) (ivs L))(ChunkPHI \<mapsto> chunkPHIStart U,
                      IterCounter := (case counter of None \<Rightarrow> None | Some c \<Rightarrow> Some iterCounterStart)),
                    fromLatch = (ivPHIs (chunkedIVValue U) (ivs L))(ChunkPHI \<mapsto> chunkPHINext U,
                      IterCounter := counter),
                    replacedPHIs = repl, hoisted = moved,
                    preheaderGuard = (if guard then Some (preheaderGuardOf U L) else None),
                    latchGuard = (if guard then Some (latchGuardOf U L) else None),
                    exitSelects = (if guard then [] else exitSelectsOf U L)\<rparr>))"

section \<open>Running a task\<close>

record run_env =
  taskID :: u64
  numTasks :: u64
  chunk :: u64
  vals :: "nat \<Rightarrow> u64"
  pastExit :: "u64 \<Rightarrow> bool"

definition srem :: "u64 \<Rightarrow> u64 \<Rightarrow> u64" where
  "srem a b = word_of_int (sint a smod sint b)"

fun eval :: "run_env \<Rightarrow> (phi \<Rightarrow> u64) \<Rightarrow> ir \<Rightarrow> u64" where
  "eval E st TaskInstanceID = taskID E"
| "eval E st NumTaskInstances = numTasks E"
| "eval E st ChunkSizeArg = chunk E"
| "eval E st (Value i) = vals E i"
| "eval E st (Phi p) = st p"
| "eval E st (Const c) = c"
| "eval E st (Add x y) = eval E st x + eval E st y"
| "eval E st (Sub x y) = eval E st x - eval E st y"
| "eval E st (Mul x y) = eval E st x * eval E st y"
| "eval E st (SRem x y) = srem (eval E st x) (eval E st y)"
| "eval E st (SExt w x) = signed_take_bit (w - 1) (eval E st x)"
| "eval E st (Trunc w x) = take_bit w (eval E st x)"
| "eval E st (AddW w x y) = take_bit w (eval E st x + eval E st y)"
| "eval E st (Select c x y) = (if eval E st c \<noteq> 0 then eval E st x else eval E st y)"
| "eval E st (ICmpEQ x y) = of_bool (eval E st x = eval E st y)"
| "eval E st (ICmpNE x y) = of_bool (eval E st x \<noteq> eval E st y)"
| "eval E st (AndI x y) = of_bool (eval E st x \<noteq> 0 \<and> eval E st y \<noteq> 0)"
| "eval E st (ExitCmp x) = of_bool (pastExit E (eval E st x))"

text \<open>The PHI nodes after the preheader and after the latch; those not listed keep their value.\<close>

definition enter :: "run_env \<Rightarrow> task_code \<Rightarrow> (phi \<Rightarrow> u64) \<Rightarrow> phi \<Rightarrow> u64" where
  "enter E code st p = (case fromEntry code p of Some e \<Rightarrow> eval E st e | None \<Rightarrow> st p)"

definition advance :: "run_env \<Rightarrow> task_code \<Rightarrow> (phi \<Rightarrow> u64) \<Rightarrow> phi \<Rightarrow> u64" where
  "advance E code st p = (case fromLatch code p of Some e \<Rightarrow> eval E st e | None \<Rightarrow> st p)"

definition holds :: "run_env \<Rightarrow> (phi \<Rightarrow> u64) \<Rightarrow> ir option \<Rightarrow> bool" where
  "holds E st guard = (case guard of None \<Rightarrow> False | Some g \<Rightarrow> eval E st g \<noteq> 0)"

text \<open>How control left the loop.\<close>

datatype loop_exit = FromPreheader | FromHeader "phi \<Rightarrow> u64" | FromLatch "phi \<Rightarrow> u64"

text \<open>
  The executions of the header, each with the values of its PHI nodes and whether the body followed.
  \<open>None\<close> is running out of fuel.
\<close>

fun runHeader ::
    "run_env \<Rightarrow> ir \<Rightarrow> task_code \<Rightarrow> nat \<Rightarrow> (phi \<Rightarrow> u64) \<Rightarrow>
     (((phi \<Rightarrow> u64) \<times> bool) list \<times> loop_exit) option" where
  "runHeader E compared code 0 st = None"
| "runHeader E compared code (Suc fuel) st =
     (if pastExit E (eval E st compared) then Some ([(st, False)], FromHeader st)
      else if holds E st (latchGuard code) then Some ([(st, True)], FromLatch (advance E code st))
      else (case runHeader E compared code fuel (advance E code st) of
          None \<Rightarrow> None
        | Some (trace, exit) \<Rightarrow> Some ((st, True) # trace, exit)))"

definition runTask ::
    "run_env \<Rightarrow> ir \<Rightarrow> task_code \<Rightarrow> nat \<Rightarrow> (phi \<Rightarrow> u64) \<Rightarrow>
     (((phi \<Rightarrow> u64) \<times> bool) list \<times> loop_exit) option" where
  "runTask E compared code fuel st =
     (if holds E st (preheaderGuard code) then Some ([], FromPreheader)
      else runHeader E compared code fuel (enter E code st))"

text \<open>
  \<open>getBasicBlockExecutedOnlyByLastIterationBeforeExitingTask\<close>: whether the new block runs. The PHI
  nodes of the last block merge the compared value (from the header) and the chunked value (from the
  latch); a task that leaves in the preheader does not reach the block.
\<close>

definition runsLastIterationBlock :: "run_env \<Rightarrow> iv_utility \<Rightarrow> doall_loop \<Rightarrow> loop_exit \<Rightarrow> bool" where
  "runsLastIterationBlock E U L exit =
     (let gov = governing L;
          lastValue = (\<lambda>st exitPHI flag.
            eval E st (ExitCmp (determineLastIterationValue U (Const exitPHI) flag (ivStepValue gov))) = 0)
      in case exit of
           FromPreheader \<Rightarrow> False
         | FromHeader st \<Rightarrow> lastValue st (eval E st (comparedValue L)) False
         | FromLatch st \<Rightarrow> lastValue st (st (HeaderPHI (ivPHI gov))) True)"

text \<open>The loop as it was: no guard, the original values.\<close>

definition original_code :: "doall_loop \<Rightarrow> task_code" where
  "original_code L =
     \<lparr>fromEntry = ivPHIs ivStartValue (ivs L), fromLatch = ivPHIs ivUpdate (ivs L),
      replacedPHIs = Map.empty, hoisted = [], preheaderGuard = None, latchGuard = None,
      exitSelects = []\<rparr>"

end
