(* ===== verification/Doall_Correct.thy ===== *)
theory Doall_Correct
  imports Doall_Chunking
begin

text \<open>
  The rewired tasks of a DOALL loop together execute each iteration of the loop once: the schedule
  of iterations, the states of a task, and the theorems on what the tasks execute.
\<close>

section \<open>The schedule\<close>

text \<open>The iteration a task is in at its \<open>j\<close>-th execution of the header.\<close>

definition iteration :: "nat \<Rightarrow> nat \<Rightarrow> nat \<Rightarrow> nat \<Rightarrow> nat" where
  "iteration T c t j = (j div c * T + t) * c + j mod c"

lemma iteration_0: "iteration T c t 0 = t * c"
  by (simp add: iteration_def)

lemma iteration_Suc:
  assumes "0 < c" and "0 < T"
  shows "iteration T c t (Suc j) = iteration T c t j + 1 + (if Suc (j mod c) = c then (T - 1) * c else 0)"
proof (cases "Suc (j mod c) = c")
  case True
  then have d: "Suc j div c = Suc (j div c)" "Suc j mod c = 0" by (simp_all add: div_Suc mod_Suc)
  obtain T' where T: "T = Suc T'" using assms(2) by (cases T) auto
  have "iteration T c t (Suc j) = (j div c * T + T + t) * c" using d by (simp add: iteration_def)
  moreover have "iteration T c t j + 1 = (j div c * T + t) * c + c" using True by (simp add: iteration_def)
  ultimately show ?thesis using True by (simp add: T algebra_simps)
next
  case False
  then have "Suc j div c = j div c" "Suc j mod c = Suc (j mod c)" by (simp_all add: div_Suc mod_Suc)
  with False show ?thesis by (simp add: iteration_def)
qed

lemma iteration_less_Suc: "0 < c \<Longrightarrow> 0 < T \<Longrightarrow> iteration T c t j < iteration T c t (Suc j)"
  by (simp add: iteration_Suc)

lemma iteration_strict_mono: "0 < c \<Longrightarrow> 0 < T \<Longrightarrow> strict_mono (iteration T c t)"
  using iteration_less_Suc by (simp add: strict_mono_Suc_iff)

lemma le_iteration: "0 < c \<Longrightarrow> 0 < T \<Longrightarrow> j \<le> iteration T c t j"
  using iteration_strict_mono strict_mono_imp_increasing by blast

lemma iteration_owner:
  assumes "0 < c" and "t < T"
  shows "iteration T c t j div c mod T = t" and "iteration T c t j div c div T * c + iteration T c t j mod c = j"
proof -
  have m: "j mod c < c" using assms(1) by simp
  have d: "iteration T c t j div c = j div c * T + t" "iteration T c t j mod c = j mod c"
    using m assms(1) by (simp_all add: iteration_def)
  show "iteration T c t j div c mod T = t" using assms(2) by (simp add: d)
  show "iteration T c t j div c div T * c + iteration T c t j mod c = j" using assms(2) by (simp add: d)
qed

lemma iteration_onto:
  assumes "0 < c" and "i div c mod T = t"
  shows "iteration T c t (i div c div T * c + i mod c) = i"
proof -
  have "(i div c div T * c + i mod c) div c = i div c div T" "(i div c div T * c + i mod c) mod c = i mod c"
    using assms(1) by simp_all
  then have "iteration T c t (i div c div T * c + i mod c) = (i div c div T * T + t) * c + i mod c"
    by (simp add: iteration_def)
  also have "i div c div T * T + t = i div c" using assms(2) by (metis div_mult_mod_eq)
  finally show ?thesis by simp
qed

text \<open>How many header executions of a task are below \<open>n\<close>.\<close>

definition visits :: "nat \<Rightarrow> nat \<Rightarrow> nat \<Rightarrow> nat \<Rightarrow> nat" where
  "visits T c n t = (LEAST j. n \<le> iteration T c t j)"

lemma visits_iff:
  assumes "0 < c" and "0 < T"
  shows "j < visits T c n t \<longleftrightarrow> iteration T c t j < n"
proof
  show "iteration T c t j < n" if "j < visits T c n t"
    using not_less_Least [of j] that unfolding visits_def by (meson not_le)
next
  assume less: "iteration T c t j < n"
  have "n \<le> iteration T c t n" by (rule le_iteration [OF assms])
  then have "n \<le> iteration T c t (visits T c n t)" unfolding visits_def by (rule LeastI)
  with less have "iteration T c t j < iteration T c t (visits T c n t)" by simp
  then show "j < visits T c n t" using iteration_strict_mono [OF assms] by (simp add: strict_mono_less)
qed

lemma visits_le: "0 < c \<Longrightarrow> 0 < T \<Longrightarrow> visits T c n t \<le> n"
  using visits_iff [of c T n n t] le_iteration [of c T n t] by simp

lemma iteration_visits_ge: "0 < c \<Longrightarrow> 0 < T \<Longrightarrow> n \<le> iteration T c t (visits T c n t)"
  using visits_iff [of c T "visits T c n t" n t] by simp

lemma iteration_visits_le:
  assumes "0 < c" and "t < T" and "j \<le> visits T c n t"
  shows "iteration T c t j \<le> n + T * c"
proof (cases j)
  case 0
  then show ?thesis using assms by (simp add: iteration_0 trans_le_add2)
next
  case (Suc k)
  have T: "0 < T" using assms(2) by simp
  have "iteration T c t k < n" using visits_iff [OF assms(1) T, of k n t] assms(3) Suc by simp
  moreover have "1 + (T - 1) * c \<le> T * c" using assms(1) T by (cases T; cases c) auto
  ultimately show ?thesis using iteration_Suc [OF assms(1) T, of t k] Suc by (auto split: if_splits)
qed

text \<open>The tasks share the iterations below \<open>n\<close>: each is executed by one task, once.\<close>

lemma visits_mset:
  assumes "0 < c" and "t < T"
  shows "mset (map (iteration T c t) [0..<visits T c n t]) = mset_set {i. i < n \<and> i div c mod T = t}"
proof -
  have T: "0 < T" using assms(2) by simp
  have inj: "inj (iteration T c t)" by (rule strict_mono_imp_inj_on [OF iteration_strict_mono [OF assms(1) T]])
  have "distinct (map (iteration T c t) [0..<visits T c n t])"
    using inj_on_subset [OF inj subset_UNIV] by (simp add: distinct_map)
  moreover have "set (map (iteration T c t) [0..<visits T c n t]) = {i. i < n \<and> i div c mod T = t}"
  proof (intro set_eqI iffI)
    fix i
    assume "i \<in> set (map (iteration T c t) [0..<visits T c n t])"
    then obtain j where "j < visits T c n t" "i = iteration T c t j" by auto
    then show "i \<in> {i. i < n \<and> i div c mod T = t}"
      using visits_iff [OF assms(1) T, of j n t] iteration_owner(1) [OF assms] by simp
  next
    fix i
    assume i: "i \<in> {i. i < n \<and> i div c mod T = t}"
    let ?j = "i div c div T * c + i mod c"
    have "i div c mod T = t" using i by simp
    from iteration_onto [OF assms(1) this] have e: "iteration T c t ?j = i" .
    then have "?j < visits T c n t" using visits_iff [OF assms(1) T, of ?j n t] i by simp
    then show "i \<in> set (map (iteration T c t) [0..<visits T c n t])" using e by force
  qed
  ultimately show ?thesis by (metis mset_set_set)
qed

lemma schedule_prefix:
  assumes "0 < c" and "k \<le> T"
  shows "mset (concat (map (\<lambda>t. map (iteration T c t) [0..<visits T c n t]) [0..<k])) =
    mset_set {i. i < n \<and> i div c mod T < k}"
  using assms(2)
proof (induction k)
  case (Suc k)
  have "{i. i < n \<and> i div c mod T < Suc k} = {i. i < n \<and> i div c mod T < k} \<union> {i. i < n \<and> i div c mod T = k}"
    by auto
  moreover have "{i. i < n \<and> i div c mod T < k} \<inter> {i. i < n \<and> i div c mod T = k} = {}" by auto
  ultimately have "mset_set {i. i < n \<and> i div c mod T < Suc k} =
      mset_set {i. i < n \<and> i div c mod T < k} + mset_set {i. i < n \<and> i div c mod T = k}"
    by (simp add: mset_set_Union)
  moreover have "mset (map (iteration T c k) [0..<visits T c n k]) = mset_set {i. i < n \<and> i div c mod T = k}"
    by (rule visits_mset [OF assms(1)]) (use Suc.prems in simp)
  ultimately show ?case using Suc by simp
qed simp

lemma schedule_complete:
  assumes "0 < c" and "0 < T"
  shows "mset (concat (map (\<lambda>t. map (iteration T c t) [0..<visits T c n t]) [0..<T])) = mset [0..<n]"
proof -
  have "{i. i < n \<and> i div c mod T < T} = {0..<n}" using assms(2) by auto
  then show ?thesis using schedule_prefix [OF assms(1) order_refl] by (simp add: mset_upt)
qed

section \<open>What the code relies on\<close>

text \<open>
  NOELLE's utilities do what their names say. \<open>updated\<close> tells whether the loop compares the updated
  value of its governing induction variable instead of the PHI.
\<close>

definition utility_ok :: "iv_utility \<Rightarrow> bool \<Rightarrow> bool" where
  "utility_ok U updated \<longleftrightarrow>
     (\<forall>E st. eval E st (chunkPHIStart U) = 0) \<and>
     (\<exists>completed zero next. chunkPHINext U = Select completed zero next \<and>
        (\<forall>E st. (eval E st completed \<noteq> 0 \<longleftrightarrow> st ChunkPHI + 1 = chunk E) \<and>
           eval E st zero = 0 \<and> eval E st next = st ChunkPHI + 1)) \<and>
     (\<forall>E st x n. eval E st (scaleInductionVariableStep U x n) = eval E st x * eval E st n) \<and>
     (\<forall>E st x n. eval E st (offsetIVPHI U x n) = eval E st x + eval E st n) \<and>
     (\<forall>E st x c a b n. eval E st (chunkInductionVariablePHI U x (Select c a b) n) =
        (if eval E st c \<noteq> 0 then eval E st x + eval E st n else eval E st x)) \<and>
     (\<forall>E st x n. eval E st (valueAnIterationAgo U x n) =
        (if updated then eval E st x else eval E st x - eval E st n)) \<and>
     (\<forall>E st x n. eval E st (previousComparedValue U x n) =
        (if updated then eval E st x else eval E st x - eval E st n)) \<and>
     (\<forall>E st x n flag. eval E st (determineLastIterationValue U x flag n) =
        (if updated \<and> flag then eval E st x else eval E st x - eval E st n))"

lemma utility_chunk:
  assumes "utility_ok U updated"
  shows "\<exists>completed zero nxt. chunkPHINext U = Select completed zero nxt \<and>
    (\<forall>E st. (eval E st completed \<noteq> 0 \<longleftrightarrow> st ChunkPHI + 1 = chunk E) \<and>
       eval E st zero = 0 \<and> eval E st nxt = st ChunkPHI + 1)"
  using assms unfolding utility_ok_def by (elim conjE) assumption

lemma utility_chunkIV:
  assumes "utility_ok U updated"
  shows "eval E st (chunkInductionVariablePHI U x (Select c a b) n) =
    (if eval E st c \<noteq> 0 then eval E st x + eval E st n else eval E st x)"
  using assms unfolding utility_ok_def by (elim conjE) (erule allE)+

lemma utility_arith:
  assumes "utility_ok U updated"
  shows "eval E st (chunkPHIStart U) = 0"
    and "eval E st (scaleInductionVariableStep U x n) = eval E st x * eval E st n"
    and "eval E st (offsetIVPHI U x n) = eval E st x + eval E st n"
    and "eval E st (valueAnIterationAgo U x n) = (if updated then eval E st x else eval E st x - eval E st n)"
    and "eval E st (previousComparedValue U x n) = (if updated then eval E st x else eval E st x - eval E st n)"
    and "eval E st (determineLastIterationValue U x flag n) =
      (if updated \<and> flag then eval E st x else eval E st x - eval E st n)"
  using assms unfolding utility_ok_def by simp_all

text \<open>A start or step value: a constant, or a value that does not change in the task.\<close>

fun fixedValue :: "ir \<Rightarrow> bool" where
  "fixedValue (Value i) = True"
| "fixedValue (Const c) = True"
| "fixedValue v = False"

definition valueOf :: "(nat \<Rightarrow> u64) \<Rightarrow> ir \<Rightarrow> u64" where
  "valueOf V v = eval \<lparr>taskID = 0, numTasks = 0, chunk = 0, vals = V, pastExit = (\<lambda>x. False)\<rparr> (\<lambda>p. 0) v"

lemma eval_fixedValue: "fixedValue v \<Longrightarrow> eval E st v = valueOf (vals E) v"
  by (cases v) (simp_all add: valueOf_def)

definition ivAt :: "(nat \<Rightarrow> u64) \<Rightarrow> iv_info \<Rightarrow> nat \<Rightarrow> u64" where
  "ivAt V iv i = valueOf V (ivStartValue iv) + of_nat i * valueOf V (ivStepValue iv)"

text \<open>What the loop compares in its \<open>i\<close>-th iteration.\<close>

definition comparedAt :: "(nat \<Rightarrow> u64) \<Rightarrow> doall_loop \<Rightarrow> bool \<Rightarrow> nat \<Rightarrow> u64" where
  "comparedAt V L updated i = ivAt V (governing L) (if updated then Suc i else i)"

definition loop_ok :: "doall_loop \<Rightarrow> bool \<Rightarrow> bool" where
  "loop_ok L updated \<longleftrightarrow>
     distinct (map ivPHI (ivs L)) \<and> governing L \<in> set (ivs L) \<and>
     (\<forall>iv \<in> set (ivs L). fixedValue (ivStartValue iv) \<and> fixedValue (ivStepValue iv) \<and>
        (\<forall>E st. eval E st (ivUpdate iv) = st (HeaderPHI (ivPHI iv)) + eval E st (ivStepValue iv))) \<and>
     comparedValue L =
       (if updated then ivUpdate (governing L) else Phi (HeaderPHI (ivPHI (governing L)))) \<and>
     (\<forall>i \<in> set (derivation L). isLoopInvariant L i) \<and>
     preheaderBlock L \<noteq> latchBlock L \<and>
     (\<forall>pv \<in> set (periodics L). \<exists>k v. loopBlockOf pv = Inr k \<and> pvIncoming pv ! k = (v, latchBlock L) \<and>
        isInstruction L v \<and> fixedValue (pvInitial pv) \<and> fixedValue (pvPeriod pv) \<and> fixedValue (pvStep pv))"

text \<open>
  The run: \<open>T\<close> tasks with chunks of \<open>c\<close> iterations of a loop whose body runs \<open>N\<close> times. The
  comparison, made non-strict, holds from the \<open>N\<close>-th value on, as far as the tasks look, and the
  governing induction variable does not wrap around to its start value in that range.
\<close>

definition run_ok :: "(nat \<Rightarrow> u64) \<Rightarrow> (u64 \<Rightarrow> bool) \<Rightarrow> doall_loop \<Rightarrow> bool \<Rightarrow> nat \<Rightarrow> nat \<Rightarrow> nat \<Rightarrow> bool" where
  "run_ok V P L updated N T c \<longleftrightarrow>
     0 < T \<and> 0 < c \<and> N + T * c < 2 ^ 63 \<and>
     (\<forall>i \<le> N + T * c. P (comparedAt V L updated i) \<longleftrightarrow> N \<le> i) \<and>
     (\<forall>i \<le> N + T * c. 0 < i \<longrightarrow> ivAt V (governing L) i \<noteq> ivAt V (governing L) 0)"

definition task_env :: "(nat \<Rightarrow> u64) \<Rightarrow> (u64 \<Rightarrow> bool) \<Rightarrow> nat \<Rightarrow> nat \<Rightarrow> nat \<Rightarrow> run_env" where
  "task_env V P T c t = \<lparr>taskID = of_nat t, numTasks = of_nat T, chunk = of_nat c, vals = V, pastExit = P\<rparr>"

lemma task_env_simps [simp]:
  "taskID (task_env V P T c t) = of_nat t" "numTasks (task_env V P T c t) = of_nat T"
  "chunk (task_env V P T c t) = of_nat c" "vals (task_env V P T c t) = V"
  "pastExit (task_env V P T c t) = P"
  by (simp_all add: task_env_def)

section \<open>The generator\<close>

lemma ivPHIs_lookup:
  assumes "distinct (map ivPHI is)" and "iv \<in> set is"
  shows "ivPHIs f is (HeaderPHI (ivPHI iv)) = Some (f iv)"
proof -
  have "distinct (map fst (map (\<lambda>iv. (HeaderPHI (ivPHI iv), f iv)) is))"
    using assms(1) by (simp add: distinct_map inj_on_def)
  then show ?thesis unfolding ivPHIs_def using assms(2) by (intro map_of_is_SomeI) auto
qed

lemma isChunkCompleted_ok:
  assumes "loop_ok L updated" and "chunkPHINext U = Select completed zero next" and "pv \<in> set (periodics L)"
  shows "isChunkCompleted U L pv = Inr completed"
  using assms unfolding loop_ok_def isChunkCompleted_def by fastforce

lemma rewirePeriodic_ok:
  assumes "loop_ok L updated" and "chunkPHINext U = Select completed zero next"
    and "set pvs \<subseteq> set (periodics L)" and "counter = None \<or> counter = Some (iterCounterNext completed)"
  shows "\<exists>repl'. rewirePeriodic U L pvs counter repl =
    Inr (if pvs = [] then counter else Some (iterCounterNext completed), repl')"
  using assms(3,4)
proof (induction pvs arbitrary: counter repl)
  case (Cons pv pvs)
  have c: "isChunkCompleted U L pv = Inr completed"
    using Cons.prems by (intro isChunkCompleted_ok [OF assms(1,2)]) simp
  have counter: "(case counter of None \<Rightarrow> Some (iterCounterNext completed) | Some c \<Rightarrow> Some c) =
      Some (iterCounterNext completed)" using Cons.prems(2) by auto
  have "\<exists>repl'. rewirePeriodic U L pvs (Some (iterCounterNext completed)) (repl(pvPHI pv \<mapsto> pvCurr pv)) =
      Inr (Some (iterCounterNext completed), repl')"
    using Cons.IH [of "Some (iterCounterNext completed)" "repl(pvPHI pv \<mapsto> pvCurr pv)"] Cons.prems(1)
    by (simp only: if_cancel set_simps insert_subset simp_thms)
  then show ?case using c counter by simp
qed simp

lemma hoistDerivation_ok:
  "\<forall>i \<in> set is. isLoopInvariant L i \<Longrightarrow> \<exists>moved. hoistDerivation L is = Inr moved"
  by (induction "is") (auto split: option.splits)

text \<open>The parts of the generated code the runs depend on.\<close>

lemma rewire_value:
  assumes "loop_ok L updated" and "chunkPHINext U = Select completed zero next"
  shows "\<exists>code. rewireLoopToIterateChunks U L = Inr code \<and>
    (\<forall>iv \<in> set (ivs L). fromEntry code (HeaderPHI (ivPHI iv)) = Some (offsetStartValue U iv) \<and>
       fromLatch code (HeaderPHI (ivPHI iv)) = Some (chunkedIVValue U iv)) \<and>
    fromEntry code ChunkPHI = Some (chunkPHIStart U) \<and> fromLatch code ChunkPHI = Some (chunkPHINext U) \<and>
    (periodics L \<noteq> [] \<longrightarrow> fromEntry code IterCounter = Some iterCounterStart \<and>
       fromLatch code IterCounter = Some (iterCounterNext completed)) \<and>
    (if requiresConditionBeforeEnteringHeader L
     then preheaderGuard code = Some (preheaderGuardOf U L) \<and> latchGuard code = Some (latchGuardOf U L)
     else preheaderGuard code = None \<and> latchGuard code = None) \<and>
    exitSelects code = (if requiresConditionBeforeEnteringHeader L then [] else exitSelectsOf U L)"
proof -
  obtain repl where p: "rewirePeriodic U L (periodics L) None Map.empty =
      Inr (if periodics L = [] then None else Some (iterCounterNext completed), repl)"
    using rewirePeriodic_ok [OF assms subset_refl disjI1 [OF refl], of Map.empty] by blast
  have inv: "\<forall>i \<in> set (derivation L). isLoopInvariant L i" and d: "distinct (map ivPHI (ivs L))"
    using assms(1) by (simp_all add: loop_ok_def)
  obtain moved where h: "hoistExitCondition L = Inr moved"
    using hoistDerivation_ok [OF inv] by (cases "exitConditionInst L") (auto simp: hoistExitCondition_def)
  show ?thesis
    unfolding rewireLoopToIterateChunks_def p sum.case prod.case h Let_def
    using ivPHIs_lookup [OF d] by simp
qed

section \<open>The states of a task\<close>

text \<open>The PHI nodes when the header starts its \<open>j\<close>-th execution, in iteration \<open>i\<close>.\<close>

definition atIteration ::
    "(nat \<Rightarrow> u64) \<Rightarrow> doall_loop \<Rightarrow> nat \<Rightarrow> nat \<Rightarrow> nat \<Rightarrow> (phi \<Rightarrow> u64) \<Rightarrow> bool" where
  "atIteration V L c j i st \<longleftrightarrow>
     (\<forall>iv \<in> set (ivs L). st (HeaderPHI (ivPHI iv)) = ivAt V iv i) \<and>
     st ChunkPHI = of_nat (j mod c) \<and> (periodics L \<noteq> [] \<longrightarrow> st IterCounter = of_nat i)"

definition code_ok :: "iv_utility \<Rightarrow> doall_loop \<Rightarrow> ir \<Rightarrow> task_code \<Rightarrow> bool" where
  "code_ok U L completed code \<longleftrightarrow>
    (\<forall>iv \<in> set (ivs L). fromEntry code (HeaderPHI (ivPHI iv)) = Some (offsetStartValue U iv) \<and>
       fromLatch code (HeaderPHI (ivPHI iv)) = Some (chunkedIVValue U iv)) \<and>
    fromEntry code ChunkPHI = Some (chunkPHIStart U) \<and> fromLatch code ChunkPHI = Some (chunkPHINext U) \<and>
    (periodics L \<noteq> [] \<longrightarrow> fromEntry code IterCounter = Some iterCounterStart \<and>
       fromLatch code IterCounter = Some (iterCounterNext completed)) \<and>
    (if requiresConditionBeforeEnteringHeader L
     then preheaderGuard code = Some (preheaderGuardOf U L) \<and> latchGuard code = Some (latchGuardOf U L)
     else preheaderGuard code = None \<and> latchGuard code = None) \<and>
    exitSelects code = (if requiresConditionBeforeEnteringHeader L then [] else exitSelectsOf U L)"

lemma loop_ok_iv:
  assumes "loop_ok L updated" and "iv \<in> set (ivs L)"
  shows "eval E st (ivStartValue iv) = valueOf (vals E) (ivStartValue iv)"
    and "eval E st (ivStepValue iv) = valueOf (vals E) (ivStepValue iv)"
    and "eval E st (ivUpdate iv) = st (HeaderPHI (ivPHI iv)) + valueOf (vals E) (ivStepValue iv)"
proof -
  have f: "fixedValue (ivStartValue iv)" "fixedValue (ivStepValue iv)"
    "eval E st (ivUpdate iv) = st (HeaderPHI (ivPHI iv)) + eval E st (ivStepValue iv)"
    using assms by (auto simp: loop_ok_def)
  show "eval E st (ivStartValue iv) = valueOf (vals E) (ivStartValue iv)" by (rule eval_fixedValue [OF f(1)])
  show g: "eval E st (ivStepValue iv) = valueOf (vals E) (ivStepValue iv)" by (rule eval_fixedValue [OF f(2)])
  show "eval E st (ivUpdate iv) = st (HeaderPHI (ivPHI iv)) + valueOf (vals E) (ivStepValue iv)"
    using f(3) g by simp
qed

lemma eval_offsetStartValue:
  assumes "utility_ok U updated" and "loop_ok L updated" and "iv \<in> set (ivs L)"
  shows "eval (task_env V P T c t) st (offsetStartValue U iv) = ivAt V iv (iteration T c t 0)"
  using loop_ok_iv [OF assms(2,3)]
  by (simp add: offsetStartValue_def utility_arith [OF assms(1)] ivAt_def iteration_0 algebra_simps)

lemma chunk_full:
  assumes "0 < c" and "c < 2 ^ 63"
  shows "(of_nat (j mod c) + 1 = (of_nat c :: u64)) \<longleftrightarrow> Suc (j mod c) = c"
proof -
  have c64: "c < 2 ^ 64" using assms(2) by simp
  have "Suc (j mod c) \<le> c" using assms(1) by (simp add: Suc_leI)
  from le_less_trans [OF this c64] have "Suc (j mod c) < 2 ^ 64" .
  note this c64
  then have "(of_nat (Suc (j mod c)) = (of_nat c :: u64)) \<longleftrightarrow> Suc (j mod c) = c"
    using u64_unat_of_nat by metis
  then show ?thesis by (simp add: add.commute)
qed

text \<open>The number of iterations the latch moves forward.\<close>

definition hop :: "nat \<Rightarrow> nat \<Rightarrow> nat \<Rightarrow> nat" where
  "hop T c j = 1 + (if Suc (j mod c) = c then (T - 1) * c else 0)"

lemma iteration_hop: "0 < c \<Longrightarrow> 0 < T \<Longrightarrow> iteration T c t (Suc j) = iteration T c t j + hop T c j"
  by (simp add: iteration_Suc hop_def)

lemma eval_chunkedIVValue:
  assumes "utility_ok U updated" and "loop_ok L updated" and "iv \<in> set (ivs L)"
    and "0 < T" and "0 < c" and "c < 2 ^ 63"
    and "st (HeaderPHI (ivPHI iv)) = ivAt V iv i" and "st ChunkPHI = of_nat (j mod c)"
  shows "eval (task_env V P T c t) st (chunkedIVValue U iv) = ivAt V iv (i + hop T c j)"
proof -
  let ?E = "task_env V P T c t"
  obtain completed zero nxt where n: "chunkPHINext U = Select completed zero nxt"
      "eval ?E st completed \<noteq> 0 \<longleftrightarrow> st ChunkPHI + 1 = chunk ?E"
    using utility_chunk [OF assms(1)] by metis
  have full: "eval ?E st completed \<noteq> 0 \<longleftrightarrow> Suc (j mod c) = c"
    using n(2) assms(8) chunk_full [OF assms(5,6)] by simp
  have v: "eval ?E st (chunkedIVValue U iv) =
      (if eval ?E st completed \<noteq> 0 then eval ?E st (ivUpdate iv) + eval ?E st (chunkStepSize U iv)
       else eval ?E st (ivUpdate iv))"
    unfolding chunkedIVValue_def n(1) by (rule utility_chunkIV [OF assms(1)])
  have s: "eval ?E st (chunkStepSize U iv) = of_nat ((T - 1) * c) * valueOf V (ivStepValue iv)"
    using assms(4) loop_ok_iv [OF assms(2,3), of ?E st]
    by (simp add: chunkStepSize_def utility_arith [OF assms(1)] of_nat_diff algebra_simps)
  have u: "eval ?E st (ivUpdate iv) = ivAt V iv (Suc i)"
    using loop_ok_iv [OF assms(2,3), of ?E st] assms(7) by (simp add: ivAt_def algebra_simps)
  show ?thesis unfolding v full s u by (simp add: hop_def ivAt_def algebra_simps)
qed

lemma rewire_code_ok:
  assumes "utility_ok U updated" and "loop_ok L updated"
  shows "\<exists>completed code. rewireLoopToIterateChunks U L = Inr code \<and> code_ok U L completed code \<and>
    (\<forall>E st. eval E st completed \<noteq> 0 \<longleftrightarrow> st ChunkPHI + 1 = chunk E)"
proof -
  obtain completed zero nxt where n: "chunkPHINext U = Select completed zero nxt"
      "\<forall>E st. eval E st completed \<noteq> 0 \<longleftrightarrow> st ChunkPHI + 1 = chunk E"
    using utility_chunk [OF assms(1)] by metis
  from rewire_value [OF assms(2) n(1)] n(2) show ?thesis unfolding code_ok_def by blast
qed

lemma atIteration_enter:
  assumes "utility_ok U updated" and "loop_ok L updated" and "code_ok U L completed code"
  shows "atIteration V L c 0 (iteration T c t 0) (enter (task_env V P T c t) code st)"
proof -
  have "enter (task_env V P T c t) code st (HeaderPHI (ivPHI iv)) = ivAt V iv (iteration T c t 0)"
    if "iv \<in> set (ivs L)" for iv
    using eval_offsetStartValue [OF assms(1,2) that] assms(3) that by (simp add: enter_def code_ok_def)
  moreover have "enter (task_env V P T c t) code st ChunkPHI = 0"
    using assms(3) utility_arith(1) [OF assms(1)] by (simp add: enter_def code_ok_def)
  moreover have "enter (task_env V P T c t) code st IterCounter = of_nat (iteration T c t 0)"
    if "periodics L \<noteq> []"
    using assms(3) that by (simp add: enter_def code_ok_def iterCounterStart_def iteration_0)
  ultimately show ?thesis unfolding atIteration_def by simp
qed

lemma atIteration_advance:
  assumes "utility_ok U updated" and "loop_ok L updated" and "code_ok U L completed code"
    and "\<forall>E st. eval E st completed \<noteq> 0 \<longleftrightarrow> st ChunkPHI + 1 = chunk E"
    and "0 < T" and "0 < c" and "c < 2 ^ 63" and at: "atIteration V L c j i st"
  shows "atIteration V L c (Suc j) (i + hop T c j) (advance (task_env V P T c t) code st)"
proof -
  let ?E = "task_env V P T c t"
  have chunk: "st ChunkPHI = of_nat (j mod c)" using at by (simp add: atIteration_def)
  obtain completed' zero nxt where n: "chunkPHINext U = Select completed' zero nxt"
      "(eval ?E st completed' \<noteq> 0 \<longleftrightarrow> st ChunkPHI + 1 = chunk ?E) \<and> eval ?E st zero = 0 \<and>
        eval ?E st nxt = st ChunkPHI + 1"
    using utility_chunk [OF assms(1)] by metis
  have full: "st ChunkPHI + 1 = chunk ?E \<longleftrightarrow> Suc (j mod c) = c"
    using chunk chunk_full [OF assms(6,7)] by simp
  have "advance ?E code st (HeaderPHI (ivPHI iv)) = ivAt V iv (i + hop T c j)" if "iv \<in> set (ivs L)" for iv
  proof -
    have "st (HeaderPHI (ivPHI iv)) = ivAt V iv i" using at that by (simp add: atIteration_def)
    from eval_chunkedIVValue [OF assms(1,2) that assms(5-7) this chunk] assms(3) that
    show ?thesis by (simp add: advance_def code_ok_def)
  qed
  moreover have "advance ?E code st ChunkPHI = of_nat (Suc j mod c)"
  proof -
    have "advance ?E code st ChunkPHI = (if Suc (j mod c) = c then 0 else st ChunkPHI + 1)"
      using assms(3) n full by (simp add: advance_def code_ok_def)
    then show ?thesis using chunk by (simp add: mod_Suc)
  qed
  moreover have "advance ?E code st IterCounter = of_nat (i + hop T c j)" if p: "periodics L \<noteq> []"
  proof -
    have "eval ?E st completed \<noteq> 0 \<longleftrightarrow> Suc (j mod c) = c" using assms(4) full by simp
    moreover have "st IterCounter = of_nat i" using at p by (simp add: atIteration_def)
    ultimately show ?thesis using assms(3,5) p
      by (simp add: advance_def code_ok_def iterCounterNext_def Let_def hop_def of_nat_diff)
  qed
  ultimately show ?thesis unfolding atIteration_def by simp
qed

lemma eval_comparedValue:
  assumes "loop_ok L updated" and "atIteration V L c j i st"
  shows "eval (task_env V P T c t) st (comparedValue L) = comparedAt V L updated i"
proof -
  have g: "governing L \<in> set (ivs L)" "comparedValue L =
      (if updated then ivUpdate (governing L) else Phi (HeaderPHI (ivPHI (governing L))))"
    using assms(1) by (simp_all add: loop_ok_def)
  have "st (HeaderPHI (ivPHI (governing L))) = ivAt V (governing L) i"
    using assms(2) g(1) by (simp add: atIteration_def)
  then show ?thesis unfolding g(2) using loop_ok_iv(3) [OF assms(1) g(1)]
    by (simp add: comparedAt_def ivAt_def algebra_simps)
qed

lemma ivAt_previous: "0 < i \<Longrightarrow> ivAt V iv i - valueOf V (ivStepValue iv) = ivAt V iv (i - 1)"
  by (cases i) (simp_all add: ivAt_def algebra_simps)

text \<open>One iteration ago.\<close>

lemma compared_ago:
  assumes "loop_ok L updated" and "0 < i" and "v = ivAt V (governing L) i"
  shows "(if updated then v else v - valueOf V (ivStepValue (governing L))) = comparedAt V L updated (i - 1)"
  using assms(2) ivAt_previous [OF assms(2), of V "governing L"] assms(3) by (simp add: comparedAt_def)

lemma latchGuard_holds:
  assumes "utility_ok U updated" and "loop_ok L updated" and "0 < T" and "0 < c" and "c < 2 ^ 63"
    and at: "atIteration V L c j i st"
  shows "eval (task_env V P T c t) st (latchGuardOf U L) \<noteq> 0 \<longleftrightarrow> P (comparedAt V L updated (i + hop T c j - 1))"
proof -
  let ?E = "task_env V P T c t"
  have g: "governing L \<in> set (ivs L)" using assms(2) by (simp add: loop_ok_def)
  have "st (HeaderPHI (ivPHI (governing L))) = ivAt V (governing L) i" "st ChunkPHI = of_nat (j mod c)"
    using at g by (simp_all add: atIteration_def)
  note v = eval_chunkedIVValue [OF assms(1,2) g assms(3-5) this, of P t]
  have pos: "0 < i + hop T c j" by (simp add: hop_def)
  have "eval ?E st (previousComparedValue U (chunkedIVValue U (governing L)) (ivStepValue (governing L))) =
      comparedAt V L updated (i + hop T c j - 1)"
    unfolding utility_arith(5) [OF assms(1)] loop_ok_iv(2) [OF assms(2) g, of ?E st] task_env_simps
    by (rule compared_ago [OF assms(2) pos v])
  then show ?thesis by (simp add: latchGuardOf_def)
qed

lemma preheaderGuard_holds:
  assumes "utility_ok U updated" and "loop_ok L updated"
  shows "eval (task_env V P T c t) st (preheaderGuardOf U L) \<noteq> 0 \<longleftrightarrow>
    ivAt V (governing L) (t * c) \<noteq> ivAt V (governing L) 0 \<and>
    P (if updated then ivAt V (governing L) (t * c)
       else ivAt V (governing L) (t * c) - valueOf V (ivStepValue (governing L)))"
proof -
  have g: "governing L \<in> set (ivs L)" using assms(2) by (simp add: loop_ok_def)
  have "ivAt V (governing L) 0 = valueOf V (ivStartValue (governing L))" by (simp add: ivAt_def)
  then show ?thesis
    using eval_offsetStartValue [OF assms g, of V P T c t st] loop_ok_iv(1,2) [OF assms(2) g, of "task_env V P T c t" st]
    by (simp add: preheaderGuardOf_def Let_def utility_arith(4) [OF assms(1)] iteration_0)
qed

section \<open>The runs of a task\<close>

lemma run_ok_facts:
  assumes "run_ok V P L updated N T c"
  shows "0 < T" and "0 < c" and "c < 2 ^ 63" and "N + T * c < 2 ^ 63"
    and "\<forall>i \<le> N + T * c. P (comparedAt V L updated i) \<longleftrightarrow> N \<le> i"
    and "\<forall>i \<le> N + T * c. 0 < i \<longrightarrow> ivAt V (governing L) i \<noteq> ivAt V (governing L) 0"
proof -
  show T: "0 < T" "0 < c" and b: "N + T * c < 2 ^ 63"
    and "\<forall>i \<le> N + T * c. P (comparedAt V L updated i) \<longleftrightarrow> N \<le> i"
    and "\<forall>i \<le> N + T * c. 0 < i \<longrightarrow> ivAt V (governing L) i \<noteq> ivAt V (governing L) 0"
    using assms unfolding run_ok_def by blast+
  have "c \<le> N + T * c" using T by (cases T) simp_all
  then show "c < 2 ^ 63" using b by (rule le_less_trans)
qed

definition stateOf :: "run_env \<Rightarrow> task_code \<Rightarrow> (phi \<Rightarrow> u64) \<Rightarrow> nat \<Rightarrow> phi \<Rightarrow> u64" where
  "stateOf E code st j = (advance E code ^^ j) (enter E code st)"

lemma stateOf_Suc: "stateOf E code st (Suc j) = advance E code (stateOf E code st j)"
  by (simp add: stateOf_def)

lemma stateOf_atIteration:
  assumes "utility_ok U updated" and "loop_ok L updated" and "code_ok U L completed code"
    and "\<forall>E st. eval E st completed \<noteq> 0 \<longleftrightarrow> st ChunkPHI + 1 = chunk E"
    and "0 < T" and "0 < c" and "c < 2 ^ 63"
  shows "atIteration V L c j (iteration T c t j) (stateOf (task_env V P T c t) code st j)"
proof (induction j)
  case 0
  show ?case using atIteration_enter [OF assms(1-3)] by (simp add: stateOf_def)
next
  case (Suc j)
  show ?case unfolding stateOf_Suc iteration_hop [OF assms(6,5)]
    by (rule atIteration_advance [OF assms Suc])
qed

text \<open>
  Whether a guarded task leaves from the latch: its next iteration is not the one the sequential loop
  leaves from.
\<close>

definition leavesEarly :: "doall_loop \<Rightarrow> nat \<Rightarrow> nat \<Rightarrow> nat \<Rightarrow> nat \<Rightarrow> bool" where
  "leavesEarly L T c N t \<longleftrightarrow>
     requiresConditionBeforeEnteringHeader L \<and> iteration T c t (visits T c N t) \<noteq> N"

lemma runHeader_value:
  assumes U: "utility_ok U updated" and L: "loop_ok L updated" and code: "code_ok U L completed code"
    and comp: "\<forall>E st. eval E st completed \<noteq> 0 \<longleftrightarrow> st ChunkPHI + 1 = chunk E"
    and run: "run_ok V P L updated N T c" and t: "t < T"
    and j: "j \<le> visits T c N t" "visits T c N t - j < fuel" "leavesEarly L T c N t \<Longrightarrow> j < visits T c N t"
  shows "runHeader (task_env V P T c t) (comparedValue L) code fuel (stateOf (task_env V P T c t) code st j) =
    Some (map (\<lambda>k. (stateOf (task_env V P T c t) code st k, k < visits T c N t))
            [j..<if leavesEarly L T c N t then visits T c N t else Suc (visits T c N t)],
          (if leavesEarly L T c N t then FromLatch else FromHeader)
            (stateOf (task_env V P T c t) code st (visits T c N t)))"
  using j
proof (induction fuel arbitrary: j)
  case (Suc fuel)
  let ?E = "task_env V P T c t" and ?J = "visits T c N t"
  let ?S = "stateOf ?E code st"
  have T: "0 < T" "0 < c" "c < 2 ^ 63"
    and P: "\<forall>i \<le> N + T * c. P (comparedAt V L updated i) \<longleftrightarrow> N \<le> i"
    using run_ok_facts [OF run] by blast+
  note at = stateOf_atIteration [OF U L code comp T]
  have cmp: "pastExit ?E (eval ?E (?S k) (comparedValue L)) \<longleftrightarrow> N \<le> iteration T c t k" if "k \<le> ?J" for k
    using P iteration_visits_le [OF T(2) t that] eval_comparedValue [OF L at] by simp
  show ?case
  proof (cases "j = ?J")
    case True
    then have "\<not> leavesEarly L T c N t" using Suc.prems(3) by blast
    moreover have "N \<le> iteration T c t ?J" by (rule iteration_visits_ge [OF T(2,1)])
    ultimately show ?thesis using cmp [of ?J] True by simp
  next
    case False
    then have less: "j < ?J" using Suc.prems(1) by simp
    then have body: "\<not> N \<le> iteration T c t j" using visits_iff [OF T(2,1), of j N t] by simp
    have next_eq: "iteration T c t (Suc j) = iteration T c t j + hop T c j" by (rule iteration_hop [OF T(2,1)])
    have bound: "iteration T c t (Suc j) \<le> N + T * c" by (rule iteration_visits_le [OF T(2) t]) (use less in simp)
    have prev: "iteration T c t j + hop T c j - 1 \<le> N + T * c" using bound next_eq by simp
    have guard: "holds ?E (?S j) (latchGuard code) \<longleftrightarrow>
        requiresConditionBeforeEnteringHeader L \<and> N < iteration T c t (Suc j)"
    proof (cases "requiresConditionBeforeEnteringHeader L")
      case True
      have "eval ?E (?S j) (latchGuardOf U L) \<noteq> 0 \<longleftrightarrow> N \<le> iteration T c t j + hop T c j - 1"
        using latchGuard_holds [OF U L T at [of V j t P st], of P t] P prev by simp
      then show ?thesis using code True next_eq by (auto simp: holds_def code_ok_def hop_def)
    next
      case False
      then show ?thesis using code by (simp add: holds_def code_ok_def)
    qed
    have past: "N < iteration T c t (Suc j) \<Longrightarrow> Suc j = ?J"
      using visits_iff [OF T(2,1), of "Suc j" N t] less by simp
    show ?thesis
    proof (cases "requiresConditionBeforeEnteringHeader L \<and> N < iteration T c t (Suc j)")
      case True
      then have J: "?J = Suc j" using past by simp
      then have "leavesEarly L T c N t" using True by (simp add: leavesEarly_def)
      then show ?thesis using cmp [of j] body less guard True J by (simp add: stateOf_Suc)
    next
      case False
      have "leavesEarly L T c N t \<Longrightarrow> Suc j < ?J"
      proof -
        assume e: "leavesEarly L T c N t"
        have "Suc j \<noteq> ?J"
        proof
          assume J: "Suc j = ?J"
          then have "N \<le> iteration T c t (Suc j)" using iteration_visits_ge [OF T(2,1)] by simp
          then show False using e False J by (simp add: leavesEarly_def)
        qed
        then show "Suc j < ?J" using less by simp
      qed
      then have "runHeader ?E (comparedValue L) code fuel (?S (Suc j)) =
          Some (map (\<lambda>k. (?S k, k < ?J)) [Suc j..<if leavesEarly L T c N t then ?J else Suc ?J],
            (if leavesEarly L T c N t then FromLatch else FromHeader) (?S ?J))"
        using Suc.prems less by (intro Suc.IH) simp_all
      moreover have "[j..<if leavesEarly L T c N t then ?J else Suc ?J] =
          j # [Suc j..<if leavesEarly L T c N t then ?J else Suc ?J]"
        using less by (simp add: upt_conv_Cons)
      ultimately show ?thesis using cmp [of j] body less guard False by (simp add: stateOf_Suc)
    qed
  qed
qed simp

text \<open>A task whose first iteration lies beyond the one the sequential loop leaves from.\<close>

definition skipsLoop :: "doall_loop \<Rightarrow> nat \<Rightarrow> nat \<Rightarrow> nat \<Rightarrow> bool" where
  "skipsLoop L c N t \<longleftrightarrow> requiresConditionBeforeEnteringHeader L \<and> N < t * c"

lemma preheaderGuard_value:
  assumes U: "utility_ok U updated" and L: "loop_ok L updated" and code: "code_ok U L completed code"
    and run: "run_ok V P L updated N T c" and t: "t < T"
  shows "holds (task_env V P T c t) st (preheaderGuard code) \<longleftrightarrow> skipsLoop L c N t"
proof (cases "requiresConditionBeforeEnteringHeader L")
  case True
  let ?E = "task_env V P T c t"
  have h: "holds ?E st (preheaderGuard code) \<longleftrightarrow> eval ?E st (preheaderGuardOf U L) \<noteq> 0"
    using code True by (simp add: holds_def code_ok_def)
  have le: "t * c \<le> N + T * c" using t by (simp add: trans_le_add2)
  show ?thesis
  proof (cases "t * c = 0")
    case z: True
    show ?thesis unfolding h preheaderGuard_holds [OF U L] skipsLoop_def z by simp
  next
    case False
    then have pos: "0 < t * c" by simp
    have "P (comparedAt V L updated (t * c - 1)) \<longleftrightarrow> N \<le> t * c - 1"
      using run_ok_facts(5) [OF run] le by simp
    moreover have "N \<le> t * c - 1 \<longleftrightarrow> N < t * c" using pos by arith
    moreover have "ivAt V (governing L) (t * c) \<noteq> ivAt V (governing L) 0"
      using run_ok_facts(6) [OF run] le pos by blast
    ultimately show ?thesis
      unfolding h preheaderGuard_holds [OF U L] compared_ago [OF L pos refl]
      using True by (simp add: skipsLoop_def)
  qed
next
  case False
  then show ?thesis using code by (simp add: holds_def code_ok_def skipsLoop_def)
qed

lemma runTask_value:
  assumes U: "utility_ok U updated" and L: "loop_ok L updated" and code: "code_ok U L completed code"
    and comp: "\<forall>E st. eval E st completed \<noteq> 0 \<longleftrightarrow> st ChunkPHI + 1 = chunk E"
    and run: "run_ok V P L updated N T c" and t: "t < T"
  shows "runTask (task_env V P T c t) (comparedValue L) code (Suc N) st =
    Some (if skipsLoop L c N t then ([], FromPreheader)
      else (map (\<lambda>k. (stateOf (task_env V P T c t) code st k, k < visits T c N t))
              [0..<if leavesEarly L T c N t then visits T c N t else Suc (visits T c N t)],
            (if leavesEarly L T c N t then FromLatch else FromHeader)
              (stateOf (task_env V P T c t) code st (visits T c N t))))"
proof (cases "skipsLoop L c N t")
  case True
  then show ?thesis using preheaderGuard_value [OF U L code run t] by (simp add: runTask_def)
next
  case False
  note T = run_ok_facts(1,2) [OF run]
  have "0 < visits T c N t" if "leavesEarly L T c N t"
  proof (rule ccontr)
    assume "\<not> 0 < visits T c N t"
    then have "visits T c N t = 0" by simp
    then have "N \<le> t * c" "t * c \<noteq> N"
      using iteration_visits_ge [OF T(2,1), of N t] that by (simp_all add: leavesEarly_def iteration_0)
    then show False using that False by (simp add: leavesEarly_def skipsLoop_def)
  qed
  moreover have "visits T c N t - 0 < Suc N" using visits_le [OF T(2,1)] by (simp add: le_imp_less_Suc)
  ultimately have "runHeader (task_env V P T c t) (comparedValue L) code (Suc N) (stateOf (task_env V P T c t) code st 0) =
    Some (map (\<lambda>k. (stateOf (task_env V P T c t) code st k, k < visits T c N t))
            [0..<if leavesEarly L T c N t then visits T c N t else Suc (visits T c N t)],
          (if leavesEarly L T c N t then FromLatch else FromHeader)
            (stateOf (task_env V P T c t) code st (visits T c N t)))"
    by (intro runHeader_value [OF U L code comp run t]) simp_all
  then show ?thesis using preheaderGuard_value [OF U L code run t] False by (simp add: runTask_def stateOf_def)
qed

section \<open>What the tasks execute\<close>

text \<open>The states in which the body of the loop runs, and those in which its header runs.\<close>

definition bodiesOf :: "(((phi \<Rightarrow> u64) \<times> bool) list \<times> loop_exit) option \<Rightarrow> (phi \<Rightarrow> u64) list" where
  "bodiesOf r = (case r of None \<Rightarrow> [] | Some (trace, exit) \<Rightarrow> map fst (filter snd trace))"

definition headersOf :: "(((phi \<Rightarrow> u64) \<times> bool) list \<times> loop_exit) option \<Rightarrow> (phi \<Rightarrow> u64) list" where
  "headersOf r = (case r of None \<Rightarrow> [] | Some (trace, exit) \<Rightarrow> map fst trace)"

lemma filter_upt_less: "filter (\<lambda>k. k < m) [0..<n] = [0..<min m n]"
proof (induction n)
  case (Suc n)
  show ?case
  proof (cases "n < m")
    case True
    then show ?thesis using Suc by (simp add: min_absorb2)
  next
    case False
    then show ?thesis using Suc by (simp add: min_absorb1)
  qed
qed simp

lemma skipsLoop_visits:
  assumes "0 < c" and "0 < T" and "skipsLoop L c N t"
  shows "visits T c N t = 0" and "visits T c (Suc N) t = 0"
proof -
  have "N < iteration T c t 0" using assms(3) by (simp add: skipsLoop_def iteration_0)
  then show "visits T c N t = 0" "visits T c (Suc N) t = 0"
    using visits_iff [OF assms(1,2), of 0 N t] visits_iff [OF assms(1,2), of 0 "Suc N" t] by auto
qed

lemma bodiesOf_runTask:
  assumes U: "utility_ok U updated" and L: "loop_ok L updated" and code: "code_ok U L completed code"
    and comp: "\<forall>E st. eval E st completed \<noteq> 0 \<longleftrightarrow> st ChunkPHI + 1 = chunk E"
    and run: "run_ok V P L updated N T c" and t: "t < T"
  shows "bodiesOf (runTask (task_env V P T c t) (comparedValue L) code (Suc N) st) =
    map (stateOf (task_env V P T c t) code st) [0..<visits T c N t]"
proof (cases "skipsLoop L c N t")
  case True
  then show ?thesis unfolding runTask_value [OF assms] bodiesOf_def
    using skipsLoop_visits(1) [OF run_ok_facts(2,1) [OF run] True] by simp
next
  case False
  have f: "map fst (filter snd (map (\<lambda>k. (f k, k < m)) [0..<n])) = map f [0..<min m n]" for f :: "nat \<Rightarrow> phi \<Rightarrow> u64" and m n
    by (simp add: filter_map o_def filter_upt_less)
  show ?thesis unfolding runTask_value [OF assms] bodiesOf_def using False by (simp add: f)
qed

text \<open>One more iteration.\<close>

lemma visits_Suc:
  assumes "0 < c" and "0 < T"
  shows "visits T c (Suc N) t =
    (if iteration T c t (visits T c N t) = N then Suc (visits T c N t) else visits T c N t)"
proof -
  let ?J = "visits T c N t"
  have iff: "k < visits T c (Suc N) t \<longleftrightarrow> iteration T c t k < Suc N" for k by (rule visits_iff [OF assms])
  have below: "k < ?J \<longleftrightarrow> iteration T c t k < N" for k by (rule visits_iff [OF assms])
  have up: "iteration T c t ?J < iteration T c t (Suc ?J)" by (rule iteration_less_Suc [OF assms])
  have ge: "N \<le> iteration T c t ?J" by (rule iteration_visits_ge [OF assms])
  have "?J \<le> visits T c (Suc N) t"
  proof (rule ccontr)
    assume "\<not> ?J \<le> visits T c (Suc N) t"
    then show False using below [of "visits T c (Suc N) t"] iff [of "visits T c (Suc N) t"] by simp
  qed
  then show ?thesis using iff [of ?J] iff [of "Suc ?J"] up ge by (auto simp: not_less)
qed

lemma visits_exact:
  assumes "0 < c" and "t < T"
  shows "iteration T c t (visits T c N t) = N \<longleftrightarrow> t = N div c mod T"
proof
  assume "iteration T c t (visits T c N t) = N"
  then show "t = N div c mod T" using iteration_owner(1) [OF assms] by metis
next
  assume t: "t = N div c mod T"
  let ?j = "N div c div T * c + N mod c"
  have T: "0 < T" using assms(2) by simp
  have j: "iteration T c t ?j = N" using iteration_onto [OF assms(1)] t by simp
  have mono: "strict_mono (iteration T c t)" by (rule iteration_strict_mono [OF assms(1) T])
  have "visits T c N t \<le> ?j" using visits_iff [OF assms(1) T, of ?j N t] j by simp
  then have "iteration T c t (visits T c N t) \<le> N" using mono j by (metis strict_mono_less_eq)
  then show "iteration T c t (visits T c N t) = N"
    using iteration_visits_ge [OF assms(1) T, of N t] by simp
qed

text \<open>
  The header executions whose effect counts: all of them, but the last one where the code inserted
  in the exit block selects the value before it.
\<close>

definition countedHeaders ::
    "run_env \<Rightarrow> iv_utility \<Rightarrow> doall_loop \<Rightarrow> (((phi \<Rightarrow> u64) \<times> bool) list \<times> loop_exit) option \<Rightarrow>
     (phi \<Rightarrow> u64) list" where
  "countedHeaders E U L r =
     (case r of
        None \<Rightarrow> []
      | Some (trace, exit) \<Rightarrow>
          (case exit of
             FromHeader st \<Rightarrow>
               if \<not> requiresConditionBeforeEnteringHeader L \<and> eval E st (skipLastHeader U L) \<noteq> 0
               then map fst (butlast trace) else map fst trace
           | _ \<Rightarrow> map fst trace))"

lemma skipLastHeader_value:
  assumes U: "utility_ok U updated" and L: "loop_ok L updated" and run: "run_ok V P L updated N T c"
    and at: "atIteration V L c j i st" and i: "N \<le> i" "i \<le> N + T * c"
  shows "eval (task_env V P T c t) st (skipLastHeader U L) \<noteq> 0 \<longleftrightarrow> i \<noteq> N"
proof -
  let ?E = "task_env V P T c t"
  have g: "governing L \<in> set (ivs L)" using L by (simp add: loop_ok_def)
  have st: "st (HeaderPHI (ivPHI (governing L))) = ivAt V (governing L) i" using at g by (simp add: atIteration_def)
  have ev: "eval ?E st (skipLastHeader U L) \<noteq> 0 \<longleftrightarrow> ivAt V (governing L) i \<noteq> ivAt V (governing L) 0 \<and>
      P (if updated then ivAt V (governing L) i
         else ivAt V (governing L) i - valueOf V (ivStepValue (governing L)))"
    using loop_ok_iv(1,2) [OF L g, of ?E st] st
    by (simp add: skipLastHeader_def Let_def utility_arith(4) [OF U] ivAt_def)
  show ?thesis
  proof (cases "i = 0")
    case True
    then show ?thesis using i(1) by (simp only: ev) simp
  next
    case False
    then have pos: "0 < i" by simp
    have "P (comparedAt V L updated (i - 1)) \<longleftrightarrow> N \<le> i - 1" using run_ok_facts(5) [OF run] i(2) by simp
    moreover have "ivAt V (governing L) i \<noteq> ivAt V (governing L) 0"
      using run_ok_facts(6) [OF run] i(2) pos by blast
    moreover have "N \<le> i - 1 \<longleftrightarrow> i \<noteq> N" using i(1) pos by arith
    ultimately show ?thesis unfolding ev compared_ago [OF L pos refl] by simp
  qed
qed

lemma countedHeaders_runTask:
  assumes U: "utility_ok U updated" and L: "loop_ok L updated" and code: "code_ok U L completed code"
    and comp: "\<forall>E st. eval E st completed \<noteq> 0 \<longleftrightarrow> st ChunkPHI + 1 = chunk E"
    and run: "run_ok V P L updated N T c" and t: "t < T"
  shows "countedHeaders (task_env V P T c t) U L (runTask (task_env V P T c t) (comparedValue L) code (Suc N) st) =
    map (stateOf (task_env V P T c t) code st) [0..<visits T c (Suc N) t]"
proof (cases "skipsLoop L c N t")
  case True
  then show ?thesis unfolding runTask_value [OF assms] countedHeaders_def
    using skipsLoop_visits(2) [OF run_ok_facts(2,1) [OF run] True] by simp
next
  case False
  note T = run_ok_facts(2,1) [OF run]
  let ?J = "visits T c N t" and ?S = "stateOf (task_env V P T c t) code st"
  have le: "iteration T c t ?J \<le> N + T * c" by (rule iteration_visits_le [OF T(1) t order_refl])
  have skip: "eval (task_env V P T c t) (?S ?J) (skipLastHeader U L) \<noteq> 0 \<longleftrightarrow> iteration T c t ?J \<noteq> N"
    by (rule skipLastHeader_value [OF U L run stateOf_atIteration [OF U L code comp run_ok_facts(1-3) [OF run]]
          iteration_visits_ge [OF T] le])
  show ?thesis
  proof (cases "leavesEarly L T c N t")
    case True
    then show ?thesis unfolding runTask_value [OF assms] countedHeaders_def visits_Suc [OF T]
      using False by (simp add: leavesEarly_def o_def)
  next
    case stay: False
    have butlast: "map fst (butlast (map (\<lambda>k. (?S k, k < ?J)) [0..<Suc ?J])) = map ?S [0..<?J]"
      by (simp add: butlast_append)
    show ?thesis
    proof (cases "iteration T c t ?J = N")
      case True
      then show ?thesis unfolding runTask_value [OF assms] countedHeaders_def visits_Suc [OF T]
        using False stay skip by (simp add: o_def)
    next
      case neq: False
      then have "\<not> requiresConditionBeforeEnteringHeader L" using stay by (simp add: leavesEarly_def)
      then show ?thesis unfolding runTask_value [OF assms] countedHeaders_def visits_Suc [OF T]
        using False stay skip neq butlast by simp
    qed
  qed
qed

section \<open>The values an iteration sees\<close>

text \<open>A periodic variable in the \<open>i\<close>-th iteration of the loop.\<close>

definition periodicAt :: "(nat \<Rightarrow> u64) \<Rightarrow> periodic \<Rightarrow> nat \<Rightarrow> u64" where
  "periodicAt V pv i =
     (let w = pvWidth pv; p = nat (sint (signed_take_bit (w - 1) (valueOf V (pvPeriod pv))))
      in take_bit w (valueOf V (pvInitial pv) +
           signed_take_bit (w - 1) (valueOf V (pvStep pv)) * of_nat (i mod p)))"

definition periods_positive :: "(nat \<Rightarrow> u64) \<Rightarrow> doall_loop \<Rightarrow> bool" where
  "periods_positive V L \<longleftrightarrow>
     (\<forall>pv \<in> set (periodics L). 0 < sint (signed_take_bit (pvWidth pv - 1) (valueOf V (pvPeriod pv))))"

definition ivValues :: "doall_loop \<Rightarrow> (phi \<Rightarrow> u64) \<Rightarrow> u64 list" where
  "ivValues L st = map (\<lambda>iv. st (HeaderPHI (ivPHI iv))) (ivs L)"

definition taskValues :: "run_env \<Rightarrow> doall_loop \<Rightarrow> (phi \<Rightarrow> u64) \<Rightarrow> u64 list" where
  "taskValues E L st = ivValues L st @ map (\<lambda>pv. eval E st (pvCurr pv)) (periodics L)"

definition sequentialValues :: "(nat \<Rightarrow> u64) \<Rightarrow> doall_loop \<Rightarrow> nat \<Rightarrow> u64 list" where
  "sequentialValues V L i = map (\<lambda>iv. ivAt V iv i) (ivs L) @ map (\<lambda>pv. periodicAt V pv i) (periodics L)"

lemma sint_of_nat_small: "i < 2 ^ 63 \<Longrightarrow> sint (of_nat i :: u64) = int i"
  by (simp add: signed_of_nat signed_take_bit_int_eq_self)

lemma srem_of_nat:
  assumes "i < 2 ^ 63" and "0 < sint p"
  shows "srem (of_nat i) p = of_nat (i mod nat (sint p))"
proof -
  have "int i smod sint p = int i mod sint p"
    using assms(2) by (cases "i = 0") (simp_all add: smod_int_alt_def)
  also have "\<dots> = int (i mod nat (sint p))" using assms(2) by (simp add: zmod_int)
  finally show ?thesis unfolding srem_def sint_of_nat_small [OF assms(1)] by simp
qed

lemma take_bit_trunc_add: "take_bit w (take_bit w a + b) = take_bit w (b + (a :: u64))"
proof -
  define m where "m = min w 64"
  have u: "uint (take_bit w (x + y)) = take_bit m (take_bit m (uint x) + take_bit m (uint y))" for x y :: u64
  proof -
    have "uint (x + y) = take_bit 64 (uint x + uint y)" by (simp add: uint_word_ariths take_bit_eq_mod)
    then have "uint (take_bit w (x + y)) = take_bit w (take_bit 64 (uint x + uint y))"
      by (simp only: unsigned_take_bit_eq)
    also have "\<dots> = take_bit m (uint x + uint y)" by (simp add: m_def)
    finally show ?thesis by (simp only: take_bit_add)
  qed
  have "take_bit m (uint (take_bit w a)) = take_bit m (uint a)"
    by (simp add: unsigned_take_bit_eq m_def)
  then have "uint (take_bit w (take_bit w a + b)) = uint (take_bit w (b + a))"
    unfolding u by (simp add: add.commute)
  then show ?thesis by (simp only: word_uint_eq_iff)
qed

lemma eval_pvCurr:
  assumes "fixedValue (pvInitial pv)" and "fixedValue (pvPeriod pv)" and "fixedValue (pvStep pv)"
    and "st IterCounter = of_nat i" and "i < 2 ^ 63"
    and "0 < sint (signed_take_bit (pvWidth pv - 1) (valueOf (vals E) (pvPeriod pv)))"
  shows "eval E st (pvCurr pv) = periodicAt (vals E) pv i"
  unfolding pvCurr_def periodicAt_def Let_def eval.simps assms(4) eval_fixedValue [OF assms(1)]
    eval_fixedValue [OF assms(2)] eval_fixedValue [OF assms(3)] srem_of_nat [OF assms(5,6)]
  by (rule take_bit_trunc_add)

lemma pvCurr_value:
  assumes "loop_ok L updated" and "pv \<in> set (periodics L)" and "periods_positive V L"
    and "atIteration V L c j i st" and "i < 2 ^ 63"
  shows "eval (task_env V P T c t) st (pvCurr pv) = periodicAt V pv i"
proof -
  have "periodics L \<noteq> []" using assms(2) by auto
  then have "st IterCounter = of_nat i" using assms(4) by (simp add: atIteration_def)
  then show ?thesis
    using eval_pvCurr [of pv st i "task_env V P T c t"] assms(1-3,5)
    by (auto simp: loop_ok_def periods_positive_def)
qed

lemma taskValues_value:
  assumes "loop_ok L updated" and "periods_positive V L" and "atIteration V L c j i st" and "i < 2 ^ 63"
  shows "taskValues (task_env V P T c t) L st = sequentialValues V L i"
  using assms(3) pvCurr_value [OF assms(1) _ assms(2-4)]
  by (simp add: taskValues_def sequentialValues_def ivValues_def atIteration_def)

text \<open>A prefix of the states of a task, seen through the values.\<close>

lemma states_values:
  assumes U: "utility_ok U updated" and L: "loop_ok L updated" and code: "code_ok U L completed code"
    and comp: "\<forall>E st. eval E st completed \<noteq> 0 \<longleftrightarrow> st ChunkPHI + 1 = chunk E"
    and run: "run_ok V P L updated N T c" and pv: "periods_positive V L" and n: "n \<le> Suc N"
  shows "map (taskValues (task_env V P T c t) L) (map (stateOf (task_env V P T c t) code st) [0..<visits T c n t]) =
    map (sequentialValues V L) (map (iteration T c t) [0..<visits T c n t])"
proof -
  have "taskValues (task_env V P T c t) L (stateOf (task_env V P T c t) code st j) =
      sequentialValues V L (iteration T c t j)" if "j < visits T c n t" for j
  proof -
    have "iteration T c t j < n" using visits_iff [OF run_ok_facts(2,1) [OF run]] that by simp
    then have "iteration T c t j \<le> N + T * c" using n by simp
    then have "iteration T c t j < 2 ^ 63" using run_ok_facts(4) [OF run] by (rule le_less_trans)
    from taskValues_value [OF L pv stateOf_atIteration [OF U L code comp run_ok_facts(1-3) [OF run]] this]
    show ?thesis .
  qed
  then show ?thesis by simp
qed

text \<open>All tasks together.\<close>

definition allTasks ::
    "iv_utility \<Rightarrow> doall_loop \<Rightarrow> (nat \<Rightarrow> (((phi \<Rightarrow> u64) \<times> bool) list \<times> loop_exit) option \<Rightarrow> 'a list) \<Rightarrow>
     (nat \<Rightarrow> u64) \<Rightarrow> (u64 \<Rightarrow> bool) \<Rightarrow> nat \<Rightarrow> nat \<Rightarrow> nat \<Rightarrow> (phi \<Rightarrow> u64) \<Rightarrow> 'a list" where
  "allTasks U L observe V P T c fuel st =
     (case rewireLoopToIterateChunks U L of
        Inl e \<Rightarrow> []
      | Inr code \<Rightarrow> concat (map (\<lambda>t.
          observe t (runTask (task_env V P T c t) (comparedValue L) code fuel st)) [0..<T]))"

text \<open>If each task contributes the iterations below \<open>n\<close> that are its own, together they contribute all.\<close>

lemma allTasks_mset:
  assumes "rewireLoopToIterateChunks U L = Inr code" and "0 < c" and "0 < T"
    and "\<And>t. t < T \<Longrightarrow> observe t (runTask (task_env V P T c t) (comparedValue L) code fuel st) =
      map f (map (iteration T c t) [0..<visits T c n t])"
  shows "mset (allTasks U L observe V P T c fuel st) = mset (map f [0..<n])"
proof -
  have "allTasks U L observe V P T c fuel st =
      concat (map (\<lambda>t. map f (map (iteration T c t) [0..<visits T c n t])) [0..<T])"
    unfolding allTasks_def assms(1) sum.case using assms(4) by (intro arg_cong [of _ _ concat] map_cong) auto
  also have "\<dots> = map f (concat (map (\<lambda>t. map (iteration T c t) [0..<visits T c n t]) [0..<T]))"
    by (simp add: map_concat o_def)
  finally show ?thesis
    using schedule_complete [OF assms(2,3), of n] by (simp only: mset_map)
qed

section \<open>The loop as it was\<close>

definition atOriginal :: "(nat \<Rightarrow> u64) \<Rightarrow> doall_loop \<Rightarrow> nat \<Rightarrow> (phi \<Rightarrow> u64) \<Rightarrow> bool" where
  "atOriginal V L i st \<longleftrightarrow> (\<forall>iv \<in> set (ivs L). st (HeaderPHI (ivPHI iv)) = ivAt V iv i)"

lemma original_lookup:
  assumes "loop_ok L updated" and "iv \<in> set (ivs L)"
  shows "fromEntry (original_code L) (HeaderPHI (ivPHI iv)) = Some (ivStartValue iv)"
    and "fromLatch (original_code L) (HeaderPHI (ivPHI iv)) = Some (ivUpdate iv)"
  using ivPHIs_lookup assms by (simp_all add: original_code_def loop_ok_def)

lemma runHeader_original:
  assumes L: "loop_ok L updated" and P: "\<forall>i \<le> N. P (comparedAt V L updated i) \<longleftrightarrow> N \<le> i"
    and "i \<le> N" and "N - i < fuel" and "atOriginal V L i st"
  shows "map (ivValues L) (bodiesOf (runHeader (task_env V P T c t) (comparedValue L) (original_code L) fuel st)) =
      map (\<lambda>i. map (\<lambda>iv. ivAt V iv i) (ivs L)) [i..<N] \<and>
    runHeader (task_env V P T c t) (comparedValue L) (original_code L) fuel st \<noteq> None"
  using assms(3-)
proof (induction fuel arbitrary: i st)
  case (Suc fuel)
  let ?E = "task_env V P T c t"
  have g: "governing L \<in> set (ivs L)" "comparedValue L =
      (if updated then ivUpdate (governing L) else Phi (HeaderPHI (ivPHI (governing L))))"
    using L by (simp_all add: loop_ok_def)
  have cmp: "eval ?E st (comparedValue L) = comparedAt V L updated i"
    using g Suc.prems(3) loop_ok_iv(3) [OF L g(1), of ?E st]
    by (simp add: atOriginal_def comparedAt_def ivAt_def algebra_simps)
  have vs: "ivValues L st = map (\<lambda>iv. ivAt V iv i) (ivs L)"
    using Suc.prems(3) by (simp add: ivValues_def atOriginal_def)
  show ?case
  proof (cases "i = N")
    case True
    then have "pastExit ?E (eval ?E st (comparedValue L))" using cmp P by simp
    then show ?thesis using True by (simp add: bodiesOf_def)
  next
    case False
    then have less: "i < N" using Suc.prems(1) by simp
    then have body: "\<not> pastExit ?E (eval ?E st (comparedValue L))" using cmp P by simp
    have at: "atOriginal V L (Suc i) (advance ?E (original_code L) st)"
      using Suc.prems(3) original_lookup(2) [OF L] loop_ok_iv(3) [OF L, of _ ?E st]
      by (simp add: atOriginal_def advance_def ivAt_def algebra_simps)
    have no_guard: "\<not> holds ?E st (latchGuard (original_code L))" by (simp add: holds_def original_code_def)
    have ih: "map (ivValues L) (bodiesOf (runHeader ?E (comparedValue L) (original_code L) fuel (advance ?E (original_code L) st))) =
        map (\<lambda>i. map (\<lambda>iv. ivAt V iv i) (ivs L)) [Suc i..<N] \<and>
      runHeader ?E (comparedValue L) (original_code L) fuel (advance ?E (original_code L) st) \<noteq> None"
      using Suc.prems(2) less at by (intro Suc.IH) simp_all
    then obtain trace ex where r: "runHeader ?E (comparedValue L) (original_code L) fuel (advance ?E (original_code L) st) =
        Some (trace, ex)" by auto
    have "[i..<N] = i # [Suc i..<N]" using less by (rule upt_conv_Cons)
    then show ?thesis using ih body no_guard vs unfolding r by (simp add: r bodiesOf_def)
  qed
qed simp

lemma runTask_original:
  assumes L: "loop_ok L updated" and run: "run_ok V P L updated N T c"
  shows "map (ivValues L) (bodiesOf (runTask (task_env V P T c t) (comparedValue L) (original_code L) (Suc N) st)) =
      map (\<lambda>i. map (\<lambda>iv. ivAt V iv i) (ivs L)) [0..<N]"
proof -
  have "\<forall>i \<le> N. P (comparedAt V L updated i) \<longleftrightarrow> N \<le> i" using run_ok_facts(5) [OF run] by simp
  moreover have "atOriginal V L 0 (enter (task_env V P T c t) (original_code L) st)"
    using original_lookup(1) [OF L] loop_ok_iv(1) [OF L, of _ "task_env V P T c t" st]
    by (simp add: atOriginal_def enter_def ivAt_def)
  ultimately show ?thesis
    using runHeader_original [OF L, of N P V 0 "Suc N"]
    by (simp add: runTask_def holds_def original_code_def [of L, THEN arg_cong, of preheaderGuard])
qed

section \<open>The theorems\<close>

text \<open>
  C7: the tasks of a DOALL loop together execute each iteration of the loop once. For any number of
  tasks and any chunk size: code generation succeeds, every task ends, and the executions of the loop
  body by all tasks, taken together, see exactly the values of the induction and periodic variables
  that the iterations of the sequential loop see, each iteration's once; on the induction variables
  these are the values the original code computes when run.
\<close>

theorem doall_each_iteration_once:
  assumes "utility_ok U updated" and "loop_ok L updated" and "run_ok V P L updated N T c"
    and "periods_positive V L"
  shows "(\<exists>code. rewireLoopToIterateChunks U L = Inr code \<and>
      (\<forall>t < T. runTask (task_env V P T c t) (comparedValue L) code (Suc N) st \<noteq> None)) \<and>
    mset (allTasks U L (\<lambda>t r. map (taskValues (task_env V P T c t) L) (bodiesOf r)) V P T c (Suc N) st) =
      mset (map (sequentialValues V L) [0..<N]) \<and>
    map (ivValues L) (bodiesOf (runTask (task_env V P T c 0) (comparedValue L) (original_code L) (Suc N) st)) =
      map (\<lambda>i. map (\<lambda>iv. ivAt V iv i) (ivs L)) [0..<N]"
proof -
  obtain completed code where c: "rewireLoopToIterateChunks U L = Inr code" "code_ok U L completed code"
      "\<forall>E st. eval E st completed \<noteq> 0 \<longleftrightarrow> st ChunkPHI + 1 = chunk E"
    using rewire_code_ok [OF assms(1,2)] by blast
  note tr = runTask_value [OF assms(1,2) c(2,3) assms(3)]
  note bodies = bodiesOf_runTask [OF assms(1,2) c(2,3) assms(3)]
  have "map (taskValues (task_env V P T c t) L)
      (bodiesOf (runTask (task_env V P T c t) (comparedValue L) code (Suc N) st)) =
      map (sequentialValues V L) (map (iteration T c t) [0..<visits T c N t])" if "t < T" for t
    unfolding bodies [OF that]
    by (rule states_values [OF assms(1,2) c(2,3) assms(3,4)]) simp
  then have "mset (allTasks U L (\<lambda>t r. map (taskValues (task_env V P T c t) L) (bodiesOf r)) V P T c (Suc N) st) =
      mset (map (sequentialValues V L) [0..<N])"
    by (intro allTasks_mset [OF c(1) run_ok_facts(2,1) [OF assms(3)]])
  moreover have "\<forall>t < T. runTask (task_env V P T c t) (comparedValue L) code (Suc N) st \<noteq> None"
    using tr by simp
  ultimately show ?thesis using c(1) runTask_original [OF assms(2,3)] by blast
qed

text \<open>
  The header of the loop, which the sequential loop runs once more than its body, also takes effect
  once per iteration and once for the final test: where guards were inserted no task enters a header
  that the sequential loop does not reach; where they were not, the selection in the exit block discards
  exactly the executions that went too far.
\<close>

theorem doall_each_header_once:
  assumes "utility_ok U updated" and "loop_ok L updated" and "run_ok V P L updated N T c"
    and "periods_positive V L"
  shows "mset (allTasks U L (\<lambda>t r. map (taskValues (task_env V P T c t) L)
      (countedHeaders (task_env V P T c t) U L r)) V P T c (Suc N) st) =
    mset (map (sequentialValues V L) [0..<Suc N])"
proof -
  obtain completed code where c: "rewireLoopToIterateChunks U L = Inr code" "code_ok U L completed code"
      "\<forall>E st. eval E st completed \<noteq> 0 \<longleftrightarrow> st ChunkPHI + 1 = chunk E"
    using rewire_code_ok [OF assms(1,2)] by blast
  have "map (taskValues (task_env V P T c t) L)
      (countedHeaders (task_env V P T c t) U L (runTask (task_env V P T c t) (comparedValue L) code (Suc N) st)) =
      map (sequentialValues V L) (map (iteration T c t) [0..<visits T c (Suc N) t])" if "t < T" for t
    unfolding countedHeaders_runTask [OF assms(1,2) c(2,3) assms(3) that]
    by (rule states_values [OF assms(1,2) c(2,3) assms(3,4)]) simp
  then show ?thesis by (intro allTasks_mset [OF c(1) run_ok_facts(2,1) [OF assms(3)]])
qed

lemma runsLastIterationBlock_value:
  assumes U: "utility_ok U updated" and L: "loop_ok L updated" and code: "code_ok U L completed code"
    and comp: "\<forall>E st. eval E st completed \<noteq> 0 \<longleftrightarrow> st ChunkPHI + 1 = chunk E"
    and run: "run_ok V P L updated N T c" and t: "t < T"
    and r: "runTask (task_env V P T c t) (comparedValue L) code (Suc N) st = Some (trace, ex)"
  shows "runsLastIterationBlock (task_env V P T c t) U L ex \<longleftrightarrow> t = N div c mod T \<and>
    (N = 0 \<longrightarrow> \<not> P (comparedAt V L updated 0 - valueOf V (ivStepValue (governing L))))"
proof -
  note T = run_ok_facts(2,1) [OF run]
  let ?E = "task_env V P T c t" and ?J = "visits T c N t"
  let ?S = "stateOf ?E code st" and ?i = "iteration T c t (visits T c N t)"
  have g: "governing L \<in> set (ivs L)" using L by (simp add: loop_ok_def)
  have at: "atIteration V L c ?J ?i (?S ?J)" by (rule stateOf_atIteration [OF U L code comp run_ok_facts(1-3) [OF run]])
  have iv: "?S ?J (HeaderPHI (ivPHI (governing L))) = ivAt V (governing L) ?i" using at g by (simp add: atIteration_def)
  have le: "?i \<le> N + T * c" by (rule iteration_visits_le [OF T(1) t order_refl])
  have ge: "N \<le> ?i" by (rule iteration_visits_ge [OF T])
  have owner: "?i = N \<longleftrightarrow> t = N div c mod T" by (rule visits_exact [OF T(1) t])
  have cmp: "0 < i \<Longrightarrow> i \<le> N + T * c \<Longrightarrow> P (comparedAt V L updated (i - 1)) \<longleftrightarrow> N < i" for i
    using run_ok_facts(5) [OF run] by auto
  have ago: "comparedAt V L updated i - valueOf V (ivStepValue (governing L)) = comparedAt V L updated (i - 1)"
    if "0 < i" for i
    using ivAt_previous [of i V "governing L"] ivAt_previous [of "Suc i" V "governing L"] that
    by (simp add: comparedAt_def)
  show ?thesis
  proof (cases "skipsLoop L c N t")
    case True
    then have ex: "ex = FromPreheader" using r unfolding runTask_value [OF assms(1-6)] by simp
    have "?i \<noteq> N" using True skipsLoop_visits(1) [OF T True] by (simp add: skipsLoop_def iteration_0)
    then show ?thesis using owner by (simp add: ex runsLastIterationBlock_def)
  next
    case False
    show ?thesis
    proof (cases "leavesEarly L T c N t")
      case True
      then have ex: "ex = FromLatch (?S ?J)" using r False unfolding runTask_value [OF assms(1-6)] by simp
      have neq: "?i \<noteq> N" using True by (simp add: leavesEarly_def)
      then have pos: "0 < ?i" using ge by simp
      have "P (comparedAt V L updated (?i - 1))" using cmp [OF pos le] ge neq by simp
      then have "\<not> runsLastIterationBlock ?E U L ex"
        using compared_ago [OF L pos iv] loop_ok_iv(2) [OF L g, of ?E "?S ?J"]
        by (cases updated) (simp_all add: ex runsLastIterationBlock_def Let_def utility_arith(6) [OF U])
      then show ?thesis using owner neq by simp
    next
      case stay: False
      then have ex: "ex = FromHeader (?S ?J)" using r False unfolding runTask_value [OF assms(1-6)] by simp
      have v: "runsLastIterationBlock ?E U L ex \<longleftrightarrow>
          \<not> P (comparedAt V L updated ?i - valueOf V (ivStepValue (governing L)))"
        using loop_ok_iv(2) [OF L g, of ?E "?S ?J"] eval_comparedValue [OF L at, of P T t]
        by (simp add: ex runsLastIterationBlock_def utility_arith(6) [OF U])
      show ?thesis
      proof (cases "?i = 0")
        case True
        then have "N = 0" using ge by simp
        then show ?thesis using v owner True by simp
      next
        case False
        then have pos: "0 < ?i" by simp
        have "runsLastIterationBlock ?E U L ex \<longleftrightarrow> ?i = N"
          unfolding v ago [OF pos] using cmp [OF pos le] ge by auto
        then show ?thesis using owner False by auto
      qed
    qed
  qed
qed

text \<open>The tasks that run the block for the last iteration.\<close>

definition lastIterationTasks ::
    "iv_utility \<Rightarrow> doall_loop \<Rightarrow> (nat \<Rightarrow> u64) \<Rightarrow> (u64 \<Rightarrow> bool) \<Rightarrow> nat \<Rightarrow> nat \<Rightarrow> nat \<Rightarrow>
     (phi \<Rightarrow> u64) \<Rightarrow> nat list" where
  "lastIterationTasks U L V P T c =
     allTasks U L (\<lambda>t r. case r of
         None \<Rightarrow> []
       | Some (trace, ex) \<Rightarrow> if runsLastIterationBlock (task_env V P T c t) U L ex then [t] else []) V P T c"

lemma concat_singleton:
  "distinct xs \<Longrightarrow> concat (map (\<lambda>t. if t = k then [t] else []) xs) = (if k \<in> set xs then [k] else [])"
  by (induction xs) auto

lemma lastIterationTasks_value:
  assumes "utility_ok U updated" and "loop_ok L updated" and "run_ok V P L updated N T c"
  shows "lastIterationTasks U L V P T c (Suc N) st =
    (if N = 0 \<and> P (comparedAt V L updated 0 - valueOf V (ivStepValue (governing L))) then []
     else [N div c mod T])"
proof -
  let ?zero = "N = 0 \<and> P (comparedAt V L updated 0 - valueOf V (ivStepValue (governing L)))"
  obtain completed code where c: "rewireLoopToIterateChunks U L = Inr code" "code_ok U L completed code"
      "\<forall>E st. eval E st completed \<noteq> 0 \<longleftrightarrow> st ChunkPHI + 1 = chunk E"
    using rewire_code_ok [OF assms(1,2)] by blast
  let ?r = "\<lambda>t. runTask (task_env V P T c t) (comparedValue L) code (Suc N) st"
  have each: "(case ?r t of None \<Rightarrow> [] | Some (trace, ex) \<Rightarrow>
        if runsLastIterationBlock (task_env V P T c t) U L ex then [t] else []) =
      (if ?zero then [] else if t = N div c mod T then [t] else [])" if t: "t < T" for t
  proof -
    obtain trace ex where r: "?r t = Some (trace, ex)"
      using runTask_value [OF assms(1,2) c(2,3) assms(3) t, of st] by (auto split: if_splits)
    show ?thesis
      using runsLastIterationBlock_value [OF assms(1,2) c(2,3) assms(3) t r] unfolding r by simp
  qed
  have "lastIterationTasks U L V P T c (Suc N) st =
      concat (map (\<lambda>t. if ?zero then [] else if t = N div c mod T then [t] else []) [0..<T])"
    unfolding lastIterationTasks_def allTasks_def c(1) sum.case
    by (intro arg_cong [of _ _ concat] map_cong refl each) simp
  also have "\<dots> = (if ?zero then [] else [N div c mod T])"
  proof (cases ?zero)
    case False
    show ?thesis unfolding if_not_P [OF False]
      using concat_singleton [of "[0..<T]" "N div c mod T"] run_ok_facts(1) [OF assms(3)] by simp
  qed simp
  finally show ?thesis .
qed

text \<open>
  When the loop runs at least once, exactly one task executes the code meant for the last
  iteration: the one that owns iteration number \<open>N\<close>, in which the sequential loop finds that it has
  to leave. (The comment in the code says it is the task that has executed the last iteration,
  \<open>N - 1\<close>; when \<open>N\<close> is a multiple of the chunk size that is another task.)
\<close>

theorem doall_last_iteration_task:
  assumes "utility_ok U updated" and "loop_ok L updated" and "run_ok V P L updated N T c" and "0 < N"
  shows "lastIterationTasks U L V P T c (Suc N) st = [N div c mod T]"
  using lastIterationTasks_value [OF assms(1-3)] assms(4) by simp

text \<open>
  A loop whose body does not run at all, and whose exit condition would hold one step before its
  start value too, loses its live-out values: no task executes the code meant for the last iteration.
\<close>

theorem doall_zero_trip_no_task:
  assumes "utility_ok U updated" and "loop_ok L updated" and "run_ok V P L updated 0 T c"
    and "P (comparedAt V L updated 0 - valueOf V (ivStepValue (governing L)))"
  shows "lastIterationTasks U L V P T c (Suc 0) st = []"
  using lastIterationTasks_value [OF assms(1-3)] assms(4) by simp

section \<open>Two loops\<close>

definition plain_utility :: iv_utility where
  "plain_utility = \<lparr>chunkPHIStart = Const 0,
     chunkPHINext = Select (ICmpEQ (Add (Phi ChunkPHI) (Const 1)) ChunkSizeArg) (Const 0) (Add (Phi ChunkPHI) (Const 1)),
     scaleInductionVariableStep = Mul, offsetIVPHI = Add,
     chunkInductionVariablePHI = (\<lambda>x s n. case s of Select c a b \<Rightarrow> Select c (Add x n) x | _ \<Rightarrow> x),
     valueAnIterationAgo = Sub, previousComparedValue = Sub,
     determineLastIterationValue = (\<lambda>x flag n. Sub x n)\<rparr>"

text \<open>\<open>for (i = 5; i < 12; i += 2)\<close>, with a variable of period 3 that starts at 10 or without it.\<close>

definition count_iv :: iv_info where
  "count_iv = \<lparr>ivPHI = 0, ivStartValue = Const 5, ivStepValue = Const 2,
     ivUpdate = Add (Phi (HeaderPHI 0)) (Const 2), ivInstructions = [0]\<rparr>"

definition count_loop :: "periodic list \<Rightarrow> doall_loop" where
  "count_loop pvs = \<lparr>ivs = [count_iv], governing = count_iv, comparedValue = Phi (HeaderPHI 0),
     periodics = pvs, reductions = [], preheaderBlock = 0, latchBlock = 1, header = [0, 1, 2],
     cmpInst = 1, brInst = 2, derivation = [], exitConditionInst = None,
     isLoopInvariant = (\<lambda>i. False), isLoopIteration = (\<lambda>i. False), isInstruction = (\<lambda>v. v = Value 7),
     incomingOfPHI = Map.empty, instructionOf = (\<lambda>v. 0), liveOuts = []\<rparr>"

definition mod3 :: periodic where
  "mod3 = \<lparr>pvPHI = 3, pvIncoming = [(Const 10, 0), (Value 7, 1)], pvInitial = Const 10,
     pvPeriod = Const 3, pvStep = Const 1, pvWidth = 8\<rparr>"

lemma plain_utility_ok: "utility_ok plain_utility False"
  by (simp add: utility_ok_def plain_utility_def)

lemma count_loop_ok: "loop_ok (count_loop []) False" "loop_ok (count_loop [mod3]) False"
  by (auto simp: loop_ok_def count_loop_def count_iv_def mod3_def loopBlockOf_def)

lemma count_loop_iv: "ivAt V count_iv i = 5 + of_nat i * 2"
  by (simp add: ivAt_def count_iv_def valueOf_def)

lemma count_run_ok: "run_ok V (\<lambda>x. 12 \<le> x) (count_loop pvs) False 4 2 3"
proof -
  have "\<forall>i \<in> set [0..<11]. (12 \<le> 5 + of_nat i * (2 :: u64)) = (4 \<le> i) \<and>
      (0 < i \<longrightarrow> 5 + of_nat i * (2 :: u64) \<noteq> 5)" by code_simp
  then have "(12 \<le> 5 + of_nat i * (2 :: u64)) = (4 \<le> i) \<and> (0 < i \<longrightarrow> 5 + of_nat i * (2 :: u64) \<noteq> 5)"
    if "i \<le> 10" for i using that by simp
  then show ?thesis
    by (simp add: run_ok_def comparedAt_def count_loop_iv) (simp add: count_loop_def count_loop_iv)
qed

definition no_values :: "nat \<Rightarrow> u64" where
  "no_values i = 0"

definition any_state :: "phi \<Rightarrow> u64" where
  "any_state p = 99"

lemma mod3_positive: "periods_positive V (count_loop [mod3])"
  by (simp add: periods_positive_def count_loop_def mod3_def valueOf_def)

theorem doall_each_iteration_once_witness:
  "mset (allTasks plain_utility (count_loop [mod3])
      (\<lambda>t r. map (taskValues (task_env no_values (\<lambda>x. 12 \<le> x) 2 3 t) (count_loop [mod3])) (bodiesOf r))
      no_values (\<lambda>x. 12 \<le> x) 2 3 5 any_state) = {#[5, 10], [7, 11], [9, 12], [11, 10]#}"
proof -
  have "map (sequentialValues no_values (count_loop [mod3])) [0..<4] = [[5, 10], [7, 11], [9, 12], [11, 10]]"
    by code_simp
  then show ?thesis
    using doall_each_iteration_once [OF plain_utility_ok count_loop_ok(2) count_run_ok
        mod3_positive [of no_values], of any_state] by simp
qed

theorem doall_each_header_once_witness:
  "mset (allTasks plain_utility (count_loop [])
      (\<lambda>t r. map (taskValues (task_env no_values (\<lambda>x. 12 \<le> x) 2 3 t) (count_loop []))
        (countedHeaders (task_env no_values (\<lambda>x. 12 \<le> x) 2 3 t) plain_utility (count_loop []) r))
      no_values (\<lambda>x. 12 \<le> x) 2 3 5 any_state) = {#[5], [7], [9], [11], [13]#}"
proof -
  have "map (sequentialValues no_values (count_loop [])) [0..<5] = [[5], [7], [9], [11], [13]]"
    by code_simp
  moreover have p: "periods_positive no_values (count_loop [])" by (simp add: periods_positive_def count_loop_def)
  ultimately show ?thesis
    using doall_each_header_once [OF plain_utility_ok count_loop_ok(1) count_run_ok p, of any_state] by simp
qed

theorem doall_last_iteration_task_witness:
  "lastIterationTasks plain_utility (count_loop []) no_values (\<lambda>x. 12 \<le> x) 2 3 5 any_state = [1]"
  using doall_last_iteration_task [OF plain_utility_ok count_loop_ok(1) count_run_ok [of no_values],
      of any_state] by simp

lemma zero_run_ok: "run_ok V (\<lambda>x. 2 \<le> x) (count_loop []) False 0 2 3"
proof -
  have "\<forall>i \<in> set [0..<7]. 2 \<le> 5 + of_nat i * (2 :: u64) \<and> (0 < i \<longrightarrow> 5 + of_nat i * (2 :: u64) \<noteq> 5)" by code_simp
  then have "2 \<le> 5 + of_nat i * (2 :: u64) \<and> (0 < i \<longrightarrow> 5 + of_nat i * (2 :: u64) \<noteq> 5)"
    if "i \<le> 6" for i using that by simp
  then show ?thesis
    by (simp add: run_ok_def comparedAt_def count_loop_iv) (simp add: count_loop_def count_loop_iv)
qed

theorem doall_zero_trip_no_task_witness:
  "lastIterationTasks plain_utility (count_loop []) no_values (\<lambda>x. 2 \<le> x) 2 3 1 any_state = []"
  using doall_zero_trip_no_task [OF plain_utility_ok count_loop_ok(1) zero_run_ok [of no_values], of any_state]
  by (simp add: comparedAt_def count_loop_def count_loop_iv) (simp add: count_iv_def valueOf_def)

end
