(* ===== verification/Doall_Guard.thy ===== *)
theory Doall_Guard
  imports Doall_Correct
begin

text \<open>
  When DOALL is applied to a loop (\<open>doall/src/DOALL_applicabilityGuard.cpp\<close>,
  \<open>DOALL_analysis.cpp\<close>), which live values it reduces or skips (\<open>DOALL_parallelization.cpp\<close>),
  and the small methods of \<open>DOALL.cpp\<close>. What NOELLE knows of the loop is the record
  \<open>doall_candidate\<close>.
\<close>

section \<open>What is known of a loop\<close>

text \<open>The kinds of strongly connected components the code tells apart.\<close>

datatype scc_kind =
    InductionVariableSCC | ReductionSCC | LoopCarriedUnknownSCC | UnknownClosedFormSCC | OtherSCC

text \<open>A loop-carried dependence; its ends are \<open>None\<close> when they are not instructions.\<close>

record dependence =
  isControl :: bool
  isMemory :: bool
  src :: "nat option"
  dst :: "nat option"

record scc_info =
  scc :: nat
  kind :: scc_kind
  loopCarriedDependences :: "dependence list"

text \<open>
  The instruction before the terminator of an exit block: none, a call with the name of its callee
  if it is known, or something else.
\<close>

datatype prev_inst = NoPrevInst | CallTo "string option" | OtherInst

record doall_candidate =
  doallMetadata :: "string option"
  exitBlocks :: "prev_inst list"
  nonReducibleLiveOuts :: "nat list"
  sccOfLiveOut :: "nat \<Rightarrow> scc_info"
  sccsWithLoopCarriedDependences :: "scc_info list"
  disjointBetweenIterations :: "nat \<Rightarrow> nat \<Rightarrow> bool"
  hasGoverningIV :: bool
  ivStepsInvariant :: "bool list"

section \<open>Components that block DOALL\<close>

text \<open>The loop over the dependences, with its \<open>break\<close>s.\<close>

fun allDataFromDisjointAccesses :: "(nat \<Rightarrow> nat \<Rightarrow> bool) \<Rightarrow> dependence list \<Rightarrow> bool" where
  "allDataFromDisjointAccesses disjoint [] = True"
| "allDataFromDisjointAccesses disjoint (d # ds) =
     (if isControl d then allDataFromDisjointAccesses disjoint ds
      else if \<not> isMemory d then False
      else (case (src d, dst d) of
          (Some x, Some y) \<Rightarrow> if disjoint x y then allDataFromDisjointAccesses disjoint ds else False
        | _ \<Rightarrow> False))"

fun sccsThatBlock :: "(nat \<Rightarrow> nat \<Rightarrow> bool) \<Rightarrow> scc_info list \<Rightarrow> nat set" where
  "sccsThatBlock disjoint [] = {}"
| "sccsThatBlock disjoint (i # is) =
     (if kind i \<noteq> LoopCarriedUnknownSCC \<and> kind i \<noteq> UnknownClosedFormSCC then sccsThatBlock disjoint is
      else if allDataFromDisjointAccesses disjoint (loopCarriedDependences i) then sccsThatBlock disjoint is
      else insert (scc i) (sccsThatBlock disjoint is))"

definition getSCCsThatBlockDOALLToBeApplicable :: "doall_candidate \<Rightarrow> nat set" where
  "getSCCsThatBlockDOALLToBeApplicable C =
     sccsThatBlock (disjointBetweenIterations C) (sccsWithLoopCarriedDependences C)"

section \<open>The guard\<close>

fun countExits :: "prev_inst list \<Rightarrow> nat" where
  "countExits [] = 0"
| "countExits (NoPrevInst # bs) = Suc (countExits bs)"
| "countExits (CallTo callee # bs) = (if callee = Some ''exit'' then countExits bs else Suc (countExits bs))"
| "countExits (OtherInst # bs) = Suc (countExits bs)"

fun liveOutsThatRequireSynchronizations :: "(nat \<Rightarrow> scc_info) \<Rightarrow> nat list \<Rightarrow> nat set" where
  "liveOutsThatRequireSynchronizations sccOf [] = {}"
| "liveOutsThatRequireSynchronizations sccOf (v # vs) =
     (if kind (sccOf v) = InductionVariableSCC then liveOutsThatRequireSynchronizations sccOf vs
      else insert v (liveOutsThatRequireSynchronizations sccOf vs))"

text \<open>\<open>DOALL::canBeAppliedToLoop\<close>, its early returns in order; \<open>L\<close> has the derivation of the exit value.\<close>

definition canBeAppliedToLoop :: "doall_candidate \<Rightarrow> doall_loop \<Rightarrow> bool" where
  "canBeAppliedToLoop C L =
     (if doallMetadata C = Some ''yes'' then True
      else if doallMetadata C = Some ''no'' then False
      else if countExits (exitBlocks C) \<noteq> 1 then False
      else if liveOutsThatRequireSynchronizations (sccOfLiveOut C) (nonReducibleLiveOuts C) \<noteq> {} then False
      else if getSCCsThatBlockDOALLToBeApplicable C \<noteq> {} then False
      else if \<not> hasGoverningIV C then False
      else if \<not> list_all (\<lambda>b. b) (ivStepsInvariant C) then False
      else list_all (isLoopInvariant L) (derivation L))"

section \<open>Live values\<close>

text \<open>The lambdas \<open>isReducible\<close> and \<open>isSkippable\<close> of \<open>DOALL::apply\<close>.\<close>

definition isReducible :: "doall_candidate \<Rightarrow> nat \<Rightarrow> bool \<Rightarrow> bool" where
  "isReducible C envID isLiveOut =
     (if \<not> isLiveOut then False
      else if kind (sccOfLiveOut C envID) = InductionVariableSCC then False
      else True)"

text \<open>The users of a live-in value: how many, and the component of the first if it is a PHI node.\<close>

record live_in =
  numUses :: nat
  phiUserSCC :: "scc_info option"

definition isSkippable :: "(nat \<Rightarrow> live_in) \<Rightarrow> nat \<Rightarrow> bool \<Rightarrow> bool" where
  "isSkippable liveIn envID isLiveOut =
     (if isLiveOut then False
      else if numUses (liveIn envID) = 1
      then (case phiUserSCC (liveIn envID) of None \<Rightarrow> False | Some info \<Rightarrow> kind info = ReductionSCC)
      else False)"

section \<open>The technique\<close>

definition DOALL_getMinimumNumberOfIdleCores :: u32 where
  "DOALL_getMinimumNumberOfIdleCores = 2"

text \<open>The constructor disables the technique when the program lacks the dispatcher.\<close>

definition DOALL_new :: "(string \<Rightarrow> bool) \<Rightarrow> bool" where
  "DOALL_new hasFunction =
     (let enabled = True
      in if \<not> hasFunction ''NOELLE_DOALLDispatcher'' then False else enabled)"

text \<open>\<open>apply\<close> as far as the task's code is concerned: nothing happens when it is disabled.\<close>

definition DOALL_apply :: "bool \<Rightarrow> iv_utility \<Rightarrow> doall_loop \<Rightarrow> task_code option result" where
  "DOALL_apply enabled U L =
     (if \<not> enabled then Inr None
      else (case rewireLoopToIterateChunks U L of Inl e \<Rightarrow> Inl e | Inr code \<Rightarrow> Inr (Some code)))"

section \<open>What the guard checks\<close>

text \<open>A dependence DOALL can live with: control, or memory accesses of different iterations that never meet.\<close>

definition harmless :: "doall_candidate \<Rightarrow> dependence \<Rightarrow> bool" where
  "harmless C d \<longleftrightarrow> isControl d \<or>
     isMemory d \<and> (\<exists>x y. src d = Some x \<and> dst d = Some y \<and> disjointBetweenIterations C x y)"

lemma allDataFromDisjointAccesses_iff:
  "allDataFromDisjointAccesses (disjointBetweenIterations C) ds \<longleftrightarrow> (\<forall>d \<in> set ds. harmless C d)"
  by (induction ds) (auto simp: harmless_def split: option.splits)

lemma sccsThatBlock_iff:
  "sccsThatBlock (disjointBetweenIterations C) is = {} \<longleftrightarrow>
     (\<forall>i \<in> set is. kind i \<in> {LoopCarriedUnknownSCC, UnknownClosedFormSCC} \<longrightarrow>
        (\<forall>d \<in> set (loopCarriedDependences i). harmless C d))"
  by (induction "is") (auto simp: allDataFromDisjointAccesses_iff)

definition unmarked :: "doall_candidate \<Rightarrow> bool" where
  "unmarked C \<longleftrightarrow> doallMetadata C \<noteq> Some ''yes'' \<and> doallMetadata C \<noteq> Some ''no''"

lemma hoistDerivation_total:
  "list_all (isLoopInvariant L) is \<Longrightarrow> \<exists>moved. hoistDerivation L is = Inr moved"
  by (induction "is") (auto split: option.splits)

lemma hoistDerivation_fails:
  "\<not> list_all (isLoopInvariant L) is \<Longrightarrow> hoistDerivation L is = Inl AssertionFailed"
proof (induction "is")
  case (Cons i "is")
  show ?case
  proof (cases "isLoopInvariant L i")
    case True
    then have "hoistDerivation L is = Inl AssertionFailed" using Cons by simp
    then show ?thesis by simp
  qed simp
qed simp

text \<open>
  The guard protects code generation: on a loop it accepts without an override, moving the
  derivation of the exit value to the entry of the task never fails its assertion. With the override
  the check is skipped, and the assertion fails exactly when the guard would have refused the
  derivation.
\<close>

theorem doall_guard_protects_hoisting:
  "(unmarked C \<and> canBeAppliedToLoop C L \<longrightarrow> (\<exists>moved. hoistExitCondition L = Inr moved)) \<and>
   (doallMetadata C = Some ''yes'' \<and> exitConditionInst L \<noteq> None \<longrightarrow> canBeAppliedToLoop C L \<and>
      (hoistExitCondition L = Inl AssertionFailed \<longleftrightarrow> \<not> list_all (isLoopInvariant L) (derivation L)))"
proof (intro conjI impI)
  assume "unmarked C \<and> canBeAppliedToLoop C L"
  then have "list_all (isLoopInvariant L) (derivation L)"
    by (auto simp: canBeAppliedToLoop_def unmarked_def split: if_splits)
  from hoistDerivation_total [OF this] show "\<exists>moved. hoistExitCondition L = Inr moved"
    by (auto simp: hoistExitCondition_def split: option.splits)
next
  assume m: "doallMetadata C = Some ''yes'' \<and> exitConditionInst L \<noteq> None"
  then show "canBeAppliedToLoop C L" by (simp add: canBeAppliedToLoop_def)
  from m obtain i where i: "exitConditionInst L = Some i" by auto
  show "hoistExitCondition L = Inl AssertionFailed \<longleftrightarrow> \<not> list_all (isLoopInvariant L) (derivation L)"
  proof (cases "list_all (isLoopInvariant L) (derivation L)")
    case True
    from hoistDerivation_total [OF this] True show ?thesis by (auto simp: hoistExitCondition_def i)
  next
    case False
    from hoistDerivation_fails [OF this] False show ?thesis by (simp add: hoistExitCondition_def i)
  qed
qed

section \<open>A candidate\<close>

definition array_loop :: "string option \<Rightarrow> doall_candidate" where
  "array_loop mark = \<lparr>doallMetadata = mark, exitBlocks = [CallTo (Some ''exit''), OtherInst],
     nonReducibleLiveOuts = [4],
     sccOfLiveOut = (\<lambda>v. \<lparr>scc = 0, kind = InductionVariableSCC, loopCarriedDependences = []\<rparr>),
     sccsWithLoopCarriedDependences =
       [\<lparr>scc = 1, kind = LoopCarriedUnknownSCC,
         loopCarriedDependences = [\<lparr>isControl = False, isMemory = True, src = Some 1, dst = Some 2\<rparr>]\<rparr>],
     disjointBetweenIterations = (\<lambda>x y. x \<noteq> y), hasGoverningIV = True, ivStepsInvariant = [True]\<rparr>"

definition variant_exit :: doall_loop where
  "variant_exit = (count_loop [])\<lparr>derivation := [6], exitConditionInst := Some 6\<rparr>"

theorem doall_guard_protects_hoisting_witness:
  "(\<exists>moved. hoistExitCondition (count_loop []) = Inr moved) \<and>
   canBeAppliedToLoop (array_loop (Some ''yes'')) variant_exit \<and>
   hoistExitCondition variant_exit = Inl AssertionFailed"
proof -
  have "unmarked (array_loop None)" by (simp add: unmarked_def array_loop_def)
  moreover have "canBeAppliedToLoop (array_loop None) (count_loop [])" by code_simp
  moreover have "doallMetadata (array_loop (Some ''yes'')) = Some ''yes''" "exitConditionInst variant_exit \<noteq> None"
    "\<not> list_all (isLoopInvariant variant_exit) (derivation variant_exit)"
    by (simp_all add: array_loop_def variant_exit_def count_loop_def)
  ultimately show ?thesis
    using doall_guard_protects_hoisting [of "array_loop None" "count_loop []"]
      doall_guard_protects_hoisting [of "array_loop (Some ''yes'')" variant_exit] by blast
qed

end
