(* ===== verification/Doall_Program.thy ===== *)
theory Doall_Program
  imports Runtime_Doall Doall_Guard
begin

text \<open>
  The compiler and the runtime together: the calls the DOALL dispatcher makes run the task DOALL has
  generated, and execute the loop.
\<close>

text \<open>
  \<open>DOALL::invokeParallelizedLoop\<close>: the arguments of the call of the dispatcher that replaces the loop.
\<close>

definition invokeParallelizedLoop :: "nat \<Rightarrow> nat \<Rightarrow> nat \<Rightarrow> nat \<Rightarrow> nat \<times> nat \<times> i64 \<times> i64" where
  "invokeParallelizedLoop taskBody envPtr ltmCores ltmChunkSize =
     (taskBody, envPtr, of_nat ltmCores, of_nat ltmChunkSize)"

text \<open>
  One call of the task by the runtime: \<open>DOALLTask::initializeTask\<close> reads its arguments as the
  environment, the number of the task, the number of tasks and the chunk size.
\<close>

definition initializeTask :: "(nat \<Rightarrow> u64) \<Rightarrow> (u64 \<Rightarrow> bool) \<Rightarrow> doall_call \<Rightarrow> run_env" where
  "initializeTask V P call =
     (case call of (task, envArg, taskInstanceID, numTaskInstances, chunkSizeArg) \<Rightarrow>
       \<lparr>taskID = taskInstanceID, numTasks = numTaskInstances, chunk = chunkSizeArg, vals = V, pastExit = P\<rparr>)"

definition runCall ::
    "(nat \<Rightarrow> u64) \<Rightarrow> (u64 \<Rightarrow> bool) \<Rightarrow> doall_loop \<Rightarrow> task_code \<Rightarrow> nat \<Rightarrow> (phi \<Rightarrow> u64) \<Rightarrow> doall_call \<Rightarrow> u64 list list" where
  "runCall V P L code fuel st call =
     map (taskValues (initializeTask V P call) L)
       (bodiesOf (runTask (initializeTask V P call) (comparedValue L) code fuel st))"

lemma runCall_task:
  "runCall V P L code fuel st (loop, e, of_nat i, ucast (n :: u32), csz) =
     map (taskValues (task_env V P (unat n) (unat csz) i) L)
       (bodiesOf (runTask (task_env V P (unat n) (unat csz) i) (comparedValue L) code fuel st))"
proof -
  have "(ucast n :: i64) = of_nat (unat n)" by simp
  moreover have "(of_nat (unat csz) :: i64) = csz" by simp
  ultimately have "initializeTask V P (loop, e, of_nat i, ucast n, csz) = task_env V P (unat n) (unat csz) i"
    by (simp add: initializeTask_def task_env_def)
  then show ?thesis by (simp add: runCall_def)
qed

text \<open>The calls a finished dispatch has made, and what the calls with those arguments execute.\<close>

lemma dispatch_log:
  assumes "doall_step\<^sup>*\<^sup>* (doall_start (NoelleRuntime_new cores hw)) s" "d \<in> set (finished s)"
    and "(loop, e, i, n, csz) \<in> set (log (d_fj d))"
  obtains loop' e' where "mset (log (d_fj d)) =
      image_mset (\<lambda>i. (loop', e', of_nat i, ucast (d_granted d), csz)) (mset_set {..<unat (d_granted d)})"
proof -
  obtain loop' e' csz' where lg: "mset (log (d_fj d)) =
      image_mset (\<lambda>i. (loop', e', of_nat i, ucast (d_granted d), csz')) (mset_set {..<unat (d_granted d)})"
    using doall_inv_reachable [OF assms(1)] assms(2) by (auto simp: doall_inv_def dispatch_complete_def)
  have "set_mset (mset (log (d_fj d))) =
      (\<lambda>i. (loop', e', of_nat i, ucast (d_granted d), csz')) ` {..<unat (d_granted d)}"
    unfolding lg by simp
  then have "csz' = csz" using assms(3) by auto
  then show thesis using that lg by blast
qed

lemma calls_execute_loop:
  assumes "utility_ok U updated" and "loop_ok L updated" and "periods_positive V L"
    and "run_ok V P L updated N (unat (n :: u32)) (unat csz)"
    and "rewireLoopToIterateChunks U L = Inr code"
  shows "mset (concat (map (\<lambda>t. runCall V P L code (Suc N) st (loop, e, of_nat t, ucast n, csz)) [0..<unat n])) =
    mset (map (sequentialValues V L) [0..<N])"
proof -
  let ?T = "unat n" and ?c = "unat csz"
  obtain completed where c: "code_ok U L completed code"
      "\<forall>E st. eval E st completed \<noteq> 0 \<longleftrightarrow> st ChunkPHI + 1 = chunk E"
    using rewire_code_ok [OF assms(1,2)] assms(5) by auto
  let ?run = "\<lambda>t. map (taskValues (task_env V P ?T ?c t) L)
      (bodiesOf (runTask (task_env V P ?T ?c t) (comparedValue L) code (Suc N) st))"
  have task: "?run t = map (sequentialValues V L) (map (iteration ?T ?c t) [0..<visits ?T ?c N t])" if "t < ?T" for t
    unfolding bodiesOf_runTask [OF assms(1,2) c assms(4) that]
    by (rule states_values [OF assms(1,2) c assms(4,3)]) simp
  have "allTasks U L (\<lambda>t r. map (taskValues (task_env V P ?T ?c t) L) (bodiesOf r)) V P ?T ?c (Suc N) st =
      concat (map ?run [0..<?T])" by (simp add: allTasks_def assms(5))
  then have "mset (concat (map ?run [0..<?T])) = mset (map (sequentialValues V L) [0..<N])"
    using allTasks_mset [OF assms(5) run_ok_facts(2,1) [OF assms(4)], of
        "\<lambda>t r. map (taskValues (task_env V P ?T ?c t) L) (bodiesOf r)" V P "Suc N" st "sequentialValues V L" N]
      task by simp
  then show ?thesis by (simp add: runCall_task)
qed

text \<open>
  C1: the whole of DOALL, compiler and runtime: whenever a dispatch of a parallelized loop has returned,
  however many other dispatches ran at the same time, however the threads were interleaved, and however
  many cores were granted, the calls it made have executed every iteration of the loop exactly once.
\<close>

theorem doall_dispatch_executes_loop:
  assumes "doall_step\<^sup>*\<^sup>* (doall_start (NoelleRuntime_new cores hw)) s" and "d \<in> set (finished s)"
    and "(loop, e, i, n, csz) \<in> set (log (d_fj d))"
    and "utility_ok U updated" and "loop_ok L updated" and "periods_positive V L"
    and "run_ok V P L updated N (unat (d_granted d)) (unat csz)"
  shows "\<exists>code. rewireLoopToIterateChunks U L = Inr code \<and>
    mset (concat (map (runCall V P L code (Suc N) st) (log (d_fj d)))) = mset (map (sequentialValues V L) [0..<N])"
proof -
  let ?T = "unat (d_granted d)"
  obtain loop' e' where lg: "mset (log (d_fj d)) =
      image_mset (\<lambda>i. (loop', e', of_nat i, ucast (d_granted d), csz)) (mset_set {..<?T})"
    using dispatch_log [OF assms(1-3)] by blast
  obtain code where c: "rewireLoopToIterateChunks U L = Inr code"
    using rewire_code_ok [OF assms(4,5)] by blast
  let ?run = "\<lambda>t. runCall V P L code (Suc N) st (loop', e', of_nat t, ucast (d_granted d), csz)"
  have "mset (concat (map (runCall V P L code (Suc N) st) (log (d_fj d)))) =
      \<Sum>\<^sub># (image_mset (\<lambda>x. mset (runCall V P L code (Suc N) st x)) (mset (log (d_fj d))))"
    by (simp add: mset_concat o_def sum_mset_sum_list [symmetric])
  also have "\<dots> = \<Sum>\<^sub># (image_mset (\<lambda>t. mset (?run t)) (mset [0..<?T]))"
    unfolding lg by (simp add: multiset.map_comp o_def lessThan_atLeast0)
  also have "\<dots> = mset (concat (map ?run [0..<?T]))"
    by (simp add: mset_concat o_def sum_mset_sum_list [symmetric])
  also have "\<dots> = mset (map (sequentialValues V L) [0..<N])"
    by (rule calls_execute_loop [OF assms(4-7) c])
  finally show ?thesis using c by blast
qed

lemma one_core_run_ok: "run_ok V (\<lambda>x. 12 \<le> x) (count_loop []) False 4 1 8"
proof -
  have "\<forall>i \<in> set [0..<13]. (12 \<le> 5 + of_nat i * (2 :: u64)) = (4 \<le> i) \<and>
      (0 < i \<longrightarrow> 5 + of_nat i * (2 :: u64) \<noteq> 5)" by code_simp
  then have "(12 \<le> 5 + of_nat i * (2 :: u64)) = (4 \<le> i) \<and> (0 < i \<longrightarrow> 5 + of_nat i * (2 :: u64) \<noteq> 5)"
    if "i \<le> 12" for i using that by simp
  then show ?thesis
    by (simp add: run_ok_def comparedAt_def count_loop_iv) (simp add: count_loop_def count_loop_iv)
qed

theorem doall_dispatch_executes_loop_witness:
  "\<exists>(s :: doall_sys) d code. finished s = [d] \<and>
     rewireLoopToIterateChunks plain_utility (count_loop []) = Inr code \<and>
     mset (concat (map (runCall no_values (\<lambda>x. 12 \<le> x) (count_loop []) code 5 any_state) (log (d_fj d)))) =
       {#[5], [7], [9], [11]#}"
proof -
  obtain s d where s: "doall_step\<^sup>*\<^sup>* (doall_start (NoelleRuntime_new None 2)) s"
    "finished s = [d]" "d_granted d = 1" "log (d_fj d) = [(7, 9, 0, 1, 8)]"
    using doall_example_finished by blast
  have d: "d \<in> set (finished s)" and l: "(7, 9, 0, 1, 8) \<in> set (log (d_fj d))" using s by simp_all
  have run: "run_ok no_values (\<lambda>x. 12 \<le> x) (count_loop []) False 4 (unat (d_granted d)) (unat (8 :: u64))"
    using one_core_run_ok s(3) by simp
  have pos: "periods_positive no_values (count_loop [])" by (simp add: periods_positive_def count_loop_def)
  have vals: "map (sequentialValues no_values (count_loop [])) [0..<4] = [[5], [7], [9], [11]]" by code_simp
  from doall_dispatch_executes_loop [OF s(1) d l plain_utility_ok count_loop_ok(1) pos run, of any_state]
  obtain code where "rewireLoopToIterateChunks plain_utility (count_loop []) = Inr code"
    "mset (concat (map (runCall no_values (\<lambda>x. 12 \<le> x) (count_loop []) code (Suc 4) any_state) (log (d_fj d)))) =
      mset (map (sequentialValues no_values (count_loop [])) [0..<4])"
    by (elim exE conjE) (rule that)
  then show ?thesis using s(2) unfolding vals by (intro exI [of _ s] exI [of _ d] exI [of _ code]) simp
qed

end
