(* ===== verification/Parallelization_Technique.thy ===== *)
theory Parallelization_Technique
  imports Gino_Prelude
begin

text \<open>
  What the parallelization techniques share
  (\<open>parallelization_technique/src/ParallelizationTechnique.cpp\<close>): the environment through which a task
  gets the live-in values and gives back the live-out ones, reductions, the clones of the steps of
  induction variables, the exit taken, and the inlining of calls.
\<close>

section \<open>The environment\<close>

text \<open>
  NOELLE's environment of a loop: its variables by number, the value each one carries, and the
  instructions after the loop that use a live-out value, with whether they are PHI nodes.
\<close>

record environment =
  envIDsOfLiveInVars :: "nat list"
  envIDsOfLiveOutVars :: "nat list"
  getProducer :: "nat \<Rightarrow> nat"
  consumersOf :: "nat \<Rightarrow> (nat \<times> bool) list"

record env_builder =
  isIncludedEnvironmentVariable :: "nat \<Rightarrow> bool"
  hasVariableBeenReduced :: "nat \<Rightarrow> bool"

text \<open>
  The environment array: one location for each variable, and for a reduced variable one private copy
  for each task instance.
\<close>

record 'v env_memory =
  variableAt :: "nat \<Rightarrow> 'v"
  privateCopy :: "nat \<Rightarrow> nat \<Rightarrow> 'v"

subsection \<open>Live-in variables\<close>

text \<open>\<open>valueOf\<close> gives the values before the loop.\<close>

fun populateLiveInEnvironment ::
    "environment \<Rightarrow> env_builder \<Rightarrow> (nat \<Rightarrow> 'v) \<Rightarrow> nat list \<Rightarrow> 'v env_memory \<Rightarrow> 'v env_memory" where
  "populateLiveInEnvironment env B valueOf [] mem = mem"
| "populateLiveInEnvironment env B valueOf (envID # envIDs) mem =
     (if \<not> isIncludedEnvironmentVariable B envID
      then populateLiveInEnvironment env B valueOf envIDs mem
      else populateLiveInEnvironment env B valueOf envIDs
             (mem\<lparr>variableAt := (variableAt mem)(envID := valueOf (getProducer env envID))\<rparr>))"

text \<open>The live-in values of the task: what the loads registered as clones of the producers read.\<close>

fun generateCodeToLoadLiveInVariables ::
    "environment \<Rightarrow> 'v env_memory \<Rightarrow> nat list \<Rightarrow> (nat \<Rightarrow> 'v option) \<Rightarrow> nat \<Rightarrow> 'v option" where
  "generateCodeToLoadLiveInVariables env mem [] liveIn = liveIn"
| "generateCodeToLoadLiveInVariables env mem (envID # envIDs) liveIn =
     generateCodeToLoadLiveInVariables env mem envIDs
       (liveIn(getProducer env envID \<mapsto> variableAt mem envID))"

subsection \<open>Reductions\<close>

record 'v reduction_scc =
  phiThatAccumulates :: nat
  identityValue :: 'v
  initialValue :: 'v
  accumulateOp :: "'v \<Rightarrow> 'v \<Rightarrow> 'v"

text \<open>
  The value the accumulator's PHI node receives from the preheader in the task. \<open>reductionOf\<close> is
  \<open>None\<close> for a variable whose component is no reduction, on which the cast fails.
\<close>

fun setReducableVariablesToBeginAtIdentityValue ::
    "env_builder \<Rightarrow> (nat \<Rightarrow> 'v reduction_scc option) \<Rightarrow> nat list \<Rightarrow> (nat \<Rightarrow> 'v) \<Rightarrow> (nat \<Rightarrow> 'v) result" where
  "setReducableVariablesToBeginAtIdentityValue B reductionOf [] incoming = Inr incoming"
| "setReducableVariablesToBeginAtIdentityValue B reductionOf (envID # envIDs) incoming =
     (if \<not> hasVariableBeenReduced B envID
      then setReducableVariablesToBeginAtIdentityValue B reductionOf envIDs incoming
      else case reductionOf envID of
        None \<Rightarrow> Inl AssertionFailed
      | Some r \<Rightarrow> setReducableVariablesToBeginAtIdentityValue B reductionOf envIDs
                    (incoming(phiThatAccumulates r := identityValue r)))"

text \<open>
  The stores \<open>generateCodeToStoreLiveOutVariables\<close> generates, as a task executes them: at its entry the
  private copies of the reduced variables receive the identity; at its exit they receive the last
  intermediate value, and the other variables the last value of their producer if the task executes
  the block for the last iteration. Stores outside the cycles of the CFG are meant: the one in a cycle, which
  is executed in every iteration that gets there, is not modelled.
\<close>

fun storesAtEntry ::
    "env_builder \<Rightarrow> (nat \<Rightarrow> 'v reduction_scc option) \<Rightarrow> nat \<Rightarrow> nat list \<Rightarrow> 'v env_memory \<Rightarrow> 'v env_memory result" where
  "storesAtEntry B reductionOf inst [] mem = Inr mem"
| "storesAtEntry B reductionOf inst (envID # envIDs) mem =
     (if \<not> hasVariableBeenReduced B envID then storesAtEntry B reductionOf inst envIDs mem
      else case reductionOf envID of
        None \<Rightarrow> Inl AssertionFailed
      | Some r \<Rightarrow> storesAtEntry B reductionOf inst envIDs
          (mem\<lparr>privateCopy := (privateCopy mem)(envID := (privateCopy mem envID)(inst := identityValue r))\<rparr>))"

fun storesAtExit ::
    "env_builder \<Rightarrow> nat \<Rightarrow> bool \<Rightarrow> (nat \<Rightarrow> 'v) \<Rightarrow> nat list \<Rightarrow> 'v env_memory \<Rightarrow> 'v env_memory" where
  "storesAtExit B inst executedLastIteration lastValue [] mem = mem"
| "storesAtExit B inst executedLastIteration lastValue (envID # envIDs) mem =
     storesAtExit B inst executedLastIteration lastValue envIDs
       (if hasVariableBeenReduced B envID
        then mem\<lparr>privateCopy := (privateCopy mem)(envID := (privateCopy mem envID)(inst := lastValue envID))\<rparr>
        else if executedLastIteration
        then mem\<lparr>variableAt := (variableAt mem)(envID := lastValue envID)\<rparr>
        else mem)"

text \<open>
  \<open>performReductionToAllReducableLiveOutVariables\<close>. \<open>reduceLiveOutVariables\<close> is NOELLE's: it generates the
  loop that accumulates the private copies of the threads that executed into the initial value. The
  result is the value each PHI node after the loop receives; a consumer that is no PHI node ends the
  compilation.
\<close>

fun collectReductions ::
    "env_builder \<Rightarrow> (nat \<Rightarrow> 'v reduction_scc option) \<Rightarrow> nat list \<Rightarrow> (nat \<Rightarrow> 'v reduction_scc option) \<Rightarrow>
     (nat \<Rightarrow> 'v reduction_scc option) result" where
  "collectReductions B reductionOf [] reductions = Inr reductions"
| "collectReductions B reductionOf (envID # envIDs) reductions =
     (if \<not> hasVariableBeenReduced B envID then collectReductions B reductionOf envIDs reductions
      else case reductionOf envID of
        None \<Rightarrow> Inl AssertionFailed
      | Some r \<Rightarrow> collectReductions B reductionOf envIDs (reductions(envID \<mapsto> r)))"

fun giveToConsumers :: "(nat \<times> bool) list \<Rightarrow> 'v \<Rightarrow> (nat \<Rightarrow> 'v option) \<Rightarrow> (nat \<Rightarrow> 'v option) result" where
  "giveToConsumers [] envVar incoming = Inr incoming"
| "giveToConsumers ((consumer, isPHI) # consumers) envVar incoming =
     (if isPHI then giveToConsumers consumers envVar (incoming(consumer \<mapsto> envVar)) else Inl Aborted)"

fun propagateLiveOuts ::
    "environment \<Rightarrow> (nat \<Rightarrow> 'v) \<Rightarrow> nat list \<Rightarrow> (nat \<Rightarrow> 'v option) \<Rightarrow> (nat \<Rightarrow> 'v option) result" where
  "propagateLiveOuts env envVar [] incoming = Inr incoming"
| "propagateLiveOuts env envVar (envID # envIDs) incoming =
     (case giveToConsumers (consumersOf env (getProducer env envID)) (envVar envID) incoming of
        Inl e \<Rightarrow> Inl e
      | Inr incoming \<Rightarrow> propagateLiveOuts env envVar envIDs incoming)"

definition performReductionToAllReducableLiveOutVariables ::
    "('v reduction_scc \<Rightarrow> 'v \<Rightarrow> 'v list \<Rightarrow> 'v) \<Rightarrow> ('v \<Rightarrow> 'v) \<Rightarrow> environment \<Rightarrow> env_builder \<Rightarrow>
     (nat \<Rightarrow> 'v reduction_scc option) \<Rightarrow> nat \<Rightarrow> 'v env_memory \<Rightarrow> (nat \<Rightarrow> 'v option) result" where
  "performReductionToAllReducableLiveOutVariables reduceLiveOutVariables castF env B reductionOf
     numberOfThreadsExecuted mem =
     (case collectReductions B reductionOf (envIDsOfLiveOutVars env) Map.empty of
        Inl e \<Rightarrow> Inl e
      | Inr reductions \<Rightarrow>
          propagateLiveOuts env
            (\<lambda>envID. case reductions envID of
               Some r \<Rightarrow> reduceLiveOutVariables r (castF (initialValue r))
                           (map (privateCopy mem envID) [0..<numberOfThreadsExecuted])
             | None \<Rightarrow> variableAt mem envID)
            (envIDsOfLiveOutVars env) Map.empty)"

text \<open>The conversions of a reduced value; \<open>assert(false)\<close> on any other pair of types.\<close>

datatype llvm_type = IntTy nat | FloatTy nat | OtherTy nat

datatype cast_op = NoCast | BitCast | SIToFP | FPToSI | FPCast

fun castToCorrectReducibleType :: "llvm_type \<Rightarrow> llvm_type \<Rightarrow> cast_op result" where
  "castToCorrectReducibleType valueTy targetType =
     (if valueTy = targetType then Inr NoCast
      else case (valueTy, targetType) of
        (IntTy _, IntTy _) \<Rightarrow> Inr BitCast
      | (IntTy _, FloatTy _) \<Rightarrow> Inr SIToFP
      | (FloatTy _, IntTy _) \<Rightarrow> Inr FPToSI
      | (FloatTy _, FloatTy _) \<Rightarrow> Inr FPCast
      | _ \<Rightarrow> Inl AssertionFailed)"

subsection \<open>Where live-out variables are stored\<close>

definition determineLatestPointsToInsertLiveOutStore ::
    "nat list \<Rightarrow> (nat \<Rightarrow> nat) \<Rightarrow> (nat \<Rightarrow> nat \<Rightarrow> bool) \<Rightarrow> nat list \<Rightarrow> nat \<Rightarrow> nat \<Rightarrow> bool \<Rightarrow> nat set" where
  "determineLatestPointsToInsertLiveOutStore loopExitBasicBlocks cloneOf dominates predecessorsOfExit entry
     liveOutBlock isReduced =
     (let exits = {cloneOf b | b. b \<in> set loopExitBasicBlocks \<and> (isReduced \<or> dominates liveOutBlock (cloneOf b))};
          others = (if isReduced then set predecessorsOfExit - {entry} else {});
          insertPoints = exits \<union> others
      in if insertPoints = {} then {liveOutBlock} else insertPoints)"

text \<open>
  \<open>generateCodeToStoreExitBlockIndex\<close>: the number stored at the end of each of the last blocks of the
  task; nothing when there is one only.
\<close>

definition generateCodeToStoreExitBlockIndex :: "nat list \<Rightarrow> int \<Rightarrow> (nat \<times> nat) list result" where
  "generateCodeToStoreExitBlockIndex lastBlocks exitBlockID =
     (if length lastBlocks = 1 then Inr []
      else if exitBlockID = -1 then Inl AssertionFailed
      else Inr (map (\<lambda>i. (lastBlocks ! i, i)) [0..<length lastBlocks]))"

lemma live_in_stored:
  assumes "envID \<in> set envIDs" "isIncludedEnvironmentVariable B envID"
  shows "variableAt (populateLiveInEnvironment env B valueOf envIDs mem) envID = valueOf (getProducer env envID)"
proof -
  have keep: "variableAt (populateLiveInEnvironment env B valueOf envIDs mem) envID = valueOf (getProducer env envID)"
    if "variableAt mem envID = valueOf (getProducer env envID)" for envIDs mem
    using that by (induction envIDs arbitrary: mem) auto
  show ?thesis
    using assms by (induction envIDs arbitrary: mem) (auto simp: keep)
qed

text \<open>A live-in value that is included arrives in the task.\<close>

lemma live_in_arrives:
  assumes "envID \<in> set envIDs" "\<forall>i \<in> set envIDs. isIncludedEnvironmentVariable B i"
  shows "generateCodeToLoadLiveInVariables env (populateLiveInEnvironment env B valueOf envIDs mem) envIDs liveIn
           (getProducer env envID) = Some (valueOf (getProducer env envID))"
proof -
  let ?mem = "populateLiveInEnvironment env B valueOf envIDs mem"
  have mem: "\<forall>i \<in> set envIDs. variableAt ?mem i = valueOf (getProducer env i)"
    using assms(2) live_in_stored by blast
  have keep: "generateCodeToLoadLiveInVariables env m ids liveIn p = Some (valueOf p)"
    if "\<forall>i \<in> set ids. variableAt m i = valueOf (getProducer env i)" "liveIn p = Some (valueOf p)"
    for m ids liveIn p
    using that by (induction ids arbitrary: liveIn) auto
  have "generateCodeToLoadLiveInVariables env m ids liveIn (getProducer env envID) = Some (valueOf (getProducer env envID))"
    if "\<forall>i \<in> set ids. variableAt m i = valueOf (getProducer env i)" "envID \<in> set ids" for m ids liveIn
    using that by (induction ids arbitrary: liveIn) (auto simp: keep)
  then show ?thesis using mem assms(1) by blast
qed

section \<open>The steps of induction variables\<close>

text \<open>
  The step of an induction variable: a constant or a value of the original program when there is a
  single one, otherwise the last of the instructions it is expanded into.
\<close>

datatype computed_step = ConstantStep u64 | ValueStep nat

record iv_step =
  ivName :: nat
  singleComputedStepValue :: "computed_step option"
  computationOfStepValue :: "nat list"
  phiIsPointer :: bool

datatype step_ir = StepConst u64 | StepLiveIn nat | StepClone nat | StepMul step_ir nat

record step_task =
  isAnOriginalLiveIn :: "nat \<Rightarrow> bool"
  isAnInstruction :: "nat \<Rightarrow> bool"
  hasClone :: "nat \<Rightarrow> bool"

text \<open>
  The step of one variable and the instructions cloned into the entry block for it; cloning makes the
  instructions known to the task.
\<close>

definition cloneStepOf :: "step_task \<Rightarrow> iv_step \<Rightarrow> (step_ir \<times> step_ir list \<times> step_task) result" where
  "cloneStepOf t iv =
     (let single = (case singleComputedStepValue iv of
            None \<Rightarrow> None
          | Some (ConstantStep c) \<Rightarrow> Some (StepConst c)
          | Some (ValueStep v) \<Rightarrow>
              if isAnOriginalLiveIn t v then Some (StepLiveIn v)
              else if isAnInstruction t v \<and> hasClone t v then Some (StepClone v)
              else None)
      in case single of
           Some v \<Rightarrow> Inr (v, [], t)
         | None \<Rightarrow>
             let expandedInsts = computationOfStepValue iv in
             if expandedInsts = [] then Inl AssertionFailed
             else Inr (StepClone (last expandedInsts), map StepClone expandedInsts,
                       t\<lparr>hasClone := (\<lambda>i. i \<in> set expandedInsts \<or> hasClone t i)\<rparr>))"

fun cloneSteps ::
    "step_task \<Rightarrow> iv_step list \<Rightarrow> (nat \<Rightarrow> step_ir option) \<Rightarrow> step_ir list \<Rightarrow>
     ((nat \<Rightarrow> step_ir option) \<times> step_ir list) result" where
  "cloneSteps t [] clonedStepSizeMap emitted = Inr (clonedStepSizeMap, emitted)"
| "cloneSteps t (iv # ivs) clonedStepSizeMap emitted =
     (case cloneStepOf t iv of
        Inl e \<Rightarrow> Inl e
      | Inr (v, insts, t) \<Rightarrow> cloneSteps t ivs (clonedStepSizeMap(ivName iv \<mapsto> v)) (emitted @ insts))"

text \<open>
  \<open>adjustStepValueOfPointerTypeIVToReflectPointerArithmetic\<close>, on its own copy of the map, with the
  multiplications it emits.
\<close>

fun adjustStepValueOfPointerTypeIV ::
    "nat \<Rightarrow> iv_step list \<Rightarrow> (nat \<Rightarrow> step_ir option) \<Rightarrow> step_ir list \<Rightarrow>
     (nat \<Rightarrow> step_ir option) \<times> step_ir list" where
  "adjustStepValueOfPointerTypeIV ptrSizeInBytes [] clonedStepValueMap emitted = (clonedStepValueMap, emitted)"
| "adjustStepValueOfPointerTypeIV ptrSizeInBytes (iv # ivs) clonedStepValueMap emitted =
     (case clonedStepValueMap (ivName iv) of
        None \<Rightarrow> adjustStepValueOfPointerTypeIV ptrSizeInBytes ivs clonedStepValueMap emitted
      | Some v \<Rightarrow>
          if \<not> phiIsPointer iv then adjustStepValueOfPointerTypeIV ptrSizeInBytes ivs clonedStepValueMap emitted
          else let adjustedStepValue = StepMul v ptrSizeInBytes in
            adjustStepValueOfPointerTypeIV ptrSizeInBytes ivs
              (clonedStepValueMap(ivName iv \<mapsto> adjustedStepValue)) (emitted @ [adjustedStepValue]))"

text \<open>The map is passed by value: the caller returns its own.\<close>

definition cloneIVStepValueComputation ::
    "nat \<Rightarrow> step_task \<Rightarrow> iv_step list \<Rightarrow> ((nat \<Rightarrow> step_ir option) \<times> step_ir list) result" where
  "cloneIVStepValueComputation ptrSizeInBytes t ivs =
     (case cloneSteps t ivs Map.empty [] of
        Inl e \<Rightarrow> Inl e
      | Inr (clonedStepSizeMap, emitted) \<Rightarrow>
          let (adjusted, emitted) = adjustStepValueOfPointerTypeIV ptrSizeInBytes ivs clonedStepSizeMap emitted
          in Inr (clonedStepSizeMap, emitted))"

section \<open>Inlining of calls\<close>

text \<open>
  The direct calls of a function in order, each with whether it is in the queue of calls to inline. A
  function without a body is not inlined.
\<close>

record call_graph =
  callsIn :: "nat \<Rightarrow> nat list"
  hasBody :: "nat \<Rightarrow> bool"

definition inlineCall :: "call_graph \<Rightarrow> nat \<times> bool \<Rightarrow> (nat \<times> bool) list" where
  "inlineCall G = (\<lambda>(f, queued).
     if queued \<and> hasBody G f then map (\<lambda>g. (g, False)) (callsIn G f) else [(f, False)])"

definition funcToInline :: "call_graph \<Rightarrow> (nat \<times> bool) list \<Rightarrow> nat set" where
  "funcToInline G calls =
     set (filter (hasBody G)
       (concat (map (\<lambda>(f, queued). if queued \<and> hasBody G f then callsIn G f else []) calls)))"

definition inlineLevel :: "call_graph \<Rightarrow> (nat \<times> bool) list \<Rightarrow> (nat \<times> bool) list" where
  "inlineLevel G calls =
     map (\<lambda>(f, _). (f, f \<in> funcToInline G calls)) (concat (map (inlineCall G) calls))"

text \<open>The outer loop; \<open>None\<close> is running out of fuel.\<close>

fun doNestedInlineOfCalls :: "call_graph \<Rightarrow> nat \<Rightarrow> (nat \<times> bool) list \<Rightarrow> nat list option" where
  "doNestedInlineOfCalls G fuel calls =
     (if \<not> list_ex snd calls then Some (map fst calls)
      else case fuel of
        0 \<Rightarrow> None
      | Suc fuel \<Rightarrow> doNestedInlineOfCalls G fuel (inlineLevel G calls))"

section \<open>What is proved of the steps and of inlining\<close>

lemma adjust_keeps_emitted:
  "set emitted \<subseteq> set (snd (adjustStepValueOfPointerTypeIV n ivs m emitted))"
proof (induction ivs arbitrary: m emitted)
  case (Cons iv ivs)
  show ?case
  proof (cases "m (ivName iv)")
    case (Some v)
    have "set (emitted @ [StepMul v n]) \<subseteq>
        set (snd (adjustStepValueOfPointerTypeIV n ivs (m(ivName iv \<mapsto> StepMul v n)) (emitted @ [StepMul v n])))"
      by (rule Cons.IH)
    then show ?thesis using Some Cons.IH by (auto simp: Let_def)
  qed (use Cons.IH in simp)
qed simp

lemma adjust_multiplies:
  assumes "iv \<in> set ivs" "phiIsPointer iv" "m (ivName iv) = Some v" "distinct (map ivName ivs)"
  shows "StepMul v n \<in> set (snd (adjustStepValueOfPointerTypeIV n ivs m emitted))"
  using assms
proof (induction ivs arbitrary: m emitted)
  case (Cons iv' ivs)
  show ?case
  proof (cases "iv = iv'")
    case True
    have "set (emitted @ [StepMul v n]) \<subseteq>
        set (snd (adjustStepValueOfPointerTypeIV n ivs (m(ivName iv \<mapsto> StepMul v n)) (emitted @ [StepMul v n])))"
      by (rule adjust_keeps_emitted)
    then show ?thesis using True Cons.prems by (auto simp: Let_def)
  next
    case False
    then have iv: "iv \<in> set ivs" "ivName iv' \<noteq> ivName iv" "distinct (map ivName ivs)"
      using Cons.prems by (auto simp: image_iff)
    then show ?thesis
      using Cons.IH[OF iv(1) Cons.prems(2) _ iv(3)] Cons.prems(3)
      by (auto simp: Let_def split: option.splits)
  qed
qed simp

fun hasMul :: "step_ir \<Rightarrow> bool" where
  "hasMul (StepMul _ _) = True"
| "hasMul _ = False"

lemma cloneStepOf_plain:
  assumes "cloneStepOf t iv = Inr (v, new, t')"
  shows "\<not> hasMul v"
  using assms unfolding cloneStepOf_def Let_def
  by (cases "singleComputedStepValue iv"; cases "the (singleComputedStepValue iv)")
     (force split: if_splits)+

lemma cloneSteps_plain:
  assumes "cloneSteps t ivs m emitted = Inr (steps, insts)"
    and "\<forall>x v. m x = Some v \<longrightarrow> \<not> hasMul v"
  shows "(\<forall>x v. steps x = Some v \<longrightarrow> \<not> hasMul v) \<and>
         (\<forall>x. m x \<noteq> None \<or> x \<in> ivName ` set ivs \<longrightarrow> steps x \<noteq> None)"
  using assms
proof (induction ivs arbitrary: t m emitted)
  case (Cons iv ivs)
  from Cons.prems(1) obtain v new t' where one: "cloneStepOf t iv = Inr (v, new, t')"
    and rest: "cloneSteps t' ivs (m(ivName iv \<mapsto> v)) (emitted @ new) = Inr (steps, insts)"
    by (auto split: sum.splits prod.splits)
  have "\<not> hasMul v"
    using one by (rule cloneStepOf_plain)
  then have "\<forall>x w. (m(ivName iv \<mapsto> v)) x = Some w \<longrightarrow> \<not> hasMul w" using Cons.prems(2) by auto
  from Cons.IH[OF rest this] show ?case by auto
qed auto

text \<open>
  The adjustment of the steps of pointers is lost. When the steps are cloned, the multiplication by
  the size of a pointer is emitted for each induction variable whose PHI node is a pointer, and the
  step that is returned for it is the one that was multiplied, not the product.
\<close>
theorem pointer_step_not_adjusted:
  assumes "cloneIVStepValueComputation ptrSize t ivs = Inr (steps, emitted)"
    and "iv \<in> set ivs" and "phiIsPointer iv" and "distinct (map ivName ivs)"
  shows "\<exists>v. steps (ivName iv) = Some v \<and> \<not> hasMul v \<and> StepMul v ptrSize \<in> set emitted"
proof -
  obtain emitted' where cl: "cloneSteps t ivs Map.empty [] = Inr (steps, emitted')"
    and em: "emitted = snd (adjustStepValueOfPointerTypeIV ptrSize ivs steps emitted')"
    using assms(1) by (auto simp: cloneIVStepValueComputation_def split: sum.splits prod.splits)
  have "(\<forall>x v. steps x = Some v \<longrightarrow> \<not> hasMul v) \<and> (\<forall>x. x \<in> ivName ` set ivs \<longrightarrow> steps x \<noteq> None)"
    using cloneSteps_plain[OF cl] by simp
  moreover have "ivName iv \<in> ivName ` set ivs" using assms(2) by simp
  ultimately obtain v where v: "steps (ivName iv) = Some v" "\<not> hasMul v" by blast
  then show ?thesis
    using adjust_multiplies[where m = steps and v = v and iv = iv] assms(2-4) em by blast
qed

text \<open>A loop over an array with a counter and a pointer that moves by a loop-invariant step.\<close>

definition array_ivs :: "iv_step list" where
  "array_ivs = [\<lparr>ivName = 0, singleComputedStepValue = Some (ConstantStep 1), computationOfStepValue = [],
                 phiIsPointer = False\<rparr>,
                \<lparr>ivName = 1, singleComputedStepValue = None, computationOfStepValue = [20, 21],
                 phiIsPointer = True\<rparr>]"

definition array_task :: step_task where
  "array_task = \<lparr>isAnOriginalLiveIn = (\<lambda>v. False), isAnInstruction = (\<lambda>v. True), hasClone = (\<lambda>v. False)\<rparr>"

lemma array_steps:
  "cloneIVStepValueComputation 8 array_task array_ivs =
     Inr ([0 \<mapsto> StepConst 1, 1 \<mapsto> StepClone 21],
          [StepClone 20, StepClone 21, StepMul (StepClone 21) 8])"
  by (simp add: cloneIVStepValueComputation_def array_ivs_def array_task_def cloneStepOf_def Let_def)

lemma pointer_step_not_adjusted_witness:
  "\<exists>v. [0 \<mapsto> StepConst 1, 1 \<mapsto> StepClone 21] (1 :: nat) = Some v \<and> \<not> hasMul v \<and>
       StepMul v 8 \<in> set [StepClone 20, StepClone 21, StepMul (StepClone 21) 8]"
  using pointer_step_not_adjusted[OF array_steps, of "array_ivs ! 1"] by (simp add: array_ivs_def)

text \<open>
  One level of inlining queues only callees of what it inlined: ranks go down along acyclic calls.
\<close>

lemma inlineLevel_queued:
  "(f, True) \<in> set (inlineLevel G calls) \<Longrightarrow>
     \<exists>c. (c, True) \<in> set calls \<and> hasBody G c \<and> f \<in> set (callsIn G c) \<and> hasBody G f"
  by (fastforce simp: inlineLevel_def funcToInline_def split: if_splits)

lemma doNestedInlineOfCalls_unfold:
  "doNestedInlineOfCalls G (Suc fuel) calls =
     (if \<not> list_ex snd calls then Some (map fst calls)
      else doNestedInlineOfCalls G fuel (inlineLevel G calls))"
  "doNestedInlineOfCalls G 0 calls = (if \<not> list_ex snd calls then Some (map fst calls) else None)"
  by simp_all

declare doNestedInlineOfCalls.simps [simp del]

lemma inlining_ends:
  assumes "\<forall>c f. hasBody G c \<and> hasBody G f \<and> f \<in> set (callsIn G c) \<longrightarrow> rank f < rank c"
    and "\<forall>f. (f, True) \<in> set calls \<longrightarrow> rank f < fuel"
  shows "doNestedInlineOfCalls G fuel calls \<noteq> None"
  using assms(2)
proof (induction fuel arbitrary: calls)
  case 0
  then have "\<not> list_ex snd calls" by (fastforce simp: list_ex_iff)
  then show ?case by (simp add: doNestedInlineOfCalls_unfold)
next
  case (Suc fuel)
  have "rank f < fuel" if queued: "(f, True) \<in> set (inlineLevel G calls)" for f
  proof -
    obtain c where "(c, True) \<in> set calls" "hasBody G c" "f \<in> set (callsIn G c)" "hasBody G f"
      using inlineLevel_queued[OF queued] by blast
    then have "rank f < rank c" "rank c < Suc fuel" using assms(1) Suc.prems by blast+
    then show ?thesis by simp
  qed
  then have "doNestedInlineOfCalls G fuel (inlineLevel G calls) \<noteq> None" by (intro Suc.IH) blast
  then show ?case unfolding doNestedInlineOfCalls_unfold by simp
qed

lemma recursive_call_stays:
  assumes "(f, True) \<in> set calls" "hasBody G f" "f \<in> set (callsIn G f)"
  shows "(f, True) \<in> set (inlineLevel G calls)"
proof -
  have "(f, False) \<in> set (inlineCall G (f, True))" using assms by (auto simp: inlineCall_def)
  then have "(f, False) \<in> set (concat (map (inlineCall G) calls))" using assms(1) by auto
  moreover have "f \<in> funcToInline G calls" using assms by (auto simp: funcToInline_def)
  ultimately show ?thesis unfolding inlineLevel_def by force
qed

lemma recursive_call_never_ends:
  assumes "(f, True) \<in> set calls" "hasBody G f" "f \<in> set (callsIn G f)"
  shows "doNestedInlineOfCalls G fuel calls = None"
  using assms(1)
proof (induction fuel arbitrary: calls)
  case 0
  then have "list_ex snd calls" by (force simp: list_ex_iff)
  then show ?case by (simp add: doNestedInlineOfCalls_unfold)
next
  case (Suc fuel)
  have "list_ex snd calls" using Suc.prems by (force simp: list_ex_iff)
  then show ?case
    using Suc.IH[OF recursive_call_stays[OF Suc.prems assms(2,3)]]
    unfolding doNestedInlineOfCalls_unfold by simp
qed

text \<open>
  The inlining of nested calls ends when the functions it meets do not call each other in a cycle,
  after at most one level for each step down the call graph; it never ends once a function that calls
  itself is in the queue.
\<close>
theorem nested_inlining_ends:
  assumes "\<forall>f. (f, True) \<in> set calls \<longrightarrow> rank f < fuel"
  shows "((\<forall>c f. hasBody G c \<and> hasBody G f \<and> f \<in> set (callsIn G c) \<longrightarrow> rank f < rank c) \<longrightarrow>
            (\<exists>inlined. doNestedInlineOfCalls G fuel calls = Some inlined)) \<and>
         ((\<exists>f. (f, True) \<in> set calls \<and> hasBody G f \<and> f \<in> set (callsIn G f)) \<longrightarrow>
            (\<forall>n. doNestedInlineOfCalls G n calls = None))"
  using inlining_ends[OF _ assms] recursive_call_never_ends by (metis not_Some_eq)

text \<open>A wait function (1) that calls a lock function (2), and a function (3) that calls itself.\<close>

definition lock_calls :: call_graph where
  "lock_calls = \<lparr>callsIn = (\<lambda>f. if f = 1 then [2, 4] else []), hasBody = (\<lambda>f. f \<le> 2)\<rparr>"

definition self_calls :: call_graph where
  "self_calls = \<lparr>callsIn = (\<lambda>f. if f = 3 then [4, 3] else []), hasBody = (\<lambda>f. f = 3)\<rparr>"

lemma nested_inlining_ends_witness:
  "(\<exists>inlined. doNestedInlineOfCalls lock_calls 9 [(5, False), (1, True)] = Some inlined) \<and>
   (\<forall>n. doNestedInlineOfCalls self_calls n [(5, False), (3, True)] = None)"
proof -
  have "\<exists>inlined. doNestedInlineOfCalls lock_calls 9 [(5, False), (1, True)] = Some inlined"
    using nested_inlining_ends[of "[(5, False), (1, True)]" "\<lambda>f. 8 - f" 9 lock_calls]
    by (auto simp: lock_calls_def split: if_splits)
  moreover have "\<forall>n. doNestedInlineOfCalls self_calls n [(5, False), (3, True)] = None"
    using nested_inlining_ends[of "[(5, False), (3, True)]" "\<lambda>f. f" 4 self_calls]
    by (simp add: self_calls_def)
  ultimately show ?thesis by blast
qed

end
