(* ===== verification/Reduction_Correct.thy ===== *)
theory Reduction_Correct
  imports Doall_Program Parallelization_Technique
begin

text \<open>
  Reductions of a DOALL loop, from the code of the compiler to the threads of the runtime: each task
  accumulates its iterations into a private copy that starts at the identity, the caller accumulates
  the private copies into the initial value, and the value it hands on is the one the sequential loop
  computes.
\<close>

section \<open>What the code of the tasks does\<close>

text \<open>
  One call of a task: the stores at its entry, its iterations, and the stores at its exit.
  \<open>contribution envID v\<close> is what the iteration with the values \<open>v\<close> accumulates into the variable;
  \<open>otherValue\<close> and \<open>executedLast\<close> are the last value of the producer of a variable that is not reduced
  and whether the task executes the block for the last iteration.
\<close>

definition accumulated ::
    "(nat \<Rightarrow> 'v) \<Rightarrow> 'v reduction_scc \<Rightarrow> ('i \<Rightarrow> 'v) \<Rightarrow> 'i list \<Rightarrow> 'v" where
  "accumulated incoming r contribution vs =
     foldl (\<lambda>acc v. accumulateOp r acc (contribution v)) (incoming (phiThatAccumulates r)) vs"

definition callLiveOuts ::
    "env_builder \<Rightarrow> (nat \<Rightarrow> 'v reduction_scc option) \<Rightarrow> nat list \<Rightarrow> (nat \<Rightarrow> 'v) \<Rightarrow> (nat \<Rightarrow> 'i \<Rightarrow> 'v) \<Rightarrow>
     (doall_call \<Rightarrow> nat \<Rightarrow> 'v) \<Rightarrow> (doall_call \<Rightarrow> bool) \<Rightarrow> (doall_call \<Rightarrow> 'i list) \<Rightarrow> doall_call \<Rightarrow>
     'v env_memory \<Rightarrow> 'v env_memory result" where
  "callLiveOuts B reductionOf envIDs incoming contribution otherValue executedLast valuesOf call mem =
     (let inst = unat (fst (snd (snd call))) in
      case storesAtEntry B reductionOf inst envIDs mem of
        Inl e \<Rightarrow> Inl e
      | Inr mem \<Rightarrow>
          Inr (storesAtExit B inst (executedLast call)
            (\<lambda>envID. case reductionOf envID of
               Some r \<Rightarrow> if hasVariableBeenReduced B envID
                         then accumulated incoming r (contribution envID) (valuesOf call)
                         else otherValue call envID
             | None \<Rightarrow> otherValue call envID)
            envIDs mem))"

text \<open>All calls, in the order in which they end; each works on its own private copies.\<close>

fun runCalls ::
    "(doall_call \<Rightarrow> 'v env_memory \<Rightarrow> 'v env_memory result) \<Rightarrow> doall_call list \<Rightarrow> 'v env_memory \<Rightarrow>
     'v env_memory result" where
  "runCalls call_of [] mem = Inr mem"
| "runCalls call_of (call # calls) mem =
     (case call_of call mem of Inl e \<Rightarrow> Inl e | Inr mem \<Rightarrow> runCalls call_of calls mem)"

section \<open>Stores\<close>

lemma setReducable_ok:
  assumes "\<forall>i \<in> set ids. hasVariableBeenReduced B i \<longrightarrow> reductionOf i \<noteq> None"
  shows "\<exists>incoming'. setReducableVariablesToBeginAtIdentityValue B reductionOf ids incoming = Inr incoming'"
  using assms
proof (induction ids arbitrary: incoming)
  case (Cons i ids)
  have prem: "\<forall>i \<in> set ids. hasVariableBeenReduced B i \<longrightarrow> reductionOf i \<noteq> None" using Cons.prems by simp
  show ?case using Cons.IH[OF prem] Cons.prems by (cases "reductionOf i") auto
qed simp

lemma setReducable_value:
  assumes "setReducableVariablesToBeginAtIdentityValue B reductionOf ids incoming = Inr incoming'"
    and "i \<in> set ids" "hasVariableBeenReduced B i" "reductionOf i = Some r"
    and "\<forall>j r'. reductionOf j = Some r' \<and> phiThatAccumulates r' = phiThatAccumulates r \<longrightarrow>
           identityValue r' = identityValue r"
  shows "incoming' (phiThatAccumulates r) = identityValue r"
proof -
  have keep: "incoming' (phiThatAccumulates r) = identityValue r"
    if "setReducableVariablesToBeginAtIdentityValue B reductionOf ids incoming = Inr incoming'"
      "incoming (phiThatAccumulates r) = identityValue r" for ids incoming
    using that
    by (induction ids arbitrary: incoming) (auto split: if_splits option.splits simp: assms(5))
  show ?thesis
    using assms(1,2)
  proof (induction ids arbitrary: incoming)
    case (Cons j ids)
    show ?case
    proof (cases "i = j")
      case True
      then show ?thesis using Cons.prems(1) assms(3,4) by (intro keep[of ids "incoming(phiThatAccumulates r := identityValue r)"]) simp_all
    next
      case False
      then show ?thesis using Cons by (auto split: if_splits option.splits)
    qed
  qed simp
qed

lemma storesAtEntry_ok:
  assumes "\<forall>i \<in> set ids. hasVariableBeenReduced B i \<longrightarrow> reductionOf i \<noteq> None"
  shows "\<exists>mem'. storesAtEntry B reductionOf inst ids mem = Inr mem' \<and>
           (\<forall>i t. t \<noteq> inst \<longrightarrow> privateCopy mem' i t = privateCopy mem i t)"
  using assms
proof (induction ids arbitrary: mem)
  case (Cons j ids)
  show ?case
  proof (cases "hasVariableBeenReduced B j")
    case True
    then obtain r where "reductionOf j = Some r" using Cons.prems by auto
    moreover obtain mem' where "storesAtEntry B reductionOf inst ids (mem\<lparr>privateCopy := (privateCopy mem)
        (j := (privateCopy mem j)(inst := identityValue r))\<rparr>) = Inr mem'"
      "\<forall>i t. t \<noteq> inst \<longrightarrow> privateCopy mem' i t =
         ((privateCopy mem)(j := (privateCopy mem j)(inst := identityValue r))) i t"
      using Cons.IH[of "mem\<lparr>privateCopy := (privateCopy mem)(j := (privateCopy mem j)(inst := identityValue r))\<rparr>"]
        Cons.prems by auto
    ultimately show ?thesis using True by auto
  qed (use Cons in auto)
qed simp

lemma storesAtExit_other:
  "t \<noteq> inst \<Longrightarrow> privateCopy (storesAtExit B inst isLast lastValue ids mem) i t = privateCopy mem i t"
  by (induction ids arbitrary: mem) auto

lemma storesAtExit_own:
  assumes "i \<in> set ids" "hasVariableBeenReduced B i"
  shows "privateCopy (storesAtExit B inst isLast lastValue ids mem) i inst = lastValue i"
proof -
  have keep: "privateCopy (storesAtExit B inst isLast lastValue ids mem) i inst = lastValue i"
    if "privateCopy mem i inst = lastValue i" for ids mem isLast
    using that by (induction ids arbitrary: mem) auto
  show ?thesis using assms by (induction ids arbitrary: mem) (auto simp: keep)
qed

text \<open>One call leaves the accumulated value in the private copy of its instance, and no other is touched.\<close>

lemma callLiveOuts_ok:
  assumes "\<forall>i \<in> set ids. hasVariableBeenReduced B i \<longrightarrow> reductionOf i \<noteq> None"
  shows "\<exists>mem'. callLiveOuts B reductionOf ids incoming contribution other isLast valuesOf call mem = Inr mem' \<and>
    (\<forall>i t. t \<noteq> unat (fst (snd (snd call))) \<longrightarrow> privateCopy mem' i t = privateCopy mem i t) \<and>
    (\<forall>i r. i \<in> set ids \<and> hasVariableBeenReduced B i \<and> reductionOf i = Some r \<longrightarrow>
       privateCopy mem' i (unat (fst (snd (snd call)))) =
         accumulated incoming r (contribution i) (valuesOf call))"
proof -
  let ?inst = "unat (fst (snd (snd call)))"
  obtain mem1 where m: "storesAtEntry B reductionOf ?inst ids mem = Inr mem1"
    "\<forall>i t. t \<noteq> ?inst \<longrightarrow> privateCopy mem1 i t = privateCopy mem i t"
    using storesAtEntry_ok[OF assms] by blast
  show ?thesis
    by (simp add: callLiveOuts_def m storesAtExit_other storesAtExit_own)
qed

lemma runCalls_ok:
  assumes "\<forall>i \<in> set ids. hasVariableBeenReduced B i \<longrightarrow> reductionOf i \<noteq> None"
    and "i \<in> set ids" "hasVariableBeenReduced B i" "reductionOf i = Some r"
    and "call \<in> set calls \<or> privateCopy mem i (unat (fst (snd (snd call)))) = accumulated incoming r (contribution i) (valuesOf call)"
    and "\<forall>call' \<in> set calls. fst (snd (snd call')) = fst (snd (snd call)) \<longrightarrow> call' = call"
  shows "\<exists>mem'. runCalls (callLiveOuts B reductionOf ids incoming contribution other isLast valuesOf) calls mem = Inr mem' \<and>
    privateCopy mem' i (unat (fst (snd (snd call)))) = accumulated incoming r (contribution i) (valuesOf call)"
  using assms(5,6)
proof (induction calls arbitrary: mem)
  case (Cons c calls)
  let ?inst = "\<lambda>call :: doall_call. unat (fst (snd (snd call)))"
  obtain mem1 where m: "callLiveOuts B reductionOf ids incoming contribution other isLast valuesOf c mem = Inr mem1"
    "\<forall>i t. t \<noteq> ?inst c \<longrightarrow> privateCopy mem1 i t = privateCopy mem i t"
    "privateCopy mem1 i (?inst c) = accumulated incoming r (contribution i) (valuesOf c)"
    using callLiveOuts_ok[OF assms(1), of incoming contribution other isLast valuesOf c mem] assms(2-4) by blast
  have "call \<in> set calls \<or> privateCopy mem1 i (?inst call) = accumulated incoming r (contribution i) (valuesOf call)"
  proof (cases "c = call")
    case False
    then have "?inst call \<noteq> ?inst c" using Cons.prems(2) by (auto simp: word_unat_eq_iff)
    then show ?thesis using False Cons.prems(1) m(2) by auto
  qed (use m(3) in simp)
  from Cons.IH[OF this] Cons.prems(2) m(1) show ?case by auto
qed simp

section \<open>The reduction\<close>

lemma collectReductions_ok:
  assumes "\<forall>i \<in> set ids. hasVariableBeenReduced B i \<longrightarrow> reductionOf i \<noteq> None"
  shows "\<exists>found. collectReductions B reductionOf ids sofar = Inr found \<and>
    (\<forall>i. i \<in> set ids \<and> hasVariableBeenReduced B i \<longrightarrow> found i = reductionOf i) \<and>
    (\<forall>i. i \<notin> set ids \<or> \<not> hasVariableBeenReduced B i \<longrightarrow> found i = sofar i)"
  using assms
proof (induction ids arbitrary: sofar)
  case (Cons j ids)
  show ?case
  proof (cases "hasVariableBeenReduced B j")
    case True
    then obtain r where r: "reductionOf j = Some r" using Cons.prems by auto
    have prem: "\<forall>i \<in> set ids. hasVariableBeenReduced B i \<longrightarrow> reductionOf i \<noteq> None" using Cons.prems by simp
    obtain found where red: "collectReductions B reductionOf ids (sofar(j \<mapsto> r)) = Inr found"
      "\<forall>i. i \<in> set ids \<and> hasVariableBeenReduced B i \<longrightarrow> found i = reductionOf i"
      "\<forall>i. i \<notin> set ids \<or> \<not> hasVariableBeenReduced B i \<longrightarrow> found i = (sofar(j \<mapsto> r)) i"
      using Cons.IH[OF prem, of "sofar(j \<mapsto> r)"] by blast
    then have "i \<in> set (j # ids) \<and> hasVariableBeenReduced B i \<longrightarrow> found i = reductionOf i" for i
      using r by (cases "i \<in> set ids") auto
    moreover have "i \<notin> set (j # ids) \<or> \<not> hasVariableBeenReduced B i \<longrightarrow> found i = sofar i" for i
      using red(3) True by auto
    ultimately show ?thesis using True r red(1) by simp
  next
    case False
    have prem: "\<forall>i \<in> set ids. hasVariableBeenReduced B i \<longrightarrow> reductionOf i \<noteq> None" using Cons.prems by simp
    obtain found where "collectReductions B reductionOf ids sofar = Inr found"
      "\<forall>i. i \<in> set ids \<and> hasVariableBeenReduced B i \<longrightarrow> found i = reductionOf i"
      "\<forall>i. i \<notin> set ids \<or> \<not> hasVariableBeenReduced B i \<longrightarrow> found i = sofar i"
      using Cons.IH[OF prem, of sofar] by blast
    then show ?thesis using False by (intro exI[of _ found]) auto
  qed
qed simp

lemma giveToConsumers_ok:
  assumes "\<forall>p \<in> set consumers. snd p"
  shows "\<exists>incoming'. giveToConsumers consumers v incoming = Inr incoming' \<and>
    (\<forall>c. incoming' c = (if c \<in> fst ` set consumers then Some v else incoming c))"
  using assms
proof (induction consumers arbitrary: incoming)
  case (Cons p consumers)
  obtain c b where p: "p = (c, b)" by force
  have prem: "\<forall>p \<in> set consumers. snd p" using Cons.prems by simp
  obtain incoming' where "giveToConsumers consumers v (incoming(c \<mapsto> v)) = Inr incoming'"
    "\<forall>c'. incoming' c' = (if c' \<in> fst ` set consumers then Some v else (incoming(c \<mapsto> v)) c')"
    using Cons.IH[OF prem, of "incoming(c \<mapsto> v)"] by blast
  then show ?case using p Cons.prems by (intro exI[of _ incoming']) auto
qed simp

lemma propagateLiveOuts_ok:
  assumes "\<forall>i \<in> set ids. \<forall>p \<in> set (consumersOf lenv (getProducer lenv i)). snd p"
    and "\<forall>j \<in> set ids. j \<noteq> i \<longrightarrow> c \<notin> fst ` set (consumersOf lenv (getProducer lenv j))"
    and "c \<in> fst ` set (consumersOf lenv (getProducer lenv i))"
    and "i \<in> set ids \<or> incoming c = Some (envVar i)"
  shows "\<exists>out. propagateLiveOuts lenv envVar ids incoming = Inr out \<and> out c = Some (envVar i)"
  using assms
proof (induction ids arbitrary: incoming)
  case (Cons j ids)
  obtain incoming' where inc: "giveToConsumers (consumersOf lenv (getProducer lenv j)) (envVar j) incoming = Inr incoming'"
    "\<forall>c. incoming' c = (if c \<in> fst ` set (consumersOf lenv (getProducer lenv j)) then Some (envVar j) else incoming c)"
    using giveToConsumers_ok[of "consumersOf lenv (getProducer lenv j)" "envVar j" incoming] Cons.prems(1) by auto
  have "i \<in> set ids \<or> incoming' c = Some (envVar i)"
    using Cons.prems(2-4) inc(2) by (cases "j = i") auto
  then show ?case using Cons.IH[of incoming'] Cons.prems inc(1) by auto
qed simp

lemma performReduction_ok:
  assumes "\<forall>i \<in> set (envIDsOfLiveOutVars lenv). hasVariableBeenReduced B i \<longrightarrow> reductionOf i \<noteq> None"
    and "\<forall>i \<in> set (envIDsOfLiveOutVars lenv). \<forall>p \<in> set (consumersOf lenv (getProducer lenv i)). snd p"
    and "i \<in> set (envIDsOfLiveOutVars lenv)" "hasVariableBeenReduced B i" "reductionOf i = Some r"
    and "\<forall>j \<in> set (envIDsOfLiveOutVars lenv). j \<noteq> i \<longrightarrow> c \<notin> fst ` set (consumersOf lenv (getProducer lenv j))"
    and "c \<in> fst ` set (consumersOf lenv (getProducer lenv i))"
  shows "\<exists>out. performReductionToAllReducableLiveOutVariables reduce castF lenv B reductionOf n mem = Inr out \<and>
    out c = Some (reduce r (castF (initialValue r)) (map (privateCopy mem i) [0..<n]))"
proof -
  obtain sofar where red: "collectReductions B reductionOf (envIDsOfLiveOutVars lenv) Map.empty = Inr sofar"
    "\<forall>j. j \<in> set (envIDsOfLiveOutVars lenv) \<and> hasVariableBeenReduced B j \<longrightarrow> sofar j = reductionOf j"
    using collectReductions_ok[OF assms(1), of Map.empty] by blast
  then have "sofar i = Some r" using assms(3-5) by simp
  then show ?thesis
    unfolding performReductionToAllReducableLiveOutVariables_def red(1) sum.case
    using propagateLiveOuts_ok[OF assms(2,6,7) disjI1[OF assms(3)]] by fastforce
qed

section \<open>Accumulating in parts\<close>

text \<open>The laws of an operator a reduction may reorder: those of a commutative monoid.\<close>

definition reductionLaws :: "('v \<Rightarrow> 'v \<Rightarrow> 'v) \<Rightarrow> 'v \<Rightarrow> bool" where
  "reductionLaws f e \<longleftrightarrow>
     (\<forall>a b c. f (f a b) c = f a (f b c)) \<and> (\<forall>a b. f a b = f b a) \<and> (\<forall>a. f a e = a)"

lemma foldl_from_identity:
  assumes "reductionLaws f e"
  shows "f a (foldl (\<lambda>acc v. f acc (g v)) e xs) = foldl (\<lambda>acc v. f acc (g v)) a xs"
proof -
  have "f a (foldl (\<lambda>acc v. f acc (g v)) b xs) = foldl (\<lambda>acc v. f acc (g v)) (f a b) xs" for a b
    using assms unfolding reductionLaws_def by (induction xs arbitrary: b) auto
  then show ?thesis using assms by (simp add: reductionLaws_def)
qed

lemma foldl_parts:
  assumes "reductionLaws f e"
  shows "foldl f a (map (\<lambda>xs. foldl (\<lambda>acc v. f acc (g v)) e xs) parts) =
    foldl (\<lambda>acc v. f acc (g v)) a (concat parts)"
  by (induction parts arbitrary: a) (simp_all add: foldl_from_identity[OF assms])

lemma foldl_mset:
  assumes "reductionLaws f e" "mset xs = mset ys"
  shows "foldl (\<lambda>acc v. f acc (g v)) a xs = foldl (\<lambda>acc v. f acc (g v)) a ys"
proof -
  have "f (f a x) y = f (f a y) x" for a x y using assms(1) unfolding reductionLaws_def by metis
  then have "fold (\<lambda>v acc. f acc (g v)) xs = fold (\<lambda>v acc. f acc (g v)) ys"
    by (intro fold_multiset_equiv assms(2)) (auto simp: fun_eq_iff)
  then show ?thesis by (simp add: foldl_conv_fold)
qed

section \<open>A reduced variable has the value of the sequential loop\<close>

lemma private_copies:
  assumes "mset calls = image_mset (\<lambda>t. (loop, e, of_nat t, ucast (n :: u32), csz)) (mset_set {..<unat n})"
    and "\<forall>i \<in> set ids. hasVariableBeenReduced B i \<longrightarrow> reductionOf i \<noteq> None"
    and "i \<in> set ids" "hasVariableBeenReduced B i" "reductionOf i = Some r" "t < unat n"
    and "runCalls (callLiveOuts B reductionOf ids incoming contribution other isLast valuesOf) calls mem = Inr mem'"
  shows "privateCopy mem' i t =
    accumulated incoming r (contribution i) (valuesOf (loop, e, of_nat t, ucast n, csz))"
proof -
  let ?call = "\<lambda>t. (loop, e, of_nat t :: u64, ucast n :: u64, csz)"
  have "set_mset (mset calls) = ?call ` {..<unat n}" unfolding assms(1) by simp
  then have calls: "set calls = ?call ` {..<unat n}" by simp
  have same: "\<forall>c \<in> set calls. fst (snd (snd c)) = fst (snd (snd (?call t))) \<longrightarrow> c = ?call t"
  proof (intro ballI impI)
    fix c assume "c \<in> set calls" and eq: "fst (snd (snd c)) = fst (snd (snd (?call t)))"
    then obtain t' where "c = ?call t'" unfolding calls by blast
    with eq show "c = ?call t" by (simp only: fst_conv snd_conv)
  qed
  have "?call t \<in> set calls" unfolding calls using assms(6) by blast
  from runCalls_ok[OF assms(2-5) disjI1[OF this] same, where mem = mem and incoming = incoming and
      contribution = contribution and valuesOf = valuesOf and other = other and isLast = isLast]
  have "privateCopy mem' i (unat (fst (snd (snd (?call t))))) =
      accumulated incoming r (contribution i) (valuesOf (?call t))"
    unfolding assms(7) by (elim exE conjE) (simp only: sum.inject)
  moreover have "t < 2 ^ 64" using assms(6) u32_unat_bound[of n] by simp
  then have "unat (fst (snd (snd (?call t)))) = t" by (simp add: unsigned_of_nat take_bit_nat_eq_self)
  ultimately show ?thesis by (simp only:)
qed

lemma runCalls_ends:
  assumes "\<forall>i \<in> set ids. hasVariableBeenReduced B i \<longrightarrow> reductionOf i \<noteq> None"
  shows "\<exists>mem'. runCalls (callLiveOuts B reductionOf ids incoming contribution other isLast valuesOf) calls mem = Inr mem'"
proof (induction calls arbitrary: mem)
  case (Cons c calls)
  obtain mem1 where "callLiveOuts B reductionOf ids incoming contribution other isLast valuesOf c mem = Inr mem1"
    using callLiveOuts_ok[OF assms] by blast
  then show ?case using Cons.IH[of mem1] by simp
qed simp

text \<open>
  C3: reductions are correct end to end. When a dispatch of a DOALL loop has returned, the value that
  each use of a reduced live-out variable receives after the loop is the one the sequential loop
  accumulates, iteration after iteration, starting from the initial value; whatever the number of
  cores, the chunk size and the interleaving. The operator must be associative and commutative with
  the identity NOELLE gives, the contribution of an iteration must depend on its induction and
  periodic variables only, and NOELLE's reduction code folds the private copies in order.
\<close>
theorem doall_reduction:
  assumes "doall_step\<^sup>*\<^sup>* (doall_start (NoelleRuntime_new cores hw)) s" and "d \<in> set (finished s)"
    and "(loop, e, inst, n, csz) \<in> set (log (d_fj d))"
    and "utility_ok U updated" and "loop_ok L updated" and "periods_positive V L"
    and "run_ok V P L updated N (unat (d_granted d)) (unat csz)"
    and "\<forall>r x vs. reduce r x vs = foldl (accumulateOp r) x vs"
    and "\<forall>i \<in> set (envIDsOfLiveOutVars lenv). hasVariableBeenReduced B i \<longrightarrow> reductionOf i \<noteq> None"
    and "\<forall>i \<in> set (envIDsOfLiveOutVars lenv). \<forall>p \<in> set (consumersOf lenv (getProducer lenv i)). snd p"
    and "i \<in> set (envIDsOfLiveOutVars lenv)" and "hasVariableBeenReduced B i" and "reductionOf i = Some r"
    and "\<forall>j r'. reductionOf j = Some r' \<and> phiThatAccumulates r' = phiThatAccumulates r \<longrightarrow>
           identityValue r' = identityValue r"
    and "reductionLaws (accumulateOp r) (identityValue r)"
    and "c \<in> fst ` set (consumersOf lenv (getProducer lenv i))"
    and "\<forall>j \<in> set (envIDsOfLiveOutVars lenv). j \<noteq> i \<longrightarrow> c \<notin> fst ` set (consumersOf lenv (getProducer lenv j))"
  shows "\<exists>code incoming mem' out.
    rewireLoopToIterateChunks U L = Inr code \<and>
    setReducableVariablesToBeginAtIdentityValue B reductionOf (envIDsOfLiveOutVars lenv) incoming0 = Inr incoming \<and>
    runCalls (callLiveOuts B reductionOf (envIDsOfLiveOutVars lenv) incoming contribution other isLast
      (runCall V P L code (Suc N) st)) (log (d_fj d)) mem = Inr mem' \<and>
    performReductionToAllReducableLiveOutVariables reduce castF lenv B reductionOf (unat (d_granted d)) mem' = Inr out \<and>
    out c = Some (foldl (\<lambda>acc v. accumulateOp r acc (contribution i v)) (castF (initialValue r))
                   (map (sequentialValues V L) [0..<N]))"
proof -
  let ?T = "unat (d_granted d)" and ?ids = "envIDsOfLiveOutVars lenv"
  obtain code where code: "rewireLoopToIterateChunks U L = Inr code"
    using rewire_code_ok[OF assms(4,5)] by blast
  let ?run = "runCall V P L code (Suc N) st"
  let ?acc = "\<lambda>x vs. foldl (\<lambda>acc v. accumulateOp r acc (contribution i v)) x vs"
  obtain loop' e' where lg: "mset (log (d_fj d)) =
      image_mset (\<lambda>i. (loop', e', of_nat i, ucast (d_granted d), csz)) (mset_set {..<?T})"
    using dispatch_log[OF assms(1-3)] by blast
  let ?call = "\<lambda>t. (loop', e', of_nat t :: u64, ucast (d_granted d) :: u64, csz)"
  obtain incoming where inc:
    "setReducableVariablesToBeginAtIdentityValue B reductionOf ?ids incoming0 = Inr incoming"
    using setReducable_ok[OF assms(9)] by blast
  obtain mem' where mem': "runCalls (callLiveOuts B reductionOf ?ids incoming contribution other isLast ?run)
      (log (d_fj d)) mem = Inr mem'"
    using runCalls_ends[OF assms(9)] by blast
  have "privateCopy mem' i t = ?acc (identityValue r) (?run (?call t))" if "t < ?T" for t
    using private_copies[OF lg assms(9,11-13) that mem']
      setReducable_value[OF inc assms(11-14)] by (simp add: accumulated_def)
  then have copies: "map (privateCopy mem' i) [0..<?T] = map (?acc (identityValue r)) (map (\<lambda>t. ?run (?call t)) [0..<?T])"
    by simp
  obtain out where out: "performReductionToAllReducableLiveOutVariables reduce castF lenv B reductionOf ?T mem' = Inr out"
    "out c = Some (reduce r (castF (initialValue r)) (map (privateCopy mem' i) [0..<?T]))"
    using performReduction_ok[OF assms(9-13,17,16)] by blast
  have "reduce r (castF (initialValue r)) (map (privateCopy mem' i) [0..<?T]) =
      ?acc (castF (initialValue r)) (concat (map (\<lambda>t. ?run (?call t)) [0..<?T]))"
    unfolding copies assms(8)[rule_format] by (rule foldl_parts[OF assms(15)])
  also have "\<dots> = ?acc (castF (initialValue r)) (map (sequentialValues V L) [0..<N])"
    by (rule foldl_mset[OF assms(15) calls_execute_loop[OF assms(4-7) code]])
  finally have "out c = Some (?acc (castF (initialValue r)) (map (sequentialValues V L) [0..<N]))"
    using out(2) by simp
  then show ?thesis using code inc mem' out(1)
    by (intro exI[of _ code] exI[of _ incoming] exI[of _ mem'] exI[of _ out] conjI)
qed

section \<open>An example\<close>

text \<open>The loop \<open>for (i = 5; i < 12; i += 2) sum += i;\<close> with \<open>sum\<close> = 100 before it.\<close>

definition sum_env :: environment where
  "sum_env = \<lparr>envIDsOfLiveInVars = [], envIDsOfLiveOutVars = [0], getProducer = (\<lambda>i. 30),
              consumersOf = (\<lambda>p. [(40, True)])\<rparr>"

definition sum_builder :: env_builder where
  "sum_builder = \<lparr>isIncludedEnvironmentVariable = (\<lambda>i. True), hasVariableBeenReduced = (\<lambda>i. True)\<rparr>"

definition sum_reduction :: "u64 reduction_scc" where
  "sum_reduction = \<lparr>phiThatAccumulates = 50, identityValue = 0, initialValue = 100, accumulateOp = (+)\<rparr>"

definition fold_copies :: "u64 reduction_scc \<Rightarrow> u64 \<Rightarrow> u64 list \<Rightarrow> u64" where
  "fold_copies r x vs = foldl (accumulateOp r) x vs"

lemma doall_reduction_witness:
  "\<exists>(s :: doall_sys) d incoming code mem' out. finished s = [d] \<and>
     runCalls (callLiveOuts sum_builder (\<lambda>i. Some sum_reduction) [0] incoming (\<lambda>i v. hd v)
       (\<lambda>call i. 0) (\<lambda>call. False) (runCall no_values (\<lambda>x. 12 \<le> x) (count_loop []) code 5 any_state))
       (log (d_fj d)) \<lparr>variableAt = (\<lambda>i. 77), privateCopy = (\<lambda>i t. 77)\<rparr> = Inr mem' \<and>
     performReductionToAllReducableLiveOutVariables fold_copies (\<lambda>x. x) sum_env sum_builder
       (\<lambda>i. Some sum_reduction) 1 mem' = Inr out \<and>
     out 40 = Some 132"
proof -
  obtain s d where s: "doall_step\<^sup>*\<^sup>* (doall_start (NoelleRuntime_new None 2)) s"
    "finished s = [d]" "d_granted d = 1" "log (d_fj d) = [(7, 9, 0, 1, 8)]"
    using doall_example_finished by blast
  have d: "d \<in> set (finished s)" and l: "(7, 9, 0, 1, 8) \<in> set (log (d_fj d))" using s by simp_all
  have run: "run_ok no_values (\<lambda>x. 12 \<le> x) (count_loop []) False 4 (unat (d_granted d)) (unat (8 :: u64))"
    using one_core_run_ok s(3) by simp
  have pos: "periods_positive no_values (count_loop [])" by (simp add: periods_positive_def count_loop_def)
  have vals: "map (sequentialValues no_values (count_loop [])) [0..<4] = [[5], [7], [9], [11]]" by code_simp
  have one: "unat (d_granted d) = 1" using s(3) by simp
  have laws: "reductionLaws (accumulateOp sum_reduction) (identityValue sum_reduction)"
    by (simp add: reductionLaws_def sum_reduction_def ac_simps)
  obtain code incoming mem' out where
    "runCalls (callLiveOuts sum_builder (\<lambda>i. Some sum_reduction) (envIDsOfLiveOutVars sum_env) incoming (\<lambda>i v. hd v)
       (\<lambda>call i. 0) (\<lambda>call. False) (runCall no_values (\<lambda>x. 12 \<le> x) (count_loop []) code (Suc 4) any_state))
       (log (d_fj d)) \<lparr>variableAt = (\<lambda>i. 77), privateCopy = (\<lambda>i t. 77)\<rparr> = Inr mem'"
    "performReductionToAllReducableLiveOutVariables fold_copies (\<lambda>x. x) sum_env sum_builder
       (\<lambda>i. Some sum_reduction) (unat (d_granted d)) mem' = Inr out"
    "out 40 = Some (foldl (\<lambda>acc v. accumulateOp sum_reduction acc (hd v)) (initialValue sum_reduction)
       (map (sequentialValues no_values (count_loop [])) [0..<4]))"
    using doall_reduction[OF s(1) d l plain_utility_ok count_loop_ok(1) pos run, of fold_copies sum_env sum_builder
        "\<lambda>i. Some sum_reduction" 0 sum_reduction 40 "\<lambda>i. 0" "\<lambda>i v. hd v" "\<lambda>call i. 0" "\<lambda>call. False" any_state
        "\<lparr>variableAt = (\<lambda>i. 77), privateCopy = (\<lambda>i t. 77)\<rparr>" "\<lambda>x. x"] laws
    by (simp add: fold_copies_def sum_env_def sum_builder_def) blast
  then show ?thesis using s(2) unfolding vals one
    by (intro exI[of _ s] exI[of _ d] exI[of _ incoming] exI[of _ code] exI[of _ mem'] exI[of _ out])
      (simp add: sum_env_def sum_reduction_def)
qed

end
