(* ===== verification/Dswp_Stages.thy ===== *)
theory Dswp_Stages
  imports Gino_Prelude
begin

text \<open>
  The stages of a DSWP pipeline and the queues between them (\<open>dswp/src/DSWP_clonableSCCs.cpp\<close>,
  \<open>Pipeline.cpp\<close>, \<open>Queue.cpp\<close>): which components are copied into every stage that needs them, and a
  queue for each value that one stage computes and another one uses.
\<close>

section \<open>Components that can be cloned\<close>

text \<open>
  What \<open>getClonableSCCs\<close> asks of a component: its instructions by kind, its successors in the SCCDAG,
  its dependences, and for each loop-carried one whether its two ends are directly in the loop.
\<close>

datatype inst_kind = CmpInst | Terminator | PHINode | GetElementPtrInst | CastInst | OtherInst

record scc_info =
  internalInsts :: "inst_kind list"
  outDegree :: nat
  doesHaveMemoryDependencesWithin :: bool
  isLoopIterationSCC :: bool
  loopCarriedDependences :: "(bool \<times> bool) list"

definition isClonableSCC :: "scc_info \<Rightarrow> bool" where
  "isClonableSCC s =
     (let onlyTerminators = list_all (\<lambda>i. i = CmpInst \<or> i = Terminator) (internalInsts s) in
      if onlyTerminators then True
      else if outDegree s > 0 then
        (if length (internalInsts s) = 1 \<and> hd (internalInsts s) \<in> {PHINode, GetElementPtrInst, CastInst} then True
         else if \<not> doesHaveMemoryDependencesWithin s then
           (if isLoopIterationSCC s then True
            else list_all (\<lambda>(fromIsTop, toIsTop). \<not> fromIsTop \<and> \<not> toIsTop) (loopCarriedDependences s))
         else False)
      else False)"

section \<open>Stages\<close>

text \<open>
  The SCCDAG: its components and, for each one, the components it depends on with the dependences
  between their instructions (producer, consumer, kind).
\<close>

datatype dep_kind = ControlDependence | VariableDependence | MemoryDependence

record sccdag =
  nodes :: "nat list"
  incomingEdges :: "nat \<Rightarrow> (nat \<times> (nat \<times> nat \<times> dep_kind) list) list"
  canBeCloned :: "nat \<Rightarrow> bool"

record stage =
  stageSCCs :: "nat list"
  clonableSCCs :: "nat set"

text \<open>\<open>generateStagesFromPartitionedSCCs\<close>: one stage per set, and the stage of each component.\<close>

definition assignStage :: "nat \<Rightarrow> nat list \<Rightarrow> (nat \<Rightarrow> nat option) \<Rightarrow> nat \<Rightarrow> nat option" where
  "assignStage i sccs sccToStage = fold (\<lambda>scc m. m(scc \<mapsto> i)) sccs sccToStage"

definition generateStagesFromPartitionedSCCs :: "nat list list \<Rightarrow> stage list \<times> (nat \<Rightarrow> nat option)" where
  "generateStagesFromPartitionedSCCs depthOrdered =
     (map (\<lambda>sccs. \<lparr>stageSCCs = sccs, clonableSCCs = {}\<rparr>) depthOrdered,
      fold (\<lambda>i. assignStage i (depthOrdered ! i)) [0..<length depthOrdered] Map.empty)"

text \<open>The loop over the incoming edges of one component.\<close>

fun scanIncoming ::
    "(nat \<Rightarrow> bool) \<Rightarrow> nat list \<Rightarrow> nat list \<Rightarrow> nat set \<Rightarrow> nat set \<Rightarrow> nat list \<times> nat set \<times> nat set" where
  "scanIncoming clonable [] dependentSCCNodes visitedNodes cloned = (dependentSCCNodes, visitedNodes, cloned)"
| "scanIncoming clonable (fromSCC # sccs) dependentSCCNodes visitedNodes cloned =
     (if fromSCC \<in> visitedNodes then scanIncoming clonable sccs dependentSCCNodes visitedNodes cloned
      else scanIncoming clonable sccs (dependentSCCNodes @ [fromSCC]) (insert fromSCC visitedNodes)
             (if clonable fromSCC then insert fromSCC cloned else cloned))"

text \<open>The traversal for one stage; \<open>None\<close> is running out of fuel.\<close>

fun collectClonable ::
    "sccdag \<Rightarrow> nat \<Rightarrow> nat list \<Rightarrow> nat set \<Rightarrow> nat set \<Rightarrow> nat set option" where
  "collectClonable D fuel [] visitedNodes cloned = Some cloned"
| "collectClonable D 0 (scc # sccs) visitedNodes cloned = None"
| "collectClonable D (Suc fuel) (scc # sccs) visitedNodes cloned =
     (let (sccs, visitedNodes, cloned) =
            scanIncoming (canBeCloned D) (map fst (incomingEdges D scc)) sccs visitedNodes cloned
      in collectClonable D fuel sccs visitedNodes cloned)"

fun addClonableSCCsToStages :: "sccdag \<Rightarrow> nat \<Rightarrow> stage list \<Rightarrow> stage list option" where
  "addClonableSCCsToStages D fuel [] = Some []"
| "addClonableSCCsToStages D fuel (task # tasks) =
     (case collectClonable D fuel (stageSCCs task) {} (clonableSCCs task) of
        None \<Rightarrow> None
      | Some cloned \<Rightarrow>
          (case addClonableSCCsToStages D fuel tasks of
             None \<Rightarrow> None
           | Some tasks \<Rightarrow> Some (task\<lparr>clonableSCCs := cloned\<rparr> # tasks)))"

text \<open>\<open>isCompleteAndValidStageStructure\<close>.\<close>

fun noSCCTwice :: "nat list \<Rightarrow> nat set \<Rightarrow> nat set option" where
  "noSCCTwice [] allSCCs = Some allSCCs"
| "noSCCTwice (scc # sccs) allSCCs = (if scc \<in> allSCCs then None else noSCCTwice sccs (insert scc allSCCs))"

fun collectAllSCCs :: "stage list \<Rightarrow> nat set \<Rightarrow> nat set option" where
  "collectAllSCCs [] allSCCs = Some allSCCs"
| "collectAllSCCs (task # tasks) allSCCs =
     (case noSCCTwice (stageSCCs task) allSCCs of
        None \<Rightarrow> None
      | Some allSCCs \<Rightarrow> collectAllSCCs tasks (allSCCs \<union> clonableSCCs task))"

definition isCompleteAndValidStageStructure :: "sccdag \<Rightarrow> stage list \<Rightarrow> bool" where
  "isCompleteAndValidStageStructure D tasks =
     (case collectAllSCCs tasks {} of
        None \<Rightarrow> False
      | Some allSCCs \<Rightarrow> list_all (\<lambda>scc. canBeCloned D scc \<or> scc \<in> allSCCs) (nodes D))"

section \<open>Queues\<close>

record queue_info =
  queueProducer :: nat
  queueConsumers :: "nat set"
  fromStage :: nat
  toStage :: nat
  bitLength :: nat
  isMemoryDependence :: bool

text \<open>The queues, and what each stage (by number) records of them.\<close>

record queue_state =
  queues :: "queue_info list"
  producerToQueues :: "nat \<Rightarrow> nat \<Rightarrow> nat list"
  pushValueQueues :: "nat \<Rightarrow> nat set"
  popValueQueues :: "nat \<Rightarrow> nat set"
  producedPopQueue :: "nat \<Rightarrow> nat \<Rightarrow> nat option"

definition no_queues :: queue_state where
  "no_queues = \<lparr>queues = [], producerToQueues = (\<lambda>_ _. []), pushValueQueues = (\<lambda>_. {}),
                popValueQueues = (\<lambda>_. {}), producedPopQueue = (\<lambda>_ _. None)\<rparr>"

text \<open>
  \<open>registerQueue\<close>. \<open>bits\<close> gives the width of the type of a producer, \<open>supported\<close> the sizes for which the
  runtime has a queue.
\<close>

definition registerQueue ::
    "(nat \<Rightarrow> nat) \<Rightarrow> (nat \<Rightarrow> bool) \<Rightarrow> nat \<Rightarrow> nat \<Rightarrow> nat \<Rightarrow> nat \<Rightarrow> bool \<Rightarrow> queue_state \<Rightarrow> queue_state result" where
  "registerQueue bits supported src dst producer consumer isMem s =
     (let found = find (\<lambda>q. toStage (queues s ! q) = dst) (producerToQueues s src producer);
          queueIndex = (case found of Some q \<Rightarrow> q | None \<Rightarrow> length (queues s));
          created = (case found of
             Some _ \<Rightarrow> Inr s
           | None \<Rightarrow>
               if supported (bits producer)
               then Inr (s\<lparr>queues := queues s @ [\<lparr>queueProducer = producer, queueConsumers = {consumer},
                              fromStage = src, toStage = dst, bitLength = bits producer, isMemoryDependence = isMem\<rparr>],
                           producerToQueues := (producerToQueues s)
                             (src := (producerToQueues s src)(producer := producerToQueues s src producer @ [queueIndex]))\<rparr>)
               else Inl Aborted)
      in case created of
           Inl e \<Rightarrow> Inl e
         | Inr s \<Rightarrow> Inr (s\<lparr>
             pushValueQueues := (pushValueQueues s)(src := insert queueIndex (pushValueQueues s src)),
             popValueQueues := (popValueQueues s)(dst := insert queueIndex (popValueQueues s dst)),
             producedPopQueue := (producedPopQueue s)(dst := (producedPopQueue s dst)(producer \<mapsto> queueIndex)),
             queues := (queues s)[queueIndex := (queues s ! queueIndex)\<lparr>
               queueConsumers := insert consumer (queueConsumers (queues s ! queueIndex)),
               fromStage := src, toStage := dst\<rparr>]\<rparr>))"

text \<open>
  \<open>collectDataAndMemoryQueueInfo\<close>: the loops over the dependences, edges, components and stages. A
  component without a stage is a null pointer, which the first value it sends dereferences.
\<close>

fun collectDependences ::
    "(nat \<Rightarrow> nat) \<Rightarrow> (nat \<Rightarrow> bool) \<Rightarrow> nat \<Rightarrow> nat \<Rightarrow> (nat \<times> nat \<times> dep_kind) list \<Rightarrow> queue_state \<Rightarrow> queue_state result" where
  "collectDependences bits supported src dst [] s = Inr s"
| "collectDependences bits supported src dst ((producer, consumer, kind) # deps) s =
     (if kind = ControlDependence then collectDependences bits supported src dst deps s
      else if kind = MemoryDependence then Inl AssertionFailed
      else case registerQueue bits supported src dst producer consumer False s of
        Inl e \<Rightarrow> Inl e
      | Inr s \<Rightarrow> collectDependences bits supported src dst deps s)"

fun collectEdges ::
    "sccdag \<Rightarrow> (nat \<Rightarrow> nat option) \<Rightarrow> (nat \<Rightarrow> nat) \<Rightarrow> (nat \<Rightarrow> bool) \<Rightarrow> nat \<Rightarrow>
     (nat \<times> (nat \<times> nat \<times> dep_kind) list) list \<Rightarrow> queue_state \<Rightarrow> queue_state result" where
  "collectEdges D sccToStage bits supported dst [] s = Inr s"
| "collectEdges D sccToStage bits supported dst ((fromSCC, deps) # edges) s =
     (if canBeCloned D fromSCC then collectEdges D sccToStage bits supported dst edges s
      else case sccToStage fromSCC of
        None \<Rightarrow>
          (case find (\<lambda>(producer, consumer, kind). kind \<noteq> ControlDependence) deps of
             None \<Rightarrow> collectEdges D sccToStage bits supported dst edges s
           | Some (producer, consumer, kind) \<Rightarrow>
               Inl (if kind = MemoryDependence then AssertionFailed else UndefinedBehaviour))
      | Some src \<Rightarrow>
          if src = dst then collectEdges D sccToStage bits supported dst edges s
          else case collectDependences bits supported src dst deps s of
            Inl e \<Rightarrow> Inl e
          | Inr s \<Rightarrow> collectEdges D sccToStage bits supported dst edges s)"

fun collectSCCs ::
    "sccdag \<Rightarrow> (nat \<Rightarrow> nat option) \<Rightarrow> (nat \<Rightarrow> nat) \<Rightarrow> (nat \<Rightarrow> bool) \<Rightarrow> nat \<Rightarrow> nat list \<Rightarrow> queue_state \<Rightarrow>
     queue_state result" where
  "collectSCCs D sccToStage bits supported dst [] s = Inr s"
| "collectSCCs D sccToStage bits supported dst (scc # sccs) s =
     (case collectEdges D sccToStage bits supported dst (incomingEdges D scc) s of
        Inl e \<Rightarrow> Inl e
      | Inr s \<Rightarrow> collectSCCs D sccToStage bits supported dst sccs s)"

definition sccsOfStage :: "stage \<Rightarrow> nat list" where
  "sccsOfStage task = sorted_list_of_set (clonableSCCs task \<union> set (stageSCCs task))"

fun collectStages ::
    "sccdag \<Rightarrow> (nat \<Rightarrow> nat option) \<Rightarrow> (nat \<Rightarrow> nat) \<Rightarrow> (nat \<Rightarrow> bool) \<Rightarrow> nat \<Rightarrow> stage list \<Rightarrow> queue_state \<Rightarrow>
     queue_state result" where
  "collectStages D sccToStage bits supported dst [] s = Inr s"
| "collectStages D sccToStage bits supported dst (task # tasks) s =
     (case collectSCCs D sccToStage bits supported dst (sccsOfStage task) s of
        Inl e \<Rightarrow> Inl e
      | Inr s \<Rightarrow> collectStages D sccToStage bits supported (Suc dst) tasks s)"

definition collectDataAndMemoryQueueInfo ::
    "sccdag \<Rightarrow> (nat \<Rightarrow> nat option) \<Rightarrow> (nat \<Rightarrow> nat) \<Rightarrow> (nat \<Rightarrow> bool) \<Rightarrow> stage list \<Rightarrow> queue_state \<Rightarrow> queue_state result" where
  "collectDataAndMemoryQueueInfo D sccToStage bits supported tasks s =
     collectStages D sccToStage bits supported 0 tasks s"

text \<open>
  \<open>areQueuesAcyclical\<close>; its only use, in an assertion of \<open>apply\<close>, is commented out. It compares the
  IDs of the tasks with their positions. A stage is its position here, \<open>taskID\<close> gives the IDs.
\<close>

definition areQueuesAcyclical :: "(nat \<Rightarrow> nat) \<Rightarrow> nat \<Rightarrow> queue_state \<Rightarrow> bool" where
  "areQueuesAcyclical taskID numStages s =
     list_all (\<lambda>i. (\<forall>q \<in> pushValueQueues s i. \<not> taskID (toStage (queues s ! q)) \<le> i) \<and>
                   (\<forall>q \<in> popValueQueues s i. \<not> taskID (fromStage (queues s ! q)) \<ge> i)) [0..<numStages]"

section \<open>The clonable components of a stage\<close>

definition dependsOn :: "sccdag \<Rightarrow> (nat \<times> nat) set" where
  "dependsOn D = {(p, n). p \<in> fst ` set (incomingEdges D n)}"

lemma scanIncoming_result:
  "\<exists>new. scanIncoming clonable ps queue V cloned =
       (queue @ new, V \<union> set ps, cloned \<union> {p \<in> set ps - V. clonable p}) \<and>
     set new = set ps - V \<and> length new = card (set ps - V)"
proof (induction ps arbitrary: queue V cloned)
  case (Cons p ps)
  show ?case
  proof (cases "p \<in> V")
    case True
    then have "set (p # ps) - V = set ps - V" by auto
    then show ?thesis using Cons[of queue V cloned] True by (auto simp: insert_absorb)
  next
    case False
    obtain new where new: "scanIncoming clonable ps (queue @ [p]) (insert p V)
        (if clonable p then insert p cloned else cloned) =
        ((queue @ [p]) @ new, insert p V \<union> set ps,
         (if clonable p then insert p cloned else cloned) \<union> {q \<in> set ps - insert p V. clonable q})"
      "set new = set ps - insert p V" "length new = card (set ps - insert p V)"
      using Cons.IH by blast
    have split: "set (p # ps) - V = insert p (set ps - insert p V)" using False by auto
    have "scanIncoming clonable (p # ps) queue V cloned =
        (queue @ (p # new), V \<union> set (p # ps), cloned \<union> {q \<in> set (p # ps) - V. clonable q})"
      using new(1) False by (auto simp: split)
    moreover have "length (p # new) = card (set (p # ps) - V)" using new(3) split by simp
    ultimately show ?thesis using new(2) split by (intro exI[of _ "p # new"]) auto
  qed
qed simp

lemma collectClonable_visits:
  assumes "collectClonable D fuel queue V cloned = Some R"
  shows "\<exists>W. V \<subseteq> W \<and> R = cloned \<union> {p \<in> W - V. canBeCloned D p} \<and>
    (\<forall>n \<in> set queue \<union> (W - V). \<forall>p. (p, n) \<in> dependsOn D \<longrightarrow> p \<in> W) \<and>
    (\<forall>p \<in> W - V. \<exists>n \<in> set queue. (p, n) \<in> (dependsOn D)\<^sup>+)"
  using assms
proof (induction D fuel queue V cloned rule: collectClonable.induct)
  case (1 D fuel V cloned)
  then show ?case by (intro exI[of _ V]) auto
next
  case (3 D fuel scc queue V cloned)
  let ?ps = "map fst (incomingEdges D scc)"
  obtain new where scan: "scanIncoming (canBeCloned D) ?ps queue V cloned =
      (queue @ new, V \<union> set ?ps, cloned \<union> {p \<in> set ?ps - V. canBeCloned D p})" "set new = set ?ps - V"
    using scanIncoming_result[of "canBeCloned D" ?ps queue V cloned] by blast
  have preds: "p \<in> set ?ps \<longleftrightarrow> (p, scc) \<in> dependsOn D" for p by (simp add: dependsOn_def)
  obtain W where W: "V \<union> set ?ps \<subseteq> W"
    "R = (cloned \<union> {p \<in> set ?ps - V. canBeCloned D p}) \<union> {p \<in> W - (V \<union> set ?ps). canBeCloned D p}"
    "\<forall>n \<in> set (queue @ new) \<union> (W - (V \<union> set ?ps)). \<forall>p. (p, n) \<in> dependsOn D \<longrightarrow> p \<in> W"
    "\<forall>p \<in> W - (V \<union> set ?ps). \<exists>n \<in> set (queue @ new). (p, n) \<in> (dependsOn D)\<^sup>+"
    using 3(1)[OF scan(1)[symmetric] refl refl] 3(2) scan(1) by (auto simp: Let_def)
  have "\<exists>n \<in> set (scc # queue). (p, n) \<in> (dependsOn D)\<^sup>+" if "p \<in> W - V" for p
  proof (cases "p \<in> set ?ps")
    case True
    then show ?thesis using preds by auto
  next
    case False
    then obtain n where n: "n \<in> set (queue @ new)" "(p, n) \<in> (dependsOn D)\<^sup>+" using W(4) \<open>p \<in> W - V\<close> by blast
    show ?thesis
    proof (cases "n \<in> set queue")
      case False
      then have "(n, scc) \<in> dependsOn D" using n(1) scan(2) preds by auto
      then show ?thesis using n(2) by (auto intro: trancl_into_trancl)
    qed (use n in auto)
  qed
  moreover have "R = cloned \<union> {p \<in> W - V. canBeCloned D p}" using W(1,2) by auto
  moreover have "\<forall>n \<in> set (scc # queue) \<union> (W - V). \<forall>p. (p, n) \<in> dependsOn D \<longrightarrow> p \<in> W"
    using W(1,3) scan(2) preds by auto
  ultimately show ?case using W(1) by (intro exI[of _ W]) auto
qed simp

lemma collectClonable_closure:
  assumes "collectClonable D fuel sccs {} {} = Some R"
  shows "R = {p. canBeCloned D p \<and> (\<exists>n \<in> set sccs. (p, n) \<in> (dependsOn D)\<^sup>+)}"
proof -
  obtain W where W: "R = {p \<in> W. canBeCloned D p}"
    "\<forall>n \<in> set sccs \<union> W. \<forall>p. (p, n) \<in> dependsOn D \<longrightarrow> p \<in> W"
    "\<forall>p \<in> W. \<exists>n \<in> set sccs. (p, n) \<in> (dependsOn D)\<^sup>+"
    using collectClonable_visits[OF assms] by auto
  have "p \<in> W" if "(p, n) \<in> (dependsOn D)\<^sup>+" "n \<in> set sccs" for p n
    using that by (induction rule: converse_trancl_induct) (use W(2) in auto)
  then show ?thesis using W(1,3) by blast
qed

lemma collectClonable_ends:
  assumes "finite U" "\<forall>n. fst ` set (incomingEdges D n) \<subseteq> U" "length queue + card (U - V) \<le> fuel"
  shows "collectClonable D fuel queue V cloned \<noteq> None"
  using assms(2,3)
proof (induction D fuel queue V cloned rule: collectClonable.induct)
  case (3 D fuel scc queue V cloned)
  let ?ps = "map fst (incomingEdges D scc)"
  obtain new where scan: "scanIncoming (canBeCloned D) ?ps queue V cloned =
      (queue @ new, V \<union> set ?ps, cloned \<union> {p \<in> set ?ps - V. canBeCloned D p})"
    "length new = card (set ?ps - V)"
    using scanIncoming_result[of "canBeCloned D" ?ps queue V cloned] by blast
  have sub: "set ?ps \<subseteq> U" using 3(2) by auto
  have "U - V = (set ?ps - V) \<union> (U - (V \<union> set ?ps))" using sub by auto
  then have "card (U - V) = card (set ?ps - V) + card (U - (V \<union> set ?ps))"
    using card_Un_disjoint[of "set ?ps - V" "U - (V \<union> set ?ps)"] assms(1) by fastforce
  then have "length (queue @ new) + card (U - (V \<union> set ?ps)) \<le> fuel" using 3(3) scan(2) by simp
  then show ?case using 3(1)[OF scan(1)[symmetric] refl refl] 3(2) scan(1) by (simp add: Let_def)
qed simp_all

lemma addClonable_stages:
  assumes "addClonableSCCsToStages D fuel tasks = Some tasks'"
  shows "length tasks' = length tasks \<and>
    (\<forall>i < length tasks. stageSCCs (tasks' ! i) = stageSCCs (tasks ! i) \<and>
       collectClonable D fuel (stageSCCs (tasks ! i)) {} (clonableSCCs (tasks ! i)) = Some (clonableSCCs (tasks' ! i)))"
  using assms
proof (induction D fuel tasks arbitrary: tasks' rule: addClonableSCCsToStages.induct)
  case (2 D fuel task tasks)
  from "2.prems" obtain cloned rest where c: "collectClonable D fuel (stageSCCs task) {} (clonableSCCs task) = Some cloned"
    "addClonableSCCsToStages D fuel tasks = Some rest" "tasks' = task\<lparr>clonableSCCs := cloned\<rparr> # rest"
    by (auto split: option.splits)
  from "2.IH"[OF c(1,2)] c show ?case by (auto simp: nth_Cons split: nat.splits)
qed simp

section \<open>The queues that are registered\<close>

text \<open>
  The invariant of the queues: each one connects two different stages, is recorded by both and under
  its producer, and is the only one for its producer and stages; \<open>J\<close> holds of every pair of stages
  connected.
\<close>

definition queue_inv :: "(nat \<Rightarrow> nat \<Rightarrow> bool) \<Rightarrow> queue_state \<Rightarrow> bool" where
  "queue_inv J s \<longleftrightarrow>
     (\<forall>q < length (queues s). let i = queues s ! q in
        fromStage i \<noteq> toStage i \<and> J (fromStage i) (toStage i) \<and>
        q \<in> pushValueQueues s (fromStage i) \<and> q \<in> popValueQueues s (toStage i) \<and>
        q \<in> set (producerToQueues s (fromStage i) (queueProducer i))) \<and>
     (\<forall>i. \<forall>q \<in> pushValueQueues s i. q < length (queues s) \<and> fromStage (queues s ! q) = i) \<and>
     (\<forall>i. \<forall>q \<in> popValueQueues s i. q < length (queues s) \<and> toStage (queues s ! q) = i) \<and>
     (\<forall>i p. \<forall>q \<in> set (producerToQueues s i p).
        q < length (queues s) \<and> fromStage (queues s ! q) = i \<and> queueProducer (queues s ! q) = p) \<and>
     (\<forall>q < length (queues s). \<forall>q' < length (queues s).
        queueProducer (queues s ! q) = queueProducer (queues s ! q') \<and>
        fromStage (queues s ! q) = fromStage (queues s ! q') \<and>
        toStage (queues s ! q) = toStage (queues s ! q') \<longrightarrow> q = q')"

text \<open>There is a queue for the use of a value of one stage in another.\<close>

definition has_queue :: "queue_state \<Rightarrow> nat \<Rightarrow> nat \<Rightarrow> nat \<Rightarrow> nat \<Rightarrow> bool" where
  "has_queue s src dst producer consumer \<longleftrightarrow>
     (\<exists>q < length (queues s). queueProducer (queues s ! q) = producer \<and> fromStage (queues s ! q) = src \<and>
        toStage (queues s ! q) = dst \<and> consumer \<in> queueConsumers (queues s ! q))"

text \<open>A step keeps the invariant and the queues there are, and provides the queues of \<open>C\<close>.\<close>

definition registers ::
    "(nat \<Rightarrow> nat \<Rightarrow> bool) \<Rightarrow> (nat \<times> nat \<times> nat \<times> nat) set \<Rightarrow> queue_state \<Rightarrow> queue_state \<Rightarrow> bool" where
  "registers J C s s' \<longleftrightarrow>
     (queue_inv J s \<longrightarrow> queue_inv J s' \<and>
        (\<forall>src dst p c. has_queue s src dst p c \<or> (src, dst, p, c) \<in> C \<longrightarrow> has_queue s' src dst p c))"

lemma registers_refl: "registers J {} s s"
  by (simp add: registers_def)

lemma registers_trans: "registers J C s s' \<Longrightarrow> registers J C' s' s'' \<Longrightarrow> registers J (C \<union> C') s s''"
  by (auto simp: registers_def)

lemma registers_weaken: "registers J C s s' \<Longrightarrow> C' \<subseteq> C \<Longrightarrow> registers J C' s s'"
  by (auto simp: registers_def)

lemma registerQueue_new:
  assumes "find (\<lambda>q. toStage (queues s ! q) = dst) (producerToQueues s src p) = None"
    and "registerQueue bits supported src dst p c isMem s = Inr s'"
  shows "queues s' = queues s @ [\<lparr>queueProducer = p, queueConsumers = {c}, fromStage = src, toStage = dst,
                                  bitLength = bits p, isMemoryDependence = isMem\<rparr>]"
    and "producerToQueues s' = (producerToQueues s)(src := (producerToQueues s src)
                                 (p := producerToQueues s src p @ [length (queues s)]))"
    and "pushValueQueues s' = (pushValueQueues s)(src := insert (length (queues s)) (pushValueQueues s src))"
    and "popValueQueues s' = (popValueQueues s)(dst := insert (length (queues s)) (popValueQueues s dst))"
  using assms by (auto simp: registerQueue_def Let_def split: if_splits)

lemma registerQueue_old:
  assumes "find (\<lambda>q. toStage (queues s ! q) = dst) (producerToQueues s src p) = Some q"
    and "registerQueue bits supported src dst p c isMem s = Inr s'"
  shows "queues s' = (queues s)[q := (queues s ! q)\<lparr>queueConsumers := insert c (queueConsumers (queues s ! q)),
                                                    fromStage := src, toStage := dst\<rparr>]"
    and "producerToQueues s' = producerToQueues s"
    and "pushValueQueues s' = (pushValueQueues s)(src := insert q (pushValueQueues s src))"
    and "popValueQueues s' = (popValueQueues s)(dst := insert q (popValueQueues s dst))"
  using assms by (auto simp: registerQueue_def Let_def)

lemma registerQueue_registers_old:
  assumes find: "find (\<lambda>q. toStage (queues s ! q) = dst) (producerToQueues s src p) = Some q"
    and reg: "registerQueue bits supported src dst p c isMem s = Inr s'"
  shows "registers J {(src, dst, p, c)} s s'"
  unfolding registers_def
proof (intro impI)
  assume inv: "queue_inv J s"
  have "q \<in> set (producerToQueues s src p)" "toStage (queues s ! q) = dst"
    using find by (auto simp: find_Some_iff)
  then have q: "q < length (queues s)" "fromStage (queues s ! q) = src" "toStage (queues s ! q) = dst"
    "queueProducer (queues s ! q) = p"
    using inv unfolding queue_inv_def by blast+
  note new = registerQueue_old[OF find reg]
  have len: "length (queues s') = length (queues s)" by (simp add: new(1))
  have same: "queueProducer (queues s' ! j) = queueProducer (queues s ! j)"
    "fromStage (queues s' ! j) = fromStage (queues s ! j)" "toStage (queues s' ! j) = toStage (queues s ! j)"
    "queueConsumers (queues s ! j) \<subseteq> queueConsumers (queues s' ! j)" if "j < length (queues s)" for j
    using that q by (auto simp: new(1) nth_list_update)
  have "q \<in> pushValueQueues s src" "q \<in> popValueQueues s dst"
    using inv q unfolding queue_inv_def Let_def by blast+
  then have sets: "pushValueQueues s' = pushValueQueues s" "popValueQueues s' = popValueQueues s"
    by (auto simp: new(3,4) insert_absorb)
  have "queue_inv J s'"
    using inv unfolding queue_inv_def Let_def len sets new(2) by (simp add: same)
  moreover have "has_queue s' src' dst' p' c'" if "has_queue s src' dst' p' c'" for src' dst' p' c'
    using that same unfolding has_queue_def len by blast
  moreover have "c \<in> queueConsumers (queues s' ! q)" using q(1) by (simp add: new(1))
  then have "has_queue s' src dst p c" using same q unfolding has_queue_def len by blast
  ultimately show "queue_inv J s' \<and> (\<forall>src' dst' p' c'. has_queue s src' dst' p' c' \<or>
      (src', dst', p', c') \<in> {(src, dst, p, c)} \<longrightarrow> has_queue s' src' dst' p' c')" by blast
qed

lemma registerQueue_registers_new:
  assumes find: "find (\<lambda>q. toStage (queues s ! q) = dst) (producerToQueues s src p) = None"
    and reg: "registerQueue bits supported src dst p c isMem s = Inr s'"
    and src: "src \<noteq> dst" "J src dst"
  shows "registers J {(src, dst, p, c)} s s'"
  unfolding registers_def
proof (intro impI)
  assume inv: "queue_inv J s"
  note new = registerQueue_new[OF find reg]
  let ?n = "length (queues s)"
  have len: "length (queues s') = Suc ?n" by (simp add: new(1))
  have old: "queues s' ! j = queues s ! j" if "j < ?n" for j using that by (simp add: new(1) nth_append)
  have last: "queueProducer (queues s' ! ?n) = p" "fromStage (queues s' ! ?n) = src"
    "toStage (queues s' ! ?n) = dst" "queueConsumers (queues s' ! ?n) = {c}" by (simp_all add: new(1))
  have none: "\<not> (queueProducer (queues s ! j) = p \<and> fromStage (queues s ! j) = src \<and> toStage (queues s ! j) = dst)"
    if "j < ?n" for j
  proof
    assume j: "queueProducer (queues s ! j) = p \<and> fromStage (queues s ! j) = src \<and> toStage (queues s ! j) = dst"
    then have "j \<in> set (producerToQueues s src p)" using inv that unfolding queue_inv_def Let_def by blast
    then show False using find j by (auto simp: find_None_iff)
  qed
  have each: "fromStage (queues s' ! j) \<noteq> toStage (queues s' ! j) \<and> J (fromStage (queues s' ! j)) (toStage (queues s' ! j)) \<and>
      j \<in> pushValueQueues s' (fromStage (queues s' ! j)) \<and> j \<in> popValueQueues s' (toStage (queues s' ! j)) \<and>
      j \<in> set (producerToQueues s' (fromStage (queues s' ! j)) (queueProducer (queues s' ! j)))" if "j < Suc ?n" for j
  proof (cases "j = ?n")
    case True
    then show ?thesis using last src by (simp add: new(2-4))
  next
    case False
    then have j: "j < ?n" using that by simp
    have "fromStage (queues s ! j) \<noteq> toStage (queues s ! j) \<and> J (fromStage (queues s ! j)) (toStage (queues s ! j)) \<and>
      j \<in> pushValueQueues s (fromStage (queues s ! j)) \<and> j \<in> popValueQueues s (toStage (queues s ! j)) \<and>
      j \<in> set (producerToQueues s (fromStage (queues s ! j)) (queueProducer (queues s ! j)))"
      using inv j unfolding queue_inv_def Let_def by blast
    then show ?thesis unfolding old[OF j] new(2-4) by auto
  qed
  have push: "j < Suc ?n \<and> fromStage (queues s' ! j) = i" if "j \<in> pushValueQueues s' i" for i j
    using that inv last old unfolding queue_inv_def new(3) by (auto split: if_splits simp: less_Suc_eq)
  have pop: "j < Suc ?n \<and> toStage (queues s' ! j) = i" if "j \<in> popValueQueues s' i" for i j
    using that inv last old unfolding queue_inv_def new(4) by (auto split: if_splits simp: less_Suc_eq)
  have prod: "j < Suc ?n \<and> fromStage (queues s' ! j) = i \<and> queueProducer (queues s' ! j) = p'"
    if "j \<in> set (producerToQueues s' i p')" for i p' j
    using that inv last old unfolding queue_inv_def new(2) by (auto split: if_splits simp: less_Suc_eq)
  have unique: "j = j'" if u: "j < Suc ?n" "j' < Suc ?n" "queueProducer (queues s' ! j) = queueProducer (queues s' ! j')"
    "fromStage (queues s' ! j) = fromStage (queues s' ! j')" "toStage (queues s' ! j) = toStage (queues s' ! j')" for j j'
  proof -
    consider "j = ?n" "j' = ?n" | "j = ?n" "j' < ?n" | "j < ?n" "j' = ?n" | "j < ?n" "j' < ?n"
      using u(1,2) by linarith
    then show ?thesis
    proof cases
      case 4
      then show ?thesis using inv u(3-5) old unfolding queue_inv_def by simp
    qed (use u(3-5) last old none in auto)
  qed
  have "queue_inv J s'"
    using each push pop prod unique unfolding queue_inv_def Let_def len by blast
  moreover have "has_queue s' src' dst' p' c'" if "has_queue s src' dst' p' c'" for src' dst' p' c'
  proof -
    obtain q where q: "q < ?n" "queueProducer (queues s ! q) = p'" "fromStage (queues s ! q) = src'"
      "toStage (queues s ! q) = dst'" "c' \<in> queueConsumers (queues s ! q)"
      using \<open>has_queue s src' dst' p' c'\<close> unfolding has_queue_def by blast
    then show ?thesis unfolding has_queue_def len using old[OF q(1)] by (intro exI[of _ q]) simp
  qed
  moreover have "has_queue s' src dst p c" unfolding has_queue_def len
    using last by (intro exI[of _ ?n]) simp
  ultimately show "queue_inv J s' \<and> (\<forall>src' dst' p' c'. has_queue s src' dst' p' c' \<or>
      (src', dst', p', c') \<in> {(src, dst, p, c)} \<longrightarrow> has_queue s' src' dst' p' c')" by blast
qed

lemma registerQueue_registers:
  assumes "registerQueue bits supported src dst p c isMem s = Inr s'" "src \<noteq> dst" "J src dst"
  shows "registers J {(src, dst, p, c)} s s'"
  using registerQueue_registers_old[OF _ assms(1)] registerQueue_registers_new[OF _ assms(1), of J] assms(2,3)
  by (cases "find (\<lambda>q. toStage (queues s ! q) = dst) (producerToQueues s src p)") blast+

section \<open>Every value that crosses stages has its queue\<close>

lemma collectDependences_registers:
  assumes "collectDependences bits supported src dst deps s = Inr s'" "src \<noteq> dst" "J src dst"
  shows "registers J {(src, dst, p, c) | p c k. (p, c, k) \<in> set deps \<and> k \<noteq> ControlDependence} s s'"
  using assms(1)
proof (induction deps arbitrary: s)
  case Nil
  then show ?case by (simp add: registers_refl)
next
  case (Cons dep deps)
  obtain p c k where dep: "dep = (p, c, k)" by (cases dep)
  show ?case
  proof (cases "k = ControlDependence")
    case True
    then have "collectDependences bits supported src dst deps s = Inr s'" using Cons.prems by (simp add: dep)
    from Cons.IH[OF this] show ?thesis by (rule registers_weaken) (use True in \<open>auto simp: dep\<close>)
  next
    case False
    then obtain s1 where s1: "registerQueue bits supported src dst p c False s = Inr s1"
      "collectDependences bits supported src dst deps s1 = Inr s'"
      using Cons.prems by (auto simp: dep split: if_splits sum.splits)
    show ?thesis
      using registers_trans[OF registerQueue_registers[where J = J, OF s1(1) assms(2,3)] Cons.IH[OF s1(2)]]
      by (rule registers_weaken) (auto simp: dep)
  qed
qed

text \<open>The uses of values across stages that a list of incoming edges of a component asks for.\<close>

definition crossing :: "sccdag \<Rightarrow> (nat \<Rightarrow> nat option) \<Rightarrow> nat \<Rightarrow> (nat \<times> (nat \<times> nat \<times> dep_kind) list) list \<Rightarrow>
    (nat \<times> nat \<times> nat \<times> nat) set" where
  "crossing D sccToStage dst edges =
     {(src, dst, p, c) | src p c k fromSCC deps. (fromSCC, deps) \<in> set edges \<and> \<not> canBeCloned D fromSCC \<and>
        sccToStage fromSCC = Some src \<and> src \<noteq> dst \<and> (p, c, k) \<in> set deps \<and> k \<noteq> ControlDependence}"

lemma crossing_Cons:
  "crossing D sccToStage dst ((fromSCC, deps) # edges) =
     {(src, dst, p, c) | src p c k. \<not> canBeCloned D fromSCC \<and> sccToStage fromSCC = Some src \<and> src \<noteq> dst \<and>
        (p, c, k) \<in> set deps \<and> k \<noteq> ControlDependence} \<union> crossing D sccToStage dst edges"
proof (rule set_eqI, clarify)
  fix a b p c
  show "(a, b, p, c) \<in> crossing D sccToStage dst ((fromSCC, deps) # edges) \<longleftrightarrow>
     (a, b, p, c) \<in> {(src, dst, p, c) | src p c k. \<not> canBeCloned D fromSCC \<and> sccToStage fromSCC = Some src \<and>
        src \<noteq> dst \<and> (p, c, k) \<in> set deps \<and> k \<noteq> ControlDependence} \<union> crossing D sccToStage dst edges"
    unfolding crossing_def by simp blast
qed

definition justified :: "sccdag \<Rightarrow> (nat \<Rightarrow> nat option) \<Rightarrow> (nat \<Rightarrow> nat \<Rightarrow> bool) \<Rightarrow> nat \<Rightarrow>
    (nat \<times> (nat \<times> nat \<times> dep_kind) list) list \<Rightarrow> bool" where
  "justified D sccToStage J dst edges \<longleftrightarrow>
     (\<forall>fromSCC deps src. (fromSCC, deps) \<in> set edges \<and> \<not> canBeCloned D fromSCC \<and>
        sccToStage fromSCC = Some src \<and> src \<noteq> dst \<longrightarrow> J src dst)"

lemma collectEdges_registers:
  assumes "collectEdges D sccToStage bits supported dst edges s = Inr s'" "justified D sccToStage J dst edges"
  shows "registers J (crossing D sccToStage dst edges) s s'"
  using assms
proof (induction edges arbitrary: s)
  case Nil
  then show ?case by (simp add: registers_refl crossing_def)
next
  case (Cons edge edges)
  obtain fromSCC deps where e: "edge = (fromSCC, deps)" by force
  have rest: "justified D sccToStage J dst edges" using Cons.prems(2) by (auto simp: justified_def)
  consider (skip) "canBeCloned D fromSCC \<or> sccToStage fromSCC = Some dst \<or> sccToStage fromSCC = None"
        "collectEdges D sccToStage bits supported dst edges s = Inr s'"
    | (queue) src s1 where "\<not> canBeCloned D fromSCC" "sccToStage fromSCC = Some src" "src \<noteq> dst"
        "collectDependences bits supported src dst deps s = Inr s1"
        "collectEdges D sccToStage bits supported dst edges s1 = Inr s'"
    using Cons.prems(1) by (auto simp: e split: if_splits option.splits sum.splits)
  then show ?case
  proof cases
    case skip
    then have "registers J (crossing D sccToStage dst edges) s s'" using Cons.IH rest by blast
    then show ?thesis by (rule registers_weaken) (use skip(1) in \<open>auto simp: e crossing_def; blast\<close>)
  next
    case queue
    then have "J src dst" using Cons.prems(2) e unfolding justified_def by (metis list.set_intros(1))
    from registers_trans[OF collectDependences_registers[where J = J, OF queue(4,3) this] Cons.IH[OF queue(5) rest]]
    show ?thesis by (rule registers_weaken) (use queue in \<open>auto simp: e crossing_Cons\<close>)
  qed
qed

lemma collectSCCs_registers:
  assumes "collectSCCs D sccToStage bits supported dst sccs s = Inr s'"
    and "\<forall>scc \<in> set sccs. justified D sccToStage J dst (incomingEdges D scc)"
  shows "registers J (\<Union>scc \<in> set sccs. crossing D sccToStage dst (incomingEdges D scc)) s s'"
  using assms
proof (induction sccs arbitrary: s)
  case Nil
  then show ?case by (simp add: registers_refl)
next
  case (Cons scc sccs)
  then obtain s1 where s1: "collectEdges D sccToStage bits supported dst (incomingEdges D scc) s = Inr s1"
    "collectSCCs D sccToStage bits supported dst sccs s1 = Inr s'"
    by (auto split: sum.splits)
  have "registers J (\<Union>scc \<in> set sccs. crossing D sccToStage dst (incomingEdges D scc)) s1 s'"
    using Cons.IH[OF s1(2)] Cons.prems(2) by simp
  moreover have "registers J (crossing D sccToStage dst (incomingEdges D scc)) s s1"
    using collectEdges_registers[OF s1(1)] Cons.prems(2) by simp
  ultimately show ?case using registers_trans by fastforce
qed

lemma collectStages_registers:
  assumes "collectStages D sccToStage bits supported dst tasks s = Inr s'"
    and "\<forall>i < length tasks. \<forall>scc \<in> set (sccsOfStage (tasks ! i)).
           justified D sccToStage J (dst + i) (incomingEdges D scc)"
  shows "registers J (\<Union>i < length tasks. \<Union>scc \<in> set (sccsOfStage (tasks ! i)).
           crossing D sccToStage (dst + i) (incomingEdges D scc)) s s'"
  using assms
proof (induction tasks arbitrary: s dst)
  case Nil
  then show ?case by (simp add: registers_refl)
next
  case (Cons task tasks)
  then obtain s1 where s1: "collectSCCs D sccToStage bits supported dst (sccsOfStage task) s = Inr s1"
    "collectStages D sccToStage bits supported (Suc dst) tasks s1 = Inr s'"
    by (auto split: sum.splits)
  have "\<forall>scc \<in> set (sccsOfStage task). justified D sccToStage J dst (incomingEdges D scc)"
    using Cons.prems(2) by force
  note first = collectSCCs_registers[OF s1(1) this]
  have "\<forall>i < length tasks. \<forall>scc \<in> set (sccsOfStage (tasks ! i)).
      justified D sccToStage J (Suc dst + i) (incomingEdges D scc)"
    using Cons.prems(2) by (auto dest: spec[of _ "Suc _"])
  note registers_trans[OF first Cons.IH[OF s1(2) this]]
  then show ?case
    by (rule registers_weaken) (auto simp: lessThan_Suc_eq_insert_0)
qed

section \<open>The stage of a component\<close>

lemma assignStage_apply:
  "assignStage i sccs m scc = (if scc \<in> set sccs then Some i else m scc)"
  unfolding assignStage_def by (induction sccs arbitrary: m) auto

lemma sccToStage_of:
  assumes "\<forall>i < length sets. \<forall>j < length sets. i \<noteq> j \<longrightarrow> set (sets ! i) \<inter> set (sets ! j) = {}"
  shows "snd (generateStagesFromPartitionedSCCs sets) scc = Some i \<longleftrightarrow> i < length sets \<and> scc \<in> set (sets ! i)"
proof -
  have "fold (\<lambda>i. assignStage i (sets ! i)) [0..<n] Map.empty scc = Some i \<longleftrightarrow>
      i < n \<and> scc \<in> set (sets ! i)" if "n \<le> length sets" for n
    using that
  proof (induction n)
    case (Suc n)
    have "scc \<in> set (sets ! n) \<Longrightarrow> i < n \<Longrightarrow> scc \<in> set (sets ! i) \<Longrightarrow> False"
      using assms Suc.prems by (metis Suc_leD Suc_le_lessD disjoint_iff less_le_trans nat_neq_iff)
    then show ?case using Suc by (auto simp: assignStage_apply less_Suc_eq)
  qed simp
  then show ?thesis by (simp add: generateStagesFromPartitionedSCCs_def)
qed

text \<open>
  The partition DSWP builds its pipeline from: disjoint sets of components that cannot be cloned, and
  an order of the sets that follows the dependences, also those that go through clonable components.
\<close>

definition pipeline_partition :: "sccdag \<Rightarrow> nat list list \<Rightarrow> bool" where
  "pipeline_partition D sets \<longleftrightarrow>
     (\<forall>i < length sets. \<forall>j < length sets. i \<noteq> j \<longrightarrow> set (sets ! i) \<inter> set (sets ! j) = {}) \<and>
     (\<forall>i < length sets. \<forall>j < length sets. \<forall>x \<in> set (sets ! i). \<forall>y \<in> set (sets ! j).
        (x, y) \<in> (dependsOn D)\<^sup>+ \<longrightarrow> i \<le> j)"

lemma stage_sccs:
  assumes "addClonableSCCsToStages D fuel (fst (generateStagesFromPartitionedSCCs sets)) = Some tasks"
    and "\<forall>i < length sets. \<forall>n \<in> set (sets ! i). finite {p. (p, n) \<in> (dependsOn D)\<^sup>+}" "i < length sets"
  shows "set (sccsOfStage (tasks ! i)) = set (sets ! i) \<union>
    {p. canBeCloned D p \<and> (\<exists>n \<in> set (sets ! i). (p, n) \<in> (dependsOn D)\<^sup>+)}"
    and "length tasks = length sets" and "stageSCCs (tasks ! i) = sets ! i"
proof -
  have len: "length (fst (generateStagesFromPartitionedSCCs sets)) = length sets"
    and nth: "fst (generateStagesFromPartitionedSCCs sets) ! i = \<lparr>stageSCCs = sets ! i, clonableSCCs = {}\<rparr>"
    using assms(3) by (simp_all add: generateStagesFromPartitionedSCCs_def)
  note st = addClonable_stages[OF assms(1)]
  show "length tasks = length sets" using st len by simp
  let ?task = "fst (generateStagesFromPartitionedSCCs sets) ! i"
  have "stageSCCs (tasks ! i) = stageSCCs ?task"
    and cl: "collectClonable D fuel (stageSCCs ?task) {} (clonableSCCs ?task) = Some (clonableSCCs (tasks ! i))"
    using st len assms(3) by auto
  then show own: "stageSCCs (tasks ! i) = sets ! i" unfolding nth by simp
  have "collectClonable D fuel (sets ! i) {} {} = Some (clonableSCCs (tasks ! i))" using cl unfolding nth by simp
  note closure = collectClonable_closure[OF this]
  have "finite (\<Union>n \<in> set (sets ! i). {p. (p, n) \<in> (dependsOn D)\<^sup>+})" using assms(2,3) by blast
  then have "finite (clonableSCCs (tasks ! i))" unfolding closure by (rule rev_finite_subset) blast
  then show "set (sccsOfStage (tasks ! i)) = set (sets ! i) \<union>
      {p. canBeCloned D p \<and> (\<exists>n \<in> set (sets ! i). (p, n) \<in> (dependsOn D)\<^sup>+)}"
    using own closure by (auto simp: sccsOfStage_def)
qed

lemma queue_inv_no_queues: "queue_inv J no_queues"
  by (simp add: queue_inv_def no_queues_def)

lemma queues_forward:
  assumes "queue_inv (\<lambda>src dst. src \<le> dst) s"
  shows "areQueuesAcyclical (\<lambda>i. i) n s"
  using assms unfolding queue_inv_def areQueuesAcyclical_def Let_def list_all_iff
  by (metis le_antisym)

lemma dependsOn_closed:
  assumes "\<forall>n. fst ` set (incomingEdges D n) \<subseteq> set (nodes D)"
  shows "finite {p. (p, n) \<in> (dependsOn D)\<^sup>+}"
proof (rule finite_subset)
  show "{p. (p, n) \<in> (dependsOn D)\<^sup>+} \<subseteq> set (nodes D)"
  proof
    fix p assume "p \<in> {p. (p, n) \<in> (dependsOn D)\<^sup>+}"
    then have "(p, n) \<in> (dependsOn D)\<^sup>+" by simp
    then obtain m where "(p, m) \<in> dependsOn D" by (meson tranclD)
    then show "p \<in> set (nodes D)" using assms by (auto simp: dependsOn_def)
  qed
qed simp

lemma stages_end:
  assumes "\<forall>n. fst ` set (incomingEdges D n) \<subseteq> set (nodes D)"
    and "\<forall>task \<in> set tasks. length (stageSCCs task) + length (nodes D) \<le> fuel"
  shows "\<exists>tasks'. addClonableSCCsToStages D fuel tasks = Some tasks'"
  using assms(2)
proof (induction tasks)
  case (Cons task tasks)
  have "card (set (nodes D) - {}) \<le> length (nodes D)" by (simp add: card_length)
  then have "length (stageSCCs task) + card (set (nodes D) - {}) \<le> fuel" using Cons.prems by simp
  from collectClonable_ends[OF _ assms(1) this] obtain cloned where
    "collectClonable D fuel (stageSCCs task) {} (clonableSCCs task) = Some cloned" by auto
  then show ?case using Cons by auto
qed simp

text \<open>
  A stage of a DSWP pipeline gets what it needs and no more. With one step for each component of
  the stage and of the SCCDAG the traversals end, and the clonable components added to a stage are
  exactly those on which a component of the stage depends, directly or through any chain of components.
\<close>
theorem stage_clonable_components:
  assumes "\<forall>n. fst ` set (incomingEdges D n) \<subseteq> set (nodes D)"
    and "\<forall>sccs \<in> set sets. length sccs + length (nodes D) \<le> fuel"
  shows "\<exists>tasks. addClonableSCCsToStages D fuel (fst (generateStagesFromPartitionedSCCs sets)) = Some tasks \<and>
    map stageSCCs tasks = sets \<and>
    map clonableSCCs tasks =
      map (\<lambda>sccs. {p. canBeCloned D p \<and> (\<exists>n \<in> set sccs. (p, n) \<in> (dependsOn D)\<^sup>+)}) sets"
proof -
  let ?stages = "fst (generateStagesFromPartitionedSCCs sets)"
  have stages: "?stages = map (\<lambda>sccs. \<lparr>stageSCCs = sccs, clonableSCCs = {}\<rparr>) sets"
    by (simp add: generateStagesFromPartitionedSCCs_def)
  then have "\<forall>task \<in> set ?stages. length (stageSCCs task) + length (nodes D) \<le> fuel" using assms(2) by auto
  from stages_end[OF assms(1) this] obtain tasks where t: "addClonableSCCsToStages D fuel ?stages = Some tasks" by blast
  have len: "length ?stages = length sets" using stages by simp
  note st = addClonable_stages[OF t, unfolded len]
  have "stageSCCs (tasks ! i) = sets ! i \<and> clonableSCCs (tasks ! i) =
      {p. canBeCloned D p \<and> (\<exists>n \<in> set (sets ! i). (p, n) \<in> (dependsOn D)\<^sup>+)}" if i: "i < length sets" for i
  proof -
    have nth: "?stages ! i = \<lparr>stageSCCs = sets ! i, clonableSCCs = {}\<rparr>" using stages i by simp
    have "stageSCCs (tasks ! i) = stageSCCs (?stages ! i)"
      "collectClonable D fuel (stageSCCs (?stages ! i)) {} (clonableSCCs (?stages ! i)) = Some (clonableSCCs (tasks ! i))"
      using st i by auto
    then show ?thesis unfolding nth using collectClonable_closure by auto
  qed
  moreover have "length tasks = length sets" using st by simp
  ultimately show ?thesis using t by (auto intro!: nth_equalityI)
qed

lemma data_queues:
  assumes "pipeline_partition D sets" and "\<forall>n. fst ` set (incomingEdges D n) \<subseteq> set (nodes D)"
    and "addClonableSCCsToStages D fuel (fst (generateStagesFromPartitionedSCCs sets)) = Some tasks"
    and "collectDataAndMemoryQueueInfo D (snd (generateStagesFromPartitionedSCCs sets)) bits supported tasks no_queues
           = Inr s"
  shows "areQueuesAcyclical (\<lambda>i. i) (length tasks) s \<and> queue_inv (\<lambda>src dst. src \<le> dst) s \<and>
    (\<forall>i j scc fromSCC deps p c k.
       i < length tasks \<and> j < length tasks \<and> j \<noteq> i \<and> scc \<in> set (sccsOfStage (tasks ! i)) \<and>
       (fromSCC, deps) \<in> set (incomingEdges D scc) \<and> (p, c, k) \<in> set deps \<and> k \<noteq> ControlDependence \<and>
       fromSCC \<in> set (sets ! j) \<and> \<not> canBeCloned D fromSCC \<longrightarrow> has_queue s j i p c)"
proof -
  let ?stage = "snd (generateStagesFromPartitionedSCCs sets)"
  let ?J = "\<lambda>src dst :: nat. src \<le> dst"
  have disj: "\<forall>i < length sets. \<forall>j < length sets. i \<noteq> j \<longrightarrow> set (sets ! i) \<inter> set (sets ! j) = {}"
    and order: "\<forall>i < length sets. \<forall>j < length sets. \<forall>x \<in> set (sets ! i). \<forall>y \<in> set (sets ! j).
        (x, y) \<in> (dependsOn D)\<^sup>+ \<longrightarrow> i \<le> j"
    using assms(1) unfolding pipeline_partition_def by blast+
  have fin: "\<forall>i < length sets. \<forall>n \<in> set (sets ! i). finite {p. (p, n) \<in> (dependsOn D)\<^sup>+}"
    using dependsOn_closed[OF assms(2)] by blast
  have len: "length tasks = length sets"
    using addClonable_stages[OF assms(3)] by (simp add: generateStagesFromPartitionedSCCs_def)
  have just: "\<forall>i < length tasks. \<forall>scc \<in> set (sccsOfStage (tasks ! i)).
      justified D ?stage ?J (0 + i) (incomingEdges D scc)"
  proof (intro allI impI ballI)
    fix i scc assume i: "i < length tasks" and scc: "scc \<in> set (sccsOfStage (tasks ! i))"
    have "\<exists>y \<in> set (sets ! i). scc = y \<or> (scc, y) \<in> (dependsOn D)\<^sup>+"
      using scc unfolding stage_sccs(1)[OF assms(3) fin i[unfolded len]] by blast
    then obtain y where y: "y \<in> set (sets ! i)" "scc = y \<or> (scc, y) \<in> (dependsOn D)\<^sup>+" by blast
    have "src \<le> i" if e: "(fromSCC, deps) \<in> set (incomingEdges D scc)" "?stage fromSCC = Some src" for fromSCC deps src
    proof -
      have "(fromSCC, scc) \<in> dependsOn D" using e(1) by (force simp: dependsOn_def)
      then have "(fromSCC, y) \<in> (dependsOn D)\<^sup>+" using y(2) by (auto intro: trancl_into_trancl2)
      moreover have "src < length sets \<and> fromSCC \<in> set (sets ! src)"
        by (rule iffD1[OF sccToStage_of[OF disj] e(2)])
      moreover have "i < length sets" using i len by simp
      ultimately show ?thesis using order[rule_format, of src i fromSCC y] y(1) by simp
    qed
    then show "justified D ?stage ?J (0 + i) (incomingEdges D scc)" unfolding justified_def by auto
  qed
  note reg = collectStages_registers[OF assms(4)[unfolded collectDataAndMemoryQueueInfo_def] just,
      unfolded registers_def, rule_format, OF queue_inv_no_queues]
  then have inv: "queue_inv ?J s" by blast
  have "has_queue s j i p c" if "i < length tasks" "scc \<in> set (sccsOfStage (tasks ! i))"
    "(fromSCC, deps) \<in> set (incomingEdges D scc)" "(p, c, k) \<in> set deps" "j < length tasks"
    "j \<noteq> i" "fromSCC \<in> set (sets ! j)" "\<not> canBeCloned D fromSCC" "k \<noteq> ControlDependence"
    for i j scc fromSCC deps p c k
  proof -
    have "?stage fromSCC = Some j"
      by (rule iffD2[OF sccToStage_of[OF disj]]) (use that(5,7) len in simp)
    then have "(j, i, p, c) \<in> crossing D ?stage (0 + i) (incomingEdges D scc)"
      using that unfolding crossing_def by auto
    then show ?thesis using reg that(1,2) by blast
  qed
  then show ?thesis using queues_forward[OF inv] inv by (intro conjI) (assumption | (intro allI impI, elim conjE, assumption) | blast)+
qed

section \<open>An example\<close>

text \<open>
  A loop with an induction variable (component 1, clonable), a load that it indexes (2) and the
  computation on what is loaded (3): two stages, one queue.
\<close>

definition load_compute :: sccdag where
  "load_compute = \<lparr>nodes = [1, 2, 3],
     incomingEdges = (\<lambda>n. if n = 2 then [(1, [(10, 20, VariableDependence)])]
                          else if n = 3 then [(2, [(20, 30, VariableDependence), (21, 31, ControlDependence)]),
                                              (1, [(10, 31, VariableDependence)])]
                          else []),
     canBeCloned = (\<lambda>n. n = 1)\<rparr>"

lemma load_compute_closed: "\<forall>n. fst ` set (incomingEdges load_compute n) \<subseteq> set (nodes load_compute)"
  by (auto simp: load_compute_def)

lemma load_compute_stages:
  "addClonableSCCsToStages load_compute 4 (fst (generateStagesFromPartitionedSCCs [[2], [3]])) =
     Some [\<lparr>stageSCCs = [2], clonableSCCs = {1}\<rparr>, \<lparr>stageSCCs = [3], clonableSCCs = {1}\<rparr>]"
  by (simp add: generateStagesFromPartitionedSCCs_def load_compute_def numeral_eq_Suc)

lemma load_compute_order: "pipeline_partition load_compute [[2], [3]]"
proof -
  have "(3, y) \<notin> (dependsOn load_compute)\<^sup>+" for y
  proof
    assume "(3, y) \<in> (dependsOn load_compute)\<^sup>+"
    then obtain z where "(3, z) \<in> dependsOn load_compute" by (meson tranclD)
    then show False by (auto simp: dependsOn_def load_compute_def split: if_splits)
  qed
  then show ?thesis by (auto simp: pipeline_partition_def less_Suc_eq nth_Cons split: nat.splits)
qed

lemma stage_clonable_components_witness:
  "\<exists>tasks. addClonableSCCsToStages load_compute 4 (fst (generateStagesFromPartitionedSCCs [[2], [3]])) = Some tasks \<and>
     map stageSCCs tasks = [[2], [3]]"
  using stage_clonable_components[OF load_compute_closed, of "[[2], [3]]" 4]
  by (auto simp: load_compute_def)

end
