(* ===== verification/Technique_Guards.thy ===== *)
theory Technique_Guards
  imports Cpp_Double Dswp_Stages
begin

text \<open>
  When HELIX and DSWP apply to a loop: the common base class
  (\<open>ParallelizationTechniqueForLoopsWithLoopCarriedDataDependences.cpp\<close>), HELIX's guard
  (\<open>HELIX_applicabilityGuard.cpp\<close>) and DSWP's (\<open>DSWP.cpp\<close>), with the fraction of sequential code they
  weigh and the first partition of the SCCDAG.
\<close>

section \<open>The base class\<close>

record guard_loop =
  numLoopExitBasicBlocks :: nat
  instructionIsInvoke :: "bool list"
  hasLoopID :: bool
  averageInstructions :: double
  loopTotalInsts :: u64
  sccsOfLoop :: "nat list"
  numInternalNodes :: "nat \<Rightarrow> nat"
  totalInsts :: "nat \<Rightarrow> u64"
  isLoopCarriedUnknown :: "nat \<Rightarrow> bool"
  sccInfoOf :: "nat \<Rightarrow> scc_info"

definition base_canBeAppliedToLoop :: "guard_loop \<Rightarrow> bool" where
  "base_canBeAppliedToLoop G =
     (if numLoopExitBasicBlocks G = 0 then False
      else if list_ex (\<lambda>i. i) (instructionIsInvoke G) then False
      else True)"

text \<open>The sets the partitioner starts from: one for each component that is not skipped.\<close>

definition initialSets :: "nat list \<Rightarrow> (nat \<Rightarrow> bool) \<Rightarrow> nat set set" where
  "initialSets sccs skipSCC = (\<lambda>scc. {scc}) ` {scc \<in> set sccs. \<not> skipSCC scc}"

text \<open>
  \<open>computeSequentialFractionOfExecution\<close>. \<open>fdiv\<close> is the division of two counts in single precision,
  read as a double.
\<close>

definition computeSequentialFractionOfExecution ::
    "(nat \<Rightarrow> nat \<Rightarrow> double) \<Rightarrow> guard_loop \<Rightarrow> (nat \<Rightarrow> bool) \<Rightarrow> double" where
  "computeSequentialFractionOfExecution fdiv G doesItRunSequentially =
     (let totalInstructionCount = (\<Sum>scc \<leftarrow> sccsOfLoop G. numInternalNodes G scc);
          sequentialInstructionCount =
            (\<Sum>scc \<leftarrow> sccsOfLoop G. if doesItRunSequentially scc then numInternalNodes G scc else 0)
      in fdiv sequentialInstructionCount totalInstructionCount)"

section \<open>HELIX\<close>

definition HELIX_canBeAppliedToLoop :: "(nat \<Rightarrow> nat \<Rightarrow> double) \<Rightarrow> bool \<Rightarrow> guard_loop \<Rightarrow> bool result" where
  "HELIX_canBeAppliedToLoop fdiv forceParallelization G =
     (if \<not> base_canBeAppliedToLoop G then Inr False
      else if forceParallelization then Inr True
      else if \<not> hasLoopID G then Inl AssertionFailed
      else
        let hasLittleExecution = dless (averageInstructions G) (Finite 20);
            sequentialFraction = computeSequentialFractionOfExecution fdiv G (isLoopCarriedUnknown G);
            hasProportionallySignificantSequentialExecution = dle (round_double (1 / 5)) sequentialFraction
        in Inr (\<not> (hasLittleExecution \<and> hasProportionallySignificantSequentialExecution)))"

definition HELIX_getMinimumNumberOfIdleCores :: "u32 \<Rightarrow> u32" where
  "HELIX_getMinimumNumberOfIdleCores physicalCores = physicalCores"

section \<open>DSWP\<close>

text \<open>The components that can be cloned, as \<open>getClonableSCCs\<close> collects them.\<close>

definition getClonableSCCs :: "guard_loop \<Rightarrow> nat set" where
  "getClonableSCCs G = {scc \<in> set (sccsOfLoop G). isClonableSCC (sccInfoOf G scc)}"

text \<open>The loop over the components: the largest one, and whether one cannot be cloned.\<close>

fun biggestAndSequential :: "guard_loop \<Rightarrow> nat set \<Rightarrow> nat list \<Rightarrow> u64 \<Rightarrow> bool \<Rightarrow> u64 \<times> bool" where
  "biggestAndSequential G clonable [] biggestSCC doesSequentialSCCExist = (biggestSCC, doesSequentialSCCExist)"
| "biggestAndSequential G clonable (scc # sccs) biggestSCC doesSequentialSCCExist =
     biggestAndSequential G clonable sccs
       (if totalInsts G scc > biggestSCC then totalInsts G scc else biggestSCC)
       (if scc \<in> clonable then doesSequentialSCCExist else True)"

text \<open>
  \<open>memberClonableSCCs\<close> is the field of the object, which \<open>apply\<close> computes later and which
  \<open>canBeCloned\<close> reads.
\<close>

definition DSWP_canBeAppliedToLoop ::
    "(nat \<Rightarrow> nat \<Rightarrow> double) \<Rightarrow> bool \<Rightarrow> nat set \<Rightarrow> guard_loop \<Rightarrow> bool result" where
  "DSWP_canBeAppliedToLoop fdiv forceParallelization memberClonableSCCs G =
     (if \<not> base_canBeAppliedToLoop G then Inr False
      else
        let (biggestSCC, doesSequentialSCCExist) =
              biggestAndSequential G (getClonableSCCs G) (sccsOfLoop G) 0 False in
        if \<not> doesSequentialSCCExist then Inr False
        else if forceParallelization then Inr True
        else
          let biggestSCCCoverage = ddiv (double_of_u64 biggestSCC) (double_of_u64 (loopTotalInsts G)) in
          if dle (round_double (4 / 5)) biggestSCCCoverage then Inr False
          else if \<not> hasLoopID G then Inl AssertionFailed
          else
            let hasLittleExecution = dless (averageInstructions G) (Finite 20);
                sequentialFraction = computeSequentialFractionOfExecution fdiv G (\<lambda>scc. scc \<in> memberClonableSCCs);
                hasProportionallyInsignificantSequentialExecution = dless sequentialFraction (Finite (1 / 2))
            in Inr (\<not> (hasLittleExecution \<and> hasProportionallyInsignificantSequentialExecution)))"

section \<open>What the guards decide\<close>

lemma sum_list_zero_if: "(\<Sum>x \<leftarrow> xs. if x \<in> {} then f x else (0 :: nat)) = 0"
  by (induction xs) auto

lemma biggestAndSequential_exists:
  "snd (biggestAndSequential G clonable sccs b e) \<longleftrightarrow> e \<or> (\<exists>scc \<in> set sccs. scc \<notin> clonable)"
  by (induction sccs arbitrary: b e) auto

text \<open>
  DSWP weighs the components that can be cloned instead of the sequential ones, and reads the field
  before it is set: on a fresh object the fraction is that of no code at all, so every loop with fewer
  than 20 instructions per iteration is refused however sequential it is.
\<close>

theorem dswp_fraction_not_computed:
  assumes "\<forall>n > 0. fdiv 0 n = Finite 0" and "0 < (\<Sum>scc \<leftarrow> sccsOfLoop G. numInternalNodes G scc)"
    and "hasLoopID G" and "dless (averageInstructions G) (Finite 20)"
  shows "DSWP_canBeAppliedToLoop fdiv False {} G = Inr False"
proof -
  have "computeSequentialFractionOfExecution fdiv G (\<lambda>scc. scc \<in> {}) = Finite 0"
    using assms(1,2) by (simp add: computeSequentialFractionOfExecution_def)
  then show ?thesis using assms(3,4)
    by (simp add: DSWP_canBeAppliedToLoop_def Let_def split: prod.splits)
qed

lemma helix_guard_iff:
  assumes "hasLoopID G"
  shows "HELIX_canBeAppliedToLoop fdiv force G = Inr True \<longleftrightarrow>
    numLoopExitBasicBlocks G \<noteq> 0 \<and> True \<notin> set (instructionIsInvoke G) \<and>
    (force \<or> \<not> dless (averageInstructions G) (Finite 20) \<or>
     \<not> dle (round_double (1 / 5)) (computeSequentialFractionOfExecution fdiv G (isLoopCarriedUnknown G)))"
  using assms by (auto simp: HELIX_canBeAppliedToLoop_def base_canBeAppliedToLoop_def list_ex_iff Let_def)

text \<open>A loop with one sequential component of eight instructions, ten per iteration on average.\<close>

definition small_loop :: guard_loop where
  "small_loop = \<lparr>numLoopExitBasicBlocks = 1, instructionIsInvoke = [False], hasLoopID = True,
     averageInstructions = Finite 10, loopTotalInsts = 100, sccsOfLoop = [1], numInternalNodes = (\<lambda>_. 8),
     totalInsts = (\<lambda>_. 60), isLoopCarriedUnknown = (\<lambda>_. True),
     sccInfoOf = (\<lambda>_. \<lparr>internalInsts = [OtherInst, OtherInst], outDegree = 0,
       doesHaveMemoryDependencesWithin = True, isLoopIterationSCC = False, loopCarriedDependences = []\<rparr>)\<rparr>"

lemma dswp_fraction_not_computed_witness:
  "DSWP_canBeAppliedToLoop (\<lambda>a b. round_double (of_nat a / of_nat b)) False {} small_loop = Inr False"
  by (rule dswp_fraction_not_computed) (simp_all add: small_loop_def round_double_def)

end
