(* ===== verification/Inliner_Order.thy ===== *)
theory Inliner_Order
  imports Gino_Prelude
begin

text \<open>
  The order in which the inliner considers functions (\<open>inliner/src/Inliner.cpp\<close>): the call graph that is
  reachable from the entry function, and the depth of each function in it.
\<close>

section \<open>The state of the inliner\<close>

text \<open>Functions and call instructions are numbers, which stand for their addresses.\<close>

record inliner =
  parentFns :: "nat \<Rightarrow> nat set"
  childrenFns :: "nat \<Rightarrow> nat list"
  orderedCalls :: "nat \<Rightarrow> nat list"
  orderedCalled :: "nat \<Rightarrow> nat list"
  depthOrderedFns :: "nat list"
  recursiveChainEntranceFns :: "nat set"
  fnOrders :: "nat \<Rightarrow> nat option"
  preOrderedLoops :: "nat \<Rightarrow> nat list option"
  fnsAffected :: "nat set"
  fnsToCheck :: "nat set"

text \<open>
  The body of a function: for each basic block its call instructions with the called function (none for
  an indirect call), and the calls the call graph of LLVM lists. A declaration has no blocks.
\<close>

record fn_body =
  callsOfBlocks :: "(nat \<times> nat option) list list"
  callGraphCalls :: "nat set"

definition isDefined :: "(nat \<Rightarrow> fn_body) \<Rightarrow> nat \<Rightarrow> bool" where
  "isDefined P F = (callsOfBlocks (P F) \<noteq> [])"

section \<open>The call graph\<close>

definition linkedCalls :: "(nat \<Rightarrow> fn_body) \<Rightarrow> nat \<Rightarrow> (nat \<times> nat) list" where
  "linkedCalls P parentF =
     concat (map (List.map_filter (\<lambda>(call, callee).
         case callee of
           None \<Rightarrow> None
         | Some F \<Rightarrow> if call \<in> callGraphCalls (P parentF) \<and> isDefined P F then Some (call, F) else None))
       (callsOfBlocks (P parentF)))"

definition collectFnCallsAndCalled ::
    "(nat \<Rightarrow> fn_body) \<Rightarrow> nat \<Rightarrow> ('a) inliner_scheme \<Rightarrow> ('a) inliner_scheme" where
  "collectFnCallsAndCalled P parentF s =
     s\<lparr>orderedCalls := (orderedCalls s)(parentF := map fst (linkedCalls P parentF)),
       orderedCalled := (orderedCalled s)(parentF := map snd (linkedCalls P parentF))\<rparr>"

text \<open>The first invocation of each function, and the functions not yet reached.\<close>

fun firstInvocations :: "nat list \<Rightarrow> nat set \<Rightarrow> nat list" where
  "firstInvocations [] orderedFns = []"
| "firstInvocations (childF # fns) orderedFns =
     (if childF \<in> orderedFns then firstInvocations fns orderedFns
      else childF # firstInvocations fns (insert childF orderedFns))"

fun enqueueChildren :: "nat list \<Rightarrow> nat list \<Rightarrow> nat set \<Rightarrow> nat list \<times> nat set" where
  "enqueueChildren [] funcToTraverse reached = (funcToTraverse, reached)"
| "enqueueChildren (childF # fns) funcToTraverse reached =
     (if childF \<in> reached then enqueueChildren fns funcToTraverse reached
      else enqueueChildren fns (funcToTraverse @ [childF]) (insert childF reached))"

definition addParent :: "nat \<Rightarrow> nat list \<Rightarrow> (nat \<Rightarrow> nat set) \<Rightarrow> nat \<Rightarrow> nat set" where
  "addParent parentF children parents = fold (\<lambda>F ps. ps(F := insert parentF (ps F))) children parents"

definition collectChildren :: "(nat \<Rightarrow> fn_body) \<Rightarrow> nat \<Rightarrow> inliner \<Rightarrow> inliner" where
  "collectChildren P parentF s =
     (let s = collectFnCallsAndCalled P parentF s;
          children = firstInvocations (orderedCalled s parentF) {}
      in s\<lparr>childrenFns := (childrenFns s)(parentF := children),
           parentFns := addParent parentF children (parentFns s)\<rparr>)"

text \<open>The breadth-first traversal; \<open>None\<close> is running out of fuel.\<close>

fun traverseCallGraph :: "(nat \<Rightarrow> fn_body) \<Rightarrow> nat \<Rightarrow> nat list \<Rightarrow> nat set \<Rightarrow> inliner \<Rightarrow> inliner option" where
  "traverseCallGraph P fuel [] reached s = Some s"
| "traverseCallGraph P 0 (parentF # funcToTraverse) reached s = None"
| "traverseCallGraph P (Suc fuel) (parentF # funcToTraverse) reached s =
     (let s = collectChildren P parentF s;
          (funcToTraverse, reached) = enqueueChildren (childrenFns s parentF) funcToTraverse reached
      in traverseCallGraph P fuel funcToTraverse reached s)"

definition collectFnGraph :: "(nat \<Rightarrow> fn_body) \<Rightarrow> nat \<Rightarrow> nat \<Rightarrow> inliner \<Rightarrow> inliner option" where
  "collectFnGraph P fuel main s = traverseCallGraph P fuel [main] {main} s"

section \<open>The depth of functions\<close>

text \<open>The local variables of \<open>collectInDepthOrderFns\<close> beside the state.\<close>

record depth_walk = inliner +
  funcToTraverse :: "nat list"
  reached :: "nat set"
  deferred :: "nat list"

definition assignOrder :: "nat \<Rightarrow> depth_walk \<Rightarrow> depth_walk" where
  "assignOrder F w =
     w\<lparr>funcToTraverse := funcToTraverse w @ [F],
       fnOrders := (fnOrders w)(F \<mapsto> length (depthOrderedFns w)),
       depthOrderedFns := depthOrderedFns w @ [F],
       reached := insert F (reached w)\<rparr>"

fun orderChildren :: "nat list \<Rightarrow> depth_walk \<Rightarrow> depth_walk" where
  "orderChildren [] w = w"
| "orderChildren (F # fns) w =
     (if F \<in> reached w then orderChildren fns w
      else let allParentsOrdered = (\<forall>parent \<in> parentFns w F. parent \<in> reached w)
           in orderChildren fns (if allParentsOrdered then assignOrder F w else w\<lparr>deferred := deferred w @ [F]\<rparr>))"

fun orderReachable :: "nat \<Rightarrow> depth_walk \<Rightarrow> depth_walk option" where
  "orderReachable fuel w =
     (case funcToTraverse w of
        [] \<Rightarrow> Some w
      | func # fns \<Rightarrow>
          (case fuel of
             0 \<Rightarrow> None
           | Suc fuel \<Rightarrow> orderReachable fuel (orderChildren (childrenFns w func) (w\<lparr>funcToTraverse := fns\<rparr>))))"

text \<open>The deferred functions without an order become entrances of recursive chains.\<close>

fun orderRemaining :: "nat list \<Rightarrow> nat list \<Rightarrow> depth_walk \<Rightarrow> depth_walk" where
  "orderRemaining [] remaining w = w\<lparr>deferred := remaining\<rparr>"
| "orderRemaining (left # fns) remaining w =
     (if fnOrders w left = None
      then orderRemaining fns (remaining @ [left])
             (assignOrder left (w\<lparr>recursiveChainEntranceFns := insert left (recursiveChainEntranceFns w)\<rparr>))
      else orderRemaining fns remaining w)"

fun orderRounds :: "nat \<Rightarrow> nat \<Rightarrow> depth_walk \<Rightarrow> depth_walk option" where
  "orderRounds fuel steps w =
     (if funcToTraverse w = [] then Some w
      else case fuel of
        0 \<Rightarrow> None
      | Suc fuel \<Rightarrow>
          (case orderReachable steps w of
             None \<Rightarrow> None
           | Some w \<Rightarrow> orderRounds fuel steps (orderRemaining (deferred w) [] w)))"

definition startDepthOrder :: "nat \<Rightarrow> inliner \<Rightarrow> depth_walk" where
  "startDepthOrder main s =
     inliner.extend (s\<lparr>depthOrderedFns := [main], recursiveChainEntranceFns := {}, fnOrders := [main \<mapsto> 0]\<rparr>)
       (depth_walk.fields [main] {main} [])"

definition collectInDepthOrderFns :: "nat \<Rightarrow> nat \<Rightarrow> inliner \<Rightarrow> inliner option" where
  "collectInDepthOrderFns fuel main s = map_option inliner.truncate (orderRounds fuel fuel (startDepthOrder main s))"

declare orderReachable.simps [simp del] orderRounds.simps [simp del]

section \<open>What the call graph is\<close>

definition callees :: "(nat \<Rightarrow> fn_body) \<Rightarrow> nat \<Rightarrow> nat list" where
  "callees P f = firstInvocations (map snd (linkedCalls P f)) {}"

definition calls_rel :: "(nat \<Rightarrow> fn_body) \<Rightarrow> (nat \<times> nat) set" where
  "calls_rel P = {(p, c). c \<in> set (callees P p)}"

lemma firstInvocations_set: "set (firstInvocations fns S) = set fns - S"
  by (induction fns arbitrary: S) auto

lemma firstInvocations_distinct: "distinct (firstInvocations fns S)"
  by (induction fns arbitrary: S) (auto simp: firstInvocations_set)

lemma addParent_apply:
  "addParent p cs parents F = (if F \<in> set cs then insert p (parents F) else parents F)"
  unfolding addParent_def by (induction cs arbitrary: parents) auto

lemma enqueueChildren_result:
  "distinct cs \<Longrightarrow> enqueueChildren cs q r = (q @ filter (\<lambda>c. c \<notin> r) cs, r \<union> set cs)"
proof (induction cs arbitrary: q r)
  case (Cons c cs)
  then have "filter (\<lambda>x. x \<noteq> c \<and> x \<notin> r) cs = filter (\<lambda>x. x \<notin> r) cs"
    by (intro filter_cong) auto
  with Cons show ?case by (auto simp: insert_absorb)
qed simp

lemma callees_distinct: "distinct (callees P f)"
  by (simp add: callees_def firstInvocations_distinct)

lemma collectChildren_fields:
  "childrenFns (collectChildren P f s) = (childrenFns s)(f := callees P f)"
  "parentFns (collectChildren P f s) F = (if F \<in> set (callees P f) then insert f (parentFns s F) else parentFns s F)"
  "fnsAffected (collectChildren P f s) = fnsAffected s"
  by (simp_all add: collectChildren_def collectFnCallsAndCalled_def Let_def callees_def addParent_apply)

text \<open>The children of the functions of \<open>D\<close> and their parents among them.\<close>

definition graph_of :: "(nat \<Rightarrow> fn_body) \<Rightarrow> nat set \<Rightarrow> ('a) inliner_scheme \<Rightarrow> bool" where
  "graph_of P D s \<longleftrightarrow>
     (\<forall>f. childrenFns s f = (if f \<in> D then callees P f else [])) \<and>
     (\<forall>F. parentFns s F = {p \<in> D. F \<in> set (callees P p)})"

lemma graph_of_collectChildren:
  assumes "graph_of P D s"
  shows "graph_of P (insert f D) (collectChildren P f s)"
  using assms unfolding graph_of_def collectChildren_fields by auto

lemma traverseCallGraph_result:
  assumes "finite U" "\<forall>f \<in> U. set (callees P f) \<subseteq> U"
    and "length queue + card (U - R) \<le> fuel" "set queue \<subseteq> R" "R \<subseteq> U" "distinct queue"
    and "graph_of P (R - set queue) s" "calls_rel P `` (R - set queue) \<subseteq> R"
  shows "\<exists>s'. traverseCallGraph P fuel queue R s = Some s' \<and> graph_of P ((calls_rel P)\<^sup>* `` R) s'"
  using assms(2-)
proof (induction P fuel queue R s rule: traverseCallGraph.induct)
  case (1 P fuel R s)
  then have "(calls_rel P)\<^sup>* `` R = R" by (simp add: Image_closed_trancl)
  then show ?case using 1 by simp
next
  case (3 P fuel f queue R s)
  let ?s = "collectChildren P f s"
  let ?new = "filter (\<lambda>c. c \<notin> R) (callees P f)"
  let ?R = "R \<union> set (callees P f)"
  have enq: "enqueueChildren (childrenFns ?s f) queue R = (queue @ ?new, ?R)"
    by (simp add: collectChildren_fields enqueueChildren_result callees_distinct)
  have f: "f \<in> R" "f \<notin> set queue" "distinct queue" "set queue \<subseteq> R" using "3.prems" by auto
  have sub: "?R \<subseteq> U" using "3.prems"(1,4) f(1) by auto
  have "U - R = set ?new \<union> (U - ?R)" using sub by auto
  then have "card (U - R) = card (set ?new) + card (U - ?R)"
    using card_Un_disjoint[of "set ?new" "U - ?R"] assms(1) by fastforce
  then have "card (U - R) = length ?new + card (U - ?R)"
    using distinct_card[of ?new] callees_distinct by simp
  then have fuel: "length (queue @ ?new) + card (U - ?R) \<le> fuel" using "3.prems"(2) by simp
  have processed: "?R - set (queue @ ?new) = insert f (R - set (f # queue))" using f by auto
  have graph: "graph_of P (?R - set (queue @ ?new)) ?s"
    unfolding processed using graph_of_collectChildren[OF "3.prems"(6)] .
  have closed: "calls_rel P `` (?R - set (queue @ ?new)) \<subseteq> ?R"
    unfolding processed using "3.prems"(7) by (auto simp: calls_rel_def)
  have "(calls_rel P)\<^sup>* `` ?R = (calls_rel P)\<^sup>* `` R"
    using f(1) by (auto simp: calls_rel_def intro: converse_rtrancl_into_rtrancl)
  moreover have "\<exists>s'. traverseCallGraph P fuel (queue @ ?new) ?R ?s = Some s' \<and> graph_of P ((calls_rel P)\<^sup>* `` ?R) s'"
    using "3.IH"[OF refl enq[symmetric] refl "3.prems"(1)] fuel f sub callees_distinct graph closed by auto
  ultimately show ?case using enq by (simp add: Let_def)
qed simp

section \<open>What the depth order is\<close>

text \<open>
  The functions ordered so far: their order is their position, and a function that is not the entrance
  of a recursive chain comes after all functions that call it.
\<close>

definition depth_inv :: "nat \<Rightarrow> depth_walk \<Rightarrow> bool" where
  "depth_inv main w \<longleftrightarrow>
     reached w = set (depthOrderedFns w) \<and> distinct (depthOrderedFns w) \<and>
     depthOrderedFns w \<noteq> [] \<and> hd (depthOrderedFns w) = main \<and>
     dom (fnOrders w) = set (depthOrderedFns w) \<and>
     (\<forall>i < length (depthOrderedFns w). fnOrders w (depthOrderedFns w ! i) = Some i) \<and>
     set (funcToTraverse w) \<subseteq> reached w \<and>
     (\<forall>i < length (depthOrderedFns w). 0 < i \<and> depthOrderedFns w ! i \<notin> recursiveChainEntranceFns w \<longrightarrow>
        parentFns w (depthOrderedFns w ! i) \<subseteq> set (take i (depthOrderedFns w)))"

lemma depth_inv_entrance:
  "depth_inv main w \<Longrightarrow> depth_inv main (w\<lparr>recursiveChainEntranceFns := insert F (recursiveChainEntranceFns w)\<rparr>)"
  by (auto simp: depth_inv_def)

lemma depth_inv_deferred [simp]: "depth_inv main (w\<lparr>deferred := fns\<rparr>) = depth_inv main w"
  by (simp add: depth_inv_def)

lemma depth_inv_assignOrder:
  assumes "depth_inv main w" "F \<notin> reached w" "F \<in> recursiveChainEntranceFns w \<or> parentFns w F \<subseteq> reached w"
  shows "depth_inv main (assignOrder F w)"
proof -
  have order: "fnOrders (assignOrder F w) (depthOrderedFns (assignOrder F w) ! i) = Some i"
    if "i < length (depthOrderedFns (assignOrder F w))" for i
    using that assms(1,2) unfolding depth_inv_def assignOrder_def
    by (auto simp: nth_append less_Suc_eq)
  have parents: "parentFns w (depthOrderedFns (assignOrder F w) ! i) \<subseteq> set (take i (depthOrderedFns (assignOrder F w)))"
    if "i < length (depthOrderedFns (assignOrder F w))" "0 < i"
      "depthOrderedFns (assignOrder F w) ! i \<notin> recursiveChainEntranceFns w" for i
    using that assms unfolding depth_inv_def assignOrder_def
    by (cases "i < length (depthOrderedFns w)") (auto simp: nth_append less_Suc_eq)
  show ?thesis
    using assms order parents unfolding depth_inv_def by (auto simp: assignOrder_def)
qed

text \<open>
  The traversal: \<open>D\<close> are the functions deferred, \<open>pend\<close> the calls of the current function not yet
  looked at. A function without an order waits for a parent that has none or is still in the queue.
\<close>

definition walk_inv :: "(nat \<Rightarrow> fn_body) \<Rightarrow> nat \<Rightarrow> nat set \<Rightarrow> nat set \<Rightarrow> (nat \<times> nat) set \<Rightarrow> depth_walk \<Rightarrow> bool" where
  "walk_inv P main R D pend w \<longleftrightarrow>
     depth_inv main w \<and> graph_of P R w \<and> reached w \<union> D \<subseteq> R \<and>
     (\<forall>g \<in> reached w - set (funcToTraverse w). \<forall>c \<in> set (callees P g). c \<in> reached w \<union> D \<or> (g, c) \<in> pend) \<and>
     (\<forall>F. F \<notin> reached w \<longrightarrow> parentFns w F \<noteq> {} \<longrightarrow>
        (\<exists>p \<in> parentFns w F. p \<notin> reached w \<or> p \<in> set (funcToTraverse w) \<or> (p, F) \<in> pend))"

lemma walk_inv_waits:
  "walk_inv P main R D pend w \<Longrightarrow> F \<notin> reached w \<Longrightarrow> parentFns w F \<noteq> {} \<Longrightarrow>
     \<exists>p \<in> parentFns w F. p \<notin> reached w \<or> p \<in> set (funcToTraverse w) \<or> (p, F) \<in> pend"
  unfolding walk_inv_def by blast

lemma walk_inv_pending:
  assumes "walk_inv P main R D pend w" "pend - UNIV \<times> reached w \<subseteq> pend'"
  shows "walk_inv P main R D pend' w"
proof -
  have "(g, c) \<in> pend \<Longrightarrow> c \<in> reached w \<or> (g, c) \<in> pend'" for g c using assms(2) by auto
  then have "\<forall>g \<in> reached w - set (funcToTraverse w). \<forall>c \<in> set (callees P g). c \<in> reached w \<union> D \<or> (g, c) \<in> pend'"
    using assms(1) unfolding walk_inv_def by blast
  moreover have "\<exists>p \<in> parentFns w F. p \<notin> reached w \<or> p \<in> set (funcToTraverse w) \<or> (p, F) \<in> pend'"
    if "F \<notin> reached w" "parentFns w F \<noteq> {}" for F
    using walk_inv_waits[OF assms(1) that] assms(2) that(1) by auto
  ultimately show ?thesis using assms(1) unfolding walk_inv_def by blast
qed

lemma walk_inv_pop:
  assumes "walk_inv P main R D {} w" "funcToTraverse w = f # fs"
  shows "walk_inv P main R D ({f} \<times> set (callees P f)) (w\<lparr>funcToTraverse := fs\<rparr>)"
proof -
  have calls: "p \<in> parentFns w F \<Longrightarrow> F \<in> set (callees P p)" for p F
    using assms(1) by (simp add: walk_inv_def graph_of_def)
  have "depth_inv main (w\<lparr>funcToTraverse := fs\<rparr>)"
    using assms by (auto simp: walk_inv_def depth_inv_def)
  moreover have "c \<in> reached w \<union> D \<or> (g, c) \<in> {f} \<times> set (callees P f)"
    if "g \<in> reached w - set fs" "c \<in> set (callees P g)" for g c
  proof (cases "g = f")
    case False
    then have "g \<in> reached w - set (funcToTraverse w)" using that(1) assms(2) by auto
    then show ?thesis using assms(1) that(2) unfolding walk_inv_def by blast
  qed (use that in simp)
  moreover have "\<exists>p \<in> parentFns w F. p \<notin> reached w \<or> p \<in> set fs \<or> (p, F) \<in> {f} \<times> set (callees P f)"
    if F: "F \<notin> reached w" "parentFns w F \<noteq> {}" for F
  proof -
    obtain p where "p \<in> parentFns w F" "p \<notin> reached w \<or> p \<in> set (f # fs)"
      using walk_inv_waits[OF assms(1) F] assms(2) by auto
    then show ?thesis using calls by auto
  qed
  ultimately show ?thesis using assms(1) unfolding walk_inv_def graph_of_def by simp
qed

lemma walk_inv_assignOrder:
  assumes "walk_inv P main R D pend w" "F \<notin> reached w" "F \<in> R"
    and "F \<in> recursiveChainEntranceFns w \<or> parentFns w F \<subseteq> reached w"
  shows "walk_inv P main R D pend (assignOrder F w)"
proof -
  have "depth_inv main (assignOrder F w)"
    using assms depth_inv_assignOrder by (auto simp: walk_inv_def)
  moreover have "\<exists>p \<in> parentFns w F'. p \<notin> insert F (reached w) \<or> p \<in> set (funcToTraverse w @ [F]) \<or> (p, F') \<in> pend"
    if "F' \<notin> insert F (reached w)" "parentFns w F' \<noteq> {}" for F'
    using walk_inv_waits[OF assms(1), of F'] that by auto
  ultimately show ?thesis using assms(1,3) unfolding walk_inv_def
    by (simp add: assignOrder_def graph_of_def)
qed

lemma walk_inv_later:
  assumes "walk_inv P main R (set (deferred w)) ({f} \<times> set (F # fns)) w" "F \<in> R"
    and "p \<in> parentFns w F" "p \<notin> reached w"
  shows "walk_inv P main R (set (deferred w @ [F])) ({f} \<times> set fns) (w\<lparr>deferred := deferred w @ [F]\<rparr>)"
proof -
  have "depth_inv main (w\<lparr>deferred := deferred w @ [F]\<rparr>)"
    using assms(1) by (simp add: walk_inv_def)
  moreover have "c \<in> reached w \<union> set (deferred w @ [F]) \<or> (g, c) \<in> {f} \<times> set fns"
    if "g \<in> reached w - set (funcToTraverse w)" "c \<in> set (callees P g)" for g c
    using assms(1) that unfolding walk_inv_def by fastforce
  moreover have "\<exists>p \<in> parentFns w G. p \<notin> reached w \<or> p \<in> set (funcToTraverse w) \<or> (p, G) \<in> {f} \<times> set fns"
    if "G \<notin> reached w" "parentFns w G \<noteq> {}" for G
    using walk_inv_waits[OF assms(1) that] assms(3,4) by (cases "G = F") auto
  ultimately show ?thesis using assms(1,2) unfolding walk_inv_def graph_of_def by simp
qed

lemma orderChildren_inv:
  assumes "walk_inv P main R (set (deferred w)) ({f} \<times> set fns) w" "set fns \<subseteq> R"
  shows "walk_inv P main R (set (deferred (orderChildren fns w))) {} (orderChildren fns w) \<and>
    recursiveChainEntranceFns (orderChildren fns w) = recursiveChainEntranceFns w"
  using assms
proof (induction fns arbitrary: w)
  case (Cons F fns)
  consider (old) "F \<in> reached w" | (new) "F \<notin> reached w" "\<forall>parent \<in> parentFns w F. parent \<in> reached w"
    | (later) parent where "F \<notin> reached w" "parent \<in> parentFns w F" "parent \<notin> reached w"
    by blast
  then show ?case
  proof cases
    case old
    then have "walk_inv P main R (set (deferred w)) ({f} \<times> set fns) w"
      using Cons.prems(1) by (auto elim: walk_inv_pending)
    then show ?thesis using Cons.IH old Cons.prems(2) by simp
  next
    case new
    from new(2) have "F \<in> recursiveChainEntranceFns w \<or> parentFns w F \<subseteq> reached w" by blast
    from walk_inv_assignOrder[OF Cons.prems(1) new(1) _ this] Cons.prems(2)
    have "walk_inv P main R (set (deferred w)) ({f} \<times> set (F # fns)) (assignOrder F w)" by simp
    then have "walk_inv P main R (set (deferred w)) ({f} \<times> set fns) (assignOrder F w)"
      by (rule walk_inv_pending) (auto simp: assignOrder_def)
    moreover have "deferred (assignOrder F w) = deferred w" by (simp add: assignOrder_def)
    moreover have "recursiveChainEntranceFns (assignOrder F w) = recursiveChainEntranceFns w"
      by (simp add: assignOrder_def)
    moreover have "orderChildren (F # fns) w = orderChildren fns (assignOrder F w)" using new by simp
    ultimately show ?thesis using Cons.IH[of "assignOrder F w"] Cons.prems(2) by simp
  next
    case later
    then have "walk_inv P main R (set (deferred w @ [F])) ({f} \<times> set fns) (w\<lparr>deferred := deferred w @ [F]\<rparr>)"
      using walk_inv_later Cons.prems by simp
    moreover have "orderChildren (F # fns) w = orderChildren fns (w\<lparr>deferred := deferred w @ [F]\<rparr>)"
      using later by auto
    ultimately show ?thesis using Cons.IH[of "w\<lparr>deferred := deferred w @ [F]\<rparr>"] Cons.prems(2) by simp
  qed
qed simp

text \<open>The functions in the queue and those without an order: each step has one less.\<close>

definition open_fns :: "nat set \<Rightarrow> depth_walk \<Rightarrow> nat" where
  "open_fns U w = length (funcToTraverse w) + card (U - reached w)"

lemma open_fns_assignOrder:
  assumes "finite U" "F \<in> U" "F \<notin> reached w"
  shows "open_fns U (assignOrder F w) = open_fns U w"
proof -
  have "U - insert F (reached w) = U - reached w - {F}" by auto
  moreover have "card (U - reached w) > 0" using assms by (auto simp: card_gt_0_iff)
  ultimately show ?thesis using assms by (simp add: open_fns_def assignOrder_def card_Diff_singleton)
qed

lemma open_fns_deferred [simp]: "open_fns U (w\<lparr>deferred := fns\<rparr>) = open_fns U w"
  by (simp add: open_fns_def)

lemma open_fns_entrance [simp]: "open_fns U (w\<lparr>recursiveChainEntranceFns := fns\<rparr>) = open_fns U w"
  by (simp add: open_fns_def)

lemma open_fns_orderChildren:
  "finite U \<Longrightarrow> set fns \<subseteq> U \<Longrightarrow> open_fns U (orderChildren fns w) = open_fns U w"
  by (induction fns arbitrary: w) (simp_all add: Let_def open_fns_assignOrder)

lemma orderReachable_result:
  assumes "walk_inv P main R (set (deferred w)) {} w" "open_fns U w \<le> fuel"
    and "finite U" "R \<subseteq> U" "\<forall>f \<in> R. set (callees P f) \<subseteq> R"
  shows "\<exists>w'. orderReachable fuel w = Some w' \<and> walk_inv P main R (set (deferred w')) {} w' \<and>
    funcToTraverse w' = [] \<and> recursiveChainEntranceFns w' = recursiveChainEntranceFns w \<and>
    open_fns U w' \<le> open_fns U w - length (take 1 (funcToTraverse w))"
  using assms(1,2)
proof (induction fuel arbitrary: w)
  case 0
  then have "funcToTraverse w = []" by (simp add: open_fns_def)
  then show ?case using 0 by (subst orderReachable.simps) simp
next
  case (Suc fuel)
  show ?case
  proof (cases "funcToTraverse w")
    case Nil
    then show ?thesis using Suc.prems by (subst orderReachable.simps) simp
  next
    case (Cons f fs)
    let ?w = "w\<lparr>funcToTraverse := fs\<rparr>"
    let ?w' = "orderChildren (childrenFns w f) ?w"
    have f: "f \<in> R" and children: "childrenFns w f = callees P f"
      using Suc.prems(1) Cons by (auto simp: walk_inv_def depth_inv_def graph_of_def)
    then have sub: "set (childrenFns w f) \<subseteq> R" using assms(5) by simp
    have inv: "walk_inv P main R (set (deferred ?w')) {} ?w'"
      and entrances: "recursiveChainEntranceFns ?w' = recursiveChainEntranceFns w"
      using orderChildren_inv[of P main R ?w f "childrenFns w f"] walk_inv_pop[OF Suc.prems(1) Cons] sub
      by (simp_all add: children)
    have opn: "open_fns U ?w' = open_fns U ?w" "open_fns U w = Suc (open_fns U ?w)"
      using open_fns_orderChildren[of U "childrenFns w f" ?w] assms(3,4) sub Cons
      by (auto simp: open_fns_def)
    then have "open_fns U ?w' \<le> fuel" using Suc.prems(2) by simp
    from Suc.IH[OF inv this] show ?thesis
      using Cons opn entrances by (subst orderReachable.simps) (fastforce simp: take_Cons')
  qed
qed

lemma walk_inv_dom: "walk_inv P main R D pend w \<Longrightarrow> dom (fnOrders w) = reached w"
  by (simp add: walk_inv_def depth_inv_def)

lemma walk_inv_entrance:
  assumes "walk_inv P main R D pend w"
  shows "walk_inv P main R D pend (w\<lparr>recursiveChainEntranceFns := insert F (recursiveChainEntranceFns w)\<rparr>)"
proof -
  have "graph_of P R (w\<lparr>recursiveChainEntranceFns := insert F (recursiveChainEntranceFns w)\<rparr>) = graph_of P R w"
    by (simp add: graph_of_def)
  then show ?thesis using assms depth_inv_entrance by (simp add: walk_inv_def)
qed

lemma walk_inv_deferred:
  assumes "walk_inv P main R (set (F # fns)) {} w" "F \<in> reached w"
  shows "walk_inv P main R (set fns) {} w"
proof -
  have "c \<in> reached w \<union> set (F # fns) \<Longrightarrow> c \<in> reached w \<union> set fns" for c using assms(2) by auto
  then have "\<forall>g \<in> reached w - set (funcToTraverse w). \<forall>c \<in> set (callees P g). c \<in> reached w \<union> set fns \<or> (g, c) \<in> {}"
    using assms(1) unfolding walk_inv_def by blast
  then show ?thesis using assms(1) unfolding walk_inv_def by simp
qed

lemma orderRemaining_result:
  assumes "walk_inv P main R (set fns) {} w" "set remaining \<subseteq> reached w" "finite U" "R \<subseteq> U"
  shows "walk_inv P main R (set (deferred (orderRemaining fns remaining w))) {} (orderRemaining fns remaining w) \<and>
    set (deferred (orderRemaining fns remaining w)) \<subseteq> reached (orderRemaining fns remaining w) \<and>
    open_fns U (orderRemaining fns remaining w) = open_fns U w \<and>
    (set fns \<subseteq> reached w \<longrightarrow>
       recursiveChainEntranceFns (orderRemaining fns remaining w) = recursiveChainEntranceFns w)"
  using assms(1,2)
proof (induction fns arbitrary: remaining w)
  case Nil
  have "reached w \<subseteq> R" using Nil.prems(1) by (simp add: walk_inv_def)
  then have "walk_inv P main R (set remaining) {} (w\<lparr>deferred := remaining\<rparr>)"
    using Nil.prems unfolding walk_inv_def graph_of_def by simp blast
  then show ?case using Nil.prems(2) by simp
next
  case (Cons F fns)
  have none: "fnOrders w F = None \<longleftrightarrow> F \<notin> reached w"
    using walk_inv_dom[OF Cons.prems(1)] by blast
  show ?case
  proof (cases "F \<in> reached w")
    case True
    then have "walk_inv P main R (set fns) {} w" by (rule walk_inv_deferred[OF Cons.prems(1)])
    moreover have "orderRemaining (F # fns) remaining w = orderRemaining fns remaining w"
      using none True by auto
    ultimately show ?thesis using Cons.IH[OF _ Cons.prems(2)] True by simp
  next
    case False
    let ?w = "w\<lparr>recursiveChainEntranceFns := insert F (recursiveChainEntranceFns w)\<rparr>"
    have F: "F \<in> R" using Cons.prems(1) by (simp add: walk_inv_def)
    have "walk_inv P main R (set (F # fns)) {} ?w"
      by (rule walk_inv_entrance[OF Cons.prems(1)])
    from walk_inv_assignOrder[OF this _ F] False
    have "walk_inv P main R (set (F # fns)) {} (assignOrder F ?w)" by simp
    then have inv: "walk_inv P main R (set fns) {} (assignOrder F ?w)"
      by (rule walk_inv_deferred) (simp add: assignOrder_def)
    have rem: "set (remaining @ [F]) \<subseteq> reached (assignOrder F ?w)"
      using Cons.prems(2) by (auto simp: assignOrder_def)
    have "open_fns U (assignOrder F ?w) = open_fns U w"
      using open_fns_assignOrder[of U F ?w] assms(3,4) F False by auto
    then show ?thesis using Cons.IH[OF inv rem] none False by simp
  qed
qed

text \<open>Without recursion every function gets its order in the first round.\<close>

lemma acyclic_all_reached:
  assumes "walk_inv P main R D {} w" "funcToTraverse w = []" "acyclic (calls_rel P)" "finite R"
    and "R = (calls_rel P)\<^sup>* `` {main}"
  shows "R \<subseteq> reached w"
proof (rule ccontr)
  assume "\<not> R \<subseteq> reached w"
  let ?X = "R - reached w"
  let ?r = "calls_rel P \<inter> ?X \<times> ?X"
  have "finite (?X \<times> ?X)" using assms(4) by simp
  then have "finite ?r" by (rule rev_finite_subset) blast
  moreover have "acyclic ?r" using assms(3) by (rule acyclic_subset) blast
  ultimately have "wf ?r" by (rule finite_acyclic_wf)
  moreover obtain x where "x \<in> ?X" using \<open>\<not> R \<subseteq> reached w\<close> by blast
  ultimately obtain z where z: "z \<in> ?X" "\<forall>y. (y, z) \<in> ?r \<longrightarrow> y \<notin> ?X"
    by (metis wf_eq_minimal)
  have main: "main \<in> reached w"
    using assms(1) unfolding walk_inv_def depth_inv_def by (metis list.set_sel(1))
  have parents: "parentFns w z = {p \<in> R. z \<in> set (callees P p)}"
    using assms(1) by (simp add: walk_inv_def graph_of_def)
  have "(main, z) \<in> (calls_rel P)\<^sup>*" "z \<noteq> main" using z(1) main assms(5) by auto
  then obtain p where "(main, p) \<in> (calls_rel P)\<^sup>*" "(p, z) \<in> calls_rel P" by (metis rtranclE)
  then have "parentFns w z \<noteq> {}" using parents assms(5) by (auto simp: calls_rel_def)
  then obtain q where "q \<in> parentFns w z" "q \<notin> reached w"
    using walk_inv_waits[OF assms(1), of z] z(1) assms(2) by auto
  then show False using z parents by (auto simp: calls_rel_def)
qed

lemma orderRounds_result:
  assumes "walk_inv P main R (set (deferred w)) {} w" "open_fns U w \<le> fuel" "open_fns U w \<le> steps"
    and "set (deferred w) \<subseteq> reached w"
    and "finite U" "R \<subseteq> U" "\<forall>f \<in> R. set (callees P f) \<subseteq> R" "R = (calls_rel P)\<^sup>* `` {main}"
  shows "\<exists>w'. orderRounds fuel steps w = Some w' \<and> walk_inv P main R (set (deferred w')) {} w' \<and>
    funcToTraverse w' = [] \<and> set (deferred w') \<subseteq> reached w' \<and>
    (acyclic (calls_rel P) \<longrightarrow> recursiveChainEntranceFns w' = recursiveChainEntranceFns w)"
  using assms(1-4)
proof (induction fuel arbitrary: w)
  case 0
  then have "funcToTraverse w = []" by (simp add: open_fns_def)
  then show ?case using 0 by (subst orderRounds.simps) simp
next
  case (Suc fuel)
  show ?case
  proof (cases "funcToTraverse w = []")
    case True
    then show ?thesis using Suc.prems by (subst orderRounds.simps) simp
  next
    case False
    obtain w1 where w1: "orderReachable steps w = Some w1" "walk_inv P main R (set (deferred w1)) {} w1"
      "funcToTraverse w1 = []" "recursiveChainEntranceFns w1 = recursiveChainEntranceFns w"
      "open_fns U w1 \<le> open_fns U w - length (take 1 (funcToTraverse w))"
      using orderReachable_result[OF Suc.prems(1,3) assms(5-7)] by blast
    let ?w = "orderRemaining (deferred w1) [] w1"
    have less: "open_fns U w1 < open_fns U w"
      using w1(5) False by (cases "funcToTraverse w") (auto simp: open_fns_def)
    from orderRemaining_result[OF w1(2) _ assms(5,6), of "[]"]
    have next_round: "walk_inv P main R (set (deferred ?w)) {} ?w" "set (deferred ?w) \<subseteq> reached ?w"
      "open_fns U ?w = open_fns U w1"
      "set (deferred w1) \<subseteq> reached w1 \<longrightarrow> recursiveChainEntranceFns ?w = recursiveChainEntranceFns w1" by auto
    have "open_fns U ?w \<le> fuel" "open_fns U ?w \<le> steps" using next_round(3) less Suc.prems(2,3) by auto
    from Suc.IH[OF next_round(1) this next_round(2)] obtain w' where w': "orderRounds fuel steps ?w = Some w'"
      "walk_inv P main R (set (deferred w')) {} w'" "funcToTraverse w' = []" "set (deferred w') \<subseteq> reached w'"
      "acyclic (calls_rel P) \<longrightarrow> recursiveChainEntranceFns w' = recursiveChainEntranceFns ?w" by blast
    have "finite R" using assms(5,6) by (rule finite_subset[rotated])
    then have "acyclic (calls_rel P) \<longrightarrow> set (deferred w1) \<subseteq> reached w1"
      using acyclic_all_reached[OF w1(2,3) _ _ assms(8)] w1(2) unfolding walk_inv_def by blast
    then show ?thesis using w' next_round(4) w1(1,4) False by (subst orderRounds.simps) auto
  qed
qed

lemma collectFnGraph_result:
  assumes "finite U" "main \<in> U" "\<forall>f \<in> U. set (callees P f) \<subseteq> U"
    and "\<forall>f. childrenFns s f = [] \<and> parentFns s f = {}"
  shows "\<exists>s'. collectFnGraph P (card U) main s = Some s' \<and> graph_of P ((calls_rel P)\<^sup>* `` {main}) s'"
proof -
  have "card U > 0" using assms(1,2) by (auto simp: card_gt_0_iff)
  then have "length [main] + card (U - {main}) \<le> card U" using assms(1,2) by (simp add: card_Diff_singleton)
  moreover have "graph_of P ({main} - set [main]) s" using assms(4) by (simp add: graph_of_def)
  ultimately show ?thesis unfolding collectFnGraph_def
    using traverseCallGraph_result[OF assms(1,3), of "[main]" "{main}"] assms(2) by simp
qed

lemma reachable_subset:
  assumes "main \<in> U" "\<forall>f \<in> U. set (callees P f) \<subseteq> U"
  shows "(calls_rel P)\<^sup>* `` {main} \<subseteq> U"
proof -
  have "calls_rel P `` U \<subseteq> U" using assms(2) by (auto simp: calls_rel_def)
  then have "(calls_rel P)\<^sup>* `` U = U" by (rule Image_closed_trancl)
  then show ?thesis using assms(1) by blast
qed

lemma startDepthOrder_inv:
  assumes "graph_of P R s" "main \<in> R"
  shows "walk_inv P main R {} {} (startDepthOrder main s)"
proof -
  have "depth_inv main (startDepthOrder main s)"
    by (simp add: depth_inv_def startDepthOrder_def inliner.defs depth_walk.defs)
  then show ?thesis using assms
    by (auto simp: walk_inv_def graph_of_def startDepthOrder_def inliner.defs depth_walk.defs)
qed

lemma depth_inv_calls:
  assumes "depth_inv main w" "p \<in> parentFns w c" "c \<in> set (depthOrderedFns w)" "c \<noteq> main"
    "c \<notin> recursiveChainEntranceFns w"
  shows "the (fnOrders w p) < the (fnOrders w c)"
proof -
  obtain i where i: "i < length (depthOrderedFns w)" "depthOrderedFns w ! i = c"
    using assms(3) by (auto simp: in_set_conv_nth)
  have "depthOrderedFns w ! 0 = main" using assms(1) unfolding depth_inv_def by (metis hd_conv_nth)
  then have "i \<noteq> 0" using assms(4) i by metis
  then have "p \<in> set (take i (depthOrderedFns w))"
    using assms(1,2,5) i unfolding depth_inv_def by (metis gr0I subsetD)
  then obtain j where "j < i" "depthOrderedFns w ! j = p" by (auto simp: in_set_conv_nth)
  moreover have "fnOrders w (depthOrderedFns w ! k) = Some k" if "k < length (depthOrderedFns w)" for k
    using assms(1) that by (simp add: depth_inv_def)
  ultimately show ?thesis using i by (metis less_trans option.sel)
qed

lemma depth_order_complete:
  assumes "finite U" "main \<in> U" "\<forall>f \<in> U. set (callees P f) \<subseteq> U"
    and s1: "graph_of P ((calls_rel P)\<^sup>* `` {main}) s1"
  shows "\<exists>t. collectInDepthOrderFns (card U) main s1 = Some t \<and>
    distinct (depthOrderedFns t) \<and> set (depthOrderedFns t) = (calls_rel P)\<^sup>* `` {main} \<and>
    (\<forall>i < length (depthOrderedFns t). fnOrders t (depthOrderedFns t ! i) = Some i) \<and>
    (\<forall>p c. p \<in> set (depthOrderedFns t) \<and> (p, c) \<in> calls_rel P \<and> c \<noteq> main \<and> c \<notin> recursiveChainEntranceFns t \<longrightarrow>
       the (fnOrders t p) < the (fnOrders t c)) \<and>
    (acyclic (calls_rel P) \<longrightarrow> recursiveChainEntranceFns t = {})"
proof -
  let ?R = "(calls_rel P)\<^sup>* `` {main}"
  let ?w = "startDepthOrder main s1"
  have start: "deferred ?w = []" "recursiveChainEntranceFns ?w = {}" "reached ?w = {main}" "funcToTraverse ?w = [main]"
    by (simp_all add: startDepthOrder_def inliner.defs depth_walk.defs)
  have "card U > 0" using assms(1,2) by (auto simp: card_gt_0_iff)
  then have fuel: "open_fns U ?w \<le> card U" using assms(1,2) start by (simp add: open_fns_def card_Diff_singleton)
  have inv: "walk_inv P main ?R (set (deferred ?w)) {} ?w" using startDepthOrder_inv[OF s1] start by simp
  have closed: "\<forall>f \<in> ?R. set (callees P f) \<subseteq> ?R" by (auto simp: calls_rel_def intro: rtrancl_into_rtrancl)
  obtain w where w: "orderRounds (card U) (card U) ?w = Some w" "walk_inv P main ?R (set (deferred w)) {} w"
    "funcToTraverse w = []" "set (deferred w) \<subseteq> reached w"
    "acyclic (calls_rel P) \<longrightarrow> recursiveChainEntranceFns w = {}"
    using orderRounds_result[OF inv fuel fuel _ assms(1) reachable_subset[OF assms(2,3)] closed refl] start by auto
  let ?t = "inliner.truncate w"
  have d: "depth_inv main w" using w(2) by (simp add: walk_inv_def)
  have "\<forall>g \<in> reached w. \<forall>c \<in> set (callees P g). c \<in> reached w \<union> set (deferred w)"
    using w(2,3) by (simp add: walk_inv_def)
  then have "calls_rel P `` reached w \<subseteq> reached w" using w(4) by (auto simp: calls_rel_def)
  then have "(calls_rel P)\<^sup>* `` reached w = reached w" by (rule Image_closed_trancl)
  moreover have "main \<in> reached w" using d unfolding depth_inv_def by (metis list.set_sel(1))
  moreover have "reached w \<subseteq> ?R" using w(2) by (simp add: walk_inv_def)
  ultimately have all: "set (depthOrderedFns w) = ?R" using d unfolding depth_inv_def by blast
  have "the (fnOrders w p) < the (fnOrders w c)"
    if "p \<in> ?R" "(p, c) \<in> calls_rel P" "c \<noteq> main" "c \<notin> recursiveChainEntranceFns w" for p c
  proof -
    have "p \<in> parentFns w c" using w(2) that(1,2) by (simp add: walk_inv_def graph_of_def calls_rel_def)
    moreover have "c \<in> set (depthOrderedFns w)" using that(1,2) all by (auto intro: rtrancl_into_rtrancl)
    ultimately show ?thesis using depth_inv_calls[OF d] that(3,4) by blast
  qed
  then have "\<forall>p c. p \<in> set (depthOrderedFns ?t) \<and> (p, c) \<in> calls_rel P \<and> c \<noteq> main \<and>
      c \<notin> recursiveChainEntranceFns ?t \<longrightarrow> the (fnOrders ?t p) < the (fnOrders ?t c)"
    by (simp add: inliner.defs all)
  moreover have "distinct (depthOrderedFns ?t)" "set (depthOrderedFns ?t) = ?R"
    "\<forall>i < length (depthOrderedFns ?t). fnOrders ?t (depthOrderedFns ?t ! i) = Some i"
    "acyclic (calls_rel P) \<longrightarrow> recursiveChainEntranceFns ?t = {}"
    using d w(5) all by (simp_all add: inliner.defs depth_inv_def)
  moreover have "collectInDepthOrderFns (card U) main s1 = Some ?t"
    using w(1) by (simp add: collectInDepthOrderFns_def)
  ultimately show ?thesis by blast
qed

text \<open>
  The depth order lists every function the program can reach from its entry once, at the position
  recorded as its order. A function that is not taken for the entrance of a recursive chain comes after
  every function that calls it, and without recursion no function is. The traversals end: one step for each
  function is enough for each of the three loops.
\<close>
theorem depth_order:
  assumes "finite U" "main \<in> U" "\<forall>f \<in> U. set (callees P f) \<subseteq> U"
    and "\<forall>f. childrenFns s f = [] \<and> parentFns s f = {}"
  shows "\<exists>s1 t. collectFnGraph P (card U) main s = Some s1 \<and> collectInDepthOrderFns (card U) main s1 = Some t \<and>
    distinct (depthOrderedFns t) \<and> set (depthOrderedFns t) = (calls_rel P)\<^sup>* `` {main} \<and>
    (\<forall>i < length (depthOrderedFns t). fnOrders t (depthOrderedFns t ! i) = Some i) \<and>
    (\<forall>p c. p \<in> set (depthOrderedFns t) \<and> (p, c) \<in> calls_rel P \<and> c \<noteq> main \<and> c \<notin> recursiveChainEntranceFns t \<longrightarrow>
       the (fnOrders t p) < the (fnOrders t c)) \<and>
    (acyclic (calls_rel P) \<longrightarrow> recursiveChainEntranceFns t = {})"
proof -
  obtain s1 where "collectFnGraph P (card U) main s = Some s1" "graph_of P ((calls_rel P)\<^sup>* `` {main}) s1"
    using collectFnGraph_result[OF assms] by blast
  then show ?thesis using depth_order_complete[OF assms(1-3)] by blast
qed

section \<open>An example\<close>

text \<open>
  The entry function 0 calls 1 and 3; 1 and 2 call each other, and 2 calls 3. The function 3 calls
  nothing and is still taken for the entrance of a recursive chain.
\<close>

definition mutual_recursion :: "nat \<Rightarrow> fn_body" where
  "mutual_recursion f =
     (if f = 0 then \<lparr>callsOfBlocks = [[(10, Some 1)], [(11, Some 3), (12, None)]], callGraphCalls = {10, 11}\<rparr>
      else if f = 1 then \<lparr>callsOfBlocks = [[(13, Some 2), (14, Some 9)]], callGraphCalls = {13, 14}\<rparr>
      else if f = 2 then \<lparr>callsOfBlocks = [[], [(15, Some 1), (16, Some 3)]], callGraphCalls = {15, 16}\<rparr>
      else if f = 3 then \<lparr>callsOfBlocks = [[]], callGraphCalls = {}\<rparr>
      else \<lparr>callsOfBlocks = [], callGraphCalls = {}\<rparr>)"

definition new_inliner :: inliner where
  "new_inliner = \<lparr>parentFns = (\<lambda>_. {}), childrenFns = (\<lambda>_. []), orderedCalls = (\<lambda>_. []), orderedCalled = (\<lambda>_. []),
     depthOrderedFns = [], recursiveChainEntranceFns = {}, fnOrders = Map.empty, preOrderedLoops = Map.empty,
     fnsAffected = {}, fnsToCheck = {}\<rparr>"

lemma mutual_recursion_callees:
  "callees mutual_recursion f = (if f = 0 then [1, 3] else if f = 1 then [2] else if f = 2 then [1, 3] else [])"
  by (simp add: callees_def linkedCalls_def mutual_recursion_def isDefined_def List.map_filter_def)

lemma depth_order_witness:
  "\<exists>s1 t. collectFnGraph mutual_recursion 4 0 new_inliner = Some s1 \<and> collectInDepthOrderFns 4 0 s1 = Some t \<and>
     set (depthOrderedFns t) = (calls_rel mutual_recursion)\<^sup>* `` {0}"
proof -
  have card: "card {0, 1, 2, 3 :: nat} = 4" by simp
  have "\<forall>f \<in> {0, 1, 2, 3}. set (callees mutual_recursion f) \<subseteq> {0, 1, 2, 3}"
    by (simp add: mutual_recursion_callees)
  from depth_order[OF _ _ this, of 0 new_inliner, unfolded card] show ?thesis
    by (simp add: new_inliner_def) blast
qed

lemma leaf_taken_for_entrance:
  "\<exists>s1 t. collectFnGraph mutual_recursion 4 0 new_inliner = Some s1 \<and> collectInDepthOrderFns 4 0 s1 = Some t \<and>
     depthOrderedFns t = [0, 1, 3, 2] \<and> recursiveChainEntranceFns t = {1, 3} \<and> callees mutual_recursion 3 = []"
  by (simp add: collectFnGraph_def collectChildren_def collectFnCallsAndCalled_def new_inliner_def
        linkedCalls_def mutual_recursion_def isDefined_def List.map_filter_def addParent_def
        collectInDepthOrderFns_def startDepthOrder_def inliner.defs depth_walk.defs numeral_eq_Suc
        orderRounds.simps orderReachable.simps assignOrder_def Let_def callees_def insert_commute)

end
