(* ===== verification/Inliner.thy ===== *)
theory Inliner
  imports Inliner_Order Std_Sort Cpp_Strings
begin

text \<open>
  What the inliner does with the order of \<open>Inliner_Order\<close>: inlining one call and the bookkeeping after
  it (\<open>inliner/src/Inliner.cpp\<close>), hoisting loops towards the entry function, the file that carries
  functions to the next run of the pass, and inlining of calls that carry dependences around a loop
  (\<open>Inliner_loopCarried.cpp\<close>).
\<close>

section \<open>Inlining one call\<close>

text \<open>
  What the inliner asks of LLVM and NOELLE: the size of a function, whether \<open>InlineFunction\<close> succeeds on a
  call, the blocks of the caller after the one of a call, the header of a loop and the callee of a call.
\<close>

record inline_env =
  staticInstructions :: "nat \<Rightarrow> nat"
  inlineSucceeds :: "nat \<Rightarrow> bool"
  blocksAfter :: "nat \<Rightarrow> nat list"
  loopHeader :: "nat \<Rightarrow> nat"
  calledFunction :: "nat \<Rightarrow> nat option"

definition canInlineWithoutRecursiveLoop :: "('a) inliner_scheme \<Rightarrow> nat \<Rightarrow> bool" where
  "canInlineWithoutRecursiveLoop s childF = (childF \<notin> recursiveChainEntranceFns s)"

text \<open>\<open>operator[]\<close> of \<open>fnOrders\<close> gives 0 to a function without an order.\<close>

definition fnOrder :: "('a) inliner_scheme \<Rightarrow> nat \<Rightarrow> nat" where
  "fnOrder s F = (case fnOrders s F of Some n \<Rightarrow> n | None \<Rightarrow> 0)"

text \<open>
  The index of the loop with a header; the lambda of the code returns 0 when there is none, and its
  caller compares the index with -1.
\<close>

fun getSummaryIfHeader :: "inline_env \<Rightarrow> nat list \<Rightarrow> nat \<Rightarrow> int \<Rightarrow> int" where
  "getSummaryIfHeader E [] BB i = 0"
| "getSummaryIfHeader E (summary # summaries) BB i =
     (if loopHeader E summary = BB then i else getSummaryIfHeader E summaries BB (i + 1))"

fun nextLoopInBlocks :: "inline_env \<Rightarrow> nat list \<Rightarrow> nat list \<Rightarrow> int" where
  "nextLoopInBlocks E summaries [] = 0"
| "nextLoopInBlocks E summaries (BB # blocks) =
     (let sInd = getSummaryIfHeader E summaries BB 0
      in if sInd \<noteq> -1 then sInd else nextLoopInBlocks E summaries blocks)"

definition getNextPreorderLoopAfter :: "inline_env \<Rightarrow> ('a) inliner_scheme \<Rightarrow> nat \<Rightarrow> nat \<Rightarrow> int" where
  "getNextPreorderLoopAfter E s F call =
     (case preOrderedLoops s F of
        None \<Rightarrow> 0
      | Some summaries \<Rightarrow> nextLoopInBlocks E summaries (blocksAfter E call))"

text \<open>Making room in a vector and filling it, as both adjustments do.\<close>

fun shiftUp :: "nat list \<Rightarrow> nat \<Rightarrow> nat \<Rightarrow> nat \<Rightarrow> nat list" where
  "shiftUp xs 0 endInd n = xs"
| "shiftUp xs (Suc shiftIndex) endInd n =
     (if shiftIndex < endInd then xs else shiftUp (xs[shiftIndex := xs ! (shiftIndex - n)]) shiftIndex endInd n)"

fun copyInto :: "nat list \<Rightarrow> nat \<Rightarrow> nat list \<Rightarrow> nat list" where
  "copyInto xs index [] = xs"
| "copyInto xs index (y # ys) = copyInto (xs[index := y]) (Suc index) ys"

definition insertShifted :: "nat list \<Rightarrow> nat \<Rightarrow> nat list \<Rightarrow> nat list" where
  "insertShifted xs index ys =
     (let n = length ys; xs = xs @ replicate n 0
      in copyInto (shiftUp xs (length xs) (index + n) n) index ys)"

definition adjustLoopOrdersAfterInline :: "nat \<Rightarrow> nat \<Rightarrow> nat \<Rightarrow> ('a) inliner_scheme \<Rightarrow> ('a) inliner_scheme" where
  "adjustLoopOrdersAfterInline parentF childF nextLoopInd s =
     (case preOrderedLoops s childF of
        None \<Rightarrow> s
      | Some childLoops \<Rightarrow>
          if childLoops = [] then s
          else
            let parentLoops = (case preOrderedLoops s parentF of None \<Rightarrow> [] | Some loops \<Rightarrow> loops)
            in s\<lparr>preOrderedLoops := (preOrderedLoops s)(parentF \<mapsto> insertShifted parentLoops nextLoopInd childLoops)\<rparr>)"

definition adjustFnGraphAfterInline :: "nat \<Rightarrow> nat \<Rightarrow> nat \<Rightarrow> ('a) inliner_scheme \<Rightarrow> ('a) inliner_scheme result" where
  "adjustFnGraphAfterInline parentF childF callInd s =
     (if callInd \<ge> length (orderedCalled s parentF) then Inl UndefinedBehaviour
      else
        let parentCalled = take callInd (orderedCalled s parentF) @ drop (Suc callInd) (orderedCalled s parentF);
            childCalled = (orderedCalled s)(parentF := parentCalled);
            parentCalled = (if childCalled childF = [] then parentCalled
                            else insertShifted parentCalled callInd (childCalled childF));
            children = firstInvocations parentCalled {};
            parents = (parentFns s)(childF := parentFns s childF - {parentF})
        in Inr (s\<lparr>orderedCalled := (orderedCalled s)(parentF := parentCalled),
                  childrenFns := (childrenFns s)(parentF := children),
                  parentFns := addParent parentF children parents\<rparr>))"

text \<open>The position of an element, the length of the list when there is none (\<open>std::find\<close>).\<close>

fun indexOf :: "nat \<Rightarrow> nat list \<Rightarrow> nat" where
  "indexOf x [] = 0"
| "indexOf x (y # ys) = (if x = y then 0 else Suc (indexOf x ys))"

definition inlineFunctionCall ::
    "inline_env \<Rightarrow> nat \<Rightarrow> nat \<Rightarrow> nat \<Rightarrow> ('a) inliner_scheme \<Rightarrow> (bool \<times> ('a) inliner_scheme) result" where
  "inlineFunctionCall E F childF call s =
     (if F \<in> fnsAffected s then Inr (False, s)
      else if \<not> canInlineWithoutRecursiveLoop s childF then Inr (False, s)
      else if staticInstructions E F > 1000 then Inr (False, s)
      else
        let loopIndAfterCall = getNextPreorderLoopAfter E s F call;
            callInd = indexOf call (orderedCalls s F)
        in if inlineSucceeds E call
           then map_sum id (Pair True)
                  (adjustFnGraphAfterInline F childF callInd
                    (adjustLoopOrdersAfterInline F childF (nat loopIndAfterCall)
                      (s\<lparr>fnsAffected := insert F (fnsAffected s)\<rparr>)))
           else Inr (False, s))"

lemma shiftUp_length [simp]: "length (shiftUp xs k endInd n) = length xs"
  by (induction xs k endInd n rule: shiftUp.induct) auto

lemma shiftUp_nth:
  assumes "k \<le> length xs" "n \<le> endInd" "i < length xs"
  shows "shiftUp xs k endInd n ! i = (if endInd \<le> i \<and> i < k then xs ! (i - n) else xs ! i)"
  using assms
proof (induction xs k endInd n rule: shiftUp.induct)
  case (2 xs k endInd n)
  show ?case
  proof (cases "k < endInd")
    case False
    have "xs[k := xs ! (k - n)] ! (i - n) = xs ! (i - n)" if "i < k" using that by simp
    moreover have "k < length xs" using "2.prems"(1) by simp
    ultimately show ?thesis using "2.IH"[OF False] "2.prems" False
      by (auto simp: nth_list_update less_Suc_eq)
  qed auto
qed simp

lemma copyInto_length [simp]: "length (copyInto xs i ys) = length xs"
  by (induction ys arbitrary: xs i) auto

lemma copyInto_nth:
  "j < length xs \<Longrightarrow> copyInto xs i ys ! j = (if i \<le> j \<and> j < i + length ys then ys ! (j - i) else xs ! j)"
proof (induction ys arbitrary: xs i)
  case (Cons y ys)
  have "ys ! (j - Suc i) = (y # ys) ! (j - i)" if "Suc i \<le> j" using that by (simp add: nth_Cons')
  then show ?case using Cons by (auto simp: nth_list_update)
qed simp

lemma insertShifted_eq:
  assumes "i \<le> length xs"
  shows "insertShifted xs i ys = take i xs @ ys @ drop i xs"
proof (rule nth_equalityI)
  show "length (insertShifted xs i ys) = length (take i xs @ ys @ drop i xs)"
    using assms by (simp add: insertShifted_def Let_def)
next
  fix j assume "j < length (insertShifted xs i ys)"
  then have j: "j < length xs + length ys" by (simp add: insertShifted_def Let_def)
  have n: "n \<le> i + n" for n :: nat by simp
  have "insertShifted xs i ys ! j =
      (if i \<le> j \<and> j < i + length ys then ys ! (j - i)
       else if i + length ys \<le> j then (xs @ replicate (length ys) 0) ! (j - length ys)
       else (xs @ replicate (length ys) 0) ! j)"
    using j by (simp add: insertShifted_def Let_def copyInto_nth shiftUp_nth)
  moreover have "xs ! (j - length ys) = drop i xs ! (j - i - length ys)" if "i + length ys \<le> j"
    using that assms by (simp add: nth_drop)
  ultimately show "insertShifted xs i ys ! j = (take i xs @ ys @ drop i xs) ! j"
    using j assms by (auto simp: nth_append min_def)
qed

section \<open>Hoisting loops towards the entry function\<close>

text \<open>The local variables of \<open>inlineFnsOfLoopsToCGRoot\<close> beside the state.\<close>

record hoist = inliner +
  orderedFns :: "nat list"
  fnIndex :: nat
  fnsWillCheck :: "nat set"
  fnsToAvoid :: "nat set"
  inlinedAny :: bool

definition sortInDepthOrderFns ::
    "((nat \<Rightarrow> nat \<Rightarrow> bool) \<Rightarrow> nat list \<Rightarrow> nat list) \<Rightarrow> ('a) inliner_scheme \<Rightarrow> nat list \<Rightarrow> nat list" where
  "sortInDepthOrderFns stdSort s fns = stdSort (\<lambda>a b. fnOrder s a > fnOrder s b) fns"

text \<open>The loop over the calls of a parent, with the flags of the function and of this loop.\<close>

fun inlineCachedCalls :: "inline_env \<Rightarrow> nat \<Rightarrow> nat \<Rightarrow> nat list \<Rightarrow> bool \<Rightarrow> hoist \<Rightarrow> (bool \<times> hoist) result" where
  "inlineCachedCalls E parentF childF [] inlinedCalls w = Inr (inlinedCalls, w)"
| "inlineCachedCalls E parentF childF (call # calls) inlinedCalls w =
     (if calledFunction E call \<noteq> Some childF then inlineCachedCalls E parentF childF calls inlinedCalls w
      else case inlineFunctionCall E parentF childF call w of
        Inl e \<Rightarrow> Inl e
      | Inr (inlinedCall, w) \<Rightarrow>
          let w = w\<lparr>inlinedAny := inlinedAny w \<or> inlinedCall\<rparr>;
              inlinedCalls = (inlinedCalls \<and> inlinedCall)
          in if inlinedAny w then Inr (inlinedCalls, w)
             else inlineCachedCalls E parentF childF calls inlinedCalls w)"

text \<open>
  One parent. \<open>insertIndex\<close> of the code stays 0: the loop that should find the place of the parent
  does not set it.
\<close>

definition inlineIntoParent :: "inline_env \<Rightarrow> nat \<Rightarrow> nat \<Rightarrow> bool \<Rightarrow> hoist \<Rightarrow> (bool \<times> hoist) result" where
  "inlineIntoParent E childF parentF inlinedInParents w =
     (if parentF \<in> fnsAffected w then Inr (inlinedInParents, w)
      else if \<not> canInlineWithoutRecursiveLoop w childF then Inr (inlinedInParents, w)
      else if parentF = childF then Inr (inlinedInParents, w)
      else if fnOrder w parentF > fnOrder w childF then Inr (inlinedInParents, w)
      else
        case inlineCachedCalls E parentF childF (sorted_list_of_set (set (orderedCalls w parentF))) True w of
          Inl e \<Rightarrow> Inl e
        | Inr (inlinedCalls, w) \<Rightarrow>
            let inlinedInParents = (inlinedInParents \<and> inlinedCalls) in
            if \<not> inlinedCalls then Inr (inlinedInParents, w\<lparr>fnsToAvoid := insert parentF (fnsToAvoid w)\<rparr>)
            else if parentF \<in> fnsWillCheck w then Inr (inlinedInParents, w)
            else
              let insertIndex = 0 in
              Inr (inlinedInParents, w\<lparr>fnsWillCheck := insert parentF (fnsWillCheck w),
                orderedFns := take insertIndex (orderedFns w) @ parentF # drop insertIndex (orderedFns w)\<rparr>))"

fun inlineIntoParents :: "inline_env \<Rightarrow> nat \<Rightarrow> nat list \<Rightarrow> bool \<Rightarrow> hoist \<Rightarrow> (bool \<times> hoist) result" where
  "inlineIntoParents E childF [] inlinedInParents w = Inr (inlinedInParents, w)"
| "inlineIntoParents E childF (parentF # parents) inlinedInParents w =
     (case inlineIntoParent E childF parentF inlinedInParents w of
        Inl e \<Rightarrow> Inl e
      | Inr (inlinedInParents, w) \<Rightarrow> inlineIntoParents E childF parents inlinedInParents w)"

definition hoistStep :: "inline_env \<Rightarrow> hoist \<Rightarrow> hoist result" where
  "hoistStep E w =
     (let childF = orderedFns w ! fnIndex w;
          w = w\<lparr>fnIndex := Suc (fnIndex w)\<rparr>
      in if childF \<in> fnsToAvoid w then Inr (w\<lparr>fnsToAvoid := fnsToAvoid w \<union> parentFns w childF\<rparr>)
         else case inlineIntoParents E childF (sorted_list_of_set (parentFns w childF)) True w of
           Inl e \<Rightarrow> Inl e
         | Inr (inlinedInParents, w) \<Rightarrow>
             Inr (if inlinedInParents then w\<lparr>fnsToCheck := fnsToCheck w - {childF}\<rparr> else w))"

fun hoistLoop :: "inline_env \<Rightarrow> nat \<Rightarrow> hoist \<Rightarrow> hoist result option" where
  "hoistLoop E 0 w = (if fnIndex w < length (orderedFns w) then None else Some (Inr w))"
| "hoistLoop E (Suc fuel) w =
     (if fnIndex w < length (orderedFns w)
      then case hoistStep E w of Inl e \<Rightarrow> Some (Inl e) | Inr w \<Rightarrow> hoistLoop E fuel w
      else Some (Inr w))"

definition startHoist :: "((nat \<Rightarrow> nat \<Rightarrow> bool) \<Rightarrow> nat list \<Rightarrow> nat list) \<Rightarrow> inliner \<Rightarrow> hoist" where
  "startHoist stdSort s =
     (let fns = sortInDepthOrderFns stdSort s (sorted_list_of_set (fnsToCheck s))
      in inliner.extend s (hoist.fields fns 0 (set fns) {} False))"

definition inlineFnsOfLoopsToCGRoot ::
    "((nat \<Rightarrow> nat \<Rightarrow> bool) \<Rightarrow> nat list \<Rightarrow> nat list) \<Rightarrow> inline_env \<Rightarrow> nat \<Rightarrow> inliner \<Rightarrow> (bool \<times> inliner) result option" where
  "inlineFnsOfLoopsToCGRoot stdSort E fuel s =
     map_option (map_sum id (\<lambda>w. (inlinedAny w, inliner.truncate w))) (hoistLoop E fuel (startHoist stdSort s))"

section \<open>The file between two runs\<close>

text \<open>
  \<open>file\<close> holds the lines of the file, if there is one; without a file every function with loops is
  considered. Writing removes the file first.
\<close>

fun readFunctions :: "string list \<Rightarrow> inliner \<Rightarrow> inliner result" where
  "readFunctions [] s = Inr s"
| "readFunctions (line # lines) s =
     (case stoi line of
        Inl e \<Rightarrow> Inl e
      | Inr fnInd \<Rightarrow>
          if fnInd > 0 \<and> nat fnInd < length (depthOrderedFns s)
          then readFunctions lines (s\<lparr>fnsToCheck := insert (depthOrderedFns s ! nat fnInd) (fnsToCheck s)\<rparr>)
          else Inl AssertionFailed)"

definition getFunctionsToInline :: "string list option \<Rightarrow> inliner \<Rightarrow> inliner result" where
  "getFunctionsToInline file s =
     (case file of
        Some lines \<Rightarrow> readFunctions lines (s\<lparr>fnsToCheck := {}\<rparr>)
      | None \<Rightarrow> Inr (s\<lparr>fnsToCheck := dom (preOrderedLoops s)\<rparr>))"

definition registerRemainingFunctions ::
    "((int \<Rightarrow> int \<Rightarrow> bool) \<Rightarrow> int list \<Rightarrow> int list) \<Rightarrow> inliner \<Rightarrow> bool \<times> string list option" where
  "registerRemainingFunctions stdSort s =
     (if fnsToCheck s = {} then (False, None)
      else
        let fnInds = filter (\<lambda>fID. fID \<noteq> 0) (map (\<lambda>F. int (fnOrder s F)) (sorted_list_of_set (fnsToCheck s)));
            fnInds = stdSort (\<lambda>a b. a < b) fnInds
        in (fnInds \<noteq> [], Some (map (\<lambda>ind. std_to_string (nat ind)) fnInds)))"

section \<open>What inlining one call changes\<close>

lemma indexOf_less: "x \<in> set xs \<Longrightarrow> indexOf x xs < length xs"
  by (induction xs) auto

lemma adjustLoop_fields [simp]:
  "orderedCalls (adjustLoopOrdersAfterInline p c n s) = orderedCalls s"
  "orderedCalled (adjustLoopOrdersAfterInline p c n s) = orderedCalled s"
  "parentFns (adjustLoopOrdersAfterInline p c n s) = parentFns s"
  "fnOrders (adjustLoopOrdersAfterInline p c n s) = fnOrders s"
  "fnsToCheck (adjustLoopOrdersAfterInline p c n s) = fnsToCheck s"
  "fnsAffected (adjustLoopOrdersAfterInline p c n s) = fnsAffected s"
  "recursiveChainEntranceFns (adjustLoopOrdersAfterInline p c n s) = recursiveChainEntranceFns s"
  "inliner.more (adjustLoopOrdersAfterInline p c n s) = inliner.more s"
  by (simp_all add: adjustLoopOrdersAfterInline_def Let_def split: option.split)

lemma adjustFnGraph_fields:
  assumes "adjustFnGraphAfterInline p c i s = Inr s'"
  shows "orderedCalls s' = orderedCalls s" "fnOrders s' = fnOrders s" "fnsToCheck s' = fnsToCheck s"
    "recursiveChainEntranceFns s' = recursiveChainEntranceFns s" "inliner.more s' = inliner.more s"
    "fnsAffected s' = fnsAffected s"
    "G \<noteq> p \<Longrightarrow> orderedCalled s' G = orderedCalled s G" "parentFns s' G \<subseteq> insert p (parentFns s G)"
  using assms by (auto simp: adjustFnGraphAfterInline_def Let_def addParent_apply simp del: fun_upd_apply split: if_split_asm)
    (simp_all add: addParent_apply split: if_split_asm)

lemma inlineFunctionCall_cases:
  assumes "inlineFunctionCall E F childF call s = Inr (b, s')"
  obtains (unchanged) "\<not> b" "s' = s"
    | (inlined) n i where "b" "F \<notin> fnsAffected s" "childF \<notin> recursiveChainEntranceFns s" "staticInstructions E F \<le> 1000"
        "adjustFnGraphAfterInline F childF i
           (adjustLoopOrdersAfterInline F childF n (s\<lparr>fnsAffected := insert F (fnsAffected s)\<rparr>)) = Inr s'"
  using assms unfolding inlineFunctionCall_def canInlineWithoutRecursiveLoop_def Let_def
  by (auto split: if_split_asm simp: map_sum_def case_sum_if isl_def split: sum.split_asm)

lemma inlineFunctionCall_result:
  assumes "inlineFunctionCall E F childF call s = Inr (b, s')"
  shows "orderedCalls s' = orderedCalls s" "fnOrders s' = fnOrders s" "fnsToCheck s' = fnsToCheck s"
    "recursiveChainEntranceFns s' = recursiveChainEntranceFns s" "inliner.more s' = inliner.more s"
    "G \<noteq> F \<Longrightarrow> orderedCalled s' G = orderedCalled s G" "parentFns s' G \<subseteq> insert F (parentFns s G)"
    "fnsAffected s' = (if b then insert F (fnsAffected s) else fnsAffected s)"
    "b \<Longrightarrow> F \<notin> fnsAffected s \<and> childF \<notin> recursiveChainEntranceFns s \<and> staticInstructions E F \<le> 1000"
  by (rule inlineFunctionCall_cases[OF assms]; use adjustFnGraph_fields in fastforce)+

lemma inlineFunctionCall_defined:
  assumes "call \<in> set (orderedCalls s F)" "length (orderedCalled s F) = length (orderedCalls s F)"
  shows "\<exists>b s'. inlineFunctionCall E F childF call s = Inr (b, s')"
proof -
  have "indexOf call (orderedCalls s F) < length (orderedCalled s F)"
    using assms indexOf_less by metis
  then show ?thesis
    by (auto simp: inlineFunctionCall_def adjustFnGraphAfterInline_def adjustLoopOrdersAfterInline_def Let_def
        split: option.splits)
qed

text \<open>
  After a call is inlined the inliner still knows the functions a caller calls, in program order:
  the functions the callee calls take the place of the callee, and the children and parents of all
  functions follow.
\<close>
theorem inlined_call_graph:
  assumes "callInd < length (orderedCalled s parentF)" "parentF \<noteq> childF" "orderedCalled s parentF ! callInd = childF"
    and parents: "\<forall>F. parentF \<in> parentFns s F \<longleftrightarrow> F \<in> set (orderedCalled s parentF)"
  shows "\<exists>s'. adjustFnGraphAfterInline parentF childF callInd s = Inr s' \<and>
    orderedCalled s' parentF = take callInd (orderedCalled s parentF) @ orderedCalled s childF @
                                 drop (Suc callInd) (orderedCalled s parentF) \<and>
    set (childrenFns s' parentF) = set (orderedCalled s' parentF) \<and> distinct (childrenFns s' parentF) \<and>
    (\<forall>F. parentF \<in> parentFns s' F \<longleftrightarrow> F \<in> set (orderedCalled s' parentF)) \<and>
    (\<forall>F G. F \<noteq> parentF \<longrightarrow> orderedCalled s' F = orderedCalled s F \<and> childrenFns s' F = childrenFns s F \<and>
       (F \<in> parentFns s' G \<longleftrightarrow> F \<in> parentFns s G))"
proof -
  let ?rest = "take callInd (orderedCalled s parentF) @ drop (Suc callInd) (orderedCalled s parentF)"
  let ?new = "take callInd (orderedCalled s parentF) @ orderedCalled s childF @ drop (Suc callInd) (orderedCalled s parentF)"
  let ?s' = "s\<lparr>orderedCalled := (orderedCalled s)(parentF := ?new),
      childrenFns := (childrenFns s)(parentF := firstInvocations ?new {}),
      parentFns := addParent parentF (firstInvocations ?new {}) ((parentFns s)(childF := parentFns s childF - {parentF}))\<rparr>"
  have "insertShifted ?rest callInd (orderedCalled s childF) = ?new"
    using assms(1) by (simp add: insertShifted_eq)
  then have run: "adjustFnGraphAfterInline parentF childF callInd s = Inr ?s'"
    using assms(1,2) by (auto simp: adjustFnGraphAfterInline_def Let_def)
  have "orderedCalled s parentF = take callInd (orderedCalled s parentF) @ childF # drop (Suc callInd) (orderedCalled s parentF)"
    using id_take_nth_drop[OF assms(1)] assms(3) by simp
  then have old: "set (orderedCalled s parentF) = insert childF (set ?rest)"
    by (metis Un_insert_right list.set(2) set_append)
  have "parentF \<in> parentFns ?s' F \<longleftrightarrow> F \<in> set ?new" for F
    using parents old by (auto simp: addParent_apply firstInvocations_set)
  moreover have "F \<noteq> parentF \<Longrightarrow> F \<in> parentFns ?s' G \<longleftrightarrow> F \<in> parentFns s G" for F G
    by (simp add: addParent_apply)
  ultimately show ?thesis
    using run by (intro exI[of _ ?s']) (simp add: firstInvocations_set firstInvocations_distinct)
qed

text \<open>
  Unless the block after the one of an inlined call is itself the header of a loop of the caller, the
  loops of the callee are put in front of all loops of the caller, wherever the call is: the search for
  the next loop takes 0, the answer for "no header", for the index of a loop.
\<close>
theorem inlined_loops_in_front:
  assumes "preOrderedLoops s parentF = Some parentLoops" "preOrderedLoops s childF = Some childLoops"
    and "\<forall>BB \<in> set (take 1 (blocksAfter E call)). BB \<notin> loopHeader E ` set parentLoops"
  shows "preOrderedLoops (adjustLoopOrdersAfterInline parentF childF
           (nat (getNextPreorderLoopAfter E s parentF call)) s) parentF = Some (childLoops @ parentLoops)"
proof -
  have "getSummaryIfHeader E loops BB i = 0" if "BB \<notin> loopHeader E ` set loops" for loops BB i
    using that by (induction loops arbitrary: i) auto
  then have "getNextPreorderLoopAfter E s parentF call = 0"
    using assms(1,3) by (cases "blocksAfter E call") (auto simp: getNextPreorderLoopAfter_def Let_def)
  then show ?thesis
    using assms(1,2) by (auto simp: adjustLoopOrdersAfterInline_def insertShifted_eq)
qed

section \<open>Hoisting ends\<close>

definition hoist_inv :: "nat set \<Rightarrow> hoist \<Rightarrow> bool" where
  "hoist_inv U w \<longleftrightarrow> (\<forall>F. parentFns w F \<subseteq> U) \<and>
     (\<forall>F. F \<notin> fnsAffected w \<longrightarrow> length (orderedCalled w F) = length (orderedCalls w F))"

text \<open>What a part of a step does: the functions in the list and those not yet in it stay as many.\<close>

definition hoist_rel :: "inline_env \<Rightarrow> nat set \<Rightarrow> hoist \<Rightarrow> hoist \<Rightarrow> bool" where
  "hoist_rel E U w w' \<longleftrightarrow>
     (hoist_inv U w \<longrightarrow> hoist_inv U w') \<and> fnIndex w' = fnIndex w \<and>
     length (orderedFns w') + card (U - fnsWillCheck w') = length (orderedFns w) + card (U - fnsWillCheck w) \<and>
     length (orderedFns w) \<le> length (orderedFns w') \<and>
     fnsAffected w \<subseteq> fnsAffected w' \<and> (\<forall>F \<in> fnsAffected w' - fnsAffected w. staticInstructions E F \<le> 1000) \<and>
     (inlinedAny w' \<longleftrightarrow> inlinedAny w \<or> fnsAffected w \<noteq> fnsAffected w')"

lemma hoist_rel_refl: "hoist_rel E U w w"
  by (simp add: hoist_rel_def)

lemma hoist_rel_trans: "hoist_rel E U w w' \<Longrightarrow> hoist_rel E U w' w'' \<Longrightarrow> hoist_rel E U w w''"
  unfolding hoist_rel_def by (simp, blast)

lemma hoist_rel_inline:
  assumes "inlineFunctionCall E F childF call w = Inr (b, w')" "F \<in> U"
  shows "hoist_rel E U w (w'\<lparr>inlinedAny := inlinedAny w' \<or> b\<rparr>)"
proof -
  note facts = inlineFunctionCall_result[OF assms(1)]
  have more: "fnIndex w' = fnIndex w" "orderedFns w' = orderedFns w" "fnsWillCheck w' = fnsWillCheck w"
    "inlinedAny w' = inlinedAny w"
    using facts(5) by (cases w, cases w', simp)+
  have "hoist_inv U w \<longrightarrow> hoist_inv U (w'\<lparr>inlinedAny := inlinedAny w' \<or> b\<rparr>)"
  proof
    assume inv: "hoist_inv U w"
    have "parentFns w' G \<subseteq> U" for G using inv facts(7)[of G] assms(2) unfolding hoist_inv_def by blast
    moreover have "length (orderedCalled w' G) = length (orderedCalls w' G)" if "G \<notin> fnsAffected w'" for G
    proof (cases "G = F")
      case True
      then have "\<not> b" using that facts(8) by auto
      then have "w' = w" using inlineFunctionCall_cases[OF assms(1)] by metis
      then show ?thesis using inv that by (simp add: hoist_inv_def)
    next
      case False
      then show ?thesis using inv that facts(1,6,8) by (auto simp: hoist_inv_def split: if_split_asm)
    qed
    ultimately show "hoist_inv U (w'\<lparr>inlinedAny := inlinedAny w' \<or> b\<rparr>)" by (simp add: hoist_inv_def)
  qed
  then show ?thesis using facts(8,9) more by (auto simp: hoist_rel_def)
qed

lemma inlineCachedCalls_result:
  assumes "hoist_inv U w" "parentF \<in> U" "set calls \<subseteq> set (orderedCalls w parentF)" "parentF \<notin> fnsAffected w"
  shows "\<exists>ic w'. inlineCachedCalls E parentF childF calls ic0 w = Inr (ic, w') \<and> hoist_rel E U w w'"
  using assms(3)
proof (induction calls arbitrary: ic0)
  case Nil
  then show ?case by (simp add: hoist_rel_refl)
next
  case (Cons call calls)
  show ?case
  proof (cases "calledFunction E call = Some childF")
    case False
    then show ?thesis using Cons by simp
  next
    case True
    have "length (orderedCalled w parentF) = length (orderedCalls w parentF)"
      using assms(1,4) by (simp add: hoist_inv_def)
    then obtain b w1 where w1: "inlineFunctionCall E parentF childF call w = Inr (b, w1)"
      using inlineFunctionCall_defined[of call w parentF E childF] Cons.prems by auto
    note rel = hoist_rel_inline[OF w1 assms(2)]
    show ?thesis
    proof (cases "inlinedAny w1 \<or> b")
      case True
      then show ?thesis using \<open>calledFunction E call = Some childF\<close> w1 rel by (auto simp: Let_def)
    next
      case False
      then have same: "w1 = w" using inlineFunctionCall_cases[OF w1] by metis
      have set: "w\<lparr>inlinedAny := False\<rparr> = w" using False same by (cases w) simp
      have "inlineCachedCalls E parentF childF (call # calls) ic0 w =
          inlineCachedCalls E parentF childF calls False (w\<lparr>inlinedAny := False\<rparr>)"
        using \<open>calledFunction E call = Some childF\<close> w1 False same by (simp add: Let_def)
      then show ?thesis unfolding set using Cons.IH[of False] Cons.prems by simp
    qed
  qed
qed

lemma hoist_rel_parent:
  assumes "hoist_rel E U w w'" "finite U" "parentF \<in> U"
  shows "hoist_rel E U w (w'\<lparr>fnsToAvoid := X\<rparr>)"
    and "parentF \<notin> fnsWillCheck w' \<Longrightarrow>
      hoist_rel E U w (w'\<lparr>fnsWillCheck := insert parentF (fnsWillCheck w'), orderedFns := parentF # orderedFns w'\<rparr>)"
proof -
  show "hoist_rel E U w (w'\<lparr>fnsToAvoid := X\<rparr>)" using assms(1) by (simp add: hoist_rel_def hoist_inv_def)
  assume new: "parentF \<notin> fnsWillCheck w'"
  have "U - insert parentF (fnsWillCheck w') = U - fnsWillCheck w' - {parentF}" by auto
  moreover have "card (U - fnsWillCheck w') > 0" using assms(2,3) new by (auto simp: card_gt_0_iff)
  ultimately have "Suc (card (U - insert parentF (fnsWillCheck w'))) = card (U - fnsWillCheck w')"
    using assms(2,3) new by (simp add: card_Diff_singleton)
  then show "hoist_rel E U w (w'\<lparr>fnsWillCheck := insert parentF (fnsWillCheck w'), orderedFns := parentF # orderedFns w'\<rparr>)"
    using assms(1) by (simp add: hoist_rel_def hoist_inv_def)
qed

lemma inlineIntoParent_result:
  assumes "hoist_inv U w" "parentF \<in> U" "finite U"
  shows "\<exists>ip w'. inlineIntoParent E childF parentF ip0 w = Inr (ip, w') \<and> hoist_rel E U w w'"
proof (cases "parentF \<in> fnsAffected w")
  case True
  then show ?thesis by (simp add: inlineIntoParent_def hoist_rel_refl)
next
  case False
  obtain ic w' where w': "inlineCachedCalls E parentF childF (sorted_list_of_set (set (orderedCalls w parentF))) True w
      = Inr (ic, w')" "hoist_rel E U w w'"
    using inlineCachedCalls_result[OF assms(1,2) _ False, of "sorted_list_of_set (set (orderedCalls w parentF))" E childF True]
    by auto
  then show ?thesis using hoist_rel_parent[OF w'(2) assms(3,2)]
    by (auto simp: inlineIntoParent_def hoist_rel_refl Let_def)
qed

lemma inlineIntoParents_result:
  assumes "hoist_inv U w" "set parents \<subseteq> U" "finite U"
  shows "\<exists>ip w'. inlineIntoParents E childF parents ip0 w = Inr (ip, w') \<and> hoist_rel E U w w'"
  using assms(1,2)
proof (induction parents arbitrary: ip0 w)
  case Nil
  then show ?case by (simp add: hoist_rel_refl)
next
  case (Cons parentF parents)
  have "parentF \<in> U" using Cons.prems(2) by simp
  from inlineIntoParent_result[OF Cons.prems(1) this assms(3)] obtain ip1 w1 where
    w1: "inlineIntoParent E childF parentF ip0 w = Inr (ip1, w1)" "hoist_rel E U w w1" by blast
  have "hoist_inv U w1" "set parents \<subseteq> U" using w1(2) Cons.prems by (simp_all add: hoist_rel_def)
  from Cons.IH[OF this] obtain ip2 w2 where
    w2: "inlineIntoParents E childF parents ip1 w1 = Inr (ip2, w2)" "hoist_rel E U w1 w2" by blast
  then show ?case using w1(1) hoist_rel_trans[OF w1(2) w2(2)] by simp
qed

lemma hoistStep_result:
  assumes "hoist_inv U w" "finite U" "fnIndex w < length (orderedFns w)"
  shows "\<exists>w'. hoistStep E w = Inr w' \<and> hoist_rel E U (w\<lparr>fnIndex := Suc (fnIndex w)\<rparr>) w'"
proof -
  let ?w = "w\<lparr>fnIndex := Suc (fnIndex w)\<rparr>"
  let ?childF = "orderedFns w ! fnIndex w"
  have inv: "hoist_inv U ?w" and fin: "finite (parentFns w ?childF)" "parentFns w ?childF \<subseteq> U"
    using assms by (auto simp: hoist_inv_def intro: finite_subset)
  have avoid: "hoist_rel E U v (v\<lparr>fnsToAvoid := X\<rparr>)" "hoist_rel E U v v' \<Longrightarrow> hoist_rel E U v (v'\<lparr>fnsToCheck := X\<rparr>)" for v v' X
    by (auto simp: hoist_rel_def hoist_inv_def)
  have "set (sorted_list_of_set (parentFns w ?childF)) \<subseteq> U" using fin by simp
  from inlineIntoParents_result[OF inv this assms(2), of E ?childF True] obtain ip w' where
    "inlineIntoParents E ?childF (sorted_list_of_set (parentFns w ?childF)) True ?w = Inr (ip, w')"
    "hoist_rel E U ?w w'" by blast
  then show ?thesis using avoid by (simp add: hoistStep_def Let_def)
qed

lemma hoistLoop_result:
  assumes "hoist_inv U w" "finite U" "fnIndex w \<le> length (orderedFns w)"
    and "length (orderedFns w) - fnIndex w + card (U - fnsWillCheck w) \<le> fuel"
  shows "\<exists>w'. hoistLoop E fuel w = Some (Inr w') \<and> hoist_inv U w' \<and> fnsAffected w \<subseteq> fnsAffected w' \<and>
    (\<forall>F \<in> fnsAffected w' - fnsAffected w. staticInstructions E F \<le> 1000) \<and>
    (inlinedAny w' \<longleftrightarrow> inlinedAny w \<or> fnsAffected w \<noteq> fnsAffected w')"
  using assms(1,3,4)
proof (induction fuel arbitrary: w)
  case 0
  then show ?case by simp
next
  case (Suc fuel)
  show ?case
  proof (cases "fnIndex w < length (orderedFns w)")
    case False
    then show ?thesis using Suc.prems by simp
  next
    case True
    from hoistStep_result[OF Suc.prems(1) assms(2) True, of E] obtain w1 where
      w1: "hoistStep E w = Inr w1" "hoist_rel E U (w\<lparr>fnIndex := Suc (fnIndex w)\<rparr>) w1" by blast
    have "hoist_inv U (w\<lparr>fnIndex := Suc (fnIndex w)\<rparr>)" using Suc.prems(1) by (simp add: hoist_inv_def)
    then have rel: "hoist_inv U w1" "fnIndex w1 = Suc (fnIndex w)" "length (orderedFns w) \<le> length (orderedFns w1)"
      "length (orderedFns w1) + card (U - fnsWillCheck w1) = length (orderedFns w) + card (U - fnsWillCheck w)"
      "fnsAffected w \<subseteq> fnsAffected w1" "\<forall>F \<in> fnsAffected w1 - fnsAffected w. staticInstructions E F \<le> 1000"
      "inlinedAny w1 \<longleftrightarrow> inlinedAny w \<or> fnsAffected w \<noteq> fnsAffected w1"
      using w1(2) by (auto simp: hoist_rel_def)
    have "fnIndex w1 \<le> length (orderedFns w1)" "length (orderedFns w1) - fnIndex w1 + card (U - fnsWillCheck w1) \<le> fuel"
      using rel(2-4) True Suc.prems(3) by linarith+
    from Suc.IH[OF rel(1) this] obtain w2 where "hoistLoop E fuel w1 = Some (Inr w2)" "hoist_inv U w2"
      "fnsAffected w1 \<subseteq> fnsAffected w2" "\<forall>F \<in> fnsAffected w2 - fnsAffected w1. staticInstructions E F \<le> 1000"
      "inlinedAny w2 \<longleftrightarrow> inlinedAny w1 \<or> fnsAffected w1 \<noteq> fnsAffected w2" by blast
    then show ?thesis using True w1(1) rel(5-7) by auto
  qed
qed

lemma hoist_result:
  assumes "finite U" "fnsToCheck s \<subseteq> U" "\<forall>F. parentFns s F \<subseteq> U"
    and "\<forall>F. length (orderedCalled s F) = length (orderedCalls s F)" and "std_sort stdSort"
  shows "\<exists>b s'. inlineFnsOfLoopsToCGRoot stdSort E (card U) s = Some (Inr (b, s')) \<and>
    (b \<longleftrightarrow> fnsAffected s \<noteq> fnsAffected s') \<and> fnsAffected s \<subseteq> fnsAffected s' \<and>
    (\<forall>F \<in> fnsAffected s' - fnsAffected s. staticInstructions E F \<le> 1000)"
proof -
  let ?w = "startHoist stdSort s"
  let ?fns = "sortInDepthOrderFns stdSort s (sorted_list_of_set (fnsToCheck s))"
  have weak: "strict_weak (\<lambda>a b. fnOrder s b < fnOrder s a)" by (auto simp: strict_weak_def)
  have fin: "finite (fnsToCheck s)" using assms(1,2) by (rule finite_subset[rotated])
  have "mset ?fns = mset (sorted_list_of_set (fnsToCheck s))"
    unfolding sortInDepthOrderFns_def by (rule std_sort.sort_permutes[OF assms(5) weak])
  then have fns: "set ?fns = fnsToCheck s" "length ?fns = card (fnsToCheck s)"
    using fin by (metis mset_eq_setD set_sorted_list_of_set, metis mset_eq_length length_sorted_list_of_set)
  have start: "orderedFns ?w = ?fns" "fnIndex ?w = 0" "fnsWillCheck ?w = fnsToCheck s" "inlinedAny ?w = False"
    "parentFns ?w = parentFns s" "orderedCalled ?w = orderedCalled s" "orderedCalls ?w = orderedCalls s"
    "fnsAffected ?w = fnsAffected s"
    using fns(1) by (simp_all add: startHoist_def Let_def inliner.defs hoist.defs)
  have inv: "hoist_inv U ?w" using assms(3,4) start by (simp add: hoist_inv_def)
  have "card (U - fnsToCheck s) = card U - card (fnsToCheck s)" "card (fnsToCheck s) \<le> card U"
    using assms(1,2) fin by (simp_all add: card_Diff_subset card_mono)
  then have "length (orderedFns ?w) - fnIndex ?w + card (U - fnsWillCheck ?w) \<le> card U"
    using start fns(2) by simp
  from hoistLoop_result[OF inv assms(1) _ this, of E] start obtain w' where
    "hoistLoop E (card U) ?w = Some (Inr w')" "fnsAffected s \<subseteq> fnsAffected w'"
    "\<forall>F \<in> fnsAffected w' - fnsAffected s. staticInstructions E F \<le> 1000"
    "inlinedAny w' \<longleftrightarrow> fnsAffected s \<noteq> fnsAffected w'" by auto
  then show ?thesis by (auto simp: inlineFnsOfLoopsToCGRoot_def inliner.defs)
qed

text \<open>
  C36: hoisting ends and does nothing undefined: with one step for each function the loop over the
  functions is over, although it adds parents to its list as it goes. It reports that something was inlined
  exactly when a function was changed, and changes no function of more than 1000 instructions.
\<close>
theorem hoisting_ends:
  assumes "finite U" "fnsToCheck s \<subseteq> U" "\<forall>F. parentFns s F \<subseteq> U"
    and "\<forall>F. length (orderedCalled s F) = length (orderedCalls s F)" and "std_sort stdSort"
  shows "\<exists>b s'. inlineFnsOfLoopsToCGRoot stdSort E (card U) s = Some (Inr (b, s')) \<and>
    (b \<longleftrightarrow> fnsAffected s \<noteq> fnsAffected s') \<and> fnsAffected s \<subseteq> fnsAffected s' \<and>
    (\<forall>F \<in> fnsAffected s' - fnsAffected s. staticInstructions E F \<le> 1000)"
  by (rule hoist_result[OF assms])

text \<open>
  An example: the entry function 0 calls 1, which calls 2, and 2 has the only loop. The function 2 is
  inlined into 1, and 1, the new place of the loop, is not looked at: it is put in front of the list, where
  the loop has already been. Nothing is left for the next run, so the loop does not reach the entry.
\<close>

definition call_chain :: "nat \<Rightarrow> fn_body" where
  "call_chain f =
     (if f = 0 then \<lparr>callsOfBlocks = [[(10, Some 1)]], callGraphCalls = {10}\<rparr>
      else if f = 1 then \<lparr>callsOfBlocks = [[(11, Some 2)]], callGraphCalls = {11}\<rparr>
      else if f = 2 then \<lparr>callsOfBlocks = [[]], callGraphCalls = {}\<rparr>
      else \<lparr>callsOfBlocks = [], callGraphCalls = {}\<rparr>)"

definition chain_env :: inline_env where
  "chain_env = \<lparr>staticInstructions = (\<lambda>_. 50), inlineSucceeds = (\<lambda>_. True), blocksAfter = (\<lambda>_. []),
     loopHeader = (\<lambda>l. l), calledFunction = [10 \<mapsto> 1, 11 \<mapsto> 2]\<rparr>"

definition chain_start :: inliner where
  "chain_start = \<lparr>parentFns = (\<lambda>_. {})(1 := {0}, 2 := {1}), childrenFns = (\<lambda>_. [])(0 := [1], 1 := [2]),
     orderedCalls = (\<lambda>_. [])(0 := [10], 1 := [11]), orderedCalled = (\<lambda>_. [])(0 := [1], 1 := [2]),
     depthOrderedFns = [0, 1, 2], recursiveChainEntranceFns = {}, fnOrders = [0 \<mapsto> 0, 1 \<mapsto> 1, 2 \<mapsto> 2],
     preOrderedLoops = [2 \<mapsto> [7]], fnsAffected = {}, fnsToCheck = {2}\<rparr>"

lemma chain_start_collected:
  "\<exists>s1 t. collectFnGraph call_chain 3 0 new_inliner = Some s1 \<and> collectInDepthOrderFns 3 0 s1 = Some t \<and>
     chain_start = t\<lparr>preOrderedLoops := [2 \<mapsto> [7]], fnsToCheck := {2}\<rparr>"
  by (simp add: collectFnGraph_def collectChildren_def collectFnCallsAndCalled_def new_inliner_def
      linkedCalls_def call_chain_def isDefined_def List.map_filter_def addParent_def chain_start_def
      collectInDepthOrderFns_def startDepthOrder_def inliner.defs depth_walk.defs numeral_eq_Suc
      orderRounds.simps orderReachable.simps assignOrder_def Let_def fun_eq_iff)

lemma hoisting_ends_witness:
  "\<exists>b s'. inlineFnsOfLoopsToCGRoot insertion_sort chain_env 3 chain_start = Some (Inr (b, s')) \<and>
     (b \<longleftrightarrow> fnsAffected s' \<noteq> {})"
proof -
  have card: "card {0, 1, 2 :: nat} = 3" by simp
  have parents: "\<forall>F. parentFns chain_start F \<subseteq> {0, 1, 2}"
    and calls: "\<forall>F. length (orderedCalled chain_start F) = length (orderedCalls chain_start F)"
    and check: "fnsToCheck chain_start \<subseteq> {0, 1, 2}" and affected: "fnsAffected chain_start = {}"
    by (simp_all add: chain_start_def)
  have "finite {0, 1, 2 :: nat}" by simp
  from hoisting_ends[OF this check parents calls insertion.std_sort_axioms, of chain_env, unfolded card affected]
  show ?thesis by (elim exE conjE) (intro exI conjI, assumption, blast)
qed


lemma hoisting_stops_halfway:
  "map_option (map_sum id (\<lambda>(b, s). (b, fnsAffected s, fnsToCheck s, preOrderedLoops s 1, preOrderedLoops s 0)))
     (inlineFnsOfLoopsToCGRoot insertion_sort chain_env 3 chain_start) =
   Some (Inr (True, {1}, {}, Some [7], None))"
  by (simp add: inlineFnsOfLoopsToCGRoot_def startHoist_def sortInDepthOrderFns_def insertion_sort_def Let_def
      chain_start_def chain_env_def inliner.defs hoist.defs numeral_3_eq_3 hoistStep_def inlineIntoParent_def
      inlineFunctionCall_def canInlineWithoutRecursiveLoop_def fnOrder_def getNextPreorderLoopAfter_def
      adjustFnGraphAfterInline_def adjustLoopOrdersAfterInline_def insertShifted_def addParent_def)

section \<open>The file is read back\<close>

lemma readFunctions_result:
  assumes "\<forall>n \<in> set ns. 0 < n \<and> n < length (depthOrderedFns s)" "length (depthOrderedFns s) < 2 ^ 31"
  shows "readFunctions (map std_to_string ns) s =
    Inr (s\<lparr>fnsToCheck := fnsToCheck s \<union> (\<lambda>n. depthOrderedFns s ! n) ` set ns\<rparr>)"
  using assms
proof (induction ns arbitrary: s)
  case (Cons n ns)
  have "n < 2 ^ 31" using Cons.prems by (auto intro: less_trans)
  then have "stoi (std_to_string n) = Inr (int n)" by (rule stoi_to_string)
  then show ?case
    using Cons.prems Cons.IH[of "s\<lparr>fnsToCheck := insert (depthOrderedFns s ! n) (fnsToCheck s)\<rparr>"]
    by (simp del: std_to_string.simps)
qed simp

text \<open>
  What one run of the pass leaves for the next is read back as it was: the file holds, in increasing
  order, the orders of the functions still to check, and reading it selects these functions again, the
  entry function excepted, whose order 0 is not written.
\<close>
theorem functions_read_back:
  assumes "std_sort stdSort" "length (depthOrderedFns s) < 2 ^ 31" "depthOrderedFns s \<noteq> []"
    and order: "\<forall>i < length (depthOrderedFns s). fnOrders s (depthOrderedFns s ! i) = Some i"
    and check: "fnsToCheck s \<subseteq> set (depthOrderedFns s)" "fnsToCheck s \<noteq> {}"
  shows "\<exists>lines. registerRemainingFunctions stdSort s = (lines \<noteq> [], Some lines) \<and>
    sorted (map (\<lambda>l. case stoi l of Inr i \<Rightarrow> i | Inl e \<Rightarrow> 0) lines) \<and>
    getFunctionsToInline (Some lines) s = Inr (s\<lparr>fnsToCheck := fnsToCheck s - {hd (depthOrderedFns s)}\<rparr>)"
proof -
  let ?d = "depthOrderedFns s"
  let ?inds = "filter (\<lambda>fID. fID \<noteq> 0) (map (\<lambda>F. int (fnOrder s F)) (sorted_list_of_set (fnsToCheck s)))"
  define inds where "inds = stdSort (\<lambda>a b. a < b) ?inds"
  define lines where "lines = map (\<lambda>ind. std_to_string (nat ind)) inds"
  have weak: "strict_weak (\<lambda>a b :: int. a < b)" by (auto simp: strict_weak_def)
  have fin: "finite (fnsToCheck s)" using check(1) by (rule finite_subset) simp
  have pos: "fnOrder s (?d ! i) = i" if "i < length ?d" for i using order that by (simp add: fnOrder_def)
  have undo: "?d ! fnOrder s F = F" "fnOrder s F < length ?d" if "F \<in> set ?d" for F
    using that pos by (auto simp: in_set_conv_nth)
  have set_inds: "set inds = {int (fnOrder s F) | F. F \<in> fnsToCheck s \<and> fnOrder s F \<noteq> 0}"
    unfolding inds_def std_sort.sort_set[OF assms(1) weak] using fin by auto
  have bounds: "\<forall>n \<in> set (map nat inds). 0 < n \<and> n < length ?d"
    using set_inds undo(2) check(1) by fastforce
  have "x \<in> (\<lambda>n. ?d ! n) ` set (map nat inds) \<longleftrightarrow> x \<in> fnsToCheck s \<and> fnOrder s x \<noteq> 0" for x
  proof
    assume "x \<in> (\<lambda>n. ?d ! n) ` set (map nat inds)"
    then obtain F where "x = ?d ! fnOrder s F" "F \<in> fnsToCheck s" "fnOrder s F \<noteq> 0" using set_inds by auto
    then show "x \<in> fnsToCheck s \<and> fnOrder s x \<noteq> 0" using undo(1) check(1) by (metis subsetD)
  next
    assume x: "x \<in> fnsToCheck s \<and> fnOrder s x \<noteq> 0"
    then have "fnOrder s x \<in> set (map nat inds)" using set_inds by force
    moreover have "?d ! fnOrder s x = x" using x undo(1) check(1) by blast
    ultimately show "x \<in> (\<lambda>n. ?d ! n) ` set (map nat inds)" by (metis image_eqI)
  qed
  moreover have "fnOrder s x = 0 \<longleftrightarrow> x = hd ?d" if "x \<in> fnsToCheck s" for x
    using that check(1) undo[of x] pos[of 0] assms(3) by (metis hd_conv_nth length_greater_0_conv subsetD)
  ultimately have "(\<lambda>n. ?d ! n) ` set (map nat inds) = fnsToCheck s - {hd ?d}" by blast
  then have "readFunctions (map std_to_string (map nat inds)) (s\<lparr>fnsToCheck := {}\<rparr>) =
      Inr (s\<lparr>fnsToCheck := fnsToCheck s - {hd ?d}\<rparr>)"
    using readFunctions_result[of "map nat inds" "s\<lparr>fnsToCheck := {}\<rparr>"] bounds assms(2)
    by (simp del: std_to_string.simps set_map)
  then have read: "getFunctionsToInline (Some lines) s = Inr (s\<lparr>fnsToCheck := fnsToCheck s - {hd ?d}\<rparr>)"
    by (simp add: getFunctionsToInline_def lines_def comp_def del: std_to_string.simps)
  have "stoi (std_to_string (nat i)) = Inr i" if "i \<in> set inds" for i
  proof -
    have "0 < nat i" "nat i < length ?d" using bounds that by simp_all
    then have "nat i < 2 ^ 31" "int (nat i) = i" using assms(2) by linarith+
    then show ?thesis using stoi_to_string[of "nat i"] by (simp del: std_to_string.simps)
  qed
  then have "map (\<lambda>l. case stoi l of Inr i \<Rightarrow> i | Inl e \<Rightarrow> 0) lines = inds"
    by (simp add: lines_def map_idI del: std_to_string.simps)
  moreover have "sorted inds"
    using std_sort.sort_sorts[OF assms(1) weak, of ?inds] by (simp add: inds_def linorder_not_less)
  moreover have "registerRemainingFunctions stdSort s = (inds \<noteq> [], Some lines)"
    using check(2) unfolding registerRemainingFunctions_def Let_def inds_def lines_def by simp
  moreover have "lines \<noteq> [] \<longleftrightarrow> inds \<noteq> []" by (simp add: lines_def)
  ultimately show ?thesis using read by (intro exI[of _ lines]) simp
qed

lemma functions_read_back_witness:
  "\<exists>lines. registerRemainingFunctions insertion_sort chain_start = (lines \<noteq> [], Some lines) \<and>
     getFunctionsToInline (Some lines) chain_start = Inr chain_start"
proof -
  have d: "length (depthOrderedFns chain_start) < 2 ^ 31" "depthOrderedFns chain_start \<noteq> []"
    and check: "fnsToCheck chain_start \<subseteq> set (depthOrderedFns chain_start)" "fnsToCheck chain_start \<noteq> {}"
    and same: "chain_start\<lparr>fnsToCheck := fnsToCheck chain_start - {hd (depthOrderedFns chain_start)}\<rparr> = chain_start"
    by (simp_all add: chain_start_def)
  have "\<forall>i < length (depthOrderedFns chain_start). fnOrders chain_start (depthOrderedFns chain_start ! i) = Some i"
    by (auto simp: chain_start_def less_Suc_eq nth_Cons')
  from functions_read_back[OF insertion.std_sort_axioms d this check, unfolded same]
  show ?thesis by blast
qed

lemma inlined_call_graph_witness:
  "\<exists>s'. adjustFnGraphAfterInline 1 2 0 chain_start = Inr s' \<and> orderedCalled s' 1 = [] \<and> 1 \<notin> parentFns s' 2"
proof -
  have "0 < length (orderedCalled chain_start 1)" "orderedCalled chain_start 1 ! 0 = 2"
    "\<forall>F. 1 \<in> parentFns chain_start F \<longleftrightarrow> F \<in> set (orderedCalled chain_start 1)"
    "orderedCalled chain_start 2 = []" "parentFns chain_start 2 = {1}" "drop 1 (orderedCalled chain_start 1) = []"
    by (simp_all add: chain_start_def)
  then show ?thesis using inlined_call_graph[of 0 chain_start 1 2] by auto
qed

lemma inlined_loops_in_front_witness:
  "preOrderedLoops (adjustLoopOrdersAfterInline 1 2
     (nat (getNextPreorderLoopAfter chain_env (chain_start\<lparr>preOrderedLoops := [1 \<mapsto> [4], 2 \<mapsto> [7]]\<rparr>) 1 11))
     (chain_start\<lparr>preOrderedLoops := [1 \<mapsto> [4], 2 \<mapsto> [7]]\<rparr>)) 1 = Some [7, 4]"
  using inlined_loops_in_front[where s = "chain_start\<lparr>preOrderedLoops := [1 \<mapsto> [4], 2 \<mapsto> [7]]\<rparr>" and parentF = 1
      and childF = 2 and parentLoops = "[4]" and childLoops = "[7]" and E = chain_env and call = 11]
  by (simp add: chain_env_def)

end
