(* ===== verification/Inliner_Loops.thy ===== *)
theory Inliner_Loops
  imports Inliner Cpp_Double
begin

text \<open>
  Inlining of the calls that carry dependences around a loop (\<open>inliner/src/Inliner_loopCarried.cpp\<close>) and
  the pass as a whole (\<open>runOnModule\<close> of \<open>inliner/src/Inliner.cpp\<close>).
\<close>

section \<open>The call of a loop\<close>

text \<open>
  A node of a component that blocks DOALL: the call instruction it is, if it is one, the memory
  dependences it takes part in, and whether it is in a sub-loop. The rest of the environment is about
  callees: an empty body, an intrinsic, a cycle of the call graph, the number of loops.
\<close>

record scc_node =
  callOfNode :: "nat option"
  memEdgeCount :: nat
  isInSubLoop :: bool

record loop_env = inline_env +
  isEmptyFunction :: "nat \<Rightarrow> bool"
  isIntrinsic :: "nat \<Rightarrow> bool"
  belongsToCallGraphCycle :: "nat \<Rightarrow> bool"
  numLoopsOfFunction :: "nat \<Rightarrow> nat"

record loop_content =
  headerOfLoop :: nat
  staticInstructionsOfLoop :: nat
  blockingSCCs :: "(nat \<times> scc_node list) list"
  numberOfSubLoops :: nat
  subLoops :: "nat list"
  doallApplies :: bool

text \<open>The callee of a node that may be inlined into \<open>F\<close>.\<close>

definition candidateCallee :: "loop_env \<Rightarrow> inliner \<Rightarrow> nat \<Rightarrow> scc_node \<Rightarrow> (nat \<times> nat) option" where
  "candidateCallee E s F node =
     (case callOfNode node of
        None \<Rightarrow> None
      | Some call \<Rightarrow>
          (case calledFunction E call of
             None \<Rightarrow> None
           | Some callF \<Rightarrow>
               if isEmptyFunction E callF then None
               else if isIntrinsic E callF then None
               else if callF = F then None
               else if fnOrder s callF < fnOrder s F then None
               else if isInSubLoop node then None
               else if belongsToCallGraphCycle E callF then None
               else if numLoopsOfFunction E callF > 0 then None
               else Some (call, callF)))"

record call_choice =
  maxMemEdges :: nat
  numberOfFunctionCallsToInline :: u32
  inlineCall :: "nat option"

definition considerNode :: "loop_env \<Rightarrow> inliner \<Rightarrow> nat \<Rightarrow> nat \<Rightarrow> scc_node \<Rightarrow> call_choice \<Rightarrow> call_choice" where
  "considerNode E s F loopSize node c =
     (case candidateCallee E s F node of
        None \<Rightarrow> c
      | Some (call, callF) \<Rightarrow>
          let c = c\<lparr>numberOfFunctionCallsToInline := numberOfFunctionCallsToInline c + 1\<rparr> in
          if memEdgeCount node > maxMemEdges c \<and> staticInstructions E callF < loopSize
          then c\<lparr>maxMemEdges := memEdgeCount node, inlineCall := Some call\<rparr>
          else c)"

definition considerSCC :: "loop_env \<Rightarrow> inliner \<Rightarrow> nat \<Rightarrow> nat \<Rightarrow> nat \<times> scc_node list \<Rightarrow> call_choice \<Rightarrow> call_choice" where
  "considerSCC E s F loopSize scc c =
     (if fst scc = 1 then c else fold (considerNode E s F loopSize) (snd scc) c)"

definition chooseCall :: "loop_env \<Rightarrow> inliner \<Rightarrow> nat \<Rightarrow> loop_content \<Rightarrow> call_choice" where
  "chooseCall E s F LDI =
     fold (considerSCC E s F (staticInstructionsOfLoop LDI)) (blockingSCCs LDI)
       \<lparr>maxMemEdges = 0, numberOfFunctionCallsToInline = 0, inlineCall = None\<rparr>"

definition inlineWithinLoop :: "loop_env \<Rightarrow> nat \<Rightarrow> loop_content \<Rightarrow> inliner \<Rightarrow> (bool \<times> inliner) result" where
  "inlineWithinLoop E F LDI s =
     (let c = chooseCall E s F LDI in
      case inlineCall c of
        None \<Rightarrow> Inr (False, s)
      | Some call \<Rightarrow>
          if numberOfFunctionCallsToInline c \<ge> 10 then Inr (False, s)
          else case calledFunction E call of
            None \<Rightarrow> Inr (False, s)
          | Some callF \<Rightarrow> inlineFunctionCall (inline_env.truncate E) F callF call s)"

section \<open>The loops of a function\<close>

text \<open>
  \<open>std::remove\<close> moves the elements that stay to the front; the vector keeps its length, and the last
  elements stay where they are.
\<close>

definition std_remove :: "nat \<Rightarrow> nat list \<Rightarrow> nat list" where
  "std_remove x xs = filter (\<lambda>y. y \<noteq> x) xs @ drop (length (filter (\<lambda>y. y \<noteq> x) xs)) xs"

definition disableSubLoop :: "nat \<Rightarrow> nat list \<Rightarrow> nat list" where
  "disableSubLoop child toCheck = (if child \<notin> set toCheck then toCheck else std_remove child toCheck)"

fun inlineLoopsOfFunction ::
    "loop_env \<Rightarrow> nat \<Rightarrow> loop_content list \<Rightarrow> nat list \<Rightarrow> inliner \<Rightarrow> (bool \<times> nat list \<times> inliner) result" where
  "inlineLoopsOfFunction E F [] toCheck s = Inr (False, toCheck, s)"
| "inlineLoopsOfFunction E F (LDI # allLoops) toCheck s =
     (if \<not> list_ex (\<lambda>enabledLoop. loopHeader E enabledLoop = headerOfLoop LDI) toCheck
      then inlineLoopsOfFunction E F allLoops toCheck s
      else if numberOfSubLoops LDI \<ge> 1 \<and> doallApplies LDI
      then inlineLoopsOfFunction E F allLoops (fold disableSubLoop (subLoops LDI) toCheck) s
      else case inlineWithinLoop E F LDI s of
        Inl e \<Rightarrow> Inl e
      | Inr (inlinedCall, s) \<Rightarrow>
          if inlinedCall then Inr (True, toCheck, s) else inlineLoopsOfFunction E F allLoops toCheck s)"

text \<open>The functions, deepest first; the callers of a changed function wait for the next run.\<close>

fun inlineLoopsOfFunctions ::
    "loop_env \<Rightarrow> (nat \<Rightarrow> loop_content list) \<Rightarrow> (nat \<Rightarrow> nat list) \<Rightarrow> nat list \<Rightarrow> nat set \<Rightarrow> inliner \<Rightarrow>
     (bool \<times> inliner) result" where
  "inlineLoopsOfFunctions E loopsOf loopsToCheck [] avoid s = Inr (False, s)"
| "inlineLoopsOfFunctions E loopsOf loopsToCheck (F # fns) avoid s =
     (if F \<in> avoid
      then inlineLoopsOfFunctions E loopsOf loopsToCheck fns (avoid \<union> parentFns s F) s
      else case inlineLoopsOfFunction E F (loopsOf F) (loopsToCheck F) s of
        Inl e \<Rightarrow> Inl e
      | Inr (inlined, toCheck, s) \<Rightarrow>
          map_sum id (\<lambda>(anyInlined, s). (inlined \<or> anyInlined, s))
            (inlineLoopsOfFunctions E loopsOf loopsToCheck fns
               (if inlined then avoid \<union> parentFns s F else avoid) s))"

definition inlineCallsInvolvedInLoopCarriedDataDependences ::
    "((nat \<Rightarrow> nat \<Rightarrow> bool) \<Rightarrow> nat list \<Rightarrow> nat list) \<Rightarrow> loop_env \<Rightarrow> (nat \<Rightarrow> loop_content list) \<Rightarrow>
     (nat \<rightharpoonup> nat list) \<Rightarrow> nat list \<Rightarrow> inliner \<Rightarrow> (bool \<times> inliner) result" where
  "inlineCallsInvolvedInLoopCarriedDataDependences stdSort E loopsOf loopsToCheck keys s =
     inlineLoopsOfFunctions E loopsOf (\<lambda>F. case loopsToCheck F of None \<Rightarrow> [] | Some l \<Rightarrow> l)
       (sortInDepthOrderFns stdSort s keys) {} s"

section \<open>Which call is chosen\<close>

text \<open>The nodes with a call that may be inlined, in the order they are looked at.\<close>

definition candidates :: "loop_env \<Rightarrow> inliner \<Rightarrow> nat \<Rightarrow> loop_content \<Rightarrow> scc_node list" where
  "candidates E s F LDI =
     filter (\<lambda>node. candidateCallee E s F node \<noteq> None)
       (concat (map snd (filter (\<lambda>scc. fst scc \<noteq> 1) (blockingSCCs LDI))))"

lemma fold_considerSCC:
  "fold (considerSCC E s F n) sccs c =
     fold (considerNode E s F n) (concat (map snd (filter (\<lambda>scc. fst scc \<noteq> 1) sccs))) c"
  by (induction sccs arbitrary: c) (auto simp: considerSCC_def)

lemma fold_considerNode_candidates:
  "fold (considerNode E s F n) (filter (\<lambda>node. candidateCallee E s F node \<noteq> None) nodes) c =
     fold (considerNode E s F n) nodes c"
proof (induction nodes arbitrary: c)
  case (Cons node nodes)
  then show ?case by (cases "candidateCallee E s F node") (simp_all add: considerNode_def)
qed simp

definition smallCallee :: "loop_env \<Rightarrow> inliner \<Rightarrow> nat \<Rightarrow> nat \<Rightarrow> scc_node \<Rightarrow> bool" where
  "smallCallee E s F n node =
     (case candidateCallee E s F node of None \<Rightarrow> False | Some (call, callF) \<Rightarrow> staticInstructions E callF < n)"

text \<open>The choice after some candidates: the first of those with the most memory dependences.\<close>

lemma fold_considerNode:
  assumes "\<forall>node \<in> set nodes. candidateCallee E s F node \<noteq> None"
  shows "let c' = fold (considerNode E s F n) nodes c in
    numberOfFunctionCallsToInline c' = numberOfFunctionCallsToInline c + of_nat (length nodes) \<and>
    maxMemEdges c \<le> maxMemEdges c' \<and>
    (\<forall>node \<in> set nodes. smallCallee E s F n node \<longrightarrow> memEdgeCount node \<le> maxMemEdges c') \<and>
    (maxMemEdges c' = maxMemEdges c \<and> inlineCall c' = inlineCall c \<or>
     (\<exists>node \<in> set nodes. smallCallee E s F n node \<and> memEdgeCount node = maxMemEdges c' \<and>
        maxMemEdges c < maxMemEdges c' \<and> inlineCall c' = callOfNode node))"
  using assms
proof (induction nodes arbitrary: c)
  case (Cons node nodes)
  obtain call callF where cand: "candidateCallee E s F node = Some (call, callF)" using Cons.prems by auto
  then have call: "callOfNode node = Some call"
    by (auto simp: candidateCallee_def split: option.splits if_split_asm)
  let ?c = "considerNode E s F n node c"
  have step: "numberOfFunctionCallsToInline ?c = numberOfFunctionCallsToInline c + 1"
    "smallCallee E s F n node \<and> maxMemEdges c < memEdgeCount node \<Longrightarrow>
       maxMemEdges ?c = memEdgeCount node \<and> inlineCall ?c = callOfNode node"
    "\<not> (smallCallee E s F n node \<and> maxMemEdges c < memEdgeCount node) \<Longrightarrow>
       maxMemEdges ?c = maxMemEdges c \<and> inlineCall ?c = inlineCall c"
    using cand call by (auto simp: considerNode_def smallCallee_def Let_def)
  note rest = Cons.IH[of ?c, unfolded Let_def]
  have "\<forall>node \<in> set nodes. candidateCallee E s F node \<noteq> None" using Cons.prems by simp
  note rest = rest[OF this]
  show ?case
  proof (cases "smallCallee E s F n node \<and> maxMemEdges c < memEdgeCount node")
    case True
    then show ?thesis using rest step(1) step(2)[OF True] by (auto simp: Let_def)
  next
    case False
    then show ?thesis using rest step(1) step(3)[OF False] by (auto simp: Let_def)
  qed
qed simp

text \<open>
  Of the calls of a loop that block DOALL and may be inlined, the inliner takes one with the most
  memory dependences among those whose callee is smaller than the loop, and none when they take part in no
  memory dependence; it inlines nothing when there are ten or more.
\<close>
theorem loop_call_chosen:
  fixes E :: loop_env and s :: inliner and F :: nat and LDI :: loop_content
  defines "cands \<equiv> candidates E s F LDI"
    and "small \<equiv> smallCallee E s F (staticInstructionsOfLoop LDI)"
  shows "(inlineCall (chooseCall E s F LDI) = None \<longleftrightarrow> (\<forall>node \<in> set cands. small node \<longrightarrow> memEdgeCount node = 0)) \<and>
    (\<forall>call. inlineCall (chooseCall E s F LDI) = Some call \<longrightarrow>
       (\<exists>node \<in> set cands. small node \<and> callOfNode node = Some call \<and> memEdgeCount node > 0 \<and>
          (\<forall>node' \<in> set cands. small node' \<longrightarrow> memEdgeCount node' \<le> memEdgeCount node))) \<and>
    (10 \<le> length cands \<and> length cands < 2 ^ 32 \<longrightarrow> inlineWithinLoop E F LDI s = Inr (False, s))"
proof -
  let ?start = "\<lparr>maxMemEdges = 0, numberOfFunctionCallsToInline = 0, inlineCall = None\<rparr>"
  have all: "\<forall>node \<in> set cands. candidateCallee E s F node \<noteq> None" by (simp add: cands_def candidates_def)
  have run: "chooseCall E s F LDI = fold (considerNode E s F (staticInstructionsOfLoop LDI)) cands ?start"
    by (simp only: chooseCall_def fold_considerSCC cands_def candidates_def fold_considerNode_candidates)
  note result = fold_considerNode[OF all, of "staticInstructionsOfLoop LDI" ?start, folded run small_def, unfolded Let_def]
  have has_call: "callOfNode node \<noteq> None" if "node \<in> set cands" for node
    using all that by (auto simp: candidateCallee_def split: option.splits)
  have many: "inlineWithinLoop E F LDI s = Inr (False, s)" if "10 \<le> length cands" "length cands < 2 ^ 32"
  proof -
    have "numberOfFunctionCallsToInline (chooseCall E s F LDI) = of_nat (length cands)" using result by simp
    moreover have "(10 :: u32) \<le> of_nat (length cands)"
      using that by (simp add: word_le_nat_alt u32_unat_of_nat)
    ultimately show ?thesis by (simp add: inlineWithinLoop_def Let_def split: option.split)
  qed
  show ?thesis
  proof (intro conjI allI impI)
    show "inlineCall (chooseCall E s F LDI) = None \<longleftrightarrow> (\<forall>node \<in> set cands. small node \<longrightarrow> memEdgeCount node = 0)"
      using result has_call by force
    show "\<exists>node \<in> set cands. small node \<and> callOfNode node = Some call \<and> memEdgeCount node > 0 \<and>
        (\<forall>node' \<in> set cands. small node' \<longrightarrow> memEdgeCount node' \<le> memEdgeCount node)"
      if "inlineCall (chooseCall E s F LDI) = Some call" for call
      using result that by force
    show "inlineWithinLoop E F LDI s = Inr (False, s)" if "10 \<le> length cands \<and> length cands < 2 ^ 32"
      using many that by blast
  qed
qed

section \<open>Sub-loops and callers\<close>

lemma std_remove_set:
  assumes "distinct xs" "x \<in> set xs"
  shows "set (std_remove x xs) = (if last xs = x then set xs else set xs - {x})"
proof -
  let ?keep = "filter (\<lambda>y. y \<noteq> x) xs"
  obtain ys zs where xs: "xs = ys @ x # zs" using assms(2) by (auto simp: in_set_conv_decomp)
  have "filter (\<lambda>y. y \<noteq> x) ys = ys" "filter (\<lambda>y. y \<noteq> x) zs = zs"
    using assms(1) xs by (auto intro!: filter_True)
  then have keep: "?keep = ys @ zs" using xs by simp
  have "length xs = Suc (length ?keep)" using xs keep by simp
  then have "drop (length ?keep) xs = [last xs]"
    by (metis append_butlast_last_id append_eq_conv_conj diff_Suc_1 length_0_conv length_butlast nat.distinct(1))
  then have "set (std_remove x xs) = insert (last xs) (set xs - {x})" by (auto simp: std_remove_def)
  moreover have "last xs \<in> set xs" using assms(2) by (cases xs) auto
  ultimately show ?thesis using assms(2) by auto
qed

text \<open>
  The sub-loops of a DOALL loop are to be disabled, and the one that is last in the list is not: nothing
  is erased after \<open>std::remove\<close>, so the list keeps its length and its last element.
\<close>
theorem last_sub_loop_stays_enabled:
  assumes "distinct toCheck" "child \<in> set toCheck"
  shows "length (disableSubLoop child toCheck) = length toCheck \<and>
    (child \<in> set (disableSubLoop child toCheck) \<longleftrightarrow> child = last toCheck)"
proof -
  have "length (filter (\<lambda>y. y \<noteq> child) toCheck) \<le> length toCheck" by (rule length_filter_le)
  then show ?thesis using std_remove_set[OF assms] assms(2)
    by (auto simp: disableSubLoop_def std_remove_def split: if_split_asm)
qed

lemma adjustFnGraph_other_parents:
  "adjustFnGraphAfterInline p c i s = Inr s' \<Longrightarrow> G \<noteq> p \<Longrightarrow> G \<in> parentFns s' X \<longleftrightarrow> G \<in> parentFns s X"
  by (auto simp: adjustFnGraphAfterInline_def Let_def addParent_apply split: if_split_asm)

lemma inlineFunctionCall_other_parents:
  assumes "inlineFunctionCall E F childF call s = Inr (b, s')" "G \<noteq> F"
  shows "G \<in> parentFns s' X \<longleftrightarrow> G \<in> parentFns s X"
  using assms(1)
proof (rule inlineFunctionCall_cases)
  fix n i
  assume "adjustFnGraphAfterInline F childF i
      (adjustLoopOrdersAfterInline F childF n (s\<lparr>fnsAffected := insert F (fnsAffected s)\<rparr>)) = Inr s'"
  from adjustFnGraph_other_parents[OF this assms(2)] show ?thesis by simp
qed simp

lemma inline_changes_caller_only:
  assumes "inlineLoopsOfFunction E F loops toCheck s = Inr (b, toCheck', s')"
  shows "fnsAffected s' = (if b then insert F (fnsAffected s) else fnsAffected s) \<and>
    (\<forall>G X. G \<noteq> F \<longrightarrow> (G \<in> parentFns s' X \<longleftrightarrow> G \<in> parentFns s X)) \<and> (b \<longrightarrow> F \<notin> fnsAffected s) \<and> (\<not> b \<longrightarrow> s' = s)"
  using assms
proof (induction E F loops toCheck s rule: inlineLoopsOfFunction.induct)
  case (2 E F LDI loops toCheck s)
  have within: "fnsAffected s1 = (if b1 then insert F (fnsAffected s) else fnsAffected s) \<and>
      (\<forall>G X. G \<noteq> F \<longrightarrow> (G \<in> parentFns s1 X \<longleftrightarrow> G \<in> parentFns s X)) \<and> (b1 \<longrightarrow> F \<notin> fnsAffected s) \<and> (\<not> b1 \<longrightarrow> s1 = s)"
    if "inlineWithinLoop E F LDI s = Inr (b1, s1)" for b1 s1
  proof (cases "\<exists>childF call. inlineFunctionCall (inline_env.truncate E) F childF call s = Inr (b1, s1)")
    case True
    then obtain childF call where run: "inlineFunctionCall (inline_env.truncate E) F childF call s = Inr (b1, s1)" by blast
    have "\<not> b1 \<longrightarrow> s1 = s" using inlineFunctionCall_cases[OF run] by metis
    then show ?thesis using inlineFunctionCall_result(8,9)[OF run] inlineFunctionCall_other_parents[OF run] by auto
  next
    case False
    then have "b1 = False \<and> s1 = s" using that
      by (auto simp: inlineWithinLoop_def Let_def split: option.splits if_split_asm)
    then show ?thesis by auto
  qed
  show ?case
  proof (cases "list_ex (\<lambda>enabledLoop. loopHeader E enabledLoop = headerOfLoop LDI) toCheck \<and>
      \<not> (numberOfSubLoops LDI \<ge> 1 \<and> doallApplies LDI)")
    case True
    then obtain b1 s1 where w: "inlineWithinLoop E F LDI s = Inr (b1, s1)"
      using "2.prems" by (auto split: sum.splits if_split_asm)
    show ?thesis
    proof (cases b1)
      case True
      then show ?thesis using within[OF w] w "2.prems" \<open>list_ex _ toCheck \<and> _\<close> by (auto split: if_split_asm)
    next
      case False
      then show ?thesis using within[OF w] w "2.prems" "2.IH"(3) \<open>list_ex _ toCheck \<and> _\<close> by (auto split: if_split_asm)
    qed
  next
    case False
    then show ?thesis using "2.prems" "2.IH"(1,2) by (auto split: if_split_asm)
  qed
qed auto

text \<open>What the loop over the functions changes: functions of its list that are not to be avoided.\<close>

lemma inlineLoopsOfFunctions_affects:
  assumes "inlineLoopsOfFunctions E loopsOf loopsToCheck fns avoid s = Inr (b, s')"
  shows "fnsAffected s \<subseteq> fnsAffected s' \<and> fnsAffected s' - fnsAffected s \<subseteq> set fns - avoid"
  using assms
proof (induction E loopsOf loopsToCheck fns avoid s arbitrary: b s' rule: inlineLoopsOfFunctions.induct)
  case (2 E loopsOf loopsToCheck F fns avoid s)
  show ?case
  proof (cases "F \<in> avoid")
    case True
    then show ?thesis using "2.IH"(1)[OF True] "2.prems" by auto
  next
    case False
    obtain b1 toCheck s1 where first: "inlineLoopsOfFunction E F (loopsOf F) (loopsToCheck F) s = Inr (b1, toCheck, s1)"
      using "2.prems" False by (auto split: sum.splits)
    obtain b2 where "inlineLoopsOfFunctions E loopsOf loopsToCheck fns (if b1 then avoid \<union> parentFns s1 F else avoid) s1
        = Inr (b2, s')"
      using "2.prems" False first
      by (cases "inlineLoopsOfFunctions E loopsOf loopsToCheck fns (if b1 then avoid \<union> parentFns s1 F else avoid) s1") auto
    note run = first this
    note rest = "2.IH"(2)[OF False run(1) refl refl run(2)]
    show ?thesis using rest inline_changes_caller_only[OF run(1)] False by (auto split: if_split_asm)
  qed
qed simp

lemma callers_avoided:
  assumes "inlineLoopsOfFunctions E loopsOf loopsToCheck (xs @ F # ys) avoid s = Inr (b, s')"
    and "distinct (xs @ F # ys)" "G \<in> set ys" "G \<in> parentFns s F"
    and "F \<in> fnsAffected s' - fnsAffected s" "G \<in> fnsAffected s' - fnsAffected s"
  shows False
  using assms
proof (induction xs arbitrary: avoid s b)
  case Nil
  show ?case
  proof (cases "F \<in> avoid")
    case True
    then show ?thesis using inlineLoopsOfFunctions_affects[OF Nil.prems(1)] Nil.prems(5) by auto
  next
    case False
    obtain b1 toCheck s1 where first: "inlineLoopsOfFunction E F (loopsOf F) (loopsToCheck F) s = Inr (b1, toCheck, s1)"
      using Nil.prems(1) False by (auto split: sum.splits)
    obtain b2 where rest: "inlineLoopsOfFunctions E loopsOf loopsToCheck ys (if b1 then avoid \<union> parentFns s1 F else avoid) s1
        = Inr (b2, s')"
      using Nil.prems(1) False first
      by (cases "inlineLoopsOfFunctions E loopsOf loopsToCheck ys (if b1 then avoid \<union> parentFns s1 F else avoid) s1") auto
    note changes = inline_changes_caller_only[OF first]
    have b1: b1
    proof (rule ccontr)
      assume "\<not> b1"
      then have "F \<in> set ys" using inlineLoopsOfFunctions_affects[OF rest] changes Nil.prems(5) by auto
      then show False using Nil.prems(2) by simp
    qed
    have "G \<noteq> F" using Nil.prems(2,3) by auto
    then have "G \<in> parentFns s1 F" using changes Nil.prems(4) by blast
    then show ?thesis
      using inlineLoopsOfFunctions_affects[OF rest] changes b1 Nil.prems(6) \<open>G \<noteq> F\<close> by auto
  qed
next
  case (Cons F0 xs)
  have ne: "G \<noteq> F0" "F \<noteq> F0" "distinct (xs @ F # ys)" using Cons.prems(2,3) by auto
  show ?case
  proof (cases "F0 \<in> avoid")
    case True
    then have "inlineLoopsOfFunctions E loopsOf loopsToCheck (xs @ F # ys) (avoid \<union> parentFns s F0) s = Inr (b, s')"
      using Cons.prems(1) by simp
    from Cons.IH[OF this ne(3) Cons.prems(3-6)] show ?thesis .
  next
    case False
    obtain b1 toCheck s1 where first: "inlineLoopsOfFunction E F0 (loopsOf F0) (loopsToCheck F0) s = Inr (b1, toCheck, s1)"
      using Cons.prems(1) False by (auto split: sum.splits)
    obtain b2 where rest: "inlineLoopsOfFunctions E loopsOf loopsToCheck (xs @ F # ys)
        (if b1 then avoid \<union> parentFns s1 F0 else avoid) s1 = Inr (b2, s')"
      using Cons.prems(1) False first
      by (cases "inlineLoopsOfFunctions E loopsOf loopsToCheck (xs @ F # ys) (if b1 then avoid \<union> parentFns s1 F0 else avoid) s1") auto
    note changes = inline_changes_caller_only[OF first]
    have "G \<in> parentFns s1 F" using changes ne(1) Cons.prems(4) by blast
    moreover have "F \<in> fnsAffected s' - fnsAffected s1" "G \<in> fnsAffected s' - fnsAffected s1"
      using Cons.prems(5,6) changes ne by auto
    ultimately show ?thesis using Cons.IH[OF rest ne(3) Cons.prems(3)] by blast
  qed
qed

text \<open>
  C35: when calls are inlined because of loop-carried dependences, no function is changed together with a
  deeper function it calls: what was inlined into the callee is looked at again, in the next run, before it
  is copied into its callers. The step that hoists loops to \<open>main\<close> does not keep to this: on a chain of
  calls it changes a function after the one it calls, in the same run.
\<close>
theorem callers_wait:
  assumes "std_sort stdSort" "distinct keys"
    and "inlineCallsInvolvedInLoopCarriedDataDependences stdSort E loopsOf loopsToCheck keys s = Inr (b, s')"
    and "F \<in> fnsAffected s' - fnsAffected s" "G \<in> fnsAffected s' - fnsAffected s" "fnOrder s G < fnOrder s F"
  shows "G \<notin> parentFns s F"
proof
  assume parent: "G \<in> parentFns s F"
  let ?fns = "sortInDepthOrderFns stdSort s keys"
  have weak: "strict_weak (\<lambda>a b. fnOrder s b < fnOrder s a)" by (auto simp: strict_weak_def)
  note run = assms(3)[unfolded inlineCallsInvolvedInLoopCarriedDataDependences_def]
  have dist: "distinct ?fns"
    using std_sort.sort_distinct[OF assms(1) weak] assms(2) by (simp add: sortInDepthOrderFns_def)
  have sorted: "sorted_wrt (\<lambda>x y. \<not> fnOrder s x < fnOrder s y) ?fns"
    using std_sort.sort_sorts[OF assms(1) weak] by (simp add: sortInDepthOrderFns_def)
  have "F \<in> set ?fns" "G \<in> set ?fns" using inlineLoopsOfFunctions_affects[OF run] assms(4,5) by auto
  then obtain xs ys where split: "?fns = xs @ F # ys" by (meson split_list)
  have "G \<notin> set xs" using sorted assms(6) unfolding split by (auto simp: sorted_wrt_append)
  then have "G \<in> set ys" using \<open>G \<in> set ?fns\<close> assms(6) unfolding split by auto
  from callers_avoided[OF run[unfolded split] dist[unfolded split] this parent assms(4,5)] show False .
qed

section \<open>The pass\<close>

text \<open>
  What the pass reads: options, the entry function, the program before and after hoisting (its call graph
  is computed again then), the basic blocks of each function, the loop a block is the header of, the
  profile, the loops with their contents, and the file of the previous run.
\<close>

record pass_env =
  transformationEnabled :: bool
  entryFunction :: "nat option"
  numberOfProgramInstructions :: u64
  program :: "nat \<Rightarrow> fn_body"
  programAfterHoisting :: "inliner \<Rightarrow> nat \<Rightarrow> fn_body"
  basicBlocks :: "nat \<Rightarrow> nat list"
  loopOfHeader :: "nat \<Rightarrow> nat option"
  profilesAvailable :: bool
  coverageOfLoop :: "nat \<Rightarrow> double"
  minimumHotness :: double
  loopContents :: "nat \<Rightarrow> loop_content list"
  shouldLoopsBeHoistToMain :: bool
  hoistingFile :: "string list option"

definition collectPreOrderedLoopsFor :: "pass_env \<Rightarrow> nat \<Rightarrow> nat list" where
  "collectPreOrderedLoopsFor M F = List.map_filter (loopOfHeader M) (basicBlocks M F)"

definition createPreOrderedLoopSummariesFor :: "pass_env \<Rightarrow> nat \<Rightarrow> inliner \<Rightarrow> inliner" where
  "createPreOrderedLoopSummariesFor M F s =
     (if collectPreOrderedLoopsFor M F = [] then s
      else s\<lparr>preOrderedLoops := (preOrderedLoops s)(F \<mapsto> collectPreOrderedLoopsFor M F)\<rparr>)"

definition getLoopsToInline :: "pass_env \<Rightarrow> inliner \<Rightarrow> nat \<rightharpoonup> nat list" where
  "getLoopsToInline M s F =
     (case preOrderedLoops s F of
        None \<Rightarrow> None
      | Some loops \<Rightarrow>
          let loops = filter (\<lambda>summary. \<not> (profilesAvailable M \<and> dless (coverageOfLoop M summary) (minimumHotness M))) loops
          in if loops = [] then None else Some loops)"

text \<open>
  The functions with loops to look at, which the code holds in a hash table and then sorts by their
  orders; each has its own order, so the sorted list does not depend on how the table lists them.
\<close>

definition functionsToLookAt :: "pass_env \<Rightarrow> inliner \<Rightarrow> nat list" where
  "functionsToLookAt M s = filter (\<lambda>F. getLoopsToInline M s F \<noteq> None) (depthOrderedFns s)"

definition collectOrder :: "(nat \<Rightarrow> fn_body) \<Rightarrow> nat \<Rightarrow> nat \<Rightarrow> inliner \<Rightarrow> inliner option" where
  "collectOrder P fuel main s = Option.bind (collectFnGraph P fuel main s) (collectInDepthOrderFns fuel main)"

definition hoistLoops ::
    "((nat \<Rightarrow> nat \<Rightarrow> bool) \<Rightarrow> nat list \<Rightarrow> nat list) \<Rightarrow> ((int \<Rightarrow> int \<Rightarrow> bool) \<Rightarrow> int list \<Rightarrow> int list) \<Rightarrow> loop_env \<Rightarrow>
     pass_env \<Rightarrow> nat \<Rightarrow> nat \<Rightarrow> inliner \<Rightarrow> (bool \<times> inliner \<times> string list option) result option" where
  "hoistLoops sortFns sortInds E M fuel main s =
     (case getFunctionsToInline (hoistingFile M) s of
        Inl e \<Rightarrow> Some (Inl e)
      | Inr s \<Rightarrow>
          (case inlineFnsOfLoopsToCGRoot sortFns (inline_env.truncate E) fuel s of
             None \<Rightarrow> None
           | Some (Inl e) \<Rightarrow> Some (Inl e)
           | Some (Inr (inlined, s)) \<Rightarrow>
               map_option (\<lambda>s. Inr (inlined, s, snd (registerRemainingFunctions sortInds s)))
                 (if inlined
                  then collectOrder (programAfterHoisting M s) fuel main
                         (s\<lparr>parentFns := \<lambda>_. {}, childrenFns := \<lambda>_. [], orderedCalled := \<lambda>_. [], orderedCalls := \<lambda>_. []\<rparr>)
                  else Some s)))"

definition runOnModule ::
    "((nat \<Rightarrow> nat \<Rightarrow> bool) \<Rightarrow> nat list \<Rightarrow> nat list) \<Rightarrow> ((int \<Rightarrow> int \<Rightarrow> bool) \<Rightarrow> int list \<Rightarrow> int list) \<Rightarrow> loop_env \<Rightarrow>
     pass_env \<Rightarrow> nat \<Rightarrow> inliner \<Rightarrow> (bool \<times> inliner \<times> string list option) result option" where
  "runOnModule sortFns sortInds E M fuel s =
     (if \<not> transformationEnabled M then Some (Inr (False, s, hoistingFile M))
      else case entryFunction M of
        None \<Rightarrow> Some (Inr (False, s, hoistingFile M))
      | Some main \<Rightarrow>
          if numberOfProgramInstructions M \<ge> 50000 then Some (Inr (False, s, hoistingFile M))
          else case collectOrder (program M) fuel main s of
            None \<Rightarrow> None
          | Some s \<Rightarrow>
              let s = fold (createPreOrderedLoopSummariesFor M) (depthOrderedFns s) s in
              case inlineCallsInvolvedInLoopCarriedDataDependences sortFns E (loopContents M)
                     (getLoopsToInline M s) (functionsToLookAt M s) s of
                Inl e \<Rightarrow> Some (Inl e)
              | Inr (inlined, s) \<Rightarrow>
                  if inlined then Some (Inr (True, s, hoistingFile M))
                  else if \<not> shouldLoopsBeHoistToMain M then Some (Inr (False, s, hoistingFile M))
                  else hoistLoops sortFns sortInds E M fuel main s)"

section \<open>What the pass reports\<close>

text \<open>The part of the state the depth order does not touch.\<close>

definition graph_part :: "('a) inliner_scheme \<Rightarrow> (nat \<Rightarrow> nat set) \<times> (nat \<Rightarrow> nat list) \<times> (nat \<Rightarrow> nat list) \<times>
    (nat \<rightharpoonup> nat list) \<times> nat set" where
  "graph_part s = (parentFns s, orderedCalls s, orderedCalled s, preOrderedLoops s, fnsAffected s)"

lemma graph_part_orderChildren: "graph_part (orderChildren fns w) = graph_part w"
  by (induction fns arbitrary: w) (simp_all add: graph_part_def assignOrder_def Let_def)

lemma graph_part_orderReachable: "orderReachable fuel w = Some w' \<Longrightarrow> graph_part w' = graph_part w"
proof (induction fuel arbitrary: w)
  case 0
  then show ?case by (subst (asm) orderReachable.simps) (simp split: list.splits)
next
  case (Suc fuel)
  show ?case
  proof (cases "funcToTraverse w")
    case Nil
    then show ?thesis using Suc.prems by (subst (asm) orderReachable.simps) simp
  next
    case (Cons f fs)
    have "orderReachable fuel (orderChildren (childrenFns w f) (w\<lparr>funcToTraverse := fs\<rparr>)) = Some w'"
      using Suc.prems Cons by (subst (asm) orderReachable.simps) simp
    from Suc.IH[OF this] show ?thesis
      using graph_part_orderChildren[of "childrenFns w f" "w\<lparr>funcToTraverse := fs\<rparr>"] by (simp add: graph_part_def)
  qed
qed

lemma graph_part_orderRemaining: "graph_part (orderRemaining fns remaining w) = graph_part w"
  by (induction fns arbitrary: remaining w) (simp_all add: graph_part_def assignOrder_def)

lemma graph_part_orderRounds: "orderRounds fuel steps w = Some w' \<Longrightarrow> graph_part w' = graph_part w"
proof (induction fuel arbitrary: w)
  case 0
  then show ?case by (subst (asm) orderRounds.simps) (simp split: if_split_asm)
next
  case (Suc fuel)
  show ?case
  proof (cases "funcToTraverse w = []")
    case True
    then show ?thesis using Suc.prems by (subst (asm) orderRounds.simps) simp
  next
    case False
    then obtain w1 where w1: "orderReachable steps w = Some w1"
      "orderRounds fuel steps (orderRemaining (deferred w1) [] w1) = Some w'"
      using Suc.prems by (subst (asm) orderRounds.simps) (auto split: option.splits)
    then show ?thesis
      using Suc.IH[OF w1(2)] graph_part_orderReachable[OF w1(1)] by (simp add: graph_part_orderRemaining)
  qed
qed

lemma graph_part_depth_order:
  assumes "collectInDepthOrderFns fuel main s = Some t"
  shows "graph_part t = graph_part s"
proof -
  obtain w where w: "orderRounds fuel fuel (startDepthOrder main s) = Some w" "t = inliner.truncate w"
    using assms by (auto simp: collectInDepthOrderFns_def)
  then show ?thesis using graph_part_orderRounds[OF w(1)]
    by (simp add: graph_part_def startDepthOrder_def inliner.defs)
qed

lemma traverseCallGraph_lengths:
  assumes "traverseCallGraph P fuel queue R s = Some s'" "\<forall>F. length (orderedCalled s F) = length (orderedCalls s F)"
  shows "(\<forall>F. length (orderedCalled s' F) = length (orderedCalls s' F)) \<and> fnsAffected s' = fnsAffected s \<and>
    preOrderedLoops s' = preOrderedLoops s"
  using assms
proof (induction P fuel queue R s rule: traverseCallGraph.induct)
  case (3 P fuel f queue R s)
  have "\<forall>F. length (orderedCalled (collectChildren P f s) F) = length (orderedCalls (collectChildren P f s) F)"
    "fnsAffected (collectChildren P f s) = fnsAffected s"
    "preOrderedLoops (collectChildren P f s) = preOrderedLoops s"
    using "3.prems"(2) by (simp_all add: collectChildren_def collectFnCallsAndCalled_def Let_def)
  then show ?case using "3.IH" "3.prems"(1) by (auto simp: Let_def split: prod.splits)
qed simp_all

lemma inlineLoopsOfFunctions_reports:
  assumes "inlineLoopsOfFunctions E loopsOf loopsToCheck fns avoid s = Inr (b, s')"
  shows "(b \<longleftrightarrow> fnsAffected s' \<noteq> fnsAffected s) \<and> (\<not> b \<longrightarrow> s' = s)"
  using assms
proof (induction fns arbitrary: avoid s b)
  case (Cons F fns)
  show ?case
  proof (cases "F \<in> avoid")
    case True
    then show ?thesis using Cons.IH Cons.prems by simp
  next
    case False
    obtain b1 toCheck s1 where first: "inlineLoopsOfFunction E F (loopsOf F) (loopsToCheck F) s = Inr (b1, toCheck, s1)"
      using Cons.prems False by (auto split: sum.splits)
    let ?avoid = "if b1 then avoid \<union> parentFns s1 F else avoid"
    obtain b2 where rest: "inlineLoopsOfFunctions E loopsOf loopsToCheck fns ?avoid s1 = Inr (b2, s')" "b = (b1 \<or> b2)"
      using Cons.prems False first by (cases "inlineLoopsOfFunctions E loopsOf loopsToCheck fns ?avoid s1") auto
    have "fnsAffected s1 \<subseteq> fnsAffected s'" using inlineLoopsOfFunctions_affects[OF rest(1)] by blast
    then show ?thesis using Cons.IH[OF rest(1)] rest(2) inline_changes_caller_only[OF first] by auto
  qed
qed simp

lemma collectOrder_result:
  assumes "finite U" "main \<in> U" "\<forall>f \<in> U. set (callees P f) \<subseteq> U"
    and fresh: "\<forall>f. childrenFns s f = [] \<and> parentFns s f = {} \<and> orderedCalls s f = [] \<and> orderedCalled s f = []"
  shows "\<exists>t. collectOrder P (card U) main s = Some t \<and> (\<forall>F. parentFns t F \<subseteq> U) \<and>
    (\<forall>F. length (orderedCalled t F) = length (orderedCalls t F)) \<and> fnsAffected t = fnsAffected s \<and>
    preOrderedLoops t = preOrderedLoops s \<and> set (depthOrderedFns t) \<subseteq> U \<and> distinct (depthOrderedFns t)"
proof -
  have empty: "\<forall>f. childrenFns s f = [] \<and> parentFns s f = {}" using fresh by simp
  obtain s1 where s1: "collectFnGraph P (card U) main s = Some s1" "graph_of P ((calls_rel P)\<^sup>* `` {main}) s1"
    using collectFnGraph_result[OF assms(1-3) empty] by blast
  obtain t where t: "collectInDepthOrderFns (card U) main s1 = Some t" "set (depthOrderedFns t) = (calls_rel P)\<^sup>* `` {main}"
    "distinct (depthOrderedFns t)"
    using depth_order_complete[OF assms(1-3) s1(2)] by blast
  have part: "graph_part t = graph_part s1" using graph_part_depth_order[OF t(1)] .
  have "(\<forall>F. length (orderedCalled s1 F) = length (orderedCalls s1 F)) \<and> fnsAffected s1 = fnsAffected s \<and>
      preOrderedLoops s1 = preOrderedLoops s"
    using traverseCallGraph_lengths[OF s1(1)[unfolded collectFnGraph_def]] fresh by simp
  moreover have "\<forall>F. parentFns s1 F \<subseteq> U"
    using s1(2) reachable_subset[OF assms(2,3)] unfolding graph_of_def by auto
  ultimately show ?thesis
    using s1(1) t part reachable_subset[OF assms(2,3)] by (auto simp: collectOrder_def graph_part_def)
qed

lemma getFunctionsToInline_selects:
  assumes "getFunctionsToInline file s = Inr s'"
  shows "fnsToCheck s' \<subseteq> set (depthOrderedFns s) \<union> dom (preOrderedLoops s)" "graph_part s' = graph_part s"
proof -
  have read: "fnsToCheck t' \<subseteq> fnsToCheck t \<union> set (depthOrderedFns t) \<and> graph_part t' = graph_part t"
    if "readFunctions lines t = Inr t'" for lines t t'
    using that
  proof (induction lines arbitrary: t)
    case (Cons line lines)
    then obtain fnInd where ind: "stoi line = Inr fnInd" "fnInd > 0" "nat fnInd < length (depthOrderedFns t)"
      "readFunctions lines (t\<lparr>fnsToCheck := insert (depthOrderedFns t ! nat fnInd) (fnsToCheck t)\<rparr>) = Inr t'"
      by (auto split: sum.splits if_split_asm)
    from Cons.IH[OF ind(4)] ind(3) show ?case by (auto simp: graph_part_def)
  qed simp
  show "fnsToCheck s' \<subseteq> set (depthOrderedFns s) \<union> dom (preOrderedLoops s)" "graph_part s' = graph_part s"
    using assms read[of _ "s\<lparr>fnsToCheck := {}\<rparr>" s']
    by (auto simp: getFunctionsToInline_def graph_part_def split: option.splits)
qed

lemma createSummaries_fields:
  "parentFns (fold (createPreOrderedLoopSummariesFor M) fns s) = parentFns s"
  "orderedCalls (fold (createPreOrderedLoopSummariesFor M) fns s) = orderedCalls s"
  "orderedCalled (fold (createPreOrderedLoopSummariesFor M) fns s) = orderedCalled s"
  "fnsAffected (fold (createPreOrderedLoopSummariesFor M) fns s) = fnsAffected s"
  "depthOrderedFns (fold (createPreOrderedLoopSummariesFor M) fns s) = depthOrderedFns s"
  by (induction fns arbitrary: s) (auto simp: createPreOrderedLoopSummariesFor_def)

lemma createSummaries_loops:
  "dom (preOrderedLoops (fold (createPreOrderedLoopSummariesFor M) fns s)) \<subseteq> set fns \<union> dom (preOrderedLoops s)"
proof (induction fns arbitrary: s)
  case (Cons F fns)
  have "dom (preOrderedLoops (createPreOrderedLoopSummariesFor M F s)) \<subseteq> insert F (dom (preOrderedLoops s))"
    by (auto simp: createPreOrderedLoopSummariesFor_def)
  then show ?case using Cons.IH[of "createPreOrderedLoopSummariesFor M F s"] by (simp only: list.simps fold.simps comp_apply) blast
qed simp

lemma hoistLoops_result:
  assumes "finite U" "main \<in> U" "std_sort sortFns"
    and "\<forall>t. \<forall>f \<in> U. set (callees (programAfterHoisting M t) f) \<subseteq> U"
    and s: "\<forall>F. parentFns s F \<subseteq> U" "\<forall>F. length (orderedCalled s F) = length (orderedCalls s F)"
      "set (depthOrderedFns s) \<union> dom (preOrderedLoops s) \<subseteq> U" "fnsAffected s = {}"
  shows "\<exists>r. hoistLoops sortFns sortInds E M (card U) main s = Some r \<and>
    (\<forall>b s' file. r = Inr (b, s', file) \<longrightarrow> (b \<longleftrightarrow> fnsAffected s' \<noteq> {}))"
proof (cases "getFunctionsToInline (hoistingFile M) s")
  case (Inl e)
  then show ?thesis by (simp add: hoistLoops_def)
next
  case (Inr s1)
  note sel = getFunctionsToInline_selects[OF Inr]
  have check: "fnsToCheck s1 \<subseteq> U" by (rule order_trans[OF sel(1) s(3)])
  have part: "\<forall>F. parentFns s1 F \<subseteq> U"
    "\<forall>F. length (orderedCalled s1 F) = length (orderedCalls s1 F)" "fnsAffected s1 = {}"
    using sel(2) s by (auto simp: graph_part_def)
  obtain b s2 where s2: "inlineFnsOfLoopsToCGRoot sortFns (inline_env.truncate E) (card U) s1 = Some (Inr (b, s2))"
    "b = ({} \<noteq> fnsAffected s2)"
    using hoist_result[OF assms(1) check part(1,2) assms(3), of "inline_env.truncate E"] unfolding part(3) by blast
  then have reports: "b \<longleftrightarrow> fnsAffected s2 \<noteq> {}" by blast
  let ?clear = "s2\<lparr>parentFns := \<lambda>_. {}, childrenFns := \<lambda>_. [], orderedCalled := \<lambda>_. [], orderedCalls := \<lambda>_. []\<rparr>"
  have "\<forall>f \<in> U. set (callees (programAfterHoisting M s2) f) \<subseteq> U" using assms(4) by blast
  from collectOrder_result[OF assms(1,2) this, of ?clear] obtain t where
    "collectOrder (programAfterHoisting M s2) (card U) main ?clear = Some t" "fnsAffected t = fnsAffected s2" by auto
  then show ?thesis using Inr s2(1) reports by (simp add: hoistLoops_def)
qed

text \<open>
  C34: the pass ends, and tells the pass manager that the module changed exactly when it changed a function:
  on a fresh inliner and for every input on which the file of the last run makes sense.
\<close>
theorem inliner_pass:
  assumes "finite U" "std_sort sortFns" and entry: "\<forall>main. entryFunction M = Some main \<longrightarrow> main \<in> U"
    and "\<forall>f \<in> U. set (callees (program M) f) \<subseteq> U"
    and "\<forall>t. \<forall>f \<in> U. set (callees (programAfterHoisting M t) f) \<subseteq> U"
  shows "\<exists>r. runOnModule sortFns sortInds E M (card U) new_inliner = Some r \<and>
    (\<forall>b s' file. r = Inr (b, s', file) \<longrightarrow> (b \<longleftrightarrow> fnsAffected s' \<noteq> {}))"
proof -
  have fresh: "fnsAffected new_inliner = {}" by (simp add: new_inliner_def)
  show ?thesis
  proof (cases "transformationEnabled M \<and> entryFunction M \<noteq> None \<and> \<not> numberOfProgramInstructions M \<ge> 50000")
    case False
    then show ?thesis using fresh by (cases "transformationEnabled M"; cases "entryFunction M") (simp_all add: runOnModule_def)
  next
    case True
    then obtain main where main: "entryFunction M = Some main" "main \<in> U" using entry by auto
    from collectOrder_result[OF assms(1) main(2) assms(4), of new_inliner] obtain t where
      t: "collectOrder (program M) (card U) main new_inliner = Some t" "\<forall>F. parentFns t F \<subseteq> U"
        "\<forall>F. length (orderedCalled t F) = length (orderedCalls t F)" "fnsAffected t = {}"
        "set (depthOrderedFns t) \<subseteq> U" "preOrderedLoops t = Map.empty"
      using fresh by (auto simp: new_inliner_def)
    let ?s = "fold (createPreOrderedLoopSummariesFor M) (depthOrderedFns t) t"
    note sum = createSummaries_fields[of M "depthOrderedFns t" t] createSummaries_loops[of M "depthOrderedFns t" t]
    have s: "\<forall>F. parentFns ?s F \<subseteq> U" "\<forall>F. length (orderedCalled ?s F) = length (orderedCalls ?s F)"
      "set (depthOrderedFns ?s) \<union> dom (preOrderedLoops ?s) \<subseteq> U" "fnsAffected ?s = {}"
      using sum t(2-6) by auto
    let ?run = "inlineCallsInvolvedInLoopCarriedDataDependences sortFns E (loopContents M)
        (getLoopsToInline M ?s) (functionsToLookAt M ?s) ?s"
    show ?thesis
    proof (cases ?run)
      case (Inl e)
      then show ?thesis using True main t(1) by (simp add: runOnModule_def Let_def)
    next
      case (Inr r)
      obtain b s' where r: "r = (b, s')" by force
      note reports = inlineLoopsOfFunctions_reports[OF Inr[unfolded r inlineCallsInvolvedInLoopCarriedDataDependences_def]]
      show ?thesis
      proof (cases "b \<or> \<not> shouldLoopsBeHoistToMain M")
        case True
        then show ?thesis using \<open>_ \<and> _ \<and> _\<close> main t(1) Inr r reports s(4) by (auto simp: runOnModule_def Let_def)
      next
        case False
        then have "s' = ?s" using reports by simp
        then show ?thesis using False \<open>_ \<and> _ \<and> _\<close> main t(1) Inr r
            hoistLoops_result[OF assms(1) main(2) assms(2,5) s, of sortInds E]
          by (auto simp: runOnModule_def Let_def)
      qed
    qed
  qed
qed

section \<open>Examples\<close>

definition example_env :: loop_env where
  "example_env = inline_env.extend (chain_env\<lparr>calledFunction := [10 \<mapsto> 1, 11 \<mapsto> 3, 12 \<mapsto> 3]\<rparr>)
     (loop_env.fields (\<lambda>_. False) (\<lambda>_. False) (\<lambda>_. False) (\<lambda>_. 0))"

text \<open>The functions 1 and 2 each have a loop that calls the function 3.\<close>

definition two_callers :: inliner where
  "two_callers = chain_start\<lparr>parentFns := (\<lambda>_. {})(1 := {0}, 2 := {0}, 3 := {1, 2}), fnOrders := [0 \<mapsto> 0, 1 \<mapsto> 1, 2 \<mapsto> 2, 3 \<mapsto> 3],
     orderedCalls := (\<lambda>_. [])(1 := [11], 2 := [12]), orderedCalled := (\<lambda>_. [])(1 := [3], 2 := [3]),
     preOrderedLoops := [1 \<mapsto> [5], 2 \<mapsto> [6]]\<rparr>"

definition loop_calling :: "nat \<Rightarrow> nat \<Rightarrow> nat \<Rightarrow> loop_content" where
  "loop_calling header call n =
     \<lparr>headerOfLoop = header, staticInstructionsOfLoop = 80,
      blockingSCCs = [(1, [\<lparr>callOfNode = Some 10, memEdgeCount = 9, isInSubLoop = False\<rparr>]),
        (4, \<lparr>callOfNode = None, memEdgeCount = 5, isInSubLoop = False\<rparr> #
            replicate n \<lparr>callOfNode = Some call, memEdgeCount = 2, isInSubLoop = False\<rparr>)],
      numberOfSubLoops = 0, subLoops = [], doallApplies = False\<rparr>"

lemma loop_calling_candidates:
  "candidates example_env two_callers 1 (loop_calling 5 11 n) =
     replicate n \<lparr>callOfNode = Some 11, memEdgeCount = 2, isInSubLoop = False\<rparr>"
  by (simp add: candidates_def loop_calling_def candidateCallee_def example_env_def two_callers_def chain_env_def
      fnOrder_def inline_env.defs loop_env.defs filter_replicate)

lemma loop_call_chosen_witness:
  "inlineCall (chooseCall example_env two_callers 1 (loop_calling 5 11 10)) = Some 11 \<and>
   inlineWithinLoop example_env 1 (loop_calling 5 11 10) two_callers = Inr (False, two_callers)"
proof -
  note result = loop_call_chosen[where E = example_env and s = two_callers and F = 1 and LDI = "loop_calling 5 11 10",
      unfolded loop_calling_candidates]
  have small: "smallCallee example_env two_callers 1 (staticInstructionsOfLoop (loop_calling 5 11 10))
      \<lparr>callOfNode = Some 11, memEdgeCount = 2, isInSubLoop = False\<rparr>"
    by (simp add: smallCallee_def loop_calling_def candidateCallee_def example_env_def two_callers_def chain_env_def
        fnOrder_def inline_env.defs loop_env.defs)
  then have "inlineCall (chooseCall example_env two_callers 1 (loop_calling 5 11 10)) \<noteq> None"
    using result[THEN conjunct1] by simp
  then obtain call where call: "inlineCall (chooseCall example_env two_callers 1 (loop_calling 5 11 10)) = Some call" by blast
  then have "call = 11" using result[THEN conjunct2, THEN conjunct1] by auto
  then show ?thesis using call result by simp
qed

lemma last_sub_loop_stays_enabled_witness:
  "disableSubLoop 3 [1, 2, 3] = [1, 2, 3] \<and> 3 \<in> set (disableSubLoop 3 [1, 2, 3 :: nat]) \<and>
     2 \<notin> set (disableSubLoop 2 [1, 2, 3 :: nat])"
  using last_sub_loop_stays_enabled[of "[1, 2, 3]" 3] last_sub_loop_stays_enabled[of "[1, 2, 3]" 2]
  by (simp add: disableSubLoop_def std_remove_def)

lemma two_callers_run:
  "\<exists>s'. inlineCallsInvolvedInLoopCarriedDataDependences insertion_sort example_env
     (\<lambda>F. if F = 1 then [loop_calling 5 11 1] else [loop_calling 6 12 1]) (preOrderedLoops two_callers) [1, 2] two_callers =
     Inr (True, s') \<and> fnsAffected s' = {1, 2}"
  by (simp add: inlineCallsInvolvedInLoopCarriedDataDependences_def sortInDepthOrderFns_def insertion_sort_def
      fnOrder_def two_callers_def inlineWithinLoop_def chooseCall_def loop_calling_def considerSCC_def considerNode_def
      candidateCallee_def example_env_def chain_env_def chain_start_def inline_env.defs loop_env.defs Let_def
      inlineFunctionCall_def canInlineWithoutRecursiveLoop_def getNextPreorderLoopAfter_def adjustFnGraphAfterInline_def
      adjustLoopOrdersAfterInline_def addParent_def insert_commute word_le_nat_alt)

lemma callers_wait_witness: "1 \<notin> parentFns two_callers 2"
proof -
  obtain s' where run: "inlineCallsInvolvedInLoopCarriedDataDependences insertion_sort example_env
     (\<lambda>F. if F = 1 then [loop_calling 5 11 1] else [loop_calling 6 12 1]) (preOrderedLoops two_callers) [1, 2] two_callers =
     Inr (True, s')" "fnsAffected s' = {1, 2}" using two_callers_run by blast
  show ?thesis
    by (rule callers_wait[OF insertion.std_sort_axioms _ run(1)])
      (simp_all add: run(2) fnOrder_def two_callers_def chain_start_def)
qed

definition example_pass :: pass_env where
  "example_pass = \<lparr>transformationEnabled = True, entryFunction = Some 0, numberOfProgramInstructions = 900,
     program = call_chain, programAfterHoisting = (\<lambda>_. call_chain), basicBlocks = (\<lambda>F. if F = 2 then [20, 21] else [F]),
     loopOfHeader = [21 \<mapsto> 7], profilesAvailable = False, coverageOfLoop = (\<lambda>_. Finite 0), minimumHotness = Finite 0,
     loopContents = (\<lambda>_. []), shouldLoopsBeHoistToMain = True, hoistingFile = None\<rparr>"

lemma inliner_pass_witness:
  "\<exists>r. runOnModule insertion_sort insertion_sort example_env example_pass 3 new_inliner = Some r \<and>
     (\<forall>b s' file. r = Inr (b, s', file) \<longrightarrow> (b \<longleftrightarrow> fnsAffected s' \<noteq> {}))"
proof -
  have card: "card {0, 1, 2 :: nat} = 3" by simp
  have "callees call_chain f = (if f = 0 then [1] else if f = 1 then [2] else [])" for f
    by (simp add: callees_def linkedCalls_def call_chain_def isDefined_def List.map_filter_def)
  then show ?thesis
    using inliner_pass[OF _ insertion.std_sort_axioms, of "{0, 1, 2}" example_pass, unfolded card]
    by (simp add: example_pass_def)
qed

end
