(* ===== verification/Enablers.thy ===== *)
theory Enablers
  imports Loop_Tree
begin

text \<open>
  The pass that prepares loops for parallelization (\<open>enablers/src/EnablersManager.cpp\<close> and
  \<open>Enablers.cpp\<close>): which transformation it tries on a loop, in which order, and on which loops. What a
  transformation of NOELLE does to a loop is given by whether it succeeds.
\<close>

section \<open>One loop\<close>

text \<open>
  The called operand of an instruction, for the devirtualizer: a load from a computed address has, for each
  index of the address, whether an induction variable contributes to it.
\<close>

datatype address = GEP "bool list" | OtherAddress
datatype called_operand = KnownFunction | LoadedFrom address | OtherOperand
datatype loop_inst = CallInst called_operand | OtherInst

datatype enabler = LoopDistribution | Devirtualizer | LoopWhilifier | LoopInvariantCodeMotion |
  SCEVSimplification

record enabler_loop =
  functionOf :: nat
  sccsWithKind :: "(nat \<times> bool) list"
  splitLoop :: "nat \<Rightarrow> bool"
  basicBlocks :: "loop_inst list list"
  fullyUnrollLoop :: bool
  hasGoverningIV :: bool
  numberOfExitBasicBlocks :: nat
  isDOALL :: bool
  whilifyLoop :: bool
  extractInvariantsFromLoop :: bool
  simplifyIVRelatedSCEVs :: bool
  simplifyConstantPHIs :: bool

text \<open>Only components of unknown loop-carried kind are sequential.\<close>

definition sequentialSCCs :: "enabler_loop \<Rightarrow> nat list" where
  "sequentialSCCs L = map fst (filter snd (sccsWithKind L))"

fun trySplit :: "enabler_loop \<Rightarrow> nat list \<Rightarrow> bool" where
  "trySplit L [] = False"
| "trySplit L (scc # sccs) = (if splitLoop L scc then True else trySplit L sccs)"

definition applyLoopDistribution :: "enabler_loop \<Rightarrow> bool" where
  "applyLoopDistribution L = trySplit L (sequentialSCCs L)"

fun scanIndices :: "bool list \<Rightarrow> bool \<Rightarrow> bool" where
  "scanIndices [] fullyUnroll = fullyUnroll"
| "scanIndices (contributes # idxs) fullyUnroll = (if contributes then True else scanIndices idxs fullyUnroll)"

fun scanInstructions :: "loop_inst list \<Rightarrow> bool \<Rightarrow> bool" where
  "scanInstructions [] fullyUnroll = fullyUnroll"
| "scanInstructions (CallInst (LoadedFrom (GEP idxs)) # insts) fullyUnroll =
     (let fullyUnroll = scanIndices idxs fullyUnroll
      in if fullyUnroll then fullyUnroll else scanInstructions insts fullyUnroll)"
| "scanInstructions (inst # insts) fullyUnroll = scanInstructions insts fullyUnroll"

definition applyDevirtualizer :: "enabler_loop \<Rightarrow> bool" where
  "applyDevirtualizer L =
     (let fullyUnroll = fold scanInstructions (basicBlocks L) False
      in if \<not> fullyUnroll then False else fullyUnrollLoop L)"

definition applyLoopWhilifier :: "enabler_loop \<Rightarrow> bool" where
  "applyLoopWhilifier L =
     (if hasGoverningIV L \<and> numberOfExitBasicBlocks L = 1 then False
      else if isDOALL L then False
      else whilifyLoop L)"

text \<open>
  The sequence of transformations; the code returns whether the loop was changed, the model also by
  what.
\<close>

definition applyEnablers :: "(enabler \<Rightarrow> bool) \<Rightarrow> enabler_loop \<Rightarrow> enabler option" where
  "applyEnablers isEnabled L =
     (if isEnabled LoopDistribution \<and> applyLoopDistribution L then Some LoopDistribution
      else if isEnabled Devirtualizer \<and> applyDevirtualizer L then Some Devirtualizer
      else if isEnabled LoopWhilifier \<and> applyLoopWhilifier L then Some LoopWhilifier
      else if isEnabled LoopInvariantCodeMotion \<and> extractInvariantsFromLoop L then Some LoopInvariantCodeMotion
      else if isEnabled SCEVSimplification then
        (if simplifyIVRelatedSCEVs L then Some SCEVSimplification
         else if simplifyConstantPHIs L then Some SCEVSimplification
         else None)
      else None)"

section \<open>All loops\<close>

record enablers_state =
  modifiedFunctions :: "nat set"
  modified :: bool
  attempts :: "(enabler_loop \<times> enabler option) list"

definition improveLoop :: "(enabler \<Rightarrow> bool) \<Rightarrow> enabler_loop \<Rightarrow> enablers_state \<Rightarrow> enablers_state" where
  "improveLoop isEnabled L s =
     (if functionOf L \<in> modifiedFunctions s then s
      else
        let e = applyEnablers isEnabled L in
        s\<lparr>modifiedFunctions := (if e \<noteq> None then insert (functionOf L) (modifiedFunctions s) else modifiedFunctions s),
          modified := modified s \<or> e \<noteq> None,
          attempts := attempts s @ [(L, e)]\<rparr>)"

text \<open>
  \<open>runOnModule\<close>: the loops that were executed, in a forest sorted by hotness (\<open>trees\<close>), each tree visited
  from the leaves.
\<close>

definition enablers_runOnModule ::
    "(enabler_loop loop_tree \<Rightarrow> enabler_loop loop_tree list) \<Rightarrow> bool \<Rightarrow> (enabler \<Rightarrow> bool) \<Rightarrow>
     enabler_loop loop_tree list \<Rightarrow> enablers_state" where
  "enablers_runOnModule visitPostOrder enableEnablers isEnabled trees =
     (let s = \<lparr>modifiedFunctions = {}, modified = False, attempts = []\<rparr> in
      if \<not> enableEnablers then s
      else fold (\<lambda>tree. fold (\<lambda>n. improveLoop isEnabled (getLoop n)) (visitPostOrder tree)) trees s)"

section \<open>What the pass changes\<close>

lemma trySplit_iff: "trySplit L sccs \<longleftrightarrow> (\<exists>scc \<in> set sccs. splitLoop L scc)"
  by (induction sccs) auto

lemma scanIndices_iff: "scanIndices idxs u \<longleftrightarrow> u \<or> True \<in> set idxs"
  by (induction idxs) auto

lemma scanInstructions_iff:
  "scanInstructions insts u \<longleftrightarrow> u \<or> (\<exists>idxs. CallInst (LoadedFrom (GEP idxs)) \<in> set insts \<and> True \<in> set idxs)"
  by (induction insts u rule: scanInstructions.induct) (auto simp: scanIndices_iff Let_def)

lemma devirtualizer_iff:
  "applyDevirtualizer L \<longleftrightarrow> fullyUnrollLoop L \<and>
     (\<exists>insts \<in> set (basicBlocks L). \<exists>idxs. CallInst (LoadedFrom (GEP idxs)) \<in> set insts \<and> True \<in> set idxs)"
proof -
  have "fold scanInstructions bbs u \<longleftrightarrow> u \<or>
      (\<exists>insts \<in> set bbs. \<exists>idxs. CallInst (LoadedFrom (GEP idxs)) \<in> set insts \<and> True \<in> set idxs)" for bbs u
    by (induction bbs arbitrary: u) (auto simp: scanInstructions_iff)
  then show ?thesis by (auto simp: applyDevirtualizer_def)
qed

text \<open>The loops that are tried: those before which no loop of the same function was changed.\<close>

definition untouched :: "(enabler \<Rightarrow> bool) \<Rightarrow> enabler_loop list \<Rightarrow> nat \<Rightarrow> bool" where
  "untouched isEnabled Ls i \<longleftrightarrow>
     (\<forall>j < i. functionOf (Ls ! j) = functionOf (Ls ! i) \<longrightarrow> applyEnablers isEnabled (Ls ! j) = None)"

lemma fold_improveLoop:
  fixes isEnabled Ls
  defines "s \<equiv> fold (improveLoop isEnabled) Ls \<lparr>modifiedFunctions = {}, modified = False, attempts = []\<rparr>"
  shows "modifiedFunctions s = {functionOf L | L. L \<in> set Ls \<and> applyEnablers isEnabled L \<noteq> None} \<and>
    (modified s \<longleftrightarrow> modifiedFunctions s \<noteq> {}) \<and>
    attempts s = map (\<lambda>i. (Ls ! i, applyEnablers isEnabled (Ls ! i))) (filter (untouched isEnabled Ls) [0..<length Ls])"
  unfolding s_def
proof (induction Ls rule: rev_induct)
  case (snoc L Ls)
  have before: "filter (untouched isEnabled (Ls @ [L])) [0..<length Ls] = filter (untouched isEnabled Ls) [0..<length Ls]"
    by (intro filter_cong) (auto simp: untouched_def nth_append)
  have nth: "map (\<lambda>i. ((Ls @ [L]) ! i, applyEnablers isEnabled ((Ls @ [L]) ! i))) (filter P [0..<length Ls]) =
      map (\<lambda>i. (Ls ! i, applyEnablers isEnabled (Ls ! i))) (filter P [0..<length Ls])" for P
    by (auto simp: nth_append)
  have new: "untouched isEnabled (Ls @ [L]) (length Ls) \<longleftrightarrow>
      functionOf L \<notin> {functionOf L | L. L \<in> set Ls \<and> applyEnablers isEnabled L \<noteq> None}"
    by (auto simp: untouched_def nth_append in_set_conv_nth) metis
  show ?case using snoc.IH by (auto simp: improveLoop_def Let_def before nth new)
qed simp

lemma descendants_first:
  assumes "children_first us" "i < length us" "d \<in> set (subtrees (us ! i))"
  shows "d = us ! i \<or> d \<in> set (take i us)"
  using assms(2,3)
proof (induction i rule: less_induct)
  case (less i)
  show ?case
  proof (cases "d = us ! i")
    case False
    then obtain c where c: "c \<in> set (getChildren (us ! i))" "d \<in> set (subtrees c)"
      using less.prems(2) by (cases "us ! i") auto
    then have "c \<in> set (take i us)" using assms(1) less.prems(1) by (simp add: children_first_def)
    then obtain j where j: "j < i" "us ! j = c" using less.prems(1) by (auto simp: in_set_conv_nth)
    then have "d = us ! j \<or> d \<in> set (take j us)" using less.IH[of j] c(2) less.prems(1) by simp
    moreover have "us ! j \<in> set (take i us)" using j less.prems(1) by (auto simp: in_set_conv_nth)
    ultimately show ?thesis using set_take_subset_set_take[of j i us] j(1) by auto
  qed simp
qed

text \<open>
  The pass changes each function at most once, from the innermost loops outwards. It tries the loops in
  the order it visits them, except those of a function it has changed, and reports a change exactly
  when some loop can be improved; a loop is not tried once a loop nested in it, at any depth, was improved.
\<close>
theorem enablers_innermost_first:
  fixes visit isEnabled trees
  defines "Ls \<equiv> concat (map (map getLoop \<circ> visit) trees)"
    and "s \<equiv> enablers_runOnModule visit True isEnabled trees"
  assumes "post_order visit" and "distinct Ls"
  shows "attempts s = map (\<lambda>i. (Ls ! i, applyEnablers isEnabled (Ls ! i)))
           (filter (untouched isEnabled Ls) [0..<length Ls]) \<and>
    (modified s \<longleftrightarrow> (\<exists>L \<in> set Ls. applyEnablers isEnabled L \<noteq> None)) \<and>
    (\<forall>t \<in> set trees. \<forall>u \<in> set (subtrees t). \<forall>d \<in> set (subtrees u).
       d \<noteq> u \<and> functionOf (getLoop d) = functionOf (getLoop u) \<and> applyEnablers isEnabled (getLoop d) \<noteq> None \<longrightarrow>
       getLoop u \<notin> fst ` set (attempts s))"
proof -
  let ?start = "\<lparr>modifiedFunctions = {}, modified = False, attempts = []\<rparr>"
  have "fold (\<lambda>tree. fold (\<lambda>n. improveLoop isEnabled (getLoop n)) (visit tree)) ts s0 =
      fold (improveLoop isEnabled) (concat (map (map getLoop \<circ> visit) ts)) s0" for ts s0
    by (induction ts arbitrary: s0) (simp_all add: fold_map comp_def)
  then have run: "s = fold (improveLoop isEnabled) Ls ?start"
    by (simp add: s_def Ls_def enablers_runOnModule_def)
  note facts = fold_improveLoop[of isEnabled Ls, folded run]
  have "getLoop u \<notin> fst ` set (attempts s)"
    if u: "t \<in> set trees" "u \<in> set (subtrees t)" "d \<in> set (subtrees u)" "d \<noteq> u"
      "functionOf (getLoop d) = functionOf (getLoop u)" "applyEnablers isEnabled (getLoop d) \<noteq> None" for t u d
  proof
    assume "getLoop u \<in> fst ` set (attempts s)"
    moreover have "fst ` set (attempts s) = (\<lambda>i. Ls ! i) ` set (filter (untouched isEnabled Ls) [0..<length Ls])"
      using facts by (simp add: image_image)
    ultimately obtain i where at_u: "i \<in> set (filter (untouched isEnabled Ls) [0..<length Ls])" "getLoop u = Ls ! i" by blast
    then have i: "i < length Ls" "Ls ! i = getLoop u" "untouched isEnabled Ls i" by simp_all
    obtain ts1 ts2 where ts: "trees = ts1 @ t # ts2" using u(1) by (meson split_list)
    let ?pre = "concat (map (map getLoop \<circ> visit) ts1)"
    have "set (visit t) = set (subtrees t)" using assms(3) by (metis post_order.visit_nodes set_mset_mset)
    then obtain k where k: "k < length (visit t)" "visit t ! k = u" using u(2) by (metis in_set_conv_nth)
    have "children_first (visit t)" using assms(3) by (rule post_order.visit_children)
    then have "d \<in> set (take k (visit t))" using descendants_first[OF _ k(1)] k(2) u(3,4) by blast
    then obtain j where j: "j < k" "visit t ! j = d" using k(1) by (auto simp: in_set_conv_nth)
    have pos: "length ?pre + m < length Ls \<and> Ls ! (length ?pre + m) = getLoop (visit t ! m)" if "m < length (visit t)" for m
      using that by (auto simp: Ls_def ts nth_append)
    have "length ?pre + k = i"
      using pos[OF k(1)] i(1,2) k(2) nth_eq_iff_index_eq[OF assms(4)] by metis
    moreover have "j < length (visit t)" using j(1) k(1) by simp
    ultimately have "length ?pre + j < i" "Ls ! (length ?pre + j) = getLoop d" using pos[of j] j by auto
    then show False using i(2,3) u(5,6) unfolding untouched_def by metis
  qed
  then show ?thesis using facts by auto
qed

text \<open>An outer loop with an inner one that can be distributed; loop-invariant code could leave both.\<close>

definition inner_loop :: enabler_loop where
  "inner_loop = \<lparr>functionOf = 1, sccsWithKind = [(4, False), (5, True)], splitLoop = (\<lambda>scc. scc = 5), basicBlocks = [],
     fullyUnrollLoop = False, hasGoverningIV = True, numberOfExitBasicBlocks = 1, isDOALL = False, whilifyLoop = True,
     extractInvariantsFromLoop = True, simplifyIVRelatedSCEVs = False, simplifyConstantPHIs = False\<rparr>"

definition outer_loop :: enabler_loop where
  "outer_loop = inner_loop\<lparr>sccsWithKind := []\<rparr>"

lemma enablers_innermost_first_witness:
  "let s = enablers_runOnModule postorder True (\<lambda>_. True) [LoopTree outer_loop [LoopTree inner_loop []]] in
     attempts s = [(inner_loop, Some LoopDistribution)] \<and> modified s \<and> outer_loop \<notin> fst ` set (attempts s)"
proof -
  have improved: "applyEnablers (\<lambda>_. True) inner_loop = Some LoopDistribution"
    by (simp add: applyEnablers_def applyLoopDistribution_def sequentialSCCs_def inner_loop_def)
  have other: "outer_loop \<noteq> inner_loop" "functionOf outer_loop = functionOf inner_loop"
    by (simp_all add: outer_loop_def inner_loop_def)
  show ?thesis
    using enablers_innermost_first[OF post.post_order_axioms, of "[LoopTree outer_loop [LoopTree inner_loop []]]" "\<lambda>_. True"]
      improved other by (simp add: Let_def untouched_def upt_rec)
qed

end
