(* ===== verification/Dswp_Control.thy ===== *)
theory Dswp_Control
  imports Dswp_Stages
begin

text \<open>
  The queues for the conditions of branches (\<open>dswp/src/Queue.cpp\<close>): which stages a conditional branch
  controls, and a queue that carries its condition to each of them.
\<close>

section \<open>The stages a branch controls\<close>

text \<open>The components that depend on a component.\<close>

definition outgoingSCCs :: "sccdag \<Rightarrow> nat \<Rightarrow> nat list" where
  "outgoingSCCs D n = filter (\<lambda>m. n \<in> fst ` set (incomingEdges D m)) (nodes D)"

text \<open>The task of a component: none (a null pointer) when it can be cloned.\<close>

definition getTaskOfNode :: "sccdag \<Rightarrow> (nat \<Rightarrow> nat option) \<Rightarrow> nat \<Rightarrow> nat option result" where
  "getTaskOfNode D sccToStage n =
     (if canBeCloned D n then Inr None
      else case sccToStage n of None \<Rightarrow> Inl OutOfRange | Some t \<Rightarrow> Inr (Some t))"

fun scanDependents ::
    "sccdag \<Rightarrow> (nat \<Rightarrow> nat option) \<Rightarrow> nat list \<Rightarrow> nat list \<Rightarrow> nat set \<Rightarrow> (nat list \<times> nat set) result" where
  "scanDependents D sccToStage [] queuedNodes tasks = Inr (queuedNodes, tasks)"
| "scanDependents D sccToStage (n # ns) queuedNodes tasks =
     (case getTaskOfNode D sccToStage n of
        Inl e \<Rightarrow> Inl e
      | Inr None \<Rightarrow> scanDependents D sccToStage ns (queuedNodes @ [n]) tasks
      | Inr (Some t) \<Rightarrow> scanDependents D sccToStage ns (queuedNodes @ [n]) (insert t tasks))"

text \<open>The traversal; \<open>None\<close> is running out of fuel.\<close>

fun traverseControlled ::
    "sccdag \<Rightarrow> (nat \<Rightarrow> nat option) \<Rightarrow> nat \<Rightarrow> nat list \<Rightarrow> nat set \<Rightarrow> nat set \<Rightarrow> nat set result option" where
  "traverseControlled D sccToStage fuel [] visitedNodes tasks = Some (Inr tasks)"
| "traverseControlled D sccToStage 0 (n # queuedNodes) visitedNodes tasks = None"
| "traverseControlled D sccToStage (Suc fuel) (n # queuedNodes) visitedNodes tasks =
     (if n \<in> visitedNodes then traverseControlled D sccToStage fuel queuedNodes visitedNodes tasks
      else case scanDependents D sccToStage (outgoingSCCs D n) queuedNodes tasks of
        Inl e \<Rightarrow> Some (Inl e)
      | Inr (queuedNodes, tasks) \<Rightarrow>
          traverseControlled D sccToStage fuel queuedNodes (insert n visitedNodes) tasks)"

definition collectTransitivelyControlledTasks ::
    "sccdag \<Rightarrow> (nat \<Rightarrow> nat option) \<Rightarrow> nat \<Rightarrow> nat \<Rightarrow> nat set result option" where
  "collectTransitivelyControlledTasks D sccToStage fuel controllingNode =
     (case getTaskOfNode D sccToStage controllingNode of
        Inl e \<Rightarrow> Some (Inl e)
      | Inr controllingTask \<Rightarrow>
          map_option (map_sum id (\<lambda>tasks. tasks - set_option controllingTask))
            (traverseControlled D sccToStage fuel [controllingNode] {} {}))"

section \<open>The conditions of branches\<close>

text \<open>
  The instructions: the dependences inside each component (source, whether it is a control dependence), the
  dependences an instruction of a component's graph has, the component of an instruction, the successors
  of the block of a branch, and the blocks outside the loop.
\<close>

record control_graph =
  edgesOfSCC :: "nat \<Rightarrow> (nat \<times> bool) list"
  incomingOfNode :: "nat \<Rightarrow> nat \<Rightarrow> (nat \<times> dep_kind) list"
  sccOfValue :: "nat \<Rightarrow> nat"
  successorBlocks :: "nat \<Rightarrow> nat list"
  loopExitBlocks :: "nat set"

definition hasDataDependency :: "control_graph \<Rightarrow> nat \<Rightarrow> nat \<Rightarrow> bool" where
  "hasDataDependency C scc controlNode =
     list_ex (\<lambda>(condition, kind). kind \<noteq> ControlDependence) (incomingOfNode C scc controlNode)"

text \<open>A node is a component and an instruction of its graph.\<close>

definition conditionalBranchNodes :: "sccdag \<Rightarrow> control_graph \<Rightarrow> (nat \<times> nat) list" where
  "conditionalBranchNodes D C =
     remdups (concat (map (\<lambda>scc.
       map (\<lambda>(controlNode, isControl). (scc, controlNode))
         (filter (\<lambda>(controlNode, isControl).
            isControl \<and> \<not> canBeCloned D (sccOfValue C controlNode) \<and> hasDataDependency C scc controlNode)
          (edgesOfSCC C scc)))
       (nodes D)))"

fun collectConditions :: "sccdag \<Rightarrow> control_graph \<Rightarrow> (nat \<times> dep_kind) list \<Rightarrow> nat set \<Rightarrow> nat set result" where
  "collectConditions D C [] conditions = Inr conditions"
| "collectConditions D C ((condition, kind) # edges) conditions =
     (if kind = MemoryDependence then Inl AssertionFailed
      else if kind = ControlDependence then collectConditions D C edges conditions
      else if canBeCloned D (sccOfValue C condition) then collectConditions D C edges conditions
      else collectConditions D C edges (insert condition conditions))"

definition isControllingLoopExit :: "control_graph \<Rightarrow> nat \<Rightarrow> bool" where
  "isControllingLoopExit C branch = list_ex (\<lambda>succBB. succBB \<in> loopExitBlocks C) (successorBlocks C branch)"

fun sendCondition ::
    "(nat \<Rightarrow> nat) \<Rightarrow> (nat \<Rightarrow> bool) \<Rightarrow> nat \<Rightarrow> nat \<Rightarrow> nat \<Rightarrow> nat list \<Rightarrow> queue_state \<Rightarrow> queue_state result" where
  "sendCondition bits supported taskOfCondition condition branch [] s = Inr s"
| "sendCondition bits supported taskOfCondition condition branch (task # tasks) s =
     (if taskOfCondition = task then sendCondition bits supported taskOfCondition condition branch tasks s
      else case registerQueue bits supported taskOfCondition task condition branch False s of
        Inl e \<Rightarrow> Inl e
      | Inr s \<Rightarrow> sendCondition bits supported taskOfCondition condition branch tasks s)"

text \<open>One branch: \<open>numTasks\<close> stages, which are their numbers.\<close>

definition controlQueuesOfBranch ::
    "sccdag \<Rightarrow> control_graph \<Rightarrow> (nat \<Rightarrow> nat option) \<Rightarrow> (nat \<Rightarrow> nat) \<Rightarrow> (nat \<Rightarrow> bool) \<Rightarrow> nat \<Rightarrow> nat \<Rightarrow>
     nat \<times> nat \<Rightarrow> queue_state \<Rightarrow> queue_state result option" where
  "controlQueuesOfBranch D C sccToStage bits supported numTasks fuel node s =
     (let (scc, branch) = node in
      case collectConditions D C (incomingOfNode C scc branch) {} of
        Inl e \<Rightarrow> Some (Inl e)
      | Inr conditions \<Rightarrow>
          if card conditions \<noteq> 1 then Some (Inl AssertionFailed)
          else
            case (if isControllingLoopExit C branch then Some (Inr {..<numTasks})
                  else collectTransitivelyControlledTasks D sccToStage fuel (sccOfValue C branch)) of
              None \<Rightarrow> None
            | Some (Inl e) \<Rightarrow> Some (Inl e)
            | Some (Inr tasks) \<Rightarrow>
                (case sccToStage (sccOfValue C branch) of
                   None \<Rightarrow> Some (Inl OutOfRange)
                 | Some taskOfCondition \<Rightarrow>
                     Some (sendCondition bits supported taskOfCondition (Min conditions) branch
                             (sorted_list_of_set tasks) s)))"

fun controlQueuesOfBranches ::
    "sccdag \<Rightarrow> control_graph \<Rightarrow> (nat \<Rightarrow> nat option) \<Rightarrow> (nat \<Rightarrow> nat) \<Rightarrow> (nat \<Rightarrow> bool) \<Rightarrow> nat \<Rightarrow> nat \<Rightarrow>
     (nat \<times> nat) list \<Rightarrow> queue_state \<Rightarrow> queue_state result option" where
  "controlQueuesOfBranches D C sccToStage bits supported numTasks fuel [] s = Some (Inr s)"
| "controlQueuesOfBranches D C sccToStage bits supported numTasks fuel (node # branches) s =
     (case controlQueuesOfBranch D C sccToStage bits supported numTasks fuel node s of
        None \<Rightarrow> None
      | Some (Inl e) \<Rightarrow> Some (Inl e)
      | Some (Inr s) \<Rightarrow> controlQueuesOfBranches D C sccToStage bits supported numTasks fuel branches s)"

definition collectControlQueueInfo ::
    "sccdag \<Rightarrow> control_graph \<Rightarrow> (nat \<Rightarrow> nat option) \<Rightarrow> (nat \<Rightarrow> nat) \<Rightarrow> (nat \<Rightarrow> bool) \<Rightarrow> nat \<Rightarrow> nat \<Rightarrow>
     queue_state \<Rightarrow> queue_state result option" where
  "collectControlQueueInfo D C sccToStage bits supported numTasks fuel s =
     controlQueuesOfBranches D C sccToStage bits supported numTasks fuel (conditionalBranchNodes D C) s"

section \<open>The traversal finds the controlled stages\<close>

definition stagesOf :: "sccdag \<Rightarrow> (nat \<Rightarrow> nat option) \<Rightarrow> nat set \<Rightarrow> nat set" where
  "stagesOf D sccToStage sccs = {t. \<exists>n \<in> sccs. \<not> canBeCloned D n \<and> sccToStage n = Some t}"

lemma stagesOf_Un: "stagesOf D sccToStage (A \<union> B) = stagesOf D sccToStage A \<union> stagesOf D sccToStage B"
  by (auto simp: stagesOf_def)

text \<open>Every component has its stage, unless it is cloned; dependences are between components.\<close>

definition staged :: "sccdag \<Rightarrow> (nat \<Rightarrow> nat option) \<Rightarrow> bool" where
  "staged D sccToStage \<longleftrightarrow>
     dependsOn D \<subseteq> set (nodes D) \<times> set (nodes D) \<and>
     (\<forall>n \<in> set (nodes D). \<not> canBeCloned D n \<longrightarrow> sccToStage n \<noteq> None)"

lemma outgoingSCCs_set:
  assumes "staged D sccToStage"
  shows "set (outgoingSCCs D n) = {m. (n, m) \<in> dependsOn D}"
  using assms by (auto simp: outgoingSCCs_def dependsOn_def staged_def)

lemma getTaskOfNode_staged:
  assumes "staged D sccToStage" "n \<in> set (nodes D)"
  shows "getTaskOfNode D sccToStage n = Inr (if canBeCloned D n then None else sccToStage n)"
  using assms by (auto simp: getTaskOfNode_def staged_def split: option.splits)

lemma scanDependents_result:
  assumes "staged D sccToStage" "set ns \<subseteq> set (nodes D)"
  shows "scanDependents D sccToStage ns queuedNodes tasks =
    Inr (queuedNodes @ ns, tasks \<union> stagesOf D sccToStage (set ns))"
  using assms(2)
proof (induction ns arbitrary: queuedNodes tasks)
  case Nil
  then show ?case by (simp add: stagesOf_def)
next
  case (Cons n ns)
  have task: "getTaskOfNode D sccToStage n = Inr (if canBeCloned D n then None else sccToStage n)"
    using getTaskOfNode_staged[OF assms(1)] Cons.prems by simp
  have some: "canBeCloned D n \<or> (\<exists>t. sccToStage n = Some t)"
    using assms(1) Cons.prems by (auto simp: staged_def)
  have split: "stagesOf D sccToStage (set (n # ns)) = stagesOf D sccToStage {n} \<union> stagesOf D sccToStage (set ns)"
    using stagesOf_Un[of D sccToStage "{n}" "set ns"] by simp
  show ?case using Cons some by (auto simp: task split stagesOf_def)
qed

text \<open>The steps left: what is queued, and the dependences of the components that were not visited.\<close>

definition stepsLeft :: "sccdag \<Rightarrow> nat list \<Rightarrow> nat set \<Rightarrow> nat" where
  "stepsLeft D queuedNodes visitedNodes =
     length queuedNodes + (\<Sum>n \<in> set (nodes D) - visitedNodes. length (outgoingSCCs D n))"

lemma stepsLeft_visit:
  assumes "n \<in> set (nodes D)" "n \<notin> V"
  shows "stepsLeft D (n # queue) V = Suc (stepsLeft D (queue @ outgoingSCCs D n) (insert n V))"
proof -
  have "(\<Sum>m \<in> set (nodes D) - V. length (outgoingSCCs D m)) =
      length (outgoingSCCs D n) + (\<Sum>m \<in> set (nodes D) - V - {n}. length (outgoingSCCs D m))"
    by (rule sum.remove) (use assms in auto)
  moreover have "set (nodes D) - V - {n} = set (nodes D) - insert n V" by auto
  ultimately show ?thesis by (simp add: stepsLeft_def)
qed

lemma traverseControlled_result:
  assumes "staged D sccToStage" "set queue \<subseteq> set (nodes D)" "stepsLeft D queue V \<le> fuel"
  shows "\<exists>W. V \<subseteq> W \<and> set queue \<subseteq> W \<and> (\<forall>n \<in> W - V. \<exists>c \<in> set queue. (c, n) \<in> (dependsOn D)\<^sup>*) \<and>
    (\<forall>n \<in> W - V. set (outgoingSCCs D n) \<subseteq> W) \<and>
    traverseControlled D sccToStage fuel queue V tasks =
      Some (Inr (tasks \<union> stagesOf D sccToStage (\<Union>n \<in> W - V. set (outgoingSCCs D n))))"
  using assms(2,3)
proof (induction fuel arbitrary: queue V tasks)
  case 0
  then have "queue = []" by (simp add: stepsLeft_def)
  then show ?case by (intro exI[of _ V]) (simp add: stagesOf_def)
next
  case (Suc fuel)
  show ?case
  proof (cases queue)
    case Nil
    then show ?thesis by (intro exI[of _ V]) (simp add: stagesOf_def)
  next
    case (Cons n ns)
    have n: "n \<in> set (nodes D)" "set ns \<subseteq> set (nodes D)" using Suc.prems(1) Cons by auto
    show ?thesis
    proof (cases "n \<in> V")
      case True
      then have "stepsLeft D ns V \<le> fuel" using Suc.prems(2) Cons by (simp add: stepsLeft_def)
      from Suc.IH[OF n(2) this, of tasks] obtain W where W: "V \<subseteq> W" "set ns \<subseteq> W"
        "\<forall>m \<in> W - V. \<exists>c \<in> set ns. (c, m) \<in> (dependsOn D)\<^sup>*" "\<forall>m \<in> W - V. set (outgoingSCCs D m) \<subseteq> W"
        "traverseControlled D sccToStage fuel ns V tasks =
           Some (Inr (tasks \<union> stagesOf D sccToStage (\<Union>m \<in> W - V. set (outgoingSCCs D m))))"
        by (elim exE conjE) (rule that; assumption)
      have "set queue \<subseteq> W" using W(1,2) True Cons by auto
      moreover have "\<forall>m \<in> W - V. \<exists>c \<in> set queue. (c, m) \<in> (dependsOn D)\<^sup>*" using W(3) Cons by auto
      moreover have "traverseControlled D sccToStage (Suc fuel) queue V tasks =
           Some (Inr (tasks \<union> stagesOf D sccToStage (\<Union>m \<in> W - V. set (outgoingSCCs D m))))"
        using W(5) True Cons by simp
      ultimately show ?thesis using W(1,4) by (intro exI[of _ W] conjI)
    next
      case False
      let ?out = "outgoingSCCs D n"
      have out: "set ?out \<subseteq> set (nodes D)" by (auto simp: outgoingSCCs_def)
      have sub: "set (ns @ ?out) \<subseteq> set (nodes D)" using n(2) out by simp
      have fuel: "stepsLeft D (ns @ ?out) (insert n V) \<le> fuel"
        using Suc.prems(2) stepsLeft_visit[OF n(1) False] Cons by simp
      obtain W where W: "insert n V \<subseteq> W" "set (ns @ ?out) \<subseteq> W"
        "\<forall>m \<in> W - insert n V. \<exists>c \<in> set (ns @ ?out). (c, m) \<in> (dependsOn D)\<^sup>*"
        "\<forall>m \<in> W - insert n V. set (outgoingSCCs D m) \<subseteq> W"
        "traverseControlled D sccToStage fuel (ns @ ?out) (insert n V) (tasks \<union> stagesOf D sccToStage (set ?out)) =
           Some (Inr ((tasks \<union> stagesOf D sccToStage (set ?out)) \<union>
                      stagesOf D sccToStage (\<Union>m \<in> W - insert n V. set (outgoingSCCs D m))))"
        using Suc.IH[OF sub fuel, of "tasks \<union> stagesOf D sccToStage (set ?out)"]
        by (elim exE conjE) (rule that; assumption)
      have split: "W - V = insert n (W - insert n V)" using W(1) False by auto
      have reach: "\<exists>c \<in> set queue. (c, m) \<in> (dependsOn D)\<^sup>*" if m: "m \<in> W - V" for m
      proof (cases "m = n")
        case False
        then obtain c where c: "c \<in> set (ns @ ?out)" "(c, m) \<in> (dependsOn D)\<^sup>*" using W(3) m by blast
        then show ?thesis
          using outgoingSCCs_set[OF assms(1)] Cons by (auto intro: converse_rtrancl_into_rtrancl)
      qed (use Cons in auto)
      have "traverseControlled D sccToStage (Suc fuel) queue V tasks =
          Some (Inr (tasks \<union> stagesOf D sccToStage (\<Union>m \<in> W - V. set (outgoingSCCs D m))))"
        using False W(5) Cons
        by (simp add: scanDependents_result[OF assms(1) out] split stagesOf_Un Un_assoc)
      moreover have "set queue \<subseteq> W" "V \<subseteq> W" using W(1,2) Cons by auto
      moreover have "\<forall>m \<in> W - V. set (outgoingSCCs D m) \<subseteq> W" using W(2,4) split by auto
      ultimately show ?thesis using reach
        by (intro exI[of _ W] conjI) (assumption | blast)+
    qed
  qed
qed

text \<open>The components that depend on a component, directly or through others.\<close>

definition controlledSCCs :: "sccdag \<Rightarrow> nat \<Rightarrow> nat set" where
  "controlledSCCs D c = {n. (c, n) \<in> (dependsOn D)\<^sup>+}"

lemma controlled_stages:
  assumes "staged D sccToStage" "c \<in> set (nodes D)"
    and "Suc (\<Sum>n \<in> set (nodes D). length (outgoingSCCs D n)) \<le> fuel"
  shows "collectTransitivelyControlledTasks D sccToStage fuel c =
    Some (Inr (stagesOf D sccToStage (controlledSCCs D c) - (if canBeCloned D c then {} else set_option (sccToStage c))))"
proof -
  have "stepsLeft D [c] {} \<le> fuel" using assms(3) by (simp add: stepsLeft_def)
  from traverseControlled_result[OF assms(1) _ this, of "{}"] obtain W where W: "c \<in> W"
    "\<forall>n \<in> W. (c, n) \<in> (dependsOn D)\<^sup>*" "\<forall>n \<in> W. set (outgoingSCCs D n) \<subseteq> W"
    "traverseControlled D sccToStage fuel [c] {} {} = Some (Inr (stagesOf D sccToStage (\<Union>n \<in> W. set (outgoingSCCs D n))))"
    using assms(2) by auto
  have "n \<in> W" if "(c, n) \<in> (dependsOn D)\<^sup>*" for n
    using that by (induction rule: rtrancl_induct) (use W(1,3) outgoingSCCs_set[OF assms(1)] in auto)
  then have "W = {n. (c, n) \<in> (dependsOn D)\<^sup>*}" using W(2) by blast
  then have "(\<Union>n \<in> W. set (outgoingSCCs D n)) = controlledSCCs D c"
    by (auto simp: controlledSCCs_def outgoingSCCs_set[OF assms(1)] dest: tranclD2 intro: rtrancl_into_trancl1)
  then show ?thesis using W(4)
    by (simp add: collectTransitivelyControlledTasks_def getTaskOfNode_staged[OF assms(1,2)])
qed

section \<open>The condition of a branch reaches the stages it controls\<close>

text \<open>The stages that get the condition of a branch.\<close>

definition needsCondition ::
    "sccdag \<Rightarrow> control_graph \<Rightarrow> (nat \<Rightarrow> nat option) \<Rightarrow> nat \<Rightarrow> nat \<Rightarrow> nat set" where
  "needsCondition D C sccToStage numTasks branch =
     (if isControllingLoopExit C branch then {..<numTasks}
      else stagesOf D sccToStage (controlledSCCs D (sccOfValue C branch)))"

lemma sendCondition_registers:
  assumes "sendCondition bits supported src p branch tasks s = Inr s'" "\<forall>t \<in> set tasks. t \<noteq> src \<longrightarrow> J src t"
  shows "registers J {(src, t, p, branch) | t. t \<in> set tasks \<and> t \<noteq> src} s s'"
  using assms
proof (induction tasks arbitrary: s)
  case Nil
  then show ?case by (simp add: registers_refl)
next
  case (Cons t tasks)
  show ?case
  proof (cases "src = t")
    case True
    then have "sendCondition bits supported src p branch tasks s = Inr s'" using Cons.prems by simp
    from Cons.IH[OF this] Cons.prems(2) have "registers J {(src, t, p, branch) | t. t \<in> set tasks \<and> t \<noteq> src} s s'" by simp
    then show ?thesis by (rule registers_weaken) (use True in auto)
  next
    case False
    then obtain s1 where s1: "registerQueue bits supported src t p branch False s = Inr s1"
      "sendCondition bits supported src p branch tasks s1 = Inr s'"
      using Cons.prems by (auto split: sum.splits)
    have "J src t" "\<forall>t \<in> set tasks. t \<noteq> src \<longrightarrow> J src t" using Cons.prems(2) False by auto
    from registers_trans[OF registerQueue_registers[where J = J, OF s1(1) False this(1)] Cons.IH[OF s1(2) this(2)]]
    show ?thesis by (rule registers_weaken) auto
  qed
qed

text \<open>The conditions of a branch whose component is not cloned.\<close>

definition sentConditions :: "sccdag \<Rightarrow> control_graph \<Rightarrow> nat \<times> nat \<Rightarrow> nat set" where
  "sentConditions D C node = {c. \<exists>k. (c, k) \<in> set (incomingOfNode C (fst node) (snd node)) \<and>
     k \<noteq> ControlDependence \<and> \<not> canBeCloned D (sccOfValue C c)}"

lemma collectConditions_result:
  "collectConditions D C edges conditions = Inr R \<Longrightarrow>
   R = conditions \<union> {c. \<exists>k. (c, k) \<in> set edges \<and> k \<noteq> ControlDependence \<and> \<not> canBeCloned D (sccOfValue C c)}"
  by (induction D C edges conditions rule: collectConditions.induct) (auto split: if_splits)

text \<open>
  A branch the code can deal with: one condition, of a supported size, no memory dependence, and a
  component that has its stage.
\<close>

definition sendable ::
    "sccdag \<Rightarrow> control_graph \<Rightarrow> (nat \<Rightarrow> nat option) \<Rightarrow> (nat \<Rightarrow> nat) \<Rightarrow> (nat \<Rightarrow> bool) \<Rightarrow> nat \<times> nat \<Rightarrow> bool" where
  "sendable D C sccToStage bits supported node \<longleftrightarrow>
     (\<exists>c. sentConditions D C node = {c} \<and> supported (bits c)) \<and>
     MemoryDependence \<notin> snd ` set (incomingOfNode C (fst node) (snd node)) \<and>
     sccOfValue C (snd node) \<in> set (nodes D) \<and> sccToStage (sccOfValue C (snd node)) \<noteq> None"

lemma registerQueue_supported:
  "supported (bits p) \<Longrightarrow> \<exists>s'. registerQueue bits supported src dst p c isMem s = Inr s'"
  by (auto simp: registerQueue_def Let_def split: option.splits)

lemma sendCondition_supported:
  assumes "supported (bits p)"
  shows "\<exists>s'. sendCondition bits supported src p branch tasks s = Inr s'"
proof (induction tasks arbitrary: s)
  case (Cons t tasks)
  obtain s1 where "registerQueue bits supported src t p branch False s = Inr s1"
    using registerQueue_supported[where supported = supported and bits = bits and p = p, OF assms] by blast
  then show ?case using Cons by auto
qed simp

lemma collectConditions_no_memory:
  "MemoryDependence \<notin> snd ` set edges \<Longrightarrow> \<exists>R. collectConditions D C edges conditions = Inr R"
  by (induction D C edges conditions rule: collectConditions.induct) auto

text \<open>The queues a branch asks for.\<close>

definition conditionQueues ::
    "sccdag \<Rightarrow> control_graph \<Rightarrow> (nat \<Rightarrow> nat option) \<Rightarrow> nat \<Rightarrow> nat \<times> nat \<Rightarrow> (nat \<times> nat \<times> nat \<times> nat) set" where
  "conditionQueues D C sccToStage numTasks node =
     {(src, t, c, snd node) | src t c. sccToStage (sccOfValue C (snd node)) = Some src \<and>
        t \<in> needsCondition D C sccToStage numTasks (snd node) \<and> t \<noteq> src \<and> c \<in> sentConditions D C node}"

lemma finite_stagesOf:
  assumes "staged D sccToStage"
  shows "finite (stagesOf D sccToStage (controlledSCCs D c))"
proof -
  have "controlledSCCs D c \<subseteq> set (nodes D)"
    using assms by (auto simp: controlledSCCs_def staged_def dest: tranclD2)
  then have "finite (the ` sccToStage ` controlledSCCs D c)"
    by (intro finite_imageI) (rule finite_subset, auto)
  moreover have "stagesOf D sccToStage (controlledSCCs D c) \<subseteq> the ` sccToStage ` controlledSCCs D c"
    unfolding stagesOf_def by force
  ultimately show ?thesis by (rule rev_finite_subset)
qed

text \<open>Every stage a branch sends its condition to is in the relation \<open>J\<close> to the stage of the branch.\<close>

definition branchForward ::
    "sccdag \<Rightarrow> control_graph \<Rightarrow> (nat \<Rightarrow> nat option) \<Rightarrow> nat \<Rightarrow> (nat \<Rightarrow> nat \<Rightarrow> bool) \<Rightarrow> nat \<times> nat \<Rightarrow> bool" where
  "branchForward D C sccToStage numTasks J node \<longleftrightarrow>
     (\<forall>src t. sccToStage (sccOfValue C (snd node)) = Some src \<and> t \<in> needsCondition D C sccToStage numTasks (snd node) \<and>
        t \<noteq> src \<longrightarrow> J src t)"

lemma controlQueuesOfBranch_registers:
  assumes dag: "staged D sccToStage" and ok: "sendable D C sccToStage bits supported node"
    and fuel: "Suc (\<Sum>n \<in> set (nodes D). length (outgoingSCCs D n)) \<le> fuel"
    and forward: "branchForward D C sccToStage numTasks J node"
  shows "\<exists>s'. controlQueuesOfBranch D C sccToStage bits supported numTasks fuel node s = Some (Inr s') \<and>
    registers J (conditionQueues D C sccToStage numTasks node) s s'"
proof -
  obtain scc branch where node: "node = (scc, branch)" by force
  obtain c src where c: "sentConditions D C node = {c}" "supported (bits c)"
    "sccToStage (sccOfValue C branch) = Some src" "sccOfValue C branch \<in> set (nodes D)"
    "MemoryDependence \<notin> snd ` set (incomingOfNode C scc branch)"
    using ok by (auto simp: sendable_def node)
  obtain R where R: "collectConditions D C (incomingOfNode C scc branch) {} = Inr R"
    using collectConditions_no_memory[OF c(5)] by blast
  have "R = {c}" using collectConditions_result[OF R] c(1) by (simp add: sentConditions_def node)
  define T where "T = (if isControllingLoopExit C branch then {..<numTasks}
     else stagesOf D sccToStage (controlledSCCs D (sccOfValue C branch)) -
       (if canBeCloned D (sccOfValue C branch) then {} else set_option (sccToStage (sccOfValue C branch))))"
  have T: "(if isControllingLoopExit C branch then Some (Inr {..<numTasks})
     else collectTransitivelyControlledTasks D sccToStage fuel (sccOfValue C branch)) = Some (Inr T)"
    by (simp add: T_def controlled_stages[OF dag c(4) fuel])
  obtain s' where s': "sendCondition bits supported src c branch (sorted_list_of_set T) s = Inr s'"
    using sendCondition_supported[where supported = supported and bits = bits and p = c, OF c(2)] by blast
  have "finite T" by (simp add: T_def finite_stagesOf[OF dag])
  moreover have "t \<in> T" if "t \<in> needsCondition D C sccToStage numTasks branch" "t \<noteq> src" for t
    using that c(3) by (auto simp: T_def needsCondition_def)
  ultimately have subset: "conditionQueues D C sccToStage numTasks node \<subseteq>
      {(src, t, c, branch) | t. t \<in> set (sorted_list_of_set T) \<and> t \<noteq> src}"
    using c(1,3) by (auto simp: conditionQueues_def node)
  have "T \<subseteq> needsCondition D C sccToStage numTasks branch" by (auto simp: T_def needsCondition_def)
  then have "\<forall>t \<in> set (sorted_list_of_set T). t \<noteq> src \<longrightarrow> J src t"
    using forward c(3) \<open>finite T\<close> by (auto simp: branchForward_def node)
  from registers_weaken[OF sendCondition_registers[where J = J, OF s' this] subset]
  have "registers J (conditionQueues D C sccToStage numTasks node) s s'" .
  moreover have "controlQueuesOfBranch D C sccToStage bits supported numTasks fuel node s = Some (Inr s')"
    unfolding controlQueuesOfBranch_def node Let_def prod.case R sum.case T option.case c(3)
    using s' \<open>R = {c}\<close> by simp
  ultimately show ?thesis by blast
qed

lemma controlQueuesOfBranches_registers:
  assumes dag: "staged D sccToStage" and ok: "\<forall>node \<in> set branches. sendable D C sccToStage bits supported node"
    and fuel: "Suc (\<Sum>n \<in> set (nodes D). length (outgoingSCCs D n)) \<le> fuel"
    and forward: "\<forall>node \<in> set branches. branchForward D C sccToStage numTasks J node"
  shows "\<exists>s'. controlQueuesOfBranches D C sccToStage bits supported numTasks fuel branches s = Some (Inr s') \<and>
    registers J (\<Union>node \<in> set branches. conditionQueues D C sccToStage numTasks node) s s'"
  using ok forward
proof (induction branches arbitrary: s)
  case Nil
  then show ?case by (simp add: registers_refl)
next
  case (Cons node branches)
  obtain s1 where s1: "controlQueuesOfBranch D C sccToStage bits supported numTasks fuel node s = Some (Inr s1)"
    "registers J (conditionQueues D C sccToStage numTasks node) s s1"
    using controlQueuesOfBranch_registers[OF dag _ fuel, of C bits supported node numTasks J s] Cons.prems by auto
  obtain s' where s': "controlQueuesOfBranches D C sccToStage bits supported numTasks fuel branches s1 = Some (Inr s')"
    "registers J (\<Union>node \<in> set branches. conditionQueues D C sccToStage numTasks node) s1 s'"
    using Cons.IH[of s1] Cons.prems by auto
  show ?case using s1(1) s'(1) registers_trans[OF s1(2) s'(2)] by simp
qed

lemma controlQueues:
  assumes "staged D sccToStage" and "\<forall>node \<in> set (conditionalBranchNodes D C). sendable D C sccToStage bits supported node"
    and "Suc (\<Sum>n \<in> set (nodes D). length (outgoingSCCs D n)) \<le> fuel" and "queue_inv J s"
    and "\<forall>node \<in> set (conditionalBranchNodes D C). branchForward D C sccToStage numTasks J node"
  shows "\<exists>s'. collectControlQueueInfo D C sccToStage bits supported numTasks fuel s = Some (Inr s') \<and>
    queue_inv J s' \<and>
    (\<forall>src dst p c. has_queue s src dst p c \<longrightarrow> has_queue s' src dst p c) \<and>
    (\<forall>node \<in> set (conditionalBranchNodes D C). \<forall>(src, dst, p, c) \<in> conditionQueues D C sccToStage numTasks node.
       has_queue s' src dst p c)"
proof -
  obtain s' where s': "collectControlQueueInfo D C sccToStage bits supported numTasks fuel s = Some (Inr s')"
    "registers J (\<Union>node \<in> set (conditionalBranchNodes D C). conditionQueues D C sccToStage numTasks node) s s'"
    using controlQueuesOfBranches_registers[OF assms(1-3,5)] unfolding collectControlQueueInfo_def by blast
  have result: "queue_inv J s'"
    "\<forall>src dst p c. has_queue s src dst p c \<or>
       (src, dst, p, c) \<in> (\<Union>node \<in> set (conditionalBranchNodes D C). conditionQueues D C sccToStage numTasks node) \<longrightarrow>
       has_queue s' src dst p c"
    using s'(2)[unfolded registers_def] assms(4) by auto
  have "\<forall>src dst p c. has_queue s src dst p c \<longrightarrow> has_queue s' src dst p c" using result(2) by blast
  moreover have "\<forall>node \<in> set (conditionalBranchNodes D C). \<forall>(src, dst, p, c) \<in> conditionQueues D C sccToStage numTasks node.
       has_queue s' src dst p c" using result(2) by blast
  ultimately show ?thesis using s'(1) result(1) by blast
qed

text \<open>
  The traversal from the component of a branch ends and finds the stages the branch controls. With
  one step, and one for each dependence of the SCCDAG, it returns exactly the stages of the components
  that cannot be cloned and depend on that component, directly or through any chain, without the stage
  of the branch itself.
\<close>
theorem controlled_tasks:
  assumes "staged D sccToStage" and "c \<in> set (nodes D)" and "\<not> canBeCloned D c" and "sccToStage c = Some stage"
    and "Suc (\<Sum>n \<in> set (nodes D). length (outgoingSCCs D n)) \<le> fuel"
  shows "collectTransitivelyControlledTasks D sccToStage fuel c =
    Some (Inr ({t. \<exists>n. (c, n) \<in> (dependsOn D)\<^sup>+ \<and> \<not> canBeCloned D n \<and> sccToStage n = Some t} - {stage}))"
  using controlled_stages[OF assms(1,2,5)] assms(3,4) by (simp add: stagesOf_def controlledSCCs_def)

text \<open>
  Every stage a branch controls gets its condition. When each conditional branch has one condition,
  of a size there is a queue for, the control queues are registered without an error; every queue
  there was is kept, so is the invariant of the queues; and for every branch that leaves the loop each
  other stage has a queue with its condition, for every other branch each other stage of a component
  that depends on it.
\<close>
theorem control_queues:
  assumes "staged D sccToStage" and "\<forall>node \<in> set (conditionalBranchNodes D C). sendable D C sccToStage bits supported node"
    and "Suc (\<Sum>n \<in> set (nodes D). length (outgoingSCCs D n)) \<le> fuel" and "queue_inv (\<lambda>_ _. True) s"
  shows "\<exists>s'. collectControlQueueInfo D C sccToStage bits supported numTasks fuel s = Some (Inr s') \<and>
    queue_inv (\<lambda>_ _. True) s' \<and>
    (\<forall>src dst p c. has_queue s src dst p c \<longrightarrow> has_queue s' src dst p c) \<and>
    (\<forall>node \<in> set (conditionalBranchNodes D C). \<forall>(src, dst, p, c) \<in> conditionQueues D C sccToStage numTasks node.
       has_queue s' src dst p c)"
  using controlQueues[OF assms] by (simp add: branchForward_def)

lemma backward_queue:
  assumes "queue_inv J s" "has_queue s src dst p c" "dst \<le> src" "src < n"
  shows "\<not> areQueuesAcyclical (\<lambda>i. i) n s"
proof -
  obtain q where q: "q < length (queues s)" "fromStage (queues s ! q) = src" "toStage (queues s ! q) = dst"
    using assms(2) unfolding has_queue_def by blast
  then have "q \<in> pushValueQueues s src" using assms(1) unfolding queue_inv_def Let_def by blast
  then show ?thesis using q assms(3,4) unfolding areQueuesAcyclical_def list_all_iff by auto
qed

text \<open>The order of the stages follows the dependences.\<close>

definition forward_stages :: "sccdag \<Rightarrow> (nat \<Rightarrow> nat option) \<Rightarrow> bool" where
  "forward_stages D sccToStage \<longleftrightarrow>
     (\<forall>x y t u. (x, y) \<in> (dependsOn D)\<^sup>+ \<and> sccToStage x = Some t \<and> sccToStage y = Some u \<longrightarrow> t \<le> u)"

lemma branch_forward:
  assumes "forward_stages D sccToStage"
    and "isControllingLoopExit C (snd node) \<Longrightarrow> sccToStage (sccOfValue C (snd node)) = Some 0"
  shows "branchForward D C sccToStage numTasks (\<lambda>src dst. src \<le> dst) node"
  using assms unfolding branchForward_def needsCondition_def stagesOf_def controlledSCCs_def forward_stages_def
  by (cases "isControllingLoopExit C (snd node)") auto

lemma exit_backward:
  assumes "queue_inv J s'" "node \<in> set (conditionalBranchNodes D C)" "sendable D C sccToStage bits supported node"
    and "\<forall>node \<in> set (conditionalBranchNodes D C). \<forall>(src, dst, p, c) \<in> conditionQueues D C sccToStage numTasks node.
       has_queue s' src dst p c"
    and "isControllingLoopExit C (snd node)" "sccToStage (sccOfValue C (snd node)) = Some stage" "0 < stage" "stage < numTasks"
  shows "\<not> areQueuesAcyclical (\<lambda>i. i) numTasks s'"
proof -
  obtain c where "sentConditions D C node = {c}" using assms(3) unfolding sendable_def by blast
  then have "(stage, 0, c, snd node) \<in> conditionQueues D C sccToStage numTasks node"
    using assms(5-8) by (simp add: conditionQueues_def needsCondition_def)
  then have "has_queue s' stage 0 c (snd node)" using assms(2,4) by fastforce
  then show ?thesis using backward_queue[OF assms(1) _ _ assms(8)] by blast
qed

text \<open>
  When the check that \<open>apply\<close> leaves out would hold, were the IDs of the tasks their positions. When the stages follow the dependences and the
  queues there are go forward, the queues all go forward once those of the conditions are registered
  if and only if every conditional branch that leaves the loop is in the first stage.
\<close>
theorem control_queues_acyclical:
  assumes "staged D sccToStage" and "\<forall>node \<in> set (conditionalBranchNodes D C). sendable D C sccToStage bits supported node"
    and "Suc (\<Sum>n \<in> set (nodes D). length (outgoingSCCs D n)) \<le> fuel" and "queue_inv (\<lambda>src dst. src \<le> dst) s"
    and "forward_stages D sccToStage" and "ran sccToStage \<subseteq> {..<numTasks}"
  shows "\<exists>s'. collectControlQueueInfo D C sccToStage bits supported numTasks fuel s = Some (Inr s') \<and>
    (areQueuesAcyclical (\<lambda>i. i) numTasks s' \<longleftrightarrow>
       (\<forall>node \<in> set (conditionalBranchNodes D C).
          isControllingLoopExit C (snd node) \<longrightarrow> sccToStage (sccOfValue C (snd node)) = Some 0))"
proof (cases "\<forall>node \<in> set (conditionalBranchNodes D C).
    isControllingLoopExit C (snd node) \<longrightarrow> sccToStage (sccOfValue C (snd node)) = Some 0")
  case True
  then have "\<forall>node \<in> set (conditionalBranchNodes D C). branchForward D C sccToStage numTasks (\<lambda>src dst. src \<le> dst) node"
    using branch_forward[OF assms(5)] by blast
  from controlQueues[OF assms(1-4) this] True show ?thesis using queues_forward by blast
next
  case False
  then obtain node where node: "node \<in> set (conditionalBranchNodes D C)" "isControllingLoopExit C (snd node)"
    "sccToStage (sccOfValue C (snd node)) \<noteq> Some 0" by blast
  obtain stage where stage: "sccToStage (sccOfValue C (snd node)) = Some stage"
    using assms(2) node(1) by (auto simp: sendable_def)
  have stages: "0 < stage" "stage < numTasks" using stage node(3) assms(6) by (auto simp: ran_def)
  have "queue_inv (\<lambda>_ _. True) s" using assms(4) by (simp add: queue_inv_def Let_def)
  from controlQueues[OF assms(1-3) this, of numTasks] obtain s' where
    s': "collectControlQueueInfo D C sccToStage bits supported numTasks fuel s = Some (Inr s')" "queue_inv (\<lambda>_ _. True) s'"
    "\<forall>node \<in> set (conditionalBranchNodes D C). \<forall>(src, dst, p, c) \<in> conditionQueues D C sccToStage numTasks node.
       has_queue s' src dst p c"
    by (auto simp: branchForward_def)
  have "\<not> areQueuesAcyclical (\<lambda>i. i) numTasks s'"
    using exit_backward[OF s'(2) node(1) _ s'(3) node(2) stage stages] assms(2) node(1) by blast
  then show ?thesis using s'(1) False by blast
qed

section \<open>All the queues of a pipeline\<close>

lemma partition_forward:
  assumes "pipeline_partition D sets"
  shows "forward_stages D (snd (generateStagesFromPartitionedSCCs sets))"
    and "ran (snd (generateStagesFromPartitionedSCCs sets)) \<subseteq> {..<length sets}"
proof -
  have disj: "\<forall>i < length sets. \<forall>j < length sets. i \<noteq> j \<longrightarrow> set (sets ! i) \<inter> set (sets ! j) = {}"
    using assms unfolding pipeline_partition_def by blast
  note stage = sccToStage_of[OF disj]
  show "forward_stages D (snd (generateStagesFromPartitionedSCCs sets))"
    using assms unfolding forward_stages_def stage pipeline_partition_def by blast
  show "ran (snd (generateStagesFromPartitionedSCCs sets)) \<subseteq> {..<length sets}"
    by (auto simp: ran_def stage)
qed

lemma queue_inv_forward:
  assumes "queue_inv (\<lambda>src dst. src \<le> dst) s"
  shows "\<forall>q \<in> set (queues s). fromStage q < toStage q"
proof
  fix q assume "q \<in> set (queues s)"
  then obtain k where "k < length (queues s)" "q = queues s ! k" by (metis in_set_conv_nth)
  then have "fromStage q \<noteq> toStage q \<and> fromStage q \<le> toStage q"
    using assms unfolding queue_inv_def Let_def by simp
  then show "fromStage q < toStage q" by simp
qed

text \<open>
  C6: the queues of a pipeline, those for data and those for conditions. When the order of the stages
  follows the dependences and every branch has one condition of a size there is a queue for, the
  control queues are registered without an error. Then each dependence of a component of a stage, or of
  a clonable one copied into it, on a component of another stage, that is no control dependence, has a
  queue from the stage of the producer to the stage of the consumer; each branch that leaves the loop has a
  queue with its condition to every other stage, and each other branch to every other stage of a component
  that depends on it; there is one queue for each producer and pair of stages, and both record it.
  All these queues go forward, so that no stage waits for a later one, if and only if every branch that
  leaves the loop is in the first stage.
\<close>
theorem pipeline_queues:
  assumes "pipeline_partition D sets" and "staged D (snd (generateStagesFromPartitionedSCCs sets))"
    and "addClonableSCCsToStages D fuel (fst (generateStagesFromPartitionedSCCs sets)) = Some tasks"
    and "collectDataAndMemoryQueueInfo D (snd (generateStagesFromPartitionedSCCs sets)) bits supported tasks no_queues
           = Inr s"
    and "\<forall>node \<in> set (conditionalBranchNodes D C).
      sendable D C (snd (generateStagesFromPartitionedSCCs sets)) bits supported node"
    and "Suc (\<Sum>n \<in> set (nodes D). length (outgoingSCCs D n)) \<le> fuel'"
  shows "\<exists>s'. collectControlQueueInfo D C (snd (generateStagesFromPartitionedSCCs sets)) bits supported (length tasks) fuel' s
        = Some (Inr s') \<and> queue_inv (\<lambda>_ _. True) s' \<and>
    (\<forall>i j scc fromSCC deps p c k.
       i < length tasks \<and> j < length tasks \<and> j \<noteq> i \<and> scc \<in> set (sccsOfStage (tasks ! i)) \<and>
       (fromSCC, deps) \<in> set (incomingEdges D scc) \<and> (p, c, k) \<in> set deps \<and> k \<noteq> ControlDependence \<and>
       fromSCC \<in> set (sets ! j) \<and> \<not> canBeCloned D fromSCC \<longrightarrow> has_queue s' j i p c) \<and>
    (\<forall>node \<in> set (conditionalBranchNodes D C).
       \<forall>(src, dst, p, c) \<in> conditionQueues D C (snd (generateStagesFromPartitionedSCCs sets)) (length tasks) node.
         has_queue s' src dst p c) \<and>
    ((\<forall>q \<in> set (queues s'). fromStage q < toStage q) \<longleftrightarrow>
     (\<forall>node \<in> set (conditionalBranchNodes D C). isControllingLoopExit C (snd node) \<longrightarrow>
        snd (generateStagesFromPartitionedSCCs sets) (sccOfValue C (snd node)) = Some 0))"
proof -
  let ?stage = "snd (generateStagesFromPartitionedSCCs sets)" and ?n = "length tasks"
  have closed: "\<forall>n. fst ` set (incomingEdges D n) \<subseteq> set (nodes D)"
    using assms(2) by (auto simp: staged_def dependsOn_def)
  note data = data_queues[OF assms(1) closed assms(3,4)]
  have len: "?n = length sets"
    using addClonable_stages[OF assms(3)] by (simp add: generateStagesFromPartitionedSCCs_def)
  have inv: "queue_inv (\<lambda>src dst. src \<le> dst) s" using data by blast
  then have inv': "queue_inv (\<lambda>_ _. True) s" by (simp add: queue_inv_def Let_def)
  have "\<forall>node \<in> set (conditionalBranchNodes D C). branchForward D C ?stage ?n (\<lambda>_ _. True) node"
    by (simp add: branchForward_def)
  from controlQueues[OF assms(2,5,6) inv' this] obtain s' where
    s': "collectControlQueueInfo D C ?stage bits supported ?n fuel' s = Some (Inr s')" "queue_inv (\<lambda>_ _. True) s'"
    "\<forall>src dst p c. has_queue s src dst p c \<longrightarrow> has_queue s' src dst p c"
    "\<forall>node \<in> set (conditionalBranchNodes D C). \<forall>(src, dst, p, c) \<in> conditionQueues D C ?stage ?n node. has_queue s' src dst p c"
    by blast
  have "(\<forall>q \<in> set (queues s'). fromStage q < toStage q) \<longleftrightarrow>
     (\<forall>node \<in> set (conditionalBranchNodes D C). isControllingLoopExit C (snd node) \<longrightarrow>
        ?stage (sccOfValue C (snd node)) = Some 0)"
  proof (cases "\<forall>node \<in> set (conditionalBranchNodes D C).
      isControllingLoopExit C (snd node) \<longrightarrow> ?stage (sccOfValue C (snd node)) = Some 0")
    case True
    then have "\<forall>node \<in> set (conditionalBranchNodes D C). branchForward D C ?stage ?n (\<lambda>src dst. src \<le> dst) node"
      using branch_forward[OF partition_forward(1)[OF assms(1)]] by blast
    from controlQueues[OF assms(2,5,6) inv this] s'(1) have "queue_inv (\<lambda>src dst. src \<le> dst) s'" by auto
    then show ?thesis using True queue_inv_forward by blast
  next
    case False
    then obtain node where node: "node \<in> set (conditionalBranchNodes D C)" "isControllingLoopExit C (snd node)"
      "?stage (sccOfValue C (snd node)) \<noteq> Some 0" by blast
    obtain stage c where stage: "?stage (sccOfValue C (snd node)) = Some stage" "sentConditions D C node = {c}"
      using assms(5) node(1) by (auto simp: sendable_def)
    have "0 < stage" "stage < ?n" using stage(1) node(3) partition_forward(2)[OF assms(1)] len by (auto simp: ran_def)
    then have "(stage, 0, c, snd node) \<in> conditionQueues D C ?stage ?n node"
      using node(2) stage by (auto simp: conditionQueues_def needsCondition_def)
    then have "has_queue s' stage 0 c (snd node)" using s'(4) node(1) by fastforce
    then obtain q where "q \<in> set (queues s')" "toStage q = 0" unfolding has_queue_def by (metis nth_mem)
    then show ?thesis using False by (metis not_less_zero)
  qed
  moreover have "has_queue s' j i p c"
    if "i < ?n" "j < ?n" "j \<noteq> i" "scc \<in> set (sccsOfStage (tasks ! i))" "(fromSCC, deps) \<in> set (incomingEdges D scc)"
      "(p, c, k) \<in> set deps" "k \<noteq> ControlDependence" "fromSCC \<in> set (sets ! j)" "\<not> canBeCloned D fromSCC"
    for i j scc fromSCC deps p c k
    using data s'(3) that by blast
  ultimately show ?thesis using s'(1,2,4) by (intro exI[of _ s'] conjI) (assumption | blast)+
qed

section \<open>An example\<close>

text \<open>
  A loop whose first stage (component 2) feeds the second one (component 3), which decides when to
  leave it: the branch 30 on the condition 31.
\<close>

definition while_found :: sccdag where
  "while_found = \<lparr>nodes = [2, 3],
     incomingEdges = (\<lambda>n. if n = 3 then [(2, [(20, 31, VariableDependence)])] else []),
     canBeCloned = (\<lambda>n. False)\<rparr>"

definition while_found_control :: control_graph where
  "while_found_control = \<lparr>edgesOfSCC = (\<lambda>n. if n = 3 then [(30, True)] else []),
     incomingOfNode = (\<lambda>n i. if n = 3 \<and> i = 30 then [(31, VariableDependence)] else []),
     sccOfValue = (\<lambda>v. if v < 30 then 2 else 3),
     successorBlocks = (\<lambda>b. [1, 9]), loopExitBlocks = {9}\<rparr>"

lemma while_found_staged: "staged while_found [2 \<mapsto> 0, 3 \<mapsto> 1]"
  by (auto simp: staged_def while_found_def dependsOn_def split: if_splits)

lemma while_found_branches: "conditionalBranchNodes while_found while_found_control = [(3, 30)]"
  by (simp add: conditionalBranchNodes_def while_found_def while_found_control_def hasDataDependency_def)

lemma while_found_sendable:
  "\<forall>node \<in> set (conditionalBranchNodes while_found while_found_control).
     sendable while_found while_found_control [2 \<mapsto> 0, 3 \<mapsto> 1] (\<lambda>p. 1) (\<lambda>b. b = 1) node"
proof -
  have "sentConditions while_found while_found_control (3, 30) = {31}"
    by (auto simp: sentConditions_def while_found_def while_found_control_def)
  then show ?thesis unfolding while_found_branches
    by (auto simp: sendable_def while_found_def while_found_control_def)
qed

lemma while_found_fuel: "Suc (\<Sum>n \<in> set (nodes while_found). length (outgoingSCCs while_found n)) \<le> 2"
  by (simp add: while_found_def outgoingSCCs_def)

lemma controlled_tasks_witness:
  "\<exists>T. collectTransitivelyControlledTasks while_found [2 \<mapsto> 0, 3 \<mapsto> 1] 2 2 = Some (Inr T) \<and> 1 \<in> T \<and> 0 \<notin> T"
proof -
  have "(2, 3) \<in> (dependsOn while_found)\<^sup>+" by (rule r_into_trancl) (simp add: dependsOn_def while_found_def)
  then show ?thesis
    by (subst controlled_tasks[OF while_found_staged _ _ _ while_found_fuel, of 2 0])
      (auto simp: while_found_def intro!: exI[of _ 3])
qed

lemma control_queues_witness:
  "\<exists>s'. collectControlQueueInfo while_found while_found_control [2 \<mapsto> 0, 3 \<mapsto> 1] (\<lambda>p. 1) (\<lambda>b. b = 1) 2 2 no_queues =
     Some (Inr s') \<and> queue_inv (\<lambda>_ _. True) s'"
  using control_queues[OF while_found_staged while_found_sendable while_found_fuel queue_inv_no_queues, of 2] by blast

lemma while_found_forward: "forward_stages while_found [2 \<mapsto> 0, 3 \<mapsto> 1]"
proof -
  have "(3, y) \<notin> (dependsOn while_found)\<^sup>+" for y
  proof
    assume "(3, y) \<in> (dependsOn while_found)\<^sup>+"
    then obtain z where "(3, z) \<in> dependsOn while_found" by (meson tranclD)
    then show False by (auto simp: dependsOn_def while_found_def split: if_splits)
  qed
  then show ?thesis by (auto simp: forward_stages_def split: if_splits)
qed

lemma control_queues_acyclical_witness:
  "\<exists>s'. collectControlQueueInfo while_found while_found_control [2 \<mapsto> 0, 3 \<mapsto> 1] (\<lambda>p. 1) (\<lambda>b. b = 1) 2 2 no_queues =
     Some (Inr s') \<and> \<not> areQueuesAcyclical (\<lambda>i. i) 2 s'"
proof -
  have "isControllingLoopExit while_found_control 30 \<and> sccOfValue while_found_control 30 = 3"
    by (simp add: isControllingLoopExit_def while_found_control_def)
  then show ?thesis
    using control_queues_acyclical[OF while_found_staged while_found_sendable while_found_fuel queue_inv_no_queues
        while_found_forward, of 2]
    by (simp add: while_found_branches)
qed

lemma while_found_order: "pipeline_partition while_found [[2], [3]]"
proof -
  have "(3, y) \<notin> (dependsOn while_found)\<^sup>+" for y
  proof
    assume "(3, y) \<in> (dependsOn while_found)\<^sup>+"
    then obtain z where "(3, z) \<in> dependsOn while_found" by (meson tranclD)
    then show False by (auto simp: dependsOn_def while_found_def split: if_splits)
  qed
  then show ?thesis by (auto simp: pipeline_partition_def less_Suc_eq nth_Cons split: nat.splits)
qed

lemma while_found_generated: "snd (generateStagesFromPartitionedSCCs [[2], [3]]) = [2 \<mapsto> 0, 3 \<mapsto> 1]"
  by (auto simp: generateStagesFromPartitionedSCCs_def assignStage_def fun_eq_iff)

text \<open>The value goes forward, the condition back.\<close>

lemma pipeline_queues_witness:
  "\<exists>s s'. collectControlQueueInfo while_found while_found_control [2 \<mapsto> 0, 3 \<mapsto> 1] (\<lambda>p. 1) (\<lambda>b. b = 1) 2 2 s = Some (Inr s') \<and>
     has_queue s' 0 1 20 31 \<and> has_queue s' 1 0 31 30 \<and> (\<exists>q \<in> set (queues s'). \<not> fromStage q < toStage q)"
proof -
  let ?stages = "snd (generateStagesFromPartitionedSCCs [[2], [3 :: nat]])"
  let ?tasks = "[\<lparr>stageSCCs = [2], clonableSCCs = {}\<rparr>, \<lparr>stageSCCs = [3], clonableSCCs = {} :: nat set\<rparr>]"
  have tasks: "addClonableSCCsToStages while_found 3 (fst (generateStagesFromPartitionedSCCs [[2], [3]])) = Some ?tasks"
    by (simp add: generateStagesFromPartitionedSCCs_def while_found_def numeral_eq_Suc)
  obtain s where s: "collectDataAndMemoryQueueInfo while_found ?stages (\<lambda>p. 1) (\<lambda>b. b = 1) ?tasks no_queues = Inr s"
    by (simp add: collectDataAndMemoryQueueInfo_def while_found_generated while_found_def sccsOfStage_def registerQueue_def
        no_queues_def Let_def)
  have two: "length ?tasks = 2" by simp
  from pipeline_queues[OF while_found_order while_found_staged[folded while_found_generated] tasks s
      while_found_sendable[folded while_found_generated] while_found_fuel, unfolded while_found_generated two]
  obtain s' where s': "collectControlQueueInfo while_found while_found_control [2 \<mapsto> 0, 3 \<mapsto> 1] (\<lambda>p. 1) (\<lambda>b. b = 1) 2 2 s = Some (Inr s')"
    and data: "\<forall>i j scc fromSCC deps p c k.
       i < 2 \<and> j < 2 \<and> j \<noteq> i \<and> scc \<in> set (sccsOfStage (?tasks ! i)) \<and>
       (fromSCC, deps) \<in> set (incomingEdges while_found scc) \<and> (p, c, k) \<in> set deps \<and> k \<noteq> ControlDependence \<and>
       fromSCC \<in> set ([[2], [3]] ! j) \<and> \<not> canBeCloned while_found fromSCC \<longrightarrow> has_queue s' j i p c"
    and control: "\<forall>node \<in> set (conditionalBranchNodes while_found while_found_control).
       \<forall>(src, dst, p, c) \<in> conditionQueues while_found while_found_control [2 \<mapsto> 0, 3 \<mapsto> 1] 2 node. has_queue s' src dst p c"
    by (elim exE conjE) (rule that; assumption)
  have "has_queue s' 0 1 20 31"
    by (rule data[rule_format, of 1 0 3 2 "[(20, 31, VariableDependence)]" 20 31 VariableDependence])
      (simp add: while_found_def sccsOfStage_def)
  moreover have "(1, 0, 31, 30) \<in> conditionQueues while_found while_found_control [2 \<mapsto> 0, 3 \<mapsto> 1] 2 (3, 30)"
    by (auto simp: conditionQueues_def needsCondition_def isControllingLoopExit_def sentConditions_def while_found_def
        while_found_control_def)
  then have cond: "has_queue s' 1 0 31 30" using control unfolding while_found_branches by fastforce
  moreover have "\<exists>q \<in> set (queues s'). \<not> fromStage q < toStage q"
    using cond unfolding has_queue_def by (metis nth_mem not_less_zero)
  ultimately show ?thesis using s' by blast
qed

end
