(* ===== verification/Dswp_Codegen.thy ===== *)
theory Dswp_Codegen
  imports Dswp_Control "HOL-Library.Sublist"
begin

text \<open>
  The code of a DSWP stage (\<open>dswp/src/CFG.cpp\<close>, \<open>Queue.cpp\<close>): the blocks of the loop that a stage keeps,
  the jumps over those it leaves out, and where it pops and pushes the values of its queues.
\<close>

section \<open>The blocks of a stage\<close>

text \<open>
  The loop: blocks and instructions by number; \<open>isPHI\<close> also holds of debug and lifetime intrinsics;
  \<open>postDominator\<close> is the parent in the tree of post-dominators.
\<close>

record loop_blocks =
  loopBlocks :: "nat list"
  loopHeader :: nat
  blockInsts :: "nat \<Rightarrow> nat list"
  parentBlock :: "nat \<Rightarrow> nat"
  isTerminator :: "nat \<Rightarrow> bool"
  isPHI :: "nat \<Rightarrow> bool"
  succBlocks :: "nat \<Rightarrow> nat list"
  exitsOfLoop :: "nat set"
  postDominator :: "nat \<Rightarrow> nat option"
  instsOfSCC :: "nat \<Rightarrow> nat set"

text \<open>The body of a task: for each original block that has a clone, the instructions of the clone.\<close>

datatype task_inst = Clone nat | Jump nat | PopQueue nat | PushQueue nat

type_synonym task_code = "nat \<rightharpoonup> task_inst list"

definition getTerminator :: "loop_blocks \<Rightarrow> task_inst list \<Rightarrow> bool" where
  "getTerminator L code =
     (code \<noteq> [] \<and> (case last code of Clone i \<Rightarrow> isTerminator L i | Jump b \<Rightarrow> True | _ \<Rightarrow> False))"

text \<open>The instructions of a stage: those of its components and the branches whose condition it receives.\<close>

definition instsOfStage :: "loop_blocks \<Rightarrow> stage \<Rightarrow> queue_state \<Rightarrow> nat \<Rightarrow> nat set" where
  "instsOfStage L task s taskIndex =
     (\<Union>scc \<in> clonableSCCs task \<union> set (stageSCCs task). instsOfSCC L scc) \<union>
     (\<Union>q \<in> popValueQueues s taskIndex. Set.filter (isTerminator L) (queueConsumers (queues s ! q)))"

definition cloneSequentialLoopSubset :: "loop_blocks \<Rightarrow> nat set \<Rightarrow> task_code \<Rightarrow> task_code" where
  "cloneSequentialLoopSubset L insts code =
     (\<lambda>b. if b \<in> parentBlock L ` insts
          then Some (map Clone (filter (\<lambda>i. i \<in> insts) (blockInsts L b)))
          else code b)"

definition addBasicBlockStubs :: "loop_blocks \<Rightarrow> task_code \<Rightarrow> task_code" where
  "addBasicBlockStubs L code = fold (\<lambda>b code. if code b = None then code(b \<mapsto> []) else code) (loopBlocks L) code"

text \<open>The traversal from the header; \<open>None\<close> is running out of fuel.\<close>

fun addMissingBranches ::
    "loop_blocks \<Rightarrow> nat \<Rightarrow> nat list \<Rightarrow> nat set \<Rightarrow> task_code \<Rightarrow> task_code result option" where
  "addMissingBranches L fuel [] visitedBBs code = Some (Inr code)"
| "addMissingBranches L 0 (originalB # blocks) visitedBBs code = None"
| "addMissingBranches L (Suc fuel) (originalB # blocks) visitedBBs code =
     (if originalB \<in> visitedBBs then addMissingBranches L fuel blocks visitedBBs code
      else case code originalB of
        None \<Rightarrow> Some (Inl AssertionFailed)
      | Some clonedB \<Rightarrow>
          if \<not> getTerminator L clonedB then
            (case postDominator L originalB of
               None \<Rightarrow> Some (Inl UndefinedBehaviour)
             | Some postDominatingBB \<Rightarrow>
                 if postDominatingBB \<in> exitsOfLoop L \<or> code postDominatingBB = None then Some (Inl AssertionFailed)
                 else addMissingBranches L fuel (blocks @ [postDominatingBB]) (insert originalB visitedBBs)
                        (code(originalB \<mapsto> clonedB @ [Jump postDominatingBB])))
          else addMissingBranches L fuel (blocks @ succBlocks L originalB) (insert originalB visitedBBs) code)"

definition removeUnterminated :: "loop_blocks \<Rightarrow> task_code \<Rightarrow> task_code" where
  "removeUnterminated L code =
     fold (\<lambda>b code. case code b of
              None \<Rightarrow> code
            | Some clonedB \<Rightarrow> if getTerminator L clonedB then code else code(b := None)) (loopBlocks L) code"

text \<open>A task starts with a clone of every exit block of the loop, which leaves the task.\<close>

definition exitStubs :: "loop_blocks \<Rightarrow> task_code" where
  "exitStubs L = (\<lambda>b. if b \<in> exitsOfLoop L then Some [] else None)"

definition generateLoopSubsetForStage ::
    "loop_blocks \<Rightarrow> nat \<Rightarrow> nat set \<Rightarrow> task_code result option" where
  "generateLoopSubsetForStage L fuel insts =
     map_option (map_sum id (removeUnterminated L))
       (addMissingBranches L fuel [loopHeader L] (exitsOfLoop L)
          (addBasicBlockStubs L (cloneSequentialLoopSubset L insts (exitStubs L))))"

section \<open>Pops and pushes\<close>

text \<open>A pop goes to the start of the clone of the block of the producer, after its PHIs.\<close>

definition phiClone :: "loop_blocks \<Rightarrow> task_inst \<Rightarrow> bool" where
  "phiClone L i = (case i of Clone n \<Rightarrow> isPHI L n | _ \<Rightarrow> False)"

definition insertFirst :: "loop_blocks \<Rightarrow> task_inst \<Rightarrow> task_inst list \<Rightarrow> task_inst list" where
  "insertFirst L new code = takeWhile (phiClone L) code @ new # dropWhile (phiClone L) code"

fun insertPops :: "loop_blocks \<Rightarrow> queue_state \<Rightarrow> nat list \<Rightarrow> task_code \<Rightarrow> task_code result" where
  "insertPops L s [] code = Inr code"
| "insertPops L s (q # qs) code =
     (let originalB = parentBlock L (queueProducer (queues s ! q)) in
      case code originalB of
        None \<Rightarrow> Inl AssertionFailed
      | Some clonedB \<Rightarrow> insertPops L s qs (code(originalB \<mapsto> insertFirst L (PopQueue q) clonedB)))"

definition popValueQueuesCode :: "loop_blocks \<Rightarrow> queue_state \<Rightarrow> nat \<Rightarrow> task_code \<Rightarrow> task_code result" where
  "popValueQueuesCode L s taskIndex code = insertPops L s (sorted_list_of_set (popValueQueues s taskIndex)) code"

text \<open>
  A push goes right after the clone of the producer, or after the PHIs that follow it. A pop registers its
  load as the clone of its producer, but no stage both pops and pushes the values of one producer: it
  pushes those of its own components, and pops those of others.
\<close>

fun insertAfter :: "loop_blocks \<Rightarrow> nat \<Rightarrow> task_inst \<Rightarrow> task_inst list \<Rightarrow> task_inst list option" where
  "insertAfter L p new [] = None"
| "insertAfter L p new (i # code) =
     (if i = Clone p then
        (case code of
           [] \<Rightarrow> None
         | nextInst # _ \<Rightarrow>
             if phiClone L nextInst then Some (i # insertFirst L new code)
             else Some (i # new # code))
      else map_option ((#) i) (insertAfter L p new code))"

fun insertPushes :: "loop_blocks \<Rightarrow> queue_state \<Rightarrow> nat list \<Rightarrow> task_code \<Rightarrow> task_code result" where
  "insertPushes L s [] code = Inr code"
| "insertPushes L s (q # qs) code =
     (let p = queueProducer (queues s ! q) in
      case code (parentBlock L p) of
        None \<Rightarrow> Inl UndefinedBehaviour
      | Some clonedB \<Rightarrow>
          (case insertAfter L p (PushQueue q) clonedB of
             None \<Rightarrow> Inl UndefinedBehaviour
           | Some clonedB \<Rightarrow> insertPushes L s qs (code(parentBlock L p \<mapsto> clonedB))))"

definition pushValueQueuesCode :: "loop_blocks \<Rightarrow> queue_state \<Rightarrow> nat \<Rightarrow> task_code \<Rightarrow> task_code result" where
  "pushValueQueuesCode L s taskIndex code = insertPushes L s (sorted_list_of_set (pushValueQueues s taskIndex)) code"

text \<open>The steps of \<open>apply\<close> that make the body of one stage.\<close>

definition generateStage ::
    "loop_blocks \<Rightarrow> nat \<Rightarrow> queue_state \<Rightarrow> nat \<Rightarrow> stage \<Rightarrow> task_code result option" where
  "generateStage L fuel s taskIndex task =
     map_option (\<lambda>r. case r of
         Inl e \<Rightarrow> Inl e
       | Inr code \<Rightarrow> (case popValueQueuesCode L s taskIndex code of
             Inl e \<Rightarrow> Inl e
           | Inr code \<Rightarrow> pushValueQueuesCode L s taskIndex code))
       (generateLoopSubsetForStage L fuel (instsOfStage L task s taskIndex))"

section \<open>Loops and control dependence\<close>

definition terminatorOf :: "loop_blocks \<Rightarrow> nat \<Rightarrow> nat" where
  "terminatorOf L b = last (blockInsts L b)"

text \<open>A path through blocks of the loop, which may end outside of it.\<close>

definition loop_path :: "loop_blocks \<Rightarrow> nat list \<Rightarrow> bool" where
  "loop_path L p \<longleftrightarrow>
     successively (\<lambda>x y. y \<in> set (succBlocks L x)) p \<and> set (butlast p) \<subseteq> set (loopBlocks L)"

definition wf_loop :: "loop_blocks \<Rightarrow> bool" where
  "wf_loop L \<longleftrightarrow>
     loopHeader L \<in> set (loopBlocks L) \<and> set (loopBlocks L) \<inter> exitsOfLoop L = {} \<and>
     (\<forall>b \<in> set (loopBlocks L). set (succBlocks L b) \<subseteq> set (loopBlocks L) \<union> exitsOfLoop L \<and>
        blockInsts L b \<noteq> [] \<and> isTerminator L (terminatorOf L b) \<and> \<not> isPHI L (terminatorOf L b) \<and> distinct (blockInsts L b) \<and>
        (\<forall>i \<in> set (butlast (blockInsts L b)). \<not> isTerminator L i) \<and>
        (\<forall>i \<in> set (blockInsts L b). parentBlock L i = b))"

text \<open>The tree of post-dominators: every way out of the loop goes through the parent of a block.\<close>

definition wf_postdom :: "loop_blocks \<Rightarrow> bool" where
  "wf_postdom L \<longleftrightarrow>
     (\<forall>b \<in> set (loopBlocks L).
        (\<exists>p. loop_path L (b # p) \<and> p \<noteq> [] \<and> last p \<in> exitsOfLoop L) \<and>
        (\<exists>d \<in> set (loopBlocks L) \<union> exitsOfLoop L. postDominator L b = Some d \<and>
           (\<forall>p. loop_path L (b # p) \<and> p \<noteq> [] \<and> last p \<in> exitsOfLoop L \<longrightarrow> d \<in> set p)))"

text \<open>
  A branch controls a block when the block can be reached from it without its immediate post-dominator:
  control dependence, directly or through other branches.
\<close>

definition controlEdges :: "loop_blocks \<Rightarrow> nat \<Rightarrow> (nat \<times> nat) set" where
  "controlEdges L d =
     {(x, y). x \<in> set (loopBlocks L) \<and> y \<in> set (loopBlocks L) \<and> y \<in> set (succBlocks L x) \<and> y \<noteq> d}"

definition controls :: "loop_blocks \<Rightarrow> nat \<Rightarrow> nat \<Rightarrow> bool" where
  "controls L v b \<longleftrightarrow> (\<exists>d. postDominator L v = Some d \<and> (v, b) \<in> (controlEdges L d)\<^sup>+)"

definition controlled_by :: "loop_blocks \<Rightarrow> nat set \<Rightarrow> nat \<Rightarrow> bool" where
  "controlled_by L insts b \<longleftrightarrow> (\<forall>v \<in> set (loopBlocks L). controls L v b \<longrightarrow> terminatorOf L v \<in> insts)"

text \<open>What DSWP gives a stage: with an instruction the branches that control it, and all exits.\<close>

definition branches_closed :: "loop_blocks \<Rightarrow> nat set \<Rightarrow> bool" where
  "branches_closed L insts \<longleftrightarrow>
     (\<forall>i \<in> insts. parentBlock L i \<in> set (loopBlocks L) \<and> i \<in> set (blockInsts L (parentBlock L i)) \<and>
        controlled_by L insts (parentBlock L i)) \<and>
     (\<forall>b \<in> set (loopBlocks L). set (succBlocks L b) \<inter> exitsOfLoop L \<noteq> {} \<longrightarrow> terminatorOf L b \<in> insts)"

lemma path_avoiding:
  assumes "loop_path L (v # p)" "set p \<subseteq> set (loopBlocks L)" "d \<notin> set p" "p \<noteq> []" "v \<in> set (loopBlocks L)"
  shows "(v, last p) \<in> (controlEdges L d)\<^sup>+"
  using assms
proof (induction p arbitrary: v)
  case (Cons x p)
  have edge: "(v, x) \<in> controlEdges L d" using Cons.prems by (auto simp: controlEdges_def loop_path_def)
  show ?case
  proof (cases "p = []")
    case False
    have "loop_path L (x # p)" using Cons.prems(1) by (auto simp: loop_path_def)
    then have "(x, last p) \<in> (controlEdges L d)\<^sup>+" using Cons.IH[of x] Cons.prems False by auto
    then show ?thesis using edge False by (auto intro: trancl_into_trancl2)
  qed (use edge in auto)
qed simp

text \<open>A block without its branch is not followed by the end of the loop.\<close>

lemma jump_stays_inside:
  assumes wf: "wf_loop L" "wf_postdom L" and closed: "branches_closed L insts"
    and v: "v \<in> set (loopBlocks L)" "terminatorOf L v \<notin> insts"
  shows "\<exists>d \<in> set (loopBlocks L). postDominator L v = Some d"
proof -
  obtain p where p: "loop_path L (v # p)" "p \<noteq> []" "last p \<in> exitsOfLoop L"
    using wf(2) v(1) unfolding wf_postdom_def by blast
  obtain d where d: "d \<in> set (loopBlocks L) \<union> exitsOfLoop L" "postDominator L v = Some d"
    using wf(2) v(1) unfolding wf_postdom_def by blast
  have "d \<notin> exitsOfLoop L"
  proof
    assume exit: "d \<in> exitsOfLoop L"
    let ?e = "last (v # butlast p)"
    have split: "v # p = (v # butlast p) @ [last p]" using p(2) by simp
    have "successively (\<lambda>x y. y \<in> set (succBlocks L x)) ((v # butlast p) @ [last p])"
      using p(1) unfolding loop_path_def split by (rule conjunct1)
    note step = this[unfolded successively_append_iff]
    have sub: "set (v # butlast p) \<subseteq> set (loopBlocks L)"
      using p(1,2) by (simp add: loop_path_def)
    have "last p \<in> set (succBlocks L ?e)"
      using step by simp
    moreover have e: "?e \<in> set (loopBlocks L)" using sub last_in_set[of "v # butlast p"] by blast
    ultimately have own: "terminatorOf L ?e \<in> insts" using closed p(3) unfolding branches_closed_def by blast
    show False
    proof (cases "butlast p = []")
      case False
      have "successively (\<lambda>x y. y \<in> set (succBlocks L x)) (v # butlast p)"
        using step by blast
      then have path: "loop_path L (v # butlast p)" using sub by (auto simp: loop_path_def dest: in_set_butlastD)
      have "d \<notin> set (butlast p)" using exit sub wf(1) unfolding wf_loop_def by auto
      then have "(v, ?e) \<in> (controlEdges L d)\<^sup>+" using path_avoiding[OF path] sub False v(1) by simp
      then have "controls L v ?e" using d(2) by (auto simp: controls_def)
      moreover have "parentBlock L (terminatorOf L ?e) = ?e"
        using wf(1) e unfolding wf_loop_def terminatorOf_def by (meson last_in_set)
      ultimately have "terminatorOf L v \<in> insts"
        using closed own v(1) unfolding branches_closed_def controlled_by_def by metis
      then show False using v(2) by simp
    qed (use own v(2) in simp)
  qed
  then show ?thesis using d by blast
qed

section \<open>The traversal from the header\<close>

text \<open>What a stage has of a block, and where it goes from there.\<close>

definition ownCode :: "loop_blocks \<Rightarrow> nat set \<Rightarrow> nat \<Rightarrow> task_inst list" where
  "ownCode L insts b = map Clone (filter (\<lambda>i. i \<in> insts) (blockInsts L b))"

definition stageSuccs :: "loop_blocks \<Rightarrow> nat set \<Rightarrow> nat \<Rightarrow> nat list" where
  "stageSuccs L insts b =
     (if terminatorOf L b \<in> insts then succBlocks L b else [the (postDominator L b)])"

definition branched :: "loop_blocks \<Rightarrow> nat set \<Rightarrow> nat \<Rightarrow> task_inst list" where
  "branched L insts b =
     ownCode L insts b @ (if terminatorOf L b \<in> insts then [] else [Jump (the (postDominator L b))])"

lemma block_split:
  assumes "wf_loop L" "b \<in> set (loopBlocks L)"
  shows "blockInsts L b = butlast (blockInsts L b) @ [terminatorOf L b]"
  using assms by (simp add: wf_loop_def terminatorOf_def)

lemma ownCode_terminator:
  assumes "wf_loop L" "b \<in> set (loopBlocks L)"
  shows "getTerminator L (ownCode L insts b) \<longleftrightarrow> terminatorOf L b \<in> insts"
proof -
  let ?own = "filter (\<lambda>i. i \<in> insts) (butlast (blockInsts L b))"
  have code: "ownCode L insts b = map Clone (?own @ (if terminatorOf L b \<in> insts then [terminatorOf L b] else []))"
    unfolding ownCode_def by (subst block_split[OF assms]) simp
  have "isTerminator L (terminatorOf L b)" "\<forall>i \<in> set ?own. \<not> isTerminator L i"
    using assms unfolding wf_loop_def by auto
  then show ?thesis using last_in_set[of ?own] unfolding code getTerminator_def by (cases "?own = []") (auto simp: last_map)
qed

lemma branched_terminator:
  assumes "wf_loop L" "b \<in> set (loopBlocks L)"
  shows "getTerminator L (branched L insts b)"
  using ownCode_terminator[OF assms, of insts] by (auto simp: branched_def) (simp add: getTerminator_def)

lemma addBasicBlockStubs_apply:
  "addBasicBlockStubs L code b = (if code b = None \<and> b \<in> set (loopBlocks L) then Some [] else code b)"
proof -
  have "fold (\<lambda>b code. if code b = None then code(b \<mapsto> []) else code) bs code b =
      (if code b = None \<and> b \<in> set bs then Some [] else code b)" for bs
    by (induction bs arbitrary: code) auto
  then show ?thesis by (simp add: addBasicBlockStubs_def)
qed

lemma start_code:
  assumes "wf_loop L" "branches_closed L insts" "b \<in> set (loopBlocks L)"
  shows "addBasicBlockStubs L (cloneSequentialLoopSubset L insts (exitStubs L)) b = Some (ownCode L insts b)"
proof (cases "b \<in> parentBlock L ` insts")
  case False
  have "b \<notin> exitsOfLoop L" using assms(1,3) by (auto simp: wf_loop_def)
  moreover have "i \<notin> insts" if "i \<in> set (blockInsts L b)" for i
  proof
    assume "i \<in> insts"
    moreover have "parentBlock L i = b" using that assms(1,3) unfolding wf_loop_def by blast
    ultimately show False using False by blast
  qed
  then have "ownCode L insts b = []" by (simp add: ownCode_def filter_empty_conv)
  ultimately show ?thesis using False assms(3)
    by (simp add: addBasicBlockStubs_apply cloneSequentialLoopSubset_def exitStubs_def)
qed (simp add: addBasicBlockStubs_apply cloneSequentialLoopSubset_def ownCode_def)

definition branchSteps :: "loop_blocks \<Rightarrow> nat set \<Rightarrow> nat list \<Rightarrow> nat set \<Rightarrow> nat" where
  "branchSteps L insts blocks V = length blocks + (\<Sum>b \<in> set (loopBlocks L) - V. length (stageSuccs L insts b))"

lemma branchSteps_visit:
  assumes "b \<in> set (loopBlocks L)" "b \<notin> V"
  shows "branchSteps L insts (b # blocks) V = Suc (branchSteps L insts (blocks @ stageSuccs L insts b) (insert b V))"
proof -
  have "(\<Sum>m \<in> set (loopBlocks L) - V. length (stageSuccs L insts m)) =
      length (stageSuccs L insts b) + (\<Sum>m \<in> set (loopBlocks L) - V - {b}. length (stageSuccs L insts m))"
    by (rule sum.remove) (use assms in auto)
  moreover have "set (loopBlocks L) - V - {b} = set (loopBlocks L) - insert b V" by auto
  ultimately show ?thesis by (simp add: branchSteps_def)
qed

text \<open>One step of the traversal at a block that was not visited.\<close>

lemma addMissingBranches_visit:
  assumes wf: "wf_loop L" and inside: "\<forall>v \<in> set (loopBlocks L). terminatorOf L v \<notin> insts \<longrightarrow>
      (\<exists>d \<in> set (loopBlocks L). postDominator L v = Some d)"
    and b: "b \<in> set (loopBlocks L)" "b \<notin> V" "code b = Some (ownCode L insts b)"
    and codes: "\<forall>b \<in> set (loopBlocks L). code b \<noteq> None"
  shows "addMissingBranches L (Suc fuel) (b # blocks) V code =
    addMissingBranches L fuel (blocks @ stageSuccs L insts b) (insert b V) (code(b \<mapsto> branched L insts b))"
proof (cases "terminatorOf L b \<in> insts")
  case True
  then have "branched L insts b = ownCode L insts b" by (simp add: branched_def)
  then have "code(b \<mapsto> branched L insts b) = code" using b(3) by auto
  then show ?thesis using True b ownCode_terminator[OF wf b(1), of insts] by (simp add: stageSuccs_def)
next
  case False
  then obtain d where d: "d \<in> set (loopBlocks L)" "postDominator L b = Some d" using inside b(1) by blast
  have "d \<notin> exitsOfLoop L" using wf d(1) by (auto simp: wf_loop_def)
  moreover obtain c where "code d = Some c" using codes d(1) by blast
  ultimately show ?thesis using False b d(2) ownCode_terminator[OF wf b(1), of insts]
    by (simp add: stageSuccs_def branched_def)
qed

lemma stageSuccs_inside:
  assumes wf: "wf_loop L" and inside: "\<forall>v \<in> set (loopBlocks L). terminatorOf L v \<notin> insts \<longrightarrow>
      (\<exists>d \<in> set (loopBlocks L). postDominator L v = Some d)"
    and b: "b \<in> set (loopBlocks L)"
  shows "set (stageSuccs L insts b) \<subseteq> set (loopBlocks L) \<union> exitsOfLoop L"
proof (cases "terminatorOf L b \<in> insts")
  case True
  then show ?thesis using wf b by (simp add: wf_loop_def stageSuccs_def)
next
  case False
  then obtain d where "d \<in> set (loopBlocks L)" "postDominator L b = Some d" using inside b by blast
  then show ?thesis using False by (simp add: stageSuccs_def)
qed

lemma addMissingBranches_result:
  assumes wf: "wf_loop L" and inside: "\<forall>v \<in> set (loopBlocks L). terminatorOf L v \<notin> insts \<longrightarrow>
      (\<exists>d \<in> set (loopBlocks L). postDominator L v = Some d)"
    and "set queue \<subseteq> set (loopBlocks L) \<union> exitsOfLoop L" "exitsOfLoop L \<subseteq> V"
    and "\<forall>b \<in> set (loopBlocks L) - V. code b = Some (ownCode L insts b)"
    and "\<forall>b \<in> set (loopBlocks L). code b \<noteq> None" and "branchSteps L insts queue V \<le> fuel"
  shows "\<exists>W code'. addMissingBranches L fuel queue V code = Some (Inr code') \<and> V \<subseteq> W \<and> set queue \<subseteq> W \<and>
    W \<subseteq> V \<union> set (loopBlocks L) \<and> (\<forall>b \<in> W - V. set (stageSuccs L insts b) \<subseteq> W) \<and>
    (\<forall>b. code' b = (if b \<in> W - V then Some (branched L insts b) else code b))"
  using assms(3-)
proof (induction fuel arbitrary: queue V code)
  case 0
  then have "queue = []" by (simp add: branchSteps_def)
  then show ?case by (intro exI[of _ V] exI[of _ code]) simp
next
  case (Suc fuel)
  show ?case
  proof (cases queue)
    case Nil
    then show ?thesis by (intro exI[of _ V] exI[of _ code]) simp
  next
    case (Cons b blocks)
    show ?thesis
    proof (cases "b \<in> V")
      case True
      have "branchSteps L insts blocks V \<le> fuel" using Suc.prems(5) Cons by (simp add: branchSteps_def)
      have "set blocks \<subseteq> set (loopBlocks L) \<union> exitsOfLoop L" using Suc.prems(1) Cons by simp
      from Suc.IH[OF this Suc.prems(2-4) \<open>branchSteps L insts blocks V \<le> fuel\<close>] obtain W code' where
        W: "addMissingBranches L fuel blocks V code = Some (Inr code')" "V \<subseteq> W" "set blocks \<subseteq> W"
        "W \<subseteq> V \<union> set (loopBlocks L)" "\<forall>b \<in> W - V. set (stageSuccs L insts b) \<subseteq> W"
        "\<forall>b. code' b = (if b \<in> W - V then Some (branched L insts b) else code b)"
        by (elim exE conjE) (rule that; assumption)
      have "addMissingBranches L (Suc fuel) queue V code = Some (Inr code')" "set queue \<subseteq> W"
        using True Cons W(1-3) by auto
      then show ?thesis using W(2,4-6) by (intro exI[of _ W] exI[of _ code'] conjI)
    next
      case False
      then have b: "b \<in> set (loopBlocks L)" using Suc.prems(1,2) Cons by auto
      let ?code = "code(b \<mapsto> branched L insts b)"
      have steps: "branchSteps L insts (blocks @ stageSuccs L insts b) (insert b V) \<le> fuel"
        using Suc.prems(5) branchSteps_visit[OF b False] Cons by simp
      have "set (stageSuccs L insts b) \<subseteq> set (loopBlocks L) \<union> exitsOfLoop L"
        by (rule stageSuccs_inside[OF wf inside b])
      then have queue: "set (blocks @ stageSuccs L insts b) \<subseteq> set (loopBlocks L) \<union> exitsOfLoop L"
        using Suc.prems(1) Cons by simp
      have a1: "exitsOfLoop L \<subseteq> insert b V" using Suc.prems(2) by blast
      have a2: "\<forall>c \<in> set (loopBlocks L) - insert b V. ?code c = Some (ownCode L insts c)"
        using Suc.prems(3) by simp
      have a3: "\<forall>c \<in> set (loopBlocks L). ?code c \<noteq> None" using Suc.prems(4) by simp
      from Suc.IH[OF queue a1 a2 a3 steps] obtain W code' where
        W: "addMissingBranches L fuel (blocks @ stageSuccs L insts b) (insert b V) ?code = Some (Inr code')"
        "insert b V \<subseteq> W" "set (blocks @ stageSuccs L insts b) \<subseteq> W" "W \<subseteq> insert b V \<union> set (loopBlocks L)"
        "\<forall>c \<in> W - insert b V. set (stageSuccs L insts c) \<subseteq> W"
        "\<forall>c. code' c = (if c \<in> W - insert b V then Some (branched L insts c) else ?code c)"
        by (elim exE conjE) (rule that; assumption)
      have own: "code b = Some (ownCode L insts b)" using Suc.prems(3) b False by simp
      have "addMissingBranches L (Suc fuel) queue V code = Some (Inr code')"
        unfolding Cons addMissingBranches_visit[OF wf inside b False own Suc.prems(4)] by (rule W(1))
      moreover have "\<forall>c. code' c = (if c \<in> W - V then Some (branched L insts c) else code c)"
        using W(2,6) False by auto
      moreover have "\<forall>c \<in> W - V. set (stageSuccs L insts c) \<subseteq> W" using W(3,5) by auto
      moreover have "V \<subseteq> W" "set queue \<subseteq> W" "W \<subseteq> V \<union> set (loopBlocks L)" using W(2-4) b Cons by auto
      ultimately show ?thesis by (intro exI[of _ W] exI[of _ code'] conjI)
    qed
  qed
qed

lemma removeUnterminated_apply:
  "removeUnterminated L code b =
     (case code b of
        None \<Rightarrow> None
      | Some c \<Rightarrow> if b \<in> set (loopBlocks L) \<and> \<not> getTerminator L c then None else Some c)"
proof -
  have "fold (\<lambda>b code. case code b of None \<Rightarrow> code | Some c \<Rightarrow> if getTerminator L c then code else code(b := None)) bs code b =
      (case code b of None \<Rightarrow> None | Some c \<Rightarrow> if b \<in> set bs \<and> \<not> getTerminator L c then None else Some c)" for bs
    by (induction bs arbitrary: code) (auto split: option.splits)
  then show ?thesis by (simp add: removeUnterminated_def)
qed

definition stageFuel :: "loop_blocks \<Rightarrow> nat set \<Rightarrow> nat" where
  "stageFuel L insts = Suc (\<Sum>b \<in> set (loopBlocks L). length (stageSuccs L insts b))"

text \<open>The blocks of a stage: a set that is closed under where the stage goes, from the header.\<close>

definition stage_region :: "loop_blocks \<Rightarrow> nat set \<Rightarrow> nat set \<Rightarrow> bool" where
  "stage_region L insts W \<longleftrightarrow>
     loopHeader L \<in> W \<and> W \<subseteq> set (loopBlocks L) \<union> exitsOfLoop L \<and>
     (\<forall>b \<in> W \<inter> set (loopBlocks L). set (stageSuccs L insts b) \<subseteq> W)"

lemma stage_code:
  assumes wf: "wf_loop L" "wf_postdom L" and closed: "branches_closed L insts" and fuel: "stageFuel L insts \<le> fuel"
  shows "\<exists>W code. generateLoopSubsetForStage L fuel insts = Some (Inr code) \<and> stage_region L insts W \<and>
    (\<forall>b \<in> set (loopBlocks L).
       code b = (if b \<in> W \<or> terminatorOf L b \<in> insts then Some (branched L insts b) else None))"
proof -
  let ?start = "addBasicBlockStubs L (cloneSequentialLoopSubset L insts (exitStubs L))"
  have inside: "\<forall>v \<in> set (loopBlocks L). terminatorOf L v \<notin> insts \<longrightarrow>
      (\<exists>d \<in> set (loopBlocks L). postDominator L v = Some d)"
    using jump_stays_inside[OF wf closed] by blast
  have disj: "set (loopBlocks L) \<inter> exitsOfLoop L = {}" and header: "loopHeader L \<in> set (loopBlocks L)"
    using wf(1) by (auto simp: wf_loop_def)
  have own: "\<forall>b \<in> set (loopBlocks L). ?start b = Some (ownCode L insts b)"
    using start_code[OF wf(1) closed] by blast
  have "branchSteps L insts [loopHeader L] (exitsOfLoop L) \<le> fuel"
    using fuel disj by (simp add: branchSteps_def stageFuel_def Diff_triv)
  from addMissingBranches_result[OF wf(1) inside _ _ _ _ this, of ?start] header own
  obtain W code where W: "addMissingBranches L fuel [loopHeader L] (exitsOfLoop L) ?start = Some (Inr code)"
    "set [loopHeader L] \<subseteq> W" "W \<subseteq> exitsOfLoop L \<union> set (loopBlocks L)"
    "\<forall>b \<in> W - exitsOfLoop L. set (stageSuccs L insts b) \<subseteq> W"
    "\<forall>b. code b = (if b \<in> W - exitsOfLoop L then Some (branched L insts b) else ?start b)"
    by auto
  have "removeUnterminated L code b = (if b \<in> W \<or> terminatorOf L b \<in> insts then Some (branched L insts b) else None)"
    if b: "b \<in> set (loopBlocks L)" for b
  proof -
    have exit: "b \<notin> exitsOfLoop L" using b disj by auto
    show ?thesis
    proof (cases "b \<in> W")
      case True
      then show ?thesis using W(5) exit branched_terminator[OF wf(1) b, of insts] by (simp add: removeUnterminated_apply)
    next
      case False
      then have "code b = Some (ownCode L insts b)" using W(5) own b by simp
      then show ?thesis using False b ownCode_terminator[OF wf(1) b, of insts]
        by (simp add: removeUnterminated_apply branched_def)
    qed
  qed
  moreover have "stage_region L insts W" using W(2-4) disj unfolding stage_region_def by auto
  moreover have "generateLoopSubsetForStage L fuel insts = Some (Inr (removeUnterminated L code))"
    unfolding generateLoopSubsetForStage_def W(1) by simp
  ultimately show ?thesis by blast
qed

definition reachable_block :: "loop_blocks \<Rightarrow> nat \<Rightarrow> bool" where
  "reachable_block L b \<longleftrightarrow>
     (\<exists>p. loop_path L (loopHeader L # p) \<and> set p \<subseteq> set (loopBlocks L) \<and> last (loopHeader L # p) = b)"

lemma loop_path_suffix: "loop_path L (p @ q) \<Longrightarrow> q \<noteq> [] \<Longrightarrow> loop_path L q"
  by (auto simp: loop_path_def successively_append_iff butlast_append)

lemma region_succs: "stage_region L insts W \<Longrightarrow> b \<in> W \<Longrightarrow> b \<in> set (loopBlocks L) \<Longrightarrow> set (stageSuccs L insts b) \<subseteq> W"
  by (simp add: stage_region_def)

text \<open>A stage goes past every block whose branches it has.\<close>

lemma region_reaches:
  assumes wf: "wf_postdom L" and region: "stage_region L insts W" and b: "controlled_by L insts b"
    and "loop_path L (v # p)" "set (v # p) \<subseteq> set (loopBlocks L)" "last (v # p) = b" "v \<in> W"
  shows "b \<in> W"
  using assms(4-7)
proof (induction p arbitrary: v rule: length_induct)
  case (1 p)
  show ?case
  proof (cases p)
    case (Cons x q)
    have succs: "set (stageSuccs L insts v) \<subseteq> W" using region 1(3,5) by (auto simp: stage_region_def)
    show ?thesis
    proof (cases "terminatorOf L v \<in> insts")
      case True
      have "x \<in> W" using succs True 1(2) Cons by (auto simp: stageSuccs_def loop_path_def)
      moreover have "loop_path L (x # q)" using 1(2) Cons by (auto simp: loop_path_def)
      ultimately show ?thesis using 1(1)[rule_format, of q x] 1(3,4) Cons by simp
    next
      case False
      obtain d where d: "postDominator L v = Some d" using wf 1(3) unfolding wf_postdom_def by auto
      have "d \<in> W" using succs False d by (simp add: stageSuccs_def)
      show ?thesis
      proof (cases "d \<in> set p")
        case True
        then obtain p1 p2 where p: "p = p1 @ d # p2" by (meson split_list)
        have "loop_path L (d # p2)" using loop_path_suffix[of L "v # p1" "d # p2"] 1(2) p by simp
        then show ?thesis using 1(1)[rule_format, of p2 d] 1(3,4) p \<open>d \<in> W\<close> by simp
      next
        case False
        have "(v, last p) \<in> (controlEdges L d)\<^sup>+"
          by (rule path_avoiding[OF 1(2)]) (use 1(3) False Cons in auto)
        then have "controls L v b" using d 1(4) Cons by (auto simp: controls_def)
        then show ?thesis using b 1(3) \<open>terminatorOf L v \<notin> insts\<close> by (simp add: controlled_by_def)
      qed
    qed
  qed (use 1 in simp)
qed

lemma region_keeps:
  assumes "wf_loop L" "wf_postdom L" "stage_region L insts W" "controlled_by L insts b" "reachable_block L b"
  shows "b \<in> W"
  using assms region_reaches[OF assms(2-4), of "loopHeader L"]
  unfolding reachable_block_def wf_loop_def stage_region_def by auto

text \<open>
  C13: a stage of a DSWP pipeline keeps the control flow it needs. When it has, with an instruction, the
  branches that control it and the exits of the loop, then generating its blocks ends without a failed
  assertion; every block that is reached and whose branches the stage has is kept, so are its
  instructions; every block that is kept ends with a branch, and no jump leads to a block that was
  removed or out of the loop.
\<close>
theorem stage_blocks_kept:
  assumes "wf_loop L" and "wf_postdom L" and "branches_closed L insts" and "stageFuel L insts \<le> fuel"
  shows "\<exists>code. generateLoopSubsetForStage L fuel insts = Some (Inr code) \<and>
    (\<forall>b \<in> set (loopBlocks L). reachable_block L b \<and> controlled_by L insts b \<longrightarrow> code b \<noteq> None) \<and>
    (\<forall>i \<in> insts. reachable_block L (parentBlock L i) \<longrightarrow>
       (\<exists>c. code (parentBlock L i) = Some c \<and> Clone i \<in> set c)) \<and>
    (\<forall>b \<in> set (loopBlocks L). \<forall>c. code b = Some c \<longrightarrow>
       getTerminator L c \<and> (\<forall>t. Jump t \<in> set c \<longrightarrow> t \<in> set (loopBlocks L) \<and> code t \<noteq> None))"
proof -
  obtain W code where code: "generateLoopSubsetForStage L fuel insts = Some (Inr code)" "stage_region L insts W"
    "\<forall>b \<in> set (loopBlocks L). code b = (if b \<in> W \<or> terminatorOf L b \<in> insts then Some (branched L insts b) else None)"
    using stage_code[OF assms] by blast
  note keep = region_keeps[OF assms(1,2) code(2)]
  have insts: "\<exists>c. code (parentBlock L i) = Some c \<and> Clone i \<in> set c"
    if i: "i \<in> insts" "reachable_block L (parentBlock L i)" for i
  proof -
    have p: "parentBlock L i \<in> set (loopBlocks L)" "i \<in> set (blockInsts L (parentBlock L i))"
      "controlled_by L insts (parentBlock L i)"
      using assms(3) i(1) unfolding branches_closed_def by blast+
    then have "code (parentBlock L i) = Some (branched L insts (parentBlock L i))" using keep[OF p(3) i(2)] code(3) by simp
    then show ?thesis using p i(1) by (simp add: branched_def ownCode_def)
  qed
  have jumps: "t \<in> set (loopBlocks L) \<and> code t \<noteq> None"
    if b: "b \<in> set (loopBlocks L)" "code b = Some c" "Jump t \<in> set c" for b c t
  proof -
    have c: "c = branched L insts b" "b \<in> W \<or> terminatorOf L b \<in> insts" using code(3) b(1,2) by (auto split: if_splits)
    then have t: "terminatorOf L b \<notin> insts" "t = the (postDominator L b)"
      using b(3) by (auto simp: branched_def ownCode_def split: if_splits)
    then have "t \<in> set (loopBlocks L)" using jump_stays_inside[OF assms(1-3) b(1)] by auto
    moreover have "t \<in> W" using region_succs[OF code(2) _ b(1)] c(2) t by (simp add: stageSuccs_def)
    ultimately show ?thesis using code(3) by simp
  qed
  have "getTerminator L c" if "b \<in> set (loopBlocks L)" "code b = Some c" for b c
    using that code(3) branched_terminator[OF assms(1), of b insts] by (auto split: if_splits)
  then have "\<forall>b \<in> set (loopBlocks L). \<forall>c. code b = Some c \<longrightarrow>
      getTerminator L c \<and> (\<forall>t. Jump t \<in> set c \<longrightarrow> t \<in> set (loopBlocks L) \<and> code t \<noteq> None)"
    using jumps by blast
  moreover have "\<forall>b \<in> set (loopBlocks L). reachable_block L b \<and> controlled_by L insts b \<longrightarrow> code b \<noteq> None"
    using keep code(3) by simp
  ultimately show ?thesis using code(1) insts by blast
qed

section \<open>The code of a stage with its queues\<close>

text \<open>
  A block that was extended: what it had is still there in its order, so is its end, and the new
  instructions are in it as often as they are listed.
\<close>

definition extends_by :: "task_inst list \<Rightarrow> task_inst list \<Rightarrow> task_inst list \<Rightarrow> bool" where
  "extends_by ops c c' \<longleftrightarrow>
     subseq c c' \<and> c' \<noteq> [] \<and> last c' = last c \<and> (\<forall>x. count_list c' x = count_list c x + count_list ops x)"

lemma subseq_member: "subseq xs ys \<Longrightarrow> x \<in> set xs \<Longrightarrow> x \<in> set ys"
  by (induction rule: list_emb.induct) auto

lemma extends_by_refl: "c \<noteq> [] \<Longrightarrow> extends_by [] c c"
  by (simp add: extends_by_def)

lemma extends_by_trans: "extends_by xs c c' \<Longrightarrow> extends_by ys c' c'' \<Longrightarrow> extends_by (xs @ ys) c c''"
  by (auto simp: extends_by_def intro: subseq_order.trans)

text \<open>The end of a block: an instruction that is no PHI.\<close>

definition proper_end :: "loop_blocks \<Rightarrow> task_inst list \<Rightarrow> bool" where
  "proper_end L c \<longleftrightarrow> c \<noteq> [] \<and> \<not> phiClone L (last c)"

lemma extends_proper_end: "extends_by ops c c' \<Longrightarrow> proper_end L c \<Longrightarrow> proper_end L c'"
  by (simp add: extends_by_def proper_end_def)

lemma insertFirst_extends:
  assumes "proper_end L c"
  shows "extends_by [new] c (insertFirst L new c)"
    and "x \<in> set c \<Longrightarrow> \<not> phiClone L x \<Longrightarrow> subseq [new, x] (insertFirst L new c)"
proof -
  let ?P = "phiClone L"
  have "dropWhile ?P c \<noteq> []" using assms by (auto simp: proper_end_def dest: last_in_set)
  moreover have "last (dropWhile ?P c) = last c"
    using calculation by (metis last_appendR takeWhile_dropWhile_id)
  moreover have "subseq (takeWhile ?P c @ dropWhile ?P c) (takeWhile ?P c @ new # dropWhile ?P c)"
    by (intro list_emb_append_mono) auto
  moreover have "count_list c x = count_list (takeWhile ?P c) x + count_list (dropWhile ?P c) x" for x
    by (metis count_list_append takeWhile_dropWhile_id)
  ultimately show "extends_by [new] c (insertFirst L new c)" by (auto simp: extends_by_def insertFirst_def)
  show "subseq [new, x] (insertFirst L new c)" if x: "x \<in> set c" "\<not> phiClone L x"
  proof -
    have "x \<in> set (takeWhile ?P c) \<union> set (dropWhile ?P c)" using x(1) by (metis set_append takeWhile_dropWhile_id)
    then have "x \<in> set (dropWhile ?P c)" using x(2) by (auto dest: set_takeWhileD)
    then have "subseq [new, x] (new # dropWhile ?P c)" by (simp add: subseq_singleton_left)
    then show ?thesis unfolding insertFirst_def by (rule list_emb_append2)
  qed
qed

text \<open>The block of the producer of a queue.\<close>

definition producerBlock :: "loop_blocks \<Rightarrow> queue_state \<Rightarrow> nat \<Rightarrow> nat" where
  "producerBlock L s q = parentBlock L (queueProducer (queues s ! q))"

text \<open>What a pass over a list of queues does to each block.\<close>

definition code_extends ::
    "loop_blocks \<Rightarrow> queue_state \<Rightarrow> (nat \<Rightarrow> task_inst) \<Rightarrow> nat list \<Rightarrow> task_code \<Rightarrow> task_code \<Rightarrow> bool" where
  "code_extends L s f qs code code' \<longleftrightarrow>
     dom code' = dom code \<and>
     (\<forall>b c. code b = Some c \<and> proper_end L c \<longrightarrow>
        extends_by (map f (filter (\<lambda>q. producerBlock L s q = b) qs)) c (the (code' b)))"

lemma code_extends_step:
  assumes "code (producerBlock L s q) = Some c" "proper_end L c" "extends_by [f q] c c'"
    and "code_extends L s f qs (code(producerBlock L s q \<mapsto> c')) code'"
  shows "code_extends L s f (q # qs) code code'"
proof -
  let ?b = "producerBlock L s q"
  have "extends_by (map f (filter (\<lambda>q. producerBlock L s q = b) (q # qs))) d (the (code' b))"
    if b: "code b = Some d" "proper_end L d" for b d
  proof (cases "b = ?b")
    case True
    then have "extends_by (map f (filter (\<lambda>q. producerBlock L s q = b) qs)) c' (the (code' b))"
      using assms(4) extends_proper_end[OF assms(3,2)] unfolding code_extends_def by simp
    then show ?thesis using extends_by_trans[OF assms(3)] assms(1) b(1) True by simp
  next
    case False
    then show ?thesis using assms(4) b unfolding code_extends_def by simp
  qed
  moreover have "dom code' = dom code" using assms(1,4) unfolding code_extends_def by auto
  ultimately show ?thesis unfolding code_extends_def by blast
qed

lemma code_extends_Nil: "code_extends L s f [] code code"
  by (simp add: code_extends_def extends_by_refl proper_end_def)

lemma code_extends_keeps:
  assumes "code_extends L s f qs code code'" "code b = Some c" "proper_end L c"
  shows "\<exists>c'. code' b = Some c' \<and> subseq c c' \<and> last c' = last c \<and> proper_end L c'"
proof -
  have ext: "extends_by (map f (filter (\<lambda>q. producerBlock L s q = b) qs)) c (the (code' b))"
    using assms unfolding code_extends_def by blast
  moreover obtain c' where "code' b = Some c'" using assms(1,2) unfolding code_extends_def by blast
  ultimately show ?thesis using extends_proper_end[OF ext assms(3)] by (auto simp: extends_by_def)
qed

lemma insertPops_extends:
  assumes "\<forall>q \<in> set qs. \<exists>c. code (producerBlock L s q) = Some c \<and> proper_end L c"
  shows "\<exists>code'. insertPops L s qs code = Inr code' \<and> code_extends L s PopQueue qs code code' \<and>
    (\<forall>q \<in> set qs. \<forall>x \<in> set (the (code (producerBlock L s q))). \<not> phiClone L x \<longrightarrow>
       subseq [PopQueue q, x] (the (code' (producerBlock L s q))))"
  using assms
proof (induction qs arbitrary: code)
  case Nil
  then show ?case by (simp add: code_extends_Nil)
next
  case (Cons q qs)
  let ?b = "producerBlock L s q"
  obtain c where c: "code ?b = Some c" "proper_end L c" using Cons.prems by auto
  let ?c = "insertFirst L (PopQueue q) c"
  note ext = insertFirst_extends(1)[OF c(2), of "PopQueue q"]
  have "\<exists>d. (code(?b \<mapsto> ?c)) (producerBlock L s q') = Some d \<and> proper_end L d" if "q' \<in> set qs" for q'
    using Cons.prems that extends_proper_end[OF ext c(2)] by auto
  then obtain code' where code': "insertPops L s qs (code(?b \<mapsto> ?c)) = Inr code'"
    "code_extends L s PopQueue qs (code(?b \<mapsto> ?c)) code'"
    "\<forall>q' \<in> set qs. \<forall>x \<in> set (the ((code(?b \<mapsto> ?c)) (producerBlock L s q'))). \<not> phiClone L x \<longrightarrow>
       subseq [PopQueue q', x] (the (code' (producerBlock L s q')))"
    using Cons.IH[of "code(?b \<mapsto> ?c)"] by blast
  have run: "insertPops L s (q # qs) code = Inr code'"
    using code'(1) c(1) by (simp add: Let_def producerBlock_def)
  have sub: "subseq c ?c" using ext by (simp add: extends_by_def)
  obtain c' where c': "code' ?b = Some c'" "subseq ?c c'"
    using code_extends_keeps[OF code'(2), of ?b ?c] extends_proper_end[OF ext c(2)] by auto
  have first: "subseq [PopQueue q, x] (the (code' ?b))" if "x \<in> set c" "\<not> phiClone L x" for x
    using insertFirst_extends(2)[OF c(2) that, of "PopQueue q"] c' subseq_order.trans by fastforce
  have "subseq [PopQueue q', x] (the (code' (producerBlock L s q')))"
    if q': "q' \<in> set qs" and x: "x \<in> set (the (code (producerBlock L s q')))" "\<not> phiClone L x" for q' x
  proof -
    have "x \<in> set (the ((code(?b \<mapsto> ?c)) (producerBlock L s q')))"
      using x(1) c(1) sub by (cases "producerBlock L s q' = ?b") (auto dest: subseq_member)
    then show ?thesis using code'(3) q' x(2) by blast
  qed
  then show ?case using run code_extends_step[OF c ext code'(2)] first c(1) by auto
qed

lemma extends_by_Cons: "extends_by ops c c' \<Longrightarrow> c \<noteq> [] \<Longrightarrow> extends_by ops (i # c) (i # c')"
  by (auto simp: extends_by_def)

lemma insertAfter_extends:
  assumes "Clone p \<in> set c" "Clone p \<noteq> last c" "proper_end L c"
  shows "\<exists>c'. insertAfter L p new c = Some c' \<and> extends_by [new] c c' \<and> subseq [Clone p, new] c'"
  using assms
proof (induction c)
  case (Cons i c)
  then have "c \<noteq> []" by auto
  then have tail: "proper_end L c" "last (i # c) = last c" using Cons.prems(3) by (auto simp: proper_end_def)
  show ?case
  proof (cases "i = Clone p")
    case True
    obtain n rest where c: "c = n # rest" using \<open>c \<noteq> []\<close> by (cases c) auto
    let ?c = "if phiClone L n then insertFirst L new c else new # c"
    have "insertAfter L p new (i # c) = Some (i # ?c)" using True c by simp
    moreover have "extends_by [new] c ?c"
      using insertFirst_extends(1)[OF tail(1), of new] \<open>c \<noteq> []\<close> by (auto simp: extends_by_def)
    then have "extends_by [new] (i # c) (i # ?c)" using \<open>c \<noteq> []\<close> by (rule extends_by_Cons)
    moreover have "new \<in> set ?c" by (simp add: insertFirst_def)
    then have "subseq [Clone p, new] (i # ?c)" using True by (simp add: subseq_singleton_left)
    ultimately show ?thesis by blast
  next
    case False
    then obtain c' where c': "insertAfter L p new c = Some c'" "extends_by [new] c c'" "subseq [Clone p, new] c'"
      using Cons.IH[OF _ _ tail(1)] Cons.prems(1,2) tail(2) by auto
    have "extends_by [new] (i # c) (i # c')" using c'(2) \<open>c \<noteq> []\<close> by (rule extends_by_Cons)
    then show ?thesis using False c' by auto
  qed
qed simp

lemma insertPushes_extends:
  assumes "\<forall>q \<in> set qs. \<exists>c. code (producerBlock L s q) = Some c \<and> proper_end L c \<and>
      Clone (queueProducer (queues s ! q)) \<in> set c \<and> Clone (queueProducer (queues s ! q)) \<noteq> last c"
  shows "\<exists>code'. insertPushes L s qs code = Inr code' \<and> code_extends L s PushQueue qs code code' \<and>
    (\<forall>q \<in> set qs. subseq [Clone (queueProducer (queues s ! q)), PushQueue q] (the (code' (producerBlock L s q))))"
  using assms
proof (induction qs arbitrary: code)
  case Nil
  then show ?case by (simp add: code_extends_Nil)
next
  case (Cons q qs)
  let ?b = "producerBlock L s q" and ?p = "queueProducer (queues s ! q)"
  obtain c where c: "code ?b = Some c" "proper_end L c" "Clone ?p \<in> set c" "Clone ?p \<noteq> last c"
    using Cons.prems by auto
  obtain d where d: "insertAfter L ?p (PushQueue q) c = Some d" "extends_by [PushQueue q] c d"
    "subseq [Clone ?p, PushQueue q] d"
    using insertAfter_extends[OF c(3,4,2)] by blast
  have sub: "subseq c d" "last d = last c" using d(2) by (simp_all add: extends_by_def)
  have "\<exists>e. (code(?b \<mapsto> d)) (producerBlock L s q') = Some e \<and> proper_end L e \<and>
      Clone (queueProducer (queues s ! q')) \<in> set e \<and> Clone (queueProducer (queues s ! q')) \<noteq> last e"
    if q': "q' \<in> set qs" for q'
  proof -
    obtain e where "code (producerBlock L s q') = Some e" "proper_end L e"
      "Clone (queueProducer (queues s ! q')) \<in> set e" "Clone (queueProducer (queues s ! q')) \<noteq> last e"
      using bspec[OF Cons.prems, of q'] q' by auto
    then show ?thesis using extends_proper_end[OF d(2) c(2)] c(1) sub
      by (cases "producerBlock L s q' = ?b") (auto dest: subseq_member)
  qed
  then obtain code' where code': "insertPushes L s qs (code(?b \<mapsto> d)) = Inr code'"
    "code_extends L s PushQueue qs (code(?b \<mapsto> d)) code'"
    "\<forall>q' \<in> set qs. subseq [Clone (queueProducer (queues s ! q')), PushQueue q'] (the (code' (producerBlock L s q')))"
    using Cons.IH[of "code(?b \<mapsto> d)"] by blast
  have "insertPushes L s (q # qs) code = Inr code'"
    using code'(1) c(1) d(1) by (simp add: Let_def producerBlock_def)
  moreover obtain c' where c': "code' ?b = Some c'" "subseq d c'"
    using code_extends_keeps[OF code'(2), of ?b d] extends_proper_end[OF d(2) c(2)] by auto
  then have "subseq [Clone ?p, PushQueue q] (the (code' ?b))" using d(3) subseq_order.trans by fastforce
  ultimately show ?case using code_extends_step[where f = PushQueue, OF c(1,2) d(2) code'(2)] code'(3) by auto
qed

lemma branched_proper_end:
  assumes "wf_loop L" "b \<in> set (loopBlocks L)"
  shows "proper_end L (branched L insts b)"
proof -
  have t: "\<not> isPHI L (terminatorOf L b)" using assms by (simp add: wf_loop_def)
  have "last (ownCode L insts b) = Clone (terminatorOf L b) \<and> ownCode L insts b \<noteq> []" if "terminatorOf L b \<in> insts"
    unfolding ownCode_def by (subst (1 2) block_split[OF assms]) (simp add: that)
  then show ?thesis using t by (simp add: proper_end_def branched_def phiClone_def)
qed

lemma branched_last:
  assumes "wf_loop L" "b \<in> set (loopBlocks L)" "\<not> isTerminator L p"
  shows "Clone p \<noteq> last (branched L insts b)"
proof
  assume "Clone p = last (branched L insts b)"
  from this[symmetric] show False
    using branched_terminator[OF assms(1,2), of insts] assms(3) by (simp add: getTerminator_def)
qed

lemma count_queue_ops:
  assumes "distinct qs" "inj f"
  shows "count_list (map f (filter P qs)) (f q) = (if q \<in> set qs \<and> P q then 1 else 0)"
  using assms(1) by (induction qs) (auto simp: inj_eq[OF assms(2)])

lemma count_other_ops: "x \<notin> range f \<Longrightarrow> count_list (map f qs) x = 0"
  by (intro count_notin) auto

text \<open>
  The queues of a stage: the values it pops are produced in blocks it keeps, those it pushes by its own
  instructions.
\<close>

definition stage_queues ::
    "loop_blocks \<Rightarrow> nat set \<Rightarrow> queue_state \<Rightarrow> nat \<Rightarrow> bool" where
  "stage_queues L insts s i \<longleftrightarrow>
     finite (popValueQueues s i) \<and> finite (pushValueQueues s i) \<and>
     (\<forall>q \<in> popValueQueues s i. producerBlock L s q \<in> set (loopBlocks L) \<and> reachable_block L (producerBlock L s q) \<and>
        controlled_by L insts (producerBlock L s q)) \<and>
     (\<forall>q \<in> pushValueQueues s i. queueProducer (queues s ! q) \<in> insts \<and> reachable_block L (producerBlock L s q) \<and>
        \<not> isTerminator L (queueProducer (queues s ! q)))"

text \<open>The block \<open>b\<close> of a stage: its own code with one pop and one push for each queue of a value of the block.\<close>

definition queue_block :: "loop_blocks \<Rightarrow> nat set \<Rightarrow> queue_state \<Rightarrow> nat \<Rightarrow> nat \<Rightarrow> task_inst list \<Rightarrow> bool" where
  "queue_block L insts s i b c \<longleftrightarrow>
     subseq (branched L insts b) c \<and> last c = last (branched L insts b) \<and>
     (\<forall>q. count_list c (PopQueue q) = (if q \<in> popValueQueues s i \<and> producerBlock L s q = b then 1 else 0)) \<and>
     (\<forall>q. count_list c (PushQueue q) = (if q \<in> pushValueQueues s i \<and> producerBlock L s q = b then 1 else 0))"

lemma code_extends_None: "code_extends L s f qs code code' \<Longrightarrow> code' b = None \<longleftrightarrow> code b = None"
  unfolding code_extends_def by (metis domIff)

text \<open>The blocks of the producers, before the pops and pushes.\<close>

lemma popped_block:
  assumes "wf_loop L" "wf_postdom L" "stage_region L insts W" "stage_queues L insts s i" "q \<in> popValueQueues s i"
    and "\<forall>b \<in> set (loopBlocks L). code b = (if b \<in> W \<or> terminatorOf L b \<in> insts then Some (branched L insts b) else None)"
  shows "producerBlock L s q \<in> set (loopBlocks L) \<and>
    code (producerBlock L s q) = Some (branched L insts (producerBlock L s q))"
  using region_keeps[OF assms(1-3)] assms(4-6) by (simp add: stage_queues_def)

lemma pushed_block:
  assumes "wf_loop L" "wf_postdom L" "stage_region L insts W" "stage_queues L insts s i" "q \<in> pushValueQueues s i"
    and "\<forall>b \<in> set (loopBlocks L). code b = (if b \<in> W \<or> terminatorOf L b \<in> insts then Some (branched L insts b) else None)"
    and "branches_closed L insts"
  shows "producerBlock L s q \<in> set (loopBlocks L) \<and>
    code (producerBlock L s q) = Some (branched L insts (producerBlock L s q)) \<and>
    Clone (queueProducer (queues s ! q)) \<in> set (branched L insts (producerBlock L s q)) \<and>
    Clone (queueProducer (queues s ! q)) \<noteq> last (branched L insts (producerBlock L s q))"
proof -
  let ?p = "queueProducer (queues s ! q)"
  have q: "?p \<in> insts" "reachable_block L (producerBlock L s q)" "\<not> isTerminator L ?p"
    using assms(4,5) unfolding stage_queues_def by blast+
  then have p: "producerBlock L s q \<in> set (loopBlocks L)" "?p \<in> set (blockInsts L (producerBlock L s q))"
    "controlled_by L insts (producerBlock L s q)"
    using assms(7) unfolding branches_closed_def producerBlock_def by blast+
  then show ?thesis
    using region_keeps[OF assms(1-3) p(3) q(2)] assms(6) q(1) branched_last[OF assms(1) p(1) q(3)]
    by (simp add: branched_def ownCode_def)
qed

text \<open>Both passes together.\<close>

lemma two_passes:
  assumes "code_extends L s PopQueue pops code code1" "code_extends L s PushQueue pushes code1 code2"
    and "code b = Some c" "proper_end L c"
  shows "\<exists>c1 c2. code1 b = Some c1 \<and> code2 b = Some c2 \<and> subseq c1 c2 \<and>
    extends_by (map PopQueue (filter (\<lambda>q. producerBlock L s q = b) pops) @
                map PushQueue (filter (\<lambda>q. producerBlock L s q = b) pushes)) c c2"
proof -
  obtain c1 where c1: "code1 b = Some c1" "proper_end L c1" using code_extends_keeps[OF assms(1,3,4)] by blast
  obtain c2 where c2: "code2 b = Some c2" "subseq c1 c2" using code_extends_keeps[OF assms(2) c1] by blast
  have "extends_by (map PopQueue (filter (\<lambda>q. producerBlock L s q = b) pops)) c c1"
    using assms(1,3,4) c1(1) unfolding code_extends_def by force
  moreover have "extends_by (map PushQueue (filter (\<lambda>q. producerBlock L s q = b) pushes)) c1 c2"
    using assms(2) c1 c2(1) unfolding code_extends_def by force
  ultimately show ?thesis using c1(1) c2 extends_by_trans by blast
qed

lemma queue_block_counts:
  assumes "extends_by (map PopQueue (filter (\<lambda>q. producerBlock L s q = b) pops) @
      map PushQueue (filter (\<lambda>q. producerBlock L s q = b) pushes)) (branched L insts b) c"
    and "set pops = popValueQueues s i" "set pushes = pushValueQueues s i" "distinct pops" "distinct pushes"
  shows "queue_block L insts s i b c"
proof -
  have inj: "inj PopQueue" "inj PushQueue" by (simp_all add: inj_def)
  have pop: "count_list (branched L insts b) (PopQueue q) = 0" and push: "count_list (branched L insts b) (PushQueue q) = 0" for q
    by (intro count_notin, auto simp: branched_def ownCode_def)+
  have "count_list (map PushQueue qs) (PopQueue q) = 0" "count_list (map PopQueue qs) (PushQueue q) = 0" for qs q
    by (intro count_other_ops, auto)+
  then show ?thesis
    using assms by (simp add: queue_block_def extends_by_def pop push count_queue_ops[OF _ inj(1)] count_queue_ops[OF _ inj(2)])
qed

lemma generateStage_code:
  assumes wf: "wf_loop L" "wf_postdom L" and insts: "insts = instsOfStage L task s i"
    and closed: "branches_closed L insts" and fuel: "stageFuel L insts \<le> fuel" and ok: "stage_queues L insts s i"
  shows "\<exists>W code. generateStage L fuel s i task = Some (Inr code) \<and> stage_region L insts W \<and>
    (\<forall>b \<in> set (loopBlocks L). if b \<in> W \<or> terminatorOf L b \<in> insts
       then \<exists>c. code b = Some c \<and> queue_block L insts s i b c else code b = None) \<and>
    (\<forall>q \<in> popValueQueues s i. \<forall>x \<in> set (branched L insts (producerBlock L s q)). \<not> phiClone L x \<longrightarrow>
       subseq [PopQueue q, x] (the (code (producerBlock L s q)))) \<and>
    (\<forall>q \<in> pushValueQueues s i.
       subseq [Clone (queueProducer (queues s ! q)), PushQueue q] (the (code (producerBlock L s q))))"
proof -
  obtain W code where code: "generateLoopSubsetForStage L fuel insts = Some (Inr code)" "stage_region L insts W"
    "\<forall>b \<in> set (loopBlocks L). code b = (if b \<in> W \<or> terminatorOf L b \<in> insts then Some (branched L insts b) else None)"
    using stage_code[OF wf closed fuel] by blast
  define pops where "pops = sorted_list_of_set (popValueQueues s i)"
  define pushes where "pushes = sorted_list_of_set (pushValueQueues s i)"
  have sets: "set pops = popValueQueues s i" "set pushes = pushValueQueues s i" "distinct pops" "distinct pushes"
    using ok by (simp_all add: pops_def pushes_def stage_queues_def)
  note popped = popped_block[OF wf code(2) ok _ code(3)]
  note pushed = pushed_block[OF wf code(2) ok _ code(3) closed]
  note proper = branched_proper_end[OF wf(1)]
  have "\<forall>q \<in> set pops. \<exists>c. code (producerBlock L s q) = Some c \<and> proper_end L c"
    using popped proper sets(1) by blast
  from insertPops_extends[OF this] obtain code1 where code1: "insertPops L s pops code = Inr code1"
    "code_extends L s PopQueue pops code code1"
    "\<forall>q \<in> set pops. \<forall>x \<in> set (the (code (producerBlock L s q))). \<not> phiClone L x \<longrightarrow>
       subseq [PopQueue q, x] (the (code1 (producerBlock L s q)))"
    by blast
  have "\<exists>c. code1 (producerBlock L s q) = Some c \<and> proper_end L c \<and> Clone (queueProducer (queues s ! q)) \<in> set c \<and>
      Clone (queueProducer (queues s ! q)) \<noteq> last c" if q: "q \<in> set pushes" for q
  proof -
    note p = pushed[OF q[unfolded sets]]
    obtain c where c: "code1 (producerBlock L s q) = Some c" "subseq (branched L insts (producerBlock L s q)) c"
      "last c = last (branched L insts (producerBlock L s q))" "proper_end L c"
      using code_extends_keeps[OF code1(2)] p proper by blast
    then show ?thesis using p subseq_member by fastforce
  qed
  then obtain code2 where code2: "insertPushes L s pushes code1 = Inr code2" "code_extends L s PushQueue pushes code1 code2"
    "\<forall>q \<in> set pushes. subseq [Clone (queueProducer (queues s ! q)), PushQueue q] (the (code2 (producerBlock L s q)))"
    using insertPushes_extends[of pushes code1 L s] by blast
  have run: "generateStage L fuel s i task = Some (Inr code2)"
    using code(1) code1(1) code2(1) insts
    by (simp add: generateStage_def popValueQueuesCode_def pushValueQueuesCode_def pops_def pushes_def)
  have "if b \<in> W \<or> terminatorOf L b \<in> insts then \<exists>c. code2 b = Some c \<and> queue_block L insts s i b c else code2 b = None"
    if b: "b \<in> set (loopBlocks L)" for b
  proof (cases "b \<in> W \<or> terminatorOf L b \<in> insts")
    case True
    then have "code b = Some (branched L insts b)" using code(3) b by simp
    from two_passes[OF code1(2) code2(2) this proper[OF b]] queue_block_counts[OF _ sets]
    obtain c where "code2 b = Some c" "queue_block L insts s i b c" by blast
    then show ?thesis using True by simp
  next
    case False
    then show ?thesis using code(3) b by (simp add: code_extends_None[OF code2(2)] code_extends_None[OF code1(2)])
  qed
  moreover have "subseq [PopQueue q, x] (the (code2 (producerBlock L s q)))"
    if q: "q \<in> set pops" and x: "x \<in> set (branched L insts (producerBlock L s q))" "\<not> phiClone L x" for q x
  proof -
    note p = popped[OF q[unfolded sets]]
    obtain c1 c2 where "code1 (producerBlock L s q) = Some c1" "code2 (producerBlock L s q) = Some c2" "subseq c1 c2"
      using two_passes[OF code1(2) code2(2) conjunct2[OF p] proper] p by blast
    then show ?thesis using code1(3) q x p subseq_order.trans by fastforce
  qed
  ultimately show ?thesis using run code(2) code2(3) unfolding sets by (intro exI[of _ W] exI[of _ code2]) blast
qed

text \<open>
  C37: where a stage pops and pushes. In the code of a stage each queue it receives from is popped exactly
  once in the block of the producer, before every instruction of that block that is no PHI; each queue
  it sends to is pushed exactly once, after the producer; and no other block has a pop or push of it.
\<close>
theorem stage_queue_code:
  assumes "wf_loop L" and "wf_postdom L" and "branches_closed L (instsOfStage L task s i)"
    and "stageFuel L (instsOfStage L task s i) \<le> fuel" and "stage_queues L (instsOfStage L task s i) s i"
  shows "\<exists>code. generateStage L fuel s i task = Some (Inr code) \<and>
    (\<forall>q \<in> popValueQueues s i. \<exists>c. code (producerBlock L s q) = Some c \<and> count_list c (PopQueue q) = 1 \<and>
       (\<forall>n \<in> instsOfStage L task s i. parentBlock L n = producerBlock L s q \<and> \<not> isPHI L n \<longrightarrow>
          subseq [PopQueue q, Clone n] c)) \<and>
    (\<forall>q \<in> pushValueQueues s i. \<exists>c. code (producerBlock L s q) = Some c \<and> count_list c (PushQueue q) = 1 \<and>
       subseq [Clone (queueProducer (queues s ! q)), PushQueue q] c) \<and>
    (\<forall>b \<in> set (loopBlocks L). \<forall>c q. code b = Some c \<longrightarrow>
       (PopQueue q \<in> set c \<longrightarrow> q \<in> popValueQueues s i \<and> producerBlock L s q = b) \<and>
       (PushQueue q \<in> set c \<longrightarrow> q \<in> pushValueQueues s i \<and> producerBlock L s q = b))"
proof -
  let ?insts = "instsOfStage L task s i"
  obtain W code where code: "generateStage L fuel s i task = Some (Inr code)" "stage_region L ?insts W"
    "\<forall>b \<in> set (loopBlocks L). if b \<in> W \<or> terminatorOf L b \<in> ?insts
       then \<exists>c. code b = Some c \<and> queue_block L ?insts s i b c else code b = None"
    "\<forall>q \<in> popValueQueues s i. \<forall>x \<in> set (branched L ?insts (producerBlock L s q)). \<not> phiClone L x \<longrightarrow>
       subseq [PopQueue q, x] (the (code (producerBlock L s q)))"
    "\<forall>q \<in> pushValueQueues s i.
       subseq [Clone (queueProducer (queues s ! q)), PushQueue q] (the (code (producerBlock L s q)))"
    using generateStage_code[OF assms(1,2) refl assms(3-5)] by blast
  have block: "\<exists>c. code (producerBlock L s q) = Some c \<and> queue_block L ?insts s i (producerBlock L s q) c"
    if q: "q \<in> popValueQueues s i \<or> q \<in> pushValueQueues s i" for q
  proof -
    have b: "producerBlock L s q \<in> set (loopBlocks L)" "reachable_block L (producerBlock L s q)"
      "controlled_by L ?insts (producerBlock L s q)"
      using q assms(3,5) unfolding stage_queues_def branches_closed_def producerBlock_def by blast+
    then show ?thesis using region_keeps[OF assms(1,2) code(2) b(3,2)] code(3) by auto
  qed
  have pops: "\<exists>c. code (producerBlock L s q) = Some c \<and> count_list c (PopQueue q) = 1 \<and>
      (\<forall>n \<in> ?insts. parentBlock L n = producerBlock L s q \<and> \<not> isPHI L n \<longrightarrow> subseq [PopQueue q, Clone n] c)"
    if q: "q \<in> popValueQueues s i" for q
  proof -
    obtain c where c: "code (producerBlock L s q) = Some c" "queue_block L ?insts s i (producerBlock L s q) c"
      using block q by blast
    have "subseq [PopQueue q, Clone n] c"
      if n: "n \<in> ?insts" "parentBlock L n = producerBlock L s q" "\<not> isPHI L n" for n
    proof -
      have "n \<in> set (blockInsts L (producerBlock L s q))" using assms(3) n(1,2) unfolding branches_closed_def by metis
      then have "Clone n \<in> set (branched L ?insts (producerBlock L s q))" using n(1) by (simp add: branched_def ownCode_def)
      moreover have "\<not> phiClone L (Clone n)" using n(3) by (simp add: phiClone_def)
      ultimately show ?thesis using code(4) q c(1) by fastforce
    qed
    then show ?thesis using c q by (auto simp: queue_block_def)
  qed
  have pushes: "\<exists>c. code (producerBlock L s q) = Some c \<and> count_list c (PushQueue q) = 1 \<and>
      subseq [Clone (queueProducer (queues s ! q)), PushQueue q] c" if q: "q \<in> pushValueQueues s i" for q
    using block[of q] code(5) q by (auto simp: queue_block_def)
  have others: "(PopQueue q \<in> set c \<longrightarrow> q \<in> popValueQueues s i \<and> producerBlock L s q = b) \<and>
      (PushQueue q \<in> set c \<longrightarrow> q \<in> pushValueQueues s i \<and> producerBlock L s q = b)"
    if b: "b \<in> set (loopBlocks L)" "code b = Some c" for b c q
  proof -
    have "if b \<in> W \<or> terminatorOf L b \<in> ?insts
       then \<exists>c. code b = Some c \<and> queue_block L ?insts s i b c else code b = None" using code(3) b(1) by blast
    then have "queue_block L ?insts s i b c" using b(2) by (auto split: if_splits)
    then show ?thesis unfolding queue_block_def count_list_0_iff[symmetric] by (metis count_list_0_iff)
  qed
  show ?thesis using code(1) pops pushes others by (intro exI[of _ code]) blast
qed

section \<open>An example\<close>

text \<open>
  The loop of \<open>load_compute\<close>: the header with the induction variable, its test and the exit branch
  (component 1), the body with the load (component 2) and the computation (component 3).
\<close>

definition load_loop :: loop_blocks where
  "load_loop = \<lparr>loopBlocks = [0, 1], loopHeader = 0,
     blockInsts = (\<lambda>b. if b = 0 then [10, 11, 12] else if b = 1 then [20, 30, 32] else []),
     parentBlock = (\<lambda>i. if i < 20 then 0 else 1), isTerminator = (\<lambda>i. i = 12 \<or> i = 32), isPHI = (\<lambda>i. i = 10),
     succBlocks = (\<lambda>b. if b = 0 then [1, 9] else if b = 1 then [0] else []), exitsOfLoop = {9},
     postDominator = (\<lambda>b. if b = 0 then Some 9 else if b = 1 then Some 0 else None),
     instsOfSCC = (\<lambda>n. if n = 1 then {10, 11, 12} else if n = 2 then {20} else if n = 3 then {30} else {})\<rparr>"

definition load_tasks :: "stage list" where
  "load_tasks = [\<lparr>stageSCCs = [2], clonableSCCs = {1}\<rparr>, \<lparr>stageSCCs = [3], clonableSCCs = {1}\<rparr>]"

definition load_queues :: queue_state where
  "load_queues = \<lparr>queues = [\<lparr>queueProducer = 20, queueConsumers = {30}, fromStage = 0, toStage = 1, bitLength = 32,
                             isMemoryDependence = False\<rparr>],
     producerToQueues = (\<lambda>i p. if i = 0 \<and> p = 20 then [0] else []),
     pushValueQueues = (\<lambda>i. if i = 0 then {0} else {}), popValueQueues = (\<lambda>i. if i = 1 then {0} else {}),
     producedPopQueue = (\<lambda>i. if i = 1 then [20 \<mapsto> 0] else Map.empty)\<rparr>"

lemma load_loop_wf: "wf_loop load_loop"
  by (simp add: wf_loop_def load_loop_def terminatorOf_def)

lemma load_loop_postdom: "wf_postdom load_loop"
proof -
  have paths: "loop_path load_loop [0, 9]" "loop_path load_loop [1, 0, 9]"
    by (simp_all add: loop_path_def load_loop_def)
  have "0 \<in> set p" if "loop_path load_loop (1 # p)" "p \<noteq> []" for p
    using that by (cases p) (auto simp: loop_path_def load_loop_def)
  moreover have "p \<noteq> [] \<Longrightarrow> last p = 9 \<Longrightarrow> 9 \<in> set p" for p :: "nat list" by (metis last_in_set)
  moreover have "loopBlocks load_loop = [0, 1]" "exitsOfLoop load_loop = {9}"
    "postDominator load_loop 0 = Some 9" "postDominator load_loop 1 = Some 0" by (simp_all add: load_loop_def)
  ultimately show ?thesis using paths unfolding wf_postdom_def
    by (auto intro: exI[of _ "[9]"] exI[of _ "[0, 9]"])
qed

lemma load_loop_controlled: "12 \<in> insts \<Longrightarrow> controlled_by load_loop insts b"
proof -
  assume header: "12 \<in> insts"
  have "\<not> controls load_loop 1 b"
  proof
    assume "controls load_loop 1 b"
    then have "(1, b) \<in> (controlEdges load_loop 0)\<^sup>+" by (simp add: controls_def load_loop_def)
    then obtain y where "(1, y) \<in> controlEdges load_loop 0" by (meson tranclD)
    then show False by (auto simp: controlEdges_def load_loop_def)
  qed
  moreover have "loopBlocks load_loop = [0, 1]" "terminatorOf load_loop 0 = 12"
    by (simp_all add: load_loop_def terminatorOf_def)
  ultimately show ?thesis using header by (simp add: controlled_by_def)
qed

lemma load_insts:
  "instsOfStage load_loop (load_tasks ! 0) load_queues 0 = {10, 11, 12, 20}"
  "instsOfStage load_loop (load_tasks ! 1) load_queues 1 = {10, 11, 12, 30}"
  by (auto simp: instsOfStage_def load_loop_def load_tasks_def load_queues_def)

lemma load_closed:
  assumes "12 \<in> insts" "insts \<subseteq> {10, 11, 12, 20, 30}"
  shows "branches_closed load_loop insts"
  using assms(2) load_loop_controlled[OF assms(1)] unfolding branches_closed_def
  by (auto simp: load_loop_def terminatorOf_def assms(1))

lemma load_fuel: "12 \<in> insts \<Longrightarrow> 32 \<notin> insts \<Longrightarrow> stageFuel load_loop insts \<le> 4"
  by (simp add: stageFuel_def stageSuccs_def load_loop_def terminatorOf_def)

lemma load_reachable: "reachable_block load_loop 1"
  unfolding reachable_block_def by (rule exI[of _ "[1]"]) (simp add: loop_path_def load_loop_def)

lemma load_stage_queues:
  "stage_queues load_loop {10, 11, 12, 20} load_queues 0" "stage_queues load_loop {10, 11, 12, 30} load_queues 1"
proof -
  have "producerBlock load_loop load_queues 0 = 1" by (simp add: producerBlock_def load_queues_def load_loop_def)
  moreover have "loopBlocks load_loop = [0, 1]" "queueProducer (queues load_queues ! 0) = 20" "\<not> isTerminator load_loop 20"
    "popValueQueues load_queues 0 = {}" "popValueQueues load_queues 1 = {0}"
    "pushValueQueues load_queues 0 = {0}" "pushValueQueues load_queues 1 = {}"
    by (simp_all add: load_loop_def load_queues_def)
  ultimately show "stage_queues load_loop {10, 11, 12, 20} load_queues 0" "stage_queues load_loop {10, 11, 12, 30} load_queues 1"
    using load_reachable load_loop_controlled by (simp_all add: stage_queues_def)
qed

lemma stage_blocks_kept_witness:
  "\<exists>code. generateLoopSubsetForStage load_loop 4 {10, 11, 12, 20} = Some (Inr code) \<and> code 1 \<noteq> None"
proof -
  have closed: "branches_closed load_loop {10, 11, 12, 20}" by (rule load_closed) simp_all
  have fuel: "stageFuel load_loop {10, 11, 12, 20} \<le> 4" by (rule load_fuel) simp_all
  have "1 \<in> set (loopBlocks load_loop)" by (simp add: load_loop_def)
  moreover have "controlled_by load_loop {10, 11, 12, 20} 1" by (rule load_loop_controlled) simp
  moreover obtain code where "generateLoopSubsetForStage load_loop 4 {10, 11, 12, 20} = Some (Inr code)"
    "\<forall>b \<in> set (loopBlocks load_loop). reachable_block load_loop b \<and> controlled_by load_loop {10, 11, 12, 20} b \<longrightarrow>
       code b \<noteq> None"
    using stage_blocks_kept[OF load_loop_wf load_loop_postdom closed fuel] by (elim exE conjE) (rule that; assumption)
  ultimately show ?thesis using load_reachable by blast
qed

lemma stage_queue_code_witness:
  "\<exists>code c. generateStage load_loop 4 load_queues 1 (load_tasks ! 1) = Some (Inr code) \<and>
     code 1 = Some c \<and> count_list c (PopQueue 0) = 1 \<and> subseq [PopQueue 0, Clone 30] c"
proof -
  have closed: "branches_closed load_loop {10, 11, 12, 30}" by (rule load_closed) simp_all
  have fuel: "stageFuel load_loop {10, 11, 12, 30} \<le> 4" by (rule load_fuel) simp_all
  obtain code where code: "generateStage load_loop 4 load_queues 1 (load_tasks ! 1) = Some (Inr code)"
    "\<forall>q \<in> popValueQueues load_queues 1. \<exists>c. code (producerBlock load_loop load_queues q) = Some c \<and>
       count_list c (PopQueue q) = 1 \<and>
       (\<forall>n \<in> {10, 11, 12, 30}. parentBlock load_loop n = producerBlock load_loop load_queues q \<and> \<not> isPHI load_loop n \<longrightarrow>
          subseq [PopQueue q, Clone n] c)"
    using stage_queue_code[OF load_loop_wf load_loop_postdom, of "load_tasks ! 1" load_queues 1 4,
        unfolded load_insts, OF closed fuel load_stage_queues(2)]
    by (elim exE conjE) (rule that; assumption)
  have q: "0 \<in> popValueQueues load_queues 1" "producerBlock load_loop load_queues 0 = 1" "parentBlock load_loop 30 = 1"
    "\<not> isPHI load_loop 30" by (simp_all add: load_queues_def producerBlock_def load_loop_def)
  obtain c where "code 1 = Some c" "count_list c (PopQueue 0) = 1"
    "\<forall>n \<in> {10, 11, 12, 30}. parentBlock load_loop n = 1 \<and> \<not> isPHI load_loop n \<longrightarrow> subseq [PopQueue 0, Clone n] c"
    using bspec[OF code(2) q(1)] unfolding q(2) by (elim exE conjE) (rule that; assumption)
  then show ?thesis using code(1) q(3,4) by simp
qed

end
