(* ===== verification/Dswp_Pipeline.thy ===== *)
theory Dswp_Pipeline
  imports Dswp_Codegen
begin

text \<open>
  The execution of a DSWP pipeline: each stage runs the code generated for it on its own, with the
  outcomes of the branches it receives, and waits only for the values of its queues. A stage visits the
  blocks of its values as often and in the same order as the loop does, every value that is popped was
  pushed in the same execution of its block, and with queues that go forward no stage waits for ever.
\<close>

section \<open>Runs of the loop and of a stage\<close>

text \<open>A run of the loop: the blocks it executes, from the header to an exit.\<close>

definition complete_run :: "loop_blocks \<Rightarrow> nat list \<Rightarrow> bool" where
  "complete_run L tr \<longleftrightarrow>
     loop_path L tr \<and> tr \<noteq> [] \<and> hd tr = loopHeader L \<and> last tr \<in> exitsOfLoop L"

text \<open>The blocks a run goes to from each block, in order.\<close>

fun outcomes :: "nat list \<Rightarrow> nat \<Rightarrow> nat list" where
  "outcomes (x # y # tr) b = (if x = b then y # outcomes (y # tr) b else outcomes (y # tr) b)"
| "outcomes tr b = []"

text \<open>
  The run of a stage: the block it is in, and for each branch the outcomes still to come. \<open>None\<close>: it is
  in a block without code, a branch has no outcome, or the fuel is used up.
\<close>

fun stageRun :: "loop_blocks \<Rightarrow> task_code \<Rightarrow> nat \<Rightarrow> (nat \<Rightarrow> nat list) \<Rightarrow> nat \<Rightarrow> nat list option" where
  "stageRun L code 0 outs b = None"
| "stageRun L code (Suc fuel) outs b =
     (if b \<in> exitsOfLoop L then Some [b]
      else case code b of
        None \<Rightarrow> None
      | Some c \<Rightarrow>
          (case last c of
             Jump t \<Rightarrow> map_option ((#) b) (stageRun L code fuel outs t)
           | _ \<Rightarrow>
               (case outs b of
                  [] \<Rightarrow> None
                | t # ts \<Rightarrow> map_option ((#) b) (stageRun L code fuel (outs(b := ts)) t))))"

lemma outcomes_skip: "b \<notin> set p \<Longrightarrow> outcomes (p @ d # r) b = outcomes (d # r) b"
proof (induction p)
  case (Cons x p)
  then show ?case by (cases p) auto
qed simp

text \<open>The code that is run: that of a region of blocks.\<close>

definition runs_region :: "loop_blocks \<Rightarrow> nat set \<Rightarrow> nat set \<Rightarrow> task_code \<Rightarrow> bool" where
  "runs_region L insts W code \<longleftrightarrow>
     stage_region L insts W \<and>
     (\<forall>b \<in> W \<inter> set (loopBlocks L). \<exists>c. code b = Some c \<and> last c = last (branched L insts b))"

lemma loop_path_prefix: "loop_path L (p @ q) \<Longrightarrow> loop_path L p"
  by (cases "q = []") (auto simp: loop_path_def successively_append_iff butlast_append dest: in_set_butlastD)

lemma controlled_on_path:
  assumes "loop_path L (v # p @ [d])" "set (v # p) \<subseteq> set (loopBlocks L)" "d \<notin> set p" "postDominator L v = Some d"
    and "x \<in> set p"
  shows "controls L v x"
proof -
  obtain p1 p2 where p: "p = p1 @ x # p2" using assms(5) by (meson split_list)
  have "loop_path L (v # p1 @ [x])"
    using loop_path_prefix[of L "v # p1 @ [x]" "p2 @ [d]"] assms(1) p by simp
  then have "(v, last (p1 @ [x])) \<in> (controlEdges L d)\<^sup>+"
    by (rule path_avoiding) (use assms(2,3) p in auto)
  then show ?thesis using assms(4) by (simp add: controls_def)
qed

lemma last_branched_own:
  assumes "wf_loop L" "b \<in> set (loopBlocks L)" "terminatorOf L b \<in> insts"
  shows "last (branched L insts b) = Clone (terminatorOf L b)"
  using assms(3) unfolding branched_def ownCode_def by (subst block_split[OF assms(1,2)]) simp

text \<open>
  The run of a stage from a position of a run of the loop: the positions it visits, among them all
  those of blocks whose branches the stage has.
\<close>

definition follows :: "loop_blocks \<Rightarrow> nat set \<Rightarrow> nat list \<Rightarrow> nat list \<Rightarrow> bool" where
  "follows L insts tr idx \<longleftrightarrow>
     idx \<noteq> [] \<and> sorted_wrt (<) idx \<and> set idx \<subseteq> {..<length tr} \<and> last idx = length tr - 1 \<and>
     (\<forall>j < length tr. tr ! j \<in> set (loopBlocks L) \<and> controlled_by L insts (tr ! j) \<longrightarrow> j \<in> set idx)"

lemma follows_later:
  assumes "follows L insts (d # r) idx" "\<forall>x \<in> set p. \<not> controlled_by L insts x"
  shows "follows L insts (v # p @ d # r) (0 # map ((+) (Suc (length p))) idx)"
proof -
  let ?k = "Suc (length p)"
  have nth: "(v # p @ d # r) ! j = (if j = 0 then v else if j < ?k then p ! (j - 1) else (d # r) ! (j - ?k))" for j
    by (auto simp: nth_Cons nth_append split: nat.splits)
  have "j \<in> set (0 # map ((+) ?k) idx)"
    if j: "j < length (v # p @ d # r)" "(v # p @ d # r) ! j \<in> set (loopBlocks L)" "controlled_by L insts ((v # p @ d # r) ! j)" for j
  proof (cases "j = 0")
    case False
    have "\<not> j < ?k" using j(3) False assms(2) nth_mem[of "j - 1" p] by (auto simp: nth)
    then obtain m where m: "j = ?k + m" using le_Suc_ex not_less by blast
    then have "m \<in> set idx" using j assms(1) nth[of j] unfolding follows_def by simp
    then show ?thesis using m by auto
  qed simp
  then show ?thesis using assms(1) unfolding follows_def by (auto simp: sorted_wrt_map last_map)
qed

lemma follows_next:
  assumes "follows L insts (d # r) idx"
  shows "follows L insts (v # d # r) (0 # map Suc idx)"
  using follows_later[of L insts d r idx "[]" v] assms
  by (simp add: plus_1_eq_Suc[unfolded One_nat_def])

text \<open>The branches of a stage have their outcomes, also past what it jumps over.\<close>

definition has_outcomes :: "loop_blocks \<Rightarrow> nat set \<Rightarrow> nat list \<Rightarrow> (nat \<Rightarrow> nat list) \<Rightarrow> bool" where
  "has_outcomes L insts tr outs \<longleftrightarrow>
     (\<forall>b \<in> set (loopBlocks L). terminatorOf L b \<in> insts \<longrightarrow> outs b = outcomes tr b)"

lemma branch_controlled:
  assumes "wf_loop L" "branches_closed L insts" "b \<in> set (loopBlocks L)" "terminatorOf L b \<in> insts"
  shows "controlled_by L insts b"
proof -
  have "parentBlock L (terminatorOf L b) = b"
    using assms(1,3) unfolding wf_loop_def terminatorOf_def by (meson last_in_set)
  then show ?thesis using assms(2,4) unfolding branches_closed_def by metis
qed

lemma stage_follows:
  assumes wf: "wf_loop L" "wf_postdom L" and closed: "branches_closed L insts" and region: "runs_region L insts W code"
    and "loop_path L tr" "tr \<noteq> []" "last tr \<in> exitsOfLoop L" "hd tr \<in> W" "has_outcomes L insts tr outs" "length tr \<le> fuel"
  shows "\<exists>idx. stageRun L code fuel outs (hd tr) = Some (map ((!) tr) idx) \<and> follows L insts tr idx"
  using assms(5-)
proof (induction tr arbitrary: outs fuel rule: length_induct)
  case (1 tr)
  obtain v bs where tr: "tr = v # bs" using 1(3) by (cases tr) auto
  obtain f where f: "fuel = Suc f" using 1(7) tr by (cases fuel) auto
  have disj: "b \<notin> exitsOfLoop L" if "b \<in> set (loopBlocks L)" for b using that wf(1) by (auto simp: wf_loop_def)
  show ?case
  proof (cases "bs = []")
    case True
    then have "v \<in> exitsOfLoop L" using 1(4) tr by simp
    then show ?thesis using tr True f disj by (intro exI[of _ "[0]"]) (auto simp: follows_def)
  next
    case False
    have v: "v \<in> set (loopBlocks L)" using 1(2) tr False by (simp add: loop_path_def)
    have "v \<in> W" using 1(5) tr by simp
    then obtain c where c: "code v = Some c" "last c = last (branched L insts v)"
      using region v unfolding runs_region_def by blast
    have succs: "set (stageSuccs L insts v) \<subseteq> W"
      using region_succs[OF _ \<open>v \<in> W\<close> v] region by (simp add: runs_region_def)
    show ?thesis
    proof (cases "terminatorOf L v \<in> insts")
      case True
      obtain x r where bs: "bs = x # r" using False by (cases bs) auto
      have x: "x \<in> W" using succs True 1(2) tr bs by (auto simp: stageSuccs_def loop_path_def)
      have outs: "outs v = x # outcomes bs v" using 1(6) v True tr bs by (simp add: has_outcomes_def)
      have path: "loop_path L bs" using loop_path_suffix[of L "[v]" bs] 1(2) tr False by simp
      have outs': "has_outcomes L insts bs (outs(v := outcomes bs v))"
        using 1(6) tr bs by (auto simp: has_outcomes_def)
      obtain idx where idx: "stageRun L code f (outs(v := outcomes bs v)) x = Some (map ((!) bs) idx)" "follows L insts bs idx"
        using 1(1)[rule_format, of bs "outs(v := outcomes bs v)" f] path 1(4,7) x outs' tr bs f by auto
      have "stageRun L code fuel outs v = Some (v # map ((!) bs) idx)"
        using c disj[OF v] outs idx(1) last_branched_own[OF wf(1) v True] by (simp add: f)
      then show ?thesis using follows_next[of L insts x r idx v] idx(2) tr bs
        by (intro exI[of _ "0 # map Suc idx"]) simp
    next
      case own: False
      obtain d where d: "postDominator L v = Some d" "d \<in> set bs"
        using wf(2) v 1(2,4) False tr unfolding wf_postdom_def by fastforce
      obtain p r where bs: "bs = p @ d # r" "d \<notin> set p" using split_list_first[OF d(2)] by blast
      have path: "loop_path L (d # r)" using loop_path_suffix[of L "v # p" "d # r"] 1(2) tr bs by simp
      have inside: "set (v # p) \<subseteq> set (loopBlocks L)"
        using 1(2) tr bs by (auto simp: loop_path_def butlast_append)
      have "loop_path L (v # p @ [d])" using loop_path_prefix[of L "v # p @ [d]" r] 1(2) tr bs by simp
      note ctrl = controlled_on_path[OF this inside bs(2) d(1)]
      then have skipped: "\<forall>x \<in> set p. \<not> controlled_by L insts x"
        using own v by (auto simp: controlled_by_def)
      have "has_outcomes L insts (d # r) outs"
        unfolding has_outcomes_def
      proof (intro ballI impI)
        fix b assume b: "b \<in> set (loopBlocks L)" "terminatorOf L b \<in> insts"
        have "b \<notin> set (v # p)" using branch_controlled[OF wf(1) closed b] skipped b(2) own by auto
        then show "outs b = outcomes (d # r) b"
          using outcomes_skip[of b "v # p" d r] 1(6) b tr bs by (simp add: has_outcomes_def)
      qed
      moreover have "d \<in> W" using succs own d(1) by (simp add: stageSuccs_def)
      ultimately obtain idx where idx: "stageRun L code f outs d = Some (map ((!) (d # r)) idx)" "follows L insts (d # r) idx"
        using 1(1)[rule_format, of "d # r" outs f] path 1(4,7) tr bs f by auto
      have "stageRun L code fuel outs v = Some (v # map ((!) (d # r)) idx)"
        using c disj[OF v] idx(1) own d(1) by (simp add: f branched_def)
      moreover have "(v # p @ d # r) ! (Suc (length p) + m) = (d # r) ! m" for m by (simp add: nth_append)
      ultimately show ?thesis using follows_later[OF idx(2) skipped, of v] tr bs
        by (intro exI[of _ "0 # map ((+) (Suc (length p))) idx"]) (simp del: nth_Cons_Suc add: comp_def)
    qed
  qed
qed

section \<open>Stages that run side by side\<close>

text \<open>
  A stage at run time: the pushes and pops it still has to do, in order, each with its position in the
  run of the loop. What is pushed is the value of that position. A queue holds \<open>cap\<close> values: a push
  waits while it is full, a pop while it is empty.
\<close>

record pipe_state =
  pc :: "nat \<Rightarrow> nat"
  buffers :: "nat \<Rightarrow> nat list"

definition pipe_start :: pipe_state where
  "pipe_start = \<lparr>pc = (\<lambda>_. 0), buffers = (\<lambda>_. [])\<rparr>"

inductive pipe_step ::
    "(nat \<Rightarrow> (nat \<times> task_inst) list) \<Rightarrow> nat \<Rightarrow> nat \<Rightarrow> pipe_state \<Rightarrow> pipe_state \<Rightarrow> bool" for evs n cap where
  push: "i < n \<Longrightarrow> pc st i < length (evs i) \<Longrightarrow> evs i ! pc st i = (j, PushQueue q) \<Longrightarrow> length (buffers st q) < cap \<Longrightarrow>
    pipe_step evs n cap st
      (st\<lparr>pc := (pc st)(i := Suc (pc st i)), buffers := (buffers st)(q := buffers st q @ [j])\<rparr>)"
| pop: "i < n \<Longrightarrow> pc st i < length (evs i) \<Longrightarrow> evs i ! pc st i = (j, PopQueue q) \<Longrightarrow> buffers st q = v # rest \<Longrightarrow>
    pipe_step evs n cap st (st\<lparr>pc := (pc st)(i := Suc (pc st i)), buffers := (buffers st)(q := rest)\<rparr>)"

definition finished :: "(nat \<Rightarrow> (nat \<times> task_inst) list) \<Rightarrow> nat \<Rightarrow> pipe_state \<Rightarrow> bool" where
  "finished evs n st \<longleftrightarrow> (\<forall>i < n. pc st i = length (evs i))"

definition tagsOf :: "task_inst \<Rightarrow> (nat \<times> task_inst) list \<Rightarrow> nat list" where
  "tagsOf x es = map fst (filter (\<lambda>e. snd e = x) es)"

text \<open>
  The pushes and pops of a queue match: they are at the same positions, each one once, the pushes in one
  stage, the pops in a later one.
\<close>

definition matched ::
    "(nat \<Rightarrow> (nat \<times> task_inst) list) \<Rightarrow> nat \<Rightarrow> (nat \<Rightarrow> nat) \<Rightarrow> (nat \<Rightarrow> nat) \<Rightarrow> (nat \<Rightarrow> nat list) \<Rightarrow> bool" where
  "matched evs n src dst tags \<longleftrightarrow>
     (\<forall>i < n. sorted (map fst (evs i)) \<and> (\<forall>e \<in> set (evs i). \<exists>q. snd e = PushQueue q \<or> snd e = PopQueue q)) \<and>
     (\<forall>i < n. \<forall>q. tagsOf (PushQueue q) (evs i) = (if i = src q then tags q else []) \<and>
        tagsOf (PopQueue q) (evs i) = (if i = dst q then tags q else [])) \<and>
     (\<forall>q. sorted_wrt (<) (tags q) \<and> (tags q \<noteq> [] \<longrightarrow> src q < dst q \<and> dst q < n))"

text \<open>How many pushes or pops of a queue a stage has done.\<close>

definition passed :: "(nat \<Rightarrow> (nat \<times> task_inst) list) \<Rightarrow> pipe_state \<Rightarrow> nat \<Rightarrow> task_inst \<Rightarrow> nat" where
  "passed evs st i x = length (tagsOf x (take (pc st i) (evs i)))"

definition pipe_inv ::
    "(nat \<Rightarrow> (nat \<times> task_inst) list) \<Rightarrow> nat \<Rightarrow> (nat \<Rightarrow> nat) \<Rightarrow> (nat \<Rightarrow> nat) \<Rightarrow> (nat \<Rightarrow> nat list) \<Rightarrow> pipe_state \<Rightarrow> bool" where
  "pipe_inv evs n src dst tags st \<longleftrightarrow>
     (\<forall>i < n. pc st i \<le> length (evs i)) \<and>
     (\<forall>q. tags q = [] \<longrightarrow> buffers st q = []) \<and>
     (\<forall>q. tags q \<noteq> [] \<longrightarrow> passed evs st (dst q) (PopQueue q) \<le> passed evs st (src q) (PushQueue q) \<and>
        buffers st q = drop (passed evs st (dst q) (PopQueue q)) (take (passed evs st (src q) (PushQueue q)) (tags q)))"

lemma tagsOf_append: "tagsOf x (es @ fs) = tagsOf x es @ tagsOf x fs"
  by (simp add: tagsOf_def)

lemma tagsOf_split: "tagsOf x es = tagsOf x (take k es) @ tagsOf x (drop k es)"
  by (simp flip: tagsOf_append)

lemma tagsOf_Suc:
  "k < length es \<Longrightarrow> tagsOf x (take (Suc k) es) = tagsOf x (take k es) @ (if snd (es ! k) = x then [fst (es ! k)] else [])"
  by (simp add: take_Suc_conv_app_nth tagsOf_append) (simp add: tagsOf_def)

lemma tagsOf_nth:
  assumes "k < length es" "es ! k = (j, x)"
  shows "length (tagsOf x (take k es)) < length (tagsOf x es)" and "tagsOf x es ! length (tagsOf x (take k es)) = j"
proof -
  have "tagsOf x es = tagsOf x (take (Suc k) es) @ tagsOf x (drop (Suc k) es)" by (rule tagsOf_split)
  then have "tagsOf x es = tagsOf x (take k es) @ j # tagsOf x (drop (Suc k) es)"
    using assms by (simp add: tagsOf_Suc)
  then show "length (tagsOf x (take k es)) < length (tagsOf x es)" "tagsOf x es ! length (tagsOf x (take k es)) = j"
    by (simp_all add: nth_append)
qed

lemma next_tag:
  assumes "sorted (map fst es)" "length (tagsOf x (take k es)) < length (tagsOf x es)"
  shows "k < length es \<and> fst (es ! k) \<le> tagsOf x es ! length (tagsOf x (take k es))"
proof -
  have ne: "tagsOf x (drop k es) \<noteq> []" using assms(2) tagsOf_split[of x es k] by auto
  then have k: "k < length es" by (cases "k < length es") (simp_all add: tagsOf_def)
  have "tagsOf x es ! length (tagsOf x (take k es)) = hd (tagsOf x (drop k es))"
    using ne tagsOf_split[of x es k] by (metis hd_conv_nth nth_append_length_plus add_0_right)
  moreover have "hd (tagsOf x (drop k es)) \<in> set (map fst (drop k es))"
    using hd_in_set[OF ne] by (auto simp: tagsOf_def)
  moreover have "drop k es = es ! k # drop (Suc k) es" using k by (rule Cons_nth_drop_Suc[symmetric])
  moreover have "sorted (map fst (drop k es))" using assms(1) by (simp add: drop_map[symmetric] sorted_wrt_drop)
  ultimately show ?thesis using k by auto
qed

lemma passed_step:
  assumes "pc st i < length (evs i)" "evs i ! pc st i = (j, x)" "pc st' = (pc st)(i := Suc (pc st i))"
  shows "passed evs st' k y = passed evs st k y + (if k = i \<and> y = x then 1 else 0)"
  using assms by (auto simp: passed_def tagsOf_Suc)

lemma drop_take_snoc: "a \<le> b \<Longrightarrow> b < length xs \<Longrightarrow> drop a (take (Suc b) xs) = drop a (take b xs) @ [xs ! b]"
  by (simp add: take_Suc_conv_app_nth)

lemma drop_take_Cons:
  assumes "drop a (take b xs) = v # rest"
  shows "a < b \<and> a < length xs \<and> v = xs ! a \<and> rest = drop (Suc a) (take b xs)"
proof -
  have "a < length (take b xs)" using assms by (metis drop_all linorder_not_less list.distinct(1))
  then show ?thesis using assms Cons_nth_drop_Suc[of a "take b xs"] by auto
qed

text \<open>The queue of an event, with what the two stages have done of it.\<close>

lemma push_event:
  assumes "matched evs n src dst tags" "i < n" "pc st i < length (evs i)" "evs i ! pc st i = (j, PushQueue q)"
  shows "i = src q" "tags q \<noteq> []" "passed evs st (src q) (PushQueue q) < length (tags q)"
    "tags q ! passed evs st (src q) (PushQueue q) = j"
proof -
  note nth = tagsOf_nth[OF assms(3,4)]
  have "tagsOf (PushQueue q) (evs i) = (if i = src q then tags q else [])" using assms(1,2) by (simp add: matched_def)
  moreover have "tagsOf (PushQueue q) (evs i) \<noteq> []" using nth(1) by auto
  ultimately show "i = src q" "tags q \<noteq> []" "passed evs st (src q) (PushQueue q) < length (tags q)"
    "tags q ! passed evs st (src q) (PushQueue q) = j"
    using nth by (auto simp: passed_def split: if_splits)
qed

lemma pop_event:
  assumes "matched evs n src dst tags" "i < n" "pc st i < length (evs i)" "evs i ! pc st i = (j, PopQueue q)"
  shows "i = dst q" "tags q \<noteq> []" "passed evs st (dst q) (PopQueue q) < length (tags q)"
    "tags q ! passed evs st (dst q) (PopQueue q) = j"
proof -
  note nth = tagsOf_nth[OF assms(3,4)]
  have "tagsOf (PopQueue q) (evs i) = (if i = dst q then tags q else [])" using assms(1,2) by (simp add: matched_def)
  moreover have "tagsOf (PopQueue q) (evs i) \<noteq> []" using nth(1) by auto
  ultimately show "i = dst q" "tags q \<noteq> []" "passed evs st (dst q) (PopQueue q) < length (tags q)"
    "tags q ! passed evs st (dst q) (PopQueue q) = j"
    using nth by (auto simp: passed_def split: if_splits)
qed

lemma pipe_inv_start: "pipe_inv evs n src dst tags pipe_start"
  by (simp add: pipe_inv_def pipe_start_def passed_def tagsOf_def)

lemma pipe_inv_step:
  assumes m: "matched evs n src dst tags" and inv: "pipe_inv evs n src dst tags st" and step: "pipe_step evs n cap st st'"
  shows "pipe_inv evs n src dst tags st'"
  using step
proof cases
  case (push i j q)
  note ev = push_event[OF m push(2-4)]
  have ts: "passed evs st' k y = passed evs st k y + (if k = i \<and> y = PushQueue q then 1 else 0)" for k y
    using passed_step[where evs = evs and st = st, OF push(3,4)] by (simp add: push(1))
  have bf: "buffers st' = (buffers st)(q := buffers st q @ [j])" by (simp add: push(1))
  show ?thesis unfolding pipe_inv_def
  proof (intro conjI allI impI)
    fix k assume "k < n"
    then show "pc st' k \<le> length (evs k)" using inv push(1,3) by (auto simp: pipe_inv_def)
  next
    fix p assume "tags p = []"
    then show "buffers st' p = []" using inv ev(2) push(1) by (auto simp: pipe_inv_def)
  next
    fix p assume p: "tags p \<noteq> []"
    show "passed evs st' (dst p) (PopQueue p) \<le> passed evs st' (src p) (PushQueue p)"
      using inv p by (auto simp: pipe_inv_def ts intro: le_SucI)
    show "buffers st' p = drop (passed evs st' (dst p) (PopQueue p)) (take (passed evs st' (src p) (PushQueue p)) (tags p))"
      using inv p ev by (cases "p = q") (auto simp: pipe_inv_def ts bf drop_take_snoc)
  qed
next
  case (pop i j q v rest)
  note ev = pop_event[OF m pop(2-4)]
  have ts: "passed evs st' k y = passed evs st k y + (if k = i \<and> y = PopQueue q then 1 else 0)" for k y
    using passed_step[where evs = evs and st = st, OF pop(3,4)] by (simp add: pop(1))
  have head: "drop (passed evs st (dst q) (PopQueue q)) (take (passed evs st (src q) (PushQueue q)) (tags q)) = v # rest"
    using inv ev(2) pop(5) by (simp add: pipe_inv_def)
  note head = drop_take_Cons[OF head]
  have bf: "buffers st' = (buffers st)(q := rest)" by (simp add: pop(1))
  show ?thesis unfolding pipe_inv_def
  proof (intro conjI allI impI)
    fix k assume "k < n"
    then show "pc st' k \<le> length (evs k)" using inv pop(1,3) by (auto simp: pipe_inv_def)
  next
    fix p assume "tags p = []"
    then show "buffers st' p = []" using inv ev(2) pop(1) by (auto simp: pipe_inv_def)
  next
    fix p assume p: "tags p \<noteq> []"
    show "passed evs st' (dst p) (PopQueue p) \<le> passed evs st' (src p) (PushQueue p)"
      using inv p head ev(1) by (cases "p = q") (auto simp: pipe_inv_def ts)
    show "buffers st' p = drop (passed evs st' (dst p) (PopQueue p)) (take (passed evs st' (src p) (PushQueue p)) (tags p))"
      using inv p ev head by (cases "p = q") (auto simp: pipe_inv_def ts bf)
  qed
qed

lemma pipe_inv_reachable:
  assumes "matched evs n src dst tags" "(pipe_step evs n cap)\<^sup>*\<^sup>* pipe_start st"
  shows "pipe_inv evs n src dst tags st"
  using assms(2) by (induction rule: rtranclp_induct) (auto intro: pipe_inv_start pipe_inv_step[OF assms(1)])

text \<open>A value that is popped is the one pushed at the same position.\<close>

lemma popped_value:
  assumes "matched evs n src dst tags" "pipe_inv evs n src dst tags st"
    and "i < n" "pc st i < length (evs i)" "evs i ! pc st i = (j, PopQueue q)" "buffers st q = v # rest"
  shows "v = j"
proof -
  note ev = pop_event[OF assms(1,3-5)]
  have "drop (passed evs st (dst q) (PopQueue q)) (take (passed evs st (src q) (PushQueue q)) (tags q)) = v # rest"
    using assms(2,6) ev(2) by (simp add: pipe_inv_def)
  from drop_take_Cons[OF this] ev(4) show ?thesis by simp
qed

text \<open>
  No stage waits for ever: of the stages that are not done, the one that is furthest behind, the first
  of those at the same position, can go on. The stage it would wait for is ahead of it.
\<close>

lemma furthest_behind:
  fixes evs :: "nat \<Rightarrow> (nat \<times> task_inst) list"
  assumes "i < n" "pc st i < length (evs i)"
  shows "\<exists>i < n. pc st i < length (evs i) \<and>
    (\<forall>k < n. pc st k < length (evs k) \<longrightarrow>
       fst (evs i ! pc st i) < fst (evs k ! pc st k) \<or> fst (evs i ! pc st i) = fst (evs k ! pc st k) \<and> i \<le> k)"
proof -
  let ?U = "{i. i < n \<and> pc st i < length (evs i)}"
  let ?key = "\<lambda>i. fst (evs i ! pc st i) * n + i"
  have "finite ?U" "?U \<noteq> {}" using assms by auto
  then obtain m where m: "m \<in> ?U" "\<forall>k \<in> ?U. ?key m \<le> ?key k"
    using ex_is_arg_min_if_finite[of ?U ?key] by (auto simp: is_arg_min_linorder)
  have "fst (evs m ! pc st m) < fst (evs k ! pc st k) \<or> fst (evs m ! pc st m) = fst (evs k ! pc st k) \<and> m \<le> k"
    if k: "k < n" "pc st k < length (evs k)" for k
  proof -
    let ?a = "fst (evs m ! pc st m)" and ?b = "fst (evs k ! pc st k)"
    have le: "?a * n + m \<le> ?b * n + k" using m(2) k by simp
    have "?a \<le> ?b"
    proof (rule ccontr)
      assume "\<not> ?a \<le> ?b"
      then have "Suc ?b * n \<le> ?a * n" by (intro mult_right_mono) simp_all
      then show False using le k(1) by simp
    qed
    then show ?thesis using le by (cases "?a = ?b") auto
  qed
  then show ?thesis using m(1) by blast
qed

lemma pipe_progress:
  assumes m: "matched evs n src dst tags" and inv: "pipe_inv evs n src dst tags st" and cap: "0 < cap"
    and "\<not> finished evs n st"
  shows "\<exists>st'. pipe_step evs n cap st st'"
proof -
  obtain i0 where "i0 < n" "pc st i0 < length (evs i0)"
    using assms(4) inv unfolding finished_def pipe_inv_def by (meson le_neq_implies_less)
  then obtain i where i: "i < n" "pc st i < length (evs i)"
    "\<forall>k < n. pc st k < length (evs k) \<longrightarrow>
       fst (evs i ! pc st i) < fst (evs k ! pc st k) \<or> fst (evs i ! pc st i) = fst (evs k ! pc st k) \<and> i \<le> k"
    using furthest_behind by blast
  obtain j x where ev: "evs i ! pc st i = (j, x)" by force
  have "(j, x) \<in> set (evs i)" using i(2) ev by (metis nth_mem)
  then have "\<exists>q. snd (j, x) = PushQueue q \<or> snd (j, x) = PopQueue q" using m i(1) unfolding matched_def by blast
  then obtain q where "x = PushQueue q \<or> x = PopQueue q" by auto
  then show ?thesis
  proof
    assume x: "x = PopQueue q"
    note e = pop_event[OF m i(1,2) ev[unfolded x]]
    show ?thesis
    proof (cases "buffers st q")
      case (Cons v rest)
      then show ?thesis using pipe_step.pop[where evs = evs and st = st, OF i(1,2) ev[unfolded x]] by blast
    next
      case Nil
      let ?k = "passed evs st (dst q) (PopQueue q)"
      have f: "src q < dst q" "src q < n" "tagsOf (PushQueue q) (evs (src q)) = tags q" "sorted (map fst (evs (src q)))"
        using m e(2) unfolding matched_def by (auto dest: less_trans)
      have "?k \<le> passed evs st (src q) (PushQueue q)"
        "drop ?k (take (passed evs st (src q) (PushQueue q)) (tags q)) = []"
        using inv e(2) Nil unfolding pipe_inv_def by auto
      then have "passed evs st (src q) (PushQueue q) = ?k" using e(3) by simp
      from next_tag[OF f(4), of "PushQueue q" "pc st (src q)"] this e(3,4) f(3)
      have "pc st (src q) < length (evs (src q)) \<and> fst (evs (src q) ! pc st (src q)) \<le> j" by (simp add: passed_def)
      then show ?thesis using i(3) f(1,2) e(1) ev by auto
    qed
  next
    assume x: "x = PushQueue q"
    note e = push_event[OF m i(1,2) ev[unfolded x]]
    show ?thesis
    proof (cases "length (buffers st q) < cap")
      case True
      then show ?thesis using pipe_step.push[where evs = evs and st = st, OF i(1,2) ev[unfolded x]] by blast
    next
      case False
      let ?k = "passed evs st (dst q) (PopQueue q)"
      have t: "dst q < n" "tagsOf (PopQueue q) (evs (dst q)) = tags q" "sorted (map fst (evs (dst q)))" "sorted_wrt (<) (tags q)"
        using m e(2) unfolding matched_def by auto
      have "buffers st q \<noteq> []" using False cap by auto
      then have "?k < passed evs st (src q) (PushQueue q)" using inv e(2) unfolding pipe_inv_def by auto
      then have lt: "tags q ! ?k < j" "?k < length (tags q)"
        using e(3,4) sorted_wrt_nth_less[OF t(4)] by auto
      from next_tag[OF t(3), of "PopQueue q" "pc st (dst q)"] lt t(2)
      have "pc st (dst q) < length (evs (dst q)) \<and> fst (evs (dst q) ! pc st (dst q)) < j" by (simp add: passed_def)
      then show ?thesis using i(3) t(1) ev by auto
    qed
  qed
qed

text \<open>Each step is one event of one stage.\<close>

lemma pipe_steps_bounded:
  assumes "(pipe_step evs n cap ^^ k) pipe_start st"
  shows "k = (\<Sum>i < n. pc st i)"
  using assms
proof (induction k arbitrary: st)
  case 0
  then show ?case by (auto simp: pipe_start_def)
next
  case (Suc k)
  then obtain st1 where st1: "(pipe_step evs n cap ^^ k) pipe_start st1" "pipe_step evs n cap st1 st" by auto
  obtain i where i: "i < n" "pc st = (pc st1)(i := Suc (pc st1 i))" using st1(2) by cases auto
  have "(\<Sum>m < n. pc st m) = Suc (\<Sum>m < n. pc st1 m)"
    using i(1) by (simp add: i(2) sum.remove[of "{..<n}" i] del: fun_upd_apply) simp
  then show ?case using Suc.IH[OF st1(1)] by simp
qed

lemma finished_empty:
  assumes m: "matched evs n src dst tags" and inv: "pipe_inv evs n src dst tags st" and "finished evs n st"
  shows "buffers st q = []"
proof (cases "tags q = []")
  case False
  then have f: "src q < n" "dst q < n" "tagsOf (PushQueue q) (evs (src q)) = tags q" "tagsOf (PopQueue q) (evs (dst q)) = tags q"
    using m unfolding matched_def by (auto dest: less_trans)
  then have "passed evs st (dst q) (PopQueue q) = length (tags q)" using assms(3) by (simp add: passed_def finished_def)
  then show ?thesis using inv False by (simp add: pipe_inv_def)
qed (use inv in \<open>simp add: pipe_inv_def\<close>)

section \<open>The pipeline\<close>

text \<open>
  What a stage does with its queues: for each position it visits, before the exit of the loop, the pushes
  and pops of the code of the block.
\<close>

definition isQueueOp :: "task_inst \<Rightarrow> bool" where
  "isQueueOp x = (case x of PopQueue q \<Rightarrow> True | PushQueue q \<Rightarrow> True | _ \<Rightarrow> False)"

definition stageEvents :: "task_code \<Rightarrow> nat list \<Rightarrow> nat list \<Rightarrow> (nat \<times> task_inst) list" where
  "stageEvents code tr idx =
     concat (map (\<lambda>j. map (Pair j) (filter isQueueOp (the (code (tr ! j))))) (butlast idx))"

lemma isQueueOp_cases: "isQueueOp x \<longleftrightarrow> (\<exists>q. x = PushQueue q \<or> x = PopQueue q)"
  by (cases x) (simp_all add: isQueueOp_def)

lemma stageEvents_ops: "e \<in> set (stageEvents code tr idx) \<Longrightarrow> \<exists>q. snd e = PushQueue q \<or> snd e = PopQueue q"
  by (auto simp: stageEvents_def isQueueOp_cases)

lemma sorted_concat_map:
  assumes "sorted_wrt (<) (xs :: nat list)"
  shows "sorted (map fst (concat (map (\<lambda>j. map (Pair j) (f j)) xs)))"
  using assms by (induction xs) (auto simp: sorted_append comp_def map_replicate_const)

lemma sorted_butlast: "sorted_wrt (<) xs \<Longrightarrow> sorted_wrt (<) (butlast (xs :: nat list))"
  by (cases xs rule: rev_cases) (auto simp: sorted_wrt_append)

lemma stageEvents_sorted: "sorted_wrt (<) idx \<Longrightarrow> sorted (map fst (stageEvents code tr idx))"
  unfolding stageEvents_def by (rule sorted_concat_map[OF sorted_butlast])

lemma tagsOf_block:
  assumes "isQueueOp x"
  shows "tagsOf x (map (Pair j) (filter isQueueOp c)) = replicate (count_list c x) j"
  using assms by (induction c) (auto simp: tagsOf_def)

lemma tagsOf_concat:
  assumes "\<forall>j \<in> set js. tagsOf x (f j) = (if P j then [j] else [])"
  shows "tagsOf x (concat (map f js)) = filter P js"
  using assms by (induction js) (auto simp: tagsOf_append, simp add: tagsOf_def)

lemma stageEvents_tags:
  assumes "isQueueOp x"
    and "\<forall>j \<in> set (butlast idx). count_list (the (code (tr ! j))) x = (if q \<and> b = tr ! j then 1 else 0)"
  shows "tagsOf x (stageEvents code tr idx) = (if q then filter (\<lambda>j. tr ! j = b) (butlast idx) else [])"
proof -
  have "tagsOf x (stageEvents code tr idx) = filter (\<lambda>j. q \<and> b = tr ! j) (butlast idx)"
    unfolding stageEvents_def by (rule tagsOf_concat) (use assms in \<open>auto simp: tagsOf_block\<close>)
  then show ?thesis by (auto simp: eq_commute[of b])
qed

text \<open>The positions of the block of the producer of a queue.\<close>

definition queuePositions :: "loop_blocks \<Rightarrow> queue_state \<Rightarrow> nat list \<Rightarrow> nat \<Rightarrow> nat list" where
  "queuePositions L s tr q =
     (if q < length (queues s) then filter (\<lambda>j. tr ! j = producerBlock L s q) [0..<length tr - 1] else [])"

lemma butlast_positions:
  assumes "follows L insts tr idx"
  shows "j \<in> set (butlast idx) \<longleftrightarrow> j \<in> set idx \<and> j < length tr - 1"
proof -
  obtain js where js: "idx = js @ [length tr - 1]"
    using assms unfolding follows_def by (metis append_butlast_last_id)
  then show ?thesis using assms by (auto simp: follows_def sorted_wrt_append)
qed

lemma follows_positions:
  assumes f: "follows L insts tr idx" and b: "b \<in> set (loopBlocks L)" "controlled_by L insts b"
  shows "filter (\<lambda>j. tr ! j = b) (butlast idx) = filter (\<lambda>j. tr ! j = b) [0..<length tr - 1]"
proof (rule strict_sorted_equal)
  show "sorted_wrt (<) (filter (\<lambda>j. tr ! j = b) (butlast idx))"
    using f by (intro sorted_wrt_filter sorted_butlast) (simp add: follows_def)
  show "set (filter (\<lambda>j. tr ! j = b) (butlast idx)) = set (filter (\<lambda>j. tr ! j = b) [0..<length tr - 1])"
    using f b by (auto simp: butlast_positions[OF f] follows_def)
qed (intro sorted_wrt_filter, simp)

lemma stageRun_code:
  "stageRun L code fuel outs b = Some run \<Longrightarrow> x \<in> set (butlast run) \<Longrightarrow> code x \<noteq> None"
proof (induction fuel arbitrary: outs b run)
  case (Suc fuel)
  show ?case
  proof (cases "b \<in> exitsOfLoop L")
    case False
    then obtain c run' outs' t where "code b = Some c" "run = b # run'" "stageRun L code fuel outs' t = Some run'"
      using Suc.prems(1) by (auto split: option.splits task_inst.splits list.splits)
    then show ?thesis using Suc.IH Suc.prems(2) by (cases "x = b") (auto split: if_splits)
  qed (use Suc.prems in auto)
qed simp

text \<open>A stage alone: it reaches the same exit past the blocks it has code for, in the same order.\<close>

definition stage_ready :: "loop_blocks \<Rightarrow> queue_state \<Rightarrow> nat \<Rightarrow> stage list \<Rightarrow> nat \<Rightarrow> bool" where
  "stage_ready L s fuel tasks i \<longleftrightarrow>
     branches_closed L (instsOfStage L (tasks ! i) s i) \<and> stageFuel L (instsOfStage L (tasks ! i) s i) \<le> fuel \<and>
     stage_queues L (instsOfStage L (tasks ! i) s i) s i"

lemma stage_runs:
  assumes wf: "wf_loop L" "wf_postdom L" and ready: "stage_ready L s fuel tasks i" and run: "complete_run L tr"
  shows "\<exists>code idx. generateStage L fuel s i (tasks ! i) = Some (Inr code) \<and>
    stageRun L code (length tr) (outcomes tr) (loopHeader L) = Some (map ((!) tr) idx) \<and>
    follows L (instsOfStage L (tasks ! i) s i) tr idx \<and>
    (\<forall>j \<in> set (butlast idx). \<exists>c. code (tr ! j) = Some c \<and> queue_block L (instsOfStage L (tasks ! i) s i) s i (tr ! j) c)"
proof -
  let ?insts = "instsOfStage L (tasks ! i) s i"
  have closed: "branches_closed L ?insts" using ready by (simp add: stage_ready_def)
  obtain W code where code: "generateStage L fuel s i (tasks ! i) = Some (Inr code)" "stage_region L ?insts W"
    "\<forall>b \<in> set (loopBlocks L). if b \<in> W \<or> terminatorOf L b \<in> ?insts
       then \<exists>c. code b = Some c \<and> queue_block L ?insts s i b c else code b = None"
    using generateStage_code[OF wf refl closed] ready unfolding stage_ready_def by blast
  have region: "runs_region L ?insts W code"
    using code(2,3) unfolding runs_region_def queue_block_def by fastforce
  have path: "loop_path L tr" "tr \<noteq> []" "last tr \<in> exitsOfLoop L" "hd tr = loopHeader L"
    using run by (simp_all add: complete_run_def)
  have "hd tr \<in> W" using code(2) path(4) by (simp add: stage_region_def)
  from stage_follows[OF wf closed region path(1-3) this, of "outcomes tr" "length tr"] path(4)
  obtain idx where idx: "stageRun L code (length tr) (outcomes tr) (loopHeader L) = Some (map ((!) tr) idx)"
    "follows L ?insts tr idx" by (auto simp: has_outcomes_def)
  have "\<exists>c. code (tr ! j) = Some c \<and> queue_block L ?insts s i (tr ! j) c" if j: "j \<in> set (butlast idx)" for j
  proof -
    have "tr ! j \<in> set (butlast (map ((!) tr) idx))" using j by (simp add: map_butlast[symmetric])
    then have "code (tr ! j) \<noteq> None" using stageRun_code[OF idx(1)] by blast
    moreover have "j < length tr - 1" using j butlast_positions[OF idx(2)] by blast
    then have "tr ! j \<in> set (loopBlocks L)" using path(1) unfolding loop_path_def by (metis in_mono length_butlast nth_butlast nth_mem)
    ultimately show ?thesis using code(3) by metis
  qed
  then show ?thesis using code(1) idx by blast
qed

text \<open>The queues go forward, between stages there are.\<close>

definition forward_queues :: "queue_state \<Rightarrow> nat \<Rightarrow> bool" where
  "forward_queues s n \<longleftrightarrow> queue_inv (\<lambda>src dst. src \<le> dst) s \<and> (\<forall>q < length (queues s). toStage (queues s ! q) < n)"

lemma forward_queues_sets:
  assumes "forward_queues s n"
  shows "q \<in> pushValueQueues s i \<longleftrightarrow> q < length (queues s) \<and> i = fromStage (queues s ! q)"
    and "q \<in> popValueQueues s i \<longleftrightarrow> q < length (queues s) \<and> i = toStage (queues s ! q)"
    and "q < length (queues s) \<Longrightarrow> fromStage (queues s ! q) < toStage (queues s ! q) \<and> toStage (queues s ! q) < n"
proof -
  have inv: "queue_inv (\<lambda>src dst. src \<le> dst) s" using assms by (simp add: forward_queues_def)
  have own: "q \<in> pushValueQueues s (fromStage (queues s ! q)) \<and> q \<in> popValueQueues s (toStage (queues s ! q)) \<and>
      fromStage (queues s ! q) \<noteq> toStage (queues s ! q) \<and> fromStage (queues s ! q) \<le> toStage (queues s ! q)"
    if "q < length (queues s)" for q
    using inv[unfolded queue_inv_def Let_def, THEN conjunct1, rule_format, OF that] by simp
  have push: "q < length (queues s) \<and> fromStage (queues s ! q) = i" if "q \<in> pushValueQueues s i" for q i
    using inv[unfolded queue_inv_def, THEN conjunct2, THEN conjunct1, rule_format, OF that] .
  have pop: "q < length (queues s) \<and> toStage (queues s ! q) = i" if "q \<in> popValueQueues s i" for q i
    using inv[unfolded queue_inv_def, THEN conjunct2, THEN conjunct2, THEN conjunct1, rule_format, OF that] .
  show "q \<in> pushValueQueues s i \<longleftrightarrow> q < length (queues s) \<and> i = fromStage (queues s ! q)" using own push by auto
  show "q \<in> popValueQueues s i \<longleftrightarrow> q < length (queues s) \<and> i = toStage (queues s ! q)" using own pop by auto
  show "fromStage (queues s ! q) < toStage (queues s ! q) \<and> toStage (queues s ! q) < n" if "q < length (queues s)"
    using that own assms by (simp add: forward_queues_def le_neq_implies_less)
qed

lemma producer_controlled:
  assumes "stage_ready L s fuel tasks i" "q \<in> popValueQueues s i \<or> q \<in> pushValueQueues s i"
  shows "producerBlock L s q \<in> set (loopBlocks L) \<and> controlled_by L (instsOfStage L (tasks ! i) s i) (producerBlock L s q)"
  using assms unfolding stage_ready_def stage_queues_def branches_closed_def producerBlock_def by blast

text \<open>The pushes and pops of the stages match.\<close>

lemma stages_match:
  assumes ready: "\<forall>i < n. stage_ready L s fuel tasks i" and forward: "forward_queues s n"
    and run: "\<forall>i < n. follows L (instsOfStage L (tasks ! i) s i) tr (idx i) \<and>
      (\<forall>j \<in> set (butlast (idx i)). \<exists>c. code i (tr ! j) = Some c \<and>
         queue_block L (instsOfStage L (tasks ! i) s i) s i (tr ! j) c)"
  shows "matched (\<lambda>i. stageEvents (code i) tr (idx i)) n (\<lambda>q. fromStage (queues s ! q)) (\<lambda>q. toStage (queues s ! q))
    (queuePositions L s tr)"
proof -
  let ?evs = "\<lambda>i. stageEvents (code i) tr (idx i)"
  note sets = forward_queues_sets[OF forward]
  have count: "count_list (the (code i (tr ! j))) (PopQueue q) = (if q \<in> popValueQueues s i \<and> producerBlock L s q = tr ! j then 1 else 0)"
    "count_list (the (code i (tr ! j))) (PushQueue q) = (if q \<in> pushValueQueues s i \<and> producerBlock L s q = tr ! j then 1 else 0)"
    if "i < n" "j \<in> set (butlast (idx i))" for i j q
    using run that unfolding queue_block_def by fastforce+
  have positions: "filter (\<lambda>j. tr ! j = producerBlock L s q) (butlast (idx i)) = queuePositions L s tr q"
    if "i < n" "q \<in> popValueQueues s i \<or> q \<in> pushValueQueues s i" for i q
  proof -
    have "q < length (queues s)" using that(2) sets by blast
    moreover have "stage_ready L s fuel tasks i" "follows L (instsOfStage L (tasks ! i) s i) tr (idx i)"
      using ready run that(1) by blast+
    ultimately show ?thesis
      using follows_positions producer_controlled[OF _ that(2)] by (simp add: queuePositions_def)
  qed
  have pops: "tagsOf (PopQueue q) (?evs i) = (if i = toStage (queues s ! q) then queuePositions L s tr q else [])"
    if i: "i < n" for i q
  proof -
    have "tagsOf (PopQueue q) (?evs i) =
        (if q \<in> popValueQueues s i then filter (\<lambda>j. tr ! j = producerBlock L s q) (butlast (idx i)) else [])"
      by (rule stageEvents_tags) (use count[OF i] in \<open>auto simp: isQueueOp_def\<close>)
    then show ?thesis using positions[OF i] sets(2)[of q i] by (auto simp: queuePositions_def)
  qed
  have pushes: "tagsOf (PushQueue q) (?evs i) = (if i = fromStage (queues s ! q) then queuePositions L s tr q else [])"
    if i: "i < n" for i q
  proof -
    have "tagsOf (PushQueue q) (?evs i) =
        (if q \<in> pushValueQueues s i then filter (\<lambda>j. tr ! j = producerBlock L s q) (butlast (idx i)) else [])"
      by (rule stageEvents_tags) (use count[OF i] in \<open>auto simp: isQueueOp_def\<close>)
    then show ?thesis using positions[OF i] sets(1)[of q i] by (auto simp: queuePositions_def)
  qed
  have "sorted (map fst (?evs i))" if "i < n" for i
    using run that by (intro stageEvents_sorted) (simp add: follows_def)
  moreover have "sorted_wrt (<) (queuePositions L s tr q)" for q
    by (simp add: queuePositions_def sorted_wrt_filter)
  moreover have "fromStage (queues s ! q) < toStage (queues s ! q) \<and> toStage (queues s ! q) < n"
    if "queuePositions L s tr q \<noteq> []" for q
    using that sets(3)[of q] by (auto simp: queuePositions_def split: if_splits)
  ultimately show ?thesis using pops pushes stageEvents_ops unfolding matched_def by blast
qed

text \<open>
  C12: a stage of a DSWP pipeline on its own goes through the loop as the loop does. When it has the
  branches that control its instructions and the values it pops, its code, with the outcomes of its
  branches, ends in the same exit; it visits blocks of the run in their order, among them every
  execution of a block whose branches it has.
\<close>
theorem stage_runs_as_loop:
  assumes "wf_loop L" and "wf_postdom L" and "stage_ready L s fuel tasks i" and "complete_run L tr"
  shows "\<exists>code idx. generateStage L fuel s i (tasks ! i) = Some (Inr code) \<and>
    stageRun L code (length tr) (outcomes tr) (loopHeader L) = Some (map ((!) tr) idx) \<and>
    sorted_wrt (<) idx \<and> set idx \<subseteq> {..<length tr} \<and> last idx = length tr - 1 \<and>
    (\<forall>j < length tr. tr ! j \<in> set (loopBlocks L) \<and> controlled_by L (instsOfStage L (tasks ! i) s i) (tr ! j) \<longrightarrow> j \<in> set idx)"
  using stage_runs[OF assms] unfolding follows_def by blast

text \<open>
  A DSWP pipeline never waits for ever and passes the right values. For every run of the loop, with
  queues that go forward and hold at least one value, however the stages are interleaved: as long as one
  is not done some stage can go on; every value popped is the one pushed in the same execution of the
  block that produces it; all stages are done after at most as many steps as there are pushes and pops,
  with all queues empty.
\<close>
theorem dswp_pipeline_runs:
  assumes "wf_loop L" and "wf_postdom L" and "\<forall>i < n. stage_ready L s fuel tasks i" and "forward_queues s n"
    and "complete_run L tr" and "0 < cap"
  shows "\<exists>code idx. (\<forall>i < n. generateStage L fuel s i (tasks ! i) = Some (Inr (code i)) \<and>
      stageRun L (code i) (length tr) (outcomes tr) (loopHeader L) = Some (map ((!) tr) (idx i))) \<and>
    (\<forall>k st. (pipe_step (\<lambda>i. stageEvents (code i) tr (idx i)) n cap ^^ k) pipe_start st \<longrightarrow>
       k \<le> (\<Sum>i < n. length (stageEvents (code i) tr (idx i))) \<and>
       (if finished (\<lambda>i. stageEvents (code i) tr (idx i)) n st then \<forall>q. buffers st q = []
        else \<exists>st'. pipe_step (\<lambda>i. stageEvents (code i) tr (idx i)) n cap st st') \<and>
       (\<forall>i < n. \<forall>j q v rest. pc st i < length (stageEvents (code i) tr (idx i)) \<and>
          stageEvents (code i) tr (idx i) ! pc st i = (j, PopQueue q) \<and> buffers st q = v # rest \<longrightarrow> v = j))"
proof -
  have "\<forall>i. \<exists>c x. i < n \<longrightarrow> generateStage L fuel s i (tasks ! i) = Some (Inr c) \<and>
      stageRun L c (length tr) (outcomes tr) (loopHeader L) = Some (map ((!) tr) x) \<and>
      follows L (instsOfStage L (tasks ! i) s i) tr x \<and>
      (\<forall>j \<in> set (butlast x). \<exists>d. c (tr ! j) = Some d \<and> queue_block L (instsOfStage L (tasks ! i) s i) s i (tr ! j) d)"
    using stage_runs[OF assms(1,2) _ assms(5)] assms(3) by blast
  then obtain code idx where all: "\<forall>i. i < n \<longrightarrow> generateStage L fuel s i (tasks ! i) = Some (Inr (code i)) \<and>
      stageRun L (code i) (length tr) (outcomes tr) (loopHeader L) = Some (map ((!) tr) (idx i)) \<and>
      follows L (instsOfStage L (tasks ! i) s i) tr (idx i) \<and>
      (\<forall>j \<in> set (butlast (idx i)). \<exists>d. code i (tr ! j) = Some d \<and>
         queue_block L (instsOfStage L (tasks ! i) s i) s i (tr ! j) d)"
    by metis
  let ?evs = "\<lambda>i. stageEvents (code i) tr (idx i)"
  have m: "matched ?evs n (\<lambda>q. fromStage (queues s ! q)) (\<lambda>q. toStage (queues s ! q)) (queuePositions L s tr)"
    by (rule stages_match[OF assms(3,4)]) (use all in blast)
  have inv: "pipe_inv ?evs n (\<lambda>q. fromStage (queues s ! q)) (\<lambda>q. toStage (queues s ! q)) (queuePositions L s tr) st"
    if "(pipe_step ?evs n cap ^^ k) pipe_start st" for k st
    using pipe_inv_reachable[OF m] relpowp_imp_rtranclp[OF that] by blast
  have "k \<le> (\<Sum>i < n. length (?evs i))" if "(pipe_step ?evs n cap ^^ k) pipe_start st" for k st
    unfolding pipe_steps_bounded[OF that] using inv[OF that] by (intro sum_mono) (simp add: pipe_inv_def)
  moreover have "if finished ?evs n st then \<forall>q. buffers st q = [] else \<exists>st'. pipe_step ?evs n cap st st'"
    if "(pipe_step ?evs n cap ^^ k) pipe_start st" for k st
    using finished_empty[OF m inv[OF that]] pipe_progress[OF m inv[OF that] assms(6)] by simp
  moreover have "v = j" if "(pipe_step ?evs n cap ^^ k) pipe_start st" "i < n" "pc st i < length (?evs i)"
    "?evs i ! pc st i = (j, PopQueue q)" "buffers st q = v # rest" for k st i j q v rest
    using popped_value[OF m inv[OF that(1)] that(2-5)] .
  ultimately show ?thesis using all by (intro exI[of _ code] exI[of _ idx]) blast
qed

section \<open>An example\<close>

text \<open>The pipeline of \<open>load_loop\<close>, and a run of the loop with one iteration.\<close>

lemma load_run: "complete_run load_loop [0, 1, 0, 9]"
  by (simp add: complete_run_def loop_path_def load_loop_def)

lemma load_ready: "i < 2 \<Longrightarrow> stage_ready load_loop load_queues 4 load_tasks i"
proof -
  have "stage_ready load_loop load_queues 4 load_tasks 0"
    unfolding stage_ready_def load_insts(1)
    by (intro conjI load_closed load_fuel load_stage_queues(1)) simp_all
  moreover have "stage_ready load_loop load_queues 4 load_tasks 1"
    unfolding stage_ready_def load_insts(2)
    by (intro conjI load_closed load_fuel load_stage_queues(2)) simp_all
  ultimately show "i < 2 \<Longrightarrow> ?thesis" by (auto simp: less_2_cases_iff)
qed

lemma load_forward: "forward_queues load_queues 2"
  by (simp add: forward_queues_def queue_inv_def load_queues_def)

lemma stage_runs_as_loop_witness:
  "\<exists>code idx. generateStage load_loop 4 load_queues 1 (load_tasks ! 1) = Some (Inr code) \<and>
     stageRun load_loop code (length [0, 1, 0, 9 :: nat]) (outcomes [0, 1, 0, 9]) (loopHeader load_loop) =
       Some (map ((!) [0, 1, 0, 9]) idx) \<and> 1 \<in> set idx"
proof -
  have ready: "stage_ready load_loop load_queues 4 load_tasks 1" by (rule load_ready) simp
  obtain code idx where run: "generateStage load_loop 4 load_queues 1 (load_tasks ! 1) = Some (Inr code)"
    "stageRun load_loop code (length [0, 1, 0, 9 :: nat]) (outcomes [0, 1, 0, 9]) (loopHeader load_loop) =
       Some (map ((!) [0, 1, 0, 9]) idx)"
    "\<forall>j < length [0, 1, 0, 9 :: nat]. [0, 1, 0, 9] ! j \<in> set (loopBlocks load_loop) \<and>
       controlled_by load_loop (instsOfStage load_loop (load_tasks ! 1) load_queues 1) ([0, 1, 0, 9] ! j) \<longrightarrow> j \<in> set idx"
    using stage_runs_as_loop[OF load_loop_wf load_loop_postdom ready load_run]
    by (elim exE conjE) (rule that; assumption)
  have "controlled_by load_loop (instsOfStage load_loop (load_tasks ! 1) load_queues 1) 1"
    by (rule load_loop_controlled) (simp add: load_insts(2)[simplified])
  moreover have "(1 :: nat) \<in> set (loopBlocks load_loop)" by (simp add: load_loop_def)
  ultimately have "1 \<in> set idx" using spec[OF run(3), of 1] by simp
  then show ?thesis using run(1,2) by blast
qed

lemma dswp_pipeline_runs_witness:
  "\<exists>evs. \<forall>k st. (pipe_step evs 2 4 ^^ k) pipe_start st \<longrightarrow>
     (if finished evs 2 st then \<forall>q. buffers st q = [] else \<exists>st'. pipe_step evs 2 4 st st')"
proof -
  have ready: "\<forall>i < 2. stage_ready load_loop load_queues 4 load_tasks i" using load_ready by blast
  have cap: "0 < (4 :: nat)" by simp
  obtain code idx where "\<forall>k st. (pipe_step (\<lambda>i. stageEvents (code i) [0, 1, 0, 9] (idx i)) 2 4 ^^ k) pipe_start st \<longrightarrow>
       k \<le> (\<Sum>i < 2. length (stageEvents (code i) [0, 1, 0, 9] (idx i))) \<and>
       (if finished (\<lambda>i. stageEvents (code i) [0, 1, 0, 9] (idx i)) 2 st then \<forall>q. buffers st q = []
        else \<exists>st'. pipe_step (\<lambda>i. stageEvents (code i) [0, 1, 0, 9] (idx i)) 2 4 st st') \<and>
       (\<forall>i < 2. \<forall>j q v rest. pc st i < length (stageEvents (code i) [0, 1, 0, 9] (idx i)) \<and>
          stageEvents (code i) [0, 1, 0, 9] (idx i) ! pc st i = (j, PopQueue q) \<and> buffers st q = v # rest \<longrightarrow> v = j)"
    using dswp_pipeline_runs[OF load_loop_wf load_loop_postdom ready load_forward load_run cap]
    by (elim exE conjE) (rule that; assumption)
  then show ?thesis by (intro exI[of _ "\<lambda>i. stageEvents (code i) [0, 1, 0, 9] (idx i)"]) blast
qed

end
