(* ===== verification/Dswp_Correct.thy ===== *)
theory Dswp_Correct
  imports Dswp_Pipeline
begin

text \<open>
  DSWP from the partition of the SCCDAG to the execution of the pipeline: the stages, the queues for
  data and for conditions and the code of the stages that the components of \<open>DSWP.cpp\<close> make one from the
  other fit together.
\<close>

section \<open>What is known of every queue\<close>

definition queue_all :: "(nat \<Rightarrow> nat \<Rightarrow> nat \<Rightarrow> nat \<Rightarrow> bool) \<Rightarrow> queue_state \<Rightarrow> bool" where
  "queue_all P s \<longleftrightarrow>
     (\<forall>q < length (queues s). queueConsumers (queues s ! q) \<noteq> {} \<and>
        (\<forall>c \<in> queueConsumers (queues s ! q). P (fromStage (queues s ! q)) (toStage (queues s ! q)) (queueProducer (queues s ! q)) c))"

lemma queue_all_no_queues: "queue_all P no_queues"
  by (simp add: queue_all_def no_queues_def)

lemma registerQueue_all:
  assumes all: "queue_all P s" and inv: "queue_inv J s"
    and run: "registerQueue bits supported src dst p c isMem s = Inr s'" and "P src dst p c"
  shows "queue_all P s'"
proof (cases "find (\<lambda>q. toStage (queues s ! q) = dst) (producerToQueues s src p)")
  case None
  then show ?thesis using registerQueue_new(1)[OF None run] all assms(4) unfolding queue_all_def
    by (auto simp: nth_append less_Suc_eq)
next
  case (Some q)
  then have "q \<in> set (producerToQueues s src p)" "toStage (queues s ! q) = dst" by (auto simp: find_Some_iff)
  moreover have "\<forall>q \<in> set (producerToQueues s src p). q < length (queues s) \<and> fromStage (queues s ! q) = src \<and>
      queueProducer (queues s ! q) = p"
    using inv[unfolded queue_inv_def, THEN conjunct2, THEN conjunct2, THEN conjunct2, THEN conjunct1] by blast
  ultimately have q: "q < length (queues s)" "fromStage (queues s ! q) = src" "queueProducer (queues s ! q) = p"
    "toStage (queues s ! q) = dst" by auto
  then show ?thesis using registerQueue_old(1)[OF Some run] all assms(4) unfolding queue_all_def
    by (auto simp: nth_list_update)
qed

text \<open>Both invariants together, for a step that registers queues.\<close>

definition keeps_all :: "(nat \<Rightarrow> nat \<Rightarrow> nat \<Rightarrow> nat \<Rightarrow> bool) \<Rightarrow> queue_state \<Rightarrow> queue_state \<Rightarrow> bool" where
  "keeps_all P s s' \<longleftrightarrow>
     (queue_inv (\<lambda>_ _. True) s \<and> queue_all P s \<longrightarrow> queue_inv (\<lambda>_ _. True) s' \<and> queue_all P s')"

lemma keeps_all_refl: "keeps_all P s s"
  by (simp add: keeps_all_def)

lemma keeps_all_trans: "keeps_all P s s' \<Longrightarrow> keeps_all P s' s'' \<Longrightarrow> keeps_all P s s''"
  by (simp add: keeps_all_def)

lemma registerQueue_keeps:
  assumes "registerQueue bits supported src dst p c isMem s = Inr s'" "src \<noteq> dst" "P src dst p c"
  shows "keeps_all P s s'"
  using registerQueue_registers[where J = "\<lambda>_ _. True", OF assms(1,2)] registerQueue_all[where P = P and J = "\<lambda>_ _. True" and s = s and s' = s', OF _ _ assms(1) assms(3)]
  by (auto simp: keeps_all_def registers_def)

lemma collectDependences_keeps:
  assumes "collectDependences bits supported src dst deps s = Inr s'" "src \<noteq> dst"
    and "\<forall>(p, c, k) \<in> set deps. k \<noteq> ControlDependence \<longrightarrow> P src dst p c"
  shows "keeps_all P s s'"
  using assms(1,3)
proof (induction deps arbitrary: s)
  case (Cons dep deps)
  obtain p c k where dep: "dep = (p, c, k)" by (cases dep)
  show ?case
  proof (cases "k = ControlDependence")
    case False
    then obtain s1 where s1: "registerQueue bits supported src dst p c False s = Inr s1"
      "collectDependences bits supported src dst deps s1 = Inr s'"
      using Cons.prems(1) by (auto simp: dep split: if_splits sum.splits)
    have "P src dst p c" using Cons.prems(2) False by (simp add: dep)
    from keeps_all_trans[OF registerQueue_keeps[where P = P, OF s1(1) assms(2) this] Cons.IH[OF s1(2)]]
    show ?thesis using Cons.prems(2) by simp
  qed (use Cons in \<open>simp add: dep\<close>)
qed (simp add: keeps_all_refl)

text \<open>Every use of a value across stages, with the stages and the two instructions.\<close>

definition crossings_ok ::
    "sccdag \<Rightarrow> (nat \<Rightarrow> nat option) \<Rightarrow> (nat \<Rightarrow> nat \<Rightarrow> nat \<Rightarrow> nat \<Rightarrow> bool) \<Rightarrow> nat \<Rightarrow>
     (nat \<times> (nat \<times> nat \<times> dep_kind) list) list \<Rightarrow> bool" where
  "crossings_ok D sccToStage P dst edges \<longleftrightarrow>
     (\<forall>(fromSCC, deps) \<in> set edges. \<forall>src. \<not> canBeCloned D fromSCC \<and> sccToStage fromSCC = Some src \<and> src \<noteq> dst \<longrightarrow>
        (\<forall>(p, c, k) \<in> set deps. k \<noteq> ControlDependence \<longrightarrow> P src dst p c))"

lemma collectEdges_keeps:
  assumes "collectEdges D sccToStage bits supported dst edges s = Inr s'" "crossings_ok D sccToStage P dst edges"
  shows "keeps_all P s s'"
  using assms
proof (induction edges arbitrary: s)
  case (Cons edge edges)
  obtain fromSCC deps where e: "edge = (fromSCC, deps)" by force
  have rest: "crossings_ok D sccToStage P dst edges" using Cons.prems(2) by (simp add: crossings_ok_def)
  consider (skip) "collectEdges D sccToStage bits supported dst edges s = Inr s'"
    | (queue) src s1 where "\<not> canBeCloned D fromSCC" "sccToStage fromSCC = Some src" "src \<noteq> dst"
        "collectDependences bits supported src dst deps s = Inr s1"
        "collectEdges D sccToStage bits supported dst edges s1 = Inr s'"
    using Cons.prems(1) by (auto simp: e split: if_splits option.splits sum.splits)
  then show ?case
  proof cases
    case queue
    have "\<forall>(p, c, k) \<in> set deps. k \<noteq> ControlDependence \<longrightarrow> P src dst p c"
      using Cons.prems(2) queue(1-3) by (simp add: e crossings_ok_def)
    from keeps_all_trans[OF collectDependences_keeps[where P = P, OF queue(4,3) this] Cons.IH[OF queue(5) rest]]
    show ?thesis .
  qed (use Cons.IH rest in blast)
qed (simp add: keeps_all_refl)

lemma collectSCCs_keeps:
  assumes "collectSCCs D sccToStage bits supported dst sccs s = Inr s'"
    and "\<forall>scc \<in> set sccs. crossings_ok D sccToStage P dst (incomingEdges D scc)"
  shows "keeps_all P s s'"
  using assms
proof (induction sccs arbitrary: s)
  case (Cons scc sccs)
  then obtain s1 where s1: "collectEdges D sccToStage bits supported dst (incomingEdges D scc) s = Inr s1"
    "collectSCCs D sccToStage bits supported dst sccs s1 = Inr s'" by (auto split: sum.splits)
  from keeps_all_trans[OF collectEdges_keeps[where P = P, OF s1(1)] Cons.IH[OF s1(2)]] Cons.prems(2)
  show ?case by simp
qed (simp add: keeps_all_refl)

lemma collectStages_keeps:
  assumes "collectStages D sccToStage bits supported dst tasks s = Inr s'"
    and "\<forall>i < length tasks. \<forall>scc \<in> set (sccsOfStage (tasks ! i)). crossings_ok D sccToStage P (dst + i) (incomingEdges D scc)"
  shows "keeps_all P s s'"
  using assms
proof (induction tasks arbitrary: s dst)
  case (Cons task tasks)
  then obtain s1 where s1: "collectSCCs D sccToStage bits supported dst (sccsOfStage task) s = Inr s1"
    "collectStages D sccToStage bits supported (Suc dst) tasks s1 = Inr s'" by (auto split: sum.splits)
  have first: "\<forall>scc \<in> set (sccsOfStage task). crossings_ok D sccToStage P dst (incomingEdges D scc)"
    using Cons.prems(2) by force
  have rest: "\<forall>i < length tasks. \<forall>scc \<in> set (sccsOfStage (tasks ! i)).
      crossings_ok D sccToStage P (Suc dst + i) (incomingEdges D scc)"
    using Cons.prems(2) by (auto dest: spec[of _ "Suc _"])
  from keeps_all_trans[OF collectSCCs_keeps[where P = P, OF s1(1) first] Cons.IH[OF s1(2) rest]] show ?case .
qed (simp add: keeps_all_refl)

lemma sendCondition_keeps:
  assumes "sendCondition bits supported src p branch tasks s = Inr s'" "\<forall>t \<in> set tasks. t \<noteq> src \<longrightarrow> P src t p branch"
  shows "keeps_all P s s'"
  using assms
proof (induction tasks arbitrary: s)
  case (Cons t tasks)
  show ?case
  proof (cases "src = t")
    case False
    then obtain s1 where s1: "registerQueue bits supported src t p branch False s = Inr s1"
      "sendCondition bits supported src p branch tasks s1 = Inr s'"
      using Cons.prems by (auto split: sum.splits)
    have "P src t p branch" using Cons.prems(2) False by simp
    from keeps_all_trans[OF registerQueue_keeps[where P = P, OF s1(1) False this] Cons.IH[OF s1(2)]]
    show ?thesis using Cons.prems(2) by simp
  qed (use Cons in simp)
qed (simp add: keeps_all_refl)

lemma controlQueuesOfBranch_keeps:
  assumes dag: "staged D sccToStage" and fuel: "Suc (\<Sum>n \<in> set (nodes D). length (outgoingSCCs D n)) \<le> fuel"
    and b: "sccOfValue C (snd node) \<in> set (nodes D)"
    and run: "controlQueuesOfBranch D C sccToStage bits supported numTasks fuel node s = Some (Inr s')"
    and P: "\<forall>(src, t, c, branch) \<in> conditionQueues D C sccToStage numTasks node. P src t c branch"
  shows "keeps_all P s s'"
proof -
  obtain scc branch where node: "node = (scc, branch)" by force
  define T where "T = (if isControllingLoopExit C branch then {..<numTasks}
     else stagesOf D sccToStage (controlledSCCs D (sccOfValue C branch)) -
       (if canBeCloned D (sccOfValue C branch) then {} else set_option (sccToStage (sccOfValue C branch))))"
  have T: "(if isControllingLoopExit C branch then Some (Inr {..<numTasks})
     else collectTransitivelyControlledTasks D sccToStage fuel (sccOfValue C branch)) = Some (Inr T)"
    using b by (simp add: T_def node controlled_stages[OF dag _ fuel])
  obtain R src where R: "collectConditions D C (incomingOfNode C scc branch) {} = Inr R" "card R = 1"
    "sccToStage (sccOfValue C branch) = Some src"
    "sendCondition bits supported src (Min R) branch (sorted_list_of_set T) s = Inr s'"
    using run unfolding controlQueuesOfBranch_def node Let_def prod.case T
    by (auto split: sum.splits if_splits option.splits)
  obtain c where "R = {c}" using R(2) card_1_singletonE by blast
  then have c: "Min R = c" "c \<in> sentConditions D C node"
    using collectConditions_result[OF R(1)] by (auto simp: sentConditions_def node)
  have "finite T" by (simp add: T_def finite_stagesOf[OF dag])
  moreover have "T \<subseteq> needsCondition D C sccToStage numTasks branch" by (auto simp: T_def needsCondition_def)
  ultimately have "\<forall>t \<in> set (sorted_list_of_set T). t \<noteq> src \<longrightarrow> P src t c branch"
    using P c(2) R(3) by (auto simp: conditionQueues_def node)
  then show ?thesis using sendCondition_keeps[where P = P, OF R(4)[unfolded c(1)]] by blast
qed

lemma controlQueuesOfBranches_keeps:
  assumes dag: "staged D sccToStage" and fuel: "Suc (\<Sum>n \<in> set (nodes D). length (outgoingSCCs D n)) \<le> fuel"
    and "\<forall>node \<in> set branches. sccOfValue C (snd node) \<in> set (nodes D) \<and>
      (\<forall>(src, t, c, branch) \<in> conditionQueues D C sccToStage numTasks node. P src t c branch)"
    and "controlQueuesOfBranches D C sccToStage bits supported numTasks fuel branches s = Some (Inr s')"
  shows "keeps_all P s s'"
  using assms(3,4)
proof (induction branches arbitrary: s)
  case (Cons node branches)
  then obtain s1 where s1: "controlQueuesOfBranch D C sccToStage bits supported numTasks fuel node s = Some (Inr s1)"
    "controlQueuesOfBranches D C sccToStage bits supported numTasks fuel branches s1 = Some (Inr s')"
    by (auto split: option.splits sum.splits)
  have "keeps_all P s s1"
    by (rule controlQueuesOfBranch_keeps[OF dag fuel _ s1(1)]) (use Cons.prems(1) in simp_all)
  moreover have "keeps_all P s1 s'" using Cons.IH[OF _ s1(2)] Cons.prems(1) by simp
  ultimately show ?case by (rule keeps_all_trans)
qed (simp add: keeps_all_refl)

section \<open>What the analyses say of the loop\<close>

definition inLoop :: "loop_blocks \<Rightarrow> nat \<Rightarrow> bool" where
  "inLoop L n \<longleftrightarrow> parentBlock L n \<in> set (loopBlocks L) \<and> n \<in> set (blockInsts L (parentBlock L n))"

definition exiting :: "loop_blocks \<Rightarrow> nat \<Rightarrow> bool" where
  "exiting L b \<longleftrightarrow> b \<in> set (loopBlocks L) \<and> set (succBlocks L b) \<inter> exitsOfLoop L \<noteq> {}"

text \<open>The branch of a block can be cloned, or a node of the SCCDAG controls with it.\<close>

definition sent_or_cloned :: "sccdag \<Rightarrow> control_graph \<Rightarrow> loop_blocks \<Rightarrow> nat \<Rightarrow> bool" where
  "sent_or_cloned D C L v \<longleftrightarrow>
     canBeCloned D (sccOfValue C (terminatorOf L v)) \<or> terminatorOf L v \<in> snd ` set (conditionalBranchNodes D C)"

text \<open>
  The three views of the loop agree: the SCCDAG, its instructions and its blocks. In particular the
  dependences of the SCCDAG include control dependences, those of exit branches on every component, and
  the stage of the condition of a branch is that of the branch.
\<close>

definition analysed :: "sccdag \<Rightarrow> control_graph \<Rightarrow> loop_blocks \<Rightarrow> (nat \<Rightarrow> nat option) \<Rightarrow> bool" where
  "analysed D C L sccToStage \<longleftrightarrow>
     (\<forall>scc \<in> set (nodes D). \<forall>n. n \<in> instsOfSCC L scc \<longleftrightarrow> inLoop L n \<and> sccOfValue C n = scc) \<and>
     (\<forall>n. inLoop L n \<longrightarrow> sccOfValue C n \<in> set (nodes D)) \<and>
     (\<forall>scc \<in> set (nodes D). \<forall>(fromSCC, deps) \<in> set (incomingEdges D scc). \<forall>(p, c, k) \<in> set deps. k \<noteq> ControlDependence \<longrightarrow>
        inLoop L p \<and> \<not> isTerminator L p \<and> sccOfValue C p = fromSCC \<and> inLoop L c \<and> sccOfValue C c = scc) \<and>
     (\<forall>v \<in> set (loopBlocks L). \<forall>n. inLoop L n \<and> controls L v (parentBlock L n) \<longrightarrow>
        (sccOfValue C (terminatorOf L v), sccOfValue C n) \<in> (dependsOn D)\<^sup>* \<and> sent_or_cloned D C L v) \<and>
     (\<forall>v. exiting L v \<longrightarrow> sent_or_cloned D C L v \<and>
        (\<forall>n \<in> set (nodes D). \<not> canBeCloned D n \<longrightarrow> (sccOfValue C (terminatorOf L v), n) \<in> (dependsOn D)\<^sup>*)) \<and>
     (\<forall>node \<in> set (conditionalBranchNodes D C). inLoop L (snd node) \<and> isTerminator L (snd node) \<and>
        (isControllingLoopExit C (snd node) \<longrightarrow> exiting L (parentBlock L (snd node))) \<and>
        (\<forall>c \<in> sentConditions D C node. inLoop L c \<and> \<not> isTerminator L c \<and>
           (sccOfValue C c, sccOfValue C (snd node)) \<in> (dependsOn D)\<^sup>* \<and>
           sccToStage (sccOfValue C c) = sccToStage (sccOfValue C (snd node)))) \<and>
     (\<forall>b \<in> set (loopBlocks L). reachable_block L b)"

definition partitioned :: "sccdag \<Rightarrow> nat list list \<Rightarrow> bool" where
  "partitioned D sets \<longleftrightarrow>
     pipeline_partition D sets \<and> [] \<notin> set sets \<and> \<Union> (set ` set sets) = {n \<in> set (nodes D). \<not> canBeCloned D n} \<and>
     dependsOn D \<subseteq> set (nodes D) \<times> set (nodes D)"

definition stageOf :: "nat list list \<Rightarrow> nat \<Rightarrow> nat option" where
  "stageOf sets = snd (generateStagesFromPartitionedSCCs sets)"

text \<open>A stage needs a component when one of its own depends on it.\<close>

definition neededBy :: "sccdag \<Rightarrow> nat list list \<Rightarrow> nat \<Rightarrow> nat \<Rightarrow> bool" where
  "neededBy D sets i scc \<longleftrightarrow> (\<exists>m \<in> set (sets ! i). (scc, m) \<in> (dependsOn D)\<^sup>*)"

lemma neededBy_trans: "(x, y) \<in> (dependsOn D)\<^sup>* \<Longrightarrow> neededBy D sets i y \<Longrightarrow> neededBy D sets i x"
  unfolding neededBy_def by (meson rtrancl_trans)

lemma partitioned_stage:
  assumes "partitioned D sets"
  shows "stageOf sets scc = Some i \<longleftrightarrow> i < length sets \<and> scc \<in> set (sets ! i)"
  unfolding stageOf_def by (rule sccToStage_of) (use assms in \<open>simp add: partitioned_def pipeline_partition_def\<close>)

lemma partitioned_member:
  assumes "partitioned D sets" "i < length sets" "scc \<in> set (sets ! i)"
  shows "scc \<in> set (nodes D) \<and> \<not> canBeCloned D scc"
  using assms unfolding partitioned_def by (metis (mono_tags, lifting) UN_I mem_Collect_eq nth_mem)

lemma partitioned_staged:
  assumes "partitioned D sets"
  shows "staged D (stageOf sets)"
proof -
  have "\<exists>i. stageOf sets n = Some i" if n: "n \<in> set (nodes D)" "\<not> canBeCloned D n" for n
  proof -
    have "n \<in> \<Union> (set ` set sets)" using assms n unfolding partitioned_def by blast
    then obtain X where "X \<in> set sets" "n \<in> set X" by blast
    then obtain i where "i < length sets" "n \<in> set (sets ! i)" by (metis in_set_conv_nth)
    then show ?thesis using partitioned_stage[OF assms] by blast
  qed
  then show ?thesis using assms unfolding staged_def partitioned_def by blast
qed

lemma partitioned_forward:
  assumes "partitioned D sets"
  shows "forward_stages D (stageOf sets)"
  unfolding forward_stages_def
proof (intro allI impI, elim conjE)
  fix x y t u assume xy: "(x, y) \<in> (dependsOn D)\<^sup>+" "stageOf sets x = Some t" "stageOf sets y = Some u"
  have "pipeline_partition D sets" using assms by (simp add: partitioned_def)
  then have order: "\<forall>i < length sets. \<forall>j < length sets. \<forall>x \<in> set (sets ! i). \<forall>y \<in> set (sets ! j).
      (x, y) \<in> (dependsOn D)\<^sup>+ \<longrightarrow> i \<le> j" by (simp add: pipeline_partition_def)
  show "t \<le> u" using order xy partitioned_stage[OF assms] by blast
qed

lemma partitioned_closed:
  assumes "partitioned D sets"
  shows "\<forall>n. fst ` set (incomingEdges D n) \<subseteq> set (nodes D)"
  using assms unfolding partitioned_def dependsOn_def by blast

section \<open>The components and instructions of a stage\<close>

definition stages_of :: "sccdag \<Rightarrow> nat \<Rightarrow> nat list list \<Rightarrow> stage list \<Rightarrow> bool" where
  "stages_of D fuel sets tasks \<longleftrightarrow>
     addClonableSCCsToStages D fuel (fst (generateStagesFromPartitionedSCCs sets)) = Some tasks"

lemma stage_components:
  assumes "partitioned D sets" "stages_of D fuel sets tasks" "i < length sets"
  shows "length tasks = length sets" and "stageSCCs (tasks ! i) = sets ! i"
    and "set (sccsOfStage (tasks ! i)) = set (stageSCCs (tasks ! i)) \<union> clonableSCCs (tasks ! i)"
    and "clonableSCCs (tasks ! i) = {p. canBeCloned D p \<and> (\<exists>n \<in> set (sets ! i). (p, n) \<in> (dependsOn D)\<^sup>+)}"
proof -
  have fin: "\<forall>i < length sets. \<forall>n \<in> set (sets ! i). finite {p. (p, n) \<in> (dependsOn D)\<^sup>+}"
    using dependsOn_closed[OF partitioned_closed[OF assms(1)]] by blast
  note st = stage_sccs[OF assms(2)[unfolded stages_of_def] fin assms(3)]
  show "length tasks = length sets" "stageSCCs (tasks ! i) = sets ! i" using st by simp_all
  have nth: "fst (generateStagesFromPartitionedSCCs sets) ! i = \<lparr>stageSCCs = sets ! i, clonableSCCs = {}\<rparr>"
    "length (fst (generateStagesFromPartitionedSCCs sets)) = length sets"
    using assms(3) by (simp_all add: generateStagesFromPartitionedSCCs_def)
  have "collectClonable D fuel (sets ! i) {} {} = Some (clonableSCCs (tasks ! i))"
    using addClonable_stages[OF assms(2)[unfolded stages_of_def]] nth assms(3) by auto
  then show clone: "clonableSCCs (tasks ! i) = {p. canBeCloned D p \<and> (\<exists>n \<in> set (sets ! i). (p, n) \<in> (dependsOn D)\<^sup>+)}"
    by (rule collectClonable_closure)
  then show "set (sccsOfStage (tasks ! i)) = set (stageSCCs (tasks ! i)) \<union> clonableSCCs (tasks ! i)"
    using st(1,3) by simp
qed

lemma needed_component:
  assumes "partitioned D sets" "stages_of D fuel sets tasks" "i < length sets"
  shows "scc \<in> set (stageSCCs (tasks ! i)) \<union> clonableSCCs (tasks ! i) \<Longrightarrow> scc \<in> set (nodes D) \<and> neededBy D sets i scc"
    and "neededBy D sets i scc \<Longrightarrow> canBeCloned D scc \<Longrightarrow> scc \<in> clonableSCCs (tasks ! i)"
proof -
  note st = stage_components[OF assms]
  assume scc: "scc \<in> set (stageSCCs (tasks ! i)) \<union> clonableSCCs (tasks ! i)"
  show "scc \<in> set (nodes D) \<and> neededBy D sets i scc"
  proof (cases "scc \<in> set (sets ! i)")
    case True
    then show ?thesis using partitioned_member[OF assms(1,3)] by (auto simp: neededBy_def)
  next
    case False
    then obtain n where n: "n \<in> set (sets ! i)" "(scc, n) \<in> (dependsOn D)\<^sup>+" using scc st(2,4) by auto
    then obtain m where "(scc, m) \<in> dependsOn D" by (meson tranclD)
    then have "scc \<in> set (nodes D)" using assms(1) unfolding partitioned_def by blast
    then show ?thesis using n by (auto simp: neededBy_def)
  qed
next
  assume need: "neededBy D sets i scc" and clone: "canBeCloned D scc"
  then obtain m where m: "m \<in> set (sets ! i)" "(scc, m) \<in> (dependsOn D)\<^sup>*" by (auto simp: neededBy_def)
  have "scc \<noteq> m" using partitioned_member[OF assms(1,3) m(1)] clone by blast
  then have "(scc, m) \<in> (dependsOn D)\<^sup>+" using m(2) by (simp add: rtrancl_eq_or_trancl)
  then show "scc \<in> clonableSCCs (tasks ! i)" using m(1) clone stage_components(4)[OF assms] by blast
qed

text \<open>What holds of every use of a value that goes through a queue.\<close>

definition queue_fact ::
    "sccdag \<Rightarrow> control_graph \<Rightarrow> loop_blocks \<Rightarrow> nat list list \<Rightarrow> nat \<Rightarrow> nat \<Rightarrow> nat \<Rightarrow> nat \<Rightarrow> bool" where
  "queue_fact D C L sets src dst p c \<longleftrightarrow>
     dst < length sets \<and> inLoop L p \<and> \<not> isTerminator L p \<and> stageOf sets (sccOfValue C p) = Some src \<and>
     neededBy D sets dst (sccOfValue C p) \<and> inLoop L c \<and> neededBy D sets dst (sccOfValue C c)"

lemma data_crossings:
  assumes part: "partitioned D sets" and an: "analysed D C L (stageOf sets)"
    and i: "i < length sets" "scc \<in> set (nodes D)" "neededBy D sets i scc"
  shows "crossings_ok D (stageOf sets) (queue_fact D C L sets) i (incomingEdges D scc)"
  unfolding crossings_ok_def
proof clarify
  fix fromSCC deps src p c k
  assume e: "(fromSCC, deps) \<in> set (incomingEdges D scc)" "stageOf sets fromSCC = Some src" "(p, c, k) \<in> set deps"
    "k \<noteq> ControlDependence"
  have "\<forall>scc \<in> set (nodes D). \<forall>(fromSCC, deps) \<in> set (incomingEdges D scc). \<forall>(p, c, k) \<in> set deps. k \<noteq> ControlDependence \<longrightarrow>
      inLoop L p \<and> \<not> isTerminator L p \<and> sccOfValue C p = fromSCC \<and> inLoop L c \<and> sccOfValue C c = scc"
    using an unfolding analysed_def by (elim conjE)
  then have pc: "inLoop L p" "\<not> isTerminator L p" "sccOfValue C p = fromSCC" "inLoop L c" "sccOfValue C c = scc"
    using i(2) e by fastforce+
  have "(fromSCC, scc) \<in> dependsOn D" using e(1) by (force simp: dependsOn_def)
  then have "neededBy D sets i fromSCC" using neededBy_trans[OF r_into_rtrancl i(3)] by blast
  then show "queue_fact D C L sets src i p c" using pc e(2) i(1,3) by (simp add: queue_fact_def)
qed

text \<open>The parts of what the analyses say.\<close>

lemma analysed_insts:
  assumes "analysed D C L st"
  shows "scc \<in> set (nodes D) \<Longrightarrow> n \<in> instsOfSCC L scc \<longleftrightarrow> inLoop L n \<and> sccOfValue C n = scc"
    and "inLoop L n \<Longrightarrow> sccOfValue C n \<in> set (nodes D)"
  using assms unfolding analysed_def by (elim conjE; simp)+

lemma analysed_controls:
  assumes "analysed D C L st" "v \<in> set (loopBlocks L)" "inLoop L n" "controls L v (parentBlock L n)"
  shows "(sccOfValue C (terminatorOf L v), sccOfValue C n) \<in> (dependsOn D)\<^sup>*" and "sent_or_cloned D C L v"
proof -
  have "\<forall>v \<in> set (loopBlocks L). \<forall>n. inLoop L n \<and> controls L v (parentBlock L n) \<longrightarrow>
      (sccOfValue C (terminatorOf L v), sccOfValue C n) \<in> (dependsOn D)\<^sup>* \<and> sent_or_cloned D C L v"
    using assms(1) unfolding analysed_def by (elim conjE)
  then show "(sccOfValue C (terminatorOf L v), sccOfValue C n) \<in> (dependsOn D)\<^sup>*" "sent_or_cloned D C L v"
    using assms(2-4) by blast+
qed

lemma analysed_exits:
  assumes "analysed D C L st" "exiting L v"
  shows "sent_or_cloned D C L v"
    and "n \<in> set (nodes D) \<Longrightarrow> \<not> canBeCloned D n \<Longrightarrow> (sccOfValue C (terminatorOf L v), n) \<in> (dependsOn D)\<^sup>*"
proof -
  have "\<forall>v. exiting L v \<longrightarrow> sent_or_cloned D C L v \<and>
      (\<forall>n \<in> set (nodes D). \<not> canBeCloned D n \<longrightarrow> (sccOfValue C (terminatorOf L v), n) \<in> (dependsOn D)\<^sup>*)"
    using assms(1) unfolding analysed_def by (elim conjE)
  then show "sent_or_cloned D C L v"
    "n \<in> set (nodes D) \<Longrightarrow> \<not> canBeCloned D n \<Longrightarrow> (sccOfValue C (terminatorOf L v), n) \<in> (dependsOn D)\<^sup>*"
    using assms(2) by blast+
qed

lemma analysed_branches:
  assumes "analysed D C L st" "node \<in> set (conditionalBranchNodes D C)"
  shows "inLoop L (snd node)" and "isTerminator L (snd node)"
    and "isControllingLoopExit C (snd node) \<Longrightarrow> exiting L (parentBlock L (snd node))"
    and "c \<in> sentConditions D C node \<Longrightarrow> inLoop L c \<and> \<not> isTerminator L c \<and>
      (sccOfValue C c, sccOfValue C (snd node)) \<in> (dependsOn D)\<^sup>* \<and> st (sccOfValue C c) = st (sccOfValue C (snd node))"
proof -
  have "\<forall>node \<in> set (conditionalBranchNodes D C). inLoop L (snd node) \<and> isTerminator L (snd node) \<and>
      (isControllingLoopExit C (snd node) \<longrightarrow> exiting L (parentBlock L (snd node))) \<and>
      (\<forall>c \<in> sentConditions D C node. inLoop L c \<and> \<not> isTerminator L c \<and>
         (sccOfValue C c, sccOfValue C (snd node)) \<in> (dependsOn D)\<^sup>* \<and>
         st (sccOfValue C c) = st (sccOfValue C (snd node)))"
    using assms(1) unfolding analysed_def by (elim conjE)
  note n = bspec[OF this assms(2)]
  show "inLoop L (snd node)" "isTerminator L (snd node)"
    "isControllingLoopExit C (snd node) \<Longrightarrow> exiting L (parentBlock L (snd node))" using n by blast+
  show "c \<in> sentConditions D C node \<Longrightarrow> inLoop L c \<and> \<not> isTerminator L c \<and>
      (sccOfValue C c, sccOfValue C (snd node)) \<in> (dependsOn D)\<^sup>* \<and> st (sccOfValue C c) = st (sccOfValue C (snd node))"
    using n by blast
qed

lemma terminator_unique:
  assumes "wf_loop L" "inLoop L n" "isTerminator L n"
  shows "n = terminatorOf L (parentBlock L n)"
proof -
  have b: "parentBlock L n \<in> set (loopBlocks L)" "n \<in> set (blockInsts L (parentBlock L n))"
    using assms(2) by (simp_all add: inLoop_def)
  then have "n \<in> set (butlast (blockInsts L (parentBlock L n))) \<or> n = terminatorOf L (parentBlock L n)"
    using block_split[OF assms(1) b(1)] by (metis Un_iff empty_iff insert_iff list.set(1,2) set_append)
  then show ?thesis using assms(1,3) b(1) unfolding wf_loop_def by blast
qed

lemma terminator_inLoop:
  assumes "wf_loop L" "v \<in> set (loopBlocks L)"
  shows "inLoop L (terminatorOf L v)" and "parentBlock L (terminatorOf L v) = v" and "isTerminator L (terminatorOf L v)"
proof -
  have m: "terminatorOf L v \<in> set (blockInsts L v)" using assms unfolding wf_loop_def terminatorOf_def by (metis last_in_set)
  then show p: "parentBlock L (terminatorOf L v) = v" using assms unfolding wf_loop_def by blast
  show "inLoop L (terminatorOf L v)" using m p assms(2) by (simp add: inLoop_def)
  show "isTerminator L (terminatorOf L v)" using assms by (simp add: wf_loop_def)
qed

text \<open>A stage that a branch is sent to needs the component of the branch.\<close>

lemma branch_needed:
  assumes wf: "wf_loop L" and part: "partitioned D sets" and an: "analysed D C L (stageOf sets)"
    and node: "node \<in> set (conditionalBranchNodes D C)"
    and t: "t \<in> needsCondition D C (stageOf sets) (length sets) (snd node)"
  shows "t < length sets \<and> neededBy D sets t (sccOfValue C (snd node))"
proof (cases "isControllingLoopExit C (snd node)")
  case True
  then have t: "t < length sets" using t by (simp add: needsCondition_def)
  then have "sets ! t \<noteq> []" using part unfolding partitioned_def by (metis nth_mem)
  then obtain m where m: "m \<in> set (sets ! t)" by (meson last_in_set)
  have "exiting L (parentBlock L (snd node))" using analysed_branches(3)[OF an node True] .
  from analysed_exits(2)[OF an this, of m] partitioned_member[OF part t m]
  have "(sccOfValue C (snd node), m) \<in> (dependsOn D)\<^sup>*"
    using terminator_unique[OF wf analysed_branches(1,2)[OF an node]] by simp
  then show ?thesis using t m by (auto simp: neededBy_def)
next
  case False
  then obtain m where "(sccOfValue C (snd node), m) \<in> (dependsOn D)\<^sup>+" "stageOf sets m = Some t"
    using t by (auto simp: needsCondition_def stagesOf_def controlledSCCs_def)
  then show ?thesis using partitioned_stage[OF part] by (auto simp: neededBy_def intro: trancl_into_rtrancl)
qed

lemma condition_queues_fact:
  assumes wf: "wf_loop L" and part: "partitioned D sets" and an: "analysed D C L (stageOf sets)"
    and node: "node \<in> set (conditionalBranchNodes D C)"
  shows "\<forall>(src, t, c, branch) \<in> conditionQueues D C (stageOf sets) (length sets) node. queue_fact D C L sets src t c branch"
proof clarify
  fix src t c branch
  assume "(src, t, c, branch) \<in> conditionQueues D C (stageOf sets) (length sets) node"
  then have q: "branch = snd node" "stageOf sets (sccOfValue C (snd node)) = Some src"
    "t \<in> needsCondition D C (stageOf sets) (length sets) (snd node)" "c \<in> sentConditions D C node"
    by (auto simp: conditionQueues_def)
  note need = branch_needed[OF wf part an node q(3)]
  have "neededBy D sets t (sccOfValue C c)"
    using neededBy_trans analysed_branches(4)[OF an node q(4)] need by blast
  then show "queue_fact D C L sets src t c branch"
    using need analysed_branches(4)[OF an node q(4)] analysed_branches(1)[OF an node] q(1,2) by (simp add: queue_fact_def)
qed

section \<open>The stages have what they need\<close>

text \<open>Every control queue a branch asks for is there.\<close>

definition conditions_sent ::
    "sccdag \<Rightarrow> control_graph \<Rightarrow> nat list list \<Rightarrow> queue_state \<Rightarrow> bool" where
  "conditions_sent D C sets s \<longleftrightarrow>
     (\<forall>node \<in> set (conditionalBranchNodes D C). sentConditions D C node \<noteq> {} \<and>
        (\<forall>(src, dst, p, c) \<in> conditionQueues D C (stageOf sets) (length sets) node. has_queue s src dst p c))"

lemma has_queue_consumer:
  assumes "forward_queues s n" "has_queue s src i p b" "isTerminator L b"
  shows "b \<in> instsOfStage L task s i"
proof -
  obtain q where "q < length (queues s)" "toStage (queues s ! q) = i" "b \<in> queueConsumers (queues s ! q)"
    using assms(2) unfolding has_queue_def by blast
  then have "q \<in> popValueQueues s i" using forward_queues_sets(2)[OF assms(1)] by blast
  then show ?thesis using \<open>b \<in> queueConsumers (queues s ! q)\<close> assms(3) by (auto simp: instsOfStage_def)
qed

lemma branch_in_stage:
  assumes wf: "wf_loop L" and part: "partitioned D sets" and an: "analysed D C L (stageOf sets)"
    and tasks: "stages_of D fuel sets tasks" and i: "i < length sets"
    and fwd: "forward_queues s (length sets)" and sent: "conditions_sent D C sets s"
    and v: "v \<in> set (loopBlocks L)" "sent_or_cloned D C L v" "neededBy D sets i (sccOfValue C (terminatorOf L v))"
  shows "terminatorOf L v \<in> instsOfStage L (tasks ! i) s i"
proof -
  let ?b = "terminatorOf L v" and ?scc = "sccOfValue C (terminatorOf L v)"
  note b = terminator_inLoop[OF wf v(1)]
  have scc: "?scc \<in> set (nodes D)" "?b \<in> instsOfSCC L ?scc" using analysed_insts[OF an] b(1) by simp_all
  note st = stage_components[OF part tasks i]
  show ?thesis
  proof (cases "canBeCloned D ?scc")
    case True
    then show ?thesis using needed_component(2)[OF part tasks i v(3)] scc(2) by (auto simp: instsOfStage_def)
  next
    case False
    then obtain t where t: "stageOf sets ?scc = Some t"
      using partitioned_staged[OF part] scc(1) by (auto simp: staged_def)
    show ?thesis
    proof (cases "t = i")
      case True
      then have "?scc \<in> set (stageSCCs (tasks ! i))" using t partitioned_stage[OF part] st(2) by simp
      then show ?thesis using scc(2) by (auto simp: instsOfStage_def)
    next
      case other: False
      obtain node where node: "node \<in> set (conditionalBranchNodes D C)" "snd node = ?b"
        using v(2) False unfolding sent_or_cloned_def by fastforce
      obtain m where m: "m \<in> set (sets ! i)" "(?scc, m) \<in> (dependsOn D)\<^sup>*" using v(3) by (auto simp: neededBy_def)
      have stage: "stageOf sets m = Some i" using partitioned_stage[OF part] m(1) i by simp
      then have "?scc \<noteq> m" using t other by auto
      then have "(?scc, m) \<in> (dependsOn D)\<^sup>+" using m(2) by (simp add: rtrancl_eq_or_trancl)
      then have "i \<in> stagesOf D (stageOf sets) (controlledSCCs D ?scc)"
        using stage partitioned_member[OF part i m(1)] by (auto simp: stagesOf_def controlledSCCs_def)
      then have need: "i \<in> needsCondition D C (stageOf sets) (length sets) ?b" using i by (simp add: needsCondition_def)
      obtain c where "c \<in> sentConditions D C node" using sent node(1) unfolding conditions_sent_def by blast
      then have "(t, i, c, ?b) \<in> conditionQueues D C (stageOf sets) (length sets) node"
        using t need node(2) other by (auto simp: conditionQueues_def)
      then have "has_queue s t i c ?b" using sent node(1) unfolding conditions_sent_def by blast
      then show ?thesis by (rule has_queue_consumer[OF fwd]) (rule b(3))
    qed
  qed
qed

lemma stage_member:
  assumes part: "partitioned D sets" and an: "analysed D C L (stageOf sets)"
    and tasks: "stages_of D fuel sets tasks" and i: "i < length sets"
    and fwd: "forward_queues s (length sets)" and all: "queue_all (queue_fact D C L sets) s"
    and n: "n \<in> instsOfStage L (tasks ! i) s i"
  shows "inLoop L n \<and> neededBy D sets i (sccOfValue C n)"
proof -
  consider (own) scc where "scc \<in> clonableSCCs (tasks ! i) \<union> set (stageSCCs (tasks ! i))" "n \<in> instsOfSCC L scc"
    | (branch) q where "q \<in> popValueQueues s i" "n \<in> queueConsumers (queues s ! q)"
    using n unfolding instsOfStage_def by auto
  then show ?thesis
  proof cases
    case own
    then have "scc \<in> set (nodes D) \<and> neededBy D sets i scc" using needed_component(1)[OF part tasks i] by blast
    then show ?thesis using analysed_insts(1)[OF an] own(2) by auto
  next
    case branch
    then have "q < length (queues s)" "toStage (queues s ! q) = i" using forward_queues_sets(2)[OF fwd] by auto
    then have "queue_fact D C L sets (fromStage (queues s ! q)) i (queueProducer (queues s ! q)) n"
      using all branch(2) unfolding queue_all_def by auto
    then show ?thesis by (simp add: queue_fact_def)
  qed
qed

lemma needed_controlled:
  assumes wf: "wf_loop L" and part: "partitioned D sets" and an: "analysed D C L (stageOf sets)"
    and tasks: "stages_of D fuel sets tasks" and i: "i < length sets"
    and fwd: "forward_queues s (length sets)" and sent: "conditions_sent D C sets s"
    and n: "inLoop L n" "neededBy D sets i (sccOfValue C n)"
  shows "controlled_by L (instsOfStage L (tasks ! i) s i) (parentBlock L n)"
  unfolding controlled_by_def
proof (intro ballI impI)
  fix v assume v: "v \<in> set (loopBlocks L)" "controls L v (parentBlock L n)"
  note c = analysed_controls[OF an v(1) n(1) v(2)]
  show "terminatorOf L v \<in> instsOfStage L (tasks ! i) s i"
    by (rule branch_in_stage[OF wf part an tasks i fwd sent v(1) c(2) neededBy_trans[OF c(1) n(2)]])
qed

lemma stage_branches_closed:
  assumes wf: "wf_loop L" and part: "partitioned D sets" and an: "analysed D C L (stageOf sets)"
    and tasks: "stages_of D fuel sets tasks" and i: "i < length sets"
    and fwd: "forward_queues s (length sets)" and sent: "conditions_sent D C sets s"
    and all: "queue_all (queue_fact D C L sets) s"
  shows "branches_closed L (instsOfStage L (tasks ! i) s i)"
  unfolding branches_closed_def
proof (intro conjI ballI impI)
  fix n assume n: "n \<in> instsOfStage L (tasks ! i) s i"
  note m = stage_member[OF part an tasks i fwd all n]
  show "parentBlock L n \<in> set (loopBlocks L)" "n \<in> set (blockInsts L (parentBlock L n))" using m by (simp_all add: inLoop_def)
  show "controlled_by L (instsOfStage L (tasks ! i) s i) (parentBlock L n)"
    using needed_controlled[OF wf part an tasks i fwd sent] m by blast
next
  fix b assume b: "b \<in> set (loopBlocks L)" "set (succBlocks L b) \<inter> exitsOfLoop L \<noteq> {}"
  then have exit: "exiting L b" by (simp add: exiting_def)
  have "sets ! i \<noteq> []" using part i unfolding partitioned_def by (metis nth_mem)
  then obtain m where m: "m \<in> set (sets ! i)" by (meson last_in_set)
  then have "neededBy D sets i (sccOfValue C (terminatorOf L b))"
    using analysed_exits(2)[OF an exit] partitioned_member[OF part i m] unfolding neededBy_def by blast
  then show "terminatorOf L b \<in> instsOfStage L (tasks ! i) s i"
    using branch_in_stage[OF wf part an tasks i fwd sent b(1) analysed_exits(1)[OF an exit]] by blast
qed

lemma stage_has_queues:
  assumes wf: "wf_loop L" and part: "partitioned D sets" and an: "analysed D C L (stageOf sets)"
    and tasks: "stages_of D fuel sets tasks" and i: "i < length sets"
    and fwd: "forward_queues s (length sets)" and sent: "conditions_sent D C sets s"
    and all: "queue_all (queue_fact D C L sets) s"
  shows "stage_queues L (instsOfStage L (tasks ! i) s i) s i"
proof -
  note sets = forward_queues_sets[OF fwd]
  have reach: "reachable_block L b" if "b \<in> set (loopBlocks L)" for b
    using an that unfolding analysed_def by (elim conjE) blast
  have fact: "\<exists>c. queue_fact D C L sets (fromStage (queues s ! q)) (toStage (queues s ! q)) (queueProducer (queues s ! q)) c"
    if "q < length (queues s)" for q using all that unfolding queue_all_def by blast
  have "popValueQueues s i \<subseteq> {..<length (queues s)}" "pushValueQueues s i \<subseteq> {..<length (queues s)}" using sets(1,2) by auto
  then have "finite (popValueQueues s i)" "finite (pushValueQueues s i)" using finite_subset by blast+
  moreover have "producerBlock L s q \<in> set (loopBlocks L) \<and> reachable_block L (producerBlock L s q) \<and>
      controlled_by L (instsOfStage L (tasks ! i) s i) (producerBlock L s q)" if q: "q \<in> popValueQueues s i" for q
  proof -
    have "q < length (queues s)" "toStage (queues s ! q) = i" using q sets(2) by auto
    then have p: "inLoop L (queueProducer (queues s ! q))" "neededBy D sets i (sccOfValue C (queueProducer (queues s ! q)))"
      using fact[of q] by (auto simp: queue_fact_def)
    then show ?thesis using needed_controlled[OF wf part an tasks i fwd sent p] reach
      by (simp add: producerBlock_def inLoop_def)
  qed
  moreover have "queueProducer (queues s ! q) \<in> instsOfStage L (tasks ! i) s i \<and> reachable_block L (producerBlock L s q) \<and>
      \<not> isTerminator L (queueProducer (queues s ! q))" if q: "q \<in> pushValueQueues s i" for q
  proof -
    have "q < length (queues s)" "fromStage (queues s ! q) = i" using q sets(1) by auto
    then have p: "inLoop L (queueProducer (queues s ! q))" "\<not> isTerminator L (queueProducer (queues s ! q))"
      "stageOf sets (sccOfValue C (queueProducer (queues s ! q))) = Some i"
      using fact[of q] by (auto simp: queue_fact_def)
    then have "sccOfValue C (queueProducer (queues s ! q)) \<in> set (stageSCCs (tasks ! i))"
      using partitioned_stage[OF part] stage_components(2)[OF part tasks i] by simp
    then have "queueProducer (queues s ! q) \<in> instsOfStage L (tasks ! i) s i"
      using analysed_insts[OF an] p(1) unfolding instsOfStage_def by blast
    then show ?thesis using p reach by (simp add: producerBlock_def inLoop_def)
  qed
  ultimately show ?thesis unfolding stage_queues_def by blast
qed

section \<open>The whole of DSWP\<close>

lemma stageFuel_bound:
  assumes "Suc (\<Sum>b \<in> set (loopBlocks L). Suc (length (succBlocks L b))) \<le> fuel"
  shows "stageFuel L insts \<le> fuel"
proof -
  have "(\<Sum>b \<in> set (loopBlocks L). length (stageSuccs L insts b)) \<le> (\<Sum>b \<in> set (loopBlocks L). Suc (length (succBlocks L b)))"
    by (rule sum_mono) (simp add: stageSuccs_def)
  then show ?thesis using assms by (simp add: stageFuel_def)
qed

lemma exit_branches_first:
  assumes wf: "wf_loop L" and part: "partitioned D sets" and an: "analysed D C L (stageOf sets)"
    and node: "node \<in> set (conditionalBranchNodes D C)" "isControllingLoopExit C (snd node)"
    and t: "stageOf sets (sccOfValue C (snd node)) = Some t"
  shows "t = 0"
proof -
  have len: "0 < length sets" using t partitioned_stage[OF part] by auto
  then have "sets ! 0 \<noteq> []" using part unfolding partitioned_def by (metis nth_mem)
  then obtain m where m: "m \<in> set (sets ! 0)" by (meson last_in_set)
  have stage: "stageOf sets m = Some 0" using partitioned_stage[OF part] m len by simp
  have "(sccOfValue C (snd node), m) \<in> (dependsOn D)\<^sup>*"
    using analysed_exits(2)[OF an analysed_branches(3)[OF an node], of m] partitioned_member[OF part len m]
      terminator_unique[OF wf analysed_branches(1,2)[OF an node(1)]] by simp
  then show ?thesis
    using stage t partitioned_forward[OF part] unfolding forward_stages_def rtrancl_eq_or_trancl by fastforce
qed

lemma data_queues_facts:
  assumes part: "partitioned D sets" and an: "analysed D C L (stageOf sets)" and tasks: "stages_of D fuel sets tasks"
    and data: "collectDataAndMemoryQueueInfo D (stageOf sets) bits supported tasks no_queues = Inr s1"
  shows "queue_inv (\<lambda>src dst. src \<le> dst) s1" and "queue_all (queue_fact D C L sets) s1"
proof -
  have pp: "pipeline_partition D sets" using part by (simp add: partitioned_def)
  show "queue_inv (\<lambda>src dst. src \<le> dst) s1"
    using data_queues[OF pp partitioned_closed[OF part] tasks[unfolded stages_of_def] data[unfolded stageOf_def]]
    by blast
  have "\<forall>i < length tasks. \<forall>scc \<in> set (sccsOfStage (tasks ! i)).
      crossings_ok D (stageOf sets) (queue_fact D C L sets) (0 + i) (incomingEdges D scc)"
  proof (intro allI impI ballI)
    fix i scc assume i: "i < length tasks" and scc: "scc \<in> set (sccsOfStage (tasks ! i))"
    have "length tasks = length sets"
      using addClonable_stages[OF tasks[unfolded stages_of_def]] by (simp add: generateStagesFromPartitionedSCCs_def)
    then have i': "i < length sets" using i by simp
    have "scc \<in> set (nodes D) \<and> neededBy D sets i scc"
      using needed_component(1)[OF part tasks i'] scc stage_components(3)[OF part tasks i'] by blast
    then show "crossings_ok D (stageOf sets) (queue_fact D C L sets) (0 + i) (incomingEdges D scc)"
      using data_crossings[OF part an i'] by simp
  qed
  from collectStages_keeps[OF data[unfolded collectDataAndMemoryQueueInfo_def] this]
  show "queue_all (queue_fact D C L sets) s1"
    by (simp add: keeps_all_def queue_inv_no_queues queue_all_no_queues)
qed

lemma all_queues_facts:
  assumes wf: "wf_loop L" and part: "partitioned D sets" and an: "analysed D C L (stageOf sets)"
    and tasks: "stages_of D fuel1 sets tasks"
    and data: "collectDataAndMemoryQueueInfo D (stageOf sets) bits supported tasks no_queues = Inr s1"
    and send: "\<forall>node \<in> set (conditionalBranchNodes D C). sendable D C (stageOf sets) bits supported node"
    and fuel: "Suc (\<Sum>n \<in> set (nodes D). length (outgoingSCCs D n)) \<le> fuel2"
  shows "\<exists>s. collectControlQueueInfo D C (stageOf sets) bits supported (length sets) fuel2 s1 = Some (Inr s) \<and>
    forward_queues s (length sets) \<and> conditions_sent D C sets s \<and> queue_all (queue_fact D C L sets) s"
proof -
  note dag = partitioned_staged[OF part]
  note d = data_queues_facts[OF part an tasks data]
  have "branchForward D C (stageOf sets) (length sets) (\<lambda>src dst. src \<le> dst) node"
    if node: "node \<in> set (conditionalBranchNodes D C)" for node
  proof (rule branch_forward[OF partitioned_forward[OF part]])
    assume exit: "isControllingLoopExit C (snd node)"
    obtain t where "stageOf sets (sccOfValue C (snd node)) = Some t"
      using send node by (auto simp: sendable_def)
    then show "stageOf sets (sccOfValue C (snd node)) = Some 0"
      using exit_branches_first[OF wf part an node exit] by simp
  qed
  then have fwd: "\<forall>node \<in> set (conditionalBranchNodes D C).
      branchForward D C (stageOf sets) (length sets) (\<lambda>src dst. src \<le> dst) node" by blast
  obtain s where s: "collectControlQueueInfo D C (stageOf sets) bits supported (length sets) fuel2 s1 = Some (Inr s)"
    "queue_inv (\<lambda>src dst. src \<le> dst) s"
    "\<forall>node \<in> set (conditionalBranchNodes D C). \<forall>(src, dst, p, c) \<in> conditionQueues D C (stageOf sets) (length sets) node.
       has_queue s src dst p c"
    using controlQueues[OF dag send fuel d(1) fwd] by (elim exE conjE) (rule that; assumption)
  have "keeps_all (queue_fact D C L sets) s1 s"
  proof (rule controlQueuesOfBranches_keeps[OF dag fuel])
    show "controlQueuesOfBranches D C (stageOf sets) bits supported (length sets) fuel2 (conditionalBranchNodes D C) s1 = Some (Inr s)"
      using s(1) by (simp add: collectControlQueueInfo_def)
    show "\<forall>node \<in> set (conditionalBranchNodes D C). sccOfValue C (snd node) \<in> set (nodes D) \<and>
        (\<forall>(src, t, c, branch) \<in> conditionQueues D C (stageOf sets) (length sets) node. queue_fact D C L sets src t c branch)"
      using send condition_queues_fact[OF wf part an] unfolding sendable_def by blast
  qed
  moreover have "queue_inv (\<lambda>_ _. True) s1" using d(1) by (simp add: queue_inv_def Let_def)
  ultimately have all: "queue_all (queue_fact D C L sets) s" using d(2) by (simp add: keeps_all_def)
  have "toStage (queues s ! q) < length sets" if "q < length (queues s)" for q
    using all that unfolding queue_all_def queue_fact_def by blast
  then have "forward_queues s (length sets)" using s(2) by (simp add: forward_queues_def)
  moreover have "conditions_sent D C sets s"
    using s(3) send unfolding conditions_sent_def sendable_def by blast
  ultimately show ?thesis using s(1) all by blast
qed

text \<open>
  C5: DSWP from the partition to the execution. When the SCCDAG, its instructions and the blocks of the
  loop agree, the partition follows the dependences and every conditional branch has one condition that
  can be sent, then the control queues are registered without an error; the code of every stage is
  generated without a failed assertion and, run on its own, goes to the exit the loop goes to; and the
  stages side by side, with queues of any size, never wait for ever, pop in every queue the value that
  was pushed in the same execution of its block, and are all done after a bounded number of steps, with
  empty queues.
\<close>
theorem dswp_correct:
  assumes "wf_loop L" and "wf_postdom L" and "partitioned D sets" and "analysed D C L (stageOf sets)"
    and "stages_of D fuel1 sets tasks"
    and "collectDataAndMemoryQueueInfo D (stageOf sets) bits supported tasks no_queues = Inr s1"
    and "\<forall>node \<in> set (conditionalBranchNodes D C). sendable D C (stageOf sets) bits supported node"
    and "Suc (\<Sum>n \<in> set (nodes D). length (outgoingSCCs D n)) \<le> fuel2"
    and "Suc (\<Sum>b \<in> set (loopBlocks L). Suc (length (succBlocks L b))) \<le> fuel3"
    and "complete_run L tr" and "0 < cap"
  shows "\<exists>s. collectControlQueueInfo D C (stageOf sets) bits supported (length sets) fuel2 s1 = Some (Inr s) \<and>
    (\<exists>code idx. (\<forall>i < length sets. generateStage L fuel3 s i (tasks ! i) = Some (Inr (code i)) \<and>
        stageRun L (code i) (length tr) (outcomes tr) (loopHeader L) = Some (map ((!) tr) (idx i))) \<and>
      (\<forall>k st. (pipe_step (\<lambda>i. stageEvents (code i) tr (idx i)) (length sets) cap ^^ k) pipe_start st \<longrightarrow>
         k \<le> (\<Sum>i < length sets. length (stageEvents (code i) tr (idx i))) \<and>
         (if finished (\<lambda>i. stageEvents (code i) tr (idx i)) (length sets) st then \<forall>q. buffers st q = []
          else \<exists>st'. pipe_step (\<lambda>i. stageEvents (code i) tr (idx i)) (length sets) cap st st') \<and>
         (\<forall>i < length sets. \<forall>j q v rest. pc st i < length (stageEvents (code i) tr (idx i)) \<and>
            stageEvents (code i) tr (idx i) ! pc st i = (j, PopQueue q) \<and> buffers st q = v # rest \<longrightarrow> v = j)))"
proof -
  obtain s where s: "collectControlQueueInfo D C (stageOf sets) bits supported (length sets) fuel2 s1 = Some (Inr s)"
    "forward_queues s (length sets)" "conditions_sent D C sets s" "queue_all (queue_fact D C L sets) s"
    using all_queues_facts[OF assms(1,3-8)] by blast
  have ready: "\<forall>i < length sets. stage_ready L s fuel3 tasks i"
    using stage_branches_closed[OF assms(1,3-5) _ s(2-4)] stage_has_queues[OF assms(1,3-5) _ s(2-4)]
      stageFuel_bound[OF assms(9)] unfolding stage_ready_def by blast
  show ?thesis by (rule exI[of _ s], rule conjI[OF s(1)])
      (rule dswp_pipeline_runs[OF assms(1,2) ready s(2) assms(10,11)])
qed

section \<open>An example\<close>

text \<open>
  A loop with a conditional update. Component 1 (clonable) is the header, component 2 loads a value
  (20), tests it (21) and branches on the test (22), component 3 computes (30) in the conditional block;
  the unconditional branches are components of their own. The first stage has component 2, the second
  one component 3: it receives the value and the test.
\<close>

definition update_dag :: sccdag where
  "update_dag = \<lparr>nodes = [1, 2, 3, 4, 5],
     incomingEdges = (\<lambda>n.
       if n = 2 then [(1, [(10, 20, VariableDependence), (12, 20, ControlDependence)])]
       else if n = 3 then [(2, [(20, 30, VariableDependence), (22, 30, ControlDependence)])]
       else if n = 4 then [(2, [(22, 32, ControlDependence)])]
       else if n = 5 then [(1, [(12, 40, ControlDependence)])]
       else []),
     canBeCloned = (\<lambda>n. n \<noteq> 2 \<and> n \<noteq> 3)\<rparr>"

definition update_sccOf :: "nat \<Rightarrow> nat" where
  "update_sccOf n = (if n < 20 then 1 else if n < 30 then 2 else if n = 30 then 3 else if n < 40 then 4 else 5)"

definition update_control :: control_graph where
  "update_control = \<lparr>edgesOfSCC = (\<lambda>n. if n = 3 then [(22, True)] else []),
     incomingOfNode = (\<lambda>n i. if n = 3 \<and> i = 22 then [(21, VariableDependence)] else []),
     sccOfValue = update_sccOf, successorBlocks = (\<lambda>b. if b = 22 then [2, 3] else []), loopExitBlocks = {9}\<rparr>"

definition update_loop :: loop_blocks where
  "update_loop = \<lparr>loopBlocks = [0, 1, 2, 3], loopHeader = 0,
     blockInsts = (\<lambda>b. if b = 0 then [10, 11, 12] else if b = 1 then [20, 21, 22] else if b = 2 then [30, 32]
                       else if b = 3 then [40] else []),
     parentBlock = (\<lambda>i. if i < 20 then 0 else if i < 30 then 1 else if i < 40 then 2 else 3),
     isTerminator = (\<lambda>i. i \<in> {12, 22, 32, 40}), isPHI = (\<lambda>i. i = 10),
     succBlocks = (\<lambda>b. if b = 0 then [1, 9] else if b = 1 then [2, 3] else if b = 2 then [3] else if b = 3 then [0] else []),
     exitsOfLoop = {9},
     postDominator = (\<lambda>b. if b = 0 then Some 9 else if b = 1 \<or> b = 2 then Some 3 else if b = 3 then Some 0 else None),
     instsOfSCC = (\<lambda>n. if n = 1 then {10, 11, 12} else if n = 2 then {20, 21, 22} else if n = 3 then {30}
                       else if n = 4 then {32} else if n = 5 then {40} else {})\<rparr>"

lemma update_loop_wf: "wf_loop update_loop"
  by (simp add: wf_loop_def update_loop_def terminatorOf_def)

lemma update_loop_postdom: "wf_postdom update_loop"
proof -
  have paths: "loop_path update_loop [0, 9]" "loop_path update_loop [1, 3, 0, 9]" "loop_path update_loop [2, 3, 0, 9]"
    "loop_path update_loop [3, 0, 9]"
    by (simp_all add: loop_path_def update_loop_def)
  have next2: "3 \<in> set p" if "loop_path update_loop (2 # p)" "p \<noteq> []" for p
    using that by (cases p) (auto simp: loop_path_def update_loop_def)
  have next3: "0 \<in> set p" if "loop_path update_loop (3 # p)" "p \<noteq> []" for p
    using that by (cases p) (auto simp: loop_path_def update_loop_def)
  have next1: "3 \<in> set p" if p: "loop_path update_loop (1 # p)" "p \<noteq> []" "last p = 9" for p
  proof -
    obtain x q where q: "p = x # q" using p(2) by (cases p) auto
    have "x = 2 \<or> x = 3" using p(1) q by (auto simp: loop_path_def update_loop_def)
    moreover have "loop_path update_loop (x # q)" using loop_path_suffix[of update_loop "[1]" "x # q"] p(1) q by simp
    moreover have "x = 2 \<Longrightarrow> q \<noteq> []" using p(3) q by auto
    ultimately show ?thesis using next2[of q] q by auto
  qed
  have next0: "p \<noteq> [] \<Longrightarrow> last p = 9 \<Longrightarrow> 9 \<in> set p" for p :: "nat list" by (metis last_in_set)
  have defs: "loopBlocks update_loop = [0, 1, 2, 3]" "exitsOfLoop update_loop = {9}"
    "postDominator update_loop 0 = Some 9" "postDominator update_loop 1 = Some 3"
    "postDominator update_loop 2 = Some 3" "postDominator update_loop 3 = Some 0" by (simp_all add: update_loop_def)
  have reach: "\<exists>p. loop_path update_loop (b # p) \<and> p \<noteq> [] \<and> last p \<in> {9}" if b: "b \<in> set [0, 1, 2, 3]" for b
  proof -
    have "(if b = 0 then [0, 9] else if b = 1 then [1, 3, 0, 9] else if b = 2 then [2, 3, 0, 9] else [3, 0, 9]) =
        b # (if b = 0 then [9] else if b = 3 then [0, 9] else [3, 0, 9])" using b by auto
    then show ?thesis using paths b
      by (intro exI[of _ "if b = 0 then [9] else if b = 3 then [0, 9] else [3, 0, 9]"]) auto
  qed
  show ?thesis unfolding wf_postdom_def defs using reach next0 next1 next2 next3 defs by auto
qed

lemma update_deps:
  "(x, y) \<in> dependsOn update_dag \<longleftrightarrow> (x, y) \<in> {(1, 2), (2, 3), (2, 4), (1, 5)}"
  by (auto simp: dependsOn_def update_dag_def split: if_splits)

lemma update_depends:
  "(1, 2) \<in> (dependsOn update_dag)\<^sup>*" "(2, 3) \<in> (dependsOn update_dag)\<^sup>*" "(2, 4) \<in> (dependsOn update_dag)\<^sup>*"
  "(1, 3) \<in> (dependsOn update_dag)\<^sup>*" "(1, 4) \<in> (dependsOn update_dag)\<^sup>*" "(1, 5) \<in> (dependsOn update_dag)\<^sup>*"
proof -
  have d: "(1, 2) \<in> dependsOn update_dag" "(2, 3) \<in> dependsOn update_dag" "(2, 4) \<in> dependsOn update_dag"
    "(1, 5) \<in> dependsOn update_dag" by (simp_all add: update_deps)
  then show "(1, 2) \<in> (dependsOn update_dag)\<^sup>*" "(2, 3) \<in> (dependsOn update_dag)\<^sup>*" "(2, 4) \<in> (dependsOn update_dag)\<^sup>*"
    "(1, 5) \<in> (dependsOn update_dag)\<^sup>*" by blast+
  show "(1, 3) \<in> (dependsOn update_dag)\<^sup>*" "(1, 4) \<in> (dependsOn update_dag)\<^sup>*"
    using d by (blast intro: rtrancl_into_rtrancl)+
qed

lemma update_last: "(3, y) \<notin> (dependsOn update_dag)\<^sup>+"
proof
  assume "(3, y) \<in> (dependsOn update_dag)\<^sup>+"
  then obtain z where "(3, z) \<in> dependsOn update_dag" by (meson tranclD)
  then show False by (simp add: update_deps)
qed

lemma update_partitioned: "partitioned update_dag [[2], [3]]"
proof -
  have "pipeline_partition update_dag [[2], [3]]"
    unfolding pipeline_partition_def by (simp add: All_less_Suc numeral_2_eq_2 update_last[simplified])
  moreover have nodes: "nodes update_dag = [1, 2, 3, 4, 5]" and clone: "canBeCloned update_dag n \<longleftrightarrow> n \<noteq> 2 \<and> n \<noteq> 3" for n
    by (simp_all add: update_dag_def)
  have "dependsOn update_dag \<subseteq> set (nodes update_dag) \<times> set (nodes update_dag)"
  proof (rule subrelI)
    fix x y assume "(x, y) \<in> dependsOn update_dag"
    then have "(x, y) \<in> {(1, 2), (2, 3), (2, 4), (1, 5)}" by (rule iffD1[OF update_deps])
    then show "(x, y) \<in> set (nodes update_dag) \<times> set (nodes update_dag)" unfolding nodes by auto
  qed
  moreover have "\<Union> (set ` set [[2], [3]]) = {n \<in> set (nodes update_dag). \<not> canBeCloned update_dag n}"
    unfolding nodes clone by auto
  ultimately show ?thesis unfolding partitioned_def by simp
qed

lemma update_fields:
  "nodes update_dag = [1, 2, 3, 4, 5]" "loopBlocks update_loop = [0, 1, 2, 3]" "exitsOfLoop update_loop = {9}"
  "sccOfValue update_control = update_sccOf" "isControllingLoopExit update_control 22 = False"
  "conditionalBranchNodes update_dag update_control = [(3, 22)]"
  "sentConditions update_dag update_control (3, 22) = {21}"
  by (auto simp: update_dag_def update_loop_def update_control_def isControllingLoopExit_def conditionalBranchNodes_def
      hasDataDependency_def sentConditions_def update_sccOf_def)

lemma update_inLoop: "inLoop update_loop n \<longleftrightarrow> n \<in> {10, 11, 12, 20, 21, 22, 30, 32, 40}"
  by (auto simp: inLoop_def update_loop_def split: if_splits)

lemma update_terminators:
  "terminatorOf update_loop 0 = 12" "terminatorOf update_loop 1 = 22" "terminatorOf update_loop 2 = 32"
  "terminatorOf update_loop 3 = 40"
  by (simp_all add: terminatorOf_def update_loop_def)

lemma update_controls:
  assumes "controls update_loop v b" "v \<in> set (loopBlocks update_loop)"
  shows "v = 0 \<or> v = 1 \<and> b = 2"
proof -
  have pd: "postDominator update_loop 0 = Some 9" "postDominator update_loop 1 = Some 3" "postDominator update_loop 2 = Some 3"
    "postDominator update_loop 3 = Some 0" by (simp_all add: update_loop_def)
  have none: "(2, y) \<notin> controlEdges update_loop 3" "(3, y) \<notin> controlEdges update_loop 0" for y
    by (auto simp: controlEdges_def update_loop_def)
  have one: "(1, y) \<in> controlEdges update_loop 3 \<Longrightarrow> y = 2" for y
    by (auto simp: controlEdges_def update_loop_def)
  have two: "(2, y) \<notin> (controlEdges update_loop 3)\<^sup>+" for y using none(1) by (meson tranclD)
  consider "v = 0" | "v = 1" | "v = 2" | "v = 3" using assms(2) unfolding update_fields by auto
  then show ?thesis
  proof cases
    case 2
    then have "(1, b) \<in> (controlEdges update_loop 3)\<^sup>+" using assms(1) pd by (simp add: controls_def)
    then obtain y where "(1, y) \<in> controlEdges update_loop 3" "(y, b) \<in> (controlEdges update_loop 3)\<^sup>*" by (meson tranclD)
    then have "b = 2" using one two by (metis rtrancl_eq_or_trancl)
    then show ?thesis using 2 by simp
  next
    case 3
    then show ?thesis using assms(1) pd two by (simp add: controls_def)
  next
    case 4
    then have "(3, b) \<in> (controlEdges update_loop 0)\<^sup>+" using assms(1) pd by (simp add: controls_def)
    then show ?thesis using none(2) by (meson tranclD)
  qed simp
qed

lemma update_header_controls: "n \<in> set (nodes update_dag) \<Longrightarrow> (1, n) \<in> (dependsOn update_dag)\<^sup>*"
  unfolding update_fields using update_depends by auto

lemma update_sent:
  "sent_or_cloned update_dag update_control update_loop 0" "sent_or_cloned update_dag update_control update_loop 1"
  unfolding sent_or_cloned_def update_fields update_terminators by (simp_all add: update_sccOf_def update_dag_def)

lemma update_stage: "stageOf [[2], [3]] = [2 \<mapsto> 0, 3 \<mapsto> 1]"
  by (simp add: stageOf_def generateStagesFromPartitionedSCCs_def assignStage_def)

lemma update_reachable: "b \<in> set (loopBlocks update_loop) \<Longrightarrow> reachable_block update_loop b"
proof -
  assume "b \<in> set (loopBlocks update_loop)"
  then consider "b = 0" | "b = 1" | "b = 2" | "b = 3" unfolding update_fields by auto
  then show ?thesis unfolding reachable_block_def
    by cases (rule exI[of _ "[]"] exI[of _ "[1]"] exI[of _ "[1, 2]"] exI[of _ "[1, 3]"],
        simp add: loop_path_def update_loop_def)+
qed

lemma update_analysed: "analysed update_dag update_control update_loop (stageOf [[2], [3]])"
  unfolding analysed_def
proof (intro conjI ballI allI impI)
  fix scc n assume "scc \<in> set (nodes update_dag)"
  then show "n \<in> instsOfSCC update_loop scc \<longleftrightarrow> inLoop update_loop n \<and> sccOfValue update_control n = scc"
    unfolding update_fields update_inLoop by (auto simp: update_loop_def update_sccOf_def)
next
  fix n assume "inLoop update_loop n"
  then show "sccOfValue update_control n \<in> set (nodes update_dag)"
    unfolding update_fields update_inLoop by (auto simp: update_sccOf_def)
next
  fix scc e assume "scc \<in> set (nodes update_dag)" "e \<in> set (incomingEdges update_dag scc)"
  then show "case e of (fromSCC, deps) \<Rightarrow> \<forall>(p, c, k) \<in> set deps. k \<noteq> ControlDependence \<longrightarrow>
      inLoop update_loop p \<and> \<not> isTerminator update_loop p \<and> sccOfValue update_control p = fromSCC \<and>
      inLoop update_loop c \<and> sccOfValue update_control c = scc"
    unfolding update_fields update_inLoop
    by (auto simp: update_dag_def update_loop_def update_sccOf_def split: if_splits)
next
  fix v n assume v: "v \<in> set (loopBlocks update_loop)" and n: "inLoop update_loop n \<and> controls update_loop v (parentBlock update_loop n)"
  then consider "v = 0" | "v = 1" "parentBlock update_loop n = 2" using update_controls by blast
  then have "(sccOfValue update_control (terminatorOf update_loop v), sccOfValue update_control n) \<in> (dependsOn update_dag)\<^sup>* \<and>
      sent_or_cloned update_dag update_control update_loop v"
  proof cases
    case 1
    have "sccOfValue update_control n \<in> set (nodes update_dag)"
      using n unfolding update_fields update_inLoop by (auto simp: update_sccOf_def)
    then show ?thesis using 1 update_header_controls update_sent(1)
      by (simp add: update_terminators update_fields(4)) (simp add: update_sccOf_def)
  next
    case 2
    have "n = 30 \<or> n = 32" using n 2(2) unfolding update_inLoop by (auto simp: update_loop_def)
    then have "update_sccOf n = 3 \<or> update_sccOf n = 4" by (auto simp: update_sccOf_def)
    moreover have "update_sccOf (terminatorOf update_loop v) = 2"
      unfolding 2(1) update_terminators by (simp add: update_sccOf_def)
    ultimately show ?thesis using update_depends(2,3) update_sent(2) unfolding update_fields(4) 2(1) by auto
  qed
  then show "(sccOfValue update_control (terminatorOf update_loop v), sccOfValue update_control n) \<in> (dependsOn update_dag)\<^sup>*"
    "sent_or_cloned update_dag update_control update_loop v" by blast+
next
  fix v assume "exiting update_loop v"
  then have v: "v = 0" by (auto simp: exiting_def update_loop_def split: if_splits)
  show "sent_or_cloned update_dag update_control update_loop v" using v update_sent(1) by simp
  show "(sccOfValue update_control (terminatorOf update_loop v), n) \<in> (dependsOn update_dag)\<^sup>*"
    if "n \<in> set (nodes update_dag)" for n
    using update_header_controls[OF that] v by (simp add: update_terminators update_fields(4) update_sccOf_def)
next
  fix node assume "node \<in> set (conditionalBranchNodes update_dag update_control)"
  then have node: "node = (3, 22)" by (simp add: update_fields)
  show "inLoop update_loop (snd node)" "isTerminator update_loop (snd node)"
    using node by (simp_all add: update_inLoop) (simp add: update_loop_def)
  show "exiting update_loop (parentBlock update_loop (snd node))" if "isControllingLoopExit update_control (snd node)"
    using that node by (simp add: update_fields)
  fix c assume "c \<in> sentConditions update_dag update_control node"
  then have c: "c = 21" using node by (simp add: update_fields)
  show "inLoop update_loop c" "\<not> isTerminator update_loop c" using c by (simp_all add: update_inLoop) (simp add: update_loop_def)
  show "(sccOfValue update_control c, sccOfValue update_control (snd node)) \<in> (dependsOn update_dag)\<^sup>*"
    "stageOf [[2], [3]] (sccOfValue update_control c) = stageOf [[2], [3]] (sccOfValue update_control (snd node))"
    using c node by (simp_all add: update_fields update_sccOf_def)
qed (rule update_reachable)

definition update_tasks :: "stage list" where
  "update_tasks = [\<lparr>stageSCCs = [2], clonableSCCs = {1}\<rparr>, \<lparr>stageSCCs = [3], clonableSCCs = {1}\<rparr>]"

lemma update_stages: "stages_of update_dag 6 [[2], [3]] update_tasks"
  by (simp add: stages_of_def generateStagesFromPartitionedSCCs_def update_dag_def update_tasks_def numeral_eq_Suc)

lemma update_data:
  "\<exists>s1. collectDataAndMemoryQueueInfo update_dag (stageOf [[2], [3]]) (\<lambda>p. 32) (\<lambda>b. True) update_tasks no_queues = Inr s1"
  by (simp add: collectDataAndMemoryQueueInfo_def update_stage update_dag_def update_tasks_def sccsOfStage_def
      registerQueue_def no_queues_def Let_def)

lemma update_sendable:
  "\<forall>node \<in> set (conditionalBranchNodes update_dag update_control).
     sendable update_dag update_control (stageOf [[2], [3]]) (\<lambda>p. 32) (\<lambda>b. True) node"
proof -
  have "MemoryDependence \<notin> snd ` set (incomingOfNode update_control 3 22)" by (simp add: update_control_def)
  then show ?thesis unfolding update_fields update_stage sendable_def by (simp add: update_fields) (simp add: update_sccOf_def)
qed

lemma update_run: "complete_run update_loop [0, 1, 2, 3, 0, 1, 3, 0, 9]"
  by (simp add: complete_run_def loop_path_def update_loop_def)

lemma dswp_correct_witness:
  "\<exists>evs. \<forall>k st. (pipe_step evs 2 4 ^^ k) pipe_start st \<longrightarrow>
     (if finished evs 2 st then \<forall>q. buffers st q = [] else \<exists>st'. pipe_step evs 2 4 st st')"
proof -
  obtain s1 where data: "collectDataAndMemoryQueueInfo update_dag (stageOf [[2], [3]]) (\<lambda>p. 32) (\<lambda>b. True)
      update_tasks no_queues = Inr s1" using update_data by blast
  have fuel2: "Suc (\<Sum>n \<in> set (nodes update_dag). length (outgoingSCCs update_dag n)) \<le> 5"
    by (simp add: outgoingSCCs_def update_dag_def)
  have fuel3: "Suc (\<Sum>b \<in> set (loopBlocks update_loop). Suc (length (succBlocks update_loop b))) \<le> 11"
    by (simp add: update_loop_def)
  have cap: "0 < (4 :: nat)" by simp
  have len: "length [[2 :: nat], [3]] = 2" by simp
  obtain code idx where all: "\<forall>k st. (pipe_step (\<lambda>i. stageEvents (code i) [0, 1, 2, 3, 0, 1, 3, 0, 9] (idx i)) (length [[2 :: nat], [3]]) 4 ^^ k)
         pipe_start st \<longrightarrow>
       k \<le> (\<Sum>i < length [[2 :: nat], [3]]. length (stageEvents (code i) [0, 1, 2, 3, 0, 1, 3, 0, 9] (idx i))) \<and>
       (if finished (\<lambda>i. stageEvents (code i) [0, 1, 2, 3, 0, 1, 3, 0, 9] (idx i)) (length [[2 :: nat], [3]]) st
        then \<forall>q. buffers st q = []
        else \<exists>st'. pipe_step (\<lambda>i. stageEvents (code i) [0, 1, 2, 3, 0, 1, 3, 0, 9] (idx i)) (length [[2 :: nat], [3]]) 4 st st') \<and>
       (\<forall>i < length [[2 :: nat], [3]]. \<forall>j q v rest.
          pc st i < length (stageEvents (code i) [0, 1, 2, 3, 0, 1, 3, 0, 9] (idx i)) \<and>
          stageEvents (code i) [0, 1, 2, 3, 0, 1, 3, 0, 9] (idx i) ! pc st i = (j, PopQueue q) \<and> buffers st q = v # rest \<longrightarrow> v = j)"
    using dswp_correct[OF update_loop_wf update_loop_postdom update_partitioned update_analysed update_stages data
        update_sendable fuel2 fuel3 update_run cap]
    by (elim exE conjE) (rule that; assumption)
  show ?thesis
    by (rule exI[of _ "\<lambda>i. stageEvents (code i) [0, 1, 2, 3, 0, 1, 3, 0, 9] (idx i)"]) (use all[unfolded len] in blast)
qed

section \<open>The check of the stages\<close>

lemma noSCCTwice_result:
  "distinct sccs \<Longrightarrow> set sccs \<inter> A = {} \<Longrightarrow> noSCCTwice sccs A = Some (A \<union> set sccs)"
  by (induction sccs arbitrary: A) auto

lemma collectAllSCCs_result:
  assumes "\<forall>i < length tasks. distinct (stageSCCs (tasks ! i)) \<and> set (stageSCCs (tasks ! i)) \<inter> A = {} \<and>
      (\<forall>k < i. set (stageSCCs (tasks ! i)) \<inter> (set (stageSCCs (tasks ! k)) \<union> clonableSCCs (tasks ! k)) = {})"
  shows "collectAllSCCs tasks A = Some (A \<union> (\<Union>task \<in> set tasks. set (stageSCCs task) \<union> clonableSCCs task))"
  using assms
proof (induction tasks arbitrary: A)
  case (Cons task tasks)
  have first: "distinct (stageSCCs task)" "set (stageSCCs task) \<inter> A = {}" using Cons.prems by force+
  let ?A = "A \<union> set (stageSCCs task) \<union> clonableSCCs task"
  have "distinct (stageSCCs (tasks ! i)) \<and> set (stageSCCs (tasks ! i)) \<inter> ?A = {} \<and>
      (\<forall>k < i. set (stageSCCs (tasks ! i)) \<inter> (set (stageSCCs (tasks ! k)) \<union> clonableSCCs (tasks ! k)) = {})"
    if i: "i < length tasks" for i
  proof -
    have all: "distinct (stageSCCs ((task # tasks) ! Suc i)) \<and> set (stageSCCs ((task # tasks) ! Suc i)) \<inter> A = {} \<and>
        (\<forall>k < Suc i. set (stageSCCs ((task # tasks) ! Suc i)) \<inter>
           (set (stageSCCs ((task # tasks) ! k)) \<union> clonableSCCs ((task # tasks) ! k)) = {})"
      using Cons.prems i by (metis Suc_less_eq length_Cons)
    have "set (stageSCCs (tasks ! i)) \<inter> (set (stageSCCs task) \<union> clonableSCCs task) = {}"
      using all[THEN conjunct2, THEN conjunct2, rule_format, of 0] by simp
    moreover have "\<forall>k < i. set (stageSCCs (tasks ! i)) \<inter> (set (stageSCCs (tasks ! k)) \<union> clonableSCCs (tasks ! k)) = {}"
      using all by (metis Suc_less_eq nth_Cons_Suc)
    ultimately show ?thesis using all by auto
  qed
  then have "collectAllSCCs tasks ?A = Some (?A \<union> (\<Union>task \<in> set tasks. set (stageSCCs task) \<union> clonableSCCs task))"
    using Cons.IH by blast
  then show ?case using noSCCTwice_result[OF first] by (simp add: Un_assoc Un_left_commute)
qed simp

text \<open>
  C38: the stages are well-formed. The stages made from a partition of the components that cannot be
  cloned, with the clonable components added to each, pass the check that \<open>apply\<close> asserts: no component
  is in two stages, or in one and cloned in an earlier one, and every component that cannot be cloned
  is in a stage.
\<close>
theorem stages_complete_and_valid:
  assumes "partitioned D sets" and "stages_of D fuel sets tasks" and "\<forall>sccs \<in> set sets. distinct sccs"
  shows "isCompleteAndValidStageStructure D tasks"
proof -
  note st = stage_components[OF assms(1,2)]
  have len: "length tasks = length sets"
    using addClonable_stages[OF assms(2)[unfolded stages_of_def]] by (simp add: generateStagesFromPartitionedSCCs_def)
  have disj: "\<forall>i < length sets. \<forall>j < length sets. i \<noteq> j \<longrightarrow> set (sets ! i) \<inter> set (sets ! j) = {}"
    using assms(1) unfolding partitioned_def pipeline_partition_def by (elim conjE)
  have "set (sets ! i) \<inter> (set (sets ! k) \<union> clonableSCCs (tasks ! k)) = {}" if "k < i" "i < length sets" for i k
  proof -
    have "set (sets ! i) \<inter> set (sets ! k) = {}" using disj that by (metis less_trans nat_neq_iff)
    moreover have "\<forall>scc \<in> clonableSCCs (tasks ! k). canBeCloned D scc" using st(4)[of k] that by simp
    ultimately show ?thesis using partitioned_member[OF assms(1) that(2)] by blast
  qed
  then have "collectAllSCCs tasks {} = Some ({} \<union> (\<Union>task \<in> set tasks. set (stageSCCs task) \<union> clonableSCCs task))"
    by (intro collectAllSCCs_result) (use assms(3) st(2) len in simp)
  moreover have "n \<in> (\<Union>task \<in> set tasks. set (stageSCCs task))" if n: "n \<in> set (nodes D)" "\<not> canBeCloned D n" for n
  proof -
    have "n \<in> \<Union> (set ` set sets)" using assms(1) n unfolding partitioned_def by blast
    then obtain X where "X \<in> set sets" "n \<in> set X" by blast
    then obtain i where i: "i < length sets" "n \<in> set (sets ! i)" by (metis in_set_conv_nth)
    then have "tasks ! i \<in> set tasks" "n \<in> set (stageSCCs (tasks ! i))" using len st(2)[OF i(1)] by auto
    then show ?thesis by blast
  qed
  ultimately show ?thesis by (auto simp: isCompleteAndValidStageStructure_def list_all_iff)
qed

lemma stages_complete_and_valid_witness: "isCompleteAndValidStageStructure update_dag update_tasks"
  by (rule stages_complete_and_valid[OF update_partitioned update_stages]) simp

end
