(* ===== verification/Dswp_Environment.thy ===== *)
theory Dswp_Environment
  imports Dswp_Stages
begin

text \<open>
  The environment of a DSWP pipeline (\<open>dswp/src/Environment.cpp\<close>): which stage loads which live-in
  variable of the loop, and which one stores a live-out variable.
\<close>

section \<open>Live-in and live-out variables\<close>

text \<open>
  What each stage (by number) loads and stores: variables of the environment by number, with their
  producer and the consumers of a producer. \<open>sccToStage\<close> is a map, \<open>find\<close> and \<open>at\<close> of which are asserted.
\<close>

definition loadInStages :: "nat list \<Rightarrow> nat \<Rightarrow> (nat \<Rightarrow> nat set) \<Rightarrow> nat \<Rightarrow> nat set" where
  "loadInStages stages envID users = fold (\<lambda>i users. users(i := insert envID (users i))) stages users"

definition cloners :: "stage list \<Rightarrow> nat \<Rightarrow> nat list" where
  "cloners tasks scc = filter (\<lambda>i. scc \<in> clonableSCCs (tasks ! i)) [0..<length tasks]"

fun loadForConsumers ::
    "sccdag \<Rightarrow> (nat \<Rightarrow> nat) \<Rightarrow> (nat \<Rightarrow> nat option) \<Rightarrow> stage list \<Rightarrow> nat \<Rightarrow> nat list \<Rightarrow> (nat \<Rightarrow> nat set) \<Rightarrow>
     (nat \<Rightarrow> nat set) result" where
  "loadForConsumers D sccOf sccToStage tasks envID [] users = Inr users"
| "loadForConsumers D sccOf sccToStage tasks envID (consumer # consumers) users =
     (let consumerSCC = sccOf consumer in
      if canBeCloned D consumerSCC then
        loadForConsumers D sccOf sccToStage tasks envID consumers (loadInStages (cloners tasks consumerSCC) envID users)
      else case sccToStage consumerSCC of
        None \<Rightarrow> Inl AssertionFailed
      | Some i \<Rightarrow> loadForConsumers D sccOf sccToStage tasks envID consumers (loadInStages [i] envID users))"

fun collectLiveInEnvInfo ::
    "sccdag \<Rightarrow> (nat \<Rightarrow> nat) \<Rightarrow> (nat \<Rightarrow> nat option) \<Rightarrow> stage list \<Rightarrow> (nat \<Rightarrow> nat) \<Rightarrow> (nat \<Rightarrow> nat list) \<Rightarrow> nat list \<Rightarrow>
     (nat \<Rightarrow> nat set) \<Rightarrow> (nat \<Rightarrow> nat set) result" where
  "collectLiveInEnvInfo D sccOf sccToStage tasks producer consumersOf [] users = Inr users"
| "collectLiveInEnvInfo D sccOf sccToStage tasks producer consumersOf (envID # envIDs) users =
     (case loadForConsumers D sccOf sccToStage tasks envID (consumersOf (producer envID)) users of
        Inl e \<Rightarrow> Inl e
      | Inr users \<Rightarrow> collectLiveInEnvInfo D sccOf sccToStage tasks producer consumersOf envIDs users)"

fun collectLiveOutEnvInfo ::
    "sccdag \<Rightarrow> (nat \<Rightarrow> nat) \<Rightarrow> (nat \<Rightarrow> nat option) \<Rightarrow> stage list \<Rightarrow> (nat \<Rightarrow> nat) \<Rightarrow> nat list \<Rightarrow>
     (nat \<Rightarrow> nat set) \<Rightarrow> (nat \<Rightarrow> nat set) result" where
  "collectLiveOutEnvInfo D sccOf sccToStage tasks producer [] users = Inr users"
| "collectLiveOutEnvInfo D sccOf sccToStage tasks producer (envID # envIDs) users =
     (let producerSCC = sccOf (producer envID) in
      if canBeCloned D producerSCC then
        collectLiveOutEnvInfo D sccOf sccToStage tasks producer envIDs
          (loadInStages (take 1 (cloners tasks producerSCC)) envID users)
      else case sccToStage producerSCC of
        None \<Rightarrow> Inl AssertionFailed
      | Some i \<Rightarrow> collectLiveOutEnvInfo D sccOf sccToStage tasks producer envIDs (loadInStages [i] envID users))"

section \<open>Who loads and who stores\<close>

lemma loadInStages_apply:
  "loadInStages stages envID users i = (if i \<in> set stages then insert envID (users i) else users i)"
  unfolding loadInStages_def by (induction stages arbitrary: users) auto

text \<open>The stages in which a component is executed.\<close>

definition runsIn :: "sccdag \<Rightarrow> (nat \<Rightarrow> nat option) \<Rightarrow> stage list \<Rightarrow> nat \<Rightarrow> nat \<Rightarrow> bool" where
  "runsIn D sccToStage tasks scc i \<longleftrightarrow>
     (if canBeCloned D scc then i < length tasks \<and> scc \<in> clonableSCCs (tasks ! i) else sccToStage scc = Some i)"

lemma cloners_set: "i \<in> set (cloners tasks scc) \<longleftrightarrow> i < length tasks \<and> scc \<in> clonableSCCs (tasks ! i)"
  by (auto simp: cloners_def)

lemma loadForConsumers_result:
  assumes "\<forall>c \<in> set consumers. canBeCloned D (sccOf c) \<or> sccToStage (sccOf c) \<noteq> None"
  shows "\<exists>users'. loadForConsumers D sccOf sccToStage tasks envID consumers users = Inr users' \<and>
    (\<forall>i e. e \<in> users' i \<longleftrightarrow> e \<in> users i \<or> e = envID \<and> (\<exists>c \<in> set consumers. runsIn D sccToStage tasks (sccOf c) i))"
  using assms
proof (induction consumers arbitrary: users)
  case (Cons c consumers)
  define stages where "stages = (if canBeCloned D (sccOf c) then cloners tasks (sccOf c)
      else case sccToStage (sccOf c) of None \<Rightarrow> [] | Some i \<Rightarrow> [i])"
  have run: "loadForConsumers D sccOf sccToStage tasks envID (c # consumers) users =
      loadForConsumers D sccOf sccToStage tasks envID consumers (loadInStages stages envID users)"
    using Cons.prems by (auto simp: stages_def Let_def split: option.splits)
  have "i \<in> set stages \<longleftrightarrow> runsIn D sccToStage tasks (sccOf c) i" for i
    by (auto simp: stages_def runsIn_def cloners_set split: option.splits)
  moreover obtain users' where "loadForConsumers D sccOf sccToStage tasks envID consumers (loadInStages stages envID users) = Inr users'"
    "\<forall>i e. e \<in> users' i \<longleftrightarrow> e \<in> loadInStages stages envID users i \<or>
       e = envID \<and> (\<exists>c \<in> set consumers. runsIn D sccToStage tasks (sccOf c) i)"
    using Cons.IH[of "loadInStages stages envID users"] Cons.prems by auto
  ultimately show ?case unfolding run by (intro exI[of _ users']) (auto simp: loadInStages_apply)
qed simp

lemma collectLiveInEnvInfo_result:
  assumes "\<forall>e \<in> set envIDs. \<forall>c \<in> set (consumersOf (producer e)). canBeCloned D (sccOf c) \<or> sccToStage (sccOf c) \<noteq> None"
  shows "\<exists>users'. collectLiveInEnvInfo D sccOf sccToStage tasks producer consumersOf envIDs users = Inr users' \<and>
    (\<forall>i e. e \<in> users' i \<longleftrightarrow> e \<in> users i \<or>
       e \<in> set envIDs \<and> (\<exists>c \<in> set (consumersOf (producer e)). runsIn D sccToStage tasks (sccOf c) i))"
  using assms
proof (induction envIDs arbitrary: users)
  case (Cons e envIDs)
  obtain users1 where users1: "loadForConsumers D sccOf sccToStage tasks e (consumersOf (producer e)) users = Inr users1"
    "\<forall>i x. x \<in> users1 i \<longleftrightarrow> x \<in> users i \<or>
       x = e \<and> (\<exists>c \<in> set (consumersOf (producer e)). runsIn D sccToStage tasks (sccOf c) i)"
    using loadForConsumers_result[of "consumersOf (producer e)" D sccOf sccToStage tasks e users] Cons.prems by auto
  obtain users' where "collectLiveInEnvInfo D sccOf sccToStage tasks producer consumersOf envIDs users1 = Inr users'"
    "\<forall>i x. x \<in> users' i \<longleftrightarrow> x \<in> users1 i \<or>
       x \<in> set envIDs \<and> (\<exists>c \<in> set (consumersOf (producer x)). runsIn D sccToStage tasks (sccOf c) i)"
    using Cons.IH[of users1] Cons.prems by auto
  then show ?case using users1 by (intro exI[of _ users']) auto
qed simp

text \<open>The stage that stores a live-out variable.\<close>

definition storer :: "sccdag \<Rightarrow> (nat \<Rightarrow> nat option) \<Rightarrow> stage list \<Rightarrow> nat \<Rightarrow> nat list" where
  "storer D sccToStage tasks scc =
     (if canBeCloned D scc then take 1 (cloners tasks scc)
      else case sccToStage scc of None \<Rightarrow> [] | Some i \<Rightarrow> [i])"

lemma collectLiveOutEnvInfo_result:
  assumes "\<forall>e \<in> set envIDs. canBeCloned D (sccOf (producer e)) \<or> sccToStage (sccOf (producer e)) \<noteq> None"
  shows "\<exists>users'. collectLiveOutEnvInfo D sccOf sccToStage tasks producer envIDs users = Inr users' \<and>
    (\<forall>i e. e \<in> users' i \<longleftrightarrow> e \<in> users i \<or>
       e \<in> set envIDs \<and> i \<in> set (storer D sccToStage tasks (sccOf (producer e))))"
  using assms
proof (induction envIDs arbitrary: users)
  case (Cons e envIDs)
  let ?users = "loadInStages (storer D sccToStage tasks (sccOf (producer e))) e users"
  have run: "collectLiveOutEnvInfo D sccOf sccToStage tasks producer (e # envIDs) users =
      collectLiveOutEnvInfo D sccOf sccToStage tasks producer envIDs ?users"
    using Cons.prems by (auto simp: storer_def Let_def split: option.splits)
  obtain users' where "collectLiveOutEnvInfo D sccOf sccToStage tasks producer envIDs ?users = Inr users'"
    "\<forall>i x. x \<in> users' i \<longleftrightarrow> x \<in> ?users i \<or>
       x \<in> set envIDs \<and> i \<in> set (storer D sccToStage tasks (sccOf (producer x)))"
    using Cons.IH[of ?users] Cons.prems by auto
  then show ?case unfolding run by (intro exI[of _ users']) (auto simp: loadInStages_apply)
qed simp

text \<open>
  Every stage loads the live-in variables it uses and no other. When each consumer is in a component
  that can be cloned or has its stage, no assertion fails, and a stage loads a variable exactly when it
  executes the component of one of its consumers.
\<close>
theorem live_ins_loaded:
  assumes "\<forall>e \<in> set envIDs. \<forall>c \<in> set (consumersOf (producer e)). canBeCloned D (sccOf c) \<or> sccToStage (sccOf c) \<noteq> None"
  shows "\<exists>users. collectLiveInEnvInfo D sccOf sccToStage tasks producer consumersOf envIDs (\<lambda>_. {}) = Inr users \<and>
    (\<forall>i e. e \<in> users i \<longleftrightarrow>
       e \<in> set envIDs \<and> (\<exists>c \<in> set (consumersOf (producer e)). runsIn D sccToStage tasks (sccOf c) i))"
  using collectLiveInEnvInfo_result[where consumersOf = consumersOf and producer = producer and D = D and sccOf = sccOf and sccToStage = sccToStage and tasks = tasks and users = "\<lambda>_. {}", OF assms] by simp

text \<open>
  A live-out variable is stored by exactly one stage, which executes the component that computes it,
  unless that component is cloned and no stage has a clone of it: then no stage stores the variable.
\<close>
theorem live_outs_stored:
  assumes "\<forall>e \<in> set envIDs. canBeCloned D (sccOf (producer e)) \<or> sccToStage (sccOf (producer e)) \<noteq> None"
  shows "\<exists>users. collectLiveOutEnvInfo D sccOf sccToStage tasks producer envIDs (\<lambda>_. {}) = Inr users \<and>
    (\<forall>e \<in> set envIDs.
       if canBeCloned D (sccOf (producer e)) \<and> (\<forall>task \<in> set tasks. sccOf (producer e) \<notin> clonableSCCs task)
       then \<forall>i. e \<notin> users i
       else \<exists>i. runsIn D sccToStage tasks (sccOf (producer e)) i \<and> (\<forall>k. e \<in> users k \<longleftrightarrow> k = i))"
proof -
  obtain users where users: "collectLiveOutEnvInfo D sccOf sccToStage tasks producer envIDs (\<lambda>_. {}) = Inr users"
    "\<forall>i e. e \<in> users i \<longleftrightarrow> e \<in> set envIDs \<and> i \<in> set (storer D sccToStage tasks (sccOf (producer e)))"
    using collectLiveOutEnvInfo_result[where producer = producer and D = D and sccOf = sccOf and sccToStage = sccToStage and tasks = tasks and users = "\<lambda>_. {}", OF assms] by auto
  have "if canBeCloned D (sccOf (producer e)) \<and> (\<forall>task \<in> set tasks. sccOf (producer e) \<notin> clonableSCCs task)
      then \<forall>i. e \<notin> users i
      else \<exists>i. runsIn D sccToStage tasks (sccOf (producer e)) i \<and> (\<forall>k. e \<in> users k \<longleftrightarrow> k = i)"
    if e: "e \<in> set envIDs" for e
  proof -
    let ?scc = "sccOf (producer e)"
    have stored: "e \<in> users k \<longleftrightarrow> k \<in> set (storer D sccToStage tasks ?scc)" for k using users(2) e by simp
    show ?thesis
    proof (cases "canBeCloned D ?scc")
      case True
      show ?thesis
      proof (cases "cloners tasks ?scc")
        case Nil
        then have "\<forall>task \<in> set tasks. ?scc \<notin> clonableSCCs task"
          by (auto simp: cloners_def filter_empty_conv in_set_conv_nth)
        then show ?thesis using True stored Nil by (simp add: storer_def)
      next
        case (Cons i rest)
        have i: "i < length tasks" "?scc \<in> clonableSCCs (tasks ! i)" using cloners_set[of i tasks ?scc] Cons by auto
        then have "\<not> (\<forall>task \<in> set tasks. ?scc \<notin> clonableSCCs task)" using nth_mem by blast
        then show ?thesis using True stored Cons i by (auto simp: storer_def runsIn_def)
      qed
    next
      case False
      then show ?thesis using assms e stored by (auto simp: storer_def runsIn_def)
    qed
  qed
  then show ?thesis using users(1) by blast
qed

section \<open>An example\<close>

text \<open>
  In the pipeline of \<open>load_compute\<close> the computation (instruction 30) uses a live-in variable (1), the
  value loaded (20) is live-out (2); so is a flag (40) of a component that can be cloned and that no
  stage depends on (3).
\<close>

definition load_sccOf :: "nat \<Rightarrow> nat" where
  "load_sccOf v = (if v < 20 \<or> v = 40 then 1 else if v < 30 then 2 else 3)"

definition load_producer :: "nat \<Rightarrow> nat" where
  "load_producer e = (if e = 1 then 5 else if e = 2 then 20 else 40)"

lemma live_ins_loaded_witness:
  "\<exists>users. collectLiveInEnvInfo load_compute load_sccOf [2 \<mapsto> 0, 3 \<mapsto> 1]
      [\<lparr>stageSCCs = [2], clonableSCCs = {}\<rparr>, \<lparr>stageSCCs = [3], clonableSCCs = {}\<rparr>] load_producer (\<lambda>p. [30]) [1] (\<lambda>_. {}) = Inr users \<and>
    1 \<in> users 1 \<and> 1 \<notin> users 0"
proof -
  have scc: "load_sccOf 30 = 3" "\<not> canBeCloned load_compute 3" by (simp_all add: load_sccOf_def load_compute_def)
  then have "\<forall>e \<in> set [1 :: nat]. \<forall>c \<in> set [30]. canBeCloned load_compute (load_sccOf c) \<or> [2 \<mapsto> 0, 3 \<mapsto> 1] (load_sccOf c) \<noteq> None"
    by simp
  from live_ins_loaded[where consumersOf = "\<lambda>p. [30]" and producer = load_producer and D = load_compute and
      sccOf = load_sccOf and tasks = "[\<lparr>stageSCCs = [2], clonableSCCs = {}\<rparr>, \<lparr>stageSCCs = [3], clonableSCCs = {}\<rparr>]", OF this]
  show ?thesis using scc by (fastforce simp: runsIn_def)
qed

lemma live_outs_stored_witness:
  "\<exists>users. collectLiveOutEnvInfo load_compute load_sccOf [2 \<mapsto> 0, 3 \<mapsto> 1]
      [\<lparr>stageSCCs = [2], clonableSCCs = {}\<rparr>, \<lparr>stageSCCs = [3], clonableSCCs = {}\<rparr>] load_producer [2, 3] (\<lambda>_. {}) = Inr users \<and>
    2 \<in> users 0 \<and> (\<forall>i. 3 \<notin> users i)"
proof -
  let ?tasks = "[\<lparr>stageSCCs = [2], clonableSCCs = {}\<rparr>, \<lparr>stageSCCs = [3], clonableSCCs = {}\<rparr>]"
  have scc: "load_sccOf (load_producer 2) = 2" "load_sccOf (load_producer 3) = 1"
    "\<not> canBeCloned load_compute 2" "canBeCloned load_compute 1"
    by (simp_all add: load_sccOf_def load_producer_def load_compute_def)
  then have "\<forall>e \<in> set [2, 3]. canBeCloned load_compute (load_sccOf (load_producer e)) \<or>
      [2 \<mapsto> 0, 3 \<mapsto> 1] (load_sccOf (load_producer e)) \<noteq> None" by simp
  from live_outs_stored[where D = load_compute and sccOf = load_sccOf and producer = load_producer and tasks = ?tasks, OF this] obtain users where
    "collectLiveOutEnvInfo load_compute load_sccOf [2 \<mapsto> 0, 3 \<mapsto> 1] ?tasks load_producer [2, 3] (\<lambda>_. {}) = Inr users"
    "\<forall>i. 3 \<notin> users i" "\<exists>i. runsIn load_compute [2 \<mapsto> 0, 3 \<mapsto> 1] ?tasks 2 i \<and> (\<forall>k. 2 \<in> users k \<longleftrightarrow> k = i)"
    using scc by auto
  then show ?thesis using scc by (auto simp: runsIn_def)
qed

end
