(* ===== verification/Helix_Stepper.thy ===== *)
theory Helix_Stepper
  imports Doall_Correct
begin

text \<open>
  How HELIX rewires the clone of the loop in its task (\<open>helix/src/HELIX_stepper.cpp\<close>,
  \<open>HELIX_lastIteration.cpp\<close>) so that core \<open>c\<close> of \<open>n\<close> runs the iterations \<open>c\<close>, \<open>c + n\<close>, \<open>c + 2 n\<close>,
  ... The expressions and their meaning are those of DOALL; \<open>TaskInstanceID\<close> is \<open>coreArg\<close> and
  \<open>NumTaskInstances\<close> is \<open>numCoresArg\<close>.
\<close>

section \<open>The loop\<close>

text \<open>
  NOELLE's utilities: the value of an induction variable in a given iteration, the scaling of a step,
  the value a PHI receives from the latch once a step is added, the value compared one iteration ago
  as the two generators of \<open>LoopGoverningIVUtility\<close> compute it.
\<close>

record helix_iv_utility =
  computeIVValueForIteration :: "ir \<Rightarrow> ir \<Rightarrow> ir \<Rightarrow> ir"
  scaleIVStep :: "ir \<Rightarrow> ir \<Rightarrow> ir"
  stepInductionVariablePHI :: "ir \<Rightarrow> ir \<Rightarrow> ir"
  valueUsedAnIterationAgo :: "ir \<Rightarrow> ir \<Rightarrow> ir"
  previousValueUsed :: "ir \<Rightarrow> ir \<Rightarrow> ir"

text \<open>An instruction of the task: its name, what it computes, the instructions it uses.\<close>

record task_inst =
  instID :: nat
  opcode :: nat
  operands :: "nat list"

text \<open>The blocks around the header of the rewired loop.\<close>

datatype helix_block = HeaderExit | EntryIntoBody | CheckIfLastIterationIsMissing | LastIteration

text \<open>
  The body block starts with its PHIs; \<open>isTrueExiting\<close> tells whether the first successor of the header's
  branch, once NOELLE has updated it, is the exit. A live-out variable has its producer and, when it
  is reduced, the clone of the PHI that accumulates it in the header.
\<close>

record helix_loop =
  loopIVs :: "iv_info list"
  isReductionSCC :: "nat \<Rightarrow> bool"
  isAnOriginalInstruction :: "nat \<Rightarrow> bool"
  governingIV :: "iv_info option"
  hasASequentialPrologue :: bool
  comparedIV :: ir
  loopHeader :: "nat list"
  getCloneOfOriginalInstruction :: "nat \<rightharpoonup> nat"
  getOriginalInstructionOfClone :: "nat \<rightharpoonup> nat"
  isPHINode :: "nat \<Rightarrow> bool"
  originalCmpInst :: nat
  originalBrInst :: nat
  isInductionVariableSCC :: "nat \<Rightarrow> bool"
  headerCloneInsts :: "task_inst list"
  bodyPHIs :: "task_inst list"
  bodyInsts :: "task_inst list"
  isTrueExiting :: bool
  newInst :: "nat \<Rightarrow> nat"
  liveOutVars :: "(nat \<times> nat option) list"
  periodicVariables :: "periodic list"

section \<open>Induction variables\<close>

text \<open>Those that are not reductions and were not spilled.\<close>

definition ivInfos :: "helix_loop \<Rightarrow> iv_info list" where
  "ivInfos L =
     filter (\<lambda>iv. \<not> isReductionSCC L (ivPHI iv) \<and> isAnOriginalInstruction L (ivPHI iv)) (loopIVs L)"

text \<open>\<open>original_start + original_step_size * core_id\<close>.\<close>

definition coreStartValue :: "helix_iv_utility \<Rightarrow> iv_info \<Rightarrow> ir" where
  "coreStartValue U iv =
     computeIVValueForIteration U (ivStartValue iv) (ivStepValue iv) TaskInstanceID"

text \<open>\<open>original_step_size * (num_cores - 1)\<close>, added to the value the PHI receives from the latch.\<close>

definition jumpStepSize :: "helix_iv_utility \<Rightarrow> iv_info \<Rightarrow> ir" where
  "jumpStepSize U iv = scaleIVStep U (ivStepValue iv) (Sub NumTaskInstances (Const 1))"

definition jumpedIVValue :: "helix_iv_utility \<Rightarrow> iv_info \<Rightarrow> ir" where
  "jumpedIVValue U iv = stepInductionVariablePHI U (ivUpdate iv) (jumpStepSize U iv)"

section \<open>Instructions that leave the header\<close>

definition canStayInTheNewHeader :: "helix_loop \<Rightarrow> nat \<Rightarrow> bool" where
  "canStayInTheNewHeader L i \<longleftrightarrow>
     isPHINode L i \<or> originalCmpInst L = i \<or> originalBrInst L = i \<or> isInductionVariableSCC L i"

definition cloneInstsThatCanStayInTheNewHeader :: "helix_loop \<Rightarrow> nat set" where
  "cloneInstsThatCanStayInTheNewHeader L =
     set (List.map_filter (\<lambda>i. case getCloneOfOriginalInstruction L i of
         None \<Rightarrow> None
       | Some c \<Rightarrow> if canStayInTheNewHeader L i then Some c else None) (loopHeader L))"

definition cloneInstsThatMustMove :: "helix_loop \<Rightarrow> task_inst list" where
  "cloneInstsThatMustMove L =
     filter (\<lambda>I. instID I \<notin> cloneInstsThatCanStayInTheNewHeader L) (headerCloneInsts L)"

text \<open>From the last to the first, each is moved before the first instruction of the body.\<close>

definition moveToBody :: "task_inst list \<Rightarrow> task_inst list \<Rightarrow> task_inst list" where
  "moveToBody must body = fold (\<lambda>I rest. I # rest) (rev must) body"

section \<open>The last iteration\<close>

definition replaceUsesOfWith :: "nat \<Rightarrow> nat \<Rightarrow> task_inst \<Rightarrow> task_inst" where
  "replaceUsesOfWith old new I = I\<lparr>operands := map (\<lambda>x. if x = old then new else x) (operands I)\<rparr>"

text \<open>The duplicates, using each other where the instructions that moved use each other.\<close>

definition rewireDuplicate :: "helix_loop \<Rightarrow> task_inst list \<Rightarrow> task_inst \<Rightarrow> task_inst" where
  "rewireDuplicate L must I =
     fold (\<lambda>J. replaceUsesOfWith (instID J) (newInst L (instID J))) must
       (I\<lparr>instID := newInst L (instID I)\<rparr>)"

definition duplicatesInLastIterationBlock :: "helix_loop \<Rightarrow> task_inst list" where
  "duplicatesInLastIterationBlock L =
     (let must = cloneInstsThatMustMove L in map (rewireDuplicate L must) must)"

text \<open>
  \<open>lastIterationExecutionDuplicateMap\<close>: what stands for an original instruction after the loop: its
  duplicate, or the PHI of the exit block that chooses between the value a header PHI propagates and
  the duplicate.
\<close>

datatype exit_value = Duplicate nat | ExitPHI nat exit_value

definition duplicateMap :: "helix_loop \<Rightarrow> nat \<rightharpoonup> exit_value" where
  "duplicateMap L =
     fold (\<lambda>I m. case getOriginalInstructionOfClone L (instID I) of
         None \<Rightarrow> m
       | Some i \<Rightarrow> (case m i of None \<Rightarrow> m(i \<mapsto> Duplicate (newInst L (instID I))) | Some v \<Rightarrow> m))
       (cloneInstsThatMustMove L) Map.empty"

definition trackLiveOut :: "nat \<times> nat option \<Rightarrow> (nat \<rightharpoonup> exit_value) \<Rightarrow> (nat \<rightharpoonup> exit_value)" where
  "trackLiveOut out m =
     (case out of (producer, reduced) \<Rightarrow>
       (case m producer of
          None \<Rightarrow> m
        | Some v \<Rightarrow>
            (case reduced of
               None \<Rightarrow> m
             | Some headerPHI \<Rightarrow> m(producer \<mapsto> ExitPHI headerPHI v))))"

definition lastIterationExecutionDuplicateMap :: "helix_loop \<Rightarrow> nat \<rightharpoonup> exit_value" where
  "lastIterationExecutionDuplicateMap L = fold trackLiveOut (liveOutVars L) (duplicateMap L)"

section \<open>Periodic variables\<close>

text \<open>
  The absolute iteration counter, created for the first periodic variable that was not spilled: its
  values from the preheader and from the latch.
\<close>

definition helixIterCounter :: "ir \<times> ir" where
  "helixIterCounter = (TaskInstanceID, Add (Phi IterCounter) NumTaskInstances)"

fun rewireLoopForPeriodicVariables ::
    "helix_loop \<Rightarrow> periodic list \<Rightarrow> (ir \<times> ir) option \<Rightarrow> (nat \<rightharpoonup> ir) \<Rightarrow>
     (ir \<times> ir) option \<times> (nat \<rightharpoonup> ir)" where
  "rewireLoopForPeriodicVariables L [] counter repl = (counter, repl)"
| "rewireLoopForPeriodicVariables L (pv # pvs) counter repl =
     (if \<not> isAnOriginalInstruction L (pvPHI pv) then rewireLoopForPeriodicVariables L pvs counter repl
      else rewireLoopForPeriodicVariables L pvs
             (case counter of None \<Rightarrow> Some helixIterCounter | Some c \<Rightarrow> Some c)
             (repl(pvPHI pv \<mapsto> pvCurr pv)))"

section \<open>The rewired task\<close>

text \<open>
  \<open>prevIterationValue\<close> is what the strict clone of the exit comparison compares in the block
  \<open>check_if_last_iteration_is_missing\<close>; it branches to \<open>guardSuccessors\<close>.
\<close>

record helix_code =
  coreEntry :: "phi \<rightharpoonup> ir"
  coreLatch :: "phi \<rightharpoonup> ir"
  replacedPeriodics :: "nat \<rightharpoonup> ir"
  newHeader :: "task_inst list"
  newBody :: "task_inst list"
  headerSuccessors :: "helix_block \<times> helix_block"
  lastIterationBlock :: "task_inst list option"
  prevIterationValue :: "ir option"
  guardSuccessors :: "helix_block \<times> helix_block"
  exitValues :: "nat \<rightharpoonup> exit_value"

definition headersRunInParallel :: "helix_loop \<Rightarrow> bool" where
  "headersRunInParallel L \<longleftrightarrow> governingIV L \<noteq> None \<and> \<not> hasASequentialPrologue L"

text \<open>The branch of the header before its exit is redirected, and after.\<close>

definition updatedBrInst :: "helix_loop \<Rightarrow> helix_block \<times> helix_block" where
  "updatedBrInst L = (if isTrueExiting L then (HeaderExit, EntryIntoBody) else (EntryIntoBody, HeaderExit))"

definition replaceSuccessorWith ::
    "helix_block \<Rightarrow> helix_block \<Rightarrow> helix_block \<times> helix_block \<Rightarrow> helix_block \<times> helix_block" where
  "replaceSuccessorWith old new succs =
     (if fst succs = old then new else fst succs, if snd succs = old then new else snd succs)"

text \<open>
  The first block of the rewiring concerns every loop; the rest those whose headers the cores execute
  in parallel.
\<close>

definition rewireLoopForIVsToIterateNthIterations ::
    "helix_iv_utility \<Rightarrow> helix_loop \<Rightarrow> helix_code" where
  "rewireLoopForIVsToIterateNthIterations U L =
     (let code = \<lparr>coreEntry = ivPHIs (coreStartValue U) (ivInfos L),
            coreLatch = ivPHIs (jumpedIVValue U) (ivInfos L), replacedPeriodics = Map.empty,
            newHeader = headerCloneInsts L, newBody = bodyPHIs L @ bodyInsts L,
            headerSuccessors = updatedBrInst L, lastIterationBlock = None, prevIterationValue = None,
            guardSuccessors = (HeaderExit, HeaderExit), exitValues = Map.empty\<rparr>
      in case governingIV L of
           None \<Rightarrow> code
         | Some gov \<Rightarrow>
             if hasASequentialPrologue L then code
             else
               let must = cloneInstsThatMustMove L in
               code\<lparr>newHeader := filter (\<lambda>I. instID I \<in> cloneInstsThatCanStayInTheNewHeader L) (headerCloneInsts L),
                 newBody := bodyPHIs L @ moveToBody must (bodyInsts L),
                 headerSuccessors :=
                   replaceSuccessorWith HeaderExit CheckIfLastIterationIsMissing (updatedBrInst L),
                 lastIterationBlock := Some (duplicatesInLastIterationBlock L),
                 prevIterationValue :=
                   Some (valueUsedAnIterationAgo U (Phi (HeaderPHI (ivPHI gov))) (ivStepValue gov)),
                 guardSuccessors :=
                   (if isTrueExiting L then (HeaderExit, LastIteration) else (LastIteration, HeaderExit)),
                 exitValues := lastIterationExecutionDuplicateMap L\<rparr>)"

definition rewireHelixLoop :: "helix_iv_utility \<Rightarrow> helix_loop \<Rightarrow> helix_code" where
  "rewireHelixLoop U L =
     (let code = rewireLoopForIVsToIterateNthIterations U L;
          (counter, repl) = rewireLoopForPeriodicVariables L (periodicVariables L) None Map.empty
      in code\<lparr>coreEntry := (coreEntry code)(IterCounter := map_option fst counter),
              coreLatch := (coreLatch code)(IterCounter := map_option snd counter),
              replacedPeriodics := repl\<rparr>)"

section \<open>Running a core\<close>

definition phisAfter :: "run_env \<Rightarrow> (phi \<rightharpoonup> ir) \<Rightarrow> (phi \<Rightarrow> u64) \<Rightarrow> phi \<Rightarrow> u64" where
  "phisAfter E incoming st p = (case incoming p of Some e \<Rightarrow> eval E st e | None \<Rightarrow> st p)"

text \<open>
  The states in which the body runs and the state in which the header leaves the loop. \<open>None\<close> is
  running out of fuel.
\<close>

fun runCoreHeader ::
    "run_env \<Rightarrow> ir \<Rightarrow> helix_code \<Rightarrow> nat \<Rightarrow> (phi \<Rightarrow> u64) \<Rightarrow> ((phi \<Rightarrow> u64) list \<times> (phi \<Rightarrow> u64)) option" where
  "runCoreHeader E compared code 0 st = None"
| "runCoreHeader E compared code (Suc fuel) st =
     (if pastExit E (eval E st compared) then Some ([], st)
      else (case runCoreHeader E compared code fuel (phisAfter E (coreLatch code) st) of
          None \<Rightarrow> None
        | Some (bodies, final) \<Rightarrow> Some (st # bodies, final)))"

definition runCore ::
    "run_env \<Rightarrow> ir \<Rightarrow> helix_code \<Rightarrow> nat \<Rightarrow> (phi \<Rightarrow> u64) \<Rightarrow> ((phi \<Rightarrow> u64) list \<times> (phi \<Rightarrow> u64)) option" where
  "runCore E compared code fuel st = runCoreHeader E compared code fuel (phisAfter E (coreEntry code) st)"

text \<open>
  Where the guard in \<open>check_if_last_iteration_is_missing\<close> goes. \<open>strict\<close> is the exit condition as the
  strict predicate decides it; the comparison is true when its outcome is the one the first successor
  stands for.
\<close>

definition blockAfterGuard ::
    "(u64 \<Rightarrow> bool) \<Rightarrow> run_env \<Rightarrow> helix_loop \<Rightarrow> helix_code \<Rightarrow> (phi \<Rightarrow> u64) \<Rightarrow> helix_block" where
  "blockAfterGuard strict E L code st =
     (case prevIterationValue code of
        None \<Rightarrow> HeaderExit
      | Some v \<Rightarrow> if strict (eval E st v) = isTrueExiting L then fst (guardSuccessors code)
                  else snd (guardSuccessors code))"

text \<open>
  \<open>getBasicBlockExecutedOnlyByLastIterationBeforeExitingTask\<close> for a store in block \<open>bb\<close>: whether the
  block that holds the store runs once \<open>bb\<close> is reached.
\<close>

definition jumpInLoopCondition :: "helix_code \<Rightarrow> helix_block \<Rightarrow> bool" where
  "jumpInLoopCondition code bb \<longleftrightarrow> fst (headerSuccessors code) \<noteq> bb"

definition runsStoreOfLastIteration ::
    "run_env \<Rightarrow> helix_iv_utility \<Rightarrow> helix_loop \<Rightarrow> helix_code \<Rightarrow> helix_block \<Rightarrow> (phi \<Rightarrow> u64) \<Rightarrow> bool" where
  "runsStoreOfLastIteration E U L code bb st =
     (case governingIV L of
        None \<Rightarrow> True
      | Some gov \<Rightarrow>
          if hasASequentialPrologue L then True
          else
            let prev = previousValueUsed U (Phi (HeaderPHI (ivPHI gov))) (ivStepValue gov);
                cmp = (pastExit E (eval E st prev) = isTrueExiting L)
            in if jumpInLoopCondition code bb then \<not> cmp else cmp)"

text \<open>
  \<open>synchronizeTask\<close> maps the exit block to the last-iteration block, if there is one, while the stores
  of the live-out variables are generated.
\<close>

definition liveOutBlock :: "helix_code \<Rightarrow> helix_block" where
  "liveOutBlock code = (if lastIterationBlock code = None then HeaderExit else LastIteration)"

definition storesLiveOuts ::
    "(u64 \<Rightarrow> bool) \<Rightarrow> run_env \<Rightarrow> helix_iv_utility \<Rightarrow> helix_loop \<Rightarrow> helix_code \<Rightarrow> (phi \<Rightarrow> u64) \<Rightarrow> bool" where
  "storesLiveOuts strict E U L code st \<longleftrightarrow>
     blockAfterGuard strict E L code st = liveOutBlock code \<and>
     runsStoreOfLastIteration E U L code (liveOutBlock code) st"

section \<open>A loop\<close>

text \<open>
  \<open>for (i = 5; i < 12; i += 2)\<close> whose header also loads a value that the body uses, with a variable of
  period 3 that starts at 10. The header is a PHI, the load, what is computed from it, the comparison
  and the branch.
\<close>

definition helix_count_loop :: "bool \<Rightarrow> helix_loop" where
  "helix_count_loop exiting = \<lparr>loopIVs = [count_iv], isReductionSCC = (\<lambda>i. False),
     isAnOriginalInstruction = (\<lambda>i. True), governingIV = Some count_iv, hasASequentialPrologue = False,
     comparedIV = Phi (HeaderPHI 0), loopHeader = [0, 1, 2, 3, 4],
     getCloneOfOriginalInstruction = (\<lambda>i. Some (10 + i)),
     getOriginalInstructionOfClone = (\<lambda>c. if c < 10 then None else Some (c - 10)),
     isPHINode = (\<lambda>i. i = 0), originalCmpInst = 3, originalBrInst = 4,
     isInductionVariableSCC = (\<lambda>i. i \<in> {0, 3, 4}),
     headerCloneInsts = [\<lparr>instID = 10, opcode = 0, operands = []\<rparr>, \<lparr>instID = 11, opcode = 1, operands = [10]\<rparr>,
       \<lparr>instID = 12, opcode = 2, operands = [11, 10]\<rparr>, \<lparr>instID = 13, opcode = 3, operands = [10]\<rparr>,
       \<lparr>instID = 14, opcode = 4, operands = [13]\<rparr>],
     bodyPHIs = [], bodyInsts = [\<lparr>instID = 15, opcode = 5, operands = [12]\<rparr>],
     isTrueExiting = exiting, newInst = (\<lambda>i. i + 100), liveOutVars = [(2, None)],
     periodicVariables = [mod3]\<rparr>"

definition plain_helix_utility :: helix_iv_utility where
  "plain_helix_utility = \<lparr>computeIVValueForIteration = (\<lambda>a s n. Add a (Mul s n)), scaleIVStep = Mul,
     stepInductionVariablePHI = Add, valueUsedAnIterationAgo = Sub, previousValueUsed = Sub\<rparr>"

end
