(* ===== verification/Helix_Iterations.thy ===== *)
theory Helix_Iterations
  imports Helix_Stepper
begin

text \<open>
  What the cores of a HELIX loop execute once \<open>Helix_Stepper\<close> has rewired it: the iterations, the
  instructions of the header that moved into the body, and the stores of the live-out variables.
\<close>

section \<open>What the code relies on\<close>

text \<open>
  NOELLE's utilities do what their names say. \<open>updated\<close> tells whether the loop compares the updated
  value of its governing induction variable instead of the PHI.
\<close>

definition helix_utility_ok :: "helix_iv_utility \<Rightarrow> bool \<Rightarrow> bool" where
  "helix_utility_ok U updated \<longleftrightarrow>
     (\<forall>E st a s n. eval E st (computeIVValueForIteration U a s n) = eval E st a + eval E st s * eval E st n) \<and>
     (\<forall>E st s n. eval E st (scaleIVStep U s n) = eval E st s * eval E st n) \<and>
     (\<forall>E st x n. eval E st (stepInductionVariablePHI U x n) = eval E st x + eval E st n) \<and>
     (\<forall>E st x n. eval E st (valueUsedAnIterationAgo U x n) =
        (if updated then eval E st x else eval E st x - eval E st n)) \<and>
     (\<forall>E st x n. eval E st (previousValueUsed U x n) =
        (if updated then eval E st x else eval E st x - eval E st n))"

lemma helix_utility_arith:
  assumes "helix_utility_ok U updated"
  shows "eval E st (computeIVValueForIteration U a s n) = eval E st a + eval E st s * eval E st n"
    and "eval E st (scaleIVStep U s n) = eval E st s * eval E st n"
    and "eval E st (stepInductionVariablePHI U x n) = eval E st x + eval E st n"
    and "eval E st (valueUsedAnIterationAgo U x n) = (if updated then eval E st x else eval E st x - eval E st n)"
    and "eval E st (previousValueUsed U x n) = (if updated then eval E st x else eval E st x - eval E st n)"
  using assms unfolding helix_utility_ok_def by simp_all

definition periodicsKept :: "helix_loop \<Rightarrow> periodic list" where
  "periodicsKept L = filter (\<lambda>pv. isAnOriginalInstruction L (pvPHI pv)) (periodicVariables L)"

definition helix_loop_ok :: "helix_loop \<Rightarrow> bool" where
  "helix_loop_ok L \<longleftrightarrow>
     distinct (map ivPHI (ivInfos L)) \<and>
     (\<forall>iv \<in> set (ivInfos L). fixedValue (ivStartValue iv) \<and> fixedValue (ivStepValue iv) \<and>
        (\<forall>E st. eval E st (ivUpdate iv) = st (HeaderPHI (ivPHI iv)) + eval E st (ivStepValue iv))) \<and>
     (\<forall>pv \<in> set (periodicsKept L). fixedValue (pvInitial pv) \<and> fixedValue (pvPeriod pv) \<and> fixedValue (pvStep pv))"

text \<open>The loop is governed by \<open>gov\<close>, which was not spilled, and its headers run in parallel.\<close>

definition governed :: "helix_loop \<Rightarrow> iv_info \<Rightarrow> bool \<Rightarrow> bool" where
  "governed L gov updated \<longleftrightarrow>
     governingIV L = Some gov \<and> \<not> hasASequentialPrologue L \<and> gov \<in> set (ivInfos L) \<and>
     comparedIV L = (if updated then ivUpdate gov else Phi (HeaderPHI (ivPHI gov)))"

definition usedAt :: "(nat \<Rightarrow> u64) \<Rightarrow> iv_info \<Rightarrow> bool \<Rightarrow> nat \<Rightarrow> u64" where
  "usedAt V gov updated i = ivAt V gov (if updated then Suc i else i)"

text \<open>
  The run: \<open>n\<close> cores and a loop whose body runs \<open>N\<close> times. The comparison, made non-strict, holds from
  the \<open>N\<close>-th value on, as far as the cores look.
\<close>

definition helix_run_ok :: "(nat \<Rightarrow> u64) \<Rightarrow> (u64 \<Rightarrow> bool) \<Rightarrow> iv_info \<Rightarrow> bool \<Rightarrow> nat \<Rightarrow> nat \<Rightarrow> bool" where
  "helix_run_ok V P gov updated N n \<longleftrightarrow>
     0 < n \<and> N + n < 2 ^ 63 \<and> (\<forall>i \<le> N + n. P (usedAt V gov updated i) \<longleftrightarrow> N \<le> i)"

lemma helix_run_okD:
  assumes "helix_run_ok V P gov updated N n"
  shows "0 < n" and "N + n < 2 ^ 63" and "i \<le> N + n \<Longrightarrow> P (usedAt V gov updated i) \<longleftrightarrow> N \<le> i"
  using assms unfolding helix_run_ok_def by simp_all

abbreviation core_env :: "(nat \<Rightarrow> u64) \<Rightarrow> (u64 \<Rightarrow> bool) \<Rightarrow> nat \<Rightarrow> nat \<Rightarrow> run_env" where
  "core_env V P n c \<equiv> task_env V P n (Suc 0) c"

text \<open>The iteration of the \<open>j\<close>-th header of core \<open>c\<close>.\<close>

abbreviation helixIteration :: "nat \<Rightarrow> nat \<Rightarrow> nat \<Rightarrow> nat" where
  "helixIteration n c j \<equiv> iteration n (Suc 0) c j"

lemma helixIteration_Suc: "0 < n \<Longrightarrow> helixIteration n c (Suc j) = helixIteration n c j + n"
  by (cases n) (simp_all add: iteration_def)

section \<open>The values a core sees\<close>

definition helixAt :: "(nat \<Rightarrow> u64) \<Rightarrow> helix_loop \<Rightarrow> nat \<Rightarrow> (phi \<Rightarrow> u64) \<Rightarrow> bool" where
  "helixAt V L i st \<longleftrightarrow>
     (\<forall>iv \<in> set (ivInfos L). st (HeaderPHI (ivPHI iv)) = ivAt V iv i) \<and>
     (periodicsKept L \<noteq> [] \<longrightarrow> st IterCounter = of_nat i)"

lemma helix_loop_ok_iv:
  assumes "helix_loop_ok L" and "iv \<in> set (ivInfos L)"
  shows "eval E st (ivStartValue iv) = valueOf (vals E) (ivStartValue iv)"
    and "eval E st (ivStepValue iv) = valueOf (vals E) (ivStepValue iv)"
    and "eval E st (ivUpdate iv) = st (HeaderPHI (ivPHI iv)) + valueOf (vals E) (ivStepValue iv)"
proof -
  have f: "fixedValue (ivStartValue iv)" "fixedValue (ivStepValue iv)"
    "eval E st (ivUpdate iv) = st (HeaderPHI (ivPHI iv)) + eval E st (ivStepValue iv)"
    using assms by (auto simp: helix_loop_ok_def)
  show "eval E st (ivStartValue iv) = valueOf (vals E) (ivStartValue iv)" by (rule eval_fixedValue [OF f(1)])
  show g: "eval E st (ivStepValue iv) = valueOf (vals E) (ivStepValue iv)" by (rule eval_fixedValue [OF f(2)])
  show "eval E st (ivUpdate iv) = st (HeaderPHI (ivPHI iv)) + valueOf (vals E) (ivStepValue iv)"
    using f(3) g by simp
qed

lemma rewireLoopForPeriodicVariables_counter:
  "fst (rewireLoopForPeriodicVariables L pvs counter repl) =
     (if filter (\<lambda>pv. isAnOriginalInstruction L (pvPHI pv)) pvs = [] then counter
      else Some (case counter of None \<Rightarrow> helixIterCounter | Some c \<Rightarrow> c))"
  by (induction pvs arbitrary: counter repl) (auto split: option.splits)

lemma rewireLoop_phis:
  "coreEntry (rewireLoopForIVsToIterateNthIterations U L) = ivPHIs (coreStartValue U) (ivInfos L)"
  "coreLatch (rewireLoopForIVsToIterateNthIterations U L) = ivPHIs (jumpedIVValue U) (ivInfos L)"
  by (simp_all add: rewireLoopForIVsToIterateNthIterations_def Let_def split: option.split)

lemma rewireHelixLoop_phis:
  assumes "helix_loop_ok L"
  shows "iv \<in> set (ivInfos L) \<Longrightarrow>
      coreEntry (rewireHelixLoop U L) (HeaderPHI (ivPHI iv)) = Some (coreStartValue U iv)"
    and "iv \<in> set (ivInfos L) \<Longrightarrow>
      coreLatch (rewireHelixLoop U L) (HeaderPHI (ivPHI iv)) = Some (jumpedIVValue U iv)"
    and "periodicsKept L \<noteq> [] \<Longrightarrow> coreEntry (rewireHelixLoop U L) IterCounter = Some TaskInstanceID"
    and "periodicsKept L \<noteq> [] \<Longrightarrow>
      coreLatch (rewireHelixLoop U L) IterCounter = Some (Add (Phi IterCounter) NumTaskInstances)"
proof -
  have d: "distinct (map ivPHI (ivInfos L))" using assms by (simp add: helix_loop_ok_def)
  obtain counter repl where c:
    "rewireLoopForPeriodicVariables L (periodicVariables L) None Map.empty = (counter, repl)" by fastforce
  then have "counter = (if periodicsKept L = [] then None else Some helixIterCounter)"
    using rewireLoopForPeriodicVariables_counter [of L "periodicVariables L" None Map.empty]
    by (simp add: periodicsKept_def)
  note facts = rewireHelixLoop_def Let_def c this rewireLoop_phis helixIterCounter_def
  show "iv \<in> set (ivInfos L) \<Longrightarrow>
      coreEntry (rewireHelixLoop U L) (HeaderPHI (ivPHI iv)) = Some (coreStartValue U iv)"
    "iv \<in> set (ivInfos L) \<Longrightarrow>
      coreLatch (rewireHelixLoop U L) (HeaderPHI (ivPHI iv)) = Some (jumpedIVValue U iv)"
    using ivPHIs_lookup [OF d] by (simp_all add: facts)
  show "periodicsKept L \<noteq> [] \<Longrightarrow> coreEntry (rewireHelixLoop U L) IterCounter = Some TaskInstanceID"
    "periodicsKept L \<noteq> [] \<Longrightarrow>
      coreLatch (rewireHelixLoop U L) IterCounter = Some (Add (Phi IterCounter) NumTaskInstances)"
    by (simp_all add: facts)
qed

lemma helixAt_enter:
  assumes U: "helix_utility_ok U updated" and L: "helix_loop_ok L"
  shows "helixAt V L c (phisAfter (core_env V P n c) (coreEntry (rewireHelixLoop U L)) st)"
  unfolding helixAt_def
proof (intro conjI ballI impI)
  fix iv
  assume iv: "iv \<in> set (ivInfos L)"
  show "phisAfter (core_env V P n c) (coreEntry (rewireHelixLoop U L)) st (HeaderPHI (ivPHI iv)) = ivAt V iv c"
    using helix_loop_ok_iv [OF L iv]
    by (simp add: phisAfter_def rewireHelixLoop_phis(1) [OF L iv] coreStartValue_def
        helix_utility_arith(1) [OF U] ivAt_def mult.commute)
next
  assume "periodicsKept L \<noteq> []"
  then show "phisAfter (core_env V P n c) (coreEntry (rewireHelixLoop U L)) st IterCounter = of_nat c"
    by (simp add: phisAfter_def rewireHelixLoop_phis(3) [OF L])
qed

lemma helixAt_advance:
  assumes U: "helix_utility_ok U updated" and L: "helix_loop_ok L" and n: "0 < n" and at: "helixAt V L i st"
  shows "helixAt V L (i + n) (phisAfter (core_env V P n c) (coreLatch (rewireHelixLoop U L)) st)"
  unfolding helixAt_def
proof (intro conjI ballI impI)
  fix iv
  assume iv: "iv \<in> set (ivInfos L)"
  have "st (HeaderPHI (ivPHI iv)) = ivAt V iv i" using at iv by (simp add: helixAt_def)
  then show "phisAfter (core_env V P n c) (coreLatch (rewireHelixLoop U L)) st (HeaderPHI (ivPHI iv)) =
      ivAt V iv (i + n)"
    using helix_loop_ok_iv [OF L iv, of "core_env V P n c" st] n
    by (simp add: phisAfter_def rewireHelixLoop_phis(2) [OF L iv] jumpedIVValue_def jumpStepSize_def
        helix_utility_arith(2,3) [OF U] ivAt_def of_nat_diff algebra_simps)
next
  assume p: "periodicsKept L \<noteq> []"
  then have "st IterCounter = of_nat i" using at by (simp add: helixAt_def)
  then show "phisAfter (core_env V P n c) (coreLatch (rewireHelixLoop U L)) st IterCounter = of_nat (i + n)"
    by (simp add: phisAfter_def rewireHelixLoop_phis(4) [OF L p])
qed

text \<open>The state of a core when it starts its \<open>j\<close>-th header.\<close>

definition coreState :: "run_env \<Rightarrow> helix_code \<Rightarrow> (phi \<Rightarrow> u64) \<Rightarrow> nat \<Rightarrow> phi \<Rightarrow> u64" where
  "coreState E code st j = (phisAfter E (coreLatch code) ^^ j) (phisAfter E (coreEntry code) st)"

lemma coreState_Suc: "coreState E code st (Suc j) = phisAfter E (coreLatch code) (coreState E code st j)"
  by (simp add: coreState_def)

lemma coreState_helixAt:
  assumes "helix_utility_ok U updated" and "helix_loop_ok L" and "0 < n"
  shows "helixAt V L (helixIteration n c j) (coreState (core_env V P n c) (rewireHelixLoop U L) st j)"
proof (induction j)
  case 0
  show ?case using helixAt_enter [OF assms(1,2)] by (simp add: coreState_def iteration_0)
next
  case (Suc j)
  show ?case unfolding coreState_Suc helixIteration_Suc [OF assms(3)]
    by (rule helixAt_advance [OF assms Suc])
qed

definition helixValues :: "run_env \<Rightarrow> helix_loop \<Rightarrow> (phi \<Rightarrow> u64) \<Rightarrow> u64 list" where
  "helixValues E L st =
     map (\<lambda>iv. st (HeaderPHI (ivPHI iv))) (ivInfos L) @ map (\<lambda>pv. eval E st (pvCurr pv)) (periodicsKept L)"

definition helixSequentialValues :: "(nat \<Rightarrow> u64) \<Rightarrow> helix_loop \<Rightarrow> nat \<Rightarrow> u64 list" where
  "helixSequentialValues V L i =
     map (\<lambda>iv. ivAt V iv i) (ivInfos L) @ map (\<lambda>pv. periodicAt V pv i) (periodicsKept L)"

definition helix_periods_positive :: "(nat \<Rightarrow> u64) \<Rightarrow> helix_loop \<Rightarrow> bool" where
  "helix_periods_positive V L \<longleftrightarrow>
     (\<forall>pv \<in> set (periodicsKept L). 0 < sint (signed_take_bit (pvWidth pv - 1) (valueOf V (pvPeriod pv))))"

lemma helixValues_value:
  assumes L: "helix_loop_ok L" and p: "helix_periods_positive V L" and at: "helixAt V L i st" and i: "i < 2 ^ 63"
  shows "helixValues (core_env V P n c) L st = helixSequentialValues V L i"
proof -
  have "eval (core_env V P n c) st (pvCurr pv) = periodicAt V pv i" if pv: "pv \<in> set (periodicsKept L)" for pv
  proof -
    have "periodicsKept L \<noteq> []" using pv by auto
    then have "st IterCounter = of_nat i" using at by (simp add: helixAt_def)
    then show ?thesis
      using eval_pvCurr [of pv st i "core_env V P n c"] L p i pv
      by (simp add: helix_loop_ok_def helix_periods_positive_def)
  qed
  then show ?thesis using at by (simp add: helixValues_def helixSequentialValues_def helixAt_def)
qed

section \<open>The run of a core\<close>

lemma eval_comparedIV:
  assumes "helix_loop_ok L" and "governed L gov updated" and "helixAt V L i st"
  shows "eval (core_env V P n c) st (comparedIV L) = usedAt V gov updated i"
proof -
  have g: "gov \<in> set (ivInfos L)" "comparedIV L = (if updated then ivUpdate gov else Phi (HeaderPHI (ivPHI gov)))"
    using assms(2) by (simp_all add: governed_def)
  have "st (HeaderPHI (ivPHI gov)) = ivAt V gov i" using assms(3) g(1) by (simp add: helixAt_def)
  then show ?thesis unfolding g(2) using helix_loop_ok_iv(3) [OF assms(1) g(1)]
    by (simp add: usedAt_def ivAt_def algebra_simps)
qed

lemma runCoreHeader_value:
  assumes U: "helix_utility_ok U updated" and L: "helix_loop_ok L" and gov: "governed L gov updated"
    and run: "helix_run_ok V P gov updated N n" and c: "c < n"
    and j: "j \<le> visits n (Suc 0) N c" "visits n (Suc 0) N c - j < fuel"
  shows "runCoreHeader (core_env V P n c) (comparedIV L) (rewireHelixLoop U L) fuel
      (coreState (core_env V P n c) (rewireHelixLoop U L) st j) =
    Some (map (coreState (core_env V P n c) (rewireHelixLoop U L) st) [j..<visits n (Suc 0) N c],
          coreState (core_env V P n c) (rewireHelixLoop U L) st (visits n (Suc 0) N c))"
  using j
proof (induction fuel arbitrary: j)
  case (Suc fuel)
  let ?E = "core_env V P n c" and ?J = "visits n (Suc 0) N c"
  let ?S = "coreState ?E (rewireHelixLoop U L) st"
  note n = helix_run_okD(1) [OF run]
  have cmp: "pastExit ?E (eval ?E (?S j) (comparedIV L)) \<longleftrightarrow> N \<le> helixIteration n c j"
    using eval_comparedIV [OF L gov coreState_helixAt [OF U L n]]
      helix_run_okD(3) [OF run, of "helixIteration n c j"] iteration_visits_le [of "Suc 0" c n j N] c Suc.prems(1)
    by simp
  show ?case
  proof (cases "j = ?J")
    case True
    then show ?thesis using cmp iteration_visits_ge [of "Suc 0" n N c] n by simp
  next
    case False
    then have less: "j < ?J" using Suc.prems(1) by simp
    then have "\<not> N \<le> helixIteration n c j" using visits_iff [of "Suc 0" n j N c] n by simp
    moreover have "runCoreHeader ?E (comparedIV L) (rewireHelixLoop U L) fuel (?S (Suc j)) =
        Some (map ?S [Suc j..<?J], ?S ?J)"
      by (rule Suc.IH) (use less Suc.prems in simp_all)
    ultimately show ?thesis using cmp less by (simp add: coreState_Suc upt_conv_Cons)
  qed
qed simp

lemma runCore_value:
  assumes "helix_utility_ok U updated" and "helix_loop_ok L" and "governed L gov updated"
    and "helix_run_ok V P gov updated N n" and "c < n"
  shows "runCore (core_env V P n c) (comparedIV L) (rewireHelixLoop U L) (Suc N) st =
    Some (map (coreState (core_env V P n c) (rewireHelixLoop U L) st) [0..<visits n (Suc 0) N c],
          coreState (core_env V P n c) (rewireHelixLoop U L) st (visits n (Suc 0) N c))"
proof -
  have "visits n (Suc 0) N c - 0 < Suc N"
    using visits_le [of "Suc 0" n N c] helix_run_okD(1) [OF assms(4)] by (simp add: le_imp_less_Suc)
  from runCoreHeader_value [OF assms le0 this, of st]
  show ?thesis by (simp add: runCore_def coreState_def)
qed

definition coreBodies :: "((phi \<Rightarrow> u64) list \<times> (phi \<Rightarrow> u64)) option \<Rightarrow> (phi \<Rightarrow> u64) list" where
  "coreBodies r = (case r of None \<Rightarrow> [] | Some (bodies, final) \<Rightarrow> bodies)"

definition allCores ::
    "helix_iv_utility \<Rightarrow> helix_loop \<Rightarrow> (nat \<Rightarrow> ((phi \<Rightarrow> u64) list \<times> (phi \<Rightarrow> u64)) option \<Rightarrow> 'a list) \<Rightarrow>
     (nat \<Rightarrow> u64) \<Rightarrow> (u64 \<Rightarrow> bool) \<Rightarrow> nat \<Rightarrow> nat \<Rightarrow> (phi \<Rightarrow> u64) \<Rightarrow> 'a list" where
  "allCores U L observe V P n fuel st =
     concat (map (\<lambda>c. observe c
       (runCore (core_env V P n c) (comparedIV L) (rewireHelixLoop U L) fuel st)) [0..<n])"

text \<open>
  C10: HELIX deals the iterations of a loop governed by an induction variable out to its cores, each to
  one core. For any number of cores: every core leaves the rewired loop, and the executions of the body
  by all cores, taken together, see exactly the values of the induction and periodic variables (those
  that were not spilled) that the iterations of the sequential loop see, each iteration's once.
\<close>

theorem helix_each_iteration_once:
  assumes "helix_utility_ok U updated" and "helix_loop_ok L" and "governed L gov updated"
    and "helix_run_ok V P gov updated N n" and "helix_periods_positive V L"
  shows "(\<forall>c < n. runCore (core_env V P n c) (comparedIV L) (rewireHelixLoop U L) (Suc N) st \<noteq> None) \<and>
    mset (allCores U L (\<lambda>c r. map (helixValues (core_env V P n c) L) (coreBodies r)) V P n (Suc N) st) =
      mset (map (helixSequentialValues V L) [0..<N])"
proof
  note run = helix_run_okD [OF assms(4)]
  note vals = runCore_value [OF assms(1-4)]
  show "\<forall>c < n. runCore (core_env V P n c) (comparedIV L) (rewireHelixLoop U L) (Suc N) st \<noteq> None"
    using vals by simp
  have each: "map (helixValues (core_env V P n c) L)
      (coreBodies (runCore (core_env V P n c) (comparedIV L) (rewireHelixLoop U L) (Suc N) st)) =
      map (helixSequentialValues V L) (map (helixIteration n c) [0..<visits n (Suc 0) N c])" if c: "c < n" for c
  proof -
    have "helixValues (core_env V P n c) L (coreState (core_env V P n c) (rewireHelixLoop U L) st j) =
        helixSequentialValues V L (helixIteration n c j)" if "j < visits n (Suc 0) N c" for j
    proof (rule helixValues_value [OF assms(2,5) coreState_helixAt [OF assms(1,2) run(1)]])
      have "helixIteration n c j < N" using visits_iff [of "Suc 0" n j N c] run(1) that by simp
      then show "helixIteration n c j < 2 ^ 63" using run(2) by linarith
    qed
    then show ?thesis unfolding vals [OF c] coreBodies_def by simp
  qed
  then have "allCores U L (\<lambda>c r. map (helixValues (core_env V P n c) L) (coreBodies r)) V P n (Suc N) st =
      map (helixSequentialValues V L)
        (concat (map (\<lambda>c. map (helixIteration n c) [0..<visits n (Suc 0) N c]) [0..<n]))"
    unfolding allCores_def map_concat map_map
    by (intro arg_cong [of _ _ concat] map_cong) (auto simp: o_def)
  then show "mset (allCores U L (\<lambda>c r. map (helixValues (core_env V P n c) L) (coreBodies r)) V P n (Suc N) st) =
      mset (map (helixSequentialValues V L) [0..<N])"
    using schedule_complete [of "Suc 0" n N] run(1) by (simp only: mset_map zero_less_Suc)
qed

section \<open>The last iteration\<close>

text \<open>The iteration of the header in which core \<open>c\<close> leaves the loop.\<close>

abbreviation leavingIteration :: "nat \<Rightarrow> nat \<Rightarrow> nat \<Rightarrow> nat" where
  "leavingIteration n N c \<equiv> helixIteration n c (visits n (Suc 0) N c)"

lemma leavingIteration_bounds:
  assumes "c < n"
  shows "N \<le> leavingIteration n N c" and "leavingIteration n N c < N + n"
    and "leavingIteration n N c mod n = c"
proof -
  have n: "0 < n" using assms by simp
  show "N \<le> leavingIteration n N c" by (rule iteration_visits_ge) (use n in simp_all)
  show "leavingIteration n N c mod n = c" using iteration_owner(1) [of "Suc 0" c n] assms by simp
  show "leavingIteration n N c < N + n"
  proof (cases "visits n (Suc 0) N c")
    case 0
    then show ?thesis using assms by (simp add: iteration_0)
  next
    case (Suc j)
    then have "helixIteration n c j < N" using visits_iff [of "Suc 0" n j N c] n by simp
    then show ?thesis unfolding Suc helixIteration_Suc [OF n] by simp
  qed
qed

lemma leavingIteration_eq:
  assumes "c < n" and "N \<le> i" and "i < N + n"
  shows "leavingIteration n N c = i \<longleftrightarrow> c = i mod n"
proof
  show "c = i mod n" if "leavingIteration n N c = i" using leavingIteration_bounds(3) [OF assms(1)] that by metis
  show "leavingIteration n N c = i" if "c = i mod n"
    by (rule window_mod_unique [where d = N and n = n])
      (use leavingIteration_bounds [OF assms(1)] assms(2,3) that in simp_all)
qed

text \<open>What the loop compared one iteration ago.\<close>

definition usedBefore :: "(nat \<Rightarrow> u64) \<Rightarrow> iv_info \<Rightarrow> bool \<Rightarrow> nat \<Rightarrow> u64" where
  "usedBefore V gov updated i =
     (if updated then ivAt V gov i else ivAt V gov i - valueOf V (ivStepValue gov))"

lemma usedBefore_usedAt: "0 < i \<Longrightarrow> usedBefore V gov updated i = usedAt V gov updated (i - 1)"
  using ivAt_previous [of i V gov] by (simp add: usedBefore_def usedAt_def)

lemma rewireHelixLoop_governed:
  assumes "governed L gov updated"
  shows "prevIterationValue (rewireHelixLoop U L) =
      Some (valueUsedAnIterationAgo U (Phi (HeaderPHI (ivPHI gov))) (ivStepValue gov))"
    and "guardSuccessors (rewireHelixLoop U L) =
      (if isTrueExiting L then (HeaderExit, LastIteration) else (LastIteration, HeaderExit))"
    and "headerSuccessors (rewireHelixLoop U L) =
      (if isTrueExiting L then (CheckIfLastIterationIsMissing, EntryIntoBody)
       else (EntryIntoBody, CheckIfLastIterationIsMissing))"
    and "lastIterationBlock (rewireHelixLoop U L) = Some (duplicatesInLastIterationBlock L)"
  using assms
  by (simp_all add: rewireHelixLoop_def rewireLoopForIVsToIterateNthIterations_def governed_def Let_def
      updatedBrInst_def replaceSuccessorWith_def split: prod.split)

lemma blockAfterGuard_value:
  assumes U: "helix_utility_ok U updated" and L: "helix_loop_ok L" and gov: "governed L gov updated"
    and at: "helixAt V L i st"
  shows "blockAfterGuard strict (core_env V P n c) L (rewireHelixLoop U L) st =
    (if strict (usedBefore V gov updated i) then HeaderExit else LastIteration)"
proof -
  have g: "gov \<in> set (ivInfos L)" using gov by (simp add: governed_def)
  then have "st (HeaderPHI (ivPHI gov)) = ivAt V gov i" using at by (simp add: helixAt_def)
  then show ?thesis
    using helix_loop_ok_iv(2) [OF L g, of "core_env V P n c" st]
    by (simp add: blockAfterGuard_def rewireHelixLoop_governed [OF gov] helix_utility_arith(4) [OF U] usedBefore_def)
qed

lemma storesLiveOuts_value:
  assumes U: "helix_utility_ok U updated" and L: "helix_loop_ok L" and gov: "governed L gov updated"
    and at: "helixAt V L i st"
  shows "storesLiveOuts strict (core_env V P n c) U L (rewireHelixLoop U L) st \<longleftrightarrow>
    \<not> strict (usedBefore V gov updated i) \<and> (P (usedBefore V gov updated i) \<longleftrightarrow> \<not> isTrueExiting L)"
proof -
  have g: "gov \<in> set (ivInfos L)" "governingIV L = Some gov" "\<not> hasASequentialPrologue L"
    using gov by (simp_all add: governed_def)
  then have "st (HeaderPHI (ivPHI gov)) = ivAt V gov i" using at by (simp add: helixAt_def)
  then show ?thesis
    using helix_loop_ok_iv(2) [OF L g(1), of "core_env V P n c" st] g(2,3)
    by (auto simp: storesLiveOuts_def liveOutBlock_def blockAfterGuard_value [OF assms]
        rewireHelixLoop_governed [OF gov] runsStoreOfLastIteration_def jumpInLoopCondition_def
        helix_utility_arith(5) [OF U] usedBefore_def)
qed

text \<open>The cores of which something holds when they have left the loop.\<close>

definition finalCores ::
    "(nat \<Rightarrow> (phi \<Rightarrow> u64) \<Rightarrow> bool) \<Rightarrow> helix_iv_utility \<Rightarrow> helix_loop \<Rightarrow> (nat \<Rightarrow> u64) \<Rightarrow> (u64 \<Rightarrow> bool) \<Rightarrow> nat \<Rightarrow>
     nat \<Rightarrow> (phi \<Rightarrow> u64) \<Rightarrow> nat list" where
  "finalCores Q U L =
     allCores U L (\<lambda>c r. case r of None \<Rightarrow> [] | Some (bodies, final) \<Rightarrow> if Q c final then [c] else [])"

definition lastIterationCores ::
    "(u64 \<Rightarrow> bool) \<Rightarrow> helix_iv_utility \<Rightarrow> helix_loop \<Rightarrow> (nat \<Rightarrow> u64) \<Rightarrow> (u64 \<Rightarrow> bool) \<Rightarrow> nat \<Rightarrow> nat \<Rightarrow>
     (phi \<Rightarrow> u64) \<Rightarrow> nat list" where
  "lastIterationCores strict U L V P n =
     finalCores (\<lambda>c st. blockAfterGuard strict (core_env V P n c) L (rewireHelixLoop U L) st = LastIteration)
       U L V P n"

definition storingCores ::
    "(u64 \<Rightarrow> bool) \<Rightarrow> helix_iv_utility \<Rightarrow> helix_loop \<Rightarrow> (nat \<Rightarrow> u64) \<Rightarrow> (u64 \<Rightarrow> bool) \<Rightarrow> nat \<Rightarrow> nat \<Rightarrow>
     (phi \<Rightarrow> u64) \<Rightarrow> nat list" where
  "storingCores strict U L V P n =
     finalCores (\<lambda>c st. storesLiveOuts strict (core_env V P n c) U L (rewireHelixLoop U L) st) U L V P n"

lemma concat_if_singleton: "concat (map (\<lambda>c. if Q c then [c] else []) xs) = filter Q xs"
  by (induction xs) auto

lemma finalCores_value:
  assumes "helix_utility_ok U updated" and "helix_loop_ok L" and "governed L gov updated"
    and "helix_run_ok V P gov updated N n"
    and "\<And>c. c < n \<Longrightarrow> Q c (coreState (core_env V P n c) (rewireHelixLoop U L) st (visits n (Suc 0) N c)) \<longleftrightarrow> R c"
  shows "finalCores Q U L V P n (Suc N) st = filter R [0..<n]"
  unfolding finalCores_def allCores_def concat_if_singleton [of R, symmetric]
  by (intro arg_cong [of _ _ concat] map_cong refl) (use assms(5) in \<open>simp add: runCore_value [OF assms(1-4)]\<close>)

lemma filter_eq_upt: "m < n \<Longrightarrow> filter (\<lambda>c. c = m) [0..<n] = [m]"
  by (induction n) (auto simp: less_Suc_eq)

text \<open>
  The guards, when the strict comparison holds from the \<open>M\<close>-th value on: from the value the loop leaves
  on, or from the next one.
\<close>

lemma guards_value:
  assumes run: "helix_run_ok V P gov updated N n" and c: "c < n"
    and strict: "\<forall>i \<le> N + n. strict (usedAt V gov updated i) \<longleftrightarrow> M \<le> i" and M: "M = N \<or> M = Suc N"
    and zero: "N = 0 \<longrightarrow> \<not> P (usedBefore V gov updated 0) \<and> \<not> strict (usedBefore V gov updated 0)"
  shows "strict (usedBefore V gov updated (leavingIteration n N c)) \<longleftrightarrow> \<not> (c = N mod n \<or> c = M mod n)"
    and "P (usedBefore V gov updated (leavingIteration n N c)) \<longleftrightarrow> c \<noteq> N mod n"
proof -
  let ?k = "leavingIteration n N c"
  note k = leavingIteration_bounds [OF c, of N]
  have eqN: "?k = N \<longleftrightarrow> c = N mod n" by (rule leavingIteration_eq [OF c]) (use c in simp_all)
  have eqM: "?k = M \<longleftrightarrow> c = M mod n" if "M < N + n"
    by (rule leavingIteration_eq [OF c _ that]) (use M in auto)
  have one: "c = N mod n" if "\<not> M < N + n"
  proof -
    have "n = Suc 0" using that M c by auto
    then show ?thesis using c by simp
  qed
  have "strict (usedBefore V gov updated ?k) \<longleftrightarrow> M < ?k"
  proof (cases "?k = 0")
    case True
    then show ?thesis using zero k(1) by simp
  next
    case False
    then show ?thesis using usedBefore_usedAt [of ?k V gov updated] strict k(2) by auto
  qed
  moreover have "P (usedBefore V gov updated ?k) \<longleftrightarrow> N < ?k"
  proof (cases "?k = 0")
    case True
    then show ?thesis using zero k(1) by simp
  next
    case False
    then show ?thesis
      using usedBefore_usedAt [of ?k V gov updated] helix_run_okD(3) [OF run, of "?k - 1"] k(2) by auto
  qed
  ultimately show "strict (usedBefore V gov updated ?k) \<longleftrightarrow> \<not> (c = N mod n \<or> c = M mod n)"
    "P (usedBefore V gov updated ?k) \<longleftrightarrow> c \<noteq> N mod n"
    using eqN eqM one M k(1,2) by (auto simp: not_less)
qed

text \<open>
  C18: the code meant for the last execution of the header runs on the core of iteration \<open>N\<close>, in which the
  sequential loop leaves, if the guard compares as the header does (\<open>M = N\<close>); with the comparison made
  strict, as the comment describes it (\<open>M = N + 1\<close>), the core of iteration \<open>N + 1\<close> runs it as well. The
  live-out variables are stored by the core of iteration \<open>N\<close> alone either way.
\<close>

theorem helix_last_iteration:
  assumes "helix_utility_ok U updated" and "helix_loop_ok L" and "governed L gov updated"
    and "helix_run_ok V P gov updated N n"
    and "\<forall>i \<le> N + n. strict (usedAt V gov updated i) \<longleftrightarrow> M \<le> i" and "M = N \<or> M = Suc N"
    and "N = 0 \<longrightarrow> \<not> P (usedBefore V gov updated 0) \<and> \<not> strict (usedBefore V gov updated 0)"
  shows "lastIterationCores strict U L V P n (Suc N) st = filter (\<lambda>c. c = N mod n \<or> c = M mod n) [0..<n] \<and>
    (isTrueExiting L \<longrightarrow> storingCores strict U L V P n (Suc N) st = [N mod n])"
proof (intro conjI impI)
  note n = helix_run_okD(1) [OF assms(4)]
  note at = coreState_helixAt [OF assms(1,2) n]
  note guards = guards_value [OF assms(4) _ assms(5-7)]
  show "lastIterationCores strict U L V P n (Suc N) st = filter (\<lambda>c. c = N mod n \<or> c = M mod n) [0..<n]"
    unfolding lastIterationCores_def
    by (rule finalCores_value [OF assms(1-4)]) (simp add: blockAfterGuard_value [OF assms(1-3) at] guards(1))
  assume exiting: "isTrueExiting L"
  have "storingCores strict U L V P n (Suc N) st = filter (\<lambda>c. c = N mod n) [0..<n]"
    unfolding storingCores_def
    by (rule finalCores_value [OF assms(1-4)])
      (use exiting in \<open>auto simp: storesLiveOuts_value [OF assms(1-3) at] guards\<close>)
  then show "storingCores strict U L V P n (Suc N) st = [N mod n]" using filter_eq_upt n by simp
qed

text \<open>
  The test whether the first successor of the header's branch is the block of the store is never true,
  for the branch has been redirected; were the exit the second successor, no core would store.
\<close>

theorem helix_false_exit_stores_nothing:
  assumes "helix_utility_ok U updated" and "helix_loop_ok L" and "governed L gov updated"
    and "helix_run_ok V P gov updated N n" and "\<not> isTrueExiting L"
  shows "jumpInLoopCondition (rewireHelixLoop U L) (liveOutBlock (rewireHelixLoop U L)) \<and>
    storingCores P U L V P n (Suc N) st = []"
proof
  show "jumpInLoopCondition (rewireHelixLoop U L) (liveOutBlock (rewireHelixLoop U L))"
    by (simp add: jumpInLoopCondition_def liveOutBlock_def rewireHelixLoop_governed [OF assms(3)])
  note n = helix_run_okD(1) [OF assms(4)]
  have "storingCores P U L V P n (Suc N) st = filter (\<lambda>c. False) [0..<n]"
    unfolding storingCores_def
    by (rule finalCores_value [OF assms(1-4)])
      (use assms(5) in \<open>simp add: storesLiveOuts_value [OF assms(1-3) coreState_helixAt [OF assms(1,2) n]]\<close>)
  then show "storingCores P U L V P n (Suc N) st = []" by simp
qed

section \<open>A loop\<close>

lemma plain_helix_utility_ok: "helix_utility_ok plain_helix_utility False"
  by (simp add: helix_utility_ok_def plain_helix_utility_def)

lemma helix_count_loop_ok: "helix_loop_ok (helix_count_loop e)"
  by (simp add: helix_loop_ok_def helix_count_loop_def ivInfos_def periodicsKept_def count_iv_def mod3_def)

lemma helix_count_loop_governed: "governed (helix_count_loop e) count_iv False"
  by (simp add: governed_def helix_count_loop_def ivInfos_def) (simp add: count_iv_def)

lemma count_iv_past:
  assumes "i \<le> 7"
  shows "(12 :: u64) \<le> ivAt V count_iv i \<longleftrightarrow> 4 \<le> i" and "(13 :: u64) < ivAt V count_iv i \<longleftrightarrow> 5 \<le> i"
proof -
  have "\<forall>i \<in> set [0..<8]. ((12 :: u64) \<le> 5 + of_nat i * 2 \<longleftrightarrow> 4 \<le> i) \<and> ((13 :: u64) < 5 + of_nat i * 2 \<longleftrightarrow> 5 \<le> i)"
    by code_simp
  then show "(12 :: u64) \<le> ivAt V count_iv i \<longleftrightarrow> 4 \<le> i" "(13 :: u64) < ivAt V count_iv i \<longleftrightarrow> 5 \<le> i"
    using assms by (simp_all add: count_loop_iv)
qed

lemma helix_count_run_ok: "helix_run_ok V (\<lambda>x. 12 \<le> x) count_iv False 4 3"
  using count_iv_past(1) by (simp add: helix_run_ok_def usedAt_def)

lemma helix_count_periods: "helix_periods_positive V (helix_count_loop e)"
  by (simp add: helix_periods_positive_def periodicsKept_def helix_count_loop_def mod3_def valueOf_def)

theorem helix_each_iteration_once_witness:
  "mset (allCores plain_helix_utility (helix_count_loop True)
      (\<lambda>c r. map (helixValues (core_env no_values (\<lambda>x. 12 \<le> x) 3 c) (helix_count_loop True)) (coreBodies r))
      no_values (\<lambda>x. 12 \<le> x) 3 5 any_state) = {#[5, 10], [7, 11], [9, 12], [11, 10]#}"
proof -
  have "map (helixSequentialValues no_values (helix_count_loop True)) [0..<4] = [[5, 10], [7, 11], [9, 12], [11, 10]]"
    by code_simp
  then show ?thesis
    using helix_each_iteration_once [OF plain_helix_utility_ok helix_count_loop_ok helix_count_loop_governed
        helix_count_run_ok helix_count_periods, of no_values True any_state] by simp
qed

text \<open>With the strict comparison two cores run the last header, and one stores.\<close>

theorem helix_last_iteration_witness:
  "lastIterationCores (\<lambda>x. 13 < x) plain_helix_utility (helix_count_loop True) no_values (\<lambda>x. 12 \<le> x) 3 5 any_state =
     [1, 2] \<and>
   storingCores (\<lambda>x. 13 < x) plain_helix_utility (helix_count_loop True) no_values (\<lambda>x. 12 \<le> x) 3 5 any_state = [1]"
proof -
  have strict: "\<forall>i \<le> 4 + 3. 13 < usedAt no_values count_iv False i \<longleftrightarrow> 5 \<le> i"
    using count_iv_past(2) by (simp add: usedAt_def)
  have exiting: "isTrueExiting (helix_count_loop True)" by (simp add: helix_count_loop_def)
  have "filter (\<lambda>c. c = 4 mod 3 \<or> c = 5 mod 3) [0..<3] = [1, 2 :: nat]" by code_simp
  then show ?thesis
    using helix_last_iteration [OF plain_helix_utility_ok helix_count_loop_ok helix_count_loop_governed
        helix_count_run_ok strict, of True any_state] exiting by simp
qed

theorem helix_false_exit_stores_nothing_witness:
  "storingCores (\<lambda>x. 12 \<le> x) plain_helix_utility (helix_count_loop False) no_values (\<lambda>x. 12 \<le> x) 3 5 any_state = []"
  using helix_false_exit_stores_nothing [OF plain_helix_utility_ok helix_count_loop_ok helix_count_loop_governed
      helix_count_run_ok, of False no_values any_state]
  by (simp add: helix_count_loop_def)

end
