(* ===== verification/Helix_Header.thy ===== *)
theory Helix_Header
  imports Helix_Stepper
begin

text \<open>
  The instructions HELIX moves out of the header (\<open>HELIX_stepper.cpp\<close>): header and body still compute
  what they did, and the block for the last iteration computes what the header would have.
\<close>

section \<open>Straight-line code\<close>

text \<open>
  What an operation computes from its operands and the memory. The state is the values of the
  instructions and the memory.
\<close>

type_synonym 'm operation = "nat \<Rightarrow> u64 list \<Rightarrow> 'm \<Rightarrow> u64 \<times> 'm"

definition execInst :: "'m operation \<Rightarrow> task_inst \<Rightarrow> (nat \<Rightarrow> u64) \<times> 'm \<Rightarrow> (nat \<Rightarrow> u64) \<times> 'm" where
  "execInst op I s =
     (let (v, m) = op (opcode I) (map (fst s) (operands I)) (snd s) in ((fst s)(instID I := v), m))"

fun execInsts :: "'m operation \<Rightarrow> task_inst list \<Rightarrow> (nat \<Rightarrow> u64) \<times> 'm \<Rightarrow> (nat \<Rightarrow> u64) \<times> 'm" where
  "execInsts op [] s = s"
| "execInsts op (I # Is) s = execInsts op Is (execInst op I s)"

lemma execInsts_append [simp]: "execInsts op (xs @ ys) s = execInsts op ys (execInsts op xs s)"
  by (induction xs arbitrary: s) simp_all







section \<open>The duplicates\<close>

lemma replaceUsesOfWith_simps [simp]:
  "instID (replaceUsesOfWith old new I) = instID I" "opcode (replaceUsesOfWith old new I) = opcode I"
  "operands (replaceUsesOfWith old new I) = map (\<lambda>x. if x = old then new else x) (operands I)"
  by (simp_all add: replaceUsesOfWith_def)






section \<open>The rewired header\<close>


lemma moveToBody_append: "moveToBody must body = must @ body"
  unfolding moveToBody_def by (induction must arbitrary: body rule: rev_induct) simp_all

lemma rewired_blocks:
  assumes "headersRunInParallel L"
  shows "newHeader (rewireLoopForIVsToIterateNthIterations U L) =
      filter (\<lambda>I. instID I \<in> cloneInstsThatCanStayInTheNewHeader L) (headerCloneInsts L)"
    and "newBody (rewireLoopForIVsToIterateNthIterations U L) =
      bodyPHIs L @ cloneInstsThatMustMove L @ bodyInsts L"
    and "lastIterationBlock (rewireLoopForIVsToIterateNthIterations U L) =
      Some (duplicatesInLastIterationBlock L)"
  using assms
  by (auto simp: headersRunInParallel_def rewireLoopForIVsToIterateNthIterations_def Let_def
      moveToBody_append)



text \<open>
  A value the exit comparison needs, if the header computes it, moves to the body although the
  comparison stays: in the new header the comparison uses an instruction that comes after it. (DOALL
  moves such values to the entry of the task.)
\<close>

theorem helix_condition_left_behind:
  assumes "headersRunInParallel L" and "C \<in> set (headerCloneInsts L)" and "D \<in> set (headerCloneInsts L)"
    and "instID D \<in> set (operands C)" and "instID C \<in> cloneInstsThatCanStayInTheNewHeader L"
    and "instID D \<notin> cloneInstsThatCanStayInTheNewHeader L"
  shows "C \<in> set (newHeader (rewireLoopForIVsToIterateNthIterations U L)) \<and>
    instID D \<notin> instID ` set (newHeader (rewireLoopForIVsToIterateNthIterations U L)) \<and>
    D \<in> set (newBody (rewireLoopForIVsToIterateNthIterations U L))"
  using assms(2-) unfolding rewired_blocks(1,2) [OF assms(1)]
  by (auto simp: cloneInstsThatMustMove_def)




lemma helix_count_parallel: "headersRunInParallel (helix_count_loop e)"
  by (simp add: headersRunInParallel_def helix_count_loop_def)


text \<open>The same loop, compared against what the header computes from the value it loads.\<close>

definition loaded_bound_loop :: helix_loop where
  "loaded_bound_loop = (helix_count_loop True)\<lparr>headerCloneInsts :=
     [\<lparr>instID = 10, opcode = 0, operands = []\<rparr>, \<lparr>instID = 11, opcode = 1, operands = []\<rparr>,
      \<lparr>instID = 13, opcode = 3, operands = [10, 11]\<rparr>, \<lparr>instID = 14, opcode = 4, operands = [13]\<rparr>]\<rparr>"

theorem helix_condition_left_behind_witness:
  "\<lparr>instID = 13, opcode = 3, operands = [10, 11]\<rparr> \<in>
     set (newHeader (rewireLoopForIVsToIterateNthIterations plain_helix_utility loaded_bound_loop)) \<and>
   \<lparr>instID = 11, opcode = 1, operands = []\<rparr> \<in>
     set (newBody (rewireLoopForIVsToIterateNthIterations plain_helix_utility loaded_bound_loop))"
proof -
  have stays: "cloneInstsThatCanStayInTheNewHeader loaded_bound_loop = {10, 13, 14}"
    by (auto simp: loaded_bound_loop_def cloneInstsThatCanStayInTheNewHeader_def helix_count_loop_def
        canStayInTheNewHeader_def List.map_filter_def)
  have "headersRunInParallel loaded_bound_loop"
    using helix_count_parallel by (simp add: loaded_bound_loop_def headersRunInParallel_def)
  from helix_condition_left_behind [OF this, of "\<lparr>instID = 13, opcode = 3, operands = [10, 11]\<rparr>"
      "\<lparr>instID = 11, opcode = 1, operands = []\<rparr>" plain_helix_utility]
  show ?thesis by (simp add: stays) (simp add: loaded_bound_loop_def)
qed

end
