(* ===== verification/Helix_Spiller.thy ===== *)
theory Helix_Spiller
  imports Gino_Prelude
begin

text \<open>
  How HELIX turns a loop-carried PHI into a variable in memory (\<open>helix/src/HELIX_spiller.cpp\<close>): which
  PHIs are spilled, where their values are stored, in which blocks the variable is loaded, and which
  uses read the loads. A block of the task and the block it clones share a number.
\<close>

section \<open>Which PHIs\<close>

datatype scc_kind = ReductionKind | InductionVariableKind | PeriodicVariableKind | OtherKind

record header_phi =
  phiID :: nat
  sccKind :: scc_kind
  contributesToIV :: bool

definition originalLoopCarriedPHIs :: "header_phi list \<Rightarrow> header_phi list" where
  "originalLoopCarriedPHIs phis =
     filter (\<lambda>p. sccKind p \<notin> {ReductionKind, InductionVariableKind, PeriodicVariableKind} \<and> \<not> contributesToIV p) phis"

section \<open>The loop and the spilled PHI\<close>

text \<open>
  \<open>dominatorsOf b\<close> is \<open>b\<close>, its immediate dominator, and so on up to the entry of the function;
  \<open>reachableBlocks b\<close> are the blocks of the instructions in the \<open>OUT\<close> set of \<open>b\<close>'s terminator.
\<close>

record spill_loop =
  loopBlocks :: "nat list"
  loopHeaderBlock :: nat
  successorsOf :: "nat \<Rightarrow> nat list"
  loopExitEdges :: "(nat \<times> nat) list"
  loopExitBlocks :: "nat list"
  dominatorsOf :: "nat \<Rightarrow> nat list"
  reachableBlocks :: "nat \<Rightarrow> nat list"

text \<open>
  An incoming value: an instruction with its block, and whether it is a PHI; or anything else. A user
  of the PHI: its name, its block and, if it is a PHI, the blocks the spilled PHI comes from.
\<close>

datatype incoming_value = InstructionOf nat nat bool | NotAnInstruction

record spill_user =
  userID :: nat
  userBlock :: nat
  userIncomingBlocks :: "nat list"

record spilled_phi =
  spilledID :: nat
  incomingValues :: "(incoming_value \<times> nat) list"
  clonedPreheader :: nat
  spillUsers :: "spill_user list"

text \<open>The code of a block: PHIs, instructions, the stores and loads of the spill, the terminator.\<close>

datatype spill_inst = PhiI nat | InstI nat | StoreI nat | LoadI | TermI nat

type_synonym spill_code = "nat \<Rightarrow> spill_inst list"

fun isPhiI :: "spill_inst \<Rightarrow> bool" where
  "isPhiI (PhiI i) = True"
| "isPhiI I = False"

fun isStoreI :: "spill_inst \<Rightarrow> bool" where
  "isStoreI (StoreI k) = True"
| "isStoreI I = False"

fun isTermI :: "spill_inst \<Rightarrow> bool" where
  "isTermI (TermI i) = True"
| "isTermI I = False"

section \<open>Stores\<close>

text \<open>After an instruction, after the PHIs, before the terminator.\<close>

definition insertAfterInst :: "nat \<Rightarrow> spill_inst \<Rightarrow> spill_inst list \<Rightarrow> spill_inst list" where
  "insertAfterInst i new xs =
     (case dropWhile (\<lambda>I. I \<noteq> InstI i) xs of
        [] \<Rightarrow> xs
      | I # ys \<Rightarrow> takeWhile (\<lambda>I. I \<noteq> InstI i) xs @ I # new # ys)"

definition insertAfterPHIs :: "spill_inst \<Rightarrow> spill_inst list \<Rightarrow> spill_inst list" where
  "insertAfterPHIs new xs = takeWhile isPhiI xs @ new # dropWhile isPhiI xs"

definition insertBeforeTerm :: "spill_inst \<Rightarrow> spill_inst list \<Rightarrow> spill_inst list" where
  "insertBeforeTerm new xs = takeWhile (\<lambda>I. \<not> isTermI I) xs @ new # dropWhile (\<lambda>I. \<not> isTermI I) xs"

text \<open>The block of the store of an incoming value, and the store itself.\<close>

definition storeBlock :: "spill_loop \<Rightarrow> incoming_value \<times> nat \<Rightarrow> nat" where
  "storeBlock G inc =
     (case fst inc of
        InstructionOf i b phi \<Rightarrow> if b \<in> set (loopBlocks G) then b else snd inc
      | NotAnInstruction \<Rightarrow> snd inc)"

definition insertStore :: "spill_loop \<Rightarrow> nat \<Rightarrow> incoming_value \<times> nat \<Rightarrow> spill_code \<Rightarrow> spill_code" where
  "insertStore G k inc code =
     (let b = storeBlock G inc in
      code(b := (case fst inc of
          InstructionOf i ib phi \<Rightarrow>
            if ib \<in> set (loopBlocks G)
            then (if phi then insertAfterPHIs (StoreI k) (code b) else insertAfterInst i (StoreI k) (code b))
            else insertBeforeTerm (StoreI k) (code b)
        | NotAnInstruction \<Rightarrow> insertBeforeTerm (StoreI k) (code b))))"

definition storedIncoming :: "spilled_phi \<Rightarrow> (incoming_value \<times> nat) list" where
  "storedIncoming sp = filter (\<lambda>inc. snd inc \<noteq> clonedPreheader sp) (incomingValues sp)"

definition insertStoresToSpilledLCD :: "spill_loop \<Rightarrow> spilled_phi \<Rightarrow> spill_code \<Rightarrow> spill_code" where
  "insertStoresToSpilledLCD G sp code =
     fold (\<lambda>(k, inc). insertStore G k inc) (List.enumerate 0 (storedIncoming sp)) code"

definition environmentStores :: "spill_loop \<Rightarrow> spilled_phi \<Rightarrow> nat list" where
  "environmentStores G sp = map (storeBlock G) (storedIncoming sp)"

section \<open>The blocks to load in\<close>

definition invalidatedByStore :: "spill_loop \<Rightarrow> nat \<Rightarrow> nat list" where
  "invalidatedByStore G b =
     concat (map (\<lambda>s. s # reachableBlocks G s)
       (filter (\<lambda>s. s \<noteq> loopHeaderBlock G \<and> s \<in> set (loopBlocks G)) (successorsOf G b)))"

definition invalidatedBlocks :: "spill_loop \<Rightarrow> nat list \<Rightarrow> nat list" where
  "invalidatedBlocks G stores =
     fold (\<lambda>(exiting, exit) invalid. if exiting \<in> set invalid then exit # invalid else invalid) (loopExitEdges G)
       (concat (map (invalidatedByStore G) stores))"

text \<open>The walk up the dominator tree.\<close>

fun getValidBlockToLoadIn :: "nat \<Rightarrow> nat list \<Rightarrow> nat list \<Rightarrow> nat result" where
  "getValidBlockToLoadIn header invalid [] = Inl UndefinedBehaviour"
| "getValidBlockToLoadIn header invalid (b # bs) =
     (if b \<notin> set invalid then Inr b
      else if b = header then Inl AssertionFailed
      else getValidBlockToLoadIn header invalid bs)"

definition findNearestCommonDominator :: "spill_loop \<Rightarrow> nat \<Rightarrow> nat \<Rightarrow> nat result" where
  "findNearestCommonDominator G a b =
     (case filter (\<lambda>d. d \<in> set (dominatorsOf G b)) (dominatorsOf G a) of
        [] \<Rightarrow> Inl UndefinedBehaviour
      | d # ds \<Rightarrow> Inr d)"

text \<open>A PHI that uses the spilled one: a block that dominates it and where the value comes from.\<close>

fun commonDominators :: "spill_loop \<Rightarrow> nat \<Rightarrow> nat list \<Rightarrow> nat result" where
  "commonDominators G b [] = Inr b"
| "commonDominators G b (inc # incs) =
     (case findNearestCommonDominator G b inc of Inl e \<Rightarrow> Inl e | Inr d \<Rightarrow> commonDominators G d incs)"

definition validBlockFor :: "spill_loop \<Rightarrow> nat list \<Rightarrow> nat result \<Rightarrow> nat result" where
  "validBlockFor G invalid start =
     (case start of
        Inl e \<Rightarrow> Inl e
      | Inr b \<Rightarrow> getValidBlockToLoadIn (loopHeaderBlock G) invalid (dominatorsOf G b))"

fun collectBlocks :: "nat result list \<Rightarrow> nat list result" where
  "collectBlocks [] = Inr []"
| "collectBlocks (r # rs) =
     (case r of
        Inl e \<Rightarrow> Inl e
      | Inr b \<Rightarrow> (case collectBlocks rs of Inl e \<Rightarrow> Inl e | Inr bs \<Rightarrow> Inr (b # bs)))"

definition dominates :: "spill_loop \<Rightarrow> nat \<Rightarrow> nat \<Rightarrow> bool" where
  "dominates G a b \<longleftrightarrow> a \<in> set (dominatorsOf G b)"

definition candidateBlocks :: "spill_loop \<Rightarrow> spilled_phi \<Rightarrow> nat list result" where
  "candidateBlocks G sp =
     (let invalid = invalidatedBlocks G (environmentStores G sp) in
      collectBlocks
        (map (\<lambda>u. validBlockFor G invalid (commonDominators G (userBlock u) (userIncomingBlocks u))) (spillUsers sp) @
         map (\<lambda>e. validBlockFor G invalid (Inr e)) (loopExitBlocks G)))"

definition removeUnnecessary :: "spill_loop \<Rightarrow> nat list \<Rightarrow> nat list" where
  "removeUnnecessary G bs = filter (\<lambda>b. \<not> (\<exists>c \<in> set bs. c \<noteq> b \<and> dominates G c b)) (remdups bs)"

definition defineFrontierForLoadsToSpilledLCD :: "spill_loop \<Rightarrow> spilled_phi \<Rightarrow> nat list result" where
  "defineFrontierForLoadsToSpilledLCD G sp =
     (case candidateBlocks G sp of Inl e \<Rightarrow> Inl e | Inr bs \<Rightarrow> Inr (removeUnnecessary G bs))"

section \<open>Loads\<close>

text \<open>After the PHIs, before the first user or store of the spill and before the terminator.\<close>

definition stopsLoad :: "spilled_phi \<Rightarrow> spill_inst \<Rightarrow> bool" where
  "stopsLoad sp I \<longleftrightarrow>
     isTermI I \<or> isStoreI I \<or> (\<exists>u \<in> set (spillUsers sp). I = InstI (userID u))"

definition insertLoad :: "spilled_phi \<Rightarrow> spill_inst list \<Rightarrow> spill_inst list" where
  "insertLoad sp xs =
     (let rest = dropWhile isPhiI xs
      in takeWhile isPhiI xs @ takeWhile (\<lambda>I. \<not> stopsLoad sp I) rest @ LoadI #
         dropWhile (\<lambda>I. \<not> stopsLoad sp I) rest)"

definition insertLoads :: "spilled_phi \<Rightarrow> nat list \<Rightarrow> spill_code \<Rightarrow> spill_code" where
  "insertLoads sp fr code = fold (\<lambda>b code. code(b := insertLoad sp (code b))) fr code"

text \<open>
  Which load a user reads; the PHI is erased, which no user may survive. The loads that a loop exit is
  dominated by stand for the PHI as live-out values; each exit must have one.
\<close>

definition loadOfUser :: "spill_loop \<Rightarrow> nat list \<Rightarrow> spill_user \<Rightarrow> nat option" where
  "loadOfUser G fr u = find (\<lambda>b. dominates G b (userBlock u)) fr"

definition liveOutLoads :: "spill_loop \<Rightarrow> nat list \<Rightarrow> nat \<Rightarrow> nat list" where
  "liveOutLoads G fr exit = filter (\<lambda>b. dominates G b exit) fr"

record spilled_code =
  spilledBlocks :: spill_code
  loadBlocks :: "nat list"
  userLoads :: "(nat \<times> nat) list"
  exitLoads :: "(nat \<times> nat list) list"

definition replaceUsesOfSpilledPHIWithLoads ::
    "spill_loop \<Rightarrow> spilled_phi \<Rightarrow> nat list \<Rightarrow> spill_code \<Rightarrow> spilled_code result" where
  "replaceUsesOfSpilledPHIWithLoads G sp fr code =
     (if \<exists>u \<in> set (spillUsers sp). loadOfUser G fr u = None then Inl AssertionFailed
      else if \<exists>e \<in> set (loopExitBlocks G). liveOutLoads G fr e = [] then Inl AssertionFailed
      else Inr \<lparr>spilledBlocks = insertLoads sp fr code, loadBlocks = fr,
             userLoads = map (\<lambda>u. (userID u, the (loadOfUser G fr u))) (spillUsers sp),
             exitLoads = map (\<lambda>e. (e, liveOutLoads G fr e)) (loopExitBlocks G)\<rparr>)"

definition createLoadsAndStoresToSpilledLCD ::
    "spill_loop \<Rightarrow> spilled_phi \<Rightarrow> spill_code \<Rightarrow> spilled_code result" where
  "createLoadsAndStoresToSpilledLCD G sp code =
     (case defineFrontierForLoadsToSpilledLCD G sp of
        Inl e \<Rightarrow> Inl e
      | Inr fr \<Rightarrow> replaceUsesOfSpilledPHIWithLoads G sp fr (insertStoresToSpilledLCD G sp code))"

text \<open>
  The loop-carried environment: one slot per spilled PHI, holding the value from the preheader when
  the task starts. The theory follows one spilled PHI at a time.
\<close>

definition initialEnvironment :: "header_phi list \<Rightarrow> (nat \<Rightarrow> 'v) \<Rightarrow> nat \<Rightarrow> 'v option" where
  "initialEnvironment phis preheaderV slot =
     (let ps = originalLoopCarriedPHIs phis in
      if slot < length ps then Some (preheaderV (phiID (ps ! slot))) else None)"

end
