(* ===== verification/Helix_Spill_Correct.thy ===== *)
theory Helix_Spill_Correct
  imports Helix_Spiller
begin

text \<open>
  What a spilled variable holds. On a path through an iteration every load comes before every store,
  each use of the PHI comes after a load, and from iteration to iteration the loads deliver the values
  of the PHI; except in an exit block loaded behind a store.
\<close>

section \<open>What the code relies on\<close>

text \<open>
  An iteration runs from the header along successors, stays in the loop until its last block, and does
  not come back to the header.
\<close>

definition iterationPath :: "spill_loop \<Rightarrow> nat list \<Rightarrow> bool" where
  "iterationPath G p \<longleftrightarrow>
     p \<noteq> [] \<and> p ! 0 = loopHeaderBlock G \<and>
     (\<forall>i. Suc i < length p \<longrightarrow> p ! i \<in> set (loopBlocks G) \<and> p ! Suc i \<in> set (successorsOf G (p ! i)) \<and>
        p ! Suc i \<noteq> loopHeaderBlock G)"

text \<open>
  The reachability analysis follows successors within an iteration. The exit edges are those that leave
  the loop.
\<close>

definition reachability_ok :: "spill_loop \<Rightarrow> bool" where
  "reachability_ok G \<longleftrightarrow>
     (\<forall>b \<in> set (loopBlocks G). \<forall>s \<in> set (successorsOf G b).
        (if s \<in> set (loopBlocks G) then s \<noteq> loopHeaderBlock G \<longrightarrow> s \<in> set (reachableBlocks G b)
         else (b, s) \<in> set (loopExitEdges G) \<and> s \<in> set (loopExitBlocks G))) \<and>
     (\<forall>b. \<forall>x \<in> set (reachableBlocks G b). \<forall>s \<in> set (successorsOf G x).
        s \<in> set (loopBlocks G) \<and> s \<noteq> loopHeaderBlock G \<longrightarrow> s \<in> set (reachableBlocks G b)) \<and>
     (\<forall>b. set (reachableBlocks G b) \<subseteq> set (loopBlocks G) - {loopHeaderBlock G}) \<and>
     (\<forall>(b, e) \<in> set (loopExitEdges G). e \<notin> set (loopBlocks G)) \<and>
     loopHeaderBlock G \<in> set (loopBlocks G)"

text \<open>
  The dominator tree: the dominators of a dominator are the rest of the chain; the header dominates the
  loop and its exits; what dominates a block and is dominated by the header is on every path of an
  iteration to the block.
\<close>

definition dominators_ok :: "spill_loop \<Rightarrow> bool" where
  "dominators_ok G \<longleftrightarrow>
     (\<forall>b. distinct (dominatorsOf G b) \<and> (\<exists>ds. dominatorsOf G b = b # ds)) \<and>
     (\<forall>b. \<forall>a \<in> set (dominatorsOf G b). \<exists>ds. dominatorsOf G b = ds @ dominatorsOf G a) \<and>
     (\<forall>b \<in> set (loopBlocks G) \<union> set (loopExitBlocks G). loopHeaderBlock G \<in> set (dominatorsOf G b)) \<and>
     (\<forall>p a. iterationPath G p \<and> a \<in> set (dominatorsOf G (last p)) \<and> loopHeaderBlock G \<in> set (dominatorsOf G a) \<longrightarrow>
        a \<in> set p)"

text \<open>
  The users are in the loop, where the header's PHI is defined; the block is as it was before the
  spill. A user that is not a PHI is an instruction of its block.
\<close>

definition spill_ok :: "spill_loop \<Rightarrow> spilled_phi \<Rightarrow> spill_code \<Rightarrow> bool" where
  "spill_ok G sp code \<longleftrightarrow>
     reachability_ok G \<and> dominators_ok G \<and>
     (\<forall>u \<in> set (spillUsers sp). userBlock u \<in> set (loopBlocks G) \<and>
        set (userIncomingBlocks u) \<subseteq> set (loopBlocks G)) \<and>
     (\<forall>b. LoadI \<notin> set (code b) \<and> (\<forall>k. StoreI k \<notin> set (code b)))"

lemma reachability_okD:
  assumes "reachability_ok G"
  shows "b \<in> set (loopBlocks G) \<Longrightarrow> s \<in> set (successorsOf G b) \<Longrightarrow> s \<in> set (loopBlocks G) \<Longrightarrow>
      s \<noteq> loopHeaderBlock G \<Longrightarrow> s \<in> set (reachableBlocks G b)"
    and "b \<in> set (loopBlocks G) \<Longrightarrow> s \<in> set (successorsOf G b) \<Longrightarrow> s \<notin> set (loopBlocks G) \<Longrightarrow>
      (b, s) \<in> set (loopExitEdges G)"
    and "b \<in> set (loopBlocks G) \<Longrightarrow> s \<in> set (successorsOf G b) \<Longrightarrow> s \<notin> set (loopBlocks G) \<Longrightarrow>
      s \<in> set (loopExitBlocks G)"
    and "x \<in> set (reachableBlocks G b) \<Longrightarrow> s \<in> set (successorsOf G x) \<Longrightarrow> s \<in> set (loopBlocks G) \<Longrightarrow>
      s \<noteq> loopHeaderBlock G \<Longrightarrow> s \<in> set (reachableBlocks G b)"
    and "x \<in> set (reachableBlocks G b) \<Longrightarrow> x \<in> set (loopBlocks G) \<and> x \<noteq> loopHeaderBlock G"
    and "(b, e) \<in> set (loopExitEdges G) \<Longrightarrow> e \<notin> set (loopBlocks G)"
    and "loopHeaderBlock G \<in> set (loopBlocks G)"
proof -
  note r = assms [unfolded reachability_ok_def]
  note r1 = r [THEN conjunct1] and r2 = r [THEN conjunct2, THEN conjunct1]
    and r3 = r [THEN conjunct2, THEN conjunct2, THEN conjunct1]
    and r4 = r [THEN conjunct2, THEN conjunct2, THEN conjunct2]
  show "b \<in> set (loopBlocks G) \<Longrightarrow> s \<in> set (successorsOf G b) \<Longrightarrow> s \<in> set (loopBlocks G) \<Longrightarrow>
      s \<noteq> loopHeaderBlock G \<Longrightarrow> s \<in> set (reachableBlocks G b)" using r1 by auto
  show "b \<in> set (loopBlocks G) \<Longrightarrow> s \<in> set (successorsOf G b) \<Longrightarrow> s \<notin> set (loopBlocks G) \<Longrightarrow>
      (b, s) \<in> set (loopExitEdges G)" using r1 by auto
  show "b \<in> set (loopBlocks G) \<Longrightarrow> s \<in> set (successorsOf G b) \<Longrightarrow> s \<notin> set (loopBlocks G) \<Longrightarrow>
      s \<in> set (loopExitBlocks G)" using r1 by auto
  show "x \<in> set (reachableBlocks G b) \<Longrightarrow> s \<in> set (successorsOf G x) \<Longrightarrow> s \<in> set (loopBlocks G) \<Longrightarrow>
      s \<noteq> loopHeaderBlock G \<Longrightarrow> s \<in> set (reachableBlocks G b)" using r2 by blast
  show "x \<in> set (reachableBlocks G b) \<Longrightarrow> x \<in> set (loopBlocks G) \<and> x \<noteq> loopHeaderBlock G" using r3 by blast
  show "(b, e) \<in> set (loopExitEdges G) \<Longrightarrow> e \<notin> set (loopBlocks G)" using r4 by blast
  show "loopHeaderBlock G \<in> set (loopBlocks G)" using r4 by blast
qed

lemma dominators_okD:
  assumes "dominators_ok G"
  shows "\<exists>ds. dominatorsOf G b = b # ds" and "distinct (dominatorsOf G b)"
    and "a \<in> set (dominatorsOf G b) \<Longrightarrow> \<exists>ds. dominatorsOf G b = ds @ dominatorsOf G a"
    and "b \<in> set (loopBlocks G) \<union> set (loopExitBlocks G) \<Longrightarrow> loopHeaderBlock G \<in> set (dominatorsOf G b)"
    and "iterationPath G p \<Longrightarrow> a \<in> set (dominatorsOf G (last p)) \<Longrightarrow> loopHeaderBlock G \<in> set (dominatorsOf G a) \<Longrightarrow>
      a \<in> set p"
proof -
  note d = assms [unfolded dominators_ok_def]
  show "\<exists>ds. dominatorsOf G b = b # ds" "distinct (dominatorsOf G b)"
    using d [THEN conjunct1, THEN spec, of b] by simp_all
  show "a \<in> set (dominatorsOf G b) \<Longrightarrow> \<exists>ds. dominatorsOf G b = ds @ dominatorsOf G a"
    using d [THEN conjunct2, THEN conjunct1, THEN spec, of b] by (rule bspec)
  show "b \<in> set (loopBlocks G) \<union> set (loopExitBlocks G) \<Longrightarrow> loopHeaderBlock G \<in> set (dominatorsOf G b)"
    using d [THEN conjunct2, THEN conjunct2, THEN conjunct1] by (rule bspec)
  show "iterationPath G p \<Longrightarrow> a \<in> set (dominatorsOf G (last p)) \<Longrightarrow>
      loopHeaderBlock G \<in> set (dominatorsOf G a) \<Longrightarrow> a \<in> set p"
    by (rule d [THEN conjunct2, THEN conjunct2, THEN conjunct2, THEN spec, THEN spec, THEN mp, OF conjI [OF _ conjI]])
qed

section \<open>Invalidated blocks\<close>

definition invalidatedInLoop :: "spill_loop \<Rightarrow> nat list \<Rightarrow> nat list" where
  "invalidatedInLoop G stores = concat (map (invalidatedByStore G) stores)"

lemma invalidatedInLoop_start:
  "b \<in> set stores \<Longrightarrow> s \<in> set (successorsOf G b) \<Longrightarrow> s \<in> set (loopBlocks G) \<Longrightarrow> s \<noteq> loopHeaderBlock G \<Longrightarrow>
     s \<in> set (invalidatedInLoop G stores)"
  by (auto simp: invalidatedInLoop_def invalidatedByStore_def)

lemma invalidatedInLoop_closed:
  assumes R: "reachability_ok G" and x: "x \<in> set (invalidatedInLoop G stores)"
    and s: "s \<in> set (successorsOf G x)" "s \<in> set (loopBlocks G)" "s \<noteq> loopHeaderBlock G"
  shows "s \<in> set (invalidatedInLoop G stores)"
proof -
  from x obtain b t where b: "b \<in> set stores" "t \<in> set (successorsOf G b)" "t \<noteq> loopHeaderBlock G"
      "t \<in> set (loopBlocks G)" "x = t \<or> x \<in> set (reachableBlocks G t)"
    by (auto simp: invalidatedInLoop_def invalidatedByStore_def)
  have "s \<in> set (reachableBlocks G t)"
    using b(5)
  proof
    assume "x = t"
    then show ?thesis using reachability_okD(1) [OF R b(4)] s by simp
  next
    assume "x \<in> set (reachableBlocks G t)"
    then show ?thesis by (rule reachability_okD(4) [OF R _ s])
  qed
  then show ?thesis using b(1-4) by (auto simp: invalidatedInLoop_def invalidatedByStore_def)
qed

lemma invalidatedInLoop_loop:
  assumes "reachability_ok G"
  shows "set (invalidatedInLoop G stores) \<subseteq> set (loopBlocks G) - {loopHeaderBlock G}"
  using reachability_okD(5) [OF assms] by (auto simp: invalidatedInLoop_def invalidatedByStore_def)

lemma fold_exits_mono:
  "set acc \<subseteq> set (fold (\<lambda>(x, e) a. if x \<in> set a then e # a else a) edges acc)"
  by (induction edges arbitrary: acc) (force split: prod.split)+

lemma fold_exits_add:
  "(x, e) \<in> set edges \<Longrightarrow> x \<in> set acc \<Longrightarrow>
     e \<in> set (fold (\<lambda>(x, e) a. if x \<in> set a then e # a else a) edges acc)"
proof (induction edges arbitrary: acc)
  case (Cons edge edges)
  show ?case
  proof (cases "edge = (x, e)")
    case True
    then show ?thesis using fold_exits_mono [of "e # acc" edges] Cons.prems(2) by auto
  next
    case False
    then have "(x, e) \<in> set edges" using Cons.prems(1) by simp
    then show ?thesis using Cons.IH Cons.prems(2) by (cases edge) simp
  qed
qed simp

lemma fold_exits_subset:
  "set (fold (\<lambda>(x, e) a. if x \<in> set a then e # a else a) edges acc) \<subseteq> set acc \<union> snd ` set edges"
proof (induction edges arbitrary: acc)
  case (Cons edge edges)
  show ?case using Cons.IH [of acc] Cons.IH [of "snd edge # acc"] by (cases edge) auto
qed simp

lemma invalidatedBlocks_mono: "set (invalidatedInLoop G stores) \<subseteq> set (invalidatedBlocks G stores)"
  unfolding invalidatedBlocks_def invalidatedInLoop_def [symmetric] by (rule fold_exits_mono)

lemma invalidatedBlocks_exit:
  "(x, e) \<in> set (loopExitEdges G) \<Longrightarrow> x \<in> set (invalidatedInLoop G stores) \<Longrightarrow> e \<in> set (invalidatedBlocks G stores)"
  unfolding invalidatedBlocks_def invalidatedInLoop_def [symmetric] by (rule fold_exits_add)

lemma invalidatedBlocks_in_loop:
  assumes "reachability_ok G" and "b \<in> set (invalidatedBlocks G stores)" and "b \<in> set (loopBlocks G)"
  shows "b \<in> set (invalidatedInLoop G stores)"
proof -
  have "b \<in> set (invalidatedInLoop G stores) \<union> snd ` set (loopExitEdges G)"
    using assms(2) unfolding invalidatedBlocks_def invalidatedInLoop_def [symmetric]
    by (rule subsetD [OF fold_exits_subset])
  moreover have "b \<notin> snd ` set (loopExitEdges G)" using reachability_okD(6) [OF assms(1)] assms(3) by auto
  ultimately show ?thesis by simp
qed

lemma header_valid:
  assumes "reachability_ok G"
  shows "loopHeaderBlock G \<notin> set (invalidatedBlocks G stores)"
proof
  assume "loopHeaderBlock G \<in> set (invalidatedBlocks G stores)"
  from invalidatedBlocks_in_loop [OF assms this reachability_okD(7) [OF assms]]
  have "loopHeaderBlock G \<in> set (loopBlocks G) - {loopHeaderBlock G}"
    by (rule subsetD [OF invalidatedInLoop_loop [OF assms]])
  then show False by simp
qed

text \<open>Behind a store every block of the path is invalidated, unless the path leaves right after it.\<close>

lemma behind_store:
  assumes R: "reachability_ok G" and p: "iterationPath G p" and i: "p ! i \<in> set stores" and "i < j" "j < length p"
  shows "p ! j \<in> set (invalidatedBlocks G stores) \<or> (j = Suc i \<and> p ! j \<notin> set (loopBlocks G))"
  using assms(4,5)
proof (induction j)
  case (Suc j)
  have step: "p ! j \<in> set (loopBlocks G)" "p ! Suc j \<in> set (successorsOf G (p ! j))"
      "p ! Suc j \<noteq> loopHeaderBlock G" using p Suc.prems(2) by (auto simp: iterationPath_def)
  show ?case
  proof (cases "i = j")
    case True
    show ?thesis
    proof (cases "p ! Suc j \<in> set (loopBlocks G)")
      case True
      from invalidatedInLoop_start [OF i _ this step(3)] step(2) \<open>i = j\<close> invalidatedBlocks_mono
      show ?thesis by blast
    next
      case False
      then show ?thesis using True by simp
    qed
  next
    case False
    then have "p ! j \<in> set (invalidatedBlocks G stores)" using Suc step(1) by auto
    then have x: "p ! j \<in> set (invalidatedInLoop G stores)" by (rule invalidatedBlocks_in_loop [OF R _ step(1)])
    show ?thesis
    proof (cases "p ! Suc j \<in> set (loopBlocks G)")
      case True
      from invalidatedInLoop_closed [OF R x step(2) this step(3)] invalidatedBlocks_mono show ?thesis by blast
    next
      case False
      from invalidatedBlocks_exit [OF reachability_okD(2) [OF R step(1,2) this] x] show ?thesis by simp
    qed
  qed
qed simp

section \<open>The frontier\<close>

lemma getValidBlockToLoadIn_valid:
  "getValidBlockToLoadIn header invalid bs = Inr b \<Longrightarrow>
     b \<notin> set invalid \<and> (\<exists>xs ys. bs = xs @ b # ys \<and> set xs \<subseteq> set invalid)"
proof (induction bs)
  case (Cons c bs)
  show ?case
  proof (cases "c \<in> set invalid")
    case True
    then obtain xs ys where "b \<notin> set invalid" "bs = xs @ b # ys" "set xs \<subseteq> set invalid"
      using Cons by (auto split: if_splits)
    then show ?thesis using True by (intro conjI exI [of _ "c # xs"] exI [of _ ys]) simp_all
  next
    case False
    then show ?thesis using Cons.prems by (intro conjI exI [of _ "[]"] exI [of _ bs]) simp_all
  qed
qed simp

lemma getValidBlockToLoadIn_total:
  "header \<in> set bs \<Longrightarrow> header \<notin> set invalid \<Longrightarrow> \<exists>b. getValidBlockToLoadIn header invalid bs = Inr b"
  by (induction bs) auto

lemma collectBlocks_Inr:
  "collectBlocks rs = Inr bs \<Longrightarrow> rs = map Inr bs"
  by (induction rs arbitrary: bs) (auto split: sum.splits)

lemma collectBlocks_total:
  "\<forall>r \<in> set rs. \<exists>b. r = Inr b \<Longrightarrow> \<exists>bs. collectBlocks rs = Inr bs"
  by (induction rs) auto

text \<open>The blocks dominated by the header, where the walk up the dominator tree succeeds.\<close>

abbreviation headerDominates :: "spill_loop \<Rightarrow> nat \<Rightarrow> bool" where
  "headerDominates G b \<equiv> loopHeaderBlock G \<in> set (dominatorsOf G b)"

lemma dominators_trans:
  assumes "dominators_ok G" and "a \<in> set (dominatorsOf G b)" and "b \<in> set (dominatorsOf G c)"
  shows "a \<in> set (dominatorsOf G c)"
  using dominators_okD(3) [OF assms(1,3)] assms(2) by auto

lemma dominators_refl: "dominators_ok G \<Longrightarrow> b \<in> set (dominatorsOf G b)"
  using dominators_okD(1) [of G b] by auto

text \<open>Two dominators of a block are comparable.\<close>

lemma dominators_comparable:
  assumes D: "dominators_ok G" and "a \<in> set (dominatorsOf G c)" and "b \<in> set (dominatorsOf G c)"
  shows "a \<in> set (dominatorsOf G b) \<or> b \<in> set (dominatorsOf G a)"
proof -
  obtain xs ys where "dominatorsOf G c = xs @ dominatorsOf G a" "dominatorsOf G c = ys @ dominatorsOf G b"
    using dominators_okD(3) [OF D] assms(2,3) by meson
  then have "xs @ dominatorsOf G a = ys @ dominatorsOf G b" by simp
  then obtain zs where "dominatorsOf G a = zs @ dominatorsOf G b \<or> dominatorsOf G b = zs @ dominatorsOf G a"
    unfolding append_eq_append_conv2 by metis
  then show ?thesis using dominators_refl [OF D] by (metis Un_iff set_append)
qed

lemma dominators_length:
  assumes D: "dominators_ok G" and "a \<in> set (dominatorsOf G b)" and "a \<noteq> b"
  shows "length (dominatorsOf G a) < length (dominatorsOf G b)"
proof -
  obtain xs where xs: "dominatorsOf G b = xs @ dominatorsOf G a" using dominators_okD(3) [OF D assms(2)] by blast
  obtain as bs where "dominatorsOf G a = a # as" "dominatorsOf G b = b # bs" using dominators_okD(1) [OF D] by meson
  then have "xs \<noteq> []" using xs assms(3) by auto
  then show ?thesis by (simp add: xs)
qed

lemma findNearestCommonDominator_total:
  assumes D: "dominators_ok G" and "headerDominates G a" and "headerDominates G b"
  shows "\<exists>d. findNearestCommonDominator G a b = Inr d \<and> d \<in> set (dominatorsOf G a) \<and> headerDominates G d"
proof -
  let ?ds = "filter (\<lambda>d. d \<in> set (dominatorsOf G b))"
  have "loopHeaderBlock G \<in> set (?ds (dominatorsOf G a))" using assms(2,3) by simp
  then obtain d ds where d: "?ds (dominatorsOf G a) = d # ds" by (cases "?ds (dominatorsOf G a)") auto
  have "d \<in> set (?ds (dominatorsOf G a))" by (simp add: d)
  then have da: "d \<in> set (dominatorsOf G a)" by simp
  obtain xs where xs: "dominatorsOf G a = xs @ dominatorsOf G d" using dominators_okD(3) [OF D da] by blast
  have "d \<notin> set xs" using dominators_okD(2) [OF D, of a] dominators_refl [OF D, of d] by (auto simp: xs)
  then have "d \<notin> set (?ds xs)" by simp
  then have "?ds xs = []" using d by (cases "?ds xs") (auto simp: xs)
  then have "loopHeaderBlock G \<notin> set xs" using assms(3) by (auto simp: filter_empty_conv)
  then have "headerDominates G d" using assms(2) by (simp add: xs)
  then show ?thesis using d da by (simp add: findNearestCommonDominator_def)
qed

lemma commonDominators_total:
  assumes D: "dominators_ok G" and "headerDominates G b" and "\<forall>i \<in> set incs. headerDominates G i"
  shows "\<exists>d. commonDominators G b incs = Inr d \<and> d \<in> set (dominatorsOf G b) \<and> headerDominates G d"
  using assms(2,3)
proof (induction incs arbitrary: b)
  case Nil
  then show ?case using dominators_refl [OF D] by simp
next
  case (Cons i incs)
  obtain d where d: "findNearestCommonDominator G b i = Inr d" "d \<in> set (dominatorsOf G b)" "headerDominates G d"
    using findNearestCommonDominator_total [OF D Cons.prems(1)] Cons.prems(2) by auto
  from Cons.IH [OF d(3)] Cons.prems(2) obtain e where
    "commonDominators G d incs = Inr e" "e \<in> set (dominatorsOf G d)" "headerDominates G e" by auto
  then show ?case using d dominators_trans [OF D _ d(2)] by auto
qed

lemma validBlockFor_total:
  assumes R: "reachability_ok G" and D: "dominators_ok G" and h: "headerDominates G b"
  shows "\<exists>v. validBlockFor G (invalidatedBlocks G stores) (Inr b) = Inr v \<and> v \<in> set (dominatorsOf G b) \<and>
    v \<notin> set (invalidatedBlocks G stores) \<and> headerDominates G v"
proof -
  note no_header = header_valid [OF R, of stores]
  obtain v where v: "getValidBlockToLoadIn (loopHeaderBlock G) (invalidatedBlocks G stores) (dominatorsOf G b) = Inr v"
    using getValidBlockToLoadIn_total [OF h no_header] by blast
  then obtain xs ys where xs: "dominatorsOf G b = xs @ v # ys" "set xs \<subseteq> set (invalidatedBlocks G stores)"
    and valid: "v \<notin> set (invalidatedBlocks G stores)"
    using getValidBlockToLoadIn_valid by meson
  then have vb: "v \<in> set (dominatorsOf G b)" by simp
  obtain zs where zs: "dominatorsOf G b = zs @ dominatorsOf G v" using dominators_okD(3) [OF D vb] by blast
  obtain ds where ds: "dominatorsOf G v = v # ds" using dominators_okD(1) [OF D] by blast
  have "distinct (xs @ v # ys)" using dominators_okD(2) [OF D, of b] by (simp only: xs(1))
  moreover have "xs @ v # ys = zs @ v # ds" using xs(1) zs ds by simp
  ultimately have "xs = zs" by (metis append_Cons_eq_iff distinct_append distinct.simps(2) not_distinct_conv_prefix)
  then have "headerDominates G v" using h no_header xs(2) unfolding zs by auto
  then show ?thesis using v vb valid by (simp add: validBlockFor_def)
qed

lemma removeUnnecessary_covers:
  assumes D: "dominators_ok G" and "b \<in> set bs"
  shows "\<exists>f \<in> set (removeUnnecessary G bs). dominates G f b"
  using assms(2)
proof (induction "length (dominatorsOf G b)" arbitrary: b rule: less_induct)
  case less
  show ?case
  proof (cases "b \<in> set (removeUnnecessary G bs)")
    case True
    then show ?thesis using dominators_refl [OF D] by (auto simp: dominates_def)
  next
    case False
    then obtain c where c: "c \<in> set bs" "c \<noteq> b" "c \<in> set (dominatorsOf G b)"
      using less.prems by (auto simp: removeUnnecessary_def dominates_def)
    from less.hyps [OF dominators_length [OF D c(3,2)] c(1)] obtain f where
      "f \<in> set (removeUnnecessary G bs)" "f \<in> set (dominatorsOf G c)" by (auto simp: dominates_def)
    then show ?thesis using dominators_trans [OF D _ c(3)] by (auto simp: dominates_def)
  qed
qed

text \<open>What the frontier provides.\<close>

lemma frontier_value:
  assumes ok: "spill_ok G sp code"
  obtains bs where "defineFrontierForLoadsToSpilledLCD G sp = Inr (removeUnnecessary G bs)"
    and "\<forall>b \<in> set bs. b \<notin> set (invalidatedBlocks G (environmentStores G sp)) \<and> headerDominates G b"
    and "\<forall>u \<in> set (spillUsers sp). \<exists>f \<in> set (removeUnnecessary G bs). dominates G f (userBlock u)"
    and "\<forall>e \<in> set (loopExitBlocks G). \<exists>f \<in> set (removeUnnecessary G bs). dominates G f e"
proof -
  have R: "reachability_ok G" and D: "dominators_ok G"
    and U: "\<forall>u \<in> set (spillUsers sp). userBlock u \<in> set (loopBlocks G) \<and>
        set (userIncomingBlocks u) \<subseteq> set (loopBlocks G)"
    using ok by (simp_all add: spill_ok_def)
  let ?I = "invalidatedBlocks G (environmentStores G sp)"
  let ?u = "\<lambda>u. validBlockFor G ?I (commonDominators G (userBlock u) (userIncomingBlocks u))"
  let ?e = "\<lambda>e. validBlockFor G ?I (Inr e)"
  note head = dominators_okD(4) [OF D]
  have u: "\<exists>v. ?u u = Inr v \<and> v \<in> set (dominatorsOf G (userBlock u)) \<and> v \<notin> set ?I \<and> headerDominates G v" if "u \<in> set (spillUsers sp)" for u
  proof -
    have "headerDominates G (userBlock u)" "\<forall>i \<in> set (userIncomingBlocks u). headerDominates G i"
      using U that by (auto intro!: head)
    from commonDominators_total [OF D this] obtain d where
      d: "commonDominators G (userBlock u) (userIncomingBlocks u) = Inr d"
        "d \<in> set (dominatorsOf G (userBlock u))" "headerDominates G d" by blast
    then show ?thesis using validBlockFor_total [OF R D d(3)] dominators_trans [OF D _ d(2)] by auto
  qed
  have e: "\<exists>v. ?e e = Inr v \<and> v \<in> set (dominatorsOf G e) \<and> v \<notin> set ?I \<and> headerDominates G v" if "e \<in> set (loopExitBlocks G)" for e
    by (rule validBlockFor_total [OF R D head]) (use that in simp)
  have "\<forall>r \<in> set (map ?u (spillUsers sp) @ map ?e (loopExitBlocks G)). \<exists>b. r = Inr b"
    using u e by fastforce
  from collectBlocks_total [OF this] obtain bs where bs:
    "collectBlocks (map ?u (spillUsers sp) @ map ?e (loopExitBlocks G)) = Inr bs" by blast
  have cands: "?u ` set (spillUsers sp) \<union> ?e ` set (loopExitBlocks G) = Inr ` set bs"
    using arg_cong [OF collectBlocks_Inr [OF bs], of set] by simp
  have member: "v \<in> set bs" if "r \<in> ?u ` set (spillUsers sp) \<union> ?e ` set (loopExitBlocks G)" "r = Inr v" for r v
    using that unfolding cands by auto
  have covers: "\<exists>f \<in> set (removeUnnecessary G bs). dominates G f b"
    if "v \<in> set bs" "v \<in> set (dominatorsOf G b)" for v b
    using removeUnnecessary_covers [OF D that(1)] dominators_trans [OF D _ that(2)] by (auto simp: dominates_def)
  show thesis
  proof (rule that)
    show "defineFrontierForLoadsToSpilledLCD G sp = Inr (removeUnnecessary G bs)"
      using bs by (simp add: defineFrontierForLoadsToSpilledLCD_def candidateBlocks_def Let_def)
    show "\<forall>b \<in> set bs. b \<notin> set ?I \<and> headerDominates G b"
    proof
      fix b
      assume "b \<in> set bs"
      then have "Inr b \<in> ?u ` set (spillUsers sp) \<union> ?e ` set (loopExitBlocks G)" unfolding cands by simp
      then consider x where "x \<in> set (spillUsers sp)" "?u x = Inr b"
        | x where "x \<in> set (loopExitBlocks G)" "?e x = Inr b" by (auto simp: image_iff eq_commute)
      then show "b \<notin> set ?I \<and> headerDominates G b" using u e by cases fastforce+
    qed
    show "\<forall>u \<in> set (spillUsers sp). \<exists>f \<in> set (removeUnnecessary G bs). dominates G f (userBlock u)"
    proof
      fix x
      assume x: "x \<in> set (spillUsers sp)"
      then obtain v where v: "?u x = Inr v" "v \<in> set (dominatorsOf G (userBlock x))" using u by blast
      have "v \<in> set bs" by (rule member [OF UnI1 [OF imageI [OF x]] v(1)])
      then show "\<exists>f \<in> set (removeUnnecessary G bs). dominates G f (userBlock x)" by (rule covers [OF _ v(2)])
    qed
    show "\<forall>e \<in> set (loopExitBlocks G). \<exists>f \<in> set (removeUnnecessary G bs). dominates G f e"
    proof
      fix x
      assume x: "x \<in> set (loopExitBlocks G)"
      then obtain v where v: "?e x = Inr v" "v \<in> set (dominatorsOf G x)" using e by blast
      have "v \<in> set bs" by (rule member [OF UnI2 [OF imageI [OF x]] v(1)])
      then show "\<exists>f \<in> set (removeUnnecessary G bs). dominates G f x" by (rule covers [OF _ v(2)])
    qed
  qed
qed

section \<open>The code of the blocks\<close>

lemma filter_insert:
  "\<not> Q new \<Longrightarrow> filter Q (insertAfterInst i new xs) = filter Q xs"
  "\<not> Q new \<Longrightarrow> filter Q (insertAfterPHIs new xs) = filter Q xs"
  "\<not> Q new \<Longrightarrow> filter Q (insertBeforeTerm new xs) = filter Q xs"
proof -
  have split: "filter Q (takeWhile P xs @ dropWhile P xs) = filter Q xs" for P by simp
  show "\<not> Q new \<Longrightarrow> filter Q (insertAfterPHIs new xs) = filter Q xs"
    "\<not> Q new \<Longrightarrow> filter Q (insertBeforeTerm new xs) = filter Q xs"
    using split unfolding filter_append by (simp_all add: insertAfterPHIs_def insertBeforeTerm_def)
  show "\<not> Q new \<Longrightarrow> filter Q (insertAfterInst i new xs) = filter Q xs"
    using split [of "\<lambda>I. I \<noteq> InstI i"] unfolding filter_append
    by (auto simp: insertAfterInst_def split: list.split)
qed

text \<open>A store changes only its block, and there nothing but stores.\<close>

lemma insertStore_filter: "\<not> Q (StoreI k) \<Longrightarrow> filter Q (insertStore G k inc code b) = filter Q (code b)"
  by (simp add: insertStore_def Let_def filter_insert split: incoming_value.split)

lemma insertStore_other: "b \<noteq> storeBlock G inc \<Longrightarrow> insertStore G k inc code b = code b"
  by (simp add: insertStore_def Let_def)

lemma fold_insertStore_filter:
  "\<forall>k. \<not> Q (StoreI k) \<Longrightarrow>
     filter Q (fold (\<lambda>(k, inc). insertStore G k inc) incs code b) = filter Q (code b)"
  by (induction incs arbitrary: code) (simp_all add: insertStore_filter split: prod.split)

lemma insertStores_filter:
  "\<forall>k. \<not> Q (StoreI k) \<Longrightarrow> filter Q (insertStoresToSpilledLCD G sp code b) = filter Q (code b)"
  unfolding insertStoresToSpilledLCD_def by (rule fold_insertStore_filter)

lemma fold_insertStore_other:
  "\<forall>inc \<in> snd ` set incs. storeBlock G inc \<noteq> b \<Longrightarrow> fold (\<lambda>(k, inc). insertStore G k inc) incs code b = code b"
  by (induction incs arbitrary: code) (auto simp: insertStore_other)

lemma insertStores_other:
  assumes "b \<notin> set (environmentStores G sp)"
  shows "insertStoresToSpilledLCD G sp code b = code b"
proof -
  have "snd ` set (List.enumerate 0 (storedIncoming sp)) = set (storedIncoming sp)"
    by (metis list.set_map map_snd_enumerate)
  then have "\<forall>inc \<in> snd ` set (List.enumerate 0 (storedIncoming sp)). storeBlock G inc \<noteq> b"
    using assms by (auto simp: environmentStores_def)
  then show ?thesis unfolding insertStoresToSpilledLCD_def by (rule fold_insertStore_other)
qed

lemma insertLoads_value:
  "distinct fr \<Longrightarrow> insertLoads sp fr code b = (if b \<in> set fr then insertLoad sp (code b) else code b)"
  unfolding insertLoads_def by (induction fr arbitrary: code) auto

lemma insertLoad_split:
  "\<exists>as bs. insertLoad sp xs = as @ LoadI # bs \<and> xs = as @ bs \<and> (\<forall>I \<in> set as. isPhiI I \<or> \<not> stopsLoad sp I)"
proof -
  let ?rest = "dropWhile isPhiI xs"
  have "insertLoad sp xs = (takeWhile isPhiI xs @ takeWhile (\<lambda>I. \<not> stopsLoad sp I) ?rest) @ LoadI #
      dropWhile (\<lambda>I. \<not> stopsLoad sp I) ?rest"
    by (simp add: insertLoad_def Let_def)
  moreover have "xs = (takeWhile isPhiI xs @ takeWhile (\<lambda>I. \<not> stopsLoad sp I) ?rest) @
      dropWhile (\<lambda>I. \<not> stopsLoad sp I) ?rest" by simp
  moreover have "\<forall>I \<in> set (takeWhile isPhiI xs @ takeWhile (\<lambda>I. \<not> stopsLoad sp I) ?rest). isPhiI I \<or> \<not> stopsLoad sp I"
    by (auto dest: set_takeWhileD)
  ultimately show ?thesis by blast
qed

section \<open>The spilled code\<close>

lemma removeUnnecessary_distinct: "distinct (removeUnnecessary G bs)"
  by (simp add: removeUnnecessary_def)

lemma spill_total:
  assumes "spill_ok G sp code"
  shows "\<exists>c. createLoadsAndStoresToSpilledLCD G sp code = Inr c"
proof -
  obtain bs where fr: "defineFrontierForLoadsToSpilledLCD G sp = Inr (removeUnnecessary G bs)"
    and u: "\<forall>u \<in> set (spillUsers sp). \<exists>f \<in> set (removeUnnecessary G bs). dominates G f (userBlock u)"
    and e: "\<forall>e \<in> set (loopExitBlocks G). \<exists>f \<in> set (removeUnnecessary G bs). dominates G f e"
    using frontier_value [OF assms] .
  have "\<forall>u \<in> set (spillUsers sp). loadOfUser G (removeUnnecessary G bs) u \<noteq> None"
    using u by (auto simp: loadOfUser_def find_None_iff)
  moreover have "\<forall>e \<in> set (loopExitBlocks G). liveOutLoads G (removeUnnecessary G bs) e \<noteq> []"
    using e by (auto simp: liveOutLoads_def filter_empty_conv)
  ultimately show ?thesis
    by (simp add: createLoadsAndStoresToSpilledLCD_def fr replaceUsesOfSpilledPHIWithLoads_def)
qed

text \<open>
  C19: the assertions of the spiller hold. In any loop with the dominator tree and the reachability
  analysis it is given, and for any PHI whose users are in the loop, the walks up the dominator tree
  end at a block no store has invalidated, every user finds a load that dominates it, so that the PHI
  can be erased, and so does every exit of the loop.
\<close>

theorem spill_assertions_hold:
  assumes "spill_ok G sp code"
  shows "\<exists>c. createLoadsAndStoresToSpilledLCD G sp code = Inr c"
  by (rule spill_total [OF assms])

lemma spilled_value:
  assumes ok: "spill_ok G sp code" and c: "createLoadsAndStoresToSpilledLCD G sp code = Inr c"
  shows "distinct (loadBlocks c)"
    and "spilledBlocks c b = (if b \<in> set (loadBlocks c) then insertLoad sp (insertStoresToSpilledLCD G sp code b)
           else insertStoresToSpilledLCD G sp code b)"
    and "b \<in> set (loadBlocks c) \<Longrightarrow> b \<notin> set (invalidatedBlocks G (environmentStores G sp)) \<and> headerDominates G b"
    and "u \<in> set (spillUsers sp) \<Longrightarrow> \<exists>f \<in> set (loadBlocks c). dominates G f (userBlock u)"
proof -
  obtain bs where fr: "defineFrontierForLoadsToSpilledLCD G sp = Inr (removeUnnecessary G bs)"
    and valid: "\<forall>b \<in> set bs. b \<notin> set (invalidatedBlocks G (environmentStores G sp)) \<and> headerDominates G b"
    and us: "\<forall>u \<in> set (spillUsers sp). \<exists>f \<in> set (removeUnnecessary G bs). dominates G f (userBlock u)"
    using frontier_value [OF ok] .
  have eq: "loadBlocks c = removeUnnecessary G bs"
    "spilledBlocks c = insertLoads sp (removeUnnecessary G bs) (insertStoresToSpilledLCD G sp code)"
    using c by (auto simp: createLoadsAndStoresToSpilledLCD_def fr replaceUsesOfSpilledPHIWithLoads_def split: if_splits)
  show "distinct (loadBlocks c)" by (simp add: eq removeUnnecessary_distinct)
  show "spilledBlocks c b = (if b \<in> set (loadBlocks c) then insertLoad sp (insertStoresToSpilledLCD G sp code b)
      else insertStoresToSpilledLCD G sp code b)"
    by (simp add: eq insertLoads_value [OF removeUnnecessary_distinct])
  show "b \<in> set (loadBlocks c) \<Longrightarrow> b \<notin> set (invalidatedBlocks G (environmentStores G sp)) \<and> headerDominates G b"
    using valid by (simp add: eq removeUnnecessary_def)
  show "u \<in> set (spillUsers sp) \<Longrightarrow> \<exists>f \<in> set (loadBlocks c). dominates G f (userBlock u)"
    using us by (simp add: eq)
qed

text \<open>Loads and stores are where the spiller put them.\<close>

lemma no_load_before:
  assumes "spill_ok G sp code"
  shows "LoadI \<notin> set (insertStoresToSpilledLCD G sp code b)"
    and "(\<forall>k. StoreI k \<notin> set (code b))"
proof -
  have "filter (\<lambda>I. I = LoadI) (insertStoresToSpilledLCD G sp code b) = filter (\<lambda>I. I = LoadI) (code b)"
    by (rule insertStores_filter) simp
  from arg_cong [OF this, of set] show "LoadI \<notin> set (insertStoresToSpilledLCD G sp code b)"
    using assms by (auto simp: spill_ok_def)
  show "\<forall>k. StoreI k \<notin> set (code b)" using assms by (simp add: spill_ok_def)
qed

lemma spilled_load:
  assumes ok: "spill_ok G sp code" and c: "createLoadsAndStoresToSpilledLCD G sp code = Inr c"
  shows "LoadI \<in> set (spilledBlocks c b) \<longleftrightarrow> b \<in> set (loadBlocks c)"
  using no_load_before(1) [OF ok, of b] insertLoad_split [of sp "insertStoresToSpilledLCD G sp code b"]
  unfolding spilled_value(2) [OF assms] by auto

lemma spilled_store:
  assumes ok: "spill_ok G sp code" and c: "createLoadsAndStoresToSpilledLCD G sp code = Inr c"
    and I: "I \<in> set (spilledBlocks c b)" "isStoreI I"
  shows "b \<in> set (environmentStores G sp)"
proof (rule ccontr)
  assume "b \<notin> set (environmentStores G sp)"
  then have b: "insertStoresToSpilledLCD G sp code b = code b" by (rule insertStores_other)
  obtain k where "I = StoreI k" using I(2) by (cases I) simp_all
  moreover have "I \<in> set (code b) \<union> {LoadI}"
    using I(1) insertLoad_split [of sp "code b"] unfolding spilled_value(2) [OF ok c] b by (auto split: if_splits)
  ultimately show False using no_load_before(2) [OF ok, of b] by auto
qed

abbreviation loadFirst :: "spill_inst \<Rightarrow> spill_inst \<Rightarrow> bool" where
  "loadFirst I J \<equiv> isStoreI I \<longrightarrow> J \<noteq> LoadI"

lemma sorted_wrt_all: "\<forall>x \<in> set xs. \<forall>y \<in> set xs. P x y \<Longrightarrow> sorted_wrt P xs"
  by (induction xs) auto

lemma spilled_block_order:
  assumes ok: "spill_ok G sp code" and c: "createLoadsAndStoresToSpilledLCD G sp code = Inr c"
  shows "sorted_wrt loadFirst (spilledBlocks c b)"
proof (cases "b \<in> set (loadBlocks c)")
  case True
  let ?xs = "insertStoresToSpilledLCD G sp code b"
  obtain as bs where xs: "insertLoad sp ?xs = as @ LoadI # bs" "?xs = as @ bs"
    "\<forall>I \<in> set as. isPhiI I \<or> \<not> stopsLoad sp I" using insertLoad_split by blast
  have "LoadI \<notin> set as \<union> set bs" using no_load_before(1) [OF ok, of b] unfolding xs(2) by simp
  moreover have "\<forall>I \<in> set as. \<not> isStoreI I"
  proof
    fix I
    assume "I \<in> set as"
    then have "isPhiI I \<or> \<not> stopsLoad sp I" using xs(3) by blast
    then show "\<not> isStoreI I" by (cases I) (simp_all add: stopsLoad_def)
  qed
  ultimately have "sorted_wrt loadFirst (as @ LoadI # bs)"
    by (auto simp: sorted_wrt_append intro!: sorted_wrt_all)
  then show ?thesis using True xs(1) by (simp add: spilled_value(2) [OF assms])
next
  case False
  then show ?thesis using spilled_load [OF assms, of b] by (intro sorted_wrt_all) auto
qed

section \<open>Paths through an iteration\<close>

definition trace :: "spilled_code \<Rightarrow> nat list \<Rightarrow> spill_inst list" where
  "trace c p = concat (map (spilledBlocks c) p)"

text \<open>An exit block that loads the variable, right behind a block that stores it.\<close>

definition loadedBehindStore :: "spill_loop \<Rightarrow> spilled_phi \<Rightarrow> spilled_code \<Rightarrow> bool" where
  "loadedBehindStore G sp c \<longleftrightarrow>
     (\<exists>e \<in> set (loadBlocks c). e \<notin> set (loopBlocks G) \<and>
        (\<exists>b \<in> set (environmentStores G sp). b \<in> set (loopBlocks G) \<and> e \<in> set (successorsOf G b)))"

lemma sorted_wrt_concat:
  assumes "\<forall>x \<in> set xs. sorted_wrt P (f x)"
    and "\<And>i j. i < j \<Longrightarrow> j < length xs \<Longrightarrow> \<forall>a \<in> set (f (xs ! i)). \<forall>b \<in> set (f (xs ! j)). P a b"
  shows "sorted_wrt P (concat (map f xs))"
  using assms
proof (induction xs)
  case (Cons x xs)
  have "sorted_wrt P (concat (map f xs))"
  proof (rule Cons.IH)
    show "\<forall>a \<in> set (f (xs ! i)). \<forall>b \<in> set (f (xs ! j)). P a b" if "i < j" "j < length xs" for i j
      using Cons.prems(2) [of "Suc i" "Suc j"] that by simp
  qed (use Cons.prems(1) in simp)
  moreover have "P a b" if a: "a \<in> set (f x)" and y: "y \<in> set xs" and b: "b \<in> set (f y)" for a y b
  proof -
    obtain j where "j < length xs" "xs ! j = y" using y by (meson in_set_conv_nth)
    then show ?thesis using Cons.prems(2) [of 0 "Suc j"] a b by simp
  qed
  ultimately show ?case using Cons.prems(1) by (auto simp: sorted_wrt_append)
qed simp

lemma first_of_two:
  "cs @ x # ds = as @ y # bs \<Longrightarrow> x \<noteq> y \<Longrightarrow> y \<notin> set cs \<Longrightarrow> x \<in> set as"
proof (induction cs arbitrary: as)
  case Nil
  then show ?case by (cases as) auto
next
  case (Cons c cs)
  then show ?case by (cases as) auto
qed

lemma concat_map_split:
  "concat (map f p) = xs @ x # ys \<Longrightarrow>
     \<exists>i as bs. i < length p \<and> f (p ! i) = as @ x # bs \<and> xs = concat (map f (take i p)) @ as"
proof (induction p arbitrary: xs)
  case (Cons b p)
  then have "f b @ concat (map f p) = xs @ x # ys" by simp
  then obtain us where us: "f b = xs @ us \<and> us @ concat (map f p) = x # ys \<or>
      f b @ us = xs \<and> concat (map f p) = us @ x # ys"
    unfolding append_eq_append_conv2 by blast
  show ?case
  proof (cases "f b = xs @ us \<and> us @ concat (map f p) = x # ys \<and> us \<noteq> []")
    case True
    then obtain us' where "us = x # us'" by (cases us) auto
    then show ?thesis using True by (intro exI [of _ 0] exI [of _ xs] exI [of _ us']) simp
  next
    case False
    then obtain zs where 2: "xs = f b @ zs" "concat (map f p) = zs @ x # ys" using us by force
    from Cons.IH [OF 2(2)] obtain i as bs where
      "i < length p" "f (p ! i) = as @ x # bs" "zs = concat (map f (take i p)) @ as" by blast
    then show ?thesis using 2(1) by (intro exI [of _ "Suc i"] exI [of _ as] exI [of _ bs]) simp
  qed
qed simp

lemma iterationPath_take: "iterationPath G p \<Longrightarrow> i < length p \<Longrightarrow> iterationPath G (take (Suc i) p)"
  by (auto simp: iterationPath_def)

lemma trace_order:
  assumes ok: "spill_ok G sp code" and c: "createLoadsAndStoresToSpilledLCD G sp code = Inr c"
    and late: "\<not> loadedBehindStore G sp c" and p: "iterationPath G p"
  shows "sorted_wrt loadFirst (trace c p)"
  unfolding trace_def
proof (rule sorted_wrt_concat)
  show "\<forall>b \<in> set p. sorted_wrt loadFirst (spilledBlocks c b)" using spilled_block_order [OF ok c] by simp
  have R: "reachability_ok G" using ok by (simp add: spill_ok_def)
  fix i j
  assume ij: "i < j" "j < length p"
  show "\<forall>I \<in> set (spilledBlocks c (p ! i)). \<forall>J \<in> set (spilledBlocks c (p ! j)). loadFirst I J"
  proof (intro ballI impI notI)
    fix I J
    assume I: "I \<in> set (spilledBlocks c (p ! i))" "isStoreI I" and J: "J \<in> set (spilledBlocks c (p ! j))" "J = LoadI"
    have store: "p ! i \<in> set (environmentStores G sp)" by (rule spilled_store [OF ok c I])
    have load: "p ! j \<in> set (loadBlocks c)" using J spilled_load [OF ok c] by simp
    then have "p ! j \<notin> set (invalidatedBlocks G (environmentStores G sp))" using spilled_value(3) [OF ok c] by blast
    then have "j = Suc i" "p ! j \<notin> set (loopBlocks G)" using behind_store [OF R p store ij] by auto
    then show False using late store load p ij(2) by (auto simp: loadedBehindStore_def iterationPath_def)
  qed
qed

lemma use_after_load:
  assumes ok: "spill_ok G sp code" and c: "createLoadsAndStoresToSpilledLCD G sp code = Inr c"
    and p: "iterationPath G p" and u: "u \<in> set (spillUsers sp)"
    and place: "\<And>b. InstI (userID u) \<in> set (code b) \<Longrightarrow> b = userBlock u"
    and t: "trace c p = xs @ InstI (userID u) # ys"
  shows "LoadI \<in> set xs"
proof -
  have D: "dominators_ok G" using ok by (simp add: spill_ok_def)
  obtain i as bs where i: "i < length p" and block: "spilledBlocks c (p ! i) = as @ InstI (userID u) # bs"
    and xs: "xs = concat (map (spilledBlocks c) (take i p)) @ as"
    using concat_map_split [OF t [unfolded trace_def]] by blast
  let ?b = "p ! i" and ?code = "insertStoresToSpilledLCD G sp code"
  have "filter (\<lambda>I. I = InstI (userID u)) (?code ?b) = filter (\<lambda>I. I = InstI (userID u)) (code ?b)"
    by (rule insertStores_filter) simp
  from arg_cong [OF this, of set] have "InstI (userID u) \<in> set (?code ?b) \<longleftrightarrow> InstI (userID u) \<in> set (code ?b)" by auto
  moreover have "InstI (userID u) \<in> set (?code ?b)"
    using arg_cong [OF block, of set] insertLoad_split [of sp "?code ?b"] unfolding spilled_value(2) [OF ok c]
    by (auto split: if_splits)
  ultimately have b: "?b = userBlock u" using place by blast
  obtain f where f: "f \<in> set (loadBlocks c)" "f \<in> set (dominatorsOf G ?b)" "headerDominates G f"
    using spilled_value(3,4) [OF ok c] u unfolding b dominates_def by blast
  have "iterationPath G (take (Suc i) p)" "last (take (Suc i) p) = ?b"
    using iterationPath_take [OF p i] i by (simp_all add: take_Suc_conv_app_nth)
  then have "f \<in> set (take (Suc i) p)" using dominators_okD(5) [OF D] f(2,3) by metis
  then consider "f \<in> set (take i p)" | "f = ?b" using i by (auto simp: take_Suc_conv_app_nth)
  then show ?thesis
  proof cases
    case 1
    then show ?thesis using f(1) spilled_load [OF ok c, of f] by (auto simp: xs)
  next
    case 2
    obtain cs ds where cs: "insertLoad sp (?code ?b) = cs @ LoadI # ds" "\<forall>I \<in> set cs. isPhiI I \<or> \<not> stopsLoad sp I"
      using insertLoad_split by blast
    have "InstI (userID u) \<notin> set cs" using cs(2) u by (auto simp: stopsLoad_def)
    moreover have "cs @ LoadI # ds = as @ InstI (userID u) # bs"
      using block cs(1) f(1) 2 by (simp add: spilled_value(2) [OF ok c])
    ultimately have "LoadI \<in> set as" by (intro first_of_two [of cs LoadI ds as]) simp_all
    then show ?thesis by (simp add: xs)
  qed
qed

text \<open>
  On every path through an iteration a spilled variable is loaded before it is stored, and used
  after it has been loaded; provided that no exit of the loop loads it right behind a block that stores
  it.
\<close>

theorem spill_loads_first:
  assumes "spill_ok G sp code" and "createLoadsAndStoresToSpilledLCD G sp code = Inr c"
    and "\<not> loadedBehindStore G sp c" and "iterationPath G p"
    and "\<And>b. InstI (userID u) \<in> set (code b) \<Longrightarrow> b = userBlock u" and "u \<in> set (spillUsers sp)"
  shows "(\<forall>xs k ys. trace c p = xs @ StoreI k # ys \<longrightarrow> LoadI \<notin> set ys) \<and>
    (\<forall>xs ys. trace c p = xs @ InstI (userID u) # ys \<longrightarrow> LoadI \<in> set xs)"
proof (intro conjI allI impI)
  show "LoadI \<notin> set ys" if "trace c p = xs @ StoreI k # ys" for xs k ys
    using trace_order [OF assms(1-4)] unfolding that by (auto simp: sorted_wrt_append)
  show "LoadI \<in> set xs" if "trace c p = xs @ InstI (userID u) # ys" for xs ys
    by (rule use_after_load [OF assms(1,2,4,6,5) that])
qed

section \<open>From iteration to iteration\<close>

text \<open>
  Running a trace: \<open>w n\<close> is what the \<open>n\<close>-th store of the iteration writes. The values the loads deliver,
  and the variable at the end.
\<close>

fun runTrace :: "(nat \<Rightarrow> 'v) \<Rightarrow> nat \<Rightarrow> 'v \<Rightarrow> spill_inst list \<Rightarrow> 'v list \<times> 'v" where
  "runTrace w n cell [] = ([], cell)"
| "runTrace w n cell (LoadI # Is) = (let (vs, final) = runTrace w n cell Is in (cell # vs, final))"
| "runTrace w n cell (StoreI k # Is) = runTrace w (Suc n) (w n) Is"
| "runTrace w n cell (PhiI i # Is) = runTrace w n cell Is"
| "runTrace w n cell (InstI i # Is) = runTrace w n cell Is"
| "runTrace w n cell (TermI i # Is) = runTrace w n cell Is"

text \<open>The values loaded in each iteration when the iterations run one after the other.\<close>

fun runIterations :: "(nat \<Rightarrow> nat \<Rightarrow> 'v) \<Rightarrow> nat \<Rightarrow> 'v \<Rightarrow> spill_inst list list \<Rightarrow> 'v list list" where
  "runIterations w i cell [] = []"
| "runIterations w i cell (t # ts) =
     (let (vs, final) = runTrace (w i) 0 cell t in vs # runIterations w (Suc i) final ts)"

text \<open>
  The PHI in the loop as it was: its value from the preheader, then what the incoming instruction
  computed the last time it ran in the iteration before; \<open>w i n\<close> is its value the \<open>n\<close>-th time it runs
  in iteration \<open>i\<close>.
\<close>

definition computations :: "spill_code \<Rightarrow> nat \<Rightarrow> nat list \<Rightarrow> nat" where
  "computations code d p = length (filter (\<lambda>I. I = InstI d) (concat (map code p)))"

fun phiValue :: "(nat \<Rightarrow> nat \<Rightarrow> 'v) \<Rightarrow> 'v \<Rightarrow> spill_code \<Rightarrow> nat \<Rightarrow> nat list list \<Rightarrow> nat \<Rightarrow> 'v" where
  "phiValue w init code d ps 0 = init"
| "phiValue w init code d ps (Suc i) = w i (computations code d (ps ! i) - 1)"

lemma runTrace_no_load:
  "LoadI \<notin> set Is \<Longrightarrow> fst (runTrace w n cell Is) = []"
  by (induction w n cell Is rule: runTrace.induct) simp_all

lemma runTrace_loads:
  "sorted_wrt loadFirst Is \<Longrightarrow> set (fst (runTrace w n cell Is)) \<subseteq> {cell}"
proof (induction w n cell Is rule: runTrace.induct)
  case (2 w n cell Is)
  then show ?case by (auto split: prod.split)
next
  case (3 w n cell k Is)
  then have "LoadI \<notin> set Is" by auto
  then show ?case by (simp add: runTrace_no_load)
qed simp_all

lemma runTrace_some_load:
  "LoadI \<in> set Is \<Longrightarrow> fst (runTrace w n cell Is) \<noteq> []"
  by (induction w n cell Is rule: runTrace.induct) (simp_all add: case_prod_beta)

lemma runTrace_final:
  "snd (runTrace w n cell Is) =
     (if filter isStoreI Is = [] then cell else w (n + length (filter isStoreI Is) - 1))"
  by (induction w n cell Is rule: runTrace.induct) (auto split: prod.split)

lemma runTrace_append:
  "fst (runTrace w n cell (xs @ ys)) =
     fst (runTrace w n cell xs) @ fst (runTrace w (n + length (filter isStoreI xs)) (snd (runTrace w n cell xs)) ys)"
  by (induction w n cell xs rule: runTrace.induct) (simp_all add: case_prod_beta)

text \<open>One store, next to the one computation.\<close>

lemma insertAfterInst_store:
  assumes "InstI d \<in> set xs" and "\<not> Q (InstI d)" and "Q new"
  shows "filter Q (insertAfterInst d new xs) =
    filter Q (takeWhile (\<lambda>I. I \<noteq> InstI d) xs) @ new # filter Q (dropWhile (\<lambda>I. I \<noteq> InstI d) xs)"
proof -
  obtain ys where "dropWhile (\<lambda>I. I \<noteq> InstI d) xs = InstI d # ys"
    using assms(1) by (metis (mono_tags, lifting) dropWhile_eq_Nil_conv hd_dropWhile list.collapse)
  then show ?thesis using assms(2,3) by (simp add: insertAfterInst_def)
qed

text \<open>
  The PHI has one value from the loop, computed by an instruction that occurs once and whose block
  dominates the latch.
\<close>

definition computedBy :: "spill_loop \<Rightarrow> spilled_phi \<Rightarrow> spill_code \<Rightarrow> nat \<Rightarrow> nat \<Rightarrow> bool" where
  "computedBy G sp code d latch \<longleftrightarrow>
     (\<exists>b. storedIncoming sp = [(InstructionOf d b False, latch)] \<and> b \<in> set (loopBlocks G) \<and>
        b \<in> set (dominatorsOf G latch) \<and>
        (\<forall>c. length (filter (\<lambda>I. I = InstI d) (code c)) = (if c = b then 1 else 0)))"

lemma spilled_filter_store:
  assumes ok: "spill_ok G sp code" and c: "createLoadsAndStoresToSpilledLCD G sp code = Inr c"
    and cb: "computedBy G sp code d latch"
  shows "length (filter isStoreI (spilledBlocks c b)) = length (filter (\<lambda>I. I = InstI d) (code b))"
proof -
  obtain b' where inc: "storedIncoming sp = [(InstructionOf d b' False, latch)]" and b': "b' \<in> set (loopBlocks G)"
    and once: "\<And>c. length (filter (\<lambda>I. I = InstI d) (code c)) = (if c = b' then 1 else 0)"
    using cb unfolding computedBy_def by blast
  have sb: "storeBlock G (InstructionOf d b' False, latch) = b'" using b' by (simp add: storeBlock_def)
  have code: "insertStoresToSpilledLCD G sp code = code(b' := insertAfterInst d (StoreI 0) (code b'))"
    using b' sb by (simp add: insertStoresToSpilledLCD_def inc insertStore_def)
  have none: "filter isStoreI (code x) = []" for x
  proof -
    have "\<not> isStoreI I" if "I \<in> set (code x)" for I
    proof
      assume "isStoreI I"
      then obtain k where "I = StoreI k" by (cases I) simp_all
      then show False using that no_load_before(2) [OF ok, of x] by blast
    qed
    then show ?thesis by (simp add: filter_empty_conv)
  qed
  have "filter (\<lambda>I. I = InstI d) (code b') \<noteq> []" using once [of b'] by auto
  then have "InstI d \<in> set (code b')" by (auto simp: filter_empty_conv)
  from insertAfterInst_store [OF this, of isStoreI "StoreI 0"]
  have "length (filter isStoreI (insertAfterInst d (StoreI 0) (code b'))) = 1"
    using none [of b'] by (auto simp: filter_empty_conv dest: set_takeWhileD set_dropWhileD)
  then have "length (filter isStoreI (insertStoresToSpilledLCD G sp code b)) = (if b = b' then 1 else 0)"
    using none by (simp add: code)
  moreover have "filter isStoreI (spilledBlocks c b) = filter isStoreI (insertStoresToSpilledLCD G sp code b)"
    using insertLoad_split [of sp "insertStoresToSpilledLCD G sp code b"]
    unfolding spilled_value(2) [OF ok c] by auto
  ultimately show ?thesis using once by simp
qed

lemma trace_stores:
  assumes "spill_ok G sp code" and "createLoadsAndStoresToSpilledLCD G sp code = Inr c"
    and "computedBy G sp code d latch"
  shows "length (filter isStoreI (trace c p)) = computations code d p"
  by (induction p) (simp_all add: trace_def computations_def spilled_filter_store [OF assms])

text \<open>An iteration that reaches the latch has computed the value.\<close>

lemma computations_latch:
  assumes ok: "spill_ok G sp code" and cb: "computedBy G sp code d latch" and p: "iterationPath G p" "last p = latch"
  shows "0 < computations code d p"
proof -
  obtain b where b: "b \<in> set (loopBlocks G)" "b \<in> set (dominatorsOf G latch)"
      "length (filter (\<lambda>I. I = InstI d) (code b)) = 1"
    using cb unfolding computedBy_def by force
  have D: "dominators_ok G" using ok by (simp add: spill_ok_def)
  have "headerDominates G b" by (rule dominators_okD(4) [OF D]) (use b(1) in simp)
  then have "b \<in> set p" using dominators_okD(5) [OF D p(1)] b(2) p(2) by simp
  moreover have "InstI d \<in> set (code b)"
    using b(3) by (metis (mono_tags, lifting) filter_empty_conv length_0_conv zero_neq_one)
  ultimately have "InstI d \<in> set (concat (map code p))" by auto
  then show ?thesis by (auto simp: computations_def filter_empty_conv)
qed

lemma runIterations_phi:
  assumes ok: "spill_ok G sp code" and c: "createLoadsAndStoresToSpilledLCD G sp code = Inr c"
    and late: "\<not> loadedBehindStore G sp c" and cb: "computedBy G sp code d latch"
    and ps: "\<forall>p \<in> set ps. iterationPath G p" "\<forall>i. Suc i < length ps \<longrightarrow> last (ps ! i) = latch"
    and "k + length qs = length ps" and "qs = drop k ps" and "cell = phiValue w init code d ps k"
  shows "j < length qs \<Longrightarrow>
    set (runIterations w k cell (map (trace c) qs) ! j) \<subseteq> {phiValue w init code d ps (k + j)}"
  using assms(7-)
proof (induction qs arbitrary: k cell j)
  case (Cons q qs)
  have less: "k < length ps" using Cons.prems(2) by simp
  from Cons_nth_drop_Suc [OF this] Cons.prems(3) have "q # qs = ps ! k # drop (Suc k) ps" by simp
  then have k: "k < length ps" "ps ! k = q" "drop (Suc k) ps = qs" using less by simp_all
  have q: "iterationPath G q" using ps(1) k(1,2) by (metis nth_mem)
  have loads: "set (fst (runTrace (w k) 0 cell (trace c q))) \<subseteq> {cell}"
    by (rule runTrace_loads [OF trace_order [OF ok c late q]])
  have run: "runIterations w k cell (map (trace c) (q # qs)) =
      fst (runTrace (w k) 0 cell (trace c q)) #
        runIterations w (Suc k) (snd (runTrace (w k) 0 cell (trace c q))) (map (trace c) qs)"
    by (simp add: Let_def split: prod.split)
  show ?case
  proof (cases j)
    case 0
    show ?thesis using loads unfolding run 0 nth_Cons_0 by (simp add: Cons.prems(4))
  next
    case (Suc m)
    then have m: "m < length qs" using Cons.prems(1) by simp
    then have "last q = latch" using ps(2) k Cons.prems(2) by auto
    then have "0 < computations code d q" by (rule computations_latch [OF ok cb q])
    then have "snd (runTrace (w k) 0 cell (trace c q)) = phiValue w init code d ps (Suc k)"
      using k(2) trace_stores [OF ok c cb, of q] by (auto simp: runTrace_final)
    then have "set (runIterations w (Suc k) (snd (runTrace (w k) 0 cell (trace c q))) (map (trace c) qs) ! m) \<subseteq>
        {phiValue w init code d ps (Suc k + m)}"
      by (intro Cons.IH [OF m]) (use Cons.prems(2) k(3) in simp_all)
    then show ?thesis unfolding run Suc nth_Cons_Suc by (simp only: add_Suc add_Suc_right)
  qed
qed simp

text \<open>
  C11: a spilled variable carries the PHI's values. Run the iterations one after the other, starting from
  the value from the preheader: in each iteration every load delivers the value the PHI has there,
  which is what the incoming instruction computed last in the iteration before, even if it runs several
  times in an iteration; again provided that no exit of the loop loads the variable right behind a block
  that stores it.
\<close>

theorem spilled_variable_is_phi:
  assumes "spill_ok G sp code" and "createLoadsAndStoresToSpilledLCD G sp code = Inr c"
    and "\<not> loadedBehindStore G sp c" and "computedBy G sp code d latch"
    and "\<forall>p \<in> set ps. iterationPath G p" and "\<forall>i. Suc i < length ps \<longrightarrow> last (ps ! i) = latch"
    and "i < length ps"
  shows "set (runIterations w 0 init (map (trace c) ps) ! i) \<subseteq> {phiValue w init code d ps i}"
  using runIterations_phi [OF assms(1-6), of 0 ps init w init i] assms(7) by simp

text \<open>
  C29: an exit block whose only predecessor on the path stores the variable and that loads it gets the
  value of the next iteration: if a block computes the value to carry over and may leave the loop, and no
  load was placed above it, the live-out value is wrong.
\<close>

theorem spill_exit_reads_next_value:
  assumes "spill_ok G sp code" and "createLoadsAndStoresToSpilledLCD G sp code = Inr c"
    and "computedBy G sp code d latch" and "e \<in> set (loadBlocks c)" and "e \<notin> set (environmentStores G sp)"
    and "0 < computations code d p"
  shows "last (fst (runTrace w 0 phi (trace c (p @ [e])))) = w (computations code d p - 1)"
proof -
  have final: "snd (runTrace w 0 phi (trace c p)) = w (computations code d p - 1)"
    using trace_stores [OF assms(1-3), of p] assms(6) by (auto simp: runTrace_final)
  have load: "LoadI \<in> set (spilledBlocks c e)" using spilled_load [OF assms(1,2)] assms(4) by simp
  have "filter isStoreI (spilledBlocks c e) = []"
    using spilled_store [OF assms(1,2)] assms(5) by (auto simp: filter_empty_conv)
  then have order: "sorted_wrt loadFirst (spilledBlocks c e)" by (intro sorted_wrt_all) (auto simp: filter_empty_conv)
  let ?vs = "fst (runTrace w (0 + length (filter isStoreI (trace c p))) (snd (runTrace w 0 phi (trace c p)))
    (spilledBlocks c e))"
  have some: "?vs \<noteq> []" by (rule runTrace_some_load [OF load])
  have "set ?vs \<subseteq> {w (computations code d p - 1)}" unfolding final by (rule runTrace_loads [OF order])
  then have "last ?vs = w (computations code d p - 1)" using last_in_set [OF some] by (simp only: singleton_iff subset_iff)
  moreover have "trace c (p @ [e]) = trace c p @ spilledBlocks c e" by (simp add: trace_def)
  ultimately show ?thesis using some by (simp add: runTrace_append)
qed

section \<open>Two loops\<close>

text \<open>
  A header 0 that leaves to 2 or enters the body 1, which goes back. In the first loop the body uses the
  PHI (instruction 5) and computes its next value (6), as a walk along a list does. In the second the
  header computes the value to remember (7), which is only read behind the loop.
\<close>

definition two_block_loop :: spill_loop where
  "two_block_loop = \<lparr>loopBlocks = [0, 1], loopHeaderBlock = 0,
     successorsOf = (\<lambda>b. if b = 0 then [1, 2] else if b = 1 then [0] else []),
     loopExitEdges = [(0, 2)], loopExitBlocks = [2],
     dominatorsOf = (\<lambda>b. if b = 0 then [0] else [b, 0]),
     reachableBlocks = (\<lambda>b. if b = 0 then [1] else [])\<rparr>"

definition walk_phi :: spilled_phi where
  "walk_phi = \<lparr>spilledID = 9, incomingValues = [(NotAnInstruction, 8), (InstructionOf 6 1 False, 1)],
     clonedPreheader = 8, spillUsers = [\<lparr>userID = 5, userBlock = 1, userIncomingBlocks = []\<rparr>]\<rparr>"

definition walk_code :: spill_code where
  "walk_code b = (if b = 0 then [PhiI 9, TermI 0] else if b = 1 then [InstI 5, InstI 6, TermI 1]
     else if b = 2 then [TermI 2] else [])"

definition walk_spilled :: spilled_code where
  "walk_spilled = projr (createLoadsAndStoresToSpilledLCD two_block_loop walk_phi walk_code)"

definition previous_phi :: spilled_phi where
  "previous_phi = \<lparr>spilledID = 9, incomingValues = [(NotAnInstruction, 8), (InstructionOf 7 0 False, 1)],
     clonedPreheader = 8, spillUsers = []\<rparr>"

definition previous_code :: spill_code where
  "previous_code b = (if b = 0 then [PhiI 9, InstI 7, TermI 0] else if b = 1 then [TermI 1]
     else if b = 2 then [TermI 2] else [])"

definition previous_spilled :: spilled_code where
  "previous_spilled = projr (createLoadsAndStoresToSpilledLCD two_block_loop previous_phi previous_code)"

lemma two_block_reachability: "reachability_ok two_block_loop"
  by (auto simp: reachability_ok_def two_block_loop_def split: if_splits)

lemma two_block_dominators: "dominators_ok two_block_loop"
proof -
  have path: "a \<in> set p" if p: "iterationPath two_block_loop p" and a: "a \<in> set (dominatorsOf two_block_loop (last p))" for p a
  proof -
    have "p \<noteq> []" "p ! 0 = 0" using p by (simp_all add: iterationPath_def two_block_loop_def)
    then have "0 \<in> set p" "last p \<in> set p" by (metis length_greater_0_conv nth_mem) (simp add: \<open>p \<noteq> []\<close>)
    then show ?thesis using a by (auto simp: two_block_loop_def split: if_splits)
  qed
  have "\<forall>b. \<forall>a \<in> set (dominatorsOf two_block_loop b). \<exists>ds. dominatorsOf two_block_loop b = ds @ dominatorsOf two_block_loop a"
    by (auto simp: two_block_loop_def intro: exI [of _ "[]"] split: if_splits)
  then show ?thesis using path unfolding dominators_ok_def by (auto simp: two_block_loop_def)
qed

lemma walk_ok: "spill_ok two_block_loop walk_phi walk_code"
  using two_block_reachability two_block_dominators
  by (auto simp: spill_ok_def walk_phi_def walk_code_def) (simp_all add: two_block_loop_def)

lemma previous_ok: "spill_ok two_block_loop previous_phi previous_code"
  using two_block_reachability two_block_dominators
  by (auto simp: spill_ok_def previous_phi_def previous_code_def)

lemma walk_created: "createLoadsAndStoresToSpilledLCD two_block_loop walk_phi walk_code = Inr walk_spilled"
  using spill_total [OF walk_ok] by (auto simp: walk_spilled_def)

lemma previous_created: "createLoadsAndStoresToSpilledLCD two_block_loop previous_phi previous_code = Inr previous_spilled"
  using spill_total [OF previous_ok] by (auto simp: previous_spilled_def)

lemma two_block_paths: "iterationPath two_block_loop [0, 1]" "iterationPath two_block_loop [0, 2]"
  by (simp_all add: iterationPath_def two_block_loop_def less_Suc_eq)

lemma walk_code_value:
  "loadBlocks walk_spilled = [1, 2]" "environmentStores two_block_loop walk_phi = [1]"
  "trace walk_spilled [0, 1] = [PhiI 9, TermI 0, LoadI, InstI 5, InstI 6, StoreI 0, TermI 1]"
  "trace walk_spilled [0, 2] = [PhiI 9, TermI 0, LoadI, TermI 2]"
  by code_simp+

lemma walk_not_late: "\<not> loadedBehindStore two_block_loop walk_phi walk_spilled"
  unfolding loadedBehindStore_def walk_code_value by (simp add: two_block_loop_def)

lemma walk_place: "InstI (userID \<lparr>userID = 5, userBlock = 1, userIncomingBlocks = []\<rparr>) \<in> set (walk_code b) \<Longrightarrow> b = 1"
  by (simp add: walk_code_def split: if_splits)

lemma walk_computed: "computedBy two_block_loop walk_phi walk_code 6 1"
  by (simp add: computedBy_def storedIncoming_def walk_phi_def walk_code_def) (simp add: two_block_loop_def)

theorem spill_assertions_hold_witness:
  "\<exists>c. createLoadsAndStoresToSpilledLCD two_block_loop walk_phi walk_code = Inr c"
  by (rule spill_assertions_hold [OF walk_ok])

theorem spill_loads_first_witness:
  "LoadI \<notin> set (tl (dropWhile (\<lambda>I. \<not> isStoreI I) (trace walk_spilled [0, 1]))) \<and>
   LoadI \<in> set (takeWhile (\<lambda>I. I \<noteq> InstI 5) (trace walk_spilled [0, 1]))"
proof -
  have split: "trace walk_spilled [0, 1] = takeWhile (\<lambda>I. \<not> isStoreI I) (trace walk_spilled [0, 1]) @
      StoreI 0 # tl (dropWhile (\<lambda>I. \<not> isStoreI I) (trace walk_spilled [0, 1]))"
    "trace walk_spilled [0, 1] = takeWhile (\<lambda>I. I \<noteq> InstI 5) (trace walk_spilled [0, 1]) @
      InstI 5 # tl (dropWhile (\<lambda>I. I \<noteq> InstI 5) (trace walk_spilled [0, 1]))"
    by code_simp+
  have place: "InstI (userID \<lparr>userID = 5, userBlock = 1, userIncomingBlocks = []\<rparr>) \<in> set (walk_code b) \<Longrightarrow>
      b = userBlock \<lparr>userID = 5, userBlock = 1, userIncomingBlocks = []\<rparr>" for b
    using walk_place by simp
  have user: "\<lparr>userID = 5, userBlock = 1, userIncomingBlocks = []\<rparr> \<in> set (spillUsers walk_phi)" by (simp add: walk_phi_def)
  note first = spill_loads_first [OF walk_ok walk_created walk_not_late two_block_paths(1) place user]
  show ?thesis
  proof
    show "LoadI \<notin> set (tl (dropWhile (\<lambda>I. \<not> isStoreI I) (trace walk_spilled [0, 1])))"
      using first split(1) by blast
    show "LoadI \<in> set (takeWhile (\<lambda>I. I \<noteq> InstI 5) (trace walk_spilled [0, 1]))"
      by (rule mp [OF spec [OF spec [OF conjunct2 [OF first]]]]) (assumption, unfold spill_user.simps, rule split(2))
  qed
qed

text \<open>Two iterations and the exit: the loads deliver 7, then what the first and the second computed.\<close>

theorem spilled_variable_is_phi_witness:
  "set (runIterations (\<lambda>i n. 10 * (i + 1) + n) 0 7 (map (trace walk_spilled) [[0, 1], [0, 1], [0, 2]]) ! 2) \<subseteq> {20 :: nat}"
proof -
  have "phiValue (\<lambda>i n. 10 * (i + 1) + n) 7 walk_code 6 [[0, 1], [0, 1], [0, 2]] 2 = (20 :: nat)" by code_simp
  moreover have "\<forall>p \<in> set [[0, 1], [0, 1], [0, 2]]. iterationPath two_block_loop p" using two_block_paths by simp
  moreover have "\<forall>i. Suc i < length [[0, 1], [0, 1], [0, 2]] \<longrightarrow> last ([[0, 1], [0, 1], [0, 2]] ! i) = (1 :: nat)"
    by (simp add: less_Suc_eq)
  ultimately show ?thesis
    using spilled_variable_is_phi [OF walk_ok walk_created walk_not_late walk_computed,
        of "[[0, 1], [0, 1], [0, 2]]" 2 "\<lambda>i n. 10 * (i + 1) + n" 7]
    by (simp only:) simp
qed

lemma previous_code_value:
  "loadBlocks previous_spilled = [2]" "environmentStores two_block_loop previous_phi = [0]"
  "computations previous_code 7 [0] = 1"
  by code_simp+

lemma previous_computed: "computedBy two_block_loop previous_phi previous_code 7 1"
  by (simp add: computedBy_def storedIncoming_def previous_phi_def previous_code_def) (simp add: two_block_loop_def)

text \<open>
  Leaving from the header in an iteration where the remembered value is 41 and the header computes 42:
  the loop's result is 42.
\<close>

theorem spill_exit_reads_next_value_witness:
  "last (fst (runTrace (\<lambda>n. 42) 0 41 (trace previous_spilled [0, 2]))) = (42 :: nat)"
  using spill_exit_reads_next_value [OF previous_ok previous_created previous_computed, of 2 "[0]" "\<lambda>n. 42" 41]
  by (simp add: previous_code_value)

end
