(* ===== verification/Helix_Dependences.thy ===== *)
theory Helix_Dependences
  imports Gino_Prelude
begin

text \<open>
  The dependence graph of the task that HELIX builds before it looks for sequential segments
  (\<open>helix/src/HELIX_dependences.cpp\<close>), and which instructions the task has clones of
  (\<open>ParallelizationTechnique::cloneSequentialLoop\<close>).
\<close>

section \<open>Dependences\<close>

text \<open>
  \<open>CopiedMemory must\<close> is a memory dependence copied from the loop's graph; \<open>AddedMemory\<close> one that is
  added for a spilled variable, with the last argument of \<open>addMemoryDataDependenceEdge\<close>.
\<close>

datatype data_dependence = RAW | WAR | WAW

datatype dependence_kind = VariableDependence data_dependence | ControlDependence
  | MemoryDependence bool data_dependence | AddedMemory data_dependence bool

record dg_edge =
  edgeSrc :: nat
  edgeDst :: nat
  edgeKind :: dependence_kind
  isLoopCarried :: bool

fun isMemoryDependence :: "dependence_kind \<Rightarrow> bool" where
  "isMemoryDependence (MemoryDependence must d) = True"
| "isMemoryDependence (AddedMemory d flag) = True"
| "isMemoryDependence k = False"

text \<open>A call is one of a lifetime intrinsic or another one.\<close>

datatype value_kind = StoreValue | LoadValue | CallValue bool | OtherValue

definition isLifetime :: "value_kind \<Rightarrow> bool" where
  "isLifetime k \<longleftrightarrow> k = CallValue True"

section \<open>The clones of the loop\<close>

text \<open>\<open>cloneSequentialLoop\<close>: the instructions of the blocks of the loop that the filter keeps.\<close>

definition keepsInstruction :: "(nat \<Rightarrow> value_kind) \<Rightarrow> nat \<Rightarrow> bool" where
  "keepsInstruction kindOf i \<longleftrightarrow> \<not> isLifetime (kindOf i)"

definition cloneSequentialLoop :: "(nat \<Rightarrow> value_kind) \<Rightarrow> nat list list \<Rightarrow> nat list" where
  "cloneSequentialLoop kindOf loopBlocks = filter (keepsInstruction kindOf) (concat loopBlocks)"

section \<open>The task and the graph of the loop\<close>

text \<open>
  \<open>postDominatedBy B\<close> and \<open>strictlyPostDominates\<close> are what the post-dominator tree of the task answers.
  \<open>loopNodes\<close> are the internal nodes of the graph of the original loop.
\<close>

record helix_dg =
  taskValues :: "nat list"
  usersOf :: "nat \<Rightarrow> nat list"
  isInstOrArgument :: "nat \<Rightarrow> bool"
  taskBlocks :: "nat list"
  blockInsts :: "nat \<Rightarrow> nat list"
  blockPredecessors :: "nat \<Rightarrow> nat list"
  postDominatedBy :: "nat \<Rightarrow> nat list"
  strictlyPostDominates :: "nat \<Rightarrow> nat \<Rightarrow> bool"
  loopNodes :: "nat list"
  outgoingEdges :: "nat \<Rightarrow> dg_edge list"
  valueKind :: "nat \<Rightarrow> value_kind"
  cloneInTask :: "nat \<rightharpoonup> nat"
  spillAccesses :: "(nat list \<times> nat list) list"

definition constructEdgesFromUseDefs :: "helix_dg \<Rightarrow> dg_edge list" where
  "constructEdgesFromUseDefs D =
     concat (map (\<lambda>v. map (\<lambda>u. \<lparr>edgeSrc = v, edgeDst = u, edgeKind = VariableDependence RAW, isLoopCarried = False\<rparr>)
       (filter (isInstOrArgument D) (usersOf D v))) (taskValues D))"

text \<open>The terminator of a block is its last instruction.\<close>

definition controlEdgesOf :: "helix_dg \<Rightarrow> nat \<Rightarrow> nat \<Rightarrow> dg_edge list" where
  "controlEdgesOf D b pred =
     (if strictlyPostDominates D b pred then []
      else map (\<lambda>i. \<lparr>edgeSrc = last (blockInsts D pred), edgeDst = i, edgeKind = ControlDependence,
                       isLoopCarried = False\<rparr>) (blockInsts D b))"

definition constructEdgesFromControlForFunction :: "helix_dg \<Rightarrow> dg_edge list" where
  "constructEdgesFromControlForFunction D =
     concat (map (\<lambda>b. concat (map (\<lambda>d. concat (map (controlEdgesOf D b) (blockPredecessors D d)))
       (postDominatedBy D b))) (taskBlocks D))"

section \<open>Dependences of the original loop\<close>

definition copyEdgeUsingTaskClonedValues :: "helix_dg \<Rightarrow> dg_edge \<Rightarrow> dg_edge result" where
  "copyEdgeUsingTaskClonedValues D e =
     (case cloneInTask D (edgeSrc e) of
        None \<Rightarrow> Inl AssertionFailed
      | Some src \<Rightarrow>
          (case cloneInTask D (edgeDst e) of
             None \<Rightarrow> Inl AssertionFailed
           | Some dst \<Rightarrow>
               if src \<notin> set (taskValues D) \<or> dst \<notin> set (taskValues D) then Inl AssertionFailed
               else Inr (e\<lparr>edgeSrc := src, edgeDst := dst, isLoopCarried := False\<rparr>)))"

fun copyEdges :: "helix_dg \<Rightarrow> dg_edge list \<Rightarrow> dg_edge list result" where
  "copyEdges D [] = Inr []"
| "copyEdges D (e # es) =
     (case copyEdgeUsingTaskClonedValues D e of
        Inl err \<Rightarrow> Inl err
      | Inr e' \<Rightarrow> (case copyEdges D es of Inl err \<Rightarrow> Inl err | Inr es' \<Rightarrow> Inr (e' # es')))"

text \<open>Which edges are copied: memory dependences between instructions of the loop, no lifetime markers.\<close>

fun accessesMemory :: "value_kind \<Rightarrow> bool" where
  "accessesMemory StoreValue = True"
| "accessesMemory LoadValue = True"
| "accessesMemory (CallValue lifetime) = True"
| "accessesMemory OtherValue = False"

definition isCopied :: "helix_dg \<Rightarrow> dg_edge \<Rightarrow> bool" where
  "isCopied D e \<longleftrightarrow>
     isMemoryDependence (edgeKind e) \<and> \<not> isLifetime (valueKind D (edgeDst e)) \<and>
     \<not> isLifetime (valueKind D (edgeSrc e)) \<and> edgeDst e \<in> set (loopNodes D)"

definition edgesToCopy :: "helix_dg \<Rightarrow> dg_edge list" where
  "edgesToCopy D =
     concat (map (\<lambda>v. if accessesMemory (valueKind D v) then filter (isCopied D) (outgoingEdges D v) else [])
       (loopNodes D))"

section \<open>Dependences through spilled variables\<close>

definition addedEdge :: "nat \<Rightarrow> nat \<Rightarrow> data_dependence \<Rightarrow> dg_edge" where
  "addedEdge a b d = \<lparr>edgeSrc = a, edgeDst = b, edgeKind = AddedMemory d True, isLoopCarried = False\<rparr>"

definition aliasStoresAndLoadsOfMemoryLocation :: "nat list \<Rightarrow> nat list \<Rightarrow> dg_edge list" where
  "aliasStoresAndLoadsOfMemoryLocation stores loads =
     concat (map (\<lambda>st. concat (map (\<lambda>other. [addedEdge st other WAW, addedEdge other st WAW]) stores)) stores) @
     concat (map (\<lambda>st. concat (map (\<lambda>load. [addedEdge st load RAW, addedEdge load st WAR]) loads)) stores)"

definition constructTaskInternalDependenceGraphFromOriginalLoopDG :: "helix_dg \<Rightarrow> dg_edge list result" where
  "constructTaskInternalDependenceGraphFromOriginalLoopDG D =
     (case copyEdges D (edgesToCopy D) of
        Inl err \<Rightarrow> Inl err
      | Inr copied \<Rightarrow>
          Inr (constructEdgesFromUseDefs D @ constructEdgesFromControlForFunction D @ copied @
               concat (map (\<lambda>(stores, loads). aliasStoresAndLoadsOfMemoryLocation stores loads) (spillAccesses D))))"

section \<open>The dependences of the task\<close>

text \<open>
  What NOELLE's graph of the loop and the task promise: the graph's nodes are the instructions of the
  loop, a memory dependence is between instructions that access memory, and the task holds the clones of
  the instructions that \<open>cloneSequentialLoop\<close> keeps and that access memory (the spiller erases PHI nodes
  only).
\<close>

definition dg_ok :: "helix_dg \<Rightarrow> nat list list \<Rightarrow> bool" where
  "dg_ok D loopBlocks \<longleftrightarrow>
     set (loopNodes D) = set (concat loopBlocks) \<and>
     (\<forall>v \<in> set (loopNodes D). \<forall>e \<in> set (outgoingEdges D v). edgeSrc e = v \<and>
        (isMemoryDependence (edgeKind e) \<longrightarrow> (\<exists>must d. edgeKind e = MemoryDependence must d) \<and>
           accessesMemory (valueKind D v) \<and> accessesMemory (valueKind D (edgeDst e)))) \<and>
     (\<forall>i \<in> set (cloneSequentialLoop (valueKind D) loopBlocks). accessesMemory (valueKind D i) \<longrightarrow>
        (\<exists>c \<in> set (taskValues D). cloneInTask D i = Some c))"

text \<open>The memory dependences of the loop that matter, and the clone of one.\<close>

definition loopMemoryDependence :: "helix_dg \<Rightarrow> dg_edge \<Rightarrow> bool" where
  "loopMemoryDependence D e \<longleftrightarrow>
     edgeSrc e \<in> set (loopNodes D) \<and> edgeDst e \<in> set (loopNodes D) \<and> e \<in> set (outgoingEdges D (edgeSrc e)) \<and>
     isMemoryDependence (edgeKind e) \<and> \<not> isLifetime (valueKind D (edgeSrc e)) \<and> \<not> isLifetime (valueKind D (edgeDst e))"

definition cloneOfEdge :: "helix_dg \<Rightarrow> dg_edge \<Rightarrow> dg_edge" where
  "cloneOfEdge D e =
     e\<lparr>edgeSrc := the (cloneInTask D (edgeSrc e)), edgeDst := the (cloneInTask D (edgeDst e)), isLoopCarried := False\<rparr>"

lemma dg_ok_edge:
  assumes "dg_ok D loopBlocks" "v \<in> set (loopNodes D)" "e \<in> set (outgoingEdges D v)"
  shows "edgeSrc e = v"
    and "isMemoryDependence (edgeKind e) \<Longrightarrow> accessesMemory (valueKind D v)"
    and "isMemoryDependence (edgeKind e) \<Longrightarrow> accessesMemory (valueKind D (edgeDst e))"
    and "isMemoryDependence (edgeKind e) \<Longrightarrow> \<exists>must d. edgeKind e = MemoryDependence must d"
  using assms(1) [unfolded dg_ok_def, THEN conjunct2, THEN conjunct1, rule_format, OF assms(2,3)] by blast+

lemma dg_ok_clone:
  assumes "dg_ok D loopBlocks" "i \<in> set (loopNodes D)" "\<not> isLifetime (valueKind D i)"
    "accessesMemory (valueKind D i)"
  obtains c where "c \<in> set (taskValues D)" "cloneInTask D i = Some c"
proof -
  have "set (loopNodes D) = set (concat loopBlocks)" using assms(1) unfolding dg_ok_def by (rule conjunct1)
  then have "i \<in> set (cloneSequentialLoop (valueKind D) loopBlocks)"
    using assms(2,3) unfolding cloneSequentialLoop_def keepsInstruction_def set_filter by blast
  from assms(1) [unfolded dg_ok_def, THEN conjunct2, THEN conjunct2, rule_format, OF this assms(4)]
  show thesis using that by blast
qed

lemma edgesToCopy_iff:
  assumes "dg_ok D loopBlocks"
  shows "e \<in> set (edgesToCopy D) \<longleftrightarrow> loopMemoryDependence D e"
proof
  assume "e \<in> set (edgesToCopy D)"
  then obtain v where v: "v \<in> set (loopNodes D)" "e \<in> set (outgoingEdges D v)" "isCopied D e"
    by (auto simp: edgesToCopy_def split: if_splits)
  show "loopMemoryDependence D e"
    using v dg_ok_edge(1) [OF assms v(1,2)] by (simp add: loopMemoryDependence_def isCopied_def)
next
  assume e: "loopMemoryDependence D e"
  then have v: "edgeSrc e \<in> set (loopNodes D)" "e \<in> set (outgoingEdges D (edgeSrc e))"
    "isMemoryDependence (edgeKind e)" "isCopied D e"
    by (simp_all add: loopMemoryDependence_def isCopied_def)
  show "e \<in> set (edgesToCopy D)"
    using v dg_ok_edge(2) [OF assms v(1,2,3)] unfolding edgesToCopy_def by auto
qed

lemma copyEdge_clone:
  assumes "dg_ok D loopBlocks" "loopMemoryDependence D e"
  shows "copyEdgeUsingTaskClonedValues D e = Inr (cloneOfEdge D e)"
proof -
  have e: "edgeSrc e \<in> set (loopNodes D)" "edgeDst e \<in> set (loopNodes D)" "e \<in> set (outgoingEdges D (edgeSrc e))"
    "isMemoryDependence (edgeKind e)" "\<not> isLifetime (valueKind D (edgeSrc e))" "\<not> isLifetime (valueKind D (edgeDst e))"
    using assms(2) by (simp_all add: loopMemoryDependence_def)
  obtain src where src: "src \<in> set (taskValues D)" "cloneInTask D (edgeSrc e) = Some src"
    using dg_ok_clone [OF assms(1) e(1,5) dg_ok_edge(2) [OF assms(1) e(1,3,4)]] .
  obtain dst where dst: "dst \<in> set (taskValues D)" "cloneInTask D (edgeDst e) = Some dst"
    using dg_ok_clone [OF assms(1) e(2,6) dg_ok_edge(3) [OF assms(1) e(1,3,4)]] .
  show ?thesis using src dst by (simp add: copyEdgeUsingTaskClonedValues_def cloneOfEdge_def)
qed

lemma copyEdges_map:
  "\<forall>e \<in> set es. copyEdgeUsingTaskClonedValues D e = Inr (f e) \<Longrightarrow> copyEdges D es = Inr (map f es)"
  by (induction es) auto

lemma alias_stores:
  assumes "a \<in> set stores" "b \<in> set stores"
  shows "addedEdge a b WAW \<in> set (aliasStoresAndLoadsOfMemoryLocation stores loads)"
  unfolding aliasStoresAndLoadsOfMemoryLocation_def set_append set_concat set_map using assms by fastforce

lemma alias_loads:
  assumes "a \<in> set stores" "b \<in> set loads"
  shows "addedEdge a b RAW \<in> set (aliasStoresAndLoadsOfMemoryLocation stores loads)"
    and "addedEdge b a WAR \<in> set (aliasStoresAndLoadsOfMemoryLocation stores loads)"
  unfolding aliasStoresAndLoadsOfMemoryLocation_def set_append set_concat set_map using assms by fastforce+

text \<open>
  C20: no assertion fails while HELIX builds the dependence graph of the task, although the clone of the
  loop leaves instructions out: those are the lifetime markers, whose dependences are not copied. The
  graph has the memory dependences of the loop between the clones, no others but those through spilled
  variables, and of two accesses to a spilled variable, one a store, each depends on the other.
\<close>

theorem helix_dependences_copied:
  assumes "dg_ok D loopBlocks"
  shows "\<exists>es. constructTaskInternalDependenceGraphFromOriginalLoopDG D = Inr es \<and>
    {e \<in> set es. \<exists>must d. edgeKind e = MemoryDependence must d} = cloneOfEdge D ` {e. loopMemoryDependence D e} \<and>
    (\<forall>(stores, loads) \<in> set (spillAccesses D).
       (\<forall>a \<in> set stores. \<forall>b \<in> set stores. addedEdge a b WAW \<in> set es) \<and>
       (\<forall>a \<in> set stores. \<forall>b \<in> set loads. addedEdge a b RAW \<in> set es \<and> addedEdge b a WAR \<in> set es))"
proof -
  have copied: "copyEdges D (edgesToCopy D) = Inr (map (cloneOfEdge D) (edgesToCopy D))"
    by (rule copyEdges_map) (use copyEdge_clone [OF assms] edgesToCopy_iff [OF assms] in blast)
  define spilled where "spilled = concat (map (\<lambda>(stores, loads). aliasStoresAndLoadsOfMemoryLocation stores loads) (spillAccesses D))"
  define es where "es = constructEdgesFromUseDefs D @ constructEdgesFromControlForFunction D @
    map (cloneOfEdge D) (edgesToCopy D) @ spilled"
  have es: "constructTaskInternalDependenceGraphFromOriginalLoopDG D = Inr es"
    by (simp add: constructTaskInternalDependenceGraphFromOriginalLoopDG_def copied es_def spilled_def)
  have other: "edgeKind e \<noteq> MemoryDependence must d"
    if "e \<in> set (constructEdgesFromUseDefs D) \<union> set (constructEdgesFromControlForFunction D) \<union> set spilled" for e must d
    using that
    by (auto simp: constructEdgesFromUseDefs_def constructEdgesFromControlForFunction_def controlEdgesOf_def spilled_def
        aliasStoresAndLoadsOfMemoryLocation_def addedEdge_def split: if_splits)
  have memory: "\<exists>must d. edgeKind (cloneOfEdge D e) = MemoryDependence must d" if "e \<in> set (edgesToCopy D)" for e
  proof -
    have "loopMemoryDependence D e" using that edgesToCopy_iff [OF assms] by blast
    then have "edgeSrc e \<in> set (loopNodes D)" "e \<in> set (outgoingEdges D (edgeSrc e))" "isMemoryDependence (edgeKind e)"
      by (simp_all add: loopMemoryDependence_def)
    from dg_ok_edge(4) [OF assms this] show ?thesis by (simp add: cloneOfEdge_def)
  qed
  have "{e \<in> set es. \<exists>must d. edgeKind e = MemoryDependence must d} = cloneOfEdge D ` set (edgesToCopy D)"
    using other memory unfolding es_def by auto
  also have "set (edgesToCopy D) = {e. loopMemoryDependence D e}" using edgesToCopy_iff [OF assms] by blast
  finally have "{e \<in> set es. \<exists>must d. edgeKind e = MemoryDependence must d} = cloneOfEdge D ` {e. loopMemoryDependence D e}" .
  moreover have "(\<forall>a \<in> set stores. \<forall>b \<in> set stores. addedEdge a b WAW \<in> set es) \<and>
      (\<forall>a \<in> set stores. \<forall>b \<in> set loads. addedEdge a b RAW \<in> set es \<and> addedEdge b a WAR \<in> set es)"
    if "(stores, loads) \<in> set (spillAccesses D)" for stores loads
  proof -
    have "set (aliasStoresAndLoadsOfMemoryLocation stores loads) \<subseteq> set es"
      using that by (auto simp: es_def spilled_def)
    then show ?thesis by (intro conjI ballI; elim subsetD; intro alias_stores alias_loads)
  qed
  ultimately show ?thesis using es by (intro exI [of _ es]) auto
qed

text \<open>
  A loop of a store 1, a load 2 and a lifetime marker 3, which memory dependences relate; the task has the
  clones 11 and 12, a load 13 and a store 14 of a spilled variable.
\<close>

definition memoryEdge :: "nat \<Rightarrow> nat \<Rightarrow> dg_edge" where
  "memoryEdge a b = \<lparr>edgeSrc = a, edgeDst = b, edgeKind = MemoryDependence False RAW, isLoopCarried = True\<rparr>"

definition exampleDg :: helix_dg where
  "exampleDg =
     \<lparr>taskValues = [11, 12, 13, 14], usersOf = (\<lambda>v. if v = 13 then [14] else []), isInstOrArgument = (\<lambda>v. True),
      taskBlocks = [0], blockInsts = (\<lambda>b. [11, 12, 13, 14]), blockPredecessors = (\<lambda>b. []),
      postDominatedBy = (\<lambda>b. [b]), strictlyPostDominates = (\<lambda>b c. False), loopNodes = [1, 2, 3],
      outgoingEdges = (\<lambda>v. if v = 1 then [memoryEdge 1 2, memoryEdge 1 3] else []),
      valueKind = (\<lambda>v. if v = 1 then StoreValue else if v = 2 then LoadValue else if v = 3 then CallValue True else OtherValue),
      cloneInTask = [1 \<mapsto> 11, 2 \<mapsto> 12], spillAccesses = [([14], [13])]\<rparr>"

lemma exampleDg_ok: "dg_ok exampleDg [[1, 2, 3]]"
  by (auto simp: dg_ok_def exampleDg_def memoryEdge_def cloneSequentialLoop_def keepsInstruction_def isLifetime_def)

lemma helix_dependences_copied_witness:
  "\<exists>es. constructTaskInternalDependenceGraphFromOriginalLoopDG exampleDg = Inr es \<and>
     addedEdge 14 13 RAW \<in> set es \<and> addedEdge 13 14 WAR \<in> set es"
  using helix_dependences_copied [OF exampleDg_ok] by (auto simp: exampleDg_def)

section \<open>Control dependences\<close>

text \<open>Paths from a block to the end of the task, and post-dominance by them.\<close>

fun exitPath :: "helix_dg \<Rightarrow> nat list \<Rightarrow> bool" where
  "exitPath D [] = False"
| "exitPath D [b] \<longleftrightarrow> (\<forall>c \<in> set (taskBlocks D). b \<notin> set (blockPredecessors D c))"
| "exitPath D (b # c # p) \<longleftrightarrow> b \<in> set (blockPredecessors D c) \<and> exitPath D (c # p)"

definition passesThrough :: "helix_dg \<Rightarrow> nat \<Rightarrow> nat \<Rightarrow> bool" where
  "passesThrough D b c \<longleftrightarrow> (\<forall>p. exitPath D (c # p) \<longrightarrow> b \<in> set (c # p))"

definition postDominators_ok :: "helix_dg \<Rightarrow> bool" where
  "postDominators_ok D \<longleftrightarrow>
     (\<forall>b \<in> set (taskBlocks D). set (postDominatedBy D b) = {c \<in> set (taskBlocks D). passesThrough D b c}) \<and>
     (\<forall>b \<in> set (taskBlocks D). \<forall>c. strictlyPostDominates D b c \<longleftrightarrow> b \<noteq> c \<and> passesThrough D b c)"

text \<open>
  An instruction depends on a branch exactly if one way out of the branch always leads to its block and
  another way from the branch to the end of the task does not, or the branch ends the block itself.
\<close>

theorem helix_control_dependences:
  assumes "postDominators_ok D"
  shows "(\<exists>e \<in> set (constructEdgesFromControlForFunction D). edgeSrc e = t \<and> edgeDst e = i) \<longleftrightarrow>
    (\<exists>b \<in> set (taskBlocks D). \<exists>succ \<in> set (taskBlocks D). \<exists>pred \<in> set (blockPredecessors D succ).
       i \<in> set (blockInsts D b) \<and> t = last (blockInsts D pred) \<and> passesThrough D b succ \<and>
       (b = pred \<or> (\<exists>p. exitPath D (pred # p) \<and> b \<notin> set (pred # p))))"
proof -
  have strict: "\<not> strictlyPostDominates D b pred \<longleftrightarrow> b = pred \<or> (\<exists>p. exitPath D (pred # p) \<and> b \<notin> set (pred # p))"
    if "b \<in> set (taskBlocks D)" for b pred
    using assms that unfolding postDominators_ok_def passesThrough_def by metis
  have "(\<exists>e \<in> set (constructEdgesFromControlForFunction D). edgeSrc e = t \<and> edgeDst e = i) \<longleftrightarrow>
      (\<exists>b \<in> set (taskBlocks D). \<exists>succ \<in> set (postDominatedBy D b). \<exists>pred \<in> set (blockPredecessors D succ).
         \<not> strictlyPostDominates D b pred \<and> i \<in> set (blockInsts D b) \<and> t = last (blockInsts D pred))"
    by (force simp: constructEdgesFromControlForFunction_def controlEdgesOf_def split: if_splits)
  also have "\<dots> \<longleftrightarrow> (\<exists>b \<in> set (taskBlocks D). \<exists>succ \<in> {c \<in> set (taskBlocks D). passesThrough D b c}.
      \<exists>pred \<in> set (blockPredecessors D succ). \<not> strictlyPostDominates D b pred \<and> i \<in> set (blockInsts D b) \<and>
        t = last (blockInsts D pred))"
    using assms unfolding postDominators_ok_def by (metis (no_types, lifting))
  finally show ?thesis using strict by blast
qed

end
